(* ===== verification/Prelude.thy ===== *)
theory Prelude
  imports Complex_Main "HOL-Library.Word"
begin

text \<open>
  Shared vocabulary of the development: the machine types of the C++ code, the loop shapes
  (\<open>for\<close> with a stride, the split of an index range over workers), writes into memory regions,
  C's truncating division, and the generic lemmas about them that the components use.
\<close>

unbundle bit_operations_syntax

type_synonym u8 = "8 word"
type_synonym u16 = "16 word"
type_synonym u32 = "32 word"
type_synonym u64 = "64 word"

named_theorems loop_simps \<open>what a counted loop leaves behind\<close>
named_theorems word_facts \<open>conversions between machine words and numbers\<close>

section \<open>C arithmetic\<close>

text \<open>
  C's integer division truncates towards zero. \<open>GGML_PAD(x, n)\<close> is the mask form \<open>(x + n - 1) & ~(n - 1)\<close> in
  \<open>ggml.h\<close>; every \<open>n\<close> it is used with is a power of two, where that rounds up to a multiple.
\<close>

definition c_div :: "int \<Rightarrow> int \<Rightarrow> int" where
  "c_div a b = sgn a * sgn b * (\<bar>a\<bar> div \<bar>b\<bar>)"

definition GGML_PAD :: "nat \<Rightarrow> nat \<Rightarrow> nat" where
  "GGML_PAD x n = (x + n - 1) div n * n"

lemma c_div_nonneg: "0 \<le> a \<Longrightarrow> 0 < b \<Longrightarrow> c_div a b = a div b"
  by (auto simp: c_div_def sgn_if)

lemma GGML_PAD_ge: "0 < n \<Longrightarrow> x \<le> GGML_PAD x n"
proof -
  assume n: "0 < n"
  have "(x + n - 1) mod n < n" using n by simp
  moreover have "(x + n - 1) div n * n + (x + n - 1) mod n = x + n - 1" by simp
  ultimately show ?thesis unfolding GGML_PAD_def by linarith
qed

lemma GGML_PAD_dvd: "n dvd GGML_PAD x n"
  by (simp add: GGML_PAD_def)

lemma GGML_PAD_lt: "0 < n \<Longrightarrow> GGML_PAD x n < x + n"
proof -
  assume n: "0 < n"
  have "(x + n - 1) div n * n \<le> x + n - 1" by simp
  with n show ?thesis unfolding GGML_PAD_def by linarith
qed


section \<open>Loops over index ranges\<close>

text \<open>The indices a loop \<open>for (i = i0; i < n; i += step)\<close> visits.\<close>

function strided :: "nat \<Rightarrow> nat \<Rightarrow> nat \<Rightarrow> nat list" where
  "strided i step n = (if i < n \<and> 0 < step then i # strided (i + step) step n else [])"
  by pat_completeness auto
termination by (relation "measure (\<lambda>(i, step, n). n - i)") auto

declare strided.simps [simp del]

lemma strided_unfold:
  "i < n \<Longrightarrow> 0 < step \<Longrightarrow> strided i step n = i # strided (i + step) step n"
  "n \<le> i \<Longrightarrow> strided i step n = []"
  by (simp_all add: strided.simps [of i step n])

lemma set_strided:
  "0 < step \<Longrightarrow> set (strided i step n) = {j. i \<le> j \<and> j < n \<and> (j - i) mod step = 0}"
proof (induction i step n rule: strided.induct)
  case (1 i step n)
  show ?case
  proof (cases "i < n")
    case True
    have eq: "{j. i \<le> j \<and> j < n \<and> (j - i) mod step = 0} =
        insert i {j. i + step \<le> j \<and> j < n \<and> (j - (i + step)) mod step = 0}" (is "?L = ?R")
    proof (intro equalityI subsetI)
      fix j assume j: "j \<in> ?L"
      show "j \<in> ?R"
      proof (cases "j = i")
        case False
        with j have "step dvd j - i" "0 < j - i" by (auto simp: mod_eq_0_iff_dvd)
        then have "step \<le> j - i" by (simp add: dvd_imp_le)
        with j show ?thesis
          by (auto simp: mod_eq_0_iff_dvd simp flip: diff_diff_left)
      qed simp
    next
      fix j assume j: "j \<in> ?R"
      then show "j \<in> ?L"
      proof (cases "j = i")
        case False
        with j have le: "i + step \<le> j" "j < n" and d: "step dvd j - (i + step)"
          by (auto simp: mod_eq_0_iff_dvd)
        then have "j - i = (j - (i + step)) + step" by simp
        with d have "step dvd j - i" by simp
        with le show ?thesis by (auto simp: mod_eq_0_iff_dvd)
      qed (use True in simp)
    qed
    with True 1 show ?thesis by (simp add: strided_unfold)
  next
    case False
    then show ?thesis by (auto simp: strided_unfold)
  qed
qed

lemma set_strided_worker [loop_simps]:
  assumes "ith < nthr"
  shows "set (strided ith nthr n) = {j. j < n \<and> j mod nthr = ith}"
proof -
  have "ith \<le> j \<and> j < n \<and> (j - ith) mod nthr = 0 \<longleftrightarrow> j < n \<and> j mod nthr = ith" for j
  proof
    assume h: "ith \<le> j \<and> j < n \<and> (j - ith) mod nthr = 0"
    then have "j mod nthr = ith mod nthr" by (metis mod_eq_dvd_iff_nat mod_eq_0_iff_dvd)
    with h assms show "j < n \<and> j mod nthr = ith" by simp
  next
    assume h: "j < n \<and> j mod nthr = ith"
    then have "ith \<le> j" by auto
    moreover from h have "(j - ith) mod nthr = 0"
      by (metis minus_mod_eq_mult_div mod_mult_self1_is_0)
    ultimately show "ith \<le> j \<and> j < n \<and> (j - ith) mod nthr = 0" using h by simp
  qed
  with assms show ?thesis by (auto simp: set_strided)
qed

lemma strided_one: "strided i 1 n = [i..<n]"
proof (induction "n - i" arbitrary: i)
  case 0
  then show ?case by (simp add: strided_unfold)
next
  case (Suc x)
  then have "i < n" by linarith
  then show ?case using Suc(1) [of "Suc i"] Suc(2) by (simp add: strided_unfold upt_conv_Cons)
qed

lemmas strided_Suc_0 [simp] = strided_one [unfolded One_nat_def]

lemma fold_id_const [simp]: "fold (\<lambda>_. id) xs = id"
  by (induction xs) auto

text \<open>The contiguous share of worker \<open>ith\<close> of \<open>nthr\<close>: \<open>[jobs * ith / nthr, jobs * (ith + 1) / nthr)\<close>.\<close>

definition worker_range :: "nat \<Rightarrow> nat \<Rightarrow> nat \<Rightarrow> nat \<times> nat" where
  "worker_range jobs ith nthr = (jobs * ith div nthr, jobs * (ith + 1) div nthr)"

lemma div_between_unique:
  fixes jobs nthr j :: nat
  assumes "0 < nthr" and j: "j < jobs"
  shows "\<exists>!ith. ith < nthr \<and> jobs * ith div nthr \<le> j \<and> j < jobs * (ith + 1) div nthr"
proof -
  have iff: "jobs * i div nthr \<le> j \<longleftrightarrow> jobs * i < nthr * (j + 1)" for i
  proof -
    have "jobs * i div nthr < Suc j \<longleftrightarrow> jobs * i < Suc j * nthr"
      using assms(1) by (rule div_less_iff_less_mult)
    then show ?thesis by (simp add: less_Suc_eq_le mult.commute)
  qed
  define P where "P i \<longleftrightarrow> jobs * i < nthr * (j + 1)" for i
  have mono: "P i" if "P i'" "i \<le> i'" for i i'
    using that unfolding P_def by (meson le_less_trans mult_le_mono2)
  have P0: "P 0" using assms by (simp add: P_def)
  have "nthr * (j + 1) \<le> nthr * jobs" using j by (intro mult_le_mono) auto
  then have Pn: "\<not> P nthr" by (simp add: P_def mult.commute not_less)
  define i where "i = (LEAST i. \<not> P i)"
  have ni: "\<not> P i" unfolding i_def using Pn by (rule LeastI)
  then obtain i0 where i0: "i = Suc i0" using P0 by (cases i) auto
  have Pi0: "P i0" using i0 not_less_Least [of i0 "\<lambda>i. \<not> P i"] by (simp add: i_def)
  have lt: "i0 < nthr" using Pi0 Pn mono by (meson linorder_not_less)
  show ?thesis
  proof (rule ex1I [of _ i0])
    show "i0 < nthr \<and> jobs * i0 div nthr \<le> j \<and> j < jobs * (i0 + 1) div nthr"
      using lt Pi0 ni i0 iff [of i0] iff [of "i0 + 1"] by (simp add: P_def not_le)
  next
    fix k assume k: "k < nthr \<and> jobs * k div nthr \<le> j \<and> j < jobs * (k + 1) div nthr"
    then have "P k" "\<not> P (Suc k)" using iff [of k] iff [of "k + 1"] by (simp_all add: P_def)
    with Pi0 ni i0 mono show "k = i0" by (metis Suc_leI linorder_neqE_nat)
  qed
qed

section \<open>Writes to memory\<close>

text \<open>
  A memory region is a function from offsets to cells. \<open>store_at base vs m\<close> is \<open>memcpy\<close> of the
  array \<open>vs\<close> to offset \<open>base\<close>.
\<close>

definition store_at :: "nat \<Rightarrow> 'v list \<Rightarrow> (nat \<Rightarrow> 'v) \<Rightarrow> nat \<Rightarrow> 'v" where
  "store_at base vs m = (\<lambda>a. if base \<le> a \<and> a < base + length vs then vs ! (a - base) else m a)"

lemma store_at_in [simp]: "i < length vs \<Longrightarrow> store_at base vs m (base + i) = vs ! i"
  by (simp add: store_at_def)

lemma store_at_out: "a < base \<or> base + length vs \<le> a \<Longrightarrow> store_at base vs m a = m a"
  by (auto simp: store_at_def)

text \<open>
  Records written at a fixed pitch: after a loop that stores \<open>f g\<close> (of length \<open>w\<close>) at \<open>g * w\<close> for
  the indices \<open>g\<close> of a list, exactly the records of these indices hold their new value, in
  whatever order the loop visits them.
\<close>

lemma fold_store_at:
  assumes "\<And>g. length (f g) = w" and "0 < w"
  shows "fold (\<lambda>g m. store_at (g * w) (f g) m) gs m a =
    (if a div w \<in> set gs then f (a div w) ! (a mod w) else m a)"
proof (induction gs arbitrary: m)
  case Nil
  show ?case by simp
next
  case (Cons g gs)
  have key: "g * w \<le> a \<and> a < g * w + w \<longleftrightarrow> a div w = g"
    using assms(2) by (metis add.commute div_nat_eqI dividend_less_times_div mult.commute
        mult_Suc times_div_less_eq_dividend)
  have "store_at (g * w) (f g) m a = (if a div w = g then f g ! (a mod w) else m a)"
    using key assms(1) by (auto simp: store_at_def minus_mult_div_eq_mod mult.commute
        simp flip: minus_mult_div_eq_mod)
  with Cons show ?case by auto
qed

lemma fold_fun_upd:
  "fold (\<lambda>i m. m(i := f i)) is m = (\<lambda>j. if j \<in> set is then f j else m j)"
  by (induction "is" arbitrary: m) auto

lemma fold_upd_key:
  assumes "inj key"
  shows "fold (\<lambda>w. fold (\<lambda>i m. m(key i := f i)) (g w)) ws m (key j) =
    (if \<exists>w\<in>set ws. j \<in> set (g w) then f j else m (key j))"
proof -
  have one: "fold (\<lambda>i m. m(key i := f i)) xs m (key j) = (if j \<in> set xs then f j else m (key j))" for xs m
    by (induction xs arbitrary: m) (use assms in \<open>auto simp: inj_eq\<close>)
  show ?thesis by (induction ws arbitrary: m) (auto simp: one)
qed

lemma worker_ranges_cover:
  fixes j :: nat
  assumes "0 < nthr" "set ws = {..<nthr}"
  shows "(\<exists>w\<in>set ws. j \<in> set [jobs * w div nthr..<jobs * (w + 1) div nthr]) \<longleftrightarrow> j < jobs"
proof
  assume "\<exists>w\<in>set ws. j \<in> set [jobs * w div nthr..<jobs * (w + 1) div nthr]"
  then obtain w where w: "w + 1 \<le> nthr" "j < jobs * (w + 1) div nthr"
    unfolding assms(2) set_upt by (auto simp only: Suc_eq_plus1 [symmetric] lessThan_iff atLeastLessThan_iff Suc_le_eq)
  have "jobs * (w + 1) div nthr \<le> jobs * nthr div nthr"
    by (rule div_le_mono, rule mult_le_mono2, rule w(1))
  with w(2) assms(1) show "j < jobs" by simp
next
  assume "j < jobs"
  from div_between_unique [OF assms(1) this] show "\<exists>w\<in>set ws. j \<in> set [jobs * w div nthr..<jobs * (w + 1) div nthr]"
    using assms(2) by auto
qed

lemma strided_cover:
  assumes "0 < nthr" "set ws = {..<nthr}"
  shows "(\<exists>w\<in>set ws. j \<in> set (strided w nthr n)) \<longleftrightarrow> j < n"
proof -
  have "j \<in> set (strided w nthr n) \<longleftrightarrow> j < n \<and> j mod nthr = w" if "w < nthr" for w
    using that by (simp add: set_strided_worker)
  then show ?thesis using assms by auto
qed

lemma fold_worker_ranges:
  assumes "inj key" "0 < nthr" "set ws = {..<nthr}" "j < jobs"
  shows "fold (\<lambda>w. fold (\<lambda>i m. m(key i := f i)) [jobs * w div nthr..<jobs * (w + 1) div nthr]) ws m (key j) = f j"
  unfolding fold_upd_key [OF assms(1)] worker_ranges_cover [OF assms(2,3)] using assms(4) by simp

lemma fold_worker_strided:
  assumes "inj key" "0 < nthr" "set ws = {..<nthr}" "j < n"
  shows "fold (\<lambda>w. fold (\<lambda>i m. m(key i := f i)) (strided w nthr n)) ws m (key j) = f j"
  unfolding fold_upd_key [OF assms(1)] strided_cover [OF assms(2,3)] using assms(4) by simp

lemma fold_add_int:
  "fold (\<lambda>i (s::int). s + f i) is s = s + (\<Sum>i\<leftarrow>is. f i)"
  by (induction "is" arbitrary: s) auto

lemma sum_list_upt: "(\<Sum>i\<leftarrow>[a..<b]. f i) = (\<Sum>i = a..<b. f i)"
  by (simp add: interv_sum_list_conv_sum_set_nat)


lemma fold_store_at_off:
  assumes "\<And>g. length (f g) = w" and "0 < w"
  shows "fold (\<lambda>g m. store_at (b * w + g * w) (f g) m) gs m a =
    (if b \<le> a div w \<and> a div w - b \<in> set gs then f (a div w - b) ! (a mod w) else m a)"
proof -
  have "fold (\<lambda>g m. store_at (b * w + g * w) (f g) m) gs m a =
      fold (\<lambda>h m. store_at (h * w) (f (h - b)) m) (map (\<lambda>g. b + g) gs) m a"
    by (simp add: fold_map comp_def distrib_right)
  also have "\<dots> = (if a div w \<in> set (map (\<lambda>g. b + g) gs) then f (a div w - b) ! (a mod w) else m a)"
    by (rule fold_store_at) (use assms in auto)
  finally show ?thesis by (auto simp: image_iff)
qed

lemma div_mod_block:
  fixes e w :: nat
  assumes "e < w"
  shows "(x * w + e) div w = x" and "(x * w + e) mod w = e"
  using assms by simp_all

text \<open>
  Records laid out in columns of \<open>c\<close> records: writing the records \<open>gs\<close> of the columns \<open>cols\<close>.
\<close>

lemma fold_store_columns:
  assumes "\<And>col g. length (f col g) = w" and "0 < w" and "set gs \<subseteq> {..<c}"
  shows "fold (\<lambda>col. fold (\<lambda>g m. store_at (col * c * w + g * w) (f col g) m) gs) cols m a =
    (if a div w div c \<in> set cols \<and> a div w mod c \<in> set gs
     then f (a div w div c) (a div w mod c) ! (a mod w) else m a)"
proof (induction cols arbitrary: m)
  case Nil
  show ?case by simp
next
  case (Cons col cols)
  have key: "col * c \<le> x \<and> x - col * c \<in> set gs \<longleftrightarrow> x div c = col \<and> x mod c \<in> set gs" for x
  proof
    assume h: "col * c \<le> x \<and> x - col * c \<in> set gs"
    then have "x - col * c < c" using assms(3) by auto
    with h have "x = col * c + (x - col * c)" by simp
    then have "x div c = col \<and> x mod c = x - col * c" using \<open>x - col * c < c\<close>
      by (metis add.commute add.right_neutral div_less div_mult_self1 mod_less mod_mult_self3 not_less_zero)
    with h show "x div c = col \<and> x mod c \<in> set gs" by simp
  next
    assume h: "x div c = col \<and> x mod c \<in> set gs"
    then have "x mod c = x - col * c" by (metis minus_div_mult_eq_mod)
    with h show "col * c \<le> x \<and> x - col * c \<in> set gs" by (metis div_times_less_eq_dividend)
  qed
  have one: "fold (\<lambda>g m. store_at (col * c * w + g * w) (f col g) m) gs m a =
      (if a div w div c = col \<and> a div w mod c \<in> set gs then f col (a div w mod c) ! (a mod w) else m a)"
    using fold_store_at_off [of "f col" w "col * c" gs m a, OF assms(1,2)] key [of "a div w"]
    by (auto simp: minus_div_mult_eq_mod)
  show ?case using Cons.IH one by auto
qed

lemma fun_upd_pair: "s(b := x, Suc b := y) = store_at b [x, y] s"
  by (rule ext) (auto simp: store_at_def nth_Cons split: nat.splits)

lemma fold_pair: "fold (\<lambda>x (a, b). (f x a, g x b)) xs (a, b) = (fold f xs a, fold g xs b)"
  by (induction xs arbitrary: a b) auto

lemma sum_blocks:
  fixes f :: "nat \<Rightarrow> 'a :: comm_monoid_add"
  shows "(\<Sum>i<n * k. f i) = (\<Sum>b<n. \<Sum>j<k. f (b * k + j))"
proof -
  have "sum f {b * k..<b * k + k} = (\<Sum>j<k. f (b * k + j))" for b
    by (rule sum.reindex_bij_witness [of _ "\<lambda>j. b * k + j" "\<lambda>i. i - b * k"]) auto
  then show ?thesis using sum.nat_group [of f k n] by (simp add: mult.commute)
qed

end
