(* ===== verification/IFairy_Codes.thy ===== *)
theory IFairy_Codes
  imports Prelude
begin

text \<open>
  The iFairy weight formats of \<^verbatim>\<open>ggml-common.h\<close> and their 2-weight index encoding of
  \<^verbatim>\<open>ggml-quants.c\<close>. A weight is a 2-bit phase code (\<open>0 = -1, 1 = +1, 2 = -i, 3 = +i\<close>); four codes
  share a byte, sixteen lanes apart. Two weights of a row form a group, whose 4-bit pattern
  \<open>c0 | (c1 << 2)\<close> indexes the lookup tables of \<^verbatim>\<open>IFairy_Lut\<close>. The laws both formats satisfy
  are the locale \<open>two_weight_format\<close>.
\<close>

section \<open>Blocks\<close>

abbreviation (input) QK_IFAIRY :: nat where "QK_IFAIRY \<equiv> 256"
abbreviation (input) QK_IFAIRY_GROUPS_PER_BLOCK :: nat where "QK_IFAIRY_GROUPS_PER_BLOCK \<equiv> 128"
abbreviation (input) QK_IFAIRY64 :: nat where "QK_IFAIRY64 \<equiv> 64"
abbreviation (input) QK_IFAIRY64_GROUPS_PER_BLOCK :: nat where "QK_IFAIRY64_GROUPS_PER_BLOCK \<equiv> 32"
abbreviation (input) SIZE_MAX :: nat where "SIZE_MAX \<equiv> 2 ^ 64 - 1"

record block_ifairy =
  qs :: "u8 list"
  d_real :: u16
  d_imag :: u16

record block_ifairy64 =
  qs64 :: "u8 list"
  d_real64 :: u16
  d_imag64 :: u16

definition wf_block_ifairy :: "block_ifairy \<Rightarrow> bool" where
  "wf_block_ifairy b \<longleftrightarrow> length (qs b) = QK_IFAIRY div 4"

definition wf_block_ifairy64 :: "block_ifairy64 \<Rightarrow> bool" where
  "wf_block_ifairy64 b \<longleftrightarrow> length (qs64 b) = QK_IFAIRY64 div 4"

section \<open>Reading and packing codes\<close>

text \<open>\<open>GGML_ASSERT\<close> aborts: \<open>None\<close>.\<close>

definition ggml_ifairy_pack_pair_direct :: "u8 \<Rightarrow> u8 \<Rightarrow> u8 option" where
  "ggml_ifairy_pack_pair_direct c0 c1 =
     (if c0 < 4 \<and> c1 < 4 then Some (c0 OR push_bit 2 c1) else None)"

definition ggml_ifairy_read_code :: "block_ifairy list \<Rightarrow> nat \<Rightarrow> u8" where
  "ggml_ifairy_read_code row_blocks idx =
     (let block_idx = idx div QK_IFAIRY;
          idx_in_block = idx - block_idx * QK_IFAIRY;
          chunk = idx_in_block div 64;
          lane = idx_in_block mod 16;
          part = idx_in_block div 16 mod 4;
          packed = qs (row_blocks ! block_idx) ! (chunk * 16 + lane)
      in drop_bit (2 * part) packed AND 3)"

definition ggml_ifairy64_read_code :: "block_ifairy64 list \<Rightarrow> nat \<Rightarrow> u8" where
  "ggml_ifairy64_read_code row_blocks idx =
     (let block_idx = idx div QK_IFAIRY64;
          idx_in_block = idx - block_idx * QK_IFAIRY64;
          lane = idx_in_block mod 16;
          part = idx_in_block div 16;
          packed = qs64 (row_blocks ! block_idx) ! lane
      in drop_bit (2 * part) packed AND 3)"

section \<open>The index buffer\<close>

record ggml_ifairy_2w_index_info =
  info_k :: nat
  groups_per_row :: nat

definition ggml_ifairy_2w_get_index_info :: "nat \<Rightarrow> ggml_ifairy_2w_index_info option" where
  "ggml_ifairy_2w_get_index_info k =
     (if k > 0 \<and> k mod QK_IFAIRY = 0
      then Some \<lparr>info_k = k, groups_per_row = k div QK_IFAIRY * QK_IFAIRY_GROUPS_PER_BLOCK\<rparr>
      else None)"

definition ggml_ifairy64_2w_get_index_info :: "nat \<Rightarrow> ggml_ifairy_2w_index_info option" where
  "ggml_ifairy64_2w_get_index_info k =
     (if k > 0 \<and> k mod QK_IFAIRY64 = 0
      then Some \<lparr>info_k = k, groups_per_row = k div QK_IFAIRY64 * QK_IFAIRY64_GROUPS_PER_BLOCK\<rparr>
      else None)"

definition ggml_ifairy_2w_index_buffer_size :: "ggml_ifairy_2w_index_info \<Rightarrow> nat \<Rightarrow> nat option" where
  "ggml_ifairy_2w_index_buffer_size info rows =
     (if rows > 0 \<and> groups_per_row info \<le> SIZE_MAX div rows
      then Some (groups_per_row info * rows) else None)"

text \<open>
  The encoder writes one byte per group, row after row, and clears the rest of the buffer.
  It returns \<open>false\<close> and leaves the buffer alone when the buffer is too small; an assertion
  that fails (of the encoder, or of a function it calls) aborts.
\<close>

fun all_some :: "'a option list \<Rightarrow> 'a list option" where
  "all_some [] = Some []"
| "all_some (None # xs) = None"
| "all_some (Some x # xs) = map_option (Cons x) (all_some xs)"

definition ggml_ifairy_2w_encode ::
    "block_ifairy list \<Rightarrow> nat \<Rightarrow> nat \<Rightarrow> u8 list \<Rightarrow> (bool \<times> u8 list) option" where
  "ggml_ifairy_2w_encode weights k rows dst =
     (if k > 0 \<and> rows > 0 \<and> k mod QK_IFAIRY = 0 then
        Option.bind (ggml_ifairy_2w_get_index_info k) (\<lambda>info.
        Option.bind (ggml_ifairy_2w_index_buffer_size info rows) (\<lambda>required.
          if length dst < required then Some (False, dst)
          else
            let blocks_per_row = k div QK_IFAIRY;
                groups_per_block = QK_IFAIRY_GROUPS_PER_BLOCK;
                cell = (\<lambda>row g.
                  let row_blocks = drop (row * blocks_per_row) weights;
                      blk = g div groups_per_block;
                      intra = g - blk * groups_per_block;
                      base = blk * QK_IFAIRY + intra * 2;
                      c0 = (if base < k then ggml_ifairy_read_code row_blocks base else 0);
                      c1 = (if base + 1 < k then ggml_ifairy_read_code row_blocks (base + 1) else 0)
                  in ggml_ifairy_pack_pair_direct c0 c1)
            in map_option (\<lambda>bytes. (True, bytes @ replicate (length dst - required) 0))
                 (all_some (concat (map (\<lambda>row. map (cell row) [0..<groups_per_row info]) [0..<rows])))))
      else None)"

definition ggml_ifairy64_2w_encode ::
    "block_ifairy64 list \<Rightarrow> nat \<Rightarrow> nat \<Rightarrow> u8 list \<Rightarrow> (bool \<times> u8 list) option" where
  "ggml_ifairy64_2w_encode weights k rows dst =
     (if k > 0 \<and> rows > 0 \<and> k mod QK_IFAIRY64 = 0 then
        Option.bind (ggml_ifairy64_2w_get_index_info k) (\<lambda>info.
        Option.bind (ggml_ifairy_2w_index_buffer_size info rows) (\<lambda>required.
          if length dst < required then Some (False, dst)
          else
            let blocks_per_row = k div QK_IFAIRY64;
                groups_per_block = QK_IFAIRY64_GROUPS_PER_BLOCK;
                cell = (\<lambda>row g.
                  let row_blocks = drop (row * blocks_per_row) weights;
                      blk = g div groups_per_block;
                      intra = g - blk * groups_per_block;
                      base = blk * QK_IFAIRY64 + intra * 2;
                      c0 = (if base < k then ggml_ifairy64_read_code row_blocks base else 0);
                      c1 = (if base + 1 < k then ggml_ifairy64_read_code row_blocks (base + 1) else 0)
                  in ggml_ifairy_pack_pair_direct c0 c1)
            in map_option (\<lambda>bytes. (True, bytes @ replicate (length dst - required) 0))
                 (all_some (concat (map (\<lambda>row. map (cell row) [0..<groups_per_row info]) [0..<rows])))))
      else None)"

section \<open>Facts about codes\<close>

lemma and_3_less_4: "(x AND 3 :: u8) < 4"
proof -
  have "x AND 3 \<le> (3 :: u8)" by (rule word_and_le1)
  then show ?thesis by unat_arith
qed

lemma read_code_less_4 [simp]: "ggml_ifairy_read_code bs i < 4"
  by (simp add: ggml_ifairy_read_code_def Let_def and_3_less_4)

lemma read_code64_less_4 [simp]: "ggml_ifairy64_read_code bs i < 4"
  by (simp add: ggml_ifairy64_read_code_def Let_def and_3_less_4)

lemma u8_less_4_cases: "(c :: u8) < 4 \<Longrightarrow> c = 0 \<or> c = 1 \<or> c = 2 \<or> c = 3"
  by unat_arith

definition pair_pattern :: "u8 \<Rightarrow> u8 \<Rightarrow> u8" where
  "pair_pattern c0 c1 = c0 OR push_bit 2 c1"

lemma unat_pair_pattern:
  assumes "c0 < 4" "c1 < 4"
  shows "unat (pair_pattern c0 c1) = unat c0 + 4 * unat c1"
  using u8_less_4_cases [OF assms(1)] u8_less_4_cases [OF assms(2)]
  by (elim disjE) (simp_all add: pair_pattern_def)

lemma pair_pattern_nibble:
  assumes "c0 < 4" "c1 < 4"
  shows "pair_pattern c0 c1 AND 15 = pair_pattern c0 c1"
  using u8_less_4_cases [OF assms(1)] u8_less_4_cases [OF assms(2)]
  by (elim disjE) (simp_all add: pair_pattern_def)

lemma all_some_map_Some: "all_some (map (\<lambda>x. Some (f x)) xs) = Some (map f xs)"
  by (induction xs) auto

lemma length_concat_map_const:
  "(\<And>x. x \<in> set xs \<Longrightarrow> length (f x) = n) \<Longrightarrow> length (concat (map f xs)) = n * length xs"
  by (induction xs) auto

lemma nth_concat_map_upt:
  "r < rows \<Longrightarrow> g < n \<Longrightarrow> concat (map (\<lambda>row. map (f row) [0..<n]) [0..<rows]) ! (r * n + g) = f r g"
proof (induction rows)
  case 0
  then show ?case by simp
next
  case (Suc rows)
  let ?c = "concat (map (\<lambda>row. map (f row) [0..<n]) [0..<rows])"
  have len: "length ?c = rows * n"
    by (subst length_concat_map_const [of _ _ n]) auto
  show ?case
  proof (cases "r < rows")
    case True
    then have "r * n + g < rows * n" using Suc.prems(2)
      by (metis add_less_cancel_left less_le_trans mult.commute mult_Suc_right mult_le_mono1
          Suc_leI add.commute)
    with True Suc show ?thesis by (simp add: nth_append len)
  next
    case False
    with Suc.prems have "r = rows" by simp
    with Suc.prems show ?thesis by (simp add: nth_append len)
  qed
qed

section \<open>The interface of a weight format\<close>

text \<open>
  What the table kernels rely on, whichever block type their template is instantiated with:
  a code reader with values below 4, and an encoder that leaves in byte \<open>row * groups + g\<close> the
  pattern of the codes \<open>2 * g\<close> and \<open>2 * g + 1\<close> of the row.
\<close>

locale two_weight_format =
  fixes qk :: nat
    and read_code :: "'b list \<Rightarrow> nat \<Rightarrow> u8"
    and encode :: "'b list \<Rightarrow> nat \<Rightarrow> nat \<Rightarrow> u8 list \<Rightarrow> (bool \<times> u8 list) option"
  assumes qk_even: "even qk" and qk_pos: "0 < qk"
    and code_less: "read_code bs i < 4"
    and encode_ok: "0 < k \<Longrightarrow> 0 < rows \<Longrightarrow> qk dvd k \<Longrightarrow> k div 2 * rows \<le> SIZE_MAX \<Longrightarrow>
      k div 2 * rows \<le> length dst \<Longrightarrow>
      encode ws k rows dst = Some (True,
        concat (map (\<lambda>row. map (\<lambda>g. pair_pattern
            (read_code (drop (row * (k div qk)) ws) (2 * g))
            (read_code (drop (row * (k div qk)) ws) (2 * g + 1))) [0..<k div 2]) [0..<rows])
        @ replicate (length dst - k div 2 * rows) 0)"
begin

lemma encode_nth:
  assumes "0 < k" "qk dvd k" "k div 2 * rows \<le> SIZE_MAX" "k div 2 * rows \<le> length dst"
    and "encode ws k rows dst = Some (ok, out)" and "row < rows" and "g < k div 2"
  shows "out ! (row * (k div 2) + g) = pair_pattern
    (read_code (drop (row * (k div qk)) ws) (2 * g)) (read_code (drop (row * (k div qk)) ws) (2 * g + 1))"
proof -
  have "0 < rows" using assms(6) by simp
  then have out: "out = concat (map (\<lambda>row. map (\<lambda>g. pair_pattern
      (read_code (drop (row * (k div qk)) ws) (2 * g))
      (read_code (drop (row * (k div qk)) ws) (2 * g + 1))) [0..<k div 2]) [0..<rows])
      @ replicate (length dst - k div 2 * rows) 0"
    using encode_ok [OF assms(1) _ assms(2,3,4), of ws] assms(5) by simp
  have "row * (k div 2) + g < rows * (k div 2)"
  proof -
    have "Suc row * (k div 2) \<le> rows * (k div 2)" using assms(6) by (intro mult_le_mono1) simp
    with assms(7) show ?thesis by simp
  qed
  then show ?thesis
    unfolding out
    by (subst nth_append) (simp add: length_concat_map_const [of _ _ "k div 2"] mult.commute
        nth_concat_map_upt assms(6,7))
qed

lemma encode_length:
  assumes "0 < k" "0 < rows" "qk dvd k" "k div 2 * rows \<le> SIZE_MAX" "k div 2 * rows \<le> length dst"
    and "encode ws k rows dst = Some (ok, out)"
  shows "ok \<and> length out = length dst"
  using encode_ok [OF assms(1-5), of ws] assms(5,6)
  by (auto simp: length_concat_map_const [of _ _ "k div 2"])

end

lemma pack_pair_Some:
  "c0 < 4 \<Longrightarrow> c1 < 4 \<Longrightarrow> ggml_ifairy_pack_pair_direct c0 c1 = Some (pair_pattern c0 c1)"
  by (simp add: ggml_ifairy_pack_pair_direct_def pair_pattern_def)

lemma group_base: "g div w * (2 * w) + (g - g div w * w) * 2 = 2 * (g :: nat)"
proof -
  have "g = g div w * w + (g - g div w * w)" by simp
  then show ?thesis by (metis (no_types, lifting) add_mult_distrib2 mult.assoc mult.commute)
qed

lemma all_some_cells:
  assumes "\<And>row g. row < rows \<Longrightarrow> g < n \<Longrightarrow> cell row g = Some (f row g)"
  shows "all_some (concat (map (\<lambda>row. map (cell row) [0..<n]) [0..<rows])) =
    Some (concat (map (\<lambda>row. map (f row) [0..<n]) [0..<rows]))"
proof -
  have eq: "map (\<lambda>row. map (cell row) [0..<n]) [0..<rows] =
      map (\<lambda>row. map (\<lambda>g. Some (f row g)) [0..<n]) [0..<rows]"
    using assms by simp
  have "concat (map (\<lambda>row. map (cell row) [0..<n]) [0..<rows]) =
      map Some (concat (map (\<lambda>row. map (f row) [0..<n]) [0..<rows]))"
    unfolding eq by (simp add: map_concat comp_def)
  then show ?thesis using all_some_map_Some [of "\<lambda>x. x"] by simp
qed

lemma index_buffer_fits: "(n :: nat) * rows \<le> SIZE_MAX \<Longrightarrow> 0 < rows \<Longrightarrow> n \<le> SIZE_MAX div rows"
  by (simp add: less_eq_div_iff_mult_less_eq)

interpretation ifairy: two_weight_format 256 ggml_ifairy_read_code ggml_ifairy_2w_encode
proof
  fix ws :: "block_ifairy list" and k rows :: nat and dst :: "u8 list"
  assume k: "0 < k" "0 < rows" "256 dvd k" and cap: "k div 2 * rows \<le> SIZE_MAX"
    and len: "k div 2 * rows \<le> length dst"
  let ?f = "\<lambda>row g. pair_pattern (ggml_ifairy_read_code (drop (row * (k div 256)) ws) (2 * g))
          (ggml_ifairy_read_code (drop (row * (k div 256)) ws) (2 * g + 1))"
  from k(3) have gpr: "k div 256 * 128 = k div 2" by auto
  have lt: "2 * g < k" "Suc (2 * g) < k" if "g < k div 2" for g using that by auto
  have base: "g div 128 * 256 + (g - g div 128 * 128) * 2 = 2 * g" for g :: nat
    using group_base [of g 128] by simp
  show "ggml_ifairy_2w_encode ws k rows dst = Some (True,
      concat (map (\<lambda>row. map (?f row) [0..<k div 2]) [0..<rows])
      @ replicate (length dst - k div 2 * rows) 0)"
    unfolding ggml_ifairy_2w_encode_def ggml_ifairy_2w_get_index_info_def
        ggml_ifairy_2w_index_buffer_size_def Let_def base
    using k gpr index_buffer_fits [OF cap k(2)] len
    by (simp add: mod_eq_0_iff_dvd) (subst all_some_cells [where f = ?f];
        simp add: pack_pair_Some lt)
qed auto

interpretation ifairy64: two_weight_format 64 ggml_ifairy64_read_code ggml_ifairy64_2w_encode
proof
  fix ws :: "block_ifairy64 list" and k rows :: nat and dst :: "u8 list"
  assume k: "0 < k" "0 < rows" "64 dvd k" and cap: "k div 2 * rows \<le> SIZE_MAX"
    and len: "k div 2 * rows \<le> length dst"
  let ?f = "\<lambda>row g. pair_pattern (ggml_ifairy64_read_code (drop (row * (k div 64)) ws) (2 * g))
          (ggml_ifairy64_read_code (drop (row * (k div 64)) ws) (2 * g + 1))"
  from k(3) have gpr: "k div 64 * 32 = k div 2" by auto
  have lt: "2 * g < k" "Suc (2 * g) < k" if "g < k div 2" for g using that by auto
  have base: "g div 32 * 64 + (g - g div 32 * 32) * 2 = 2 * g" for g :: nat
    using group_base [of g 32] by simp
  show "ggml_ifairy64_2w_encode ws k rows dst = Some (True,
      concat (map (\<lambda>row. map (?f row) [0..<k div 2]) [0..<rows])
      @ replicate (length dst - k div 2 * rows) 0)"
    unfolding ggml_ifairy64_2w_encode_def ggml_ifairy64_2w_get_index_info_def
        ggml_ifairy_2w_index_buffer_size_def Let_def base
    using k gpr index_buffer_fits [OF cap k(2)] len
    by (simp add: mod_eq_0_iff_dvd) (subst all_some_cells [where f = ?f];
        simp add: pack_pair_Some lt)
qed auto

end
