(* ===== verification/IFairy_Lut.thy ===== *)
theory IFairy_Lut
  imports IFairy_Codes
begin

text \<open>
  The iFairy lookup-table kernels of \<^verbatim>\<open>legacy-ifairy/lut\<close>: filling the four 16-entry tables of
  a group of two activations, the sharded preprocessing of the activation columns, the 16-lane
  weight tiles, and the portable table GEMM. The branches compiled only for AVX2 or NEON are not
  modelled. Single-precision arithmetic is a parameter (\<open>float_ops\<close>), so the facts about
  which integers reach which floating-point operation hold for the hardware's operations too.
\<close>

section \<open>Floating point and buffers\<close>

record 'f float_ops =
  f_zero :: 'f
  f_add :: "'f \<Rightarrow> 'f \<Rightarrow> 'f"
  f_sub :: "'f \<Rightarrow> 'f \<Rightarrow> 'f"
  f_mul :: "'f \<Rightarrow> 'f \<Rightarrow> 'f"
  f_of_int :: "int \<Rightarrow> 'f"
  f_of_half :: "u16 \<Rightarrow> 'f"
  f_of_bf16 :: "u16 \<Rightarrow> 'f"
  f_to_bf16 :: "'f \<Rightarrow> u16"

text \<open>Quantised activations: signed bytes stored as \<open>uint8_t\<close>.\<close>

record block_ifairy_q16 =
  x_real :: "u8 list"
  x_imag :: "u8 list"
  xd_real :: u16
  xd_imag :: u16

record block_ifairy64_q16 =
  x64_real :: "u8 list"
  x64_imag :: "u8 list"
  xd64_real :: u16
  xd64_imag :: u16

text \<open>A tile holds one block of sixteen rows: \<open>qs[byte][lane]\<close> and the scales of the lanes.\<close>

record 's wtile_16 =
  t_qs :: "nat \<Rightarrow> nat \<Rightarrow> u8"
  t_d_real :: "nat \<Rightarrow> 's"
  t_d_imag :: "nat \<Rightarrow> 's"

text \<open>
  An output column: one slot per row, read and written either as two floats or as two
  \<open>bf16\<close> values, according to \<open>pack_bf16\<close>.
\<close>

record 'f out_col =
  slot_f32 :: "nat \<Rightarrow> 'f \<times> 'f"
  slot_bf16 :: "nat \<Rightarrow> u16 \<times> u16"

abbreviation (input) k_ifairy_lut_group_bytes :: nat where "k_ifairy_lut_group_bytes \<equiv> 64"

definition ggml_ifairy_checked_mul_size :: "nat \<Rightarrow> nat \<Rightarrow> nat option" where
  "ggml_ifairy_checked_mul_size a b = (if a = 0 \<or> b \<le> SIZE_MAX div a then Some (a * b) else None)"

definition ggml_ifairy_checked_add_size :: "nat \<Rightarrow> nat \<Rightarrow> nat option" where
  "ggml_ifairy_checked_add_size a b = (if a \<le> SIZE_MAX - b then Some (a + b) else None)"

text \<open>
  The thread-local scratch buffer: \<open>malloc_ok bytes\<close> says whether the allocator can provide
  \<open>bytes\<close>. The result is the new buffer and whether a pointer is returned.
\<close>

record ggml_ifairy_tl_buf =
  tl_ptr :: bool
  tl_cap :: nat

definition ggml_ifairy_tl_reserve ::
    "(nat \<Rightarrow> bool) \<Rightarrow> ggml_ifairy_tl_buf \<Rightarrow> nat \<Rightarrow> bool \<times> ggml_ifairy_tl_buf" where
  "ggml_ifairy_tl_reserve malloc_ok buf bytes =
     (if tl_cap buf < bytes then
        let buf1 = (if tl_ptr buf then buf\<lparr>tl_ptr := False, tl_cap := 0\<rparr> else buf);
            buf2 = buf1\<lparr>tl_ptr := malloc_ok bytes\<rparr>
        in if \<not> tl_ptr buf2 then (False, buf2) else (True, buf2\<lparr>tl_cap := bytes\<rparr>)
      else (tl_ptr buf, buf))"

section \<open>The tables of a group\<close>

definition ggml_ifairy_lut_sat_s8 :: "int \<Rightarrow> 8 word" where
  "ggml_ifairy_lut_sat_s8 v =
     (if v > 127 then 127 else if v < -128 then word_of_int (-128) else word_of_int v)"

definition ggml_ifairy_u8_to_s8_int :: "u8 \<Rightarrow> int" where
  "ggml_ifairy_u8_to_s8_int v = (if v < 128 then uint v else uint v - 256)"

text \<open>The local arrays \<open>ac_tbl\<close>, \<open>bd_tbl\<close>, \<open>bc_tbl\<close> and \<open>ad_tbl\<close>.\<close>

definition ac_tbl :: "int \<Rightarrow> int \<Rightarrow> 8 word list" where
  "ac_tbl r0 r1 = (let sat = ggml_ifairy_lut_sat_s8 in
     [sat (- r0 - r1), sat (r0 - r1), sat (- r1), sat (- r1),
      sat (- r0 + r1), sat (r0 + r1), sat r1, sat r1,
      sat (- r0), sat r0, 0, 0, sat (- r0), sat r0, 0, 0])"

definition bd_tbl :: "int \<Rightarrow> int \<Rightarrow> 8 word list" where
  "bd_tbl i0 i1 = (let sat = ggml_ifairy_lut_sat_s8 in
     [0, 0, sat i0, sat (- i0), 0, 0, sat i0, sat (- i0),
      sat i1, sat i1, sat (i0 + i1), sat (- i0 + i1),
      sat (- i1), sat (- i1), sat (i0 - i1), sat (- i0 - i1)])"

definition bc_tbl :: "int \<Rightarrow> int \<Rightarrow> 8 word list" where
  "bc_tbl r0 r1 = (let sat = ggml_ifairy_lut_sat_s8 in
     [0, 0, sat (- r0), sat r0, 0, 0, sat (- r0), sat r0,
      sat (- r1), sat (- r1), sat (- r0 - r1), sat (r0 - r1),
      sat r1, sat r1, sat (- r0 + r1), sat (r0 + r1)])"

definition ad_tbl :: "int \<Rightarrow> int \<Rightarrow> 8 word list" where
  "ad_tbl i0 i1 = (let sat = ggml_ifairy_lut_sat_s8 in
     [sat (- i0 - i1), sat (i0 - i1), sat (- i1), sat (- i1),
      sat (- i0 + i1), sat (i0 + i1), sat i1, sat i1,
      sat (- i0), sat i0, 0, 0, sat (- i0), sat i0, 0, 0])"

definition ggml_ifairy_lut_fill_group_lut16 :: "int \<Rightarrow> int \<Rightarrow> int \<Rightarrow> int \<Rightarrow> 8 word list" where
  "ggml_ifairy_lut_fill_group_lut16 xr0 xi0 xr1 xi1 =
     (let r0 = xr0; r1 = xr1; i0 = - xi0; i1 = - xi1
      in ac_tbl r0 r1 @ bd_tbl i0 i1 @ bc_tbl r0 r1 @ ad_tbl i0 i1)"

definition ggml_ifairy_lut_decode_lane_scalar ::
    "u8 \<Rightarrow> (nat \<Rightarrow> 8 word) \<Rightarrow> 8 word \<times> 8 word \<times> 8 word \<times> 8 word" where
  "ggml_ifairy_lut_decode_lane_scalar code tbl =
     (let idx = unat (code AND 0x0f)
      in (tbl (0 * 16 + idx), tbl (2 * 16 + idx), tbl (3 * 16 + idx), tbl (1 * 16 + idx)))"

section \<open>Preprocessing the activations\<close>

text \<open>One column; the worker handles the groups \<open>g0, g0 + gstep, \<dots>\<close>.\<close>

definition ggml_ifairy_lut_preprocess_lut16_one ::
    "'f float_ops \<Rightarrow> block_ifairy_q16 list \<Rightarrow> nat \<Rightarrow> nat \<Rightarrow> nat \<Rightarrow> nat \<Rightarrow> nat \<Rightarrow> nat \<Rightarrow>
     (nat \<Rightarrow> 'f) \<times> (nat \<Rightarrow> 8 word) \<Rightarrow> (nat \<Rightarrow> 'f) \<times> (nat \<Rightarrow> 8 word)" where
  "ggml_ifairy_lut_preprocess_lut16_one ops act_blocks blocks groups_per_block scales_off lut_off g0 gstep =
     (\<lambda>(scales_out, lut_out).
       let scales_out' =
             (if g0 = 0 then
                fold (\<lambda>blk s. s(scales_off + blk * 2 + 0 := f_of_half ops (xd_real (act_blocks ! blk)),
                               scales_off + blk * 2 + 1 := f_of_half ops (xd_imag (act_blocks ! blk))))
                  [0..<blocks] scales_out
              else scales_out);
           groups = blocks * groups_per_block;
           fill = (\<lambda>g.
             let blk = g div groups_per_block;
                 base_off = g mod groups_per_block * 2;
                 xr0 = ggml_ifairy_u8_to_s8_int (x_real (act_blocks ! blk) ! (base_off + 0));
                 xi0 = ggml_ifairy_u8_to_s8_int (x_imag (act_blocks ! blk) ! (base_off + 0));
                 xr1 = ggml_ifairy_u8_to_s8_int (x_real (act_blocks ! blk) ! (base_off + 1));
                 xi1 = ggml_ifairy_u8_to_s8_int (x_imag (act_blocks ! blk) ! (base_off + 1))
             in ggml_ifairy_lut_fill_group_lut16 xr0 xi0 xr1 xi1)
       in (scales_out',
           fold (\<lambda>g m. store_at (lut_off + g * k_ifairy_lut_group_bytes) (fill g) m)
             (strided g0 gstep groups) lut_out))"

text \<open>The 64-wide variant writes all scales in every worker.\<close>

definition ggml_ifairy64_lut_preprocess_q16_64_lut16_one ::
    "'f float_ops \<Rightarrow> block_ifairy64_q16 list \<Rightarrow> nat \<Rightarrow> nat \<Rightarrow> nat \<Rightarrow> nat \<Rightarrow> nat \<Rightarrow>
     (nat \<Rightarrow> 'f) \<times> (nat \<Rightarrow> 8 word) \<Rightarrow> (nat \<Rightarrow> 'f) \<times> (nat \<Rightarrow> 8 word)" where
  "ggml_ifairy64_lut_preprocess_q16_64_lut16_one ops act_blocks blocks scales_off lut_off g0 gstep =
     (\<lambda>(scales_out, lut_out).
       let scales_out' =
             fold (\<lambda>blk s. s(scales_off + blk * 2 + 0 := f_of_half ops (xd64_real (act_blocks ! blk)),
                            scales_off + blk * 2 + 1 := f_of_half ops (xd64_imag (act_blocks ! blk))))
               [0..<blocks] scales_out;
           groups = blocks * QK_IFAIRY64_GROUPS_PER_BLOCK;
           fill = (\<lambda>g.
             let blk = g div QK_IFAIRY64_GROUPS_PER_BLOCK;
                 base_off = g mod QK_IFAIRY64_GROUPS_PER_BLOCK * 2;
                 xr0 = ggml_ifairy_u8_to_s8_int (x64_real (act_blocks ! blk) ! (base_off + 0));
                 xi0 = ggml_ifairy_u8_to_s8_int (x64_imag (act_blocks ! blk) ! (base_off + 0));
                 xr1 = ggml_ifairy_u8_to_s8_int (x64_real (act_blocks ! blk) ! (base_off + 1));
                 xi1 = ggml_ifairy_u8_to_s8_int (x64_imag (act_blocks ! blk) ! (base_off + 1))
             in ggml_ifairy_lut_fill_group_lut16 xr0 xi0 xr1 xi1)
       in (scales_out',
           fold (\<lambda>g m. store_at (lut_off + g * k_ifairy_lut_group_bytes) (fill g) m)
             (strided g0 gstep groups) lut_out))"

text \<open>
  All columns, worker \<open>ith\<close> of \<open>nthr\<close>: with at least as many columns as workers a worker takes
  whole columns, otherwise all workers share the groups of every column. \<open>act col\<close> are the blocks
  at \<open>act + col * act_stride\<close>; a null pointer makes the call return.
\<close>

definition ggml_ifairy_lut_preprocess_lut16 ::
    "'f float_ops \<Rightarrow> int \<Rightarrow> int \<Rightarrow> int \<Rightarrow> (nat \<Rightarrow> block_ifairy_q16 list) option \<Rightarrow> int \<Rightarrow> int \<Rightarrow>
     (nat \<Rightarrow> 'f) option \<times> (nat \<Rightarrow> 8 word) option \<Rightarrow>
     (nat \<Rightarrow> 'f) option \<times> (nat \<Rightarrow> 8 word) option" where
  "ggml_ifairy_lut_preprocess_lut16 ops m k n act ith nthr0 bufs =
     (case (act, bufs) of
        (Some a, Some scales, Some lut) \<Rightarrow>
          (let nthr = max nthr0 1 in
           if ith < 0 \<or> ith \<ge> nthr then bufs
           else
             let blocks = nat k div QK_IFAIRY;
                 groups_per_block = QK_IFAIRY_GROUPS_PER_BLOCK;
                 groups = blocks * groups_per_block;
                 shard_by_col = n \<ge> nthr;
                 col_start = (if shard_by_col then nat ith else 0);
                 col_step = (if shard_by_col then nat nthr else 1);
                 g0 = (if shard_by_col then 0 else nat ith);
                 gstep = (if shard_by_col then 1 else nat nthr);
                 (scales', lut') =
                   fold (\<lambda>col. ggml_ifairy_lut_preprocess_lut16_one ops (a col) blocks groups_per_block
                         (col * blocks * 2) (col * groups * k_ifairy_lut_group_bytes) g0 gstep)
                     (strided col_start col_step (nat n)) (scales, lut)
             in (Some scales', Some lut'))
      | _ \<Rightarrow> bufs)"


section \<open>The table GEMM\<close>

text \<open>
  One row, one block: \<open>byte_idx\<close> selects two groups of the block, the two nibbles of the packed
  byte of the row's lane index their tables. The sums are \<open>(ac, bc, ad, bd)\<close>.
\<close>

definition lut_block_sums ::
    "nat \<Rightarrow> (nat \<Rightarrow> nat \<Rightarrow> u8) \<Rightarrow> nat \<Rightarrow> (nat \<Rightarrow> 8 word) \<Rightarrow> int \<times> int \<times> int \<times> int" where
  "lut_block_sums groups_per_block tile_qs lane lut_blk =
     fold (\<lambda>byte_idx (sum_ac, sum_bc, sum_ad, sum_bd).
         let packed = tile_qs byte_idx lane;
             tbl_0 = (\<lambda>a. lut_blk (byte_idx * 2 * k_ifairy_lut_group_bytes + a));
             tbl_1 = (\<lambda>a. lut_blk (byte_idx * 2 * k_ifairy_lut_group_bytes + k_ifairy_lut_group_bytes + a));
             (v0, v1, v2, v3) = ggml_ifairy_lut_decode_lane_scalar (packed AND 0x0f) tbl_0;
             (w0, w1, w2, w3) = ggml_ifairy_lut_decode_lane_scalar (drop_bit 4 packed AND 0x0f) tbl_1
         in (sum_ac + sint v0 + sint w0, sum_bc + sint v1 + sint w1,
             sum_ad + sint v2 + sint w2, sum_bd + sint v3 + sint w3))
       [0..<groups_per_block div 2] (0, 0, 0, 0)"

text \<open>
  \<open>ggml_ifairy_lut_qgemm_lut16_one\<close>: the rows of one output column. \<open>scale_to_f32\<close> is the overload
  of \<open>ggml_ifairy_lut_scale_to_f32\<close> for the tile type (the identity, or the half conversion).
  With \<open>add\<close> the accumulation starts from the slot's old contents, else from zero.
\<close>

definition lut_row_accumulate ::
    "'f float_ops \<Rightarrow> ('s \<Rightarrow> 'f) \<Rightarrow> nat \<Rightarrow> nat \<Rightarrow> (nat \<Rightarrow> 's wtile_16) \<Rightarrow> (nat \<Rightarrow> 8 word) \<Rightarrow>
     (nat \<Rightarrow> 'f) \<Rightarrow> nat \<Rightarrow> 'f \<times> 'f \<Rightarrow> 'f \<times> 'f" where
  "lut_row_accumulate ops scale_to_f32 blocks groups_per_block wtiles lut_col scales row init =
     (let tile = row div 16; lane = row mod 16 in
      fold (\<lambda>blk (out_r, out_i).
          let wt = wtiles (tile * blocks + blk);
              lr = scales (blk * 2 + 0);
              li = scales (blk * 2 + 1);
              wr = scale_to_f32 (t_d_real wt lane);
              wi = scale_to_f32 (t_d_imag wt lane);
              lut_blk = (\<lambda>a. lut_col (blk * groups_per_block * k_ifairy_lut_group_bytes + a));
              (sum_ac, sum_bc, sum_ad, sum_bd) = lut_block_sums groups_per_block (t_qs wt) lane lut_blk
          in (f_add ops out_r (f_add ops (f_mul ops (f_of_int ops sum_ac) (f_mul ops lr wr))
                                         (f_mul ops (f_of_int ops sum_bd) (f_mul ops li wi))),
              f_add ops out_i (f_add ops (f_mul ops (f_of_int ops sum_bc) (f_mul ops lr wi))
                                         (f_mul ops (f_of_int ops sum_ad) (f_mul ops li wr)))))
        [0..<blocks] init)"

text \<open>Reading and writing the slot of a row.\<close>

definition lut_load_slot :: "'f float_ops \<Rightarrow> bool \<Rightarrow> nat \<Rightarrow> 'f out_col \<Rightarrow> 'f \<times> 'f" where
  "lut_load_slot ops pack_bf16 row d =
     (if pack_bf16 then (f_of_bf16 ops (fst (slot_bf16 d row)), f_of_bf16 ops (snd (slot_bf16 d row))) else slot_f32 d row)"

definition lut_store_slot :: "'f float_ops \<Rightarrow> bool \<Rightarrow> nat \<Rightarrow> 'f \<times> 'f \<Rightarrow> 'f out_col \<Rightarrow> 'f out_col" where
  "lut_store_slot ops pack_bf16 row = (\<lambda>(out_r, out_i) d.
     if pack_bf16 then d\<lparr>slot_bf16 := (slot_bf16 d)(row := (f_to_bf16 ops out_r, f_to_bf16 ops out_i))\<rparr>
     else d\<lparr>slot_f32 := (slot_f32 d)(row := (out_r, out_i))\<rparr>)"

definition ggml_ifairy_lut_qgemm_lut16_one ::
    "'f float_ops \<Rightarrow> ('s \<Rightarrow> 'f) \<Rightarrow> nat \<Rightarrow> nat \<Rightarrow> nat \<Rightarrow> (nat \<Rightarrow> 's wtile_16) \<Rightarrow>
     (nat \<Rightarrow> 8 word) \<Rightarrow> (nat \<Rightarrow> 'f) \<Rightarrow> bool \<Rightarrow> bool \<Rightarrow> 'f out_col \<Rightarrow> 'f out_col" where
  "ggml_ifairy_lut_qgemm_lut16_one ops scale_to_f32 blocks groups_per_block m wtiles lut_col scales
       pack_bf16 add dst_col =
     fold (\<lambda>row d.
         let init = (if add then lut_load_slot ops pack_bf16 row d else (f_zero ops, f_zero ops))
         in lut_store_slot ops pack_bf16 row
              (lut_row_accumulate ops scale_to_f32 blocks groups_per_block wtiles lut_col scales row init) d)
       [0..<m] dst_col"

definition lut_qgemm_columns ::
    "'f float_ops \<Rightarrow> ('s \<Rightarrow> 'f) \<Rightarrow> nat \<Rightarrow> nat \<Rightarrow> nat \<Rightarrow> nat \<Rightarrow> (nat \<Rightarrow> 's wtile_16) \<Rightarrow>
     (nat \<Rightarrow> 8 word) \<Rightarrow> (nat \<Rightarrow> 'f) \<Rightarrow> bool \<Rightarrow> bool \<Rightarrow> (nat \<Rightarrow> 'f out_col) \<Rightarrow> nat \<Rightarrow> 'f out_col" where
  "lut_qgemm_columns ops scale_to_f32 blocks groups_per_block m n wtiles lut lut_scales pack_bf16 add dst =
     fold (\<lambda>col d. d(col :=
         ggml_ifairy_lut_qgemm_lut16_one ops scale_to_f32 blocks groups_per_block m wtiles
           (\<lambda>a. lut (col * (blocks * groups_per_block) * k_ifairy_lut_group_bytes + a))
           (\<lambda>i. lut_scales (col * blocks * 2 + i)) pack_bf16 add (d col)))
       [0..<n] dst"

definition ggml_ifairy_lut_qgemm_lut16 ::
    "'f float_ops \<Rightarrow> int \<Rightarrow> int \<Rightarrow> int \<Rightarrow> (nat \<Rightarrow> 'f wtile_16) option \<Rightarrow> (nat \<Rightarrow> 8 word) option \<Rightarrow>
     (nat \<Rightarrow> 'f) option \<Rightarrow> bool \<Rightarrow> bool \<Rightarrow> (nat \<Rightarrow> 'f out_col) option \<Rightarrow> (nat \<Rightarrow> 'f out_col) option" where
  "ggml_ifairy_lut_qgemm_lut16 ops m k n packed_wtiles lut lut_scales pack_bf16 add dst =
     (case (packed_wtiles, dst, lut, lut_scales) of
        (Some wtiles, Some d, Some l, Some s) \<Rightarrow>
          if m \<le> 0 \<or> k \<le> 0 \<or> n \<le> 0 then dst
          else Some (lut_qgemm_columns ops (\<lambda>v. v) (nat k div QK_IFAIRY) QK_IFAIRY_GROUPS_PER_BLOCK
                       (nat m) (nat n) wtiles l s pack_bf16 add d)
      | _ \<Rightarrow> dst)"

definition ggml_ifairy64_lut_qgemm_lut16 ::
    "'f float_ops \<Rightarrow> int \<Rightarrow> int \<Rightarrow> int \<Rightarrow> (nat \<Rightarrow> u16 wtile_16) option \<Rightarrow> (nat \<Rightarrow> 8 word) option \<Rightarrow>
     (nat \<Rightarrow> 'f) option \<Rightarrow> bool \<Rightarrow> bool \<Rightarrow> (nat \<Rightarrow> 'f out_col) option \<Rightarrow> (nat \<Rightarrow> 'f out_col) option" where
  "ggml_ifairy64_lut_qgemm_lut16 ops m k n packed_wtiles lut lut_scales pack_bf16 add dst =
     (case (packed_wtiles, dst, lut, lut_scales) of
        (Some wtiles, Some d, Some l, Some s) \<Rightarrow>
          if m \<le> 0 \<or> k \<le> 0 \<or> n \<le> 0 then dst
          else Some (lut_qgemm_columns ops (f_of_half ops) (nat k div QK_IFAIRY64)
                       QK_IFAIRY64_GROUPS_PER_BLOCK (nat m) (nat n) wtiles l s pack_bf16 add d)
      | _ \<Rightarrow> dst)"

text \<open>The two weight matrices of a pair are accumulated one after the other.\<close>

definition ggml_ifairy64_lut_qgemm_pair_lut16 ::
    "'f float_ops \<Rightarrow> int \<Rightarrow> int \<Rightarrow> int \<Rightarrow> (nat \<Rightarrow> u16 wtile_16) option \<Rightarrow> (nat \<Rightarrow> u16 wtile_16) option \<Rightarrow>
     (nat \<Rightarrow> 8 word) option \<Rightarrow> (nat \<Rightarrow> 'f) option \<Rightarrow> bool \<Rightarrow> (nat \<Rightarrow> 'f out_col) option \<Rightarrow>
     (nat \<Rightarrow> 'f out_col) option" where
  "ggml_ifairy64_lut_qgemm_pair_lut16 ops m k n wtiles0 wtiles1 lut lut_scales pack_bf16 dst =
     (if wtiles0 = None \<or> wtiles1 = None \<or> dst = None \<or> lut = None \<or> lut_scales = None \<or>
         m \<le> 0 \<or> k \<le> 0 \<or> n \<le> 0 then dst
      else ggml_ifairy64_lut_qgemm_lut16 ops m k n wtiles1 lut lut_scales pack_bf16 True
             (ggml_ifairy64_lut_qgemm_lut16 ops m k n wtiles0 lut lut_scales pack_bf16 False dst))"

section \<open>The self-contained product\<close>

text \<open>
  \<open>ggml_ifairy_lut_mul_mat_scalar\<close> encodes the weights, packs the tiles (rows past \<open>m\<close> get zero
  scales and codes), preprocesses the activations with a single worker and runs the GEMM, all in
  a thread-local scratch buffer whose old contents are \<open>scratch\<close>. \<open>None\<close>: an assertion failed.
  \<open>m\<close>, \<open>k\<close>, \<open>n\<close> are nonnegative \<open>int\<close>s; only the table size can then exceed 64 bits.
\<close>

record 'f lut_scratch =
  sc_index :: "nat \<Rightarrow> u8"
  sc_tiles :: "nat \<Rightarrow> 'f wtile_16"
  sc_lut :: "nat \<Rightarrow> 8 word"
  sc_scales :: "nat \<Rightarrow> 'f"

definition pack_tile_scalar ::
    "'f float_ops \<Rightarrow> block_ifairy list \<Rightarrow> u8 list \<Rightarrow> nat \<Rightarrow> nat \<Rightarrow> nat \<Rightarrow> nat \<Rightarrow> nat \<Rightarrow>
     'f wtile_16 \<Rightarrow> 'f wtile_16" where
  "pack_tile_scalar ops w_blocks indexes m blocks groups_per_block tile blk t =
     (let groups = blocks * groups_per_block in
      t\<lparr>t_d_real := (\<lambda>lane. if lane < 16 then
            (let row = tile * 16 + lane in
             if row \<ge> m then f_zero ops else f_of_half ops (d_real (w_blocks ! (row * blocks + blk))))
          else t_d_real t lane),
        t_d_imag := (\<lambda>lane. if lane < 16 then
            (let row = tile * 16 + lane in
             if row \<ge> m then f_zero ops else f_of_half ops (d_imag (w_blocks ! (row * blocks + blk))))
          else t_d_imag t lane),
        t_qs := (\<lambda>byte_idx lane. if byte_idx < groups_per_block div 2 \<and> lane < 16 then
            (let row = tile * 16 + lane in
             if row \<ge> m then 0
             else (let blk_idx = row * groups + blk * groups_per_block in
                   (indexes ! (blk_idx + byte_idx * 2 + 0) AND 0x0f) OR
                   push_bit 4 (indexes ! (blk_idx + byte_idx * 2 + 1) AND 0x0f)))
          else t_qs t byte_idx lane)\<rparr>)"

definition pack_tiles_scalar ::
    "'f float_ops \<Rightarrow> block_ifairy list \<Rightarrow> u8 list \<Rightarrow> nat \<Rightarrow> nat \<Rightarrow> nat \<Rightarrow>
     (nat \<Rightarrow> 'f wtile_16) \<Rightarrow> nat \<Rightarrow> 'f wtile_16" where
  "pack_tiles_scalar ops w_blocks indexes m blocks groups_per_block packed_w =
     fold (\<lambda>tile. fold (\<lambda>blk p.
           p(tile * blocks + blk :=
               pack_tile_scalar ops w_blocks indexes m blocks groups_per_block tile blk
                 (p (tile * blocks + blk))))
         [0..<blocks])
       [0..<(m + 15) div 16] packed_w"

definition ggml_ifairy_lut_mul_mat_scalar ::
    "'f float_ops \<Rightarrow> (nat \<Rightarrow> bool) \<Rightarrow> 'f lut_scratch \<Rightarrow> ggml_ifairy_tl_buf \<Rightarrow> nat \<Rightarrow> nat \<Rightarrow> nat \<Rightarrow>
     block_ifairy list option \<Rightarrow> (nat \<Rightarrow> block_ifairy_q16 list) option \<Rightarrow>
     (nat \<Rightarrow> 'f out_col) option \<Rightarrow> ((nat \<Rightarrow> 'f out_col) option \<times> ggml_ifairy_tl_buf) option" where
  "ggml_ifairy_lut_mul_mat_scalar ops malloc_ok scratch buf m k n qweights act dst =
     (if qweights = None \<or> act = None \<or> dst = None then Some (dst, buf)
      else
        let w_blocks = the qweights;
            blocks = k div QK_IFAIRY;
            groups_per_block = QK_IFAIRY_GROUPS_PER_BLOCK;
            groups = blocks * groups_per_block;
            index_bytes_raw = m * groups;
            index_bytes = GGML_PAD index_bytes_raw 64;
            tiles = (m + 15) div 16;
            packed_bytes = GGML_PAD (tiles * blocks * 1152) 64;
            lut_bytes = (n * groups * k_ifairy_lut_group_bytes) mod 2 ^ 64;
            scale_bytes = n * blocks * 2 * 4
        in Option.bind (ggml_ifairy_checked_add_size index_bytes packed_bytes) (\<lambda>tmp0.
           Option.bind (ggml_ifairy_checked_add_size tmp0 lut_bytes) (\<lambda>tmp1.
           Option.bind (ggml_ifairy_checked_add_size tmp1 scale_bytes) (\<lambda>total_bytes.
             let (ok, buf') = ggml_ifairy_tl_reserve malloc_ok buf total_bytes in
             if \<not> ok then Some (dst, buf')
             else
               Option.bind (ggml_ifairy_2w_encode w_blocks k m (map (sc_index scratch) [0..<index_bytes_raw]))
                 (\<lambda>(_, indexes).
                   let packed_w = pack_tiles_scalar ops w_blocks indexes m blocks groups_per_block
                         (sc_tiles scratch);
                       (scales, lut) = ggml_ifairy_lut_preprocess_lut16 ops (int m) (int k) (int n) act 0 1
                         (Some (sc_scales scratch), Some (sc_lut scratch))
                   in Some (ggml_ifairy_lut_qgemm_lut16 ops (int m) (int k) (int n) (Some packed_w) lut scales
                              False False dst, buf'))))))"


section \<open>Facts about the tables\<close>

definition sgn_r :: "u8 \<Rightarrow> int" where
  "sgn_r c = (if c = 0 then -1 else if c = 1 then 1 else 0)"

definition sgn_i :: "u8 \<Rightarrow> int" where
  "sgn_i c = (if c = 2 then -1 else if c = 3 then 1 else 0)"

lemma length_tbl [simp]:
  "length (ac_tbl a b) = 16" "length (bd_tbl a b) = 16" "length (bc_tbl a b) = 16" "length (ad_tbl a b) = 16"
  by (simp_all add: ac_tbl_def bd_tbl_def bc_tbl_def ad_tbl_def Let_def)

lemma length_fill [simp]: "length (ggml_ifairy_lut_fill_group_lut16 a b c d) = 64"
  by (simp add: ggml_ifairy_lut_fill_group_lut16_def Let_def)

lemma fill_nth:
  assumes "p < 16"
  shows "ggml_ifairy_lut_fill_group_lut16 xr0 xi0 xr1 xi1 ! p = ac_tbl xr0 xr1 ! p"
    and "ggml_ifairy_lut_fill_group_lut16 xr0 xi0 xr1 xi1 ! (16 + p) = bd_tbl (- xi0) (- xi1) ! p"
    and "ggml_ifairy_lut_fill_group_lut16 xr0 xi0 xr1 xi1 ! (32 + p) = bc_tbl xr0 xr1 ! p"
    and "ggml_ifairy_lut_fill_group_lut16 xr0 xi0 xr1 xi1 ! (48 + p) = ad_tbl (- xi0) (- xi1) ! p"
  using assms by (simp_all add: ggml_ifairy_lut_fill_group_lut16_def Let_def nth_append)

lemma sat_zero [simp]: "ggml_ifairy_lut_sat_s8 0 = 0"
  by (simp add: ggml_ifairy_lut_sat_s8_def)

lemma sint_sat_s8: "sint (ggml_ifairy_lut_sat_s8 v) = max (-128) (min 127 v)"
proof -
  have "sint (word_of_int v :: 8 word) = v" if "-128 \<le> v" "v \<le> 127"
    using that by (simp add: sint_sbintrunc' signed_take_bit_int_eq_self)
  then show ?thesis by (auto simp: ggml_ifairy_lut_sat_s8_def)
qed

lemma pattern_lt_16:
  assumes "c0 < 4" "c1 < 4"
  shows "unat (pair_pattern c0 c1) < 16"
  using u8_less_4_cases [OF assms(1)] u8_less_4_cases [OF assms(2)]
  by (elim disjE) (simp_all add: pair_pattern_def)

lemma tbl_entries:
  assumes "c0 < 4" "c1 < 4"
  defines "p \<equiv> unat c0 + 4 * unat c1"
  shows "ac_tbl r0 r1 ! p = ggml_ifairy_lut_sat_s8 (sgn_r c0 * r0 + sgn_r c1 * r1)"
    and "bc_tbl r0 r1 ! p = ggml_ifairy_lut_sat_s8 (sgn_i c0 * r0 + sgn_i c1 * r1)"
    and "ad_tbl r0 r1 ! p = ggml_ifairy_lut_sat_s8 (sgn_r c0 * r0 + sgn_r c1 * r1)"
    and "bd_tbl r0 r1 ! p = ggml_ifairy_lut_sat_s8 (sgn_i c0 * (- r0) + sgn_i c1 * (- r1))"
  unfolding p_def using u8_less_4_cases [OF assms(1)] u8_less_4_cases [OF assms(2)]
  by (elim disjE; simp add: ac_tbl_def bc_tbl_def ad_tbl_def bd_tbl_def Let_def sgn_r_def sgn_i_def)+

lemma fill_group_entries:
  assumes "c0 < 4" "c1 < 4"
  defines "p \<equiv> unat (pair_pattern c0 c1)"
  shows "ggml_ifairy_lut_fill_group_lut16 xr0 xi0 xr1 xi1 ! p =
      ggml_ifairy_lut_sat_s8 (sgn_r c0 * xr0 + sgn_r c1 * xr1)"
    and "ggml_ifairy_lut_fill_group_lut16 xr0 xi0 xr1 xi1 ! (32 + p) =
      ggml_ifairy_lut_sat_s8 (sgn_i c0 * xr0 + sgn_i c1 * xr1)"
    and "ggml_ifairy_lut_fill_group_lut16 xr0 xi0 xr1 xi1 ! (48 + p) =
      ggml_ifairy_lut_sat_s8 (sgn_r c0 * (- xi0) + sgn_r c1 * (- xi1))"
    and "ggml_ifairy_lut_fill_group_lut16 xr0 xi0 xr1 xi1 ! (16 + p) =
      ggml_ifairy_lut_sat_s8 (sgn_i c0 * xi0 + sgn_i c1 * xi1)"
  unfolding p_def fill_nth [OF pattern_lt_16 [OF assms(1,2)]]
  unfolding unat_pair_pattern [OF assms(1,2)] tbl_entries [OF assms(1,2)] by simp_all

text \<open>Activations the tables hold without saturation, and what the four sums of a group are then.\<close>

definition lut_safe :: "int \<Rightarrow> bool" where
  "lut_safe v \<longleftrightarrow> -63 \<le> v \<and> v \<le> 63"

lemma sgn_combination_bound:
  assumes "lut_safe x" "lut_safe y" "s \<in> {-1, 0, 1}" "t \<in> {-1, 0, 1}"
  shows "-126 \<le> s * x + t * y \<and> s * x + t * y \<le> 126"
  using assms by (auto simp: lut_safe_def)

lemma sgn_range: "sgn_r c \<in> {-1, 0, 1}" "sgn_i c \<in> {-1, 0, 1}"
  by (simp_all add: sgn_r_def sgn_i_def)

lemma decode_group:
  assumes c: "c0 < 4" "c1 < 4" and safe: "lut_safe xr0" "lut_safe xi0" "lut_safe xr1" "lut_safe xi1"
    and tbl: "\<And>e. e < 64 \<Longrightarrow> tbl e = ggml_ifairy_lut_fill_group_lut16 xr0 xi0 xr1 xi1 ! e"
    and dec: "ggml_ifairy_lut_decode_lane_scalar (pair_pattern c0 c1) tbl = (v0, v1, v2, v3)"
  shows "sint v0 = sgn_r c0 * xr0 + sgn_r c1 * xr1"
    and "sint v1 = sgn_i c0 * xr0 + sgn_i c1 * xr1"
    and "sint v2 = - (sgn_r c0 * xi0 + sgn_r c1 * xi1)"
    and "sint v3 = sgn_i c0 * xi0 + sgn_i c1 * xi1"
proof -
  let ?p = "unat (pair_pattern c0 c1)"
  have p: "?p < 16" using c by (rule pattern_lt_16)
  have v: "v0 = tbl ?p" "v1 = tbl (32 + ?p)" "v2 = tbl (48 + ?p)" "v3 = tbl (16 + ?p)"
    using dec pair_pattern_nibble [OF c] by (auto simp: ggml_ifairy_lut_decode_lane_scalar_def Let_def)
  show "sint v0 = sgn_r c0 * xr0 + sgn_r c1 * xr1"
    using v(1) p sgn_combination_bound [OF safe(1,3) sgn_range(1,1), of c0 c1]
    by (simp add: tbl fill_group_entries [OF c] sint_sat_s8)
  show "sint v1 = sgn_i c0 * xr0 + sgn_i c1 * xr1"
    using v(2) p sgn_combination_bound [OF safe(1,3) sgn_range(2,2), of c0 c1]
    by (simp add: tbl fill_group_entries [OF c] sint_sat_s8)
  show "sint v2 = - (sgn_r c0 * xi0 + sgn_r c1 * xi1)"
    using v(3) p sgn_combination_bound [OF safe(2,4) sgn_range(1,1), of c0 c1]
    by (simp add: tbl fill_group_entries [OF c] sint_sat_s8)
  show "sint v3 = sgn_i c0 * xi0 + sgn_i c1 * xi1"
    using v(4) p sgn_combination_bound [OF safe(2,4) sgn_range(2,2), of c0 c1]
    by (simp add: tbl fill_group_entries [OF c] sint_sat_s8)
qed

section \<open>Facts about the sums of a block\<close>

lemma fold_quad:
  fixes f0 f1 f2 f3 :: "'b \<Rightarrow> int"
  shows "fold (\<lambda>b (s0, s1, s2, s3). (s0 + f0 b, s1 + f1 b, s2 + f2 b, s3 + f3 b)) bs (a0, a1, a2, a3) =
   (a0 + (\<Sum>b\<leftarrow>bs. f0 b), a1 + (\<Sum>b\<leftarrow>bs. f1 b), a2 + (\<Sum>b\<leftarrow>bs. f2 b), a3 + (\<Sum>b\<leftarrow>bs. f3 b))"
  by (induction bs arbitrary: a0 a1 a2 a3) auto

lemma sum_pairs: "(\<Sum>b<n. f (2 * b) + f (Suc (2 * b))) = (\<Sum>j<2 * n. f j :: int)"
  by (induction n) simp_all

lemma lut_block_sums_direct:
  fixes code :: "nat \<Rightarrow> u8" and xr xi :: "nat \<Rightarrow> int"
  assumes even: "even gpb"
    and codes: "\<And>j. code j < 4"
    and safe: "\<And>j. j < 2 * gpb \<Longrightarrow> lut_safe (xr j) \<and> lut_safe (xi j)"
    and tile: "\<And>b. b < gpb div 2 \<Longrightarrow>
      tq b lane AND 15 = pair_pattern (code (4 * b)) (code (4 * b + 1)) \<and>
      drop_bit 4 (tq b lane) AND 15 = pair_pattern (code (4 * b + 2)) (code (4 * b + 3))"
    and lut: "\<And>g e. g < gpb \<Longrightarrow> e < 64 \<Longrightarrow> blk (g * 64 + e) =
      ggml_ifairy_lut_fill_group_lut16 (xr (2 * g)) (xi (2 * g)) (xr (2 * g + 1)) (xi (2 * g + 1)) ! e"
  shows "lut_block_sums gpb tq lane blk =
    (\<Sum>j<2 * gpb. sgn_r (code j) * xr j, \<Sum>j<2 * gpb. sgn_i (code j) * xr j,
     \<Sum>j<2 * gpb. - (sgn_r (code j) * xi j), \<Sum>j<2 * gpb. sgn_i (code j) * xi j)"
proof -
  have group: "\<exists>v0 v1 v2 v3. ggml_ifairy_lut_decode_lane_scalar (pair_pattern (code (2 * g)) (code (2 * g + 1)))
        (\<lambda>a. blk (g * 64 + a)) = (v0, v1, v2, v3) \<and>
      sint v0 = sgn_r (code (2 * g)) * xr (2 * g) + sgn_r (code (2 * g + 1)) * xr (2 * g + 1) \<and>
      sint v1 = sgn_i (code (2 * g)) * xr (2 * g) + sgn_i (code (2 * g + 1)) * xr (2 * g + 1) \<and>
      sint v2 = - (sgn_r (code (2 * g)) * xi (2 * g) + sgn_r (code (2 * g + 1)) * xi (2 * g + 1)) \<and>
      sint v3 = sgn_i (code (2 * g)) * xi (2 * g) + sgn_i (code (2 * g + 1)) * xi (2 * g + 1)"
    if "g < gpb" for g
  proof -
    obtain v0 v1 v2 v3 where dec: "ggml_ifairy_lut_decode_lane_scalar
        (pair_pattern (code (2 * g)) (code (2 * g + 1))) (\<lambda>a. blk (g * 64 + a)) = (v0, v1, v2, v3)"
      by (metis prod_cases4)
    have s: "lut_safe (xr (2 * g))" "lut_safe (xi (2 * g))"
        "lut_safe (xr (2 * g + 1))" "lut_safe (xi (2 * g + 1))"
      using safe [of "2 * g"] safe [of "2 * g + 1"] that by auto
    show ?thesis
      using dec decode_group [OF codes codes s lut [OF that] dec] by simp
  qed
  define T where "T f g = (f (2 * g) + f (2 * g + 1) :: int)" for f and g :: nat
  let ?a = "\<lambda>j. sgn_r (code j) * xr j" and ?b = "\<lambda>j. sgn_i (code j) * xr j"
  let ?c = "\<lambda>j. - (sgn_r (code j) * xi j)" and ?d = "\<lambda>j. sgn_i (code j) * xi j"
  have "lut_block_sums gpb tq lane blk =
      fold (\<lambda>b (s0, s1, s2, s3). (s0 + (T ?a (2 * b) + T ?a (2 * b + 1)), s1 + (T ?b (2 * b) + T ?b (2 * b + 1)),
        s2 + (T ?c (2 * b) + T ?c (2 * b + 1)), s3 + (T ?d (2 * b) + T ?d (2 * b + 1)))) [0..<gpb div 2] (0, 0, 0, 0)"
    unfolding lut_block_sums_def
  proof (rule fold_cong [OF refl refl], rule ext)
    fix b and st :: "int \<times> int \<times> int \<times> int"
    assume "b \<in> set [0..<gpb div 2]"
    then have b: "b < gpb div 2" "2 * b < gpb" "2 * b + 1 < gpb" using even by auto
    obtain s0 s1 s2 s3 where st: "st = (s0, s1, s2, s3)" by (metis prod_cases4)
    have e: "4 * b = 2 * (2 * b)" "4 * b + 1 = 2 * (2 * b) + 1" "4 * b + 2 = 2 * (2 * b + 1)"
        "4 * b + 3 = 2 * (2 * b + 1) + 1" "2 * b * 64 = b * 2 * 64" "(2 * b + 1) * 64 = b * 2 * 64 + 64"
      by simp_all
    have t: "tq b lane AND 15 = pair_pattern (code (2 * (2 * b))) (code (2 * (2 * b) + 1))"
        "drop_bit 4 (tq b lane) AND 15 = pair_pattern (code (2 * (2 * b + 1))) (code (2 * (2 * b + 1) + 1))"
      using tile [OF b(1), unfolded e(3,4)] tile [OF b(1), unfolded e(2), unfolded e(1)] by blast+
    obtain v0 v1 v2 v3 where v: "ggml_ifairy_lut_decode_lane_scalar (tq b lane AND 15)
          (\<lambda>a. blk (b * 2 * 64 + a)) = (v0, v1, v2, v3)"
        "sint v0 = T ?a (2 * b)" "sint v1 = T ?b (2 * b)" "sint v2 = T ?c (2 * b)" "sint v3 = T ?d (2 * b)"
      using group [OF b(2)] unfolding t(1) e(5) T_def by auto
    obtain w0 w1 w2 w3 where w: "ggml_ifairy_lut_decode_lane_scalar (drop_bit 4 (tq b lane) AND 15)
          (\<lambda>a. blk (b * 2 * 64 + 64 + a)) = (w0, w1, w2, w3)"
        "sint w0 = T ?a (2 * b + 1)" "sint w1 = T ?b (2 * b + 1)"
        "sint w2 = T ?c (2 * b + 1)" "sint w3 = T ?d (2 * b + 1)"
      using group [OF b(3)] unfolding t(2) e(6) T_def by auto
    show "(\<lambda>(sum_ac, sum_bc, sum_ad, sum_bd).
           let packed = tq b lane; tbl_0 = \<lambda>a. blk (b * 2 * 64 + a); tbl_1 = \<lambda>a. blk (b * 2 * 64 + 64 + a);
               (v0, v1, v2, v3) = ggml_ifairy_lut_decode_lane_scalar (packed AND 0x0f) tbl_0;
               (w0, w1, w2, w3) = ggml_ifairy_lut_decode_lane_scalar (drop_bit 4 packed AND 0x0f) tbl_1
           in (sum_ac + sint v0 + sint w0, sum_bc + sint v1 + sint w1, sum_ad + sint v2 + sint w2,
               sum_bd + sint v3 + sint w3)) st =
        (case st of (s0, s1, s2, s3) \<Rightarrow> (s0 + (T ?a (2 * b) + T ?a (2 * b + 1)),
          s1 + (T ?b (2 * b) + T ?b (2 * b + 1)), s2 + (T ?c (2 * b) + T ?c (2 * b + 1)),
          s3 + (T ?d (2 * b) + T ?d (2 * b + 1))))"
      unfolding st Let_def prod.case v(1) w(1) using v(2-5) w(2-5) by simp
  qed
  also have "\<dots> = (\<Sum>j<2 * gpb. ?a j, \<Sum>j<2 * gpb. ?b j, \<Sum>j<2 * gpb. ?c j, \<Sum>j<2 * gpb. ?d j)"
  proof -
    have "(\<Sum>b\<leftarrow>[0..<gpb div 2]. T f (2 * b) + T f (2 * b + 1)) = (\<Sum>j<2 * gpb. f j)" for f
    proof -
      have "(\<Sum>b<gpb div 2. T f (2 * b) + T f (Suc (2 * b))) = (\<Sum>g<2 * (gpb div 2). T f g)"
        by (rule sum_pairs)
      also have "\<dots> = (\<Sum>j<2 * gpb. f j)" using even sum_pairs [of f gpb] by (simp add: T_def)
      finally show ?thesis by (simp add: sum_list_upt lessThan_atLeast0)
    qed
    then show ?thesis unfolding fold_quad by simp
  qed
  finally show ?thesis .
qed

end
