(* ===== verification/IFairy_Equiv.thy ===== *)
theory IFairy_Equiv
  imports IFairy_Lut
begin

text \<open>
  What the table kernels of \<^verbatim>\<open>IFairy_Lut\<close> compute: the workers' shards together fill exactly the
  buffers a single worker fills, and the packed table product is, over any float operations, the
  accumulation of the directly computed block sums (\<open>ifairy_reference\<close>), as long as every quantised
  activation lies in \<open>[-63, 63]\<close>. Over the reals the reference is the complex product of the weights
  with the conjugated activations. \<^verbatim>\<open>IFairy_Direct\<close> relates the direct kernels to such references.
\<close>

section \<open>The preprocessing buffers\<close>

definition lut_group :: "block_ifairy_q16 list \<Rightarrow> nat \<Rightarrow> 8 word list" where
  "lut_group bs g =
     (let blk = g div 128; j = g mod 128 * 2 in
      ggml_ifairy_lut_fill_group_lut16
        (ggml_ifairy_u8_to_s8_int (x_real (bs ! blk) ! j)) (ggml_ifairy_u8_to_s8_int (x_imag (bs ! blk) ! j))
        (ggml_ifairy_u8_to_s8_int (x_real (bs ! blk) ! (j + 1)))
        (ggml_ifairy_u8_to_s8_int (x_imag (bs ! blk) ! (j + 1))))"

definition lut_scale_pair :: "'f float_ops \<Rightarrow> block_ifairy_q16 list \<Rightarrow> nat \<Rightarrow> 'f list" where
  "lut_scale_pair ops bs blk = [f_of_half ops (xd_real (bs ! blk)), f_of_half ops (xd_imag (bs ! blk))]"

lemma length_lut_group [simp]: "length (lut_group bs g) = 64"
  by (simp add: lut_group_def Let_def)

lemma length_lut_scale_pair [simp]: "length (lut_scale_pair ops bs blk) = 2"
  by (simp add: lut_scale_pair_def)

text \<open>One column is two independent loops, over the scales and over the groups.\<close>

lemma preprocess_one_alt:
  "ggml_ifairy_lut_preprocess_lut16_one ops bs blocks 128 so lo g0 gstep =
   (\<lambda>(s, l). (fold (\<lambda>blk m. store_at (so + blk * 2) (lut_scale_pair ops bs blk) m)
                (if g0 = 0 then [0..<blocks] else []) s,
              fold (\<lambda>g m. store_at (lo + g * 64) (lut_group bs g) m) (strided g0 gstep (blocks * 128)) l))"
  by (simp add: ggml_ifairy_lut_preprocess_lut16_one_def Let_def fun_eq_iff lut_group_def
      lut_scale_pair_def fun_upd_pair add.commute add.left_commute)

text \<open>The effect of worker \<open>ith\<close> on the two buffers, cell by cell.\<close>

definition shard_groups :: "nat \<Rightarrow> nat \<Rightarrow> nat \<Rightarrow> nat \<Rightarrow> nat list" where
  "shard_groups n nthr ith groups = (if n \<ge> nthr then [0..<groups] else strided ith nthr groups)"

definition shard_cols :: "nat \<Rightarrow> nat \<Rightarrow> nat \<Rightarrow> nat list" where
  "shard_cols n nthr ith = (if n \<ge> nthr then strided ith nthr n else [0..<n])"

definition shard_scales :: "nat \<Rightarrow> nat \<Rightarrow> nat \<Rightarrow> nat \<Rightarrow> nat list" where
  "shard_scales n nthr ith blocks = (if n \<ge> nthr \<or> ith = 0 then [0..<blocks] else [])"

lemma preprocess_worker:
  assumes "ith < nthr"
  shows "ggml_ifairy_lut_preprocess_lut16 ops m (int k) (int n) (Some act) (int ith) (int nthr) (Some s, Some l) =
    (Some (fold (\<lambda>col. fold (\<lambda>blk m. store_at (col * (k div 256) * 2 + blk * 2) (lut_scale_pair ops (act col) blk) m)
        (shard_scales n nthr ith (k div 256))) (shard_cols n nthr ith) s),
     Some (fold (\<lambda>col. fold (\<lambda>g m. store_at (col * (k div 256 * 128) * 64 + g * 64) (lut_group (act col) g) m)
        (shard_groups n nthr ith (k div 256 * 128))) (shard_cols n nthr ith) l))"
proof -
  have "max (int nthr) 1 = int nthr" using assms by simp
  then show ?thesis using assms
    by (simp add: ggml_ifairy_lut_preprocess_lut16_def Let_def preprocess_one_alt fold_pair
        shard_groups_def shard_cols_def shard_scales_def strided_one)
qed

definition lut_cell :: "(nat \<Rightarrow> block_ifairy_q16 list) \<Rightarrow> nat \<Rightarrow> nat \<Rightarrow> 8 word" where
  "lut_cell act groups a = lut_group (act (a div 64 div groups)) (a div 64 mod groups) ! (a mod 64)"

definition scale_cell :: "'f float_ops \<Rightarrow> (nat \<Rightarrow> block_ifairy_q16 list) \<Rightarrow> nat \<Rightarrow> nat \<Rightarrow> 'f" where
  "scale_cell ops act blocks a = lut_scale_pair ops (act (a div 2 div blocks)) (a div 2 mod blocks) ! (a mod 2)"

lemma preprocess_worker_cells:
  assumes "ith < nthr"
  shows "ggml_ifairy_lut_preprocess_lut16 ops m (int k) (int n) (Some act) (int ith) (int nthr) (Some s, Some l) =
    (Some (\<lambda>a. if a div 2 div (k div 256) \<in> set (shard_cols n nthr ith) \<and>
                  a div 2 mod (k div 256) \<in> set (shard_scales n nthr ith (k div 256))
               then scale_cell ops act (k div 256) a else s a),
     Some (\<lambda>a. if a div 64 div (k div 256 * 128) \<in> set (shard_cols n nthr ith) \<and>
                  a div 64 mod (k div 256 * 128) \<in> set (shard_groups n nthr ith (k div 256 * 128))
               then lut_cell act (k div 256 * 128) a else l a))"
proof -
  have sc: "set (shard_scales n nthr ith (k div 256)) \<subseteq> {..<k div 256}"
    by (auto simp: shard_scales_def)
  have sg: "set (shard_groups n nthr ith (k div 256 * 128)) \<subseteq> {..<k div 256 * 128}"
    using assms by (auto simp: shard_groups_def loop_simps)
  show ?thesis
    unfolding preprocess_worker [OF assms] scale_cell_def lut_cell_def
    by (intro arg_cong2 [where f = Pair] arg_cong [where f = Some] ext)
      (subst fold_store_columns [OF _ _ sc] fold_store_columns [OF _ _ sg]; simp)+
qed

text \<open>Any set of workers that is complete fills every cell of the first \<open>n\<close> columns.\<close>

lemma fold_masked:
  "fold (\<lambda>w m a. if P w a then f a else m a) ws m = (\<lambda>a. if \<exists>w \<in> set ws. P w a then f a else m a)"
  by (induction ws arbitrary: m) (auto simp: fun_eq_iff)

lemma preprocess_workers_cells:
  assumes "\<forall>w \<in> set ws. w < nthr"
  shows "fold (\<lambda>ith. ggml_ifairy_lut_preprocess_lut16 ops m (int k) (int n) (Some act) (int ith) (int nthr)) ws
      (Some s, Some l) =
    (Some (\<lambda>a. if \<exists>ith \<in> set ws. a div 2 div (k div 256) \<in> set (shard_cols n nthr ith) \<and>
                  a div 2 mod (k div 256) \<in> set (shard_scales n nthr ith (k div 256))
               then scale_cell ops act (k div 256) a else s a),
     Some (\<lambda>a. if \<exists>ith \<in> set ws. a div 64 div (k div 256 * 128) \<in> set (shard_cols n nthr ith) \<and>
                  a div 64 mod (k div 256 * 128) \<in> set (shard_groups n nthr ith (k div 256 * 128))
               then lut_cell act (k div 256 * 128) a else l a))"
  using assms
proof (induction ws arbitrary: s l)
  case Nil
  then show ?case by simp
next
  case (Cons w ws)
  then show ?case by (simp add: preprocess_worker_cells) (auto simp: fun_eq_iff)
qed

lemma shards_cover:
  assumes "0 < nthr" and ws: "set ws = {..<nthr}"
  shows "(\<exists>ith \<in> set ws. col \<in> set (shard_cols n nthr ith) \<and> g \<in> set (shard_groups n nthr ith groups))
      \<longleftrightarrow> col < n \<and> g < groups"
    and "(\<exists>ith \<in> set ws. col \<in> set (shard_cols n nthr ith) \<and> b \<in> set (shard_scales n nthr ith blocks))
      \<longleftrightarrow> col < n \<and> b < blocks"
proof -
  have m: "x mod nthr < nthr" for x using assms(1) by simp
  have ex: "(\<exists>ith<nthr. x mod nthr = ith \<and> P) \<longleftrightarrow> P" for x P using m by blast
  show "(\<exists>ith \<in> set ws. col \<in> set (shard_cols n nthr ith) \<and> g \<in> set (shard_groups n nthr ith groups))
      \<longleftrightarrow> col < n \<and> g < groups"
    unfolding ws shard_cols_def shard_groups_def using assms(1)
    by (cases "n \<ge> nthr") (auto simp: loop_simps Bex_def m intro: m)
  show "(\<exists>ith \<in> set ws. col \<in> set (shard_cols n nthr ith) \<and> b \<in> set (shard_scales n nthr ith blocks))
      \<longleftrightarrow> col < n \<and> b < blocks"
    unfolding ws shard_cols_def shard_scales_def using assms(1)
    by (cases "n \<ge> nthr") (auto simp: loop_simps Bex_def m intro: m)
qed


lemma preprocess_all_workers:
  assumes "0 < nthr" and "set ws = {..<nthr}"
  shows "fold (\<lambda>ith. ggml_ifairy_lut_preprocess_lut16 ops m (int k) (int n) (Some act) (int ith) (int nthr)) ws
      (Some s, Some l) =
    (Some (\<lambda>a. if a div 2 div (k div 256) < n \<and> a div 2 mod (k div 256) < k div 256
               then scale_cell ops act (k div 256) a else s a),
     Some (\<lambda>a. if a div 64 div (k div 256 * 128) < n \<and> a div 64 mod (k div 256 * 128) < k div 256 * 128
               then lut_cell act (k div 256 * 128) a else l a))"
proof -
  have w: "\<forall>w \<in> set ws. w < nthr" using assms(2) by auto
  show ?thesis unfolding preprocess_workers_cells [OF w] shards_cover [OF assms] by (rule refl)
qed

text \<open>C1: the shards of the workers, in any order, make the buffers of one worker.\<close>

theorem lut_preprocess_sharding:
  assumes "0 < nthr" and "set ws = {..<nthr}"
  shows "fold (\<lambda>ith. ggml_ifairy_lut_preprocess_lut16 ops m (int k) (int n) (Some act) (int ith) (int nthr)) ws
      (Some s, Some l) =
    ggml_ifairy_lut_preprocess_lut16 ops m (int k) (int n) (Some act) 0 1 (Some s, Some l)"
proof -
  have "fold (\<lambda>ith. ggml_ifairy_lut_preprocess_lut16 ops m (int k) (int n) (Some act) (int ith) (int 1)) [0]
      (Some s, Some l) =
      fold (\<lambda>ith. ggml_ifairy_lut_preprocess_lut16 ops m (int k) (int n) (Some act) (int ith) (int nthr)) ws
      (Some s, Some l)"
    unfolding preprocess_all_workers [OF assms] by (rule preprocess_all_workers) auto
  then show ?thesis unfolding fold_simps int_ops by simp
qed

section \<open>The packed tiles\<close>

lemma fold_rewrite_cells:
  assumes "inj_on key (set xs)"
  shows "(\<forall>x \<in> set xs. \<exists>t0. fold (\<lambda>x p. p(key x := F x (p (key x)))) xs p (key x) = F x t0) \<and>
    (\<forall>i. i \<notin> key ` set xs \<longrightarrow> fold (\<lambda>x p. p(key x := F x (p (key x)))) xs p i = p i)"
  using assms
proof (induction xs arbitrary: p)
  case Nil
  then show ?case by simp
next
  case (Cons x xs)
  let ?p = "p(key x := F x (p (key x)))"
  have IH: "(\<forall>y \<in> set xs. \<exists>t0. fold (\<lambda>x p. p(key x := F x (p (key x)))) xs ?p (key y) = F y t0) \<and>
    (\<forall>i. i \<notin> key ` set xs \<longrightarrow> fold (\<lambda>x p. p(key x := F x (p (key x)))) xs ?p i = ?p i)"
    by (rule Cons.IH) (use Cons.prems in \<open>auto simp: inj_on_def\<close>)
  show ?case
  proof (intro conjI ballI allI impI)
    fix y assume y: "y \<in> set (x # xs)"
    show "\<exists>t0. fold (\<lambda>x p. p(key x := F x (p (key x)))) (x # xs) p (key y) = F y t0"
    proof (cases "y \<in> set xs")
      case True
      then show ?thesis using IH by simp
    next
      case False
      with y have "y = x" by simp
      moreover have "key x \<notin> key ` set xs" using Cons.prems False \<open>y = x\<close> by (auto simp: inj_on_def)
      ultimately show ?thesis using IH by auto
    qed
  next
    fix i assume "i \<notin> key ` set (x # xs)"
    then show "fold (\<lambda>x p. p(key x := F x (p (key x)))) (x # xs) p i = p i" using IH by auto
  qed
qed

lemma pack_tiles_cell:
  assumes "tile < (m + 15) div 16" "blk < blocks"
  shows "\<exists>t0. pack_tiles_scalar ops w idx m blocks gpb p (tile * blocks + blk) =
    pack_tile_scalar ops w idx m blocks gpb tile blk t0"
proof -
  let ?key = "\<lambda>(tile, blk). tile * blocks + blk :: nat"
  let ?F = "\<lambda>(tile, blk). pack_tile_scalar ops w idx m blocks gpb tile blk"
  let ?xs = "concat (map (\<lambda>tile. map (Pair tile) [0..<blocks]) [0..<(m + 15) div 16])"
  have flat: "pack_tiles_scalar ops w idx m blocks gpb p =
      fold (\<lambda>x p. p(?key x := ?F x (p (?key x)))) ?xs p"
  proof -
    have "fold (\<lambda>x p. p(?key x := ?F x (p (?key x)))) (concat (map (\<lambda>tile. map (Pair tile) [0..<blocks]) ts)) p =
        fold (\<lambda>tile. fold (\<lambda>blk p. p(tile * blocks + blk :=
               pack_tile_scalar ops w idx m blocks gpb tile blk (p (tile * blocks + blk)))) [0..<blocks]) ts p" for ts
      by (induction ts arbitrary: p) (simp_all add: fold_map comp_def)
    then show ?thesis by (simp add: pack_tiles_scalar_def)
  qed
  have inj: "inj_on ?key (set ?xs)"
  proof (rule inj_onI)
    fix x y assume h: "x \<in> set ?xs" "y \<in> set ?xs" "?key x = ?key y"
    obtain t b t' b' where xy: "x = (t, b)" "y = (t', b')" by fastforce
    with h have "b < blocks" "b' < blocks" "t * blocks + b = t' * blocks + b'" by auto
    then have "(t * blocks + b) div blocks = t \<and> (t * blocks + b) mod blocks = b \<and>
        (t * blocks + b) div blocks = t' \<and> (t * blocks + b) mod blocks = b'"
      by (metis add.commute add.right_neutral div_less div_mult_self1 mod_less mod_mult_self3 not_less_zero)
    with xy show "x = y" by simp
  qed
  have "(tile, blk) \<in> set ?xs" using assms by (auto intro!: bexI [of _ tile])
  then show ?thesis using fold_rewrite_cells [OF inj, of ?F p] unfolding flat by fastforce
qed

lemma nibbles_of_pair:
  assumes "(a :: u8) < 16" "b < 16"
  shows "(a OR push_bit 4 b) AND 15 = a" and "drop_bit 4 (a OR push_bit 4 b) AND 15 = b"
proof -
  have m: "x AND 15 = (take_bit 4 x :: u8)" for x :: u8 by (simp add: take_bit_eq_mask mask_numeral)
  have small: "take_bit 4 x = x \<and> drop_bit 4 x = 0" if "x < 16" for x :: u8
  proof
    show "take_bit 4 x = x" using that by (simp add: take_bit_eq_mod mod_word_less)
    show "drop_bit 4 x = 0" using that by (simp add: drop_bit_eq_div div_word_less)
  qed
  show "(a OR push_bit 4 b) AND 15 = a"
    using small [OF assms(1)] by (simp add: m take_bit_push_bit)
  show "drop_bit 4 (a OR push_bit 4 b) AND 15 = b"
  proof (rule bit_word_eqI)
    fix i assume "i < LENGTH(8)"
    have "bit a (4 + i) \<longleftrightarrow> bit (drop_bit 4 a) i" "bit b i \<longleftrightarrow> bit (take_bit 4 b) i"
      using small [OF assms(2)] by (simp_all add: bit_drop_bit_eq)
    then show "bit (drop_bit 4 (a OR push_bit 4 b) AND 15) i = bit b i"
      using small [OF assms(1)] unfolding m
      by (auto simp: bit_simps)
  qed
qed


section \<open>The exact product\<close>

text \<open>
  Exact arithmetic: the float operations are those of the reals; \<open>half\<close> decodes the 16-bit scales.
\<close>

definition exact_ops :: "(u16 \<Rightarrow> real) \<Rightarrow> (u16 \<Rightarrow> real) \<Rightarrow> (real \<Rightarrow> u16) \<Rightarrow> real float_ops" where
  "exact_ops half of_bf to_bf =
     \<lparr>f_zero = 0, f_add = (+), f_sub = (-), f_mul = (*), f_of_int = real_of_int,
      f_of_half = half, f_of_bf16 = of_bf, f_to_bf16 = to_bf\<rparr>"

definition ifairy_weight :: "(u16 \<Rightarrow> real) \<Rightarrow> block_ifairy list \<Rightarrow> nat \<Rightarrow> complex" where
  "ifairy_weight half bs i =
     (let b = bs ! (i div 256); c = ggml_ifairy_read_code bs i
      in Complex (real_of_int (sgn_r c) * half (d_real b)) (real_of_int (sgn_i c) * half (d_imag b)))"

definition act_re :: "block_ifairy_q16 list \<Rightarrow> nat \<Rightarrow> int" where
  "act_re xs i = ggml_ifairy_u8_to_s8_int (x_real (xs ! (i div 256)) ! (i mod 256))"

definition act_im :: "block_ifairy_q16 list \<Rightarrow> nat \<Rightarrow> int" where
  "act_im xs i = ggml_ifairy_u8_to_s8_int (x_imag (xs ! (i div 256)) ! (i mod 256))"

definition ifairy_activation :: "(u16 \<Rightarrow> real) \<Rightarrow> block_ifairy_q16 list \<Rightarrow> nat \<Rightarrow> complex" where
  "ifairy_activation half xs i =
     Complex (half (xd_real (xs ! (i div 256))) * real_of_int (act_re xs i)) (half (xd_imag (xs ! (i div 256))) * real_of_int (act_im xs i))"

definition ifairy_product :: "(u16 \<Rightarrow> real) \<Rightarrow> block_ifairy list \<Rightarrow> block_ifairy_q16 list \<Rightarrow> nat \<Rightarrow> complex" where
  "ifairy_product half bs xs k = (\<Sum>i<k. ifairy_weight half bs i * cnj (ifairy_activation half xs i))"

text \<open>The product, block by block, in terms of the four integer sums.\<close>

lemma exact_block_product:
  fixes r i :: "nat \<Rightarrow> int"
  shows "(\<Sum>j\<in>A. Complex (real_of_int (sgn_r (c j)) * wr) (real_of_int (sgn_i (c j)) * wi) * cnj (Complex (lr * real_of_int (r j)) (li * real_of_int (i j)))) =
    Complex (real_of_int (\<Sum>j\<in>A. sgn_r (c j) * r j) * (lr * wr) + real_of_int (\<Sum>j\<in>A. sgn_i (c j) * i j) * (li * wi))
      (real_of_int (\<Sum>j\<in>A. sgn_i (c j) * r j) * (lr * wi) + real_of_int (\<Sum>j\<in>A. - (sgn_r (c j) * i j)) * (li * wr))"
  by (rule complex_eqI)
    (simp_all add: sum_distrib_left sum_distrib_right sum.distrib sum_subtractf sum_negf algebra_simps)

lemma ifairy_product_blocks:
  assumes "k = blocks * 256"
  shows "ifairy_product half bs xs k = (\<Sum>b<blocks.
    Complex (real_of_int (\<Sum>j<256. sgn_r (ggml_ifairy_read_code bs (b * 256 + j)) * act_re xs (b * 256 + j)) *
               (half (xd_real (xs ! b)) * half (d_real (bs ! b))) +
             real_of_int (\<Sum>j<256. sgn_i (ggml_ifairy_read_code bs (b * 256 + j)) * act_im xs (b * 256 + j)) *
               (half (xd_imag (xs ! b)) * half (d_imag (bs ! b))))
            (real_of_int (\<Sum>j<256. sgn_i (ggml_ifairy_read_code bs (b * 256 + j)) * act_re xs (b * 256 + j)) *
               (half (xd_real (xs ! b)) * half (d_imag (bs ! b))) +
             real_of_int (\<Sum>j<256. - (sgn_r (ggml_ifairy_read_code bs (b * 256 + j)) * act_im xs (b * 256 + j))) *
               (half (xd_imag (xs ! b)) * half (d_real (bs ! b)))))"
  unfolding ifairy_product_def assms sum_blocks
  by (rule sum.cong [OF refl], subst exact_block_product [symmetric])
    (simp add: ifairy_weight_def ifairy_activation_def Let_def)

lemma fold_add_pair:
  fixes f g :: "'b \<Rightarrow> real"
  shows "fold (\<lambda>b (x, y). (x + f b, y + g b)) bs (x0, y0) =
    (x0 + (\<Sum>b\<leftarrow>bs. f b), y0 + (\<Sum>b\<leftarrow>bs. g b))"
  by (induction bs arbitrary: x0 y0) auto

text \<open>
  The same product over the program's own float operations: per block the four sums of signed activations are
  integers, computed from the codes without tables, and enter the accumulators in the order of the code.
\<close>

definition ifairy_reference :: "'f float_ops \<Rightarrow> block_ifairy list \<Rightarrow> block_ifairy_q16 list \<Rightarrow> nat \<Rightarrow> 'f \<times> 'f" where
  "ifairy_reference ops bs xs blocks =
     fold (\<lambda>b (r, i).
       let c = (\<lambda>j. ggml_ifairy_read_code bs (b * 256 + j)); re = (\<lambda>j. act_re xs (b * 256 + j)); im = (\<lambda>j. act_im xs (b * 256 + j));
           lr = f_of_half ops (xd_real (xs ! b)); li = f_of_half ops (xd_imag (xs ! b));
           wr = f_of_half ops (d_real (bs ! b)); wi = f_of_half ops (d_imag (bs ! b))
       in (f_add ops r (f_add ops (f_mul ops (f_of_int ops (\<Sum>j<256. sgn_r (c j) * re j)) (f_mul ops lr wr))
                                  (f_mul ops (f_of_int ops (\<Sum>j<256. sgn_i (c j) * im j)) (f_mul ops li wi))),
           f_add ops i (f_add ops (f_mul ops (f_of_int ops (\<Sum>j<256. sgn_i (c j) * re j)) (f_mul ops lr wi))
                                  (f_mul ops (f_of_int ops (\<Sum>j<256. - (sgn_r (c j) * im j))) (f_mul ops li wr)))))
     [0..<blocks] (f_zero ops, f_zero ops)"

lemma ifairy_reference_exact:
  "ifairy_reference (exact_ops half of_bf to_bf) bs xs blocks = (let z = ifairy_product half bs xs (blocks * 256) in (Re z, Im z))"
proof -
  let ?T = "\<lambda>b. Complex (real_of_int (\<Sum>j<256. sgn_r (ggml_ifairy_read_code bs (b * 256 + j)) * act_re xs (b * 256 + j)) *
               (half (xd_real (xs ! b)) * half (d_real (bs ! b))) +
             real_of_int (\<Sum>j<256. sgn_i (ggml_ifairy_read_code bs (b * 256 + j)) * act_im xs (b * 256 + j)) *
               (half (xd_imag (xs ! b)) * half (d_imag (bs ! b))))
            (real_of_int (\<Sum>j<256. sgn_i (ggml_ifairy_read_code bs (b * 256 + j)) * act_re xs (b * 256 + j)) *
               (half (xd_real (xs ! b)) * half (d_imag (bs ! b))) +
             real_of_int (\<Sum>j<256. - (sgn_r (ggml_ifairy_read_code bs (b * 256 + j)) * act_im xs (b * 256 + j))) *
               (half (xd_imag (xs ! b)) * half (d_real (bs ! b))))"
  have "ifairy_reference (exact_ops half of_bf to_bf) bs xs blocks =
      fold (\<lambda>b (x, y). (x + Re (?T b), y + Im (?T b))) [0..<blocks] (0, 0)"
    unfolding ifairy_reference_def exact_ops_def Let_def by (simp only: float_ops.simps complex.sel)
  then show ?thesis
    unfolding ifairy_product_blocks [OF refl] fold_add_pair by (simp add: sum_list_upt lessThan_atLeast0 Re_sum Im_sum Let_def)
qed

lemma row_accumulate_reference:
  fixes lut_col :: "nat \<Rightarrow> 8 word"
  assumes sums: "\<And>b. b < blocks \<Longrightarrow> lut_block_sums gpb (t_qs (wtiles (row div 16 * blocks + b))) (row mod 16)
      (\<lambda>a. lut_col (b * gpb * 64 + a)) =
      (\<Sum>j<256. sgn_r (ggml_ifairy_read_code bs (b * 256 + j)) * act_re xs (b * 256 + j),
       \<Sum>j<256. sgn_i (ggml_ifairy_read_code bs (b * 256 + j)) * act_re xs (b * 256 + j),
       \<Sum>j<256. - (sgn_r (ggml_ifairy_read_code bs (b * 256 + j)) * act_im xs (b * 256 + j)),
       \<Sum>j<256. sgn_i (ggml_ifairy_read_code bs (b * 256 + j)) * act_im xs (b * 256 + j))"
    and scale: "\<And>b. b < blocks \<Longrightarrow> t_d_real (wtiles (row div 16 * blocks + b)) (row mod 16) = f_of_half ops (d_real (bs ! b)) \<and>
        t_d_imag (wtiles (row div 16 * blocks + b)) (row mod 16) = f_of_half ops (d_imag (bs ! b))"
    and sc: "\<And>b. b < blocks \<Longrightarrow> scales (b * 2) = f_of_half ops (xd_real (xs ! b)) \<and> scales (b * 2 + 1) = f_of_half ops (xd_imag (xs ! b))"
  shows "lut_row_accumulate ops (\<lambda>v. v) blocks gpb wtiles lut_col scales row (f_zero ops, f_zero ops) = ifairy_reference ops bs xs blocks"
  unfolding lut_row_accumulate_def ifairy_reference_def Let_def
proof (rule fold_cong [OF refl refl])
  fix b assume "b \<in> set [0..<blocks]"
  then have b: "b < blocks" by simp
  have s: "scales (b * 2) = f_of_half ops (xd_real (xs ! b))" "scales (b * 2 + 1) = f_of_half ops (xd_imag (xs ! b))"
    "t_d_real (wtiles (row div 16 * blocks + b)) (row mod 16) = f_of_half ops (d_real (bs ! b))"
    "t_d_imag (wtiles (row div 16 * blocks + b)) (row mod 16) = f_of_half ops (d_imag (bs ! b))"
    using sc [OF b] scale [OF b] by simp_all
  show "(\<lambda>(out_r, out_i). case lut_block_sums gpb (t_qs (wtiles (row div 16 * blocks + b))) (row mod 16)
        (\<lambda>a. lut_col (b * gpb * k_ifairy_lut_group_bytes + a)) of (sum_ac, sum_bc, sum_ad, sum_bd) \<Rightarrow>
      (f_add ops out_r (f_add ops (f_mul ops (f_of_int ops sum_ac) (f_mul ops (scales (b * 2 + 0)) (t_d_real (wtiles (row div 16 * blocks + b)) (row mod 16))))
         (f_mul ops (f_of_int ops sum_bd) (f_mul ops (scales (b * 2 + 1)) (t_d_imag (wtiles (row div 16 * blocks + b)) (row mod 16))))),
       f_add ops out_i (f_add ops (f_mul ops (f_of_int ops sum_bc) (f_mul ops (scales (b * 2 + 0)) (t_d_imag (wtiles (row div 16 * blocks + b)) (row mod 16))))
         (f_mul ops (f_of_int ops sum_ad) (f_mul ops (scales (b * 2 + 1)) (t_d_real (wtiles (row div 16 * blocks + b)) (row mod 16))))))) =
    (\<lambda>(r, i). (f_add ops r (f_add ops (f_mul ops (f_of_int ops (\<Sum>j<256. sgn_r (ggml_ifairy_read_code bs (b * 256 + j)) * act_re xs (b * 256 + j)))
           (f_mul ops (f_of_half ops (xd_real (xs ! b))) (f_of_half ops (d_real (bs ! b)))))
         (f_mul ops (f_of_int ops (\<Sum>j<256. sgn_i (ggml_ifairy_read_code bs (b * 256 + j)) * act_im xs (b * 256 + j)))
           (f_mul ops (f_of_half ops (xd_imag (xs ! b))) (f_of_half ops (d_imag (bs ! b)))))),
       f_add ops i (f_add ops (f_mul ops (f_of_int ops (\<Sum>j<256. sgn_i (ggml_ifairy_read_code bs (b * 256 + j)) * act_re xs (b * 256 + j)))
           (f_mul ops (f_of_half ops (xd_real (xs ! b))) (f_of_half ops (d_imag (bs ! b)))))
         (f_mul ops (f_of_int ops (\<Sum>j<256. - (sgn_r (ggml_ifairy_read_code bs (b * 256 + j)) * act_im xs (b * 256 + j))))
           (f_mul ops (f_of_half ops (xd_imag (xs ! b))) (f_of_half ops (d_real (bs ! b))))))))"
    by (simp only: sums [OF b] s add_0_right prod.case)
qed

section \<open>Output slots\<close>

lemma qgemm_one_slots:
  "slot_f32 (ggml_ifairy_lut_qgemm_lut16_one ops sc blocks gpb m wtiles lut_col scales False False d) row =
    (if row < m then lut_row_accumulate ops sc blocks gpb wtiles lut_col scales row (f_zero ops, f_zero ops)
     else slot_f32 d row)"
  unfolding ggml_ifairy_lut_qgemm_lut16_one_def
  by (induction m) (auto simp: lut_store_slot_def split: prod.splits)

lemma qgemm_columns_col:
  "lut_qgemm_columns ops sc blocks gpb m n wtiles lut scales pb add dst col =
    (if col < n then ggml_ifairy_lut_qgemm_lut16_one ops sc blocks gpb m wtiles
         (\<lambda>a. lut (col * (blocks * gpb) * 64 + a)) (\<lambda>i. scales (col * blocks * 2 + i)) pb add (dst col)
     else dst col)"
  unfolding lut_qgemm_columns_def by (induction n) auto


section \<open>The whole pipeline\<close>

text \<open>The bytes the scalar driver asks of its scratch buffer.\<close>

definition lut_scratch_bytes :: "nat \<Rightarrow> nat \<Rightarrow> nat \<Rightarrow> nat" where
  "lut_scratch_bytes m k n =
     (let groups = k div 256 * 128 in
      GGML_PAD (m * groups) 64 + GGML_PAD ((m + 15) div 16 * (k div 256) * 1152) 64 +
      n * groups * 64 + n * (k div 256) * 8)"

definition lut_safe_column :: "nat \<Rightarrow> block_ifairy_q16 list \<Rightarrow> bool" where
  "lut_safe_column k xs \<longleftrightarrow> (\<forall>i<k. lut_safe (act_re xs i) \<and> lut_safe (act_im xs i))"

lemma packed_block_sums:
  fixes bs :: "block_ifairy list" and ix :: "nat \<Rightarrow> u8"
  assumes blk: "blk < blocks"
    and tq: "\<And>b. b < 64 \<Longrightarrow> tq b lane = (ix (blk * 128 + b * 2) AND 15) OR push_bit 4 (ix (blk * 128 + b * 2 + 1) AND 15)"
    and idx: "\<And>g. g < blocks * 128 \<Longrightarrow>
      ix g = pair_pattern (ggml_ifairy_read_code bs (2 * g)) (ggml_ifairy_read_code bs (2 * g + 1))"
    and safe: "lut_safe_column (blocks * 256) xs"
    and lut: "\<And>g e. g < blocks * 128 \<Longrightarrow> e < 64 \<Longrightarrow> lut_col (g * 64 + e) = lut_group xs g ! e"
  shows "lut_block_sums 128 tq lane (\<lambda>a. lut_col (blk * 128 * 64 + a)) =
    (\<Sum>j<256. sgn_r (ggml_ifairy_read_code bs (blk * 256 + j)) * act_re xs (blk * 256 + j),
     \<Sum>j<256. sgn_i (ggml_ifairy_read_code bs (blk * 256 + j)) * act_re xs (blk * 256 + j),
     \<Sum>j<256. - (sgn_r (ggml_ifairy_read_code bs (blk * 256 + j)) * act_im xs (blk * 256 + j)),
     \<Sum>j<256. sgn_i (ggml_ifairy_read_code bs (blk * 256 + j)) * act_im xs (blk * 256 + j))"
proof -
  let ?code = "\<lambda>j. ggml_ifairy_read_code bs (blk * 256 + j)"
  have in_blk: "blk * 128 + g < blocks * 128" if "g < 128" for g
  proof -
    have "Suc blk * 128 \<le> blocks * 128" using blk by (intro mult_le_mono1) simp
    with that show ?thesis by simp
  qed
  have pat: "pair_pattern (?code i) (?code j) < 16" for i j
    using pattern_lt_16 [OF read_code_less_4 read_code_less_4] by (simp add: word_less_nat_alt)
  have cell: "ix (blk * 128 + g) = pair_pattern (?code (2 * g)) (?code (2 * g + 1))"
    if "g < 128" for g
  proof -
    have "2 * (blk * 128 + g) = blk * 256 + 2 * g" "2 * (blk * 128 + g) + 1 = blk * 256 + (2 * g + 1)" by simp_all
    then show ?thesis using idx [OF in_blk [OF that]] by (simp only: add.assoc)
  qed
  have tile: "tq b lane AND 15 = pair_pattern (?code (4 * b)) (?code (4 * b + 1)) \<and>
      drop_bit 4 (tq b lane) AND 15 = pair_pattern (?code (4 * b + 2)) (?code (4 * b + 3))"
    if b: "b < 128 div 2" for b
  proof -
    have e: "4 * b = 2 * (b * 2)" "4 * b + 1 = 2 * (b * 2) + 1" "4 * b + 2 = 2 * (b * 2 + 1)"
      "4 * b + 3 = 2 * (b * 2 + 1) + 1" by simp_all
    have nib: "pair_pattern (?code i) (?code j) AND 15 = pair_pattern (?code i) (?code j)" for i j
      by (rule pair_pattern_nibble) simp_all
    have c0: "ix (blk * 128 + b * 2) = pair_pattern (?code (2 * (b * 2))) (?code (2 * (b * 2) + 1))"
      by (rule cell) (use b in simp)
    have c1: "ix (blk * 128 + b * 2 + 1) = pair_pattern (?code (2 * (b * 2 + 1))) (?code (2 * (b * 2 + 1) + 1))"
      using cell [of "b * 2 + 1"] b by (simp only: add.assoc)
    have "tq b lane = (ix (blk * 128 + b * 2) AND 15) OR push_bit 4 (ix (blk * 128 + b * 2 + 1) AND 15)"
      using b by (intro tq) simp
    also have "\<dots> = pair_pattern (?code (2 * (b * 2))) (?code (2 * (b * 2) + 1)) OR
        push_bit 4 (pair_pattern (?code (2 * (b * 2 + 1))) (?code (2 * (b * 2 + 1) + 1)))"
      unfolding c0 c1 nib by (rule refl)
    finally show ?thesis
      using nibbles_of_pair [OF pat pat, of "2 * (b * 2)" "2 * (b * 2) + 1" "2 * (b * 2 + 1)" "2 * (b * 2 + 1) + 1"]
      unfolding e(4) unfolding e(3) unfolding e(2) unfolding e(1) by simp
  qed
  have tables: "lut_col (blk * 128 * 64 + (g * 64 + e)) = ggml_ifairy_lut_fill_group_lut16
      (act_re xs (blk * 256 + 2 * g)) (act_im xs (blk * 256 + 2 * g))
      (act_re xs (blk * 256 + (2 * g + 1))) (act_im xs (blk * 256 + (2 * g + 1))) ! e"
    if "g < 128" "e < 64" for g e
  proof -
    have "blk * 128 * 64 + (g * 64 + e) = (blk * 128 + g) * 64 + e" by simp
    then have "lut_col (blk * 128 * 64 + (g * 64 + e)) = lut_group xs (blk * 128 + g) ! e"
      using lut [OF in_blk [OF that(1)] that(2)] by (simp only:)
    moreover have "(blk * 128 + g) div 128 = blk" "(blk * 128 + g) mod 128 = g" using that(1) by simp_all
    moreover have "(blk * 256 + 2 * g) div 256 = blk" "(blk * 256 + 2 * g) mod 256 = g * 2"
      "(blk * 256 + (2 * g + 1)) div 256 = blk" "(blk * 256 + (2 * g + 1)) mod 256 = g * 2 + 1"
      using that(1) by simp_all
    ultimately show ?thesis by (simp only: lut_group_def Let_def act_re_def act_im_def)
  qed
  have sf: "lut_safe (act_re xs (blk * 256 + j)) \<and> lut_safe (act_im xs (blk * 256 + j))" if "j < 256" for j
  proof -
    have "Suc blk * 256 \<le> blocks * 256" using blk by (intro mult_le_mono1) simp
    then have "blk * 256 + j < blocks * 256" using that by simp
    with safe show ?thesis by (simp add: lut_safe_column_def)
  qed
  have "lut_block_sums 128 tq lane (\<lambda>a. lut_col (blk * 128 * 64 + a)) =
    (\<Sum>j<2 * 128. sgn_r (?code j) * act_re xs (blk * 256 + j), \<Sum>j<2 * 128. sgn_i (?code j) * act_re xs (blk * 256 + j),
     \<Sum>j<2 * 128. - (sgn_r (?code j) * act_im xs (blk * 256 + j)), \<Sum>j<2 * 128. sgn_i (?code j) * act_im xs (blk * 256 + j))"
    by (rule lut_block_sums_direct) (use tile tables sf in simp_all)
  then show ?thesis by simp
qed

text \<open>One output row: the accumulation over tiles that hold the packed codes of the row.\<close>

lemma lut_slot_reference:
  fixes bs :: "block_ifairy list" and ix :: "nat \<Rightarrow> u8" and r :: nat
  defines "lane \<equiv> r mod 16"
  assumes tq: "\<And>b y. b < blocks \<Longrightarrow> y < 64 \<Longrightarrow> t_qs (wt (r div 16 * blocks + b)) y lane =
        (ix (b * 128 + y * 2) AND 15) OR push_bit 4 (ix (b * 128 + y * 2 + 1) AND 15)"
    and idx: "\<And>g. g < blocks * 128 \<Longrightarrow>
      ix g = pair_pattern (ggml_ifairy_read_code bs (2 * g)) (ggml_ifairy_read_code bs (2 * g + 1))"
    and scale: "\<And>b. b < blocks \<Longrightarrow> t_d_real (wt (r div 16 * blocks + b)) lane = f_of_half ops (d_real (bs ! b)) \<and>
        t_d_imag (wt (r div 16 * blocks + b)) lane = f_of_half ops (d_imag (bs ! b))"
    and safe: "lut_safe_column (blocks * 256) xs"
    and lut: "\<And>g e. g < blocks * 128 \<Longrightarrow> e < 64 \<Longrightarrow> lc (g * 64 + e) = lut_group xs g ! e"
    and sc: "\<And>b. b < blocks \<Longrightarrow> sc (b * 2) = f_of_half ops (xd_real (xs ! b)) \<and> sc (b * 2 + 1) = f_of_half ops (xd_imag (xs ! b))"
  shows "lut_row_accumulate ops (\<lambda>v. v) blocks 128 wt lc sc r (f_zero ops, f_zero ops) = ifairy_reference ops bs xs blocks"
proof (rule row_accumulate_reference [OF _ _ sc])
  fix b assume b: "b < blocks"
  show "lut_block_sums 128 (t_qs (wt (r div 16 * blocks + b))) (r mod 16) (\<lambda>a. lc (b * 128 * 64 + a)) =
     (\<Sum>j<256. sgn_r (ggml_ifairy_read_code bs (b * 256 + j)) * act_re xs (b * 256 + j),
      \<Sum>j<256. sgn_i (ggml_ifairy_read_code bs (b * 256 + j)) * act_re xs (b * 256 + j),
      \<Sum>j<256. - (sgn_r (ggml_ifairy_read_code bs (b * 256 + j)) * act_im xs (b * 256 + j)),
      \<Sum>j<256. sgn_i (ggml_ifairy_read_code bs (b * 256 + j)) * act_im xs (b * 256 + j))"
    by (rule packed_block_sums [where ix = ix, OF b _ idx safe lut]) (use tq [OF b] in \<open>simp_all add: lane_def\<close>)
  show "t_d_real (wt (r div 16 * blocks + b)) (r mod 16) = f_of_half ops (d_real (bs ! b)) \<and>
      t_d_imag (wt (r div 16 * blocks + b)) (r mod 16) = f_of_half ops (d_imag (bs ! b))"
    using scale [OF b] by (simp add: lane_def)
qed

text \<open>The cells of one column of the filled buffers.\<close>

lemma lut_column_cell:
  assumes "col < n" "g < G" "e < 64"
  shows "(\<lambda>a. if a div 64 div G < n \<and> a div 64 mod G < G then lut_cell act G a else l a) (col * G * 64 + (g * 64 + e)) =
    lut_group (act col) g ! e"
proof -
  have eq: "col * G * 64 + (g * 64 + e) = (col * G + g) * 64 + e" by (simp add: algebra_simps)
  have "(col * G * 64 + (g * 64 + e)) div 64 = col * G + g" "(col * G * 64 + (g * 64 + e)) mod 64 = e"
    unfolding eq by (rule div_mod_block [OF assms(3)])+
  moreover have "(col * G + g) div G = col" "(col * G + g) mod G = g" using assms(2) by simp_all
  ultimately show ?thesis using assms(1,2) by (simp only: lut_cell_def simp_thms if_True)
qed

lemma scale_column_cell:
  fixes ops :: "'f float_ops" and s :: "nat \<Rightarrow> 'f" and act :: "nat \<Rightarrow> block_ifairy_q16 list"
  assumes "col < n" "b < blocks"
  defines "S \<equiv> \<lambda>a. if a div 2 div blocks < n \<and> a div 2 mod blocks < blocks then scale_cell ops act blocks a else s a"
  shows "S (col * blocks * 2 + b * 2) = f_of_half ops (xd_real (act col ! b)) \<and>
    S (col * blocks * 2 + (b * 2 + 1)) = f_of_half ops (xd_imag (act col ! b))"
proof -
  have eq: "col * blocks * 2 + b * 2 = (col * blocks + b) * 2 + 0"
    "col * blocks * 2 + (b * 2 + 1) = (col * blocks + b) * 2 + 1" by simp_all
  have "(col * blocks * 2 + b * 2) div 2 = col * blocks + b" "(col * blocks * 2 + b * 2) mod 2 = 0"
    "(col * blocks * 2 + (b * 2 + 1)) div 2 = col * blocks + b" "(col * blocks * 2 + (b * 2 + 1)) mod 2 = 1"
    unfolding eq by (rule div_mod_block, simp)+
  moreover have "(col * blocks + b) div blocks = col" "(col * blocks + b) mod blocks = b" using assms(2) by simp_all
  ultimately show ?thesis using assms(1,2)
    by (simp only: S_def scale_cell_def simp_thms if_True) (simp add: lut_scale_pair_def)
qed

lemma checked_add_ok: "a + b < 2 ^ 64 \<Longrightarrow> ggml_ifairy_checked_add_size a b = Some (a + b)"
  by (simp add: ggml_ifairy_checked_add_size_def)

text \<open>
  C2: the scalar table product, over any float operations, when the packing and table sizes fit in 64 bits and every
  quantised activation is between \<open>-63\<close> and \<open>63\<close>. If the scratch buffer cannot be allocated the output is left alone;
  otherwise every output slot holds what the accumulation of the directly computed block sums gives with the same
  float operations in the same order. Over the reals that accumulation is the complex product of the weights with the
  conjugated activations.
\<close>

theorem lut_mul_mat_scalar_correct:
  fixes w :: "block_ifairy list" and ops :: "'f float_ops"
  assumes dims: "0 < m" "0 < k" "0 < n" "256 dvd k"
    and room: "lut_scratch_bytes m k n < 2 ^ 64"
    and w: "length w = m * (k div 256)"
    and safe: "\<And>col. col < n \<Longrightarrow> lut_safe_column k (act col)"
  shows "(if fst (ggml_ifairy_tl_reserve malloc_ok buf (lut_scratch_bytes m k n))
     then \<exists>out buf'. ggml_ifairy_lut_mul_mat_scalar ops malloc_ok scratch buf m k n (Some w) (Some act) (Some dst) = Some (Some out, buf') \<and>
       (\<forall>col<n. \<forall>row<m. slot_f32 (out col) row = ifairy_reference ops (drop (row * (k div 256)) w) (act col) (k div 256))
     else \<exists>buf'. ggml_ifairy_lut_mul_mat_scalar ops malloc_ok scratch buf m k n (Some w) (Some act) (Some dst) = Some (Some dst, buf')) \<and>
    (\<forall>col<n. \<forall>row<m. ifairy_reference (exact_ops half of_bf to_bf) (drop (row * (k div 256)) w) (act col) (k div 256) =
       (let z = ifairy_product half (drop (row * (k div 256)) w) (act col) k in (Re z, Im z)))"
proof -
  define blocks where "blocks = k div 256"
  have k: "k = blocks * 256" and kdiv: "k div 2 = blocks * 128" using dims(4) by (auto simp: blocks_def)
  let ?ib = "GGML_PAD (m * (blocks * 128)) 64" and ?pb = "GGML_PAD ((m + 15) div 16 * blocks * 1152) 64"
  have room': "?ib + ?pb + n * (blocks * 128) * 64 + n * blocks * 8 < 2 ^ 64"
    using room by (simp add: lut_scratch_bytes_def Let_def blocks_def)
  have ib: "m * (blocks * 128) \<le> ?ib" by (rule GGML_PAD_ge) simp
  have cap: "k div 2 * m \<le> SIZE_MAX" using ib room' by (simp add: kdiv mult.commute)
  let ?dst0 = "map (sc_index scratch) [0..<m * (blocks * 128)]"
  have len0: "k div 2 * m \<le> length ?dst0" by (simp add: kdiv mult.commute)
  obtain ok idx where enc: "ggml_ifairy_2w_encode w k m ?dst0 = Some (ok, idx)"
    using ifairy.encode_ok [OF dims(2,1,4) cap len0] by blast
  have idx: "idx ! (row * (blocks * 128) + g) = pair_pattern (ggml_ifairy_read_code (drop (row * blocks) w) (2 * g))
        (ggml_ifairy_read_code (drop (row * blocks) w) (2 * g + 1))" if "row < m" "g < blocks * 128" for row g
    using ifairy.encode_nth [OF dims(2,4) cap len0 enc that(1), of g] that(2)
    by (simp add: kdiv blocks_def [symmetric])
  let ?P = "pack_tiles_scalar ops w idx m blocks 128 (sc_tiles scratch)"
  define L where "L = (\<lambda>a. if a div 64 div (blocks * 128) < n \<and> a div 64 mod (blocks * 128) < blocks * 128
     then lut_cell act (blocks * 128) a else sc_lut scratch a)"
  define S where "S = (\<lambda>a. if a div 2 div blocks < n \<and> a div 2 mod blocks < blocks
     then scale_cell ops act blocks a else sc_scales scratch a)"
  have pre: "ggml_ifairy_lut_preprocess_lut16 ops (int m) (int k) (int n) (Some act) 0 1
      (Some (sc_scales scratch), Some (sc_lut scratch)) = (Some S, Some L)"
    using preprocess_all_workers [of 1 "[0]" ops "int m" k n act "sc_scales scratch" "sc_lut scratch"]
    unfolding fold_simps int_ops blocks_def [symmetric] S_def L_def by (simp add: lessThan_Suc)
  let ?out = "lut_qgemm_columns ops (\<lambda>v. v) blocks 128 m n ?P L S False False dst"
  obtain ok' buf' where res: "ggml_ifairy_tl_reserve malloc_ok buf (lut_scratch_bytes m k n) = (ok', buf')" by fastforce
  then have res': "ggml_ifairy_tl_reserve malloc_ok buf (?ib + ?pb + n * (blocks * 128) * 64 + n * blocks * 2 * 4) = (ok', buf')"
    by (simp add: lut_scratch_bytes_def Let_def blocks_def)
  have run: "ggml_ifairy_lut_mul_mat_scalar ops malloc_ok scratch buf m k n (Some w) (Some act) (Some dst) =
      Some (if ok' then Some ?out else Some dst, buf')"
  proof -
    have lm: "n * (blocks * 128) * 64 mod 2 ^ 64 = n * (blocks * 128) * 64" using room' by simp
    have adds: "ggml_ifairy_checked_add_size ?ib ?pb = Some (?ib + ?pb)"
      "ggml_ifairy_checked_add_size (?ib + ?pb) (n * (blocks * 128) * 64) =
        Some (?ib + ?pb + n * (blocks * 128) * 64)"
      "ggml_ifairy_checked_add_size (?ib + ?pb + n * (blocks * 128) * 64) (n * blocks * 2 * 4) =
        Some (?ib + ?pb + n * (blocks * 128) * 64 + n * blocks * 2 * 4)"
      by (rule checked_add_ok; use room' in \<open>simp add: algebra_simps\<close>)+
    show ?thesis
      unfolding ggml_ifairy_lut_mul_mat_scalar_def Let_def blocks_def [symmetric] lm
      using dims by (simp only: adds bind.simps res' enc pre prod.case option.sel)
        (simp add: ggml_ifairy_lut_qgemm_lut16_def blocks_def)
  qed
  have slot: "slot_f32 (?out col) row = ifairy_reference ops (drop (row * blocks) w) (act col) blocks"
    if col: "col < n" and row: "row < m" for col row
  proof -
    let ?xs = "act col" and ?bs = "drop (row * blocks) w"
    let ?lc = "\<lambda>a. L (col * (blocks * 128) * 64 + a)" and ?sc = "\<lambda>i. S (col * blocks * 2 + i)"
    have lut: "?lc (g * 64 + e) = lut_group ?xs g ! e" if "g < blocks * 128" "e < 64" for g e
      unfolding L_def by (rule lut_column_cell [OF col that])
    have sc: "?sc (b * 2) = f_of_half ops (xd_real (?xs ! b)) \<and> ?sc (b * 2 + 1) = f_of_half ops (xd_imag (?xs ! b))"
      if "b < blocks" for b
      unfolding S_def using scale_column_cell [OF col that, of ops act "sc_scales scratch"] by simp
    have tile: "row div 16 < (m + 15) div 16" using row by (simp add: div_less_iff_less_mult)
    define t0 where "t0 = (\<lambda>b. SOME t. ?P (row div 16 * blocks + b) =
        pack_tile_scalar ops w idx m blocks 128 (row div 16) b t)"
    have t0: "?P (row div 16 * blocks + b) = pack_tile_scalar ops w idx m blocks 128 (row div 16) b (t0 b)"
      if "b < blocks" for b
      unfolding t0_def by (rule someI_ex) (rule pack_tiles_cell [OF tile that])
    have "row * blocks \<le> length w" using w row by (simp add: blocks_def)
    then have tl: "t_d_real (?P (row div 16 * blocks + b)) (row mod 16) = f_of_half ops (d_real (?bs ! b)) \<and>
        t_d_imag (?P (row div 16 * blocks + b)) (row mod 16) = f_of_half ops (d_imag (?bs ! b))"
      "y < 64 \<Longrightarrow> t_qs (?P (row div 16 * blocks + b)) y (row mod 16) =
        (idx ! (row * (blocks * 128) + (b * 128 + y * 2)) AND 15) OR
        push_bit 4 (idx ! (row * (blocks * 128) + (b * 128 + y * 2 + 1)) AND 15)" if "b < blocks" for b y
      unfolding t0 [OF that] using row by (simp_all add: pack_tile_scalar_def Let_def add.assoc)
    have "slot_f32 (?out col) row = lut_row_accumulate ops (\<lambda>v. v) blocks 128 ?P ?lc ?sc row (f_zero ops, f_zero ops)"
      using col row by (simp add: qgemm_columns_col qgemm_one_slots)
    also have "\<dots> = ifairy_reference ops ?bs ?xs blocks"
      by (rule lut_slot_reference [where ix = "\<lambda>g. idx ! (row * (blocks * 128) + g)", OF tl(2) idx [OF row] tl(1) _ lut sc])
        (use safe [OF col] k in simp_all)
    finally show ?thesis .
  qed
  have "ifairy_reference (exact_ops half of_bf to_bf) bs xs blocks = (let z = ifairy_product half bs xs k in (Re z, Im z))" for bs xs
    unfolding k by (rule ifairy_reference_exact)
  then show ?thesis using slot unfolding run res blocks_def [symmetric] by (cases ok') simp_all
qed

lemma lut_mul_mat_scalar_correct_witness:
  "\<exists>out buf'. ggml_ifairy_lut_mul_mat_scalar (exact_ops (\<lambda>h. real_of_int (sint h)) (\<lambda>_. 0) (\<lambda>_. 0)) (\<lambda>_. True)
      \<lparr>sc_index = (\<lambda>_. 0), sc_tiles = (\<lambda>_. \<lparr>t_qs = (\<lambda>_ _. 0), t_d_real = (\<lambda>_. 0), t_d_imag = (\<lambda>_. 0)\<rparr>),
       sc_lut = (\<lambda>_. 0), sc_scales = (\<lambda>_. 0)\<rparr>
      \<lparr>tl_ptr = True, tl_cap = 0\<rparr> 2 256 1
      (Some (replicate 2 \<lparr>qs = replicate 64 0x1B, d_real = 2, d_imag = 3\<rparr>))
      (Some (\<lambda>_. [\<lparr>x_real = replicate 256 3, x_imag = replicate 256 0xFD, xd_real = 1, xd_imag = 2\<rparr>]))
      (Some (\<lambda>_. \<lparr>slot_f32 = (\<lambda>_. (0, 0)), slot_bf16 = (\<lambda>_. (0, 0))\<rparr>)) = Some (Some out, buf') \<and>
    (\<forall>col<1. \<forall>row<2. slot_f32 (out col) row =
      (let z = ifairy_product (\<lambda>h. real_of_int (sint h))
                 (drop (row * (256 div 256)) (replicate 2 \<lparr>qs = replicate 64 0x1B, d_real = 2, d_imag = 3\<rparr>))
                 [\<lparr>x_real = replicate 256 3, x_imag = replicate 256 0xFD, xd_real = 1, xd_imag = 2\<rparr>] 256
       in (Re z, Im z)))"
proof -
  let ?w = "replicate 2 \<lparr>qs = replicate 64 0x1B, d_real = 2, d_imag = 3\<rparr>"
  let ?act = "\<lambda>_ :: nat. [\<lparr>x_real = replicate 256 3, x_imag = replicate 256 0xFD, xd_real = 1, xd_imag = 2\<rparr>]"
  let ?ops = "exact_ops (\<lambda>h. real_of_int (sint h)) (\<lambda>_. 0) (\<lambda>_. 0)"
  let ?scratch = "\<lparr>sc_index = (\<lambda>_. 0), sc_tiles = (\<lambda>_. \<lparr>t_qs = (\<lambda>_ _. 0), t_d_real = (\<lambda>_. 0), t_d_imag = (\<lambda>_. 0)\<rparr>),
       sc_lut = (\<lambda>_. 0), sc_scales = (\<lambda>_. 0)\<rparr> :: real lut_scratch"
  let ?dst = "\<lambda>_ :: nat. \<lparr>slot_f32 = (\<lambda>_. (0, 0)), slot_bf16 = (\<lambda>_. (0, 0))\<rparr> :: real out_col"
  have safe: "lut_safe_column 256 (?act col)" for col
    by (simp add: lut_safe_column_def lut_safe_def act_re_def act_im_def ggml_ifairy_u8_to_s8_int_def)
  have ok: "fst (ggml_ifairy_tl_reserve (\<lambda>_. True) \<lparr>tl_ptr = True, tl_cap = 0\<rparr> (lut_scratch_bytes 2 256 1))"
    by (simp add: ggml_ifairy_tl_reserve_def Let_def)
  have dims: "0 < (2 :: nat)" "0 < (256 :: nat)" "0 < (1 :: nat)" "256 dvd (256 :: nat)" by simp_all
  have room: "lut_scratch_bytes 2 256 1 < 2 ^ 64" and w: "length ?w = 2 * (256 div 256)"
    by (simp_all add: lut_scratch_bytes_def GGML_PAD_def)
  note main = lut_mul_mat_scalar_correct [OF dims room w safe, where malloc_ok = "\<lambda>_. True" and buf = "\<lparr>tl_ptr = True, tl_cap = 0\<rparr>"
      and ops = ?ops and scratch = ?scratch and dst = ?dst and half = "\<lambda>h. real_of_int (sint h)" and of_bf = "\<lambda>_. 0" and to_bf = "\<lambda>_. 0"]
  show ?thesis using main [unfolded if_P [OF ok]] by (metis (no_types, lifting))
qed

lemma lut_preprocess_sharding_witness:
  "fold (\<lambda>ith. ggml_ifairy_lut_preprocess_lut16 (exact_ops (\<lambda>_. 1) (\<lambda>_. 1) (\<lambda>_. 0)) 1 (int 512) (int 3)
       (Some (\<lambda>_. replicate 2 \<lparr>x_real = replicate 256 3, x_imag = replicate 256 0xFD, xd_real = 1, xd_imag = 2\<rparr>))
       (int ith) (int 2)) [1, 0] (Some (\<lambda>_. 0), Some (\<lambda>_. 0)) =
   ggml_ifairy_lut_preprocess_lut16 (exact_ops (\<lambda>_. 1) (\<lambda>_. 1) (\<lambda>_. 0)) 1 (int 512) (int 3)
       (Some (\<lambda>_. replicate 2 \<lparr>x_real = replicate 256 3, x_imag = replicate 256 0xFD, xd_real = 1, xd_imag = 2\<rparr>))
       0 1 (Some (\<lambda>_. 0), Some (\<lambda>_. 0))"
  by (rule lut_preprocess_sharding [of 2 "[1, 0]"]) auto

end
