(* ===== verification/Ggml_Tensor.thy ===== *)
theory Ggml_Tensor
  imports Prelude
begin

text \<open>
  The tensor descriptor that the compute code reads (\<open>ggml/include/ggml.h\<close>, \<open>ggml/src/ggml.c\<close>):
  element types with their block and byte sizes, operators, shape and stride queries. The
  four extents are integers (\<open>int64_t\<close>), the strides are byte counts; the payload of a tensor
  is a type parameter, so that each component states what it reads through \<open>data\<close>. The
  sources of an operator node are held by the node record, one level deep, which is what the
  code of this library follows.
\<close>

section \<open>Element types and operators\<close>

datatype (plugins only: size code) ggml_type =
    GGML_TYPE_F32 | GGML_TYPE_F16 | GGML_TYPE_Q4_0 | GGML_TYPE_Q4_1 | GGML_TYPE_Q5_0 | GGML_TYPE_Q5_1
  | GGML_TYPE_Q8_0 | GGML_TYPE_Q8_1 | GGML_TYPE_Q2_K | GGML_TYPE_Q3_K | GGML_TYPE_Q4_K | GGML_TYPE_Q5_K
  | GGML_TYPE_Q6_K | GGML_TYPE_Q8_K | GGML_TYPE_IQ2_XXS | GGML_TYPE_IQ2_XS | GGML_TYPE_IQ3_XXS
  | GGML_TYPE_IQ1_S | GGML_TYPE_IQ4_NL | GGML_TYPE_IQ3_S | GGML_TYPE_IQ2_S | GGML_TYPE_IQ4_XS | GGML_TYPE_I8
  | GGML_TYPE_I16 | GGML_TYPE_I32 | GGML_TYPE_I64 | GGML_TYPE_F64 | GGML_TYPE_IQ1_M | GGML_TYPE_BF16
  | GGML_TYPE_TQ1_0 | GGML_TYPE_TQ2_0 | GGML_TYPE_MXFP4 | GGML_TYPE_IFAIRY | GGML_TYPE_IFAIRY_Q16
  | GGML_TYPE_IFAIRY64 | GGML_TYPE_IFAIRY64_Q16 | GGML_TYPE_ROW4_CODES | GGML_TYPE_ROW4_CODES_PAIR2
  | GGML_TYPE_TURBO2_0 | GGML_TYPE_TURBO3_0 | GGML_TYPE_TURBO4_0 | GGML_TYPE_TURBO2M4_S4
  | GGML_TYPE_TURBO2M4_S8 | GGML_TYPE_TURBO2M4_S16 | GGML_TYPE_TURBO2M4_G4 | GGML_TYPE_TURBO2M4_G8
  | GGML_TYPE_TURBO2M4_G16

text \<open>
  The operators the modelled code tests for, by name; any other enumerator of
  \<open>enum ggml_op\<close> is \<open>GGML_OP_OTHER\<close> with its number.
\<close>

datatype ggml_op =
    GGML_OP_NONE | GGML_OP_MUL_MAT | GGML_OP_IFAIRY_WIDE_LINEAR_W2 | GGML_OP_ROW4_LINEAR | GGML_OP_W8A8_LINEAR
  | GGML_OP_OTHER nat

text \<open>Columns \<open>blck_size\<close> and \<open>type_size\<close> of \<open>type_traits\<close>.\<close>

primrec ggml_blck_size :: "ggml_type \<Rightarrow> int" where
  "ggml_blck_size GGML_TYPE_F32 = 1"
| "ggml_blck_size GGML_TYPE_F16 = 1"
| "ggml_blck_size GGML_TYPE_Q4_0 = 32"
| "ggml_blck_size GGML_TYPE_Q4_1 = 32"
| "ggml_blck_size GGML_TYPE_Q5_0 = 32"
| "ggml_blck_size GGML_TYPE_Q5_1 = 32"
| "ggml_blck_size GGML_TYPE_Q8_0 = 32"
| "ggml_blck_size GGML_TYPE_Q8_1 = 32"
| "ggml_blck_size GGML_TYPE_Q2_K = 256"
| "ggml_blck_size GGML_TYPE_Q3_K = 256"
| "ggml_blck_size GGML_TYPE_Q4_K = 256"
| "ggml_blck_size GGML_TYPE_Q5_K = 256"
| "ggml_blck_size GGML_TYPE_Q6_K = 256"
| "ggml_blck_size GGML_TYPE_Q8_K = 256"
| "ggml_blck_size GGML_TYPE_IQ2_XXS = 256"
| "ggml_blck_size GGML_TYPE_IQ2_XS = 256"
| "ggml_blck_size GGML_TYPE_IQ3_XXS = 256"
| "ggml_blck_size GGML_TYPE_IQ1_S = 256"
| "ggml_blck_size GGML_TYPE_IQ4_NL = 32"
| "ggml_blck_size GGML_TYPE_IQ3_S = 256"
| "ggml_blck_size GGML_TYPE_IQ2_S = 256"
| "ggml_blck_size GGML_TYPE_IQ4_XS = 256"
| "ggml_blck_size GGML_TYPE_I8 = 1"
| "ggml_blck_size GGML_TYPE_I16 = 1"
| "ggml_blck_size GGML_TYPE_I32 = 1"
| "ggml_blck_size GGML_TYPE_I64 = 1"
| "ggml_blck_size GGML_TYPE_F64 = 1"
| "ggml_blck_size GGML_TYPE_IQ1_M = 256"
| "ggml_blck_size GGML_TYPE_BF16 = 1"
| "ggml_blck_size GGML_TYPE_TQ1_0 = 256"
| "ggml_blck_size GGML_TYPE_TQ2_0 = 256"
| "ggml_blck_size GGML_TYPE_MXFP4 = 32"
| "ggml_blck_size GGML_TYPE_IFAIRY = 256"
| "ggml_blck_size GGML_TYPE_IFAIRY_Q16 = 256"
| "ggml_blck_size GGML_TYPE_IFAIRY64 = 64"
| "ggml_blck_size GGML_TYPE_IFAIRY64_Q16 = 64"
| "ggml_blck_size GGML_TYPE_ROW4_CODES = 1"
| "ggml_blck_size GGML_TYPE_ROW4_CODES_PAIR2 = 1"
| "ggml_blck_size GGML_TYPE_TURBO2_0 = 128"
| "ggml_blck_size GGML_TYPE_TURBO3_0 = 128"
| "ggml_blck_size GGML_TYPE_TURBO4_0 = 128"
| "ggml_blck_size GGML_TYPE_TURBO2M4_S4 = 128"
| "ggml_blck_size GGML_TYPE_TURBO2M4_S8 = 128"
| "ggml_blck_size GGML_TYPE_TURBO2M4_S16 = 128"
| "ggml_blck_size GGML_TYPE_TURBO2M4_G4 = 128"
| "ggml_blck_size GGML_TYPE_TURBO2M4_G8 = 128"
| "ggml_blck_size GGML_TYPE_TURBO2M4_G16 = 128"

primrec ggml_type_size :: "ggml_type \<Rightarrow> nat" where
  "ggml_type_size GGML_TYPE_F32 = 4"
| "ggml_type_size GGML_TYPE_F16 = 2"
| "ggml_type_size GGML_TYPE_Q4_0 = 18"
| "ggml_type_size GGML_TYPE_Q4_1 = 20"
| "ggml_type_size GGML_TYPE_Q5_0 = 22"
| "ggml_type_size GGML_TYPE_Q5_1 = 24"
| "ggml_type_size GGML_TYPE_Q8_0 = 34"
| "ggml_type_size GGML_TYPE_Q8_1 = 36"
| "ggml_type_size GGML_TYPE_Q2_K = 84"
| "ggml_type_size GGML_TYPE_Q3_K = 110"
| "ggml_type_size GGML_TYPE_Q4_K = 144"
| "ggml_type_size GGML_TYPE_Q5_K = 176"
| "ggml_type_size GGML_TYPE_Q6_K = 210"
| "ggml_type_size GGML_TYPE_Q8_K = 292"
| "ggml_type_size GGML_TYPE_IQ2_XXS = 66"
| "ggml_type_size GGML_TYPE_IQ2_XS = 74"
| "ggml_type_size GGML_TYPE_IQ3_XXS = 98"
| "ggml_type_size GGML_TYPE_IQ1_S = 50"
| "ggml_type_size GGML_TYPE_IQ4_NL = 18"
| "ggml_type_size GGML_TYPE_IQ3_S = 110"
| "ggml_type_size GGML_TYPE_IQ2_S = 82"
| "ggml_type_size GGML_TYPE_IQ4_XS = 136"
| "ggml_type_size GGML_TYPE_I8 = 1"
| "ggml_type_size GGML_TYPE_I16 = 2"
| "ggml_type_size GGML_TYPE_I32 = 4"
| "ggml_type_size GGML_TYPE_I64 = 8"
| "ggml_type_size GGML_TYPE_F64 = 8"
| "ggml_type_size GGML_TYPE_IQ1_M = 56"
| "ggml_type_size GGML_TYPE_BF16 = 2"
| "ggml_type_size GGML_TYPE_TQ1_0 = 54"
| "ggml_type_size GGML_TYPE_TQ2_0 = 66"
| "ggml_type_size GGML_TYPE_MXFP4 = 17"
| "ggml_type_size GGML_TYPE_IFAIRY = 68"
| "ggml_type_size GGML_TYPE_IFAIRY_Q16 = 516"
| "ggml_type_size GGML_TYPE_IFAIRY64 = 20"
| "ggml_type_size GGML_TYPE_IFAIRY64_Q16 = 132"
| "ggml_type_size GGML_TYPE_ROW4_CODES = 1"
| "ggml_type_size GGML_TYPE_ROW4_CODES_PAIR2 = 1"
| "ggml_type_size GGML_TYPE_TURBO2_0 = 34"
| "ggml_type_size GGML_TYPE_TURBO3_0 = 50"
| "ggml_type_size GGML_TYPE_TURBO4_0 = 66"
| "ggml_type_size GGML_TYPE_TURBO2M4_S4 = 40"
| "ggml_type_size GGML_TYPE_TURBO2M4_S8 = 46"
| "ggml_type_size GGML_TYPE_TURBO2M4_S16 = 58"
| "ggml_type_size GGML_TYPE_TURBO2M4_G4 = 37"
| "ggml_type_size GGML_TYPE_TURBO2M4_G8 = 40"
| "ggml_type_size GGML_TYPE_TURBO2M4_G16 = 46"

section \<open>Descriptors\<close>

record 'd ggml_tensor =
  ttype :: ggml_type
  top :: ggml_op
  ne :: "nat \<Rightarrow> int"
  nb :: "nat \<Rightarrow> nat"
  tdata :: 'd

record 'd ggml_node = "'d ggml_tensor" +
  src :: "nat \<Rightarrow> 'd ggml_tensor option"

definition ggml_nelements :: "('d, 'x) ggml_tensor_scheme \<Rightarrow> int" where
  "ggml_nelements t = ne t 0 * ne t 1 * ne t 2 * ne t 3"

definition ggml_nrows :: "('d, 'x) ggml_tensor_scheme \<Rightarrow> int" where
  "ggml_nrows t = ne t 1 * ne t 2 * ne t 3"

definition ggml_is_matrix :: "('d, 'x) ggml_tensor_scheme \<Rightarrow> bool" where
  "ggml_is_matrix t \<longleftrightarrow> ne t 2 = 1 \<and> ne t 3 = 1"

text \<open>\<open>assert\<close> of a release build is not executed: the size is the truncated quotient.\<close>

definition ggml_row_size :: "ggml_type \<Rightarrow> nat \<Rightarrow> nat" where
  "ggml_row_size type n = ggml_type_size type * n div nat (ggml_blck_size type)"

definition ggml_nbytes :: "('d, 'x) ggml_tensor_scheme \<Rightarrow> nat" where
  "ggml_nbytes t =
     (if \<exists>i\<in>set [0..<4]. ne t i \<le> 0 then 0
      else if ggml_blck_size (ttype t) = 1
      then fold (\<lambda>i nbytes. nbytes + nat (ne t i - 1) * nb t i) [0..<4] (ggml_type_size (ttype t))
      else fold (\<lambda>i nbytes. nbytes + nat (ne t i - 1) * nb t i) [1..<4]
             (nat (ne t 0) * nb t 0 div nat (ggml_blck_size (ttype t))))"

text \<open>The loop of \<open>ggml_is_contiguous_n\<close>, with the running stride \<open>next_nb\<close>; \<open>None\<close> is \<open>return false\<close>.\<close>

definition contiguous_step :: "('d, 'x) ggml_tensor_scheme \<Rightarrow> nat \<Rightarrow> nat \<Rightarrow> nat option \<Rightarrow> nat option" where
  "contiguous_step t n i acc =
     (case acc of None \<Rightarrow> None
      | Some next_nb \<Rightarrow>
          if ne t i \<noteq> 1
          then (if i > n then (if nb t i \<noteq> next_nb then None else Some (next_nb * nat (ne t i)))
                else Some (nat (ne t i) * nb t i))
          else Some next_nb)"

definition ggml_is_contiguous_n :: "('d, 'x) ggml_tensor_scheme \<Rightarrow> nat \<Rightarrow> bool" where
  "ggml_is_contiguous_n t n =
     (let next_nb = ggml_type_size (ttype t) in
      if ne t 0 \<noteq> ggml_blck_size (ttype t) \<and> nb t 0 \<noteq> next_nb then False
      else fold (contiguous_step t n) [1..<4] (Some (next_nb * nat (ne t 0 div ggml_blck_size (ttype t)))) \<noteq> None)"

definition ggml_is_contiguous :: "('d, 'x) ggml_tensor_scheme \<Rightarrow> bool" where
  "ggml_is_contiguous t = ggml_is_contiguous_n t 0"

text \<open>In a contiguous tensor every extent other than one has the stride of the dimensions below it.\<close>

lemma contiguous_strides:
  assumes "ggml_is_contiguous t"
  defines "row \<equiv> ggml_type_size (ttype t) * nat (ne t 0 div ggml_blck_size (ttype t))"
  shows "ne t 0 = ggml_blck_size (ttype t) \<or> nb t 0 = ggml_type_size (ttype t)"
    and "ne t 1 = 1 \<or> nb t 1 = row"
    and "ne t 2 = 1 \<or> nb t 2 = row * nat (ne t 1)"
    and "ne t 3 = 1 \<or> nb t 3 = row * nat (ne t 1) * nat (ne t 2)"
  using assms(1)
  by (auto simp: ggml_is_contiguous_def ggml_is_contiguous_n_def contiguous_step_def row_def upt_rec Let_def
      numeral_2_eq_2 numeral_3_eq_3 split: if_splits option.splits)

lemma blck_size_pos: "0 < ggml_blck_size t"
  by (cases t) simp_all

lemma type_size_pos: "0 < ggml_type_size t"
  by (cases t) simp_all

text \<open>
  A fresh tensor of \<open>ggml_new_tensor\<close>: strides follow from the extents, no gaps. (The extents of the
  examples below are built with it.)
\<close>

definition dense_tensor :: "ggml_type \<Rightarrow> int \<Rightarrow> int \<Rightarrow> int \<Rightarrow> int \<Rightarrow> 'd \<Rightarrow> 'd ggml_tensor" where
  "dense_tensor type n0 n1 n2 n3 d =
     (let row = ggml_type_size type * nat (n0 div ggml_blck_size type) in
      \<lparr>ttype = type, top = GGML_OP_NONE,
       ne = (\<lambda>i. if i = 0 then n0 else if i = 1 then n1 else if i = 2 then n2 else n3),
       nb = (\<lambda>i. if i = 0 then ggml_type_size type else if i = 1 then row else if i = 2 then row * nat n1
              else row * nat n1 * nat n2),
       tdata = d\<rparr>)"

lemma dense_tensor_contiguous: "ggml_is_contiguous (dense_tensor type n0 n1 n2 n3 d)"
  by (simp add: ggml_is_contiguous_def ggml_is_contiguous_n_def dense_tensor_def Let_def contiguous_step_def
      upt_rec numeral_2_eq_2 numeral_3_eq_3)

lemma dense_tensor_fields [simp]:
  "ttype (dense_tensor type n0 n1 n2 n3 d) = type" "top (dense_tensor type n0 n1 n2 n3 d) = GGML_OP_NONE"
  "ne (dense_tensor type n0 n1 n2 n3 d) 0 = n0" "ne (dense_tensor type n0 n1 n2 n3 d) 1 = n1"
  "ne (dense_tensor type n0 n1 n2 n3 d) (Suc 0) = n1"
  "ne (dense_tensor type n0 n1 n2 n3 d) 2 = n2" "ne (dense_tensor type n0 n1 n2 n3 d) 3 = n3"
  "nb (dense_tensor type n0 n1 n2 n3 d) 0 = ggml_type_size type"
  "nb (dense_tensor type n0 n1 n2 n3 d) 1 = ggml_type_size type * nat (n0 div ggml_blck_size type)"
  "nb (dense_tensor type n0 n1 n2 n3 d) (Suc 0) = ggml_type_size type * nat (n0 div ggml_blck_size type)"
  "tdata (dense_tensor type n0 n1 n2 n3 d) = d"
  by (simp_all add: dense_tensor_def Let_def)

text \<open>The environment variables a component reads: a function from names to values (\<open>getenv\<close>).\<close>

type_synonym environment = "string \<Rightarrow> string option"

end
