(* ===== verification/IFairy_Transform.thy ===== *)
theory IFairy_Transform
  imports IFairy_Equiv Ggml_Tensor
begin

text \<open>
  The weight packer of the table path, \<open>legacy-ifairy/lut/ggml-ifairy-lut-transform.cpp\<close>: the
  packed tiles of one weight tensor, and the process-wide cache of packed buffers that
  \<open>ggml_ifairy_lut_transform_tensor\<close> and \<open>ggml_ifairy_lut_free\<close> keep under a mutex. The critical
  sections are functions on the state; their interleavings by several threads are the step
  relation \<open>lut_step\<close>.
\<close>

section \<open>Packed tiles\<close>

text \<open>
  The loop over rows and blocks writes lane \<open>row mod 16\<close> of tile \<open>row div 16\<close>; the buffer was
  cleared before. \<open>scales\<close> is the pair of block scales as the tile stores it (a float for
  256-value blocks, the half itself for 64-value blocks).
\<close>

definition zero_tile :: "'s \<Rightarrow> 's wtile_16" where
  "zero_tile z = \<lparr>t_qs = (\<lambda>_ _. 0), t_d_real = (\<lambda>_. z), t_d_imag = (\<lambda>_. z)\<rparr>"

definition pack_lane ::
    "('b \<Rightarrow> 's \<times> 's) \<Rightarrow> 'b list \<Rightarrow> u8 list \<Rightarrow> nat \<Rightarrow> nat \<Rightarrow> nat \<Rightarrow> nat \<times> nat \<Rightarrow> (nat \<Rightarrow> 's wtile_16) \<Rightarrow> nat \<Rightarrow> 's wtile_16" where
  "pack_lane scales w_blocks indexes blocks_per_row row_groups groups_per_block = (\<lambda>(row, blk) packed_w.
     let tile = row div 16; lane = row mod 16; ti = tile * blocks_per_row + blk; t = packed_w ti;
         wb = w_blocks ! (row * blocks_per_row + blk);
         blk_idx = row * row_groups + blk * groups_per_block
     in packed_w(ti := t\<lparr>
          t_d_real := (t_d_real t)(lane := fst (scales wb)),
          t_d_imag := (t_d_imag t)(lane := snd (scales wb)),
          t_qs := fold (\<lambda>gi q.
              let lo = indexes ! (blk_idx + gi + 0) AND 0x0f; hi = indexes ! (blk_idx + gi + 1) AND 0x0f
              in q(gi div 2 := (q (gi div 2))(lane := lo OR push_bit 4 hi)))
            (strided 0 2 groups_per_block) (t_qs t)\<rparr>))"

definition pack_lanes ::
    "('b \<Rightarrow> 's \<times> 's) \<Rightarrow> 's \<Rightarrow> 'b list \<Rightarrow> u8 list \<Rightarrow> nat \<Rightarrow> nat \<Rightarrow> nat \<Rightarrow> nat \<Rightarrow> nat \<Rightarrow> 's wtile_16" where
  "pack_lanes scales z w_blocks indexes rows blocks_per_row row_groups groups_per_block =
     fold (pack_lane scales w_blocks indexes blocks_per_row row_groups groups_per_block)
       (concat (map (\<lambda>row. map (Pair row) [0..<blocks_per_row]) [0..<rows])) (\<lambda>_. zero_tile z)"

lemma fold_obs:
  assumes "\<And>p. obs (upd x p) = v" and "\<And>y p. y \<in> set xs \<Longrightarrow> y \<noteq> x \<Longrightarrow> obs (upd y p) = obs p" and "x \<in> set xs"
  shows "obs (fold upd xs p) = v"
proof -
  have "obs (fold upd ys p) = (if x \<in> set ys then v else obs p)" if "set ys \<subseteq> set xs" for ys p
    using that by (induction ys arbitrary: p) (auto simp: assms(1,2))
  with assms(3) show ?thesis by simp
qed

lemma pack_lane_other:
  fixes scales :: "'b \<Rightarrow> 's \<times> 's" and row row' blk blk' bpr gpr gpb y :: nat and p :: "nat \<Rightarrow> 's wtile_16"
    and ws :: "'b list" and idx :: "u8 list"
  assumes "blk < bpr" "blk' < bpr" "(row', blk') \<noteq> (row, blk)"
  defines "p' \<equiv> pack_lane scales ws idx bpr gpr gpb (row', blk') p"
  shows "t_d_real (p' (row div 16 * bpr + blk)) (row mod 16) = t_d_real (p (row div 16 * bpr + blk)) (row mod 16)"
    and "t_d_imag (p' (row div 16 * bpr + blk)) (row mod 16) = t_d_imag (p (row div 16 * bpr + blk)) (row mod 16)"
    and "t_qs (p' (row div 16 * bpr + blk)) y (row mod 16) = t_qs (p (row div 16 * bpr + blk)) y (row mod 16)"
proof -
  have key: "row' div 16 = row div 16 \<and> blk' = blk" if "row' div 16 * bpr + blk' = row div 16 * bpr + blk"
    using that assms(1,2) by (metis div_mod_block)
  have lane: "row' mod 16 \<noteq> row mod 16" if "row' div 16 * bpr + blk' = row div 16 * bpr + blk"
    using key [OF that] assms(3) by (metis div_mult_mod_eq)
  have q: "fold (\<lambda>gi q. q(gi div 2 := (q (gi div 2))(row' mod 16 := f gi))) gs q0 y (row mod 16) = q0 y (row mod 16)"
    if "row' mod 16 \<noteq> row mod 16" for f gs and q0 :: "nat \<Rightarrow> nat \<Rightarrow> u8"
    using that by (induction gs arbitrary: q0) auto
  show "t_d_real (p' (row div 16 * bpr + blk)) (row mod 16) = t_d_real (p (row div 16 * bpr + blk)) (row mod 16)"
    "t_d_imag (p' (row div 16 * bpr + blk)) (row mod 16) = t_d_imag (p (row div 16 * bpr + blk)) (row mod 16)"
    "t_qs (p' (row div 16 * bpr + blk)) y (row mod 16) = t_qs (p (row div 16 * bpr + blk)) y (row mod 16)"
    using lane q by (auto simp: p'_def pack_lane_def Let_def)
qed

lemma fold_even_groups:
  fixes y gpb :: nat and q0 :: "nat \<Rightarrow> 'l \<Rightarrow> 'v"
  assumes "y < gpb div 2"
  shows "fold (\<lambda>gi q. q(gi div 2 := (q (gi div 2))(lane := f gi))) (strided 0 2 gpb) q0 y lane = f (2 * y)"
proof (rule fold_obs [where obs = "\<lambda>q. q y lane" and x = "2 * y"])
  show "2 * y \<in> set (strided 0 2 gpb)" using assms by (auto simp: set_strided)
  fix gi and p :: "nat \<Rightarrow> 'l \<Rightarrow> 'v" assume "gi \<in> set (strided 0 2 gpb)" "gi \<noteq> 2 * y"
  then have "gi div 2 \<noteq> y" by (auto simp: set_strided)
  then show "(p(gi div 2 := (p (gi div 2))(lane := f gi))) y lane = p y lane" by simp
qed simp

text \<open>What lane \<open>row mod 16\<close> of the tile of \<open>(row, blk)\<close> holds at the end.\<close>

lemma pack_lanes_cell:
  fixes scales :: "'b \<Rightarrow> 's \<times> 's" and row rows blk bpr gpr gpb y :: nat and z :: 's and ws :: "'b list"
    and idx :: "u8 list"
  assumes "row < rows" "blk < bpr"
  defines "t \<equiv> pack_lanes scales z ws idx rows bpr gpr gpb (row div 16 * bpr + blk)"
  shows "t_d_real t (row mod 16) = fst (scales (ws ! (row * bpr + blk)))"
    and "t_d_imag t (row mod 16) = snd (scales (ws ! (row * bpr + blk)))"
    and "y < gpb div 2 \<Longrightarrow> t_qs t y (row mod 16) =
      (idx ! (row * gpr + (blk * gpb + y * 2)) AND 0x0f) OR push_bit 4 (idx ! (row * gpr + (blk * gpb + y * 2 + 1)) AND 0x0f)"
proof -
  let ?xs = "concat (map (\<lambda>row. map (Pair row) [0..<bpr]) [0..<rows])"
  have mem: "(row, blk) \<in> set ?xs" using assms(1,2) by (auto intro!: bexI [of _ row])
  note other = pack_lane_other [OF assms(2)]
  show "t_d_real t (row mod 16) = fst (scales (ws ! (row * bpr + blk)))"
    unfolding t_def pack_lanes_def
  proof (rule fold_obs [where obs = "\<lambda>p. t_d_real (p (row div 16 * bpr + blk)) (row mod 16)", OF _ _ mem])
    fix x and p :: "nat \<Rightarrow> 's wtile_16" assume "x \<in> set ?xs" "x \<noteq> (row, blk)"
    moreover obtain row' blk' where "x = (row', blk')" by (cases x)
    ultimately have "x = (row', blk')" "blk' < bpr" "(row', blk') \<noteq> (row, blk)" by auto
    then show "t_d_real (pack_lane scales ws idx bpr gpr gpb x p (row div 16 * bpr + blk)) (row mod 16) =
        t_d_real (p (row div 16 * bpr + blk)) (row mod 16)" by (simp only: other(1) simp_thms)
  qed (simp add: pack_lane_def Let_def)
  show "t_d_imag t (row mod 16) = snd (scales (ws ! (row * bpr + blk)))"
    unfolding t_def pack_lanes_def
  proof (rule fold_obs [where obs = "\<lambda>p. t_d_imag (p (row div 16 * bpr + blk)) (row mod 16)", OF _ _ mem])
    fix x and p :: "nat \<Rightarrow> 's wtile_16" assume "x \<in> set ?xs" "x \<noteq> (row, blk)"
    moreover obtain row' blk' where "x = (row', blk')" by (cases x)
    ultimately have "x = (row', blk')" "blk' < bpr" "(row', blk') \<noteq> (row, blk)" by auto
    then show "t_d_imag (pack_lane scales ws idx bpr gpr gpb x p (row div 16 * bpr + blk)) (row mod 16) =
        t_d_imag (p (row div 16 * bpr + blk)) (row mod 16)" by (simp only: other(2) simp_thms)
  qed (simp add: pack_lane_def Let_def)
  assume y: "y < gpb div 2"
  show "t_qs t y (row mod 16) =
      (idx ! (row * gpr + (blk * gpb + y * 2)) AND 0x0f) OR push_bit 4 (idx ! (row * gpr + (blk * gpb + y * 2 + 1)) AND 0x0f)"
    unfolding t_def pack_lanes_def
  proof (rule fold_obs [where obs = "\<lambda>p. t_qs (p (row div 16 * bpr + blk)) y (row mod 16)", OF _ _ mem])
    fix x and p :: "nat \<Rightarrow> 's wtile_16" assume "x \<in> set ?xs" "x \<noteq> (row, blk)"
    moreover obtain row' blk' where "x = (row', blk')" by (cases x)
    ultimately have "x = (row', blk')" "blk' < bpr" "(row', blk') \<noteq> (row, blk)" by auto
    then show "t_qs (pack_lane scales ws idx bpr gpr gpb x p (row div 16 * bpr + blk)) y (row mod 16) =
        t_qs (p (row div 16 * bpr + blk)) y (row mod 16)" by (simp only: other(3) simp_thms)
  qed (simp add: pack_lane_def Let_def fold_even_groups [OF y] ac_simps)
qed

section \<open>The plan of one tensor\<close>

text \<open>
  Everything \<open>ggml_ifairy_lut_transform_tensor_impl\<close> computes from the tensor alone, before it
  takes the mutex: its cache key and the sizes of the buffer
  \<open>[indexes, padded to the tile alignment] [packed tiles]\<close>. The tensor's payload is the address of
  its data. \<open>Aborts\<close> is a failed assertion of the encoder's helpers, \<open>Rejects\<close> is \<open>return false\<close>.
\<close>

record lut_key =
  key_data :: nat
  key_nbytes :: nat
  key_k :: int
  key_rows :: int
  key_type :: ggml_type

record lut_plan =
  plan_key :: lut_key
  plan_keep :: bool
  plan_index_bytes :: nat
  plan_aligned :: nat
  plan_packed :: nat

datatype plan_result = Aborts | Rejects | Plan lut_plan

definition plan_total :: "lut_plan \<Rightarrow> nat" where
  "plan_total p = plan_aligned p + plan_packed p"

definition transform_plan_impl ::
    "nat \<Rightarrow> nat \<Rightarrow> bool \<Rightarrow> (nat \<Rightarrow> ggml_ifairy_2w_index_info option) \<Rightarrow> (nat, 'x) ggml_tensor_scheme \<Rightarrow> plan_result" where
  "transform_plan_impl block_k tile_bytes keep_indexes get_index_info t =
     (let k = ne t 0; rows = ne t 1 in
      if k mod int block_k \<noteq> 0 \<or> rows \<le> 0 then Rejects
      else case (if k > 0 then get_index_info (nat k) else None) of None \<Rightarrow> Aborts
      | Some info \<Rightarrow>
         (case ggml_ifairy_2w_index_buffer_size info (nat rows) of None \<Rightarrow> Aborts
          | Some index_bytes \<Rightarrow>
             if index_bytes = 0 then Rejects
             else Plan \<lparr>plan_key = \<lparr>key_data = tdata t, key_nbytes = ggml_nbytes t, key_k = k, key_rows = rows,
                                   key_type = ttype t\<rparr>,
                        plan_keep = keep_indexes, plan_index_bytes = index_bytes,
                        plan_aligned = (if keep_indexes then GGML_PAD index_bytes 64 else 0),
                        plan_packed = (nat rows + 15) div 16 * (nat k div block_k) * tile_bytes\<rparr>))"

definition transform_plan :: "(nat, 'x) ggml_tensor_scheme \<Rightarrow> plan_result" where
  "transform_plan t =
     (case ttype t of
        GGML_TYPE_IFAIRY \<Rightarrow> transform_plan_impl 256 1152 True ggml_ifairy_2w_get_index_info t
      | GGML_TYPE_IFAIRY64 \<Rightarrow> transform_plan_impl 64 320 False ggml_ifairy64_2w_get_index_info t
      | _ \<Rightarrow> Rejects)"

text \<open>
  The content of a packed buffer: what the encoder and the packing loop leave in it, a function
  of the weights at the key's address. \<open>None\<close>: the encoder aborts or reports failure.
\<close>

datatype weight_data = Weights256 "block_ifairy list" | Weights64 "block_ifairy64 list"

datatype 'f lut_content = Content256 "u8 list" "nat \<Rightarrow> 'f wtile_16" | Content64 "nat \<Rightarrow> u16 wtile_16"

definition transform_content :: "'f float_ops \<Rightarrow> (nat \<Rightarrow> weight_data) \<Rightarrow> lut_key \<Rightarrow> 'f lut_content option" where
  "transform_content ops W key =
     (let k = nat (key_k key); rows = nat (key_rows key) in
      case W (key_data key) of
        Weights256 ws \<Rightarrow>
          (case ggml_ifairy_2w_encode ws k rows (replicate (k div 256 * 128 * rows) 0) of
             Some (True, idx) \<Rightarrow> Some (Content256 idx
               (pack_lanes (\<lambda>b. (f_of_half ops (d_real b), f_of_half ops (d_imag b))) (f_zero ops) ws idx rows
                  (k div 256) (k div 256 * 128) 128))
           | _ \<Rightarrow> None)
      | Weights64 ws \<Rightarrow>
          (case ggml_ifairy64_2w_encode ws k rows (replicate (k div 64 * 32 * rows) 0) of
             Some (True, idx) \<Rightarrow> Some (Content64
               (pack_lanes (\<lambda>b. (d_real64 b, d_imag64 b)) 0 ws idx rows (k div 64) (k div 64 * 32) 32))
           | _ \<Rightarrow> None))"

section \<open>The shared state\<close>

text \<open>
  Buffers are identified by numbers; \<open>g_mem\<close> holds the live ones. A buffer comes from the
  backend (and then may enter the cache) or, as a fallback, from \<open>ggml_aligned_malloc\<close>. Tensor
  extras are the entries of \<open>g_ifairy_lut_extras\<close>; \<open>g_tensor_extra\<close> is the tensors' \<open>extra\<close> pointer.
\<close>

record 'c lut_buffer =
  buf_backend :: bool
  buf_size :: nat
  buf_content :: 'c

record lut_entry =
  en_buffer :: nat
  en_size :: nat

record ifairy_lut_extra =
  ex_indexes :: "nat option"
  ex_size :: nat
  ex_packed :: "(nat \<times> nat) option"
  ex_packed_size :: nat
  ex_index_buffer :: "nat option"

record 'c lut_globals =
  g_cache :: "lut_key \<Rightarrow> lut_entry option"
  g_extras :: "ifairy_lut_extra list"
  g_tensor_extra :: "nat \<Rightarrow> nat option"
  g_mem :: "nat \<Rightarrow> 'c lut_buffer option"
  g_next :: nat

definition lut_init :: "'c lut_globals" where
  "lut_init = \<lparr>g_cache = (\<lambda>_. None), g_extras = [], g_tensor_extra = (\<lambda>_. None), g_mem = (\<lambda>_. None), g_next = 0\<rparr>"

definition has_packed :: "'c lut_globals \<Rightarrow> nat \<Rightarrow> bool" where
  "has_packed st tid =
     (case g_tensor_extra st tid of None \<Rightarrow> False | Some i \<Rightarrow> ex_packed (g_extras st ! i) \<noteq> None)"

text \<open>Point the tensor's extra (created when absent) at buffer \<open>buf\<close>.\<close>

definition attach :: "nat \<Rightarrow> lut_plan \<Rightarrow> nat \<Rightarrow> nat option \<Rightarrow> 'c lut_globals \<Rightarrow> 'c lut_globals" where
  "attach tid p buf index_buffer st =
     (let ex = \<lparr>ex_indexes = (if plan_keep p then Some buf else None),
                ex_size = (if plan_keep p then plan_index_bytes p else 0),
                ex_packed = Some (buf, plan_aligned p), ex_packed_size = plan_packed p,
                ex_index_buffer = index_buffer\<rparr>
      in case g_tensor_extra st tid of
           Some i \<Rightarrow> st\<lparr>g_extras := (g_extras st)[i := ex]\<rparr>
         | None \<Rightarrow> st\<lparr>g_extras := g_extras st @ [ex],
                     g_tensor_extra := (g_tensor_extra st)(tid := Some (length (g_extras st)))\<rparr>)"

definition cache_hit :: "'c lut_globals \<Rightarrow> lut_plan \<Rightarrow> lut_entry option" where
  "cache_hit st p =
     (case g_cache st (plan_key p) of
        Some e \<Rightarrow> if en_size e = plan_total p then Some e else None
      | None \<Rightarrow> None)"

text \<open>First critical section: \<open>None\<close> when the buffer must be built.\<close>

definition transform_lookup :: "nat \<Rightarrow> lut_plan \<Rightarrow> 'c lut_globals \<Rightarrow> 'c lut_globals option" where
  "transform_lookup tid p st =
     (if has_packed st tid then Some st
      else case cache_hit st p of
             Some e \<Rightarrow> Some (attach tid p (en_buffer e) (Some (en_buffer e)) st)
           | None \<Rightarrow> None)"

definition transform_alloc :: "lut_plan \<Rightarrow> bool \<Rightarrow> 'c \<Rightarrow> 'c lut_globals \<Rightarrow> nat \<times> 'c lut_globals" where
  "transform_alloc p backend c st =
     (g_next st, st\<lparr>g_mem := (g_mem st)(g_next st := Some \<lparr>buf_backend = backend, buf_size = plan_total p, buf_content = c\<rparr>),
                   g_next := Suc (g_next st)\<rparr>)"

text \<open>Freeing a buffer that is not live is an error of the program, \<open>None\<close>.\<close>

definition free_buffer :: "nat \<Rightarrow> 'c lut_globals \<Rightarrow> 'c lut_globals option" where
  "free_buffer b st = (if g_mem st b = None then None else Some (st\<lparr>g_mem := (g_mem st)(b := None)\<rparr>))"

text \<open>Second critical section, with the buffer \<open>buf\<close> this thread has built.\<close>

definition transform_publish :: "nat \<Rightarrow> lut_plan \<Rightarrow> nat \<Rightarrow> bool \<Rightarrow> 'c lut_globals \<Rightarrow> 'c lut_globals option" where
  "transform_publish tid p buf backend st =
     (if has_packed st tid then free_buffer buf st
      else case cache_hit st p of
             Some e \<Rightarrow> map_option (attach tid p (en_buffer e) (Some (en_buffer e))) (free_buffer buf st)
           | None \<Rightarrow>
               let st = (if backend \<and> g_cache st (plan_key p) = None
                         then st\<lparr>g_cache := (g_cache st)(plan_key p := Some \<lparr>en_buffer = buf, en_size = plan_total p\<rparr>)\<rparr>
                         else st)
               in Some (attach tid p buf (if backend then Some buf else None) st))"

text \<open>
  One call without other threads. \<open>alloc\<close> and \<open>malloc\<close> say whether the two allocators succeed;
  the result is \<open>None\<close> for an abort or an invalid free, else the returned flag and the new state.
\<close>

definition ggml_ifairy_lut_transform_tensor ::
    "'f float_ops \<Rightarrow> (nat \<Rightarrow> weight_data) \<Rightarrow> bool \<Rightarrow> bool \<Rightarrow> nat \<Rightarrow> nat ggml_tensor option \<Rightarrow> 'f lut_content lut_globals \<Rightarrow>
     (bool \<times> 'f lut_content lut_globals) option" where
  "ggml_ifairy_lut_transform_tensor ops W alloc malloc tid tensor st =
     (case tensor of None \<Rightarrow> Some (False, st)
      | Some t \<Rightarrow>
          if ttype t \<noteq> GGML_TYPE_IFAIRY \<and> ttype t \<noteq> GGML_TYPE_IFAIRY64 then Some (False, st)
          else if has_packed st tid then Some (True, st)
          else case transform_plan t of
                 Aborts \<Rightarrow> None
               | Rejects \<Rightarrow> Some (False, st)
               | Plan p \<Rightarrow>
                   (case transform_lookup tid p st of
                      Some st' \<Rightarrow> Some (True, st')
                    | None \<Rightarrow>
                        if \<not> alloc \<and> \<not> malloc then Some (False, st)
                        else case transform_content ops W (plan_key p) of
                               None \<Rightarrow> Some (False, st)
                             | Some c \<Rightarrow>
                                 (let (buf, st) = transform_alloc p alloc c st
                                  in map_option (Pair True) (transform_publish tid p buf alloc st))))"

text \<open>\<open>ggml_ifairy_lut_free\<close>: the cached buffers, then the buffers owned by extras.\<close>

definition free_extra :: "nat \<Rightarrow> 'c lut_globals option \<Rightarrow> 'c lut_globals option" where
  "free_extra i so = Option.bind so (\<lambda>st.
     let e = g_extras st ! i;
         base = (case ex_indexes e of Some b \<Rightarrow> Some b | None \<Rightarrow> map_option fst (ex_packed e))
     in map_option (\<lambda>st. st\<lparr>g_extras := (g_extras st)[i :=
            \<lparr>ex_indexes = None, ex_size = 0, ex_packed = None, ex_packed_size = 0, ex_index_buffer = None\<rparr>]\<rparr>)
          (case base of Some b \<Rightarrow> if ex_index_buffer e = None then free_buffer b st else Some st
           | None \<Rightarrow> Some st))"

definition ggml_ifairy_lut_free :: "lut_key list \<Rightarrow> 'c lut_globals \<Rightarrow> 'c lut_globals option" where
  "ggml_ifairy_lut_free order st =
     (let so = fold (\<lambda>key so. Option.bind so (\<lambda>st.
             case g_cache st key of Some e \<Rightarrow> free_buffer (en_buffer e) st | None \<Rightarrow> Some st)) order (Some st);
          so = map_option (\<lambda>st. st\<lparr>g_cache := (\<lambda>_. None)\<rparr>) so
      in fold free_extra [0..<length (g_extras st)] so)"

section \<open>Threads\<close>

text \<open>
  A thread inside the function is past its first critical section (\<open>Missed\<close>) or holds a buffer it
  has built (\<open>Built\<close>). \<open>plans\<close> gives the plan of each tensor, \<open>content\<close> the content for a key.
\<close>

datatype lut_phase = Missed nat | Built nat nat bool

type_synonym 'c lut_system = "'c lut_globals \<times> (nat \<Rightarrow> lut_phase option)"

inductive lut_step ::
    "(nat \<Rightarrow> lut_plan option) \<Rightarrow> (lut_key \<Rightarrow> 'c option) \<Rightarrow> 'c lut_system \<Rightarrow> 'c lut_system \<Rightarrow> bool"
  for plans content where
  hit: "T th = None \<Longrightarrow> plans tid = Some p \<Longrightarrow> transform_lookup tid p g = Some g' \<Longrightarrow>
    lut_step plans content (g, T) (g', T)"
| miss: "T th = None \<Longrightarrow> plans tid = Some p \<Longrightarrow> transform_lookup tid p g = None \<Longrightarrow>
    lut_step plans content (g, T) (g, T(th := Some (Missed tid)))"
| build: "T th = Some (Missed tid) \<Longrightarrow> plans tid = Some p \<Longrightarrow> content (plan_key p) = Some c \<Longrightarrow>
    transform_alloc p backend c g = (b, g') \<Longrightarrow>
    lut_step plans content (g, T) (g', T(th := Some (Built tid b backend)))"
| fail: "T th = Some (Missed tid) \<Longrightarrow> lut_step plans content (g, T) (g, T(th := None))"
| publish: "T th = Some (Built tid b backend) \<Longrightarrow> plans tid = Some p \<Longrightarrow>
    transform_publish tid p b backend g = Some g' \<Longrightarrow> lut_step plans content (g, T) (g', T(th := None))"

inductive_cases lut_stepE: "lut_step plans content s s'"

inductive lut_reachable :: "(nat \<Rightarrow> lut_plan option) \<Rightarrow> (lut_key \<Rightarrow> 'c option) \<Rightarrow> 'c lut_system \<Rightarrow> bool"
  for plans content where
  start: "lut_reachable plans content (lut_init, \<lambda>_. None)"
| step: "lut_reachable plans content s \<Longrightarrow> lut_step plans content s s' \<Longrightarrow> lut_reachable plans content s'"

text \<open>Who has to free a buffer: the cache, an extra (fallback buffers), or a thread in flight.\<close>

datatype lut_owner = OCache lut_key | OExtra nat | OThread nat

definition owned :: "'c lut_system \<Rightarrow> lut_owner \<Rightarrow> nat option" where
  "owned s ow = (case ow of
     OCache k \<Rightarrow> map_option en_buffer (g_cache (fst s) k)
   | OExtra i \<Rightarrow> if i < length (g_extras (fst s)) \<and> ex_index_buffer (g_extras (fst s) ! i) = None
                 then map_option fst (ex_packed (g_extras (fst s) ! i)) else None
   | OThread th \<Rightarrow> (case snd s th of Some (Built tid b backend) \<Rightarrow> Some b | _ \<Rightarrow> None))"

text \<open>Ownership is a bijection between owners and live buffers.\<close>

definition own_inv :: "'c lut_system \<Rightarrow> bool" where
  "own_inv s \<longleftrightarrow> (\<forall>ow b. owned s ow = Some b \<longrightarrow> g_mem (fst s) b \<noteq> None) \<and>
     (\<forall>ow ow' b. owned s ow = Some b \<longrightarrow> owned s ow' = Some b \<longrightarrow> ow = ow') \<and>
     (\<forall>b. g_mem (fst s) b \<noteq> None \<longrightarrow> (\<exists>ow. owned s ow = Some b)) \<and>
     (\<forall>b. g_mem (fst s) b \<noteq> None \<longrightarrow> b < g_next (fst s))"

definition holds_content :: "(lut_key \<Rightarrow> 'c option) \<Rightarrow> 'c lut_globals \<Rightarrow> nat \<Rightarrow> lut_key \<Rightarrow> bool" where
  "holds_content content g b key \<longleftrightarrow> (\<exists>buf. g_mem g b = Some buf \<and> content key = Some (buf_content buf))"

text \<open>What an attached extra points at, and that extras belong to different tensors.\<close>

definition extra_ok :: "(lut_key \<Rightarrow> 'c option) \<Rightarrow> 'c lut_globals \<Rightarrow> lut_plan option \<Rightarrow> ifairy_lut_extra \<Rightarrow> bool" where
  "extra_ok content g po ex \<longleftrightarrow>
     (case ex_packed ex of None \<Rightarrow> ex_indexes ex = None
      | Some (b, off) \<Rightarrow> (ex_indexes ex = None \<or> ex_indexes ex = Some b) \<and>
          (\<exists>p. po = Some p \<and> off = plan_aligned p \<and> holds_content content g b (plan_key p) \<and>
             (ex_index_buffer ex = None \<or> map_option en_buffer (g_cache g (plan_key p)) = Some b)))"

definition data_inv :: "(nat \<Rightarrow> lut_plan option) \<Rightarrow> (lut_key \<Rightarrow> 'c option) \<Rightarrow> 'c lut_system \<Rightarrow> bool" where
  "data_inv plans content s \<longleftrightarrow>
     (\<forall>key e. g_cache (fst s) key = Some e \<longrightarrow> holds_content content (fst s) (en_buffer e) key \<and>
        (\<exists>tid p. plans tid = Some p \<and> plan_key p = key \<and> en_size e = plan_total p)) \<and>
     (\<forall>tid i. g_tensor_extra (fst s) tid = Some i \<longrightarrow> i < length (g_extras (fst s)) \<and>
        extra_ok content (fst s) (plans tid) (g_extras (fst s) ! i)) \<and>
     (\<forall>tid tid' i. g_tensor_extra (fst s) tid = Some i \<longrightarrow> g_tensor_extra (fst s) tid' = Some i \<longrightarrow> tid = tid') \<and>
     (\<forall>i<length (g_extras (fst s)). \<exists>tid. g_tensor_extra (fst s) tid = Some i) \<and>
     (\<forall>th tid. snd s th = Some (Missed tid) \<longrightarrow> plans tid \<noteq> None) \<and>
     (\<forall>th tid b backend. snd s th = Some (Built tid b backend) \<longrightarrow>
        (\<exists>p. plans tid = Some p \<and> holds_content content (fst s) b (plan_key p)))"

text \<open>Moving a buffer from one owner to another, dropping it, or creating it.\<close>

lemma own_move:
  assumes "own_inv s" "owned s o1 = Some b" "owned s o2 = None"
    and "\<And>ow. owned s' ow = (if ow = o1 then None else if ow = o2 then Some b else owned s ow)"
    and "g_mem (fst s') = g_mem (fst s)" "g_next (fst s') = g_next (fst s)"
  shows "own_inv s'"
proof -
  have ne: "o1 \<noteq> o2" using assms(2,3) by auto
  show ?thesis unfolding own_inv_def
  proof (intro conjI allI impI)
    fix ow b' assume "owned s' ow = Some b'"
    then show "g_mem (fst s') b' \<noteq> None"
      using assms by (auto simp: own_inv_def split: if_splits)
  next
    fix ow ow' b' assume "owned s' ow = Some b'" "owned s' ow' = Some b'"
    then show "ow = ow'" using assms by (auto simp: own_inv_def split: if_splits)
  next
    fix b' assume "g_mem (fst s') b' \<noteq> None"
    then obtain ow where ow: "owned s ow = Some b'" using assms(1,5) by (auto simp: own_inv_def)
    show "\<exists>ow. owned s' ow = Some b'"
    proof (cases "ow = o1")
      case True
      then show ?thesis using ow assms(2,4) ne by (intro exI [of _ o2]) auto
    next
      case False
      then show ?thesis using ow assms(3,4) by (intro exI [of _ ow]) auto
    qed
  next
    fix b' assume "g_mem (fst s') b' \<noteq> None"
    then show "b' < g_next (fst s')" using assms(1,5,6) by (auto simp: own_inv_def)
  qed
qed

lemma own_drop:
  assumes "own_inv s" "owned s o1 = Some b"
    and "\<And>ow. owned s' ow = (if ow = o1 then None else owned s ow)"
    and "g_mem (fst s') = (g_mem (fst s))(b := None)" "g_next (fst s') = g_next (fst s)"
  shows "own_inv s'"
proof -
  have others: "owned s ow = Some b' \<Longrightarrow> ow \<noteq> o1 \<Longrightarrow> b' \<noteq> b" for ow b'
    using assms(1,2) unfolding own_inv_def by metis
  show ?thesis unfolding own_inv_def
  proof (intro conjI allI impI)
    fix ow b' assume "owned s' ow = Some b'"
    then show "g_mem (fst s') b' \<noteq> None"
      using assms(1,3,4) others by (auto simp: own_inv_def split: if_splits)
  next
    fix ow ow' b' assume "owned s' ow = Some b'" "owned s' ow' = Some b'"
    then show "ow = ow'" using assms(1,3) by (auto simp: own_inv_def split: if_splits)
  next
    fix b' assume "g_mem (fst s') b' \<noteq> None"
    then have "g_mem (fst s) b' \<noteq> None" "b' \<noteq> b" using assms(4) by (auto split: if_splits)
    then obtain ow where "owned s ow = Some b'" "b' \<noteq> b" using assms(1) by (auto simp: own_inv_def)
    then show "\<exists>ow. owned s' ow = Some b'" using assms(2,3) by (intro exI [of _ ow]) auto
  next
    fix b' assume "g_mem (fst s') b' \<noteq> None"
    then show "b' < g_next (fst s')" using assms(1,4,5) by (auto simp: own_inv_def split: if_splits)
  qed
qed

lemma own_new:
  assumes "own_inv s" "owned s o1 = None"
    and "\<And>ow. owned s' ow = (if ow = o1 then Some (g_next (fst s)) else owned s ow)"
    and "g_mem (fst s') = (g_mem (fst s))(g_next (fst s) := Some buf)" "g_next (fst s') = Suc (g_next (fst s))"
  shows "own_inv s'"
proof -
  have fresh: "owned s ow \<noteq> Some (g_next (fst s))" for ow
    using assms(1) unfolding own_inv_def by (metis less_irrefl)
  show ?thesis unfolding own_inv_def
  proof (intro conjI allI impI)
    fix ow b' assume "owned s' ow = Some b'"
    then show "g_mem (fst s') b' \<noteq> None" using assms(1,3,4) by (auto simp: own_inv_def split: if_splits)
  next
    fix ow ow' b' assume "owned s' ow = Some b'" "owned s' ow' = Some b'"
    then show "ow = ow'" using assms(1,3) fresh by (auto simp: own_inv_def split: if_splits)
  next
    fix b' assume "g_mem (fst s') b' \<noteq> None"
    then have "b' = g_next (fst s) \<or> g_mem (fst s) b' \<noteq> None" using assms(4) by (auto split: if_splits)
    then show "\<exists>ow. owned s' ow = Some b'"
    proof
      assume "b' = g_next (fst s)"
      then show ?thesis using assms(3) by (intro exI [of _ o1]) simp
    next
      assume "g_mem (fst s) b' \<noteq> None"
      then obtain ow where "owned s ow = Some b'" using assms(1) by (auto simp: own_inv_def)
      then show ?thesis using assms(2,3) by (intro exI [of _ ow]) auto
    qed
  next
    fix b' assume "g_mem (fst s') b' \<noteq> None"
    then show "b' < g_next (fst s')" using assms(1,4,5) by (auto simp: own_inv_def less_Suc_eq split: if_splits)
  qed
qed

lemma data_invD:
  assumes "data_inv plans content (g, T)"
  shows "g_cache g key = Some e \<Longrightarrow> holds_content content g (en_buffer e) key"
    and "g_cache g key = Some e \<Longrightarrow> \<exists>tid p. plans tid = Some p \<and> plan_key p = key \<and> en_size e = plan_total p"
    and "g_tensor_extra g tid = Some i \<Longrightarrow> i < length (g_extras g)"
    and "g_tensor_extra g tid = Some i \<Longrightarrow> extra_ok content g (plans tid) (g_extras g ! i)"
    and "g_tensor_extra g tid = Some i \<Longrightarrow> g_tensor_extra g tid' = Some i \<Longrightarrow> tid = tid'"
    and "i < length (g_extras g) \<Longrightarrow> \<exists>tid. g_tensor_extra g tid = Some i"
    and "T th = Some (Missed tid) \<Longrightarrow> plans tid \<noteq> None"
    and "T th = Some (Built tid b backend) \<Longrightarrow> \<exists>p. plans tid = Some p \<and> holds_content content g b (plan_key p)"
  using assms unfolding data_inv_def fst_conv snd_conv by blast+

definition extra_index :: "'c lut_globals \<Rightarrow> nat \<Rightarrow> nat" where
  "extra_index g tid = (case g_tensor_extra g tid of Some i \<Rightarrow> i | None \<Rightarrow> length (g_extras g))"

lemma attach_frame [simp]:
  "g_cache (attach tid p b ib g) = g_cache g" "g_mem (attach tid p b ib g) = g_mem g"
  "g_next (attach tid p b ib g) = g_next g"
  by (simp_all add: attach_def Let_def split: option.splits)

lemma attach_extras:
  assumes "data_inv plans content (g, T)"
  shows "extra_index g tid < length (g_extras (attach tid p b ib g))"
    and "g_tensor_extra (attach tid p b ib g) = (g_tensor_extra g)(tid := Some (extra_index g tid))"
    and "i < length (g_extras (attach tid p b ib g)) \<longleftrightarrow> i < length (g_extras g) \<or> i = extra_index g tid"
    and "i < length (g_extras (attach tid p b ib g)) \<Longrightarrow> g_extras (attach tid p b ib g) ! i =
      (if i = extra_index g tid
       then \<lparr>ex_indexes = (if plan_keep p then Some b else None), ex_size = (if plan_keep p then plan_index_bytes p else 0),
             ex_packed = Some (b, plan_aligned p), ex_packed_size = plan_packed p, ex_index_buffer = ib\<rparr>
       else g_extras g ! i)"
  using data_invD(3) [OF assms, of tid]
  by (auto simp: attach_def Let_def extra_index_def nth_append fun_upd_idem_iff split: option.splits)

lemma attach_owned:
  assumes "data_inv plans content (g, T)" "\<not> has_packed g tid"
  shows "owned (g, T) (OExtra (extra_index g tid)) = None"
    and "owned (attach tid p b ib g, T) ow =
      (if ow = OExtra (extra_index g tid) \<and> ib = None then Some b else owned (g, T) ow)"
proof -
  show none: "owned (g, T) (OExtra (extra_index g tid)) = None"
    using assms(2) by (auto simp: owned_def extra_index_def has_packed_def split: option.splits)
  note ex = attach_extras [OF assms(1), where tid = tid and p = p and b = b and ib = ib]
  show "owned (attach tid p b ib g, T) ow =
      (if ow = OExtra (extra_index g tid) \<and> ib = None then Some b else owned (g, T) ow)"
  proof (cases ow)
    case (OExtra i)
    show ?thesis
    proof (cases "i = extra_index g tid")
      case True
      then show ?thesis using OExtra ex(1) ex(4) none by (auto simp: owned_def)
    next
      case False
      have "i < length (g_extras (attach tid p b ib g)) \<longleftrightarrow> i < length (g_extras g)"
        using False ex(3) by auto
      with False OExtra ex(4) show ?thesis by (auto simp: owned_def)
    qed
  qed (simp_all add: owned_def)
qed

lemma attach_data:
  assumes inv: "data_inv plans content (g, T)" and p: "plans tid = Some p"
    and b: "holds_content content g b (plan_key p)"
    and ib: "ib = None \<or> ib = Some b \<and> map_option en_buffer (g_cache g (plan_key p)) = Some b"
  shows "data_inv plans content (attach tid p b ib g, T)"
proof -
  note ex = attach_extras [OF inv, where tid = tid and p = p and b = b and ib = ib]
  note D = data_invD [OF inv]
  have holds: "holds_content content (attach tid p b ib g) b' key \<longleftrightarrow> holds_content content g b' key" for b' key
    by (simp add: holds_content_def)
  have ok: "extra_ok content (attach tid p b ib g) po e \<longleftrightarrow> extra_ok content g po e" for po e
    by (simp add: extra_ok_def holds split: option.splits prod.splits)
  have idx: "g_tensor_extra g t' = Some i \<Longrightarrow> t' \<noteq> tid \<Longrightarrow> i \<noteq> extra_index g tid" for t' i
    using D(3) D(5) by (auto simp: extra_index_def split: option.splits)
  show ?thesis unfolding data_inv_def fst_conv snd_conv
  proof (intro conjI allI impI)
    fix t' i assume t': "g_tensor_extra (attach tid p b ib g) t' = Some i"
    show il: "i < length (g_extras (attach tid p b ib g))"
      using t' ex(1,2,3) D(3) [of t'] by (auto split: if_splits)
    show "extra_ok content (attach tid p b ib g) (plans t') (g_extras (attach tid p b ib g) ! i)"
    proof (cases "t' = tid")
      case True
      then have "i = extra_index g tid" using t' ex(2) by simp
      then show ?thesis using True p b ib ex(4) [OF il] unfolding ok by (auto simp: extra_ok_def)
    next
      case False
      then have "g_tensor_extra g t' = Some i" using t' ex(2) by simp
      then show ?thesis using idx [OF _ False] D(4) ex(4) [OF il] unfolding ok by auto
    qed
  next
    fix t1 t2 i assume "g_tensor_extra (attach tid p b ib g) t1 = Some i" "g_tensor_extra (attach tid p b ib g) t2 = Some i"
    then show "t1 = t2" using ex(2) idx D(5) by (auto split: if_splits)
  next
    fix i assume "i < length (g_extras (attach tid p b ib g))"
    then show "\<exists>t'. g_tensor_extra (attach tid p b ib g) t' = Some i"
    proof (cases "i = extra_index g tid")
      case True
      then show ?thesis using ex(2) by auto
    next
      case False
      then have "i < length (g_extras g)" using \<open>i < _\<close> ex(3) by auto
      then obtain t' where "g_tensor_extra g t' = Some i" using D(6) by blast
      moreover from this have "t' \<noteq> tid" using False by (auto simp: extra_index_def)
      ultimately show ?thesis using ex(2) by (intro exI [of _ t']) simp
    qed
  qed (use D holds in auto)
qed

definition lut_inv :: "(nat \<Rightarrow> lut_plan option) \<Rightarrow> (lut_key \<Rightarrow> 'c option) \<Rightarrow> 'c lut_system \<Rightarrow> bool" where
  "lut_inv plans content s \<longleftrightarrow> own_inv s \<and> data_inv plans content s"

text \<open>Tensors with the same cache key have the same plan.\<close>

definition plans_by_key :: "(nat \<Rightarrow> lut_plan option) \<Rightarrow> bool" where
  "plans_by_key plans \<longleftrightarrow> (\<forall>tid tid' p p'. plans tid = Some p \<longrightarrow> plans tid' = Some p' \<longrightarrow>
     plan_key p = plan_key p' \<longrightarrow> p = p')"

lemma own_same:
  assumes "own_inv s" "\<And>ow. owned s' ow = owned s ow" "g_mem (fst s') = g_mem (fst s)" "g_next (fst s') = g_next (fst s)"
  shows "own_inv s'"
  using assms by (simp add: own_inv_def)

lemma owned_thread [simp]:
  "owned (g, T(th := ph)) ow = (if ow = OThread th then (case ph of Some (Built tid b backend) \<Rightarrow> Some b | _ \<Rightarrow> None)
    else owned (g, T) ow)"
  by (auto simp: owned_def split: lut_owner.splits)

lemma owned_cong:
  assumes "g_cache g' = g_cache g" "g_extras g' = g_extras g"
  shows "owned (g', T) ow = owned (g, T) ow"
  using assms by (simp add: owned_def split: lut_owner.splits)

lemma owned_mem [simp]: "owned (g\<lparr>g_mem := m, g_next := n\<rparr>, T) ow = owned (g, T) ow"
  by (rule owned_cong) simp_all

lemma owned_idle: "T th = None \<or> T th = Some (Missed tid) \<Longrightarrow> owned (g, T) (OThread th) = None"
  by (auto simp: owned_def)

lemma data_thread:
  assumes "data_inv plans content (g, T)"
    and "case ph of None \<Rightarrow> True | Some (Missed tid) \<Rightarrow> plans tid \<noteq> None
      | Some (Built tid b backend) \<Rightarrow> \<exists>p. plans tid = Some p \<and> holds_content content g b (plan_key p)"
  shows "data_inv plans content (g, T(th := ph))"
  using assms unfolding data_inv_def fst_conv snd_conv
  by (auto split: option.splits lut_phase.splits)

text \<open>Memory changes that keep every referenced buffer.\<close>

lemma data_mem:
  assumes inv: "data_inv plans content (g, T)"
    and same: "g_cache g' = g_cache g" "g_extras g' = g_extras g" "g_tensor_extra g' = g_tensor_extra g"
    and keep: "\<And>b key. holds_content content g b key \<Longrightarrow>
      (\<exists>k. map_option en_buffer (g_cache g k) = Some b) \<or> (\<exists>i. owned (g, T) (OExtra i) = Some b) \<or>
      (\<exists>th. owned (g, T) (OThread th) = Some b) \<Longrightarrow> holds_content content g' b key"
  shows "data_inv plans content (g', T)"
proof -
  note D = data_invD [OF inv]
  show ?thesis unfolding data_inv_def fst_conv snd_conv same
  proof (intro conjI allI impI)
    fix tid i assume ti: "g_tensor_extra g tid = Some i"
    then show "extra_ok content g' (plans tid) (g_extras g ! i)"
    proof (cases "ex_packed (g_extras g ! i)")
      case None
      then show ?thesis using D(4) [OF ti] by (simp add: extra_ok_def)
    next
      case (Some bo)
      obtain b off where bo: "bo = (b, off)" by (cases bo)
      obtain p where p: "plans tid = Some p" "off = plan_aligned p" "holds_content content g b (plan_key p)"
        "ex_index_buffer (g_extras g ! i) = None \<or> map_option en_buffer (g_cache g (plan_key p)) = Some b"
        "ex_indexes (g_extras g ! i) = None \<or> ex_indexes (g_extras g ! i) = Some b"
        using D(4) [OF ti] Some bo by (auto simp: extra_ok_def)
      have "(\<exists>k. map_option en_buffer (g_cache g k) = Some b) \<or> (\<exists>i. owned (g, T) (OExtra i) = Some b)"
      proof (cases "ex_index_buffer (g_extras g ! i) = None")
        case True
        then have "owned (g, T) (OExtra i) = Some b" using Some bo D(3) [OF ti] by (simp add: owned_def)
        then show ?thesis by blast
      next
        case False
        with p(4) have "map_option en_buffer (g_cache g (plan_key p)) = Some b" by simp
        then show ?thesis by (intro disjI1 exI)
      qed
      with keep p have "holds_content content g' b (plan_key p)" by blast
      with p Some bo show ?thesis by (auto simp: extra_ok_def same)
    qed
  next
    fix th tid b backend assume "T th = Some (Built tid b backend)"
    moreover from this obtain p where "plans tid = Some p" "holds_content content g b (plan_key p)" using D(8) by blast
    moreover have "owned (g, T) (OThread th) = Some b" using calculation(1) by (simp add: owned_def)
    ultimately show "\<exists>p. plans tid = Some p \<and> holds_content content g' b (plan_key p)" using keep by blast
  next
    fix key e assume "g_cache g key = Some e"
    then show "holds_content content g' (en_buffer e) key"
      using D(1) keep by (metis option.simps(9))
  qed (use D in blast)+
qed

lemma drop_thread_buffer:
  assumes inv: "lut_inv plans content (g, T)" and th: "T th = Some (Built tid b backend)"
  shows "\<exists>g'. free_buffer b g = Some g' \<and> g' = g\<lparr>g_mem := (g_mem g)(b := None)\<rparr> \<and>
    lut_inv plans content (g', T(th := None))"
proof -
  have own: "own_inv (g, T)" and dat: "data_inv plans content (g, T)" using inv by (simp_all add: lut_inv_def)
  have mine: "owned (g, T) (OThread th) = Some b" using th by (simp add: owned_def)
  have live: "g_mem g b \<noteq> None" using own mine by (auto simp: own_inv_def)
  let ?g = "g\<lparr>g_mem := (g_mem g)(b := None)\<rparr>"
  have same: "owned (?g, T) ow = owned (g, T) ow" for ow by (rule owned_cong) simp_all
  have other: "b' \<noteq> b" if "owned (g, T) ow = Some b'" "ow \<noteq> OThread th" for ow b'
    using own mine that unfolding own_inv_def by metis
  have "own_inv (?g, T(th := None))"
    by (rule own_drop [OF own mine]) (simp_all add: same)
  moreover have "data_inv plans content (?g, T(th := None))"
  proof (rule data_mem)
    show "data_inv plans content (g, T(th := None))" by (rule data_thread [OF dat]) simp
    fix b' key assume h: "holds_content content g b' key" and
      o: "(\<exists>k. map_option en_buffer (g_cache g k) = Some b') \<or> (\<exists>i. owned (g, T(th := None)) (OExtra i) = Some b') \<or>
        (\<exists>th'. owned (g, T(th := None)) (OThread th') = Some b')"
    have "b' \<noteq> b" using o
    proof (elim disjE exE)
      fix k assume "map_option en_buffer (g_cache g k) = Some b'"
      then have "owned (g, T) (OCache k) = Some b'" by (simp add: owned_def)
      then show ?thesis by (rule other) simp
    qed (use other in \<open>auto split: if_splits\<close>)
    with h show "holds_content content ?g b' key" by (simp add: holds_content_def)
  qed simp_all
  ultimately show ?thesis using live by (simp add: free_buffer_def lut_inv_def)
qed

lemma attach_cached_inv:
  assumes inv: "lut_inv plans content (g, T)" and p: "plans tid = Some p" and "\<not> has_packed g tid"
    and e: "g_cache g (plan_key p) = Some e"
  shows "lut_inv plans content (attach tid p (en_buffer e) (Some (en_buffer e)) g, T)"
proof -
  have own: "own_inv (g, T)" and dat: "data_inv plans content (g, T)" using inv by (simp_all add: lut_inv_def)
  have "own_inv (attach tid p (en_buffer e) (Some (en_buffer e)) g, T)"
    by (rule own_same [OF own]) (simp_all add: attach_owned(2) [OF dat assms(3)])
  moreover have "data_inv plans content (attach tid p (en_buffer e) (Some (en_buffer e)) g, T)"
    by (rule attach_data [OF dat p data_invD(1) [OF dat e]]) (simp add: e)
  ultimately show ?thesis by (simp add: lut_inv_def)
qed

lemma emplace_inv:
  assumes inv: "lut_inv plans content (g, T)" and th: "T th = Some (Built tid b backend)" and p: "plans tid = Some p"
    and none: "g_cache g (plan_key p) = None"
  shows "lut_inv plans content (g\<lparr>g_cache := (g_cache g)(plan_key p := Some \<lparr>en_buffer = b, en_size = plan_total p\<rparr>)\<rparr>,
    T(th := None))" (is "lut_inv plans content (?g, ?T)")
proof -
  have own: "own_inv (g, T)" and dat: "data_inv plans content (g, T)" using inv by (simp_all add: lut_inv_def)
  note D = data_invD [OF dat]
  have mine: "owned (g, T) (OThread th) = Some b" using th by (simp add: owned_def)
  have b: "holds_content content g b (plan_key p)" using D(8) [OF th] p by auto
  have "own_inv (?g, ?T)"
    by (rule own_move [OF own mine, of "OCache (plan_key p)"])
      (use none in \<open>auto simp: owned_def split: lut_owner.splits\<close>)
  moreover have "data_inv plans content (?g, T)"
  proof -
    have holds: "holds_content content ?g b' key \<longleftrightarrow> holds_content content g b' key" for b' key
      by (simp add: holds_content_def)
    have "extra_ok content g po ex \<Longrightarrow> extra_ok content ?g po ex" for po ex
      using none by (auto simp: extra_ok_def holds split: option.splits)
    then show ?thesis
      unfolding data_inv_def fst_conv snd_conv using D b p by (auto simp: holds)
  qed
  then have "data_inv plans content (?g, ?T)" by (rule data_thread) simp
  ultimately show ?thesis by (simp add: lut_inv_def)
qed

lemma attach_malloc_inv:
  assumes inv: "lut_inv plans content (g, T)" and th: "T th = Some (Built tid b backend)" and p: "plans tid = Some p"
    and "\<not> has_packed g tid"
  shows "lut_inv plans content (attach tid p b None g, T(th := None))"
proof -
  have own: "own_inv (g, T)" and dat: "data_inv plans content (g, T)" using inv by (simp_all add: lut_inv_def)
  have mine: "owned (g, T) (OThread th) = Some b" using th by (simp add: owned_def)
  have b: "holds_content content g b (plan_key p)" using data_invD(8) [OF dat th] p by auto
  note att = attach_owned [OF dat assms(4)]
  have "own_inv (attach tid p b None g, T(th := None))"
    by (rule own_move [OF own mine att(1)]) (auto simp: att)
  moreover have "data_inv plans content (attach tid p b None g, T(th := None))"
    by (rule data_thread [OF attach_data [OF dat p b]]) simp_all
  ultimately show ?thesis by (simp add: lut_inv_def)
qed

lemma alloc_inv:
  assumes inv: "lut_inv plans content (g, T)" and th: "T th = Some (Missed tid)" and p: "plans tid = Some p"
    and c: "content (plan_key p) = Some c" and alloc: "transform_alloc p backend c g = (b, g')"
  shows "lut_inv plans content (g', T(th := Some (Built tid b backend)))"
proof -
  have own: "own_inv (g, T)" and dat: "data_inv plans content (g, T)" using inv by (simp_all add: lut_inv_def)
  have g': "b = g_next g" "g' = g\<lparr>g_mem := (g_mem g)(b := Some \<lparr>buf_backend = backend, buf_size = plan_total p, buf_content = c\<rparr>),
      g_next := Suc (g_next g)\<rparr>" using alloc by (auto simp: transform_alloc_def)
  have fresh: "g_mem g b = None" using own g'(1) by (auto simp: own_inv_def)
  have "own_inv (g', T(th := Some (Built tid b backend)))"
    by (rule own_new [OF own, of "OThread th" _ "\<lparr>buf_backend = backend, buf_size = plan_total p, buf_content = c\<rparr>"])
      (use th in \<open>simp_all add: owned_idle g'\<close>)
  moreover have "data_inv plans content (g', T(th := Some (Built tid b backend)))"
  proof (rule data_thread)
    show "data_inv plans content (g', T)"
      by (rule data_mem [OF dat]) (use fresh in \<open>auto simp: g' holds_content_def\<close>)
  qed (use p c in \<open>auto simp: g'(2) holds_content_def\<close>)
  ultimately show ?thesis by (simp add: lut_inv_def)
qed

lemma has_packed_free [simp]: "has_packed (g\<lparr>g_mem := m\<rparr>) tid = has_packed g tid"
  by (simp add: has_packed_def cong: option.case_cong)

lemma has_packed_cache [simp]: "has_packed (g\<lparr>g_cache := c\<rparr>) tid = has_packed g tid"
  by (simp add: has_packed_def cong: option.case_cong)

text \<open>Publishing never frees a dead buffer, and keeps the invariant.\<close>

lemma publish_inv:
  assumes det: "plans_by_key plans" and inv: "lut_inv plans content (g, T)"
    and th: "T th = Some (Built tid b backend)" and p: "plans tid = Some p"
  shows "\<exists>g'. transform_publish tid p b backend g = Some g' \<and> lut_inv plans content (g', T(th := None))"
proof -
  have dat: "data_inv plans content (g, T)" using inv by (simp add: lut_inv_def)
  obtain g1 where g1: "free_buffer b g = Some g1" "g1 = g\<lparr>g_mem := (g_mem g)(b := None)\<rparr>"
    "lut_inv plans content (g1, T(th := None))"
    using drop_thread_buffer [OF inv th] by blast
  show ?thesis
  proof (cases "has_packed g tid")
    case True
    then show ?thesis using g1 by (auto simp: transform_publish_def)
  next
    case False
    show ?thesis
    proof (cases "cache_hit g p")
      case (Some e)
      then have e: "g_cache g (plan_key p) = Some e" by (auto simp: cache_hit_def split: option.splits if_splits)
      have "lut_inv plans content (attach tid p (en_buffer e) (Some (en_buffer e)) g1, T(th := None))"
        by (rule attach_cached_inv [OF g1(3) p]) (use False e g1(2) in simp_all)
      then show ?thesis using Some False g1(1) by (auto simp: transform_publish_def)
    next
      case None
      have none: "g_cache g (plan_key p) = None"
      proof (rule ccontr)
        assume "g_cache g (plan_key p) \<noteq> None"
        then obtain e where e: "g_cache g (plan_key p) = Some e" by auto
        with data_invD(2) [OF dat e] det p have "en_size e = plan_total p" unfolding plans_by_key_def by metis
        with e None show False by (simp add: cache_hit_def)
      qed
      show ?thesis
      proof (cases backend)
        case True
        let ?g = "g\<lparr>g_cache := (g_cache g)(plan_key p := Some \<lparr>en_buffer = b, en_size = plan_total p\<rparr>)\<rparr>"
        have "lut_inv plans content (?g, T(th := None))" by (rule emplace_inv [OF inv th p none])
        from attach_cached_inv [OF this p, of "\<lparr>en_buffer = b, en_size = plan_total p\<rparr>"]
        have "lut_inv plans content (attach tid p b (Some b) ?g, T(th := None))" using False by simp
        then show ?thesis using True None none False by (simp add: transform_publish_def Let_def)
      next
        case bf: False
        show ?thesis
          using attach_malloc_inv [OF inv th p False] bf None False by (simp add: transform_publish_def Let_def)
      qed
    qed
  qed
qed

lemma lut_step_inv:
  assumes "plans_by_key plans" "lut_step plans content s s'" "lut_inv plans content s"
  shows "lut_inv plans content s'"
  using assms(2)
proof cases
  case (hit T th tid p g g')
  show ?thesis
  proof (cases "has_packed g tid")
    case True
    then show ?thesis using hit assms(3) by (simp add: transform_lookup_def)
  next
    case False
    then obtain e where e: "cache_hit g p = Some e" "g' = attach tid p (en_buffer e) (Some (en_buffer e)) g"
      using hit(5) by (auto simp: transform_lookup_def split: option.splits)
    then have "g_cache g (plan_key p) = Some e" by (auto simp: cache_hit_def split: option.splits if_splits)
    then show ?thesis using attach_cached_inv [of plans content g T tid p e] hit assms(3) e(2) False by simp
  qed
next
  case (miss T th tid p g)
  have "own_inv (g, T(th := Some (Missed tid)))"
    by (rule own_same [of "(g, T)"]) (use miss assms(3) in \<open>auto simp: lut_inv_def owned_idle\<close>)
  moreover have "data_inv plans content (g, T(th := Some (Missed tid)))"
    by (rule data_thread) (use miss assms(3) in \<open>auto simp: lut_inv_def\<close>)
  ultimately show ?thesis using miss by (simp add: lut_inv_def)
next
  case (build T th tid p c backend g b g')
  then show ?thesis using alloc_inv [of plans content g T th tid p c backend b g'] assms(3) by simp
next
  case (fail T th tid g)
  have "own_inv (g, T(th := None))"
    by (rule own_same [of "(g, T)"]) (use fail assms(3) in \<open>auto simp: lut_inv_def owned_idle\<close>)
  moreover have "data_inv plans content (g, T(th := None))"
    by (rule data_thread) (use fail assms(3) in \<open>auto simp: lut_inv_def\<close>)
  ultimately show ?thesis using fail by (simp add: lut_inv_def)
next
  case (publish T th tid b backend p g g')
  then show ?thesis using publish_inv [OF assms(1), of content g T th tid b backend p] assms(3) by auto
qed

lemma lut_init_inv: "lut_inv plans content (lut_init, \<lambda>_. None)"
  by (simp add: lut_inv_def own_inv_def data_inv_def lut_init_def owned_def split: lut_owner.splits)

lemma lut_reachable_inv:
  assumes "lut_reachable plans content s" "plans_by_key plans"
  shows "lut_inv plans content s"
  using assms(1) by induction (use lut_init_inv lut_step_inv [OF assms(2)] in auto)

section \<open>Releasing everything\<close>

definition mem_without :: "'c lut_system \<Rightarrow> lut_owner set \<Rightarrow> nat \<Rightarrow> 'c lut_buffer option" where
  "mem_without s F = (\<lambda>b. if \<exists>ow\<in>F. owned s ow = Some b then None else g_mem (fst s) b)"

lemma mem_without_live:
  assumes "own_inv s" "owned s ow = Some b" "ow \<notin> F"
  shows "mem_without s F b \<noteq> None"
  using assms unfolding own_inv_def mem_without_def by (metis option.distinct(1))

lemma mem_without_insert:
  "owned s ow = Some b \<Longrightarrow> (mem_without s F)(b := None) = mem_without s (insert ow F)"
  by (auto simp: mem_without_def fun_eq_iff)

lemma mem_without_none: "owned s ow = None \<Longrightarrow> mem_without s (insert ow F) = mem_without s F"
  by (auto simp: mem_without_def fun_eq_iff)

lemma free_cached:
  assumes "own_inv (g, T)" "distinct ks" "set ks \<subseteq> dom (g_cache g)" "OCache ` set ks \<inter> F = {}"
  shows "fold (\<lambda>key so. Option.bind so (\<lambda>st.
             case g_cache st key of Some e \<Rightarrow> free_buffer (en_buffer e) st | None \<Rightarrow> Some st)) ks
           (Some (g\<lparr>g_mem := mem_without (g, T) F\<rparr>)) =
         Some (g\<lparr>g_mem := mem_without (g, T) (OCache ` set ks \<union> F)\<rparr>)"
  using assms(2-)
proof (induction ks arbitrary: F)
  case Nil
  then show ?case by simp
next
  case (Cons k ks)
  obtain e where e: "g_cache g k = Some e" using Cons.prems(2) by auto
  then have own: "owned (g, T) (OCache k) = Some (en_buffer e)" by (simp add: owned_def)
  have live: "mem_without (g, T) F (en_buffer e) \<noteq> None"
    by (rule mem_without_live [OF assms(1) own]) (use Cons.prems(3) in auto)
  have "fold (\<lambda>key so. Option.bind so (\<lambda>st.
             case g_cache st key of Some e \<Rightarrow> free_buffer (en_buffer e) st | None \<Rightarrow> Some st)) ks
           (Some (g\<lparr>g_mem := mem_without (g, T) (insert (OCache k) F)\<rparr>)) =
         Some (g\<lparr>g_mem := mem_without (g, T) (OCache ` set ks \<union> insert (OCache k) F)\<rparr>)"
    by (rule Cons.IH) (use Cons.prems in auto)
  then show ?case using live by (auto simp: e free_buffer_def mem_without_insert [OF own])
qed

definition null_extra :: ifairy_lut_extra where
  "null_extra = \<lparr>ex_indexes = None, ex_size = 0, ex_packed = None, ex_packed_size = 0, ex_index_buffer = None\<rparr>"

lemma free_extras:
  assumes own: "own_inv (g, T)" and dat: "data_inv plans content (g, T)" and "n \<le> length (g_extras g)"
    and F: "\<And>i. OExtra i \<notin> F"
  shows "fold free_extra [0..<n] (Some (g\<lparr>g_mem := mem_without (g, T) F, g_cache := c\<rparr>)) =
    Some (g\<lparr>g_mem := mem_without (g, T) (OExtra ` {..<n} \<union> F), g_cache := c,
            g_extras := map (\<lambda>i. if i < n then null_extra else g_extras g ! i) [0..<length (g_extras g)]\<rparr>)"
  using assms(3)
proof (induction n)
  case 0
  have "map ((!) (g_extras g)) [0..<length (g_extras g)] = g_extras g" by (rule map_nth)
  then show ?case by simp
next
  case (Suc n)
  let ?e = "g_extras g ! n"
  let ?st = "g\<lparr>g_mem := mem_without (g, T) (OExtra ` {..<n} \<union> F), g_cache := c,
            g_extras := map (\<lambda>i. if i < n then null_extra else g_extras g ! i) [0..<length (g_extras g)]\<rparr>"
  have nth: "n < length (g_extras g)" using Suc.prems by simp
  have upd: "(map (\<lambda>i. if i < n then null_extra else g_extras g ! i) [0..<length (g_extras g)])[n := null_extra] =
      map (\<lambda>i. if i < Suc n then null_extra else g_extras g ! i) [0..<length (g_extras g)]"
    using Suc.prems by (intro nth_equalityI) (auto simp: nth_list_update less_Suc_eq)
  have set: "OExtra ` {..<Suc n} \<union> F = insert (OExtra n) (OExtra ` {..<n} \<union> F)"
    by (simp add: lessThan_Suc)
  obtain tid where "g_tensor_extra g tid = Some n" using data_invD(6) [OF dat, of n] Suc.prems by auto
  then have ok: "extra_ok content g (plans tid) ?e" using data_invD(4) [OF dat] by auto
  have "free_extra n (Some ?st) = Some (?st\<lparr>g_mem := mem_without (g, T) (insert (OExtra n) (OExtra ` {..<n} \<union> F)),
      g_extras := (g_extras ?st)[n := null_extra]\<rparr>)"
  proof (cases "ex_packed ?e")
    case None
    then have "owned (g, T) (OExtra n) = None" by (simp add: owned_def)
    moreover have "ex_indexes ?e = None" using ok None by (simp add: extra_ok_def)
    ultimately show ?thesis using None by (simp add: free_extra_def Let_def nth null_extra_def mem_without_none)
  next
    case (Some bo)
    obtain b off where b: "bo = (b, off)" by (cases bo)
    have ix: "ex_indexes ?e = None \<or> ex_indexes ?e = Some b" using ok Some b by (auto simp: extra_ok_def)
    show ?thesis
    proof (cases "ex_index_buffer ?e = None")
      case True
      then have ow: "owned (g, T) (OExtra n) = Some b" using Some b Suc.prems by (simp add: owned_def)
      have "mem_without (g, T) (OExtra ` {..<n} \<union> F) b \<noteq> None"
        by (rule mem_without_live [OF own ow]) (use F in auto)
      then show ?thesis using True ix Some b
        by (auto simp: free_extra_def Let_def nth null_extra_def free_buffer_def mem_without_insert [OF ow])
    next
      case False
      then have "owned (g, T) (OExtra n) = None" by (auto simp: owned_def)
      then show ?thesis using False ix Some b
        by (auto simp: free_extra_def Let_def nth null_extra_def mem_without_none)
    qed
  qed
  then show ?case using Suc by (simp add: upd set)
qed

lemma lut_free_releases:
  assumes inv: "lut_inv plans content (g, \<lambda>_. None)" and order: "distinct order" "set order = dom (g_cache g)"
  shows "\<exists>g'. ggml_ifairy_lut_free order g = Some g' \<and> g_mem g' = (\<lambda>_. None) \<and> g_cache g' = (\<lambda>_. None) \<and>
    (\<forall>ex\<in>set (g_extras g'). ex_packed ex = None \<and> ex_indexes ex = None)"
proof -
  let ?T = "\<lambda>_. None"
  have own: "own_inv (g, ?T)" and dat: "data_inv plans content (g, ?T)" using inv by (simp_all add: lut_inv_def)
  have g0: "g\<lparr>g_mem := mem_without (g, ?T) {}\<rparr> = g" by (simp add: mem_without_def)
  let ?F = "OCache ` set order \<union> {}"
  have c: "fold (\<lambda>key so. Option.bind so (\<lambda>st.
             case g_cache st key of Some e \<Rightarrow> free_buffer (en_buffer e) st | None \<Rightarrow> Some st)) order (Some g) =
         Some (g\<lparr>g_mem := mem_without (g, ?T) ?F\<rparr>)"
    using free_cached [OF own order(1), of "{}"] order(2) unfolding g0 by simp
  have e: "fold free_extra [0..<length (g_extras g)] (Some (g\<lparr>g_mem := mem_without (g, ?T) ?F, g_cache := (\<lambda>_. None)\<rparr>)) =
    Some (g\<lparr>g_mem := mem_without (g, ?T) (OExtra ` {..<length (g_extras g)} \<union> ?F), g_cache := (\<lambda>_. None),
            g_extras := map (\<lambda>i. if i < length (g_extras g) then null_extra else g_extras g ! i) [0..<length (g_extras g)]\<rparr>)"
    by (rule free_extras [OF own dat]) auto
  have "mem_without (g, ?T) (OExtra ` {..<length (g_extras g)} \<union> ?F) = (\<lambda>_. None)"
  proof (rule ext, rule ccontr)
    fix b assume h: "mem_without (g, ?T) (OExtra ` {..<length (g_extras g)} \<union> ?F) b \<noteq> None"
    then have "g_mem g b \<noteq> None" by (auto simp: mem_without_def split: if_splits)
    then obtain ow where ow: "owned (g, ?T) ow = Some b" using own by (auto simp: own_inv_def)
    then have "ow \<in> OExtra ` {..<length (g_extras g)} \<union> ?F"
      using order(2) by (cases ow) (auto simp: owned_def split: if_splits)
    with ow have "\<exists>ow\<in>OExtra ` {..<length (g_extras g)} \<union> ?F. owned (g, ?T) ow = Some b" by blast
    with h show False by (simp only: mem_without_def if_True simp_thms)
  qed
  with c e show ?thesis unfolding ggml_ifairy_lut_free_def Let_def by (auto simp: null_extra_def)
qed

section \<open>The properties for the model's tensors\<close>

text \<open>The plans of a family of tensors depend on the key only.\<close>

definition plans_of :: "(nat \<Rightarrow> nat ggml_tensor) \<Rightarrow> nat \<Rightarrow> lut_plan option" where
  "plans_of tensors tid = (case transform_plan (tensors tid) of Plan p \<Rightarrow> Some p | _ \<Rightarrow> None)"

lemma plan_impl_key:
  assumes "transform_plan_impl bk tb keep info t = Plan p"
  shows "key_type (plan_key p) = ttype t \<and> key_k (plan_key p) = ne t 0 \<and> key_rows (plan_key p) = ne t 1"
  using assms by (auto simp: transform_plan_impl_def Let_def split: if_splits option.splits)

lemma plan_impl_det:
  assumes "transform_plan_impl bk tb keep info t = Plan p" "transform_plan_impl bk tb keep info t' = Plan p'"
    "plan_key p = plan_key p'"
  shows "p = p'"
  using assms by (auto simp: transform_plan_impl_def Let_def split: if_splits option.splits)

lemma transform_plan_type: "transform_plan t = Plan p \<Longrightarrow> key_type (plan_key p) = ttype t"
  by (auto simp: transform_plan_def dest: plan_impl_key split: ggml_type.splits)

lemma plans_of_by_key: "plans_by_key (plans_of tensors)"
  unfolding plans_by_key_def
proof (intro allI impI)
  fix tid tid' p p'
  assume "plans_of tensors tid = Some p" "plans_of tensors tid' = Some p'" and key: "plan_key p = plan_key p'"
  then have p: "transform_plan (tensors tid) = Plan p" "transform_plan (tensors tid') = Plan p'"
    by (auto simp: plans_of_def split: plan_result.splits)
  then have "ttype (tensors tid') = ttype (tensors tid)" using key transform_plan_type by metis
  with p key show "p = p'"
    unfolding transform_plan_def by (auto intro: plan_impl_det split: ggml_type.splits)
qed

text \<open>
  A call without other threads is a run of the step relation, so it keeps every reachable state
  reachable; it leaves the packed pointers of other tensors alone, and when an allocator succeeds
  a tensor with a plan and content has one afterwards.
\<close>

definition packable :: "'f float_ops \<Rightarrow> (nat \<Rightarrow> weight_data) \<Rightarrow> nat ggml_tensor \<Rightarrow> bool" where
  "packable ops W t \<longleftrightarrow> (case transform_plan t of Plan p \<Rightarrow> transform_content ops W (plan_key p) \<noteq> None | _ \<Rightarrow> False)"

lemma has_packed_attach:
  assumes "\<And>t i. g_tensor_extra st t = Some i \<Longrightarrow> i < length (g_extras st)"
  shows "has_packed st t \<Longrightarrow> has_packed (attach tid p b ib st) t" and "has_packed (attach tid p b ib st) tid"
  using assms by (auto simp: has_packed_def attach_def Let_def nth_append nth_list_update split: option.splits)

lemma transform_tensor_steps:
  assumes reach: "lut_reachable (plans_of tensors) (transform_content ops W) (g, \<lambda>_. None)"
    and noabort: "transform_plan (tensors tid) \<noteq> Aborts"
  shows "\<exists>r g'. ggml_ifairy_lut_transform_tensor ops W alloc malloc tid (Some (tensors tid)) g = Some (r, g') \<and>
    lut_reachable (plans_of tensors) (transform_content ops W) (g', \<lambda>_. None) \<and>
    (\<forall>t. has_packed g t \<longrightarrow> has_packed g' t) \<and> (packable ops W (tensors tid) \<and> (alloc \<or> malloc) \<longrightarrow> has_packed g' tid)"
proof -
  let ?R = "lut_reachable (plans_of tensors) (transform_content ops W)"
  let ?goal = "\<lambda>res. \<exists>r g'. res = Some (r, g') \<and> ?R (g', \<lambda>_. None) \<and>
    (\<forall>t. has_packed g t \<longrightarrow> has_packed g' t) \<and> (packable ops W (tensors tid) \<and> (alloc \<or> malloc) \<longrightarrow> has_packed g' tid)"
  have "lut_inv (plans_of tensors) (transform_content ops W) (g, \<lambda>_. None)"
    by (rule lut_reachable_inv [OF reach plans_of_by_key])
  then have dat: "data_inv (plans_of tensors) (transform_content ops W) (g, \<lambda>_. None)" by (simp add: lut_inv_def)
  have bound: "\<And>t i. g_tensor_extra g t = Some i \<Longrightarrow> i < length (g_extras g)"
    using data_invD(3,4) [OF dat] by auto
  show ?thesis
  proof (cases "transform_plan (tensors tid)")
    case (Plan p)
    have plan: "plans_of tensors tid = Some p" by (simp add: plans_of_def Plan)
    have type: "ttype (tensors tid) = GGML_TYPE_IFAIRY \<or> ttype (tensors tid) = GGML_TYPE_IFAIRY64"
      using Plan by (auto simp: transform_plan_def split: ggml_type.splits)
    show ?thesis
    proof (cases "has_packed g tid")
      case True
      then show ?thesis using reach type by (auto simp: ggml_ifairy_lut_transform_tensor_def)
    next
      case False
      show ?thesis
      proof (cases "transform_lookup tid p g")
        case (Some g')
        then obtain e :: lut_entry where e: "g' = attach tid p (en_buffer e) (Some (en_buffer e)) g"
          using False by (auto simp: transform_lookup_def split: option.splits)
        have "?R (g', \<lambda>_. None)" by (rule lut_reachable.step [OF reach], rule lut_step.hit [of _ 0 _ tid p]) (simp_all add: plan Some)
        then show ?thesis using False Some type Plan has_packed_attach [OF bound]
          by (auto simp: ggml_ifairy_lut_transform_tensor_def e)
      next
        case None
        then have miss: "cache_hit g p = None" using False by (auto simp: transform_lookup_def split: option.splits)
        show ?thesis
        proof (cases "transform_content ops W (plan_key p) = None \<or> \<not> alloc \<and> \<not> malloc")
          case True
          then show ?thesis using False reach type Plan \<open>transform_lookup tid p g = None\<close>
            by (auto simp: ggml_ifairy_lut_transform_tensor_def packable_def split: option.splits)
        next
          case room: False
          then obtain c where Some: "transform_content ops W (plan_key p) = Some c" by auto
          obtain b g1 where al: "transform_alloc p alloc c g = (b, g1)" by fastforce
          let ?T = "(\<lambda>_. None)((0::nat) := Some (Missed tid))"
          have g1: "has_packed g1 = has_packed g" "\<And>t. g_tensor_extra g1 t = g_tensor_extra g t"
              "g_extras g1 = g_extras g" "cache_hit g1 p = None"
            using al miss by (auto simp: transform_alloc_def has_packed_def fun_eq_iff cache_hit_def split: option.splits)
          obtain g2 where g2_def: "g2 = (if alloc \<and> g_cache g1 (plan_key p) = None
                then g1\<lparr>g_cache := (g_cache g1)(plan_key p := Some \<lparr>en_buffer = b, en_size = plan_total p\<rparr>)\<rparr> else g1)"
            by blast
          have pub: "transform_publish tid p b alloc g1 = Some (attach tid p b (if alloc then Some b else None) g2)"
            using False g1(1,4) unfolding transform_publish_def g2_def Let_def by simp
          have g2: "g_tensor_extra g2 = g_tensor_extra g1" "g_extras g2 = g_extras g1" "has_packed g2 = has_packed g"
            using g1(1) by (simp_all add: g2_def fun_eq_iff)
          have "?R (g, ?T)"
            by (rule lut_reachable.step [OF reach], rule lut_step.miss [of _ _ _ tid p])
              (simp_all add: plan \<open>transform_lookup tid p g = None\<close>)
          then have "?R (g1, ?T(0 := Some (Built tid b alloc)))"
            by (rule lut_reachable.step, intro lut_step.build [where p = p and c = c and backend = alloc]) (use plan Some al in simp_all)
          then have "?R (attach tid p b (if alloc then Some b else None) g2, ?T(0 := Some (Built tid b alloc), 0 := None))"
            by (rule lut_reachable.step, intro lut_step.publish [where p = p and backend = alloc]) (use plan pub in simp_all)
          moreover have "?T(0 := Some (Built tid b alloc), 0 := None) = (\<lambda>_. None)" by auto
          ultimately have reach': "?R (attach tid p b (if alloc then Some b else None) g2, \<lambda>_. None)" by simp
          have "has_packed g t \<Longrightarrow> has_packed (attach tid p b (if alloc then Some b else None) g2) t"
            "has_packed (attach tid p b (if alloc then Some b else None) g2) tid" for t
            using has_packed_attach [of g2] bound g1(2,3) g2 by auto
          then show ?thesis using False type Plan room Some al pub reach' \<open>transform_lookup tid p g = None\<close>
            by (auto simp: ggml_ifairy_lut_transform_tensor_def)
        qed
      qed
    qed
  qed (use noabort reach in \<open>auto simp: ggml_ifairy_lut_transform_tensor_def packable_def\<close>)
qed

text \<open>
  C6: however the calls of several threads interleave, every packed pointer a tensor carries
  refers to a live buffer with the packed form of that tensor's weights, and no thread's final
  section frees a buffer that is not live.
\<close>

theorem lut_extras_valid:
  assumes "lut_reachable (plans_of tensors) (transform_content ops W) (g, T)"
  shows "(\<forall>tid i b off. g_tensor_extra g tid = Some i \<longrightarrow> ex_packed (g_extras g ! i) = Some (b, off) \<longrightarrow>
      (\<exists>p buf. transform_plan (tensors tid) = Plan p \<and> off = plan_aligned p \<and> g_mem g b = Some buf \<and>
        transform_content ops W (plan_key p) = Some (buf_content buf))) \<and>
    (\<forall>th tid b backend p. T th = Some (Built tid b backend) \<longrightarrow> transform_plan (tensors tid) = Plan p \<longrightarrow>
      transform_publish tid p b backend g \<noteq> None)"
proof -
  have inv: "lut_inv (plans_of tensors) (transform_content ops W) (g, T)"
    by (rule lut_reachable_inv [OF assms plans_of_by_key])
  then have dat: "data_inv (plans_of tensors) (transform_content ops W) (g, T)" by (simp add: lut_inv_def)
  show ?thesis
  proof (intro conjI allI impI)
    fix tid i b off assume "g_tensor_extra g tid = Some i" "ex_packed (g_extras g ! i) = Some (b, off)"
    then have "\<exists>p. plans_of tensors tid = Some p \<and> off = plan_aligned p \<and>
        holds_content (transform_content ops W) g b (plan_key p)"
      using data_invD(4) [OF dat, of tid i] by (auto simp: extra_ok_def)
    then show "\<exists>p buf. transform_plan (tensors tid) = Plan p \<and> off = plan_aligned p \<and> g_mem g b = Some buf \<and>
        transform_content ops W (plan_key p) = Some (buf_content buf)"
      by (auto simp: plans_of_def holds_content_def split: plan_result.splits)
  next
    fix th tid b backend p
    assume "T th = Some (Built tid b backend)" "transform_plan (tensors tid) = Plan p"
    then show "transform_publish tid p b backend g \<noteq> None"
      using publish_inv [OF plans_of_by_key inv, of th tid b backend p] by (auto simp: plans_of_def)
  qed
qed

text \<open>
  C7: with no call in progress, the release function frees every live buffer exactly once
  (an invalid free would make it fail), in whatever order it walks the cache.
\<close>

theorem lut_free_complete:
  assumes "lut_reachable (plans_of tensors) (transform_content ops W) (g, \<lambda>_. None)"
    and "distinct order" "set order = dom (g_cache g)"
  shows "\<exists>g'. ggml_ifairy_lut_free order g = Some g' \<and> g_mem g' = (\<lambda>_. None) \<and> g_cache g' = (\<lambda>_. None) \<and>
    (\<forall>ex\<in>set (g_extras g'). ex_packed ex = None \<and> ex_indexes ex = None)"
  using lut_free_releases [OF lut_reachable_inv [OF assms(1) plans_of_by_key] assms(2,3)] .

text \<open>A run with one tensor: a thread builds, publishes, and the cache is then released.\<close>

definition example_tensor :: "nat ggml_tensor" where
  "example_tensor = dense_tensor GGML_TYPE_IFAIRY 256 1 1 1 0"

definition example_weights :: "nat \<Rightarrow> weight_data" where
  "example_weights = (\<lambda>_. Weights256 [\<lparr>qs = replicate 64 0x1B, d_real = 2, d_imag = 3\<rparr>])"

definition example_plan :: lut_plan where
  "example_plan = \<lparr>plan_key = \<lparr>key_data = 0, key_nbytes = ggml_nbytes example_tensor, key_k = 256, key_rows = 1,
     key_type = GGML_TYPE_IFAIRY\<rparr>, plan_keep = True, plan_index_bytes = 128, plan_aligned = 128, plan_packed = 1152\<rparr>"

lemma example_plan: "transform_plan example_tensor = Plan example_plan"
  by (simp add: transform_plan_def transform_plan_impl_def example_tensor_def example_plan_def Let_def
      ggml_ifairy_2w_get_index_info_def ggml_ifairy_2w_index_buffer_size_def GGML_PAD_def)

definition example_published :: "real lut_content \<Rightarrow> real lut_content lut_globals" where
  "example_published c = the (transform_publish 0 example_plan 0 True (snd (transform_alloc example_plan True c lut_init)))"

lemma example_content:
  "\<exists>c. transform_content (exact_ops (\<lambda>h. 0) (\<lambda>_. 0) (\<lambda>_. 0)) example_weights (plan_key example_plan) = Some c"
proof -
  have "\<exists>idx. ggml_ifairy_2w_encode [\<lparr>qs = replicate 64 0x1B, d_real = 2, d_imag = 3\<rparr>] 256 1 (replicate 128 0) = Some (True, idx)"
    using ifairy.encode_ok [of 256 1 "replicate 128 0"] by auto
  then show ?thesis by (auto simp: transform_content_def example_weights_def example_plan_def)
qed

lemma example_run:
  assumes "transform_content ops W (plan_key example_plan) = Some c"
  shows "lut_reachable (plans_of (\<lambda>_. example_tensor)) (transform_content ops W) (example_published c, \<lambda>_. None)"
    and "g_cache (example_published c) (plan_key example_plan) = Some \<lparr>en_buffer = 0, en_size = 1280\<rparr>"
    and "dom (g_cache (example_published c)) = {plan_key example_plan}"
proof -
  let ?R = "lut_reachable (plans_of (\<lambda>_. example_tensor)) (transform_content ops W)"
  have plan: "plans_of (\<lambda>_. example_tensor) 0 = Some example_plan" by (simp add: plans_of_def example_plan)
  have "?R (lut_init, (\<lambda>_. None)(0 := Some (Missed 0)))"
    by (rule lut_reachable.step [OF lut_reachable.start], rule lut_step.miss [of _ _ _ _ example_plan])
      (simp_all add: plan transform_lookup_def has_packed_def cache_hit_def lut_init_def)
  then have "?R (snd (transform_alloc example_plan True c lut_init), (\<lambda>_. None)(0 := Some (Missed 0), 0 := Some (Built 0 0 True)))"
    by (rule lut_reachable.step, intro lut_step.build [of _ _ _ _ example_plan])
      (simp_all add: plan assms transform_alloc_def lut_init_def)
  moreover have pub: "transform_publish 0 example_plan 0 True (snd (transform_alloc example_plan True c lut_init)) =
      Some (example_published c)"
    by (simp add: example_published_def transform_publish_def transform_alloc_def lut_init_def has_packed_def cache_hit_def Let_def)
  ultimately have "?R (example_published c, (\<lambda>_. None)(0 := Some (Missed 0), 0 := Some (Built 0 0 True), 0 := None))"
    by (intro lut_reachable.step [OF _ lut_step.publish [of _ _ 0 0 True _ example_plan]]) (simp_all add: plan)
  moreover have "(\<lambda>_. None)(0 := Some (Missed 0), 0 := Some (Built 0 0 True), 0 := None) = (\<lambda>_. None)" by auto
  ultimately show "?R (example_published c, \<lambda>_. None)" by simp
  have "g_cache (example_published c) = [plan_key example_plan \<mapsto> \<lparr>en_buffer = 0, en_size = plan_total example_plan\<rparr>]"
    by (simp add: example_published_def transform_publish_def transform_alloc_def lut_init_def has_packed_def cache_hit_def Let_def)
  then show "g_cache (example_published c) (plan_key example_plan) = Some \<lparr>en_buffer = 0, en_size = 1280\<rparr>"
    and "dom (g_cache (example_published c)) = {plan_key example_plan}"
    by (simp_all add: plan_total_def example_plan_def)
qed

lemma lut_extras_valid_witness:
  "\<exists>c. (\<forall>tid i b off. g_tensor_extra (example_published c) tid = Some i \<longrightarrow>
        ex_packed (g_extras (example_published c) ! i) = Some (b, off) \<longrightarrow>
      (\<exists>p buf. transform_plan example_tensor = Plan p \<and> off = plan_aligned p \<and> g_mem (example_published c) b = Some buf \<and>
        transform_content (exact_ops (\<lambda>h. 0) (\<lambda>_. 0) (\<lambda>_. 0)) example_weights (plan_key p) = Some (buf_content buf))) \<and>
    (\<forall>(th :: nat) tid b backend p. (None :: lut_phase option) = Some (Built tid b backend) \<longrightarrow> transform_plan example_tensor = Plan p \<longrightarrow>
      transform_publish tid p b backend (example_published c) \<noteq> None)"
proof -
  obtain c where c: "transform_content (exact_ops (\<lambda>h. 0) (\<lambda>_. 0) (\<lambda>_. 0)) example_weights (plan_key example_plan) = Some c"
    using example_content by blast
  show ?thesis using lut_extras_valid [OF example_run(1) [OF c]] by (intro exI [where x = c])
qed

lemma lut_free_complete_witness:
  "\<exists>c g'. ggml_ifairy_lut_free [plan_key example_plan] (example_published c) = Some g' \<and>
     g_mem g' = (\<lambda>_. None) \<and> g_cache g' = (\<lambda>_. None) \<and>
     (\<forall>ex\<in>set (g_extras g'). ex_packed ex = None \<and> ex_indexes ex = None)"
proof -
  obtain c where c: "transform_content (exact_ops (\<lambda>h. 0) (\<lambda>_. 0) (\<lambda>_. 0)) example_weights (plan_key example_plan) = Some c"
    using example_content by blast
  show ?thesis
    using lut_free_complete [OF example_run(1) [OF c], of "[plan_key example_plan]"]
    by (intro exI [where x = c]) (simp add: example_run(3) [OF c])
qed

end
