(* ===== verification/IFairy_Direct.thy ===== *)
theory IFairy_Direct
  imports IFairy_Equiv Ggml_Tensor
begin

text \<open>
  The kernels without tables: the row dot product \<open>ggml_vec_dot_ifairy_q16_K_generic\<close>
  (\<open>ggml-cpu/quants.c\<close>), the activation quantisers (\<open>ggml-quants.c\<close> and the LUT-safe one of
  \<open>legacy-ifairy/wide-linear-lut.cpp\<close>) and the fused operator
  \<open>y = (U0 + U1) x + (W0 + W1) conj(x) + bias\<close> of \<open>legacy-ifairy/wide-linear.cpp\<close> (portable
  branch). Floats are a parameter, as in \<^verbatim>\<open>IFairy_Lut\<close>: the theorems relate each kernel to a reference
  over the same float operations, and the reference over the reals to the complex product.
\<close>

section \<open>Quantisation of activations\<close>

text \<open>
  The float primitives of the quantisers; an activation word is a pair of bf16 halves.
  \<open>q_max\<close> is the macro \<open>MAX\<close>, \<open>std_max\<close> the C++ function, \<open>q_fmax\<close> is \<open>fmaxf\<close>; \<open>q_nearest_int\<close>,
  \<open>q_round_int\<close> and \<open>q_lrint\<close> are \<open>nearest_int\<close> and the integers of \<open>roundf\<close> and \<open>lrintf\<close>.
\<close>

record 'f quant_ops =
  q_abs :: "'f \<Rightarrow> 'f"
  q_less :: "'f \<Rightarrow> 'f \<Rightarrow> bool"
  q_fmax :: "'f \<Rightarrow> 'f \<Rightarrow> 'f"
  q_div :: "'f \<Rightarrow> 'f \<Rightarrow> 'f"
  q_mult :: "'f \<Rightarrow> 'f \<Rightarrow> 'f"
  q_nearest_int :: "'f \<Rightarrow> int"
  q_round_int :: "'f \<Rightarrow> int"
  q_lrint :: "'f \<Rightarrow> int"
  q_lit :: "real \<Rightarrow> 'f"
  q_of_bf16 :: "u16 \<Rightarrow> 'f"
  q_to_half :: "'f \<Rightarrow> u16"

definition q_max :: "'f quant_ops \<Rightarrow> 'f \<Rightarrow> 'f \<Rightarrow> 'f" where
  "q_max q a b = (if q_less q b a then a else b)"

definition std_max :: "'f quant_ops \<Rightarrow> 'f \<Rightarrow> 'f \<Rightarrow> 'f" where
  "std_max q a b = (if q_less q a b then b else a)"

definition clamp_s8 :: "int \<Rightarrow> int \<Rightarrow> u8" where
  "clamp_s8 bound v = word_of_int (max (- bound) (min bound v))"

definition quantize_block_ifairy64_q16 :: "'f quant_ops \<Rightarrow> (u16 \<times> u16) list \<Rightarrow> block_ifairy64_q16" where
  "quantize_block_ifairy64_q16 q x =
     (let max_real = fold (\<lambda>w m. q_max q m (q_abs q (q_of_bf16 q (fst w)))) x (q_lit q (1 / 100000));
          max_imag = fold (\<lambda>w m. q_max q m (q_abs q (q_of_bf16 q (snd w)))) x (q_lit q (1 / 100000));
          iscale_real = q_div q (q_lit q 127) max_real;
          iscale_imag = q_div q (q_lit q 127) max_imag
      in \<lparr>x64_real = map (\<lambda>w. clamp_s8 127 (q_nearest_int q (q_mult q iscale_real (q_of_bf16 q (fst w))))) x,
          x64_imag = map (\<lambda>w. clamp_s8 127 (q_nearest_int q (q_mult q iscale_imag (q_of_bf16 q (snd w))))) x,
          xd64_real = q_to_half q (q_div q (q_lit q 1) iscale_real),
          xd64_imag = q_to_half q (q_div q (q_lit q 1) iscale_imag)\<rparr>)"

definition quantize_row_ifairy64_q16_ref ::
    "'f quant_ops \<Rightarrow> (nat \<Rightarrow> u16 \<times> u16) \<Rightarrow> nat \<Rightarrow> block_ifairy64_q16 list" where
  "quantize_row_ifairy64_q16_ref q x k =
     map (\<lambda>i. quantize_block_ifairy64_q16 q (map (\<lambda>j. x (i * 64 + j)) [0..<64])) [0..<k div 64]"

text \<open>The quantiser of the table path keeps every value within \<open>\<plusminus>63\<close> (scalar branch).\<close>

definition ggml_ifairy64_lut_quantize_block_q16_64 ::
    "'f quant_ops \<Rightarrow> (u16 \<times> u16) list \<Rightarrow> block_ifairy64_q16" where
  "ggml_ifairy64_lut_quantize_block_q16_64 q x =
     (let max_real = fold (\<lambda>w m. std_max q m (q_abs q (q_of_bf16 q (fst w)))) x (q_lit q (1 / 100000));
          max_imag = fold (\<lambda>w m. std_max q m (q_abs q (q_of_bf16 q (snd w)))) x (q_lit q (1 / 100000));
          iscale_real = q_div q (q_lit q 63) max_real;
          iscale_imag = q_div q (q_lit q 63) max_imag
      in \<lparr>x64_real = map (\<lambda>w. clamp_s8 63 (q_round_int q (q_mult q iscale_real (q_of_bf16 q (fst w))))) x,
          x64_imag = map (\<lambda>w. clamp_s8 63 (q_round_int q (q_mult q iscale_imag (q_of_bf16 q (snd w))))) x,
          xd64_real = q_to_half q (q_div q (q_lit q 1) iscale_real),
          xd64_imag = q_to_half q (q_div q (q_lit q 1) iscale_imag)\<rparr>)"

section \<open>The row dot product\<close>

definition phase_code :: "u8 \<Rightarrow> int \<times> int" where
  "phase_code code =
     (if code = 0 then (-1, 0) else if code = 1 then (1, 0) else if code = 2 then (0, -1) else (0, 1))"

definition dot_block_sums :: "u8 list \<Rightarrow> u8 list \<Rightarrow> u8 list \<Rightarrow> int \<times> int \<times> int \<times> int" where
  "dot_block_sums w_ptr x_r_ptr x_i_ptr =
     fold (\<lambda>j (sum_ac, sum_ad, sum_bc, sum_bd).
        let chunk = j div 64; lane = j mod 16; part = j div 16 mod 4;
            byte_idx = chunk * 16 + lane; bit_off = part * 2;
            code = drop_bit bit_off (w_ptr ! byte_idx) AND 3;
            (wr, wi) = phase_code code;
            xr = ggml_ifairy_u8_to_s8_int (x_r_ptr ! j); xi = ggml_ifairy_u8_to_s8_int (x_i_ptr ! j)
        in (sum_ac + xr * wr, sum_ad + xi * wr, sum_bc + xr * wi, sum_bd + xi * wi)) [0..<256] (0, 0, 0, 0)"

definition ggml_vec_dot_ifairy_q16_K_generic ::
    "'f float_ops \<Rightarrow> nat \<Rightarrow> block_ifairy list \<Rightarrow> block_ifairy_q16 list \<Rightarrow> u16 \<times> u16" where
  "ggml_vec_dot_ifairy_q16_K_generic ops n w x =
     (let coeff_w_real = f_of_half ops (d_real (w ! 0));
          coeff_w_imag = f_of_half ops (d_imag (w ! 0));
          (acc_ac_xr, acc_bd_xi, acc_bc_xr, acc_ad_xi) =
            fold (\<lambda>i (ac, bd, bc, ad).
               let (sum_ac, sum_ad, sum_bc, sum_bd) = dot_block_sums (qs (w ! i)) (x_real (x ! i)) (x_imag (x ! i));
                   xr = f_of_half ops (xd_real (x ! i)); xi = f_of_half ops (xd_imag (x ! i))
               in (f_add ops ac (f_mul ops xr (f_of_int ops sum_ac)), f_add ops bd (f_mul ops xi (f_of_int ops sum_bd)),
                   f_add ops bc (f_mul ops xr (f_of_int ops sum_bc)), f_add ops ad (f_mul ops xi (f_of_int ops sum_ad))))
              [0..<n div 256] (f_zero ops, f_zero ops, f_zero ops, f_zero ops)
      in (f_to_bf16 ops (f_add ops (f_mul ops coeff_w_real acc_ac_xr) (f_mul ops coeff_w_imag acc_bd_xi)),
          f_to_bf16 ops (f_sub ops (f_mul ops coeff_w_imag acc_bc_xr) (f_mul ops coeff_w_real acc_ad_xi))))"

section \<open>The fused wide linear operator\<close>

definition ggml_ifairy64_fuse_accumulate_block_scalar ::
    "block_ifairy64 \<Rightarrow> block_ifairy64_q16 \<Rightarrow> int \<times> int \<times> int \<times> int \<Rightarrow> int \<times> int \<times> int \<times> int" where
  "ggml_ifairy64_fuse_accumulate_block_scalar w x =
     fold (\<lambda>part. fold (\<lambda>lane (s0, s1, s2, s3).
        let idx = part * 16 + lane;
            code = drop_bit (2 * part) (qs64 w ! lane) AND 3;
            xr = ggml_ifairy_u8_to_s8_int (x64_real x ! idx);
            xi = ggml_ifairy_u8_to_s8_int (x64_imag x ! idx)
        in if code = 0 then (s0 - xr, s1 - xi, s2, s3)
           else if code = 1 then (s0 + xr, s1 + xi, s2, s3)
           else if code = 2 then (s0, s1, s2 - xr, s3 - xi)
           else (s0, s1, s2 + xr, s3 + xi)) [0..<16]) [0..<4]"

definition ggml_ifairy64_fuse_apply_branch ::
    "'f float_ops \<Rightarrow> block_ifairy64 \<Rightarrow> block_ifairy64_q16 \<Rightarrow> int \<times> int \<times> int \<times> int \<Rightarrow> bool \<Rightarrow> 'f \<times> 'f \<Rightarrow> 'f \<times> 'f" where
  "ggml_ifairy64_fuse_apply_branch ops w x = (\<lambda>(s0, s1, s2, s3) conjugate_input (re, im).
     let xr = f_of_half ops (xd64_real x); xi = f_of_half ops (xd64_imag x);
         wr = f_of_half ops (d_real64 w); wi = f_of_half ops (d_imag64 w);
         p = (\<lambda>s a b. f_mul ops (f_of_int ops s) (f_mul ops a b))
     in if conjugate_input
        then (f_add ops re (f_add ops (p s0 xr wr) (p s3 xi wi)), f_add ops im (f_sub ops (p s2 xr wi) (p s1 xi wr)))
        else (f_add ops re (f_sub ops (p s0 xr wr) (p s3 xi wi)), f_add ops im (f_add ops (p s2 xr wi) (p s1 xi wr))))"

definition ggml_ifairy64_fuse_accumulate_four ::
    "'f float_ops \<Rightarrow> block_ifairy64 list \<Rightarrow> block_ifairy64 list \<Rightarrow> block_ifairy64 list \<Rightarrow> block_ifairy64 list \<Rightarrow>
     block_ifairy64_q16 list \<Rightarrow> nat \<Rightarrow> 'f \<times> 'f \<Rightarrow> 'f \<times> 'f" where
  "ggml_ifairy64_fuse_accumulate_four ops u0 u1 w0 w1 x blocks =
     fold (\<lambda>ib acc.
        let bsums = (\<lambda>w. ggml_ifairy64_fuse_accumulate_block_scalar (w ! ib) (x ! ib) (0, 0, 0, 0));
            acc = ggml_ifairy64_fuse_apply_branch ops (u0 ! ib) (x ! ib) (bsums u0) False acc;
            acc = ggml_ifairy64_fuse_apply_branch ops (u1 ! ib) (x ! ib) (bsums u1) False acc;
            acc = ggml_ifairy64_fuse_apply_branch ops (w0 ! ib) (x ! ib) (bsums w0) True acc
        in ggml_ifairy64_fuse_apply_branch ops (w1 ! ib) (x ! ib) (bsums w1) True acc) [0..<blocks]"

text \<open>A tensor of floats is its typed content: the value stored at a byte offset.\<close>

definition ggml_ifairy_wide_linear_bias_at ::
    "((nat \<Rightarrow> 'f), 'x) ggml_tensor_scheme \<Rightarrow> nat \<Rightarrow> nat \<Rightarrow> nat \<Rightarrow> nat \<Rightarrow> 'f" where
  "ggml_ifairy_wide_linear_bias_at bias i0 i1 i2 i3 =
     tdata bias (i0 mod nat (ne bias 0) * nb bias 0 + i1 mod nat (ne bias 1) * nb bias 1 +
                 i2 mod nat (ne bias 2) * nb bias 2 + i3 mod nat (ne bias 3) * nb bias 3)"

record 'f wide_linear =
  wl_x :: "(nat \<Rightarrow> u16 \<times> u16) ggml_tensor"
  wl_u0 :: "block_ifairy64 list ggml_tensor"
  wl_u1 :: "block_ifairy64 list ggml_tensor"
  wl_w0 :: "block_ifairy64 list ggml_tensor"
  wl_w1 :: "block_ifairy64 list ggml_tensor"
  wl_bias :: "(nat \<Rightarrow> 'f) ggml_tensor option"
  wl_dst :: "(nat \<Rightarrow> u16 \<times> u16) ggml_tensor"

definition wide_linear_asserts :: "'f wide_linear \<Rightarrow> nat option \<Rightarrow> bool" where
  "wide_linear_asserts op ws \<longleftrightarrow>
     (let x = wl_x op; dst = wl_dst op; u_s0 = wl_u0 op; u_s1 = wl_u1 op; w_s0 = wl_w0 op; w_s1 = wl_w1 op;
          K = nat (ne x 0); act_rows = nat (ggml_nrows x);
          q_bytes = GGML_PAD (act_rows * ggml_row_size GGML_TYPE_IFAIRY64_Q16 K) 64
      in ttype x = GGML_TYPE_F32 \<and> ttype dst = GGML_TYPE_F32 \<and> ttype u_s0 = GGML_TYPE_IFAIRY64 \<and>
         ttype u_s0 = ttype u_s1 \<and> ttype u_s0 = ttype w_s0 \<and> ttype u_s0 = ttype w_s1 \<and>
         ggml_is_contiguous x \<and> ggml_is_contiguous dst \<and> ggml_is_contiguous u_s0 \<and> ggml_is_contiguous u_s1 \<and>
         ggml_is_contiguous w_s0 \<and> ggml_is_contiguous w_s1 \<and>
         ne u_s0 2 = 1 \<and> ne u_s0 3 = 1 \<and> ne u_s1 2 = 1 \<and> ne u_s1 3 = 1 \<and>
         ne w_s0 2 = 1 \<and> ne w_s0 3 = 1 \<and> ne w_s1 2 = 1 \<and> ne w_s1 3 = 1 \<and>
         (case wl_bias op of None \<Rightarrow> True | Some bias \<Rightarrow> ttype bias = GGML_TYPE_F32) \<and>
         ne x 0 mod 64 = 0 \<and> (case ws of None \<Rightarrow> False | Some n \<Rightarrow> q_bytes \<le> n))"

text \<open>First phase of a worker: it quantises the rows \<open>ith\<close>, \<open>ith + nth\<close>, \dots of \<open>x\<close>.\<close>

definition wide_linear_quantize ::
    "'f quant_ops \<Rightarrow> 'f wide_linear \<Rightarrow> nat \<Rightarrow> nat \<Rightarrow> (nat \<Rightarrow> block_ifairy64_q16 list) \<Rightarrow> nat \<Rightarrow> block_ifairy64_q16 list" where
  "wide_linear_quantize q op nthr ith =
     (let x = wl_x op; K = nat (ne x 0) in
      fold (\<lambda>ir q_x. q_x(ir := quantize_row_ifairy64_q16_ref q (\<lambda>j. tdata x (ir * nb x 1 + j * 4)) K))
        (strided ith nthr (nat (ggml_nrows x))))"

definition wide_linear_element ::
    "'f float_ops \<Rightarrow> 'f wide_linear \<Rightarrow> (nat \<Rightarrow> block_ifairy64_q16 list) \<Rightarrow> nat \<Rightarrow> nat \<Rightarrow> u16 \<times> u16" where
  "wide_linear_element ops op q_x row act_row =
     (let x = wl_x op; M = nat (ne (wl_dst op) 0); blocks = nat (ne x 0) div 64;
          i1 = act_row mod nat (ne x 1); i2 = act_row div nat (ne x 1) mod nat (ne x 2);
          i3 = act_row div nat (ne x 1 * ne x 2);
          row_of = (\<lambda>w. drop (row * blocks) (tdata w));
          acc = ggml_ifairy64_fuse_accumulate_four ops (row_of (wl_u0 op)) (row_of (wl_u1 op))
                  (row_of (wl_w0 op)) (row_of (wl_w1 op)) (q_x act_row) blocks (f_zero ops, f_zero ops);
          acc = (case wl_bias op of None \<Rightarrow> acc
                 | Some bias \<Rightarrow> (f_add ops (fst acc) (ggml_ifairy_wide_linear_bias_at bias row i1 i2 i3),
                                f_add ops (snd acc) (ggml_ifairy_wide_linear_bias_at bias (row + M) i1 i2 i3)))
      in (f_to_bf16 ops (fst acc), f_to_bf16 ops (snd acc)))"

text \<open>Second phase: the worker's contiguous range of the \<open>M * act_rows\<close> outputs.\<close>

definition wide_linear_rows ::
    "'f float_ops \<Rightarrow> 'f wide_linear \<Rightarrow> (nat \<Rightarrow> block_ifairy64_q16 list) \<Rightarrow> nat \<Rightarrow> nat \<Rightarrow>
     (nat \<Rightarrow> u16 \<times> u16) \<Rightarrow> nat \<Rightarrow> u16 \<times> u16" where
  "wide_linear_rows ops op q_x nthr ith =
     (let dst = wl_dst op; M = nat (ne dst 0); total = M * nat (ggml_nrows (wl_x op));
          begn = total * ith div nthr; end' = total * (ith + 1) div nthr
      in fold (\<lambda>index out. out(index div M * nb dst 1 + index mod M * nb dst 0 :=
                 wide_linear_element ops op q_x (index mod M) (index div M))) [begn..<end'])"

text \<open>All workers, in the orders \<open>ws1\<close> before and \<open>ws2\<close> after the barrier; \<open>None\<close> is a failed assertion.\<close>

definition ggml_compute_forward_ifairy_wide_linear_w2 ::
    "'f float_ops \<Rightarrow> 'f quant_ops \<Rightarrow> 'f wide_linear \<Rightarrow> nat option \<Rightarrow> nat \<Rightarrow> nat list \<Rightarrow> nat list \<Rightarrow>
     (nat \<Rightarrow> block_ifairy64_q16 list) \<Rightarrow> (nat \<Rightarrow> u16 \<times> u16) option" where
  "ggml_compute_forward_ifairy_wide_linear_w2 ops q op ws nthr ws1 ws2 wdata =
     (if wide_linear_asserts op ws
      then (let q_x = fold (wide_linear_quantize q op nthr) ws1 wdata
            in Some (fold (wide_linear_rows ops op q_x nthr) ws2 (tdata (wl_dst op))))
      else None)"

section \<open>Quantised values stay in range\<close>

lemma s8_of_int:
  assumes "-128 \<le> c" "c < 128"
  shows "ggml_ifairy_u8_to_s8_int (word_of_int c) = c"
proof (cases "0 \<le> c")
  case True
  then have "c mod 256 = c" using assms by simp
  with assms True show ?thesis
    by (simp add: ggml_ifairy_u8_to_s8_int_def word_less_alt uint_word_of_int)
next
  case False
  have "c mod 256 = (c + 256) mod 256" by simp
  also have "\<dots> = c + 256" using assms False by (intro mod_pos_pos_trivial) auto
  finally show ?thesis using assms False
    by (simp add: ggml_ifairy_u8_to_s8_int_def word_less_alt uint_word_of_int)
qed

lemma clamp_s8_value:
  assumes "0 \<le> b" "b \<le> 127"
  shows "ggml_ifairy_u8_to_s8_int (clamp_s8 b v) = max (- b) (min b v)"
  unfolding clamp_s8_def by (rule s8_of_int) (use assms in auto)

text \<open>C3: the quantiser of the table path only produces values the tables represent exactly.\<close>

theorem lut_quantizer_safe:
  assumes "i < length x"
  shows "lut_safe (ggml_ifairy_u8_to_s8_int (x64_real (ggml_ifairy64_lut_quantize_block_q16_64 q x) ! i)) \<and>
    lut_safe (ggml_ifairy_u8_to_s8_int (x64_imag (ggml_ifairy64_lut_quantize_block_q16_64 q x) ! i))"
  using assms
  by (simp_all add: ggml_ifairy64_lut_quantize_block_q16_64_def Let_def clamp_s8_value lut_safe_def)

section \<open>The dot product in exact arithmetic\<close>

lemma phase_code_signs: "c < 4 \<Longrightarrow> phase_code c = (sgn_r c, sgn_i c)"
  using u8_less_4_cases [of c] by (auto simp: phase_code_def sgn_r_def sgn_i_def)

lemma dot_block_sums_exact:
  assumes "i < length w"
  shows "dot_block_sums (qs (w ! i)) xr xi =
    (let c = (\<lambda>j. ggml_ifairy_read_code w (i * 256 + j));
         r = (\<lambda>j. ggml_ifairy_u8_to_s8_int (xr ! j)); m = (\<lambda>j. ggml_ifairy_u8_to_s8_int (xi ! j))
     in (\<Sum>j<256. sgn_r (c j) * r j, \<Sum>j<256. sgn_r (c j) * m j, \<Sum>j<256. sgn_i (c j) * r j, \<Sum>j<256. sgn_i (c j) * m j))"
proof -
  have code: "drop_bit (j div 16 mod 4 * 2) (qs (w ! i) ! (j div 64 * 16 + j mod 16)) AND 3 =
      ggml_ifairy_read_code w (i * 256 + j)" if "j < 256" for j
    using that by (simp add: ggml_ifairy_read_code_def Let_def mult.commute)
  have "dot_block_sums (qs (w ! i)) xr xi =
      fold (\<lambda>j (s0, s1, s2, s3).
        (s0 + sgn_r (ggml_ifairy_read_code w (i * 256 + j)) * ggml_ifairy_u8_to_s8_int (xr ! j),
         s1 + sgn_r (ggml_ifairy_read_code w (i * 256 + j)) * ggml_ifairy_u8_to_s8_int (xi ! j),
         s2 + sgn_i (ggml_ifairy_read_code w (i * 256 + j)) * ggml_ifairy_u8_to_s8_int (xr ! j),
         s3 + sgn_i (ggml_ifairy_read_code w (i * 256 + j)) * ggml_ifairy_u8_to_s8_int (xi ! j))) [0..<256] (0, 0, 0, 0)"
    unfolding dot_block_sums_def
    by (rule fold_cong [OF refl refl])
      (simp add: code phase_code_signs Let_def fun_eq_iff mult.commute [of "ggml_ifairy_u8_to_s8_int _"])
  then show ?thesis by (simp add: fold_quad sum_list_upt lessThan_atLeast0 Let_def)
qed

text \<open>The row whose blocks all carry the scales of its first block.\<close>

definition first_scales :: "block_ifairy list \<Rightarrow> block_ifairy list" where
  "first_scales w = map (\<lambda>b. b\<lparr>d_real := d_real (w ! 0), d_imag := d_imag (w ! 0)\<rparr>) w"

lemma read_code_first_scales:
  assumes "b < length w" "j < 256"
  shows "ggml_ifairy_read_code (first_scales w) (b * 256 + j) = ggml_ifairy_read_code w (b * 256 + j)"
  using assms by (simp add: ggml_ifairy_read_code_def first_scales_def Let_def)

lemma first_scales_nth [simp]:
  assumes "b < length w"
  shows "d_real (first_scales w ! b) = d_real (w ! 0)" and "d_imag (first_scales w ! b) = d_imag (w ! 0)"
  using assms by (simp_all add: first_scales_def)

lemma fold_quad_real:
  fixes f0 f1 f2 f3 :: "'b \<Rightarrow> real"
  shows "fold (\<lambda>b (s0, s1, s2, s3). (s0 + f0 b, s1 + f1 b, s2 + f2 b, s3 + f3 b)) bs (a0, a1, a2, a3) =
   (a0 + (\<Sum>b\<leftarrow>bs. f0 b), a1 + (\<Sum>b\<leftarrow>bs. f1 b), a2 + (\<Sum>b\<leftarrow>bs. f2 b), a3 + (\<Sum>b\<leftarrow>bs. f3 b))"
  by (induction bs arbitrary: a0 a1 a2 a3) auto

text \<open>
  The dot product over the program's float operations: the block sums are integers computed from the codes, the
  accumulation over the blocks and the scales of the first weight block are those of the code.
\<close>

definition vec_dot_reference :: "'f float_ops \<Rightarrow> nat \<Rightarrow> block_ifairy list \<Rightarrow> block_ifairy_q16 list \<Rightarrow> 'f \<times> 'f" where
  "vec_dot_reference ops n w x =
     (let c = (\<lambda>b j. ggml_ifairy_read_code w (b * 256 + j)); re = (\<lambda>b j. act_re x (b * 256 + j)); im = (\<lambda>b j. act_im x (b * 256 + j));
          wr = f_of_half ops (d_real (w ! 0)); wi = f_of_half ops (d_imag (w ! 0));
          (ac, bd, bc, ad) = fold (\<lambda>b (ac, bd, bc, ad).
             let xr = f_of_half ops (xd_real (x ! b)); xi = f_of_half ops (xd_imag (x ! b))
             in (f_add ops ac (f_mul ops xr (f_of_int ops (\<Sum>j<256. sgn_r (c b j) * re b j))),
                 f_add ops bd (f_mul ops xi (f_of_int ops (\<Sum>j<256. sgn_i (c b j) * im b j))),
                 f_add ops bc (f_mul ops xr (f_of_int ops (\<Sum>j<256. sgn_i (c b j) * re b j))),
                 f_add ops ad (f_mul ops xi (f_of_int ops (\<Sum>j<256. sgn_r (c b j) * im b j)))))
           [0..<n div 256] (f_zero ops, f_zero ops, f_zero ops, f_zero ops)
      in (f_add ops (f_mul ops wr ac) (f_mul ops wi bd), f_sub ops (f_mul ops wi bc) (f_mul ops wr ad)))"

lemma vec_dot_reference_exact:
  assumes "256 dvd n" and "n div 256 \<le> length w"
  shows "vec_dot_reference (exact_ops half of_bf to_bf) n w x = (let z = ifairy_product half (first_scales w) x n in (Re z, Im z))"
proof -
  define nb' where "nb' = n div 256"
  have n: "n = nb' * 256" using assms(1) by (simp add: nb'_def)
  have len: "b < length w" if "b < nb'" for b using that assms(2) by (simp add: nb'_def)
  let ?c = "\<lambda>b j. ggml_ifairy_read_code w (b * 256 + j)"
  let ?wr = "half (d_real (w ! 0))" and ?wi = "half (d_imag (w ! 0))"
  let ?ac = "\<lambda>b. \<Sum>j<256. sgn_r (?c b j) * act_re x (b * 256 + j)"
  let ?ad = "\<lambda>b. \<Sum>j<256. sgn_r (?c b j) * act_im x (b * 256 + j)"
  let ?bc = "\<lambda>b. \<Sum>j<256. sgn_i (?c b j) * act_re x (b * 256 + j)"
  let ?bd = "\<lambda>b. \<Sum>j<256. sgn_i (?c b j) * act_im x (b * 256 + j)"
  let ?xr = "\<lambda>b. half (xd_real (x ! b))" and ?xi = "\<lambda>b. half (xd_imag (x ! b))"
  have F: "fold (\<lambda>b (ac, bd, bc, ad). (ac + ?xr b * real_of_int (?ac b), bd + ?xi b * real_of_int (?bd b),
                   bc + ?xr b * real_of_int (?bc b), ad + ?xi b * real_of_int (?ad b))) [0..<nb'] (0, 0, 0, 0) =
     (\<Sum>b<nb'. ?xr b * real_of_int (?ac b), \<Sum>b<nb'. ?xi b * real_of_int (?bd b),
      \<Sum>b<nb'. ?xr b * real_of_int (?bc b), \<Sum>b<nb'. ?xi b * real_of_int (?ad b))"
    by (simp only: fold_quad_real sum_list_upt lessThan_atLeast0 add_0_left)
  have acc: "vec_dot_reference (exact_ops half of_bf to_bf) n w x =
     (?wr * (\<Sum>b<nb'. ?xr b * real_of_int (?ac b)) + ?wi * (\<Sum>b<nb'. ?xi b * real_of_int (?bd b)),
      ?wi * (\<Sum>b<nb'. ?xr b * real_of_int (?bc b)) - ?wr * (\<Sum>b<nb'. ?xi b * real_of_int (?ad b)))"
    unfolding vec_dot_reference_def exact_ops_def float_ops.simps nb'_def [symmetric] Let_def F
    by (simp only: prod.case)
  have "ifairy_product half (first_scales w) x n = (\<Sum>b<nb'.
    Complex (real_of_int (?ac b) * (?xr b * ?wr) + real_of_int (?bd b) * (?xi b * ?wi))
      (real_of_int (?bc b) * (?xr b * ?wi) + real_of_int (- ?ad b) * (?xi b * ?wr)))"
    unfolding ifairy_product_blocks [OF n]
    by (rule sum.cong [OF refl]) (simp add: read_code_first_scales len sum_negf)
  then show ?thesis
    unfolding acc by (simp add: Let_def Re_sum Im_sum sum.distrib sum_distrib_left sum_subtractf algebra_simps)
qed

text \<open>
  C4: over any float operations the row dot product is the bf16 rounding of \<^verbatim>\<open>vec_dot_reference\<close>: the block sums are
  the exact integer sums of the activations signed by the codes, and the accumulation is the same float accumulation.
  Over the reals the reference is the complex product of the row whose blocks all carry the scales of its first block
  with the conjugated activations; blocks whose own scales differ are read with the wrong scales.
\<close>

theorem vec_dot_correct:
  assumes "256 dvd n" and "n div 256 \<le> length w"
  shows "ggml_vec_dot_ifairy_q16_K_generic ops n w x =
      (let (re, im) = vec_dot_reference ops n w x in (f_to_bf16 ops re, f_to_bf16 ops im)) \<and>
    vec_dot_reference (exact_ops half of_bf to_bf) n w x = (let z = ifairy_product half (first_scales w) x n in (Re z, Im z))"
proof (rule conjI [OF _ vec_dot_reference_exact [OF assms]])
  have sums: "dot_block_sums (qs (w ! b)) (x_real (x ! b)) (x_imag (x ! b)) =
      (\<Sum>j<256. sgn_r (ggml_ifairy_read_code w (b * 256 + j)) * act_re x (b * 256 + j),
       \<Sum>j<256. sgn_r (ggml_ifairy_read_code w (b * 256 + j)) * act_im x (b * 256 + j),
       \<Sum>j<256. sgn_i (ggml_ifairy_read_code w (b * 256 + j)) * act_re x (b * 256 + j),
       \<Sum>j<256. sgn_i (ggml_ifairy_read_code w (b * 256 + j)) * act_im x (b * 256 + j))"
    if "b < n div 256" for b
    using that assms(2) by (simp add: dot_block_sums_exact Let_def act_re_def act_im_def)
  have "fold (\<lambda>i (ac, bd, bc, ad).
               let (sum_ac, sum_ad, sum_bc, sum_bd) = dot_block_sums (qs (w ! i)) (x_real (x ! i)) (x_imag (x ! i));
                   xr = f_of_half ops (xd_real (x ! i)); xi = f_of_half ops (xd_imag (x ! i))
               in (f_add ops ac (f_mul ops xr (f_of_int ops sum_ac)), f_add ops bd (f_mul ops xi (f_of_int ops sum_bd)),
                   f_add ops bc (f_mul ops xr (f_of_int ops sum_bc)), f_add ops ad (f_mul ops xi (f_of_int ops sum_ad))))
              [0..<n div 256] (f_zero ops, f_zero ops, f_zero ops, f_zero ops) =
     fold (\<lambda>b (ac, bd, bc, ad).
             let xr = f_of_half ops (xd_real (x ! b)); xi = f_of_half ops (xd_imag (x ! b))
             in (f_add ops ac (f_mul ops xr (f_of_int ops (\<Sum>j<256. sgn_r (ggml_ifairy_read_code w (b * 256 + j)) * act_re x (b * 256 + j)))),
                 f_add ops bd (f_mul ops xi (f_of_int ops (\<Sum>j<256. sgn_i (ggml_ifairy_read_code w (b * 256 + j)) * act_im x (b * 256 + j)))),
                 f_add ops bc (f_mul ops xr (f_of_int ops (\<Sum>j<256. sgn_i (ggml_ifairy_read_code w (b * 256 + j)) * act_re x (b * 256 + j)))),
                 f_add ops ad (f_mul ops xi (f_of_int ops (\<Sum>j<256. sgn_r (ggml_ifairy_read_code w (b * 256 + j)) * act_im x (b * 256 + j))))))
           [0..<n div 256] (f_zero ops, f_zero ops, f_zero ops, f_zero ops)"
    by (rule fold_cong [OF refl refl]) (simp add: sums Let_def fun_eq_iff)
  then show "ggml_vec_dot_ifairy_q16_K_generic ops n w x =
      (let (re, im) = vec_dot_reference ops n w x in (f_to_bf16 ops re, f_to_bf16 ops im))"
    unfolding ggml_vec_dot_ifairy_q16_K_generic_def vec_dot_reference_def Let_def by (simp only: split: prod.split) simp
qed

text \<open>Where all blocks carry the same scales the row is its own \<^verbatim>\<open>first_scales\<close>.\<close>

lemma first_scales_uniform:
  assumes "\<And>b. b \<in> set w \<Longrightarrow> d_real b = d_real (w ! 0) \<and> d_imag b = d_imag (w ! 0)"
  shows "first_scales w = w"
  unfolding first_scales_def
  by (rule map_idI) (use assms in \<open>auto intro!: block_ifairy.equality\<close>)

section \<open>The wide linear operator in exact arithmetic\<close>

definition ifairy64_weight :: "(u16 \<Rightarrow> real) \<Rightarrow> block_ifairy64 list \<Rightarrow> nat \<Rightarrow> complex" where
  "ifairy64_weight half bs i =
     (let b = bs ! (i div 64); c = ggml_ifairy64_read_code bs i
      in Complex (real_of_int (sgn_r c) * half (d_real64 b)) (real_of_int (sgn_i c) * half (d_imag64 b)))"

definition ifairy64_activation :: "(u16 \<Rightarrow> real) \<Rightarrow> block_ifairy64_q16 list \<Rightarrow> nat \<Rightarrow> complex" where
  "ifairy64_activation half xs i =
     (let x = xs ! (i div 64)
      in Complex (half (xd64_real x) * real_of_int (ggml_ifairy_u8_to_s8_int (x64_real x ! (i mod 64))))
                 (half (xd64_imag x) * real_of_int (ggml_ifairy_u8_to_s8_int (x64_imag x ! (i mod 64)))))"

text \<open>\<open>(U0 + U1) x + (W0 + W1) conj(x)\<close> for one row.\<close>

definition wide_product ::
    "(u16 \<Rightarrow> real) \<Rightarrow> block_ifairy64 list \<Rightarrow> block_ifairy64 list \<Rightarrow> block_ifairy64 list \<Rightarrow> block_ifairy64 list \<Rightarrow>
     block_ifairy64_q16 list \<Rightarrow> nat \<Rightarrow> complex" where
  "wide_product half u0 u1 w0 w1 x k =
     (\<Sum>i<k. (ifairy64_weight half u0 i + ifairy64_weight half u1 i) * ifairy64_activation half x i +
             (ifairy64_weight half w0 i + ifairy64_weight half w1 i) * cnj (ifairy64_activation half x i))"

lemma quad_ext: "(\<And>a b c d. f (a, b, c, d) = g (a, b, c, d)) \<Longrightarrow> f = g"
  by (rule ext) (metis prod.exhaust)

lemma fuse_block_sums:
  "ggml_ifairy64_fuse_accumulate_block_scalar (w ! b) x (0, 0, 0, 0) =
    (let c = (\<lambda>j. ggml_ifairy64_read_code w (b * 64 + j));
         r = (\<lambda>j. ggml_ifairy_u8_to_s8_int (x64_real x ! j)); m = (\<lambda>j. ggml_ifairy_u8_to_s8_int (x64_imag x ! j))
     in (\<Sum>j<64. sgn_r (c j) * r j, \<Sum>j<64. sgn_r (c j) * m j, \<Sum>j<64. sgn_i (c j) * r j, \<Sum>j<64. sgn_i (c j) * m j))"
proof -
  let ?c = "\<lambda>j. ggml_ifairy64_read_code w (b * 64 + j)"
  let ?r = "\<lambda>j. ggml_ifairy_u8_to_s8_int (x64_real x ! j)" and ?m = "\<lambda>j. ggml_ifairy_u8_to_s8_int (x64_imag x ! j)"
  have code: "drop_bit (2 * part) (qs64 (w ! b) ! lane) AND 3 = ?c (part * 16 + lane)"
    if "part < 4" "lane < 16" for part lane
  proof -
    have "part * 16 + lane < 64" using that by simp
    then have "(b * 64 + (part * 16 + lane)) div 64 = b" "b * 64 + (part * 16 + lane) - b * 64 = part * 16 + lane"
      by simp_all
    moreover have "(part * 16 + lane) mod 16 = lane" "(part * 16 + lane) div 16 = part" using that by simp_all
    ultimately show ?thesis by (simp only: ggml_ifairy64_read_code_def Let_def)
  qed
  have step: "(let idx = part * 16 + lane;
            code = drop_bit (2 * part) (qs64 (w ! b) ! lane) AND 3;
            xr = ggml_ifairy_u8_to_s8_int (x64_real x ! idx);
            xi = ggml_ifairy_u8_to_s8_int (x64_imag x ! idx)
        in if code = 0 then (s0 - xr, s1 - xi, s2, s3)
           else if code = 1 then (s0 + xr, s1 + xi, s2, s3)
           else if code = 2 then (s0, s1, s2 - xr, s3 - xi)
           else (s0, s1, s2 + xr, s3 + xi)) =
      (let j = part * 16 + lane in (s0 + sgn_r (?c j) * ?r j, s1 + sgn_r (?c j) * ?m j,
        s2 + sgn_i (?c j) * ?r j, s3 + sgn_i (?c j) * ?m j))" (is "?L = ?R")
    if "part < 4" "lane < 16" for part lane s0 s1 s2 s3
  proof -
    have "?c (part * 16 + lane) < 4" by simp
    then have "?c (part * 16 + lane) = 0 \<or> ?c (part * 16 + lane) = 1 \<or> ?c (part * 16 + lane) = 2 \<or>
        ?c (part * 16 + lane) = 3" by (rule u8_less_4_cases)
    then show ?thesis unfolding code [OF that] Let_def by (elim disjE) (simp_all add: sgn_r_def sgn_i_def)
  qed
  have inner: "fold (\<lambda>lane (s0, s1, s2, s3).
        let idx = part * 16 + lane;
            code = drop_bit (2 * part) (qs64 (w ! b) ! lane) AND 3;
            xr = ggml_ifairy_u8_to_s8_int (x64_real x ! idx);
            xi = ggml_ifairy_u8_to_s8_int (x64_imag x ! idx)
        in if code = 0 then (s0 - xr, s1 - xi, s2, s3)
           else if code = 1 then (s0 + xr, s1 + xi, s2, s3)
           else if code = 2 then (s0, s1, s2 - xr, s3 - xi)
           else (s0, s1, s2 + xr, s3 + xi)) [0..<16] (a0, a1, a2, a3) =
      (a0 + (\<Sum>l<16. sgn_r (?c (part * 16 + l)) * ?r (part * 16 + l)),
       a1 + (\<Sum>l<16. sgn_r (?c (part * 16 + l)) * ?m (part * 16 + l)),
       a2 + (\<Sum>l<16. sgn_i (?c (part * 16 + l)) * ?r (part * 16 + l)),
       a3 + (\<Sum>l<16. sgn_i (?c (part * 16 + l)) * ?m (part * 16 + l)))" (is "fold ?f _ _ = ?S")
    if "part < 4" for part a0 a1 a2 a3
  proof -
    let ?g = "\<lambda>l (s0, s1, s2, s3).
        (s0 + sgn_r (?c (part * 16 + l)) * ?r (part * 16 + l), s1 + sgn_r (?c (part * 16 + l)) * ?m (part * 16 + l),
         s2 + sgn_i (?c (part * 16 + l)) * ?r (part * 16 + l), s3 + sgn_i (?c (part * 16 + l)) * ?m (part * 16 + l))"
    have "?f l = ?g l" if "l < 16" for l
      by (rule quad_ext) (unfold prod.case step [OF \<open>part < 4\<close> \<open>l < 16\<close>], simp only: Let_def)
    then have "fold ?f [0..<16] (a0, a1, a2, a3) = fold ?g [0..<16] (a0, a1, a2, a3)"
      by (intro fold_cong [OF refl refl]) simp
    then show ?thesis by (simp add: fold_quad sum_list_upt lessThan_atLeast0)
  qed
  have "ggml_ifairy64_fuse_accumulate_block_scalar (w ! b) x (0, 0, 0, 0) =
      fold (\<lambda>part (a0, a1, a2, a3).
       (a0 + (\<Sum>l<16. sgn_r (?c (part * 16 + l)) * ?r (part * 16 + l)),
        a1 + (\<Sum>l<16. sgn_r (?c (part * 16 + l)) * ?m (part * 16 + l)),
        a2 + (\<Sum>l<16. sgn_i (?c (part * 16 + l)) * ?r (part * 16 + l)),
        a3 + (\<Sum>l<16. sgn_i (?c (part * 16 + l)) * ?m (part * 16 + l)))) [0..<4] (0, 0, 0, 0)"
    unfolding ggml_ifairy64_fuse_accumulate_block_scalar_def
    by (rule fold_cong [OF refl refl], rule quad_ext, simp only: set_upt atLeastLessThan_iff inner prod.case)
  then show ?thesis
    using sum_blocks [of _ 4 16, where 'a = int]
    by (simp add: fold_quad sum_list_upt lessThan_atLeast0 [symmetric] Let_def)
qed

lemma exact_block_product_plain:
  fixes r i :: "nat \<Rightarrow> int"
  shows "(\<Sum>j\<in>A. Complex (real_of_int (sgn_r (c j)) * wr) (real_of_int (sgn_i (c j)) * wi) * Complex (lr * real_of_int (r j)) (li * real_of_int (i j))) =
    Complex (real_of_int (\<Sum>j\<in>A. sgn_r (c j) * r j) * (lr * wr) - real_of_int (\<Sum>j\<in>A. sgn_i (c j) * i j) * (li * wi))
      (real_of_int (\<Sum>j\<in>A. sgn_i (c j) * r j) * (lr * wi) + real_of_int (\<Sum>j\<in>A. sgn_r (c j) * i j) * (li * wr))"
  by (rule complex_eqI)
    (simp_all add: sum_distrib_left sum_distrib_right sum.distrib sum_subtractf sum_negf algebra_simps)

text \<open>The contribution of block \<open>b\<close> of one weight matrix, as a complex number.\<close>

definition branch_term :: "(u16 \<Rightarrow> real) \<Rightarrow> block_ifairy64 list \<Rightarrow> block_ifairy64_q16 list \<Rightarrow> bool \<Rightarrow> nat \<Rightarrow> complex" where
  "branch_term half w x cj b = (\<Sum>j<64. ifairy64_weight half w (b * 64 + j) *
     (if cj then cnj (ifairy64_activation half x (b * 64 + j)) else ifairy64_activation half x (b * 64 + j)))"

text \<open>
  The fused product over the program's float operations: the sums of a branch are integers computed from the codes.
\<close>

definition branch_reference ::
    "'f float_ops \<Rightarrow> block_ifairy64 list \<Rightarrow> block_ifairy64_q16 list \<Rightarrow> nat \<Rightarrow> bool \<Rightarrow> 'f \<times> 'f \<Rightarrow> 'f \<times> 'f" where
  "branch_reference ops w x b cj acc =
     (let c = (\<lambda>j. ggml_ifairy64_read_code w (b * 64 + j));
          r = (\<lambda>j. ggml_ifairy_u8_to_s8_int (x64_real (x ! b) ! j)); m = (\<lambda>j. ggml_ifairy_u8_to_s8_int (x64_imag (x ! b) ! j))
      in ggml_ifairy64_fuse_apply_branch ops (w ! b) (x ! b)
           (\<Sum>j<64. sgn_r (c j) * r j, \<Sum>j<64. sgn_r (c j) * m j, \<Sum>j<64. sgn_i (c j) * r j, \<Sum>j<64. sgn_i (c j) * m j) cj acc)"

definition wide_reference ::
    "'f float_ops \<Rightarrow> block_ifairy64 list \<Rightarrow> block_ifairy64 list \<Rightarrow> block_ifairy64 list \<Rightarrow> block_ifairy64 list \<Rightarrow>
     block_ifairy64_q16 list \<Rightarrow> nat \<Rightarrow> 'f \<times> 'f" where
  "wide_reference ops u0 u1 w0 w1 x blocks =
     fold (\<lambda>b acc. branch_reference ops w1 x b True (branch_reference ops w0 x b True
                     (branch_reference ops u1 x b False (branch_reference ops u0 x b False acc))))
       [0..<blocks] (f_zero ops, f_zero ops)"

lemma accumulate_four_reference:
  "ggml_ifairy64_fuse_accumulate_four ops u0 u1 w0 w1 x blocks (f_zero ops, f_zero ops) = wide_reference ops u0 u1 w0 w1 x blocks"
  by (simp only: ggml_ifairy64_fuse_accumulate_four_def wide_reference_def branch_reference_def fuse_block_sums Let_def)

lemma apply_branch_exact:
  "ggml_ifairy64_fuse_apply_branch (exact_ops half of_bf to_bf) (w ! b) (x ! b)
     (ggml_ifairy64_fuse_accumulate_block_scalar (w ! b) (x ! b) (0, 0, 0, 0)) cj (Re c, Im c) =
   (Re (c + branch_term half w x cj b), Im (c + branch_term half w x cj b))"
proof -
  let ?c = "\<lambda>j. ggml_ifairy64_read_code w (b * 64 + j)"
  let ?r = "\<lambda>j. ggml_ifairy_u8_to_s8_int (x64_real (x ! b) ! j)" and ?m = "\<lambda>j. ggml_ifairy_u8_to_s8_int (x64_imag (x ! b) ! j)"
  have w: "ifairy64_weight half w (b * 64 + j) = Complex (real_of_int (sgn_r (?c j)) * half (d_real64 (w ! b)))
      (real_of_int (sgn_i (?c j)) * half (d_imag64 (w ! b)))" if "j < 64" for j
    using that by (simp add: ifairy64_weight_def Let_def)
  have x: "ifairy64_activation half x (b * 64 + j) = Complex (half (xd64_real (x ! b)) * real_of_int (?r j))
      (half (xd64_imag (x ! b)) * real_of_int (?m j))" if "j < 64" for j
    using that by (simp add: ifairy64_activation_def Let_def)
  show ?thesis
  proof (cases cj)
    case True
    have "branch_term half w x cj b = (\<Sum>j<64. Complex (real_of_int (sgn_r (?c j)) * half (d_real64 (w ! b)))
       (real_of_int (sgn_i (?c j)) * half (d_imag64 (w ! b))) * cnj (Complex (half (xd64_real (x ! b)) * real_of_int (?r j))
      (half (xd64_imag (x ! b)) * real_of_int (?m j))))"
      unfolding branch_term_def using True by (intro sum.cong [OF refl]) (simp only: w x lessThan_iff if_True)
    then show ?thesis unfolding exact_block_product fuse_block_sums ggml_ifairy64_fuse_apply_branch_def Let_def exact_ops_def
      using True by (simp del: of_int_sum of_int_mult add: sum_negf)
  next
    case False
    have "branch_term half w x cj b = (\<Sum>j<64. Complex (real_of_int (sgn_r (?c j)) * half (d_real64 (w ! b)))
       (real_of_int (sgn_i (?c j)) * half (d_imag64 (w ! b))) * Complex (half (xd64_real (x ! b)) * real_of_int (?r j))
      (half (xd64_imag (x ! b)) * real_of_int (?m j)))"
      unfolding branch_term_def using False by (intro sum.cong [OF refl]) (simp only: w x lessThan_iff if_False)
    then show ?thesis unfolding exact_block_product_plain fuse_block_sums ggml_ifairy64_fuse_apply_branch_def Let_def exact_ops_def
      using False by (simp del: of_int_sum of_int_mult)
  qed
qed

lemma wide_reference_exact:
  "wide_reference (exact_ops half of_bf to_bf) u0 u1 w0 w1 x blocks =
   (let z = wide_product half u0 u1 w0 w1 x (blocks * 64) in (Re z, Im z))"
proof -
  have zero: "f_zero (exact_ops half of_bf to_bf) = 0" by (simp add: exact_ops_def)
  have four: "branch_term half u0 x False b + branch_term half u1 x False b + branch_term half w0 x True b +
      branch_term half w1 x True b = (\<Sum>j<64. (ifairy64_weight half u0 (b * 64 + j) + ifairy64_weight half u1 (b * 64 + j)) *
          ifairy64_activation half x (b * 64 + j) +
        (ifairy64_weight half w0 (b * 64 + j) + ifairy64_weight half w1 (b * 64 + j)) *
          cnj (ifairy64_activation half x (b * 64 + j)))" for b
    by (simp add: branch_term_def sum.distrib distrib_right)
  let ?T = "\<lambda>b. branch_term half u0 x False b + branch_term half u1 x False b + branch_term half w0 x True b +
      branch_term half w1 x True b"
  have "ggml_ifairy64_fuse_accumulate_four (exact_ops half of_bf to_bf) u0 u1 w0 w1 x blocks (Re 0, Im 0) =
    (Re (\<Sum>b<blocks. ?T b), Im (\<Sum>b<blocks. ?T b))"
  proof (induction blocks)
    case 0
    show ?case by (simp add: ggml_ifairy64_fuse_accumulate_four_def)
  next
    case (Suc n)
    have "ggml_ifairy64_fuse_accumulate_four (exact_ops half of_bf to_bf) u0 u1 w0 w1 x (Suc n) (Re 0, Im 0) =
      (let s = (\<Sum>b<n. ?T b) + branch_term half u0 x False n + branch_term half u1 x False n +
         branch_term half w0 x True n + branch_term half w1 x True n in (Re s, Im s))"
      using Suc.IH unfolding ggml_ifairy64_fuse_accumulate_four_def
      by (simp only: upt_Suc_append fold_append comp_apply fold_simps Let_def apply_branch_exact zero_le)
    then show ?case by (simp only: Let_def sum.lessThan_Suc add.assoc)
  qed
  then show ?thesis
    unfolding four wide_product_def sum_blocks accumulate_four_reference [symmetric] zero by (simp add: Let_def)
qed

text \<open>The quantised activations after the first phase, whatever the order of the workers.\<close>

lemma wide_linear_quantized:
  assumes "0 < nthr" "set ws = {..<nthr}" "act_row < nat (ggml_nrows (wl_x op))"
  shows "fold (wide_linear_quantize q op nthr) ws wdata act_row =
    quantize_row_ifairy64_q16_ref q (\<lambda>j. tdata (wl_x op) (act_row * nb (wl_x op) 1 + j * 4)) (nat (ne (wl_x op) 0))"
proof -
  have inj: "inj (\<lambda>i :: nat. i)" by (simp add: inj_def)
  show ?thesis
    unfolding wide_linear_quantize_def Let_def by (rule fold_worker_strided [OF inj assms])
qed

text \<open>The element of the reference: the fused product, the bias added last, both parts rounded to bf16.\<close>

definition wide_linear_value :: "'f float_ops \<Rightarrow> 'f wide_linear \<Rightarrow> block_ifairy64_q16 list \<Rightarrow> nat \<Rightarrow> nat \<Rightarrow> u16 \<times> u16" where
  "wide_linear_value ops op xq row act_row =
     (let x = wl_x op; blocks = nat (ne x 0) div 64; row_of = (\<lambda>w. drop (row * blocks) (tdata w));
          i1 = act_row mod nat (ne x 1); i2 = act_row div nat (ne x 1) mod nat (ne x 2);
          i3 = act_row div nat (ne x 1 * ne x 2);
          (re, im) = wide_reference ops (row_of (wl_u0 op)) (row_of (wl_u1 op)) (row_of (wl_w0 op)) (row_of (wl_w1 op)) xq blocks
      in case wl_bias op of
           None \<Rightarrow> (f_to_bf16 ops re, f_to_bf16 ops im)
         | Some bias \<Rightarrow> (f_to_bf16 ops (f_add ops re (ggml_ifairy_wide_linear_bias_at bias row i1 i2 i3)),
                        f_to_bf16 ops (f_add ops im (ggml_ifairy_wide_linear_bias_at bias (row + nat (ne (wl_dst op) 0)) i1 i2 i3))))"

lemma wide_linear_element_value: "wide_linear_element ops op q_x row act_row = wide_linear_value ops op (q_x act_row) row act_row"
  unfolding wide_linear_element_def wide_linear_value_def accumulate_four_reference Let_def
  by (simp split: option.split prod.split)

text \<open>A run of the fused operator: every output slot of a dense output has the value of the reference.\<close>

lemma wide_linear_run:
  assumes asserts: "wide_linear_asserts op ws" and workers: "0 < nthr" "set ws1 = {..<nthr}" "set ws2 = {..<nthr}"
    and dense: "nb (wl_dst op) 0 = 4" "nb (wl_dst op) 1 = 4 * nat (ne (wl_dst op) 0)"
  shows "\<exists>out. ggml_compute_forward_ifairy_wide_linear_w2 ops q op ws nthr ws1 ws2 wdata = Some out \<and>
    (\<forall>act_row<nat (ggml_nrows (wl_x op)). \<forall>row<nat (ne (wl_dst op) 0).
      out (act_row * nb (wl_dst op) 1 + row * nb (wl_dst op) 0) = wide_linear_value ops op
        (quantize_row_ifairy64_q16_ref q (\<lambda>j. tdata (wl_x op) (act_row * nb (wl_x op) 1 + j * 4)) (nat (ne (wl_x op) 0))) row act_row)"
proof (intro exI conjI allI impI)
  let ?M = "nat (ne (wl_dst op) 0)" and ?N = "nat (ggml_nrows (wl_x op))" and ?K = "nat (ne (wl_x op) 0)"
  let ?q = "fold (wide_linear_quantize q op nthr) ws1 wdata"
  let ?out = "fold (wide_linear_rows ops op ?q nthr) ws2 (tdata (wl_dst op))"
  show "ggml_compute_forward_ifairy_wide_linear_w2 ops q op ws nthr ws1 ws2 wdata = Some ?out"
    using asserts by (simp add: ggml_compute_forward_ifairy_wide_linear_w2_def Let_def)
  fix act_row row assume ar: "act_row < ?N" and row: "row < ?M"
  have key: "index div ?M * nb (wl_dst op) 1 + index mod ?M * nb (wl_dst op) 0 = 4 * index" for index
    unfolding dense by (metis (no_types, lifting) add_mult_distrib2 div_mult_mod_eq mult.assoc mult.commute)
  have "act_row * ?M + row < (act_row + 1) * ?M" using row by simp
  also have "\<dots> \<le> ?N * ?M" using ar by (intro mult_le_mono1) simp
  finally have less: "act_row * ?M + row < ?M * ?N" by (simp add: mult.commute)
  have inj: "inj (\<lambda>i :: nat. 4 * i)" by (simp add: inj_def)
  have "?out (4 * (act_row * ?M + row)) = wide_linear_element ops op ?q ((act_row * ?M + row) mod ?M) ((act_row * ?M + row) div ?M)"
    unfolding wide_linear_rows_def Let_def key by (rule fold_worker_ranges [OF inj workers(1,3) less])
  then have "?out (4 * (act_row * ?M + row)) = wide_linear_element ops op ?q row act_row"
    using row by simp
  moreover have "act_row * nb (wl_dst op) 1 + row * nb (wl_dst op) 0 = 4 * (act_row * ?M + row)"
    unfolding dense by (simp add: algebra_simps)
  ultimately show "?out (act_row * nb (wl_dst op) 1 + row * nb (wl_dst op) 0) = wide_linear_value ops op
      (quantize_row_ifairy64_q16_ref q (\<lambda>j. tdata (wl_x op) (act_row * nb (wl_x op) 1 + j * 4)) ?K) row act_row"
    by (simp only: wide_linear_element_value wide_linear_quantized [OF workers(1,2) ar])
qed

text \<open>
  C5: over any float operations, with any number of workers and in any order before and after the barrier, the fused
  operator on a dense output leaves in every output slot the value of the reference on the activations of its row, quantised
  by the code's quantiser: the four branches with exact integer block sums, accumulated as in the code, the bias, bf16.
  Over the reals the accumulated reference is \<open>(U0 + U1) x + (W0 + W1) conj(x)\<close> of the quantised activations.
\<close>

theorem wide_linear_correct:
  assumes asserts: "wide_linear_asserts op ws" and workers: "0 < nthr" "set ws1 = {..<nthr}" "set ws2 = {..<nthr}"
    and dense: "nb (wl_dst op) 0 = 4" "nb (wl_dst op) 1 = 4 * nat (ne (wl_dst op) 0)"
  shows "\<exists>out. ggml_compute_forward_ifairy_wide_linear_w2 ops q op ws nthr ws1 ws2 wdata = Some out \<and>
    (\<forall>act_row<nat (ggml_nrows (wl_x op)). \<forall>row<nat (ne (wl_dst op) 0).
      let xq = quantize_row_ifairy64_q16_ref q (\<lambda>j. tdata (wl_x op) (act_row * nb (wl_x op) 1 + j * 4)) (nat (ne (wl_x op) 0));
          blocks = nat (ne (wl_x op) 0) div 64; row_of = (\<lambda>w. drop (row * blocks) (tdata w))
      in out (act_row * nb (wl_dst op) 1 + row * nb (wl_dst op) 0) = wide_linear_value ops op xq row act_row \<and>
         wide_reference (exact_ops half of_bf to_bf) (row_of (wl_u0 op)) (row_of (wl_u1 op)) (row_of (wl_w0 op)) (row_of (wl_w1 op)) xq blocks =
           (let z = wide_product half (row_of (wl_u0 op)) (row_of (wl_u1 op)) (row_of (wl_w0 op)) (row_of (wl_w1 op)) xq (nat (ne (wl_x op) 0))
            in (Re z, Im z)))"
proof -
  let ?K = "nat (ne (wl_x op) 0)"
  have K: "?K div 64 * 64 = ?K"
  proof -
    have "ne (wl_x op) 0 mod 64 = 0" using asserts by (simp add: wide_linear_asserts_def Let_def)
    then have "64 dvd ?K" by (metis dvd_0_right dvd_eq_mod_eq_0 int_dvd_int_iff nat_0_iff nat_int_comparison(3)
        int_nat_eq of_nat_numeral linorder_not_le)
    then show ?thesis by simp
  qed
  show ?thesis
    using wide_linear_run [OF asserts workers dense, of ops q wdata] by (simp add: Let_def wide_reference_exact K)
qed

section \<open>Concrete instances\<close>

definition real_quant_ops :: "real quant_ops" where
  "real_quant_ops = \<lparr>q_abs = abs, q_less = (<), q_fmax = max, q_div = (/), q_mult = (*), q_nearest_int = (\<lambda>x. \<lfloor>x + 1 / 2\<rfloor>),
     q_round_int = (\<lambda>x. \<lfloor>x + 1 / 2\<rfloor>), q_lrint = (\<lambda>x. \<lfloor>x + 1 / 2\<rfloor>), q_lit = id, q_of_bf16 = (\<lambda>b. real_of_int (sint b)), q_to_half = (\<lambda>_. 1)\<rparr>"

lemma lut_quantizer_safe_witness:
  "lut_safe (ggml_ifairy_u8_to_s8_int (x64_real (ggml_ifairy64_lut_quantize_block_q16_64 real_quant_ops [(5, 2), (7, 1)]) ! 1)) \<and>
   lut_safe (ggml_ifairy_u8_to_s8_int (x64_imag (ggml_ifairy64_lut_quantize_block_q16_64 real_quant_ops [(5, 2), (7, 1)]) ! 1))"
  by (rule lut_quantizer_safe) simp

lemma vec_dot_correct_witness:
  "ggml_vec_dot_ifairy_q16_K_generic (exact_ops (\<lambda>h. real_of_int (sint h)) (\<lambda>_. 0) (\<lambda>r. word_of_int \<lfloor>r\<rfloor>)) 512
     [\<lparr>qs = replicate 64 0x1B, d_real = 2, d_imag = 3\<rparr>, \<lparr>qs = replicate 64 0x55, d_real = 1, d_imag = 1\<rparr>]
     (replicate 2 \<lparr>x_real = replicate 256 3, x_imag = replicate 256 0xFD, xd_real = 1, xd_imag = 2\<rparr>) =
   (let z = ifairy_product (\<lambda>h. real_of_int (sint h))
          (first_scales [\<lparr>qs = replicate 64 0x1B, d_real = 2, d_imag = 3\<rparr>, \<lparr>qs = replicate 64 0x55, d_real = 1, d_imag = 1\<rparr>])
          (replicate 2 \<lparr>x_real = replicate 256 3, x_imag = replicate 256 0xFD, xd_real = 1, xd_imag = 2\<rparr>) 512
    in (word_of_int \<lfloor>Re z\<rfloor>, word_of_int \<lfloor>Im z\<rfloor>))"
proof -
  let ?ops = "exact_ops (\<lambda>h. real_of_int (sint h)) (\<lambda>_. 0) (\<lambda>r. word_of_int \<lfloor>r\<rfloor>)"
  let ?w = "[\<lparr>qs = replicate 64 0x1B, d_real = 2, d_imag = 3\<rparr>, \<lparr>qs = replicate 64 0x55, d_real = 1, d_imag = 1\<rparr>]"
  have "256 dvd (512 :: nat)" "512 div 256 \<le> length ?w" by simp_all
  note main = vec_dot_correct [OF this, where ops = ?ops and half = "\<lambda>h. real_of_int (sint h)" and of_bf = "\<lambda>_. 0"
      and to_bf = "\<lambda>r. word_of_int \<lfloor>r\<rfloor>" and x = "replicate 2 \<lparr>x_real = replicate 256 3, x_imag = replicate 256 0xFD, xd_real = 1, xd_imag = 2\<rparr>"]
  have "f_to_bf16 ?ops = (\<lambda>r. word_of_int \<lfloor>r\<rfloor>)" by (simp add: exact_ops_def)
  then show ?thesis using main by (simp only: Let_def prod.case)
qed

definition wide_linear_example :: "real wide_linear" where
  "wide_linear_example =
     \<lparr>wl_x = dense_tensor GGML_TYPE_F32 64 1 1 1 (\<lambda>a. (word_of_nat a, 3)),
      wl_u0 = dense_tensor GGML_TYPE_IFAIRY64 64 2 1 1 (replicate 2 \<lparr>qs64 = replicate 16 0x1B, d_real64 = 1, d_imag64 = 2\<rparr>),
      wl_u1 = dense_tensor GGML_TYPE_IFAIRY64 64 2 1 1 (replicate 2 \<lparr>qs64 = replicate 16 0x55, d_real64 = 1, d_imag64 = 2\<rparr>),
      wl_w0 = dense_tensor GGML_TYPE_IFAIRY64 64 2 1 1 (replicate 2 \<lparr>qs64 = replicate 16 0xAA, d_real64 = 1, d_imag64 = 2\<rparr>),
      wl_w1 = dense_tensor GGML_TYPE_IFAIRY64 64 2 1 1 (replicate 2 \<lparr>qs64 = replicate 16 0xE4, d_real64 = 1, d_imag64 = 2\<rparr>),
      wl_bias = Some (dense_tensor GGML_TYPE_F32 4 1 1 1 real),
      wl_dst = dense_tensor GGML_TYPE_F32 2 1 1 1 (\<lambda>_. (0, 0))\<rparr>"

lemma wide_linear_correct_witness:
  "\<exists>out. ggml_compute_forward_ifairy_wide_linear_w2 (exact_ops (\<lambda>h. real_of_int (sint h)) (\<lambda>_. 0) (\<lambda>r. word_of_int \<lfloor>r\<rfloor>))
      real_quant_ops wide_linear_example (Some 192) 2 [1, 0] [0, 1] (\<lambda>_. []) = Some out \<and>
    (\<forall>act_row<nat (ggml_nrows (wl_x wide_linear_example)). \<forall>row<nat (ne (wl_dst wide_linear_example) 0).
      let xq = quantize_row_ifairy64_q16_ref real_quant_ops
            (\<lambda>j. tdata (wl_x wide_linear_example) (act_row * nb (wl_x wide_linear_example) 1 + j * 4)) (nat (ne (wl_x wide_linear_example) 0));
          blocks = nat (ne (wl_x wide_linear_example) 0) div 64; row_of = (\<lambda>w. drop (row * blocks) (tdata w))
      in out (act_row * nb (wl_dst wide_linear_example) 1 + row * nb (wl_dst wide_linear_example) 0) =
           wide_linear_value (exact_ops (\<lambda>h. real_of_int (sint h)) (\<lambda>_. 0) (\<lambda>r. word_of_int \<lfloor>r\<rfloor>)) wide_linear_example xq row act_row \<and>
         wide_reference (exact_ops (\<lambda>h. real_of_int (sint h)) (\<lambda>_. 0) (\<lambda>r. word_of_int \<lfloor>r\<rfloor>)) (row_of (wl_u0 wide_linear_example))
             (row_of (wl_u1 wide_linear_example)) (row_of (wl_w0 wide_linear_example)) (row_of (wl_w1 wide_linear_example)) xq blocks =
           (let z = wide_product (\<lambda>h. real_of_int (sint h)) (row_of (wl_u0 wide_linear_example)) (row_of (wl_u1 wide_linear_example))
                   (row_of (wl_w0 wide_linear_example)) (row_of (wl_w1 wide_linear_example)) xq (nat (ne (wl_x wide_linear_example) 0))
            in (Re z, Im z)))"
proof (rule wide_linear_correct)
  show "wide_linear_asserts wide_linear_example (Some 192)"
    by (simp add: wide_linear_asserts_def wide_linear_example_def Let_def dense_tensor_contiguous ggml_nrows_def
        ggml_row_size_def GGML_PAD_def)
qed (auto simp: wide_linear_example_def)

end
