(* ===== verification/IFairy_Cpu.thy ===== *)
theory IFairy_Cpu
  imports IFairy_Transform IFairy_Direct
begin

text \<open>
  The legacy CPU backend of iFairy tensors: which operators it takes, what it asks of the work
  buffer, when it packs weights, and the product it computes
  (\<open>legacy-ifairy/legacy-ifairy-cpu.cpp\<close>, \<open>legacy-ifairy/lut/ggml-ifairy-lut.cpp\<close> and \<open>.h\<close>,
  \<open>legacy-ifairy/wide-linear-lut.cpp\<close>), as built with \<open>GGML_USE_LEGACY_IFAIRY_CPU_LUT\<close> and without
  vector extensions. \<open>getenv\<close> is the environment argument; \<open>arch\<close> says whether the build targets
  x86-64 or AArch64 with NEON.
\<close>

section \<open>Environment and admission\<close>

definition ggml_ifairy_env_enabled :: "environment \<Rightarrow> string \<Rightarrow> bool" where
  "ggml_ifairy_env_enabled env name = (case env name of None \<Rightarrow> False | Some v \<Rightarrow> v \<noteq> ''0'')"

datatype ggml_legacy_ifairy_lut_impl =
    GGML_LEGACY_IFAIRY_LUT_IMPL_AUTO | GGML_LEGACY_IFAIRY_LUT_IMPL_LUT16 | GGML_LEGACY_IFAIRY_LUT_IMPL_LUT_C

record ggml_legacy_ifairy_lut_config =
  dbg :: bool
  lut_enabled :: bool
  impl :: ggml_legacy_ifairy_lut_impl

definition ggml_legacy_ifairy_lut_impl_from_env :: "environment \<Rightarrow> string \<Rightarrow> ggml_legacy_ifairy_lut_impl" where
  "ggml_legacy_ifairy_lut_impl_from_env env env_name =
     (case env env_name of None \<Rightarrow> GGML_LEGACY_IFAIRY_LUT_IMPL_AUTO
      | Some v \<Rightarrow>
          if v \<noteq> '''' \<and> v \<noteq> ''0'' \<and> v \<noteq> ''auto''
          then (if v = ''lut16'' then GGML_LEGACY_IFAIRY_LUT_IMPL_LUT16
                else if v = ''lut_c'' then GGML_LEGACY_IFAIRY_LUT_IMPL_LUT_C
                else GGML_LEGACY_IFAIRY_LUT_IMPL_AUTO)
          else GGML_LEGACY_IFAIRY_LUT_IMPL_AUTO)"

definition ggml_legacy_ifairy_lut_config_from_env :: "environment \<Rightarrow> ggml_legacy_ifairy_lut_config" where
  "ggml_legacy_ifairy_lut_config_from_env env =
     \<lparr>dbg = ggml_ifairy_env_enabled env ''GGML_IFAIRY_LUT_DEBUG'',
      lut_enabled = ggml_ifairy_env_enabled env ''GGML_IFAIRY_LUT'',
      impl = ggml_legacy_ifairy_lut_impl_from_env env ''GGML_IFAIRY_LUT_IMPL''\<rparr>"

record ggml_ifairy_lut_type_info =
  weight_block_k :: int
  act_block_k :: int
  groups_per_weight_block :: int

definition ggml_ifairy_lut_get_type_info :: "ggml_type \<Rightarrow> ggml_ifairy_lut_type_info option" where
  "ggml_ifairy_lut_get_type_info type =
     (case type of
        GGML_TYPE_IFAIRY \<Rightarrow> Some \<lparr>weight_block_k = 256, act_block_k = 256, groups_per_weight_block = 128\<rparr>
      | GGML_TYPE_IFAIRY64 \<Rightarrow> Some \<lparr>weight_block_k = 64, act_block_k = 256, groups_per_weight_block = 32\<rparr>
      | _ \<Rightarrow> None)"

definition ggml_ifairy_lut_can_mul_mat ::
    "environment \<Rightarrow> bool \<Rightarrow> ('a, 'x) ggml_tensor_scheme \<Rightarrow> ('b, 'y) ggml_tensor_scheme \<Rightarrow> ('c, 'z) ggml_tensor_scheme \<Rightarrow> bool" where
  "ggml_ifairy_lut_can_mul_mat env arch src0 src1 dst =
     (if env ''GGML_IFAIRY_LUT'' = Some ''0'' then False
      else if \<not> arch then False
      else case ggml_ifairy_lut_get_type_info (ttype src0) of
        None \<Rightarrow> False
      | Some type_info \<Rightarrow>
          if ttype src1 \<noteq> GGML_TYPE_F32 \<and> ttype src1 \<noteq> GGML_TYPE_IFAIRY_Q16 then False
          else if ttype src0 = GGML_TYPE_IFAIRY64 \<and> env ''GGML_IFAIRY_LUT'' = None then False
          else if ttype dst \<noteq> GGML_TYPE_F32 then False
          else if ne src0 0 mod weight_block_k type_info \<noteq> 0 \<or> ne src0 0 mod act_block_k type_info \<noteq> 0 \<or>
                  ne src1 0 \<noteq> ne src0 0 then False
          else True)"

text \<open>
  Sizes are \<open>size_t\<close>: the checked operations abort on overflow (\<open>None\<close>), \<open>GGML_PAD\<close> wraps, which the
  explicit remainder writes out. Extents enter as \<open>(size_t)\<close> of an \<open>int64_t\<close>.
\<close>

definition size_of_i64 :: "int \<Rightarrow> nat" where
  "size_of_i64 v = nat (v mod 2 ^ 64)"

definition pad_size :: "nat \<Rightarrow> nat \<Rightarrow> nat" where
  "pad_size n a = (n + a - 1) mod 2 ^ 64 div a * a"

definition ggml_ifairy_lut_get_wsize ::
    "environment \<Rightarrow> bool \<Rightarrow> ('a, 'x) ggml_tensor_scheme \<Rightarrow> ('b, 'y) ggml_tensor_scheme \<Rightarrow> ('c, 'z) ggml_tensor_scheme \<Rightarrow> nat option" where
  "ggml_ifairy_lut_get_wsize env arch src0 src1 dst =
     (if \<not> ggml_ifairy_lut_can_mul_mat env arch src0 src1 dst then Some 0
      else Option.bind (ggml_ifairy_lut_get_type_info (ttype src0)) (\<lambda>type_info.
        let K = ne src0 0; N = size_of_i64 (ne src1 1);
            weight_blocks = c_div K (weight_block_k type_info);
            act_blocks = c_div K (act_block_k type_info);
            groups = weight_blocks * groups_per_weight_block type_info
        in Option.bind
             (if ttype src1 = GGML_TYPE_F32
              then Option.bind (ggml_ifairy_checked_mul_size N (size_of_i64 act_blocks)) (\<lambda>q_elems.
                   map_option (\<lambda>b. pad_size b 64) (ggml_ifairy_checked_mul_size q_elems 516))
              else Some 0) (\<lambda>quant_bytes.
           Option.bind (ggml_ifairy_checked_mul_size N (size_of_i64 groups)) (\<lambda>lut_groups.
           Option.bind (ggml_ifairy_checked_mul_size lut_groups 64) (\<lambda>lut_bytes.
           Option.bind (ggml_ifairy_checked_mul_size N (size_of_i64 weight_blocks)) (\<lambda>nb'.
           Option.bind (ggml_ifairy_checked_mul_size nb' 2) (\<lambda>nb2.
           Option.bind (ggml_ifairy_checked_mul_size nb2 4) (\<lambda>scale_bytes.
           Option.bind (ggml_ifairy_checked_add_size lut_bytes scale_bytes) (\<lambda>sum.
             ggml_ifairy_checked_add_size quant_bytes (pad_size sum 64)))))))))) "

text \<open>An operator node whose sources are reached through \<open>src\<close>; payloads are irrelevant here.\<close>

abbreviation (input) INT_MAX :: int where "INT_MAX \<equiv> 2 ^ 31 - 1"

definition ggml_legacy_ifairy_cpu_can_mul_mat :: "environment \<Rightarrow> bool \<Rightarrow> 'd ggml_node option \<Rightarrow> bool" where
  "ggml_legacy_ifairy_cpu_can_mul_mat env arch dst_opt =
     (case dst_opt of None \<Rightarrow> False
      | Some dst \<Rightarrow>
          if top dst \<noteq> GGML_OP_MUL_MAT \<or> \<not> ggml_ifairy_env_enabled env ''GGML_IFAIRY_LUT'' then False
          else case (src dst 0, src dst 1) of
            (Some w, Some x) \<Rightarrow>
              if ttype w \<noteq> GGML_TYPE_IFAIRY \<or> top w \<noteq> GGML_OP_NONE \<or> \<not> ggml_is_matrix w \<or> \<not> ggml_is_matrix x \<or>
                 \<not> ggml_is_matrix dst \<or> \<not> ggml_is_contiguous w \<or> nb x 0 \<noteq> ggml_type_size (ttype x) \<or> nb dst 0 \<noteq> 4 \<or>
                 ne w 0 \<le> 0 \<or> ne w 0 > INT_MAX \<or> ne w 1 \<le> 0 \<or> ne w 1 > INT_MAX \<or> ne x 1 \<le> 0 \<or> ne x 1 > INT_MAX
              then False else ggml_ifairy_lut_can_mul_mat env arch w x dst
          | _ \<Rightarrow> False)"






section \<open>Quantisers of the table path\<close>

text \<open>
  \<open>auto\<close> and \<open>lut16\<close> scale a whole row to \<open>[-42, 42]\<close>, \<open>lut_c\<close> each block. \<open>42.6\<close> is \<open>k_scale_q8\<close>;
  the first takes its maxima with the macro \<open>MAX\<close> and rounds with \<open>nearest_int\<close>, the second uses \<open>fmaxf\<close> and \<open>lrintf\<close>.
\<close>

definition quantize_row_ifairy_q16_tensor_ref ::
    "'f quant_ops \<Rightarrow> (nat \<Rightarrow> u16 \<times> u16) \<Rightarrow> nat \<Rightarrow> block_ifairy_q16 list" where
  "quantize_row_ifairy_q16_tensor_ref q x k =
     (let max_real = fold (\<lambda>j m. q_max q m (q_abs q (q_of_bf16 q (fst (x j))))) [0..<k] (q_lit q (1 / 100000));
          max_imag = fold (\<lambda>j m. q_max q m (q_abs q (q_of_bf16 q (snd (x j))))) [0..<k] (q_lit q (1 / 100000));
          iscale_real = q_div q (q_lit q (426 / 10)) max_real;
          iscale_imag = q_div q (q_lit q (426 / 10)) max_imag
      in map (\<lambda>ib. \<lparr>x_real = map (\<lambda>j. clamp_s8 42 (q_nearest_int q (q_mult q iscale_real (q_of_bf16 q (fst (x (ib * 256 + j))))))) [0..<256],
                     x_imag = map (\<lambda>j. clamp_s8 42 (q_nearest_int q (q_mult q iscale_imag (q_of_bf16 q (snd (x (ib * 256 + j))))))) [0..<256],
                     xd_real = q_to_half q (q_div q (q_lit q 1) iscale_real),
                     xd_imag = q_to_half q (q_div q (q_lit q 1) iscale_imag)\<rparr>) [0..<k div 256])"

definition quantize_row_ifairy_q16_lut_c ::
    "'f quant_ops \<Rightarrow> (nat \<Rightarrow> u16 \<times> u16) \<Rightarrow> nat \<Rightarrow> block_ifairy_q16 list" where
  "quantize_row_ifairy_q16_lut_c q x k =
     map (\<lambda>ib.
       let max_real = fold (\<lambda>j m. q_fmax q m (q_abs q (q_of_bf16 q (fst (x (ib * 256 + j)))))) [0..<256] (q_lit q (1 / 100000));
           max_imag = fold (\<lambda>j m. q_fmax q m (q_abs q (q_of_bf16 q (snd (x (ib * 256 + j)))))) [0..<256] (q_lit q (1 / 100000));
           scale_real = q_div q max_real (q_lit q (426 / 10)); scale_imag = q_div q max_imag (q_lit q (426 / 10));
           inv_scale_real = q_div q (q_lit q 1) scale_real; inv_scale_imag = q_div q (q_lit q 1) scale_imag
       in \<lparr>x_real = map (\<lambda>j. clamp_s8 42 (q_lrint q (q_mult q (q_of_bf16 q (fst (x (ib * 256 + j)))) inv_scale_real))) [0..<256],
           x_imag = map (\<lambda>j. clamp_s8 42 (q_lrint q (q_mult q (q_of_bf16 q (snd (x (ib * 256 + j)))) inv_scale_imag))) [0..<256],
           xd_real = q_to_half q scale_real, xd_imag = q_to_half q scale_imag\<rparr>) [0..<k div 256]"

section \<open>The matrix product\<close>

text \<open>
  Activations are float words to quantise (at byte offsets of the tensor) or ready blocks, column
  by column; the output is one slot array per column, as in \<^verbatim>\<open>IFairy_Lut\<close>.
\<close>

datatype act_data = ActF32 "nat \<Rightarrow> u16 \<times> u16" | ActQ16 "nat \<Rightarrow> block_ifairy_q16 list"

definition q16_in_lut_range :: "(nat \<Rightarrow> block_ifairy_q16 list) \<Rightarrow> nat \<Rightarrow> nat \<Rightarrow> bool" where
  "q16_in_lut_range x n blocks =
     list_all (\<lambda>col. list_all (\<lambda>b. list_all (\<lambda>j.
        let r = x_real (x col ! b) ! j; i = x_imag (x col ! b) ! j
        in \<not> ((63 < r \<and> r < 193) \<or> (63 < i \<and> i < 193))) [0..<256]) [0..<blocks]) [0..<n]"

definition mul_mat_quantize ::
    "'f quant_ops \<Rightarrow> bool \<Rightarrow> (nat \<Rightarrow> u16 \<times> u16) \<Rightarrow> nat \<Rightarrow> nat \<Rightarrow> nat \<Rightarrow> nat \<Rightarrow> nat \<Rightarrow>
     (nat \<Rightarrow> block_ifairy_q16 list) \<Rightarrow> nat \<Rightarrow> block_ifairy_q16 list" where
  "mul_mat_quantize q lut_c x stride k n nthr ith =
     fold (\<lambda>col act. act(col := (if lut_c then quantize_row_ifairy_q16_lut_c else quantize_row_ifairy_q16_tensor_ref)
             q (\<lambda>j. x (col * stride + j * 4)) k)) (strided ith nthr n)"

text \<open>A column seen through a pointer \<open>row0\<close> rows further, and writes through that pointer.\<close>

definition col_from :: "nat \<Rightarrow> 'f out_col \<Rightarrow> 'f out_col" where
  "col_from row0 c = \<lparr>slot_f32 = (\<lambda>r. slot_f32 c (row0 + r)), slot_bf16 = (\<lambda>r. slot_bf16 c (row0 + r))\<rparr>"

definition col_merge :: "nat \<Rightarrow> 'f out_col \<Rightarrow> 'f out_col \<Rightarrow> 'f out_col" where
  "col_merge row0 part c =
     \<lparr>slot_f32 = (\<lambda>r. if row0 \<le> r then slot_f32 part (r - row0) else slot_f32 c r),
      slot_bf16 = (\<lambda>r. if row0 \<le> r then slot_bf16 part (r - row0) else slot_bf16 c r)\<rparr>"

definition mul_mat_rows ::
    "'f float_ops \<Rightarrow> nat \<Rightarrow> nat \<Rightarrow> nat \<Rightarrow> (nat \<Rightarrow> 'f wtile_16) \<Rightarrow> (nat \<Rightarrow> 8 word) \<Rightarrow> (nat \<Rightarrow> 'f) \<Rightarrow> nat \<Rightarrow> nat \<Rightarrow>
     (nat \<Rightarrow> 'f out_col) \<Rightarrow> nat \<Rightarrow> 'f out_col" where
  "mul_mat_rows ops m k n packed_w lut scales nthr ith out =
     (let blocks = k div 256; tiles = (m + 15) div 16; tile0 = tiles * ith div nthr; tile1 = tiles * (ith + 1) div nthr;
          row0 = tile0 * 16; rows = int (min (tile1 * 16) m) - int row0
      in if rows > 0
         then case ggml_ifairy_lut_qgemm_lut16 ops rows (int k) (int n) (Some (\<lambda>i. packed_w (tile0 * blocks + i)))
                     (Some lut) (Some scales) True False (Some (\<lambda>col. col_from row0 (out col))) of
                Some part \<Rightarrow> (\<lambda>col. col_merge row0 (part col) (out col))
              | None \<Rightarrow> out
         else out)"

record 'f mul_mat_buffers =
  mb_q :: "nat \<Rightarrow> block_ifairy_q16 list"
  mb_lut :: "nat \<Rightarrow> 8 word"
  mb_scales :: "nat \<Rightarrow> 'f"

text \<open>
  All workers: \<open>ws1\<close>, \<open>ws2\<close>, \<open>ws3\<close> are the orders in which they run between the barriers.
  \<open>packed_w\<close> is the weights' packed pointer, \<open>wsz\<close> the work buffer's size (\<open>None\<close>: null) and \<open>bufs\<close>
  its old contents. The result is \<open>None\<close> for an abort, else the returned flag and the output.
\<close>

definition ggml_legacy_ifairy_cpu_compute_mul_mat ::
    "'f float_ops \<Rightarrow> 'f quant_ops \<Rightarrow> environment \<Rightarrow> bool \<Rightarrow> ggml_legacy_ifairy_lut_config \<Rightarrow>
     (nat, 'x) ggml_tensor_scheme \<Rightarrow> (act_data, 'y) ggml_tensor_scheme \<Rightarrow> ('d, 'z) ggml_tensor_scheme \<Rightarrow>
     (nat \<Rightarrow> 'f wtile_16) option \<Rightarrow> nat option \<Rightarrow> nat \<Rightarrow> nat list \<Rightarrow> nat list \<Rightarrow> nat list \<Rightarrow> 'f mul_mat_buffers \<Rightarrow>
     (nat \<Rightarrow> 'f out_col) \<Rightarrow> (bool \<times> (nat \<Rightarrow> 'f out_col)) option" where
  "ggml_legacy_ifairy_cpu_compute_mul_mat ops q env arch cfg w x dst packed_w wsz nthr ws1 ws2 ws3 bufs out =
     Option.bind (ggml_ifairy_lut_get_wsize env arch w x dst) (\<lambda>need.
       case (packed_w, wsz) of
         (Some packed, Some have_bytes) \<Rightarrow>
           if have_bytes < need then Some (False, out)
           else
             let m = nat (ne w 1); k = nat (ne w 0); n = nat (ne x 1); blocks = k div 256;
                 lut_c = (impl cfg = GGML_LEGACY_IFAIRY_LUT_IMPL_LUT_C);
                 act = (case tdata x of
                          ActF32 data \<Rightarrow> Some (fold (mul_mat_quantize q lut_c data (nb x 1) k n nthr) ws1 (mb_q bufs))
                        | ActQ16 data \<Rightarrow> if q16_in_lut_range data n blocks then Some data else None)
             in (case act of
                   None \<Rightarrow> Some (False, out)
                 | Some act \<Rightarrow>
                     (case fold (\<lambda>ith. ggml_ifairy_lut_preprocess_lut16 ops (int m) (int k) (int n) (Some act)
                                   (int ith) (int nthr)) ws2 (Some (mb_scales bufs), Some (mb_lut bufs)) of
                        (Some scales, Some lut) \<Rightarrow> Some (True, fold (mul_mat_rows ops m k n packed lut scales nthr) ws3 out)
                      | _ \<Rightarrow> Some (True, out)))
       | _ \<Rightarrow> Some (False, out))"

section \<open>What the product computes\<close>

lemma qgemm_one_bf16:
  "slot_bf16 (ggml_ifairy_lut_qgemm_lut16_one ops sc blocks gpb m wtiles lut_col scales True False d) row =
    (if row < m then (let (r, i) = lut_row_accumulate ops sc blocks gpb wtiles lut_col scales row (f_zero ops, f_zero ops)
        in (f_to_bf16 ops r, f_to_bf16 ops i)) else slot_bf16 d row)"
  unfolding ggml_ifairy_lut_qgemm_lut16_one_def
  by (induction m) (auto simp: lut_store_slot_def split: prod.splits)

text \<open>One worker's effect on one slot.\<close>

lemma mul_mat_rows_slot:
  assumes "col < n" "0 < k" "row < m"
  defines "blocks \<equiv> k div 256" and "tiles \<equiv> (m + 15) div 16"
  shows "slot_bf16 (mul_mat_rows ops m k n P lut scales nthr ith out col) row =
    (if row div 16 \<in> set [tiles * ith div nthr..<tiles * (ith + 1) div nthr]
     then (let (r, i) = lut_row_accumulate ops (\<lambda>v. v) blocks 128 (\<lambda>i. P (tiles * ith div nthr * blocks + i))
              (\<lambda>a. lut (col * (blocks * 128) * 64 + a)) (\<lambda>i. scales (col * blocks * 2 + i))
              (row - tiles * ith div nthr * 16) (f_zero ops, f_zero ops)
           in (f_to_bf16 ops r, f_to_bf16 ops i))
     else slot_bf16 (out col) row)"
proof -
  let ?t0 = "tiles * ith div nthr" and ?t1 = "tiles * (ith + 1) div nthr"
  have inr: "row div 16 \<in> set [?t0..<?t1] \<longleftrightarrow> ?t0 * 16 \<le> row \<and> row < ?t1 * 16"
    by (simp add: less_eq_div_iff_mult_less_eq div_less_iff_less_mult)
  show ?thesis
  proof (cases "int (min (?t1 * 16) m) - int (?t0 * 16) > 0")
    case True
    have n: "0 < n" using assms(1) by simp
    have rows: "nat (int (min (?t1 * 16) m) - int (?t0 * 16)) = min (?t1 * 16) m - ?t0 * 16" by linarith
    have "mul_mat_rows ops m k n P lut scales nthr ith out col =
        col_merge (?t0 * 16) (lut_qgemm_columns ops (\<lambda>v. v) blocks 128 (min (?t1 * 16) m - ?t0 * 16) n
          (\<lambda>i. P (?t0 * blocks + i)) lut scales True False (\<lambda>col. col_from (?t0 * 16) (out col)) col) (out col)"
      using True assms(2) n rows unfolding mul_mat_rows_def Let_def ggml_ifairy_lut_qgemm_lut16_def tiles_def blocks_def
      by simp
    then show ?thesis using assms(1,3)
      by (auto simp: inr qgemm_columns_col qgemm_one_bf16 col_merge_def col_from_def)
  next
    case False
    then have "\<not> (?t0 * 16 \<le> row \<and> row < ?t1 * 16)" using assms(3) by linarith
    moreover have "mul_mat_rows ops m k n P lut scales nthr ith out = out"
      unfolding mul_mat_rows_def Let_def tiles_def [symmetric] using False by (simp only: if_False)
    ultimately show ?thesis unfolding inr by (simp only: if_False)
  qed
qed

text \<open>All workers together: every slot is written by exactly the worker that has its tile.\<close>

lemma mul_mat_rows_all:
  assumes "col < n" "0 < k" "row < m" and nthr: "0 < nthr" "set ws = {..<nthr}"
  defines "blocks \<equiv> k div 256"
  shows "\<exists>t0\<le>row div 16. slot_bf16 (fold (mul_mat_rows ops m k n P lut scales nthr) ws out col) row =
    (let (r, i) = lut_row_accumulate ops (\<lambda>v. v) blocks 128 (\<lambda>i. P (t0 * blocks + i))
        (\<lambda>a. lut (col * (blocks * 128) * 64 + a)) (\<lambda>i. scales (col * blocks * 2 + i)) (row - t0 * 16) (f_zero ops, f_zero ops)
     in (f_to_bf16 ops r, f_to_bf16 ops i))"
proof -
  let ?tiles = "(m + 15) div 16"
  have tile: "row div 16 < ?tiles" using assms(3) by (simp add: div_less_iff_less_mult)
  obtain ith where ith: "ith < nthr" "row div 16 \<in> set [?tiles * ith div nthr..<?tiles * (ith + 1) div nthr]"
    and uniq: "\<And>y. y < nthr \<Longrightarrow> row div 16 \<in> set [?tiles * y div nthr..<?tiles * (y + 1) div nthr] \<Longrightarrow> y = ith"
    using div_between_unique [OF nthr(1) tile] unfolding set_upt atLeastLessThan_iff by (elim ex1E) blast
  note slot = mul_mat_rows_slot [OF assms(1-3), of ops P lut scales nthr, folded blocks_def]
  have "slot_bf16 (fold (mul_mat_rows ops m k n P lut scales nthr) ws out col) row =
    (let (r, i) = lut_row_accumulate ops (\<lambda>v. v) blocks 128 (\<lambda>i. P (?tiles * ith div nthr * blocks + i))
        (\<lambda>a. lut (col * (blocks * 128) * 64 + a)) (\<lambda>i. scales (col * blocks * 2 + i))
        (row - ?tiles * ith div nthr * 16) (f_zero ops, f_zero ops)
     in (f_to_bf16 ops r, f_to_bf16 ops i))"
  proof (rule fold_obs [where obs = "\<lambda>out. slot_bf16 (out col) row" and x = ith])
    show "ith \<in> set ws" using ith(1) nthr(2) by simp
    fix y and p :: "nat \<Rightarrow> 'a out_col" assume "y \<in> set ws" "y \<noteq> ith"
    then have "row div 16 \<notin> set [?tiles * y div nthr..<?tiles * (y + 1) div nthr]" using uniq nthr(2) by blast
    then show "slot_bf16 (mul_mat_rows ops m k n P lut scales nthr y p col) row = slot_bf16 (p col) row"
      unfolding slot by (simp only: if_False)
  qed (use ith(2) in \<open>simp only: slot if_True\<close>)
  moreover have "?tiles * ith div nthr \<le> row div 16" using ith(2) by simp
  ultimately show ?thesis by blast
qed

text \<open>The activations the product sees: the quantised row, or the given blocks.\<close>

definition mul_mat_activation ::
    "'f quant_ops \<Rightarrow> ggml_legacy_ifairy_lut_config \<Rightarrow> (act_data, 'y) ggml_tensor_scheme \<Rightarrow> nat \<Rightarrow> nat \<Rightarrow> block_ifairy_q16 list" where
  "mul_mat_activation q cfg x k col =
     (case tdata x of
        ActF32 d \<Rightarrow> (if impl cfg = GGML_LEGACY_IFAIRY_LUT_IMPL_LUT_C then quantize_row_ifairy_q16_lut_c
                    else quantize_row_ifairy_q16_tensor_ref) q (\<lambda>j. d (col * nb x 1 + j * 4)) k
      | ActQ16 d \<Rightarrow> d col)"

lemma mul_mat_quantize_all:
  assumes "0 < nthr" "set ws = {..<nthr}" "col < n"
  shows "fold (mul_mat_quantize q lut_c x stride k n nthr) ws act col =
    (if lut_c then quantize_row_ifairy_q16_lut_c else quantize_row_ifairy_q16_tensor_ref) q (\<lambda>j. x (col * stride + j * 4)) k"
proof -
  have inj: "inj (\<lambda>i :: nat. i)" by (simp add: inj_def)
  show ?thesis unfolding mul_mat_quantize_def by (rule fold_worker_strided [OF inj assms])
qed

lemma lut_safe_clamp42: "lut_safe (ggml_ifairy_u8_to_s8_int (clamp_s8 42 v))"
  by (auto simp: clamp_s8_value lut_safe_def max_def min_def)

lemma block_index: "i < k div 256 * 256 \<Longrightarrow> i div 256 < k div 256" for i k :: nat
  by (simp add: div_less_iff_less_mult)

text \<open>Both row quantisers stay within the range the tables can represent.\<close>

lemma quantizers_safe:
  "lut_safe_column (k div 256 * 256) (quantize_row_ifairy_q16_tensor_ref q x k)"
  "lut_safe_column (k div 256 * 256) (quantize_row_ifairy_q16_lut_c q x k)"
  by (auto simp: lut_safe_column_def act_re_def act_im_def quantize_row_ifairy_q16_tensor_ref_def
      quantize_row_ifairy_q16_lut_c_def Let_def lut_safe_clamp42 block_index)

lemma u8_range_safe:
  fixes v :: u8
  assumes "\<not> (63 < v \<and> v < 193)"
  shows "lut_safe (ggml_ifairy_u8_to_s8_int v)"
  using assms uint_lt2p [of v]
  by (auto simp: ggml_ifairy_u8_to_s8_int_def lut_safe_def word_less_alt intro: order_trans [OF _ uint_ge_0])

lemma q16_range_safe:
  assumes "q16_in_lut_range d n blocks" "col < n"
  shows "lut_safe_column (blocks * 256) (d col)"
  unfolding lut_safe_column_def act_re_def act_im_def
proof (intro allI impI)
  fix i assume i: "i < blocks * 256"
  then have b: "i div 256 < blocks" by (simp add: div_less_iff_less_mult)
  have "\<not> (63 < x_real (d col ! (i div 256)) ! (i mod 256) \<and> x_real (d col ! (i div 256)) ! (i mod 256) < 193)"
    "\<not> (63 < x_imag (d col ! (i div 256)) ! (i mod 256) \<and> x_imag (d col ! (i div 256)) ! (i mod 256) < 193)"
    using assms b by (auto simp: q16_in_lut_range_def list_all_iff Let_def)
  then show "lut_safe (ggml_ifairy_u8_to_s8_int (x_real (d col ! (i div 256)) ! (i mod 256))) \<and>
      lut_safe (ggml_ifairy_u8_to_s8_int (x_imag (d col ! (i div 256)) ! (i mod 256)))"
    using u8_range_safe by blast
qed

text \<open>
  C8: the product of the CPU backend, over any float operations. When the weights are packed, the work buffer has the size
  the planner reserves and blocks given by the caller are within the range the code checks, any number of workers, in any
  order between the barriers, leave in every output slot the bf16 rounding of the reference accumulation of the row with
  the activations: the quantised row, for which no range condition is needed, or the given blocks. Over the reals that
  accumulation is the complex product of the weights with the conjugated activations.
\<close>

theorem mul_mat_correct:
  fixes ops :: "'f float_ops"
  assumes need: "ggml_ifairy_lut_get_wsize env arch w x dst = Some need" "need \<le> have_bytes"
    and dims: "ne w 0 = int k" "ne w 1 = int m" "ne x 1 = int n" "0 < k" "256 dvd k" "0 < m" "k div 2 * m \<le> SIZE_MAX"
    and packed: "W (key_data key) = Weights256 ws" "length ws = m * (k div 256)" "key_k key = int k" "key_rows key = int m"
      "transform_content ops W key = Some (Content256 idx tiles)"
    and workers: "0 < nthr" "set ws1 = {..<nthr}" "set ws2 = {..<nthr}" "set ws3 = {..<nthr}"
    and range: "\<And>d. tdata x = ActQ16 d \<Longrightarrow> q16_in_lut_range d n (k div 256)"
  shows "\<exists>out'. ggml_legacy_ifairy_cpu_compute_mul_mat ops q env arch cfg w x dst (Some tiles) (Some have_bytes)
      nthr ws1 ws2 ws3 bufs out = Some (True, out') \<and>
    (\<forall>col<n. \<forall>row<m. slot_bf16 (out' col) row =
      (let (re, im) = ifairy_reference ops (drop (row * (k div 256)) ws) (mul_mat_activation q cfg x k col) (k div 256)
       in (f_to_bf16 ops re, f_to_bf16 ops im)) \<and>
      ifairy_reference (exact_ops half of_bf to_bf) (drop (row * (k div 256)) ws) (mul_mat_activation q cfg x k col) (k div 256) =
      (let z = ifairy_product half (drop (row * (k div 256)) ws) (mul_mat_activation q cfg x k col) k in (Re z, Im z)))"
proof -
  define blocks where "blocks = k div 256"
  have k: "k = blocks * 256" and k2: "k div 2 = blocks * 128" using dims(5) by (auto simp: blocks_def)
  let ?act = "case tdata x of
       ActF32 data \<Rightarrow> fold (mul_mat_quantize q (impl cfg = GGML_LEGACY_IFAIRY_LUT_IMPL_LUT_C) data (nb x 1) k n nthr) ws1 (mb_q bufs)
     | ActQ16 data \<Rightarrow> data"
  have act: "?act col = mul_mat_activation q cfg x k col" if "col < n" for col
    by (cases "tdata x") (simp_all only: act_data.case mul_mat_activation_def mul_mat_quantize_all [OF workers(1,2) that])
  have safe: "lut_safe_column (blocks * 256) (?act col)" if "col < n" for col
  proof (cases "tdata x")
    case (ActF32 d)
    then show ?thesis unfolding act [OF that] by (simp add: mul_mat_activation_def quantizers_safe blocks_def)
  next
    case (ActQ16 d)
    then show ?thesis using q16_range_safe [OF range that] by (simp add: blocks_def)
  qed
  obtain S L where SL: "S = (\<lambda>a. if a div 2 div blocks < n \<and> a div 2 mod blocks < blocks
                 then scale_cell ops ?act blocks a else mb_scales bufs a)"
    "L = (\<lambda>a. if a div 64 div (blocks * 128) < n \<and> a div 64 mod (blocks * 128) < blocks * 128
                 then lut_cell ?act (blocks * 128) a else mb_lut bufs a)" by blast
  have pre: "fold (\<lambda>ith. ggml_ifairy_lut_preprocess_lut16 ops (int m) (int k) (int n) (Some ?act) (int ith) (int nthr)) ws2
      (Some (mb_scales bufs), Some (mb_lut bufs)) = (Some S, Some L)"
    unfolding SL blocks_def by (rule preprocess_all_workers [OF workers(1,3)])
  let ?out = "fold (mul_mat_rows ops m k n tiles L S nthr) ws3 out"
  have run: "ggml_legacy_ifairy_cpu_compute_mul_mat ops q env arch cfg w x dst (Some tiles) (Some have_bytes)
      nthr ws1 ws2 ws3 bufs out = Some (True, ?out)"
  proof (cases "tdata x")
    case (ActF32 d)
    show ?thesis using pre need(2)
      unfolding ggml_legacy_ifairy_cpu_compute_mul_mat_def Let_def dims nat_int need(1) ActF32 by (simp add: not_less)
  next
    case (ActQ16 d)
    show ?thesis using pre need(2) range [OF ActQ16]
      unfolding ggml_legacy_ifairy_cpu_compute_mul_mat_def Let_def dims nat_int need(1) ActQ16 by (simp add: not_less)
  qed
  have cap: "k div 2 * m \<le> length (replicate (k div 256 * 128 * m) (0 :: u8))"
    by (simp add: k2 blocks_def)
  have enc: "ggml_ifairy_2w_encode ws k m (replicate (k div 256 * 128 * m) 0) = Some (True, idx)"
    and tiles: "tiles = pack_lanes (\<lambda>b. (f_of_half ops (d_real b), f_of_half ops (d_imag b))) (f_zero ops) ws idx m
       (k div 256) (k div 256 * 128) 128"
    using packed by (auto simp: transform_content_def split: option.splits prod.splits bool.splits)
  have idx: "idx ! (row * (blocks * 128) + g) = pair_pattern (ggml_ifairy_read_code (drop (row * blocks) ws) (2 * g))
        (ggml_ifairy_read_code (drop (row * blocks) ws) (2 * g + 1))" if "row < m" "g < blocks * 128" for row g
    using ifairy.encode_nth [OF dims(4,5,7) cap enc that(1), of g] that(2) by (simp add: k2 blocks_def [symmetric])
  have slot: "slot_bf16 (?out col) row = (let (re, im) = ifairy_reference ops (drop (row * blocks) ws) (mul_mat_activation q cfg x k col) blocks
       in (f_to_bf16 ops re, f_to_bf16 ops im))" if col: "col < n" and row: "row < m" for col row
  proof -
    obtain t0 where t0: "t0 \<le> row div 16" "slot_bf16 (?out col) row =
      (let (r, i) = lut_row_accumulate ops (\<lambda>v. v) blocks 128 (\<lambda>i. tiles (t0 * blocks + i))
        (\<lambda>a. L (col * (blocks * 128) * 64 + a)) (\<lambda>i. S (col * blocks * 2 + i)) (row - t0 * 16) (f_zero ops, f_zero ops)
       in (f_to_bf16 ops r, f_to_bf16 ops i))"
      using mul_mat_rows_all [OF col dims(4) row workers(1,4), of ops tiles L S out] unfolding blocks_def by blast
    have len: "row * blocks \<le> length ws" using packed(2) row by (simp add: blocks_def)
    have le: "t0 * 16 \<le> row" using t0(1) by (simp add: less_eq_div_iff_mult_less_eq)
    have lane: "(row - t0 * 16) mod 16 = row mod 16" and tdiv: "(row - t0 * 16) div 16 = row div 16 - t0"
      using le by (metis le_add_diff_inverse2 mod_mult_self1 , simp add: div_mult_self4)
    have ti: "t0 * blocks + ((row - t0 * 16) div 16 * blocks + b) = row div 16 * blocks + b" for b
      unfolding tdiv diff_mult_distrib using mult_le_mono1 [OF t0(1), of blocks] by linarith
    note cell = pack_lanes_cell [OF row, where bpr = blocks and scales = "\<lambda>b. (f_of_half ops (d_real b), f_of_half ops (d_imag b))"
        and z = "f_zero ops" and ws = ws and idx = idx and gpr = "blocks * 128" and gpb = 128]
    have "lut_row_accumulate ops (\<lambda>v. v) blocks 128 (\<lambda>i. tiles (t0 * blocks + i))
        (\<lambda>a. L (col * (blocks * 128) * 64 + a)) (\<lambda>i. S (col * blocks * 2 + i)) (row - t0 * 16) (f_zero ops, f_zero ops) =
      ifairy_reference ops (drop (row * blocks) ws) (?act col) blocks"
    proof (rule lut_slot_reference [where ix = "\<lambda>g. idx ! (row * (blocks * 128) + g)", OF _ idx [OF row] _ safe [OF col]])
      fix b y :: nat assume b: "b < blocks"
      show "t_d_real (tiles (t0 * blocks + ((row - t0 * 16) div 16 * blocks + b))) ((row - t0 * 16) mod 16) =
          f_of_half ops (d_real (drop (row * blocks) ws ! b)) \<and>
        t_d_imag (tiles (t0 * blocks + ((row - t0 * 16) div 16 * blocks + b))) ((row - t0 * 16) mod 16) =
          f_of_half ops (d_imag (drop (row * blocks) ws ! b))"
        unfolding ti lane tiles blocks_def [symmetric] cell(1,2) [OF b] using len by simp
      assume "y < 64"
      then show "t_qs (tiles (t0 * blocks + ((row - t0 * 16) div 16 * blocks + b))) y ((row - t0 * 16) mod 16) =
          (idx ! (row * (blocks * 128) + (b * 128 + y * 2)) AND 15) OR
          push_bit 4 (idx ! (row * (blocks * 128) + (b * 128 + y * 2 + 1)) AND 15)"
        unfolding ti lane tiles blocks_def [symmetric] using cell(3) [OF b, of y] by simp
    next
      fix g e :: nat assume "g < blocks * 128" "e < 64"
      then show "L (col * (blocks * 128) * 64 + (g * 64 + e)) = lut_group (?act col) g ! e"
        unfolding SL by (rule lut_column_cell [OF col])
    next
      fix b assume b: "b < blocks"
      show "S (col * blocks * 2 + b * 2) = f_of_half ops (xd_real (?act col ! b)) \<and>
          S (col * blocks * 2 + (b * 2 + 1)) = f_of_half ops (xd_imag (?act col ! b))"
        unfolding SL using scale_column_cell [OF col b, of ops ?act "mb_scales bufs"] by simp
    qed
    then show ?thesis unfolding t0(2) act [OF col] by (simp only:)
  qed
  have "ifairy_reference (exact_ops half of_bf to_bf) bs xs blocks = (let z = ifairy_product half bs xs k in (Re z, Im z))" for bs xs
    unfolding k by (rule ifairy_reference_exact)
  then show ?thesis using run slot unfolding blocks_def [symmetric] by (intro exI [of _ ?out]) simp
qed

section \<open>The work buffer\<close>

lemma pad_size_ge: "0 < a \<Longrightarrow> n + a - 1 < 2 ^ 64 \<Longrightarrow> n \<le> pad_size n a"
  using GGML_PAD_ge [of a n] by (simp add: pad_size_def GGML_PAD_def)

lemma size_of_nat: "n < 2 ^ 64 \<Longrightarrow> size_of_i64 (int n) = n"
  by (simp add: size_of_i64_def)

lemma checked_mul_Some: "ggml_ifairy_checked_mul_size a b = Some c \<Longrightarrow> c = a * b"
  by (simp add: ggml_ifairy_checked_mul_size_def split: if_splits)

lemma checked_add_Some: "ggml_ifairy_checked_add_size a b = Some c \<Longrightarrow> c = a + b"
  by (simp add: ggml_ifairy_checked_add_size_def split: if_splits)

text \<open>
  C9: the reserved size covers the layout the product uses,
  \<open>[quantised activations, padded] [tables] [scales]\<close>, and the quantisation buffer of the direct
  kernel that runs when the product declines.
\<close>

theorem mul_mat_buffer_fits:
  assumes "ggml_ifairy_lut_can_mul_mat env arch w x dst" and "ttype w = GGML_TYPE_IFAIRY"
    and "ggml_ifairy_lut_get_wsize env arch w x dst = Some need"
    and dims: "ne w 0 = int k" "ne x 1 = int n" and room: "k < 2 ^ 56" "n < 2 ^ 64" "n * (k div 256) * 8716 + 256 < 2 ^ 64"
  shows "(if ttype x = GGML_TYPE_F32 then GGML_PAD (n * ggml_row_size GGML_TYPE_IFAIRY_Q16 k) 64 else 0) +
      n * (k div 256) * 128 * 64 + n * (k div 256) * 2 * 4 \<le> need"
proof -
  define blocks where "blocks = k div 256"
  have "256 dvd int k"
    using assms(1,2) dims by (auto simp: ggml_ifairy_lut_can_mul_mat_def ggml_ifairy_lut_get_type_info_def split: if_splits)
  then have dvd: "256 dvd k" using int_dvd_int_iff [of 256 k] by simp
  have row: "ggml_row_size GGML_TYPE_IFAIRY_Q16 k = blocks * 516"
    using dvd by (auto simp: ggml_row_size_def blocks_def elim!: dvdE)
  have cd: "c_div (int k) 256 = int blocks" by (cases "k = 0") (simp_all add: c_div_def blocks_def zdiv_int)
  have b64: "blocks < 2 ^ 48" using room(1) by (simp add: blocks_def)
  have sz: "size_of_i64 (int n) = n" "size_of_i64 (int blocks) = blocks" "size_of_i64 (int blocks * 128) = blocks * 128"
    using size_of_nat [OF room(2)] size_of_nat [of blocks] size_of_nat [of "blocks * 128"] b64 by simp_all
  have r: "n * blocks * 8716 + 256 < 2 ^ 64" using room(3) by (simp add: blocks_def)
  have q: "n * blocks * 516 \<le> pad_size (n * blocks * 516) 64" by (rule pad_size_ge, simp) (use r in linarith)
  have "n * blocks * 516 + 64 - 1 < 2 ^ 64" using r by linarith
  then have qp: "pad_size (n * blocks * 516) 64 = GGML_PAD (n * blocks * 516) 64"
    by (simp only: pad_size_def GGML_PAD_def mod_less)
  have e: "n * (blocks * 128) * 64 = n * blocks * 8192" by simp
  have sp: "n * (blocks * 128) * 64 + n * blocks * 2 * 4 \<le> pad_size (n * (blocks * 128) * 64 + n * blocks * 2 * 4) 64"
    by (rule pad_size_ge, simp) (use r e in linarith)
  have need: "need = (if ttype x = GGML_TYPE_F32 then pad_size (n * blocks * 516) 64 else 0) +
      pad_size (n * (blocks * 128) * 64 + n * blocks * 2 * 4) 64"
    using assms(1,2,3) unfolding ggml_ifairy_lut_get_wsize_def ggml_ifairy_lut_get_type_info_def Let_def dims
    by (auto simp: cd sz bind_eq_Some_conv dest!: checked_mul_Some checked_add_Some split: if_splits)
  have "GGML_PAD (n * (blocks * 516)) 64 = pad_size (n * blocks * 516) 64" unfolding qp by (simp only: mult.assoc)
  then show ?thesis
    using sp unfolding need row blocks_def [symmetric] by (simp add: mult.assoc)
qed

section \<open>Dispatch\<close>











text \<open>
  \<open>ggml_legacy_ifairy_cpu_prepare_graph\<close> hands weights to the packer, node by node. Tensors are
  named by their payload; \<open>packed\<close> and \<open>transform\<close> are the packer's operations on its state.
\<close>

definition prepare_source ::
    "('s \<Rightarrow> nat \<Rightarrow> bool) \<Rightarrow> (nat \<Rightarrow> 's \<Rightarrow> 's) \<Rightarrow> nat ggml_node \<Rightarrow> nat \<Rightarrow> 's \<Rightarrow> 's" where
  "prepare_source packed transform n i s =
     (case src n i of None \<Rightarrow> s | Some w \<Rightarrow> if packed s (tdata w) then s else transform (tdata w) s)"

definition prepare_node ::
    "environment \<Rightarrow> bool \<Rightarrow> ('s \<Rightarrow> nat \<Rightarrow> bool) \<Rightarrow> (nat \<Rightarrow> 's \<Rightarrow> 's) \<Rightarrow> nat ggml_node option \<Rightarrow> 's \<Rightarrow> 's" where
  "prepare_node env arch packed transform node s =
     (case node of None \<Rightarrow> s
      | Some n \<Rightarrow>
          if top n = GGML_OP_IFAIRY_WIDE_LINEAR_W2
          then fold (prepare_source packed transform n) [1, 2, 3, 4] s
          else if top n \<noteq> GGML_OP_MUL_MAT then s
          else if \<not> ggml_legacy_ifairy_cpu_can_mul_mat env arch node then s
          else (case src n 0 of Some w \<Rightarrow> transform (tdata w) s | None \<Rightarrow> s))"

definition ggml_legacy_ifairy_cpu_prepare_graph ::
    "environment \<Rightarrow> bool \<Rightarrow> ('s \<Rightarrow> nat \<Rightarrow> bool) \<Rightarrow> (nat \<Rightarrow> 's \<Rightarrow> 's) \<Rightarrow> nat ggml_node option list \<Rightarrow> 's \<Rightarrow> 's" where
  "ggml_legacy_ifairy_cpu_prepare_graph env arch packed transform nodes s =
     (if \<not> lut_enabled (ggml_legacy_ifairy_lut_config_from_env env) then s
      else fold (prepare_node env arch packed transform) nodes s)"

text \<open>The weights a node needs packed.\<close>

definition needs_packed :: "environment \<Rightarrow> bool \<Rightarrow> nat ggml_node option \<Rightarrow> nat \<Rightarrow> bool" where
  "needs_packed env arch node t \<longleftrightarrow>
     (case node of None \<Rightarrow> False
      | Some n \<Rightarrow> if top n = GGML_OP_IFAIRY_WIDE_LINEAR_W2
                  then \<exists>i\<in>{1, 2, 3, 4}. map_option tdata (src n i) = Some t
                  else ggml_legacy_ifairy_cpu_can_mul_mat env arch node \<and> map_option tdata (src n 0) = Some t)"

text \<open>What the graph preparation relies on: packing a good tensor succeeds and lasts.\<close>

locale weight_packer =
  fixes packed :: "'s \<Rightarrow> nat \<Rightarrow> bool" and transform :: "nat \<Rightarrow> 's \<Rightarrow> 's"
    and good :: "nat \<Rightarrow> bool" and inv :: "'s \<Rightarrow> bool"
  assumes transform_inv: "inv s \<Longrightarrow> inv (transform t s)"
    and transform_keeps: "inv s \<Longrightarrow> packed s t \<Longrightarrow> packed (transform t' s) t"
    and transform_packs: "inv s \<Longrightarrow> good t \<Longrightarrow> packed (transform t s) t"
begin

lemma prepare_source_props:
  assumes "inv s"
  shows "inv (prepare_source packed transform n i s)"
    and "packed s t \<Longrightarrow> packed (prepare_source packed transform n i s) t"
    and "map_option tdata (src n i) = Some t \<Longrightarrow> good t \<Longrightarrow> packed (prepare_source packed transform n i s) t"
  using assms by (auto simp: prepare_source_def transform_inv transform_keeps transform_packs split: option.splits)

lemma prepare_sources_props:
  assumes "inv s"
  shows "inv (fold (prepare_source packed transform n) ixs s)"
    and "packed s t \<or> (\<exists>i\<in>set ixs. map_option tdata (src n i) = Some t \<and> good t) \<Longrightarrow>
      packed (fold (prepare_source packed transform n) ixs s) t"
  using assms
proof (induction ixs arbitrary: s)
  case (Cons i ixs)
  {
    case 1
    then show ?case using Cons.IH(1) prepare_source_props(1) by simp
  next
    case 2
    then have "packed (prepare_source packed transform n i s) t \<or>
        (\<exists>i\<in>set ixs. map_option tdata (src n i) = Some t \<and> good t)"
      using prepare_source_props(2,3) [OF 2(2)] by (auto simp del: map_option_eq_Some)
    then show ?case using Cons.IH(2) prepare_source_props(1) [OF 2(2)] by simp
  }
qed auto

lemma prepare_node_inv: "inv s \<Longrightarrow> inv (prepare_node env arch packed transform node s)"
  using prepare_sources_props(1) [of s, where ixs = "[1, 2, 3, 4]"]
  by (simp add: prepare_node_def transform_inv split: option.splits)

lemma prepare_node_keeps: "inv s \<Longrightarrow> packed s t \<Longrightarrow> packed (prepare_node env arch packed transform node s) t"
  using prepare_sources_props(2) [of s t, where ixs = "[1, 2, 3, 4]"]
  by (simp add: prepare_node_def transform_inv transform_keeps split: option.splits)

lemma prepare_node_packs:
  assumes "inv s" "needs_packed env arch node t" "good t"
  shows "packed (prepare_node env arch packed transform node s) t"
proof -
  obtain n where n: "node = Some n" using assms(2) by (auto simp: needs_packed_def split: option.splits)
  show ?thesis
  proof (cases "top n = GGML_OP_IFAIRY_WIDE_LINEAR_W2")
    case True
    have "\<exists>i\<in>set [1, 2, 3, 4]. map_option tdata (src n i) = Some t \<and> good t"
      using assms(2,3) True n by (auto simp: needs_packed_def)
    then show ?thesis
      using prepare_sources_props(2) [OF assms(1)] True n by (simp only: prepare_node_def option.case if_True simp_thms)
  next
    case False
    then have adm: "ggml_legacy_ifairy_cpu_can_mul_mat env arch node" and "map_option tdata (src n 0) = Some t"
      using assms(2) n by (simp_all add: needs_packed_def)
    moreover have "top n = GGML_OP_MUL_MAT"
      using adm n by (auto simp: ggml_legacy_ifairy_cpu_can_mul_mat_def split: if_splits)
    ultimately show ?thesis using assms(1,3) False n by (auto simp: prepare_node_def transform_packs)
  qed
qed

lemma prepare_graph_inv:
  "inv s \<Longrightarrow> inv (ggml_legacy_ifairy_cpu_prepare_graph env arch packed transform nodes s)"
proof -
  have "inv (fold (prepare_node env arch packed transform) ns s)" if "inv s" for ns s
    using that by (induction ns arbitrary: s) (simp_all add: prepare_node_inv)
  then show "inv s \<Longrightarrow> inv (ggml_legacy_ifairy_cpu_prepare_graph env arch packed transform nodes s)"
    by (simp add: ggml_legacy_ifairy_cpu_prepare_graph_def)
qed

lemma prepare_nodes_packs:
  assumes "needs_packed env arch node t" "good t" "inv s" "node \<in> set ns \<or> packed s t"
  shows "packed (fold (prepare_node env arch packed transform) ns s) t"
  using assms(3,4)
proof (induction ns arbitrary: s)
  case (Cons m ns)
  have "node \<in> set ns \<or> packed (prepare_node env arch packed transform m s) t"
    using Cons.prems prepare_node_keeps prepare_node_packs assms(1,2) by auto
  then show ?case using Cons.IH Cons.prems prepare_node_inv by simp
qed simp

lemma prepare_graph_packs:
  assumes "inv s" "node \<in> set nodes" "needs_packed env arch node t" "good t"
    and "lut_enabled (ggml_legacy_ifairy_lut_config_from_env env)"
  shows "packed (ggml_legacy_ifairy_cpu_prepare_graph env arch packed transform nodes s) t"
  using prepare_nodes_packs [OF assms(3,4,1)] assms(2,5) by (simp add: ggml_legacy_ifairy_cpu_prepare_graph_def)

lemma prepare_graph_keeps:
  assumes "inv s" "packed s t"
  shows "packed (ggml_legacy_ifairy_cpu_prepare_graph env arch packed transform nodes s) t"
proof -
  have "packed (fold (prepare_node env arch packed transform) ns s) t" for ns
    using assms by (induction ns arbitrary: s) (simp_all add: prepare_node_inv prepare_node_keeps)
  then show ?thesis using assms(2) by (simp add: ggml_legacy_ifairy_cpu_prepare_graph_def)
qed

end

text \<open>
  The packer is the shared transform state, \<open>None\<close> for an aborted program, with the number of packing calls so far.
  \<open>alloc\<close> and \<open>malloc\<close> say for each call whether the backend allocator and \<open>ggml_aligned_malloc\<close> succeed.
\<close>

definition lut_packed :: "'c lut_globals option \<times> nat \<Rightarrow> nat \<Rightarrow> bool" where
  "lut_packed s t = (case fst s of None \<Rightarrow> False | Some g \<Rightarrow> has_packed g t)"

definition lut_transform ::
    "'f float_ops \<Rightarrow> (nat \<Rightarrow> weight_data) \<Rightarrow> (nat \<Rightarrow> nat ggml_tensor) \<Rightarrow> (nat \<Rightarrow> bool) \<Rightarrow> (nat \<Rightarrow> bool) \<Rightarrow> nat \<Rightarrow>
     'f lut_content lut_globals option \<times> nat \<Rightarrow> 'f lut_content lut_globals option \<times> nat" where
  "lut_transform ops W tensors alloc malloc t = (\<lambda>(so, n).
     (Option.bind so (\<lambda>g.
        map_option snd (ggml_ifairy_lut_transform_tensor ops W (alloc n) (malloc n) t (Some (tensors t)) g)), Suc n))"

definition packer_inv ::
    "'f float_ops \<Rightarrow> (nat \<Rightarrow> weight_data) \<Rightarrow> (nat \<Rightarrow> nat ggml_tensor) \<Rightarrow> 'f lut_content lut_globals option \<times> nat \<Rightarrow> bool" where
  "packer_inv ops W tensors s \<longleftrightarrow> (\<forall>t. transform_plan (tensors t) \<noteq> Aborts) \<and>
     (\<exists>g. fst s = Some g \<and> lut_reachable (plans_of tensors) (transform_content ops W) (g, \<lambda>_. None))"

lemma lut_transform_step:
  assumes "packer_inv ops W tensors s"
  shows "packer_inv ops W tensors (lut_transform ops W tensors alloc malloc t s)"
    and "lut_packed s t' \<Longrightarrow> lut_packed (lut_transform ops W tensors alloc malloc t s) t'"
    and "packable ops W (tensors t) \<and> (\<forall>n. alloc n \<or> malloc n) \<Longrightarrow> lut_packed (lut_transform ops W tensors alloc malloc t s) t"
proof -
  obtain g n where g: "s = (Some g, n)" "lut_reachable (plans_of tensors) (transform_content ops W) (g, \<lambda>_. None)"
    and na: "\<forall>t. transform_plan (tensors t) \<noteq> Aborts" using assms by (cases s) (auto simp: packer_inv_def)
  show "packer_inv ops W tensors (lut_transform ops W tensors alloc malloc t s)"
    and "lut_packed s t' \<Longrightarrow> lut_packed (lut_transform ops W tensors alloc malloc t s) t'"
    and "packable ops W (tensors t) \<and> (\<forall>n. alloc n \<or> malloc n) \<Longrightarrow> lut_packed (lut_transform ops W tensors alloc malloc t s) t"
    using transform_tensor_steps [OF g(2), of t "alloc n" "malloc n"] na
    by (auto simp: lut_transform_def packer_inv_def lut_packed_def g(1))
qed

interpretation packer: weight_packer "lut_packed" "lut_transform ops W tensors alloc malloc"
    "\<lambda>t. packable ops W (tensors t) \<and> (\<forall>n. alloc n \<or> malloc n)" "packer_inv ops W tensors"
  for ops W tensors alloc malloc
  by unfold_locales (fact lut_transform_step)+

text \<open>
  C10: the graph preparation, when no weight's size computation overflows (such a weight aborts the program): whatever the
  allocators do, it leaves a state of the cache the concurrent protocol can reach, in which no weight has lost its packed
  form. When in each packing call an allocator succeeds and the backend is enabled, every weight an admitted product or a
  wide linear operator of the graph uses, and that has a packed form at all, carries it.
\<close>

theorem prepare_graph_packs_weights:
  assumes "lut_reachable (plans_of tensors) (transform_content ops W) (g, \<lambda>_. None)"
    and "\<forall>t. transform_plan (tensors t) \<noteq> Aborts"
  shows "\<exists>g' n'. ggml_legacy_ifairy_cpu_prepare_graph env arch lut_packed (lut_transform ops W tensors alloc malloc) nodes (Some g, n) =
      (Some g', n') \<and>
    lut_reachable (plans_of tensors) (transform_content ops W) (g', \<lambda>_. None) \<and> (\<forall>t. has_packed g t \<longrightarrow> has_packed g' t) \<and>
    ((\<forall>n. alloc n \<or> malloc n) \<longrightarrow> lut_enabled (ggml_legacy_ifairy_lut_config_from_env env) \<longrightarrow>
      (\<forall>node\<in>set nodes. \<forall>t. needs_packed env arch node t \<longrightarrow> packable ops W (tensors t) \<longrightarrow> has_packed g' t))"
proof -
  let ?s = "ggml_legacy_ifairy_cpu_prepare_graph env arch lut_packed (lut_transform ops W tensors alloc malloc) nodes (Some g, n)"
  have inv: "packer_inv ops W tensors (Some g, n)" using assms by (simp add: packer_inv_def)
  obtain g' n' where s: "?s = (Some g', n')" and reach: "lut_reachable (plans_of tensors) (transform_content ops W) (g', \<lambda>_. None)"
    using packer.prepare_graph_inv [OF inv, of env arch alloc malloc nodes] by (cases ?s) (auto simp: packer_inv_def)
  have packs: "has_packed g' t" if "\<forall>n. alloc n \<or> malloc n" "lut_enabled (ggml_legacy_ifairy_lut_config_from_env env)"
      "node \<in> set nodes" "needs_packed env arch node t" "packable ops W (tensors t)" for node t
    using packer.prepare_graph_packs [OF inv that(3,4) _ that(2), of alloc malloc] that(1,5) s by (auto simp: lut_packed_def)
  have keeps: "has_packed g' t" if "has_packed g t" for t
    using packer.prepare_graph_keeps [OF inv, of t env arch alloc malloc nodes] that s by (auto simp: lut_packed_def)
  show ?thesis using s reach packs keeps by blast
qed








section \<open>Instances\<close>

text \<open>One 256-wide row, one float column, one worker.\<close>

definition example_env :: environment where
  "example_env = [''GGML_IFAIRY_LUT'' \<mapsto> ''1'']"

definition example_column :: "act_data ggml_tensor" where
  "example_column = dense_tensor GGML_TYPE_F32 256 1 1 1 (ActF32 (\<lambda>j. (word_of_nat (j * 37), word_of_nat (j * 91))))"

definition example_product :: "unit ggml_tensor" where
  "example_product = dense_tensor GGML_TYPE_F32 1 1 1 1 ()"

lemma example_wsize:
  "ggml_ifairy_lut_get_wsize example_env True example_tensor example_column example_product = Some 8832"
  by (simp add: ggml_ifairy_lut_get_wsize_def ggml_ifairy_lut_can_mul_mat_def ggml_ifairy_lut_get_type_info_def
      example_env_def example_tensor_def example_column_def example_product_def Let_def c_div_def size_of_i64_def
      ggml_ifairy_checked_mul_size_def ggml_ifairy_checked_add_size_def pad_size_def)

lemma mul_mat_buffer_fits_witness:
  "GGML_PAD (1 * ggml_row_size GGML_TYPE_IFAIRY_Q16 256) 64 + 1 * (256 div 256) * 128 * 64 + 1 * (256 div 256) * 2 * 4 \<le> (8832::nat)"
  using mul_mat_buffer_fits [OF _ _ example_wsize, of 256 1]
  by (simp add: ggml_ifairy_lut_can_mul_mat_def ggml_ifairy_lut_get_type_info_def
      example_env_def example_tensor_def example_column_def example_product_def)

text \<open>Tensor scaling, one worker in each phase.\<close>

definition example_config :: ggml_legacy_ifairy_lut_config where
  "example_config = ggml_legacy_ifairy_lut_config_from_env example_env"

definition example_buffers :: "real mul_mat_buffers" where
  "example_buffers = \<lparr>mb_q = (\<lambda>_. []), mb_lut = (\<lambda>_. 0), mb_scales = (\<lambda>_. 0)\<rparr>"

lemma mul_mat_correct_witness:
  "\<exists>tiles out'. ggml_legacy_ifairy_cpu_compute_mul_mat (exact_ops (\<lambda>h. real_of_int (sint h)) (\<lambda>_. 0) (\<lambda>r. word_of_int \<lfloor>r\<rfloor>))
      real_quant_ops example_env True example_config example_tensor example_column example_product (Some tiles) (Some 8832)
      1 [0] [0] [0] example_buffers (\<lambda>_. \<lparr>slot_f32 = (\<lambda>_. (0, 0)), slot_bf16 = (\<lambda>_. (0, 0))\<rparr>) = Some (True, out') \<and>
    (\<forall>col<1. \<forall>row<1. slot_bf16 (out' col) row =
      (let (re, im) = ifairy_reference (exact_ops (\<lambda>h. real_of_int (sint h)) (\<lambda>_. 0) (\<lambda>r. word_of_int \<lfloor>r\<rfloor>))
             (drop (row * (256 div 256)) [\<lparr>qs = replicate 64 0x1B, d_real = 2, d_imag = 3\<rparr>])
             (mul_mat_activation real_quant_ops example_config example_column 256 col) (256 div 256)
       in (f_to_bf16 (exact_ops (\<lambda>h. real_of_int (sint h)) (\<lambda>_. 0) (\<lambda>r. word_of_int \<lfloor>r\<rfloor>)) re,
           f_to_bf16 (exact_ops (\<lambda>h. real_of_int (sint h)) (\<lambda>_. 0) (\<lambda>r. word_of_int \<lfloor>r\<rfloor>)) im)) \<and>
      ifairy_reference (exact_ops (\<lambda>h. real_of_int (sint h)) (\<lambda>_. 0) (\<lambda>r. word_of_int \<lfloor>r\<rfloor>))
          (drop (row * (256 div 256)) [\<lparr>qs = replicate 64 0x1B, d_real = 2, d_imag = 3\<rparr>])
          (mul_mat_activation real_quant_ops example_config example_column 256 col) (256 div 256) =
      (let z = ifairy_product (\<lambda>h. real_of_int (sint h)) (drop (row * (256 div 256)) [\<lparr>qs = replicate 64 0x1B, d_real = 2, d_imag = 3\<rparr>])
             (mul_mat_activation real_quant_ops example_config example_column 256 col) 256 in (Re z, Im z)))"
proof -
  let ?ops = "exact_ops (\<lambda>h. real_of_int (sint h)) (\<lambda>_. 0) (\<lambda>r. word_of_int \<lfloor>r\<rfloor>)"
  obtain idx where "ggml_ifairy_2w_encode [\<lparr>qs = replicate 64 0x1B, d_real = 2, d_imag = 3\<rparr>] 256 1 (replicate 128 0) =
      Some (True, idx)"
    using ifairy.encode_ok [of 256 1 "replicate 128 0"] by auto
  then obtain tiles where c: "transform_content ?ops example_weights (plan_key example_plan) = Some (Content256 idx tiles)"
    by (auto simp: transform_content_def example_weights_def example_plan_def)
  show ?thesis
  proof (rule exI [of _ tiles], rule mul_mat_correct [OF example_wsize _ _ _ _ _ _ _ _ _ _ _ _ c])
    fix d assume "tdata example_column = ActQ16 d"
    then show "q16_in_lut_range d 1 (256 div 256)" by (simp add: example_column_def dense_tensor_def)
  qed (auto simp: example_tensor_def example_column_def example_weights_def example_plan_def)
qed



text \<open>A graph with one product, prepared from the initial state.\<close>

definition example_node :: "nat ggml_node" where
  "example_node = \<lparr>ttype = GGML_TYPE_F32, top = GGML_OP_MUL_MAT, ne = (\<lambda>_. 1), nb = (\<lambda>_. 4), tdata = 5,
     src = [0 \<mapsto> example_tensor, 1 \<mapsto> dense_tensor GGML_TYPE_F32 256 1 1 1 7]\<rparr>"

lemma example_node_admitted: "needs_packed example_env True (Some example_node) 0"
proof -
  have fields: "ttype example_tensor = GGML_TYPE_IFAIRY" "top example_tensor = GGML_OP_NONE" "tdata example_tensor = 0"
    "ne example_tensor 0 = 256" "ne example_tensor (Suc 0) = 1" "ne example_tensor 2 = 1" "ne example_tensor 3 = 1" "ggml_is_matrix example_tensor" "ggml_is_contiguous example_tensor"
    by (simp_all add: example_tensor_def ggml_is_matrix_def dense_tensor_contiguous)
  show ?thesis
    by (simp add: needs_packed_def example_node_def ggml_legacy_ifairy_cpu_can_mul_mat_def fields ggml_is_matrix_def
        ggml_ifairy_env_enabled_def ggml_ifairy_lut_can_mul_mat_def ggml_ifairy_lut_get_type_info_def example_env_def)
qed

lemma prepare_graph_packs_weights_witness:
  "\<exists>g' n'. ggml_legacy_ifairy_cpu_prepare_graph example_env True lut_packed
      (lut_transform (exact_ops (\<lambda>h. 0) (\<lambda>_. 0) (\<lambda>_. 0)) example_weights (\<lambda>_. example_tensor) ((<) 0) (\<lambda>n. n = 0))
      [None, Some example_node] (Some lut_init, 0) = (Some g', n') \<and>
    lut_reachable (plans_of (\<lambda>_. example_tensor)) (transform_content (exact_ops (\<lambda>h. 0) (\<lambda>_. 0) (\<lambda>_. 0)) example_weights) (g', \<lambda>_. None) \<and>
    has_packed g' 0"
proof -
  have "lut_enabled (ggml_legacy_ifairy_lut_config_from_env example_env)"
    by (simp add: ggml_legacy_ifairy_lut_config_from_env_def ggml_ifairy_env_enabled_def example_env_def)
  moreover have "packable (exact_ops (\<lambda>h. 0) (\<lambda>_. 0) (\<lambda>_. 0)) example_weights example_tensor"
    using example_content by (auto simp: packable_def example_plan)
  ultimately show ?thesis
    using prepare_graph_packs_weights [OF lut_reachable.start, where tensors = "\<lambda>_. example_tensor" and W = example_weights
        and ops = "exact_ops (\<lambda>h. 0) (\<lambda>_. 0) (\<lambda>_. 0)" and env = example_env and arch = True and alloc = "(<) 0"
        and malloc = "\<lambda>n. n = 0" and nodes = "[None, Some example_node]" and n = 0] example_node_admitted
    by (auto simp: example_plan)
qed

end
