(* ===== verification/Job_Pool.thy ===== *)
theory Job_Pool
  imports Prelude
begin

text \<open>
  Distribution of jobs over the workers of a thread pool, as the row-4 backend does it: either the
  static stride \<open>job = ith; job < jobs; job += nth\<close>, or a shared atomic counter from which each worker
  fetches its next job until the counter passes the end. A schedule is the order in which the
  workers act; an action is a \<open>fetch_add\<close> or a whole job. The locale states what the kernels rely
  on: a job that writes its own cells, and only those, with values that do not depend on the
  state, leaves the same result under every distribution.
\<close>

datatype pool_worker = Fetching | Working nat | Finished

type_synonym 's pool = "nat \<times> (nat \<Rightarrow> pool_worker) \<times> 's"

definition pool_step :: "(nat \<Rightarrow> nat \<Rightarrow> 's \<Rightarrow> 's) \<Rightarrow> nat \<Rightarrow> nat \<Rightarrow> 's pool \<Rightarrow> 's pool" where
  "pool_step run jobs ith = (\<lambda>(c, W, s).
     case W ith of
       Fetching \<Rightarrow> (c + 1, W(ith := if c < jobs then Working c else Finished), s)
     | Working j \<Rightarrow> (c, W(ith := Fetching), run ith j s)
     | Finished \<Rightarrow> (c, W, s))"

definition pool_start :: "nat \<Rightarrow> 's \<Rightarrow> 's pool" where
  "pool_start nthr s = (0, (\<lambda>ith. if ith < nthr then Fetching else Finished), s)"

definition pool_run :: "(nat \<Rightarrow> nat \<Rightarrow> 's \<Rightarrow> 's) \<Rightarrow> nat \<Rightarrow> nat \<Rightarrow> nat list \<Rightarrow> 's \<Rightarrow> 's pool" where
  "pool_run run jobs nthr sched s = fold (pool_step run jobs) sched (pool_start nthr s)"

definition pool_finished :: "nat \<Rightarrow> 's pool \<Rightarrow> bool" where
  "pool_finished nthr p = list_all (\<lambda>ith. fst (snd p) ith = Finished) [0..<nthr]"

definition pool_state :: "'s pool \<Rightarrow> 's" where
  "pool_state p = snd (snd p)"

text \<open>The static distribution, the workers in the order \<open>ws\<close>.\<close>

definition static_run :: "(nat \<Rightarrow> nat \<Rightarrow> 's \<Rightarrow> 's) \<Rightarrow> nat \<Rightarrow> nat \<Rightarrow> nat list \<Rightarrow> 's \<Rightarrow> 's" where
  "static_run run jobs nthr ws = fold (\<lambda>ith. fold (run ith) (strided ith nthr jobs)) ws"

section \<open>Every worker gets to the end\<close>

text \<open>\<open>n\<close> counts the actions worker \<open>ith\<close> has taken; none acts more than \<open>2 * jobs + 1\<close> times.\<close>

definition pool_progress :: "nat \<Rightarrow> nat \<Rightarrow> nat \<Rightarrow> 's pool \<Rightarrow> bool" where
  "pool_progress jobs ith n p =
     (case fst (snd p) ith of
        Fetching \<Rightarrow> n \<le> 2 * min (fst p) jobs
      | Working j \<Rightarrow> n \<le> 2 * j + 1 \<and> j < fst p \<and> j < jobs
      | Finished \<Rightarrow> True)"

lemma pool_step_Finished:
  "fst (snd p) i = Finished \<Longrightarrow> fst (snd (pool_step run jobs w p)) i = Finished"
  by (cases p) (auto simp: pool_step_def split: pool_worker.splits)

lemma pool_progress_step:
  "pool_progress jobs ith n p \<Longrightarrow>
   pool_progress jobs ith (if w = ith then Suc n else n) (pool_step run jobs w p)"
  by (auto simp: pool_progress_def pool_step_def split: prod.splits pool_worker.splits)

lemma pool_progress_fold:
  "pool_progress jobs ith n p \<Longrightarrow> pool_progress jobs ith (n + count_list sched ith) (fold (pool_step run jobs) sched p)"
proof (induction sched arbitrary: n p)
  case (Cons w sched)
  show ?case using Cons.IH [OF pool_progress_step [OF Cons.prems, of w run]] by (cases "w = ith") auto
qed simp

lemma pool_run_finishes:
  assumes "\<forall>ith<nthr. 2 * jobs < count_list sched ith"
  shows "pool_finished nthr (pool_run run jobs nthr sched s)"
proof -
  have "fst (snd (pool_run run jobs nthr sched s)) ith = Finished" if "ith < nthr" for ith
  proof -
    have "pool_progress jobs ith 0 (pool_start nthr s)" by (simp add: pool_progress_def pool_start_def)
    from pool_progress_fold [OF this, of sched run]
    have "pool_progress jobs ith (count_list sched ith) (pool_run run jobs nthr sched s)" by (simp add: pool_run_def)
    with assms that show ?thesis by (fastforce simp: pool_progress_def split: pool_worker.splits)
  qed
  then show ?thesis by (simp add: pool_finished_def list_all_iff)
qed

section \<open>Jobs with cells of their own\<close>

locale job_pool =
  fixes run :: "nat \<Rightarrow> nat \<Rightarrow> 's \<Rightarrow> 's" and jobs :: nat
    and obs :: "'s \<Rightarrow> 'a \<Rightarrow> 'v" and job_of :: "'a \<Rightarrow> nat" and val :: "'a \<Rightarrow> 'v"
  assumes run_obs: "j < jobs \<Longrightarrow> obs (run ith j s) a = (if job_of a = j then val a else obs s a)"
begin

definition pool_inv :: "nat \<Rightarrow> 's \<Rightarrow> 's pool \<Rightarrow> bool" where
  "pool_inv nthr s0 p \<longleftrightarrow>
     (\<forall>i j. fst (snd p) i = Working j \<longrightarrow> j < fst p \<and> j < jobs) \<and>
     (\<forall>i i' j. fst (snd p) i = Working j \<longrightarrow> fst (snd p) i' = Working j \<longrightarrow> i = i') \<and>
     (\<forall>i<nthr. fst (snd p) i = Finished \<longrightarrow> jobs \<le> fst p) \<and>
     (\<forall>a. job_of a < jobs \<longrightarrow> job_of a < fst p \<longrightarrow> (\<forall>i. fst (snd p) i \<noteq> Working (job_of a)) \<longrightarrow> obs (snd (snd p)) a = val a) \<and>
     (\<forall>a. jobs \<le> job_of a \<longrightarrow> obs (snd (snd p)) a = obs s0 a)"

lemma pool_inv_start: "pool_inv nthr s (pool_start nthr s)"
  by (simp add: pool_inv_def pool_start_def)

lemma pool_inv_step:
  assumes inv: "pool_inv nthr s0 (c, W, s)"
  shows "pool_inv nthr s0 (pool_step run jobs w (c, W, s))"
proof (cases "W w")
  case Fetching
  have "obs s a = val a"
    if "job_of a < jobs" "job_of a < Suc c" "\<forall>i. (W(w := if c < jobs then Working c else Finished)) i \<noteq> Working (job_of a)" for a
  proof -
    have "job_of a \<noteq> c" using that(1,3) by (metis fun_upd_same)
    moreover have "W i \<noteq> Working (job_of a)" for i using that(3) Fetching by (metis fun_upd_apply pool_worker.distinct(1))
    ultimately show ?thesis using inv that(1,2) by (auto simp: pool_inv_def)
  qed
  then show ?thesis using inv Fetching unfolding pool_inv_def by (auto simp: pool_step_def less_Suc_eq)
next
  case (Working j)
  then have j: "j < jobs" "j < c" using inv by (auto simp: pool_inv_def)
  have "obs (run w j s) a = val a"
    if "job_of a < jobs" "job_of a < c" "\<forall>i. (W(w := Fetching)) i \<noteq> Working (job_of a)" for a
  proof (cases "job_of a = j")
    case False
    then have "W i \<noteq> Working (job_of a)" for i using that(3) Working by (metis fun_upd_apply pool_worker.inject)
    then show ?thesis using inv that(1,2) False run_obs [OF j(1)] by (auto simp: pool_inv_def)
  qed (simp add: run_obs [OF j(1)])
  moreover have "obs (run w j s) a = obs s0 a" if "jobs \<le> job_of a" for a
    using that inv j(1) by (simp add: run_obs [OF j(1)] pool_inv_def)
  ultimately show ?thesis using inv Working unfolding pool_inv_def by (simp add: pool_step_def)
qed (use inv in \<open>simp add: pool_step_def\<close>)

lemma pool_run_inv: "pool_inv nthr s (pool_run run jobs nthr sched s)"
proof -
  have "pool_inv nthr s (fold (pool_step run jobs) sched p)" if "pool_inv nthr s p" for p
    using that
  proof (induction sched arbitrary: p)
    case (Cons w sched)
    then show ?case using pool_inv_step by (cases p) auto
  qed simp
  then show ?thesis unfolding pool_run_def using pool_inv_start by blast
qed

text \<open>Whatever the schedule, once all workers are through every cell has its value.\<close>

lemma pool_result:
  assumes "0 < nthr" "pool_finished nthr (pool_run run jobs nthr sched s)"
  shows "obs (pool_state (pool_run run jobs nthr sched s)) a = (if job_of a < jobs then val a else obs s a)"
proof -
  let ?p = "pool_run run jobs nthr sched s"
  have inv: "pool_inv nthr s ?p" by (rule pool_run_inv)
  have fin: "i < nthr \<Longrightarrow> fst (snd ?p) i = Finished" for i using assms(2) by (simp add: pool_finished_def list_all_iff)
  have "fst (snd (fold (pool_step run jobs) sched p)) i = Finished" if "fst (snd p) i = Finished" for i p
    using that by (induction sched arbitrary: p) (simp_all add: pool_step_Finished)
  then have "fst (snd ?p) i = Finished" if "\<not> i < nthr" for i
    using that by (simp add: pool_run_def pool_start_def)
  then have idle: "fst (snd ?p) i = Finished" for i using fin by blast
  have "jobs \<le> fst ?p" using inv fin [OF assms(1)] assms(1) by (auto simp: pool_inv_def)
  then show ?thesis using inv idle by (auto simp: pool_inv_def pool_state_def)
qed

lemma static_result:
  assumes "0 < nthr" "set ws = {..<nthr}"
  shows "obs (static_run run jobs nthr ws s) a = (if job_of a < jobs then val a else obs s a)"
proof -
  have one: "obs (fold (run ith) js s) a = (if job_of a \<in> set js then val a else obs s a)"
    if "set js \<subseteq> {..<jobs}" for ith js s
    using that by (induction js arbitrary: s) (auto simp: run_obs)
  have sub: "set (strided ith nthr jobs) \<subseteq> {..<jobs}" for ith
    by (cases "ith < jobs") (use assms(1) in \<open>auto simp: set_strided\<close>)
  have "obs (fold (\<lambda>ith. fold (run ith) (strided ith nthr jobs)) xs s) a =
      (if \<exists>ith\<in>set xs. job_of a \<in> set (strided ith nthr jobs) then val a else obs s a)" for xs
    by (induction xs arbitrary: s) (auto simp: one [OF sub])
  then show ?thesis unfolding static_run_def by (simp only: strided_cover [OF assms])
qed

end

end
