(* ===== verification/Row4_Kernels.thy ===== *)
theory Row4_Kernels
  imports Ggml_Tensor Job_Pool
begin

text \<open>
  The row-4 and W8A8 linear operators of the CPU backend (\<open>ggml-cpu/row4/row4-cpu.cpp\<close>): the code
  layouts, the activation quantiser and its panel layout, and the four kernels (scalar, dot
  product, direct and panel matrix multiply).

  \<open>int8_t\<close> and \<open>uint8_t\<close> cells are \<open>u8\<close>, read with \<open>sint\<close>/\<open>uint\<close>; accumulators are \<open>u32\<close> and wrap.
  Tensor payloads are functions of the byte offset (\<open>codes\<close>, \<open>scales\<close>) or of the element index
  (activations, output). The floating-point operations and the NEON intrinsics are arguments;
  \<open>neon_ok\<close> states the documented effect of the intrinsics.
\<close>

section \<open>Arguments of the kernels\<close>

record 'f row4_float =
  rf_lit :: "real \<Rightarrow> 'f"
  rf_less :: "'f \<Rightarrow> 'f \<Rightarrow> bool"
  rf_abs :: "'f \<Rightarrow> 'f"
  rf_add :: "'f \<Rightarrow> 'f \<Rightarrow> 'f"
  rf_mult :: "'f \<Rightarrow> 'f \<Rightarrow> 'f"
  rf_div :: "'f \<Rightarrow> 'f \<Rightarrow> 'f"
  rf_floor :: "'f \<Rightarrow> 'f"
  rf_copysign :: "'f \<Rightarrow> 'f \<Rightarrow> 'f"
  rf_of_s32 :: "u32 \<Rightarrow> 'f"
  rf_to_s8 :: "'f \<Rightarrow> u8"
  rf_of_bf16 :: "u16 \<Rightarrow> 'f"
  rf_to_bf16 :: "'f \<Rightarrow> u16"

text \<open>\<open>int8x16_t\<close> and \<open>uint8x8_t\<close> are lists of bytes, \<open>int32x4_t\<close> a list of four accumulators.\<close>

record neon_ops =
  vand_u8 :: "u8 list \<Rightarrow> u8 list \<Rightarrow> u8 list"
  vshr_n_u8 :: "u8 list \<Rightarrow> nat \<Rightarrow> u8 list"
  vcombine :: "u8 list \<Rightarrow> u8 list \<Rightarrow> u8 list"
  vget_low :: "u8 list \<Rightarrow> u8 list"
  vget_high :: "u8 list \<Rightarrow> u8 list"
  vqtbl1q_s8 :: "u8 list \<Rightarrow> u8 list \<Rightarrow> u8 list"
  vdotq_s32 :: "u32 list \<Rightarrow> u8 list \<Rightarrow> u8 list \<Rightarrow> u32 list"
  vaddvq_s32 :: "u32 list \<Rightarrow> u32"
  vmmlaq_s32 :: "u32 list \<Rightarrow> u8 list \<Rightarrow> u8 list \<Rightarrow> u32 list"

text \<open>The product of two signed bytes as an accumulator term.\<close>

definition s8_mul :: "u8 \<Rightarrow> u8 \<Rightarrow> u32" where
  "s8_mul a b = word_of_int (sint a * sint b)"

definition neon_ok :: "neon_ops \<Rightarrow> bool" where
  "neon_ok N \<longleftrightarrow>
     (\<forall>a b. length a = 8 \<longrightarrow> length b = 8 \<longrightarrow> vand_u8 N a b = map2 (AND) a b) \<and>
     (\<forall>a n. length a = 8 \<longrightarrow> vshr_n_u8 N a n = map (drop_bit n) a) \<and>
     (\<forall>a b. length a = 8 \<longrightarrow> length b = 8 \<longrightarrow> vcombine N a b = a @ b) \<and>
     (\<forall>a. length a = 16 \<longrightarrow> vget_low N a = take 8 a \<and> vget_high N a = drop 8 a) \<and>
     (\<forall>t ix. length t = 16 \<longrightarrow> length ix = 16 \<longrightarrow>
        vqtbl1q_s8 N t ix = map (\<lambda>i. if unat i < 16 then t ! unat i else 0) ix) \<and>
     (\<forall>acc a b. length acc = 4 \<longrightarrow> length a = 16 \<longrightarrow> length b = 16 \<longrightarrow>
        vdotq_s32 N acc a b = map (\<lambda>i. acc ! i + (\<Sum>t<4. s8_mul (a ! (4 * i + t)) (b ! (4 * i + t)))) [0..<4]) \<and>
     (\<forall>acc. length acc = 4 \<longrightarrow> vaddvq_s32 N acc = sum_list acc) \<and>
     (\<forall>acc a b. length acc = 4 \<longrightarrow> length a = 16 \<longrightarrow> length b = 16 \<longrightarrow>
        vmmlaq_s32 N acc a b =
          map (\<lambda>l. acc ! l + (\<Sum>t<8. s8_mul (a ! (8 * (l div 2) + t)) (b ! (8 * (l mod 2) + t)))) [0..<4])"

text \<open>A load of \<open>n\<close> consecutive bytes.\<close>

definition load :: "(nat \<Rightarrow> u8) \<Rightarrow> nat \<Rightarrow> nat \<Rightarrow> u8 list" where
  "load m p n = map (\<lambda>i. m (p + i)) [0..<n]"

section \<open>Operator nodes\<close>

datatype 'f row4_data = DF32 "nat \<Rightarrow> 'f" | DBf16 "nat \<Rightarrow> u16" | DBytes "nat \<Rightarrow> u8"

record 'd row4_node = "'d ggml_node" +
  op_params :: "nat \<Rightarrow> int"

definition row4_codebook :: "int list list" where
  "row4_codebook =
     [[2, 0, 1, 1, 0, -2, -1, -1, 1, -1, 0, 0, 1, -1, 0, 0],
      [0, 0, -1, 1, 0, 0, -1, 1, 1, 1, 0, 2, -1, -1, -2, 0],
      [0, 0, 1, -1, 0, 0, 1, -1, 1, 1, 2, 0, -1, -1, 0, -2],
      [0, -2, -1, -1, 2, 0, 1, 1, 1, -1, 0, 0, 1, -1, 0, 0]]"

definition codes_bytes :: "('f row4_data, 'x) ggml_tensor_scheme \<Rightarrow> nat \<Rightarrow> u8" where
  "codes_bytes t = (case tdata t of DBytes m \<Rightarrow> m | _ \<Rightarrow> (\<lambda>_. 0))"

definition f32_data :: "('f row4_data, 'x) ggml_tensor_scheme \<Rightarrow> nat \<Rightarrow> 'f" where
  "f32_data t = (case tdata t of DF32 m \<Rightarrow> m | _ \<Rightarrow> undefined)"

text \<open>Weights as signed bytes.\<close>

definition row4_weight_at :: "('f row4_data, 'x) ggml_tensor_scheme \<Rightarrow> nat \<Rightarrow> nat \<Rightarrow> u8" where
  "row4_weight_at codes oi k =
     (let ot = oi div 16; row = oi mod 16; group = row div 4; channel = row mod 4;
          kt = k div 128; inner = k mod 128; split = inner div 16; lane = inner mod 16;
          byte = split * 8 + lane mod 8;
          packed = codes_bytes codes (ot * nb codes 3 + kt * nb codes 2 + group * nb codes 1 + byte);
          code = (if lane < 8 then packed AND 0x0f else drop_bit 4 packed)
      in word_of_int (row4_codebook ! channel ! unat code))"

definition w8_weight_at :: "('f row4_data, 'x) ggml_tensor_scheme \<Rightarrow> nat \<Rightarrow> nat \<Rightarrow> u8" where
  "w8_weight_at codes oi k =
     (let ot = oi div 16; row = oi mod 16; kt = k div 128; inner = k mod 128
      in codes_bytes codes (ot * nb codes 3 + kt * nb codes 2 + row * nb codes 1 + inner))"

definition weight_scale_at :: "'f row4_float \<Rightarrow> ('f row4_data, 'x) ggml_tensor_scheme \<Rightarrow> nat \<Rightarrow> 'f" where
  "weight_scale_at F scales oi =
     (case tdata scales of
        DBf16 m \<Rightarrow> rf_of_bf16 F (m (oi * nb scales 0))
      | DF32 m \<Rightarrow> m (oi * nb scales 0)
      | DBytes m \<Rightarrow> rf_lit F 0)"

section \<open>Activations\<close>

definition rf_max :: "'f row4_float \<Rightarrow> 'f \<Rightarrow> 'f \<Rightarrow> 'f" where
  "rf_max F a b = (if rf_less F a b then b else a)"

definition rf_min :: "'f row4_float \<Rightarrow> 'f \<Rightarrow> 'f \<Rightarrow> 'f" where
  "rf_min F a b = (if rf_less F b a then b else a)"

definition bf16_round_trip :: "'f row4_float \<Rightarrow> 'f \<Rightarrow> 'f" where
  "bf16_round_trip F v = rf_of_bf16 F (rf_to_bf16 F v)"

definition quantize_activation :: "'f row4_float \<Rightarrow> 'f \<Rightarrow> 'f \<Rightarrow> u8" where
  "quantize_activation F v scale =
     (let magnitude = rf_floor F (rf_add F (rf_abs F (rf_div F v scale)) (rf_lit F (1 / 2)));
          rounded = rf_copysign F magnitude v
      in rf_to_s8 F (rf_max F (rf_lit F (-127)) (rf_min F (rf_lit F 127) rounded)))"

definition activation_scale :: "'f row4_float \<Rightarrow> (nat \<Rightarrow> 'f) \<Rightarrow> nat \<Rightarrow> 'f" where
  "activation_scale F x k =
     (let amax = fold (\<lambda>i m. rf_max F m (rf_abs F (bf16_round_trip F (x i)))) [0..<k] (rf_lit F 0)
      in rf_max F (rf_div F amax (rf_lit F 127)) (rf_lit F (1 / 10 ^ 8)))"

text \<open>Both layouts write the activation memory at byte offsets.\<close>

definition quantize_activation_row ::
    "'f row4_float \<Rightarrow> (nat \<Rightarrow> 'f) \<Rightarrow> nat \<Rightarrow> nat \<Rightarrow> (nat \<Rightarrow> u8) \<Rightarrow> nat \<Rightarrow> u8" where
  "quantize_activation_row F x dst k mem =
     (let scale = activation_scale F x k
      in fold (\<lambda>i m. m(dst + i := quantize_activation F (bf16_round_trip F (x i)) scale)) [0..<k] mem)"

definition quantize_activation_panel_row ::
    "'f row4_float \<Rightarrow> (nat \<Rightarrow> 'f) \<Rightarrow> nat \<Rightarrow> nat \<Rightarrow> (nat \<Rightarrow> u8) \<Rightarrow> nat \<Rightarrow> u8" where
  "quantize_activation_panel_row F x token k mem =
     (let scale = activation_scale F x k; pair = token div 2 * (2 * k); token_off = token mod 2 * 8
      in fold (\<lambda>ik m. store_at (pair + ik div 8 * 16 + token_off)
                 (map (\<lambda>lane. quantize_activation F (bf16_round_trip F (x (ik + lane))) scale) [0..<8]) m)
           (strided 0 8 k) mem)"

definition zero_activation_panel_row :: "nat \<Rightarrow> nat \<Rightarrow> (nat \<Rightarrow> u8) \<Rightarrow> nat \<Rightarrow> u8" where
  "zero_activation_panel_row token k mem =
     (let pair = token div 2 * (2 * k); token_off = token mod 2 * 8
      in fold (\<lambda>ik m. store_at (pair + ik div 8 * 16 + token_off) (replicate 8 0) m) (strided 0 8 k) mem)"

section \<open>Results\<close>

text \<open>The value an accumulator becomes, and the slot it is stored in; \<open>w\<close> is the output width \<open>ne[0]\<close>.\<close>

definition result_value ::
    "'f row4_float \<Rightarrow> ('f row4_data, 'x) ggml_tensor_scheme \<Rightarrow> (nat \<Rightarrow> 'f) \<Rightarrow> nat \<Rightarrow> nat \<Rightarrow> u32 \<Rightarrow> 'f" where
  "result_value F scales act_scales token oi acc =
     (let activation_scaled = rf_mult F (rf_of_s32 F acc) (act_scales token);
          scaled = rf_mult F activation_scaled (weight_scale_at F scales oi)
      in bf16_round_trip F scaled)"

definition store_result ::
    "'f row4_float \<Rightarrow> nat \<Rightarrow> ('f row4_data, 'x) ggml_tensor_scheme \<Rightarrow> (nat \<Rightarrow> 'f) \<Rightarrow> nat \<Rightarrow> nat \<Rightarrow> u32 \<Rightarrow>
     (nat \<Rightarrow> 'f) \<Rightarrow> nat \<Rightarrow> 'f" where
  "store_result F w scales act_scales token oi acc out =
     out(token * w + oi := result_value F scales act_scales token oi acc)"

text \<open>What a kernel reads: the operator's sizes and sources, the quantised activations and scales.\<close>

record 'f row4_input =
  in_row4 :: bool
  in_codes :: "'f row4_data ggml_tensor"
  in_scales :: "'f row4_data ggml_tensor"
  in_k :: nat
  in_o :: nat
  in_tokens :: nat
  in_act :: "nat \<Rightarrow> u8"
  in_act_scales :: "nat \<Rightarrow> 'f"

definition weight_at :: "'f row4_input \<Rightarrow> nat \<Rightarrow> nat \<Rightarrow> u8" where
  "weight_at I oi k = (if in_row4 I then row4_weight_at (in_codes I) oi k else w8_weight_at (in_codes I) oi k)"

definition put ::
    "'f row4_float \<Rightarrow> 'f row4_input \<Rightarrow> nat \<Rightarrow> nat \<Rightarrow> u32 \<Rightarrow> (nat \<Rightarrow> 'f) \<Rightarrow> nat \<Rightarrow> 'f" where
  "put F I token oi acc out = store_result F (in_o I) (in_scales I) (in_act_scales I) token oi acc out"

section \<open>The scalar kernel\<close>

definition scalar_dot :: "'f row4_input \<Rightarrow> nat \<Rightarrow> nat \<Rightarrow> u32" where
  "scalar_dot I token row =
     fold (\<lambda>ik acc. acc + s8_mul (weight_at I row ik) (in_act I (token * in_k I + ik))) [0..<in_k I] 0"

definition compute_scalar ::
    "'f row4_float \<Rightarrow> 'f row4_input \<Rightarrow> nat \<Rightarrow> nat \<Rightarrow> (nat \<Rightarrow> 'f) \<Rightarrow> nat \<Rightarrow> 'f" where
  "compute_scalar F I nthr ith out =
     (let total = in_tokens I * in_o I
      in fold (\<lambda>index out. let token = index div in_o I; row = index mod in_o I
                            in put F I token row (scalar_dot I token row) out)
           [total * ith div nthr..<total * (ith + 1) div nthr] out)"

section \<open>The dot product kernels\<close>

text \<open>One job: a tile of sixteen output rows of one token; \<open>accs ! row\<close> is the row's accumulator.\<close>

definition decode_nibbles :: "neon_ops \<Rightarrow> u8 list \<Rightarrow> u8 list" where
  "decode_nibbles N bytes = vcombine N (vand_u8 N bytes (replicate 8 0x0f)) (vshr_n_u8 N bytes 4)"

definition row4_table :: "nat \<Rightarrow> u8 list" where
  "row4_table channel = map word_of_int (row4_codebook ! channel)"

definition row4_dotprod_sums :: "neon_ops \<Rightarrow> 'f row4_input \<Rightarrow> nat \<Rightarrow> nat \<Rightarrow> u32 list list" where
  "row4_dotprod_sums N I token ot =
     fold (\<lambda>kt. fold (\<lambda>split accs.
         let q = load (in_act I) (token * in_k I + kt * 128 + split * 16) 16
         in fold (\<lambda>group accs.
              let indexes = decode_nibbles N (load (codes_bytes (in_codes I))
                    (ot * nb (in_codes I) 3 + kt * nb (in_codes I) 2 + group * nb (in_codes I) 1 + split * 8) 8)
              in fold (\<lambda>channel accs. accs[group * 4 + channel :=
                     vdotq_s32 N (accs ! (group * 4 + channel)) (vqtbl1q_s8 N (row4_table channel) indexes) q])
                   [0..<4] accs) [0..<4] accs) [0..<8]) [0..<in_k I div 128] (replicate 16 (replicate 4 0))"

definition w8_dotprod_sums :: "neon_ops \<Rightarrow> 'f row4_input \<Rightarrow> nat \<Rightarrow> nat \<Rightarrow> u32 list list" where
  "w8_dotprod_sums N I token ot =
     fold (\<lambda>kt. fold (\<lambda>ik accs.
         let q = load (in_act I) (token * in_k I + kt * 128 + ik) 16
         in fold (\<lambda>row accs. accs[row := vdotq_s32 N (accs ! row)
                (load (codes_bytes (in_codes I))
                   (ot * nb (in_codes I) 3 + kt * nb (in_codes I) 2 + row * nb (in_codes I) 1 + ik) 16) q])
              [0..<16] accs) (strided 0 16 128)) [0..<in_k I div 128] (replicate 16 (replicate 4 0))"

definition dotprod_job ::
    "neon_ops \<Rightarrow> 'f row4_float \<Rightarrow> 'f row4_input \<Rightarrow> nat \<Rightarrow> nat \<Rightarrow> (nat \<Rightarrow> 'f) \<Rightarrow> nat \<Rightarrow> 'f" where
  "dotprod_job N F I ith job out =
     (let o_tiles = in_o I div 16; token = job div o_tiles; ot = job mod o_tiles;
          accs = (if in_row4 I then row4_dotprod_sums N I token ot else w8_dotprod_sums N I token ot)
      in fold (\<lambda>row out. put F I token (ot * 16 + row) (vaddvq_s32 N (accs ! row)) out) [0..<16] out)"

text \<open>
  All workers. One token: the jobs come from the counter, in the order of \<open>sched\<close>; else \<open>sched\<close>
  is the order in which the workers run their static share.
\<close>

definition compute_dotprod ::
    "neon_ops \<Rightarrow> 'f row4_float \<Rightarrow> 'f row4_input \<Rightarrow> nat \<Rightarrow> nat list \<Rightarrow> (nat \<Rightarrow> 'f) \<Rightarrow> nat \<Rightarrow> 'f" where
  "compute_dotprod N F I nthr sched out =
     (let jobs = in_tokens I * (in_o I div 16)
      in if in_tokens I = 1 then pool_state (pool_run (dotprod_job N F I) jobs nthr sched out)
         else static_run (dotprod_job N F I) jobs nthr sched out)"

section \<open>The matrix multiply kernels\<close>

definition decode_row4_group_16 :: "neon_ops \<Rightarrow> 'f row4_input \<Rightarrow> nat \<Rightarrow> nat \<Rightarrow> u8 list list" where
  "decode_row4_group_16 N I row0 k0 =
     (let ot = row0 div 16; group = row0 mod 16 div 4; kt = k0 div 128; split = k0 mod 128 div 16;
          indexes = decode_nibbles N (load (codes_bytes (in_codes I))
            (ot * nb (in_codes I) 3 + kt * nb (in_codes I) 2 + group * nb (in_codes I) 1 + split * 8) 8)
      in map (\<lambda>channel. vqtbl1q_s8 N (row4_table channel) indexes) [0..<4])"

definition load_w8_row_16 :: "'f row4_input \<Rightarrow> nat \<Rightarrow> nat \<Rightarrow> u8 list" where
  "load_w8_row_16 I row k0 =
     (let ot = row div 16; inner_row = row mod 16; kt = k0 div 128; inner = k0 mod 128
      in load (codes_bytes (in_codes I))
           (ot * nb (in_codes I) 3 + kt * nb (in_codes I) 2 + inner_row * nb (in_codes I) 1 + inner) 16)"

definition four_rows_16 :: "neon_ops \<Rightarrow> 'f row4_input \<Rightarrow> nat \<Rightarrow> nat \<Rightarrow> u8 list list" where
  "four_rows_16 N I row0 k0 =
     (if in_row4 I then decode_row4_group_16 N I row0 k0
      else map (\<lambda>row. load_w8_row_16 I (row0 + row) k0) [0..<4])"

definition i8mm_direct_sums :: "neon_ops \<Rightarrow> 'f row4_input \<Rightarrow> nat \<Rightarrow> nat \<Rightarrow> u32 list list" where
  "i8mm_direct_sums N I token0 row0 =
     fold (\<lambda>ik accs.
       let input0 = load (in_act I) (token0 * in_k I + ik) 16;
           input1 = (if token0 + 1 < in_tokens I then load (in_act I) ((token0 + 1) * in_k I + ik) 16 else replicate 16 0);
           weights = four_rows_16 N I row0 ik;
           input_lo = vcombine N (vget_low N input0) (vget_low N input1);
           input_hi = vcombine N (vget_high N input0) (vget_high N input1)
       in fold (\<lambda>row_pair accs. let row = 2 * row_pair in accs[row_pair :=
              vmmlaq_s32 N (vmmlaq_s32 N (accs ! row_pair) input_lo
                  (vcombine N (vget_low N (weights ! row)) (vget_low N (weights ! (row + 1)))))
                input_hi (vcombine N (vget_high N (weights ! row)) (vget_high N (weights ! (row + 1))))])
            [0..<2] accs)
     (strided 0 16 (in_k I)) (replicate 2 (replicate 4 0))"

text \<open>Storing a two-by-two accumulator: lanes 0 and 1 are the first token, 2 and 3 the second.\<close>

definition put_pair ::
    "'f row4_float \<Rightarrow> 'f row4_input \<Rightarrow> nat \<Rightarrow> nat \<Rightarrow> u32 list \<Rightarrow> (nat \<Rightarrow> 'f) \<Rightarrow> nat \<Rightarrow> 'f" where
  "put_pair F I token row v4 out =
     (let out = put F I token (row + 1) (v4 ! 1) (put F I token row (v4 ! 0) out)
      in if token + 1 < in_tokens I
         then put F I (token + 1) (row + 1) (v4 ! 3) (put F I (token + 1) row (v4 ! 2) out) else out)"

definition i8mm_direct_job ::
    "neon_ops \<Rightarrow> 'f row4_float \<Rightarrow> 'f row4_input \<Rightarrow> nat \<Rightarrow> nat \<Rightarrow> (nat \<Rightarrow> 'f) \<Rightarrow> nat \<Rightarrow> 'f" where
  "i8mm_direct_job N F I ith job out =
     (let row_groups = in_o I div 4; token0 = 2 * (job div row_groups); row0 = 4 * (job mod row_groups);
          accs = i8mm_direct_sums N I token0 row0
      in fold (\<lambda>row_pair out. put_pair F I token0 (row0 + 2 * row_pair) (accs ! row_pair) out) [0..<2] out)"

definition compute_i8mm_direct ::
    "neon_ops \<Rightarrow> 'f row4_float \<Rightarrow> 'f row4_input \<Rightarrow> nat \<Rightarrow> nat list \<Rightarrow> (nat \<Rightarrow> 'f) \<Rightarrow> nat \<Rightarrow> 'f" where
  "compute_i8mm_direct N F I nthr ws out =
     static_run (i8mm_direct_job N F I) ((in_tokens I + 1) div 2 * (in_o I div 4)) nthr ws out"

text \<open>The panel: four expanded rows, eight bytes of each row in turn.\<close>

definition expand_four_rows :: "neon_ops \<Rightarrow> 'f row4_input \<Rightarrow> nat \<Rightarrow> nat \<Rightarrow> (nat \<Rightarrow> u8) \<Rightarrow> nat \<Rightarrow> u8" where
  "expand_four_rows N I row0 base mem =
     fold (\<lambda>ik mem.
       let weights = four_rows_16 N I row0 ik
       in fold (\<lambda>half mem.
            let panel_offset = (ik div 8 + half) * 32;
                part = (\<lambda>r. if half = 0 then vget_low N (weights ! r) else vget_high N (weights ! r))
            in store_at (base + panel_offset + 16) (vcombine N (part 2) (part 3))
                 (store_at (base + panel_offset) (vcombine N (part 0) (part 1)) mem)) [0..<2] mem)
     (strided 0 16 (in_k I)) mem"

text \<open>Accumulators of four token pairs by four row pairs, \<open>accs ! (4 * pair + row_pair)\<close>.\<close>

definition i8mm_panel_sums :: "neon_ops \<Rightarrow> 'f row4_input \<Rightarrow> (nat \<Rightarrow> u8) \<Rightarrow> nat \<Rightarrow> u32 list list" where
  "i8mm_panel_sums N I panel token0 =
     fold (\<lambda>ik accs.
       let weights = (\<lambda>row_pair. load panel ((if row_pair < 2 then 0 else 4 * in_k I) + ik div 8 * 32 + row_pair mod 2 * 16) 16);
           inputs = token0 div 2 * (2 * in_k I) + ik div 8 * 16;
           input = (\<lambda>pair. load (in_act I) (inputs + pair * (2 * in_k I)) 16)
       in map (\<lambda>i. vmmlaq_s32 N (accs ! i) (input (i div 4)) (weights (i mod 4))) [0..<16])
     (strided 0 8 (in_k I)) (replicate 16 (replicate 4 0))"

definition i8mm_panel_store ::
    "'f row4_float \<Rightarrow> 'f row4_input \<Rightarrow> nat \<Rightarrow> nat \<Rightarrow> u32 list list \<Rightarrow> (nat \<Rightarrow> 'f) \<Rightarrow> nat \<Rightarrow> 'f" where
  "i8mm_panel_store F I token0 row0 accs out =
     fold (\<lambda>pair out. fold (\<lambda>row_pair out. put_pair F I (token0 + 2 * pair) (row0 + 2 * row_pair) (accs ! (4 * pair + row_pair)) out)
             [0..<4] out) (takeWhile (\<lambda>pair. token0 + 2 * pair < in_tokens I) [0..<4]) out"

text \<open>One job: a tile of sixteen rows, with the worker's own panel; the state is panels and output.\<close>

type_synonym 'f panel_state = "(nat \<Rightarrow> nat \<Rightarrow> u8) \<times> (nat \<Rightarrow> 'f)"

definition i8mm_panel_job ::
    "neon_ops \<Rightarrow> 'f row4_float \<Rightarrow> 'f row4_input \<Rightarrow> nat \<Rightarrow> nat \<Rightarrow> 'f panel_state \<Rightarrow> 'f panel_state" where
  "i8mm_panel_job N F I ith ot =
     fold (\<lambda>group (panels, out).
       let row0 = ot * 16 + group * 4;
           panel = expand_four_rows N I (row0 + 4) (4 * in_k I) (expand_four_rows N I row0 0 (panels ith));
           out = fold (\<lambda>token0 out. i8mm_panel_store F I token0 row0 (i8mm_panel_sums N I panel token0) out)
                   (strided 0 8 (in_tokens I)) out
       in (panels(ith := panel), out)) [0, 2]"

definition compute_i8mm ::
    "neon_ops \<Rightarrow> 'f row4_float \<Rightarrow> 'f row4_input \<Rightarrow> nat \<Rightarrow> nat list \<Rightarrow> (nat \<Rightarrow> nat \<Rightarrow> u8) \<Rightarrow> (nat \<Rightarrow> 'f) \<Rightarrow> nat \<Rightarrow> 'f" where
  "compute_i8mm N F I nthr sched panels out =
     (if in_tokens I \<ge> 8
      then snd (pool_state (pool_run (i8mm_panel_job N F I) (in_o I div 16) nthr sched (panels, out)))
      else compute_i8mm_direct N F I nthr sched out)"

end
