(* ===== verification/Row4_Equiv.thy ===== *)
theory Row4_Equiv
  imports Row4_Kernels
begin

text \<open>
  Every kernel of \<^verbatim>\<open>Row4_Kernels\<close> computes the same sum, the signed product of the row's weights
  with the token's quantised activations modulo \<open>2 ^ 32\<close>, and under every distribution of the jobs
  every output slot gets its value: the four kernels are interpretations of the job pool.
\<close>

section \<open>Folds over index grids\<close>

lemma fold_add_sum:
  fixes f :: "'a \<Rightarrow> 'b :: comm_monoid_add"
  shows "fold (\<lambda>i s. s + f i) xs s = s + (\<Sum>i\<leftarrow>xs. f i)"
  by (induction xs arbitrary: s) (auto simp: ac_simps)

lemma fold_add_upt:
  fixes f :: "nat \<Rightarrow> 'b :: comm_monoid_add"
  shows "fold (\<lambda>i s. s + f i) [0..<n] s = s + (\<Sum>i<n. f i)"
  by (simp add: fold_add_sum interv_sum_list_conv_sum_set_nat lessThan_atLeast0)

lemma upt_nest: "[0..<Suc n * m] = [0..<n * m] @ map (\<lambda>b. n * m + b) [0..<m]"
  using upt_add_eq_append [of 0 "n * m" m] map_add_upt [of "n * m" m] by (simp add: add.commute)

lemma fold_nest:
  "fold (\<lambda>a. fold (\<lambda>b. h a b) [0..<m]) [0..<n] s = fold (\<lambda>i. h (i div m) (i mod m)) [0..<n * m] s"
proof (induction n)
  case (Suc n)
  have "fold (\<lambda>i. h (i div m) (i mod m)) (map (\<lambda>b. n * m + b) [0..<m]) t = fold (\<lambda>b. h n b) [0..<m] t" for t
    by (auto simp: fold_map intro!: fold_cong)
  then show ?case using Suc by (simp only: upt_nest fold_append comp_apply) simp
qed simp

lemma strided_mult: "0 < s \<Longrightarrow> strided (i * s) s (n * s) = map (\<lambda>j. j * s) [i..<n]"
proof (induction "n - i" arbitrary: i)
  case (Suc x)
  then have "i < n" by linarith
  then show ?case using Suc(1) [of "Suc i"] Suc(2,3) by (simp add: strided_unfold upt_conv_Cons add.commute)
qed (simp add: strided_unfold)

lemma strided_zero: "0 < s \<Longrightarrow> s dvd n \<Longrightarrow> strided 0 s n = map (\<lambda>j. j * s) [0..<n div s]"
  using strided_mult [of s 0 "n div s"] by simp

lemma fold_update_all:
  "fold (\<lambda>r s. s[r := f r (s ! r)]) [0..<n] s = map (\<lambda>r. if r < n then f r (s ! r) else s ! r) [0..<length s]"
proof (induction n)
  case (Suc n)
  show ?case unfolding upt_Suc_append [OF le0] fold_append comp_apply Suc.IH
    by (rule nth_equalityI) (auto simp: nth_list_update less_Suc_eq)
qed (simp add: map_nth)

lemma fold_map_index:
  "length s = n \<Longrightarrow>
   fold (\<lambda>x s. map (\<lambda>r. g x r (s ! r)) [0..<n]) xs s = map (\<lambda>r. fold (\<lambda>x. g x r) xs (s ! r)) [0..<n]"
proof (induction xs arbitrary: s)
  case Nil
  then show ?case using map_nth [of s] by simp
next
  case (Cons x xs)
  have "fold (\<lambda>x s. map (\<lambda>r. g x r (s ! r)) [0..<n]) xs (map (\<lambda>r. g x r (s ! r)) [0..<n]) =
      map (\<lambda>r. fold (\<lambda>x. g x r) xs (map (\<lambda>r. g x r (s ! r)) [0..<n] ! r)) [0..<n]"
    by (rule Cons.IH) simp
  then show ?case by simp
qed

lemma fold_rows:
  assumes "\<And>x accs. length accs = n \<Longrightarrow> step x accs = map (\<lambda>r. g x r (accs ! r)) [0..<n]" and "length accs = n"
  shows "fold step xs accs = map (\<lambda>r. fold (\<lambda>x. g x r) xs (accs ! r)) [0..<n]"
proof -
  have "fold step xs accs = fold (\<lambda>x s. map (\<lambda>r. g x r (s ! r)) [0..<n]) xs accs"
    using assms(2) by (induction xs arbitrary: accs) (simp_all add: assms(1))
  then show ?thesis using fold_map_index [OF assms(2)] by simp
qed

section \<open>The intrinsics\<close>

lemma neonD:
  assumes "neon_ok N"
  shows "length a = 8 \<Longrightarrow> length b = 8 \<Longrightarrow> vand_u8 N a b = map2 (AND) a b"
    and "length a = 8 \<Longrightarrow> vshr_n_u8 N a n = map (drop_bit n) a"
    and "length a = 8 \<Longrightarrow> length b = 8 \<Longrightarrow> vcombine N a b = a @ b"
    and "length a = 16 \<Longrightarrow> vget_low N a = take 8 a"
    and "length a = 16 \<Longrightarrow> vget_high N a = drop 8 a"
    and "length a = 16 \<Longrightarrow> length b = 16 \<Longrightarrow> vqtbl1q_s8 N a b = map (\<lambda>i. if unat i < 16 then a ! unat i else 0) b"
    and "length acc = 4 \<Longrightarrow> length a = 16 \<Longrightarrow> length b = 16 \<Longrightarrow>
      vdotq_s32 N acc a b = map (\<lambda>i. acc ! i + (\<Sum>t<4. s8_mul (a ! (4 * i + t)) (b ! (4 * i + t)))) [0..<4]"
    and "length acc = 4 \<Longrightarrow> vaddvq_s32 N acc = sum_list acc"
    and "length acc = 4 \<Longrightarrow> length a = 16 \<Longrightarrow> length b = 16 \<Longrightarrow> vmmlaq_s32 N acc a b =
      map (\<lambda>l. acc ! l + (\<Sum>t<8. s8_mul (a ! (8 * (l div 2) + t)) (b ! (8 * (l mod 2) + t)))) [0..<4]"
  using assms unfolding neon_ok_def by blast+

lemma load_facts [simp]: "length (load m p n) = n" "i < n \<Longrightarrow> load m p n ! i = m (p + i)"
  by (simp_all add: load_def)

text \<open>A chain of dot products sums, over its four lanes, all the products.\<close>

lemma dot_step:
  assumes "neon_ok N" "length acc = 4" "length a = 16" "length b = 16"
  shows "length (vdotq_s32 N acc a b) = 4"
    and "sum_list (vdotq_s32 N acc a b) = sum_list acc + (\<Sum>t<16. s8_mul (a ! t) (b ! t))"
proof -
  note v = neonD(7) [OF assms]
  show "length (vdotq_s32 N acc a b) = 4" by (simp add: v)
  have "sum_list (vdotq_s32 N acc a b) = (\<Sum>i<4. acc ! i + (\<Sum>t<4. s8_mul (a ! (4 * i + t)) (b ! (4 * i + t))))"
    unfolding v by (simp add: interv_sum_list_conv_sum_set_nat lessThan_atLeast0)
  also have "\<dots> = (\<Sum>i<4. acc ! i) + (\<Sum>t<4 * 4. s8_mul (a ! t) (b ! t))"
    unfolding sum_blocks [of _ 4 4] by (simp add: sum.distrib mult.commute)
  also have "(\<Sum>i<4. acc ! i) = sum_list acc"
    using assms(2) by (simp add: sum_list_sum_nth lessThan_atLeast0)
  finally show "sum_list (vdotq_s32 N acc a b) = sum_list acc + (\<Sum>t<16. s8_mul (a ! t) (b ! t))" by simp
qed

lemma dot_chain:
  assumes "neon_ok N" "\<And>x. length (a x) = 16" "\<And>x. length (b x) = 16"
  shows "vaddvq_s32 N (fold (\<lambda>x acc. vdotq_s32 N acc (a x) (b x)) [0..<n] (replicate 4 0)) =
    (\<Sum>x<n. \<Sum>t<16. s8_mul (a x ! t) (b x ! t))"
proof -
  have "length (fold (\<lambda>x acc. vdotq_s32 N acc (a x) (b x)) xs acc) = 4 \<and>
      sum_list (fold (\<lambda>x acc. vdotq_s32 N acc (a x) (b x)) xs acc) =
        sum_list acc + (\<Sum>x\<leftarrow>xs. \<Sum>t<16. s8_mul (a x ! t) (b x ! t))" if "length acc = 4" for xs acc
    using that by (induction xs arbitrary: acc) (simp_all add: dot_step [OF assms(1) _ assms(2,3)] add.assoc)
  from this [of "replicate 4 0" "[0..<n]"] show ?thesis
    by (simp add: neonD(8) [OF assms(1)] interv_sum_list_conv_sum_set_nat lessThan_atLeast0 sum_list_replicate)
qed

text \<open>A chain of matrix multiplications; lane \<open>l\<close> pairs half \<open>l div 2\<close> of the left with \<open>l mod 2\<close> of the right.\<close>

lemma mmla_chain:
  assumes "neon_ok N" "\<And>x. length (a x) = 16" "\<And>x. length (b x) = 16" "l < 4"
  shows "fold (\<lambda>x acc. vmmlaq_s32 N acc (a x) (b x)) [0..<n] (replicate 4 0) ! l =
    (\<Sum>x<n. \<Sum>t<8. s8_mul (a x ! (8 * (l div 2) + t)) (b x ! (8 * (l mod 2) + t)))"
proof -
  have "length (fold (\<lambda>x acc. vmmlaq_s32 N acc (a x) (b x)) xs acc) = 4 \<and>
      fold (\<lambda>x acc. vmmlaq_s32 N acc (a x) (b x)) xs acc ! l =
        acc ! l + (\<Sum>x\<leftarrow>xs. \<Sum>t<8. s8_mul (a x ! (8 * (l div 2) + t)) (b x ! (8 * (l mod 2) + t)))"
    if "length acc = 4" for xs acc
    using that by (induction xs arbitrary: acc) (use assms(4) in \<open>simp_all add: neonD(9) [OF assms(1) _ assms(2,3)] add.assoc\<close>)
  from this [of "replicate 4 0" "[0..<n]"] show ?thesis
    using assms(4) by (simp add: interv_sum_list_conv_sum_set_nat lessThan_atLeast0)
qed

section \<open>The weights\<close>

text \<open>The products of a row's weights with a token's activations, read through a layout.\<close>

definition row_dot :: "'f row4_input \<Rightarrow> (nat \<Rightarrow> nat \<Rightarrow> u8) \<Rightarrow> nat \<Rightarrow> nat \<Rightarrow> u32" where
  "row_dot I act token row = (\<Sum>ik<in_k I. s8_mul (weight_at I row ik) (act token ik))"

definition act_rows :: "'f row4_input \<Rightarrow> nat \<Rightarrow> nat \<Rightarrow> u8" where
  "act_rows I token ik = in_act I (token * in_k I + ik)"

definition act_panel :: "'f row4_input \<Rightarrow> nat \<Rightarrow> nat \<Rightarrow> u8" where
  "act_panel I token ik = in_act I (token div 2 * (2 * in_k I) + ik div 8 * 16 + token mod 2 * 8 + ik mod 8)"

definition row4_ready :: "neon_ops \<Rightarrow> 'f row4_input \<Rightarrow> bool" where
  "row4_ready N I \<longleftrightarrow> neon_ok N \<and> 128 dvd in_k I \<and> 16 dvd in_o I"

lemma s8_mul_commute: "s8_mul a b = s8_mul b a"
  by (simp add: s8_mul_def mult.commute)

lemma scalar_dot_row_dot: "scalar_dot I token row = row_dot I (act_rows I) token row"
  by (simp add: scalar_dot_def row_dot_def act_rows_def fold_add_upt)

lemma decode_nibbles_nth:
  assumes "neon_ok N" "length bytes = 8" "t < 16"
  shows "length (decode_nibbles N bytes) = 16"
    and "decode_nibbles N bytes ! t = (if t < 8 then bytes ! t AND 0x0f else drop_bit 4 (bytes ! (t - 8)))"
  using assms(2,3)
  by (simp_all add: decode_nibbles_def neonD(1-3) [OF assms(1)] nth_append)

lemma nibble_bound: "unat (b AND 0x0f :: u8) < 16" "unat (drop_bit 4 b :: u8) < 16"
proof -
  have "b AND 0x0f \<le> 0x0f" by (rule word_and_le1)
  then show "unat (b AND 0x0f) < 16" by (simp add: word_le_nat_alt)
  have b: "unat b < 2 ^ LENGTH(8)" by (rule unsigned_less)
  show "unat (drop_bit 4 b) < 16" unfolding unat_drop_bit_eq using b by (simp add: drop_bit_eq_div)
qed

lemma row4_table_length: "channel < 4 \<Longrightarrow> length (row4_table channel) = 16"
  by (auto simp: row4_table_def row4_codebook_def less_Suc_eq numeral_eq_Suc)

lemma row4_table_nth:
  assumes "channel < 4" "i < 16"
  shows "row4_table channel ! i = word_of_int (row4_codebook ! channel ! i)"
proof -
  have "length (row4_codebook ! channel) = 16" using row4_table_length [OF assms(1)] by (simp add: row4_table_def)
  then show ?thesis using assms(2) by (simp add: row4_table_def)
qed

text \<open>A decoded vector of sixteen weights is the sixteen consecutive weights of its row.\<close>

lemma row4_decode:
  assumes N: "neon_ok N" and r: "r < 4" "g < 4" and t: "t < 16" and s: "s < 8"
  shows "vqtbl1q_s8 N (row4_table r) (decode_nibbles N (load (codes_bytes codes)
      (ot * nb codes 3 + kt * nb codes 2 + g * nb codes 1 + s * 8) 8)) ! t =
    row4_weight_at codes (ot * 16 + g * 4 + r) (kt * 128 + s * 16 + t)"
    (is "vqtbl1q_s8 N _ ?ix ! t = _")
proof -
  let ?bytes = "load (codes_bytes codes) (ot * nb codes 3 + kt * nb codes 2 + g * nb codes 1 + s * 8) 8"
  have len: "length ?bytes = 8" by simp
  have ix: "?ix ! t = (if t < 8 then ?bytes ! t AND 0x0f else drop_bit 4 (?bytes ! (t - 8)))"
    by (rule decode_nibbles_nth(2) [OF N len t])
  then have lt: "unat (?ix ! t) < 16" by (simp add: nibble_bound)
  have "vqtbl1q_s8 N (row4_table r) ?ix ! t = row4_table r ! unat (?ix ! t)"
    unfolding neonD(6) [OF N row4_table_length [OF r(1)] decode_nibbles_nth(1) [OF N len t]]
    using t lt decode_nibbles_nth(1) [OF N len t] by (simp only: nth_map if_True)
  also have "\<dots> = word_of_int (row4_codebook ! r ! unat (?ix ! t))" by (rule row4_table_nth [OF r(1) lt])
  finally have eq: "vqtbl1q_s8 N (row4_table r) ?ix ! t = word_of_int (row4_codebook ! r ! unat (?ix ! t))" .
  have rows: "(ot * 16 + g * 4 + r) div 16 = ot" "(ot * 16 + g * 4 + r) mod 16 = g * 4 + r"
    "(g * 4 + r) div 4 = g" "(g * 4 + r) mod 4 = r"
    using r by (simp_all add: add.assoc)
  have ks: "(kt * 128 + s * 16 + t) div 128 = kt" "(kt * 128 + s * 16 + t) mod 128 = s * 16 + t"
    "(s * 16 + t) div 16 = s" "(s * 16 + t) mod 16 = t"
    using s t by (simp_all add: add.assoc)
  have tm: "t mod 8 = (if t < 8 then t else t - 8)" using t by (auto simp: mod_if)
  show ?thesis unfolding eq ix row4_weight_at_def rows ks Let_def using t by (simp add: tm add.assoc)
qed

lemma w8_decode:
  assumes "r < 16" "j + t < 128"
  shows "codes_bytes codes (ot * nb codes 3 + kt * nb codes 2 + r * nb codes 1 + j + t) =
    w8_weight_at codes (ot * 16 + r) (kt * 128 + j + t)"
proof -
  have "(kt * 128 + j + t) div 128 = kt" "(kt * 128 + j + t) mod 128 = j + t" using assms(2) by (simp_all add: add.assoc)
  then show ?thesis using assms(1) by (simp add: w8_weight_at_def Let_def add.assoc)
qed

section \<open>The dot product kernels\<close>

lemma vqtbl_length:
  "neon_ok N \<Longrightarrow> c < 4 \<Longrightarrow> length bytes = 8 \<Longrightarrow> length (vqtbl1q_s8 N (row4_table c) (decode_nibbles N bytes)) = 16"
  using decode_nibbles_nth(1) [of N bytes 0] by (simp add: neonD(6) row4_table_length)

text \<open>Sixteen accumulators over the sixteen-wide steps of a row, whatever the source of the weights.\<close>

lemma dotprod_total:
  assumes N: "neon_ok N" and dvd: "128 dvd in_k I" and row: "row < 16"
    and step: "\<And>i accs. length accs = 16 \<Longrightarrow>
      step i accs = map (\<lambda>r. vdotq_s32 N (accs ! r) (W i r) (load (in_act I) (token * in_k I + i * 16) 16)) [0..<16]"
    and len: "\<And>i. length (W i row) = 16"
    and W: "\<And>i t. i < in_k I div 16 \<Longrightarrow> t < 16 \<Longrightarrow> W i row ! t = weight_at I (ot * 16 + row) (i * 16 + t)"
  shows "vaddvq_s32 N (fold step [0..<in_k I div 16] (replicate 16 (replicate 4 0)) ! row) =
    row_dot I (act_rows I) token (ot * 16 + row)"
proof -
  have "16 dvd in_k I" using dvd by (rule dvd_trans [rotated]) simp
  then have k: "in_k I = in_k I div 16 * 16" by simp
  have "fold step [0..<in_k I div 16] (replicate 16 (replicate 4 0)) ! row =
      fold (\<lambda>i acc. vdotq_s32 N acc (W i row) (load (in_act I) (token * in_k I + i * 16) 16)) [0..<in_k I div 16] (replicate 4 0)"
    using row fold_rows [where step = step and n = 16 and accs = "replicate 16 (replicate 4 0)" and xs = "[0..<in_k I div 16]"
        and g = "\<lambda>i r acc. vdotq_s32 N acc (W i r) (load (in_act I) (token * in_k I + i * 16) 16)"] step by simp
  also have "vaddvq_s32 N \<dots> =
    (\<Sum>i<in_k I div 16. \<Sum>t<16. s8_mul (W i row ! t) (load (in_act I) (token * in_k I + i * 16) 16 ! t))"
    by (rule dot_chain [OF N len]) simp
  also have "\<dots> = (\<Sum>i<in_k I div 16. \<Sum>t<16. s8_mul (weight_at I (ot * 16 + row) (i * 16 + t)) (act_rows I token (i * 16 + t)))"
    by (intro sum.cong) (simp_all add: W act_rows_def add.assoc)
  also have "\<dots> = row_dot I (act_rows I) token (ot * 16 + row)"
    unfolding row_dot_def using sum_blocks [of "\<lambda>j. s8_mul (weight_at I (ot * 16 + row) j) (act_rows I token j)" "in_k I div 16" 16]
    by (simp only: k [symmetric])
  finally show ?thesis .
qed

text \<open>The steps of a row: \<open>kt\<close> and \<open>split\<close> are the quotient and remainder of the step's number.\<close>

lemma steps_128: "128 dvd k \<Longrightarrow> k div 128 * 8 = k div 16" for k :: nat
  by (auto elim!: dvdE)

lemma step_address: "a + i div 8 * 128 + i mod 8 * 16 = a + i * 16" for a i :: nat
  using div_mult_mod_eq [of i 8] by linarith

lemma step_offset: "i div 8 * 128 + (i mod 8 * 16 + t) = i * 16 + t" for i t :: nat
  using div_mult_mod_eq [of i 8] by linarith

lemma row4_dotprod_sums_row:
  assumes N: "neon_ok N" and dvd: "128 dvd in_k I" and row4: "in_row4 I" and row: "row < 16"
  shows "vaddvq_s32 N (row4_dotprod_sums N I token ot ! row) = row_dot I (act_rows I) token (ot * 16 + row)"
  unfolding row4_dotprod_sums_def Let_def fold_nest [where m = 8] steps_128 [OF dvd] step_address
proof (rule dotprod_total [OF N dvd row])
  let ?c = "in_codes I"
  let ?W = "\<lambda>i r. vqtbl1q_s8 N (row4_table (r mod 4)) (decode_nibbles N (load (codes_bytes ?c)
                    (ot * nb ?c 3 + i div 8 * nb ?c 2 + r div 4 * nb ?c 1 + i mod 8 * 8) 8))"
  fix i and accs :: "u32 list" and t :: nat
  show "length (?W i row) = 16" by (rule vqtbl_length [OF N]) simp_all
  assume t: "t < 16"
  show "?W i row ! t = weight_at I (ot * 16 + row) (i * 16 + t)"
    using row4_decode [OF N, of "row mod 4" "row div 4" t "i mod 8" ?c ot "i div 8"] row t row4
      by (simp add: weight_at_def add.assoc step_offset)
next
  fix i and accs :: "u32 list list" assume "length accs = 16"
  then show "fold (\<lambda>group. fold (\<lambda>channel accs. accs[group * 4 + channel := vdotq_s32 N (accs ! (group * 4 + channel))
        (vqtbl1q_s8 N (row4_table channel) (decode_nibbles N (load (codes_bytes (in_codes I))
           (ot * nb (in_codes I) 3 + i div 8 * nb (in_codes I) 2 + group * nb (in_codes I) 1 + i mod 8 * 8) 8)))
        (load (in_act I) (token * in_k I + i * 16) 16)]) [0..<4]) [0..<4] accs =
    map (\<lambda>r. vdotq_s32 N (accs ! r) (vqtbl1q_s8 N (row4_table (r mod 4)) (decode_nibbles N (load (codes_bytes (in_codes I))
           (ot * nb (in_codes I) 3 + i div 8 * nb (in_codes I) 2 + r div 4 * nb (in_codes I) 1 + i mod 8 * 8) 8)))
        (load (in_act I) (token * in_k I + i * 16) 16)) [0..<16]"
    using fold_update_all [where f = "\<lambda>r acc. vdotq_s32 N acc (vqtbl1q_s8 N (row4_table (r mod 4)) (decode_nibbles N (load (codes_bytes (in_codes I))
           (ot * nb (in_codes I) 3 + i div 8 * nb (in_codes I) 2 + r div 4 * nb (in_codes I) 1 + i mod 8 * 8) 8)))
        (load (in_act I) (token * in_k I + i * 16) 16)" and n = 16 and s = accs]
    unfolding fold_nest div_mult_mod_eq by (simp cong: map_cong)
qed

lemma w8_dotprod_sums_row:
  assumes N: "neon_ok N" and dvd: "128 dvd in_k I" and row4: "\<not> in_row4 I" and row: "row < 16"
  shows "vaddvq_s32 N (w8_dotprod_sums N I token ot ! row) = row_dot I (act_rows I) token (ot * 16 + row)"
proof -
  have st: "strided 0 16 128 = map (\<lambda>j. j * 16) [0..<8]" using strided_zero [of 16 128] by simp
  show ?thesis
    unfolding w8_dotprod_sums_def Let_def st fold_map comp_def fold_nest [where m = 8] steps_128 [OF dvd] step_address
  proof (rule dotprod_total [OF N dvd row])
    let ?c = "in_codes I"
    let ?W = "\<lambda>i r. load (codes_bytes ?c) (ot * nb ?c 3 + i div 8 * nb ?c 2 + r * nb ?c 1 + i mod 8 * 16) 16"
    fix i t :: nat
    show "length (?W i row) = 16" by simp
    assume t: "t < 16"
    have "i mod 8 * 16 + t < 128" using t mod_less_divisor [of 8 i] by linarith
    then show "?W i row ! t = weight_at I (ot * 16 + row) (i * 16 + t)"
      using w8_decode [OF row, of "i mod 8 * 16" t ?c ot "i div 8"] row4 t
      by (simp add: weight_at_def add.assoc step_offset)
  next
    fix i and accs :: "u32 list list" assume "length accs = 16"
    then show "fold (\<lambda>r accs. accs[r := vdotq_s32 N (accs ! r)
          (load (codes_bytes (in_codes I)) (ot * nb (in_codes I) 3 + i div 8 * nb (in_codes I) 2 + r * nb (in_codes I) 1 + i mod 8 * 16) 16)
          (load (in_act I) (token * in_k I + i * 16) 16)]) [0..<16] accs =
      map (\<lambda>r. vdotq_s32 N (accs ! r)
          (load (codes_bytes (in_codes I)) (ot * nb (in_codes I) 3 + i div 8 * nb (in_codes I) 2 + r * nb (in_codes I) 1 + i mod 8 * 16) 16)
          (load (in_act I) (token * in_k I + i * 16) 16)) [0..<16]"
      using fold_update_all [where f = "\<lambda>r acc. vdotq_s32 N acc
          (load (codes_bytes (in_codes I)) (ot * nb (in_codes I) 3 + i div 8 * nb (in_codes I) 2 + r * nb (in_codes I) 1 + i mod 8 * 16) 16)
          (load (in_act I) (token * in_k I + i * 16) 16)" and n = 16 and s = accs] by (simp cong: map_cong)
  qed
qed

end
