(* ===== verification/Row4_Jobs.thy ===== *)
theory Row4_Jobs
  imports Row4_Equiv
begin

text \<open>
  The jobs of the kernels as job pools: which output cells a job writes, that it writes the value
  of the cell's row product, and hence the result of every distribution.
\<close>

section \<open>Output cells\<close>

text \<open>A cell is a token and an output row; cells of an input the kernels are not made for have no content.\<close>

definition cell_in :: "neon_ops \<Rightarrow> 'f row4_input \<Rightarrow> nat \<times> nat \<Rightarrow> bool" where
  "cell_in N I c \<longleftrightarrow> row4_ready N I \<and> fst c < in_tokens I \<and> snd c < in_o I"

definition cell_obs :: "neon_ops \<Rightarrow> 'f row4_input \<Rightarrow> (nat \<Rightarrow> 'f) \<Rightarrow> nat \<times> nat \<Rightarrow> 'f option" where
  "cell_obs N I out c = (if cell_in N I c then Some (out (fst c * in_o I + snd c)) else None)"

definition cell_val ::
    "neon_ops \<Rightarrow> 'f row4_float \<Rightarrow> 'f row4_input \<Rightarrow> (nat \<Rightarrow> nat \<Rightarrow> u8) \<Rightarrow> nat \<times> nat \<Rightarrow> 'f option" where
  "cell_val N F I act c =
     (if cell_in N I c
      then Some (result_value F (in_scales I) (in_act_scales I) (fst c) (snd c) (row_dot I act (fst c) (snd c))) else None)"

lemma cell_index_inj:
  fixes o' :: nat
  assumes "r < o'" "r' < o'"
  shows "t * o' + r = t' * o' + r' \<longleftrightarrow> t = t' \<and> r = r'"
  using assms by (metis add.commute div_mult_self3 div_less mod_less mod_mult_self3 add_cancel_left_left less_nat_zero_code not_less_zero)

lemma put_obs:
  assumes "row < in_o I"
  shows "cell_obs N I (put F I token row acc out) c =
    (if c = (token, row) \<and> cell_in N I c then Some (result_value F (in_scales I) (in_act_scales I) token row acc)
     else cell_obs N I out c)"
proof (cases c)
  case (Pair t r)
  show ?thesis
    using assms cell_index_inj [of r "in_o I" row t token]
    by (auto simp: Pair cell_obs_def cell_in_def put_def store_result_def)
qed

text \<open>Putting a list of cells, each with the value of its row.\<close>

lemma puts_obs:
  assumes "\<And>x. x \<in> set xs \<Longrightarrow> row x < in_o I"
    and "\<And>x. x \<in> set xs \<Longrightarrow> cell_in N I (token x, row x) \<Longrightarrow> acc x = row_dot I act (token x) (row x)"
  shows "cell_obs N I (fold (\<lambda>x out. put F I (token x) (row x) (acc x) out) xs out) c =
    (if c \<in> (\<lambda>x. (token x, row x)) ` set xs then cell_val N F I act c else cell_obs N I out c)"
  using assms
proof (induction xs arbitrary: out)
  case (Cons x xs)
  have "cell_obs N I (put F I (token x) (row x) (acc x) out) c =
      (if c = (token x, row x) then cell_val N F I act c else cell_obs N I out c)"
    using put_obs [OF Cons.prems(1) [of x], of N F "token x" "acc x" out c] Cons.prems(2) [of x]
    by (auto simp: cell_val_def cell_obs_def)
  then show ?case using Cons by auto
qed simp

section \<open>The dot product kernel\<close>

definition dotprod_tile :: "'f row4_input \<Rightarrow> nat \<times> nat \<Rightarrow> nat" where
  "dotprod_tile I c = fst c * (in_o I div 16) + snd c div 16"

lemma tile_of:
  fixes w :: nat
  assumes "r < w * n" "0 < n" "j = t * w + r div n"
  shows "t = j div w" and "r div n = j mod w"
proof -
  have "r div n < w" using assms(1,2) by (simp add: div_less_iff_less_mult)
  then show "t = j div w" and "r div n = j mod w" using assms(3) by simp_all
qed

lemma dotprod_job_obs:
  assumes j: "j < in_tokens I * (in_o I div 16)"
  shows "cell_obs N I (dotprod_job N F I ith j out) c =
    (if dotprod_tile I c = j then cell_val N F I (act_rows I) c else cell_obs N I out c)"
proof (cases "cell_in N I c")
  case True
  then have ready: "neon_ok N" "128 dvd in_k I" "16 dvd in_o I" by (simp_all add: cell_in_def row4_ready_def)
  obtain w where w: "in_o I = w * 16" using ready(3) by (auto elim!: dvdE simp: mult.commute)
  let ?token = "j div w" and ?ot = "j mod w"
  have "0 < w" using j w by (cases w) auto
  then have ot: "?ot < w" by simp
  have out: "dotprod_job N F I ith j out =
      fold (\<lambda>row out. put F I ?token (?ot * 16 + row)
        (vaddvq_s32 N ((if in_row4 I then row4_dotprod_sums N I ?token ?ot else w8_dotprod_sums N I ?token ?ot) ! row)) out) [0..<16] out"
    unfolding dotprod_job_def w Let_def by simp
  have "cell_obs N I (dotprod_job N F I ith j out) c =
      (if c \<in> (\<lambda>x. (?token, ?ot * 16 + x)) ` set [0..<16] then cell_val N F I (act_rows I) c else cell_obs N I out c)"
    unfolding out
  proof (rule puts_obs)
    fix x assume "x \<in> set [0..<16::nat]"
    then have x: "x < 16" by simp
    then show "?ot * 16 + x < in_o I" using ot w by linarith
    show "vaddvq_s32 N ((if in_row4 I then row4_dotprod_sums N I ?token ?ot else w8_dotprod_sums N I ?token ?ot) ! x) =
        row_dot I (act_rows I) ?token (?ot * 16 + x)"
      using row4_dotprod_sums_row [OF ready(1,2) _ x] w8_dotprod_sums_row [OF ready(1,2) _ x] by simp
  qed
  moreover have "c \<in> (\<lambda>x. (?token, ?ot * 16 + x)) ` set [0..<16] \<longleftrightarrow> dotprod_tile I c = j"
  proof
    assume "c \<in> (\<lambda>x. (?token, ?ot * 16 + x)) ` set [0..<16]"
    then show "dotprod_tile I c = j" by (auto simp: dotprod_tile_def w)
  next
    assume "dotprod_tile I c = j"
    then have eq: "j = fst c * w + snd c div 16" by (simp add: dotprod_tile_def w)
    have "snd c < w * 16" using True by (simp add: cell_in_def w)
    from tile_of [OF this _ eq] have "fst c = ?token" "snd c div 16 = ?ot" by simp_all
    then have "c = (?token, ?ot * 16 + snd c mod 16)" by (metis div_mult_mod_eq prod.collapse)
    then show "c \<in> (\<lambda>x. (?token, ?ot * 16 + x)) ` set [0..<16]" by auto
  qed
  ultimately show ?thesis by simp
qed (simp add: cell_obs_def cell_val_def)

interpretation dotprod: job_pool "dotprod_job N F I" "in_tokens I * (in_o I div 16)" "cell_obs N I" "dotprod_tile I"
    "cell_val N F I (act_rows I)" for N F I
  by unfold_locales (rule dotprod_job_obs)

section \<open>The direct matrix multiply kernel\<close>

text \<open>Four rows of sixteen weights.\<close>

lemma four_rows:
  assumes N: "neon_ok N" and row0: "4 dvd row0" and k0: "16 dvd k0" and r: "r < 4"
  shows "length (four_rows_16 N I row0 k0 ! r) = 16"
    and "t < 16 \<Longrightarrow> four_rows_16 N I row0 k0 ! r ! t = weight_at I (row0 + r) (k0 + t)"
proof -
  obtain x where x: "row0 = x * 4" using row0 by (auto elim!: dvdE simp: mult.commute)
  obtain y where y: "k0 = y * 16" using k0 by (auto elim!: dvdE simp: mult.commute)
  have xm: "row0 mod 16 = x mod 4 * 4" and xd: "row0 div 16 = x div 4"
    using mod_mult_mult2 [of x 4 4] div_mult_mult2 [of 4 x 4] by (simp_all add: x)
  have ym: "k0 mod 128 = y mod 8 * 16" and yd: "k0 div 128 = y div 8"
    using mod_mult_mult2 [of y 16 8] div_mult_mult2 [of 16 y 8] by (simp_all add: y)
  have rows: "row0 div 16 * 16 + row0 mod 16 div 4 * 4 + r = row0 + r"
  proof -
    have "x mod 4 * 4 div 4 = x mod 4" by (rule nonzero_mult_div_cancel_right) simp
    then show ?thesis unfolding xm xd using div_mult_mod_eq [of x 4] x by linarith
  qed
  have ks: "k0 div 128 * 128 + k0 mod 128 div 16 * 16 + t = k0 + t"
  proof -
    have "y mod 8 * 16 div 16 = y mod 8" by (rule nonzero_mult_div_cancel_right) simp
    then show ?thesis unfolding ym yd using div_mult_mod_eq [of y 8] y by linarith
  qed
  have g: "row0 mod 16 div 4 < 4" "k0 mod 128 div 16 < 8" by (simp_all add: div_less_iff_less_mult)
  have "four_rows_16 N I row0 k0 ! r = (if in_row4 I then vqtbl1q_s8 N (row4_table r) (decode_nibbles N (load (codes_bytes (in_codes I))
            (row0 div 16 * nb (in_codes I) 3 + k0 div 128 * nb (in_codes I) 2 + row0 mod 16 div 4 * nb (in_codes I) 1 +
             k0 mod 128 div 16 * 8) 8)) else load_w8_row_16 I (row0 + r) k0)"
    using r by (simp add: four_rows_16_def decode_row4_group_16_def Let_def)
  note eq = this
  show "length (four_rows_16 N I row0 k0 ! r) = 16"
    unfolding eq using vqtbl_length [OF N r] by (simp add: load_w8_row_16_def Let_def)
  assume t: "t < 16"
  show "four_rows_16 N I row0 k0 ! r ! t = weight_at I (row0 + r) (k0 + t)"
  proof (cases "in_row4 I")
    case True
    then show ?thesis unfolding eq
      using row4_decode [OF N r g(1) t g(2), of "in_codes I" "row0 div 16" "k0 div 128"]
      unfolding rows ks by (simp add: weight_at_def)
  next
    case False
    have "(row0 + r) mod 16 < 16" by simp
    moreover have "k0 mod 128 + t < 128"
    proof -
      have "k0 mod 128 = k0 mod 128 div 16 * 16" by (simp add: ym)
      with g(2) t show ?thesis by linarith
    qed
    ultimately show ?thesis unfolding eq
      using w8_decode [of "(row0 + r) mod 16" "k0 mod 128" t "in_codes I" "(row0 + r) div 16" "k0 div 128"] False t
      by (simp add: weight_at_def load_w8_row_16_def Let_def)
  qed
qed

lemma mmla_two:
  assumes N: "neon_ok N" and acc: "length acc = 4" and len: "length a0 = 16" "length a1 = 16" "length b0 = 16" "length b1 = 16"
  defines "v \<equiv> vmmlaq_s32 N (vmmlaq_s32 N acc (vcombine N (vget_low N a0) (vget_low N a1)) (vcombine N (vget_low N b0) (vget_low N b1)))
      (vcombine N (vget_high N a0) (vget_high N a1)) (vcombine N (vget_high N b0) (vget_high N b1))"
  shows "length v = 4"
    and "l < 4 \<Longrightarrow> v ! l = acc ! l + (\<Sum>t<16. s8_mul ((if l div 2 = 0 then a0 else a1) ! t) ((if l mod 2 = 0 then b0 else b1) ! t))"
proof -
  have lo: "vcombine N (vget_low N x) (vget_low N y) = take 8 x @ take 8 y"
    and hi: "vcombine N (vget_high N x) (vget_high N y) = drop 8 x @ drop 8 y"
    if "length x = 16" "length y = 16" for x y
    using that by (simp_all add: neonD(3-5) [OF N])
  have v: "v = map (\<lambda>l. map (\<lambda>l. acc ! l + (\<Sum>t<8. s8_mul ((take 8 a0 @ take 8 a1) ! (8 * (l div 2) + t))
        ((take 8 b0 @ take 8 b1) ! (8 * (l mod 2) + t)))) [0..<4] ! l +
      (\<Sum>t<8. s8_mul ((drop 8 a0 @ drop 8 a1) ! (8 * (l div 2) + t)) ((drop 8 b0 @ drop 8 b1) ! (8 * (l mod 2) + t)))) [0..<4]"
    unfolding v_def lo [OF len(1,2)] lo [OF len(3,4)] hi [OF len(1,2)] hi [OF len(3,4)]
    using acc len by (simp add: neonD(9) [OF N])
  show "length v = 4" by (simp add: v)
  assume l: "l < 4"
  have split: "(\<Sum>t<16. f t) = (\<Sum>t<8. f t) + (\<Sum>t<8. f (8 + t))" for f :: "nat \<Rightarrow> u32"
    using sum_blocks [of f 2 8] by (simp add: numeral_2_eq_2)
  have half: "l div 2 = 0 \<or> l div 2 = 1" "l mod 2 = 0 \<or> l mod 2 = 1" using l by auto
  have lo8: "(take 8 x @ take 8 y) ! (8 * h + t) = (if h = 0 then x else y) ! t"
    and hi8: "(drop 8 x @ drop 8 y) ! (8 * h + t) = (if h = 0 then x else y) ! (8 + t)"
    if "length x = 16" "length y = 16" "t < 8" "h = 0 \<or> h = 1" for h t and x y :: "u8 list"
    using that by (auto simp: nth_append)
  show "v ! l = acc ! l + (\<Sum>t<16. s8_mul ((if l div 2 = 0 then a0 else a1) ! t) ((if l mod 2 = 0 then b0 else b1) ! t))"
    unfolding v split using l
    by (simp add: add.assoc lo8 [OF len(1,2) _ half(1)] lo8 [OF len(3,4) _ half(2)]
        hi8 [OF len(1,2) _ half(1)] hi8 [OF len(3,4) _ half(2)])
qed

text \<open>A chain of steps that each add a term to every lane.\<close>

lemma lane_chain:
  fixes inc :: "nat \<Rightarrow> u32"
  assumes "\<And>i acc. length acc = 4 \<Longrightarrow> length (step i acc) = 4 \<and> step i acc ! l = acc ! l + inc i" and "l < 4"
  shows "fold step [0..<n] (replicate 4 0) ! l = (\<Sum>i<n. inc i)"
proof -
  have "length (fold step xs acc) = 4 \<and> fold step xs acc ! l = acc ! l + (\<Sum>i\<leftarrow>xs. inc i)" if "length acc = 4" for xs acc
    using that by (induction xs arbitrary: acc) (use assms(1) in \<open>auto simp: add.assoc\<close>)
  from this [of "replicate 4 0" "[0..<n]"] show ?thesis
    using assms(2) by (simp add: interv_sum_list_conv_sum_set_nat lessThan_atLeast0)
qed

lemma direct_sums:
  assumes N: "neon_ok N" and dvd: "128 dvd in_k I" and row0: "4 dvd row0" and rp: "rp < 2" and l: "l < 4"
    and token: "l div 2 = 0 \<or> token0 + 1 < in_tokens I"
  shows "i8mm_direct_sums N I token0 row0 ! rp ! l = row_dot I (act_rows I) (token0 + l div 2) (row0 + 2 * rp + l mod 2)"
proof -
  have "16 dvd in_k I" using dvd by (rule dvd_trans [rotated]) simp
  then have k: "in_k I div 16 * 16 = in_k I" and st: "strided 0 16 (in_k I) = map (\<lambda>j. j * 16) [0..<in_k I div 16]"
    by (simp_all add: strided_zero)
  define in0 where "in0 = (\<lambda>i. load (in_act I) (token0 * in_k I + i * 16) 16)"
  define in1 where "in1 = (\<lambda>i. if token0 + 1 < in_tokens I then load (in_act I) ((token0 + 1) * in_k I + i * 16) 16 else replicate 16 0)"
  define W where "W = (\<lambda>i. four_rows_16 N I row0 (i * 16))"
  define step where "step = (\<lambda>i rp acc. vmmlaq_s32 N
      (vmmlaq_s32 N acc (vcombine N (vget_low N (in0 i)) (vget_low N (in1 i)))
        (vcombine N (vget_low N (W i ! (2 * rp))) (vget_low N (W i ! (2 * rp + 1)))))
      (vcombine N (vget_high N (in0 i)) (vget_high N (in1 i)))
      (vcombine N (vget_high N (W i ! (2 * rp))) (vget_high N (W i ! (2 * rp + 1)))))"
  have all: "i8mm_direct_sums N I token0 row0 = fold (\<lambda>i accs. fold (\<lambda>rp accs. accs[rp := step i rp (accs ! rp)]) [0..<2] accs)
      [0..<in_k I div 16] (replicate 2 (replicate 4 0))"
    unfolding i8mm_direct_sums_def Let_def st fold_map comp_def step_def in0_def in1_def W_def by (rule refl)
  have upd: "fold (\<lambda>rp accs. accs[rp := step i rp (accs ! rp)]) [0..<2] accs = map (\<lambda>r. step i r (accs ! r)) [0..<2]"
    if "length accs = 2" for i accs
    using that fold_update_all [where f = "step i" and n = 2 and s = accs] by (simp cong: map_cong)
  have "i8mm_direct_sums N I token0 row0 ! rp = fold (\<lambda>i. step i rp) [0..<in_k I div 16] (replicate 4 0)"
    unfolding all using rp by (subst fold_rows [where n = 2 and g = step, OF upd]) simp_all
  then have "i8mm_direct_sums N I token0 row0 ! rp ! l = fold (\<lambda>i. step i rp) [0..<in_k I div 16] (replicate 4 0) ! l" by simp
  also have "\<dots> = (\<Sum>i<in_k I div 16. \<Sum>t<16. s8_mul ((if l div 2 = 0 then in0 i else in1 i) ! t)
      ((if l mod 2 = 0 then W i ! (2 * rp) else W i ! (2 * rp + 1)) ! t))"
  proof (rule lane_chain [OF _ l])
    fix i and acc :: "u32 list" assume "length acc = 4"
    moreover have "length (in0 i) = 16" "length (in1 i) = 16" by (simp_all add: in0_def in1_def)
    moreover have "length (W i ! (2 * rp)) = 16" "length (W i ! (2 * rp + 1)) = 16"
      unfolding W_def by (rule four_rows(1) [OF N row0]; use rp in simp)+
    ultimately show "length (step i rp acc) = 4 \<and> step i rp acc ! l = acc ! l +
        (\<Sum>t<16. s8_mul ((if l div 2 = 0 then in0 i else in1 i) ! t) ((if l mod 2 = 0 then W i ! (2 * rp) else W i ! (2 * rp + 1)) ! t))"
      unfolding step_def using mmla_two [OF N] l by blast
  qed
  also have "\<dots> = (\<Sum>i<in_k I div 16. \<Sum>t<16. s8_mul (weight_at I (row0 + 2 * rp + l mod 2) (i * 16 + t))
      (act_rows I (token0 + l div 2) (i * 16 + t)))"
  proof (intro sum.cong refl)
    fix i t :: nat assume "t \<in> {..<16}"
    then have t: "t < 16" by simp
    have half: "l div 2 = 0 \<or> l div 2 = 1" "l mod 2 = 0 \<or> l mod 2 = 1" using l by auto
    have "(if l div 2 = 0 then in0 i else in1 i) ! t = act_rows I (token0 + l div 2) (i * 16 + t)"
      using half(1) token t by (auto simp: in0_def in1_def act_rows_def add.assoc)
    moreover have "(if l mod 2 = 0 then W i ! (2 * rp) else W i ! (2 * rp + 1)) ! t =
        weight_at I (row0 + 2 * rp + l mod 2) (i * 16 + t)"
      using half(2) four_rows(2) [OF N row0, of "i * 16" "2 * rp" t I] four_rows(2) [OF N row0, of "i * 16" "2 * rp + 1" t I] rp t
      by (auto simp: W_def add.assoc)
    ultimately show "s8_mul ((if l div 2 = 0 then in0 i else in1 i) ! t) ((if l mod 2 = 0 then W i ! (2 * rp) else W i ! (2 * rp + 1)) ! t) =
        s8_mul (weight_at I (row0 + 2 * rp + l mod 2) (i * 16 + t)) (act_rows I (token0 + l div 2) (i * 16 + t))"
      by (simp add: s8_mul_commute)
  qed
  also have "\<dots> = row_dot I (act_rows I) (token0 + l div 2) (row0 + 2 * rp + l mod 2)"
    unfolding row_dot_def
    using sum_blocks [of "\<lambda>j. s8_mul (weight_at I (row0 + 2 * rp + l mod 2) j) (act_rows I (token0 + l div 2) j)" "in_k I div 16" 16]
    by (simp only: k)
  finally show ?thesis .
qed

text \<open>Storing a two-by-two accumulator.\<close>

lemma put_pair_obs:
  assumes "row + 1 < in_o I"
    and acc: "\<And>l. l < 4 \<Longrightarrow> l div 2 = 0 \<or> token + 1 < in_tokens I \<Longrightarrow> v4 ! l = row_dot I act (token + l div 2) (row + l mod 2)"
  shows "cell_obs N I (put_pair F I token row v4 out) c =
    (if cell_in N I c \<and> (fst c = token \<or> fst c = token + 1) \<and> (snd c = row \<or> snd c = row + 1)
     then cell_val N F I act c else cell_obs N I out c)"
  using assms(1) acc [of 0] acc [of 1] acc [of 2] acc [of 3]
  by (cases c) (auto simp: put_pair_def Let_def put_obs cell_val_def cell_in_def)

lemma put_pairs_obs:
  assumes "\<And>x. x \<in> set xs \<Longrightarrow> row x + 1 < in_o I"
    and "\<And>x l. x \<in> set xs \<Longrightarrow> l < 4 \<Longrightarrow> l div 2 = 0 \<or> token x + 1 < in_tokens I \<Longrightarrow>
      accp x ! l = row_dot I act (token x + l div 2) (row x + l mod 2)"
  shows "cell_obs N I (fold (\<lambda>x out. put_pair F I (token x) (row x) (accp x) out) xs out) c =
    (if cell_in N I c \<and> (\<exists>x\<in>set xs. (fst c = token x \<or> fst c = token x + 1) \<and> (snd c = row x \<or> snd c = row x + 1))
     then cell_val N F I act c else cell_obs N I out c)"
  using assms
proof (induction xs arbitrary: out)
  case (Cons x xs)
  have "cell_obs N I (put_pair F I (token x) (row x) (accp x) out) c =
    (if cell_in N I c \<and> (fst c = token x \<or> fst c = token x + 1) \<and> (snd c = row x \<or> snd c = row x + 1)
     then cell_val N F I act c else cell_obs N I out c)"
    using Cons.prems by (intro put_pair_obs) auto
  then show ?case using Cons by auto
qed simp

definition direct_tile :: "'f row4_input \<Rightarrow> nat \<times> nat \<Rightarrow> nat" where
  "direct_tile I c = fst c div 2 * (in_o I div 4) + snd c div 4"

lemma i8mm_direct_job_obs:
  assumes j: "j < (in_tokens I + 1) div 2 * (in_o I div 4)"
  shows "cell_obs N I (i8mm_direct_job N F I ith j out) c =
    (if direct_tile I c = j then cell_val N F I (act_rows I) c else cell_obs N I out c)"
proof (cases "cell_in N I c")
  case True
  then have ready: "neon_ok N" "128 dvd in_k I" "16 dvd in_o I" by (simp_all add: cell_in_def row4_ready_def)
  have "4 dvd in_o I" using ready(3) by (rule dvd_trans [rotated]) simp
  then obtain w where w: "in_o I = w * 4" by (auto elim!: dvdE simp: mult.commute)
  let ?token = "2 * (j div w)" and ?row = "4 * (j mod w)"
  have "0 < w" using j w by (cases w) auto
  then have ot: "j mod w < w" by simp
  have out: "i8mm_direct_job N F I ith j out =
      fold (\<lambda>rp out. put_pair F I ?token (?row + 2 * rp) (i8mm_direct_sums N I ?token ?row ! rp) out) [0..<2] out"
    unfolding i8mm_direct_job_def w Let_def by simp
  have "cell_obs N I (i8mm_direct_job N F I ith j out) c =
      (if cell_in N I c \<and> (\<exists>rp\<in>set [0..<2]. (fst c = ?token \<or> fst c = ?token + 1) \<and> (snd c = ?row + 2 * rp \<or> snd c = ?row + 2 * rp + 1))
       then cell_val N F I (act_rows I) c else cell_obs N I out c)"
    unfolding out
  proof (rule put_pairs_obs)
    fix rp assume "rp \<in> set [0..<2::nat]"
    then have rp: "rp < 2" by simp
    then show "?row + 2 * rp + 1 < in_o I" using ot w by linarith
    fix l :: nat assume "l < 4" "l div 2 = 0 \<or> ?token + 1 < in_tokens I"
    then show "i8mm_direct_sums N I ?token ?row ! rp ! l = row_dot I (act_rows I) (?token + l div 2) (?row + 2 * rp + l mod 2)"
      using direct_sums [OF ready(1,2) _ rp] by simp
  qed
  moreover have "(\<exists>rp\<in>set [0..<2]. (fst c = ?token \<or> fst c = ?token + 1) \<and> (snd c = ?row + 2 * rp \<or> snd c = ?row + 2 * rp + 1)) \<longleftrightarrow>
      direct_tile I c = j" (is "?L \<longleftrightarrow> _")
  proof
    assume ?L
    then have "fst c div 2 = j div w" "snd c div 4 = j mod w" by auto
    then show "direct_tile I c = j" using \<open>0 < w\<close> by (simp add: direct_tile_def w)
  next
    assume "direct_tile I c = j"
    then have eq: "j = fst c div 2 * w + snd c div 4" by (simp add: direct_tile_def w)
    have "snd c < w * 4" using True by (simp add: cell_in_def w)
    from tile_of [OF this _ eq] have "fst c div 2 = j div w" "snd c div 4 = j mod w" by simp_all
    moreover have "fst c = 2 * (fst c div 2) \<or> fst c = 2 * (fst c div 2) + 1" by presburger
    moreover have "snd c mod 4 div 2 < 2" by simp
    moreover have "snd c = 4 * (snd c div 4) + 2 * (snd c mod 4 div 2) \<or> snd c = 4 * (snd c div 4) + 2 * (snd c mod 4 div 2) + 1"
      by presburger
    ultimately show ?L by (intro bexI [of _ "snd c mod 4 div 2"]) auto
  qed
  ultimately show ?thesis using True by simp
qed (simp add: cell_obs_def cell_val_def)

interpretation direct: job_pool "i8mm_direct_job N F I" "(in_tokens I + 1) div 2 * (in_o I div 4)" "cell_obs N I" "direct_tile I"
    "cell_val N F I (act_rows I)" for N F I
  by unfold_locales (rule i8mm_direct_job_obs)

section \<open>The panel matrix multiply kernel\<close>

lemma store_at_append: "length xs = n \<Longrightarrow> store_at (b + n) ys (store_at b xs m) = store_at b (xs @ ys) m"
  by (auto simp: store_at_def fun_eq_iff nth_append)

text \<open>Eight consecutive weights of four rows, one record of the panel.\<close>

definition panel_record :: "'f row4_input \<Rightarrow> nat \<Rightarrow> nat \<Rightarrow> u8 list" where
  "panel_record I row0 g = map (\<lambda>x. weight_at I (row0 + x div 8) (g * 8 + x mod 8)) [0..<32]"

lemma panel_record_rows:
  assumes "\<And>r. r < 4 \<Longrightarrow> part r = map (\<lambda>t. weight_at I (row0 + r) (g * 8 + t)) [0..<8]"
  shows "part 0 @ part 1 @ part 2 @ part 3 = panel_record I row0 g"
proof (rule nth_equalityI)
  show "length (part 0 @ part 1 @ part 2 @ part 3) = length (panel_record I row0 g)"
    by (simp add: assms panel_record_def)
  fix x assume "x < length (part 0 @ part 1 @ part 2 @ part 3)"
  then have x: "x < 32" by (simp add: assms)
  then consider "x < 8" | "8 \<le> x" "x < 16" | "16 \<le> x" "x < 24" | "24 \<le> x" "x < 32" by linarith
  then show "(part 0 @ part 1 @ part 2 @ part 3) ! x = panel_record I row0 g ! x"
  proof cases
    case 2
    then have "x div 8 = 1" "x mod 8 = x - 8" "x - 8 < 8" by (auto simp: div_nat_eqI mod_if)
    then show ?thesis using 2 by (simp add: nth_append assms panel_record_def)
  next
    case 3
    then have "x div 8 = 2" "x mod 8 = x - 16" "x - 16 < 8" "\<not> x - 8 < 8" by (auto simp: div_nat_eqI mod_if)
    then show ?thesis using 3 by (simp add: nth_append assms panel_record_def)
  next
    case 4
    then have "x div 8 = 3" "x mod 8 = x - 24" "x - 24 < 8" "\<not> x - 8 < 8" "\<not> x - 16 < 8" by (auto simp: div_nat_eqI mod_if)
    then show ?thesis using 4 by (simp add: nth_append assms panel_record_def)
  qed (simp add: nth_append assms panel_record_def)
qed

lemma expand_four_rows_cell:
  assumes N: "neon_ok N" and dvd: "128 dvd in_k I" and row0: "4 dvd row0"
  shows "expand_four_rows N I row0 (b * 32) mem a =
    (if b \<le> a div 32 \<and> a div 32 - b < in_k I div 8 then panel_record I row0 (a div 32 - b) ! (a mod 32) else mem a)"
proof -
  have "16 dvd in_k I" using dvd by (rule dvd_trans [rotated]) simp
  then have st: "strided 0 16 (in_k I) = map (\<lambda>j. j * 16) [0..<in_k I div 16]" and k: "in_k I div 16 * 2 = in_k I div 8"
    by (simp_all add: strided_zero) (auto elim!: dvdE)
  define part where "part = (\<lambda>g r. if g mod 2 = 0 then vget_low N (four_rows_16 N I row0 (g div 2 * 16) ! r)
      else vget_high N (four_rows_16 N I row0 (g div 2 * 16) ! r))"
  have part: "part g r = map (\<lambda>t. weight_at I (row0 + r) (g * 8 + t)) [0..<8]" if "r < 4" for g r
  proof -
    have "16 dvd g div 2 * 16" by simp
    note f = four_rows [OF N row0 this that, where I = I]
    have g: "g = 2 * (g div 2) + g mod 2" by simp
    show ?thesis
    proof (cases "g mod 2 = 0")
      case True
      then have e: "g div 2 * 16 + t = g * 8 + t" for t using g by linarith
      show ?thesis unfolding part_def if_P [OF True] neonD(4) [OF N f(1)]
        by (rule nth_equalityI) (simp_all add: f(1) f(2) e)
    next
      case False
      then have e: "g div 2 * 16 + (8 + t) = g * 8 + t" for t using g by linarith
      show ?thesis unfolding part_def if_not_P [OF False] neonD(5) [OF N f(1)]
        by (rule nth_equalityI) (simp_all add: f(1) f(2) e)
    qed
  qed
  have step: "store_at (b * 32 + (g div 2 * 16 div 8 + g mod 2) * 32 + 16) (vcombine N (part g 2) (part g 3))
        (store_at (b * 32 + (g div 2 * 16 div 8 + g mod 2) * 32) (vcombine N (part g 0) (part g 1)) m) =
      store_at (b * 32 + g * 32) (panel_record I row0 g) m" for g m
  proof -
    have "g div 2 * 16 div 8 + g mod 2 = g" using div_mult_mod_eq [of g 2] by simp
    moreover have "vcombine N (part g 0) (part g 1) = part g 0 @ part g 1" "vcombine N (part g 2) (part g 3) = part g 2 @ part g 3"
      by (simp_all add: neonD(3) [OF N] part)
    moreover have "length (part g 0 @ part g 1) = 16" by (simp add: part)
    ultimately show ?thesis using panel_record_rows [of "part g" I row0 g, OF part]
      by (simp add: store_at_append)
  qed
  have "expand_four_rows N I row0 (b * 32) mem = fold (\<lambda>g m.
      store_at (b * 32 + (g div 2 * 16 div 8 + g mod 2) * 32 + 16) (vcombine N (part g 2) (part g 3))
        (store_at (b * 32 + (g div 2 * 16 div 8 + g mod 2) * 32) (vcombine N (part g 0) (part g 1)) m)) [0..<in_k I div 8] mem"
    unfolding expand_four_rows_def Let_def st fold_map comp_def fold_nest k part_def by (rule refl)
  also have "\<dots> = fold (\<lambda>g m. store_at (b * 32 + g * 32) (panel_record I row0 g) m) [0..<in_k I div 8] mem"
    by (simp only: step)
  finally have "expand_four_rows N I row0 (b * 32) mem =
      fold (\<lambda>g m. store_at (b * 32 + g * 32) (panel_record I row0 g) m) [0..<in_k I div 8] mem" .
  moreover have "length (panel_record I row0 g) = 32" for g by (simp add: panel_record_def)
  ultimately show ?thesis using fold_store_at_off [of "panel_record I row0" 32 b "[0..<in_k I div 8]" mem a] by simp
qed

text \<open>The two expanded groups of a job as one panel of eight rows.\<close>

lemma panel_cell:
  fixes mem :: "nat \<Rightarrow> u8" and I :: "'f row4_input"
  assumes N: "neon_ok N" and dvd: "128 dvd in_k I" and row0: "4 dvd row0"
    and rp: "rp < 4" and j: "j < in_k I div 8" and x: "x < 16"
  defines "panel \<equiv> expand_four_rows N I (row0 + 4) (4 * in_k I) (expand_four_rows N I row0 0 mem)"
  shows "panel ((if rp < 2 then 0 else 4 * in_k I) + j * 32 + rp mod 2 * 16 + x) =
    weight_at I (row0 + 2 * rp + x div 8) (j * 8 + x mod 8)"
proof -
  have "8 dvd in_k I" using dvd by (rule dvd_trans [rotated]) simp
  then have k: "4 * in_k I = in_k I div 8 * 32" by simp
  have row4: "4 dvd row0 + 4" using row0 by simp
  define y where "y = rp mod 2 * 16 + x"
  have y: "y < 32" "y div 8 = 2 * (rp mod 2) + x div 8" "y mod 8 = x mod 8"
  proof -
    have "rp mod 2 = 0 \<or> rp mod 2 = 1" by auto
    then show "y < 32" "y div 8 = 2 * (rp mod 2) + x div 8" "y mod 8 = x mod 8" using x mod_mult_self3 [of 2 8 x] by (auto simp: y_def)
  qed
  define c where "c = (if rp < 2 then 0 else in_k I div 8)"
  have addr: "(if rp < 2 then 0 else 4 * in_k I) + j * 32 + rp mod 2 * 16 + x = (c + j) * 32 + y"
    by (simp add: c_def y_def k add_mult_distrib)
  have cell: "((c + j) * 32 + y) div 32 = c + j" "((c + j) * 32 + y) mod 32 = y" by (fact div_mod_block [OF y(1)])+
  have rec: "panel_record I r j ! y = weight_at I (r + y div 8) (j * 8 + x mod 8)" for r
    using y(1,3) by (simp add: panel_record_def)
  have inner: "expand_four_rows N I row0 0 mem ((c + j) * 32 + y) = panel_record I row0 j ! y" if "c = 0"
    using expand_four_rows_cell [OF N dvd row0, of 0 mem "(c + j) * 32 + y"] j that unfolding cell by simp
  have outer: "panel ((c + j) * 32 + y) =
      (if in_k I div 8 \<le> c + j \<and> c + j - in_k I div 8 < in_k I div 8 then panel_record I (row0 + 4) (c + j - in_k I div 8) ! y
       else expand_four_rows N I row0 0 mem ((c + j) * 32 + y))"
    unfolding panel_def k expand_four_rows_cell [OF N dvd row4] cell by (rule refl)
  show ?thesis
  proof (cases "rp < 2")
    case True
    then have c: "c = 0" and m: "rp mod 2 = rp" by (simp_all add: c_def)
    have "\<not> (in_k I div 8 \<le> c + j \<and> c + j - in_k I div 8 < in_k I div 8)" using j c by simp
    then have "panel ((c + j) * 32 + y) = panel_record I row0 j ! y" unfolding outer inner [OF c] by (simp only: if_False)
    then show ?thesis unfolding addr unfolding rec y(2) m add.assoc .
  next
    case False
    then have c: "c = in_k I div 8" by (simp add: c_def)
    have "rp = 2 \<or> rp = 3" using False rp by linarith
    then have m: "row0 + 4 + 2 * (rp mod 2) = row0 + 2 * rp" by auto
    have "in_k I div 8 \<le> c + j \<and> c + j - in_k I div 8 < in_k I div 8" and cj: "c + j - in_k I div 8 = j" using j c by simp_all
    then have "panel ((c + j) * 32 + y) = panel_record I (row0 + 4) j ! y" unfolding outer cj by (simp only: if_True simp_thms)
    then show ?thesis unfolding addr unfolding rec y(2) m [symmetric] add.assoc .
  qed
qed

text \<open>The accumulators of a token octet over an octet of rows.\<close>

lemma panel_input:
  assumes "2 dvd token0" "x < 16"
  shows "in_act I (token0 div 2 * (2 * in_k I) + j * 8 div 8 * 16 + pair * (2 * in_k I) + x) =
    act_panel I (token0 + 2 * pair + x div 8) (j * 8 + x mod 8)"
proof -
  obtain h where h: "token0 = 2 * h" using assms(1) by (elim dvdE)
  have x: "x div 8 < 2" using assms(2) by (simp add: div_less_iff_less_mult)
  then have "(token0 + 2 * pair + x div 8) div 2 = h + pair" "(token0 + 2 * pair + x div 8) mod 2 = x div 8"
    unfolding h by (simp_all add: less_2_cases_iff) (auto simp: less_2_cases_iff)
  moreover have "token0 div 2 * (2 * in_k I) + j * 8 div 8 * 16 + pair * (2 * in_k I) + x =
      (h + pair) * (2 * in_k I) + j * 16 + (x div 8 * 8 + x mod 8)"
    unfolding h by (simp add: add_mult_distrib)
  moreover have "(j * 8 + x mod 8) div 8 = j" "(j * 8 + x mod 8) mod 8 = x mod 8" by simp_all
  ultimately show ?thesis by (simp only: act_panel_def add.assoc [symmetric])
qed

lemma panel_sums:
  assumes N: "neon_ok N" and dvd: "128 dvd in_k I" and row0: "4 dvd row0" and token0: "2 dvd token0"
    and p: "pair < 4" and rp: "rp < 4" and l: "l < 4"
  shows "i8mm_panel_sums N I (expand_four_rows N I (row0 + 4) (4 * in_k I) (expand_four_rows N I row0 0 mem)) token0 ! (4 * pair + rp) ! l =
    row_dot I (act_panel I) (token0 + 2 * pair + l div 2) (row0 + 2 * rp + l mod 2)"
proof -
  let ?panel = "expand_four_rows N I (row0 + 4) (4 * in_k I) (expand_four_rows N I row0 0 mem)"
  have "8 dvd in_k I" using dvd by (rule dvd_trans [rotated]) simp
  then have k: "in_k I div 8 * 8 = in_k I" and st: "strided 0 8 (in_k I) = map (\<lambda>j. j * 8) [0..<in_k I div 8]"
    by (simp_all add: strided_zero)
  define W where "W = (\<lambda>j rp. load ?panel ((if rp < 2 then 0 else 4 * in_k I) + j * 8 div 8 * 32 + rp mod 2 * 16) 16)"
  define X where "X = (\<lambda>j pair. load (in_act I) (token0 div 2 * (2 * in_k I) + j * 8 div 8 * 16 + pair * (2 * in_k I)) 16)"
  have all: "i8mm_panel_sums N I ?panel token0 =
      fold (\<lambda>j accs. map (\<lambda>i. vmmlaq_s32 N (accs ! i) (X j (i div 4)) (W j (i mod 4))) [0..<16]) [0..<in_k I div 8]
        (replicate 16 (replicate 4 0))"
    unfolding i8mm_panel_sums_def Let_def st fold_map comp_def W_def X_def by (rule refl)
  have ix: "4 * pair + rp < 16" "(4 * pair + rp) div 4 = pair" "(4 * pair + rp) mod 4 = rp" using p rp by simp_all
  have "i8mm_panel_sums N I ?panel token0 ! (4 * pair + rp) =
      fold (\<lambda>j acc. vmmlaq_s32 N acc (X j pair) (W j rp)) [0..<in_k I div 8] (replicate 4 0)"
    unfolding all using ix fold_map_index [where g = "\<lambda>j i acc. vmmlaq_s32 N acc (X j (i div 4)) (W j (i mod 4))"
        and s = "replicate 16 (replicate 4 0)" and n = 16 and xs = "[0..<in_k I div 8]"] by simp
  then have "i8mm_panel_sums N I ?panel token0 ! (4 * pair + rp) ! l =
      fold (\<lambda>j acc. vmmlaq_s32 N acc (X j pair) (W j rp)) [0..<in_k I div 8] (replicate 4 0) ! l" by simp
  also have "\<dots> = (\<Sum>j<in_k I div 8. \<Sum>t<8. s8_mul (X j pair ! (8 * (l div 2) + t)) (W j rp ! (8 * (l mod 2) + t)))"
    by (rule mmla_chain [OF N _ _ l]) (simp_all add: X_def W_def)
  also have "\<dots> = (\<Sum>j<in_k I div 8. \<Sum>t<8. s8_mul (weight_at I (row0 + 2 * rp + l mod 2) (j * 8 + t))
      (act_panel I (token0 + 2 * pair + l div 2) (j * 8 + t)))"
  proof (intro sum.cong refl)
    fix j t :: nat assume "j \<in> {..<in_k I div 8}" "t \<in> {..<8}"
    then have j: "j < in_k I div 8" and t: "t < 8" by simp_all
    have half: "l div 2 < 2" "l mod 2 < 2" using l by auto
    then have x: "8 * (l div 2) + t < 16" "8 * (l mod 2) + t < 16" using t by linarith+
    have d: "(8 * h + t) div 8 = h" "(8 * h + t) mod 8 = t" for h using t by simp_all
    have "X j pair ! (8 * (l div 2) + t) = act_panel I (token0 + 2 * pair + l div 2) (j * 8 + t)"
      unfolding X_def load_facts(2) [OF x(1)] panel_input [OF token0 x(1)] d by (rule refl)
    moreover have "W j rp ! (8 * (l mod 2) + t) = weight_at I (row0 + 2 * rp + l mod 2) (j * 8 + t)"
      using panel_cell [OF N dvd row0 rp j x(2), of mem] unfolding W_def load_facts(2) [OF x(2)] d by simp
    ultimately show "s8_mul (X j pair ! (8 * (l div 2) + t)) (W j rp ! (8 * (l mod 2) + t)) =
        s8_mul (weight_at I (row0 + 2 * rp + l mod 2) (j * 8 + t)) (act_panel I (token0 + 2 * pair + l div 2) (j * 8 + t))"
      by (simp add: s8_mul_commute)
  qed
  also have "\<dots> = row_dot I (act_panel I) (token0 + 2 * pair + l div 2) (row0 + 2 * rp + l mod 2)"
    unfolding row_dot_def
    using sum_blocks [of "\<lambda>i. s8_mul (weight_at I (row0 + 2 * rp + l mod 2) i) (act_panel I (token0 + 2 * pair + l div 2) i)" "in_k I div 8" 8]
    by (simp only: k)
  finally show ?thesis .
qed

text \<open>Steps that each give the cells of a region their value.\<close>

lemma fold_regions:
  assumes "\<And>x out. x \<in> set xs \<Longrightarrow> look (f x out) c = (if P x then v else look out c)"
  shows "look (fold f xs out) c = (if \<exists>x\<in>set xs. P x then v else look out c)"
  using assms by (induction xs arbitrary: out) auto

lemma takeWhile_upt:
  assumes "\<And>p q. p \<le> q \<Longrightarrow> P q \<Longrightarrow> P p"
  shows "set (takeWhile P [0..<m]) = {p. p < m \<and> P p}"
proof (induction m)
  case (Suc m)
  show ?case
  proof (cases "P m")
    case True
    have all: "P p" if "p \<le> m" for p by (rule assms [OF that True])
    then have tw: "takeWhile P [0..<Suc m] = [0..<Suc m]" by (simp add: takeWhile_eq_all_conv less_Suc_eq_le del: upt_Suc)
    show ?thesis unfolding tw using all by (auto simp: less_Suc_eq_le simp del: upt_Suc)
  next
    case False
    then have "takeWhile P [0..<Suc m] = takeWhile P [0..<m]" by (simp add: takeWhile_tail)
    then show ?thesis using Suc False by (auto simp: less_Suc_eq)
  qed
qed simp

lemma panel_store_obs:
  assumes row0: "row0 + 8 \<le> in_o I"
    and accs: "\<And>pair rp l. pair < 4 \<Longrightarrow> rp < 4 \<Longrightarrow> l < 4 \<Longrightarrow>
      accs ! (4 * pair + rp) ! l = row_dot I act (token0 + 2 * pair + l div 2) (row0 + 2 * rp + l mod 2)"
  shows "cell_obs N I (i8mm_panel_store F I token0 row0 accs out) c =
    (if cell_in N I c \<and> token0 \<le> fst c \<and> fst c < token0 + 8 \<and> row0 \<le> snd c \<and> snd c < row0 + 8
     then cell_val N F I act c else cell_obs N I out c)"
proof (cases "cell_in N I c")
  case True
  then have token: "fst c < in_tokens I" by (simp add: cell_in_def)
  let ?pairs = "takeWhile (\<lambda>pair. token0 + 2 * pair < in_tokens I) [0..<4]"
  have pairs: "set ?pairs = {p. p < 4 \<and> token0 + 2 * p < in_tokens I}" by (rule takeWhile_upt) linarith
  have one: "cell_obs N I (fold (\<lambda>row_pair. put_pair F I (token0 + 2 * pair) (row0 + 2 * row_pair) (accs ! (4 * pair + row_pair))) [0..<4] out) c =
      (if \<exists>x\<in>set [0..<4]. (fst c = token0 + 2 * pair \<or> fst c = token0 + 2 * pair + 1) \<and>
          (snd c = row0 + 2 * x \<or> snd c = row0 + 2 * x + 1)
       then cell_val N F I act c else cell_obs N I out c)" if "pair \<in> set ?pairs" for pair out
    using that True row0 accs pairs
    by (subst put_pairs_obs [where token = "\<lambda>_. token0 + 2 * pair" and row = "\<lambda>x. row0 + 2 * x" and accp = "\<lambda>x. accs ! (4 * pair + x)" and act = act])
      auto
  have "(\<exists>pair\<in>set ?pairs. \<exists>x\<in>set [0..<4]. (fst c = token0 + 2 * pair \<or> fst c = token0 + 2 * pair + 1) \<and>
      (snd c = row0 + 2 * x \<or> snd c = row0 + 2 * x + 1)) \<longleftrightarrow>
    token0 \<le> fst c \<and> fst c < token0 + 8 \<and> row0 \<le> snd c \<and> snd c < row0 + 8" (is "?L \<longleftrightarrow> ?R")
  proof
    assume ?R
    define p x where "p = (fst c - token0) div 2" and "x = (snd c - row0) div 2"
    have "p < 4" "x < 4" using \<open>?R\<close> unfolding p_def x_def div_less_iff_less_mult [OF zero_less_numeral] by linarith+
    moreover have c: "fst c = token0 + 2 * p \<or> fst c = token0 + 2 * p + 1" "snd c = row0 + 2 * x \<or> snd c = row0 + 2 * x + 1"
      using \<open>?R\<close> unfolding p_def x_def by presburger+
    moreover have "token0 + 2 * p < in_tokens I" using c(1) token by linarith
    ultimately show ?L unfolding pairs by (intro bexI [of _ p] bexI [of _ x]) auto
  next
    assume ?L
    then show ?R unfolding pairs by auto
  qed
  then show ?thesis
    unfolding i8mm_panel_store_def using True
    by (subst fold_regions [where look = "cell_obs N I", OF one]) (simp_all only: simp_thms)
next
  case False
  then show ?thesis by (simp add: cell_obs_def)
qed

definition panel_tile :: "nat \<times> nat \<Rightarrow> nat" where
  "panel_tile c = snd c div 16"

text \<open>One pass over the tokens with eight expanded rows.\<close>

lemma panel_pass_obs:
  fixes mem :: "nat \<Rightarrow> u8" and I :: "'f row4_input"
  assumes N: "neon_ok N" and dvd: "128 dvd in_k I" and row0: "4 dvd row0" "row0 + 8 \<le> in_o I"
  defines "panel \<equiv> expand_four_rows N I (row0 + 4) (4 * in_k I) (expand_four_rows N I row0 0 mem)"
  shows "cell_obs N I (fold (\<lambda>token0. i8mm_panel_store F I token0 row0 (i8mm_panel_sums N I panel token0)) (strided 0 8 (in_tokens I)) out) c =
    (if cell_in N I c \<and> row0 \<le> snd c \<and> snd c < row0 + 8 then cell_val N F I (act_panel I) c else cell_obs N I out c)"
proof -
  have tokens: "set (strided 0 8 (in_tokens I)) = {j. j < in_tokens I \<and> j mod 8 = 0}"
    by (subst set_strided) auto
  have one: "cell_obs N I (i8mm_panel_store F I token0 row0 (i8mm_panel_sums N I panel token0) out) c =
    (if cell_in N I c \<and> token0 \<le> fst c \<and> fst c < token0 + 8 \<and> row0 \<le> snd c \<and> snd c < row0 + 8
     then cell_val N F I (act_panel I) c else cell_obs N I out c)" if "token0 \<in> set (strided 0 8 (in_tokens I))" for token0 out
  proof -
    have "8 dvd token0" using that unfolding tokens by auto
    then have "2 dvd token0" by (rule dvd_trans [rotated]) simp
    then show ?thesis unfolding panel_def by (intro panel_store_obs [OF row0(2)] panel_sums [OF N dvd row0(1)])
  qed
  have "(\<exists>token0\<in>set (strided 0 8 (in_tokens I)). cell_in N I c \<and> token0 \<le> fst c \<and> fst c < token0 + 8 \<and> row0 \<le> snd c \<and> snd c < row0 + 8)
      \<longleftrightarrow> cell_in N I c \<and> row0 \<le> snd c \<and> snd c < row0 + 8" (is "?L \<longleftrightarrow> ?R")
  proof
    assume r: ?R
    then have "fst c < in_tokens I" by (simp add: cell_in_def)
    then have "fst c div 8 * 8 \<in> set (strided 0 8 (in_tokens I))" "fst c div 8 * 8 \<le> fst c" "fst c < fst c div 8 * 8 + 8"
      unfolding tokens by (auto intro: le_less_trans [OF div_times_less_eq_dividend])
    with r show ?L by blast
  qed blast
  then show ?thesis by (subst fold_regions [where look = "cell_obs N I", OF one]) (simp_all only: simp_thms)
qed

lemma i8mm_panel_job_obs:
  assumes j: "j < in_o I div 16"
  shows "cell_obs N I (snd (i8mm_panel_job N F I ith j st)) c =
    (if panel_tile c = j then cell_val N F I (act_panel I) c else cell_obs N I (snd st) c)"
proof (cases "cell_in N I c")
  case True
  then have ready: "neon_ok N" "128 dvd in_k I" "16 dvd in_o I" by (simp_all add: cell_in_def row4_ready_def)
  obtain panels out where st: "st = (panels, out)" by fastforce
  obtain w where w: "in_o I = w * 16" using ready(3) by (auto elim!: dvdE simp: mult.commute)
  have rows: "4 dvd j * 16" "j * 16 + 8 \<le> in_o I" "4 dvd j * 16 + 8" "j * 16 + 8 + 8 \<le> in_o I" using j w by auto
  have "panel_tile c = j \<longleftrightarrow> (j * 16 \<le> snd c \<and> snd c < j * 16 + 8) \<or> (j * 16 + 8 \<le> snd c \<and> snd c < j * 16 + 8 + 8)"
    using div_less_iff_less_mult [of 16 "snd c" "Suc j"] less_eq_div_iff_mult_less_eq [of 16 j "snd c"]
    unfolding panel_tile_def by auto
  moreover define pass where "pass = (\<lambda>row0 mem. fold (\<lambda>token0. i8mm_panel_store F I token0 row0 (i8mm_panel_sums N I
      (expand_four_rows N I (row0 + 4) (4 * in_k I) (expand_four_rows N I row0 0 mem)) token0)) (strided 0 8 (in_tokens I)))"
  have "\<exists>mem. snd (i8mm_panel_job N F I ith j st) = pass (j * 16 + 8) mem (pass (j * 16) (panels ith) out)"
    unfolding i8mm_panel_job_def st pass_def Let_def by (rule exI) simp
  then obtain mem where job: "snd (i8mm_panel_job N F I ith j st) = pass (j * 16 + 8) mem (pass (j * 16) (panels ith) out)" ..
  have "cell_obs N I (pass (j * 16) mem out) c =
      (if j * 16 \<le> snd c \<and> snd c < j * 16 + 8 then cell_val N F I (act_panel I) c else cell_obs N I out c)" for mem out
    unfolding pass_def panel_pass_obs [OF ready(1,2) rows(1,2)] using True by (simp only: simp_thms)
  moreover have "cell_obs N I (pass (j * 16 + 8) mem out) c =
      (if j * 16 + 8 \<le> snd c \<and> snd c < j * 16 + 8 + 8 then cell_val N F I (act_panel I) c else cell_obs N I out c)" for mem out
    unfolding pass_def panel_pass_obs [OF ready(1,2) rows(3,4)] using True by (simp only: simp_thms)
  ultimately show ?thesis unfolding job unfolding st snd_conv by auto
next
  case False
  then show ?thesis by (simp add: cell_obs_def cell_val_def)
qed

interpretation panel: job_pool "i8mm_panel_job N F I" "in_o I div 16" "\<lambda>st. cell_obs N I (snd st)" panel_tile
    "cell_val N F I (act_panel I)" for N F I
  by unfold_locales (rule i8mm_panel_job_obs)

end
