(* ===== verification/Row4_Cpu.thy ===== *)
theory Row4_Cpu
  imports Row4_Jobs
begin

text \<open>
  The row-4 backend around its kernels (\<open>ggml-cpu/row4/row4-cpu.cpp\<close>): operator validation, the
  choice of a path, the workspace, the quantisation phase and the whole operator; and what it
  computes: the same output on every path the build has, under every schedule of the workers.
  Build flags are \<open>row4_build\<close>; messages and the debug marker are not modelled.
\<close>

section \<open>Paths and validation\<close>

datatype row4_path = Path_scalar | Path_dotprod | Path_i8mm

record row4_build =
  has_dotprod :: bool
  has_i8mm :: bool

definition select_path :: "row4_build \<Rightarrow> environment \<Rightarrow> int \<Rightarrow> row4_path option" where
  "select_path B env tokens =
     (case env ''GGML_ROW4_TEST_FORCE_PATH'' of
        Some (c # cs) \<Rightarrow>
          if c # cs = ''scalar'' then Some Path_scalar
          else if c # cs = ''dotprod'' then (if has_dotprod B then Some Path_dotprod else None)
          else if c # cs = ''i8mm'' then (if has_i8mm B then Some Path_i8mm else None)
          else None
      | _ \<Rightarrow>
          if tokens = 1 \<and> has_dotprod B then Some Path_dotprod
          else if has_i8mm B then Some Path_i8mm
          else if has_dotprod B then Some Path_dotprod
          else None)"

definition validate_shapes ::
    "'d row4_node \<Rightarrow> 'd ggml_tensor \<Rightarrow> 'd ggml_tensor \<Rightarrow> 'd ggml_tensor \<Rightarrow> bool" where
  "validate_shapes dst x codes scales =
     (let version = op_params dst 0; oo = op_params dst 1; k = op_params dst 2 in
      if version \<noteq> 1 \<or> oo \<le> 0 \<or> k \<le> 0 \<or> oo mod 128 \<noteq> 0 \<or> k mod 128 \<noteq> 0 \<or> ne x 0 \<noteq> k \<or>
         ne dst 0 \<noteq> oo \<or> ne dst 1 \<noteq> ne x 1 \<or> ne dst 2 \<noteq> ne x 2 \<or> ne dst 3 \<noteq> ne x 3 then False
      else if ne scales 0 \<noteq> oo \<or> ne scales 1 \<noteq> 1 \<or> ne scales 2 \<noteq> 1 \<or> ne scales 3 \<noteq> 1 then False
      else if top dst = GGML_OP_ROW4_LINEAR
      then ttype codes = GGML_TYPE_ROW4_CODES \<and> ttype scales = GGML_TYPE_BF16 \<and> ne codes 0 = 64 \<and>
           ne codes 1 = 4 \<and> ne codes 2 = k div 128 \<and> ne codes 3 = oo div 16
      else ttype codes = GGML_TYPE_I8 \<and> ttype scales = GGML_TYPE_F32 \<and> ne codes 0 = 128 \<and>
           ne codes 1 = 16 \<and> ne codes 2 = k div 128 \<and> ne codes 3 = oo div 16)"

definition validate_op :: "'d row4_node option \<Rightarrow> bool" where
  "validate_op dst_opt =
     (case dst_opt of None \<Rightarrow> False
      | Some dst \<Rightarrow>
          if top dst \<noteq> GGML_OP_ROW4_LINEAR \<and> top dst \<noteq> GGML_OP_W8A8_LINEAR then False
          else case (src dst 0, src dst 1, src dst 2) of
            (Some x, Some codes, Some scales) \<Rightarrow>
              if ttype x \<noteq> GGML_TYPE_F32 \<or> ttype dst \<noteq> GGML_TYPE_F32 then False
              else if ttype codes = GGML_TYPE_ROW4_CODES_PAIR2 then False
              else if \<not> list_all (\<lambda>i. src dst i = None) [3..<10] then False
              else if \<not> ggml_is_contiguous x \<or> \<not> ggml_is_contiguous codes \<or> \<not> ggml_is_contiguous scales \<or>
                      \<not> ggml_is_contiguous dst then False
              else
                validate_shapes dst x codes scales
          | _ \<Rightarrow> False)"

definition ggml_row4_cpu_supports_op :: "row4_build \<Rightarrow> environment \<Rightarrow> 'd row4_node option \<Rightarrow> bool" where
  "ggml_row4_cpu_supports_op B env dst =
     (if \<not> validate_op dst then False
      else case dst of None \<Rightarrow> False
           | Some d \<Rightarrow> (case src d 0 of None \<Rightarrow> False | Some x \<Rightarrow> select_path B env (ggml_nrows x) \<noteq> None))"

definition ggml_row4_cpu_n_tasks :: "'d row4_node option \<Rightarrow> int \<Rightarrow> int" where
  "ggml_row4_cpu_n_tasks dst n_threads = (if validate_op dst then n_threads else 0)"

section \<open>The workspace\<close>

text \<open>\<open>size_t\<close> quantities are \<open>u64\<close> and wrap.\<close>

definition align_cache_line :: "u64 \<Rightarrow> u64" where
  "align_cache_line n = (n + 64 - 1) AND NOT (64 - 1)"

definition align_panel_tokens :: "int \<Rightarrow> int" where
  "align_panel_tokens tokens = (tokens + 7) AND NOT 7"

record row4_layout =
  lay_q_bytes :: u64
  lay_scale_bytes :: u64
  lay_panel_stride :: u64
  lay_panel_bytes :: u64
  lay_counter_bytes :: u64

definition uses_panel :: "row4_path \<Rightarrow> int \<Rightarrow> bool" where
  "uses_panel path tokens \<longleftrightarrow> path = Path_i8mm \<and> tokens \<ge> 8"

definition row4_layout_of :: "row4_path \<Rightarrow> int \<Rightarrow> int \<Rightarrow> int \<Rightarrow> row4_layout" where
  "row4_layout_of path tokens k n_tasks =
     (let q_tokens = (if uses_panel path tokens then align_panel_tokens tokens else tokens);
          stride = align_cache_line (8 * word_of_int k)
      in \<lparr>lay_q_bytes = align_cache_line (word_of_int q_tokens * word_of_int k),
          lay_scale_bytes = align_cache_line (word_of_int tokens * 4),
          lay_panel_stride = stride,
          lay_panel_bytes = (if uses_panel path tokens then word_of_int n_tasks * stride else 0),
          lay_counter_bytes = align_cache_line 8\<rparr>)"

definition layout_total :: "row4_layout \<Rightarrow> u64" where
  "layout_total l = lay_q_bytes l + lay_scale_bytes l + lay_panel_bytes l + lay_counter_bytes l"

definition ggml_row4_cpu_work_size :: "row4_build \<Rightarrow> environment \<Rightarrow> 'd row4_node option \<Rightarrow> int \<Rightarrow> u64" where
  "ggml_row4_cpu_work_size B env dst n_tasks =
     (if \<not> validate_op dst then 0
      else case dst of None \<Rightarrow> 0
      | Some d \<Rightarrow>
        (case src d 0 of None \<Rightarrow> 0
         | Some x \<Rightarrow>
            (case select_path B env (ggml_nrows x) of None \<Rightarrow> 0
             | Some path \<Rightarrow> layout_total (row4_layout_of path (ggml_nrows x) (ne x 0) n_tasks))))"

section \<open>The operator\<close>

text \<open>Phase one: each worker quantises its share of the tokens; worker 0 clears the padding rows.\<close>

definition row_of_token :: "(nat \<Rightarrow> 'f) \<Rightarrow> nat \<Rightarrow> nat \<Rightarrow> nat \<Rightarrow> 'f" where
  "row_of_token x k token = (\<lambda>i. x (token * k + i))"

definition quantize_phase ::
    "'f row4_float \<Rightarrow> bool \<Rightarrow> (nat \<Rightarrow> 'f) \<Rightarrow> nat \<Rightarrow> nat \<Rightarrow> nat \<Rightarrow> nat \<Rightarrow> nat \<Rightarrow> (nat \<Rightarrow> u8) \<times> (nat \<Rightarrow> 'f) \<Rightarrow>
     (nat \<Rightarrow> u8) \<times> (nat \<Rightarrow> 'f)" where
  "quantize_phase F panel x k tokens q_tokens nthr ith st =
     (let (mem, scales) = fold (\<lambda>token (mem, scales).
            (if panel then quantize_activation_panel_row F (row_of_token x k token) token k mem
             else quantize_activation_row F (row_of_token x k token) (token * k) k mem,
             scales(token := activation_scale F (row_of_token x k token) k)))
          [tokens * ith div nthr..<tokens * (ith + 1) div nthr] st
      in if panel \<and> ith = 0
         then (fold (\<lambda>token. zero_activation_panel_row token k) [tokens..<q_tokens] mem, scales)
         else (mem, scales))"

text \<open>
  All workers: \<open>ws\<close> is their order in phase one, \<open>sched\<close> the schedule of phase two. \<open>wsz\<close> is the
  workspace (\<open>None\<close>: null), \<open>st\<close> and \<open>panels\<close> its old contents. The result is the returned flag and
  the output.
\<close>

definition row4_run_path ::
    "row4_build \<Rightarrow> neon_ops \<Rightarrow> 'f row4_float \<Rightarrow> row4_path \<Rightarrow> nat \<Rightarrow> nat list \<Rightarrow> 'f row4_input \<Rightarrow> (nat \<Rightarrow> nat \<Rightarrow> u8) \<Rightarrow> (nat \<Rightarrow> 'f) \<Rightarrow>
     bool \<times> (nat \<Rightarrow> 'f)" where
  "row4_run_path B N F path nthr sched I panels out =
     (case path of
        Path_scalar \<Rightarrow> (True, fold (compute_scalar F I nthr) sched out)
      | Path_dotprod \<Rightarrow> if has_dotprod B then (True, compute_dotprod N F I nthr sched out) else (False, out)
      | Path_i8mm \<Rightarrow> if has_i8mm B then (True, compute_i8mm N F I nthr sched panels out) else (False, out))"

definition row4_quantized_input ::
    "'f row4_float \<Rightarrow> 'f row4_data row4_node \<Rightarrow> 'f row4_data ggml_tensor \<Rightarrow> 'f row4_data ggml_tensor \<Rightarrow> 'f row4_data ggml_tensor \<Rightarrow>
     row4_path \<Rightarrow> nat \<Rightarrow> nat list \<Rightarrow> (nat \<Rightarrow> u8) \<times> (nat \<Rightarrow> 'f) \<Rightarrow> 'f row4_input" where
  "row4_quantized_input F dst x codes scales path nthr ws st =
     (let rows = ggml_nrows x; tokens = nat rows; k = nat (ne x 0); panel = uses_panel path rows;
          q_tokens = (if panel then nat (align_panel_tokens rows) else tokens);
          (mem, act_scales) = fold (quantize_phase F panel (f32_data x) k tokens q_tokens nthr) ws st
      in \<lparr>in_row4 = (top dst = GGML_OP_ROW4_LINEAR), in_codes = codes, in_scales = scales, in_k = k, in_o = nat (ne dst 0),
          in_tokens = tokens, in_act = mem, in_act_scales = act_scales\<rparr>)"

definition row4_compute_path ::
    "row4_build \<Rightarrow> environment \<Rightarrow> neon_ops \<Rightarrow> 'f row4_float \<Rightarrow> 'f row4_data row4_node \<Rightarrow> 'f row4_data ggml_tensor \<Rightarrow>
     'f row4_data ggml_tensor \<Rightarrow> 'f row4_data ggml_tensor \<Rightarrow> nat \<Rightarrow> nat list \<Rightarrow> nat list \<Rightarrow>
     u64 option \<Rightarrow> (nat \<Rightarrow> u8) \<times> (nat \<Rightarrow> 'f) \<Rightarrow> (nat \<Rightarrow> nat \<Rightarrow> u8) \<Rightarrow> (nat \<Rightarrow> 'f) \<Rightarrow> bool \<times> (nat \<Rightarrow> 'f)" where
  "row4_compute_path B env N F dst x codes scales nthr ws sched wsz st panels out =
     (case select_path B env (ggml_nrows x) of None \<Rightarrow> (False, out)
      | Some path \<Rightarrow>
          (case wsz of None \<Rightarrow> (False, out)
           | Some wsize \<Rightarrow>
               if wsize < layout_total (row4_layout_of path (ggml_nrows x) (ne x 0) (int nthr)) then (False, out)
               else row4_run_path B N F path nthr sched (row4_quantized_input F dst x codes scales path nthr ws st) panels out))"

definition ggml_row4_cpu_compute ::
    "row4_build \<Rightarrow> environment \<Rightarrow> neon_ops \<Rightarrow> 'f row4_float \<Rightarrow> 'f row4_data row4_node option \<Rightarrow> nat \<Rightarrow> nat list \<Rightarrow> nat list \<Rightarrow>
     u64 option \<Rightarrow> (nat \<Rightarrow> u8) \<times> (nat \<Rightarrow> 'f) \<Rightarrow> (nat \<Rightarrow> nat \<Rightarrow> u8) \<Rightarrow> (nat \<Rightarrow> 'f) \<Rightarrow> bool \<times> (nat \<Rightarrow> 'f)" where
  "ggml_row4_cpu_compute B env N F dst_opt nthr ws sched wsz st panels out =
     (if \<not> validate_op dst_opt then (False, out)
      else case dst_opt of None \<Rightarrow> (False, out)
      | Some dst \<Rightarrow>
          (case (src dst 0, src dst 1, src dst 2) of
             (Some x, Some codes, Some scales) \<Rightarrow> row4_compute_path B env N F dst x codes scales nthr ws sched wsz st panels out
           | _ \<Rightarrow> (False, out)))"

text \<open>What it should compute, per token and output row.\<close>

definition row4_reference ::
    "'f row4_float \<Rightarrow> bool \<Rightarrow> (nat \<Rightarrow> 'f) \<Rightarrow> ('f row4_data, 'x) ggml_tensor_scheme \<Rightarrow> ('f row4_data, 'y) ggml_tensor_scheme \<Rightarrow>
     nat \<Rightarrow> nat \<Rightarrow> nat \<Rightarrow> 'f" where
  "row4_reference F row4 x codes scales k token row =
     (let xs = row_of_token x k token; scale = activation_scale F xs k;
          acc = (\<Sum>i<k. s8_mul (if row4 then row4_weight_at codes row i else w8_weight_at codes row i)
                   (quantize_activation F (bf16_round_trip F (xs i)) scale))
      in result_value F scales (\<lambda>_. scale) token row acc)"

text \<open>A schedule under which every worker gets through: enough actions of each worker where jobs
  are fetched from the counter, else every worker once or more.\<close>

definition schedule_ok :: "row4_path \<Rightarrow> nat \<Rightarrow> nat \<Rightarrow> nat \<Rightarrow> nat list \<Rightarrow> bool" where
  "schedule_ok path tokens o_tiles nthr sched \<longleftrightarrow>
     (if path = Path_dotprod \<and> tokens = 1 \<or> path = Path_i8mm \<and> tokens \<ge> 8
      then \<forall>ith<nthr. 2 * o_tiles < count_list sched ith else set sched = {..<nthr})"

section \<open>The quantisation phase\<close>

lemma and_not_mask: "x AND NOT (mask n) = push_bit n (drop_bit n x)" for x :: "'a :: ring_bit_operations"
  by (rule bit_eqI) (auto simp: bit_simps)

lemma align_panel_tokens_eq: "align_panel_tokens t = (t + 7) div 8 * 8"
  using and_not_mask [of "t + 7" 3] by (simp add: align_panel_tokens_def mask_eq_exp_minus_1 push_bit_eq_mult drop_bit_eq_div)

lemma fold_concat: "fold (\<lambda>x. fold f (g x)) xs = fold f (concat (map g xs))"
  by (induction xs) (auto simp: fun_eq_iff)

lemma upd_store_at: "fold (\<lambda>i m. m(b + i := f i)) [0..<n] m = store_at b (map f [0..<n]) m"
proof (induction n)
  case (Suc n)
  show ?case unfolding upt_Suc_append [OF le0] fold_append comp_apply Suc
    by (auto simp: store_at_def fun_eq_iff nth_append)
qed (auto simp: store_at_def fun_eq_iff)

text \<open>The tokens a worker handles, the padding rows of worker 0 included.\<close>

definition phase_tokens :: "bool \<Rightarrow> nat \<Rightarrow> nat \<Rightarrow> nat \<Rightarrow> nat \<Rightarrow> nat list" where
  "phase_tokens panel tokens q_tokens nthr ith =
     [tokens * ith div nthr..<tokens * (ith + 1) div nthr] @ (if panel \<and> ith = 0 then [tokens..<q_tokens] else [])"

definition token_quants :: "'f row4_float \<Rightarrow> (nat \<Rightarrow> 'f) \<Rightarrow> nat \<Rightarrow> nat \<Rightarrow> nat \<Rightarrow> u8" where
  "token_quants F x k token i =
     quantize_activation F (bf16_round_trip F (row_of_token x k token i)) (activation_scale F (row_of_token x k token) k)"

lemma phase_scales:
  "snd (fold (\<lambda>token (mem, scales). (f token mem, scales(token := g token))) xs (m, sc)) =
    (\<lambda>t. if t \<in> set xs then g t else sc t)"
  by (induction xs arbitrary: m sc) auto

lemma phase_mem:
  "fst (fold (\<lambda>token (mem, scales). (f token mem, scales(token := g token))) xs (m, sc)) = fold f xs m"
  by (induction xs arbitrary: m sc) auto

lemma last_range: "0 < nthr \<Longrightarrow> ith < nthr \<Longrightarrow> tokens * (ith + 1) div nthr \<le> (tokens :: nat)"
proof -
  assume h: "0 < nthr" "ith < nthr"
  have "tokens * (ith + 1) div nthr \<le> tokens * nthr div nthr"
    using h(2) by (intro div_le_mono mult_le_mono2) simp
  with h(1) show ?thesis by simp
qed

definition phase_row :: "'f row4_float \<Rightarrow> bool \<Rightarrow> (nat \<Rightarrow> 'f) \<Rightarrow> nat \<Rightarrow> nat \<Rightarrow> nat \<Rightarrow> (nat \<Rightarrow> u8) \<Rightarrow> nat \<Rightarrow> u8" where
  "phase_row F panel x k tokens token mem =
     (if \<not> panel then quantize_activation_row F (row_of_token x k token) (token * k) k mem
      else if token < tokens then quantize_activation_panel_row F (row_of_token x k token) token k mem
      else zero_activation_panel_row token k mem)"

lemma quantize_phase_split:
  assumes "0 < nthr" "ith < nthr"
  shows "fst (quantize_phase F panel x k tokens q_tokens nthr ith st) = fold (phase_row F panel x k tokens) (phase_tokens panel tokens q_tokens nthr ith) (fst st)"
    and "snd (quantize_phase F panel x k tokens q_tokens nthr ith st) =
      (\<lambda>t. if t \<in> set [tokens * ith div nthr..<tokens * (ith + 1) div nthr] then activation_scale F (row_of_token x k t) k else snd st t)"
proof -
  let ?range = "[tokens * ith div nthr..<tokens * (ith + 1) div nthr]"
  let ?q = "\<lambda>token mem. if panel then quantize_activation_panel_row F (row_of_token x k token) token k mem
             else quantize_activation_row F (row_of_token x k token) (token * k) k mem"
  obtain m sc where st: "st = (m, sc)" by fastforce
  define r where "r = fold (\<lambda>token (mem, scales). (?q token mem, scales(token := activation_scale F (row_of_token x k token) k))) ?range (m, sc)"
  have r: "fst r = fold ?q ?range m" "snd r = (\<lambda>t. if t \<in> set ?range then activation_scale F (row_of_token x k t) k else sc t)"
    unfolding r_def by (rule phase_mem, rule phase_scales)
  have run: "quantize_phase F panel x k tokens q_tokens nthr ith st =
      (if panel \<and> ith = 0 then (fold (\<lambda>token. zero_activation_panel_row token k) [tokens..<q_tokens] (fst r), snd r) else r)"
    unfolding quantize_phase_def st r_def [symmetric] by (cases r) simp
  have quant: "fold ?q ?range m = fold (phase_row F panel x k tokens) ?range m"
    using last_range [OF assms(1,2), of tokens] by (intro fold_cong) (auto simp: phase_row_def)
  have zero: "fold (\<lambda>token. zero_activation_panel_row token k) [tokens..<q_tokens] m' = fold (phase_row F panel x k tokens) [tokens..<q_tokens] m'" if panel for m'
    using that by (intro fold_cong) (auto simp: phase_row_def)
  show "fst (quantize_phase F panel x k tokens q_tokens nthr ith st) = fold (phase_row F panel x k tokens) (phase_tokens panel tokens q_tokens nthr ith) (fst st)"
  proof (cases "panel \<and> ith = 0")
    case True
    then show ?thesis using zero
      unfolding run unfolding phase_tokens_def if_P [OF True] fold_append comp_apply st fst_conv r quant by blast
  next
    case False
    then show ?thesis unfolding run unfolding phase_tokens_def if_not_P [OF False] st fst_conv r quant by simp
  qed
  show "snd (quantize_phase F panel x k tokens q_tokens nthr ith st) =
      (\<lambda>t. if t \<in> set ?range then activation_scale F (row_of_token x k t) k else snd st t)"
    unfolding run using r(2) by (auto simp: st)
qed

lemma phase_tokens_all:
  assumes "0 < nthr" "set ws = {..<nthr}"
  shows "set (concat (map (phase_tokens panel tokens q_tokens nthr) ws)) = {t. t < tokens \<or> panel \<and> tokens \<le> t \<and> t < q_tokens}"
proof -
  have "(\<exists>w\<in>set ws. t \<in> set [tokens * w div nthr..<tokens * (w + 1) div nthr]) \<longleftrightarrow> t < tokens" for t
    by (rule worker_ranges_cover [OF assms])
  moreover have "0 \<in> set ws" using assms by simp
  moreover have "set (concat (map (phase_tokens panel tokens q_tokens nthr) ws)) =
      {t. \<exists>w\<in>set ws. t \<in> set [tokens * w div nthr..<tokens * (w + 1) div nthr]} \<union>
      {t. panel \<and> 0 \<in> set ws \<and> tokens \<le> t \<and> t < q_tokens}"
    unfolding phase_tokens_def by (auto split: if_splits)
  ultimately show ?thesis by (simp only: simp_thms) blast
qed

text \<open>What the phase leaves: every token's scale, and its quantised row in the layout of the path.\<close>

lemma quantize_phase_scales:
  assumes "0 < nthr" "set ws = {..<nthr}" "t < tokens"
  shows "snd (fold (quantize_phase F panel x k tokens q_tokens nthr) ws st) t = activation_scale F (row_of_token x k t) k"
proof -
  have "snd (fold (quantize_phase F panel x k tokens q_tokens nthr) vs st) t =
      (if \<exists>w\<in>set vs. t \<in> set [tokens * w div nthr..<tokens * (w + 1) div nthr] then activation_scale F (row_of_token x k t) k else snd st t)"
    if "set vs \<subseteq> {..<nthr}" for vs
    using that by (induction vs arbitrary: st) (auto simp: quantize_phase_split(2) [OF assms(1)])
  then show ?thesis using worker_ranges_cover [OF assms(1,2), of t tokens] assms(2,3) by auto
qed

lemma quantize_phase_mem:
  assumes "0 < nthr" "set ws = {..<nthr}"
  shows "fst (fold (quantize_phase F panel x k tokens q_tokens nthr) ws st) =
    fold (phase_row F panel x k tokens) (concat (map (phase_tokens panel tokens q_tokens nthr) ws)) (fst st)"
proof -
  have "fst (fold (quantize_phase F panel x k tokens q_tokens nthr) vs st) =
      fold (\<lambda>w. fold (phase_row F panel x k tokens) (phase_tokens panel tokens q_tokens nthr w)) vs (fst st)" if "set vs \<subseteq> {..<nthr}" for vs
    using that by (induction vs arbitrary: st) (auto simp: quantize_phase_split(1) [OF assms(1)] phase_row_def)
  then show ?thesis using assms(2) unfolding fold_concat [symmetric] by simp
qed

lemma quantize_phase_rows:
  assumes "0 < nthr" "set ws = {..<nthr}" "t < tokens" "i < k"
  shows "fst (fold (quantize_phase F False x k tokens q_tokens nthr) ws st) (t * k + i) = token_quants F x k t i"
proof -
  let ?f = "\<lambda>t. map (token_quants F x k t) [0..<k]"
  have row: "quantize_activation_row F (row_of_token x k t) (t * k) k mem = store_at (t * k) (?f t) mem" for t mem
    unfolding quantize_activation_row_def Let_def upd_store_at by (simp add: token_quants_def cong: map_cong)
  have rows: "phase_row F False x k tokens = (\<lambda>t. store_at (t * k) (?f t))" by (simp add: fun_eq_iff phase_row_def row)
  have "fst (fold (quantize_phase F False x k tokens q_tokens nthr) ws st) (t * k + i) =
      (if (t * k + i) div k \<in> set (concat (map (phase_tokens False tokens q_tokens nthr) ws))
       then ?f ((t * k + i) div k) ! ((t * k + i) mod k) else fst st (t * k + i))"
    unfolding quantize_phase_mem [OF assms(1,2)] rows by (rule fold_store_at) (use assms(4) in simp_all)
  also have "\<dots> = token_quants F x k t i"
    using assms(3,4) unfolding phase_tokens_all [OF assms(1,2)] div_mod_block [OF assms(4)] by simp
  finally show ?thesis .
qed

text \<open>The panel layout: records of eight bytes, two tokens in turn.\<close>

lemma zero_panel_store:
  assumes "8 dvd k"
  shows "zero_activation_panel_row token k mem =
      fold (\<lambda>j. store_at ((token div 2 * (2 * (k div 8)) + j * 2 + token mod 2) * 8) (replicate 8 0)) [0..<k div 8] mem"
    and "quantize_activation_panel_row F (row_of_token x k token) token k mem =
      fold (\<lambda>j. store_at ((token div 2 * (2 * (k div 8)) + j * 2 + token mod 2) * 8)
        (map (\<lambda>lane. token_quants F x k token (j * 8 + lane)) [0..<8])) [0..<k div 8] mem"
proof -
  have st: "strided 0 8 k = map (\<lambda>j. j * 8) [0..<k div 8]" using assms by (simp add: strided_zero)
  have "k = k div 8 * 8" using assms by simp
  then have addr: "token div 2 * (2 * k) + j * 8 div 8 * 16 + token mod 2 * 8 = (token div 2 * (2 * (k div 8)) + j * 2 + token mod 2) * 8" for j
    by (simp add: add_mult_distrib)
  show "zero_activation_panel_row token k mem =
      fold (\<lambda>j. store_at ((token div 2 * (2 * (k div 8)) + j * 2 + token mod 2) * 8) (replicate 8 0)) [0..<k div 8] mem"
    unfolding zero_activation_panel_row_def Let_def st fold_map comp_def addr by (rule refl)
  show "quantize_activation_panel_row F (row_of_token x k token) token k mem =
      fold (\<lambda>j. store_at ((token div 2 * (2 * (k div 8)) + j * 2 + token mod 2) * 8)
        (map (\<lambda>lane. token_quants F x k token (j * 8 + lane)) [0..<8])) [0..<k div 8] mem"
    unfolding quantize_activation_panel_row_def Let_def st fold_map comp_def addr token_quants_def by (rule refl)
qed

lemma quantize_phase_panel:
  assumes "0 < nthr" "set ws = {..<nthr}" "t < tokens" "i < k" "8 dvd k"
  shows "fst (fold (quantize_phase F True x k tokens q_tokens nthr) ws st)
      (t div 2 * (2 * k) + i div 8 * 16 + t mod 2 * 8 + i mod 8) = token_quants F x k t i"
proof -
  define w where "w = k div 8"
  have k: "k = w * 8" using assms(5) by (simp add: w_def)
  have w0: "0 < w" using assms(4) k by (cases w) auto
  define ix where "ix = (\<lambda>token j. token div 2 * (2 * w) + j * 2 + token mod 2)"
  define tok where "tok = (\<lambda>g. g div (2 * w) * 2 + g mod 2)"
  define col where "col = (\<lambda>g. g mod (2 * w) div 2)"
  have inv_ix: "tok (ix token j) = token" "col (ix token j) = j" if "j < w" for token j
  proof -
    have lt: "j * 2 + token mod 2 < 2 * w" using that by linarith
    have "ix token j = token div 2 * (2 * w) + (j * 2 + token mod 2)" by (simp add: ix_def)
    then have "ix token j div (2 * w) = token div 2" "ix token j mod (2 * w) = j * 2 + token mod 2"
      using div_mod_block [OF lt, of "token div 2"] by simp_all
    moreover have "ix token j mod 2 = token mod 2" by (simp add: ix_def mod_add_eq [symmetric] mult.left_commute [of _ 2])
    ultimately show "tok (ix token j) = token" "col (ix token j) = j" by (simp_all add: tok_def col_def)
  qed
  define f where "f = (\<lambda>g. if tok g < tokens then map (\<lambda>lane. token_quants F x k (tok g) (col g * 8 + lane)) [0..<8] else replicate 8 (0 :: u8))"
  have row: "phase_row F True x k tokens token mem = fold (\<lambda>g. store_at (g * 8) (f g)) (map (ix token) [0..<w]) mem" for token mem
  proof -
    have "fold (\<lambda>g. store_at (g * 8) (f g)) (map (ix token) [0..<w]) mem =
      fold (\<lambda>j. store_at (ix token j * 8) (if token < tokens then map (\<lambda>lane. token_quants F x k token (j * 8 + lane)) [0..<8] else replicate 8 0)) [0..<w] mem"
      unfolding fold_map comp_def by (rule fold_cong) (simp_all add: f_def inv_ix)
    then show ?thesis using zero_panel_store(1) [OF assms(5), of token mem, folded w_def]
        zero_panel_store(2) [OF assms(5), of F x token mem, folded w_def] by (simp add: phase_row_def ix_def)
  qed
  have len: "length (f g) = 8" for g by (simp add: f_def)
  let ?ts = "concat (map (phase_tokens True tokens q_tokens nthr) ws)"
  let ?gs = "concat (map (\<lambda>token. map (ix token) [0..<w]) ?ts)"
  have all: "fst (fold (quantize_phase F True x k tokens q_tokens nthr) ws st) = fold (\<lambda>g. store_at (g * 8) (f g)) ?gs (fst st)"
    unfolding quantize_phase_mem [OF assms(1,2)] row fold_concat [symmetric] by (rule refl)
  have i: "i div 8 < w" "i mod 8 < 8" using assms(4) k by (simp_all add: div_less_iff_less_mult)
  have addr: "t div 2 * (2 * k) + i div 8 * 16 + t mod 2 * 8 + i mod 8 = ix t (i div 8) * 8 + i mod 8"
    by (simp add: ix_def k add_mult_distrib)
  have "t \<in> set ?ts" unfolding phase_tokens_all [OF assms(1,2)] using assms(3) by simp
  moreover have "ix t (i div 8) \<in> set (map (ix t) [0..<w])" using i(1) by simp
  ultimately have "ix t (i div 8) \<in> set ?gs" unfolding set_concat set_map [of "\<lambda>token. map (ix token) [0..<w]"] by blast
  then show ?thesis
    unfolding all addr using fold_store_at [of f 8 ?gs "fst st" "ix t (i div 8) * 8 + i mod 8"] len i assms(3)
    unfolding div_mod_block [OF i(2)] by (simp add: f_def inv_ix [OF i(1)])
qed

section \<open>Correctness of the operator\<close>

text \<open>The scalar kernel, all workers.\<close>

lemma compute_scalar_all:
  assumes "0 < nthr" "set ws = {..<nthr}" "token < in_tokens I" "row < in_o I"
  shows "fold (compute_scalar F I nthr) ws out (token * in_o I + row) =
    result_value F (in_scales I) (in_act_scales I) token row (row_dot I (act_rows I) token row)"
proof -
  let ?f = "\<lambda>index. result_value F (in_scales I) (in_act_scales I) (index div in_o I) (index mod in_o I)
      (scalar_dot I (index div in_o I) (index mod in_o I))"
  have put: "put F I (index div in_o I) (index mod in_o I) acc out =
      out(index := result_value F (in_scales I) (in_act_scales I) (index div in_o I) (index mod in_o I) acc)" for index acc out
    by (simp add: put_def store_result_def)
  have run: "compute_scalar F I nthr = (\<lambda>ith. fold (\<lambda>index out. out(index := ?f index))
      [in_tokens I * in_o I * ith div nthr..<in_tokens I * in_o I * (ith + 1) div nthr])"
    unfolding compute_scalar_def Let_def put by (rule refl)
  have "token * in_o I + row < token * in_o I + in_o I" using assms(4) by simp
  also have "\<dots> \<le> in_tokens I * in_o I" using assms(3) mult_le_mono1 [of "Suc token" "in_tokens I" "in_o I"] by simp
  finally have lt: "token * in_o I + row < in_tokens I * in_o I" .
  have "inj (\<lambda>i :: nat. i)" by (simp add: inj_def)
  from fold_worker_ranges [OF this assms(1,2) lt, of ?f out]
  show ?thesis unfolding run div_mod_block [OF assms(4)] scalar_dot_row_dot .
qed

text \<open>The input of the kernels after phase one reads the quantised rows in the layout of its path.\<close>

lemma row_dot_cong:
  assumes "\<And>i. i < in_k I \<Longrightarrow> act token i = q i"
  shows "row_dot I act token row = (\<Sum>i<in_k I. s8_mul (weight_at I row i) (q i))"
  unfolding row_dot_def by (rule sum.cong) (simp_all add: assms)

lemma result_value_scale:
  "act_scales token = scale \<Longrightarrow> result_value F scales act_scales token row acc = result_value F scales (\<lambda>_. scale) token row acc"
  by (simp add: result_value_def)

text \<open>The kernels, given what phase one leaves.\<close>

lemma kernels_correct:
  assumes ready: "row4_ready N I" and nthr: "0 < nthr" and cell: "token < in_tokens I" "row < in_o I"
  shows "set sched = {..<nthr} \<Longrightarrow> fold (compute_scalar F I nthr) sched out (token * in_o I + row) =
      result_value F (in_scales I) (in_act_scales I) token row (row_dot I (act_rows I) token row)"
    and "schedule_ok Path_dotprod (in_tokens I) (in_o I div 16) nthr sched \<Longrightarrow> compute_dotprod N F I nthr sched out (token * in_o I + row) =
      result_value F (in_scales I) (in_act_scales I) token row (row_dot I (act_rows I) token row)"
    and "schedule_ok Path_i8mm (in_tokens I) (in_o I div 16) nthr sched \<Longrightarrow> compute_i8mm N F I nthr sched panels out (token * in_o I + row) =
      result_value F (in_scales I) (in_act_scales I) token row
        (row_dot I (if in_tokens I \<ge> 8 then act_panel I else act_rows I) token row)"
proof -
  show "set sched = {..<nthr} \<Longrightarrow> fold (compute_scalar F I nthr) sched out (token * in_o I + row) =
      result_value F (in_scales I) (in_act_scales I) token row (row_dot I (act_rows I) token row)"
    by (rule compute_scalar_all [OF nthr _ cell])
  have inc: "cell_in N I (token, row)" using ready cell by (simp add: cell_in_def)
  have dvd: "16 dvd in_o I" using ready by (simp add: row4_ready_def)
  have o16: "row div 16 < in_o I div 16" using dvd cell(2) by (auto elim!: dvdE simp: div_less_iff_less_mult mult.commute)
  have tile: "dotprod_tile I (token, row) < in_tokens I * (in_o I div 16)"
  proof -
    have "token * (in_o I div 16) + row div 16 < Suc token * (in_o I div 16)" using o16 by simp
    also have "\<dots> \<le> in_tokens I * (in_o I div 16)" by (rule mult_le_mono1) (use cell(1) in simp)
    finally show ?thesis by (simp add: dotprod_tile_def)
  qed
  show "schedule_ok Path_dotprod (in_tokens I) (in_o I div 16) nthr sched \<Longrightarrow> compute_dotprod N F I nthr sched out (token * in_o I + row) =
      result_value F (in_scales I) (in_act_scales I) token row (row_dot I (act_rows I) token row)"
  proof -
    assume sched: "schedule_ok Path_dotprod (in_tokens I) (in_o I div 16) nthr sched"
    have "cell_obs N I (compute_dotprod N F I nthr sched out) (token, row) = cell_val N F I (act_rows I) (token, row)"
    proof (cases "in_tokens I = 1")
      case True
      have "pool_finished nthr (pool_run (dotprod_job N F I) (in_tokens I * (in_o I div 16)) nthr sched out)"
        by (rule pool_run_finishes) (use sched True in \<open>simp add: schedule_ok_def\<close>)
      from dotprod.pool_result [OF nthr this] show ?thesis using tile True by (simp add: compute_dotprod_def)
    next
      case False
      then have "set sched = {..<nthr}" using sched by (simp add: schedule_ok_def)
      from dotprod.static_result [OF nthr this, of N I F out "(token, row)"] show ?thesis using tile False by (simp add: compute_dotprod_def)
    qed
    then show ?thesis using inc by (simp add: cell_obs_def cell_val_def)
  qed
  assume sched: "schedule_ok Path_i8mm (in_tokens I) (in_o I div 16) nthr sched"
  show "compute_i8mm N F I nthr sched panels out (token * in_o I + row) =
      result_value F (in_scales I) (in_act_scales I) token row
        (row_dot I (if in_tokens I \<ge> 8 then act_panel I else act_rows I) token row)"
  proof (cases "in_tokens I \<ge> 8")
    case True
    have "pool_finished nthr (pool_run (i8mm_panel_job N F I) (in_o I div 16) nthr sched (panels, out))"
      by (rule pool_run_finishes) (use sched True in \<open>simp add: schedule_ok_def\<close>)
    from panel.pool_result [OF nthr this, where a = "(token, row)"] show ?thesis
      using inc True o16 by (simp add: compute_i8mm_def cell_obs_def cell_val_def panel_tile_def)
  next
    case False
    then have ws: "set sched = {..<nthr}" using sched by (simp add: schedule_ok_def)
    have "4 dvd in_o I" using dvd by (rule dvd_trans [rotated]) simp
    then have o4: "row div 4 < in_o I div 4" using cell(2) by (auto elim!: dvdE simp: div_less_iff_less_mult mult.commute)
    have "token div 2 * (in_o I div 4) + row div 4 < Suc (token div 2) * (in_o I div 4)" using o4 by simp
    also have "\<dots> \<le> (in_tokens I + 1) div 2 * (in_o I div 4)" by (rule mult_le_mono1) (use cell(1) in linarith)
    finally have "direct_tile I (token, row) < (in_tokens I + 1) div 2 * (in_o I div 4)" by (simp add: direct_tile_def)
    with direct.static_result [OF nthr ws, of N I F out "(token, row)"] show ?thesis
      using inc False by (simp add: compute_i8mm_def compute_i8mm_direct_def cell_obs_def cell_val_def)
  qed
qed

lemma validate_op_dims:
  assumes "validate_op (Some dst)" "src dst 0 = Some x"
  shows "0 < ne x 0 \<and> ne x 0 mod 128 = 0 \<and> 0 < ne dst 0 \<and> ne dst 0 mod 128 = 0"
    and "\<exists>codes scales. src dst 1 = Some codes \<and> src dst 2 = Some scales"
proof -
  have "top dst = GGML_OP_ROW4_LINEAR \<or> top dst = GGML_OP_W8A8_LINEAR"
    using assms(1) by (simp add: validate_op_def split: if_split_asm)
  then have guard: "\<not> (top dst \<noteq> GGML_OP_ROW4_LINEAR \<and> top dst \<noteq> GGML_OP_W8A8_LINEAR)" by blast
  have "src dst 1 \<noteq> None" "src dst 2 \<noteq> None"
    using assms(1) unfolding validate_op_def option.case if_not_P [OF guard]
    by (cases "src dst 1"; cases "src dst 2"; simp add: assms(2))+
  then show "\<exists>codes scales. src dst 1 = Some codes \<and> src dst 2 = Some scales" by blast
  then obtain codes scales where "src dst 1 = Some codes" "src dst 2 = Some scales" by blast
  then show "0 < ne x 0 \<and> ne x 0 mod 128 = 0 \<and> 0 < ne dst 0 \<and> ne dst 0 mod 128 = 0"
    using assms guard by (simp add: validate_op_def validate_shapes_def Let_def split: if_splits)
qed

lemma select_path_available:
  "select_path B env tokens = Some path \<Longrightarrow> (path = Path_dotprod \<longrightarrow> has_dotprod B) \<and> (path = Path_i8mm \<longrightarrow> has_i8mm B)"
  by (auto simp: select_path_def split: option.splits list.splits if_splits)

text \<open>
  C12: whichever path the build and the environment select, whatever the number of workers, their
  order in the quantisation phase and their interleaving on the job counter, the operator returns
  true and leaves in every output slot the value of the reference: the row's integer product with
  the quantised token, scaled and rounded to bf16.
\<close>

theorem row4_compute_correct:
  assumes valid: "validate_op (Some dst)" and srcs: "src dst 0 = Some x" "src dst 1 = Some codes" "src dst 2 = Some scales"
    and path: "select_path B env (ggml_nrows x) = Some path"
    and room: "layout_total (row4_layout_of path (ggml_nrows x) (ne x 0) (int nthr)) \<le> wsize"
    and neon: "neon_ok N" and nthr: "0 < nthr" "set ws = {..<nthr}"
    and sched: "schedule_ok path (nat (ggml_nrows x)) (nat (ne dst 0) div 16) nthr sched"
  shows "\<exists>out'. ggml_row4_cpu_compute B env N F (Some dst) nthr ws sched (Some wsize) st panels out = (True, out') \<and>
    (\<forall>token<nat (ggml_nrows x). \<forall>row<nat (ne dst 0). out' (token * nat (ne dst 0) + row) =
      row4_reference F (top dst = GGML_OP_ROW4_LINEAR) (f32_data x) codes scales (nat (ne x 0)) token row)"
proof -
  define k oo tokens where "k = nat (ne x 0)" and "oo = nat (ne dst 0)" and "tokens = nat (ggml_nrows x)"
  note dims = validate_op_dims(1) [OF valid srcs(1)]
  have "128 dvd int k" "128 dvd int oo" using dims by (auto simp: k_def oo_def mod_eq_0_iff_dvd)
  then have dvd: "128 dvd k" "128 dvd oo" using int_dvd_int_iff [of 128 k] int_dvd_int_iff [of 128 oo] by simp_all
  have d8: "8 dvd k" and d16: "16 dvd oo"
    using dvd dvd_trans [of 8 128 k] dvd_trans [of 16 128 oo] by simp_all
  define panel where "panel = uses_panel path (ggml_nrows x)"
  define qt where "qt = (if panel then nat (align_panel_tokens (ggml_nrows x)) else tokens)"
  define ms where "ms = fold (quantize_phase F panel (f32_data x) k tokens qt nthr) ws st"
  define I where "I = row4_quantized_input F dst x codes scales path nthr ws st"
  have fields [simp]: "in_k I = k" "in_o I = oo" "in_tokens I = tokens" "in_scales I = scales" "in_act I = fst ms"
    "in_act_scales I = snd ms" "in_row4 I = (top dst = GGML_OP_ROW4_LINEAR)" "in_codes I = codes"
    by (simp_all add: I_def row4_quantized_input_def Let_def case_prod_beta ms_def qt_def panel_def k_def oo_def tokens_def)
  define out' where "out' = snd (row4_run_path B N F path nthr sched I panels out)"
  have out: "row4_run_path B N F path nthr sched I panels out = (True, out')"
    using select_path_available [OF path] by (cases path) (simp_all add: out'_def row4_run_path_def)
  have run: "ggml_row4_cpu_compute B env N F (Some dst) nthr ws sched (Some wsize) st panels out = (True, out')"
    using valid room out srcs path
    by (simp add: ggml_row4_cpu_compute_def row4_compute_path_def I_def not_less)
  have ready: "row4_ready N I" using neon dvd d16 by (simp add: row4_ready_def)
  have pan: "panel \<longleftrightarrow> path = Path_i8mm \<and> 8 \<le> tokens"
    by (auto simp: panel_def uses_panel_def tokens_def)
  have cell: "out' (token * oo + row) = row4_reference F (top dst = GGML_OP_ROW4_LINEAR) (f32_data x) codes scales k token row"
    if t: "token < tokens" and r: "row < oo" for token row
  proof -
    define act where "act = (if panel then act_panel I else act_rows I)"
    note kernels = kernels_correct [OF ready nthr(1), of token row, simplified, OF t r]
    have "out' (token * oo + row) = result_value F scales (snd ms) token row (row_dot I act token row)"
      using kernels(1) [of sched F out] kernels(2) [of sched F out] kernels(3) [of sched F panels out] sched pan
      using select_path_available [OF path] unfolding out'_def act_def row4_run_path_def
      by (cases path) (simp_all add: schedule_ok_def tokens_def [symmetric] oo_def [symmetric])
    moreover have "act token i = token_quants F (f32_data x) k token i" if "i < k" for i
      using quantize_phase_rows [OF nthr t that, of F "f32_data x" qt st]
        quantize_phase_panel [OF nthr t that d8, of F "f32_data x" qt st]
      unfolding act_def by (simp add: act_rows_def act_panel_def ms_def)
    then have "row_dot I act token row = (\<Sum>i<k. s8_mul (weight_at I row i) (token_quants F (f32_data x) k token i))"
      by (subst row_dot_cong) simp_all
    moreover have "snd ms token = activation_scale F (row_of_token (f32_data x) k token) k"
      unfolding ms_def by (rule quantize_phase_scales [OF nthr t])
    moreover have "weight_at I row i = (if top dst = GGML_OP_ROW4_LINEAR then row4_weight_at codes row i else w8_weight_at codes row i)" for i
      by (cases "top dst = GGML_OP_ROW4_LINEAR") (simp_all add: weight_at_def)
    ultimately show ?thesis
      by (simp add: row4_reference_def Let_def token_quants_def result_value_def)
  qed
  show ?thesis using run cell unfolding k_def oo_def tokens_def by blast
qed

text \<open>
  C13: the operator fails exactly when the planner's checks or the workspace do, and then leaves the
  output alone; the workspace it asks for is the size the planner reserves.
\<close>

theorem row4_compute_rejects:
  "if ggml_row4_cpu_supports_op B env dst \<and> (\<exists>w. wsz = Some w \<and> ggml_row4_cpu_work_size B env dst (int nthr) \<le> w)
   then fst (ggml_row4_cpu_compute B env N F dst nthr ws sched wsz st panels out)
   else ggml_row4_cpu_compute B env N F dst nthr ws sched wsz st panels out = (False, out)"
proof (cases "validate_op dst")
  case True
  then obtain d where d: "dst = Some d" by (auto simp: validate_op_def split: option.splits)
  have "src d 0 \<noteq> None" using True by (auto simp: d validate_op_def split: option.splits if_splits)
  then obtain x where x: "src d 0 = Some x" by blast
  obtain codes scales where cs: "src d 1 = Some codes" "src d 2 = Some scales" using validate_op_dims(2) [OF True [unfolded d] x] by blast
  show ?thesis
  proof (cases "select_path B env (ggml_nrows x)")
    case None
    show ?thesis by (simp add: None ggml_row4_cpu_supports_op_def d x cs cs [unfolded One_nat_def] ggml_row4_cpu_compute_def row4_compute_path_def)
  next
    case (Some path)
    have "(\<exists>w. wsz = Some w \<and> ggml_row4_cpu_work_size B env dst (int nthr) \<le> w) \<longleftrightarrow>
        (\<exists>w. wsz = Some w \<and> layout_total (row4_layout_of path (ggml_nrows x) (ne x 0) (int nthr)) \<le> w)"
      using True by (simp add: ggml_row4_cpu_work_size_def d x Some)
    moreover have "ggml_row4_cpu_supports_op B env dst" using True by (simp add: ggml_row4_cpu_supports_op_def d x Some)
    ultimately show ?thesis using True select_path_available [OF Some]
      by (cases wsz) (auto simp: d ggml_row4_cpu_compute_def row4_compute_path_def row4_run_path_def x cs cs [unfolded One_nat_def] Some split: row4_path.splits)
  qed
qed (simp add: ggml_row4_cpu_supports_op_def ggml_row4_cpu_compute_def)

section \<open>Bounds\<close>

text \<open>Weights of the codebook lie in \<open>[-2, 2]\<close>, any other signed byte in \<open>[-128, 127]\<close>.\<close>

lemma codebook_small:
  "channel < 4 \<Longrightarrow> i < 16 \<Longrightarrow> \<bar>row4_codebook ! channel ! i\<bar> \<le> 2"
proof -
  have "list_all (list_all (\<lambda>v. \<bar>v\<bar> \<le> 2)) row4_codebook" "length row4_codebook = 4" "list_all (\<lambda>l. length l = 16) row4_codebook"
    by (simp_all add: row4_codebook_def)
  then show "channel < 4 \<Longrightarrow> i < 16 \<Longrightarrow> \<bar>row4_codebook ! channel ! i\<bar> \<le> 2"
    by (simp add: list_all_length)
qed

lemma sint_small: "\<bar>v\<bar> \<le> 2 \<Longrightarrow> sint (word_of_int v :: u8) = v"
  by (simp add: signed_of_int signed_take_bit_int_eq_self)

lemma row4_weight_small: "\<bar>sint (row4_weight_at codes oi k)\<bar> \<le> 2"
proof -
  have c: "oi mod 16 mod 4 < 4" by simp
  obtain b where b: "row4_weight_at codes oi k = word_of_int (row4_codebook ! (oi mod 16 mod 4) ! unat (b :: u8))" "unat b < 16"
    unfolding row4_weight_at_def Let_def by (auto split: if_splits simp: nibble_bound)
  show ?thesis unfolding b(1) using codebook_small [OF c b(2)] by (simp add: sint_small)
qed

lemma s8_bounds: "\<bar>sint (b :: u8)\<bar> \<le> 128"
  using sint_greater_eq [of b] sint_less [of b] by (simp add: abs_le_iff)

lemma sint_exact: "\<bar>v\<bar> < 2 ^ 31 \<Longrightarrow> sint (word_of_int v :: u32) = v"
  by (simp add: signed_of_int signed_take_bit_int_eq_self abs_less_iff)

lemma unat_exact: "v < 2 ^ 64 \<Longrightarrow> unat (of_nat v :: u64) = v"
  by (simp add: unat_of_nat take_bit_nat_eq_self)

lemma int_less_power: "int a < 2 ^ b \<Longrightarrow> a < 2 ^ b"
  by (metis of_nat_less_iff of_nat_numeral of_nat_power)

lemma row_dot_bound:
  assumes "\<And>ik. ik < n \<Longrightarrow> \<bar>w ik\<bar> \<le> (c :: int)" "\<And>ik. \<bar>a ik\<bar> \<le> 128" "0 \<le> c"
  shows "\<bar>\<Sum>ik<n. w ik * a ik\<bar> \<le> int n * (c * 128)"
proof -
  have "\<bar>\<Sum>ik<n. w ik * a ik\<bar> \<le> (\<Sum>ik<n. \<bar>w ik * a ik\<bar>)" by (rule sum_abs)
  also have "\<dots> \<le> (\<Sum>ik<n. c * 128)"
    by (rule sum_mono) (use assms in \<open>simp add: abs_mult mult_mono\<close>)
  finally show ?thesis by simp
qed

text \<open>The integer product of a row's weights with a token's activations, without a machine width.\<close>

definition integer_dot :: "'f row4_input \<Rightarrow> (nat \<Rightarrow> nat \<Rightarrow> u8) \<Rightarrow> nat \<Rightarrow> nat \<Rightarrow> int" where
  "integer_dot I act token row = (\<Sum>ik<in_k I. sint (weight_at I row ik) * sint (act token ik))"

lemma row_dot_exact:
  assumes "in_k I < (if in_row4 I then 2 ^ 23 else 2 ^ 17)"
  shows "sint (row_dot I act token row) = integer_dot I act token row"
proof -
  have "\<bar>integer_dot I act token row\<bar> < 2 ^ 31"
  proof (cases "in_row4 I")
    case True
    have "\<bar>integer_dot I act token row\<bar> \<le> int (in_k I) * (2 * 128)" unfolding integer_dot_def
      by (rule row_dot_bound) (simp_all add: weight_at_def True row4_weight_small s8_bounds)
    then show ?thesis using assms True by simp
  next
    case False
    have "\<bar>integer_dot I act token row\<bar> \<le> int (in_k I) * (128 * 128)" unfolding integer_dot_def
      by (rule row_dot_bound) (simp_all add: s8_bounds)
    then show ?thesis using assms False by simp
  qed
  then show ?thesis unfolding row_dot_def integer_dot_def s8_mul_def of_int_sum [symmetric] by (rule sint_exact)
qed

text \<open>
  C14: no result of a kernel wraps for inner dimensions below \<open>2 ^ 23\<close> (row-4 codes) or \<open>2 ^ 17\<close> (signed byte
  weights): the scalar accumulator, the horizontal sum of a dot product register, and each lane of the direct and of the
  panel matrix multiply registers that belongs to a token, read as signed numbers, are the exact integer product of the
  row's weights with the token's activations, in the layout the kernel reads them from.
\<close>

theorem row4_accumulators_exact:
  assumes k: "in_k I < (if in_row4 I then 2 ^ 23 else 2 ^ 17)" and N: "neon_ok N" and dvd: "128 dvd in_k I"
  shows "(\<forall>token row. sint (scalar_dot I token row) = integer_dot I (act_rows I) token row) \<and>
    (\<forall>token ot. \<forall>r<16. sint (vaddvq_s32 N ((if in_row4 I then row4_dotprod_sums N I token ot else w8_dotprod_sums N I token ot) ! r)) =
       integer_dot I (act_rows I) token (ot * 16 + r)) \<and>
    (\<forall>token0 row0. 4 dvd row0 \<longrightarrow> (\<forall>rp<2. \<forall>l<4. l div 2 = 0 \<or> token0 + 1 < in_tokens I \<longrightarrow>
       sint (i8mm_direct_sums N I token0 row0 ! rp ! l) = integer_dot I (act_rows I) (token0 + l div 2) (row0 + 2 * rp + l mod 2))) \<and>
    (\<forall>token0 row0 mem. 4 dvd row0 \<longrightarrow> 2 dvd token0 \<longrightarrow> (\<forall>pair<4. \<forall>rp<4. \<forall>l<4.
       sint (i8mm_panel_sums N I (expand_four_rows N I (row0 + 4) (4 * in_k I) (expand_four_rows N I row0 0 mem)) token0
               ! (4 * pair + rp) ! l) =
         integer_dot I (act_panel I) (token0 + 2 * pair + l div 2) (row0 + 2 * rp + l mod 2)))"
  by (simp add: scalar_dot_row_dot row4_dotprod_sums_row [OF N dvd] w8_dotprod_sums_row [OF N dvd] direct_sums [OF N dvd]
      panel_sums [OF N dvd] row_dot_exact [OF k])

text \<open>The alignment of a size that does not wrap.\<close>

lemma align_cache_line_unat:
  assumes "unat n + 63 < 2 ^ 64"
  shows "unat (align_cache_line n) = (unat n + 63) div 64 * 64"
proof -
  have add: "unat (n + 63) = unat n + 63" using assms unat_add_lem [of n 63] by simp
  have "align_cache_line n = push_bit 6 (drop_bit 6 (n + 63))"
    using and_not_mask [of "n + 63" 6] by (simp add: align_cache_line_def mask_eq_exp_minus_1 add.commute)
  also have "\<dots> = of_nat ((unat n + 63) div 64 * 64)"
    by (simp add: push_bit_eq_mult drop_bit_eq_div add [symmetric] word_arith_nat_div)
  finally have eq: "align_cache_line n = of_nat ((unat n + 63) div 64 * 64)" .
  have "(unat n + 63) div 64 * 64 < 2 ^ 64" using assms by (rule le_less_trans [OF div_times_less_eq_dividend])
  then show ?thesis unfolding eq by (rule unat_exact)
qed

text \<open>The address a panel token and column are quantised to stays inside the padded tokens.\<close>

lemma panel_address:
  fixes t tokens q k i :: nat
  assumes "t < q" "even q" "i < k" "8 dvd k"
  shows "t div 2 * (2 * k) + i div 8 * 16 + t mod 2 * 8 + i mod 8 < q * k"
proof -
  obtain w where k: "k = w * 8" using assms(4) by (auto elim!: dvdE simp: mult.commute)
  have "i div 8 < w" using assms(3) k by (simp add: div_less_iff_less_mult)
  then have "i div 8 * 16 + t mod 2 * 8 + i mod 8 < 2 * k"
    using k mod_less_divisor [of 8 i] mod_less_divisor [of 2 t] by linarith
  then have "t div 2 * (2 * k) + (i div 8 * 16 + t mod 2 * 8 + i mod 8) < Suc (t div 2) * (2 * k)" by simp
  also have "\<dots> \<le> q div 2 * (2 * k)" by (rule mult_le_mono1) (use assms(1,2) in \<open>auto elim!: evenE\<close>)
  also have "\<dots> = q * k" using assms(2) by (auto elim!: evenE)
  finally show ?thesis by simp
qed

text \<open>
  C15: as long as the sizes stay below \<open>2 ^ 58\<close>, the workspace's regions (activations, scales, one
  panel per worker, the job counter) are multiples of a cache line, hold what the operator writes
  in them, and add up to the size the planner reserves.
\<close>

theorem row4_workspace_regions:
  fixes path :: row4_path and tokens k n :: int
  assumes nonneg: "0 \<le> tokens" "0 \<le> k" "0 \<le> n" and div8: "8 dvd k"
    and sizes: "(tokens + 8) * k < 2 ^ 58" "tokens < 2 ^ 56" "k < 2 ^ 54" "n * (8 * k + 64) < 2 ^ 58"
  defines "l \<equiv> row4_layout_of path tokens k n"
  shows "(\<forall>t<nat tokens. \<forall>i<nat k. t * nat k + i < unat (lay_q_bytes l)) \<and>
    (\<forall>t<nat (align_panel_tokens tokens). \<forall>i<nat k. uses_panel path tokens \<longrightarrow>
      t div 2 * (2 * nat k) + i div 8 * 16 + t mod 2 * 8 + i mod 8 < unat (lay_q_bytes l)) \<and>
    4 * nat tokens \<le> unat (lay_scale_bytes l) \<and> 8 * nat k \<le> unat (lay_panel_stride l) \<and>
    unat (lay_panel_bytes l) = (if uses_panel path tokens then nat n * unat (lay_panel_stride l) else 0) \<and>
    8 \<le> unat (lay_counter_bytes l) \<and>
    64 dvd unat (lay_q_bytes l) \<and> 64 dvd unat (lay_scale_bytes l) \<and> 64 dvd unat (lay_panel_stride l) \<and>
    unat (layout_total l) = unat (lay_q_bytes l) + unat (lay_scale_bytes l) + unat (lay_panel_bytes l) + unat (lay_counter_bytes l)"
proof -
  define T K m where "T = nat tokens" and "K = nat k" and "m = nat n"
  have ints: "tokens = int T" "k = int K" "n = int m" using nonneg by (simp_all add: T_def K_def m_def)
  define Q where "Q = (if uses_panel path tokens then (T + 7) div 8 * 8 else T)"
  have q: "(if uses_panel path tokens then align_panel_tokens tokens else tokens) = int Q"
    by (simp add: Q_def align_panel_tokens_eq ints zdiv_int)
  have tq: "T \<le> Q" "Q \<le> T + 8" by (auto simp: Q_def)
  have "int ((T + 8) * K) < 2 ^ 58" using sizes(1) by (simp add: ints algebra_simps)
  then have TK: "(T + 8) * K < 2 ^ 58" by (rule int_less_power)
  then have QK: "Q * K < 2 ^ 58" using mult_le_mono1 [OF tq(2), of K] by linarith
  have T: "T < 2 ^ 56" and K: "K < 2 ^ 54" using sizes(2,3) by (simp_all add: ints)
  have "int (m * (8 * K + 64)) < 2 ^ 58" using sizes(4) by (simp add: ints algebra_simps)
  then have mK: "m * (8 * K + 64) < 2 ^ 58" by (rule int_less_power)
  note un = unat_exact
  have word: "word_of_int (int a) * word_of_int (int b) = (of_nat (a * b) :: u64)" "word_of_int (int a) * 4 = (of_nat (a * 4) :: u64)"
    "8 * word_of_int (int a) = (of_nat (8 * a) :: u64)" for a b by simp_all
  have al: "unat (align_cache_line (of_nat v)) = (v + 63) div 64 * 64" if "v < 2 ^ 60" for v
    using align_cache_line_unat [of "of_nat v"] un [of v] that by simp
  define A B S where "A = (Q * K + 63) div 64 * 64" and "B = (T * 4 + 63) div 64 * 64" and "S = (8 * K + 63) div 64 * 64"
  have lq: "unat (lay_q_bytes l) = A" using QK unfolding l_def row4_layout_of_def Let_def row4_layout.simps A_def ints q [unfolded ints] word by (intro al) simp
  have ls: "unat (lay_scale_bytes l) = B" using T unfolding l_def row4_layout_of_def Let_def row4_layout.simps B_def ints word by (intro al) simp
  have st: "unat (lay_panel_stride l) = S" using K unfolding l_def row4_layout_of_def Let_def row4_layout.simps S_def ints word by (intro al) simp
  have ge: "v \<le> (v + 63) div 64 * 64" "(v + 63) div 64 * 64 \<le> v + 63" for v :: nat by linarith+
  have mS: "m * S < 2 ^ 58"
  proof -
    have "S \<le> 8 * K + 64" using ge(2) [of "8 * K"] by (simp add: S_def)
    then show ?thesis using mult_le_mono2 [of S "8 * K + 64" m] mK by linarith
  qed
  have pb: "unat (lay_panel_bytes l) = (if uses_panel path tokens then m * S else 0)"
  proof -
    have "lay_panel_bytes l = (if uses_panel path tokens then of_nat m * lay_panel_stride l else 0)"
      by (simp add: l_def row4_layout_of_def Let_def ints)
    moreover have "of_nat m * lay_panel_stride l = (of_nat (m * S) :: u64)"
      unfolding of_nat_mult st [symmetric] by simp
    ultimately show ?thesis using mS un [of "m * S"] by simp
  qed
  have cb: "unat (lay_counter_bytes l) = 64"
    using al [of 8] by (simp add: l_def row4_layout_of_def Let_def)
  have small: "A < 2 ^ 59" "B < 2 ^ 59" using ge(2) [of "Q * K"] ge(2) [of "T * 4"] QK T by (simp_all add: A_def B_def)
  have total: "unat (layout_total l) = A + B + (if uses_panel path tokens then m * S else 0) + 64"
  proof -
    have "layout_total l = of_nat (A + B + (if uses_panel path tokens then m * S else 0) + 64)"
      unfolding layout_total_def of_nat_add lq [symmetric] ls [symmetric] pb [symmetric] cb [symmetric] by simp
    then show ?thesis using small mS un [of "A + B + (if uses_panel path tokens then m * S else 0) + 64"] by (simp split: if_splits)
  qed
  have rows: "t * K + i < A" if "t < T" "i < K" for t i
  proof -
    have "t * K + i < Suc t * K" using that(2) by simp
    also have "\<dots> \<le> Q * K" by (rule mult_le_mono1) (use that(1) tq(1) in simp)
    also have "\<dots> \<le> A" unfolding A_def by (rule ge(1))
    finally show ?thesis .
  qed
  have k8: "8 dvd K" using div8 unfolding ints by (metis int_dvd_int_iff of_nat_numeral)
  have panel: "t div 2 * (2 * K) + i div 8 * 16 + t mod 2 * 8 + i mod 8 < A"
    if "t < nat (align_panel_tokens tokens)" "i < K" "uses_panel path tokens" for t i
  proof -
    have "nat (align_panel_tokens tokens) = Q" using q that(3) by simp
    moreover have "even Q" using that(3) by (simp add: Q_def)
    ultimately have "t div 2 * (2 * K) + i div 8 * 16 + t mod 2 * 8 + i mod 8 < Q * K"
      using panel_address [of t Q i K] that(1,2) k8 by simp
    also have "\<dots> \<le> A" unfolding A_def by (rule ge(1))
    finally show ?thesis .
  qed
  show ?thesis unfolding lq ls st pb cb total T_def [symmetric] K_def [symmetric] m_def [symmetric]
    using rows panel ge(1) [of "T * 4"] ge(1) [of "8 * K"] by (simp add: A_def B_def S_def)
qed


section \<open>Concrete instances\<close>

text \<open>The intrinsics as documented, and the operations over the reals.\<close>

definition arm_ops :: neon_ops where
  "arm_ops = \<lparr>vand_u8 = map2 (AND), vshr_n_u8 = (\<lambda>a n. map (drop_bit n) a), vcombine = (@),
     vget_low = take 8, vget_high = drop 8,
     vqtbl1q_s8 = (\<lambda>t. map (\<lambda>i. if unat i < 16 then t ! unat i else 0)),
     vdotq_s32 = (\<lambda>acc a b. map (\<lambda>i. acc ! i + (\<Sum>t<4. s8_mul (a ! (4 * i + t)) (b ! (4 * i + t)))) [0..<4]),
     vaddvq_s32 = sum_list,
     vmmlaq_s32 = (\<lambda>acc a b.
       map (\<lambda>l. acc ! l + (\<Sum>t<8. s8_mul (a ! (8 * (l div 2) + t)) (b ! (8 * (l mod 2) + t)))) [0..<4])\<rparr>"

lemma arm_ops_ok: "neon_ok arm_ops"
  unfolding neon_ok_def arm_ops_def by simp

definition real_row4_float :: "real row4_float" where
  "real_row4_float = \<lparr>rf_lit = (\<lambda>r. r), rf_less = (<), rf_abs = abs, rf_add = (+), rf_mult = (*), rf_div = (/),
     rf_floor = (\<lambda>r. real_of_int \<lfloor>r\<rfloor>), rf_copysign = (\<lambda>a b. if b < 0 then - \<bar>a\<bar> else \<bar>a\<bar>),
     rf_of_s32 = (\<lambda>w. real_of_int (sint w)), rf_to_s8 = (\<lambda>r. word_of_int \<lfloor>r\<rfloor>),
     rf_of_bf16 = (\<lambda>b. real_of_int (sint b)), rf_to_bf16 = (\<lambda>r. word_of_int \<lfloor>r\<rfloor>)\<rparr>"

definition example_codes :: "real row4_data ggml_tensor" where
  "example_codes = dense_tensor GGML_TYPE_ROW4_CODES 64 4 1 8 (DBytes (\<lambda>i. of_nat i))"

definition example_scales :: "real row4_data ggml_tensor" where
  "example_scales = dense_tensor GGML_TYPE_BF16 128 1 1 1 (DBf16 (\<lambda>_. 2))"

definition example_x :: "real row4_data ggml_tensor" where
  "example_x = dense_tensor GGML_TYPE_F32 128 1 1 1 (DF32 (\<lambda>i. real i))"

definition example_linear :: "real row4_data row4_node" where
  "example_linear = \<lparr>ttype = GGML_TYPE_F32, top = GGML_OP_ROW4_LINEAR, ne = (\<lambda>i. if i = 0 then 128 else 1),
     nb = (\<lambda>i. if i = 0 then 4 else 512), tdata = DF32 (\<lambda>_. 0),
     src = [0 \<mapsto> example_x, 1 \<mapsto> example_codes, 2 \<mapsto> example_scales], op_params = (\<lambda>i. if i = 0 then 1 else 128)\<rparr>"

lemma example_linear_valid: "validate_op (Some example_linear)"
proof -
  have c: "ggml_is_contiguous example_linear"
    by (simp add: example_linear_def ggml_is_contiguous_def ggml_is_contiguous_n_def Let_def contiguous_step_def
      upt_rec numeral_2_eq_2 numeral_3_eq_3)
  have d: "ggml_is_contiguous example_x" "ggml_is_contiguous example_codes" "ggml_is_contiguous example_scales"
    by (simp_all add: example_x_def example_codes_def example_scales_def dense_tensor_contiguous)
  have s: "src example_linear 0 = Some example_x" "src example_linear 1 = Some example_codes" "src example_linear 2 = Some example_scales"
    "list_all (\<lambda>i. src example_linear i = None) [3..<10]"
    by (simp_all add: example_linear_def upt_rec)
  show ?thesis
    by (simp add: validate_op_def validate_shapes_def c d s s [unfolded One_nat_def])
       (simp add: example_linear_def example_x_def example_codes_def example_scales_def)
qed

lemma count_list_replicate: "count_list (replicate n x) x = n"
  by (induction n) simp_all

lemma example_path: "select_path \<lparr>has_dotprod = True, has_i8mm = False\<rparr> Map.empty (ggml_nrows example_x) = Some Path_dotprod"
  by (simp add: select_path_def ggml_nrows_def example_x_def)

lemma row4_compute_correct_witness:
  "\<exists>out'. ggml_row4_cpu_compute \<lparr>has_dotprod = True, has_i8mm = False\<rparr> Map.empty arm_ops real_row4_float (Some example_linear) 1 [0]
      (replicate 17 0) (Some 256) ((\<lambda>_. 7), (\<lambda>_. 7)) (\<lambda>_ _. 7) (\<lambda>_. 7) = (True, out') \<and>
    (\<forall>token<1. \<forall>row<128. out' (token * 128 + row) =
      row4_reference real_row4_float True (f32_data example_x) example_codes example_scales 128 token row)"
proof -
  have "layout_total (row4_layout_of Path_dotprod (ggml_nrows example_x) (ne example_x 0) (int 1)) = 256"
    by (simp add: layout_total_def row4_layout_of_def uses_panel_def ggml_nrows_def example_x_def align_cache_line_def)
  then have room: "layout_total (row4_layout_of Path_dotprod (ggml_nrows example_x) (ne example_x 0) (int 1)) \<le> 256" by simp
  have srcs: "src example_linear 0 = Some example_x" "src example_linear 1 = Some example_codes" "src example_linear 2 = Some example_scales"
    by (simp_all add: example_linear_def)
  have dims: "nat (ggml_nrows example_x) = 1" "nat (ne example_linear 0) = 128" "nat (ne example_x 0) = 128" "top example_linear = GGML_OP_ROW4_LINEAR"
    by (simp_all add: ggml_nrows_def example_x_def example_linear_def)
  have sched: "schedule_ok Path_dotprod (nat (ggml_nrows example_x)) (nat (ne example_linear 0) div 16) 1 (replicate 17 0)"
    unfolding dims by (simp add: schedule_ok_def count_list_replicate)
  show ?thesis
    using row4_compute_correct [OF example_linear_valid srcs example_path room arm_ops_ok, of "[0]" "replicate 17 0" real_row4_float
      "((\<lambda>_. 7), (\<lambda>_. 7))" "\<lambda>_ _. 7" "\<lambda>_. 7"] sched
    unfolding dims by (simp add: lessThan_Suc)
qed

lemma row4_accumulators_exact_witness:
  "sint (vaddvq_s32 arm_ops (w8_dotprod_sums arm_ops \<lparr>in_row4 = False, in_codes = dense_tensor GGML_TYPE_I8 128 16 1 1 (DBytes (\<lambda>_. 0xFD)),
      in_scales = dense_tensor GGML_TYPE_F32 16 1 1 1 (DF32 (\<lambda>_. 1 :: real)), in_k = 128, in_o = 16, in_tokens = 1,
      in_act = (\<lambda>_. 5), in_act_scales = (\<lambda>_. 1)\<rparr> 0 0 ! 3)) = - 1920"
proof -
  let ?I = "\<lparr>in_row4 = False, in_codes = dense_tensor GGML_TYPE_I8 128 16 1 1 (DBytes (\<lambda>_. 0xFD)),
      in_scales = dense_tensor GGML_TYPE_F32 16 1 1 1 (DF32 (\<lambda>_. 1 :: real)), in_k = 128, in_o = 16, in_tokens = 1,
      in_act = (\<lambda>_. 5), in_act_scales = (\<lambda>_. 1)\<rparr>"
  have k: "in_k ?I < (if in_row4 ?I then 2 ^ 23 else 2 ^ 17)" "128 dvd in_k ?I" by simp_all
  have r: "(3::nat) < 16" by simp
  have "sint (vaddvq_s32 arm_ops ((if in_row4 ?I then row4_dotprod_sums arm_ops ?I 0 0 else w8_dotprod_sums arm_ops ?I 0 0) ! 3)) =
      integer_dot ?I (act_rows ?I) 0 (0 * 16 + 3)"
    using row4_accumulators_exact [OF k(1) arm_ops_ok k(2), THEN conjunct2, THEN conjunct1] r by blast
  moreover have "integer_dot ?I (act_rows ?I) 0 (0 * 16 + 3) = - 1920"
    by (simp add: integer_dot_def act_rows_def weight_at_def w8_weight_at_def codes_bytes_def dense_tensor_def Let_def)
  ultimately show ?thesis by simp
qed

lemma row4_workspace_regions_witness:
  "unat (layout_total (row4_layout_of Path_i8mm 9 128 2)) =
     unat (lay_q_bytes (row4_layout_of Path_i8mm 9 128 2)) + unat (lay_scale_bytes (row4_layout_of Path_i8mm 9 128 2)) +
     unat (lay_panel_bytes (row4_layout_of Path_i8mm 9 128 2)) + unat (lay_counter_bytes (row4_layout_of Path_i8mm 9 128 2)) \<and>
   4 * 9 \<le> unat (lay_scale_bytes (row4_layout_of Path_i8mm 9 128 2))"
  using row4_workspace_regions [of 9 128 2 Path_i8mm] by simp

end
