(* ===== verification/Refinement.thy ===== *)
theory Refinement
  imports Prelude "HOL-Library.Monad_Syntax"
begin

text \<open>
  Functional refinement. A component is a step function on its detailed state that may fail (a
  failed \<open>assert\<close>, an out-of-range access or another undefined behaviour is \<open>None\<close>); its contract
  is a step function on an abstract state. The locale states that one step refines the contract
  and keeps the component's invariant; runs of operations then do, too.
\<close>

text \<open>C's \<open>assert\<close>.\<close>

definition check :: "bool \<Rightarrow> unit option" where
  "check b = (if b then Some () else None)"

lemma check_simps [simp]:
  "check True = Some ()" "check False = None" "check b = Some u \<longleftrightarrow> b" "check b = None \<longleftrightarrow> \<not> b"
  by (simp_all add: check_def)

lemma bind_check: "check b \<bind> f = (if b then f () else None)"
  by (simp add: check_def)

text \<open>\<open>vector::operator[]\<close>, undefined out of range.\<close>

definition vec_at :: "'v list \<Rightarrow> nat \<Rightarrow> 'v option" where
  "vec_at xs i = (if i < length xs then Some (xs ! i) else None)"

lemma vec_at_simps [simp]: "i < length xs \<Longrightarrow> vec_at xs i = Some (xs ! i)" "\<not> i < length xs \<Longrightarrow> vec_at xs i = None"
  by (simp_all add: vec_at_def)

text \<open>A loop whose body may fail.\<close>

primrec fold_opt :: "('x \<Rightarrow> 's \<Rightarrow> 's option) \<Rightarrow> 'x list \<Rightarrow> 's \<Rightarrow> 's option" where
  "fold_opt f [] s = Some s"
| "fold_opt f (x # xs) s = f x s \<bind> fold_opt f xs"

lemma fold_opt_append: "fold_opt f (xs @ ys) s = fold_opt f xs s \<bind> fold_opt f ys"
  by (induction xs arbitrary: s) (auto split: Option.bind_split)

lemma fold_opt_Some: "fold_opt (\<lambda>x s. Some (f x s)) xs s = Some (fold f xs s)"
  by (induction xs arbitrary: s) auto

lemma fold_opt_cong [fundef_cong]:
  "xs = ys \<Longrightarrow> s = t \<Longrightarrow> (\<And>x s. x \<in> set ys \<Longrightarrow> f x s = g x s) \<Longrightarrow> fold_opt f xs s = fold_opt g ys t"
  by (induction ys arbitrary: xs s t) (auto intro!: Option.bind_cong)

text \<open>A recursive call may stand in the body of such a loop.\<close>

lemma fold_opt_mono [partial_function_mono]:
  assumes "\<And>x s. mono_option (\<lambda>f. g f x s)"
  shows "mono_option (\<lambda>f. fold_opt (g f) xs s)"
proof (induction xs arbitrary: s)
  case Nil
  show ?case by (simp add: option.const_mono)
next
  case (Cons x xs)
  show ?case unfolding fold_opt.simps by (rule bind_mono) (rule assms Cons.IH)+
qed

text \<open>An invariant carried through the loop, with what has been visited.\<close>

lemma fold_opt_invariant:
  assumes "P [] s"
    and "\<And>ys x zs s. xs = ys @ x # zs \<Longrightarrow> P ys s \<Longrightarrow> \<exists>s'. f x s = Some s' \<and> P (ys @ [x]) s'"
  shows "\<exists>s'. fold_opt f xs s = Some s' \<and> P xs s'"
proof -
  have "\<exists>s'. fold_opt f ys s = Some s' \<and> P ys s'" if "xs = ys @ zs" for ys zs
    using that
  proof (induction ys arbitrary: zs rule: rev_induct)
    case Nil
    then show ?case using assms(1) by simp
  next
    case (snoc x ys)
    from snoc.IH [of "x # zs"] snoc.prems obtain s' where s': "fold_opt f ys s = Some s'" "P ys s'" by auto
    from assms(2) [OF _ s'(2), of x zs] snoc.prems s'(1) show ?case by (auto simp: fold_opt_append)
  qed
  from this [of xs "[]"] show ?thesis by simp
qed

text \<open>Loops that return early with an error: a check per element, and a body on a state.\<close>

primrec first_err :: "('x \<Rightarrow> 'e option) \<Rightarrow> 'x list \<Rightarrow> 'e option" where
  "first_err f [] = None"
| "first_err f (x # xs) = (case f x of None \<Rightarrow> first_err f xs | Some e \<Rightarrow> Some e)"

primrec fold_err :: "('x \<Rightarrow> 's \<Rightarrow> 'e + 's) \<Rightarrow> 'x list \<Rightarrow> 's \<Rightarrow> 'e + 's" where
  "fold_err f [] s = Inr s"
| "fold_err f (x # xs) s = (case f x s of Inl e \<Rightarrow> Inl e | Inr s' \<Rightarrow> fold_err f xs s')"

lemma first_err_None: "first_err f xs = None \<longleftrightarrow> (\<forall>x\<in>set xs. f x = None)"
  by (induction xs) (auto split: option.splits)

lemma first_err_Some: "first_err f xs = Some e \<Longrightarrow> \<exists>x\<in>set xs. f x = Some e"
  by (induction xs) (auto split: option.splits)

text \<open>A detailed result against a specified one: both fail, or both succeed with the same answer.\<close>

definition sim :: "('c \<Rightarrow> bool) \<Rightarrow> ('c \<Rightarrow> 'a) \<Rightarrow> ('r \<times> 'c) option \<Rightarrow> ('r \<times> 'a) option \<Rightarrow> bool" where
  "sim ok absf x y \<longleftrightarrow> map_option (map_prod id absf) x = y \<and> (\<forall>r c. x = Some (r, c) \<longrightarrow> ok c)"

lemma sim_None [simp]: "sim ok absf None y \<longleftrightarrow> y = None"
  by (auto simp: sim_def)

lemma sim_Some [simp]: "sim ok absf (Some (r, c)) y \<longleftrightarrow> ok c \<and> y = Some (r, absf c)"
  by (auto simp: sim_def)

locale functional_refinement =
  fixes ok :: "'c \<Rightarrow> bool"
    and absf :: "'c \<Rightarrow> 'a"
    and step :: "'op \<Rightarrow> 'c \<Rightarrow> ('r \<times> 'c) option"
    and spec :: "'op \<Rightarrow> 'a \<Rightarrow> ('r \<times> 'a) option"
  assumes step_sim: "ok c \<Longrightarrow> sim ok absf (step op c) (spec op (absf c))"

text \<open>The results of a run of operations and its last state; \<open>None\<close> when one of them fails.\<close>

primrec run_ops :: "('op \<Rightarrow> 'c \<Rightarrow> ('r \<times> 'c) option) \<Rightarrow> 'op list \<Rightarrow> 'c \<Rightarrow> ('r list \<times> 'c) option" where
  "run_ops step [] c = Some ([], c)"
| "run_ops step (op # ops) c =
     do { (r, c) \<leftarrow> step op c; (rs, c) \<leftarrow> run_ops step ops c; Some (r # rs, c) }"

context functional_refinement
begin

lemma refines: "ok c \<Longrightarrow> map_option (map_prod id absf) (step op c) = spec op (absf c)"
  using step_sim [of c op] by (simp add: sim_def)

lemma preserves: "ok c \<Longrightarrow> step op c = Some (r, c') \<Longrightarrow> ok c'"
  using step_sim [of c op] by (simp add: sim_def)

lemma run_preserves: "ok c \<Longrightarrow> run_ops step ops c = Some (rs, c') \<Longrightarrow> ok c'"
proof (induction ops arbitrary: c rs)
  case (Cons op ops)
  from Cons.prems(2) obtain r c1 rs1 where "step op c = Some (r, c1)" "run_ops step ops c1 = Some (rs1, c')"
    by (auto split: Option.bind_splits prod.splits)
  then show ?case using Cons.IH preserves Cons.prems(1) by blast
qed simp

lemma run_refines: "ok c \<Longrightarrow> map_option (map_prod id absf) (run_ops step ops c) = run_ops spec ops (absf c)"
proof (induction ops arbitrary: c)
  case (Cons op ops)
  show ?case
  proof (cases "step op c")
    case None
    then have "spec op (absf c) = None" using refines [OF Cons.prems, of op] by simp
    with None show ?thesis by simp
  next
    case (Some p)
    obtain r c' where p: "p = (r, c')" by fastforce
    have spec: "spec op (absf c) = Some (r, absf c')" using refines [OF Cons.prems, of op] by (simp add: Some p)
    have "ok c'" by (rule preserves [OF Cons.prems Some [unfolded p]])
    then have "map_option (map_prod id absf) (run_ops step ops c') = run_ops spec ops (absf c')" by (rule Cons.IH)
    then have "run_ops spec ops (absf c') = map_option (map_prod id absf) (run_ops step ops c')" by simp
    then show ?thesis by (cases "run_ops step ops c'") (auto simp: Some p spec)
  qed
qed simp

end

end
