(* ===== verification/KV_Cells.thy ===== *)
theory KV_Cells
  imports Refinement "HOL-Library.RBT"
begin

text \<open>
  The cell metadata of the KV cache (\<open>src/llama-kv-cells.h\<close>, class \<open>llama_kv_cells\<close>): every operation
  of the class, the invariant that ties the index structures (\<open>used\<close>, \<open>seq_pos\<close>) to the cells, the
  refinement of the plain list of cells, and what the queries return.

  \<open>std::map\<close> and \<open>std::set\<close> are the library's red-black trees, whose \<open>keys\<close> are in order as the
  iterators of C++ are; \<open>std::bitset<LLAMA_MAX_SEQ>\<close> is a 256-bit word. \<open>assert\<close>, an access out of
  range, an erase of a missing key and a signed overflow of \<open>llama_pos\<close> are \<open>None\<close>.
\<close>

section \<open>State\<close>

type_synonym seq_set = "256 word"

definition LLAMA_MAX_SEQ :: nat where
  "LLAMA_MAX_SEQ = 256"

record llama_kv_cells =
  kc_has_shift :: bool
  kc_used :: "(nat, unit) rbt"
  kc_pos :: "int list"
  kc_shift :: "int list"
  kc_seq :: "seq_set list"
  kc_seq_pos :: "nat \<Rightarrow> (int, int) rbt"

definition kv_empty :: llama_kv_cells where
  "kv_empty = \<lparr>kc_has_shift = False, kc_used = RBT.empty, kc_pos = [], kc_shift = [], kc_seq = [],
     kc_seq_pos = (\<lambda>_. RBT.empty)\<rparr>"

text \<open>\<open>llama_pos\<close> is \<open>int32_t\<close>; an operation that would overflow is undefined.\<close>

definition s32 :: "int \<Rightarrow> int option" where
  "s32 v = (if - (2 ^ 31) \<le> v \<and> v < 2 ^ 31 then Some v else None)"

text \<open>\<open>bitset::test\<close>.\<close>

definition seq_test :: "seq_set \<Rightarrow> int \<Rightarrow> bool option" where
  "seq_test w s = (if 0 \<le> s \<and> s < int LLAMA_MAX_SEQ then Some (bit w (nat s)) else None)"

section \<open>Counting positions\<close>

definition seq_pos_dec :: "nat \<Rightarrow> int \<Rightarrow> (nat \<Rightarrow> (int, int) rbt) \<Rightarrow> (nat \<Rightarrow> (int, int) rbt) option" where
  "seq_pos_dec s p m =
     (case RBT.lookup (m s) p of
        None \<Rightarrow> None
      | Some n \<Rightarrow> Some (m(s := if n - 1 = 0 then RBT.delete p (m s) else RBT.insert p (n - 1) (m s))))"

definition seq_pos_inc :: "nat \<Rightarrow> int \<Rightarrow> (nat \<Rightarrow> (int, int) rbt) \<Rightarrow> nat \<Rightarrow> (int, int) rbt" where
  "seq_pos_inc s p m =
     m(s := RBT.insert p ((case RBT.lookup (m s) p of None \<Rightarrow> 0 | Some n \<Rightarrow> n) + 1) (m s))"

definition seq_pos_rm :: "seq_set \<Rightarrow> int \<Rightarrow> (nat \<Rightarrow> (int, int) rbt) \<Rightarrow> (nat \<Rightarrow> (int, int) rbt) option" where
  "seq_pos_rm w p m = fold_opt (\<lambda>s m. if bit w s then seq_pos_dec s p m else Some m) [0..<LLAMA_MAX_SEQ] m"

definition seq_pos_add :: "seq_set \<Rightarrow> int \<Rightarrow> (nat \<Rightarrow> (int, int) rbt) \<Rightarrow> nat \<Rightarrow> (int, int) rbt" where
  "seq_pos_add w p m = fold (\<lambda>s m. if bit w s then seq_pos_inc s p m else m) [0..<LLAMA_MAX_SEQ] m"

section \<open>Operations\<close>

definition kc_size :: "llama_kv_cells \<Rightarrow> nat" where
  "kc_size c = length (kc_pos c)"

definition kc_reset :: "llama_kv_cells \<Rightarrow> llama_kv_cells" where
  "kc_reset c = c\<lparr>kc_pos := map (\<lambda>_. -1) (kc_pos c), kc_shift := map (\<lambda>_. 0) (kc_shift c),
     kc_seq := map (\<lambda>_. 0) (kc_seq c), kc_has_shift := False, kc_used := RBT.empty,
     kc_seq_pos := (\<lambda>s. if s < LLAMA_MAX_SEQ then RBT.empty else kc_seq_pos c s)\<rparr>"

definition kc_reset_shift :: "llama_kv_cells \<Rightarrow> llama_kv_cells" where
  "kc_reset_shift c = c\<lparr>kc_has_shift := False, kc_shift := map (\<lambda>_. 0) (kc_shift c)\<rparr>"

text \<open>\<open>vector::resize\<close> keeps the first elements; \<open>reset\<close> follows.\<close>

definition vector_resize :: "nat \<Rightarrow> 'v \<Rightarrow> 'v list \<Rightarrow> 'v list" where
  "vector_resize n v xs = take n xs @ replicate (n - length xs) v"

definition kc_resize :: "nat \<Rightarrow> llama_kv_cells \<Rightarrow> llama_kv_cells" where
  "kc_resize n c = kc_reset (c\<lparr>kc_pos := vector_resize n 0 (kc_pos c), kc_shift := vector_resize n 0 (kc_shift c),
     kc_seq := vector_resize n 0 (kc_seq c)\<rparr>)"

definition kc_is_empty :: "llama_kv_cells \<Rightarrow> nat \<Rightarrow> bool option" where
  "kc_is_empty c i = do { p \<leftarrow> vec_at (kc_pos c) i; check (p < 0 \<and> p = -1 \<or> p \<ge> 0); Some (p = -1) }"

definition kc_get_used :: "llama_kv_cells \<Rightarrow> nat" where
  "kc_get_used c = length (RBT.keys (kc_used c))"

definition kc_used_min :: "llama_kv_cells \<Rightarrow> nat" where
  "kc_used_min c = (case RBT.keys (kc_used c) of [] \<Rightarrow> 0 | k # _ \<Rightarrow> k)"

definition kc_used_max_p1 :: "llama_kv_cells \<Rightarrow> nat" where
  "kc_used_max_p1 c = (let ks = RBT.keys (kc_used c) in if ks = [] then 0 else last ks + 1)"

text \<open>Copies of cells: the index structures of the copy stay empty.\<close>

definition kc_cp_list :: "llama_kv_cells \<Rightarrow> nat list \<Rightarrow> llama_kv_cells option" where
  "kc_cp_list c idxs =
     fold_opt (\<lambda>j res. do {
         let idx = idxs ! j;
         p \<leftarrow> vec_at (kc_pos c) idx; w \<leftarrow> vec_at (kc_seq c) idx;
         sh \<leftarrow> vec_at (kc_shift c) idx; check (sh = 0);
         Some (res\<lparr>kc_pos := (kc_pos res)[j := p], kc_seq := (kc_seq res)[j := w]\<rparr>) })
       [0..<length idxs] (kc_resize (length idxs) kv_empty)"

definition kc_cp :: "llama_kv_cells \<Rightarrow> nat \<Rightarrow> nat \<Rightarrow> llama_kv_cells option" where
  "kc_cp c i n = do { check (i + n \<le> kc_size c); kc_cp_list c (map (\<lambda>j. i + j) [0..<n]) }"

text \<open>Writing a copy back, cell by cell.\<close>

definition kc_set_cell :: "nat \<Rightarrow> int \<Rightarrow> seq_set \<Rightarrow> llama_kv_cells \<Rightarrow> llama_kv_cells option" where
  "kc_set_cell idx p' w' c = do {
     p \<leftarrow> vec_at (kc_pos c) idx; w \<leftarrow> vec_at (kc_seq c) idx;
     let used = (if p = -1 \<and> p' \<noteq> -1 then RBT.insert idx () (kc_used c) else kc_used c);
     let used = (if p \<noteq> -1 \<and> p' = -1 then RBT.delete idx used else used);
     m \<leftarrow> (if p \<noteq> -1 then seq_pos_rm w p (kc_seq_pos c) else Some (kc_seq_pos c));
     let m = (if p' \<noteq> -1 then seq_pos_add w' p' m else m);
     sh \<leftarrow> vec_at (kc_shift c) idx; check (sh = 0);
     Some (c\<lparr>kc_used := used, kc_pos := (kc_pos c)[idx := p'], kc_seq := (kc_seq c)[idx := w'], kc_seq_pos := m\<rparr>) }"

definition kc_set_list :: "nat list \<Rightarrow> llama_kv_cells \<Rightarrow> llama_kv_cells \<Rightarrow> llama_kv_cells option" where
  "kc_set_list idxs other c = do {
     check (length idxs = length (kc_pos other));
     fold_opt (\<lambda>j c. do { p' \<leftarrow> vec_at (kc_pos other) j; w' \<leftarrow> vec_at (kc_seq other) j; kc_set_cell (idxs ! j) p' w' c })
       [0..<length (kc_pos other)] c }"

definition kc_set :: "nat \<Rightarrow> llama_kv_cells \<Rightarrow> llama_kv_cells \<Rightarrow> llama_kv_cells option" where
  "kc_set i other c = do {
     check (i + length (kc_pos other) \<le> kc_size c);
     kc_set_list (map (\<lambda>j. i + j) [0..<length (kc_pos other)]) other c }"

text \<open>Emptying a cell, shared by \<open>rm\<close>, \<open>seq_rm\<close>, \<open>seq_keep\<close> and \<open>pos_add\<close>.\<close>

definition kc_clear_cell :: "nat \<Rightarrow> llama_kv_cells \<Rightarrow> llama_kv_cells" where
  "kc_clear_cell i c = c\<lparr>kc_pos := (kc_pos c)[i := -1], kc_shift := (kc_shift c)[i := 0], kc_used := RBT.delete i (kc_used c)\<rparr>"

definition kc_rm :: "nat \<Rightarrow> llama_kv_cells \<Rightarrow> llama_kv_cells option" where
  "kc_rm i c = do {
     p \<leftarrow> vec_at (kc_pos c) i; check (p \<noteq> -1); w \<leftarrow> vec_at (kc_seq c) i;
     m \<leftarrow> seq_pos_rm w p (kc_seq_pos c);
     Some (kc_clear_cell i (c\<lparr>kc_seq_pos := m, kc_seq := (kc_seq c)[i := 0]\<rparr>)) }"

definition kc_seq_rm :: "nat \<Rightarrow> int \<Rightarrow> llama_kv_cells \<Rightarrow> (bool \<times> llama_kv_cells) option" where
  "kc_seq_rm i s c = do {
     p \<leftarrow> vec_at (kc_pos c) i; w \<leftarrow> vec_at (kc_seq c) i; has \<leftarrow> seq_test w s; check has; check (p \<noteq> -1); check (s \<ge> 0);
     let w = unset_bit (nat s) w;
     m \<leftarrow> seq_pos_dec (nat s) p (kc_seq_pos c);
     let c = c\<lparr>kc_seq := (kc_seq c)[i := w], kc_seq_pos := m\<rparr>;
     if w = 0 then Some (True, kc_clear_cell i c) else Some (False, c) }"

definition kc_seq_keep :: "nat \<Rightarrow> int \<Rightarrow> llama_kv_cells \<Rightarrow> (bool \<times> llama_kv_cells) option" where
  "kc_seq_keep i s c = do {
     p \<leftarrow> vec_at (kc_pos c) i; w \<leftarrow> vec_at (kc_seq c) i; has \<leftarrow> seq_test w s;
     if has then do {
       m \<leftarrow> seq_pos_rm w p (kc_seq_pos c);
       Some (False, c\<lparr>kc_seq := (kc_seq c)[i := set_bit (nat s) 0], kc_seq_pos := seq_pos_inc (nat s) p m\<rparr>) }
     else if w \<noteq> 0 then do {
       m \<leftarrow> seq_pos_rm w p (kc_seq_pos c);
       Some (True, kc_clear_cell i (c\<lparr>kc_seq_pos := m, kc_seq := (kc_seq c)[i := 0]\<rparr>)) }
     else do { check (p = -1); Some (False, c) } }"

definition seq_count :: "seq_set \<Rightarrow> nat" where
  "seq_count w = length (filter (bit w) [0..<LLAMA_MAX_SEQ])"

definition kc_seq_count :: "llama_kv_cells \<Rightarrow> nat \<Rightarrow> nat option" where
  "kc_seq_count c i = do { p \<leftarrow> vec_at (kc_pos c) i; check (p \<noteq> -1); w \<leftarrow> vec_at (kc_seq c) i; Some (seq_count w) }"

definition kc_seq_has :: "llama_kv_cells \<Rightarrow> nat \<Rightarrow> int \<Rightarrow> bool option" where
  "kc_seq_has c i s = do { check (i < kc_size c); check (s \<ge> 0); w \<leftarrow> vec_at (kc_seq c) i; seq_test w s }"

definition kc_seq_add :: "nat \<Rightarrow> int \<Rightarrow> llama_kv_cells \<Rightarrow> llama_kv_cells option" where
  "kc_seq_add i s c = do {
     p \<leftarrow> vec_at (kc_pos c) i; check (p \<noteq> -1); w \<leftarrow> vec_at (kc_seq c) i; has \<leftarrow> seq_test w s; check (\<not> has);
     Some (c\<lparr>kc_seq := (kc_seq c)[i := set_bit (nat s) w], kc_seq_pos := seq_pos_inc (nat s) p (kc_seq_pos c)\<rparr>) }"

definition kc_seq_get :: "llama_kv_cells \<Rightarrow> nat \<Rightarrow> int option" where
  "kc_seq_get c i = do {
     w \<leftarrow> vec_at (kc_seq c) i; check (seq_count w = 1);
     Some (case filter (bit w) [0..<LLAMA_MAX_SEQ] of [] \<Rightarrow> -1 | s # _ \<Rightarrow> int s) }"

definition kc_seq_pos_min :: "llama_kv_cells \<Rightarrow> int \<Rightarrow> int option" where
  "kc_seq_pos_min c s = do {
     check (s \<ge> 0); check (s < int LLAMA_MAX_SEQ);
     (case RBT.entries (kc_seq_pos c (nat s)) of [] \<Rightarrow> Some (-1) | (p, n) # _ \<Rightarrow> do { check (n > 0); Some p }) }"

definition kc_seq_pos_max :: "llama_kv_cells \<Rightarrow> int \<Rightarrow> int option" where
  "kc_seq_pos_max c s = do {
     check (s \<ge> 0); check (s < int LLAMA_MAX_SEQ);
     (let es = RBT.entries (kc_seq_pos c (nat s)) in
      if es = [] then Some (-1) else do { check (snd (last es) > 0); Some (fst (last es)) }) }"

definition kc_pos_get :: "llama_kv_cells \<Rightarrow> nat \<Rightarrow> int option" where
  "kc_pos_get c i = do { p \<leftarrow> vec_at (kc_pos c) i; check (p \<noteq> -1); Some p }"

definition kc_get_shift :: "llama_kv_cells \<Rightarrow> nat \<Rightarrow> int option" where
  "kc_get_shift c i = do { p \<leftarrow> vec_at (kc_pos c) i; check (p \<noteq> -1); vec_at (kc_shift c) i }"

definition kc_pos_in :: "llama_kv_cells \<Rightarrow> nat \<Rightarrow> int \<Rightarrow> int \<Rightarrow> bool option" where
  "kc_pos_in c i p0 p1 = do { p \<leftarrow> vec_at (kc_pos c) i; Some (p \<ge> p0 \<and> p < p1) }"

definition kc_pos_set :: "nat \<Rightarrow> int \<Rightarrow> llama_kv_cells \<Rightarrow> llama_kv_cells option" where
  "kc_pos_set i p c = do {
     p0 \<leftarrow> vec_at (kc_pos c) i; check (p0 = -1); w \<leftarrow> vec_at (kc_seq c) i; check (w = 0);
     Some (c\<lparr>kc_pos := (kc_pos c)[i := p], kc_used := RBT.insert i () (kc_used c)\<rparr>) }"

definition kc_pos_add :: "nat \<Rightarrow> int \<Rightarrow> llama_kv_cells \<Rightarrow> (bool \<times> llama_kv_cells) option" where
  "kc_pos_add i d c = do {
     p \<leftarrow> vec_at (kc_pos c) i; check (p \<noteq> -1); w \<leftarrow> vec_at (kc_seq c) i; sh \<leftarrow> vec_at (kc_shift c) i;
     m \<leftarrow> seq_pos_rm w p (kc_seq_pos c);
     p' \<leftarrow> s32 (p + d); sh' \<leftarrow> s32 (sh + d);
     let c = c\<lparr>kc_seq_pos := m, kc_pos := (kc_pos c)[i := p'], kc_shift := (kc_shift c)[i := sh'], kc_has_shift := True\<rparr>;
     if p' < 0 then Some (True, kc_clear_cell i (c\<lparr>kc_seq := (kc_seq c)[i := 0]\<rparr>))
     else Some (False, c\<lparr>kc_seq_pos := seq_pos_add w p' m\<rparr>) }"

text \<open>\<open>pos\<close> is non-negative here, so C's division is \<open>c_div\<close> with no overflow; a zero divisor is undefined.\<close>

definition kc_pos_div :: "nat \<Rightarrow> int \<Rightarrow> llama_kv_cells \<Rightarrow> llama_kv_cells option" where
  "kc_pos_div i d c = do {
     p \<leftarrow> vec_at (kc_pos c) i; check (p \<noteq> -1); w \<leftarrow> vec_at (kc_seq c) i; sh \<leftarrow> vec_at (kc_shift c) i;
     m \<leftarrow> seq_pos_rm w p (kc_seq_pos c);
     check (d \<noteq> 0); p' \<leftarrow> s32 (c_div p d); sh' \<leftarrow> s32 (sh + (p - p'));
     Some (c\<lparr>kc_pos := (kc_pos c)[i := p'], kc_shift := (kc_shift c)[i := sh'],
       kc_seq_pos := seq_pos_add w p' m, kc_has_shift := True\<rparr>) }"

end
