(* ===== verification/Batch.thy ===== *)
theory Batch
  imports KV_Cells
begin

text \<open>
  The batch allocator (\<open>src/llama-batch.h\<close>, \<open>src/llama-batch.cpp\<close>, class \<open>llama_batch_allocr\<close>):
  sanitising an input batch, and splitting it into micro batches in the three ways of the class.

  Arrays are lists; a null pointer is \<open>None\<close>. \<open>std::set\<close> and the counters are as in \<open>KV_Cells\<close>; the
  unordered map from sequence sets to token indices is a function. \<open>'f\<close> is the type of floats.
  Logging, \<open>ubatch_print\<close> and the raw allocation helpers are not modelled.
\<close>

section \<open>Batches\<close>

record 'f llama_batch =
  b_n_tokens :: nat
  b_token :: "int list option"
  b_embd :: "'f list option"
  b_pos :: "int list option"
  b_n_seq_id :: "int list option"
  b_seq_id :: "int list list option"
  b_logits :: "int list option"

text \<open>\<open>llama_memory_i\<close>, as far as the allocator asks it.\<close>

record memory_view =
  mem_seq_pos_min :: "nat \<Rightarrow> int"
  mem_seq_pos_max :: "nat \<Rightarrow> int"

text \<open>The allocator; the batch fields are those after missing ones have been generated.\<close>

record 'f llama_batch_allocr =
  al_n_pos_per_embd :: nat
  al_n_tokens :: nat
  al_token :: "int list option"
  al_embd :: "'f list option"
  al_pos :: "int list"
  al_n_seq_id :: "int list"
  al_seq_id :: "int list list"
  al_logits :: "int list"
  al_n_embd :: nat
  al_n_seq_max :: nat
  al_n_outputs :: nat
  al_seq_id_unq :: "nat list"
  al_seq_idx :: "nat \<Rightarrow> int"
  al_has_cpl :: bool
  al_seq_pos :: "nat \<Rightarrow> (int, unit) rbt"
  al_seq_cpl :: "nat \<Rightarrow> nat \<Rightarrow> bool"
  al_seq_set :: "seq_set list"
  al_seq_set_map :: "seq_set \<Rightarrow> nat list"
  al_out_ids :: "nat list"
  al_n_used :: nat
  al_used :: "bool list"

definition llama_batch_get_one :: "int list \<Rightarrow> 'f llama_batch" where
  "llama_batch_get_one tokens = \<lparr>b_n_tokens = length tokens, b_token = Some tokens, b_embd = None, b_pos = None,
     b_n_seq_id = None, b_seq_id = None, b_logits = None\<rparr>"

text \<open>
  Why \<open>init\<close> does not accept a batch: a failed assertion, a span of positions whose \<open>int32_t\<close> computation overflows
  (undefined in C++), or one of its error returns.
\<close>

datatype batch_error =
    Err_assert | Err_overflow nat | Err_n_seq_max | Err_token nat | Err_seq_id nat nat | Err_inconsistent nat
  | Err_not_continuous nat | Err_diverged nat nat | Err_incompatible nat | Err_decreasing nat

section \<open>Sanitising\<close>

text \<open>The sequences of token \<open>i\<close>: the first \<open>n_seq_id[i]\<close> entries of its row.\<close>

definition row_of :: "int list \<Rightarrow> int list list \<Rightarrow> nat \<Rightarrow> int list" where
  "row_of n_seq_id seq_id i = take (nat (n_seq_id ! i)) (seq_id ! i)"

definition validate_tokens :: "nat \<Rightarrow> nat \<Rightarrow> int list option \<Rightarrow> batch_error option" where
  "validate_tokens n_vocab n toks =
     (case toks of None \<Rightarrow> None
      | Some ts \<Rightarrow> first_err (\<lambda>i. if ts ! i < 0 \<or> int n_vocab \<le> ts ! i then Some (Err_token i) else None) [0..<n])"

definition validate_seq_ids :: "nat \<Rightarrow> nat \<Rightarrow> int list option \<Rightarrow> int list list option \<Rightarrow> batch_error option" where
  "validate_seq_ids n_seq_max n n_seq_id seq_id =
     (case (seq_id, n_seq_id) of
        (Some ids, Some ns) \<Rightarrow>
          first_err (\<lambda>i. first_err (\<lambda>s. if ids ! i ! s < 0 \<or> int n_seq_max \<le> ids ! i ! s then Some (Err_seq_id i s) else None)
            [0..<nat (ns ! i)]) [0..<n]
      | _ \<Rightarrow> None)"

text \<open>Positions continue each sequence from what the memory holds; \<open>p0\<close> is the next one per sequence.\<close>

definition gen_pos :: "memory_view option \<Rightarrow> nat \<Rightarrow> int list \<Rightarrow> int list list \<Rightarrow> int list" where
  "gen_pos memory n n_seq_id seq_id =
     (let p0 = (\<lambda>s. case memory of None \<Rightarrow> 0 | Some m \<Rightarrow> mem_seq_pos_max m s + 1)
      in fst (fold (\<lambda>i (pos, p0).
           let p = p0 (nat (seq_id ! i ! 0))
           in (pos @ [p], fold (\<lambda>s p0. p0(nat s := p + 1)) (row_of n_seq_id seq_id i) p0))
         [0..<n] ([], p0)))"

definition gen_logits :: "bool \<Rightarrow> nat \<Rightarrow> int list option \<Rightarrow> int list" where
  "gen_logits output_all n logits =
     (case logits of
        None \<Rightarrow> if output_all then replicate n 1 else (replicate n 0)[n - 1 := 1]
      | Some l \<Rightarrow> if output_all \<and> \<not> list_all (\<lambda>i. l ! i \<noteq> 0) [0..<n] then replicate n 1 else l)"

text \<open>Missing fields filled in.\<close>

definition fill_batch :: "memory_view option \<Rightarrow> bool \<Rightarrow> 'f llama_batch \<Rightarrow> int list \<times> int list list \<times> int list \<times> int list" where
  "fill_batch memory output_all b =
     (let n = b_n_tokens b;
          n_seq_id = (case b_n_seq_id b of None \<Rightarrow> replicate n 1 | Some ns \<Rightarrow> ns);
          seq_id = (case b_seq_id b of None \<Rightarrow> replicate n [0] | Some ids \<Rightarrow> ids);
          pos = (case b_pos b of None \<Rightarrow> gen_pos memory n n_seq_id seq_id | Some p \<Rightarrow> p)
      in (n_seq_id, seq_id, pos, gen_logits output_all n (b_logits b)))"

section \<open>Statistics\<close>

definition bits_of :: "int list \<Rightarrow> seq_set" where
  "bits_of ids = fold (\<lambda>s w. set_bit (nat s) w) ids 0"

text \<open>Sequence positions and couplings.\<close>

definition note_token ::
    "int list \<Rightarrow> int list list \<Rightarrow> int list \<Rightarrow> nat \<Rightarrow> (nat \<Rightarrow> (int, unit) rbt) \<times> (nat \<Rightarrow> nat \<Rightarrow> bool) \<times> bool \<Rightarrow>
     (nat \<Rightarrow> (int, unit) rbt) \<times> (nat \<Rightarrow> nat \<Rightarrow> bool) \<times> bool" where
  "note_token n_seq_id seq_id pos i st =
     (let s0 = nat (seq_id ! i ! 0)
      in fold (\<lambda>s (seq_pos, cpl, has).
           let s1 = nat (seq_id ! i ! s); seq_pos = seq_pos(s1 := RBT.insert (pos ! i) () (seq_pos s1))
           in if s > 0 then (seq_pos, cpl(s1 := (cpl s1)(s0 := True)), True) else (seq_pos, cpl, has))
         [0..<nat (n_seq_id ! i)] st)"

text \<open>Indices of the sequences that take part, among the first \<open>n\<close>.\<close>

definition index_seqs :: "nat \<Rightarrow> seq_set \<Rightarrow> nat list \<times> (nat \<Rightarrow> int)" where
  "index_seqs n w =
     fold (\<lambda>s (unq, idx). if bit w s then (unq @ [s], idx(s := int (length unq))) else (unq, idx)) [0..<n] ([], \<lambda>_. -1)"

definition rbt_first :: "(int, unit) rbt \<Rightarrow> int" where
  "rbt_first t = (case RBT.keys t of [] \<Rightarrow> -1 | p # _ \<Rightarrow> p)"

definition rbt_last :: "(int, unit) rbt \<Rightarrow> int" where
  "rbt_last t = (let ks = RBT.keys t in if ks = [] then -1 else last ks)"

definition al_seq_pos_min :: "'f llama_batch_allocr \<Rightarrow> nat \<Rightarrow> int" where
  "al_seq_pos_min st s = rbt_first (al_seq_pos st s)"

definition al_seq_pos_max :: "'f llama_batch_allocr \<Rightarrow> nat \<Rightarrow> int" where
  "al_seq_pos_max st s = rbt_last (al_seq_pos st s)"

definition compute_stats :: "'f llama_batch_allocr \<Rightarrow> 'f llama_batch_allocr" where
  "compute_stats st =
     (let n = al_n_tokens st; ns = al_n_seq_id st; ids = al_seq_id st;
          (seq_pos, cpl, has) = fold (note_token ns ids (al_pos st)) [0..<n] (\<lambda>_. RBT.empty, \<lambda>_ _. False, False);
          sets = map (\<lambda>i. bits_of (row_of ns ids i)) [0..<n];
          smap = fold (\<lambda>i m. m(sets ! i := m (sets ! i) @ [i])) [0..<n] (\<lambda>_. []);
          (unq, idx) = index_seqs (al_n_seq_max st) (fold (OR) sets 0)
      in st\<lparr>al_n_outputs := length (filter (\<lambda>i. al_logits st ! i \<noteq> 0) [0..<n]), al_has_cpl := has, al_seq_pos := seq_pos,
         al_seq_cpl := cpl, al_seq_set := sets, al_seq_set_map := smap, al_seq_id_unq := unq, al_seq_idx := idx\<rparr>)"

section \<open>Consistency\<close>

definition check_sequence :: "memory_view option \<Rightarrow> 'f llama_batch_allocr \<Rightarrow> nat \<Rightarrow> batch_error option" where
  "check_sequence memory st s =
     (if RBT.is_empty (al_seq_pos st s) then None
      else let p0 = (case memory of None \<Rightarrow> -1 | Some m \<Rightarrow> mem_seq_pos_max m s); lo = al_seq_pos_min st s
      in if p0 \<ge> 0 \<and> al_token st = None \<and> al_embd st = None then Some Err_assert
         else if p0 \<ge> 0 \<and> (if al_token st \<noteq> None then lo \<noteq> p0 + 1 else lo \<noteq> p0 \<and> lo \<noteq> p0 + 1) then Some (Err_inconsistent s)
         else if al_seq_pos_max st s - lo + 1 \<ge> 2 ^ 31 then Some (Err_overflow s)
         else if al_seq_pos_max st s - lo + 1 > int (length (RBT.keys (al_seq_pos st s))) then Some (Err_not_continuous s)
         else None)"

definition check_coupled :: "memory_view option \<Rightarrow> 'f llama_batch_allocr \<Rightarrow> batch_error option" where
  "check_coupled memory st =
     (case memory of None \<Rightarrow> None
      | Some m \<Rightarrow> first_err (\<lambda>s0. first_err (\<lambda>s1.
          if al_seq_cpl st s0 s1 \<and> (mem_seq_pos_min m s0 \<noteq> mem_seq_pos_min m s1 \<or> mem_seq_pos_max m s0 \<noteq> mem_seq_pos_max m s1)
          then Some (Err_diverged s0 s1) else None) [0..<al_n_seq_max st]) [0..<al_n_seq_max st])"

text \<open>\<open>cur\<close> is \<open>cur_seq_set\<close>; the code never updates \<open>cur_seq_pos\<close>, which stays \<open>-1\<close>.\<close>

definition check_subsets :: "'f llama_batch_allocr \<Rightarrow> batch_error + (nat \<Rightarrow> seq_set)" where
  "check_subsets st =
     (let cur_seq_pos = (\<lambda>_ :: nat. -1 :: int)
      in fold_err (\<lambda>i. fold_err (\<lambda>s cur.
           let sq = nat (al_seq_id st ! i ! s); cur = cur(sq := cur sq AND al_seq_set st ! i)
           in if cur sq = 0 then Inl (Err_incompatible sq)
              else if al_pos st ! i < cur_seq_pos sq then Inl (Err_decreasing sq)
              else Inr cur) [0..<nat (al_n_seq_id st ! i)]) [0..<al_n_tokens st] (\<lambda>_. -1))"

definition split_reset :: "'f llama_batch_allocr \<Rightarrow> 'f llama_batch_allocr" where
  "split_reset st = st\<lparr>al_out_ids := [], al_n_used := 0, al_used := replicate (al_n_tokens st) False\<rparr>"

text \<open>The empty allocator, and \<open>clear\<close>.\<close>

definition allocr_new :: "nat \<Rightarrow> 'f llama_batch_allocr" where
  "allocr_new n_pos_per_embd = \<lparr>al_n_pos_per_embd = n_pos_per_embd, al_n_tokens = 0, al_token = None, al_embd = None, al_pos = [],
     al_n_seq_id = [], al_seq_id = [], al_logits = [], al_n_embd = 0, al_n_seq_max = 0, al_n_outputs = 0, al_seq_id_unq = [],
     al_seq_idx = (\<lambda>_. -1), al_has_cpl = False, al_seq_pos = (\<lambda>_. RBT.empty), al_seq_cpl = (\<lambda>_ _. False), al_seq_set = [],
     al_seq_set_map = (\<lambda>_. []), al_out_ids = [], al_n_used = 0, al_used = []\<rparr>"

definition al_clear :: "'f llama_batch_allocr \<Rightarrow> 'f llama_batch_allocr" where
  "al_clear st = st\<lparr>al_n_outputs := 0, al_n_tokens := 0, al_token := None, al_embd := None, al_pos := [], al_n_seq_id := [],
     al_seq_id := [], al_logits := [], al_seq_id_unq := [], al_seq_pos := (\<lambda>_. RBT.empty), al_seq_cpl := (\<lambda>_ _. False),
     al_seq_set := [], al_seq_set_map := (\<lambda>_. []), al_seq_idx := (\<lambda>_. -1)\<rparr>"

definition al_init ::
    "'f llama_batch \<Rightarrow> nat \<Rightarrow> memory_view option \<Rightarrow> nat \<Rightarrow> nat \<Rightarrow> bool \<Rightarrow> 'f llama_batch_allocr \<Rightarrow>
     batch_error + 'f llama_batch_allocr" where
  "al_init b n_vocab memory n_embd n_seq_max output_all st0 =
     (let st1 = al_clear st0; n = b_n_tokens b in
      if n = 0 then Inl Err_assert
      else if LLAMA_MAX_SEQ < n_seq_max then Inl Err_n_seq_max
      else case validate_tokens n_vocab n (b_token b) of Some e \<Rightarrow> Inl e | None \<Rightarrow>
      (case validate_seq_ids n_seq_max n (b_n_seq_id b) (b_seq_id b) of Some e \<Rightarrow> Inl e | None \<Rightarrow>
       let (n_seq_id, seq_id, pos, logits) = fill_batch memory output_all b;
           st = compute_stats (st1\<lparr>al_n_tokens := n, al_token := b_token b, al_embd := b_embd b, al_n_seq_id := n_seq_id,
             al_seq_id := seq_id, al_pos := pos, al_logits := logits, al_n_embd := n_embd, al_n_seq_max := n_seq_max\<rparr>)
       in case first_err (check_sequence memory st) [0..<n_seq_max] of Some e \<Rightarrow> Inl e | None \<Rightarrow>
          (case check_coupled memory st of Some e \<Rightarrow> Inl e | None \<Rightarrow>
           (case check_subsets st of Inl e \<Rightarrow> Inl e | Inr _ \<Rightarrow> Inr (split_reset st)))))"


section \<open>Micro batches\<close>

record 'f llama_ubatch =
  ub_equal_seqs :: bool
  ub_n_tokens :: nat
  ub_n_seq_tokens :: nat
  ub_n_seqs :: nat
  ub_n_seqs_unq :: nat
  ub_token :: "int list option"
  ub_embd :: "'f list option"
  ub_pos :: "int list"
  ub_n_seq_id :: "int list"
  ub_seq_id :: "int list list"
  ub_seq_id_unq :: "nat list"
  ub_seq_idx :: "nat \<Rightarrow> int"
  ub_output :: "int list"

text \<open>What a micro batch holds of the tokens \<open>idxs\<close>.\<close>

definition ubatch_data :: "'f llama_batch_allocr \<Rightarrow> nat list \<Rightarrow> nat \<Rightarrow> bool \<Rightarrow> 'f llama_ubatch" where
  "ubatch_data st idxs n_seqs equal_seqs =
     (let n_tokens = length idxs;
          n_pos_cur = (case al_embd st of None \<Rightarrow> 1 | Some _ \<Rightarrow> al_n_pos_per_embd st);
          row = (\<lambda>i. row_of (al_n_seq_id st) (al_seq_id st) i);
          (unq, idx) = index_seqs (al_n_seq_max st) (fold (OR) (map (\<lambda>i. bits_of (row i)) idxs) 0)
      in \<lparr>ub_equal_seqs = equal_seqs, ub_n_tokens = n_tokens, ub_n_seq_tokens = n_tokens div n_seqs, ub_n_seqs = n_seqs,
            ub_n_seqs_unq = length unq,
            ub_token = map_option (\<lambda>t. map (\<lambda>i. t ! i) idxs) (al_token st),
            ub_embd = map_option (\<lambda>e. concat (map (\<lambda>i. map (\<lambda>d. e ! (i * al_n_embd st + d)) [0..<al_n_embd st]) idxs)) (al_embd st),
            ub_pos = concat (map (\<lambda>j. map (\<lambda>i. al_pos st ! (j * al_n_tokens st + i)) idxs) [0..<n_pos_cur]),
            ub_n_seq_id = map (\<lambda>i. al_n_seq_id st ! i) idxs,
            ub_seq_id = map (\<lambda>i. al_seq_id st ! i) idxs,
            ub_seq_id_unq = unq, ub_seq_idx = idx,
            ub_output = map (\<lambda>i. al_logits st ! i) idxs\<rparr>)"

text \<open>The outer option is the assertion; \<open>None\<close> inside is the empty batch \<open>{}\<close> that ends a splitting loop.\<close>

type_synonym 'f split_result = "('f llama_ubatch option \<times> 'f llama_batch_allocr) option"

definition ubatch_add :: "'f llama_batch_allocr \<Rightarrow> nat list \<Rightarrow> nat \<Rightarrow> bool \<Rightarrow> 'f split_result" where
  "ubatch_add st idxs n_seqs equal_seqs = do {
     check (length idxs mod n_seqs = 0);
     Some (Some (ubatch_data st idxs n_seqs equal_seqs),
       st\<lparr>al_out_ids := al_out_ids st @ filter (\<lambda>i. al_logits st ! i \<noteq> 0) idxs\<rparr>) }"

definition ubatch_reserve :: "nat \<Rightarrow> nat \<Rightarrow> 'f llama_batch_allocr \<Rightarrow> 'f llama_ubatch \<times> 'f llama_batch_allocr" where
  "ubatch_reserve n_seq_tokens n_seqs st =
     (let n = n_seq_tokens * n_seqs in
      (\<lparr>ub_equal_seqs = True, ub_n_tokens = n, ub_n_seq_tokens = n_seq_tokens, ub_n_seqs = n_seqs, ub_n_seqs_unq = n_seqs,
         ub_token = Some (replicate n 0), ub_embd = None, ub_pos = replicate n 0, ub_n_seq_id = replicate n 0,
         ub_seq_id = replicate n [], ub_seq_id_unq = [0..<n_seqs], ub_seq_idx = (\<lambda>s. if s < n_seqs then int s else -1),
         ub_output = replicate n 0\<rparr>, split_reset (al_clear st)))"

section \<open>Splitting\<close>

text \<open>Marking a token as used.\<close>

definition use_token :: "nat \<Rightarrow> 'f llama_batch_allocr \<Rightarrow> 'f llama_batch_allocr" where
  "use_token i st = st\<lparr>al_used := (al_used st)[i := True], al_n_used := al_n_used st + 1\<rparr>"

text \<open>The loop \<open>while (cur < used.size() && used[cur]) ++cur\<close>.\<close>

definition first_unused :: "bool list \<Rightarrow> nat" where
  "first_unused used = length (takeWhile id used)"

function simple_loop :: "nat \<Rightarrow> nat \<Rightarrow> nat list \<Rightarrow> 'f llama_batch_allocr \<Rightarrow> nat list \<times> 'f llama_batch_allocr" where
  "simple_loop n_ubatch cur idxs st =
     (let idxs = idxs @ [cur]; st = use_token cur st; cur = cur + 1
      in if cur \<ge> length (al_used st) \<or> length idxs \<ge> n_ubatch then (idxs, st) else simple_loop n_ubatch cur idxs st)"
  by pat_completeness auto
termination
  by (relation "measure (\<lambda>(n, cur, idxs, st). length (al_used st) - cur)") (auto simp: use_token_def)

definition split_simple :: "nat \<Rightarrow> 'f llama_batch_allocr \<Rightarrow> 'f split_result" where
  "split_simple n_ubatch st =
     (let cur = first_unused (al_used st) in
      if cur \<ge> length (al_used st) then Some (None, st)
      else let (idxs, st') = simple_loop n_ubatch cur [] st in ubatch_add st' idxs (length idxs) False)"

text \<open>\<open>split_seq\<close>: the next unused token whose sequences are among those of the current one.\<close>

definition seq_next :: "'f llama_batch_allocr \<Rightarrow> seq_set \<Rightarrow> nat \<Rightarrow> nat option" where
  "seq_next st cur_seq_set cur =
     List.find (\<lambda>j. \<not> (al_used st ! j \<or> cur_seq_set AND al_seq_set st ! j \<noteq> al_seq_set st ! j)) [cur + 1..<al_n_tokens st]"

lemma seq_next_gt: "seq_next st w cur = Some j \<Longrightarrow> cur < j \<and> j < al_n_tokens st"
  by (auto simp: seq_next_def find_Some_iff)

function seq_loop :: "nat \<Rightarrow> nat \<Rightarrow> seq_set \<Rightarrow> nat list \<Rightarrow> 'f llama_batch_allocr \<Rightarrow> nat list \<times> 'f llama_batch_allocr" where
  "seq_loop n_ubatch cur cur_seq_set idxs st =
     (let idxs = idxs @ [cur]; st = use_token cur st
      in if length idxs \<ge> n_ubatch then (idxs, st)
         else case seq_next st cur_seq_set cur of None \<Rightarrow> (idxs, st)
              | Some j \<Rightarrow> seq_loop n_ubatch j (al_seq_set st ! j) idxs st)"
  by pat_completeness auto
termination
  by (relation "measure (\<lambda>(n, cur, w, idxs, st). al_n_tokens st - cur)") (auto dest: seq_next_gt simp: use_token_def)

definition split_seq :: "nat \<Rightarrow> 'f llama_batch_allocr \<Rightarrow> 'f split_result" where
  "split_seq n_ubatch st =
     (let cur = first_unused (al_used st) in
      if cur \<ge> length (al_used st) then Some (None, st)
      else let (idxs, st') = seq_loop n_ubatch cur (al_seq_set st ! cur) [] st in ubatch_add st' idxs 1 True)"

text \<open>\<open>split_equal\<close>: the sequence sets that take part.\<close>

primrec select_sets :: "'f llama_batch_allocr \<Rightarrow> nat \<Rightarrow> bool \<Rightarrow> nat list \<Rightarrow> seq_set list \<Rightarrow> int \<Rightarrow> seq_set list" where
  "select_sets st n_ubatch seqn [] sets last_id = sets"
| "select_sets st n_ubatch seqn (i # is) sets last_id =
     (if al_used st ! i then select_sets st n_ubatch seqn is sets last_id
      else let add = list_all (\<lambda>S. S AND al_seq_set st ! i = 0) sets;
               add = (if seqn then add \<and> (sets = [] \<or> al_seq_id st ! i ! 0 = last_id + 1) else add)
           in if add
              then (if length sets + 1 > n_ubatch then sets @ [al_seq_set st ! i]
                    else select_sets st n_ubatch seqn is (sets @ [al_seq_set st ! i]) (al_seq_id st ! i ! 0))
              else select_sets st n_ubatch seqn is sets last_id)"

text \<open>Per sequence set: its token indices, the position reached in them, and what was taken.\<close>

type_synonym group = "nat list \<times> nat \<times> nat list"

definition start_group :: "'f llama_batch_allocr \<Rightarrow> seq_set \<Rightarrow> group" where
  "start_group st S = (let l = al_seq_set_map st S in (l, length (takeWhile (\<lambda>i. al_used st ! i) l), []))"

definition group_next :: "group \<Rightarrow> nat" where
  "group_next = (\<lambda>(l, c, acc). l ! c)"

definition group_step :: "group \<Rightarrow> group" where
  "group_step = (\<lambda>(l, c, acc). (l, c + 1, acc @ [l ! c]))"

definition group_done :: "group \<Rightarrow> bool" where
  "group_done = (\<lambda>(l, c, acc). c \<ge> length l)"

definition group_taken :: "group \<Rightarrow> nat list" where
  "group_taken = (\<lambda>(l, c, acc). acc)"

function equal_loop :: "nat \<Rightarrow> group list \<Rightarrow> 'f llama_batch_allocr \<Rightarrow> group list \<times> 'f llama_batch_allocr" where
  "equal_loop n_ubatch gs st =
     (if gs = [] \<or> list_ex group_done gs then (gs, st)
      else let st = fold use_token (map group_next gs) st; gs = map group_step gs
           in if (length (group_taken (hd gs)) + 1) * length gs > n_ubatch then (gs, st) else equal_loop n_ubatch gs st)"
  by pat_completeness auto
termination
  by (relation "measure (\<lambda>(n, gs, st). case hd gs of (l, c, acc) \<Rightarrow> length l - c)")
     (auto simp: hd_map group_step_def group_done_def neq_Nil_conv split: prod.splits)

definition split_equal :: "nat \<Rightarrow> bool \<Rightarrow> 'f llama_batch_allocr \<Rightarrow> 'f split_result" where
  "split_equal n_ubatch seqn st =
     (if seqn \<and> al_has_cpl st then Some (None, st)
      else let sets = select_sets st n_ubatch seqn [0..<al_n_tokens st] [] (-1) in
           if sets = [] then Some (None, st)
           else let (gs, st') = equal_loop n_ubatch (map (start_group st) sets) st
                in ubatch_add st' (concat (map group_taken gs)) (length sets) True)"

declare simple_loop.simps [simp del] seq_loop.simps [simp del] equal_loop.simps [simp del]

text \<open>The loop of the callers: split until the empty batch.\<close>

partial_function (option) split_all :: "('s \<Rightarrow> ('u option \<times> 's) option) \<Rightarrow> 's \<Rightarrow> ('u list \<times> 's) option" where
  "split_all split st =
     Option.bind (split st) (\<lambda>(u, st). case u of None \<Rightarrow> Some ([], st)
       | Some u \<Rightarrow> Option.bind (split_all split st) (\<lambda>(us, st). Some (u # us, st)))"

end
