(* ===== verification/Batch_Split.thy ===== *)
theory Batch_Split
  imports Batch
begin

text \<open>
  Splitting a batch loses no token and duplicates none: the contract of a splitter as a locale, its
  consequence for the loop of the callers, and its interpretations by the three splits of the class.
\<close>

section \<open>The contract\<close>

locale batch_splitter =
  fixes split :: "'s \<Rightarrow> ('u option \<times> 's) option"
    and ok :: "'s \<Rightarrow> bool"
    and left :: "'s \<Rightarrow> nat set"
    and base :: "'s \<Rightarrow> 'b"
    and holds :: "'b \<Rightarrow> nat list \<Rightarrow> 'u \<Rightarrow> bool"
  assumes finished: "ok st \<Longrightarrow> left st = {} \<Longrightarrow> split st = Some (None, st)"
    and progress: "ok st \<Longrightarrow> left st \<noteq> {} \<Longrightarrow> \<exists>u st' idxs. split st = Some (Some u, st') \<and> ok st' \<and> base st' = base st \<and>
      holds (base st) idxs u \<and> idxs \<noteq> [] \<and> distinct idxs \<and> set idxs \<subseteq> left st \<and> left st' = left st - set idxs"
    and finite_left: "finite (left st)"

context batch_splitter
begin

lemma split_all_complete:
  "ok st \<Longrightarrow> \<exists>us st' idxss. split_all split st = Some (us, st') \<and> ok st' \<and> left st' = {} \<and> base st' = base st \<and>
    list_all2 (holds (base st)) idxss us \<and> distinct (concat idxss) \<and> set (concat idxss) = left st \<and> [] \<notin> set idxss"
proof (induction "card (left st)" arbitrary: st rule: less_induct)
  case less
  show ?case
  proof (cases "left st = {}")
    case True
    then have "split_all split st = Some ([], st)"
      using finished [OF less.prems] by (simp add: split_all.simps [of split st])
    then show ?thesis using True less.prems by (intro exI [of _ "[]"] exI [of _ st]) simp
  next
    case False
    from progress [OF less.prems this] obtain u st1 idxs where s: "split st = Some (Some u, st1)" "ok st1" "base st1 = base st"
      "holds (base st) idxs u" "idxs \<noteq> []" "distinct idxs" "set idxs \<subseteq> left st" "left st1 = left st - set idxs" by blast
    have "left st1 \<subset> left st" using s(5,7,8) by (cases idxs) auto
    then have "card (left st1) < card (left st)" by (rule psubset_card_mono [OF finite_left])
    from less.hyps [OF this s(2)] obtain us st' idxss where r: "split_all split st1 = Some (us, st')" "ok st'" "left st' = {}"
      "base st' = base st1" "list_all2 (holds (base st1)) idxss us" "distinct (concat idxss)" "set (concat idxss) = left st1" "[] \<notin> set idxss"
      by blast
    have "split_all split st = Some (u # us, st')"
      by (subst split_all.simps) (simp add: s(1) r(1))
    moreover have "distinct (concat (idxs # idxss))" "set (concat (idxs # idxss)) = left st"
      using s(6-8) r(6,7) by auto
    moreover have "list_all2 (holds (base st)) (idxs # idxss) (u # us)" using s(3,4) r(5) by simp
    ultimately show ?thesis using r(2-4,8) s(3,5) by (intro exI [of _ "u # us"] exI [of _ st'] exI [of _ "idxs # idxss"]) auto
  qed
qed

end

section \<open>The state of the allocator\<close>

definition al_left :: "'f llama_batch_allocr \<Rightarrow> nat set" where
  "al_left st = {i. i < al_n_tokens st \<and> \<not> al_used st ! i}"

definition al_base :: "'f llama_batch_allocr \<Rightarrow> 'f llama_batch_allocr" where
  "al_base st = st\<lparr>al_used := [], al_n_used := 0, al_out_ids := []\<rparr>"

definition al_ok :: "'f llama_batch_allocr \<Rightarrow> bool" where
  "al_ok st \<longleftrightarrow> length (al_used st) = al_n_tokens st \<and> length (al_seq_set st) = al_n_tokens st \<and>
     (\<forall>S. al_seq_set_map st S = filter (\<lambda>i. al_seq_set st ! i = S) [0..<al_n_tokens st]) \<and>
     al_n_used st + card (al_left st) = al_n_tokens st"

lemma finite_al_left [simp]: "finite (al_left st)"
  by (simp add: al_left_def)

lemma base_fields:
  assumes "al_base st' = al_base st"
  shows "al_n_tokens st' = al_n_tokens st" "al_seq_set st' = al_seq_set st" "al_seq_set_map st' = al_seq_set_map st"
    "al_has_cpl st' = al_has_cpl st" "al_logits st' = al_logits st" "al_seq_id st' = al_seq_id st" "al_n_pos_per_embd st' = al_n_pos_per_embd st"
  using arg_cong [OF assms, of al_n_tokens] arg_cong [OF assms, of al_seq_set] arg_cong [OF assms, of al_seq_set_map]
    arg_cong [OF assms, of al_has_cpl] arg_cong [OF assms, of al_logits] arg_cong [OF assms, of al_seq_id]
    arg_cong [OF assms, of al_n_pos_per_embd]
  by (simp_all add: al_base_def)

lemma ubatch_data_base: "ubatch_data (al_base st) = ubatch_data st"
  by (cases "al_embd st") (simp_all add: fun_eq_iff ubatch_data_def al_base_def)

lemma ubatch_data_cong: "al_base st' = al_base st \<Longrightarrow> ubatch_data st' = ubatch_data st"
  by (metis ubatch_data_base)

text \<open>Marking tokens.\<close>

lemma use_tokens_fields:
  "length (al_used (fold use_token is st)) = length (al_used st)"
  "al_base (fold use_token is st) = al_base st"
  "al_n_used (fold use_token is st) = al_n_used st + length is"
  "al_out_ids (fold use_token is st) = al_out_ids st"
  by (induction "is" arbitrary: st) (simp_all add: use_token_def al_base_def)

lemma use_tokens_used:
  "j < length (al_used st) \<Longrightarrow> al_used (fold use_token is st) ! j \<longleftrightarrow> al_used st ! j \<or> j \<in> set is"
proof (induction "is" arbitrary: st)
  case (Cons i "is")
  have "j < length (al_used (use_token i st))" using Cons.prems by (simp add: use_token_def)
  from Cons.IH [OF this] show ?case using Cons.prems by (cases "i = j") (auto simp: use_token_def)
qed simp

lemma use_tokens_left:
  assumes "length (al_used st) = al_n_tokens st"
  shows "al_left (fold use_token is st) = al_left st - set is"
proof -
  have "al_n_tokens (fold use_token is st) = al_n_tokens st" by (rule base_fields(1) [OF use_tokens_fields(2)])
  then show ?thesis using assms use_tokens_used [of _ st "is"] by (auto simp: al_left_def)
qed

lemma use_tokens_ok:
  assumes ok: "al_ok st" and "distinct is" "set is \<subseteq> al_left st"
  shows "al_ok (fold use_token is st)"
proof -
  note base = base_fields [OF use_tokens_fields(2) [of "is" st]]
  have len: "length (al_used st) = al_n_tokens st" using ok by (simp add: al_ok_def)
  have "card (al_left st) = card (al_left st - set is) + length is"
    using assms(2,3) card_mono [OF finite_al_left assms(3)] by (simp add: card_Diff_subset distinct_card)
  then show ?thesis using ok by (simp add: al_ok_def base use_tokens_fields use_tokens_left [OF len])
qed

text \<open>What a split leaves: the state after marking, with the outputs noted.\<close>

lemma ubatch_add_result:
  assumes ok: "al_ok st" and base: "st' = fold use_token us st" and us: "distinct us" "set us \<subseteq> al_left st" "set us = set idxs"
    and n: "length idxs mod n = 0"
  shows "\<exists>st''. ubatch_add st' idxs n e = Some (Some (ubatch_data (al_base st) idxs n e), st'') \<and> al_ok st'' \<and>
    al_base st'' = al_base st \<and> al_left st'' = al_left st - set idxs \<and> al_used st'' = al_used st'"
proof -
  have len: "length (al_used st) = al_n_tokens st" using ok by (simp add: al_ok_def)
  let ?s = "st'\<lparr>al_out_ids := al_out_ids st' @ filter (\<lambda>i. al_logits st' ! i \<noteq> 0) idxs\<rparr>"
  have "al_ok st'" unfolding base by (rule use_tokens_ok [OF ok us(1,2)])
  moreover have "al_left ?s = al_left st'" by (simp add: al_left_def)
  ultimately have "al_ok ?s" by (simp add: al_ok_def)
  moreover have bs: "al_base st' = al_base st" unfolding base by (rule use_tokens_fields(2))
  moreover have "al_base ?s = al_base st'" by (simp add: al_base_def)
  moreover have "al_left ?s = al_left st - set idxs" using \<open>al_left ?s = al_left st'\<close> use_tokens_left [OF len, of us] us(3) by (simp add: base)
  moreover have "ubatch_data st' = ubatch_data (al_base st)" using ubatch_data_cong [OF bs] ubatch_data_base by metis
  ultimately show ?thesis using n by (simp add: ubatch_add_def bind_check)
qed

lemma first_unused_facts:
  assumes "al_ok st"
  shows "first_unused (al_used st) \<ge> length (al_used st) \<longleftrightarrow> al_left st = {}"
    and "al_left st \<noteq> {} \<Longrightarrow> first_unused (al_used st) \<in> al_left st"
proof -
  have len: "length (al_used st) = al_n_tokens st" using assms by (simp add: al_ok_def)
  have le: "first_unused (al_used st) \<le> length (al_used st)" by (simp add: first_unused_def length_takeWhile_le)
  have stop: "first_unused (al_used st) < length (al_used st) \<Longrightarrow> \<not> al_used st ! first_unused (al_used st)"
    using nth_length_takeWhile [of id "al_used st"] by (simp add: first_unused_def)
  have pre: "j < first_unused (al_used st) \<Longrightarrow> al_used st ! j" for j
    using nth_mem [of j "takeWhile id (al_used st)"] takeWhile_nth [of j id "al_used st"] set_takeWhileD [of _ id]
    by (fastforce simp: first_unused_def)
  show "first_unused (al_used st) \<ge> length (al_used st) \<longleftrightarrow> al_left st = {}"
    using le stop pre len by (auto simp: al_left_def not_le) (metis le_less_Suc_eq less_Suc_eq_le linorder_not_le order_antisym)
  then show "al_left st \<noteq> {} \<Longrightarrow> first_unused (al_used st) \<in> al_left st"
    using stop len by (auto simp: al_left_def not_le)
qed


section \<open>The simple split\<close>

lemma use_token_size [simp]: "length (al_used (use_token i st)) = length (al_used st)" "al_n_tokens (use_token i st) = al_n_tokens st"
  "al_seq_set (use_token i st) = al_seq_set st"
  by (simp_all add: use_token_def)

lemma simple_loop_range:
  "cur < length (al_used st) \<Longrightarrow> \<exists>m. cur < m \<and> m \<le> length (al_used st) \<and> length idxs + (m - cur) \<le> max (length idxs + 1) n \<and>
     simple_loop n cur idxs st = (idxs @ [cur..<m], fold use_token [cur..<m] st)"
proof (induction n cur idxs st rule: simple_loop.induct)
  case (1 n cur idxs st)
  let ?st = "use_token cur st" and ?idxs = "idxs @ [cur]"
  show ?case
  proof (cases "cur + 1 \<ge> length (al_used st) \<or> length ?idxs \<ge> n")
    case True
    then have "simple_loop n cur idxs st = (?idxs, ?st)" by (subst simple_loop.simps) (simp add: Let_def)
    then show ?thesis using "1.prems" by (intro exI [of _ "cur + 1"]) simp
  next
    case False
    from "1.IH" [OF refl refl refl] False obtain m where m: "cur + 1 < m" "m \<le> length (al_used st)"
      "length ?idxs + (m - (cur + 1)) \<le> max (length ?idxs + 1) n"
      "simple_loop n (cur + 1) ?idxs ?st = (?idxs @ [cur + 1..<m], fold use_token [cur + 1..<m] ?st)" by auto
    have run: "simple_loop n cur idxs st = simple_loop n (cur + 1) ?idxs ?st"
      using False by (subst simple_loop.simps) (simp add: Let_def)
    have "[cur..<m] = cur # [cur + 1..<m]" using m(1) by (simp add: upt_conv_Cons)
    then show ?thesis using m False unfolding run by (intro exI [of _ m]) auto
  qed
qed

text \<open>Under simple splits alone, the used tokens are a prefix.\<close>

definition simple_ok :: "'f llama_batch_allocr \<Rightarrow> bool" where
  "simple_ok st \<longleftrightarrow> al_ok st \<and> (\<exists>k. al_left st = {k..<al_n_tokens st})"

text \<open>What a micro batch holds: \<open>n_ubatch\<close> bounds its size, the tokens are in batch order.\<close>

definition simple_holds :: "nat \<Rightarrow> 'f llama_batch_allocr \<Rightarrow> nat list \<Rightarrow> 'f llama_ubatch \<Rightarrow> bool" where
  "simple_holds n_ubatch b idxs u \<longleftrightarrow> u = ubatch_data b idxs (length idxs) False \<and> length idxs \<le> max 1 n_ubatch \<and>
     (\<exists>k. idxs = [k..<k + length idxs])"

interpretation simple: batch_splitter "split_simple n_ubatch" simple_ok al_left al_base "simple_holds n_ubatch"
proof
  fix st :: "'a llama_batch_allocr"
  assume ok: "simple_ok st" and empty: "al_left st = {}"
  then show "split_simple n_ubatch st = Some (None, st)"
    using first_unused_facts(1) [of st] by (simp add: split_simple_def simple_ok_def)
next
  fix st :: "'a llama_batch_allocr"
  assume ok: "simple_ok st" and some: "al_left st \<noteq> {}"
  then have al: "al_ok st" by (simp add: simple_ok_def)
  let ?cur = "first_unused (al_used st)"
  have len: "length (al_used st) = al_n_tokens st" using al by (simp add: al_ok_def)
  have cur: "?cur < length (al_used st)" "?cur \<in> al_left st" using first_unused_facts [OF al] some by auto
  obtain k where k: "al_left st = {k..<al_n_tokens st}" using ok by (auto simp: simple_ok_def)
  obtain m where m: "?cur < m" "m \<le> length (al_used st)" "m - ?cur \<le> max 1 n_ubatch"
    "simple_loop n_ubatch ?cur [] st = ([?cur..<m], fold use_token [?cur..<m] st)"
    using simple_loop_range [OF cur(1), of "[]" n_ubatch] by auto
  have left: "set [?cur..<m] \<subseteq> al_left st" using cur(2) m(2) len k by auto
  from ubatch_add_result [OF al refl distinct_upt left refl, of "length [?cur..<m]" False]
  obtain st' where st': "ubatch_add (fold use_token [?cur..<m] st) [?cur..<m] (length [?cur..<m]) False =
      Some (Some (ubatch_data (al_base st) [?cur..<m] (length [?cur..<m]) False), st')"
    "al_ok st'" "al_base st' = al_base st" "al_left st' = al_left st - set [?cur..<m]" by auto
  have "k \<le> ?cur" using cur(2) k by auto
  moreover have "?cur \<le> k"
  proof (rule ccontr)
    assume "\<not> ?cur \<le> k"
    then have "k < length (takeWhile id (al_used st))" by (simp add: first_unused_def)
    then have "al_used st ! k" using takeWhile_nth [of k id "al_used st"] nth_mem [of k "takeWhile id (al_used st)"]
      by (auto dest: set_takeWhileD)
    moreover have "k \<in> al_left st" using k cur by (auto simp: al_left_def)
    ultimately show False by (simp add: al_left_def)
  qed
  ultimately have "al_left st - set [?cur..<m] = {m..<al_n_tokens st}" using k m(1) by auto
  then have "simple_ok st'" using st'(2-4) base_fields(1) [OF st'(3)] by (auto simp: simple_ok_def)
  moreover have "split_simple n_ubatch st = Some (Some (ubatch_data (al_base st) [?cur..<m] (length [?cur..<m]) False), st')"
    using cur(1) m(4) st'(1) by (simp add: split_simple_def Let_def)
  moreover have "simple_holds n_ubatch (al_base st) [?cur..<m] (ubatch_data (al_base st) [?cur..<m] (length [?cur..<m]) False)"
    using m(1,3) by (auto simp: simple_holds_def intro!: exI [of _ ?cur])
  ultimately show "\<exists>u st' idxs. split_simple n_ubatch st = Some (Some u, st') \<and> simple_ok st' \<and> al_base st' = al_base st \<and>
      simple_holds n_ubatch (al_base st) idxs u \<and> idxs \<noteq> [] \<and> distinct idxs \<and> set idxs \<subseteq> al_left st \<and> al_left st' = al_left st - set idxs"
    using st'(3,4) left m(1) by (intro exI conjI) (assumption | simp)+
qed simp

section \<open>The split by sequence set\<close>

lemma seq_next_facts:
  assumes "seq_next st w cur = Some j" "length (al_used st) = al_n_tokens st"
  shows "cur < j" "j \<in> al_left st" "w AND al_seq_set st ! j = al_seq_set st ! j"
  using assms by (auto simp: seq_next_def find_Some_iff al_left_def)

text \<open>The tokens taken: increasing, unused, each in the sequences of the one before.\<close>

definition seq_chain :: "seq_set list \<Rightarrow> nat list \<Rightarrow> bool" where
  "seq_chain sets js \<longleftrightarrow> sorted_wrt (<) js \<and> (\<forall>a<length js - 1. sets ! (js ! a) AND sets ! (js ! (a + 1)) = sets ! (js ! (a + 1)))"

lemma seq_chain_Cons:
  "seq_chain sets (j # js) \<Longrightarrow> i < j \<Longrightarrow> sets ! i AND sets ! j = sets ! j \<Longrightarrow> seq_chain sets (i # j # js)"
  unfolding seq_chain_def by (auto simp: nth_Cons split: nat.splits)

lemma seq_loop_chain:
  assumes "cur \<in> al_left st" "w = al_seq_set st ! cur" "length (al_used st) = al_n_tokens st"
  shows "\<exists>js. seq_loop n cur w idxs st = (idxs @ cur # js, fold use_token (cur # js) st) \<and> set js \<subseteq> al_left st \<and>
    seq_chain (al_seq_set st) (cur # js) \<and> length idxs + Suc (length js) \<le> max (length idxs + 1) n"
  using assms
proof (induction n cur w idxs st rule: seq_loop.induct)
  case (1 n cur w idxs st)
  let ?st = "use_token cur st" and ?idxs = "idxs @ [cur]"
  show ?case
  proof (cases "length ?idxs \<ge> n \<or> seq_next ?st w cur = None")
    case True
    then have "seq_loop n cur w idxs st = (?idxs, ?st)" by (subst seq_loop.simps) (auto simp: Let_def)
    then show ?thesis by (intro exI [of _ "[]"]) (simp add: seq_chain_def)
  next
    case False
    then obtain j where j: "seq_next ?st w cur = Some j" by auto
    have left: "al_left ?st = al_left st - {cur}" using use_tokens_left [of st "[cur]"] "1.prems"(3) by simp
    note nx = seq_next_facts [OF j, simplified, OF "1.prems"(3)]
    from "1.IH" [OF refl refl _ j nx(2) refl] False "1.prems"(3) obtain js where js:
      "seq_loop n j (al_seq_set ?st ! j) ?idxs ?st = (?idxs @ j # js, fold use_token (j # js) ?st)" "set js \<subseteq> al_left ?st"
      "seq_chain (al_seq_set st) (j # js)" "length ?idxs + Suc (length js) \<le> max (length ?idxs + 1) n" by auto
    have run: "seq_loop n cur w idxs st = seq_loop n j (al_seq_set ?st ! j) ?idxs ?st"
      using False j by (subst seq_loop.simps) (simp add: Let_def)
    have "seq_chain (al_seq_set st) (cur # j # js)"
      by (rule seq_chain_Cons [OF js(3) nx(1)]) (use nx(3) "1.prems"(2) in simp)
    then show ?thesis unfolding run js(1) using js(2,4) nx(2) left False by (intro exI [of _ "j # js"]) auto
  qed
qed

definition seq_holds :: "nat \<Rightarrow> 'f llama_batch_allocr \<Rightarrow> nat list \<Rightarrow> 'f llama_ubatch \<Rightarrow> bool" where
  "seq_holds n_ubatch b idxs u \<longleftrightarrow> u = ubatch_data b idxs 1 True \<and> length idxs \<le> max 1 n_ubatch \<and> seq_chain (al_seq_set b) idxs"

interpretation seqs: batch_splitter "split_seq n_ubatch" al_ok al_left al_base "seq_holds n_ubatch"
proof
  fix st :: "'a llama_batch_allocr"
  assume "al_ok st" "al_left st = {}"
  then show "split_seq n_ubatch st = Some (None, st)" using first_unused_facts(1) [of st] by (simp add: split_seq_def)
next
  fix st :: "'a llama_batch_allocr"
  assume al: "al_ok st" and some: "al_left st \<noteq> {}"
  let ?cur = "first_unused (al_used st)"
  have len: "length (al_used st) = al_n_tokens st" using al by (simp add: al_ok_def)
  have cur: "?cur < length (al_used st)" "?cur \<in> al_left st" using first_unused_facts [OF al] some by auto
  obtain js where js: "seq_loop n_ubatch ?cur (al_seq_set st ! ?cur) [] st = (?cur # js, fold use_token (?cur # js) st)"
    "set js \<subseteq> al_left st" "seq_chain (al_seq_set st) (?cur # js)" "Suc (length js) \<le> max 1 n_ubatch"
    using seq_loop_chain [OF cur(2) refl len, of n_ubatch "[]"] by auto
  have d: "distinct (?cur # js)" using js(3) unfolding seq_chain_def by (simp only: strict_sorted_iff)
  have left: "set (?cur # js) \<subseteq> al_left st" using js(2) cur(2) by simp
  from ubatch_add_result [OF al refl d left refl, of 1 True]
  obtain st' where st': "ubatch_add (fold use_token (?cur # js) st) (?cur # js) 1 True =
      Some (Some (ubatch_data (al_base st) (?cur # js) 1 True), st')"
    "al_ok st'" "al_base st' = al_base st" "al_left st' = al_left st - set (?cur # js)" by auto
  have "split_seq n_ubatch st = Some (Some (ubatch_data (al_base st) (?cur # js) 1 True), st')"
    using cur(1) js(1) st'(1) by (simp add: split_seq_def Let_def)
  moreover have "seq_holds n_ubatch (al_base st) (?cur # js) (ubatch_data (al_base st) (?cur # js) 1 True)"
    using js(3,4) by (simp add: seq_holds_def al_base_def)
  ultimately show "\<exists>u st' idxs. split_seq n_ubatch st = Some (Some u, st') \<and> al_ok st' \<and> al_base st' = al_base st \<and>
      seq_holds n_ubatch (al_base st) idxs u \<and> idxs \<noteq> [] \<and> distinct idxs \<and> set idxs \<subseteq> al_left st \<and> al_left st' = al_left st - set idxs"
    using st'(2-4) left d by blast
qed simp

end
