(* ===== verification/Batch_Equal.thy ===== *)
theory Batch_Equal
  imports Batch_Split
begin

text \<open>
  The split into groups of equal length, one per sequence set (\<open>split_equal\<close>), as a batch splitter.
\<close>

section \<open>Groups\<close>

definition group_rest :: "group \<Rightarrow> nat list" where
  "group_rest = (\<lambda>(l, c, acc). drop c l)"

definition advance :: "nat \<Rightarrow> group \<Rightarrow> group" where
  "advance k = (\<lambda>(l, c, acc). (l, c + k, acc @ take k (drop c l)))"

lemma group_simps:
  "group_done g \<longleftrightarrow> group_rest g = []"
  "\<not> group_done g \<Longrightarrow> group_next g = hd (group_rest g)"
  "\<not> group_done g \<Longrightarrow> group_step g = advance 1 g"
  "group_rest (advance k g) = drop k (group_rest g)"
  "group_taken (advance k g) = group_taken g @ take k (group_rest g)"
  "advance k' (advance k g) = advance (k + k') g"
  "advance 0 g = g"
  by (cases g; auto simp: group_done_def group_rest_def group_next_def group_step_def advance_def group_taken_def
      hd_drop_conv_nth take_add add.commute take_Suc not_le)+

lemma heads_tails:
  "[] \<notin> set rests \<Longrightarrow> distinct (concat rests) \<Longrightarrow>
    distinct (map hd rests) \<and> distinct (concat (map tl rests)) \<and> set (map hd rests) \<inter> set (concat (map tl rests)) = {} \<and>
    set (map hd rests) \<subseteq> set (concat rests) \<and> set (concat (map tl rests)) \<subseteq> set (concat rests)"
proof (induction rests)
  case (Cons r rests)
  then obtain x xs where r: "r = x # xs" by (cases r) auto
  have "x \<notin> set (concat rests)" "set xs \<inter> set (concat rests) = {}" "distinct xs" "x \<notin> set xs"
    using Cons.prems(2) unfolding r by (simp_all only: concat.simps distinct_append set_append list.set distinct.simps) blast+
  moreover have "distinct (concat rests)" "[] \<notin> set rests" using Cons.prems by auto
  note Cons.IH [OF this(2,1)]
  ultimately show ?case
    unfolding r list.map concat.simps list.sel set_append distinct_append list.set distinct.simps by blast
qed simp

text \<open>
  Each round takes the next token of every group, until a group is exhausted or the next round
  would exceed the limit.
\<close>

lemma equal_loop_rounds:
  assumes "gs \<noteq> []" "length (al_used st) = al_n_tokens st"
    and "distinct (concat (map group_rest gs))" "set (concat (map group_rest gs)) \<subseteq> al_left st"
    and "\<forall>g\<in>set gs. length (group_taken g) = r"
  shows "\<exists>k us. equal_loop n gs st = (map (advance k) gs, fold use_token us st) \<and>
    (\<forall>g\<in>set gs. k \<le> length (group_rest g)) \<and> distinct us \<and> set us = (\<Union>g\<in>set gs. set (take k (group_rest g))) \<and>
    (r + k) * length gs \<le> max n ((r + 1) * length gs) \<and> (\<not> list_ex group_done gs \<longrightarrow> 0 < k)"
  using assms
proof (induction n gs st arbitrary: r rule: equal_loop.induct)
  case (1 n gs st)
  show ?case
  proof (cases "list_ex group_done gs")
    case True
    then have "equal_loop n gs st = (gs, st)" by (subst equal_loop.simps) simp
    then show ?thesis using True by (intro exI [of _ 0] exI [of _ "[]"]) (simp add: group_simps(7) [abs_def] map_idI)
  next
    case False
    then have nd: "\<not> group_done g" if "g \<in> set gs" for g using that by (simp add: list_ex_iff)
    let ?us = "map group_next gs" and ?gs = "map group_step gs"
    let ?st = "fold use_token ?us st"
    have heads: "?us = map hd (map group_rest gs)" and step: "?gs = map (advance 1) gs"
      using group_simps(2,3) nd by (auto simp del: One_nat_def)
    have tails: "map group_rest ?gs = map tl (map group_rest gs)"
      unfolding step by (simp add: group_simps(4) drop_Suc)
    have "[] \<notin> set (map group_rest gs)" unfolding set_map using nd group_simps(1) by (metis imageE)
    note ht = heads_tails [OF this "1.prems"(3), folded heads tails]
    have left: "al_left ?st = al_left st - set ?us" by (rule use_tokens_left [OF "1.prems"(2)])
    have len: "length (al_used ?st) = al_n_tokens ?st"
      using "1.prems"(2) base_fields(1) [OF use_tokens_fields(2), of ?us st] by (simp add: use_tokens_fields(1))
    have taken: "\<forall>g\<in>set ?gs. length (group_taken g) = r + 1"
      unfolding step using "1.prems"(5) nd by (auto simp: group_simps(1,5) Suc_le_eq)
    have ge1: "1 \<le> length (group_rest g)" if "g \<in> set gs" for g using nd [OF that] by (simp add: group_simps(1) Suc_le_eq)
    show ?thesis
    proof (cases "(length (group_taken (hd ?gs)) + 1) * length ?gs > n")
      case True
      then have "equal_loop n gs st = (?gs, ?st)" using False "1.prems"(1) by (subst equal_loop.simps) (simp add: Let_def)
      moreover have "set ?us = (\<Union>g\<in>set gs. set (take 1 (group_rest g)))"
        unfolding heads using ge1 by (auto simp: take_Suc image_iff Suc_le_eq)
      ultimately show ?thesis using ge1 ht by (intro exI [of _ 1] exI [of _ ?us]) (auto simp: step simp del: One_nat_def)
    next
      case go: False
      have run: "equal_loop n gs st = equal_loop n ?gs ?st"
        using False go "1.prems"(1) by (subst equal_loop.simps) (simp add: Let_def)
      have sub: "set (concat (map group_rest ?gs)) \<subseteq> al_left ?st"
        using ht "1.prems"(4) unfolding left by blast
      obtain k us where k: "equal_loop n ?gs ?st = (map (advance k) ?gs, fold use_token us ?st)"
        "\<forall>g\<in>set ?gs. k \<le> length (group_rest g)" "distinct us" "set us = (\<Union>g\<in>set ?gs. set (take k (group_rest g)))"
        "(r + 1 + k) * length ?gs \<le> max n ((r + 1 + 1) * length ?gs)"
        using "1.IH" [OF _ refl refl go _ len _ sub taken] False "1.prems"(1) ht by auto
      have "length (group_taken (hd ?gs)) = r + 1" using taken "1.prems"(1) by (cases gs) auto
      then have bound: "(r + (k + 1)) * length gs \<le> max n ((r + 1) * length gs)" using k(5) go by simp
      have all: "map (advance k) ?gs = map (advance (k + 1)) gs" unfolding step by (simp add: group_simps(6))
      have take: "set (take (k + 1) (group_rest g)) = insert (group_next g) (set (take k (group_rest (group_step g))))" if "g \<in> set gs" for g
      proof -
        have "group_rest (group_step g) = drop 1 (group_rest g)" using nd [OF that] by (simp add: group_simps(3,4) del: One_nat_def)
        moreover have "group_next g = hd (group_rest g)" by (rule group_simps(2) [OF nd [OF that]])
        ultimately show ?thesis using ge1 [OF that] by (cases "group_rest g") simp_all
      qed
      have "set us \<subseteq> set (concat (map group_rest ?gs))" unfolding k(4) by (auto dest: in_set_takeD)
      then have "distinct (?us @ us)" using ht k(3) by auto
      moreover have "set (?us @ us) = (\<Union>g\<in>set gs. set (take (k + 1) (group_rest g)))"
        using take k(4) by auto
      moreover have "k + 1 \<le> length (group_rest g)" if "g \<in> set gs" for g
      proof -
        have "k \<le> length (group_rest (advance 1 g))" using k(2) that by (simp add: step del: One_nat_def)
        then show ?thesis using ge1 [OF that] by (simp add: group_simps(4))
      qed
      ultimately show ?thesis unfolding run k(1) all using bound
        by (intro exI [of _ "k + 1"] exI [of _ "?us @ us"]) simp
    qed
  qed
qed


section \<open>The sequence sets that take part\<close>

definition apart :: "seq_set \<Rightarrow> seq_set \<Rightarrow> bool" where
  "apart S T \<longleftrightarrow> S AND T = 0"

lemma select_sets_facts:
  assumes "sorted_wrt apart sets" "length sets \<le> n_ubatch"
  shows "\<exists>ext. select_sets st n_ubatch seqn is sets last_id = sets @ ext \<and> sorted_wrt apart (sets @ ext) \<and>
    (\<forall>S\<in>set ext. \<exists>i\<in>set is. \<not> al_used st ! i \<and> al_seq_set st ! i = S) \<and> length (sets @ ext) \<le> n_ubatch + 1 \<and>
    (sets = [] \<and> (\<exists>i\<in>set is. \<not> al_used st ! i) \<longrightarrow> ext \<noteq> [])"
  using assms
proof (induction "is" arbitrary: sets last_id)
  case Nil
  then show ?case by (intro exI [of _ "[]"]) simp
next
  case (Cons i "is")
  let ?S = "al_seq_set st ! i"
  show ?case
  proof (cases "al_used st ! i")
    case True
    from Cons.IH [OF Cons.prems, of last_id] True show ?thesis by auto
  next
    case unused: False
    define add where "add = (list_all (\<lambda>S. S AND ?S = 0) sets \<and> (seqn \<longrightarrow> sets = [] \<or> al_seq_id st ! i ! 0 = last_id + 1))"
    show ?thesis
    proof (cases add)
      case True
      then have pw: "sorted_wrt apart (sets @ [?S])" using Cons.prems(1) unfolding sorted_wrt_append
        by (simp add: add_def list_all_iff) (simp add: apart_def)
      show ?thesis
      proof (cases "length sets + 1 > n_ubatch")
        case stop: True
        have "select_sets st n_ubatch seqn (i # is) sets last_id = sets @ [?S]"
          using unused True stop by (auto simp: add_def)
        then show ?thesis using pw Cons.prems(2) unused by (intro exI [of _ "[?S]"]) auto
      next
        case go: False
        have "select_sets st n_ubatch seqn (i # is) sets last_id = select_sets st n_ubatch seqn is (sets @ [?S]) (al_seq_id st ! i ! 0)"
          using unused True go by (auto simp: add_def)
        moreover obtain ext where "select_sets st n_ubatch seqn is (sets @ [?S]) (al_seq_id st ! i ! 0) = (sets @ [?S]) @ ext"
          "sorted_wrt apart ((sets @ [?S]) @ ext)" "\<forall>S\<in>set ext. \<exists>i\<in>set is. \<not> al_used st ! i \<and> al_seq_set st ! i = S"
          "length ((sets @ [?S]) @ ext) \<le> n_ubatch + 1"
          using Cons.IH [OF pw, of "al_seq_id st ! i ! 0"] go by auto
        ultimately show ?thesis using unused by (intro exI [of _ "?S # ext"]) auto
      qed
    next
      case False
      then have "sets \<noteq> []" by (auto simp: add_def)
      moreover have "select_sets st n_ubatch seqn (i # is) sets last_id = select_sets st n_ubatch seqn is sets last_id"
        using unused False by (auto simp: add_def)
      ultimately show ?thesis using Cons.IH [OF Cons.prems, of last_id] by auto
    qed
  qed
qed

lemma apart_distinct: "sorted_wrt apart sets \<Longrightarrow> 0 \<notin> set sets \<Longrightarrow> distinct sets"
  by (induction sets) (auto simp: apart_def)

section \<open>The splitter\<close>

text \<open>The unused tokens of a sequence set; they are the end of its list of tokens.\<close>

definition set_left :: "'f llama_batch_allocr \<Rightarrow> seq_set \<Rightarrow> nat list" where
  "set_left st S = filter (\<lambda>i. al_seq_set st ! i = S \<and> \<not> al_used st ! i) [0..<al_n_tokens st]"

definition equal_ok :: "bool \<Rightarrow> 'f llama_batch_allocr \<Rightarrow> bool" where
  "equal_ok seqn st \<longleftrightarrow> al_ok st \<and> 0 \<notin> set (al_seq_set st) \<and> (seqn \<longrightarrow> \<not> al_has_cpl st) \<and>
     (\<forall>i j. i < j \<longrightarrow> j < al_n_tokens st \<longrightarrow> al_seq_set st ! i = al_seq_set st ! j \<longrightarrow> al_used st ! j \<longrightarrow> al_used st ! i)"

lemma filter_suffix:
  "sorted_wrt (\<lambda>i j. Q j \<longrightarrow> Q i) l \<Longrightarrow> drop (length (takeWhile Q l)) l = filter (\<lambda>i. \<not> Q i) l"
proof (induction l)
  case (Cons x l)
  show ?case
  proof (cases "Q x")
    case False
    then have "\<forall>y\<in>set l. \<not> Q y" using Cons.prems by auto
    then show ?thesis using False by (simp add: filter_id_conv)
  qed (use Cons in simp)
qed simp

lemma group_rest_start:
  assumes "equal_ok seqn st"
  shows "group_rest (start_group st S) = set_left st S" "group_taken (start_group st S) = []"
proof -
  have map: "al_seq_set_map st S = filter (\<lambda>i. al_seq_set st ! i = S) [0..<al_n_tokens st]"
    using assms by (simp add: equal_ok_def al_ok_def)
  have "sorted_wrt (\<lambda>i j. i < j \<and> i \<in> set (al_seq_set_map st S) \<and> j \<in> set (al_seq_set_map st S)) (al_seq_set_map st S)"
  proof -
    have "sorted_wrt (<) (al_seq_set_map st S)" unfolding map by (rule sorted_wrt_filter) simp
    then show ?thesis by (rule sorted_wrt_mono_rel [rotated]) auto
  qed
  then have "sorted_wrt (\<lambda>i j. al_used st ! j \<longrightarrow> al_used st ! i) (al_seq_set_map st S)"
    by (rule sorted_wrt_mono_rel [rotated]) (use assms in \<open>auto simp: equal_ok_def map\<close>)
  from filter_suffix [OF this] show "group_rest (start_group st S) = set_left st S"
    by (simp add: group_rest_def start_group_def Let_def set_left_def map conj_commute)
  show "group_taken (start_group st S) = []" by (simp add: group_taken_def start_group_def Let_def)
qed

lemma set_left_simps: "i \<in> set (set_left st S) \<longleftrightarrow> i \<in> al_left st \<and> al_seq_set st ! i = S" "sorted_wrt (<) (set_left st S)" "distinct (set_left st S)"
  by (auto simp: set_left_def al_left_def intro: sorted_wrt_filter)

lemma distinct_set_left: "distinct sets \<Longrightarrow> distinct (concat (map (set_left st) sets))"
  by (induction sets) (auto simp: set_left_simps)

lemma take_before:
  "sorted_wrt (<) (xs :: nat list) \<Longrightarrow> j \<in> set (take k xs) \<Longrightarrow> i \<in> set xs \<Longrightarrow> i < j \<Longrightarrow> i \<in> set (take k xs)"
proof (induction xs arbitrary: k)
  case (Cons x xs)
  then show ?case by (cases k) auto
qed simp

text \<open>
  What a micro batch holds: for each of its sequence sets a group of the same length, in batch
  order; the sets have no sequence in common.
\<close>

definition equal_holds :: "nat \<Rightarrow> 'f llama_batch_allocr \<Rightarrow> nat list \<Rightarrow> 'f llama_ubatch \<Rightarrow> bool" where
  "equal_holds n_ubatch b idxs u \<longleftrightarrow> (\<exists>sets groups k. u = ubatch_data b idxs (length sets) True \<and> idxs = concat groups \<and>
     length groups = length sets \<and> 0 < k \<and> sorted_wrt apart sets \<and>
     (\<forall>g<length sets. length (groups ! g) = k \<and> sorted_wrt (<) (groups ! g) \<and> (\<forall>i\<in>set (groups ! g). al_seq_set b ! i = sets ! g)) \<and>
     length sets \<le> n_ubatch + 1 \<and> k * length sets \<le> max n_ubatch (length sets))"

lemma equal_progress:
  assumes ok: "equal_ok seqn st" and some: "al_left st \<noteq> {}"
  shows "\<exists>u st' idxs. split_equal n_ubatch seqn st = Some (Some u, st') \<and> equal_ok seqn st' \<and> al_base st' = al_base st \<and>
    equal_holds n_ubatch (al_base st) idxs u \<and> idxs \<noteq> [] \<and> distinct idxs \<and> set idxs \<subseteq> al_left st \<and> al_left st' = al_left st - set idxs"
proof -
  have al: "al_ok st" and nocpl: "\<not> (seqn \<and> al_has_cpl st)" using ok by (auto simp: equal_ok_def)
  have len: "length (al_used st) = al_n_tokens st" "length (al_seq_set st) = al_n_tokens st" using al by (simp_all add: al_ok_def)
  define sets where "sets = select_sets st n_ubatch seqn [0..<al_n_tokens st] [] (-1)"
  have sets: "sorted_wrt apart sets" "\<forall>S\<in>set sets. \<exists>i\<in>al_left st. al_seq_set st ! i = S" "length sets \<le> n_ubatch + 1" "sets \<noteq> []"
    using select_sets_facts [of "[]" n_ubatch st seqn "[0..<al_n_tokens st]" "-1"] some unfolding sets_def al_left_def
    by (simp_all only: append_Nil list.size le0 sorted_wrt.simps set_upt atLeast0LessThan) auto
  have "al_seq_set st ! i \<noteq> 0" if "i \<in> al_left st" for i
  proof -
    have "al_seq_set st ! i \<in> set (al_seq_set st)" using that len by (simp add: al_left_def)
    moreover have "0 \<notin> set (al_seq_set st)" using ok by (simp add: equal_ok_def)
    ultimately show ?thesis by metis
  qed
  then have "0 \<notin> set sets" using sets(2) by auto
  then have d: "distinct sets" by (rule apart_distinct [OF sets(1)])
  let ?gs = "map (start_group st) sets"
  have rests: "map group_rest ?gs = map (set_left st) sets" using group_rest_start(1) [OF ok] by simp
  have ne: "set_left st S \<noteq> []" if S: "S \<in> set sets" for S
  proof -
    obtain i where "i \<in> al_left st" "al_seq_set st ! i = S" using sets(2) S by auto
    then have "i \<in> set (set_left st S)" by (simp add: set_left_simps)
    then show ?thesis by auto
  qed
  then have "\<not> list_ex group_done ?gs" using group_rest_start(1) [OF ok] by (auto simp: list_ex_iff group_simps(1))
  moreover have "set (concat (map group_rest ?gs)) \<subseteq> al_left st" unfolding rests by (auto simp: set_left_simps)
  moreover have "distinct (concat (map group_rest ?gs))" unfolding rests by (rule distinct_set_left [OF d])
  moreover have "?gs \<noteq> []" "\<forall>g\<in>set ?gs. length (group_taken g) = 0" using sets(4) group_rest_start(2) [OF ok] by simp_all
  ultimately obtain k us where k: "equal_loop n_ubatch ?gs st = (map (advance k) ?gs, fold use_token us st)"
    "\<forall>g\<in>set ?gs. k \<le> length (group_rest g)" "distinct us" "set us = (\<Union>g\<in>set ?gs. set (take k (group_rest g)))"
    "(0 + k) * length ?gs \<le> max n_ubatch ((0 + 1) * length ?gs)" "0 < k"
    using equal_loop_rounds [of ?gs st 0 n_ubatch] len(1) by blast
  define groups where "groups = map (\<lambda>S. take k (set_left st S)) sets"
  define idxs where "idxs = concat groups"
  have taken: "concat (map group_taken (map (advance k) ?gs)) = idxs"
    by (simp add: idxs_def groups_def group_simps(5) group_rest_start [OF ok] comp_def)
  have klen: "k \<le> length (set_left st S)" if "S \<in> set sets" for S using k(2) that group_rest_start(1) [OF ok] by auto
  have us: "set us = set idxs" unfolding k(4) by (auto simp: idxs_def groups_def group_rest_start(1) [OF ok])
  have left: "set us \<subseteq> al_left st" unfolding us by (auto simp: idxs_def groups_def set_left_simps dest!: in_set_takeD)
  have di: "distinct idxs"
  proof -
    have "distinct (concat (map (\<lambda>S. take k (set_left st S)) xs))" if "distinct xs" for xs
      using that by (induction xs) (auto simp: set_left_simps dest!: in_set_takeD)
    then show ?thesis using d by (simp add: idxs_def groups_def)
  qed
  have "length idxs = (\<Sum>S\<leftarrow>sets. k)" unfolding idxs_def groups_def length_concat
    by (simp add: comp_def klen min_absorb2 cong: map_cong)
  then have lidx: "length idxs = length sets * k" by (simp add: sum_list_triv)
  obtain st' where st': "ubatch_add (fold use_token us st) idxs (length sets) True = Some (Some (ubatch_data (al_base st) idxs (length sets) True), st')"
    "al_ok st'" "al_base st' = al_base st" "al_left st' = al_left st - set idxs" "al_used st' = al_used (fold use_token us st)"
    using ubatch_add_result [OF al refl k(3) left us, of "length sets" True] lidx by auto
  have run: "split_equal n_ubatch seqn st = Some (Some (ubatch_data (al_base st) idxs (length sets) True), st')"
    unfolding split_equal_def if_not_P [OF nocpl] sets_def [symmetric] Let_def if_not_P [OF sets(4)] k(1) prod.case taken by (rule st'(1))
  have "equal_ok seqn st'"
  proof -
    note base = base_fields [OF st'(3)]
    have used: "al_used st' ! j \<longleftrightarrow> al_used st ! j \<or> j \<in> set idxs" if "j < al_n_tokens st" for j
      using use_tokens_used [of j st us] that len us unfolding st'(5) by simp
    have "al_used st' ! i" if h: "i < j" "j < al_n_tokens st" "al_seq_set st ! i = al_seq_set st ! j" "al_used st' ! j" for i j
    proof (cases "al_used st ! j")
      case True
      then have "al_used st ! i" using ok h by (auto simp: equal_ok_def)
      then show ?thesis using used [of i] h by simp
    next
      case False
      then have "j \<in> set idxs" using used [OF h(2)] h(4) by simp
      then obtain S where S: "S \<in> set sets" "j \<in> set (take k (set_left st S))" by (auto simp: idxs_def groups_def)
      then have "al_seq_set st ! j = S" using set_left_simps(1) by (blast dest: in_set_takeD)
      have "i \<in> set idxs" if "\<not> al_used st ! i"
      proof -
        have "i \<in> set (set_left st S)" using that h \<open>al_seq_set st ! j = S\<close> by (simp add: set_left_simps al_left_def)
        from take_before [OF set_left_simps(2) S(2) this h(1)] S(1) show ?thesis by (auto simp: idxs_def groups_def)
      qed
      then show ?thesis using used [of i] h by auto
    qed
    then show ?thesis using st'(2) ok by (auto simp: equal_ok_def base)
  qed
  moreover have "equal_holds n_ubatch (al_base st) idxs (ubatch_data (al_base st) idxs (length sets) True)"
    unfolding equal_holds_def
  proof (intro exI conjI allI impI)
    fix g assume g: "g < length sets"
    then have S: "sets ! g \<in> set sets" by simp
    show "length (groups ! g) = k" using klen [OF S] g by (simp add: groups_def min_absorb2)
    show "sorted_wrt (<) (groups ! g)" using g sorted_wrt_take [OF set_left_simps(2), of k st "sets ! g"] by (simp add: groups_def)
    show "\<forall>i\<in>set (groups ! g). al_seq_set (al_base st) ! i = sets ! g"
      using g by (auto simp: groups_def al_base_def set_left_simps dest!: in_set_takeD)
  qed (use sets k(5,6) in \<open>simp_all add: idxs_def groups_def\<close>)
  moreover have "idxs \<noteq> []" using lidx sets(4) k(6) by auto
  ultimately show ?thesis using run st'(3,4) di left us by blast
qed

interpretation equal: batch_splitter "split_equal n_ubatch seqn" "equal_ok seqn" al_left al_base "equal_holds n_ubatch"
proof
  fix st :: "'a llama_batch_allocr"
  assume ok: "equal_ok seqn st" and empty: "al_left st = {}"
  obtain ext where "select_sets st n_ubatch seqn [0..<al_n_tokens st] [] (-1) = ext" "\<forall>S\<in>set ext. \<exists>i\<in>al_left st. al_seq_set st ! i = S"
    using select_sets_facts [of "[]" n_ubatch st seqn "[0..<al_n_tokens st]" "-1"] unfolding al_left_def
    by (simp only: append_Nil list.size le0 sorted_wrt.simps set_upt atLeast0LessThan) auto
  then have "select_sets st n_ubatch seqn [0..<al_n_tokens st] [] (-1) = []" using empty by (cases ext) auto
  then show "split_equal n_ubatch seqn st = Some (None, st)" by (simp add: split_equal_def)
qed (rule equal_progress, simp_all)

end
