(* ===== verification/KV_Cells_Inv.thy ===== *)
theory KV_Cells_Inv
  imports KV_Cells
begin

text \<open>
  The invariant of the KV cells: \<open>used\<close> holds the indices of the occupied cells, \<open>seq_pos\<close> counts how
  often each position occurs per sequence, empty cells carry no sequence and no shift. The
  operations keep it and act on the abstract list of cells as the specification says.
\<close>

section \<open>Counting\<close>

text \<open>How many cells have position \<open>p\<close> and belong to sequence \<open>s\<close>.\<close>

definition occ :: "int list \<Rightarrow> seq_set list \<Rightarrow> nat \<Rightarrow> int \<Rightarrow> nat" where
  "occ P W s p = card {i. i < length P \<and> P ! i = p \<and> bit (W ! i) s}"

definition counts :: "(nat \<Rightarrow> (int, int) rbt) \<Rightarrow> (nat \<Rightarrow> int \<Rightarrow> nat) \<Rightarrow> bool" where
  "counts m f \<longleftrightarrow> (\<forall>s p. RBT.lookup (m s) p = (if f s p = 0 then None else Some (int (f s p))))"

lemma countsD: "counts m f \<Longrightarrow> RBT.lookup (m s) p = (if f s p = 0 then None else Some (int (f s p)))"
  by (simp add: counts_def)

lemma counts_eq: "counts m f \<Longrightarrow> (\<And>s p. f s p = g s p) \<Longrightarrow> counts m g"
  by (simp add: counts_def)

lemma counts_inc: "counts m f \<Longrightarrow> counts (seq_pos_inc s p m) (\<lambda>t q. f t q + of_bool (t = s \<and> q = p))"
  by (auto simp: counts_def seq_pos_inc_def)

lemma counts_dec:
  assumes "counts m f" "0 < f s p"
  shows "\<exists>m'. seq_pos_dec s p m = Some m' \<and> counts m' (\<lambda>t q. f t q - of_bool (t = s \<and> q = p))"
proof -
  have l: "RBT.lookup (m s) p = Some (int (f s p))" using assms by (simp add: counts_def)
  show ?thesis unfolding seq_pos_dec_def l using assms by (auto simp: counts_def of_nat_diff)
qed

lemma bit_seq_set: "bit (w :: seq_set) s \<Longrightarrow> s < LLAMA_MAX_SEQ"
  using bit_imp_le_length [of w s] by (simp add: LLAMA_MAX_SEQ_def)

lemma counts_rm:
  assumes "counts m f" "\<And>s. bit w s \<Longrightarrow> 0 < f s p"
  shows "\<exists>m'. seq_pos_rm w p m = Some m' \<and> counts m' (\<lambda>s q. f s q - of_bool (q = p \<and> bit w s))"
proof -
  let ?g = "\<lambda>ys s q. f s q - of_bool (q = p \<and> bit w s \<and> s \<in> set ys)"
  have "\<exists>m'. fold_opt (\<lambda>s m. if bit w s then seq_pos_dec s p m else Some m) [0..<LLAMA_MAX_SEQ] m = Some m' \<and>
      counts m' (?g [0..<LLAMA_MAX_SEQ])"
  proof (rule fold_opt_invariant)
    show "counts m (?g [])" using assms(1) by simp
  next
    fix ys s zs m' assume split: "[0..<LLAMA_MAX_SEQ] = ys @ s # zs" and c: "counts m' (?g ys)"
    have "s \<notin> set ys" using distinct_upt [of 0 LLAMA_MAX_SEQ] unfolding split by simp
    show "\<exists>m''. (if bit w s then seq_pos_dec s p m' else Some m') = Some m'' \<and> counts m'' (?g (ys @ [s]))"
    proof (cases "bit w s")
      case True
      have "0 < ?g ys s p" using assms(2) [OF True] \<open>s \<notin> set ys\<close> by simp
      from counts_dec [OF c this] obtain m'' where "seq_pos_dec s p m' = Some m''"
        "counts m'' (\<lambda>t q. ?g ys t q - of_bool (t = s \<and> q = p))" by blast
      moreover have "?g ys t q - of_bool (t = s \<and> q = p) = ?g (ys @ [s]) t q" for t q
        using True \<open>s \<notin> set ys\<close> by auto
      ultimately show ?thesis using True by simp
    next
      case False
      have "counts m' (?g (ys @ [s]))" by (rule counts_eq [OF c]) (use False in auto)
      then show ?thesis using False by simp
    qed
  qed
  moreover have "counts m' (?g [0..<LLAMA_MAX_SEQ]) \<longleftrightarrow> counts m' (\<lambda>s q. f s q - of_bool (q = p \<and> bit w s))" for m'
    by (rule arg_cong [where f = "counts m'"]) (auto simp: fun_eq_iff dest: bit_seq_set)
  ultimately show ?thesis unfolding seq_pos_rm_def by blast
qed

lemma counts_add:
  assumes "counts m f"
  shows "counts (seq_pos_add w p m) (\<lambda>s q. f s q + of_bool (q = p \<and> bit w s))"
proof -
  have "counts (fold (\<lambda>s m. if bit w s then seq_pos_inc s p m else m) ss m) (\<lambda>s q. f s q + of_bool (q = p \<and> bit w s \<and> s \<in> set ss))"
    if "counts m f" "distinct ss" for ss m f
    using that
  proof (induction ss arbitrary: m f)
    case (Cons s ss)
    have "counts (if bit w s then seq_pos_inc s p m else m) (\<lambda>t q. f t q + of_bool (t = s \<and> q = p \<and> bit w s))"
      using counts_inc [OF Cons.prems(1), of s p] Cons.prems(1) by (cases "bit w s") simp_all
    from Cons.IH [OF this] Cons.prems(2) show ?case
      by (auto elim!: counts_eq)
  qed simp
  from this [OF assms distinct_upt] show ?thesis
    unfolding seq_pos_add_def by (rule counts_eq) (auto dest: bit_seq_set)
qed

lemma card_split: "finite A \<Longrightarrow> card A = card (A - {i}) + of_bool (i \<in> A)"
  using card_Suc_Diff1 [of A i] by (cases "i \<in> A") simp_all

lemma occ_update:
  assumes "i < length P" "length W = length P"
  shows "occ (P[i := p']) (W[i := w']) s q + of_bool (P ! i = q \<and> bit (W ! i) s) =
    occ P W s q + of_bool (p' = q \<and> bit w' s)"
proof -
  let ?A = "{j. j < length P \<and> P[i := p'] ! j = q \<and> bit (W[i := w'] ! j) s}"
  let ?B = "{j. j < length P \<and> P ! j = q \<and> bit (W ! j) s}"
  have eq: "?A - {i} = ?B - {i}" by auto
  have "card ?A = card (?A - {i}) + of_bool (i \<in> ?A)" "card ?B = card (?B - {i}) + of_bool (i \<in> ?B)"
    by (rule card_split, simp)+
  then show ?thesis unfolding occ_def length_list_update using eq assms by simp
qed

lemma occ_pos: "i < length P \<Longrightarrow> bit (W ! i) s \<Longrightarrow> 0 < occ P W s (P ! i)"
  unfolding occ_def by (auto simp: card_gt_0_iff)


section \<open>Invariant and abstraction\<close>

definition cell_ok :: "int \<Rightarrow> seq_set \<Rightarrow> int \<Rightarrow> bool" where
  "cell_ok p w sh \<longleftrightarrow> -1 \<le> p \<and> (p = -1 \<longrightarrow> w = 0 \<and> sh = 0)"

definition kv_ok :: "llama_kv_cells \<Rightarrow> bool" where
  "kv_ok c \<longleftrightarrow> length (kc_shift c) = kc_size c \<and> length (kc_seq c) = kc_size c \<and>
     (\<forall>i<kc_size c. cell_ok (kc_pos c ! i) (kc_seq c ! i) (kc_shift c ! i)) \<and>
     (\<forall>i. RBT.lookup (kc_used c) i = (if i < kc_size c \<and> kc_pos c ! i \<noteq> -1 then Some () else None)) \<and>
     counts (kc_seq_pos c) (occ (kc_pos c) (kc_seq c))"

text \<open>An abstract cell is empty, or has a position, a set of sequences and an accumulated shift.\<close>

type_synonym cell = "(int \<times> nat set \<times> int) option"

definition seqs_of :: "seq_set \<Rightarrow> nat set" where
  "seqs_of w = {s. bit w s}"

definition cell_of :: "int \<Rightarrow> seq_set \<Rightarrow> int \<Rightarrow> cell" where
  "cell_of p w sh = (if p = -1 then None else Some (p, seqs_of w, sh))"

definition cells_of :: "llama_kv_cells \<Rightarrow> cell list" where
  "cells_of c = map (\<lambda>i. cell_of (kc_pos c ! i) (kc_seq c ! i) (kc_shift c ! i)) [0..<kc_size c]"

lemma cells_of_simps [simp]:
  "length (cells_of c) = kc_size c"
  "i < kc_size c \<Longrightarrow> cells_of c ! i = cell_of (kc_pos c ! i) (kc_seq c ! i) (kc_shift c ! i)"
  by (simp_all add: cells_of_def)

lemma kv_okD:
  assumes "kv_ok c"
  shows "length (kc_shift c) = kc_size c" "length (kc_seq c) = kc_size c" "length (kc_pos c) = kc_size c"
    "i < kc_size c \<Longrightarrow> cell_ok (kc_pos c ! i) (kc_seq c ! i) (kc_shift c ! i)"
    "RBT.lookup (kc_used c) i = (if i < kc_size c \<and> kc_pos c ! i \<noteq> -1 then Some () else None)"
    "counts (kc_seq_pos c) (occ (kc_pos c) (kc_seq c))"
  using assms by (auto simp: kv_ok_def kc_size_def)

text \<open>Every operation writes one cell and adjusts the indices to it.\<close>

lemma kv_update:
  assumes ok: "kv_ok c" and i: "i < kc_size c" and cell: "cell_ok p w sh"
    and fields: "kc_pos c' = (kc_pos c)[i := p]" "kc_seq c' = (kc_seq c)[i := w]" "kc_shift c' = (kc_shift c)[i := sh]"
    and used: "\<And>j. RBT.lookup (kc_used c') j =
      (if j = i then (if p \<noteq> -1 then Some () else None) else RBT.lookup (kc_used c) j)"
    and counts: "counts (kc_seq_pos c') (\<lambda>s q. occ (kc_pos c) (kc_seq c) s q
      - of_bool (q = kc_pos c ! i \<and> bit (kc_seq c ! i) s) + of_bool (q = p \<and> bit w s))"
  shows "kv_ok c'" and "cells_of c' = (cells_of c)[i := cell_of p w sh]" and "kc_size c' = kc_size c"
proof -
  note len = kv_okD(1-3) [OF ok]
  show size: "kc_size c' = kc_size c" by (simp add: kc_size_def fields)
  show "cells_of c' = (cells_of c)[i := cell_of p w sh]"
    by (rule nth_equalityI) (use i len in \<open>auto simp: size fields nth_list_update\<close>)
  have "counts (kc_seq_pos c') (occ (kc_pos c') (kc_seq c'))"
  proof (rule counts_eq [OF counts])
    fix s q
    have "occ (kc_pos c') (kc_seq c') s q + of_bool (kc_pos c ! i = q \<and> bit (kc_seq c ! i) s) =
        occ (kc_pos c) (kc_seq c) s q + of_bool (p = q \<and> bit w s)"
      unfolding fields by (rule occ_update) (use i len in simp_all)
    moreover have "of_bool (kc_pos c ! i = q \<and> bit (kc_seq c ! i) s) \<le> occ (kc_pos c) (kc_seq c) s q"
      using occ_pos [of i "kc_pos c" "kc_seq c" s] i len by (auto simp: Suc_le_eq)
    ultimately show "occ (kc_pos c) (kc_seq c) s q - of_bool (q = kc_pos c ! i \<and> bit (kc_seq c ! i) s) +
        of_bool (q = p \<and> bit w s) = occ (kc_pos c') (kc_seq c') s q"
      by (auto simp: eq_commute [of q])
  qed
  moreover have "cell_ok (kc_pos c' ! j) (kc_seq c' ! j) (kc_shift c' ! j)" if "j < kc_size c" for j
    using that i len cell kv_okD(4) [OF ok that] by (cases "j = i") (simp_all add: fields)
  moreover have "RBT.lookup (kc_used c') j = (if j < kc_size c \<and> kc_pos c' ! j \<noteq> -1 then Some () else None)" for j
    unfolding used kv_okD(5) [OF ok] using i len by (simp add: fields nth_list_update)
  ultimately show "kv_ok c'" using len by (simp add: kv_ok_def size fields)
qed

text \<open>The counts after removing a cell's sequences, and after adding them at another position.\<close>

lemma kv_rm_counts:
  assumes "kv_ok c" "i < kc_size c"
  shows "\<exists>m. seq_pos_rm (kc_seq c ! i) (kc_pos c ! i) (kc_seq_pos c) = Some m \<and>
    counts m (\<lambda>s q. occ (kc_pos c) (kc_seq c) s q - of_bool (q = kc_pos c ! i \<and> bit (kc_seq c ! i) s))"
  by (rule counts_rm [OF kv_okD(6) [OF assms(1)]]) (use occ_pos assms kv_okD(3) [OF assms(1)] in auto)

lemma cell_of_ok [simp]: "cell_of (-1) w sh = None" "p \<noteq> -1 \<Longrightarrow> cell_of p w sh = Some (p, seqs_of w, sh)"
  by (simp_all add: cell_of_def)

lemma seqs_of_empty: "seqs_of w = {} \<longleftrightarrow> w = 0"
proof
  assume "seqs_of w = {}"
  then have "\<not> bit w n" for n by (auto simp: seqs_of_def)
  then show "w = 0" by (intro bit_eqI) simp
qed (simp add: seqs_of_def)

lemma seqs_of_simps [simp]:
  "seqs_of 0 = {}" "seqs_of w = {} \<longleftrightarrow> w = 0" "s \<in> seqs_of w \<longleftrightarrow> bit w s"
  "seqs_of (unset_bit s w) = seqs_of w - {s}"
  "s < LLAMA_MAX_SEQ \<Longrightarrow> seqs_of (set_bit s w) = insert s (seqs_of w)"
  by (auto simp: seqs_of_empty) (auto simp: seqs_of_def bit_simps LLAMA_MAX_SEQ_def)


section \<open>The contract of the operations\<close>

text \<open>A specified operation is a function on one cell; the flag says whether it records a shift.\<close>

type_synonym acells = "bool \<times> cell list"

definition spec_cell :: "nat \<Rightarrow> bool \<Rightarrow> (cell \<Rightarrow> ('r \<times> cell) option) \<Rightarrow> acells \<Rightarrow> ('r \<times> acells) option" where
  "spec_cell i shifts f a = do { x \<leftarrow> vec_at (snd a) i; (r, x') \<leftarrow> f x; Some (r, shifts \<or> fst a, (snd a)[i := x']) }"

definition kv_abs :: "llama_kv_cells \<Rightarrow> acells" where
  "kv_abs c = (kc_has_shift c, cells_of c)"

fun cell_rm :: "cell \<Rightarrow> (unit \<times> cell) option" where
  "cell_rm (Some _) = Some ((), None)"
| "cell_rm None = None"

fun cell_seq_rm :: "int \<Rightarrow> cell \<Rightarrow> (bool \<times> cell) option" where
  "cell_seq_rm s (Some (p, S, sh)) =
     (if 0 \<le> s \<and> nat s \<in> S
      then Some (if S = {nat s} then (True, None) else (False, Some (p, S - {nat s}, sh))) else None)"
| "cell_seq_rm s None = None"

definition seq_id_ok :: "int \<Rightarrow> bool" where
  "seq_id_ok s \<longleftrightarrow> 0 \<le> s \<and> s < int LLAMA_MAX_SEQ"

fun cell_seq_keep :: "int \<Rightarrow> cell \<Rightarrow> (bool \<times> cell) option" where
  "cell_seq_keep s (Some (p, S, sh)) =
     (if \<not> seq_id_ok s then None
      else if nat s \<in> S then Some (False, Some (p, {nat s}, sh))
      else if S \<noteq> {} then Some (True, None) else None)"
| "cell_seq_keep s None = (if seq_id_ok s then Some (False, None) else None)"

fun cell_seq_add :: "int \<Rightarrow> cell \<Rightarrow> (unit \<times> cell) option" where
  "cell_seq_add s (Some (p, S, sh)) =
     (if seq_id_ok s \<and> nat s \<notin> S then Some ((), Some (p, insert (nat s) S, sh)) else None)"
| "cell_seq_add s None = None"

fun cell_pos_set :: "nat \<Rightarrow> cell \<Rightarrow> (unit \<times> cell) option" where
  "cell_pos_set p None = Some ((), Some (int p, {}, 0))"
| "cell_pos_set p (Some _) = None"

fun cell_pos_add :: "int \<Rightarrow> cell \<Rightarrow> (bool \<times> cell) option" where
  "cell_pos_add d (Some (p, S, sh)) = do {
     p' \<leftarrow> s32 (p + d); sh' \<leftarrow> s32 (sh + d);
     Some (if p' < 0 then (True, None) else (False, Some (p', S, sh'))) }"
| "cell_pos_add d None = None"

fun cell_pos_div :: "nat \<Rightarrow> cell \<Rightarrow> (unit \<times> cell) option" where
  "cell_pos_div d (Some (p, S, sh)) = do {
     check (d \<noteq> 0); p' \<leftarrow> s32 (p div int d); sh' \<leftarrow> s32 (sh + (p - p'));
     Some ((), Some (p', S, sh')) }"
| "cell_pos_div d None = None"

text \<open>The detailed operation on cell \<open>i\<close> against the specified one.\<close>

abbreviation kv_sim :: "('r \<times> llama_kv_cells) option \<Rightarrow> ('r \<times> acells) option \<Rightarrow> bool" where
  "kv_sim \<equiv> sim kv_ok kv_abs"

lemma spec_cell_at [simp]:
  "i < kc_size c \<Longrightarrow> spec_cell i h f (kv_abs c) =
    (case f (cell_of (kc_pos c ! i) (kc_seq c ! i) (kc_shift c ! i)) of None \<Rightarrow> None
     | Some (r, x') \<Rightarrow> Some (r, h \<or> kc_has_shift c, (cells_of c)[i := x']))"
  "\<not> i < kc_size c \<Longrightarrow> spec_cell i h f (kv_abs c) = None"
  by (auto simp: spec_cell_def kv_abs_def split: option.splits)

lemma kv_sim_write:
  assumes "kv_ok c" "i < kc_size c" "cell_ok p w sh"
    and "kc_pos c' = (kc_pos c)[i := p]" "kc_seq c' = (kc_seq c)[i := w]" "kc_shift c' = (kc_shift c)[i := sh]"
    and "\<And>j. RBT.lookup (kc_used c') j = (if j = i then (if p \<noteq> -1 then Some () else None) else RBT.lookup (kc_used c) j)"
    and "counts (kc_seq_pos c') (\<lambda>s q. occ (kc_pos c) (kc_seq c) s q
      - of_bool (q = kc_pos c ! i \<and> bit (kc_seq c ! i) s) + of_bool (q = p \<and> bit w s))"
    and "f (cell_of (kc_pos c ! i) (kc_seq c ! i) (kc_shift c ! i)) = Some (r, cell_of p w sh)"
    and "kc_has_shift c' = (h \<or> kc_has_shift c)"
  shows "kv_sim (Some (r, c')) (spec_cell i h f (kv_abs c))"
proof -
  have "kv_abs c' = (h \<or> kc_has_shift c, (cells_of c)[i := cell_of p w sh])"
    using kv_update(2) [OF assms(1-8)] assms(10) by (simp add: kv_abs_def)
  then show ?thesis using kv_update(1) [OF assms(1-8)] assms(2,9) by simp
qed

text \<open>What the guards of an operation read, for a cell in range and one that is not.\<close>

lemma kv_cases [consumes 1, case_names out empty full]:
  assumes "kv_ok c"
    and "\<not> i < kc_size c \<Longrightarrow> P"
    and "i < kc_size c \<Longrightarrow> kc_pos c ! i = -1 \<Longrightarrow> kc_seq c ! i = 0 \<Longrightarrow> kc_shift c ! i = 0 \<Longrightarrow> P"
    and "i < kc_size c \<Longrightarrow> kc_pos c ! i \<noteq> -1 \<Longrightarrow> 0 \<le> kc_pos c ! i \<Longrightarrow> P"
  shows P
proof (cases "i < kc_size c")
  case True
  then have "-1 \<le> kc_pos c ! i" "kc_pos c ! i = -1 \<longrightarrow> kc_seq c ! i = 0 \<and> kc_shift c ! i = 0"
    using kv_okD(4) [OF assms(1), of i] by (simp_all add: cell_ok_def)
  then show P using True assms(3,4) by (cases "kc_pos c ! i = -1") simp_all
qed (rule assms(2))

lemma kv_vec_at:
  assumes "kv_ok c"
  shows "i < kc_size c \<Longrightarrow> vec_at (kc_pos c) i = Some (kc_pos c ! i)" "i < kc_size c \<Longrightarrow> vec_at (kc_seq c) i = Some (kc_seq c ! i)"
    "i < kc_size c \<Longrightarrow> vec_at (kc_shift c) i = Some (kc_shift c ! i)" "\<not> i < kc_size c \<Longrightarrow> vec_at (kc_pos c) i = None"
  using kv_okD(1-3) [OF assms] by (simp_all add: vec_at_def)

lemma used_deleted:
  "RBT.lookup (RBT.delete i u) j = (if j = i then None else RBT.lookup u j)"
  by simp

lemma kc_rm_sim:
  assumes ok: "kv_ok c"
  shows "kv_sim (map_option (Pair ()) (kc_rm i c)) (spec_cell i False cell_rm (kv_abs c))"
  using ok
proof (cases rule: kv_cases [where i = i])
  case full
  obtain m where m: "seq_pos_rm (kc_seq c ! i) (kc_pos c ! i) (kc_seq_pos c) = Some m"
    "counts m (\<lambda>s q. occ (kc_pos c) (kc_seq c) s q - of_bool (q = kc_pos c ! i \<and> bit (kc_seq c ! i) s))"
    using kv_rm_counts [OF ok full(1)] by blast
  have run: "kc_rm i c = Some (kc_clear_cell i (c\<lparr>kc_seq_pos := m, kc_seq := (kc_seq c)[i := 0]\<rparr>))"
    using full m(1) by (simp add: kc_rm_def kv_vec_at [OF ok] bind_check)
  show ?thesis unfolding run option.map
    by (rule kv_sim_write [where p = "-1" and w = 0 and sh = 0])
       (use ok m(2) full in \<open>simp_all add: kc_clear_cell_def cell_ok_def\<close>)
qed (simp_all add: kc_rm_def kv_vec_at [OF ok] bind_check)

lemma seq_test_simps: "seq_test w s = (if seq_id_ok s then Some (bit w (nat s)) else None)"
  by (simp add: seq_test_def seq_id_ok_def)

lemma nat_seq_id: "seq_id_ok s \<Longrightarrow> nat s < LLAMA_MAX_SEQ"
  by (auto simp: seq_id_ok_def)

lemma bit_seq_id: "0 \<le> s \<Longrightarrow> bit (w :: seq_set) (nat s) \<Longrightarrow> seq_id_ok s"
  using bit_seq_set [of w "nat s"] by (auto simp: seq_id_ok_def)

lemma unset_bit_empty: "bit (w :: seq_set) s \<Longrightarrow> unset_bit s w = 0 \<longleftrightarrow> seqs_of w = {s}"
  unfolding seqs_of_empty [symmetric] by auto

lemma bit_set_bit_seq: "s < LLAMA_MAX_SEQ \<Longrightarrow> bit (set_bit s (w :: seq_set)) t \<longleftrightarrow> t = s \<or> bit w t"
  by (auto simp: bit_simps LLAMA_MAX_SEQ_def)

lemmas bit_single_seq = bit_set_bit_seq [of _ 0, simplified]

lemma seqs_of_single [simp]: "seq_id_ok s \<Longrightarrow> seqs_of (2 ^ nat s) = {nat s}"
  by (auto simp: seqs_of_def bit_single_seq nat_seq_id)

lemma seq_pos_dec_cell:
  assumes "kv_ok c" "i < kc_size c" "bit (kc_seq c ! i) s"
  shows "\<exists>m. seq_pos_dec s (kc_pos c ! i) (kc_seq_pos c) = Some m \<and>
    counts m (\<lambda>t q. occ (kc_pos c) (kc_seq c) t q - of_bool (t = s \<and> q = kc_pos c ! i))"
  by (rule counts_dec [OF kv_okD(6) [OF assms(1)]]) (use assms occ_pos kv_okD(3) [OF assms(1)] in simp)

lemma kc_seq_rm_sim:
  assumes ok: "kv_ok c"
  shows "kv_sim (kc_seq_rm i s c) (spec_cell i False (cell_seq_rm s) (kv_abs c))"
  using ok
proof (cases rule: kv_cases [where i = i])
  case full
  show ?thesis
  proof (cases "0 \<le> s \<and> bit (kc_seq c ! i) (nat s)")
    case True
    then have id: "seq_id_ok s" using bit_seq_id by blast
    obtain m where m: "seq_pos_dec (nat s) (kc_pos c ! i) (kc_seq_pos c) = Some m"
      "counts m (\<lambda>t q. occ (kc_pos c) (kc_seq c) t q - of_bool (t = nat s \<and> q = kc_pos c ! i))"
      using seq_pos_dec_cell [OF ok full(1)] True by blast
    let ?w = "unset_bit (nat s) (kc_seq c ! i)"
    have counts: "counts m (\<lambda>t q. occ (kc_pos c) (kc_seq c) t q - of_bool (q = kc_pos c ! i \<and> bit (kc_seq c ! i) t) +
        of_bool (q = kc_pos c ! i \<and> bit ?w t))"
    proof (rule counts_eq [OF m(2)])
      fix t q
      have "q = kc_pos c ! i \<Longrightarrow> bit (kc_seq c ! i) t \<Longrightarrow> 0 < occ (kc_pos c) (kc_seq c) t q"
        using full(1) occ_pos [of i "kc_pos c"] kv_okD(3) [OF ok] by simp
      then show "occ (kc_pos c) (kc_seq c) t q - of_bool (t = nat s \<and> q = kc_pos c ! i) =
          occ (kc_pos c) (kc_seq c) t q - of_bool (q = kc_pos c ! i \<and> bit (kc_seq c ! i) t) + of_bool (q = kc_pos c ! i \<and> bit ?w t)"
        using True by (cases "t = nat s"; cases "q = kc_pos c ! i"; cases "bit (kc_seq c ! i) t") (simp_all add: bit_unset_bit_iff)
    qed
    let ?c = "c\<lparr>kc_seq := (kc_seq c)[i := ?w], kc_seq_pos := m\<rparr>"
    have run: "kc_seq_rm i s c = Some (if ?w = 0 then (True, kc_clear_cell i ?c) else (False, ?c))"
      using full True m(1) id by (simp add: kc_seq_rm_def kv_vec_at [OF ok] bind_check seq_test_simps Let_def)
    show ?thesis
    proof (cases "?w = 0")
      case w0: True
      then have "counts m (\<lambda>t q. occ (kc_pos c) (kc_seq c) t q - of_bool (q = kc_pos c ! i \<and> bit (kc_seq c ! i) t))"
        using counts unfolding w0 by simp
      moreover have "seqs_of (kc_seq c ! i) = {nat s}" using w0 True by (simp add: unset_bit_empty)
      ultimately show ?thesis unfolding run if_P [OF w0] unfolding w0
        by (intro kv_sim_write [where p = "-1" and w = 0 and sh = 0])
           (use ok full True in \<open>simp_all add: kc_clear_cell_def cell_ok_def\<close>)
    next
      case w0: False
      show ?thesis unfolding run if_not_P [OF w0]
        by (rule kv_sim_write [where p = "kc_pos c ! i" and w = ?w and sh = "kc_shift c ! i"])
           (use ok full True w0 counts kv_okD(5) [OF ok] in \<open>simp_all add: cell_ok_def unset_bit_empty\<close>)
    qed
  qed (use full in \<open>simp add: kc_seq_rm_def kv_vec_at [OF ok] bind_check seq_test_simps\<close>)
qed (simp_all add: kc_seq_rm_def kv_vec_at [OF ok] bind_check seq_test_simps)

lemma kc_seq_keep_sim:
  assumes ok: "kv_ok c"
  shows "kv_sim (kc_seq_keep i s c) (spec_cell i False (cell_seq_keep s) (kv_abs c))"
  using ok
proof (cases rule: kv_cases [where i = i])
  case full
  obtain m where m: "seq_pos_rm (kc_seq c ! i) (kc_pos c ! i) (kc_seq_pos c) = Some m"
    "counts m (\<lambda>s q. occ (kc_pos c) (kc_seq c) s q - of_bool (q = kc_pos c ! i \<and> bit (kc_seq c ! i) s))"
    using kv_rm_counts [OF ok full(1)] by blast
  consider (bad) "\<not> seq_id_ok s" | (keep) "seq_id_ok s" "bit (kc_seq c ! i) (nat s)"
    | (drop) "seq_id_ok s" "\<not> bit (kc_seq c ! i) (nat s)" "kc_seq c ! i \<noteq> 0"
    | (none) "seq_id_ok s" "kc_seq c ! i = 0" by auto
  then show ?thesis
  proof cases
    case keep
    let ?c = "c\<lparr>kc_seq := (kc_seq c)[i := set_bit (nat s) 0], kc_seq_pos := seq_pos_inc (nat s) (kc_pos c ! i) m\<rparr>"
    have run: "kc_seq_keep i s c = Some (False, ?c)"
      using full keep m(1) by (simp add: kc_seq_keep_def kv_vec_at [OF ok] bind_check seq_test_simps)
    have "counts (seq_pos_inc (nat s) (kc_pos c ! i) m) (\<lambda>t q. occ (kc_pos c) (kc_seq c) t q -
        of_bool (q = kc_pos c ! i \<and> bit (kc_seq c ! i) t) + of_bool (q = kc_pos c ! i \<and> bit (set_bit (nat s) (0 :: seq_set)) t))"
      by (rule counts_eq [OF counts_inc [OF m(2)]]) (auto simp: bit_single_seq [OF nat_seq_id [OF keep(1)]])
    then show ?thesis unfolding run
      by (intro kv_sim_write [where p = "kc_pos c ! i" and w = "set_bit (nat s) 0" and sh = "kc_shift c ! i"])
         (use ok full keep kv_okD(5) [OF ok] in \<open>simp_all add: cell_ok_def\<close>)
  next
    case drop
    have run: "kc_seq_keep i s c = Some (True, kc_clear_cell i (c\<lparr>kc_seq_pos := m, kc_seq := (kc_seq c)[i := 0]\<rparr>))"
      using full drop m(1) by (simp add: kc_seq_keep_def kv_vec_at [OF ok] bind_check seq_test_simps)
    show ?thesis unfolding run
      by (rule kv_sim_write [where p = "-1" and w = 0 and sh = 0])
         (use ok full drop m(2) in \<open>simp_all add: kc_clear_cell_def cell_ok_def\<close>)
  qed (use full in \<open>simp_all add: kc_seq_keep_def kv_vec_at [OF ok] bind_check seq_test_simps\<close>)
next
  case empty
  have "(cells_of c)[i := None] = cells_of c"
    using empty by (intro list_update_same_conv [THEN iffD2]) simp_all
  then show ?thesis using empty ok
    by (simp add: kc_seq_keep_def kv_vec_at [OF ok] bind_check seq_test_simps kv_abs_def [of c, symmetric])
qed (simp add: kc_seq_keep_def kv_vec_at [OF ok] bind_check seq_test_simps)

lemma kc_seq_add_sim:
  assumes ok: "kv_ok c"
  shows "kv_sim (map_option (Pair ()) (kc_seq_add i s c)) (spec_cell i False (cell_seq_add s) (kv_abs c))"
  using ok
proof (cases rule: kv_cases [where i = i])
  case full
  show ?thesis
  proof (cases "seq_id_ok s \<and> \<not> bit (kc_seq c ! i) (nat s)")
    case True
    let ?w = "set_bit (nat s) (kc_seq c ! i)"
    have run: "kc_seq_add i s c = Some (c\<lparr>kc_seq := (kc_seq c)[i := ?w], kc_seq_pos := seq_pos_inc (nat s) (kc_pos c ! i) (kc_seq_pos c)\<rparr>)"
      using full True by (simp add: kc_seq_add_def kv_vec_at [OF ok] bind_check seq_test_simps)
    have "counts (seq_pos_inc (nat s) (kc_pos c ! i) (kc_seq_pos c)) (\<lambda>t q. occ (kc_pos c) (kc_seq c) t q -
        of_bool (q = kc_pos c ! i \<and> bit (kc_seq c ! i) t) + of_bool (q = kc_pos c ! i \<and> bit ?w t))"
    proof (rule counts_eq [OF counts_inc [OF kv_okD(6) [OF ok]]])
      fix t q
      have "q = kc_pos c ! i \<Longrightarrow> bit (kc_seq c ! i) t \<Longrightarrow> 0 < occ (kc_pos c) (kc_seq c) t q"
        using full(1) occ_pos [of i "kc_pos c"] kv_okD(3) [OF ok] by simp
      then show "occ (kc_pos c) (kc_seq c) t q + of_bool (t = nat s \<and> q = kc_pos c ! i) =
          occ (kc_pos c) (kc_seq c) t q - of_bool (q = kc_pos c ! i \<and> bit (kc_seq c ! i) t) + of_bool (q = kc_pos c ! i \<and> bit ?w t)"
        using True nat_seq_id [of s] by (cases "t = nat s"; cases "q = kc_pos c ! i"; cases "bit (kc_seq c ! i) t") (simp_all add: bit_set_bit_seq)
    qed
    then show ?thesis unfolding run option.map
      by (intro kv_sim_write [where p = "kc_pos c ! i" and w = ?w and sh = "kc_shift c ! i"])
         (use ok full True kv_okD(5) [OF ok] nat_seq_id [of s] in \<open>simp_all add: cell_ok_def\<close>)
  next
    case False
    then show ?thesis using full by (auto simp: kc_seq_add_def kv_vec_at [OF ok] bind_check seq_test_simps)
  qed
qed (simp_all add: kc_seq_add_def kv_vec_at [OF ok] bind_check)

lemma kc_pos_set_sim:
  assumes ok: "kv_ok c"
  shows "kv_sim (map_option (Pair ()) (kc_pos_set i (int p) c)) (spec_cell i False (cell_pos_set p) (kv_abs c))"
  using ok
proof (cases rule: kv_cases [where i = i])
  case empty
  have run: "kc_pos_set i (int p) c = Some (c\<lparr>kc_pos := (kc_pos c)[i := int p], kc_used := RBT.insert i () (kc_used c)\<rparr>)"
    using empty by (simp add: kc_pos_set_def kv_vec_at [OF ok] bind_check)
  show ?thesis unfolding run option.map
    by (rule kv_sim_write [where p = "int p" and w = 0 and sh = 0])
       (use ok empty kv_okD(1-3,6) [OF ok] in \<open>simp_all add: cell_ok_def list_update_same_conv [THEN iffD2]\<close>)
qed (simp_all add: kc_pos_set_def kv_vec_at [OF ok] bind_check)

lemma kc_pos_add_sim:
  assumes ok: "kv_ok c"
  shows "kv_sim (kc_pos_add i d c) (spec_cell i True (cell_pos_add d) (kv_abs c))"
  using ok
proof (cases rule: kv_cases [where i = i])
  case full
  obtain m where m: "seq_pos_rm (kc_seq c ! i) (kc_pos c ! i) (kc_seq_pos c) = Some m"
    "counts m (\<lambda>s q. occ (kc_pos c) (kc_seq c) s q - of_bool (q = kc_pos c ! i \<and> bit (kc_seq c ! i) s))"
    using kv_rm_counts [OF ok full(1)] by blast
  show ?thesis
  proof (cases "s32 (kc_pos c ! i + d) = None \<or> s32 (kc_shift c ! i + d) = None")
    case True
    then show ?thesis using full m(1)
      by (auto simp: kc_pos_add_def kv_vec_at [OF ok] bind_check split: option.splits Option.bind_split)
  next
    case False
    then obtain p' sh' where s: "s32 (kc_pos c ! i + d) = Some p'" "s32 (kc_shift c ! i + d) = Some sh'" by auto
    let ?c = "c\<lparr>kc_seq_pos := m, kc_pos := (kc_pos c)[i := p'], kc_shift := (kc_shift c)[i := sh'], kc_has_shift := True\<rparr>"
    have run: "kc_pos_add i d c = Some (if p' < 0 then (True, kc_clear_cell i (?c\<lparr>kc_seq := (kc_seq c)[i := 0]\<rparr>))
        else (False, ?c\<lparr>kc_seq_pos := seq_pos_add (kc_seq c ! i) p' m\<rparr>))"
      using full m(1) s by (simp add: kc_pos_add_def kv_vec_at [OF ok] bind_check Let_def)
    show ?thesis
    proof (cases "p' < 0")
      case p: True
      show ?thesis unfolding run if_P [OF p]
        by (rule kv_sim_write [where p = "-1" and w = 0 and sh = 0])
           (use ok full m(2) s p in \<open>simp_all add: kc_clear_cell_def cell_ok_def\<close>)
    next
      case p: False
      show ?thesis unfolding run if_not_P [OF p]
        by (rule kv_sim_write [where p = p' and w = "kc_seq c ! i" and sh = sh'])
           (use ok full counts_add [OF m(2)] s p kv_okD(5) [OF ok] in \<open>simp_all add: cell_ok_def\<close>)
    qed
  qed
qed (simp_all add: kc_pos_add_def kv_vec_at [OF ok] bind_check)

lemma s32_defined: "s32 v \<noteq> None \<Longrightarrow> s32 v = Some v"
  by (simp add: s32_def split: if_splits)

lemma kc_pos_div_sim:
  assumes ok: "kv_ok c"
  shows "kv_sim (map_option (Pair ()) (kc_pos_div i (int d) c)) (spec_cell i True (cell_pos_div d) (kv_abs c))"
  using ok
proof (cases rule: kv_cases [where i = i])
  case full
  obtain m where m: "seq_pos_rm (kc_seq c ! i) (kc_pos c ! i) (kc_seq_pos c) = Some m"
    "counts m (\<lambda>s q. occ (kc_pos c) (kc_seq c) s q - of_bool (q = kc_pos c ! i \<and> bit (kc_seq c ! i) s))"
    using kv_rm_counts [OF ok full(1)] by blast
  have div: "c_div (kc_pos c ! i) (int d) = kc_pos c ! i div int d" if "d \<noteq> 0"
    using that full by (simp add: c_div_nonneg)
  show ?thesis
  proof (cases "d = 0 \<or> s32 (kc_pos c ! i div int d) = None \<or> s32 (kc_shift c ! i + (kc_pos c ! i - kc_pos c ! i div int d)) = None")
    case True
    show ?thesis
    proof (cases "d = 0 \<or> s32 (kc_pos c ! i div int d) = None")
      case True
      then show ?thesis using full m(1) div by (auto simp: kc_pos_div_def kv_vec_at [OF ok] bind_check)
    next
      case d: False
      then have "s32 (kc_pos c ! i div int d) = Some (kc_pos c ! i div int d)" using s32_defined by simp
      then show ?thesis using True d full m(1) div by (simp add: kc_pos_div_def kv_vec_at [OF ok] bind_check)
    qed
  next
    case False
    let ?p = "kc_pos c ! i div int d"
    obtain sh' where s: "s32 ?p = Some ?p" "s32 (kc_shift c ! i + (kc_pos c ! i - ?p)) = Some sh'" and d: "d \<noteq> 0"
      using False s32_defined [of ?p] by auto
    let ?c = "c\<lparr>kc_pos := (kc_pos c)[i := ?p], kc_shift := (kc_shift c)[i := sh'],
       kc_seq_pos := seq_pos_add (kc_seq c ! i) ?p m, kc_has_shift := True\<rparr>"
    have run: "kc_pos_div i (int d) c = Some ?c"
      using full m(1) s d div by (simp add: kc_pos_div_def kv_vec_at [OF ok] bind_check)
    have ge: "0 \<le> ?p" using full d by (simp add: pos_imp_zdiv_nonneg_iff)
    show ?thesis unfolding run option.map
      by (rule kv_sim_write [where p = ?p and w = "kc_seq c ! i" and sh = sh'])
         (use ok full counts_add [OF m(2)] s d ge kv_okD(5) [OF ok] in \<open>simp_all add: cell_ok_def\<close>)
  qed
qed (simp_all add: kc_pos_div_def kv_vec_at [OF ok] bind_check)


section \<open>Copies and restoring\<close>

text \<open>A snapshot keeps positions and sequences.\<close>

type_synonym snap = "(int \<times> nat set) option list"

definition snap_cell :: "int \<Rightarrow> seq_set \<Rightarrow> (int \<times> nat set) option" where
  "snap_cell p w = (if p = -1 then None else Some (p, seqs_of w))"

definition snap_of :: "llama_kv_cells \<Rightarrow> snap" where
  "snap_of o' = map (\<lambda>j. snap_cell (kc_pos o' ! j) (kc_seq o' ! j)) [0..<kc_size o']"

definition snap_ok :: "llama_kv_cells \<Rightarrow> bool" where
  "snap_ok o' \<longleftrightarrow> length (kc_seq o') = kc_size o' \<and> (\<forall>j<kc_size o'. cell_ok (kc_pos o' ! j) (kc_seq o' ! j) 0)"

definition no_shift :: "cell \<Rightarrow> bool" where
  "no_shift x \<longleftrightarrow> (case x of None \<Rightarrow> True | Some (p, S, sh) \<Rightarrow> sh = 0)"

definition cell_save :: "cell \<Rightarrow> (int \<times> nat set) option" where
  "cell_save x = map_option (\<lambda>(p, S, sh). (p, S)) x"

definition cell_set :: "(int \<times> nat set) option \<Rightarrow> cell \<Rightarrow> (unit \<times> cell) option" where
  "cell_set a x = (if no_shift x then Some ((), map_option (\<lambda>(p, S). (p, S, 0)) a) else None)"

lemma kc_set_cell_sim:
  assumes ok: "kv_ok c" and cell: "cell_ok p w 0"
  shows "kv_sim (map_option (Pair ()) (kc_set_cell i p w c)) (spec_cell i False (cell_set (snap_cell p w)) (kv_abs c))"
proof (cases "i < kc_size c")
  case i: True
  have sh: "no_shift (cell_of (kc_pos c ! i) (kc_seq c ! i) (kc_shift c ! i)) \<longleftrightarrow> kc_shift c ! i = 0"
    using kv_okD(4) [OF ok i] by (auto simp: no_shift_def cell_of_def cell_ok_def)
  obtain m where m: "(if kc_pos c ! i \<noteq> -1 then seq_pos_rm (kc_seq c ! i) (kc_pos c ! i) (kc_seq_pos c) else Some (kc_seq_pos c)) = Some m"
    "counts m (\<lambda>s q. occ (kc_pos c) (kc_seq c) s q - of_bool (q = kc_pos c ! i \<and> bit (kc_seq c ! i) s))"
  proof (cases "kc_pos c ! i = -1")
    case True
    then have "kc_seq c ! i = 0" using kv_okD(4) [OF ok i] by (simp add: cell_ok_def)
    then show ?thesis using that [of "kc_seq_pos c"] True kv_okD(6) [OF ok] by simp
  next
    case False
    then show ?thesis using that kv_rm_counts [OF ok i] by auto
  qed
  show ?thesis
  proof (cases "kc_shift c ! i = 0")
    case True
    let ?used = "if kc_pos c ! i = -1 \<and> p \<noteq> -1 then RBT.insert i () (kc_used c) else kc_used c"
    let ?c = "c\<lparr>kc_used := (if kc_pos c ! i \<noteq> -1 \<and> p = -1 then RBT.delete i ?used else ?used),
        kc_pos := (kc_pos c)[i := p], kc_seq := (kc_seq c)[i := w], kc_seq_pos := (if p \<noteq> -1 then seq_pos_add w p m else m)\<rparr>"
    have run: "kc_set_cell i p w c = Some ?c"
      using i True m(1) by (simp add: kc_set_cell_def kv_vec_at [OF ok] bind_check Let_def)
    have w0: "p = -1 \<Longrightarrow> w = 0" using cell by (simp add: cell_ok_def)
    have counts: "counts (if p \<noteq> -1 then seq_pos_add w p m else m) (\<lambda>s q. occ (kc_pos c) (kc_seq c) s q -
        of_bool (q = kc_pos c ! i \<and> bit (kc_seq c ! i) s) + of_bool (q = p \<and> bit w s))"
      using counts_add [OF m(2), of w p] m(2) w0 by (cases "p = -1") simp_all
    show ?thesis unfolding run option.map
      by (rule kv_sim_write [where p = p and w = w and sh = 0])
         (use ok i cell counts True sh kv_okD(1-3,5) [OF ok] in
          \<open>simp_all add: cell_set_def snap_cell_def cell_of_def list_update_same_conv [THEN iffD2]\<close>)
  next
    case False
    then show ?thesis using i m(1) sh by (simp add: kc_set_cell_def kv_vec_at [OF ok] bind_check cell_set_def Let_def)
  qed
qed (simp add: kc_set_cell_def kv_vec_at [OF ok] bind_check)

text \<open>Loops of simulated writes.\<close>

definition spec_set_list :: "nat list \<Rightarrow> snap \<Rightarrow> acells \<Rightarrow> acells option" where
  "spec_set_list idxs sn a = do {
     check (length idxs = length sn);
     fold_opt (\<lambda>j a. map_option snd (spec_cell (idxs ! j) False (cell_set (sn ! j)) a)) [0..<length sn] a }"

lemma kc_set_list_sim:
  assumes ok: "kv_ok c" and snap: "snap_ok o'"
  shows "kv_sim (map_option (Pair ()) (kc_set_list idxs o' c)) (map_option (Pair ()) (spec_set_list idxs (snap_of o') (kv_abs c)))"
proof -
  have len: "length (snap_of o') = kc_size o'" "length (kc_pos o') = kc_size o'" "length (kc_seq o') = kc_size o'"
    using snap by (simp_all add: snap_of_def kc_size_def snap_ok_def)
  have "kv_sim (map_option (Pair ()) (fold_opt (\<lambda>j c. do { p' \<leftarrow> vec_at (kc_pos o') j; w' \<leftarrow> vec_at (kc_seq o') j; kc_set_cell (idxs ! j) p' w' c }) js c))
      (map_option (Pair ()) (fold_opt (\<lambda>j a. map_option snd (spec_cell (idxs ! j) False (cell_set (snap_of o' ! j)) a)) js (kv_abs c)))"
    if "kv_ok c" "set js \<subseteq> {..<kc_size o'}" for js c
    using that
  proof (induction js arbitrary: c)
    case (Cons j js)
    from Cons.prems have j: "j < kc_size o'" by simp
    let ?s = "spec_cell (idxs ! j) False (cell_set (snap_of o' ! j)) (kv_abs c)"
    have "snap_of o' ! j = snap_cell (kc_pos o' ! j) (kc_seq o' ! j)" using j by (simp add: snap_of_def)
    then have one: "kv_sim (map_option (Pair ()) (kc_set_cell (idxs ! j) (kc_pos o' ! j) (kc_seq o' ! j) c)) ?s"
      using kc_set_cell_sim [OF Cons.prems(1)] snap j by (simp add: snap_ok_def)
    show ?case
    proof (cases "kc_set_cell (idxs ! j) (kc_pos o' ! j) (kc_seq o' ! j) c")
      case None
      then show ?thesis using one j len by simp
    next
      case (Some c')
      then have "kv_ok c'" "?s = Some ((), kv_abs c')" using one by simp_all
      then show ?thesis using Cons.IH [of c'] Cons.prems Some j len by simp
    qed
  qed simp
  from this [OF ok, of "[0..<kc_size o']"] show ?thesis
    unfolding kc_set_list_def spec_set_list_def bind_check len by (cases "length idxs = kc_size o'") (simp_all add: lessThan_atLeast0)
qed

text \<open>A copy is taken where every cell is in range and unshifted.\<close>

definition spec_cp_list :: "acells \<Rightarrow> nat list \<Rightarrow> snap option" where
  "spec_cp_list a idxs =
     (if list_all (\<lambda>i. i < length (snd a) \<and> no_shift (snd a ! i)) idxs
      then Some (map (\<lambda>i. cell_save (snd a ! i)) idxs) else None)"

lemma kc_resize_empty: "kc_size (kc_resize n kv_empty) = n" "length (kc_seq (kc_resize n kv_empty)) = n"
  by (simp_all add: kc_resize_def kc_reset_def kv_empty_def vector_resize_def kc_size_def)

lemma no_shift_cell: "kv_ok c \<Longrightarrow> i < kc_size c \<Longrightarrow> no_shift (cells_of c ! i) \<longleftrightarrow> kc_shift c ! i = 0"
  using kv_okD(4) [of c i] by (auto simp: no_shift_def cell_of_def cell_ok_def)

lemma kc_cp_list_exact:
  assumes ok: "kv_ok c"
  shows "\<not> list_all (\<lambda>i. i < kc_size c \<and> kc_shift c ! i = 0) idxs \<Longrightarrow> kc_cp_list c idxs = None"
    and "list_all (\<lambda>i. i < kc_size c \<and> kc_shift c ! i = 0) idxs \<Longrightarrow>
      \<exists>res. kc_cp_list c idxs = Some res \<and> kc_pos res = map ((!) (kc_pos c)) idxs \<and> kc_seq res = map ((!) (kc_seq c)) idxs"
proof -
  let ?ok = "\<lambda>j. idxs ! j < kc_size c \<and> kc_shift c ! (idxs ! j) = 0"
  let ?body = "\<lambda>j res. do {
         let idx = idxs ! j;
         p \<leftarrow> vec_at (kc_pos c) idx; w \<leftarrow> vec_at (kc_seq c) idx;
         sh \<leftarrow> vec_at (kc_shift c) idx; check (sh = 0);
         Some (res\<lparr>kc_pos := (kc_pos res)[j := p], kc_seq := (kc_seq res)[j := w]\<rparr>) }"
  have body: "?body j res = (if ?ok j then Some (res\<lparr>kc_pos := (kc_pos res)[j := kc_pos c ! (idxs ! j)], kc_seq := (kc_seq res)[j := kc_seq c ! (idxs ! j)]\<rparr>) else None)" for j res
    by (cases "idxs ! j < kc_size c") (simp_all add: kv_vec_at [OF ok] bind_check Let_def)
  have fail: "fold_opt ?body js res = None" if "\<exists>j\<in>set js. \<not> ?ok j" for js res
    using that unfolding body by (induction js arbitrary: res) auto
  show "\<not> list_all (\<lambda>i. i < kc_size c \<and> kc_shift c ! i = 0) idxs \<Longrightarrow> kc_cp_list c idxs = None"
    unfolding kc_cp_list_def by (rule fail) (auto simp: list_all_length)
  assume all: "list_all (\<lambda>i. i < kc_size c \<and> kc_shift c ! i = 0) idxs"
  let ?P = "\<lambda>js res. kc_size res = length idxs \<and> length (kc_seq res) = length idxs \<and>
      (\<forall>j\<in>set js. kc_pos res ! j = kc_pos c ! (idxs ! j) \<and> kc_seq res ! j = kc_seq c ! (idxs ! j))"
  have "\<exists>res. fold_opt ?body [0..<length idxs] (kc_resize (length idxs) kv_empty) = Some res \<and> ?P [0..<length idxs] res"
  proof (rule fold_opt_invariant [where P = ?P])
    fix ys j zs res
    assume split: "[0..<length idxs] = ys @ j # zs" and P: "?P ys res"
    have "j \<in> set [0..<length idxs]" unfolding split by simp
    then have j: "j < length idxs" by simp
    then have "?ok j" using all by (simp add: list_all_length)
    then show "\<exists>res'. ?body j res = Some res' \<and> ?P (ys @ [j]) res'"
      unfolding body using P j by (auto simp: kc_size_def nth_list_update)
  qed (simp add: kc_resize_empty)
  then obtain res where res: "kc_cp_list c idxs = Some res" "?P [0..<length idxs] res" unfolding kc_cp_list_def by blast
  then have "kc_pos res = map ((!) (kc_pos c)) idxs" "kc_seq res = map ((!) (kc_seq c)) idxs"
    by (auto intro!: nth_equalityI simp: kc_size_def)
  with res(1) show "\<exists>res. kc_cp_list c idxs = Some res \<and> kc_pos res = map ((!) (kc_pos c)) idxs \<and> kc_seq res = map ((!) (kc_seq c)) idxs"
    by blast
qed

lemma kc_cp_list_sim:
  assumes ok: "kv_ok c"
  shows "map_option snap_of (kc_cp_list c idxs) = spec_cp_list (kv_abs c) idxs"
    and "kc_cp_list c idxs = Some res \<Longrightarrow> snap_ok res"
proof -
  have cond: "list_all (\<lambda>i. i < length (snd (kv_abs c)) \<and> no_shift (snd (kv_abs c) ! i)) idxs \<longleftrightarrow>
      list_all (\<lambda>i. i < kc_size c \<and> kc_shift c ! i = 0) idxs"
    unfolding list_all_iff kv_abs_def snd_conv cells_of_simps(1) using no_shift_cell [OF ok] by blast
  show "map_option snap_of (kc_cp_list c idxs) = spec_cp_list (kv_abs c) idxs"
  proof (cases "list_all (\<lambda>i. i < kc_size c \<and> kc_shift c ! i = 0) idxs")
    case True
    with kc_cp_list_exact(2) [OF ok True] obtain res where res: "kc_cp_list c idxs = Some res"
      "kc_pos res = map ((!) (kc_pos c)) idxs" "kc_seq res = map ((!) (kc_seq c)) idxs" by blast
    have "snap_of res = map (\<lambda>i. cell_save (snd (kv_abs c) ! i)) idxs"
      by (rule nth_equalityI) (use res(2,3) True in \<open>auto simp: snap_of_def kc_size_def [of res] kv_abs_def list_all_length snap_cell_def cell_save_def cell_of_def\<close>)
    then show ?thesis by (simp add: res(1) spec_cp_list_def cond True)
  qed (simp add: spec_cp_list_def cond kc_cp_list_exact(1) [OF ok])
  assume res: "kc_cp_list c idxs = Some res"
  then have all: "list_all (\<lambda>i. i < kc_size c \<and> kc_shift c ! i = 0) idxs" using kc_cp_list_exact(1) [OF ok, of idxs] by auto
  then have "kc_pos res = map ((!) (kc_pos c)) idxs" "kc_seq res = map ((!) (kc_seq c)) idxs"
    using kc_cp_list_exact(2) [OF ok all] res by auto
  then show "snap_ok res" using all kv_okD(4) [OF ok] by (auto simp: snap_ok_def kc_size_def [of res] list_all_length cell_ok_def)
qed

end
