(* ===== verification/KV_Cells_Spec.thy ===== *)
theory KV_Cells_Spec
  imports KV_Cells_Inv
begin

text \<open>
  The class \<open>llama_kv_cells\<close> as a whole: every operation and query on the cells and on saved copies
  of them, against a specification that only knows the list of cells. The interpretation of
  \<open>functional_refinement\<close> carries it to every sequence of calls, failed asserts included.
\<close>

section \<open>Calls\<close>

datatype kv_res = Ack | Flag bool | Val int

datatype kv_op =
    K_reset | K_reset_shift | K_resize nat
  | K_rm nat | K_seq_rm nat int | K_seq_keep nat int | K_seq_add nat int
  | K_pos_set nat int | K_pos_add nat int | K_pos_div nat int
  | K_cp nat nat | K_cp_list "nat list" | K_set nat nat | K_set_list "nat list" nat
  | K_size | K_has_shift | K_get_used | K_used_min | K_used_max_p1 | K_is_empty nat
  | K_seq_count nat | K_seq_has nat int | K_seq_get nat | K_seq_pos_min int | K_seq_pos_max int
  | K_pos_get nat | K_get_shift nat | K_pos_in nat int int

text \<open>The state has the cells and the copies taken so far; \<open>K_set\<close> names a copy by its index.\<close>

type_synonym kv_state = "llama_kv_cells \<times> llama_kv_cells list"

definition on_cells :: "('r \<Rightarrow> kv_res) \<Rightarrow> ('r \<times> 'c) option \<Rightarrow> 'o list \<Rightarrow> (kv_res \<times> 'c \<times> 'o list) option" where
  "on_cells f x os = map_option (\<lambda>(r, c). (f r, c, os)) x"

definition ack :: "'c option \<Rightarrow> 'o list \<Rightarrow> (kv_res \<times> 'c \<times> 'o list) option" where
  "ack x os = map_option (\<lambda>c. (Ack, c, os)) x"

definition answer :: "('v \<Rightarrow> kv_res) \<Rightarrow> 'v option \<Rightarrow> 's \<Rightarrow> (kv_res \<times> 's) option" where
  "answer f x st = map_option (\<lambda>v. (f v, st)) x"

text \<open>
  A step fails where the method asserts or is undefined, and where a call is outside the contract of the class that it does
  not assert: setting a negative position, or dividing by a negative number (the cell would be occupied but read as empty).
\<close>

fun kv_step :: "kv_op \<Rightarrow> kv_state \<Rightarrow> (kv_res \<times> kv_state) option" where
  "kv_step K_reset (c, os) = ack (Some (kc_reset c)) os"
| "kv_step K_reset_shift (c, os) = ack (Some (kc_reset_shift c)) os"
| "kv_step (K_resize n) (c, os) = ack (Some (kc_resize n c)) os"
| "kv_step (K_rm i) (c, os) = ack (kc_rm i c) os"
| "kv_step (K_seq_rm i s) (c, os) = on_cells Flag (kc_seq_rm i s c) os"
| "kv_step (K_seq_keep i s) (c, os) = on_cells Flag (kc_seq_keep i s c) os"
| "kv_step (K_seq_add i s) (c, os) = ack (kc_seq_add i s c) os"
| "kv_step (K_pos_set i p) (c, os) = do { check (0 \<le> p); ack (kc_pos_set i p c) os }"
| "kv_step (K_pos_add i d) (c, os) = on_cells Flag (kc_pos_add i d c) os"
| "kv_step (K_pos_div i d) (c, os) = do { check (0 \<le> d); ack (kc_pos_div i d c) os }"
| "kv_step (K_cp i n) (c, os) = map_option (\<lambda>o'. (Ack, c, os @ [o'])) (kc_cp c i n)"
| "kv_step (K_cp_list idxs) (c, os) = map_option (\<lambda>o'. (Ack, c, os @ [o'])) (kc_cp_list c idxs)"
| "kv_step (K_set i k) (c, os) = do { o' \<leftarrow> vec_at os k; ack (kc_set i o' c) os }"
| "kv_step (K_set_list idxs k) (c, os) = do { o' \<leftarrow> vec_at os k; ack (kc_set_list idxs o' c) os }"
| "kv_step K_size (c, os) = answer Val (Some (int (kc_size c))) (c, os)"
| "kv_step K_has_shift (c, os) = answer Flag (Some (kc_has_shift c)) (c, os)"
| "kv_step K_get_used (c, os) = answer Val (Some (int (kc_get_used c))) (c, os)"
| "kv_step K_used_min (c, os) = answer Val (Some (int (kc_used_min c))) (c, os)"
| "kv_step K_used_max_p1 (c, os) = answer Val (Some (int (kc_used_max_p1 c))) (c, os)"
| "kv_step (K_is_empty i) (c, os) = answer Flag (kc_is_empty c i) (c, os)"
| "kv_step (K_seq_count i) (c, os) = answer (Val \<circ> int) (kc_seq_count c i) (c, os)"
| "kv_step (K_seq_has i s) (c, os) = answer Flag (kc_seq_has c i s) (c, os)"
| "kv_step (K_seq_get i) (c, os) = answer Val (kc_seq_get c i) (c, os)"
| "kv_step (K_seq_pos_min s) (c, os) = answer Val (kc_seq_pos_min c s) (c, os)"
| "kv_step (K_seq_pos_max s) (c, os) = answer Val (kc_seq_pos_max c s) (c, os)"
| "kv_step (K_pos_get i) (c, os) = answer Val (kc_pos_get c i) (c, os)"
| "kv_step (K_get_shift i) (c, os) = answer Val (kc_get_shift c i) (c, os)"
| "kv_step (K_pos_in i p0 p1) (c, os) = answer Flag (kc_pos_in c i p0 p1) (c, os)"

section \<open>Specification\<close>

type_synonym kv_spec_state = "acells \<times> snap list"

text \<open>What the queries answer from the list of cells.\<close>

definition used_cells :: "cell list \<Rightarrow> nat set" where
  "used_cells cs = {i. i < length cs \<and> cs ! i \<noteq> None}"

definition seq_positions :: "cell list \<Rightarrow> nat \<Rightarrow> int set" where
  "seq_positions cs s = {p. \<exists>i S sh. i < length cs \<and> cs ! i = Some (p, S, sh) \<and> s \<in> S}"

fun cell_pos :: "cell \<Rightarrow> int option" where
  "cell_pos None = None"
| "cell_pos (Some (p, S, sh)) = Some p"

fun cell_seqs :: "cell \<Rightarrow> nat set" where
  "cell_seqs None = {}"
| "cell_seqs (Some (p, S, sh)) = S"

fun cell_shift :: "cell \<Rightarrow> int option" where
  "cell_shift None = None"
| "cell_shift (Some (p, S, sh)) = Some sh"

definition spec_set :: "snap list \<Rightarrow> nat list \<Rightarrow> nat \<Rightarrow> acells \<Rightarrow> (kv_res \<times> kv_spec_state) option" where
  "spec_set ss idxs k a = do { sn \<leftarrow> vec_at ss k; ack (spec_set_list idxs sn a) ss }"

definition cell_range :: "nat \<Rightarrow> nat \<Rightarrow> nat list" where
  "cell_range i n = map (\<lambda>j. i + j) [0..<n]"

fun kv_spec :: "kv_op \<Rightarrow> kv_spec_state \<Rightarrow> (kv_res \<times> kv_spec_state) option" where
  "kv_spec K_reset ((h, cs), ss) = ack (Some (False, map (\<lambda>_. None) cs)) ss"
| "kv_spec K_reset_shift ((h, cs), ss) = ack (Some (False, map (map_option (\<lambda>(p, S, _). (p, S, 0))) cs)) ss"
| "kv_spec (K_resize n) ((h, cs), ss) = ack (Some (False, replicate n None)) ss"
| "kv_spec (K_rm i) (a, ss) = on_cells (\<lambda>_. Ack) (spec_cell i False cell_rm a) ss"
| "kv_spec (K_seq_rm i s) (a, ss) = on_cells Flag (spec_cell i False (cell_seq_rm s) a) ss"
| "kv_spec (K_seq_keep i s) (a, ss) = on_cells Flag (spec_cell i False (cell_seq_keep s) a) ss"
| "kv_spec (K_seq_add i s) (a, ss) = on_cells (\<lambda>_. Ack) (spec_cell i False (cell_seq_add s) a) ss"
| "kv_spec (K_pos_set i p) (a, ss) = do { check (0 \<le> p); on_cells (\<lambda>_. Ack) (spec_cell i False (cell_pos_set (nat p)) a) ss }"
| "kv_spec (K_pos_add i d) (a, ss) = on_cells Flag (spec_cell i True (cell_pos_add d) a) ss"
| "kv_spec (K_pos_div i d) (a, ss) = do { check (0 \<le> d); on_cells (\<lambda>_. Ack) (spec_cell i True (cell_pos_div (nat d)) a) ss }"
| "kv_spec (K_cp i n) (a, ss) = map_option (\<lambda>sn. (Ack, a, ss @ [sn])) (do { check (i + n \<le> length (snd a)); spec_cp_list a (cell_range i n) })"
| "kv_spec (K_cp_list idxs) (a, ss) = map_option (\<lambda>sn. (Ack, a, ss @ [sn])) (spec_cp_list a idxs)"
| "kv_spec (K_set i k) (a, ss) = do {
     sn \<leftarrow> vec_at ss k; check (i + length sn \<le> length (snd a)); spec_set ss (cell_range i (length sn)) k a }"
| "kv_spec (K_set_list idxs k) (a, ss) = spec_set ss idxs k a"
| "kv_spec K_size (a, ss) = answer Val (Some (int (length (snd a)))) (a, ss)"
| "kv_spec K_has_shift (a, ss) = answer Flag (Some (fst a)) (a, ss)"
| "kv_spec K_get_used (a, ss) = answer Val (Some (int (card (used_cells (snd a))))) (a, ss)"
| "kv_spec K_used_min (a, ss) = answer Val (Some (let U = used_cells (snd a) in if U = {} then 0 else int (Min U))) (a, ss)"
| "kv_spec K_used_max_p1 (a, ss) = answer Val (Some (let U = used_cells (snd a) in if U = {} then 0 else int (Max U) + 1)) (a, ss)"
| "kv_spec (K_is_empty i) (a, ss) = answer Flag (do { x \<leftarrow> vec_at (snd a) i; Some (x = None) }) (a, ss)"
| "kv_spec (K_seq_count i) (a, ss) = answer (Val \<circ> int) (do { x \<leftarrow> vec_at (snd a) i; check (x \<noteq> None); Some (card (cell_seqs x)) }) (a, ss)"
| "kv_spec (K_seq_has i s) (a, ss) = answer Flag (do { x \<leftarrow> vec_at (snd a) i; check (seq_id_ok s); Some (nat s \<in> cell_seqs x) }) (a, ss)"
| "kv_spec (K_seq_get i) (a, ss) = answer Val (do { x \<leftarrow> vec_at (snd a) i; check (card (cell_seqs x) = 1); Some (int (Min (cell_seqs x))) }) (a, ss)"
| "kv_spec (K_seq_pos_min s) (a, ss) = answer Val (do { check (seq_id_ok s);
     let P = seq_positions (snd a) (nat s); Some (if P = {} then -1 else Min P) }) (a, ss)"
| "kv_spec (K_seq_pos_max s) (a, ss) = answer Val (do { check (seq_id_ok s);
     let P = seq_positions (snd a) (nat s); Some (if P = {} then -1 else Max P) }) (a, ss)"
| "kv_spec (K_pos_get i) (a, ss) = answer Val (do { x \<leftarrow> vec_at (snd a) i; cell_pos x }) (a, ss)"
| "kv_spec (K_get_shift i) (a, ss) = answer Val (do { x \<leftarrow> vec_at (snd a) i; cell_shift x }) (a, ss)"
| "kv_spec (K_pos_in i p0 p1) (a, ss) = answer Flag (do { x \<leftarrow> vec_at (snd a) i;
     Some (let p = (case cell_pos x of None \<Rightarrow> -1 | Some p \<Rightarrow> p) in p0 \<le> p \<and> p < p1) }) (a, ss)"

section \<open>Queries\<close>

lemma sorted_ends:
  "sorted xs \<Longrightarrow> xs \<noteq> [] \<Longrightarrow> Min (set xs) = hd xs" "sorted xs \<Longrightarrow> xs \<noteq> [] \<Longrightarrow> Max (set xs) = last xs"
proof -
  assume s: "sorted xs" "xs \<noteq> []"
  show "Min (set xs) = hd xs"
    by (rule Min_eqI) (use s in \<open>auto simp: neq_Nil_conv\<close>)
  show "Max (set xs) = last xs"
  proof (rule Max_eqI)
    fix y assume "y \<in> set xs"
    then obtain i where "i < length xs" "y = xs ! i" by (auto simp: in_set_conv_nth)
    then show "y \<le> last xs" using s sorted_nth_mono [OF s(1), of i "length xs - 1"] by (simp add: last_conv_nth)
  qed (use s in auto)
qed

lemma entries_dom: "fst ` set (RBT.entries t) = dom (RBT.lookup t)"
  by (auto simp: RBT.lookup_in_tree dom_def image_iff) force

lemma keys_dom: "set (RBT.keys t) = dom (RBT.lookup t)"
  by (auto simp: RBT.keys_entries RBT.lookup_in_tree dom_def)

text \<open>The first and last entry of a map.\<close>

lemma entries_ends:
  shows "RBT.entries t = [] \<longleftrightarrow> dom (RBT.lookup t) = {}"
    and "RBT.entries t = (p, n) # es \<Longrightarrow> p = Min (dom (RBT.lookup t)) \<and> RBT.lookup t p = Some n"
    and "RBT.entries t \<noteq> [] \<Longrightarrow> fst (last (RBT.entries t)) = Max (dom (RBT.lookup t)) \<and>
      RBT.lookup t (fst (last (RBT.entries t))) = Some (snd (last (RBT.entries t)))"
proof -
  show "RBT.entries t = [] \<longleftrightarrow> dom (RBT.lookup t) = {}" unfolding entries_dom [symmetric] by simp
  show "RBT.entries t = (p, n) # es \<Longrightarrow> p = Min (dom (RBT.lookup t)) \<and> RBT.lookup t p = Some n"
    using sorted_ends(1) [OF RBT.sorted_entries [of t]] entries_dom [of t] by (simp add: RBT.lookup_in_tree)
  assume ne: "RBT.entries t \<noteq> []"
  have "last (map fst (RBT.entries t)) = Max (set (map fst (RBT.entries t)))"
    using sorted_ends(2) [OF RBT.sorted_entries [of t]] ne by simp
  moreover have "last (RBT.entries t) \<in> set (RBT.entries t)" using ne by simp
  ultimately show "fst (last (RBT.entries t)) = Max (dom (RBT.lookup t)) \<and>
      RBT.lookup t (fst (last (RBT.entries t))) = Some (snd (last (RBT.entries t)))"
    unfolding RBT.lookup_in_tree prod.collapse using ne by (simp add: last_map entries_dom)
qed

lemma used_dom: "kv_ok c \<Longrightarrow> dom (RBT.lookup (kc_used c)) = used_cells (cells_of c)"
  by (auto simp: used_cells_def dom_def kv_okD(5) cell_of_def)

lemma used_queries:
  assumes ok: "kv_ok c"
  shows "kc_get_used c = card (used_cells (cells_of c))"
    and "kc_used_min c = (let U = used_cells (cells_of c) in if U = {} then 0 else Min U)"
    and "kc_used_max_p1 c = (let U = used_cells (cells_of c) in if U = {} then 0 else Max U + 1)"
proof -
  have keys: "set (RBT.keys (kc_used c)) = used_cells (cells_of c)" by (simp add: keys_dom used_dom [OF ok])
  then have nil: "RBT.keys (kc_used c) = [] \<longleftrightarrow> used_cells (cells_of c) = {}" by (metis set_empty)
  show "kc_get_used c = card (used_cells (cells_of c))"
    unfolding kc_get_used_def keys [symmetric] by (simp add: distinct_card)
  show "kc_used_min c = (let U = used_cells (cells_of c) in if U = {} then 0 else Min U)"
    using sorted_ends(1) [OF RBT.sorted_keys [of "kc_used c"]] nil unfolding kc_used_min_def keys Let_def
    by (auto split: list.splits)
  show "kc_used_max_p1 c = (let U = used_cells (cells_of c) in if U = {} then 0 else Max U + 1)"
    using sorted_ends(2) [OF RBT.sorted_keys [of "kc_used c"]] nil unfolding kc_used_max_p1_def keys Let_def by simp
qed

lemma seq_pos_dom:
  assumes ok: "kv_ok c"
  shows "dom (RBT.lookup (kc_seq_pos c s)) = seq_positions (cells_of c) s"
proof -
  have "0 < occ (kc_pos c) (kc_seq c) s p \<longleftrightarrow> (\<exists>i<kc_size c. kc_pos c ! i = p \<and> bit (kc_seq c ! i) s)" for p
    unfolding occ_def card_gt_0_iff using kv_okD(3) [OF ok] by auto
  moreover have "kc_pos c ! i \<noteq> -1" if "i < kc_size c" "bit (kc_seq c ! i) s" for i
    using kv_okD(4) [OF ok that(1)] that(2) by (auto simp: cell_ok_def)
  ultimately show ?thesis
    unfolding dom_def countsD [OF kv_okD(6) [OF ok]] by (auto simp: seq_positions_def cell_of_def split: if_splits)
qed

lemma seq_pos_queries:
  assumes ok: "kv_ok c"
  shows "kc_seq_pos_min c s = do { check (seq_id_ok s);
      let P = seq_positions (cells_of c) (nat s); Some (if P = {} then -1 else Min P) }"
    and "kc_seq_pos_max c s = do { check (seq_id_ok s);
      let P = seq_positions (cells_of c) (nat s); Some (if P = {} then -1 else Max P) }"
proof -
  let ?t = "kc_seq_pos c (nat s)"
  have pos: "0 < n" if "RBT.lookup ?t p = Some n" for p n
    using that countsD [OF kv_okD(6) [OF ok], of "nat s" p] by (simp split: if_splits)
  note ends = entries_ends [of ?t, unfolded seq_pos_dom [OF ok]]
  show "kc_seq_pos_min c s = do { check (seq_id_ok s);
      let P = seq_positions (cells_of c) (nat s); Some (if P = {} then -1 else Min P) }"
    using ends(1,2) pos unfolding kc_seq_pos_min_def seq_id_ok_def bind_check Let_def
    by (cases "RBT.entries ?t") auto
  show "kc_seq_pos_max c s = do { check (seq_id_ok s);
      let P = seq_positions (cells_of c) (nat s); Some (if P = {} then -1 else Max P) }"
    using ends(1,3) pos unfolding kc_seq_pos_max_def seq_id_ok_def bind_check Let_def by auto
qed


section \<open>Refinement\<close>

lemma seq_count_card: "seq_count w = card (seqs_of w)"
proof -
  have "set (filter (bit w) [0..<LLAMA_MAX_SEQ]) = seqs_of w" by (auto simp: seqs_of_def bit_seq_set)
  then show ?thesis using distinct_card [of "filter (bit w) [0..<LLAMA_MAX_SEQ]"] by (simp add: seq_count_def)
qed

lemma filter_bits: "filter (bit w) [0..<LLAMA_MAX_SEQ] = s # ss \<Longrightarrow> s = Min (seqs_of w)"
proof -
  assume f: "filter (bit w) [0..<LLAMA_MAX_SEQ] = s # ss"
  have "set (filter (bit w) [0..<LLAMA_MAX_SEQ]) = seqs_of w" by (auto simp: seqs_of_def bit_seq_set)
  moreover have "sorted (filter (bit w) [0..<LLAMA_MAX_SEQ])" by (simp add: sorted_wrt_filter)
  ultimately show ?thesis using sorted_ends(1) [of "filter (bit w) [0..<LLAMA_MAX_SEQ]"] f by simp
qed

definition kv_state_ok :: "kv_state \<Rightarrow> bool" where
  "kv_state_ok st \<longleftrightarrow> kv_ok (fst st) \<and> list_all snap_ok (snd st)"

definition kv_state_abs :: "kv_state \<Rightarrow> kv_spec_state" where
  "kv_state_abs st = (kv_abs (fst st), map snap_of (snd st))"

abbreviation state_sim :: "(kv_res \<times> kv_state) option \<Rightarrow> (kv_res \<times> kv_spec_state) option \<Rightarrow> bool" where
  "state_sim \<equiv> sim kv_state_ok kv_state_abs"

text \<open>A simulated operation on the cells is one on the state; a query leaves it alone.\<close>

lemma on_cells_sim:
  assumes "kv_sim x y" "list_all snap_ok os"
  shows "state_sim (on_cells f x os) (on_cells f y (map snap_of os))"
  using assms by (cases x) (auto simp: on_cells_def kv_state_ok_def kv_state_abs_def)

lemma ack_sim:
  assumes "kv_sim (map_option (Pair ()) x) y" "list_all snap_ok os"
  shows "state_sim (ack x os) (on_cells (\<lambda>_. Ack) y (map snap_of os))"
  using assms by (cases x) (auto simp: on_cells_def ack_def kv_state_ok_def kv_state_abs_def)

lemma ack_sim_spec:
  assumes "kv_sim (map_option (Pair ()) x) (map_option (Pair ()) y)" "list_all snap_ok os"
  shows "state_sim (ack x os) (ack y (map snap_of os))"
  using assms by (cases x) (auto simp: ack_def kv_state_ok_def kv_state_abs_def)

lemma answer_sim:
  assumes "kv_ok c" "list_all snap_ok os" "x = y"
  shows "state_sim (answer f x (c, os)) (answer f y (kv_abs c, map snap_of os))"
  using assms by (cases x) (auto simp: answer_def kv_state_ok_def kv_state_abs_def)

lemma cp_sim:
  assumes "kv_ok c" "list_all snap_ok os" "map_option snap_of x = y" "\<And>o'. x = Some o' \<Longrightarrow> snap_ok o'"
  shows "state_sim (map_option (\<lambda>o'. (Ack, c, os @ [o'])) x) (map_option (\<lambda>sn. (Ack, kv_abs c, map snap_of os @ [sn])) y)"
  using assms by (cases x) (auto simp: kv_state_ok_def kv_state_abs_def)

text \<open>The operations that rebuild all the cells.\<close>

lemma kc_reset_shift_sim:
  assumes ok: "kv_ok c"
  shows "kv_ok (kc_reset_shift c) \<and> kv_abs (kc_reset_shift c) = (False, map (map_option (\<lambda>(p, S, _). (p, S, 0))) (cells_of c))"
proof -
  have "cells_of (kc_reset_shift c) = map (map_option (\<lambda>(p, S, _). (p, S, 0))) (cells_of c)"
    using kv_okD(1) [OF ok] by (auto simp: cells_of_def kc_reset_shift_def kc_size_def cell_of_def)
  moreover have "kv_ok (kc_reset_shift c)"
    using ok by (auto simp: kv_ok_def kc_reset_shift_def kc_size_def cell_ok_def)
  ultimately show ?thesis by (simp add: kv_abs_def kc_reset_shift_def)
qed

lemma cleared_ok:
  assumes len: "length (kc_shift c) = kc_size c" "length (kc_seq c) = kc_size c"
    and far: "\<And>s. LLAMA_MAX_SEQ \<le> s \<Longrightarrow> kc_seq_pos c s = RBT.empty"
  shows "kv_ok (kc_reset c) \<and> kv_abs (kc_reset c) = (False, replicate (kc_size c) None)"
proof -
  have n: "kc_size (kc_reset c) = kc_size c" by (simp add: kc_reset_def kc_size_def)
  have "cells_of (kc_reset c) = replicate (kc_size c) None"
    by (rule nth_equalityI) (use len in \<open>auto simp: n\<close>, simp add: kc_reset_def kc_size_def)
  moreover have "occ (kc_pos (kc_reset c)) (kc_seq (kc_reset c)) s p = 0" for s p
    unfolding occ_def using len by (auto simp: kc_reset_def kc_size_def)
  then have "counts (kc_seq_pos (kc_reset c)) (occ (kc_pos (kc_reset c)) (kc_seq (kc_reset c)))"
    using far by (simp add: counts_def kc_reset_def not_less)
  ultimately show ?thesis using len
    by (simp add: kv_ok_def n kv_abs_def) (auto simp: kc_reset_def kc_size_def cell_ok_def)
qed

lemma far_empty:
  assumes "kv_ok c" "LLAMA_MAX_SEQ \<le> s"
  shows "kc_seq_pos c s = RBT.empty"
proof -
  have "\<not> bit (w :: seq_set) s" for w using bit_seq_set [of w s] assms(2) by auto
  then have "dom (RBT.lookup (kc_seq_pos c s)) = {}"
    unfolding seq_pos_dom [OF assms(1)] by (auto simp: seq_positions_def cell_of_def split: if_splits)
  then show ?thesis by simp
qed


lemma kv_step_sim:
  assumes "kv_state_ok st"
  shows "state_sim (kv_step op st) (kv_spec op (kv_state_abs st))"
proof -
  obtain c os where st: "st = (c, os)" by fastforce
  have ok: "kv_ok c" and snaps: "list_all snap_ok os" using assms by (simp_all add: st kv_state_ok_def)
  have abs: "kv_state_abs (c, os) = (kv_abs c, map snap_of os)" by (simp add: kv_state_abs_def)
  have pair: "kv_abs c = (kc_has_shift c, cells_of c)" by (simp add: kv_abs_def)
  have len: "length (snd (kv_abs c)) = kc_size c" by (simp add: pair)
  have snd_kv: "snd (kv_abs c) = cells_of c" and fst_kv: "fst (kv_abs c) = kc_has_shift c" by (simp_all add: pair)
  note cells = on_cells_sim [OF _ snaps] ack_sim [OF _ snaps] answer_sim [OF ok snaps] cp_sim [OF ok snaps]
  have at: "vec_at (snd (kv_abs c)) i = (if i < kc_size c then Some (cell_of (kc_pos c ! i) (kc_seq c ! i) (kc_shift c ! i)) else None)" for i
    by (simp add: pair vec_at_def)
  have range: "map (\<lambda>j. i + j) [0..<n] = cell_range i n" for i n by (simp add: cell_range_def)
  have snap: "vec_at (map snap_of os) k = map_option snap_of (vec_at os k)" for k by (simp add: vec_at_def)
  have set_list: "state_sim (do { o' \<leftarrow> vec_at os k; ack (kc_set_list (f o') o' c) os }) (do { sn \<leftarrow> vec_at (map snap_of os) k; ack (spec_set_list (g sn) sn (kv_abs c)) (map snap_of os) })"
    if "\<And>o'. g (snap_of o') = f o'" for f g k
  proof (cases "vec_at os k")
    case (Some o')
    then have "snap_ok o'" using snaps by (auto simp: vec_at_def list_all_length split: if_splits)
    from ack_sim_spec [OF kc_set_list_sim [OF ok this] snaps] show ?thesis by (simp add: Some snap that)
  qed (simp add: snap)
  have size: "length (snap_of o') = length (kc_pos o')" for o' by (simp add: snap_of_def kc_size_def)
  have resized: "kv_ok (kc_resize n c) \<and> kv_abs (kc_resize n c) = (False, replicate n None)" for n
  proof -
    let ?c = "c\<lparr>kc_pos := vector_resize n 0 (kc_pos c), kc_shift := vector_resize n 0 (kc_shift c), kc_seq := vector_resize n 0 (kc_seq c)\<rparr>"
    have l: "length (vector_resize n v xs) = n" for v :: 'v and xs by (simp add: vector_resize_def)
    have "kv_ok (kc_reset ?c) \<and> kv_abs (kc_reset ?c) = (False, replicate (kc_size ?c) None)"
      by (rule cleared_ok) (use far_empty [OF ok] in \<open>simp_all add: kc_size_def vector_resize_def\<close>)
    moreover have "kc_size ?c = n" by (simp add: kc_size_def vector_resize_def)
    ultimately show ?thesis by (simp add: kc_resize_def)
  qed
  show ?thesis
  proof (cases op)
    case K_reset
    have "kv_ok (kc_reset c) \<and> kv_abs (kc_reset c) = (False, map (\<lambda>_. None) (cells_of c))"
      using cleared_ok [OF kv_okD(1) [OF ok] kv_okD(2) [OF ok] far_empty [OF ok]] by (simp add: map_replicate_const)
    then show ?thesis using snaps unfolding st abs pair by (simp add: K_reset ack_def kv_state_ok_def kv_state_abs_def)
  next
    case (K_pos_set i p)
    show ?thesis
    proof (cases "0 \<le> p")
      case True
      then show ?thesis using kc_pos_set_sim [OF ok, of i "nat p"] unfolding st abs K_pos_set by (simp add: cells)
    qed (simp add: st abs K_pos_set)
  next
    case (K_pos_div i d)
    show ?thesis
    proof (cases "0 \<le> d")
      case True
      then show ?thesis using kc_pos_div_sim [OF ok, of i "nat d"] unfolding st abs K_pos_div by (simp add: cells)
    qed (simp add: st abs K_pos_div)
  next
    case K_reset_shift
    then show ?thesis using kc_reset_shift_sim [OF ok] snaps unfolding st abs pair by (simp add: ack_def kv_state_ok_def kv_state_abs_def)
  next
    case (K_resize n)
    then show ?thesis using resized [of n] snaps unfolding st abs pair by (simp add: ack_def kv_state_ok_def kv_state_abs_def)
  next
    case (K_cp i n)
    then show ?thesis unfolding st abs kv_step.simps kv_spec.simps
      by (auto intro!: cells simp: kc_cp_def range len bind_check kc_cp_list_sim [OF ok] split: if_splits)
  next
    case (K_cp_list idxs)
    then show ?thesis unfolding st abs by (auto intro!: cells simp: kc_cp_list_sim [OF ok])
  next
    case (K_set i k)
    show ?thesis
    proof (cases "vec_at os k")
      case (Some o')
      then show ?thesis using set_list [of "\<lambda>sn. cell_range i (length sn)" "\<lambda>o'. cell_range i (length (kc_pos o'))" k]
        unfolding st abs K_set by (simp add: kc_set_def snap spec_set_def range size len bind_check ack_def)
    qed (simp add: st abs K_set snap)
  next
    case (K_set_list idxs k)
    then show ?thesis unfolding st abs K_set_list using set_list [of "\<lambda>_. idxs" "\<lambda>_. idxs" k] by (simp add: spec_set_def)
  next
    case (K_is_empty i)
    have "kc_is_empty c i = do { x \<leftarrow> vec_at (snd (kv_abs c)) i; Some (x = None) }"
      unfolding at using kv_okD(4) [OF ok, of i] by (auto simp: kc_is_empty_def kv_vec_at [OF ok] bind_check cell_of_def cell_ok_def)
    then show ?thesis unfolding st abs K_is_empty kv_step.simps kv_spec.simps by (rule cells)
  next
    case (K_seq_get i)
    have "kc_seq_get c i = do { x \<leftarrow> vec_at (snd (kv_abs c)) i; check (card (cell_seqs x) = 1); Some (int (Min (cell_seqs x))) }"
    proof (cases "i < kc_size c")
      case True
      have "cell_seqs (cell_of (kc_pos c ! i) (kc_seq c ! i) (kc_shift c ! i)) = seqs_of (kc_seq c ! i)"
        using kv_okD(4) [OF ok True] by (auto simp: cell_of_def cell_ok_def)
      moreover have "filter (bit (kc_seq c ! i)) [0..<LLAMA_MAX_SEQ] \<noteq> []" if "seq_count (kc_seq c ! i) = 1"
        using that by (auto simp: seq_count_def)
      ultimately show ?thesis unfolding at using True
        by (auto simp: kc_seq_get_def kv_vec_at [OF ok] bind_check seq_count_card split: list.splits dest: filter_bits)
    qed (simp add: at kc_seq_get_def kv_okD(2) [OF ok])
    then show ?thesis unfolding st abs K_seq_get kv_step.simps kv_spec.simps by (rule cells)
  next
    case (K_seq_count i)
    have "kc_seq_count c i = do { x \<leftarrow> vec_at (snd (kv_abs c)) i; check (x \<noteq> None); Some (card (cell_seqs x)) }"
      unfolding at by (auto simp: kc_seq_count_def kv_vec_at [OF ok] bind_check cell_of_def seq_count_card)
    then show ?thesis unfolding st abs K_seq_count kv_step.simps kv_spec.simps by (rule cells)
  next
    case (K_seq_has i s)
    have "kc_seq_has c i s = do { x \<leftarrow> vec_at (snd (kv_abs c)) i; check (seq_id_ok s); Some (nat s \<in> cell_seqs x) }"
      unfolding at using kv_okD(4) [OF ok, of i]
      by (auto simp: kc_seq_has_def kv_vec_at [OF ok] bind_check cell_of_def cell_ok_def seq_test_simps) (auto simp: seq_id_ok_def)
    then show ?thesis unfolding st abs K_seq_has kv_step.simps kv_spec.simps by (rule cells)
  next
    case (K_pos_get i)
    have "kc_pos_get c i = do { x \<leftarrow> vec_at (snd (kv_abs c)) i; cell_pos x }"
      unfolding at by (auto simp: kc_pos_get_def kv_vec_at [OF ok] bind_check cell_of_def)
    then show ?thesis unfolding st abs K_pos_get kv_step.simps kv_spec.simps by (rule cells)
  next
    case (K_get_shift i)
    have "kc_get_shift c i = do { x \<leftarrow> vec_at (snd (kv_abs c)) i; cell_shift x }"
      unfolding at by (auto simp: kc_get_shift_def kv_vec_at [OF ok] bind_check cell_of_def)
    then show ?thesis unfolding st abs K_get_shift kv_step.simps kv_spec.simps by (rule cells)
  next
    case (K_pos_in i p0 p1)
    have "kc_pos_in c i p0 p1 = do { x \<leftarrow> vec_at (snd (kv_abs c)) i;
       Some (let p = (case cell_pos x of None \<Rightarrow> -1 | Some p \<Rightarrow> p) in p0 \<le> p \<and> p < p1) }"
      unfolding at by (auto simp: kc_pos_in_def kv_vec_at [OF ok] cell_of_def Let_def)
    then show ?thesis unfolding st abs K_pos_in kv_step.simps kv_spec.simps by (rule cells)
  qed (auto simp: st abs Let_def used_queries [OF ok] seq_pos_queries [OF ok] len snd_kv fst_kv
      intro!: cells kc_rm_sim [OF ok] kc_seq_rm_sim [OF ok] kc_seq_keep_sim [OF ok] kc_seq_add_sim [OF ok]
        kc_pos_add_sim [OF ok])
qed


interpretation kv: functional_refinement kv_state_ok kv_state_abs kv_step kv_spec
  by unfold_locales (rule kv_step_sim)

lemma kv_start: "kv_state_ok (kv_empty, [])" "kv_state_abs (kv_empty, []) = ((False, []), [])"
  by (simp_all add: kv_state_ok_def kv_state_abs_def kv_abs_def kv_ok_def kv_empty_def kc_size_def cells_of_def counts_def occ_def)

text \<open>
  C16: every sequence of calls on new cells, copies and queries included, answers what the list of
  cells answers, ends in the cells the list ends in, and fails exactly where the list does.
\<close>

theorem kv_cells_refine:
  "map_option (map_prod id kv_state_abs) (run_ops kv_step ops (kv_empty, [])) = run_ops kv_spec ops ((False, []), [])"
  using kv.run_refines [OF kv_start(1)] unfolding kv_start(2) .

text \<open>
  C17: after every sequence of calls, \<open>used\<close> holds exactly the indices of the occupied cells, and
  \<open>seq_pos\<close> holds for every sequence and position the number of cells it occurs in, and no entry
  for positions that do not occur.
\<close>

theorem kv_cells_invariant:
  "pred_option (\<lambda>(rs, c, os).
     (\<forall>i. RBT.lookup (kc_used c) i = (if i < kc_size c \<and> kc_pos c ! i \<noteq> -1 then Some () else None)) \<and>
     (\<forall>s p. RBT.lookup (kc_seq_pos c s) p =
        (let n = card {i. i < kc_size c \<and> kc_pos c ! i = p \<and> bit (kc_seq c ! i) s} in if n = 0 then None else Some (int n))))
   (run_ops kv_step ops (kv_empty, []))"
proof (cases "run_ops kv_step ops (kv_empty, [])")
  case (Some r)
  obtain rs c os where r: "r = (rs, c, os)" by (cases r)
  have ok: "kv_ok c" using kv.run_preserves [OF kv_start(1) Some [unfolded r]] by (simp add: kv_state_ok_def)
  show ?thesis using kv_okD(5) [OF ok] countsD [OF kv_okD(6) [OF ok]] kv_okD(3) [OF ok]
    by (simp add: Some r occ_def Let_def)
qed simp

text \<open>Writing a copy back to distinct cells.\<close>

lemma spec_set_list_exact:
  assumes "distinct idxs" "length sn = length idxs" "\<forall>i\<in>set idxs. i < length cs \<and> no_shift (cs ! i)"
  shows "\<exists>cs'. spec_set_list idxs sn (h, cs) = Some (h, cs') \<and> length cs' = length cs \<and>
    (\<forall>j<length idxs. cs' ! (idxs ! j) = map_option (\<lambda>(p, S). (p, S, 0)) (sn ! j)) \<and> (\<forall>i. i \<notin> set idxs \<longrightarrow> cs' ! i = cs ! i)"
proof -
  let ?lift = "map_option (\<lambda>(p, S). (p, S, 0))"
  let ?P = "\<lambda>js (a :: acells). fst a = h \<and> length (snd a) = length cs \<and>
     (\<forall>j\<in>set js. snd a ! (idxs ! j) = ?lift (sn ! j)) \<and> (\<forall>i. i \<notin> (\<lambda>j. idxs ! j) ` set js \<longrightarrow> snd a ! i = cs ! i)"
  have "\<exists>a. fold_opt (\<lambda>j a. map_option snd (spec_cell (idxs ! j) False (cell_set (sn ! j)) a)) [0..<length sn] (h, cs) = Some a \<and>
      ?P [0..<length sn] a"
  proof (rule fold_opt_invariant [where P = ?P])
    fix ys j zs a
    assume split: "[0..<length sn] = ys @ j # zs" and P: "?P ys a"
    have "j \<in> set [0..<length sn]" and sub: "set ys \<subseteq> set [0..<length sn]" unfolding split by auto
    then have j: "j < length idxs" using assms(2) by simp
    have "j \<notin> set ys" using distinct_upt [of 0 "length sn"] unfolding split by simp
    then have new: "idxs ! j \<notin> (\<lambda>j. idxs ! j) ` set ys"
      using assms(1,2) j sub by (auto simp: nth_eq_iff_index_eq subset_eq)
    have at: "idxs ! j < length (snd a)" "no_shift (snd a ! (idxs ! j))" using P assms(3) j new by auto
    have keep: "idxs ! k \<noteq> idxs ! j" if "k \<in> set ys" for k
      using new that by (metis imageI)
    show "\<exists>a'. map_option snd (spec_cell (idxs ! j) False (cell_set (sn ! j)) a) = Some a' \<and> ?P (ys @ [j]) a'"
      using P at by (auto simp: spec_cell_def cell_set_def nth_list_update keep keep [THEN not_sym])
  qed simp
  then obtain a where a: "fold_opt (\<lambda>j a. map_option snd (spec_cell (idxs ! j) False (cell_set (sn ! j)) a)) [0..<length sn] (h, cs) = Some a"
    "?P [0..<length sn] a" by blast
  have "(\<lambda>j. idxs ! j) ` set [0..<length sn] = set idxs" using assms(2) by (auto simp: in_set_conv_nth)
  then show ?thesis using a assms(2) by (intro exI [of _ "snd a"]) (cases a, simp add: spec_set_list_def bind_check)
qed

lemma cell_save_lift: "no_shift x \<Longrightarrow> map_option (\<lambda>(p, S). (p, S, 0)) (cell_save x) = x"
  by (cases x) (auto simp: no_shift_def cell_save_def)

text \<open>Restoring a copy.\<close>

lemma cells_restored:
  assumes ok: "kv_ok c" "kv_ok c'" and idxs: "distinct idxs" "set idxs \<subseteq> {..<kc_size c} \<inter> {..<kc_size c'}"
    and shift: "\<forall>i\<in>set idxs. kc_shift c ! i = 0 \<and> kc_shift c' ! i = 0"
  shows "\<exists>o' c''. kc_cp_list c idxs = Some o' \<and> kc_set_list idxs o' c' = Some c'' \<and> kv_ok c'' \<and>
    cells_of c'' = map (\<lambda>i. if i \<in> set idxs then cells_of c ! i else cells_of c' ! i) [0..<kc_size c']"
proof -
  have free: "i < kc_size c \<and> i < kc_size c' \<and> no_shift (cells_of c ! i) \<and> no_shift (cells_of c' ! i)" if "i \<in> set idxs" for i
    using that idxs(2) shift no_shift_cell [OF ok(1), of i] no_shift_cell [OF ok(2), of i] by auto
  have "spec_cp_list (kv_abs c) idxs = Some (map (\<lambda>i. cell_save (cells_of c ! i)) idxs)"
    unfolding spec_cp_list_def kv_abs_def snd_conv list_all_iff cells_of_simps(1) using free by (simp del: cells_of_simps(2))
  then obtain o' where o': "kc_cp_list c idxs = Some o'" "snap_of o' = map (\<lambda>i. cell_save (cells_of c ! i)) idxs"
    using kc_cp_list_sim(1) [OF ok(1), of idxs] by auto
  obtain cs' where cs': "spec_set_list idxs (snap_of o') (kv_abs c') = Some (kc_has_shift c', cs')" "length cs' = kc_size c'"
    "\<forall>j<length idxs. cs' ! (idxs ! j) = map_option (\<lambda>(p, S). (p, S, 0)) (snap_of o' ! j)" "\<forall>i. i \<notin> set idxs \<longrightarrow> cs' ! i = cells_of c' ! i"
  proof -
    have "\<forall>i\<in>set idxs. i < length (cells_of c') \<and> no_shift (cells_of c' ! i)" using free by (simp del: cells_of_simps(2))
    from spec_set_list_exact [OF idxs(1) _ this, of "snap_of o'" "kc_has_shift c'"] o'(2) show ?thesis
      using that by (auto simp: kv_abs_def simp del: cells_of_simps(2))
  qed
  have "kv_sim (map_option (Pair ()) (kc_set_list idxs o' c')) (map_option (Pair ()) (Some (kc_has_shift c', cs')))"
    using kc_set_list_sim [OF ok(2) kc_cp_list_sim(2) [OF ok(1) o'(1)], of idxs] unfolding cs'(1) .
  then obtain c'' where c'': "kc_set_list idxs o' c' = Some c''" "kv_ok c''" "cells_of c'' = cs'"
    by (cases "kc_set_list idxs o' c'") (auto simp: kv_abs_def)
  have "cs' ! i = cells_of c ! i" if i: "i \<in> set idxs" for i
  proof -
    obtain j where j: "j < length idxs" "i = idxs ! j" using i by (auto simp: in_set_conv_nth)
    then show ?thesis using cs'(3) o'(2) cell_save_lift [of "cells_of c ! i"] free [OF i] by (simp del: cells_of_simps(2))
  qed
  then have "cs' = map (\<lambda>i. if i \<in> set idxs then cells_of c ! i else cells_of c' ! i) [0..<kc_size c']"
    using cs'(2,4) by (intro nth_equalityI) auto
  with o'(1) c'' show ?thesis by blast
qed

text \<open>
  C18: a copy of unshifted cells, written back to the same indices after arbitrary changes elsewhere
  and there, restores these cells and leaves all others as they are.
\<close>

theorem kv_cells_restore:
  assumes ok: "kv_ok c" "kv_ok c'" and idxs: "distinct idxs" "set idxs \<subseteq> {..<kc_size c} \<inter> {..<kc_size c'}"
    and shift: "\<forall>i\<in>set idxs. kc_shift c ! i = 0 \<and> kc_shift c' ! i = 0"
  shows "\<exists>o' c''. kc_cp_list c idxs = Some o' \<and> kc_set_list idxs o' c' = Some c'' \<and> kv_ok c'' \<and>
    cells_of c'' = map (\<lambda>i. if i \<in> set idxs then cells_of c ! i else cells_of c' ! i) [0..<kc_size c']"
  by (rule cells_restored [OF assms])

text \<open>A cell written, and restored into cleared cells.\<close>

lemma example_trace:
  "\<exists>c. run_ops kv_step [K_resize 2, K_pos_set 1 4, K_seq_add 1 0] (kv_empty, []) = Some ([Ack, Ack, Ack], c, []) \<and>
    kv_ok c \<and> cells_of c = [None, Some (4, {0}, 0)]"
proof -
  have spec: "run_ops kv_spec [K_resize 2, K_pos_set 1 4, K_seq_add 1 0] ((False, []), []) =
      Some ([Ack, Ack, Ack], (False, [None, Some (4, {0}, 0)]), [])"
    by (simp add: ack_def on_cells_def spec_cell_def vec_at_def seq_id_ok_def LLAMA_MAX_SEQ_def numeral_2_eq_2)
  have run: "map_option (map_prod id kv_state_abs) (run_ops kv_step [K_resize 2, K_pos_set 1 4, K_seq_add 1 0] (kv_empty, [])) =
      Some ([Ack, Ack, Ack], (False, [None, Some (4, {0}, 0)]), [])"
    unfolding kv.run_refines [OF kv_start(1)] kv_start(2) by (rule spec)
  obtain rs c os where c: "run_ops kv_step [K_resize 2, K_pos_set 1 4, K_seq_add 1 0] (kv_empty, []) = Some (rs, c, os)"
    using run by (cases "run_ops kv_step [K_resize 2, K_pos_set 1 4, K_seq_add 1 0] (kv_empty, [])") (simp, metis prod_cases3 option.inject)
  with kv.run_preserves [OF kv_start(1) c] run [unfolded c] show ?thesis by (auto simp: kv_state_abs_def kv_abs_def kv_state_ok_def)
qed

lemma kv_cells_restore_witness:
  "\<exists>c o' c''. run_ops kv_step [K_resize 2, K_pos_set 1 4, K_seq_add 1 0] (kv_empty, []) = Some ([Ack, Ack, Ack], c, []) \<and>
    kc_cp_list c [1] = Some o' \<and> kc_set_list [1] o' (kc_resize 2 kv_empty) = Some c'' \<and> cells_of c'' = [None, Some (4, {0}, 0)]"
proof -
  obtain c where c: "run_ops kv_step [K_resize 2, K_pos_set 1 4, K_seq_add 1 0] (kv_empty, []) = Some ([Ack, Ack, Ack], c, [])"
    "kv_ok c" "cells_of c = [None, Some (4, {0}, 0)]" using example_trace by blast
  let ?c = "kc_resize 2 kv_empty"
  have "run_ops kv_step [K_resize 2] (kv_empty, []) = Some ([Ack], ?c, [])" by (simp add: ack_def)
  from kv.run_preserves [OF kv_start(1) this] have ok: "kv_ok ?c" by (simp add: kv_state_ok_def)
  have cells: "cells_of ?c = [None, None]" and size: "kc_size ?c = 2"
    by (simp_all add: kc_resize_def kc_reset_def kv_empty_def vector_resize_def kc_size_def cells_of_def numeral_2_eq_2)
  have size_c: "kc_size c = 2" using arg_cong [OF c(3), of length] by simp
  have "no_shift (cells_of c ! 1)" "no_shift (cells_of ?c ! 1)" unfolding c(3) cells by (simp_all add: no_shift_def)
  then have "kc_shift c ! 1 = 0" "kc_shift ?c ! 1 = 0"
    using no_shift_cell [OF c(2), of 1] no_shift_cell [OF ok, of 1] size size_c by simp_all
  then show ?thesis using kv_cells_restore [OF c(2) ok, of "[1]"] c(1,3) cells size size_c
    by (auto simp: numeral_2_eq_2 simp del: cells_of_simps(2))
qed

end
