(* ===== verification/Batch_Init.thy ===== *)
theory Batch_Init
  imports Batch_Equal KV_Cells_Spec "HOL-Library.Multiset"
begin

text \<open>
  What \<open>llama_batch_allocr::init\<close> accepts, what it establishes for the splits, and the splitting of an
  accepted batch from end to end.
\<close>

section \<open>Statistics\<close>

text \<open>The positions of a sequence and the couplings among the first \<open>n\<close> tokens.\<close>

definition batch_positions :: "int list \<Rightarrow> int list list \<Rightarrow> int list \<Rightarrow> nat \<Rightarrow> nat \<Rightarrow> int set" where
  "batch_positions ns ids pos n s = {pos ! i | i. i < n \<and> (\<exists>k<nat (ns ! i). nat (ids ! i ! k) = s)}"

definition batch_coupled :: "int list \<Rightarrow> int list list \<Rightarrow> nat \<Rightarrow> nat \<Rightarrow> nat \<Rightarrow> bool" where
  "batch_coupled ns ids n a b \<longleftrightarrow> (\<exists>i<n. \<exists>k<nat (ns ! i). 0 < k \<and> nat (ids ! i ! k) = a \<and> nat (ids ! i ! 0) = b)"

lemma note_token_facts:
  fixes sp :: "nat \<Rightarrow> (int, unit) rbt"
  assumes "note_token ns ids pos i (sp, c, h) = (sp', c', h')"
  shows "dom (RBT.lookup (sp' s)) = dom (RBT.lookup (sp s)) \<union> {pos ! i | k. k < nat (ns ! i) \<and> nat (ids ! i ! k) = s}"
    and "c' a b \<longleftrightarrow> c a b \<or> (\<exists>k<nat (ns ! i). 0 < k \<and> nat (ids ! i ! k) = a \<and> nat (ids ! i ! 0) = b)"
    and "h' \<longleftrightarrow> h \<or> 1 < nat (ns ! i)"
proof -
  define f where "f = (\<lambda>s (seq_pos :: nat \<Rightarrow> (int, unit) rbt, cpl :: nat \<Rightarrow> nat \<Rightarrow> bool, has).
           let s1 = nat (ids ! i ! s); seq_pos = seq_pos(s1 := RBT.insert (pos ! i) () (seq_pos s1))
           in if s > 0 then (seq_pos, cpl(s1 := (cpl s1)(nat (ids ! i ! 0) := True)), True) else (seq_pos, cpl, has))"
  have "(\<forall>s. dom (RBT.lookup (sp' s)) = dom (RBT.lookup (sp s)) \<union> {pos ! i | k. k < n \<and> nat (ids ! i ! k) = s}) \<and>
      (\<forall>a b. c' a b \<longleftrightarrow> c a b \<or> (\<exists>k<n. 0 < k \<and> nat (ids ! i ! k) = a \<and> nat (ids ! i ! 0) = b)) \<and> (h' \<longleftrightarrow> h \<or> 1 < n)"
    if "fold f [0..<n] (sp, c, h) = (sp', c', h')" for n sp' c' h'
    using that
  proof (induction n arbitrary: sp' c' h')
    case (Suc n)
    obtain sp1 c1 h1 where r: "fold f [0..<n] (sp, c, h) = (sp1, c1, h1)" by (rule prod_cases3)
    have step: "f n (sp1, c1, h1) = (sp', c', h')"
      using Suc.prems unfolding upt_Suc_append [OF le0] fold_append comp_apply r by simp
    let ?s1 = "nat (ids ! i ! n)"
    have dom: "dom (RBT.lookup (sp' s)) = dom (RBT.lookup (sp1 s)) \<union> (if s = ?s1 then {pos ! i} else {})" for s
      using step by (auto simp: f_def Let_def split: if_splits)
    have cpl: "c' a b \<longleftrightarrow> c1 a b \<or> 0 < n \<and> a = ?s1 \<and> b = nat (ids ! i ! 0)" for a b
      using step by (auto simp: f_def Let_def split: if_splits)
    have has: "h' \<longleftrightarrow> h1 \<or> 0 < n" using step by (auto simp: f_def Let_def split: if_splits)
    have sets: "{pos ! i | k. k < Suc n \<and> nat (ids ! i ! k) = s} = {pos ! i | k. k < n \<and> nat (ids ! i ! k) = s} \<union> (if s = ?s1 then {pos ! i} else {})" for s
      by (auto simp: less_Suc_eq)
    have ex: "(\<exists>k<Suc n. Q k) \<longleftrightarrow> (\<exists>k<n. Q k) \<or> Q n" for Q by (auto simp: less_Suc_eq)
    note IH = Suc.IH [OF r]
    have "dom (RBT.lookup (sp' s)) = dom (RBT.lookup (sp s)) \<union> {pos ! i | k. k < Suc n \<and> nat (ids ! i ! k) = s}" for s
      unfolding dom sets using IH by (simp add: Un_assoc)
    moreover have "c' a b \<longleftrightarrow> c a b \<or> (\<exists>k<Suc n. 0 < k \<and> nat (ids ! i ! k) = a \<and> nat (ids ! i ! 0) = b)" for a b
      unfolding cpl ex using IH by blast
    moreover have "h' \<longleftrightarrow> h \<or> 1 < Suc n" unfolding has using IH by auto
    ultimately show ?case by blast
  qed simp
  from this [of "nat (ns ! i)" sp' c' h'] assms
  show "dom (RBT.lookup (sp' s)) = dom (RBT.lookup (sp s)) \<union> {pos ! i | k. k < nat (ns ! i) \<and> nat (ids ! i ! k) = s}"
    "c' a b \<longleftrightarrow> c a b \<or> (\<exists>k<nat (ns ! i). 0 < k \<and> nat (ids ! i ! k) = a \<and> nat (ids ! i ! 0) = b)" "h' \<longleftrightarrow> h \<or> 1 < nat (ns ! i)"
    unfolding note_token_def Let_def f_def by blast+
qed

lemma note_tokens_facts:
  assumes "fold (note_token ns ids pos) [0..<n] (\<lambda>_. RBT.empty, \<lambda>_ _. False, False) = (sp, c, h)"
  shows "dom (RBT.lookup (sp s)) = batch_positions ns ids pos n s" "c a b \<longleftrightarrow> batch_coupled ns ids n a b"
    "h \<longleftrightarrow> (\<exists>i<n. 1 < nat (ns ! i))"
proof -
  have "dom (RBT.lookup (sp s)) = batch_positions ns ids pos n s \<and> (c a b \<longleftrightarrow> batch_coupled ns ids n a b) \<and> (h \<longleftrightarrow> (\<exists>i<n. 1 < nat (ns ! i)))"
    using assms
  proof (induction n arbitrary: sp c h)
    case 0
    then show ?case by (auto simp: batch_positions_def batch_coupled_def)
  next
    case (Suc n)
    obtain sp1 c1 h1 where r: "fold (note_token ns ids pos) [0..<n] (\<lambda>_. RBT.empty, \<lambda>_ _. False, False) = (sp1, c1, h1)" by (rule prod_cases3)
    have "note_token ns ids pos n (sp1, c1, h1) = (sp, c, h)"
      using Suc.prems unfolding upt_Suc_append [OF le0] fold_append comp_apply r by simp
    note f = note_token_facts [OF this]
    have P: "batch_positions ns ids pos (Suc n) s = batch_positions ns ids pos n s \<union> {pos ! n | k. k < nat (ns ! n) \<and> nat (ids ! n ! k) = s}"
      by (auto simp: batch_positions_def less_Suc_eq)
    have C: "batch_coupled ns ids (Suc n) a b \<longleftrightarrow> batch_coupled ns ids n a b \<or> (\<exists>k<nat (ns ! n). 0 < k \<and> nat (ids ! n ! k) = a \<and> nat (ids ! n ! 0) = b)"
      by (auto simp: batch_coupled_def less_Suc_eq)
    show ?case unfolding f(1) f(2) f(3) P C using Suc.IH [OF r] by (auto simp: less_Suc_eq)
  qed
  then show "dom (RBT.lookup (sp s)) = batch_positions ns ids pos n s" "c a b \<longleftrightarrow> batch_coupled ns ids n a b"
    "h \<longleftrightarrow> (\<exists>i<n. 1 < nat (ns ! i))" by blast+
qed

lemma group_indices: "fold (\<lambda>i m. m(f i := m (f i) @ [i])) [0..<n] (\<lambda>_. []) S = filter (\<lambda>i. f i = S) [0..<n]"
  by (induction n) auto

lemma bits_of_bit: "bit (bits_of ids) s \<longleftrightarrow> s < LLAMA_MAX_SEQ \<and> s \<in> nat ` set ids"
proof -
  have "bit (fold (\<lambda>s w. set_bit (nat s) w) ids w) s \<longleftrightarrow> s < LLAMA_MAX_SEQ \<and> (s \<in> nat ` set ids \<or> bit w s)" for w :: seq_set
    by (induction ids arbitrary: w) (auto simp: bit_set_bit_iff LLAMA_MAX_SEQ_def dest: bit_seq_set [unfolded LLAMA_MAX_SEQ_def])
  from this [of 0] show ?thesis by (simp add: bits_of_def)
qed

text \<open>The state \<open>init\<close> checks, as far as its checks and the splits read it.\<close>

lemma compute_stats_facts:
  fixes st :: "'f llama_batch_allocr"
  defines "st' \<equiv> compute_stats st"
  shows "al_n_tokens st' = al_n_tokens st" "al_token st' = al_token st" "al_embd st' = al_embd st" "al_pos st' = al_pos st"
    "al_n_seq_id st' = al_n_seq_id st" "al_seq_id st' = al_seq_id st" "al_n_seq_max st' = al_n_seq_max st" "al_logits st' = al_logits st"
    "dom (RBT.lookup (al_seq_pos st' s)) = batch_positions (al_n_seq_id st) (al_seq_id st) (al_pos st) (al_n_tokens st) s"
    "al_seq_cpl st' a b \<longleftrightarrow> batch_coupled (al_n_seq_id st) (al_seq_id st) (al_n_tokens st) a b"
    "al_has_cpl st' \<longleftrightarrow> (\<exists>i<al_n_tokens st. 1 < nat (al_n_seq_id st ! i))"
    "al_seq_set st' = map (\<lambda>i. bits_of (row_of (al_n_seq_id st) (al_seq_id st) i)) [0..<al_n_tokens st]"
    "al_seq_set_map st' S = filter (\<lambda>i. al_seq_set st' ! i = S) [0..<al_n_tokens st]"
proof -
  obtain sp c h where r: "fold (note_token (al_n_seq_id st) (al_seq_id st) (al_pos st)) [0..<al_n_tokens st] (\<lambda>_. RBT.empty, \<lambda>_ _. False, False) = (sp, c, h)"
    by (rule prod_cases3)
  let ?sets = "map (\<lambda>i. bits_of (row_of (al_n_seq_id st) (al_seq_id st) i)) [0..<al_n_tokens st]"
  obtain unq idx where u: "index_seqs (al_n_seq_max st) (fold (OR) ?sets 0) = (unq, idx)" by fastforce
  have st': "st' = st\<lparr>al_n_outputs := length (filter (\<lambda>i. al_logits st ! i \<noteq> 0) [0..<al_n_tokens st]), al_has_cpl := h, al_seq_pos := sp,
         al_seq_cpl := c, al_seq_set := ?sets, al_seq_set_map := fold (\<lambda>i m. m(?sets ! i := m (?sets ! i) @ [i])) [0..<al_n_tokens st] (\<lambda>_. []),
         al_seq_id_unq := unq, al_seq_idx := idx\<rparr>"
    unfolding st'_def compute_stats_def Let_def r prod.case u by (rule refl)
  show "al_n_tokens st' = al_n_tokens st" "al_token st' = al_token st" "al_embd st' = al_embd st" "al_pos st' = al_pos st"
    "al_n_seq_id st' = al_n_seq_id st" "al_seq_id st' = al_seq_id st" "al_n_seq_max st' = al_n_seq_max st" "al_logits st' = al_logits st"
    "al_seq_set st' = ?sets" by (simp_all add: st')
  show "dom (RBT.lookup (al_seq_pos st' s)) = batch_positions (al_n_seq_id st) (al_seq_id st) (al_pos st) (al_n_tokens st) s"
    using note_tokens_facts(1) [OF r] by (simp add: st')
  show "al_seq_cpl st' a b \<longleftrightarrow> batch_coupled (al_n_seq_id st) (al_seq_id st) (al_n_tokens st) a b"
    using note_tokens_facts(2) [OF r] by (simp add: st')
  show "al_has_cpl st' \<longleftrightarrow> (\<exists>i<al_n_tokens st. 1 < nat (al_n_seq_id st ! i))"
    using note_tokens_facts(3) [OF r] by (simp add: st')
  show "al_seq_set_map st' S = filter (\<lambda>i. al_seq_set st' ! i = S) [0..<al_n_tokens st]"
    by (simp add: st' group_indices)
qed


section \<open>The checks\<close>

text \<open>The state after the statistics.\<close>

definition init_state ::
    "'f llama_batch \<Rightarrow> memory_view option \<Rightarrow> nat \<Rightarrow> nat \<Rightarrow> bool \<Rightarrow> 'f llama_batch_allocr \<Rightarrow> 'f llama_batch_allocr" where
  "init_state b memory n_embd n_seq_max output_all old =
     (let (n_seq_id, seq_id, pos, logits) = fill_batch memory output_all b
      in compute_stats ((al_clear old)\<lparr>al_n_tokens := b_n_tokens b, al_token := b_token b, al_embd := b_embd b, al_n_seq_id := n_seq_id,
             al_seq_id := seq_id, al_pos := pos, al_logits := logits, al_n_embd := n_embd, al_n_seq_max := n_seq_max\<rparr>))"

lemma al_init_eq:
  "al_init b n_vocab memory n_embd n_seq_max output_all old =
    (let st = init_state b memory n_embd n_seq_max output_all old in
     if b_n_tokens b = 0 then Inl Err_assert
     else if LLAMA_MAX_SEQ < n_seq_max then Inl Err_n_seq_max
     else case validate_tokens n_vocab (b_n_tokens b) (b_token b) of Some e \<Rightarrow> Inl e | None \<Rightarrow>
     (case validate_seq_ids n_seq_max (b_n_tokens b) (b_n_seq_id b) (b_seq_id b) of Some e \<Rightarrow> Inl e | None \<Rightarrow>
     (case first_err (check_sequence memory st) [0..<n_seq_max] of Some e \<Rightarrow> Inl e | None \<Rightarrow>
     (case check_coupled memory st of Some e \<Rightarrow> Inl e | None \<Rightarrow>
     (case check_subsets st of Inl e \<Rightarrow> Inl e | Inr _ \<Rightarrow> Inr (split_reset st))))))"
  unfolding al_init_def init_state_def Let_def by (simp split: prod.splits)

text \<open>The arrays a caller passes: both sequence arrays or none, every row as long as it says, at least one sequence per token.\<close>

definition batch_arrays :: "nat \<Rightarrow> int list \<Rightarrow> int list list \<Rightarrow> int list \<Rightarrow> bool" where
  "batch_arrays n ns ids pos \<longleftrightarrow> (\<forall>i<n. 0 < ns ! i \<and> nat (ns ! i) \<le> length (ids ! i) \<and> -1 \<le> pos ! i)"

lemma fold_err_ok:
  assumes "P s" "\<And>x s. x \<in> set xs \<Longrightarrow> P s \<Longrightarrow> \<exists>s'. f x s = Inr s' \<and> P s'"
  shows "\<exists>s'. fold_err f xs s = Inr s' \<and> P s'"
  using assms
proof (induction xs arbitrary: s)
  case (Cons x xs)
  from Cons.prems obtain s' where s': "f x s = Inr s'" "P s'" by (meson list.set_intros(1))
  from Cons.IH [OF s'(2)] Cons.prems(2) s'(1) show ?case by auto
qed simp

text \<open>A sequence is in the set of each of its tokens, so no intersection of these sets is empty.\<close>

lemma check_subsets_passes:
  assumes sets: "\<And>i k. i < al_n_tokens st \<Longrightarrow> k < nat (al_n_seq_id st ! i) \<Longrightarrow> bit (al_seq_set st ! i) (nat (al_seq_id st ! i ! k))"
    and pos: "\<And>i. i < al_n_tokens st \<Longrightarrow> -1 \<le> al_pos st ! i"
  shows "\<exists>cur. check_subsets st = Inr cur"
proof -
  let ?P = "\<lambda>cur :: nat \<Rightarrow> seq_set. \<forall>s<LLAMA_MAX_SEQ. bit (cur s) s"
  have "\<exists>cur. check_subsets st = Inr cur \<and> ?P cur"
    unfolding check_subsets_def Let_def
  proof (rule fold_err_ok [where P = ?P])
    show "?P (\<lambda>_. -1)" by (simp add: LLAMA_MAX_SEQ_def)
  next
    fix i cur assume i: "i \<in> set [0..<al_n_tokens st]" and P: "?P cur"
    show "\<exists>cur'. fold_err (\<lambda>s cur. if (cur(nat (al_seq_id st ! i ! s) := cur (nat (al_seq_id st ! i ! s)) AND al_seq_set st ! i)) (nat (al_seq_id st ! i ! s)) = 0
        then Inl (Err_incompatible (nat (al_seq_id st ! i ! s)))
        else if al_pos st ! i < -1 then Inl (Err_decreasing (nat (al_seq_id st ! i ! s)))
        else Inr (cur(nat (al_seq_id st ! i ! s) := cur (nat (al_seq_id st ! i ! s)) AND al_seq_set st ! i)))
       [0..<nat (al_n_seq_id st ! i)] cur = Inr cur' \<and> ?P cur'"
    proof (rule fold_err_ok [where P = ?P, OF P])
      fix k cur assume k: "k \<in> set [0..<nat (al_n_seq_id st ! i)]" and P: "?P cur"
      let ?s = "nat (al_seq_id st ! i ! k)"
      have b: "bit (al_seq_set st ! i) ?s" using sets [of i k] i k by simp
      then have "bit (cur ?s AND al_seq_set st ! i) ?s" using P bit_seq_set [OF b] by (simp add: bit_and_iff)
      moreover from this have "cur ?s AND al_seq_set st ! i \<noteq> 0" by auto
      ultimately show "\<exists>cur'. (if (cur(?s := cur ?s AND al_seq_set st ! i)) ?s = 0 then Inl (Err_incompatible ?s)
          else if al_pos st ! i < -1 then Inl (Err_decreasing ?s) else Inr (cur(?s := cur ?s AND al_seq_set st ! i))) = Inr cur' \<and> ?P cur'"
        using P pos [of i] i by auto
    qed
  qed
  then show ?thesis by blast
qed

lemma card_interval:
  fixes P :: "int set"
  assumes "finite P" "P \<noteq> {}"
  shows "Max P - Min P + 1 > int (card P) \<longleftrightarrow> P \<noteq> {Min P..Max P}"
proof -
  have sub: "P \<subseteq> {Min P..Max P}" using assms by auto
  have card: "int (card {Min P..Max P}) = Max P - Min P + 1" using Min_le [OF assms(1)] assms by simp
  show ?thesis
  proof
    assume gap: "Max P - Min P + 1 > int (card P)"
    show "P \<noteq> {Min P..Max P}"
    proof
      assume "P = {Min P..Max P}"
      then have "card P = card {Min P..Max P}" by (rule arg_cong)
      with card gap show False by linarith
    qed
  next
    assume "P \<noteq> {Min P..Max P}"
    with sub have "P \<subset> {Min P..Max P}" by blast
    then have "card P < card {Min P..Max P}" by (rule psubset_card_mono [rotated]) simp
    with card show "Max P - Min P + 1 > int (card P)" by linarith
  qed
qed

lemma rbt_ends:
  fixes t :: "(int, unit) rbt"
  shows "RBT.is_empty t \<longleftrightarrow> dom (RBT.lookup t) = {}" "length (RBT.keys t) = card (dom (RBT.lookup t))"
    and "dom (RBT.lookup t) \<noteq> {} \<Longrightarrow> rbt_first t = Min (dom (RBT.lookup t))" "dom (RBT.lookup t) \<noteq> {} \<Longrightarrow> rbt_last t = Max (dom (RBT.lookup t))"
proof -
  have keys: "set (RBT.keys t) = dom (RBT.lookup t)" by (rule keys_dom)
  then have nil: "RBT.keys t = [] \<longleftrightarrow> dom (RBT.lookup t) = {}" by (metis set_empty)
  show "RBT.is_empty t \<longleftrightarrow> dom (RBT.lookup t) = {}" by (simp add: RBT.is_empty_empty)
  show "length (RBT.keys t) = card (dom (RBT.lookup t))" unfolding keys [symmetric] by (simp add: distinct_card)
  show "dom (RBT.lookup t) \<noteq> {} \<Longrightarrow> rbt_first t = Min (dom (RBT.lookup t))"
    using sorted_ends(1) [OF RBT.sorted_keys [of t]] nil unfolding rbt_first_def keys by (cases "RBT.keys t") auto
  show "dom (RBT.lookup t) \<noteq> {} \<Longrightarrow> rbt_last t = Max (dom (RBT.lookup t))"
    using sorted_ends(2) [OF RBT.sorted_keys [of t]] nil unfolding rbt_last_def keys Let_def by simp
qed

text \<open>A sequence passes when it starts where the memory ends and its positions have no gap.\<close>

definition sequence_follows :: "memory_view option \<Rightarrow> bool \<Rightarrow> bool \<Rightarrow> nat \<Rightarrow> int set \<Rightarrow> bool" where
  "sequence_follows memory tokens embds s P \<longleftrightarrow> P \<noteq> {} \<longrightarrow>
     (\<forall>m. memory = Some m \<longrightarrow> 0 \<le> mem_seq_pos_max m s \<longrightarrow>
        (if tokens then Min P = mem_seq_pos_max m s + 1
         else embds \<and> (Min P = mem_seq_pos_max m s \<or> Min P = mem_seq_pos_max m s + 1))) \<and>
     P = {Min P..Max P}"

lemma check_sequence_iff:
  assumes "dom (RBT.lookup (al_seq_pos st s)) = P"
  shows "check_sequence memory st s = None \<longleftrightarrow>
    sequence_follows memory (al_token st \<noteq> None) (al_embd st \<noteq> None) s P \<and> (P \<noteq> {} \<longrightarrow> Max P - Min P + 1 < 2 ^ 31)"
proof (cases "P = {}")
  case True
  then show ?thesis using assms by (simp add: check_sequence_def sequence_follows_def rbt_ends(1))
next
  case False
  have fin: "finite P" unfolding assms [symmetric] by simp
  note ends = rbt_ends [of "al_seq_pos st s", unfolded assms]
  have lo: "al_seq_pos_min st s = Min P" and hi: "al_seq_pos_max st s = Max P"
    using ends(3,4) False by (simp_all add: al_seq_pos_min_def al_seq_pos_max_def)
  define G where "G \<longleftrightarrow> P = {Min P..Max P}"
  have gap: "Max P - Min P + 1 > int (card P) \<longleftrightarrow> \<not> G" unfolding G_def by (rule card_interval [OF fin False])
  define B where "B \<longleftrightarrow> Max P - Min P + 1 \<ge> 2 ^ 31"
  have B: "Max P - Min P + 1 < 2 ^ 31 \<longleftrightarrow> \<not> B" unfolding B_def by (rule not_le [symmetric])
  show ?thesis
    unfolding check_sequence_def sequence_follows_def ends(1,2) lo hi Let_def gap G_def [symmetric] B B_def [symmetric]
    using False by (cases memory) auto
qed

text \<open>Without a gap there are as many positions as the span is long, so it does not overflow.\<close>

lemma batch_positions_small: "n < 2 ^ 31 \<Longrightarrow> card (batch_positions ns ids pos n s) < 2 ^ 31"
proof -
  assume n: "n < 2 ^ 31"
  have "batch_positions ns ids pos n s \<subseteq> (\<lambda>i. pos ! i) ` {..<n}" by (auto simp: batch_positions_def)
  then have "card (batch_positions ns ids pos n s) \<le> card ((\<lambda>i. pos ! i) ` {..<n})" by (rule card_mono [rotated]) simp
  also have "\<dots> \<le> n" using card_image_le [of "{..<n}" "\<lambda>i. pos ! i"] by simp
  finally show ?thesis using n by (rule le_less_trans)
qed

lemma span_small:
  assumes "sequence_follows memory toks embds s P" "card P < 2 ^ 31"
  shows "P \<noteq> {} \<longrightarrow> Max P - Min P + 1 < (2 :: int) ^ 31"
proof
  assume "P \<noteq> {}"
  then have "P = {Min P..Max P}" using assms(1) unfolding sequence_follows_def by blast
  then have "card P = nat (Max P - Min P + 1)" by (metis card_atLeastAtMost_int)
  then have "nat (Max P - Min P + 1) < 2 ^ 31" using assms(2) by (simp only:)
  then show "Max P - Min P + 1 < (2 :: int) ^ 31" by simp
qed


section \<open>What is accepted\<close>

text \<open>
  The conditions on a batch, over the fields \<open>init\<close> fills in: tokens and sequences in range, every
  sequence continues what the memory holds without a gap, coupled sequences agree in the memory.
\<close>

definition batch_acceptable :: "'f llama_batch \<Rightarrow> nat \<Rightarrow> memory_view option \<Rightarrow> nat \<Rightarrow> bool \<Rightarrow> bool" where
  "batch_acceptable b n_vocab memory n_seq_max output_all \<longleftrightarrow>
     (let (ns, ids, pos, logits) = fill_batch memory output_all b; n = b_n_tokens b in
      0 < n \<and> n_seq_max \<le> LLAMA_MAX_SEQ \<and>
      (\<forall>ts. b_token b = Some ts \<longrightarrow> (\<forall>i<n. 0 \<le> ts ! i \<and> ts ! i < int n_vocab)) \<and>
      (\<forall>i<n. \<forall>k<nat (ns ! i). 0 \<le> ids ! i ! k \<and> ids ! i ! k < int n_seq_max) \<and>
      (\<forall>s<n_seq_max. sequence_follows memory (b_token b \<noteq> None) (b_embd b \<noteq> None) s (batch_positions ns ids pos n s)) \<and>
      (\<forall>m. memory = Some m \<longrightarrow> (\<forall>s0<n_seq_max. \<forall>s1<n_seq_max. batch_coupled ns ids n s0 s1 \<longrightarrow>
         mem_seq_pos_min m s0 = mem_seq_pos_min m s1 \<and> mem_seq_pos_max m s0 = mem_seq_pos_max m s1)))"

lemma init_state_facts:
  fixes old :: "'f llama_batch_allocr" and n_embd n_seq_max :: nat
  assumes fill: "fill_batch memory output_all b = (ns, ids, pos, logits)"
  defines "st \<equiv> init_state b memory n_embd n_seq_max output_all old"
  shows "al_n_tokens st = b_n_tokens b" "al_token st = b_token b" "al_embd st = b_embd b" "al_pos st = pos" "al_logits st = logits"
    "al_n_seq_id st = ns" "al_seq_id st = ids" "al_n_seq_max st = n_seq_max"
    "dom (RBT.lookup (al_seq_pos st s)) = batch_positions ns ids pos (b_n_tokens b) s"
    "al_seq_cpl st x y \<longleftrightarrow> batch_coupled ns ids (b_n_tokens b) x y"
    "al_has_cpl st \<longleftrightarrow> (\<exists>i<b_n_tokens b. 1 < nat (ns ! i))"
    "al_seq_set st = map (\<lambda>i. bits_of (row_of ns ids i)) [0..<b_n_tokens b]"
    "al_seq_set_map st S = filter (\<lambda>i. al_seq_set st ! i = S) [0..<b_n_tokens b]"
  unfolding st_def init_state_def fill Let_def prod.case by (simp_all add: compute_stats_facts)

text \<open>Ranges: the generated sequences are \<open>0\<close>, the given ones are checked.\<close>

lemma validate_seq_ids_iff:
  assumes fill: "fill_batch memory output_all b = (ns, ids, pos, logits)"
    and given: "b_seq_id b = None \<longleftrightarrow> b_n_seq_id b = None" and "0 < n_seq_max"
  shows "validate_seq_ids n_seq_max (b_n_tokens b) (b_n_seq_id b) (b_seq_id b) = None \<longleftrightarrow>
    (\<forall>i<b_n_tokens b. \<forall>k<nat (ns ! i). 0 \<le> ids ! i ! k \<and> ids ! i ! k < int n_seq_max)"
proof (cases "b_seq_id b")
  case None
  then have "ns = replicate (b_n_tokens b) 1" "ids = replicate (b_n_tokens b) [0]"
    using given fill by (simp_all add: fill_batch_def Let_def)
  then show ?thesis using None assms(3) by (simp add: validate_seq_ids_def)
next
  case (Some ids')
  then obtain ns' where ns': "b_n_seq_id b = Some ns'" using given by auto
  then have "ns = ns'" "ids = ids'" using Some fill by (simp_all add: fill_batch_def Let_def)
  then show ?thesis using Some ns' by (auto simp: validate_seq_ids_def first_err_None not_less not_le)
qed

lemma validate_tokens_iff:
  "validate_tokens n_vocab n toks = None \<longleftrightarrow> (\<forall>ts. toks = Some ts \<longrightarrow> (\<forall>i<n. 0 \<le> ts ! i \<and> ts ! i < int n_vocab))"
  by (auto simp: validate_tokens_def first_err_None not_less not_le split: option.splits)

lemma check_coupled_iff:
  assumes "\<And>x y. al_seq_cpl st x y \<longleftrightarrow> C x y" "al_n_seq_max st = n"
  shows "check_coupled memory st = None \<longleftrightarrow> (\<forall>m. memory = Some m \<longrightarrow> (\<forall>s0<n. \<forall>s1<n. C s0 s1 \<longrightarrow>
    mem_seq_pos_min m s0 = mem_seq_pos_min m s1 \<and> mem_seq_pos_max m s0 = mem_seq_pos_max m s1))"
  by (auto simp: check_coupled_def first_err_None assms split: option.splits)

text \<open>The subset check passes on every batch that got that far.\<close>

lemma init_subsets_pass:
  assumes fill: "fill_batch memory output_all b = (ns, ids, pos, logits)" and arrays: "batch_arrays (b_n_tokens b) ns ids pos"
    and range: "\<forall>i<b_n_tokens b. \<forall>k<nat (ns ! i). 0 \<le> ids ! i ! k \<and> ids ! i ! k < int n_seq_max" and max: "n_seq_max \<le> LLAMA_MAX_SEQ"
  shows "\<exists>cur. check_subsets (init_state b memory n_embd n_seq_max output_all old) = Inr cur"
proof (rule check_subsets_passes)
  fix i k
  let ?st = "init_state b memory n_embd n_seq_max output_all old"
  note facts = init_state_facts [OF fill, where n_embd = n_embd and n_seq_max = n_seq_max and old = old]
  assume "i < al_n_tokens ?st" "k < nat (al_n_seq_id ?st ! i)"
  then have i: "i < b_n_tokens b" and k: "k < nat (ns ! i)" by (simp_all add: facts)
  have "ids ! i ! k \<in> set (row_of ns ids i)"
    using arrays i k by (auto simp: row_of_def batch_arrays_def in_set_conv_nth intro!: exI [of _ k])
  moreover have "nat (ids ! i ! k) < LLAMA_MAX_SEQ" using range i k max by (simp add: nat_less_iff) (meson less_le_trans of_nat_le_iff)
  ultimately show "bit (al_seq_set ?st ! i) (nat (al_seq_id ?st ! i ! k))" using i by (simp add: facts bits_of_bit)
next
  fix i
  assume "i < al_n_tokens (init_state b memory n_embd n_seq_max output_all old)"
  then show "-1 \<le> al_pos (init_state b memory n_embd n_seq_max output_all old) ! i"
    using arrays by (simp add: init_state_facts [OF fill] batch_arrays_def)
qed

text \<open>
  C25: of the batches whose sequence arrays are both given or both missing, with at least one sequence for every token,
  rows as long as they say, positions from \<open>-1\<close> on and at most \<open>INT32_MAX\<close> tokens, \<open>init\<close> accepts exactly the acceptable
  ones. It does so whatever sequence sets the tokens have and whatever order the positions of a sequence come in, also
  for the batches that its comments call invalid.
\<close>

theorem batch_init_accepts:
  assumes fill: "fill_batch memory output_all b = (ns, ids, pos, logits)" and arrays: "batch_arrays (b_n_tokens b) ns ids pos"
    and given: "b_seq_id b = None \<longleftrightarrow> b_n_seq_id b = None" and "0 < n_seq_max" and size: "b_n_tokens b < 2 ^ 31"
  shows "(\<exists>st. al_init b n_vocab memory n_embd n_seq_max output_all old = Inr st) \<longleftrightarrow>
    batch_acceptable b n_vocab memory n_seq_max output_all"
proof -
  let ?st = "init_state b memory n_embd n_seq_max output_all old"
  note facts = init_state_facts [OF fill, where n_embd = n_embd and n_seq_max = n_seq_max and old = old]
  note ids = validate_seq_ids_iff [OF fill given assms(4)]
  have seqs: "first_err (check_sequence memory ?st) [0..<n_seq_max] = None \<longleftrightarrow>
      (\<forall>s<n_seq_max. sequence_follows memory (b_token b \<noteq> None) (b_embd b \<noteq> None) s (batch_positions ns ids pos (b_n_tokens b) s))"
    unfolding first_err_None check_sequence_iff [OF facts(9), of memory] facts(2,3)
    using span_small [OF _ batch_positions_small [OF size]] by (simp only: set_upt Ball_def atLeastLessThan_iff) blast
  note cpl = check_coupled_iff [of ?st, OF facts(10) facts(8)]
  show ?thesis
  proof (cases "0 < b_n_tokens b \<and> n_seq_max \<le> LLAMA_MAX_SEQ \<and> validate_tokens n_vocab (b_n_tokens b) (b_token b) = None \<and>
      validate_seq_ids n_seq_max (b_n_tokens b) (b_n_seq_id b) (b_seq_id b) = None")
    case True
    then obtain cur where cur: "check_subsets ?st = Inr cur"
      using init_subsets_pass [OF fill arrays, of n_seq_max n_embd old] ids by blast
    have "batch_acceptable b n_vocab memory n_seq_max output_all \<longleftrightarrow>
        first_err (check_sequence memory ?st) [0..<n_seq_max] = None \<and> check_coupled memory ?st = None"
      unfolding batch_acceptable_def fill Let_def prod.case seqs cpl using True ids validate_tokens_iff by blast
    moreover have "(\<exists>st. al_init b n_vocab memory n_embd n_seq_max output_all old = Inr st) \<longleftrightarrow>
        first_err (check_sequence memory ?st) [0..<n_seq_max] = None \<and> check_coupled memory ?st = None"
      using True cur by (auto simp: al_init_eq Let_def split: option.splits)
    ultimately show ?thesis by simp
  next
    case False
    have "\<not> batch_acceptable b n_vocab memory n_seq_max output_all"
      unfolding batch_acceptable_def fill Let_def prod.case using False ids validate_tokens_iff by blast
    moreover have "\<nexists>st. al_init b n_vocab memory n_embd n_seq_max output_all old = Inr st"
      using False by (auto simp: al_init_eq Let_def split: option.splits)
    ultimately show ?thesis by blast
  qed
qed


section \<open>Splitting an accepted batch\<close>

lemma accepted_state:
  assumes acc: "al_init b n_vocab memory n_embd n_seq_max output_all old = Inr st"
    and fill: "fill_batch memory output_all b = (ns, ids, pos, logits)"
  shows "al_n_tokens st = b_n_tokens b" "al_left st = {..<b_n_tokens b}" "al_ok st" "simple_ok st"
    "al_has_cpl st \<longleftrightarrow> (\<exists>i<b_n_tokens b. 1 < nat (ns ! i))"
    "al_seq_set st = map (\<lambda>i. bits_of (row_of ns ids i)) [0..<b_n_tokens b]"
proof -
  let ?st = "init_state b memory n_embd n_seq_max output_all old"
  note facts = init_state_facts [OF fill, where n_embd = n_embd and n_seq_max = n_seq_max and old = old]
  have st: "st = split_reset ?st" using acc by (auto simp: al_init_eq Let_def split: option.splits if_splits sum.splits)
  show n: "al_n_tokens st = b_n_tokens b" "al_has_cpl st \<longleftrightarrow> (\<exists>i<b_n_tokens b. 1 < nat (ns ! i))"
    "al_seq_set st = map (\<lambda>i. bits_of (row_of ns ids i)) [0..<b_n_tokens b]" by (simp_all add: st split_reset_def facts)
  show left: "al_left st = {..<b_n_tokens b}" unfolding al_left_def by (auto simp: st split_reset_def facts)
  show ok: "al_ok st" unfolding al_ok_def left by (simp add: st split_reset_def facts)
  show "simple_ok st" unfolding simple_ok_def left n(1) using ok by (auto intro!: exI [of _ 0])
qed

lemma accepted_equal_ok:
  assumes acc: "al_init b n_vocab memory n_embd n_seq_max output_all old = Inr st"
    and fill: "fill_batch memory output_all b = (ns, ids, pos, logits)" and arrays: "batch_arrays (b_n_tokens b) ns ids pos"
    and given: "b_seq_id b = None \<longleftrightarrow> b_n_seq_id b = None" and "0 < n_seq_max"
    and seqn: "seqn \<longrightarrow> (\<forall>i<b_n_tokens b. ns ! i = 1)"
  shows "equal_ok seqn st"
proof -
  note st = accepted_state [OF acc fill]
  have valid: "validate_seq_ids n_seq_max (b_n_tokens b) (b_n_seq_id b) (b_seq_id b) = None" "n_seq_max \<le> LLAMA_MAX_SEQ"
    using acc by (auto simp: al_init_eq Let_def split: option.splits if_splits sum.splits)
  note ids = valid(1) [unfolded validate_seq_ids_iff [OF fill given assms(5)]]
  have "bits_of (row_of ns ids i) \<noteq> 0" if i: "i < b_n_tokens b" for i
  proof -
    have row: "0 < nat (ns ! i)" "nat (ns ! i) \<le> length (ids ! i)" using arrays i by (auto simp: batch_arrays_def)
    then have "ids ! i ! 0 \<in> set (row_of ns ids i)" by (auto simp: row_of_def in_set_conv_nth intro!: exI [of _ 0])
    moreover have "ids ! i ! 0 < int n_seq_max" "n_seq_max \<le> LLAMA_MAX_SEQ" "0 \<le> ids ! i ! 0"
      using ids valid(2) i row by blast+
    then have "nat (ids ! i ! 0) < LLAMA_MAX_SEQ" by linarith
    ultimately have "bit (bits_of (row_of ns ids i)) (nat (ids ! i ! 0))" by (simp add: bits_of_bit)
    then show ?thesis by auto
  qed
  moreover have "\<not> al_used st ! j" if "j < b_n_tokens b" for j
  proof -
    have "j \<in> al_left st" unfolding st(2) using that by simp
    then show ?thesis by (simp add: al_left_def)
  qed
  ultimately show ?thesis using st(1,3,5,6) seqn unfolding equal_ok_def by auto
qed

lemma all_used: "al_ok st' \<Longrightarrow> al_left st' = {} \<Longrightarrow> al_base st' = al_base st \<Longrightarrow> al_n_used st' = al_n_tokens st"
  by (auto simp: al_ok_def dest: base_fields(1))

lemma mset_all: "distinct xs \<Longrightarrow> set xs = {..<n} \<Longrightarrow> mset xs = mset [0..<n]"
proof -
  assume "distinct xs" "set xs = {..<n}"
  then have "set xs = set [0..<n]" by (simp add: atLeast0LessThan)
  then show ?thesis by (rule iffD1 [OF set_eq_iff_mset_eq_distinct, rotated -1]) (use \<open>distinct xs\<close> in simp_all)
qed

text \<open>
  C26: the simple split of an accepted batch, repeated until the empty micro batch, uses every token
  once: the micro batches hold consecutive runs of at most \<open>n_ubatch\<close> tokens (at least one).
\<close>

theorem batch_split_simple_complete:
  assumes acc: "al_init b n_vocab memory n_embd n_seq_max output_all old = Inr st"
  shows "\<exists>us st' idxss. split_all (split_simple n_ubatch) st = Some (us, st') \<and> al_n_used st' = al_n_tokens st \<and>
    mset (concat idxss) = mset [0..<al_n_tokens st] \<and> list_all2 (simple_holds n_ubatch (al_base st)) idxss us"
proof -
  obtain ns ids pos logits where fill: "fill_batch memory output_all b = (ns, ids, pos, logits)" by (rule prod_cases4)
  note st = accepted_state [OF acc fill]
  from simple.split_all_complete [OF st(4), of n_ubatch] obtain us st' idxss where
    "split_all (split_simple n_ubatch) st = Some (us, st')" "simple_ok st'" "al_left st' = {}" "al_base st' = al_base st"
    "list_all2 (simple_holds n_ubatch (al_base st)) idxss us" "distinct (concat idxss)" "set (concat idxss) = al_left st" by blast
  then show ?thesis using all_used [of st' st] mset_all [of "concat idxss" "b_n_tokens b"] unfolding st(1,2) simple_ok_def by blast
qed

text \<open>
  C27: so does the split by sequence set, in micro batches of one sequence set each, in which every
  token's sequences are among those of the token before it.
\<close>

theorem batch_split_seq_complete:
  assumes acc: "al_init b n_vocab memory n_embd n_seq_max output_all old = Inr st"
  shows "\<exists>us st' idxss. split_all (split_seq n_ubatch) st = Some (us, st') \<and> al_n_used st' = al_n_tokens st \<and>
    mset (concat idxss) = mset [0..<al_n_tokens st] \<and> list_all2 (seq_holds n_ubatch (al_base st)) idxss us"
proof -
  obtain ns ids pos logits where fill: "fill_batch memory output_all b = (ns, ids, pos, logits)" by (rule prod_cases4)
  note st = accepted_state [OF acc fill]
  from seqs.split_all_complete [OF st(3), of n_ubatch] obtain us st' idxss where
    "split_all (split_seq n_ubatch) st = Some (us, st')" "al_ok st'" "al_left st' = {}" "al_base st' = al_base st"
    "list_all2 (seq_holds n_ubatch (al_base st)) idxss us" "distinct (concat idxss)" "set (concat idxss) = al_left st" by blast
  then show ?thesis using all_used [of st' st] mset_all [of "concat idxss" "b_n_tokens b"] unfolding st(1,2) by blast
qed

text \<open>
  C28: and so does the split into equal groups, if every token has a sequence (and its row is as long as it says) and, when
  the split is sequential, exactly one: every micro batch has a group of the same length for each of its sequence
  sets, in batch order, the sets are disjoint, and there are at most \<open>n_ubatch + 1\<close> of them.
\<close>

theorem batch_split_equal_complete:
  assumes acc: "al_init b n_vocab memory n_embd n_seq_max output_all old = Inr st"
    and fill: "fill_batch memory output_all b = (ns, ids, pos, logits)" and arrays: "batch_arrays (b_n_tokens b) ns ids pos"
    and given: "b_seq_id b = None \<longleftrightarrow> b_n_seq_id b = None" and "0 < n_seq_max"
    and seqn: "seqn \<longrightarrow> (\<forall>i<b_n_tokens b. ns ! i = 1)"
  shows "\<exists>us st' idxss. split_all (split_equal n_ubatch seqn) st = Some (us, st') \<and> al_n_used st' = al_n_tokens st \<and>
    mset (concat idxss) = mset [0..<al_n_tokens st] \<and> list_all2 (equal_holds n_ubatch (al_base st)) idxss us"
proof -
  note st = accepted_state [OF acc fill]
  from equal.split_all_complete [OF accepted_equal_ok [OF assms], of n_ubatch] obtain us st' idxss where
    "split_all (split_equal n_ubatch seqn) st = Some (us, st')" "equal_ok seqn st'" "al_left st' = {}" "al_base st' = al_base st"
    "list_all2 (equal_holds n_ubatch (al_base st)) idxss us" "distinct (concat idxss)" "set (concat idxss) = al_left st" by blast
  then show ?thesis using all_used [of st' st] mset_all [of "concat idxss" "b_n_tokens b"] unfolding st(1,2) equal_ok_def by blast
qed

section \<open>Concrete batches\<close>

text \<open>Batches with given positions and sequences, without a memory, four sequences at most.\<close>

definition example_batch :: "int list \<Rightarrow> int list list \<Rightarrow> int llama_batch" where
  "example_batch pos ids = \<lparr>b_n_tokens = length pos, b_token = Some (map (\<lambda>_. 5) pos), b_embd = None, b_pos = Some pos,
     b_n_seq_id = Some (map (int \<circ> length) ids), b_seq_id = Some ids, b_logits = None\<rparr>"

definition example_init :: "int llama_batch \<Rightarrow> batch_error + int llama_batch_allocr" where
  "example_init b = al_init b 10 None 8 4 False (allocr_new 1)"

lemma example_accepted: "\<exists>st. example_init (example_batch [0, 1, 0] [[0], [0], [1]]) = Inr st"
proof -
  have "case example_init (example_batch [0, 1, 0] [[0], [0], [1]]) of Inl _ \<Rightarrow> False | Inr st \<Rightarrow> True" by code_simp
  then show ?thesis by (cases "example_init (example_batch [0, 1, 0] [[0], [0], [1]])") simp_all
qed

lemma example_fill: "fill_batch None False (example_batch [0, 1, 0] [[0], [0], [1]]) = ([1, 1, 1], [[0], [0], [1]], [0, 1, 0], [0, 0, 1])"
  by (simp add: fill_batch_def example_batch_def gen_logits_def numeral_3_eq_3)

lemma example_arrays: "batch_arrays (b_n_tokens (example_batch [0, 1, 0] [[0], [0], [1]])) [1, 1, 1] [[0], [0], [1]] [0, 1, 0]"
  by (auto simp: batch_arrays_def example_batch_def less_Suc_eq)

lemma example_given: "b_seq_id (example_batch pos ids) = None \<longleftrightarrow> b_n_seq_id (example_batch pos ids) = None"
  by (simp add: example_batch_def)

lemma batch_init_accepts_witness:
  "batch_acceptable (example_batch [0, 1, 0] [[0], [0], [1]]) 10 None 4 False"
  using batch_init_accepts [OF example_fill example_arrays example_given, of 4 10 8 "allocr_new 1"] example_accepted
  by (simp add: example_init_def example_batch_def)

lemma batch_split_simple_complete_witness:
  "\<exists>st us st' idxss. example_init (example_batch [0, 1, 0] [[0], [0], [1]]) = Inr st \<and> split_all (split_simple 2) st = Some (us, st') \<and>
    al_n_used st' = al_n_tokens st \<and> mset (concat idxss) = mset [0..<al_n_tokens st] \<and> list_all2 (simple_holds 2 (al_base st)) idxss us"
proof -
  obtain st where st: "example_init (example_batch [0, 1, 0] [[0], [0], [1]]) = Inr st" using example_accepted by blast
  from batch_split_simple_complete [OF st [unfolded example_init_def], of 2] st show ?thesis by blast
qed

lemma batch_split_seq_complete_witness:
  "\<exists>st us st' idxss. example_init (example_batch [0, 1, 0] [[0], [0], [1]]) = Inr st \<and> split_all (split_seq 2) st = Some (us, st') \<and>
    al_n_used st' = al_n_tokens st \<and> mset (concat idxss) = mset [0..<al_n_tokens st] \<and> list_all2 (seq_holds 2 (al_base st)) idxss us"
proof -
  obtain st where st: "example_init (example_batch [0, 1, 0] [[0], [0], [1]]) = Inr st" using example_accepted by blast
  from batch_split_seq_complete [OF st [unfolded example_init_def], of 2] st show ?thesis by blast
qed

lemma batch_split_equal_complete_witness:
  "\<exists>st us st' idxss. example_init (example_batch [0, 1, 0] [[0], [0], [1]]) = Inr st \<and> split_all (split_equal 4 True) st = Some (us, st') \<and>
    al_n_used st' = al_n_tokens st \<and> mset (concat idxss) = mset [0..<al_n_tokens st] \<and> list_all2 (equal_holds 4 (al_base st)) idxss us"
proof -
  obtain st where st: "example_init (example_batch [0, 1, 0] [[0], [0], [1]]) = Inr st" using example_accepted by blast
  have ones: "True \<longrightarrow> (\<forall>i<b_n_tokens (example_batch [0, 1, 0] [[0], [0], [1]]). [1, 1, 1 :: int] ! i = 1)"
    by (auto simp: example_batch_def less_Suc_eq)
  from batch_split_equal_complete [OF st [unfolded example_init_def] example_fill example_arrays example_given _ ones, of 4] st show ?thesis by auto
qed

section \<open>What the checks do not enforce\<close>

text \<open>
  C29: the last check of \<open>init\<close>, on subsets of sequences and decreasing positions, refuses no batch at all that reaches it
  (with at least one sequence for every token, rows as long as they say and positions from \<open>-1\<close> on). So \<open>init\<close> accepts the two batches that its comments
  show as invalid: a token whose sequences are a part only of those they were coupled with, and positions that decrease.
\<close>

theorem batch_init_unenforced:
  assumes fill: "fill_batch memory output_all b = (ns, ids, pos, logits)" and arrays: "batch_arrays (b_n_tokens b) ns ids pos"
    and given: "b_seq_id b = None \<longleftrightarrow> b_n_seq_id b = None" and "0 < n_seq_max"
  shows "al_init b n_vocab memory n_embd n_seq_max output_all old \<noteq> Inl (Err_incompatible s) \<and>
    al_init b n_vocab memory n_embd n_seq_max output_all old \<noteq> Inl (Err_decreasing s) \<and>
    (case example_init (example_batch [4, 5, 0, 1, 6, 2, 3] [[0], [0], [1], [1], [0], [1], [0]]) of Inl _ \<Rightarrow> False
     | Inr st \<Rightarrow> al_pos st = [4, 5, 0, 1, 6, 2, 3]) \<and>
    (case example_init (example_batch [0, 1, 1] [[0, 1, 2], [0, 1], [1, 2]]) of Inl _ \<Rightarrow> False
     | Inr st \<Rightarrow> al_seq_id st = [[0, 1, 2], [0, 1], [1, 2]])"
proof (intro conjI)
  let ?st = "init_state b memory n_embd n_seq_max output_all old"
  have other: "validate_tokens n_vocab n toks \<noteq> Some (Err_incompatible s)" "validate_tokens n_vocab n toks \<noteq> Some (Err_decreasing s)"
    "validate_seq_ids n_seq_max n ns' ids' \<noteq> Some (Err_incompatible s)" "validate_seq_ids n_seq_max n ns' ids' \<noteq> Some (Err_decreasing s)"
    "first_err (check_sequence memory st) xs \<noteq> Some (Err_incompatible s)" "first_err (check_sequence memory st) xs \<noteq> Some (Err_decreasing s)"
    "check_coupled memory st \<noteq> Some (Err_incompatible s)" "check_coupled memory st \<noteq> Some (Err_decreasing s)"
    for n toks ns' ids' xs and st :: "'a llama_batch_allocr"
    unfolding validate_tokens_def validate_seq_ids_def check_sequence_def check_coupled_def Let_def
    by (auto dest!: first_err_Some split: option.splits if_splits)
  have pass: "validate_seq_ids n_seq_max (b_n_tokens b) (b_n_seq_id b) (b_seq_id b) = None \<Longrightarrow> n_seq_max \<le> LLAMA_MAX_SEQ \<Longrightarrow>
      \<exists>cur. check_subsets ?st = Inr cur"
    using init_subsets_pass [OF fill arrays, of n_seq_max n_embd old] validate_seq_ids_iff [OF fill given assms(4)] by blast
  show "al_init b n_vocab memory n_embd n_seq_max output_all old \<noteq> Inl (Err_incompatible s)"
    "al_init b n_vocab memory n_embd n_seq_max output_all old \<noteq> Inl (Err_decreasing s)"
    using pass other by (auto simp: al_init_eq Let_def split: option.splits sum.splits)
qed code_simp+

lemma batch_init_unenforced_witness:
  "example_init (example_batch [0, 1, 0] [[0], [0], [1]]) \<noteq> Inl (Err_decreasing 0)"
  using batch_init_unenforced [OF example_fill example_arrays example_given, of 4 10 8 "allocr_new 1" 0] by (simp add: example_init_def)

text \<open>
  A split into equal groups may exceed \<open>n_ubatch\<close>: with \<open>n_ubatch = 1\<close>, two tokens of different
  sequences come out as one micro batch of two tokens.
\<close>

theorem split_equal_oversize:
  "case example_init (example_batch [0, 0] [[0], [1]]) of Inl _ \<Rightarrow> False
   | Inr st \<Rightarrow> (case split_equal 1 True st of None \<Rightarrow> False
       | Some (u, st') \<Rightarrow> map_option ub_n_tokens u = Some 2)"
  by code_simp

text \<open>A token without a sequence is accepted, and then taken twice.\<close>

lemma split_equal_repeats:
  "case example_init (example_batch [0, 1] [[], [0]]\<lparr>b_seq_id := Some [[0], [0]], b_n_seq_id := Some [0, 0]\<rparr>) of Inl _ \<Rightarrow> False
   | Inr st \<Rightarrow> (case split_equal 4 False st of None \<Rightarrow> False
       | Some (u, st') \<Rightarrow> map_option ub_pos u = Some [0, 1, 0, 1] \<and> al_n_used st' = 4 \<and> al_n_tokens st' = 2)"
  by code_simp

end
