(* ===== verification/Grammar_Utf8.thy ===== *)
theory Grammar_Utf8
  imports Refinement
begin

text \<open>
  The two UTF-8 decoders of \<open>src/llama-grammar.cpp\<close>. A C string is a byte list: a pointer into it is
  the list of bytes from there on, and reading at the end or at a zero byte gives the terminator.
  The second decoder resumes a sequence that the previous piece left incomplete. It is compared
  with a decoder of single bytes, for which splitting the input anywhere makes no difference.
\<close>

section \<open>The decoders\<close>

record llama_partial_utf8 =
  pu_value :: u32
  pu_n_remain :: int

text \<open>\<open>*pos\<close>.\<close>

definition deref :: "u8 list \<Rightarrow> u8" where
  "deref s = (case s of [] \<Rightarrow> 0 | b # _ \<Rightarrow> b)"

text \<open>The loop over at most \<open>n\<close> continuation bytes, with the number still missing at its end.\<close>

fun cont_bytes :: "nat \<Rightarrow> u32 \<Rightarrow> u8 list \<Rightarrow> u32 \<times> nat \<times> u8 list" where
  "cont_bytes (Suc n) value (b # s) =
     (if b = 0 then (value, Suc n, b # s) else cont_bytes n (push_bit 6 value + (ucast b AND 0x3F)) s)"
| "cont_bytes n value s = (value, n, s)"

definition decode_utf8_one :: "u8 list \<Rightarrow> u32 \<times> u8 list" where
  "decode_utf8_one src =
     (let first_byte = deref src; highbits = drop_bit 4 first_byte;
          len = [1, 1, 1, 1, 1, 1, 1, 1, 1, 1, 1, 1, 2, 2, 3, 4] ! unat highbits;
          mask = push_bit (8 - len) 1 - 1;
          (value, _, pos) = cont_bytes (len - 1) (ucast (first_byte AND mask)) (tl src)
      in (value, pos))"

text \<open>\<open>lookup[highbits] - 1\<close> of the resuming decoder: the bytes that follow a first byte.\<close>

definition n_following :: "u8 \<Rightarrow> int" where
  "n_following b = [1, 1, 1, 1, 1, 1, 1, 1, 0, 0, 0, 0, 2, 2, 3, 4] ! unat (drop_bit 4 b) - 1"

definition first_bits :: "int \<Rightarrow> u8 \<Rightarrow> u32" where
  "first_bits n_remain b = ucast (b AND (push_bit (nat (7 - n_remain)) 1 - 1))"

text \<open>Its first loop continues the sequence of the previous piece; \<open>None\<close> is the invalid sequence.\<close>

fun resume_bytes :: "nat \<Rightarrow> u32 \<Rightarrow> u8 list \<Rightarrow> (u32 \<times> nat \<times> u8 list) option" where
  "resume_bytes (Suc n) value (b # s) =
     (if b = 0 then Some (value, Suc n, b # s)
      else if drop_bit 6 b \<noteq> 2 then None
      else resume_bytes n (push_bit 6 value + (ucast b AND 0x3F)) s)"
| "resume_bytes n value s = Some (value, n, s)"

lemma cont_bytes_length: "(v', r, s') = cont_bytes n v s \<Longrightarrow> length s' \<le> length s"
  by (induction n v s rule: cont_bytes.induct) (auto split: if_splits)

function decode_rest :: "u8 list \<Rightarrow> u32 list \<Rightarrow> u32 \<Rightarrow> int \<Rightarrow> u32 list \<times> llama_partial_utf8" where
  "decode_rest s code_points value n_remain =
     (if deref s = 0 then (code_points @ [0], \<lparr>pu_value = value, pu_n_remain = n_remain\<rparr>)
      else
        let n = n_following (deref s)
        in if n < 0 then ([0], \<lparr>pu_value = 0, pu_n_remain = n\<rparr>)
           else case cont_bytes (nat n) (first_bits n (deref s)) (tl s) of
             (value, rest, s') \<Rightarrow> decode_rest s' (if rest = 0 then code_points @ [value] else code_points) value (int rest))"
  by pat_completeness auto
termination
proof (relation "measure (\<lambda>(s, _). length s)", goal_cases)
  case (2 s)
  then show ?case by (cases s) (auto simp: deref_def dest!: cont_bytes_length)
qed simp

declare decode_rest.simps [simp del]

definition decode_utf8 :: "u8 list \<Rightarrow> llama_partial_utf8 \<Rightarrow> u32 list \<times> llama_partial_utf8" where
  "decode_utf8 src partial_start =
     (case resume_bytes (nat (pu_n_remain partial_start)) (pu_value partial_start) src of
        None \<Rightarrow> ([0], \<lparr>pu_value = 0, pu_n_remain = -1\<rparr>)
      | Some (value, n, s) \<Rightarrow>
          let n_remain = (if pu_n_remain partial_start > 0 then int n else pu_n_remain partial_start)
          in decode_rest s (if pu_n_remain partial_start > 0 \<and> n_remain = 0 then [value] else []) value n_remain)"


text \<open>The decoded array ends with a zero.\<close>

lemma decode_rest_terminated: "\<exists>cs. fst (decode_rest s cps v n) = cs @ [0]"
proof (induction s cps v n rule: decode_rest.induct)
  case (1 s cps v n)
  then show ?case by (subst decode_rest.simps) (auto simp: Let_def split: prod.splits)
qed

lemma decode_utf8_terminated: "0 \<in> set (fst (decode_utf8 s p))"
proof -
  have "0 \<in> set (fst (decode_rest t cps v n))" for t cps v n using decode_rest_terminated [of t cps v n] by auto
  then show ?thesis by (auto simp: decode_utf8_def Let_def split: option.splits prod.splits)
qed


section \<open>Byte by byte\<close>

text \<open>The code points completed by a byte list, with the value and the missing bytes at its end.\<close>

definition emit :: "nat \<Rightarrow> u32 \<Rightarrow> u32 list \<times> u32 \<times> nat \<Rightarrow> u32 list \<times> u32 \<times> nat" where
  "emit n v r = (if n = 0 then (v # fst r, snd r) else r)"

fun utf8_run :: "u32 \<Rightarrow> nat \<Rightarrow> u8 list \<Rightarrow> u32 list \<times> u32 \<times> nat" where
  "utf8_run v n [] = ([], v, n)"
| "utf8_run v 0 (b # s) =
     (let n = nat (n_following b); v = first_bits (n_following b) b in emit n v (utf8_run v n s))"
| "utf8_run v (Suc n) (b # s) = (let v = push_bit 6 v + (ucast b AND 0x3F) in emit n v (utf8_run v n s))"

text \<open>Bytes that continue a UTF-8 text of which \<open>n\<close> bytes of the current sequence are missing.\<close>

fun utf8_ok :: "nat \<Rightarrow> u8 list \<Rightarrow> bool" where
  "utf8_ok n [] = True"
| "utf8_ok 0 (b # s) = (b \<noteq> 0 \<and> n_following b \<ge> 0 \<and> utf8_ok (nat (n_following b)) s)"
| "utf8_ok (Suc n) (b # s) = (drop_bit 6 b = 2 \<and> utf8_ok n s)"

lemma cont_not_zero: "drop_bit 6 (b :: u8) = 2 \<Longrightarrow> b \<noteq> 0"
  by auto

lemma cont_bytes_run:
  assumes "utf8_ok n s" "cont_bytes n v s = (v', r, s')"
  shows "utf8_ok r s'" "utf8_run v n s = (if n > 0 \<and> r = 0 then emit 0 v' (utf8_run v' r s') else utf8_run v' r s')"
    and "r > 0 \<Longrightarrow> s' = []" "n = 0 \<Longrightarrow> v' = v"
  using assms
proof (induction n v s rule: cont_bytes.induct)
  case (1 n w b s)
  { case 1 then show ?case using "1.IH"(1) cont_not_zero by auto
  next case 2 then show ?case using "1.IH"(2,4) cont_not_zero by (cases n) (auto simp: emit_def Let_def)
  next case 3 then show ?case using "1.IH"(3) cont_not_zero by auto
  next case 4 then show ?case by simp }
qed auto

lemma resume_bytes_cont: "utf8_ok n s \<Longrightarrow> resume_bytes n v s = Some (cont_bytes n v s)"
  by (induction n v s rule: cont_bytes.induct) (auto dest: cont_not_zero)

lemma decode_rest_Nil [simp]: "decode_rest [] cps v n = (cps @ [0], \<lparr>pu_value = v, pu_n_remain = n\<rparr>)"
  by (simp add: decode_rest.simps deref_def)

lemma decode_rest_run:
  assumes "utf8_ok 0 s" "n_remain = 0 \<or> s = []" "0 \<le> n_remain"
  shows "decode_rest s cps v n_remain = (case utf8_run v (nat n_remain) s of
    (cs, v', r) \<Rightarrow> (cps @ cs @ [0], \<lparr>pu_value = v', pu_n_remain = int r\<rparr>))"
  using assms
proof (induction s arbitrary: cps v n_remain rule: length_induct)
  case (1 s)
  show ?case
  proof (cases s)
    case Nil
    then show ?thesis using 1(4) by simp
  next
    case (Cons b t)
    then have b: "b \<noteq> 0" "n_following b \<ge> 0" "utf8_ok (nat (n_following b)) t" "n_remain = 0" using "1.prems" by auto
    obtain v' r s' where c: "cont_bytes (nat (n_following b)) (first_bits (n_following b) b) t = (v', r, s')"
      by (rule prod_cases3)
    note run = cont_bytes_run [OF b(3) c]
    have "length s' < length s" using cont_bytes_length [OF c [symmetric]] Cons by simp
    moreover have "utf8_ok 0 s'" using run(1,3) by (cases r) auto
    ultimately have IH: "decode_rest s' cps' v' (int r) = (case utf8_run v' r s' of
        (cs, v', r) \<Rightarrow> (cps' @ cs @ [0], \<lparr>pu_value = v', pu_n_remain = int r\<rparr>))" for cps'
      using "1.IH" run(3) by (cases r) auto
    show ?thesis using b c IH run(2,4) unfolding Cons
      by (auto simp: decode_rest.simps [of "b # t"] deref_def Let_def emit_def split: prod.splits)
  qed
qed

text \<open>On a continued UTF-8 text the resuming decoder is the decoder of single bytes.\<close>

lemma decode_utf8_run:
  assumes "utf8_ok n s"
  shows "decode_utf8 s \<lparr>pu_value = v, pu_n_remain = int n\<rparr> = (case utf8_run v n s of
    (cs, v', r) \<Rightarrow> (cs @ [0], \<lparr>pu_value = v', pu_n_remain = int r\<rparr>))"
proof -
  obtain v' r s' where c: "cont_bytes n v s = (v', r, s')" by (rule prod_cases3)
  note run = cont_bytes_run [OF assms c]
  have ok: "utf8_ok 0 s'" using run(1,3) by (cases r) auto
  have rest: "decode_rest s' cps v' (int r) = (case utf8_run v' r s' of
      (cs, v', r) \<Rightarrow> (cps @ cs @ [0], \<lparr>pu_value = v', pu_n_remain = int r\<rparr>))" for cps
    using decode_rest_run [OF ok, of "int r" cps v'] run(3) by (cases r) auto
  show ?thesis using run c rest [of "[]"] rest [of "[v']"]
    by (auto simp: decode_utf8_def resume_bytes_cont [OF assms] Let_def emit_def split: prod.splits)
qed

lemma utf8_run_append:
  "utf8_run v n (s @ t) = (case utf8_run v n s of (cs, v', n') \<Rightarrow> (case utf8_run v' n' t of (cs', r) \<Rightarrow> (cs @ cs', r)))"
  by (induction v n s rule: utf8_run.induct) (auto simp: Let_def emit_def split: prod.splits)

lemma utf8_ok_append: "utf8_ok n (s @ t) \<longleftrightarrow> utf8_ok n s \<and> utf8_ok (snd (snd (utf8_run v n s))) t"
  by (induction v n s rule: utf8_run.induct) (auto simp: Let_def emit_def)


section \<open>Round trip and pieces\<close>

text \<open>UTF-8 as the standard defines it, on numbers.\<close>

definition utf8_bytes :: "nat \<Rightarrow> nat list" where
  "utf8_bytes c =
     (if c < 0x80 then [c]
      else if c < 0x800 then [0xC0 + c div 64, 0x80 + c mod 64]
      else if c < 0x10000 then [0xE0 + c div 4096, 0x80 + c div 64 mod 64, 0x80 + c mod 64]
      else [0xF0 + c div 262144, 0x80 + c div 4096 mod 64, 0x80 + c div 64 mod 64, 0x80 + c mod 64])"

definition utf8_encode :: "u32 list \<Rightarrow> u8 list" where
  "utf8_encode cs = concat (map (\<lambda>c. map of_nat (utf8_bytes (unat c))) cs)"

definition is_text :: "u32 list \<Rightarrow> bool" where
  "is_text cs \<longleftrightarrow> (\<forall>c\<in>set cs. 0 < c \<and> c < 0x110000)"

lemma following_table:
  "list_all (\<lambda>q. [1, 1, 1, 1, 1, 1, 1, 1, 0, 0, 0, 0, 2, 2, 3, 4 :: int] ! q - 1 =
     (if q < 8 then 0 else if q < 12 then -1 else if q < 14 then 1 else if q < 15 then 2 else 3)) [0..<16]"
  by code_simp

lemma unat_drop_u8: "i < 256 \<Longrightarrow> unat (drop_bit k (of_nat i :: u8)) = i div 2 ^ k"
  by (simp only: unsigned_drop_bit_eq) (simp add: unat_of_nat drop_bit_eq_div take_bit_eq_mod)

lemma n_following_nat:
  assumes "i < 256"
  shows "n_following (of_nat i) = (if i < 128 then 0 else if i < 192 then -1 else if i < 224 then 1 else if i < 240 then 2 else 3)"
proof -
  have "unat (drop_bit 4 (of_nat i :: u8)) = i div 16"
    using unat_drop_u8 [OF assms, of 4] by simp
  then have "n_following (of_nat i) = [1, 1, 1, 1, 1, 1, 1, 1, 0, 0, 0, 0, 2, 2, 3, 4 :: int] ! (i div 16) - 1"
    by (simp add: n_following_def)
  moreover have "i div 16 < 16" using assms by simp
  then have "i div 16 \<in> set [0..<16]" by simp
  ultimately show ?thesis using following_table unfolding list_all_iff by (auto simp: less_mult_imp_div_less div_less_iff_less_mult)
qed

lemma unat_first_bits:
  assumes "i < 256" "0 \<le> n" "n \<le> 3"
  shows "unat (first_bits n (of_nat i)) = i mod 2 ^ nat (7 - n)"
proof -
  have "push_bit k 1 - 1 = (mask k :: u8)" for k by (simp add: mask_eq_exp_minus_1 push_bit_of_1)
  then have "first_bits n (of_nat i) = ucast (take_bit (nat (7 - n)) (of_nat i :: u8))"
    by (simp add: first_bits_def take_bit_eq_mask)
  moreover have "unat (take_bit k (of_nat i :: u8)) = i mod 2 ^ k" for k
    using assms by (simp only: unsigned_take_bit_eq) (simp add: take_bit_eq_mod unat_of_nat)
  moreover have "i mod 2 ^ nat (7 - n) < 2 ^ 32" using assms by (intro le_less_trans [OF mod_less_eq_dividend]) simp
  ultimately show ?thesis by (simp only: unsigned_ucast_eq) (simp add: take_bit_eq_mod)
qed

lemma unat_next_bits:
  assumes "unat (v :: u32) < 2 ^ 26" "i < 256"
  shows "unat (push_bit 6 v + (ucast (of_nat i :: u8) AND 0x3F)) = unat v * 64 + i mod 64"
proof -
  have "ucast (of_nat i :: u8) AND 0x3F = (take_bit 6 (ucast (of_nat i :: u8)) :: u32)"
    by (simp only: take_bit_eq_mask) (simp add: mask_eq_exp_minus_1)
  also have "unat \<dots> = take_bit 6 (unat (ucast (of_nat i :: u8) :: u32))" by (rule unsigned_take_bit_eq)
  also have "\<dots> = i mod 64" using assms by (simp add: unsigned_ucast_eq unat_of_nat take_bit_eq_mod)
  finally have "unat (ucast (of_nat i :: u8) AND 0x3F :: u32) = i mod 64" .
  moreover have "unat (push_bit 6 v) = unat v * 64" using assms by (simp add: push_bit_eq_mult unat_mult_lem [THEN iffD1])
  moreover have "unat v * 64 + i mod 64 < 2 ^ 32" using assms(1) mod_less_divisor [of 64 i] by simp
  ultimately show ?thesis by (simp add: unat_word_ariths(1))
qed


text \<open>The first byte \<open>a\<close> of a sequence, and a byte that continues it.\<close>

lemma run_first:
  assumes "0 < a" "a < 256" "n_following (of_nat a) = int n" "n \<le> 3" "n > 0" "unat w = a mod 2 ^ (7 - n)"
  shows "utf8_run v 0 (of_nat a # s) = utf8_run w n s" "utf8_ok 0 (of_nat a # s) \<longleftrightarrow> utf8_ok n s"
proof -
  have "first_bits (int n) (of_nat a) = w"
    using assms by (simp add: word_unat_eq_iff unat_first_bits nat_diff_distrib' flip: of_nat_diff)
  moreover have "(of_nat a :: u8) \<noteq> 0" using assms by (simp add: word_unat_eq_iff unat_of_nat)
  ultimately show "utf8_run v 0 (of_nat a # s) = utf8_run w n s" "utf8_ok 0 (of_nat a # s) \<longleftrightarrow> utf8_ok n s"
    using assms by (simp_all add: emit_def)
qed

lemma run_next:
  assumes "128 \<le> a" "a < 192" "unat v < 2 ^ 26" "unat w = unat v * 64 + a mod 64"
  shows "utf8_run v (Suc n) (of_nat a # s) = emit n w (utf8_run w n s)" "utf8_ok (Suc n) (of_nat a # s) \<longleftrightarrow> utf8_ok n s"
proof -
  have "push_bit 6 v + (ucast (of_nat a :: u8) AND 0x3F) = w"
    using assms by (simp add: word_unat_eq_iff unat_next_bits)
  moreover have "drop_bit 6 (of_nat a :: u8) = 2"
    using assms by (intro word_unat_eq_iff [THEN iffD2]) (simp only: unat_drop_u8, simp)
  ultimately show "utf8_run v (Suc n) (of_nat a # s) = emit n w (utf8_run w n s)" "utf8_ok (Suc n) (of_nat a # s) \<longleftrightarrow> utf8_ok n s"
    by (simp_all add: Let_def)
qed


lemma encode_step:
  assumes c: "0 < c" "c < 0x110000"
  shows "utf8_run v 0 (map of_nat (utf8_bytes (unat c)) @ s) = (c # fst (utf8_run c 0 s), snd (utf8_run c 0 s)) \<and>
    (utf8_ok 0 (map of_nat (utf8_bytes (unat c)) @ s) \<longleftrightarrow> utf8_ok 0 s)"
proof -
  define k where "k = unat c"
  have k: "0 < k" "k < 0x110000" using c by (simp_all add: k_def word_less_nat_alt unat_gt_0)
  define w where "w i = (of_nat (k div i) :: u32)" for i
  have w: "unat (w i) = k div i" for i
    using k le_less_trans [OF div_le_dividend [of k i], of "2 ^ 32"] by (simp add: w_def unat_of_nat)
  have ck: "unat c = k" by (simp add: k_def)
  define b where "b i = 0x80 + k div i mod 64" for i
  have b: "128 \<le> b i" "b i < 192" "b i mod 64 = k div i mod 64" for i
    by (simp_all add: b_def mod_add_eq [symmetric, of 128])
  have b1: "0x80 + k mod 64 = b 1" "unat c = unat (w 1)" by (simp_all add: b_def w ck)
  have d: "k div 64 = k div 4096 * 64 + k div 64 mod 64" "k div 4096 = k div 262144 * 64 + k div 4096 mod 64"
    using div_mult_mod_eq [of "k div 64" 64] div_mult_mod_eq [of "k div 4096" 64]
    by (simp_all add: div_mult2_eq [symmetric])
  consider "k < 0x80" | "0x80 \<le> k" "k < 0x800" | "0x800 \<le> k" "k < 0x10000" | "0x10000 \<le> k" by linarith
  then show ?thesis
  proof cases
    case 1
    have "first_bits 0 (of_nat k) = c" using 1 ck by (simp add: word_unat_eq_iff unat_first_bits)
    moreover have "(of_nat k :: u8) \<noteq> 0" using 1 k by (simp add: word_unat_eq_iff unat_of_nat)
    ultimately show ?thesis unfolding ck using 1 by (simp add: utf8_bytes_def n_following_nat emit_def)
  next
    case 2
    define a where "a = 0xC0 + k div 64"
    have "k div 64 < 2 ^ 5" using 2 by auto
    then have a: "0 < a" "a < 256" "n_following (of_nat a) = int 1" "1 \<le> (3 :: nat)" "(0 :: nat) < 1"
      "unat (w 64) = a mod 2 ^ (7 - 1)"
      unfolding w by (simp_all add: a_def n_following_nat mod_add_eq [symmetric, of 192] del: of_nat_add)
    have b2: "unat (w 64) < 2 ^ 26" "unat c = unat (w 64) * 64 + b 1 mod 64" using 2 by (simp_all add: w ck b)
    have "utf8_bytes k = [a, b 1]" using 2 by (simp add: utf8_bytes_def a_def b_def)
    then show ?thesis unfolding ck using run_first [OF a] run_next [OF b(1,2) b2, where n = 0] by (simp add: emit_def del: utf8_run.simps utf8_ok.simps)
  next
    case 3
    define a where "a = 0xE0 + k div 4096"
    have "k div 4096 < 2 ^ 4" using 3 by auto
    then have a: "0 < a" "a < 256" "n_following (of_nat a) = int 2" "2 \<le> (3 :: nat)" "(0 :: nat) < 2"
      "unat (w 4096) = a mod 2 ^ (7 - 2)"
      unfolding w by (simp_all add: a_def n_following_nat mod_add_eq [symmetric, of 224] del: of_nat_add)
    have b2: "unat (w 4096) < 2 ^ 26" "unat (w 64) = unat (w 4096) * 64 + b 64 mod 64"
      "unat (w 64) < 2 ^ 26" "unat c = unat (w 64) * 64 + b 1 mod 64" using 3 d(1) by (simp_all add: w ck b)
    have "utf8_bytes k = [a, b 64, b 1]" using 3 by (simp add: utf8_bytes_def a_def b_def)
    then show ?thesis unfolding ck
      using run_first [OF a] run_next [OF b(1,2) b2(1,2), where n = 1] run_next [OF b(1,2) b2(3,4), where n = 0]
      by (simp add: emit_def numeral_2_eq_2 del: utf8_run.simps utf8_ok.simps)
  next
    case 4
    define a where "a = 0xF0 + k div 262144"
    have "k div 262144 < 5" using 4 k by auto
    then have a: "0 < a" "a < 256" "n_following (of_nat a) = int 3" "3 \<le> (3 :: nat)" "(0 :: nat) < 3"
      "unat (w 262144) = a mod 2 ^ (7 - 3)"
      unfolding w by (simp_all add: a_def n_following_nat mod_add_eq [symmetric, of 240] del: of_nat_add)
    have b2: "unat (w 262144) < 2 ^ 26" "unat (w 4096) = unat (w 262144) * 64 + b 4096 mod 64"
      "unat (w 4096) < 2 ^ 26" "unat (w 64) = unat (w 4096) * 64 + b 64 mod 64"
      "unat (w 64) < 2 ^ 26" "unat c = unat (w 64) * 64 + b 1 mod 64" using 4 k d by (simp_all add: w ck b)
    have "utf8_bytes k = [a, b 4096, b 64, b 1]" using 4 by (simp add: utf8_bytes_def a_def b_def)
    then show ?thesis unfolding ck
      using run_first [OF a] run_next [OF b(1,2) b2(1,2), where n = 2] run_next [OF b(1,2) b2(3,4), where n = 1]
        run_next [OF b(1,2) b2(5,6), where n = 0]
      by (simp add: emit_def numeral_2_eq_2 numeral_3_eq_3 del: utf8_run.simps utf8_ok.simps)
  qed
qed


lemma text_run:
  assumes "is_text cs"
  shows "utf8_run v 0 (utf8_encode cs) = (cs, last (v # cs), 0)" "utf8_ok 0 (utf8_encode cs)"
  using assms
proof (induction cs arbitrary: v)
  case (Cons c cs)
  { case 1
    then have "0 < c" "c < 0x110000" "utf8_run c 0 (utf8_encode cs) = (cs, last (c # cs), 0)"
      using Cons.IH(1) [of c] by (auto simp: is_text_def)
    then show ?case using encode_step [of c v "utf8_encode cs"] by (auto simp: utf8_encode_def)
  next
    case 2
    then have "0 < c" "c < 0x110000" "utf8_ok 0 (utf8_encode cs)" using Cons.IH(2) by (auto simp: is_text_def)
    then show ?case using encode_step [of c v "utf8_encode cs"] by (simp add: utf8_encode_def) }
qed (simp_all add: utf8_encode_def)

text \<open>The code points that a sequence of pieces adds, without the terminators.\<close>

fun decode_pieces :: "u8 list list \<Rightarrow> llama_partial_utf8 \<Rightarrow> u32 list \<times> llama_partial_utf8" where
  "decode_pieces [] p = ([], p)"
| "decode_pieces (x # xs) p =
     (let (cs, p) = decode_utf8 x p; (cs', p) = decode_pieces xs p in (butlast cs @ cs', p))"

definition no_partial :: llama_partial_utf8 where
  "no_partial = \<lparr>pu_value = 0, pu_n_remain = 0\<rparr>"

lemma decode_pieces_run:
  assumes "utf8_ok n (concat ps)"
  shows "decode_pieces ps \<lparr>pu_value = v, pu_n_remain = int n\<rparr> = (case utf8_run v n (concat ps) of
    (cs, v', r) \<Rightarrow> (cs, \<lparr>pu_value = v', pu_n_remain = int r\<rparr>))"
  using assms
proof (induction ps arbitrary: n v)
  case (Cons x ps)
  obtain cs v' r where x: "utf8_run v n x = (cs, v', r)" by (rule prod_cases3)
  from Cons.prems have ok: "utf8_ok n x" "utf8_ok r (concat ps)" using utf8_ok_append [of n x "concat ps" v] x by auto
  show ?case
    using Cons.IH [OF ok(2), of v'] by (auto simp: decode_utf8_run [OF ok(1)] x utf8_run_append split: prod.splits)
qed simp

text \<open>
  C30: However the UTF-8 bytes of a text of non-zero code points are cut into pieces, inside a
  sequence too, the decoder that carries an incomplete sequence from one piece to the next gives
  back exactly the code points of the text, and nothing is left incomplete at the end.
\<close>

theorem utf8_pieces_decode:
  assumes "is_text cs" and "concat pieces = utf8_encode cs"
  shows "fst (decode_pieces pieces no_partial) = cs \<and> pu_n_remain (snd (decode_pieces pieces no_partial)) = 0"
  using decode_pieces_run [of 0 pieces 0] text_run [OF assms(1)] by (simp add: assms(2) no_partial_def)

theorem utf8_pieces_decode_witness:
  "decode_pieces [[0x61, 0xE2], [0x82], [], [0xAC, 0xF0, 0x9F], [0x98, 0x80]] no_partial =
    ([0x61, 0x20AC, 0x1F600], \<lparr>pu_value = 0x1F600, pu_n_remain = 0\<rparr>) \<and>
   fst (decode_pieces [[0x61, 0xE2], [0x82], [], [0xAC, 0xF0, 0x9F], [0x98, 0x80]] no_partial) = [0x61, 0x20AC, 0x1F600]"
proof
  show "decode_pieces [[0x61, 0xE2], [0x82], [], [0xAC, 0xF0, 0x9F], [0x98, 0x80]] no_partial =
    ([0x61, 0x20AC, 0x1F600], \<lparr>pu_value = 0x1F600, pu_n_remain = 0\<rparr>)" by code_simp
  have is_text: "is_text [0x61, 0x20AC, 0x1F600]" by (simp add: is_text_def)
  have pieces: "concat [[0x61, 0xE2], [0x82], [], [0xAC, 0xF0, 0x9F], [0x98, 0x80]] = utf8_encode [0x61, 0x20AC, 0x1F600]"
    by (simp add: utf8_encode_def utf8_bytes_def)
  show "fst (decode_pieces [[0x61, 0xE2], [0x82], [], [0xAC, 0xF0, 0x9F], [0x98, 0x80]] no_partial) = [0x61, 0x20AC, 0x1F600]"
    by (rule utf8_pieces_decode [OF is_text pieces, THEN conjunct1])
qed

end
