(* ===== verification/Grammar.thy ===== *)
theory Grammar
  imports Grammar_Utf8
begin

text \<open>
  Grammar-constrained sampling, \<open>src/llama-grammar.cpp\<close>: the rules, the pushdown stacks of pointers
  into them, matching a code point, advancing a stack to its terminals, accepting a code point, the
  rejection of candidate tokens and the check for left recursion. A pointer to an element is the
  index of its rule with an index in the rule. \<open>None\<close> is a failed assertion, a read outside of a
  rule, or a recursion that does not end.
\<close>

section \<open>Data\<close>

datatype llama_gretype =
    LLAMA_GRETYPE_END
  | LLAMA_GRETYPE_ALT
  | LLAMA_GRETYPE_RULE_REF
  | LLAMA_GRETYPE_CHAR
  | LLAMA_GRETYPE_CHAR_NOT
  | LLAMA_GRETYPE_CHAR_RNG_UPPER
  | LLAMA_GRETYPE_CHAR_ALT
  | LLAMA_GRETYPE_CHAR_ANY

record llama_grammar_element =
  ge_type :: llama_gretype
  ge_value :: u32

type_synonym llama_grammar_rule = "llama_grammar_element list"
type_synonym llama_grammar_rules = "llama_grammar_rule list"
type_synonym element_ptr = "nat \<times> nat"

text \<open>A stack lists its elements from \<open>back()\<close>, its top.\<close>

type_synonym llama_grammar_stack = "element_ptr list"
type_synonym llama_grammar_stacks = "llama_grammar_stack list"

text \<open>The elements from a pointer to the end of its rule.\<close>

definition from_ptr :: "llama_grammar_rules \<Rightarrow> element_ptr \<Rightarrow> llama_grammar_rule" where
  "from_ptr rules p = (if fst p < length rules then drop (snd p) (rules ! fst p) else [])"

definition element_at :: "llama_grammar_rules \<Rightarrow> element_ptr \<Rightarrow> llama_grammar_element option" where
  "element_at rules p = vec_at (from_ptr rules p) 0"

definition ptr_add :: "element_ptr \<Rightarrow> nat \<Rightarrow> element_ptr" where
  "ptr_add p n = (fst p, snd p + n)"

definition is_end_type :: "llama_gretype \<Rightarrow> bool" where
  "is_end_type t \<longleftrightarrow> t = LLAMA_GRETYPE_END \<or> t = LLAMA_GRETYPE_ALT"

definition is_end_of_sequence :: "llama_grammar_rules \<Rightarrow> element_ptr \<Rightarrow> bool option" where
  "is_end_of_sequence rules p = do { e \<leftarrow> element_at rules p; Some (is_end_type (ge_type e)) }"


section \<open>Matching a code point\<close>

text \<open>The loop of \<open>match_char\<close>; \<open>n\<close> counts the elements it has passed.\<close>

function match_loop :: "llama_grammar_rule \<Rightarrow> u32 \<Rightarrow> bool \<Rightarrow> nat \<Rightarrow> (bool \<times> nat) option" where
  "match_loop es chr found n = do {
     e \<leftarrow> vec_at es 0;
     e1 \<leftarrow> vec_at es 1;
     let (found, k) =
       (if ge_type e1 = LLAMA_GRETYPE_CHAR_RNG_UPPER then (found \<or> (ge_value e \<le> chr \<and> chr \<le> ge_value e1), 2)
        else if ge_type e = LLAMA_GRETYPE_CHAR_ANY then (True, 1)
        else (found \<or> ge_value e = chr, 1));
     e' \<leftarrow> vec_at es k;
     if ge_type e' = LLAMA_GRETYPE_CHAR_ALT then match_loop (drop k es) chr found (n + k)
     else Some (found, n + k) }"
  by pat_completeness auto
termination
  by (relation "measure (\<lambda>(es, _). length es)") (auto simp: vec_at_def split: if_splits)

declare match_loop.simps [simp del]

definition is_char_start :: "llama_gretype \<Rightarrow> bool" where
  "is_char_start t \<longleftrightarrow> t = LLAMA_GRETYPE_CHAR \<or> t = LLAMA_GRETYPE_CHAR_ANY \<or> t = LLAMA_GRETYPE_CHAR_NOT"

definition is_positive_char :: "llama_gretype \<Rightarrow> bool" where
  "is_positive_char t \<longleftrightarrow> t = LLAMA_GRETYPE_CHAR \<or> t = LLAMA_GRETYPE_CHAR_ANY"

definition match_char :: "llama_grammar_rules \<Rightarrow> element_ptr \<Rightarrow> u32 \<Rightarrow> (bool \<times> element_ptr) option" where
  "match_char rules pos chr = do {
     e \<leftarrow> element_at rules pos;
     check (is_char_start (ge_type e));
     (found, n) \<leftarrow> match_loop (from_ptr rules pos) chr False 0;
     Some (found = is_positive_char (ge_type e), ptr_add pos n) }"

text \<open>
  The range of code points a partial sequence can complete to. The code computes it in
  \<open>uint32_t\<close>; \<open>1 << (n_remain * 6)\<close> is an \<open>int\<close>.
\<close>

definition partial_range :: "u32 \<Rightarrow> nat \<Rightarrow> u32 \<times> u32" where
  "partial_range partial_value n_remain =
     (let low = push_bit (n_remain * 6) partial_value;
          high = low OR (push_bit (n_remain * 6) 1 - 1);
          low = (if low = 0 then (if n_remain = 2 then push_bit 11 1 else if n_remain = 3 then push_bit 16 1 else low) else low)
      in (low, high))"

function partial_loop :: "llama_grammar_rule \<Rightarrow> u32 \<Rightarrow> u32 \<Rightarrow> bool \<Rightarrow> bool option" where
  "partial_loop es low high positive = do {
     e \<leftarrow> vec_at es 0;
     e1 \<leftarrow> vec_at es 1;
     if ge_type e1 = LLAMA_GRETYPE_CHAR_RNG_UPPER then
       (if ge_value e \<le> high \<and> low \<le> ge_value e1 then Some positive
        else do {
          e' \<leftarrow> vec_at es 2;
          if ge_type e' = LLAMA_GRETYPE_CHAR_ALT then partial_loop (drop 2 es) low high positive else Some (\<not> positive) })
     else if ge_type e = LLAMA_GRETYPE_CHAR_ANY then Some True
     else if low \<le> ge_value e \<and> ge_value e \<le> high then Some positive
     else if ge_type e1 = LLAMA_GRETYPE_CHAR_ALT then partial_loop (drop 1 es) low high positive
     else Some (\<not> positive) }"
  by pat_completeness auto
termination
  by (relation "measure (\<lambda>(es, _). length es)") (auto simp: vec_at_def split: if_splits)

declare partial_loop.simps [simp del]

definition match_partial_char :: "llama_grammar_rules \<Rightarrow> element_ptr \<Rightarrow> llama_partial_utf8 \<Rightarrow> bool option" where
  "match_partial_char rules pos partial = do {
     e \<leftarrow> element_at rules pos;
     check (is_char_start (ge_type e));
     if pu_n_remain partial < 0 \<or> pu_n_remain partial = 1 \<and> pu_value partial < 2 then Some False
     else
       let (low, high) = partial_range (pu_value partial) (nat (pu_n_remain partial))
       in partial_loop (from_ptr rules pos) low high (is_positive_char (ge_type e)) }"


section \<open>Advancing stacks\<close>

text \<open>Where the alternates of a rule start: scanning from \<open>i\<close> over the elements \<open>es\<close>.\<close>

fun alternates_from :: "llama_grammar_rule \<Rightarrow> nat \<Rightarrow> bool \<Rightarrow> nat list option" where
  "alternates_from [] i start = None"
| "alternates_from (e # es) i start = do {
     rest \<leftarrow> (if ge_type e = LLAMA_GRETYPE_END then Some []
              else alternates_from es (i + 1) (ge_type e = LLAMA_GRETYPE_ALT));
     Some (if start then i # rest else rest) }"

definition alternates :: "llama_grammar_rules \<Rightarrow> nat \<Rightarrow> nat list option" where
  "alternates rules r = do { rule \<leftarrow> vec_at rules r; alternates_from rule 0 True }"

text \<open>Push \<open>pos\<close> unless it ends its alternate.\<close>

definition push_rest :: "llama_grammar_rules \<Rightarrow> element_ptr \<Rightarrow> llama_grammar_stack \<Rightarrow> llama_grammar_stack option" where
  "push_rest rules pos stack = do { ends \<leftarrow> is_end_of_sequence rules pos; Some (if ends then stack else pos # stack) }"

definition add_stack :: "llama_grammar_stack \<Rightarrow> llama_grammar_stacks \<Rightarrow> llama_grammar_stacks" where
  "add_stack stack stacks = (if stack \<in> set stacks then stacks else stacks @ [stack])"

partial_function (option) advance_stack ::
    "llama_grammar_rules \<Rightarrow> llama_grammar_stack \<Rightarrow> llama_grammar_stacks \<Rightarrow> llama_grammar_stacks option" where
  "advance_stack rules stack new_stacks =
     (case stack of [] \<Rightarrow> Some (add_stack stack new_stacks)
      | pos # below \<Rightarrow> do {
          e \<leftarrow> element_at rules pos;
          if ge_type e = LLAMA_GRETYPE_RULE_REF then do {
            starts \<leftarrow> alternates rules (unat (ge_value e));
            fold_opt (\<lambda>i new_stacks. do {
                s \<leftarrow> push_rest rules (ptr_add pos 1) below;
                s \<leftarrow> push_rest rules (unat (ge_value e), i) s;
                advance_stack rules s new_stacks }) starts new_stacks }
          else if is_char_start (ge_type e) then Some (add_stack stack new_stacks)
          else None })"

declare advance_stack.simps [code]

lemmas advance_stack_induct = advance_stack.raw_induct [rotated, consumes 1, case_names step]

text \<open>Both initialisations push every alternate of the start rule.\<close>

definition init_stacks :: "llama_grammar_rules \<Rightarrow> nat \<Rightarrow> llama_grammar_stacks option" where
  "init_stacks rules start_rule_index = do {
     starts \<leftarrow> alternates rules start_rule_index;
     fold_opt (\<lambda>i stacks. do { s \<leftarrow> push_rest rules (start_rule_index, i) []; advance_stack rules s stacks }) starts [] }"

definition accept_on :: "llama_grammar_rules \<Rightarrow> u32 \<Rightarrow> llama_grammar_stack \<Rightarrow> llama_grammar_stacks \<Rightarrow> llama_grammar_stacks option" where
  "accept_on rules chr stack stacks_new =
     (case stack of [] \<Rightarrow> Some stacks_new
      | back # below \<Rightarrow> do {
          (matched, pos) \<leftarrow> match_char rules back chr;
          if matched then do { s \<leftarrow> push_rest rules pos below; advance_stack rules s stacks_new }
          else Some stacks_new })"

definition grammar_accept :: "llama_grammar_rules \<Rightarrow> u32 \<Rightarrow> llama_grammar_stacks \<Rightarrow> llama_grammar_stacks option" where
  "grammar_accept rules chr stacks = fold_opt (accept_on rules chr) stacks []"



section \<open>Rejecting candidates\<close>

text \<open>\<open>cd_off\<close> is where the pointer \<open>code_points\<close> of a candidate stands in its decoded array.\<close>

record llama_grammar_candidate =
  cd_index :: nat
  cd_points :: "u32 list"
  cd_off :: nat
  cd_partial :: llama_partial_utf8

text \<open>One round of the loop over the candidates, with the rejected ones and those to go on with.\<close>

definition classify ::
    "llama_grammar_rules \<Rightarrow> element_ptr \<Rightarrow> llama_grammar_candidate \<Rightarrow> llama_grammar_candidate list \<times> llama_grammar_candidate list \<Rightarrow>
     (llama_grammar_candidate list \<times> llama_grammar_candidate list) option" where
  "classify rules stack_pos tok acc = do {
     c \<leftarrow> vec_at (cd_points tok) (cd_off tok);
     if c = 0 then
       (if pu_n_remain (cd_partial tok) = 0 then Some acc
        else do {
          ok \<leftarrow> match_partial_char rules stack_pos (cd_partial tok);
          Some (if ok then acc else (fst acc @ [tok], snd acc)) })
     else do {
       (ok, _) \<leftarrow> match_char rules stack_pos c;
       Some (if ok then (fst acc, snd acc @ [tok\<lparr>cd_off := cd_off tok + 1\<rparr>]) else (fst acc @ [tok], snd acc)) } }"

definition reject_at_end :: "llama_grammar_candidate list \<Rightarrow> llama_grammar_candidate list option" where
  "reject_at_end candidates = fold_opt (\<lambda>tok rejects. do {
     c \<leftarrow> vec_at (cd_points tok) (cd_off tok);
     Some (if c \<noteq> 0 \<or> pu_n_remain (cd_partial tok) \<noteq> 0 then rejects @ [tok] else rejects) }) candidates []"

text \<open>The body of \<open>reject_candidates\<close>, to which the code returns here, is written out.\<close>

partial_function (option) reject_candidates_for_stack ::
    "llama_grammar_rules \<Rightarrow> llama_grammar_stack \<Rightarrow> llama_grammar_candidate list \<Rightarrow> llama_grammar_candidate list option" where
  "reject_candidates_for_stack rules stack candidates =
     (case stack of [] \<Rightarrow> reject_at_end candidates
      | stack_pos # below \<Rightarrow> do {
          (rejects, next_candidates) \<leftarrow> fold_opt (classify rules stack_pos) candidates ([], []);
          (_, stack_pos_after) \<leftarrow> match_char rules stack_pos 0;
          stack_after \<leftarrow> push_rest rules stack_pos_after below;
          next_stacks \<leftarrow> advance_stack rules stack_after [];
          check (next_stacks \<noteq> []);
          next_rejects \<leftarrow> (if next_candidates = [] then Some []
            else fold_opt (\<lambda>stack rejects. reject_candidates_for_stack rules stack rejects) next_stacks next_candidates);
          Some (rejects @ map (\<lambda>tok. tok\<lparr>cd_off := cd_off tok - 1\<rparr>) next_rejects) })"

declare reject_candidates_for_stack.simps [code]

lemmas reject_induct = reject_candidates_for_stack.raw_induct [rotated, consumes 1, case_names step]

definition reject_candidates ::
    "llama_grammar_rules \<Rightarrow> llama_grammar_stacks \<Rightarrow> llama_grammar_candidate list \<Rightarrow> llama_grammar_candidate list option" where
  "reject_candidates rules stacks candidates = do {
     check (stacks \<noteq> []);
     if candidates = [] then Some []
     else fold_opt (\<lambda>stack rejects. reject_candidates_for_stack rules stack rejects) stacks candidates }"


section \<open>Left recursion\<close>

record left_recursion_state =
  rules_visited :: "bool list"
  rules_in_progress :: "bool list"
  rules_may_be_empty :: "bool list"

text \<open>\<open>vector<bool>::operator[]\<close> as the target of an assignment.\<close>

definition vec_set :: "nat \<Rightarrow> 'v \<Rightarrow> 'v list \<Rightarrow> 'v list option" where
  "vec_set i v xs = (if i < length xs then Some (xs[i := v]) else None)"

text \<open>Does the rule have an empty alternate?\<close>

fun has_empty_alternate :: "llama_grammar_rule \<Rightarrow> bool \<Rightarrow> bool" where
  "has_empty_alternate [] at_rule_start = False"
| "has_empty_alternate (e # es) at_rule_start =
     (if is_end_type (ge_type e) then at_rule_start \<or> has_empty_alternate es True else has_empty_alternate es False)"

text \<open>
  The second loop recurs into the leftmost nonterminals; the state is whether left recursion was
  found, \<open>recurse_into_nonterminal\<close> and the three vectors.
\<close>

partial_function (option) detect_left_recursion ::
    "llama_grammar_rules \<Rightarrow> nat \<Rightarrow> left_recursion_state \<Rightarrow> (bool \<times> left_recursion_state) option" where
  "detect_left_recursion rules rule_index st = do {
     busy \<leftarrow> vec_at (rules_in_progress st) rule_index;
     if busy then Some (True, st)
     else do {
       ip \<leftarrow> vec_set rule_index True (rules_in_progress st);
       rule \<leftarrow> vec_at rules rule_index;
       me \<leftarrow> (if has_empty_alternate rule True then vec_set rule_index True (rules_may_be_empty st)
              else Some (rules_may_be_empty st));
       (found, _, st) \<leftarrow> fold_opt (\<lambda>e (found, recurse, st).
          if found then Some (found, recurse, st)
          else if ge_type e = LLAMA_GRETYPE_RULE_REF \<and> recurse then do {
            (found, st) \<leftarrow> detect_left_recursion rules (unat (ge_value e)) st;
            if found then Some (True, recurse, st)
            else do { empty \<leftarrow> vec_at (rules_may_be_empty st) (unat (ge_value e)); Some (False, empty, st) } }
          else Some (False, is_end_type (ge_type e), st)) rule
          (False, True, st\<lparr>rules_in_progress := ip, rules_may_be_empty := me\<rparr>);
       if found then Some (True, st)
       else do {
         ip \<leftarrow> vec_set rule_index False (rules_in_progress st);
         vs \<leftarrow> vec_set rule_index True (rules_visited st);
         Some (False, st\<lparr>rules_in_progress := ip, rules_visited := vs\<rparr>) } } }"

declare detect_left_recursion.simps [code]

lemmas detect_induct = detect_left_recursion.raw_induct [rotated, consumes 1, case_names step]

text \<open>The loop of the two initialisations over the rules that were not visited yet.\<close>

definition find_left_recursion :: "llama_grammar_rules \<Rightarrow> bool option" where
  "find_left_recursion rules =
     (let none = replicate (length rules) False
      in map_option fst (fold_opt (\<lambda>i (found, st).
        if found then Some (found, st)
        else do {
          visited \<leftarrow> vec_at (rules_visited st) i;
          if visited then Some (False, st) else detect_left_recursion rules i st }) [0..<length rules]
        (False, \<lparr>rules_visited = none, rules_in_progress = none, rules_may_be_empty = none\<rparr>)))"

end
