(* ===== verification/Grammar_Lang.thy ===== *)
theory Grammar_Lang
  imports Grammar
begin

text \<open>
  What the pushdown stacks mean. The contract is the language of the grammar: \<open>derives\<close> gives the
  code point strings of the rest of an alternate, a stack derives the concatenations of what its
  elements derive. A nondeterministic pushdown automaton (\<open>advances\<close>, \<open>moves\<close>) stands between the
  contract and the code, which keeps the set of all its stacks.
\<close>

section \<open>Derivations\<close>

inductive derives :: "llama_grammar_rules \<Rightarrow> element_ptr \<Rightarrow> u32 list \<Rightarrow> bool" for rules where
  at_end: "is_end_of_sequence rules p = Some True \<Longrightarrow> derives rules p []"
| at_char: "match_char rules p c = Some (True, q) \<Longrightarrow> derives rules q w \<Longrightarrow> derives rules p (c # w)"
| at_ref: "element_at rules p = Some e \<Longrightarrow> ge_type e = LLAMA_GRETYPE_RULE_REF \<Longrightarrow>
    alternates rules (unat (ge_value e)) = Some starts \<Longrightarrow> i \<in> set starts \<Longrightarrow>
    derives rules (unat (ge_value e), i) u \<Longrightarrow> derives rules (ptr_add p 1) v \<Longrightarrow> derives rules p (u @ v)"

text \<open>What a rule derives: one of its alternates does.\<close>

definition rule_derives :: "llama_grammar_rules \<Rightarrow> nat \<Rightarrow> u32 list \<Rightarrow> bool" where
  "rule_derives rules r w \<longleftrightarrow> (\<exists>starts i. alternates rules r = Some starts \<and> i \<in> set starts \<and> derives rules (r, i) w)"

primrec stack_derives :: "llama_grammar_rules \<Rightarrow> llama_grammar_stack \<Rightarrow> u32 list \<Rightarrow> bool" where
  "stack_derives rules [] w \<longleftrightarrow> w = []"
| "stack_derives rules (p # st) w \<longleftrightarrow> (\<exists>u v. w = u @ v \<and> derives rules p u \<and> stack_derives rules st v)"

definition stacks_derive :: "llama_grammar_rules \<Rightarrow> llama_grammar_stacks \<Rightarrow> u32 list \<Rightarrow> bool" where
  "stacks_derive rules stacks w \<longleftrightarrow> (\<exists>st\<in>set stacks. stack_derives rules st w)"

text \<open>A pointer on a stack never ends its alternate; the top of an advanced stack is a terminal.\<close>

definition inner_ptr :: "llama_grammar_rules \<Rightarrow> element_ptr \<Rightarrow> bool" where
  "inner_ptr rules p \<longleftrightarrow> is_end_of_sequence rules p = Some False"

definition char_ptr :: "llama_grammar_rules \<Rightarrow> element_ptr \<Rightarrow> bool" where
  "char_ptr rules p \<longleftrightarrow> (\<exists>e. element_at rules p = Some e \<and> is_char_start (ge_type e))"

definition stack_ok :: "llama_grammar_rules \<Rightarrow> llama_grammar_stack \<Rightarrow> bool" where
  "stack_ok rules st \<longleftrightarrow> list_all (inner_ptr rules) st"

definition stacks_ok :: "llama_grammar_rules \<Rightarrow> llama_grammar_stacks \<Rightarrow> bool" where
  "stacks_ok rules stacks \<longleftrightarrow> distinct stacks \<and>
     (\<forall>st\<in>set stacks. stack_ok rules st \<and> (st \<noteq> [] \<longrightarrow> char_ptr rules (hd st)))"


section \<open>The automaton\<close>

inductive advances :: "llama_grammar_rules \<Rightarrow> llama_grammar_stack \<Rightarrow> llama_grammar_stack \<Rightarrow> bool" for rules where
  adv_empty: "advances rules [] []"
| adv_char: "char_ptr rules p \<Longrightarrow> advances rules (p # below) (p # below)"
| adv_ref: "element_at rules p = Some e \<Longrightarrow> ge_type e = LLAMA_GRETYPE_RULE_REF \<Longrightarrow>
    alternates rules (unat (ge_value e)) = Some starts \<Longrightarrow> i \<in> set starts \<Longrightarrow>
    push_rest rules (ptr_add p 1) below = Some s1 \<Longrightarrow> push_rest rules (unat (ge_value e), i) s1 = Some s2 \<Longrightarrow>
    advances rules s2 s \<Longrightarrow> advances rules (p # below) s"

inductive_cases advances_ConsE: "advances rules (p # below) s"

definition moves :: "llama_grammar_rules \<Rightarrow> llama_grammar_stack \<Rightarrow> u32 \<Rightarrow> llama_grammar_stack \<Rightarrow> bool" where
  "moves rules st c s \<longleftrightarrow> (\<exists>p below q s1. st = p # below \<and> match_char rules p c = Some (True, q) \<and>
     push_rest rules q below = Some s1 \<and> advances rules s1 s)"

named_theorems ptr_simps \<open>what the element at a pointer says\<close>

lemma end_types [simp]:
  "\<not> is_end_type LLAMA_GRETYPE_RULE_REF" "\<not> is_char_start LLAMA_GRETYPE_RULE_REF" "is_end_type t \<Longrightarrow> \<not> is_char_start t" "is_end_type t \<Longrightarrow> t \<noteq> LLAMA_GRETYPE_RULE_REF" "is_char_start t \<Longrightarrow> t \<noteq> LLAMA_GRETYPE_RULE_REF"
  by (auto simp: is_end_type_def is_char_start_def)

lemma is_end_Some [ptr_simps]: "is_end_of_sequence rules p = Some b \<longleftrightarrow> (\<exists>e. element_at rules p = Some e \<and> b = is_end_type (ge_type e))"
  by (cases "element_at rules p") (auto simp: is_end_of_sequence_def)

lemma match_char_Some:
  "match_char rules p c = Some r \<Longrightarrow> char_ptr rules p"
  by (auto simp: match_char_def char_ptr_def bind_check split: Option.bind_splits if_splits)

lemma char_ptr_inner: "char_ptr rules p \<Longrightarrow> inner_ptr rules p"
  by (auto simp: char_ptr_def inner_ptr_def is_end_Some)

lemma ref_ptr_inner: "element_at rules p = Some e \<Longrightarrow> ge_type e = LLAMA_GRETYPE_RULE_REF \<Longrightarrow> inner_ptr rules p"
  by (auto simp: inner_ptr_def is_end_Some)

lemma inner_ptr_end: "inner_ptr rules p \<Longrightarrow> is_end_of_sequence rules p \<noteq> Some True"
  by (simp add: inner_ptr_def)

lemma push_rest_Some:
  "push_rest rules p st = Some s \<longleftrightarrow>
    is_end_of_sequence rules p = Some True \<and> s = st \<or> inner_ptr rules p \<and> s = p # st"
  by (cases "is_end_of_sequence rules p") (auto simp: push_rest_def inner_ptr_def)

lemma push_rest_ok: "push_rest rules p st = Some s \<Longrightarrow> stack_ok rules st \<Longrightarrow> stack_ok rules s"
  by (auto simp: push_rest_Some stack_ok_def)

lemma derives_end:
  assumes "is_end_of_sequence rules p = Some True"
  shows "derives rules p w \<longleftrightarrow> w = []"
proof
  have "\<not> inner_ptr rules p" using assms inner_ptr_end by blast
  moreover assume "derives rules p w"
  then have "w = [] \<or> inner_ptr rules p"
    by (cases rule: derives.cases) (blast dest: match_char_Some char_ptr_inner ref_ptr_inner)+
  ultimately show "w = []" by blast
qed (use assms in \<open>auto intro: at_end\<close>)

lemma push_rest_derives:
  assumes "push_rest rules p st = Some s"
  shows "stack_derives rules s w \<longleftrightarrow> (\<exists>u v. w = u @ v \<and> derives rules p u \<and> stack_derives rules st v)"
proof (cases "is_end_of_sequence rules p = Some True")
  case True
  then show ?thesis using assms derives_end [OF True] by (simp add: push_rest_Some inner_ptr_def)
next
  case False
  then show ?thesis using assms by (simp add: push_rest_Some)
qed

lemma advances_ok:
  assumes "advances rules st s" "stack_ok rules st"
  shows "stack_ok rules s \<and> (s \<noteq> [] \<longrightarrow> char_ptr rules (hd s))"
  using assms by (induction rule: advances.induct) (auto simp: stack_ok_def dest!: push_rest_ok [unfolded stack_ok_def])

lemma advances_sound:
  assumes "advances rules st s" "stack_derives rules s w"
  shows "stack_derives rules st w"
  using assms
proof (induction arbitrary: w rule: advances.induct)
  case (adv_ref p e starts i below s1 s2 s)
  from adv_ref.IH [OF adv_ref.prems] obtain u v where w: "w = u @ v" "derives rules (unat (ge_value e), i) u" "stack_derives rules s1 v"
    unfolding push_rest_derives [OF adv_ref.hyps(6)] by blast
  from w(3) obtain v1 v2 where v: "v = v1 @ v2" "derives rules (ptr_add p 1) v1" "stack_derives rules below v2"
    unfolding push_rest_derives [OF adv_ref.hyps(5)] by blast
  have "derives rules p (u @ v1)" by (rule derives.at_ref [OF adv_ref.hyps(1-4) w(2) v(2)])
  then show ?case using v(3) unfolding w(1) v(1) by (auto simp: append_assoc [symmetric] simp del: append_assoc)
qed auto

text \<open>Conversely a derivation shows the automaton which alternates to take.\<close>

lemma push_rest_inner: "inner_ptr rules p \<Longrightarrow> push_rest rules p st = Some (p # st)"
  by (simp add: push_rest_Some)

lemma derives_defined: "derives rules p w \<Longrightarrow> \<exists>s. push_rest rules p st = Some s"
  by (cases rule: derives.cases) (auto simp: push_rest_Some dest: match_char_Some char_ptr_inner ref_ptr_inner)

lemma derives_advances:
  assumes "derives rules p u" "push_rest rules p below = Some s"
    and "advances rules below t" "stack_derives rules t v"
  shows "\<exists>t'. advances rules s t' \<and> stack_derives rules t' (u @ v)"
  using assms
proof (induction arbitrary: below s t v rule: derives.induct)
  case (at_end p)
  then show ?case by (auto simp: push_rest_Some inner_ptr_def)
next
  case (at_char p c q w)
  have "inner_ptr rules p" "char_ptr rules p" using at_char.hyps(1) match_char_Some char_ptr_inner by blast+
  then have "s = p # below" using at_char.prems by (simp add: push_rest_Some inner_ptr_def)
  moreover have "stack_derives rules (p # below) (c # w @ v)"
    using derives.at_char [OF at_char.hyps] advances_sound [OF at_char.prems(2,3)]
    unfolding stack_derives.simps by (intro exI [of _ "c # w"] exI [of _ v]) simp
  ultimately show ?case unfolding append_Cons using adv_char [OF \<open>char_ptr rules p\<close>] by blast
next
  case (at_ref p e starts i u1 u2)
  have s: "s = p # below" using at_ref.hyps(1,2) at_ref.prems(1) by (auto simp: push_rest_Some is_end_Some)
  obtain s1 where s1: "push_rest rules (ptr_add p 1) below = Some s1" using derives_defined [OF at_ref.hyps(6)] by blast
  from at_ref.IH(2) [OF s1 at_ref.prems(2,3)] obtain t1 where t1: "advances rules s1 t1" "stack_derives rules t1 (u2 @ v)" by blast
  obtain s2 where s2: "push_rest rules (unat (ge_value e), i) s1 = Some s2" using derives_defined [OF at_ref.hyps(5)] by blast
  from at_ref.IH(1) [OF s2 t1] obtain t2 where t2: "advances rules s2 t2" "stack_derives rules t2 (u1 @ u2 @ v)" by blast
  show ?case using adv_ref [OF at_ref.hyps(1-4) s1 s2 t2(1)] t2(2) s by auto
qed

lemma advances_complete:
  "stack_ok rules st \<Longrightarrow> stack_derives rules st w \<Longrightarrow> \<exists>s. advances rules st s \<and> stack_derives rules s w"
proof (induction st arbitrary: w)
  case Nil
  then show ?case using adv_empty [of rules] by (intro exI [of _ "[]"]) simp
next
  case (Cons p st)
  from Cons.prems(2) obtain u v where w: "w = u @ v" "derives rules p u" "stack_derives rules st v" by auto
  from Cons.IH [OF _ w(3)] Cons.prems(1) obtain t where t: "advances rules st t" "stack_derives rules t v" by (auto simp: stack_ok_def)
  have "push_rest rules p st = Some (p # st)" using Cons.prems(1) by (simp add: push_rest_Some stack_ok_def)
  from derives_advances [OF w(2) this t] show ?case using w(1) by simp
qed

lemma advances_language:
  "stack_ok rules st \<Longrightarrow> (\<exists>s. advances rules st s \<and> stack_derives rules s w) \<longleftrightarrow> stack_derives rules st w"
  using advances_sound advances_complete by blast

text \<open>One code point.\<close>

lemma derives_char:
  assumes "char_ptr rules p"
  shows "derives rules p w \<longleftrightarrow> (\<exists>c q u. w = c # u \<and> match_char rules p c = Some (True, q) \<and> derives rules q u)"
proof
  assume "derives rules p w"
  then show "\<exists>c q u. w = c # u \<and> match_char rules p c = Some (True, q) \<and> derives rules q u"
  proof cases
    case at_end
    then show ?thesis using char_ptr_inner [OF assms] inner_ptr_end by blast
  next
    case (at_ref e)
    then show ?thesis using assms by (auto simp: char_ptr_def)
  qed blast
qed (blast intro: derives.at_char)

lemma moves_language:
  assumes "stack_ok rules st" "st \<noteq> [] \<longrightarrow> char_ptr rules (hd st)"
  shows "(\<exists>s. moves rules st c s \<and> stack_derives rules s w) \<longleftrightarrow> stack_derives rules st (c # w)"
proof (cases st)
  case Nil
  then show ?thesis by (simp add: moves_def)
next
  case (Cons p below)
  have below: "stack_ok rules below" and p: "char_ptr rules p" using assms by (simp_all add: Cons stack_ok_def)
  have first: "derives rules p (c # u) \<longleftrightarrow> (\<exists>q. match_char rules p c = Some (True, q) \<and> derives rules q u)"
    and nonempty: "\<not> derives rules p []" for u
    unfolding derives_char [OF p] by simp_all
  show ?thesis
  proof
    assume "\<exists>s. moves rules st c s \<and> stack_derives rules s w"
    then obtain q s1 s where m: "match_char rules p c = Some (True, q)" "push_rest rules q below = Some s1"
      "advances rules s1 s" "stack_derives rules s w" by (auto simp: moves_def Cons)
    from advances_sound [OF m(3,4)] obtain u v where "w = u @ v" "derives rules q u" "stack_derives rules below v"
      unfolding push_rest_derives [OF m(2)] by blast
    then show "stack_derives rules st (c # w)" using m(1) first [of u]
      unfolding Cons stack_derives.simps by (intro exI [of _ "c # u"] exI [of _ v]) auto
  next
    assume "stack_derives rules st (c # w)"
    then obtain u v where u: "c # w = u @ v" "derives rules p u" "stack_derives rules below v" by (auto simp: Cons)
    then obtain u' where u': "u = c # u'" "w = u' @ v" using nonempty by (cases u) auto
    with u(2) first obtain q where q: "match_char rules p c = Some (True, q)" "derives rules q u'" by auto
    obtain s1 where s1: "push_rest rules q below = Some s1" using derives_defined [OF q(2)] by blast
    have "stack_derives rules s1 w" unfolding push_rest_derives [OF s1] using u' q(2) u(3) by blast
    then obtain s where "advances rules s1 s" "stack_derives rules s w"
      using advances_complete [OF push_rest_ok [OF s1 below]] by blast
    then show "\<exists>s. moves rules st c s \<and> stack_derives rules s w" using q(1) s1 unfolding moves_def Cons by blast
  qed
qed



section \<open>The code keeps the stacks the automaton reaches\<close>

lemma set_add_stack [simp]: "set (add_stack st stacks) = insert st (set stacks)"
  by (auto simp: add_stack_def)

lemma distinct_add_stack [simp]: "distinct stacks \<Longrightarrow> distinct (add_stack st stacks)"
  by (simp add: add_stack_def)

text \<open>A loop that adds to a list of distinct elements.\<close>

lemma fold_opt_collect:
  assumes "fold_opt f xs s = Some s'" "distinct s"
    and "\<And>x s s'. x \<in> set xs \<Longrightarrow> f x s = Some s' \<Longrightarrow> distinct s \<Longrightarrow> distinct s' \<and> set s' = set s \<union> A x"
  shows "distinct s' \<and> set s' = set s \<union> (\<Union>x\<in>set xs. A x)"
  using assms
proof (induction xs arbitrary: s)
  case (Cons x xs)
  from Cons.prems(1) obtain s1 where s1: "f x s = Some s1" "fold_opt f xs s1 = Some s'" by (auto split: Option.bind_splits)
  have one: "distinct s1 \<and> set s1 = set s \<union> A x" using Cons.prems(3) [OF _ s1(1) Cons.prems(2)] by simp
  then have "distinct s' \<and> set s' = set s1 \<union> (\<Union>x\<in>set xs. A x)"
    using Cons.IH [OF s1(2)] Cons.prems(3) by (meson list.set_intros(2))
  with one show ?case by auto
qed simp

lemma advances_empty: "advances rules [] s \<longleftrightarrow> s = []"
  by (auto intro: adv_empty elim: advances.cases)

lemma advances_ref:
  assumes "element_at rules p = Some e" "ge_type e = LLAMA_GRETYPE_RULE_REF" "alternates rules (unat (ge_value e)) = Some starts"
  shows "advances rules (p # below) s \<longleftrightarrow> (\<exists>i\<in>set starts. \<exists>s1 s2. push_rest rules (ptr_add p 1) below = Some s1 \<and>
    push_rest rules (unat (ge_value e), i) s1 = Some s2 \<and> advances rules s2 s)"
proof
  assume "advances rules (p # below) s"
  then show "\<exists>i\<in>set starts. \<exists>s1 s2. push_rest rules (ptr_add p 1) below = Some s1 \<and>
      push_rest rules (unat (ge_value e), i) s1 = Some s2 \<and> advances rules s2 s"
  proof cases
    case adv_char
    then show ?thesis using assms by (auto simp: char_ptr_def)
  next
    case (adv_ref e' starts' i s1 s2)
    have "e' = e" "starts' = starts" using adv_ref(1,3) assms(1,3) by simp_all
    with adv_ref show ?thesis by blast
  qed
qed (use assms in \<open>blast intro: adv_ref\<close>)

lemma advances_char: "char_ptr rules p \<Longrightarrow> advances rules (p # below) s \<longleftrightarrow> s = p # below"
  by (auto elim!: advances_ConsE intro: adv_char simp: char_ptr_def)

lemma advance_stack_collects:
  assumes "advance_stack rules st stacks = Some stacks'" "distinct stacks"
  shows "distinct stacks' \<and> set stacks' = set stacks \<union> {s. advances rules st s}"
  using assms
proof (induction rule: advance_stack_induct)
  case (step f rules st stacks stacks')
  show ?case
  proof (cases st)
    case Nil
    then show ?thesis using step by (auto simp: advances_empty)
  next
    case (Cons p below)
    with step.hyps obtain e where e: "element_at rules p = Some e" by (auto split: Option.bind_splits)
    show ?thesis
    proof (cases "ge_type e = LLAMA_GRETYPE_RULE_REF")
      case True
      let ?r = "unat (ge_value e)"
      let ?A = "\<lambda>i. {s. \<exists>s1 s2. push_rest rules (ptr_add p 1) below = Some s1 \<and> push_rest rules (?r, i) s1 = Some s2 \<and> advances rules s2 s}"
      from step.hyps e True Cons obtain starts where starts: "alternates rules ?r = Some starts" and
        loop: "fold_opt (\<lambda>i new_stacks. do { s \<leftarrow> push_rest rules (ptr_add p 1) below; s \<leftarrow> push_rest rules (?r, i) s; f rules s new_stacks })
          starts stacks = Some stacks'" by (auto split: Option.bind_splits)
      have "distinct stacks' \<and> set stacks' = set stacks \<union> (\<Union>i\<in>set starts. ?A i)"
        by (rule fold_opt_collect [OF loop step.prems]) (auto dest!: step.IH split: Option.bind_splits)
      then show ?thesis unfolding Cons using advances_ref [OF e True starts, of below] by auto
    next
      case False
      then show ?thesis using step e Cons by (auto simp: advances_char char_ptr_def split: if_splits)
    qed
  qed
qed


lemma collected_ok:
  assumes "distinct stacks" "\<And>s. s \<in> set stacks \<Longrightarrow> \<exists>st. stack_ok rules st \<and> advances rules st s"
  shows "stacks_ok rules stacks"
  using assms advances_ok by (fastforce simp: stacks_ok_def)

lemma accept_collects:
  assumes "grammar_accept rules c stacks = Some stacks'"
  shows "distinct stacks' \<and> set stacks' = {s. \<exists>st\<in>set stacks. moves rules st c s}"
proof -
  have "distinct stacks' \<and> set stacks' = set [] \<union> (\<Union>st\<in>set stacks. {s. moves rules st c s})"
  proof (rule fold_opt_collect [OF assms [unfolded grammar_accept_def]])
    fix st s s' assume "accept_on rules c st s = Some s'" "distinct (s :: llama_grammar_stacks)"
    then show "distinct s' \<and> set s' = set s \<union> {s. moves rules st c s}"
      by (cases st) (auto simp: accept_on_def moves_def dest!: advance_stack_collects split: Option.bind_splits if_splits)
  qed simp
  then show ?thesis by auto
qed

lemma moves_ok:
  assumes "moves rules st c s" "stack_ok rules st"
  shows "\<exists>st'. stack_ok rules st' \<and> advances rules st' s"
  using assms push_rest_ok by (fastforce simp: moves_def stack_ok_def)

lemma accept_ok:
  "stacks_ok rules stacks \<Longrightarrow> grammar_accept rules c stacks = Some stacks' \<Longrightarrow> stacks_ok rules stacks'"
  using accept_collects [of rules c stacks stacks'] moves_ok by (intro collected_ok) (auto simp: stacks_ok_def)

lemma accept_language:
  assumes "stacks_ok rules stacks" "grammar_accept rules c stacks = Some stacks'"
  shows "stacks_derive rules stacks' w \<longleftrightarrow> stacks_derive rules stacks (c # w)"
proof -
  have "stacks_derive rules stacks' w \<longleftrightarrow> (\<exists>st\<in>set stacks. \<exists>s. moves rules st c s \<and> stack_derives rules s w)"
    using accept_collects [OF assms(2)] by (auto simp: stacks_derive_def)
  also have "\<dots> \<longleftrightarrow> stacks_derive rules stacks (c # w)"
    using assms(1) moves_language unfolding stacks_derive_def stacks_ok_def by (intro bex_cong refl) auto
  finally show ?thesis .
qed

lemma accept_all:
  assumes "fold_opt (grammar_accept rules) cs stacks = Some stacks'" "stacks_ok rules stacks"
  shows "stacks_ok rules stacks' \<and> (\<forall>w. stacks_derive rules stacks' w \<longleftrightarrow> stacks_derive rules stacks (cs @ w))"
  using assms
proof (induction cs arbitrary: stacks)
  case (Cons c cs)
  then obtain s1 where "grammar_accept rules c stacks = Some s1" "fold_opt (grammar_accept rules) cs s1 = Some stacks'"
    by (auto split: Option.bind_splits)
  with Cons show ?case using accept_ok accept_language by fastforce
qed simp

text \<open>An empty stack is there exactly when the input so far is a sentence.\<close>

lemma empty_stack_derives:
  assumes "stacks_ok rules stacks"
  shows "[] \<in> set stacks \<longleftrightarrow> stacks_derive rules stacks []"
proof -
  have "\<not> stack_derives rules st []" if "st \<in> set stacks" "st \<noteq> []" for st
  proof (cases st)
    case (Cons p below)
    then have "char_ptr rules p" using that assms by (auto simp: stacks_ok_def)
    then show ?thesis by (simp add: Cons derives_char)
  qed (use that in simp)
  then show ?thesis unfolding stacks_derive_def by fastforce
qed

lemma init_set:
  assumes "init_stacks rules r = Some stacks" "alternates rules r = Some starts"
  shows "distinct stacks \<and> set stacks = {s. \<exists>i\<in>set starts. \<exists>st. push_rest rules (r, i) [] = Some st \<and> advances rules st s}"
proof -
  define A where "A i = {s. \<exists>st. push_rest rules (r, i) [] = Some st \<and> advances rules st s}" for i
  from assms have loop: "fold_opt (\<lambda>i stacks. do { s \<leftarrow> push_rest rules (r, i) []; advance_stack rules s stacks }) starts [] = Some stacks"
    by (simp add: init_stacks_def)
  have "distinct stacks \<and> set stacks = set [] \<union> (\<Union>i\<in>set starts. A i)"
    by (rule fold_opt_collect [OF loop]) (auto simp: A_def dest!: advance_stack_collects split: Option.bind_splits)
  then show ?thesis by (auto simp: A_def)
qed

lemma init_collects:
  assumes "init_stacks rules r = Some stacks"
  shows "stacks_ok rules stacks \<and> (\<forall>w. stacks_derive rules stacks w \<longleftrightarrow> rule_derives rules r w)"
proof -
  define A where "A i = {s. \<exists>st. push_rest rules (r, i) [] = Some st \<and> advances rules st s}" for i
  from assms obtain starts where starts: "alternates rules r = Some starts"
    by (auto simp: init_stacks_def split: Option.bind_splits)
  have all: "distinct stacks \<and> set stacks = (\<Union>i\<in>set starts. A i)"
    using init_set [OF assms starts] by (auto simp: A_def)
  have empty: "stack_ok rules []" by (simp add: stack_ok_def)
  have ok: "stack_ok rules st" if "push_rest rules (r, i) [] = Some st" for i st by (rule push_rest_ok [OF that empty])
  have "(\<exists>s\<in>A i. stack_derives rules s w) \<longleftrightarrow> derives rules (r, i) w" for i w
  proof
    assume "\<exists>s\<in>A i. stack_derives rules s w"
    then obtain st s where "push_rest rules (r, i) [] = Some st" "advances rules st s" "stack_derives rules s w" by (auto simp: A_def)
    then show "derives rules (r, i) w" using advances_sound push_rest_derives by fastforce
  next
    assume d: "derives rules (r, i) w"
    then obtain st where st: "push_rest rules (r, i) [] = Some st" using derives_defined by blast
    then have "stack_derives rules st w" using d by (simp add: push_rest_derives)
    then show "\<exists>s\<in>A i. stack_derives rules s w" using advances_complete [OF ok [OF st]] st by (auto simp: A_def)
  qed
  then have "stacks_derive rules stacks w \<longleftrightarrow> rule_derives rules r w" for w
    using all starts by (auto simp: stacks_derive_def rule_derives_def)
  moreover have "stacks_ok rules stacks" using all ok by (intro collected_ok) (auto simp: A_def)
  ultimately show ?thesis by blast
qed

end
