(* ===== verification/Grammar_Reject.thy ===== *)
theory Grammar_Reject
  imports Grammar_Lang
begin

text \<open>
  The rejection of candidate tokens against its contract: a candidate is rejected exactly when no
  stack can consume its code points, the incomplete last one included. The candidates carry
  pointers into decoded arrays, which the recursion moves forward and back.
\<close>

section \<open>The contract\<close>

text \<open>Can the automaton consume the code points from this stack?\<close>

primrec viable :: "llama_grammar_rules \<Rightarrow> llama_partial_utf8 \<Rightarrow> u32 list \<Rightarrow> llama_grammar_stack \<Rightarrow> bool" where
  "viable rules partial [] st \<longleftrightarrow> pu_n_remain partial = 0 \<or>
     (\<exists>p below. st = p # below \<and> match_partial_char rules p partial = Some True)"
| "viable rules partial (c # cs) st \<longleftrightarrow> (\<exists>s. moves rules st c s \<and> viable rules partial cs s)"

text \<open>The code points a candidate still points at, up to the terminating zero.\<close>

definition points_left :: "llama_grammar_candidate \<Rightarrow> u32 list" where
  "points_left tok = takeWhile (\<lambda>c. c \<noteq> 0) (drop (cd_off tok) (cd_points tok))"

definition tok_viable :: "llama_grammar_rules \<Rightarrow> llama_grammar_candidate \<Rightarrow> llama_grammar_stack \<Rightarrow> bool" where
  "tok_viable rules tok st \<longleftrightarrow> viable rules (cd_partial tok) (points_left tok) st"

lemma points_left_at:
  assumes "vec_at (cd_points tok) (cd_off tok) = Some c"
  shows "points_left tok = (if c = 0 then [] else c # points_left (tok\<lparr>cd_off := cd_off tok + 1\<rparr>))"
proof -
  have "drop (cd_off tok) (cd_points tok) = c # drop (cd_off tok + 1) (cd_points tok)"
    using assms by (auto simp: vec_at_def Cons_nth_drop_Suc split: if_splits)
  then show ?thesis by (simp add: points_left_def)
qed


section \<open>One round\<close>

lemma match_loop_next:
  assumes "match_loop es c f n = Some (b, k)"
  shows "match_loop es c' f' n = Some (b', k') \<Longrightarrow> k' = k"
  using assms
proof (induction es c f n arbitrary: f' rule: match_loop.induct)
  case (1 es c f n)
  from "1.prems"(2) obtain e e1 where e: "vec_at es 0 = Some e" "vec_at es 1 = Some e1"
    by (subst (asm) match_loop.simps) (auto split: Option.bind_splits)
  show ?case
  proof (cases "ge_type e1 = LLAMA_GRETYPE_CHAR_RNG_UPPER")
    case True
    with "1.prems" e show ?thesis
      using "1.IH" [OF e] match_loop.simps [of es c f n] match_loop.simps [of es c' f' n]
      by (auto split: Option.bind_splits if_splits)
  next
    case False
    with "1.prems" e show ?thesis
      using "1.IH" [OF e] match_loop.simps [of es c f n] match_loop.simps [of es c' f' n]
      by (auto split: Option.bind_splits if_splits)
  qed
qed

lemma match_char_next:
  "match_char rules p c = Some (b, q) \<Longrightarrow> match_char rules p c' = Some (b', q') \<Longrightarrow> q' = q"
  by (auto simp: match_char_def split: Option.bind_splits dest: match_loop_next)

lemma classify_round:
  assumes "classify rules p tok acc = Some acc'"
  shows "\<exists>c. vec_at (cd_points tok) (cd_off tok) = Some c \<and>
    (if c = 0 then acc' = acc \<and> (pu_n_remain (cd_partial tok) = 0 \<or> match_partial_char rules p (cd_partial tok) = Some True) \<or>
       acc' = (fst acc @ [tok], snd acc) \<and> pu_n_remain (cd_partial tok) \<noteq> 0 \<and> match_partial_char rules p (cd_partial tok) = Some False
     else \<exists>q. acc' = (fst acc, snd acc @ [tok\<lparr>cd_off := cd_off tok + 1\<rparr>]) \<and> match_char rules p c = Some (True, q) \<or>
       acc' = (fst acc @ [tok], snd acc) \<and> match_char rules p c = Some (False, q))"
  using assms by (auto simp: classify_def split: Option.bind_splits if_splits)

text \<open>What a whole round does: \<open>stuck\<close> candidates are rejected, \<open>going\<close> ones go on.\<close>

definition going :: "llama_grammar_rules \<Rightarrow> element_ptr \<Rightarrow> llama_grammar_candidate \<Rightarrow> bool" where
  "going rules p tok \<longleftrightarrow> (\<exists>c q. vec_at (cd_points tok) (cd_off tok) = Some c \<and> c \<noteq> 0 \<and> match_char rules p c = Some (True, q))"

definition done_ok :: "llama_grammar_rules \<Rightarrow> element_ptr \<Rightarrow> llama_grammar_candidate \<Rightarrow> bool" where
  "done_ok rules p tok \<longleftrightarrow> vec_at (cd_points tok) (cd_off tok) = Some 0 \<and>
     (pu_n_remain (cd_partial tok) = 0 \<or> match_partial_char rules p (cd_partial tok) = Some True)"

abbreviation forward :: "llama_grammar_candidate \<Rightarrow> llama_grammar_candidate" where
  "forward tok \<equiv> tok\<lparr>cd_off := Suc (cd_off tok)\<rparr>"

lemma classify_all:
  assumes "fold_opt (classify rules p) toks acc = Some acc'"
  shows "set (fst acc') = set (fst acc) \<union> {t \<in> set toks. \<not> going rules p t \<and> \<not> done_ok rules p t} \<and>
    set (snd acc') = set (snd acc) \<union> forward ` {t \<in> set toks. going rules p t} \<and>
    (\<forall>t\<in>set toks. vec_at (cd_points t) (cd_off t) \<noteq> None)"
  using assms
proof (induction toks arbitrary: acc)
  case (Cons t toks)
  from Cons.prems obtain acc1 where a: "classify rules p t acc = Some acc1" "fold_opt (classify rules p) toks acc1 = Some acc'"
    by (auto split: Option.bind_splits)
  from classify_round [OF a(1)] obtain c where c: "vec_at (cd_points t) (cd_off t) = Some c" and
    one: "set (fst acc1) = set (fst acc) \<union> (if going rules p t \<or> done_ok rules p t then {} else {t})"
    "set (snd acc1) = set (snd acc) \<union> (if going rules p t then {forward t} else {})"
    by (auto simp: going_def done_ok_def split: if_splits)
  show ?case using Cons.IH [OF a(2)] c one by auto
qed auto

lemma tok_viable_cons:
  assumes "vec_at (cd_points tok) (cd_off tok) \<noteq> None"
    and nxt: "match_char rules p 0 = Some (b, q)" "push_rest rules q below = Some s1" "set stacks = {s. advances rules s1 s}"
  shows "tok_viable rules tok (p # below) \<longleftrightarrow> done_ok rules p tok \<or>
    going rules p tok \<and> (\<exists>s\<in>set stacks. tok_viable rules (forward tok) s)"
proof -
  obtain c where c: "vec_at (cd_points tok) (cd_off tok) = Some c" using assms(1) by blast
  have "moves rules (p # below) c s \<longleftrightarrow> s \<in> set stacks \<and> (\<exists>q. match_char rules p c = Some (True, q))" for s
  proof
    assume "moves rules (p # below) c s"
    then obtain q' s2 where "match_char rules p c = Some (True, q')" "push_rest rules q' below = Some s2" "advances rules s2 s"
      unfolding moves_def by blast
    then show "s \<in> set stacks \<and> (\<exists>q. match_char rules p c = Some (True, q))" using nxt match_char_next [OF nxt(1)] by auto
  next
    assume s: "s \<in> set stacks \<and> (\<exists>q. match_char rules p c = Some (True, q))"
    then obtain q' where q': "match_char rules p c = Some (True, q')" by blast
    with match_char_next [OF nxt(1)] nxt s show "moves rules (p # below) c s" unfolding moves_def by blast
  qed
  then show ?thesis using c points_left_at [OF c] by (auto simp: tok_viable_def going_def done_ok_def)
qed


section \<open>The rejection\<close>

lemma reject_at_end_spec:
  assumes "reject_at_end toks = Some rejects"
  shows "set rejects = {t \<in> set toks. \<not> tok_viable rules t []}"
proof -
  define step where "step = (\<lambda>(tok :: llama_grammar_candidate) rejects. do {
     c \<leftarrow> vec_at (cd_points tok) (cd_off tok);
     Some (if c \<noteq> 0 \<or> pu_n_remain (cd_partial tok) \<noteq> 0 then rejects @ [tok] else rejects) })"
  have "set r' = set r \<union> {t \<in> set toks. \<not> tok_viable rules t []}" if "fold_opt step toks r = Some r'" for r r'
    using that
  proof (induction toks arbitrary: r)
    case (Cons t toks)
    then obtain r1 where r1: "step t r = Some r1" "fold_opt step toks r1 = Some r'" by (auto split: Option.bind_splits)
    then obtain c where "vec_at (cd_points t) (cd_off t) = Some c" by (auto simp: step_def split: Option.bind_splits)
    then have "set r1 = set r \<union> (if tok_viable rules t [] then {} else {t})"
      using r1(1) points_left_at [of t c] by (auto simp: step_def tok_viable_def moves_def split: if_splits)
    then show ?case using Cons.IH [OF r1(2)] by auto
  qed simp
  from this [of "[]"] assms show ?thesis by (simp add: reject_at_end_def step_def)
qed

text \<open>Going through the stacks leaves the candidates that every stack rejects.\<close>

lemma reject_over_stacks:
  assumes "fold_opt f stacks toks = Some rejects"
    and "\<And>st toks rejects. st \<in> set stacks \<Longrightarrow> f st toks = Some rejects \<Longrightarrow> set rejects = {t \<in> set toks. \<not> V t st}"
  shows "set rejects = {t \<in> set toks. \<not> (\<exists>st\<in>set stacks. V t st)}"
  using assms
proof (induction stacks arbitrary: toks)
  case (Cons st stacks)
  then obtain r where r: "f st toks = Some r" "fold_opt f stacks r = Some rejects" by (auto split: Option.bind_splits)
  have "set rejects = {t \<in> set r. \<not> (\<exists>st\<in>set stacks. V t st)}" using Cons.IH [OF r(2)] Cons.prems(2) by auto
  then show ?case using Cons.prems(2) [OF _ r(1)] by auto
qed simp

lemma back_and_forward: "(\<lambda>t. t\<lparr>cd_off := cd_off t - 1\<rparr>) ` {t \<in> forward ` A. P t} = {t \<in> A. P (forward t)}"
proof -
  have "(\<lambda>t. t\<lparr>cd_off := cd_off t - 1\<rparr>) (forward t) = t" for t by simp
  then show ?thesis by (force simp: image_iff)
qed

lemma reject_for_stack_spec:
  assumes "reject_candidates_for_stack rules st toks = Some rejects"
  shows "set rejects = {t \<in> set toks. \<not> tok_viable rules t st}"
  using assms
proof (induction rule: reject_induct)
  case (step f rules st toks rejects)
  show ?case
  proof (cases st)
    case Nil
    then show ?thesis using step.hyps reject_at_end_spec by simp
  next
    case (Cons p below)
    from step.hyps obtain rej nxt b q s1 stacks nrej where
      round: "fold_opt (classify rules p) toks ([], []) = Some (rej, nxt)" and
      q: "match_char rules p 0 = Some (b, q)" "push_rest rules q below = Some s1" "advance_stack rules s1 [] = Some stacks" and
      nrej: "(if nxt = [] then Some [] else fold_opt (\<lambda>st rejects. f rules st rejects) stacks nxt) = Some nrej" and
      res: "rejects = rej @ map (\<lambda>t. t\<lparr>cd_off := cd_off t - 1\<rparr>) nrej"
      unfolding Cons by (auto simp: bind_check split: Option.bind_splits prod.splits if_splits)
    have stacks: "set stacks = {s. advances rules s1 s}" using advance_stack_collects [OF q(3)] by simp
    note round = classify_all [OF round]
    have "set nrej = {t \<in> set nxt. \<not> (\<exists>st\<in>set stacks. tok_viable rules t st)}"
      using nrej reject_over_stacks [of "f rules" stacks nxt nrej "tok_viable rules"] step.IH by (auto split: if_splits)
    then have "set rejects = {t \<in> set toks. \<not> going rules p t \<and> \<not> done_ok rules p t} \<union>
        {t \<in> set toks. going rules p t \<and> \<not> (\<exists>s\<in>set stacks. tok_viable rules (forward t) s)}"
      using round back_and_forward [of "{t \<in> set toks. going rules p t}" "\<lambda>t. \<not> (\<exists>st\<in>set stacks. tok_viable rules t st)"]
      by (auto simp: res)
    moreover have "\<not> (going rules p t \<and> done_ok rules p t)" for t by (auto simp: going_def done_ok_def)
    moreover have "tok_viable rules t (p # below) \<longleftrightarrow> done_ok rules p t \<or>
        going rules p t \<and> (\<exists>s\<in>set stacks. tok_viable rules (forward t) s)" if "t \<in> set toks" for t
      using round that by (intro tok_viable_cons [OF _ q(1,2) stacks]) blast
    ultimately show ?thesis unfolding Cons by auto
  qed
qed

lemma reject_candidates_spec:
  assumes "reject_candidates rules stacks toks = Some rejects"
  shows "set rejects = {t \<in> set toks. \<not> (\<exists>st\<in>set stacks. tok_viable rules t st)}"
  using assms reject_over_stacks [of "reject_candidates_for_stack rules" stacks toks rejects "tok_viable rules"] reject_for_stack_spec
  by (auto simp: reject_candidates_def bind_check split: if_splits)

text \<open>For a complete candidate, being viable means that accepting its code points leaves a stack.\<close>

lemma viable_accept:
  assumes "fold_opt (grammar_accept rules) cs stacks = Some stacks'"
  shows "(\<exists>st\<in>set stacks. viable rules partial cs st) \<longleftrightarrow> (\<exists>st\<in>set stacks'. viable rules partial [] st)"
  using assms
proof (induction cs arbitrary: stacks)
  case (Cons c cs)
  then obtain s1 where s1: "grammar_accept rules c stacks = Some s1" "fold_opt (grammar_accept rules) cs s1 = Some stacks'"
    by (auto split: Option.bind_splits)
  then show ?case using Cons.IH [OF s1(2)] accept_collects [OF s1(1)] by auto
qed simp

end
