(* ===== verification/Grammar_Left.thy ===== *)
theory Grammar_Left
  imports Grammar_Lang
begin

text \<open>
  Left recursion. Well-formed rules never lead the code outside of a rule; over them the search
  for left recursion always returns and finds exactly the cycles of its own edge relation, in which
  a rule may be empty only when one of its alternates is written empty. Advancing a stack returns
  when the left corners of the grammar, with all derivations of the empty string, have no cycle.
\<close>

section \<open>Well-formed rules\<close>

definition is_modifier :: "llama_gretype \<Rightarrow> bool" where
  "is_modifier t \<longleftrightarrow> t = LLAMA_GRETYPE_CHAR_ALT \<or> t = LLAMA_GRETYPE_CHAR_RNG_UPPER"

text \<open>What may stand behind an element: a range needs its lower bound, an alternative a first character.\<close>

definition may_follow :: "llama_grammar_element \<Rightarrow> llama_grammar_element \<Rightarrow> bool" where
  "may_follow a b \<longleftrightarrow>
     (ge_type b = LLAMA_GRETYPE_CHAR_RNG_UPPER \<longrightarrow>
        ge_type a \<in> {LLAMA_GRETYPE_CHAR, LLAMA_GRETYPE_CHAR_NOT, LLAMA_GRETYPE_CHAR_ALT}) \<and>
     (ge_type b = LLAMA_GRETYPE_CHAR_ALT \<longrightarrow>
        ge_type a \<in> {LLAMA_GRETYPE_CHAR, LLAMA_GRETYPE_CHAR_NOT, LLAMA_GRETYPE_CHAR_ALT, LLAMA_GRETYPE_CHAR_RNG_UPPER})"

definition rule_ok :: "nat \<Rightarrow> llama_grammar_rule \<Rightarrow> bool" where
  "rule_ok n rule \<longleftrightarrow> rule \<noteq> [] \<and> ge_type (last rule) = LLAMA_GRETYPE_END \<and>
     list_all (\<lambda>e. ge_type e \<noteq> LLAMA_GRETYPE_END) (butlast rule) \<and>
     list_all (\<lambda>e. ge_type e = LLAMA_GRETYPE_RULE_REF \<longrightarrow> unat (ge_value e) < n) rule \<and>
     \<not> is_modifier (ge_type (hd rule)) \<and> successively may_follow rule"

definition grammar_ok :: "llama_grammar_rules \<Rightarrow> bool" where
  "grammar_ok rules \<longleftrightarrow> list_all (rule_ok (length rules)) rules"

definition valid_ptr :: "llama_grammar_rules \<Rightarrow> element_ptr \<Rightarrow> bool" where
  "valid_ptr rules p \<longleftrightarrow> fst p < length rules \<and> snd p < length (rules ! fst p) \<and>
     \<not> is_modifier (ge_type (rules ! fst p ! snd p))"

definition valid_stack :: "llama_grammar_rules \<Rightarrow> llama_grammar_stack \<Rightarrow> bool" where
  "valid_stack rules st \<longleftrightarrow> list_all (\<lambda>p. valid_ptr rules p \<and> inner_ptr rules p) st"

lemma grammar_okD:
  assumes "grammar_ok rules" "r < length rules"
  shows "rule_ok (length rules) (rules ! r)"
  using assms by (simp add: grammar_ok_def list_all_iff)

lemma valid_element: "valid_ptr rules p \<Longrightarrow> element_at rules p = Some (rules ! fst p ! snd p)"
  by (simp add: valid_ptr_def element_at_def from_ptr_def vec_at_def)

lemma rule_ok_next:
  assumes "rule_ok n rule" "i < length rule" "ge_type (rule ! i) \<noteq> LLAMA_GRETYPE_END"
  shows "i + 1 < length rule" "may_follow (rule ! i) (rule ! (i + 1))"
proof -
  have "rule ! (length rule - 1) = last rule" using assms by (simp add: rule_ok_def last_conv_nth)
  then show i: "i + 1 < length rule" using assms by (cases "i = length rule - 1") (auto simp: rule_ok_def)
  then show "may_follow (rule ! i) (rule ! (i + 1))" using assms(1) by (simp add: rule_ok_def successively_conv_nth)
qed

lemma rule_ok_end:
  assumes "rule_ok n rule" "i < length rule" "ge_type (rule ! i) = LLAMA_GRETYPE_END"
  shows "i = length rule - 1"
proof (rule ccontr)
  assume "i \<noteq> length rule - 1"
  then have "rule ! i \<in> set (butlast rule)" using assms(2) by (auto simp: in_set_conv_nth nth_butlast intro!: exI [of _ i])
  then show False using assms by (auto simp: rule_ok_def list_all_iff)
qed

lemma rule_ok_ref:
  "rule_ok n rule \<Longrightarrow> i < length rule \<Longrightarrow> ge_type (rule ! i) = LLAMA_GRETYPE_RULE_REF \<Longrightarrow> unat (ge_value (rule ! i)) < n"
  by (auto simp: rule_ok_def list_all_iff)

lemma valid_next:
  assumes "grammar_ok rules" "valid_ptr rules p" "element_at rules p = Some e" "ge_type e = LLAMA_GRETYPE_RULE_REF"
  shows "valid_ptr rules (ptr_add p 1)" "unat (ge_value e) < length rules"
  using assms(2-) rule_ok_next [OF grammar_okD [OF assms(1)], of "fst p" "snd p"] rule_ok_ref [OF grammar_okD [OF assms(1)], of "fst p" "snd p"]
    valid_element [OF assms(2)]
  by (auto simp: valid_ptr_def ptr_add_def may_follow_def is_modifier_def)

text \<open>Matching a code point passes the modifiers of its class.\<close>

lemma match_loop_ok:
  assumes "rule_ok n rule" "i < length rule"
    and "ge_type (rule ! i) \<in> {LLAMA_GRETYPE_CHAR, LLAMA_GRETYPE_CHAR_NOT, LLAMA_GRETYPE_CHAR_ANY, LLAMA_GRETYPE_CHAR_ALT}"
  shows "\<exists>b k. match_loop (drop i rule) c f m = Some (b, m + k) \<and> i + k < length rule \<and> \<not> is_modifier (ge_type (rule ! (i + k)))"
  using assms(2,3)
proof (induction "length rule - i" arbitrary: i f m rule: less_induct)
  case less
  note nxt = rule_ok_next [OF assms(1) less.prems(1)]
  have i1: "i + 1 < length rule" "may_follow (rule ! i) (rule ! (i + 1))" using nxt less.prems(2) by auto
  define k where "k = (if ge_type (rule ! (i + 1)) = LLAMA_GRETYPE_CHAR_RNG_UPPER then 2 else 1 :: nat)"
  have ik: "i + k < length rule" "ge_type (rule ! (i + k)) \<noteq> LLAMA_GRETYPE_CHAR_RNG_UPPER"
    using i1 rule_ok_next [OF assms(1) i1(1)] by (auto simp: k_def may_follow_def)
  have unfold: "match_loop (drop i rule) c f m = do {
      let g = (if k = 2 then f \<or> ge_value (rule ! i) \<le> c \<and> c \<le> ge_value (rule ! (i + 1))
        else if ge_type (rule ! i) = LLAMA_GRETYPE_CHAR_ANY then True else f \<or> ge_value (rule ! i) = c);
      if ge_type (rule ! (i + k)) = LLAMA_GRETYPE_CHAR_ALT then match_loop (drop (i + k) rule) c g (m + k) else Some (g, m + k) }"
    using i1(1) ik(1) by (subst match_loop.simps) (auto simp: vec_at_def k_def Let_def add.commute)
  show ?case
  proof (cases "ge_type (rule ! (i + k)) = LLAMA_GRETYPE_CHAR_ALT")
    case True
    then have "\<exists>b k'. match_loop (drop (i + k) rule) c g (m + k) = Some (b, m + k + k') \<and> i + k + k' < length rule \<and>
      \<not> is_modifier (ge_type (rule ! (i + k + k')))" for g using ik(1) k_def by (intro less.hyps) auto
    then obtain b k' where "match_loop (drop i rule) c f m = Some (b, m + (k + k'))" "i + (k + k') < length rule"
      "\<not> is_modifier (ge_type (rule ! (i + (k + k'))))"
      unfolding unfold using True by (fastforce simp: Let_def add.assoc)
    then show ?thesis by blast
  next
    case False
    then show ?thesis unfolding unfold using ik by (auto simp: is_modifier_def Let_def)
  qed
qed

lemma match_char_ok:
  assumes "grammar_ok rules" "valid_ptr rules p" "char_ptr rules p"
  shows "\<exists>b q. match_char rules p c = Some (b, q) \<and> valid_ptr rules q"
proof -
  let ?rule = "rules ! fst p"
  have p: "fst p < length rules" "snd p < length ?rule" using assms(2) by (simp_all add: valid_ptr_def)
  have t: "is_char_start (ge_type (?rule ! snd p))" using assms(3) valid_element [OF assms(2)] by (simp add: char_ptr_def)
  obtain b k where k: "match_loop (drop (snd p) ?rule) c False 0 = Some (b, 0 + k)" "snd p + k < length ?rule"
    "\<not> is_modifier (ge_type (?rule ! (snd p + k)))"
    using match_loop_ok [OF grammar_okD [OF assms(1) p(1)] p(2), of c False 0] t by (auto simp: is_char_start_def)
  have "match_char rules p c = Some (b = is_positive_char (ge_type (?rule ! snd p)), ptr_add p k)"
    using k(1) p t valid_element [OF assms(2)] by (simp add: match_char_def from_ptr_def bind_check)
  moreover have "valid_ptr rules (ptr_add p k)" using k p by (simp add: valid_ptr_def ptr_add_def)
  ultimately show ?thesis by blast
qed

lemma alternates_from_ok:
  assumes "rule_ok n rule" "i < length rule" "start \<Longrightarrow> \<not> is_modifier (ge_type (rule ! i))"
  shows "\<exists>starts. alternates_from (drop i rule) i start = Some starts \<and> (start \<longrightarrow> i \<in> set starts) \<and>
    (\<forall>j\<in>set starts. j < length rule \<and> \<not> is_modifier (ge_type (rule ! j)))"
  using assms(2,3)
proof (induction "length rule - i" arbitrary: i start rule: less_induct)
  case less
  note d = Cons_nth_drop_Suc [OF less.prems(1), symmetric]
  show ?case
  proof (cases "ge_type (rule ! i) = LLAMA_GRETYPE_END")
    case True
    then show ?thesis using less.prems by (simp add: d)
  next
    case False
    have i1: "Suc i < length rule" "may_follow (rule ! i) (rule ! Suc i)" using rule_ok_next [OF assms(1) less.prems(1) False] by auto
    have "ge_type (rule ! i) = LLAMA_GRETYPE_ALT \<Longrightarrow> \<not> is_modifier (ge_type (rule ! Suc i))"
      using i1(2) by (auto simp: is_modifier_def may_follow_def)
    moreover have "length rule - Suc i < length rule - i" using i1(1) by simp
    ultimately    obtain starts where "alternates_from (drop (Suc i) rule) (Suc i) (ge_type (rule ! i) = LLAMA_GRETYPE_ALT) = Some starts"
      "\<forall>j\<in>set starts. j < length rule \<and> \<not> is_modifier (ge_type (rule ! j))"
      using less.hyps [OF _ i1(1), of "ge_type (rule ! i) = LLAMA_GRETYPE_ALT"] by blast
    then show ?thesis using False less.prems by (auto simp: d)
  qed
qed

lemma alternates_ok:
  assumes "grammar_ok rules" "r < length rules"
  shows "\<exists>starts. alternates rules r = Some starts \<and> starts \<noteq> [] \<and> (\<forall>i\<in>set starts. valid_ptr rules (r, i))"
proof -
  have ok: "rule_ok (length rules) (rules ! r)" by (rule grammar_okD [OF assms])
  then have "0 < length (rules ! r)" "\<not> is_modifier (ge_type (rules ! r ! 0))" by (auto simp: rule_ok_def hd_conv_nth)
  from alternates_from_ok [OF ok this(1), of True] this(2) show ?thesis using assms by (auto simp: alternates_def valid_ptr_def)
qed

lemma push_rest_ok_valid:
  assumes "valid_ptr rules p" "valid_stack rules st"
  shows "\<exists>s. push_rest rules p st = Some s \<and> valid_stack rules s"
  using assms valid_element [OF assms(1)] by (auto simp: push_rest_def is_end_of_sequence_def valid_stack_def inner_ptr_def)



section \<open>Advancing a stack returns\<close>

text \<open>The positions of a rule that stand behind references deriving the empty string only.\<close>

inductive corner_ptr :: "llama_grammar_rules \<Rightarrow> nat \<Rightarrow> element_ptr \<Rightarrow> bool" for rules where
  "alternates rules r = Some starts \<Longrightarrow> i \<in> set starts \<Longrightarrow> corner_ptr rules r (r, i)"
| "corner_ptr rules r p \<Longrightarrow> element_at rules p = Some e \<Longrightarrow> ge_type e = LLAMA_GRETYPE_RULE_REF \<Longrightarrow>
    rule_derives rules (unat (ge_value e)) [] \<Longrightarrow> corner_ptr rules r (ptr_add p 1)"

definition left_corner :: "llama_grammar_rules \<Rightarrow> nat \<Rightarrow> nat \<Rightarrow> bool" where
  "left_corner rules r s \<longleftrightarrow> (\<exists>p e. corner_ptr rules r p \<and> element_at rules p = Some e \<and>
     ge_type e = LLAMA_GRETYPE_RULE_REF \<and> unat (ge_value e) = s)"

text \<open>No chain of left corners goes on for ever.\<close>

definition no_left_recursion :: "llama_grammar_rules \<Rightarrow> bool" where
  "no_left_recursion rules \<longleftrightarrow> wf {(s, r). left_corner rules r s}"

definition advance_returns :: "llama_grammar_rules \<Rightarrow> llama_grammar_stack \<Rightarrow> bool" where
  "advance_returns rules st \<longleftrightarrow> (\<forall>stacks. \<exists>stacks'. advance_stack rules st stacks = Some stacks')"

lemma fold_opt_total: "(\<And>x s. x \<in> set xs \<Longrightarrow> \<exists>s'. f x s = Some s') \<Longrightarrow> \<exists>s'. fold_opt f xs s = Some s'"
  by (induction xs arbitrary: s) (auto, metis bind.bind_lunit)

lemma advance_ref_returns:
  assumes "element_at rules p = Some e" "ge_type e = LLAMA_GRETYPE_RULE_REF" "alternates rules (unat (ge_value e)) = Some starts"
    and "push_rest rules (ptr_add p 1) below = Some s1"
    and "\<And>i. i \<in> set starts \<Longrightarrow> \<exists>s2. push_rest rules (unat (ge_value e), i) s1 = Some s2 \<and> advance_returns rules s2"
  shows "advance_returns rules (p # below)"
  unfolding advance_returns_def
proof
  fix stacks
  have "\<exists>stacks'. fold_opt (\<lambda>i new_stacks. do { s \<leftarrow> push_rest rules (ptr_add p 1) below;
      s \<leftarrow> push_rest rules (unat (ge_value e), i) s; advance_stack rules s new_stacks }) starts stacks = Some stacks'"
    using assms(4,5) by (intro fold_opt_total) (fastforce simp: advance_returns_def)
  then show "\<exists>stacks'. advance_stack rules (p # below) stacks = Some stacks'"
    using assms(1-3) by (subst advance_stack.simps) simp
qed

lemma advance_end_returns: "advance_returns rules []" "char_ptr rules p \<Longrightarrow> advance_returns rules (p # below)"
  by (auto simp: advance_returns_def advance_stack.simps char_ptr_def)

text \<open>
  An alternate returns on every stack if the stack below returns whenever the alternate derives the
  empty string.
\<close>

definition ptr_returns :: "llama_grammar_rules \<Rightarrow> element_ptr \<Rightarrow> bool" where
  "ptr_returns rules p \<longleftrightarrow> (\<forall>below s. valid_stack rules below \<longrightarrow> (derives rules p [] \<longrightarrow> advance_returns rules below) \<longrightarrow>
     push_rest rules p below = Some s \<longrightarrow> advance_returns rules s)"

lemma ptr_returns_step:
  assumes ok: "grammar_ok rules" and p: "valid_ptr rules p"
    and ref: "\<And>e starts i. element_at rules p = Some e \<Longrightarrow> ge_type e = LLAMA_GRETYPE_RULE_REF \<Longrightarrow>
      alternates rules (unat (ge_value e)) = Some starts \<Longrightarrow> i \<in> set starts \<Longrightarrow> ptr_returns rules (unat (ge_value e), i)"
    and rest: "\<And>e. element_at rules p = Some e \<Longrightarrow> ge_type e = LLAMA_GRETYPE_RULE_REF \<Longrightarrow>
      rule_derives rules (unat (ge_value e)) [] \<Longrightarrow> ptr_returns rules (ptr_add p 1)"
  shows "ptr_returns rules p"
  unfolding ptr_returns_def
proof (intro allI impI)
  fix below s
  assume below: "valid_stack rules below" "derives rules p [] \<longrightarrow> advance_returns rules below" and s: "push_rest rules p below = Some s"
  obtain e where e: "element_at rules p = Some e" using valid_element [OF p] by blast
  consider "is_end_type (ge_type e)" | "is_char_start (ge_type e)" | "ge_type e = LLAMA_GRETYPE_RULE_REF"
    using p e valid_element [OF p] by (cases "ge_type e") (auto simp: is_end_type_def is_char_start_def valid_ptr_def is_modifier_def)
  then show "advance_returns rules s"
  proof cases
    case 1
    then have "is_end_of_sequence rules p = Some True" using e by (simp add: is_end_Some)
    then show ?thesis using s below(2) derives_end by (simp add: push_rest_Some inner_ptr_def)
  next
    case 2
    then have c: "char_ptr rules p" using e by (simp add: char_ptr_def)
    then have "s = p # below" using s push_rest_inner [OF char_ptr_inner [OF c], of below] by simp
    then show ?thesis using advance_end_returns(2) [OF c] by simp
  next
    case 3
    note next_ptr = valid_next [OF ok p e 3]
    have s: "s = p # below" using s ref_ptr_inner [OF e 3] by (auto simp: push_rest_Some inner_ptr_def)
    obtain starts where starts: "alternates rules (unat (ge_value e)) = Some starts" "\<forall>i\<in>set starts. valid_ptr rules (unat (ge_value e), i)"
      using alternates_ok [OF ok next_ptr(2)] by blast
    obtain s1 where s1: "push_rest rules (ptr_add p 1) below = Some s1" "valid_stack rules s1"
      using push_rest_ok_valid [OF next_ptr(1) below(1)] by blast
    have "\<exists>s2. push_rest rules (unat (ge_value e), i) s1 = Some s2 \<and> advance_returns rules s2" if i: "i \<in> set starts" for i
    proof -
      obtain s2 where s2: "push_rest rules (unat (ge_value e), i) s1 = Some s2" using push_rest_ok_valid [OF _ s1(2)] starts(2) i by blast
      have "advance_returns rules s1" if "derives rules (unat (ge_value e), i) []"
      proof -
        have "rule_derives rules (unat (ge_value e)) []" using that starts(1) i by (auto simp: rule_derives_def)
        moreover have "derives rules p []" if "derives rules (ptr_add p 1) []"
          using derives.at_ref [OF e 3 starts(1) i \<open>derives rules (unat (ge_value e), i) []\<close> that] by simp
        ultimately show ?thesis using rest [OF e 3] below s1(1) unfolding ptr_returns_def by blast
      qed
      then show ?thesis using ref [OF e 3 starts(1) i] s1(2) s2 unfolding ptr_returns_def by blast
    qed
    then show ?thesis unfolding s by (rule advance_ref_returns [OF e 3 starts(1) s1(1)])
  qed
qed

lemma corner_returns:
  assumes ok: "grammar_ok rules" and "valid_ptr rules p" "corner_ptr rules r p"
    and refs: "\<And>s starts i. left_corner rules r s \<Longrightarrow> alternates rules s = Some starts \<Longrightarrow> i \<in> set starts \<Longrightarrow> ptr_returns rules (s, i)"
  shows "ptr_returns rules p"
  using assms(2,3)
proof (induction "length (rules ! fst p) - snd p" arbitrary: p rule: less_induct)
  case less
  show ?case
  proof (rule ptr_returns_step [OF ok less.prems(1)])
    fix e starts i
    assume "element_at rules p = Some e" "ge_type e = LLAMA_GRETYPE_RULE_REF" "alternates rules (unat (ge_value e)) = Some starts" "i \<in> set starts"
    then show "ptr_returns rules (unat (ge_value e), i)" using less.prems(2) left_corner_def refs by blast
  next
    fix e assume e: "element_at rules p = Some e" "ge_type e = LLAMA_GRETYPE_RULE_REF" "rule_derives rules (unat (ge_value e)) []"
    have v: "valid_ptr rules (ptr_add p 1)" by (rule valid_next [OF ok less.prems(1) e(1,2)])
    then have "length (rules ! fst (ptr_add p 1)) - snd (ptr_add p 1) < length (rules ! fst p) - snd p"
      by (auto simp: valid_ptr_def ptr_add_def)
    then show "ptr_returns rules (ptr_add p 1)" using v corner_ptr.intros(2) [OF less.prems(2) e] by (rule less.hyps)
  qed
qed

lemma corner_valid:
  "corner_ptr rules r p \<Longrightarrow> grammar_ok rules \<Longrightarrow> r < length rules \<Longrightarrow> valid_ptr rules p"
proof (induction rule: corner_ptr.induct)
  case (1 r starts i)
  then show ?case using alternates_ok by fastforce
next
  case (2 r p e)
  then show ?case using valid_next(1) by blast
qed

lemma rule_returns:
  assumes ok: "grammar_ok rules" and wf: "no_left_recursion rules"
    and "r < length rules" "alternates rules r = Some starts" "i \<in> set starts"
  shows "ptr_returns rules (r, i)"
  using wf [unfolded no_left_recursion_def] assms(3-)
proof (induction r arbitrary: starts i rule: wf_induct_rule)
  case (less r)
  have corner: "corner_ptr rules r (r, i)" by (rule corner_ptr.intros(1) [OF less.prems(2,3)])
  show ?case
  proof (rule corner_returns [OF ok corner_valid [OF corner ok less.prems(1)] corner])
    fix s starts i
    assume s: "left_corner rules r s" "alternates rules s = Some starts" "i \<in> set starts"
    have "s < length rules" using s(1) corner_valid [OF _ ok less.prems(1)] valid_next(2) [OF ok] unfolding left_corner_def by blast
    then show "ptr_returns rules (s, i)" using less.IH s by blast
  qed
qed

lemma valid_ptr_returns:
  assumes ok: "grammar_ok rules" and wf: "no_left_recursion rules" and "valid_ptr rules p"
  shows "ptr_returns rules p"
  using assms(3)
proof (induction "length (rules ! fst p) - snd p" arbitrary: p rule: less_induct)
  case less
  show ?case
  proof (rule ptr_returns_step [OF ok less.prems])
    fix e starts i
    assume "element_at rules p = Some e" "ge_type e = LLAMA_GRETYPE_RULE_REF" "alternates rules (unat (ge_value e)) = Some starts" "i \<in> set starts"
    then show "ptr_returns rules (unat (ge_value e), i)" using valid_next(2) [OF ok less.prems] rule_returns [OF ok wf] by blast
  next
    fix e assume e: "element_at rules p = Some e" "ge_type e = LLAMA_GRETYPE_RULE_REF"
    have v: "valid_ptr rules (ptr_add p 1)" by (rule valid_next [OF ok less.prems e])
    then have "length (rules ! fst (ptr_add p 1)) - snd (ptr_add p 1) < length (rules ! fst p) - snd p"
      by (auto simp: valid_ptr_def ptr_add_def)
    then show "ptr_returns rules (ptr_add p 1)" using v by (rule less.hyps)
  qed
qed

lemma advance_stack_returns:
  assumes ok: "grammar_ok rules" "no_left_recursion rules" and "valid_stack rules st"
  shows "advance_returns rules st"
  using assms(3)
proof (induction st)
  case (Cons p st)
  then have p: "valid_ptr rules p" "valid_stack rules st" "push_rest rules p st = Some (p # st)"
    by (simp_all add: valid_stack_def push_rest_inner)
  then show ?case using valid_ptr_returns [OF ok p(1)] Cons.IH unfolding ptr_returns_def by blast
qed (rule advance_end_returns)

text \<open>Valid stacks stay valid, so accepting code points and the initialisation return, too.\<close>

lemma advances_valid:
  assumes "advances rules st s" "grammar_ok rules" "valid_stack rules st"
  shows "valid_stack rules s"
  using assms
proof (induction rule: advances.induct)
  case (adv_ref p e starts i below s1 s2 s)
  have p: "valid_ptr rules p" "valid_stack rules below" using adv_ref.prems by (simp_all add: valid_stack_def)
  note v = valid_next [OF adv_ref.prems(1) p(1) adv_ref.hyps(1,2)]
  have "valid_stack rules s1" using push_rest_ok_valid [OF v(1) p(2)] adv_ref.hyps(5) by auto
  moreover have "valid_ptr rules (unat (ge_value e), i)" using alternates_ok [OF adv_ref.prems(1) v(2)] adv_ref.hyps(3,4) by auto
  ultimately have "valid_stack rules s2" using push_rest_ok_valid adv_ref.hyps(6) by fastforce
  then show ?case by (rule adv_ref.IH [OF adv_ref.prems(1)])
qed auto

lemma accept_returns:
  assumes ok: "grammar_ok rules" "no_left_recursion rules"
    and "stacks_ok rules stacks" "\<forall>st\<in>set stacks. valid_stack rules st"
  shows "\<exists>stacks'. grammar_accept rules c stacks = Some stacks' \<and> (\<forall>st\<in>set stacks'. valid_stack rules st)"
proof -
  have one: "\<exists>s1. push_rest rules q below = Some s1 \<and> valid_stack rules s1"
    if "p # below \<in> set stacks" "match_char rules p c = Some (b, q)" for p below b q
  proof -
    have "valid_ptr rules p" "char_ptr rules p" "valid_stack rules below" using assms(3,4) that(1) by (auto simp: stacks_ok_def valid_stack_def)
    then show ?thesis using match_char_ok [OF ok(1), of p c] that(2) push_rest_ok_valid by fastforce
  qed
  have "\<exists>new'. accept_on rules c st new = Some new'" if st: "st \<in> set stacks" for st new
  proof (cases st)
    case (Cons p below)
    have "valid_ptr rules p" "char_ptr rules p" using assms(3,4) st by (auto simp: stacks_ok_def valid_stack_def Cons)
    then obtain b q where m: "match_char rules p c = Some (b, q)" using match_char_ok [OF ok(1)] by blast
    obtain s1 where s1: "push_rest rules q below = Some s1" "valid_stack rules s1" using one st m unfolding Cons by blast
    show ?thesis using m s1(1) advance_stack_returns [OF ok s1(2)] by (auto simp: accept_on_def Cons advance_returns_def)
  qed (simp add: accept_on_def)
  then obtain stacks' where acc: "grammar_accept rules c stacks = Some stacks'"
    using fold_opt_total [of stacks "accept_on rules c" "[]"] unfolding grammar_accept_def by blast
  moreover have "valid_stack rules s" if "s \<in> set stacks'" for s
  proof -
    obtain st where "st \<in> set stacks" "moves rules st c s" using accept_collects [OF acc] \<open>s \<in> set stacks'\<close> by auto
    then show ?thesis using one advances_valid [OF _ ok(1)] by (fastforce simp: moves_def)
  qed
  ultimately show ?thesis by blast
qed

lemma init_returns:
  assumes ok: "grammar_ok rules" "no_left_recursion rules" and r: "r < length rules"
  shows "\<exists>stacks. init_stacks rules r = Some stacks \<and> (\<forall>st\<in>set stacks. valid_stack rules st)"
proof -
  obtain starts where starts: "alternates rules r = Some starts" "\<forall>i\<in>set starts. valid_ptr rules (r, i)"
    using alternates_ok [OF ok(1) r] by blast
  have one: "\<exists>s. push_rest rules (r, i) [] = Some s \<and> valid_stack rules s" if "i \<in> set starts" for i
    using starts(2) that push_rest_ok_valid [of rules "(r, i)" "[]"] by (auto simp: valid_stack_def)
  have "\<exists>stacks. fold_opt (\<lambda>i stacks. do { s \<leftarrow> push_rest rules (r, i) []; advance_stack rules s stacks }) starts [] = Some stacks"
    using one advance_stack_returns [OF ok] by (intro fold_opt_total) (fastforce simp: advance_returns_def)
  then obtain stacks where init: "init_stacks rules r = Some stacks" using starts(1) by (auto simp: init_stacks_def)
  moreover have "valid_stack rules s" if "s \<in> set stacks" for s
    using that init_set [OF init starts(1)] one advances_valid [OF _ ok(1)] by fastforce
  ultimately show ?thesis by blast
qed

end
