(* ===== verification/Grammar_Cycle.thy ===== *)
theory Grammar_Cycle
  imports Grammar_Left
begin

text \<open>
  The depth-first search for left recursion: it returns on every well-formed grammar, and reports
  exactly the cycles of the edges it follows. Those edges are the left corners of the grammar when
  every rule that derives the empty string has an alternate written empty.
\<close>

section \<open>The edges the search follows\<close>

definition written_empty :: "llama_grammar_rules \<Rightarrow> nat \<Rightarrow> bool" where
  "written_empty rules r \<longleftrightarrow> r < length rules \<and> has_empty_alternate (rules ! r) True"

fun leftmost :: "(nat \<Rightarrow> bool) \<Rightarrow> llama_grammar_rule \<Rightarrow> bool \<Rightarrow> nat list" where
  "leftmost nul [] recurse = []"
| "leftmost nul (e # es) recurse =
     (if ge_type e = LLAMA_GRETYPE_RULE_REF \<and> recurse
      then unat (ge_value e) # leftmost nul es (nul (unat (ge_value e)))
      else leftmost nul es (is_end_type (ge_type e)))"

definition search_edge :: "llama_grammar_rules \<Rightarrow> nat \<Rightarrow> nat \<Rightarrow> bool" where
  "search_edge rules r s \<longleftrightarrow> r < length rules \<and> s \<in> set (leftmost (written_empty rules) (rules ! r) True)"

text \<open>No path from \<open>r\<close> meets \<open>P\<close> or itself.\<close>

inductive safe :: "llama_grammar_rules \<Rightarrow> nat set \<Rightarrow> nat \<Rightarrow> bool" for rules where
  "r \<notin> P \<Longrightarrow> (\<And>s. search_edge rules r s \<Longrightarrow> safe rules (insert r P) s) \<Longrightarrow> safe rules P r"

inductive_cases safeE: "safe rules P r"

lemma safe_iff: "safe rules P r \<longleftrightarrow> r \<notin> P \<and> (\<forall>s. search_edge rules r s \<longrightarrow> safe rules (insert r P) s)"
  by (auto intro: safe.intros elim: safeE)

abbreviation edge_rel :: "llama_grammar_rules \<Rightarrow> (nat \<times> nat) set" where
  "edge_rel rules \<equiv> {(s, r). search_edge rules r s}"

lemma safe_acc: "safe rules P r \<Longrightarrow> r \<in> Wellfounded.acc (edge_rel rules)"
  by (induction rule: safe.induct) (auto intro: acc.intros)

lemma acc_no_cycle: "x \<in> Wellfounded.acc R \<Longrightarrow> (x, x) \<notin> R\<^sup>+"
proof (induction rule: acc.induct)
  case (accI x)
  show ?case
  proof
    assume "(x, x) \<in> R\<^sup>+"
    then obtain z where "(x, z) \<in> R\<^sup>*" "(z, x) \<in> R" by (auto dest: tranclD2)
    then show False using accI.IH by (meson rtrancl_into_trancl2)
  qed
qed

lemma acc_safe:
  assumes "r \<in> Wellfounded.acc (edge_rel rules)" "\<And>p. p \<in> P \<Longrightarrow> (r, p) \<in> (edge_rel rules)\<^sup>+"
  shows "safe rules P r"
  using assms
proof (induction arbitrary: P rule: acc.induct)
  case (accI r)
  have "r \<in> Wellfounded.acc (edge_rel rules)" by (rule acc.intros) (rule accI.hyps)
  then have "(r, r) \<notin> (edge_rel rules)\<^sup>+" by (rule acc_no_cycle)
  then have "r \<notin> P" using accI.prems [of r] by blast
  moreover have "safe rules (insert r P) s" if s: "search_edge rules r s" for s
  proof (rule accI.IH)
    show "(s, r) \<in> edge_rel rules" using s by simp
    fix p assume "p \<in> insert r P"
    then show "(s, p) \<in> (edge_rel rules)\<^sup>+" using accI.prems s by (auto intro: trancl_into_trancl2)
  qed
  ultimately show ?case by (rule safe.intros)
qed


section \<open>The search computes \<open>safe\<close>\<close>

definition search_inv :: "llama_grammar_rules \<Rightarrow> nat set \<Rightarrow> left_recursion_state \<Rightarrow> bool" where
  "search_inv rules P st \<longleftrightarrow>
     length (rules_visited st) = length rules \<and> length (rules_in_progress st) = length rules \<and>
     length (rules_may_be_empty st) = length rules \<and>
     (\<forall>i<length rules. rules_in_progress st ! i \<longleftrightarrow> i \<in> P) \<and>
     (\<forall>i<length rules. rules_may_be_empty st ! i \<longrightarrow> written_empty rules i) \<and>
     (\<forall>i<length rules. rules_visited st ! i \<longrightarrow>
        (rules_may_be_empty st ! i \<longleftrightarrow> written_empty rules i) \<and> i \<in> Wellfounded.acc (edge_rel rules))"

definition no_fewer :: "left_recursion_state \<Rightarrow> left_recursion_state \<Rightarrow> bool" where
  "no_fewer st st' \<longleftrightarrow> (\<forall>i<length (rules_visited st). rules_visited st ! i \<longrightarrow> rules_visited st' ! i) \<and>
     (\<forall>i<length (rules_may_be_empty st). rules_may_be_empty st ! i \<longrightarrow> rules_may_be_empty st' ! i)"

definition searched :: "llama_grammar_rules \<Rightarrow> nat set \<Rightarrow> left_recursion_state \<Rightarrow> nat \<Rightarrow> bool \<Rightarrow> left_recursion_state \<Rightarrow> bool" where
  "searched rules P st r found st' \<longleftrightarrow> (found \<longleftrightarrow> \<not> safe rules P r) \<and>
     (\<not> found \<longrightarrow> search_inv rules P st' \<and> rules_visited st' ! r \<and> no_fewer st st')"

lemma no_fewer_trans:
  "no_fewer a b \<Longrightarrow> no_fewer b c \<Longrightarrow> search_inv rules P a \<Longrightarrow> search_inv rules P' b \<Longrightarrow> no_fewer a c"
  by (simp add: no_fewer_def search_inv_def)

text \<open>The loop over a rule, given what the recursive calls do.\<close>

definition search_body ::
    "llama_grammar_rules \<Rightarrow> llama_grammar_element \<Rightarrow> bool \<times> bool \<times> left_recursion_state \<Rightarrow> (bool \<times> bool \<times> left_recursion_state) option" where
  "search_body rules e = (\<lambda>(found, recurse, st).
     if found then Some (found, recurse, st)
     else if ge_type e = LLAMA_GRETYPE_RULE_REF \<and> recurse then do {
       (found, st) \<leftarrow> detect_left_recursion rules (unat (ge_value e)) st;
       if found then Some (True, recurse, st)
       else do { empty \<leftarrow> vec_at (rules_may_be_empty st) (unat (ge_value e)); Some (False, empty, st) } }
     else Some (False, is_end_type (ge_type e), st))"

lemma search_found: "fold_opt (search_body rules) es (True, rc, st) = Some (True, rc, st)"
  by (induction es) (auto simp: search_body_def)

lemma search_loop:
  assumes "search_inv rules P st" "list_all (\<lambda>e. ge_type e = LLAMA_GRETYPE_RULE_REF \<longrightarrow> unat (ge_value e) < length rules) es"
    and rec: "\<And>st v. search_inv rules P st \<Longrightarrow> v < length rules \<Longrightarrow>
      \<exists>found st'. detect_left_recursion rules v st = Some (found, st') \<and> searched rules P st v found st'"
  shows "\<exists>found rc' st'. fold_opt (search_body rules) es (False, rc, st) = Some (found, rc', st') \<and>
    (found \<longleftrightarrow> \<not> (\<forall>s\<in>set (leftmost (written_empty rules) es rc). safe rules P s)) \<and>
    (\<not> found \<longrightarrow> search_inv rules P st' \<and> no_fewer st st')"
  using assms(1,2)
proof (induction es arbitrary: rc st)
  case Nil
  then show ?case by (auto simp: no_fewer_def)
next
  case (Cons e es)
  let ?v = "unat (ge_value e)"
  show ?case
  proof (cases "ge_type e = LLAMA_GRETYPE_RULE_REF \<and> rc")
    case False
    then have "search_body rules e (False, rc, st) = Some (False, is_end_type (ge_type e), st)" by (auto simp: search_body_def)
    moreover have "leftmost (written_empty rules) (e # es) rc = leftmost (written_empty rules) es (is_end_type (ge_type e))"
      using False by auto
    ultimately show ?thesis using Cons.IH [of st "is_end_type (ge_type e)"] Cons.prems by simp
  next
    case True
    then have v: "?v < length rules" using Cons.prems(2) by simp
    obtain found st1 where d: "detect_left_recursion rules ?v st = Some (found, st1)" "searched rules P st ?v found st1"
      using rec [OF Cons.prems(1) v] by blast
    show ?thesis
    proof (cases found)
      case True
      then have "search_body rules e (False, rc, st) = Some (True, rc, st1)"
        using d(1) \<open>ge_type e = LLAMA_GRETYPE_RULE_REF \<and> rc\<close> by (simp add: search_body_def)
      moreover have "\<not> safe rules P ?v" using d(2) True by (simp add: searched_def)
      ultimately show ?thesis using \<open>ge_type e = LLAMA_GRETYPE_RULE_REF \<and> rc\<close> by (auto simp: search_found)
    next
      case False
      then have s: "safe rules P ?v" "search_inv rules P st1" "rules_visited st1 ! ?v" "no_fewer st st1" using d(2) by (simp_all add: searched_def)
      have len: "length (rules_may_be_empty st1) = length rules" and "rules_may_be_empty st1 ! ?v = written_empty rules ?v"
        using s(2,3) v by (auto simp: search_inv_def)
      then have "search_body rules e (False, rc, st) = Some (False, written_empty rules ?v, st1)"
        using d(1) False True v by (simp add: search_body_def)
      moreover from Cons.IH [OF s(2), of "written_empty rules ?v"] Cons.prems(2) obtain found rc' st' where
        "fold_opt (search_body rules) es (False, written_empty rules ?v, st1) = Some (found, rc', st')"
        "found \<longleftrightarrow> \<not> (\<forall>s\<in>set (leftmost (written_empty rules) es (written_empty rules ?v)). safe rules P s)"
        "\<not> found \<longrightarrow> search_inv rules P st' \<and> no_fewer st1 st'" by auto
      ultimately show ?thesis using True s(1) no_fewer_trans [OF s(4) _ Cons.prems(1) s(2)] by auto
    qed
  qed
qed


lemma detect_unfold:
  "detect_left_recursion rules r st = do {
     busy \<leftarrow> vec_at (rules_in_progress st) r;
     if busy then Some (True, st)
     else do {
       ip \<leftarrow> vec_set r True (rules_in_progress st);
       rule \<leftarrow> vec_at rules r;
       me \<leftarrow> (if has_empty_alternate rule True then vec_set r True (rules_may_be_empty st) else Some (rules_may_be_empty st));
       (found, _, st) \<leftarrow> fold_opt (search_body rules) rule (False, True, st\<lparr>rules_in_progress := ip, rules_may_be_empty := me\<rparr>);
       if found then Some (True, st)
       else do {
         ip \<leftarrow> vec_set r False (rules_in_progress st);
         vs \<leftarrow> vec_set r True (rules_visited st);
         Some (False, st\<lparr>rules_in_progress := ip, rules_visited := vs\<rparr>) } } }"
  unfolding search_body_def by (rule detect_left_recursion.simps)

lemma nth_list_update': "i < length xs \<Longrightarrow> xs[j := x] ! i = (if i = j then x else xs ! i)"
  by (simp add: nth_list_update)

lemma search_enter:
  assumes "search_inv rules P st" "r < length rules"
  shows "search_inv rules (insert r P) (st\<lparr>rules_in_progress := (rules_in_progress st)[r := True],
    rules_may_be_empty := (if has_empty_alternate (rules ! r) True then (rules_may_be_empty st)[r := True] else rules_may_be_empty st)\<rparr>)"
proof (cases "has_empty_alternate (rules ! r) True")
  case True
  then have "written_empty rules r" using assms(2) by (simp add: written_empty_def)
  with True assms(1) show ?thesis unfolding search_inv_def
    by (auto simp: nth_list_update')
next
  case False
  then show ?thesis using assms(1) unfolding search_inv_def by (simp add: nth_list_update')
qed

lemma search_leave:
  assumes "search_inv rules (insert r P) st" "r < length rules" "r \<notin> P"
    and "written_empty rules r \<longrightarrow> rules_may_be_empty st ! r" "r \<in> Wellfounded.acc (edge_rel rules)"
  shows "search_inv rules P (st\<lparr>rules_in_progress := (rules_in_progress st)[r := False], rules_visited := (rules_visited st)[r := True]\<rparr>)"
proof -
  note inv = assms(1) [unfolded search_inv_def]
  have r: "rules_may_be_empty st ! r \<longleftrightarrow> written_empty rules r" using inv assms(2,4) by blast
  have len: "length (rules_visited st) = length rules" "length (rules_in_progress st) = length rules" using inv by blast+
  have "(rules_in_progress st)[r := False] ! i \<longleftrightarrow> i \<in> P" if "i < length rules" for i
  proof (cases "i = r")
    case False
    then show ?thesis using inv that len by auto
  qed (use assms(2,3) len in simp)
  moreover have "(rules_may_be_empty st ! i \<longleftrightarrow> written_empty rules i) \<and> i \<in> Wellfounded.acc (edge_rel rules)"
    if "i < length rules" "(rules_visited st)[r := True] ! i" for i
  proof (cases "i = r")
    case False
    then have "rules_visited st ! i" using that len by simp
    then show ?thesis using inv that by blast
  qed (use r assms(5) in blast)
  moreover define st' where "st' = st\<lparr>rules_in_progress := (rules_in_progress st)[r := False], rules_visited := (rules_visited st)[r := True]\<rparr>"
  then have fields: "rules_in_progress st' = (rules_in_progress st)[r := False]" "rules_visited st' = (rules_visited st)[r := True]"
    "rules_may_be_empty st' = rules_may_be_empty st" by simp_all
  ultimately have "search_inv rules P st'" using inv unfolding search_inv_def fields length_list_update by blast
  then show ?thesis by (simp only: st'_def)
qed

lemma detect_exact:
  assumes ok: "grammar_ok rules" and "search_inv rules P st" "r < length rules" "P \<subseteq> {..<length rules}"
  shows "\<exists>found st'. detect_left_recursion rules r st = Some (found, st') \<and> searched rules P st r found st'"
  using assms(2-)
proof (induction "card ({..<length rules} - P)" arbitrary: P st r rule: less_induct)
  case less
  have len: "length (rules_visited st) = length rules" "length (rules_in_progress st) = length rules" "length (rules_may_be_empty st) = length rules"
    and busy: "rules_in_progress st ! r \<longleftrightarrow> r \<in> P" using less.prems(1,2) by (auto simp: search_inv_def)
  show ?case
  proof (cases "r \<in> P")
    case True
    then have "detect_left_recursion rules r st = Some (True, st)" using len busy less.prems(2) by (simp add: detect_unfold)
    moreover have "\<not> safe rules P r" using True by (subst safe_iff) simp
    ultimately show ?thesis by (auto simp: searched_def)
  next
    case False
    define st0 where "st0 = st\<lparr>rules_in_progress := (rules_in_progress st)[r := True],
      rules_may_be_empty := (if has_empty_alternate (rules ! r) True then (rules_may_be_empty st)[r := True] else rules_may_be_empty st)\<rparr>"
    have inv0: "search_inv rules (insert r P) st0" unfolding st0_def by (rule search_enter [OF less.prems(1,2)])
    have "{..<length rules} - insert r P \<subset> {..<length rules} - P" using False less.prems(2) by auto
    then have "card ({..<length rules} - insert r P) < card ({..<length rules} - P)" by (intro psubset_card_mono) auto
    then have rec: "\<exists>found st'. detect_left_recursion rules v st = Some (found, st') \<and> searched rules (insert r P) st v found st'"
      if "search_inv rules (insert r P) st" "v < length rules" for st v
      using that less.prems by (intro less.hyps) auto
    have refs: "list_all (\<lambda>e. ge_type e = LLAMA_GRETYPE_RULE_REF \<longrightarrow> unat (ge_value e) < length rules) (rules ! r)"
      using grammar_okD [OF ok less.prems(2)] by (simp add: rule_ok_def)
    obtain found rc st1 where loop: "fold_opt (search_body rules) (rules ! r) (False, True, st0) = Some (found, rc, st1)"
      and found: "found \<longleftrightarrow> \<not> (\<forall>s\<in>set (leftmost (written_empty rules) (rules ! r) True). safe rules (insert r P) s)"
      and inv1: "\<not> found \<longrightarrow> search_inv rules (insert r P) st1 \<and> no_fewer st0 st1"
      using search_loop [OF inv0 refs rec] by blast
    have unf: "detect_left_recursion rules r st = (if found then Some (True, st1)
       else do {
         ip \<leftarrow> vec_set r False (rules_in_progress st1);
         vs \<leftarrow> vec_set r True (rules_visited st1);
         Some (False, st1\<lparr>rules_in_progress := ip, rules_visited := vs\<rparr>) })"
      using loop len busy False less.prems(2)
      by (cases "has_empty_alternate (rules ! r) True") (simp_all add: detect_unfold vec_set_def st0_def)
    have safe: "safe rules P r \<longleftrightarrow> \<not> found" using False less.prems(2) by (subst safe_iff) (auto simp: found search_edge_def)
    show ?thesis
    proof (cases found)
      case True
      then have "detect_left_recursion rules r st = Some (True, st1)"
        using unf by simp
      then show ?thesis using safe True by (auto simp: searched_def)
    next
      case nf: False
      define st2 where "st2 = st1\<lparr>rules_in_progress := (rules_in_progress st1)[r := False], rules_visited := (rules_visited st1)[r := True]\<rparr>"
      have l1: "length (rules_visited st1) = length rules" "length (rules_in_progress st1) = length rules" using inv1 nf by (auto simp: search_inv_def)
      then have "detect_left_recursion rules r st = Some (False, st2)"
        using unf less.prems(2) nf by (simp add: vec_set_def st2_def)
      moreover have "written_empty rules r \<longrightarrow> rules_may_be_empty st1 ! r"
        using inv1 nf len less.prems(2) by (auto simp: no_fewer_def st0_def written_empty_def)
      then have "search_inv rules P st2"
        unfolding st2_def using inv1 nf safe safe_acc False less.prems(2) by (intro search_leave) auto
      moreover have "rules_visited st2 ! r" using l1 less.prems(2) by (simp add: st2_def)
      moreover have "no_fewer st st0" using len by (cases "has_empty_alternate (rules ! r) True")
        (simp_all add: no_fewer_def st0_def nth_list_update')
      then have "no_fewer st st1" using no_fewer_trans [OF _ _ less.prems(1) inv0] inv1 nf by blast
      then have "no_fewer st st2" using len l1 by (simp add: no_fewer_def st2_def nth_list_update')
      ultimately show ?thesis using safe nf by (auto simp: searched_def)
    qed
  qed
qed

lemma find_left_recursion_exact:
  assumes ok: "grammar_ok rules"
  shows "find_left_recursion rules = Some (\<not> wf (edge_rel rules))"
proof -
  define step where "step = (\<lambda>i (found, st). if found then Some (found, st)
    else do { visited \<leftarrow> vec_at (rules_visited st) i; if visited then Some (False, st) else detect_left_recursion rules i st })"
  define none where "none = replicate (length rules) False"
  define start where "start = \<lparr>rules_visited = none, rules_in_progress = none, rules_may_be_empty = none\<rparr>"
  define I where "I ys s = (if fst s then \<not> wf (edge_rel rules) else search_inv rules {} (snd s) \<and> (\<forall>i\<in>set ys. i \<in> Wellfounded.acc (edge_rel rules)))" for ys s
  have "I [] (False, start)" by (auto simp: I_def start_def none_def search_inv_def)
  moreover have "\<exists>s'. step x s = Some s' \<and> I (ys @ [x]) s'" if split: "[0..<length rules] = ys @ x # zs" and inv: "I ys s" for ys x zs s
  proof (cases "fst s")
    case True
    then show ?thesis using inv by (cases s) (auto simp: step_def I_def)
  next
    case False
    have "x \<in> set [0..<length rules]" unfolding split by simp
    then have x: "x < length rules" by simp
    obtain st where s: "s = (False, st)" using False by (cases s) auto
    have st: "search_inv rules {} st" "\<forall>i\<in>set ys. i \<in> Wellfounded.acc (edge_rel rules)" using inv by (auto simp: I_def s)
    then have len: "length (rules_visited st) = length rules" by (simp add: search_inv_def)
    show ?thesis
    proof (cases "rules_visited st ! x")
      case True
      then have "x \<in> Wellfounded.acc (edge_rel rules)" using st(1) x by (simp add: search_inv_def)
      then show ?thesis using True st x len by (auto simp: step_def I_def s)
    next
      case False
      obtain found st' where d: "detect_left_recursion rules x st = Some (found, st')" "searched rules {} st x found st'"
        using detect_exact [OF ok st(1) x] by auto
      have "\<not> wf (edge_rel rules)" if found
      proof
        assume "wf (edge_rel rules)"
        then have "x \<in> Wellfounded.acc (edge_rel rules)" by (simp only: wf_iff_acc)
        then have "safe rules {} x" by (rule acc_safe) simp
        then show False using d(2) that by (simp add: searched_def)
      qed
      moreover have "x \<in> Wellfounded.acc (edge_rel rules)" "search_inv rules {} st'" if "\<not> found"
        using d(2) that safe_acc by (auto simp: searched_def)
      ultimately show ?thesis using d(1) False st x len by (auto simp: step_def I_def s)
    qed
  qed
  ultimately obtain s' where res: "fold_opt step [0..<length rules] (False, start) = Some s'" "I [0..<length rules] s'"
    using fold_opt_invariant [of I "(False, start)" "[0..<length rules]" step] by blast
  have "fst s' \<longleftrightarrow> \<not> wf (edge_rel rules)"
  proof (cases "fst s'")
    case False
    have "r \<in> Wellfounded.acc (edge_rel rules)" for r
    proof (cases "r < length rules")
      case True
      then show ?thesis using res(2) False by (auto simp: I_def)
    next
      case False
      show ?thesis by (rule accI) (use False in \<open>simp add: search_edge_def\<close>)
    qed
    then show ?thesis using False by (simp add: wf_iff_acc)
  next
    case True
    then show ?thesis using res(2) unfolding I_def by presburger
  qed
  then show ?thesis using res(1) by (simp add: find_left_recursion_def step_def start_def none_def Let_def)
qed



section \<open>The edges and the left corners\<close>

lemma scan_split: "Suc j \<le> length rule \<Longrightarrow> drop j rule = rule ! j # drop (Suc j) rule"
  by (simp add: Cons_nth_drop_Suc)

text \<open>Induction over the elements of a rule from the back.\<close>

lemma scan_induct [case_names outside element]:
  assumes "\<And>j. length (rule :: 'e list) \<le> j \<Longrightarrow> P j" "\<And>j. j < length rule \<Longrightarrow> P (Suc j) \<Longrightarrow> P j"
  shows "P j"
proof (induction "length rule - j" arbitrary: j)
  case 0
  then show ?case using assms(1) by simp
next
  case (Suc n)
  then have "n = length rule - Suc j" "j < length rule" by simp_all
  then show ?case using Suc.hyps(1) assms(2) by blast
qed

text \<open>Scanning an element that is not the last one.\<close>

lemma alternates_step:
  assumes "rule_ok n rule" "j < length rule" "alternates_from (drop j rule) j start = Some starts"
  obtains (stop) "ge_type (rule ! j) = LLAMA_GRETYPE_END" "drop (Suc j) rule = []" "set starts = (if start then {j} else {})"
  | (go) rest where "ge_type (rule ! j) \<noteq> LLAMA_GRETYPE_END"
      "alternates_from (drop (Suc j) rule) (Suc j) (ge_type (rule ! j) = LLAMA_GRETYPE_ALT) = Some rest"
      "set starts = (if start then insert j (set rest) else set rest)"
proof (cases "ge_type (rule ! j) = LLAMA_GRETYPE_END")
  case True
  then have "drop (Suc j) rule = []" using rule_ok_end [OF assms(1,2)] by simp
  then show ?thesis using True assms(2,3) scan_split [of j rule] by (intro that(1)) auto
next
  case False
  then show ?thesis using assms(2,3) scan_split [of j rule] that(2) by (auto split: Option.bind_splits)
qed

lemma empty_alternate_start:
  assumes "rule_ok n rule" "has_empty_alternate (drop j rule) start" "alternates_from (drop j rule) j start = Some starts"
  shows "\<exists>i\<in>set starts. i < length rule \<and> is_end_type (ge_type (rule ! i))"
  using assms(2,3)
proof (induction j arbitrary: start starts rule: scan_induct [where rule = rule])
  case (element j)
  note d = scan_split [of j rule]
  from assms(1) element.hyps(1) element.prems(2) show ?case
  proof (cases rule: alternates_step)
    case stop
    then show ?thesis using element d by (auto simp: is_end_type_def)
  next
    case (go rest)
    show ?thesis
    proof (cases "ge_type (rule ! j) = LLAMA_GRETYPE_ALT \<and> start")
      case True
      then show ?thesis using go(3) element.hyps(1) by (auto simp: is_end_type_def)
    next
      case False
      then have "has_empty_alternate (drop (Suc j) rule) (ge_type (rule ! j) = LLAMA_GRETYPE_ALT)"
        using element.prems(1) element.hyps(1) d go(1) by (auto simp: is_end_type_def split: if_splits)
      then show ?thesis using element.IH [OF _ go(2)] go(3) by auto
    qed
  qed
qed simp

lemma written_empty_derives:
  assumes ok: "grammar_ok rules" and "written_empty rules r"
  shows "rule_derives rules r []"
proof -
  have r: "r < length rules" "has_empty_alternate (rules ! r) True" using assms(2) by (simp_all add: written_empty_def)
  obtain starts where s: "alternates rules r = Some starts" "\<forall>i\<in>set starts. valid_ptr rules (r, i)" using alternates_ok [OF ok r(1)] by blast
  obtain i where i: "i \<in> set starts" "is_end_type (ge_type (rules ! r ! i))"
    using empty_alternate_start [OF grammar_okD [OF ok r(1)], of 0 True starts] r s(1) by (auto simp: alternates_def)
  have "is_end_of_sequence rules (r, i) = Some True" using valid_element s(2) i by (auto simp: is_end_Some)
  then show ?thesis using s(1) i(1) derives.at_end unfolding rule_derives_def by blast
qed

text \<open>Every edge of the search is a left corner.\<close>

lemma leftmost_corner:
  assumes ok: "grammar_ok rules" and r: "r < length rules" "alternates rules r = Some all"
    and "s \<in> set (leftmost (written_empty rules) (drop j (rules ! r)) rc)" "rc \<Longrightarrow> corner_ptr rules r (r, j)"
    and "alternates_from (drop j (rules ! r)) j start = Some starts" "set starts \<subseteq> set all"
  shows "left_corner rules r s"
  using assms(4-)
proof (induction j arbitrary: rc start starts rule: scan_induct [where rule = "rules ! r"])
  case (element j)
  define e where "e = rules ! r ! j"
  note d = scan_split [of j "rules ! r"]
  have at: "element_at rules (r, j) = Some e" using r(1) element.hyps by (simp add: element_at_def from_ptr_def vec_at_def e_def)
  from grammar_okD [OF ok r(1)] element.hyps(1) element.prems(3) show ?case
  proof (cases rule: alternates_step)
    case stop
    then show ?thesis using element.prems(1) element.hyps d by (simp split: if_splits)
  next
    case (go rest)
    have sub: "set rest \<subseteq> set all" using go(3) element.prems(4) by (auto split: if_splits)
    show ?thesis
    proof (cases "ge_type e = LLAMA_GRETYPE_RULE_REF \<and> rc")
      case True
      let ?v = "unat (ge_value e)"
      have c: "corner_ptr rules r (r, j)" using element.prems(2) True by simp
      consider "s = ?v" | "s \<in> set (leftmost (written_empty rules) (drop (Suc j) (rules ! r)) (written_empty rules ?v))"
        using element.prems(1) element.hyps True d by (auto simp: e_def)
      then show ?thesis
      proof cases
        case 1
        then show ?thesis using c at True unfolding left_corner_def by blast
      next
        case 2
        have "corner_ptr rules r (r, Suc j)" if "written_empty rules ?v"
          using corner_ptr.intros(2) [OF c at _ written_empty_derives [OF ok that]] True by (simp add: ptr_add_def)
        then show ?thesis by (rule element.IH [OF 2 _ go(2) sub])
      qed
    next
      case False
      then have s: "s \<in> set (leftmost (written_empty rules) (drop (Suc j) (rules ! r)) (is_end_type (ge_type e)))"
        using element.prems(1) element.hyps d by (auto simp: e_def)
      have "corner_ptr rules r (r, Suc j)" if t: "is_end_type (ge_type e)"
      proof -
        have alt: "ge_type e = LLAMA_GRETYPE_ALT" using t go(1) by (simp add: is_end_type_def e_def)
        then have "Suc j \<in> set rest"
          using go(2) rule_ok_next(1) [OF grammar_okD [OF ok r(1)] element.hyps(1) go(1)] scan_split [of "Suc j" "rules ! r"]
          by (auto simp: e_def split: Option.bind_splits)
        then show ?thesis using sub corner_ptr.intros(1) [OF r(2)] by blast
      qed
      then show ?thesis by (rule element.IH [OF s _ go(2) sub])
    qed
  qed
qed simp

text \<open>When every rule that may be empty is written so, every left corner is an edge of the search.\<close>

lemma leftmost_suffix:
  assumes "rule_ok n rule" "alternates_from (drop j rule) j start = Some starts" "i \<in> set starts" "start \<Longrightarrow> rc"
  shows "set (leftmost nul (drop i rule) True) \<subseteq> set (leftmost nul (drop j rule) rc)"
  using assms(2-)
proof (induction j arbitrary: rc start starts rule: scan_induct [where rule = rule])
  case (element j)
  note d = scan_split [of j rule]
  from assms(1) element.hyps(1) element.prems(1) show ?case
  proof (cases rule: alternates_step)
    case stop
    then show ?thesis using element.prems by (auto split: if_splits)
  next
    case (go rest)
    show ?thesis
    proof (cases "start \<and> i = j")
      case False
      then have "i \<in> set rest" using go(3) element.prems(2) by (auto split: if_splits)
      then have "set (leftmost nul (drop i rule) True) \<subseteq> set (leftmost nul (drop (Suc j) rule) rc')"
        if "ge_type (rule ! j) = LLAMA_GRETYPE_ALT \<Longrightarrow> rc'" for rc' using element.IH [OF go(2)] that by blast
      moreover have "\<exists>rc'. (ge_type (rule ! j) = LLAMA_GRETYPE_ALT \<longrightarrow> rc') \<and>
          set (leftmost nul (drop (Suc j) rule) rc') \<subseteq> set (leftmost nul (drop j rule) rc)"
      proof (cases "ge_type (rule ! j) = LLAMA_GRETYPE_RULE_REF \<and> rc")
        case True
        then show ?thesis using element.hyps d by (intro exI [of _ "nul (unat (ge_value (rule ! j)))"]) auto
      next
        case False
        then show ?thesis using element.hyps d by (intro exI [of _ "is_end_type (ge_type (rule ! j))"]) (auto simp: is_end_type_def)
      qed
      ultimately show ?thesis by blast
    qed (use element.prems(3) in auto)
  qed
qed simp

lemma corner_leftmost:
  assumes ok: "grammar_ok rules" and "corner_ptr rules r p"
    and nul: "\<And>v. rule_derives rules v [] \<Longrightarrow> written_empty rules v"
  shows "set (leftmost (written_empty rules) (from_ptr rules p) True) \<subseteq> set (leftmost (written_empty rules) (rules ! r) True)"
  using assms(2)
proof (induction rule: corner_ptr.induct [consumes 1, case_names start skip])
  case (start r starts i)
  then show ?case
    using leftmost_suffix [OF grammar_okD [OF ok], of r 0 True starts i True "written_empty rules"]
    by (auto simp: alternates_def from_ptr_def vec_at_def split: if_splits)
next
  case (skip r p e)
  have "from_ptr rules p = e # from_ptr rules (ptr_add p 1)"
    using skip.hyps(2) scan_split [of "snd p" "rules ! fst p"]
    by (auto simp: element_at_def vec_at_def from_ptr_def ptr_add_def split: if_splits)
  moreover have "written_empty rules (unat (ge_value e))" by (rule nul [OF skip.hyps(4)])
  ultimately show ?case using skip.IH skip.hyps(3) by auto
qed

lemma edges_are_corners:
  assumes ok: "grammar_ok rules" and "search_edge rules r s"
  shows "left_corner rules r s"
proof -
  have r: "r < length rules" and s: "s \<in> set (leftmost (written_empty rules) (drop 0 (rules ! r)) True)"
    using assms(2) by (simp_all add: search_edge_def)
  note rok = grammar_okD [OF ok r]
  then have "0 < length (rules ! r)" "\<not> is_modifier (ge_type (rules ! r ! 0))" by (auto simp: rule_ok_def hd_conv_nth)
  from alternates_from_ok [OF rok this(1), of True] this(2) obtain starts where
    starts: "alternates_from (drop 0 (rules ! r)) 0 True = Some starts" "0 \<in> set starts" by blast
  then have all: "alternates rules r = Some starts" using r by (simp add: alternates_def)
  show ?thesis by (rule leftmost_corner [OF ok r all s _ starts(1)]) (use corner_ptr.intros(1) [OF all starts(2)] in auto)
qed

lemma corners_are_edges:
  assumes ok: "grammar_ok rules" and "left_corner rules r s"
    and nul: "\<And>v. rule_derives rules v [] \<Longrightarrow> written_empty rules v"
  shows "search_edge rules r s"
proof -
  obtain p e where p: "corner_ptr rules r p" "element_at rules p = Some e" "ge_type e = LLAMA_GRETYPE_RULE_REF" "unat (ge_value e) = s"
    using assms(2) by (auto simp: left_corner_def)
  have "r < length rules" using p(1) by (induction rule: corner_ptr.induct) (auto simp: alternates_def vec_at_def split: if_splits)
  moreover have "from_ptr rules p = e # tl (from_ptr rules p)"
    using p(2) by (cases "from_ptr rules p") (auto simp: element_at_def vec_at_def)
  then have "s \<in> set (leftmost (written_empty rules) (from_ptr rules p) True)" using p(3,4) by (metis leftmost.simps(2) list.set_intros(1))
  then have "s \<in> set (leftmost (written_empty rules) (rules ! r) True)" using corner_leftmost [OF ok p(1) nul] by blast
  ultimately show ?thesis by (simp add: search_edge_def)
qed

lemma search_against_corners:
  assumes ok: "grammar_ok rules"
  shows "no_left_recursion rules \<Longrightarrow> wf (edge_rel rules)"
    and "(\<And>v. rule_derives rules v [] \<Longrightarrow> written_empty rules v) \<Longrightarrow> wf (edge_rel rules) \<Longrightarrow> no_left_recursion rules"
  unfolding no_left_recursion_def using edges_are_corners [OF ok] corners_are_edges [OF ok]
  by (auto elim!: wf_subset)

end
