(* ===== verification/Grammar_Total.thy ===== *)
theory Grammar_Total
  imports Grammar_Reject Grammar_Cycle
begin

text \<open>
  On well-formed grammars without left recursion the rejection of candidates returns: every
  advanced stack has a successor, so its assertion holds, and each level of the recursion moves the
  candidates on by a code point.
\<close>

lemma advances_some:
  assumes "advance_stack rules st stacks = Some stacks'" "grammar_ok rules" "valid_stack rules st"
  shows "\<exists>s. advances rules st s"
  using assms
proof (induction rule: advance_stack_induct)
  case (step f rules st stacks stacks')
  show ?case
  proof (cases st)
    case Nil
    then show ?thesis using adv_empty by blast
  next
    case (Cons p below)
    have p: "valid_ptr rules p" "inner_ptr rules p" "valid_stack rules below" using step.prems(2) by (auto simp: valid_stack_def Cons)
    obtain e where e: "element_at rules p = Some e" using valid_element [OF p(1)] by blast
    show ?thesis
    proof (cases "ge_type e = LLAMA_GRETYPE_RULE_REF")
      case True
      let ?r = "unat (ge_value e)"
      note nxt = valid_next [OF step.prems(1) p(1) e True]
      obtain i starts where starts: "alternates rules ?r = Some (i # starts)" "valid_ptr rules (?r, i)"
        using alternates_ok [OF step.prems(1) nxt(2)] by (metis list.exhaust list.set_intros(1))
      obtain s1 where s1: "push_rest rules (ptr_add p 1) below = Some s1" "valid_stack rules s1"
        using push_rest_ok_valid [OF nxt(1) p(3)] by blast
      obtain s2 where s2: "push_rest rules (?r, i) s1 = Some s2" "valid_stack rules s2"
        using push_rest_ok_valid [OF starts(2) s1(2)] by blast
      obtain stacks1 where "f rules s2 stacks = Some stacks1"
        using step.hyps e True starts(1) s1(1) s2(1) by (auto simp: Cons split: Option.bind_splits)
      then obtain s where "advances rules s2 s" using step.IH step.prems(1) s2(2) by blast
      then show ?thesis using adv_ref [OF e True starts(1) _ s1(1) s2(1)] unfolding Cons by auto
    next
      case False
      then have "is_char_start (ge_type e)" using step.hyps e by (auto simp: Cons split: if_splits)
      then have "char_ptr rules p" using e by (simp add: char_ptr_def)
      then show ?thesis unfolding Cons by (blast intro: adv_char)
    qed
  qed
qed

lemma partial_loop_ok:
  assumes "rule_ok n rule" "i < length rule"
    and "ge_type (rule ! i) \<in> {LLAMA_GRETYPE_CHAR, LLAMA_GRETYPE_CHAR_NOT, LLAMA_GRETYPE_CHAR_ANY, LLAMA_GRETYPE_CHAR_ALT}"
  shows "\<exists>b. partial_loop (drop i rule) low high positive = Some b"
  using assms(2,3)
proof (induction "length rule - i" arbitrary: i rule: less_induct)
  case less
  have i1: "i + 1 < length rule" "may_follow (rule ! i) (rule ! (i + 1))"
    using rule_ok_next [OF assms(1) less.prems(1)] less.prems(2) by auto
  have i2: "i + 2 < length rule" if "ge_type (rule ! (i + 1)) = LLAMA_GRETYPE_CHAR_RNG_UPPER"
    using rule_ok_next [OF assms(1) i1(1)] that by auto
  have "\<exists>b. partial_loop (drop (i + k) rule) low high positive = Some b"
    if "0 < k" "i + k < length rule" "ge_type (rule ! (i + k)) = LLAMA_GRETYPE_CHAR_ALT" for k
    using that by (intro less.hyps) auto
  from this [of 1] this [of 2] i1 i2 show ?case
    by (subst partial_loop.simps) (auto simp: vec_at_def add.commute)
qed

lemma match_partial_ok:
  assumes "grammar_ok rules" "valid_ptr rules p" "char_ptr rules p"
  shows "\<exists>b. match_partial_char rules p partial = Some b"
proof -
  let ?rule = "rules ! fst p"
  have p: "fst p < length rules" "snd p < length ?rule" using assms(2) by (simp_all add: valid_ptr_def)
  have t: "is_char_start (ge_type (?rule ! snd p))" using assms(3) valid_element [OF assms(2)] by (simp add: char_ptr_def)
  have "\<exists>b. partial_loop (drop (snd p) ?rule) low high positive = Some b" for low high positive
    using t by (intro partial_loop_ok [OF grammar_okD [OF assms(1) p(1)] p(2)]) (auto simp: is_char_start_def)
  then show ?thesis
    using p t valid_element [OF assms(2)] by (auto simp: match_partial_char_def from_ptr_def bind_check Let_def split: prod.splits)
qed


section \<open>The rejection\<close>

text \<open>The array of a candidate ends with the zero code point; at most \<open>n\<close> code points stand before it.\<close>

definition ends_within :: "nat \<Rightarrow> llama_grammar_candidate \<Rightarrow> bool" where
  "ends_within n tok \<longleftrightarrow> 0 \<in> set (drop (cd_off tok) (cd_points tok)) \<and> length (points_left tok) \<le> n"

lemma ends_within_at: "ends_within n tok \<Longrightarrow> \<exists>c. vec_at (cd_points tok) (cd_off tok) = Some c"
  by (cases "cd_off tok < length (cd_points tok)") (auto simp: ends_within_def)

lemma ends_within_forward:
  assumes "ends_within n tok" "vec_at (cd_points tok) (cd_off tok) = Some c" "c \<noteq> 0"
  shows "\<exists>m. n = Suc m \<and> ends_within m (forward tok)"
proof -
  have "drop (cd_off tok) (cd_points tok) = c # drop (Suc (cd_off tok)) (cd_points tok)"
    using assms(2) by (auto simp: vec_at_def Cons_nth_drop_Suc split: if_splits)
  then show ?thesis using assms points_left_at [OF assms(2)] by (cases n) (auto simp: ends_within_def)
qed

lemma classify_returns:
  assumes "grammar_ok rules" "valid_ptr rules p" "char_ptr rules p" "\<forall>t\<in>set toks. ends_within n t"
  shows "\<exists>acc'. fold_opt (classify rules p) toks acc = Some acc'"
proof (rule fold_opt_total)
  fix t acc assume "t \<in> set toks"
  then obtain c where "vec_at (cd_points t) (cd_off t) = Some c" using assms(4) ends_within_at by blast
  then show "\<exists>acc'. classify rules p t acc = Some acc'"
    using match_char_ok [OF assms(1-3), of c] match_partial_ok [OF assms(1-3), of "cd_partial t"] by (auto simp: classify_def)
qed

lemma reject_at_end_returns: "\<forall>t\<in>set toks. ends_within n t \<Longrightarrow> \<exists>r. reject_at_end toks = Some r"
  unfolding reject_at_end_def using ends_within_at by (intro fold_opt_total) fastforce

lemma reject_stacks_return:
  assumes "\<And>st toks. st \<in> set stacks \<Longrightarrow> \<forall>t\<in>set toks. ends_within n t \<Longrightarrow> \<exists>r. reject_candidates_for_stack rules st toks = Some r"
    and "\<forall>t\<in>set toks. ends_within n t"
  shows "\<exists>r. fold_opt (\<lambda>st rejects. reject_candidates_for_stack rules st rejects) stacks toks = Some r"
  using assms
proof (induction stacks arbitrary: toks)
  case (Cons st stacks)
  then obtain r where r: "reject_candidates_for_stack rules st toks = Some r" by fastforce
  then have "\<forall>t\<in>set r. ends_within n t" using reject_for_stack_spec [OF r] Cons.prems(2) by auto
  then show ?case using Cons.IH [of r] Cons.prems(1) r by auto
qed simp

lemma reject_for_stack_returns:
  assumes ok: "grammar_ok rules" "no_left_recursion rules"
    and "valid_stack rules st" "st \<noteq> [] \<longrightarrow> char_ptr rules (hd st)" "\<forall>t\<in>set toks. ends_within n t"
  shows "\<exists>r. reject_candidates_for_stack rules st toks = Some r"
  using assms(3-)
proof (induction n arbitrary: st toks rule: less_induct)
  case (less n)
  show ?case
  proof (cases st)
    case Nil
    then show ?thesis using reject_at_end_returns [OF less.prems(3)] by (subst reject_candidates_for_stack.simps) simp
  next
    case (Cons p below)
    have p: "valid_ptr rules p" "char_ptr rules p" "valid_stack rules below" using less.prems by (auto simp: valid_stack_def Cons)
    obtain rej nxt where round: "fold_opt (classify rules p) toks ([], []) = Some (rej, nxt)"
      using classify_returns [OF ok(1) p(1,2) less.prems(3), of "([], [])"] by auto
    obtain b q where q: "match_char rules p 0 = Some (b, q)" "valid_ptr rules q" using match_char_ok [OF ok(1) p(1,2)] by blast
    obtain s1 where s1: "push_rest rules q below = Some s1" "valid_stack rules s1" using push_rest_ok_valid [OF q(2) p(3)] by blast
    obtain stacks where stacks: "advance_stack rules s1 [] = Some stacks"
      using advance_stack_returns [OF ok s1(2)] by (auto simp: advance_returns_def)
    note reached = advance_stack_collects [OF stacks]
    have "stacks \<noteq> []" using advances_some [OF stacks ok(1) s1(2)] reached by auto
    moreover have "\<exists>r. fold_opt (\<lambda>st rejects. reject_candidates_for_stack rules st rejects) stacks nxt = Some r" if "nxt \<noteq> []"
    proof -
      from classify_all [OF round] have nxt: "set nxt = forward ` {t \<in> set toks. going rules p t}" by simp
      have "set nxt \<noteq> {}" using that by simp
      then obtain t where "t \<in> set toks" "going rules p t" unfolding nxt by blast
      then obtain m where m: "n = Suc m" using ends_within_forward less.prems(3) by (fastforce simp: going_def)
      have "\<forall>t\<in>set nxt. ends_within m t"
        using nxt less.prems(3) ends_within_forward unfolding m by (fastforce simp: going_def)
      moreover have "valid_stack rules s" "s \<noteq> [] \<longrightarrow> char_ptr rules (hd s)" if "s \<in> set stacks" for s
        using that reached advances_valid [OF _ ok(1) s1(2)] advances_ok [of rules s1 s] s1(2)
        by (auto simp: valid_stack_def stack_ok_def list_all_iff)
      ultimately show ?thesis using m by (intro reject_stacks_return less.IH) auto
    qed
    ultimately show ?thesis using round q(1) s1(1) stacks unfolding Cons
      by (cases "nxt = []") (auto simp: reject_candidates_for_stack.simps [of rules "p # below"])
  qed
qed

text \<open>A state of the grammar between two calls.\<close>

definition grammar_stacks_ok :: "llama_grammar_rules \<Rightarrow> llama_grammar_stacks \<Rightarrow> bool" where
  "grammar_stacks_ok rules stacks \<longleftrightarrow> stacks_ok rules stacks \<and> (\<forall>st\<in>set stacks. valid_stack rules st)"

lemma reject_candidates_returns:
  assumes ok: "grammar_ok rules" "no_left_recursion rules"
    and "grammar_stacks_ok rules stacks" "stacks \<noteq> []" "\<forall>t\<in>set toks. 0 \<in> set (drop (cd_off t) (cd_points t))"
  shows "\<exists>r. reject_candidates rules stacks toks = Some r"
proof -
  define n where "n = Max (insert 0 (length ` points_left ` set toks))"
  have "\<forall>t\<in>set toks. ends_within n t" using assms(5) by (simp add: ends_within_def n_def)
  moreover have "valid_stack rules st" "st \<noteq> [] \<longrightarrow> char_ptr rules (hd st)" if "st \<in> set stacks" for st
    using that assms(3) by (auto simp: grammar_stacks_ok_def stacks_ok_def)
  ultimately have "\<exists>r. fold_opt (\<lambda>st rejects. reject_candidates_for_stack rules st rejects) stacks toks = Some r"
    using reject_for_stack_returns [OF ok] by (intro reject_stacks_return) auto
  then show ?thesis using assms(4) by (simp add: reject_candidates_def bind_check)
qed

end
