(* ===== verification/Grammar_Sampler.thy ===== *)
theory Grammar_Sampler
  imports Grammar_Total
begin

text \<open>
  The grammar a sampler holds: creation from rule arrays, masking the candidates of a step,
  accepting a sampled token and the trigger of lazy grammars. The vocabulary is a parameter (the
  bytes of a token and whether it ends generation), a trigger pattern is the matcher of its regular
  expression. Results are \<open>None\<close> for an abort or a recursion without end, else whether an exception
  was thrown, with the state.
\<close>

section \<open>The operations\<close>

record vocab =
  token_to_piece :: "int \<Rightarrow> u8 list"
  is_eog :: "int \<Rightarrow> bool"

text \<open>A matcher gives the position and the length of the whole match and of every group.\<close>

type_synonym trigger_pattern = "u8 list \<Rightarrow> (nat \<times> nat) list option"

record llama_grammar =
  g_rules :: llama_grammar_rules
  g_stacks :: llama_grammar_stacks
  g_partial_utf8 :: llama_partial_utf8
  g_lazy :: bool
  g_awaiting_trigger :: bool
  g_trigger_buffer :: "u8 list"
  g_trigger_tokens :: "int list"
  g_trigger_patterns :: "trigger_pattern list"

record 'f llama_token_data =
  td_id :: int
  td_logit :: 'f

text \<open>Copying the rule arrays, each up to its \<open>END\<close>.\<close>

fun copy_rule :: "llama_grammar_rule \<Rightarrow> llama_grammar_rule option" where
  "copy_rule [] = None"
| "copy_rule (e # es) =
     (if ge_type e = LLAMA_GRETYPE_END then Some [\<lparr>ge_type = LLAMA_GRETYPE_END, ge_value = 0\<rparr>]
      else do { rest \<leftarrow> copy_rule es; Some (e # rest) })"

fun copy_rules :: "llama_grammar_rules \<Rightarrow> llama_grammar_rules option" where
  "copy_rules [] = Some []"
| "copy_rules (r # rs) = do { c \<leftarrow> copy_rule r; cs \<leftarrow> copy_rules rs; Some (c # cs) }"

text \<open>The result \<open>Some None\<close> is the null pointer for a left-recursive grammar.\<close>

definition grammar_init ::
    "llama_grammar_rules \<Rightarrow> nat \<Rightarrow> bool \<Rightarrow> int list \<Rightarrow> trigger_pattern list \<Rightarrow> llama_grammar option option" where
  "grammar_init rules start_rule_index lazy tokens patterns = do {
     vec_rules \<leftarrow> copy_rules rules;
     found \<leftarrow> find_left_recursion vec_rules;
     if found then Some None
     else do {
       stacks \<leftarrow> init_stacks vec_rules start_rule_index;
       Some (Some \<lparr>g_rules = vec_rules, g_stacks = stacks, g_partial_utf8 = no_partial, g_lazy = lazy,
         g_awaiting_trigger = lazy, g_trigger_buffer = [], g_trigger_tokens = tokens, g_trigger_patterns = patterns\<rparr>) } }"

definition llama_grammar_init_impl :: "llama_grammar_rules \<Rightarrow> nat \<Rightarrow> llama_grammar option option" where
  "llama_grammar_init_impl rules start_rule_index = grammar_init rules start_rule_index False [] []"

definition llama_grammar_accept_str :: "llama_grammar \<Rightarrow> u8 list \<Rightarrow> (bool \<times> llama_grammar) option" where
  "llama_grammar_accept_str g piece =
     (case decode_utf8 piece (g_partial_utf8 g) of (code_points, partial) \<Rightarrow> do {
        stacks \<leftarrow> fold_opt (grammar_accept (g_rules g)) (butlast code_points) (g_stacks g);
        Some (stacks = [], g\<lparr>g_stacks := stacks, g_partial_utf8 := partial\<rparr>) })"

text \<open>The first pattern that matches, with where the constrained text starts.\<close>

fun trigger_start :: "trigger_pattern list \<Rightarrow> u8 list \<Rightarrow> nat option" where
  "trigger_start [] buffer = None"
| "trigger_start (pat # pats) buffer =
     (case pat buffer of None \<Rightarrow> trigger_start pats buffer
      | Some groups \<Rightarrow>
          (case List.find (\<lambda>(pos, len). len > 0) (tl groups) of
             Some (pos, len) \<Rightarrow> Some pos
           | None \<Rightarrow> Some (fst (hd groups))))"

definition llama_grammar_accept_impl :: "vocab \<Rightarrow> llama_grammar \<Rightarrow> int \<Rightarrow> (bool \<times> llama_grammar) option" where
  "llama_grammar_accept_impl vocab g token =
     (let piece = token_to_piece vocab token in
      if g_awaiting_trigger g then
        if token \<in> set (g_trigger_tokens g)
        then llama_grammar_accept_str (g\<lparr>g_awaiting_trigger := False, g_trigger_buffer := []\<rparr>) piece
        else
          let buffer = g_trigger_buffer g @ piece
          in case trigger_start (g_trigger_patterns g) buffer of
               Some start \<Rightarrow> llama_grammar_accept_str (g\<lparr>g_awaiting_trigger := False, g_trigger_buffer := []\<rparr>) (drop start buffer)
             | None \<Rightarrow> Some (False, g\<lparr>g_trigger_buffer := buffer\<rparr>)
      else if is_eog vocab token then (if [] \<in> set (g_stacks g) then Some (False, g) else None)
      else llama_grammar_accept_str g piece)"

text \<open>Masking: one round of the loop over the candidates, with the masked data and the candidates to check.\<close>

definition mask :: "'f \<Rightarrow> nat \<Rightarrow> 'f llama_token_data list \<Rightarrow> 'f llama_token_data list" where
  "mask neg_inf i data = data[i := (data ! i)\<lparr>td_logit := neg_inf\<rparr>]"

definition prepare_candidate ::
    "'f \<Rightarrow> vocab \<Rightarrow> llama_grammar \<Rightarrow> bool \<Rightarrow> nat \<Rightarrow> 'f llama_token_data list \<times> llama_grammar_candidate list \<Rightarrow>
     'f llama_token_data list \<times> llama_grammar_candidate list" where
  "prepare_candidate neg_inf vocab g allow_eog i acc =
     (case acc of (data, candidates) \<Rightarrow>
      let id = td_id (data ! i); piece = token_to_piece vocab id in
      if is_eog vocab id then (if allow_eog then acc else (mask neg_inf i data, candidates))
      else if piece = [] \<or> hd piece = 0 then (mask neg_inf i data, candidates)
      else
        let (code_points, partial) = decode_utf8 piece (g_partial_utf8 g)
        in (data, candidates @ [\<lparr>cd_index = i, cd_points = code_points, cd_off = 0, cd_partial = partial\<rparr>]))"

definition llama_grammar_apply_impl ::
    "'f \<Rightarrow> vocab \<Rightarrow> llama_grammar \<Rightarrow> 'f llama_token_data list \<Rightarrow> 'f llama_token_data list option" where
  "llama_grammar_apply_impl neg_inf vocab g cur =
     (if g_awaiting_trigger g then Some cur
      else
        let (data, candidates) = fold (prepare_candidate neg_inf vocab g ([] \<in> set (g_stacks g))) [0..<length cur] (cur, [])
        in do {
          rejects \<leftarrow> reject_candidates (g_rules g) (g_stacks g) candidates;
          Some (fold (\<lambda>tok. mask neg_inf (cd_index tok)) rejects data) })"


section \<open>The state between two calls\<close>

text \<open>What initialisation and acceptance keep of the grammar, when its rules are well-formed.\<close>

definition grammar_ready :: "llama_grammar \<Rightarrow> bool" where
  "grammar_ready g \<longleftrightarrow> grammar_ok (g_rules g) \<and> no_left_recursion (g_rules g) \<and>
     grammar_stacks_ok (g_rules g) (g_stacks g) \<and> g_stacks g \<noteq> []"

lemma accept_all_returns:
  assumes "grammar_ok rules" "no_left_recursion rules" "grammar_stacks_ok rules stacks"
  shows "\<exists>stacks'. fold_opt (grammar_accept rules) cs stacks = Some stacks' \<and> grammar_stacks_ok rules stacks'"
  using assms(3)
proof (induction cs arbitrary: stacks)
  case (Cons c cs)
  then obtain s1 where "grammar_accept rules c stacks = Some s1" "\<forall>st\<in>set s1. valid_stack rules st"
    using accept_returns [OF assms(1,2)] unfolding grammar_stacks_ok_def by blast
  moreover from this have "grammar_stacks_ok rules s1" using Cons.prems accept_ok unfolding grammar_stacks_ok_def by blast
  ultimately show ?case using Cons.IH by simp
qed simp

lemma accept_str_returns:
  assumes "grammar_ready g"
  shows "\<exists>threw g'. llama_grammar_accept_str g piece = Some (threw, g') \<and> g_rules g' = g_rules g \<and> (\<not> threw \<longrightarrow> grammar_ready g') \<and>
    (threw \<longleftrightarrow> g_stacks g' = [])"
proof -
  obtain cps partial where d: "decode_utf8 piece (g_partial_utf8 g) = (cps, partial)" by fastforce
  obtain stacks where "fold_opt (grammar_accept (g_rules g)) (butlast cps) (g_stacks g) = Some stacks" "grammar_stacks_ok (g_rules g) stacks"
    using accept_all_returns [of "g_rules g" "g_stacks g" "butlast cps"] assms unfolding grammar_ready_def by blast
  then show ?thesis using assms by (simp add: llama_grammar_accept_str_def d grammar_ready_def)
qed

lemma init_stacks_returns:
  assumes ok: "grammar_ok rules" "no_left_recursion rules" and r: "r < length rules"
  shows "\<exists>stacks. init_stacks rules r = Some stacks \<and> grammar_stacks_ok rules stacks \<and> stacks \<noteq> []"
proof -
  obtain stacks where init: "init_stacks rules r = Some stacks" "\<forall>st\<in>set stacks. valid_stack rules st"
    using init_returns [OF assms] by blast
  obtain starts where starts: "alternates rules r = Some starts" "starts \<noteq> []" "\<forall>i\<in>set starts. valid_ptr rules (r, i)"
    using alternates_ok [OF ok(1) r] by blast
  then obtain i where i: "i \<in> set starts" by (meson hd_in_set)
  obtain st where st: "push_rest rules (r, i) [] = Some st" "valid_stack rules st"
    using push_rest_ok_valid [of rules "(r, i)" "[]"] starts(3) i by (auto simp: valid_stack_def)
  obtain stacks1 where "advance_stack rules st [] = Some stacks1"
    using advance_stack_returns [OF ok st(2)] by (auto simp: advance_returns_def)
  from advances_some [OF this ok(1) st(2)] obtain s where "advances rules st s" by blast
  then have "s \<in> set stacks" using init_set [OF init(1) starts(1)] i st(1) by auto
  then show ?thesis using init init_collects [OF init(1)] by (auto simp: grammar_stacks_ok_def)
qed

lemma grammar_init_ready:
  assumes "copy_rules rules = Some vec" "grammar_ok vec" "no_left_recursion vec" "r < length vec"
  shows "\<exists>g. grammar_init rules r lazy tokens patterns = Some (Some g) \<and> grammar_ready g \<and> g_rules g = vec \<and>
    g_partial_utf8 g = no_partial \<and> g_awaiting_trigger g = lazy"
proof -
  have "find_left_recursion vec = Some False"
    using find_left_recursion_exact [OF assms(2)] search_against_corners(1) [OF assms(2,3)] by simp
  then show ?thesis using init_stacks_returns [OF assms(2-4)] assms(1-3) by (auto simp: grammar_init_def grammar_ready_def)
qed


section \<open>Pieces of text\<close>

fun accept_pieces :: "llama_grammar \<Rightarrow> u8 list list \<Rightarrow> (bool \<times> llama_grammar) option" where
  "accept_pieces g [] = Some (False, g)"
| "accept_pieces g (x # xs) = do {
     (threw, g) \<leftarrow> llama_grammar_accept_str g x;
     if threw then Some (True, g) else accept_pieces g xs }"

lemma accept_pieces_run:
  assumes "accept_pieces g ps = Some (threw, g')" "stacks_ok (g_rules g) (g_stacks g)"
    and "utf8_ok n (concat ps)" "g_partial_utf8 g = \<lparr>pu_value = v, pu_n_remain = int n\<rparr>"
    and "utf8_run v n (concat ps) = (cs, v', r)"
  shows "g_rules g' = g_rules g \<and>
    (if threw then \<forall>w. \<not> stacks_derive (g_rules g) (g_stacks g) (cs @ w)
     else stacks_ok (g_rules g) (g_stacks g') \<and> g_partial_utf8 g' = \<lparr>pu_value = v', pu_n_remain = int r\<rparr> \<and>
       (\<forall>w. stacks_derive (g_rules g) (g_stacks g') w \<longleftrightarrow> stacks_derive (g_rules g) (g_stacks g) (cs @ w)))"
  using assms
proof (induction ps arbitrary: g n v cs)
  case (Cons x ps)
  obtain cx vx rx where x: "utf8_run v n x = (cx, vx, rx)" by (rule prod_cases3)
  obtain cp where cp: "utf8_run vx rx (concat ps) = (cp, v', r)" "cs = cx @ cp"
    using Cons.prems(5) by (auto simp: utf8_run_append x split: prod.splits)
  have ok: "utf8_ok n x" "utf8_ok rx (concat ps)" using Cons.prems(3) utf8_ok_append [of n x "concat ps" v] x by auto
  have d: "decode_utf8 x (g_partial_utf8 g) = (cx @ [0], \<lparr>pu_value = vx, pu_n_remain = int rx\<rparr>)"
    using decode_utf8_run [OF ok(1), of v] x Cons.prems(4) by simp
  from Cons.prems(1) obtain t1 g1 where g1: "llama_grammar_accept_str g x = Some (t1, g1)"
    and rest: "(if t1 then Some (True, g1) else accept_pieces g1 ps) = Some (threw, g')" by (auto split: Option.bind_splits)
  from g1 have f: "fold_opt (grammar_accept (g_rules g)) cx (g_stacks g) = Some (g_stacks g1)" "t1 \<longleftrightarrow> g_stacks g1 = []"
    "g_rules g1 = g_rules g" "g_partial_utf8 g1 = \<lparr>pu_value = vx, pu_n_remain = int rx\<rparr>"
    by (auto simp: llama_grammar_accept_str_def d split: Option.bind_splits)
  note one = accept_all [OF f(1) Cons.prems(2)]
  show ?case
  proof (cases t1)
    case True
    then have "\<not> stacks_derive (g_rules g) (g_stacks g1) w" for w using f(2) by (simp add: stacks_derive_def)
    then show ?thesis using True rest one f(3) by (auto simp: cp(2))
  next
    case False
    then show ?thesis using Cons.IH [of g1 rx vx cp] rest one f cp ok(2) by (auto split: if_splits)
  qed
qed auto

lemma run_language:
  assumes "init_stacks (g_rules g) rt = Some (g_stacks g)" "g_partial_utf8 g = no_partial"
    and "is_text cs" "concat pieces = utf8_encode cs" "accept_pieces g pieces = Some (threw, g')"
  shows "if threw then \<forall>w. \<not> rule_derives (g_rules g) rt (cs @ w)
    else ([] \<in> set (g_stacks g') \<longleftrightarrow> rule_derives (g_rules g) rt cs) \<and>
      (\<forall>w. stacks_derive (g_rules g) (g_stacks g') w \<longleftrightarrow> rule_derives (g_rules g) rt (cs @ w)) \<and>
      pu_n_remain (g_partial_utf8 g') = 0"
proof -
  have p: "g_partial_utf8 g = \<lparr>pu_value = 0, pu_n_remain = int 0\<rparr>" using assms(2) by (simp add: no_partial_def)
  note begin_lang = init_collects [OF assms(1)]
  have run: "utf8_run 0 0 (concat pieces) = (cs, last (0 # cs), 0)" and ok: "utf8_ok 0 (concat pieces)"
    using text_run [OF assms(3)] by (simp_all add: assms(4))
  from accept_pieces_run [OF assms(5) _ ok p run] begin_lang
  have res: "if threw then \<forall>w. \<not> stacks_derive (g_rules g) (g_stacks g) (cs @ w)
    else stacks_ok (g_rules g) (g_stacks g') \<and> g_partial_utf8 g' = \<lparr>pu_value = last (0 # cs), pu_n_remain = int 0\<rparr> \<and>
      (\<forall>w. stacks_derive (g_rules g) (g_stacks g') w \<longleftrightarrow> stacks_derive (g_rules g) (g_stacks g) (cs @ w))" by blast
  show ?thesis
  proof (cases threw)
    case True
    then show ?thesis using res begin_lang by simp
  next
    case False
    then have "[] \<in> set (g_stacks g') \<longleftrightarrow> stacks_derive (g_rules g) (g_stacks g') []" using res by (intro empty_stack_derives) simp
    then show ?thesis using False res begin_lang by simp
  qed
qed

lemma pieces_return: "grammar_ready h \<Longrightarrow> \<exists>threw g'. accept_pieces h pieces = Some (threw, g') \<and> (\<not> threw \<longrightarrow> grammar_ready g')"
proof (induction pieces arbitrary: h)
  case (Cons x xs)
  from accept_str_returns [OF Cons.prems, of x] obtain threw h' where
    "llama_grammar_accept_str h x = Some (threw, h')" "\<not> threw \<longrightarrow> grammar_ready h'" by blast
  then show ?case using Cons.IH [of h'] by (cases threw) auto
next
  case Nil
  then show ?case by (intro exI [of _ False] exI [of _ h]) simp
qed

end
