(* ===== verification/Grammar_Parser.thy ===== *)
theory Grammar_Parser
  imports Grammar_Sampler "HOL-Library.AList"
begin

text \<open>
  The parser of grammar texts in \<open>src/llama-grammar.cpp\<close>: tokens, sequences with repetitions,
  alternates, rules and the final validation, and the initialisation from a text. A pointer into the
  text is the list of bytes from there on. An exception is \<open>Inl\<close>. The mutually recursive routines
  take fuel; two units per byte are shown to be enough.
\<close>

section \<open>Exceptions\<close>

datatype parse_error =
    Err_hex | Err_name | Err_int | Err_escape | Err_end_of_input | Err_no_item | Err_paren | Err_brace | Err_comma
  | Err_define | Err_newline | Err_undefined_rule | Err_undefined_identifier | Err_out_of_range | Err_overflow | Out_of_fuel

definition bind_err :: "'e + 'a \<Rightarrow> ('a \<Rightarrow> 'e + 'b) \<Rightarrow> 'e + 'b" where
  "bind_err x f = (case x of Inl e \<Rightarrow> Inl e | Inr a \<Rightarrow> f a)"

declare bind_err_def [code_unfold]

lemma bind_err_simps [simp]: "bind_err (Inl e) f = Inl e" "bind_err (Inr a) f = f a"
  by (simp_all add: bind_err_def)

lemma bind_err_cong [fundef_cong]: "x = y \<Longrightarrow> (\<And>a. y = Inr a \<Longrightarrow> f a = g a) \<Longrightarrow> bind_err x f = bind_err y g"
  by (auto simp: bind_err_def split: sum.splits)

lemma bind_err_Inr: "bind_err x f = Inr b \<longleftrightarrow> (\<exists>a. x = Inr a \<and> f a = Inr b)"
  by (cases x) auto

lemma bind_err_Inl: "bind_err x f = Inl e \<longleftrightarrow> x = Inl e \<or> (\<exists>a. x = Inr a \<and> f a = Inl e)"
  by (cases x) auto


section \<open>Tokens\<close>

definition ch :: "char \<Rightarrow> u8" where
  "ch c = of_char c"

definition bytes :: "string \<Rightarrow> u8 list" where
  "bytes s = map ch s"

definition is_digit_char :: "u8 \<Rightarrow> bool" where
  "is_digit_char c \<longleftrightarrow> ch CHR ''0'' \<le> c \<and> c \<le> ch CHR ''9''"

definition is_word_char :: "u8 \<Rightarrow> bool" where
  "is_word_char c \<longleftrightarrow> ch CHR ''a'' \<le> c \<and> c \<le> ch CHR ''z'' \<or> ch CHR ''A'' \<le> c \<and> c \<le> ch CHR ''Z'' \<or> c = ch CHR ''-'' \<or> is_digit_char c"

definition hex_digit :: "u8 \<Rightarrow> u32 option" where
  "hex_digit c =
     (if ch CHR ''a'' \<le> c \<and> c \<le> ch CHR ''f'' then Some (ucast (c - ch CHR ''a'') + 10)
      else if ch CHR ''A'' \<le> c \<and> c \<le> ch CHR ''F'' then Some (ucast (c - ch CHR ''A'') + 10)
      else if ch CHR ''0'' \<le> c \<and> c \<le> ch CHR ''9'' then Some (ucast (c - ch CHR ''0''))
      else None)"

fun parse_hex_loop :: "nat \<Rightarrow> u32 \<Rightarrow> u8 list \<Rightarrow> parse_error + (u32 \<times> u8 list)" where
  "parse_hex_loop 0 w s = Inr (w, s)"
| "parse_hex_loop (Suc n) w s =
     (case hex_digit (deref s) of None \<Rightarrow> Inl Err_hex | Some d \<Rightarrow> parse_hex_loop n (push_bit 4 w + d) (tl s))"

definition parse_hex :: "u8 list \<Rightarrow> nat \<Rightarrow> parse_error + (u32 \<times> u8 list)" where
  "parse_hex src n = parse_hex_loop n 0 src"

function parse_space :: "u8 list \<Rightarrow> bool \<Rightarrow> u8 list" where
  "parse_space s newline_ok =
     (case s of [] \<Rightarrow> []
      | c # t \<Rightarrow>
          if c = ch CHR ''#'' then parse_space (dropWhile (\<lambda>c. c \<noteq> 0 \<and> c \<noteq> 13 \<and> c \<noteq> 10) t) newline_ok
          else if c = ch CHR '' '' \<or> c = 9 \<or> newline_ok \<and> (c = 13 \<or> c = 10) then parse_space t newline_ok
          else s)"
  by pat_completeness auto
termination
  by (relation "measure (\<lambda>(s, _). length s)") (auto intro: le_imp_less_Suc length_dropWhile_le)

declare parse_space.simps [simp del]

definition parse_name :: "u8 list \<Rightarrow> parse_error + (u8 list \<times> u8 list)" where
  "parse_name src =
     (let name = takeWhile is_word_char src in if name = [] then Inl Err_name else Inr (name, dropWhile is_word_char src))"

text \<open>\<open>std::stoul\<close> of the digits, converted to \<open>int\<close>.\<close>

definition digits_value :: "u8 list \<Rightarrow> int" where
  "digits_value ds = fold (\<lambda>d v. 10 * v + uint (d - ch CHR ''0'')) ds 0"

definition stoul_int :: "u8 list \<Rightarrow> parse_error + int" where
  "stoul_int ds = (if digits_value ds < 2 ^ 64 then Inr (sint (of_int (digits_value ds) :: 32 word)) else Inl Err_out_of_range)"

definition parse_int :: "u8 list \<Rightarrow> parse_error + (int \<times> u8 list)" where
  "parse_int src =
     (let ds = takeWhile is_digit_char src
      in if ds = [] then Inl Err_int else bind_err (stoul_int ds) (\<lambda>v. Inr (v, dropWhile is_digit_char src)))"

text \<open>\<open>CHR 0x22\<close> is the quotation mark, \<open>CHR 0x5C\<close> the backslash.\<close>

definition parse_char :: "u8 list \<Rightarrow> parse_error + (u32 \<times> u8 list)" where
  "parse_char src =
     (if deref src = ch CHR 0x5C then
        let c = deref (tl src); rest = tl (tl src) in
        if c = ch CHR ''x'' then parse_hex rest 2
        else if c = ch CHR ''u'' then parse_hex rest 4
        else if c = ch CHR ''U'' then parse_hex rest 8
        else if c = ch CHR ''t'' then Inr (9, rest)
        else if c = ch CHR ''r'' then Inr (13, rest)
        else if c = ch CHR ''n'' then Inr (10, rest)
        else if c \<in> {ch CHR 0x5C, ch CHR 0x22, ch CHR ''['', ch CHR '']''} then Inr (ucast c, rest)
        else Inl Err_escape
      else if deref src \<noteq> 0 then Inr (decode_utf8_one src)
      else Inl Err_end_of_input)"

lemma hex_digit_zero [simp]: "hex_digit 0 = None"
  by code_simp

lemma deref_Nil [simp]: "deref [] = 0"
  by (simp add: deref_def)

lemma deref_Cons [simp]: "deref (c # s) = c"
  by (simp add: deref_def)

lemma parse_hex_loop_shrinks: "parse_hex_loop n w s = Inr (v, t) \<Longrightarrow> length t + n = length s"
proof (induction n arbitrary: w s)
  case (Suc n)
  then show ?case by (cases s) (auto split: option.splits)
qed simp

lemma ch_not_zero [simp]: "ch CHR 0x5C \<noteq> 0"
  by code_simp

lemma cont_bytes_shrinks: "cont_bytes n v s = (v', r, s') \<Longrightarrow> length s' \<le> length s"
  using cont_bytes_length by metis

lemma decode_one_shrinks: "deref src \<noteq> 0 \<Longrightarrow> decode_utf8_one src = (v, t) \<Longrightarrow> length t < length src"
  by (cases src) (auto simp: decode_utf8_one_def Let_def deref_def split: prod.splits dest!: cont_bytes_shrinks)

lemma parse_char_shrinks: "parse_char src = Inr (v, t) \<Longrightarrow> length t < length src"
proof -
  assume p: "parse_char src = Inr (v, t)"
  show ?thesis
  proof (cases "deref src = ch CHR 0x5C")
    case True
    then obtain rest where src: "src = ch CHR 0x5C # rest" by (cases src) (auto simp: deref_def)
    have "length t \<le> length (tl rest)"
      using p by (auto simp: src parse_char_def Let_def parse_hex_def dest!: parse_hex_loop_shrinks split: if_splits)
    then show ?thesis by (simp add: src)
  next
    case False
    then show ?thesis using p decode_one_shrinks by (auto simp: parse_char_def split: if_splits)
  qed
qed


section \<open>Literals and character classes\<close>

definition elem :: "llama_gretype \<Rightarrow> u32 \<Rightarrow> llama_grammar_element" where
  "elem t v = \<lparr>ge_type = t, ge_value = v\<rparr>"

function parse_literal :: "u8 list \<Rightarrow> llama_grammar_rule \<Rightarrow> parse_error + (u8 list \<times> llama_grammar_rule)" where
  "parse_literal pos rule =
     (if deref pos = ch CHR 0x22 then Inr (pos, rule)
      else if deref pos = 0 then Inl Err_end_of_input
      else bind_err (parse_char pos) (\<lambda>(v, pos). parse_literal pos (rule @ [elem LLAMA_GRETYPE_CHAR v])))"
  by pat_completeness auto
termination
  by (relation "measure (\<lambda>(s, _). length s)") (auto dest: parse_char_shrinks)

declare parse_literal.simps [simp del]

definition parse_range_end :: "u8 list \<Rightarrow> llama_grammar_rule \<Rightarrow> parse_error + (u8 list \<times> llama_grammar_rule)" where
  "parse_range_end pos rule =
     (if deref pos = ch CHR ''-'' \<and> deref (tl pos) \<noteq> ch CHR '']'' then
        if deref (tl pos) = 0 then Inl Err_end_of_input
        else bind_err (parse_char (tl pos)) (\<lambda>(v, pos). Inr (pos, rule @ [elem LLAMA_GRETYPE_CHAR_RNG_UPPER v]))
      else Inr (pos, rule))"

lemma parse_range_end_shrinks: "parse_range_end pos rule = Inr (t, r) \<Longrightarrow> length t \<le> length pos"
  by (auto simp: parse_range_end_def bind_err_Inr dest!: parse_char_shrinks split: if_splits)

function parse_ranges :: "u8 list \<Rightarrow> llama_gretype \<Rightarrow> nat \<Rightarrow> llama_grammar_rule \<Rightarrow> parse_error + (u8 list \<times> llama_grammar_rule)" where
  "parse_ranges pos start_type last_sym_start rule =
     (if deref pos = ch CHR '']'' then Inr (pos, rule)
      else if deref pos = 0 then Inl Err_end_of_input
      else bind_err (parse_char pos) (\<lambda>(v, pos).
        let type = (if last_sym_start < length rule then LLAMA_GRETYPE_CHAR_ALT else start_type)
        in bind_err (parse_range_end pos (rule @ [elem type v])) (\<lambda>(pos, rule).
             parse_ranges pos start_type last_sym_start rule)))"
  by pat_completeness auto
termination
  by (relation "measure (\<lambda>(s, _). length s)") (auto dest!: parse_char_shrinks parse_range_end_shrinks)

declare parse_ranges.simps [simp del]


section \<open>Symbols and rules\<close>

text \<open>\<open>symbol_ids\<close> is a map from names to ids; its size is the number of distinct names.\<close>

record llama_grammar_parser =
  ps_symbol_ids :: "(u8 list \<times> u32) list"
  ps_rules :: llama_grammar_rules

definition next_symbol_id :: "llama_grammar_parser \<Rightarrow> u32" where
  "next_symbol_id P = of_nat (length (ps_symbol_ids P))"

definition get_symbol_id :: "u8 list \<Rightarrow> llama_grammar_parser \<Rightarrow> u32 \<times> llama_grammar_parser" where
  "get_symbol_id name P =
     (case map_of (ps_symbol_ids P) name of
        Some i \<Rightarrow> (i, P)
      | None \<Rightarrow> (next_symbol_id P, P\<lparr>ps_symbol_ids := ps_symbol_ids P @ [(name, next_symbol_id P)]\<rparr>))"

text \<open>\<open>std::to_string\<close>.\<close>

function decimal :: "nat \<Rightarrow> u8 list" where
  "decimal n = (if n < 10 then [ch CHR ''0'' + of_nat n] else decimal (n div 10) @ [ch CHR ''0'' + of_nat (n mod 10)])"
  by pat_completeness auto
termination
  by (relation "measure id") auto

declare decimal.simps [simp del]

definition generate_symbol_id :: "u8 list \<Rightarrow> llama_grammar_parser \<Rightarrow> u32 \<times> llama_grammar_parser" where
  "generate_symbol_id base_name P =
     (let i = next_symbol_id P; name = base_name @ [ch CHR ''_''] @ decimal (unat i)
      in (i, P\<lparr>ps_symbol_ids := AList.update name i (ps_symbol_ids P)\<rparr>))"

definition add_rule :: "u32 \<Rightarrow> llama_grammar_rule \<Rightarrow> llama_grammar_parser \<Rightarrow> llama_grammar_parser" where
  "add_rule rule_id rule P =
     (let rules = (if length (ps_rules P) \<le> unat rule_id
                   then ps_rules P @ replicate (unat (rule_id + 1) - length (ps_rules P)) [] else ps_rules P)
      in P\<lparr>ps_rules := rules[unat rule_id := rule]\<rparr>)"


section \<open>Repetitions\<close>

text \<open>One round of the loop that adds the optional repetitions; \<open>last\<close> is \<open>last_rec_rule_id\<close>.\<close>

definition add_repetition ::
    "u8 list \<Rightarrow> llama_grammar_rule \<Rightarrow> int \<Rightarrow> nat \<Rightarrow> u32 \<times> llama_grammar_parser \<Rightarrow> u32 \<times> llama_grammar_parser" where
  "add_repetition rule_name prev_rule max_times i acc =
     (case acc of (last_id, P) \<Rightarrow>
      let (rec_rule_id, P) = generate_symbol_id rule_name P;
          rec_rule = prev_rule @
            (if i > 0 \<or> max_times < 0 then [elem LLAMA_GRETYPE_RULE_REF (if max_times < 0 then rec_rule_id else last_id)] else []) @
            [elem LLAMA_GRETYPE_ALT 0, elem LLAMA_GRETYPE_END 0]
      in (rec_rule_id, add_rule rec_rule_id rec_rule P))"

text \<open>\<open>max_times - min_times\<close> is an \<open>int\<close>, whose overflow is undefined.\<close>

definition handle_repetitions ::
    "u8 list \<Rightarrow> nat \<Rightarrow> int \<Rightarrow> int \<Rightarrow> llama_grammar_rule \<Rightarrow> llama_grammar_parser \<Rightarrow>
     parse_error + (llama_grammar_rule \<times> llama_grammar_parser)" where
  "handle_repetitions rule_name last_sym_start min_times max_times rule P =
     (if last_sym_start = length rule then Inl Err_no_item
      else
        let prev_rule = drop last_sym_start rule;
            rule = (if min_times = 0 then take last_sym_start rule
                    else rule @ concat (replicate (nat (min_times - 1)) prev_rule));
            n_opt = (if max_times < 0 then 1 else max_times - min_times)
        in if n_opt \<ge> 2 ^ 31 \<or> n_opt < - (2 ^ 31) then Inl Err_overflow
           else let (last_id, P) = fold (add_repetition rule_name prev_rule max_times) [0..<nat n_opt] (0, P)
                in Inr (if n_opt > 0 then rule @ [elem LLAMA_GRETYPE_RULE_REF last_id] else rule, P))"

text \<open>The bounds between braces, from behind the opening one to behind the closing one.\<close>

definition parse_bounds :: "u8 list \<Rightarrow> bool \<Rightarrow> parse_error + (int \<times> int \<times> u8 list)" where
  "parse_bounds pos is_nested =
     (if \<not> is_digit_char (deref pos) then Inl Err_int
      else bind_err (parse_int pos) (\<lambda>(min_times, pos).
        let pos = parse_space pos is_nested in
        if deref pos = ch CHR ''}'' then Inr (min_times, min_times, parse_space (tl pos) is_nested)
        else if deref pos = ch CHR '','' then
          let pos = parse_space (tl pos) is_nested
          in bind_err (if is_digit_char (deref pos)
                       then bind_err (parse_int pos) (\<lambda>(max_times, pos). Inr (max_times, parse_space pos is_nested))
                       else Inr (-1, pos))
               (\<lambda>(max_times, pos). if deref pos \<noteq> ch CHR ''}'' then Inl Err_brace
                  else Inr (min_times, max_times, parse_space (tl pos) is_nested))
        else Inl Err_comma))"


section \<open>Sequences and alternates\<close>

text \<open>
  One round of the loop of \<open>parse_sequence\<close>, for everything but a group: the new position, rule,
  \<open>last_sym_start\<close> and parser, or \<open>None\<close> for the end of the sequence.
\<close>

type_synonym sequence_state = "u8 list \<times> llama_grammar_rule \<times> nat \<times> llama_grammar_parser"

definition parse_item ::
    "u8 list \<Rightarrow> u8 list \<Rightarrow> llama_grammar_rule \<Rightarrow> nat \<Rightarrow> bool \<Rightarrow> llama_grammar_parser \<Rightarrow> parse_error + sequence_state option" where
  "parse_item pos rule_name rule last_sym_start is_nested P =
     (let c = deref pos;
          repeated = (\<lambda>min_times max_times pos.
            bind_err (handle_repetitions rule_name last_sym_start min_times max_times rule P) (\<lambda>(rule, P).
              Inr (Some (pos, rule, last_sym_start, P))))
      in if c = ch CHR 0x22 then
           bind_err (parse_literal (tl pos) rule) (\<lambda>(pos, rule').
             Inr (Some (parse_space (tl pos) is_nested, rule', length rule, P)))
         else if c = ch CHR ''['' then
           let inverted = (deref (tl pos) = ch CHR ''^'');
               pos = (if inverted then tl (tl pos) else tl pos)
           in bind_err (parse_ranges pos (if inverted then LLAMA_GRETYPE_CHAR_NOT else LLAMA_GRETYPE_CHAR) (length rule) rule)
                (\<lambda>(pos, rule'). Inr (Some (parse_space (tl pos) is_nested, rule', length rule, P)))
         else if is_word_char c then
           bind_err (parse_name pos) (\<lambda>(name, name_end).
             let (ref_rule_id, P) = get_symbol_id name P
             in Inr (Some (parse_space name_end is_nested, rule @ [elem LLAMA_GRETYPE_RULE_REF ref_rule_id], length rule, P)))
         else if c = ch CHR ''.'' then
           Inr (Some (parse_space (tl pos) is_nested, rule @ [elem LLAMA_GRETYPE_CHAR_ANY 0], length rule, P))
         else if c = ch CHR ''*'' then repeated 0 (-1) (parse_space (tl pos) is_nested)
         else if c = ch CHR ''+'' then repeated 1 (-1) (parse_space (tl pos) is_nested)
         else if c = ch CHR ''?'' then repeated 0 1 (parse_space (tl pos) is_nested)
         else if c = ch CHR ''{'' then
           bind_err (parse_bounds (parse_space (tl pos) is_nested) is_nested) (\<lambda>(min_times, max_times, pos).
             repeated min_times max_times pos)
         else Inr None)"

text \<open>
  The two loops, one fuel unit per call: \<open>alternates_loop\<close> parses a sequence and goes on behind
  each \<open>|\<close>; a group runs it for a rule of its own.
\<close>

function (sequential) alternates_loop ::
      "nat \<Rightarrow> u8 list \<Rightarrow> u8 list \<Rightarrow> llama_grammar_rule \<Rightarrow> bool \<Rightarrow> llama_grammar_parser \<Rightarrow>
       parse_error + (u8 list \<times> llama_grammar_rule \<times> llama_grammar_parser)"
  and sequence_loop ::
      "nat \<Rightarrow> u8 list \<Rightarrow> u8 list \<Rightarrow> llama_grammar_rule \<Rightarrow> nat \<Rightarrow> bool \<Rightarrow> llama_grammar_parser \<Rightarrow>
       parse_error + (u8 list \<times> llama_grammar_rule \<times> llama_grammar_parser)" where
  "alternates_loop 0 pos rule_name rule is_nested P = Inl Out_of_fuel"
| "alternates_loop (Suc n) pos rule_name rule is_nested P =
     bind_err (sequence_loop n pos rule_name rule (length rule) is_nested P) (\<lambda>r. case r of (pos, rule, P) \<Rightarrow>
       if deref pos = ch CHR ''|''
       then alternates_loop n (parse_space (tl pos) True) rule_name (rule @ [elem LLAMA_GRETYPE_ALT 0]) is_nested P
       else Inr (pos, rule, P))"
| "sequence_loop 0 pos rule_name rule last_sym_start is_nested P = Inl Out_of_fuel"
| "sequence_loop (Suc n) pos rule_name rule last_sym_start is_nested P =
     (if deref pos = 0 then Inr (pos, rule, P)
      else if deref pos = ch CHR ''('' then
        case generate_symbol_id rule_name P of (sub_rule_id, P) \<Rightarrow>
          bind_err (alternates_loop n (parse_space (tl pos) True) rule_name [] True P) (\<lambda>r. case r of (pos, sub_rule, P) \<Rightarrow>
            if deref pos \<noteq> ch CHR '')'' then Inl Err_paren
            else sequence_loop n (parse_space (tl pos) is_nested) rule_name (rule @ [elem LLAMA_GRETYPE_RULE_REF sub_rule_id])
                   (length rule) is_nested (add_rule sub_rule_id (sub_rule @ [elem LLAMA_GRETYPE_END 0]) P))
      else bind_err (parse_item pos rule_name rule last_sym_start is_nested P) (\<lambda>item.
        case item of None \<Rightarrow> Inr (pos, rule, P)
        | Some st \<Rightarrow> (case st of (pos, rule, last_sym_start, P) \<Rightarrow> sequence_loop n pos rule_name rule last_sym_start is_nested P)))"
  by pat_completeness auto
termination
  by (relation "measure (case_sum fst fst)") simp_all

declare alternates_loop.simps [simp del] sequence_loop.simps [simp del]

definition parse_alternates ::
    "nat \<Rightarrow> u8 list \<Rightarrow> u8 list \<Rightarrow> u32 \<Rightarrow> bool \<Rightarrow> llama_grammar_parser \<Rightarrow> parse_error + (u8 list \<times> llama_grammar_parser)" where
  "parse_alternates n src rule_name rule_id is_nested P =
     bind_err (alternates_loop n src rule_name [] is_nested P) (\<lambda>(pos, rule, P).
       Inr (pos, add_rule rule_id (rule @ [elem LLAMA_GRETYPE_END 0]) P))"


section \<open>Rules and grammars\<close>

definition parse_newline :: "u8 list \<Rightarrow> parse_error + u8 list" where
  "parse_newline pos =
     (if deref pos = 13 then Inr (if deref (tl pos) = 10 then tl (tl pos) else tl pos)
      else if deref pos = 10 then Inr (tl pos)
      else if deref pos \<noteq> 0 then Inl Err_newline
      else Inr pos)"

definition parse_rule :: "u8 list \<Rightarrow> llama_grammar_parser \<Rightarrow> parse_error + (u8 list \<times> llama_grammar_parser)" where
  "parse_rule src P =
     bind_err (parse_name src) (\<lambda>(name, name_end).
       let pos = parse_space name_end False;
           (rule_id, P) = get_symbol_id name P
       in if \<not> (deref pos = ch CHR '':'' \<and> deref (tl pos) = ch CHR '':'' \<and> deref (tl (tl pos)) = ch CHR ''='') then Inl Err_define
          else
            let pos = parse_space (drop 3 pos) True
            in bind_err (parse_alternates (2 * length pos + 2) pos name rule_id False P) (\<lambda>(pos, P).
               bind_err (parse_newline pos) (\<lambda>pos. Inr (parse_space pos True, P))))"

fun parse_rules :: "nat \<Rightarrow> u8 list \<Rightarrow> llama_grammar_parser \<Rightarrow> parse_error + llama_grammar_parser" where
  "parse_rules 0 pos P = Inl Out_of_fuel"
| "parse_rules (Suc n) pos P =
     (if deref pos = 0 then Inr P else bind_err (parse_rule pos P) (\<lambda>(pos, P). parse_rules n pos P))"

declare parse_rules.simps [simp del]

text \<open>
  The validation: an undefined reference is reported when its symbol is found, as it always is for
  ids the parser gave out.
\<close>

definition validate_ref :: "llama_grammar_parser \<Rightarrow> llama_grammar_element \<Rightarrow> parse_error option" where
  "validate_ref P e =
     (if ge_type e = LLAMA_GRETYPE_RULE_REF \<and>
         (unat (ge_value e) \<ge> length (ps_rules P) \<or> ps_rules P ! unat (ge_value e) = []) \<and>
         list_ex (\<lambda>(name, i). i = ge_value e) (ps_symbol_ids P)
      then Some Err_undefined_identifier else None)"

definition validate_rule :: "llama_grammar_parser \<Rightarrow> llama_grammar_rule \<Rightarrow> parse_error option" where
  "validate_rule P rule = (if rule = [] then Some Err_undefined_rule else first_err (validate_ref P) rule)"

text \<open>\<open>parse\<close> returns false, with the rules cleared, for \<open>Inl\<close>.\<close>

definition parse_grammar :: "u8 list \<Rightarrow> parse_error + llama_grammar_parser" where
  "parse_grammar src =
     (let pos = parse_space src True
      in bind_err (parse_rules (length pos + 1) pos \<lparr>ps_symbol_ids = [], ps_rules = []\<rparr>) (\<lambda>P.
         case first_err (validate_rule P) (ps_rules P) of Some e \<Rightarrow> Inl e | None \<Rightarrow> Inr P))"

text \<open>
  The initialisation from a text: \<open>Inl\<close> for the exception of \<open>symbol_ids.at\<close>, \<open>Inr None\<close> for the
  null pointer.
\<close>

definition llama_grammar_init_str ::
    "u8 list \<Rightarrow> u8 list \<Rightarrow> bool \<Rightarrow> trigger_pattern list \<Rightarrow> int list \<Rightarrow> (parse_error + llama_grammar option) option" where
  "llama_grammar_init_str grammar_str grammar_root lazy patterns tokens =
     (case parse_grammar grammar_str of
        Inl e \<Rightarrow> Some (Inr None)
      | Inr P \<Rightarrow>
          if ps_rules P = [] then Some (Inr None)
          else if map_of (ps_symbol_ids P) (bytes ''root'') = None then Some (Inr None)
          else case map_of (ps_symbol_ids P) grammar_root of
                 None \<Rightarrow> Some (Inl Err_out_of_range)
               | Some start_rule_index \<Rightarrow>
                   map_option Inr (grammar_init (ps_rules P) (unat start_rule_index) lazy tokens patterns))"

end
