(* ===== verification/Grammar_Parser_Ok.thy ===== *)
theory Grammar_Parser_Ok
  imports Grammar_Parser Grammar_Left
begin

text \<open>
  The parser ends within its fuel and gives well-formed rules: the positions only move forward, the
  symbol table numbers its names, every rule it adds is a sequence of complete items, and the final
  validation leaves no reference to a missing rule.
\<close>

section \<open>Positions move forward\<close>

named_theorems shrinks \<open>lengths of the positions the routines return\<close>

lemma parse_space_length [shrinks]: "length (parse_space s nl) \<le> length s"
proof (induction s nl rule: parse_space.induct)
  case (1 s nl)
  show ?case
  proof (cases s)
    case (Cons c t)
    let ?u = "dropWhile (\<lambda>c. c \<noteq> 0 \<and> c \<noteq> 13 \<and> c \<noteq> 10) t"
    have "c = ch CHR ''#'' \<Longrightarrow> length (parse_space ?u nl) \<le> length ?u" by (rule "1.IH"(1) [OF Cons])
    moreover have "c \<noteq> ch CHR ''#'' \<Longrightarrow> c = ch CHR '' '' \<or> c = 9 \<or> nl \<and> (c = 13 \<or> c = 10) \<Longrightarrow> length (parse_space t nl) \<le> length t"
      by (rule "1.IH"(2) [OF Cons])
    moreover have "length ?u \<le> length t" by (rule length_dropWhile_le)
    moreover have "parse_space s nl =
        (if c = ch CHR ''#'' then parse_space ?u nl
         else if c = ch CHR '' '' \<or> c = 9 \<or> nl \<and> (c = 13 \<or> c = 10) then parse_space t nl else s)"
      by (subst parse_space.simps) (simp add: Cons)
    ultimately show ?thesis unfolding Cons by (simp only: list.size split: if_split) linarith
  qed (simp add: parse_space.simps)
qed

lemma ch_close_not_zero [simp]: "ch CHR '']'' \<noteq> 0" "ch CHR 0x22 \<noteq> 0" "ch CHR ''('' \<noteq> 0" "ch CHR ''|'' \<noteq> 0"
  by code_simp+

lemma parse_literal_Inr:
  "parse_literal pos rule = Inr (t, r) \<longleftrightarrow>
     deref pos = ch CHR 0x22 \<and> t = pos \<and> r = rule \<or>
     deref pos \<noteq> ch CHR 0x22 \<and> deref pos \<noteq> 0 \<and>
       (\<exists>v p. parse_char pos = Inr (v, p) \<and> parse_literal p (rule @ [elem LLAMA_GRETYPE_CHAR v]) = Inr (t, r))"
  by (subst parse_literal.simps) (auto simp: bind_err_Inr)

lemma parse_literal_length: "parse_literal pos rule = Inr (t, r) \<Longrightarrow> length t \<le> length pos"
proof (induction pos rule rule: parse_literal.induct)
  case (1 pos rule)
  show ?case
  proof (cases "deref pos = ch CHR 0x22")
    case False
    then obtain v p where "deref pos \<noteq> 0" and p: "parse_char pos = Inr (v, p)"
      and "parse_literal p (rule @ [elem LLAMA_GRETYPE_CHAR v]) = Inr (t, r)"
      using "1.prems" unfolding parse_literal_Inr [of pos] by blast
    then have "length t \<le> length p" using "1.IH" [OF False] by blast
    then show ?thesis using parse_char_shrinks [OF p] by simp
  qed (use "1.prems" in \<open>simp add: parse_literal_Inr [of pos]\<close>)
qed

lemma parse_ranges_Inr:
  "parse_ranges pos st lss rule = Inr (t, r) \<longleftrightarrow>
     deref pos = ch CHR '']'' \<and> t = pos \<and> r = rule \<or>
     deref pos \<noteq> ch CHR '']'' \<and> deref pos \<noteq> 0 \<and>
       (\<exists>v p1 p2 r2. parse_char pos = Inr (v, p1) \<and>
          parse_range_end p1 (rule @ [elem (if lss < length rule then LLAMA_GRETYPE_CHAR_ALT else st) v]) = Inr (p2, r2) \<and>
          parse_ranges p2 st lss r2 = Inr (t, r))"
  by (subst parse_ranges.simps) (auto simp: bind_err_Inr Let_def)

lemma parse_ranges_length: "parse_ranges pos st lss rule = Inr (t, r) \<Longrightarrow> length t \<le> length pos"
proof (induction pos st lss rule rule: parse_ranges.induct)
  case (1 pos st lss rule)
  show ?case
  proof (cases "deref pos = ch CHR '']''")
    case False
    then obtain v p1 p2 r2 where nz: "deref pos \<noteq> 0" and p1: "parse_char pos = Inr (v, p1)"
      and p2: "parse_range_end p1 (rule @ [elem (if lss < length rule then LLAMA_GRETYPE_CHAR_ALT else st) v]) = Inr (p2, r2)"
      and rest: "parse_ranges p2 st lss r2 = Inr (t, r)"
      using "1.prems" unfolding parse_ranges_Inr [of pos] by blast
    have "length t \<le> length p2" using "1.IH" [OF False nz p1 refl refl p2 refl rest] .
    then show ?thesis using parse_char_shrinks [OF p1] parse_range_end_shrinks [OF p2] by simp
  qed (use "1.prems" in \<open>simp add: parse_ranges_Inr [of pos]\<close>)
qed

lemma parse_name_length: "parse_name pos = Inr (name, t) \<Longrightarrow> length t < length pos"
proof -
  assume "parse_name pos = Inr (name, t)"
  then have "0 < length (takeWhile is_word_char pos)" "t = dropWhile is_word_char pos"
    by (auto simp: parse_name_def Let_def split: if_splits)
  moreover have "length (takeWhile is_word_char pos) + length (dropWhile is_word_char pos) = length pos"
    by (metis length_append takeWhile_dropWhile_id)
  ultimately show "length t < length pos" by (simp only:)
qed

lemma parse_int_length: "parse_int pos = Inr (v, t) \<Longrightarrow> length t \<le> length pos"
  by (auto simp: parse_int_def Let_def bind_err_Inr length_dropWhile_le split: if_splits)

lemma tl_length: "length (tl s) \<le> length s"
  by simp

lemma parse_bounds_length: "parse_bounds pos nested = Inr (a, b, t) \<Longrightarrow> length t \<le> length pos"
proof -
  assume "parse_bounds pos nested = Inr (a, b, t)"
  then obtain p1 where p1: "parse_int pos = Inr (a, p1)" and
    "t = parse_space (tl (parse_space p1 nested)) nested \<or>
     (\<exists>p2 c p3. p2 = parse_space (tl (parse_space p1 nested)) nested \<and> (parse_int p2 = Inr (c, p3) \<and> t = parse_space (tl (parse_space p3 nested)) nested \<or>
       t = parse_space (tl p2) nested))"
    by (auto simp: parse_bounds_def Let_def bind_err_Inr split: if_splits)
  moreover have tls: "length (parse_space (tl s) nested) \<le> length s" for s
    using parse_space_length [of "tl s" nested] tl_length [of s] by linarith
  moreover have sp: "length (parse_space s nested) \<le> length s" for s by (rule parse_space_length)
  moreover note parse_int_length [OF p1]
  ultimately show "length t \<le> length pos" by (meson order_trans parse_int_length)
qed

lemma parse_item_shrinks:
  assumes "parse_item pos name rule lss nested P = Inr (Some (pos', rule', lss', P'))" "deref pos \<noteq> 0"
  shows "length pos' < length pos"
proof -
  obtain c t where pos: "pos = c # t" using assms(2) by (cases pos) auto
  have sp: "length (parse_space s nested) \<le> length s" for s by (rule parse_space_length)
  have tls: "length (parse_space (tl s) nested) \<le> length s" for s
    using parse_space_length [of "tl s" nested] tl_length [of s] by linarith
  have name: "parse_name (c # t) = Inr (n, e) \<Longrightarrow> length (parse_space e nested) \<le> length t" for n e
    using parse_name_length [of "c # t" n e] sp [of e] by simp
  have bounds: "parse_bounds (parse_space t nested) nested = Inr (a, b, p) \<Longrightarrow> length p \<le> length t" for a b p
    using parse_bounds_length sp order_trans by blast
  show ?thesis using assms(1) unfolding pos parse_item_def Let_def deref_Cons list.sel
    by (auto simp: bind_err_Inr less_Suc_eq_le split: if_splits prod.split_asm
      intro: order_trans [OF tls] order_trans [OF sp] name bounds dest!: parse_literal_length parse_ranges_length) (metis name surj_pair)
qed

section \<open>No routine but the loops spends fuel\<close>

named_theorems fueled \<open>routines that never report \<open>Out_of_fuel\<close>\<close>

lemma parse_hex_fueled [fueled]: "parse_hex_loop n v s \<noteq> Inl Out_of_fuel"
  by (induction n v s rule: parse_hex_loop.induct) (auto split: option.splits)

lemma parse_char_fueled [fueled]: "parse_char pos \<noteq> Inl Out_of_fuel"
  by (auto simp: parse_char_def parse_hex_def Let_def parse_hex_fueled)

lemma parse_literal_fueled [fueled]: "parse_literal pos rule \<noteq> Inl Out_of_fuel"
proof (induction pos rule rule: parse_literal.induct)
  case (1 pos rule)
  then show ?case by (subst parse_literal.simps) (auto simp: bind_err_Inl parse_char_fueled)
qed

lemma parse_range_end_fueled [fueled]: "parse_range_end pos rule \<noteq> Inl Out_of_fuel"
  by (auto simp: parse_range_end_def bind_err_Inl parse_char_fueled)

lemma parse_ranges_fueled [fueled]: "parse_ranges pos st lss rule \<noteq> Inl Out_of_fuel"
proof (induction pos st lss rule rule: parse_ranges.induct)
  case (1 pos st lss rule)
  then show ?case by (subst parse_ranges.simps) (auto simp: bind_err_Inl Let_def parse_char_fueled parse_range_end_fueled)
qed

lemma parse_name_fueled [fueled]: "parse_name pos \<noteq> Inl Out_of_fuel"
  by (auto simp: parse_name_def Let_def)

lemma parse_int_fueled [fueled]: "parse_int pos \<noteq> Inl Out_of_fuel"
  by (auto simp: parse_int_def stoul_int_def Let_def bind_err_Inl)

lemma parse_bounds_fueled [fueled]: "parse_bounds pos nested \<noteq> Inl Out_of_fuel"
  by (auto simp: parse_bounds_def Let_def bind_err_Inl parse_int_fueled split: if_splits)

lemma handle_repetitions_fueled [fueled]: "handle_repetitions name lss a b rule P \<noteq> Inl Out_of_fuel"
  by (auto simp: handle_repetitions_def Let_def split: prod.splits)

lemma parse_item_fueled [fueled]: "parse_item pos name rule lss nested P \<noteq> Inl Out_of_fuel"
  unfolding parse_item_def Let_def
  by (auto simp: bind_err_Inl handle_repetitions_fueled parse_bounds_fueled parse_name_fueled parse_literal_fueled parse_ranges_fueled
    split: prod.split_asm)

lemma parse_newline_fueled [fueled]: "parse_newline pos \<noteq> Inl Out_of_fuel"
  by (simp add: parse_newline_def)

lemma parse_newline_length: "parse_newline pos = Inr t \<Longrightarrow> length t \<le> length pos"
  by (auto simp: parse_newline_def split: if_splits)


section \<open>The two loops\<close>

text \<open>Their cases.\<close>

lemma alternates_cases:
  assumes "alternates_loop (Suc n) pos name rule nested P = Inr (t, r, Q)"
  obtains (last) "sequence_loop n pos name rule (length rule) nested P = Inr (t, r, Q)"
  | (more) pos1 r1 P1 where "sequence_loop n pos name rule (length rule) nested P = Inr (pos1, r1, P1)" "deref pos1 = ch CHR ''|''"
      "alternates_loop n (parse_space (tl pos1) True) name (r1 @ [elem LLAMA_GRETYPE_ALT 0]) nested P1 = Inr (t, r, Q)"
  using assms that by (auto simp: alternates_loop.simps bind_err_Inr split: if_splits)

lemma sequence_cases:
  assumes "sequence_loop (Suc n) pos name rule lss nested P = Inr (t, r, Q)"
  obtains (stop) "t = pos" "r = rule" "Q = P"
  | (group) i P1 pos1 sub P2 where "deref pos \<noteq> 0" "generate_symbol_id name P = (i, P1)"
      "alternates_loop n (parse_space (tl pos) True) name [] True P1 = Inr (pos1, sub, P2)"
      "sequence_loop n (parse_space (tl pos1) nested) name (rule @ [elem LLAMA_GRETYPE_RULE_REF i]) (length rule) nested
         (add_rule i (sub @ [elem LLAMA_GRETYPE_END 0]) P2) = Inr (t, r, Q)"
  | (item) pos1 r1 lss1 P1 where "deref pos \<noteq> 0" "parse_item pos name rule lss nested P = Inr (Some (pos1, r1, lss1, P1))"
      "sequence_loop n pos1 name r1 lss1 nested P1 = Inr (t, r, Q)"
proof (cases "deref pos = ch CHR ''(''")
  case True
  moreover have "deref pos \<noteq> 0" using True by simp
  ultimately show ?thesis using assms that(2)
    by (auto simp: sequence_loop.simps bind_err_Inr split: if_splits prod.split_asm)
next
  case False
  then show ?thesis using assms that(1,3)
    by (auto simp: sequence_loop.simps bind_err_Inr split: if_splits option.split_asm)
qed

lemma tl_shrinks: "deref s \<noteq> 0 \<Longrightarrow> length (parse_space (tl s) nl) < length s"
  using parse_space_length [of "tl s" nl] by (cases s) auto

lemma loops_length:
  "(alternates_loop n pos name rule nested P = Inr (t, r, Q) \<longrightarrow> length t \<le> length pos) \<and>
   (sequence_loop n pos name rule lss nested P = Inr (t, r, Q) \<longrightarrow> length t \<le> length pos)"
proof (induction n arbitrary: pos rule lss nested P t r Q)
  case (Suc n)
  note IH_a = Suc.IH [THEN conjunct1, rule_format] and IH_s = Suc.IH [THEN conjunct2, rule_format]
  have "length t \<le> length pos" if "alternates_loop (Suc n) pos name rule nested P = Inr (t, r, Q)"
    using that
  proof (cases rule: alternates_cases)
    case last
    then show ?thesis by (rule IH_s)
  next
    case (more pos1 r1 P1)
    have "deref pos1 \<noteq> 0" using more(2) by simp
    then show ?thesis using IH_s [OF more(1)] IH_a [OF more(3)] tl_shrinks [of pos1 True] by simp
  qed
  moreover have "length t \<le> length pos" if "sequence_loop (Suc n) pos name rule lss nested P = Inr (t, r, Q)"
    using that
  proof (cases rule: sequence_cases)
    case (group i P1 pos1 sub P2)
    then show ?thesis
      using IH_s [OF group(4)] IH_a [OF group(3)] tl_shrinks [OF group(1), of True] parse_space_length [of "tl pos1" nested] tl_length [of pos1]
      by linarith
  next
    case (item pos1 r1 lss1 P1)
    then show ?thesis using IH_s [OF item(3)] parse_item_shrinks [OF item(2,1)] by simp
  qed simp
  ultimately show ?case by blast
qed (simp add: alternates_loop.simps sequence_loop.simps)

lemmas alternates_length = loops_length [THEN conjunct1, rule_format]
lemmas sequence_length = loops_length [THEN conjunct2, rule_format]

text \<open>Two units of fuel per byte are enough.\<close>

lemma loops_fuel:
  "(2 * length pos + 2 \<le> n \<longrightarrow> alternates_loop n pos name rule nested P \<noteq> Inl Out_of_fuel) \<and>
   (2 * length pos + 1 \<le> n \<longrightarrow> sequence_loop n pos name rule lss nested P \<noteq> Inl Out_of_fuel)"
proof (induction n arbitrary: pos rule lss nested P)
  case (Suc n)
  note IH_a = Suc.IH [THEN conjunct1, rule_format] and IH_s = Suc.IH [THEN conjunct2, rule_format]
  have "alternates_loop (Suc n) pos name rule nested P \<noteq> Inl Out_of_fuel" if n: "2 * length pos + 2 \<le> Suc n"
  proof
    assume "alternates_loop (Suc n) pos name rule nested P = Inl Out_of_fuel"
    moreover have "sequence_loop n pos name rule (length rule) nested P \<noteq> Inl Out_of_fuel" using n by (intro IH_s) simp
    ultimately obtain pos1 r1 P1 where s: "sequence_loop n pos name rule (length rule) nested P = Inr (pos1, r1, P1)"
      and c: "deref pos1 = ch CHR ''|''"
      and a: "alternates_loop n (parse_space (tl pos1) True) name (r1 @ [elem LLAMA_GRETYPE_ALT 0]) nested P1 = Inl Out_of_fuel"
      by (auto simp: alternates_loop.simps bind_err_Inl split: if_splits)
    have "length (parse_space (tl pos1) True) < length pos"
      using tl_shrinks [of pos1 True] sequence_length [OF s] c by simp
    then have "2 * length (parse_space (tl pos1) True) + 2 \<le> n" using n by linarith
    then show False using IH_a a by blast
  qed
  moreover have "sequence_loop (Suc n) pos name rule lss nested P \<noteq> Inl Out_of_fuel" if n: "2 * length pos + 1 \<le> Suc n"
  proof
    assume loop: "sequence_loop (Suc n) pos name rule lss nested P = Inl Out_of_fuel"
    then have nz: "deref pos \<noteq> 0" by (auto simp: sequence_loop.simps)
    show False
    proof (cases "deref pos = ch CHR ''(''")
      case True
      obtain i P1 where g: "generate_symbol_id name P = (i, P1)" by fastforce
      have "length (parse_space (tl pos) True) < length pos" using tl_shrinks [OF nz] .
      then have "alternates_loop n (parse_space (tl pos) True) name [] True P1 \<noteq> Inl Out_of_fuel" using n by (intro IH_a) linarith
      then obtain pos1 sub P2 where a: "alternates_loop n (parse_space (tl pos) True) name [] True P1 = Inr (pos1, sub, P2)"
        and s: "sequence_loop n (parse_space (tl pos1) nested) name (rule @ [elem LLAMA_GRETYPE_RULE_REF i]) (length rule) nested
           (add_rule i (sub @ [elem LLAMA_GRETYPE_END 0]) P2) = Inl Out_of_fuel"
        using loop True g nz by (auto simp: sequence_loop.simps bind_err_Inl split: if_splits)
      have "length (parse_space (tl pos1) nested) < length pos"
        using parse_space_length [of "tl pos1" nested] tl_length [of pos1] alternates_length [OF a] tl_shrinks [OF nz, of True] by linarith
      then have "2 * length (parse_space (tl pos1) nested) + 1 \<le> n" using n by linarith
      then show False using IH_s s by blast
    next
      case False
      then obtain pos1 r1 lss1 P1 where p: "parse_item pos name rule lss nested P = Inr (Some (pos1, r1, lss1, P1))"
        and s: "sequence_loop n pos1 name r1 lss1 nested P1 = Inl Out_of_fuel"
        using loop nz parse_item_fueled [of pos name rule lss nested P]
        by (auto simp: sequence_loop.simps bind_err_Inl split: if_splits option.split_asm)
      have "length pos1 < length pos" using parse_item_shrinks [OF p nz] .
      then have "2 * length pos1 + 1 \<le> n" using n by linarith
      then show False using IH_s s by blast
    qed
  qed
  ultimately show ?case by blast
qed simp

lemma parse_rule_Inr:
  assumes "parse_rule src P = Inr (t, Q)"
  obtains name name_end i P1 pos pos1 rule P2 pos2 where
    "parse_name src = Inr (name, name_end)" "get_symbol_id name P = (i, P1)"
    "pos = parse_space (drop 3 (parse_space name_end False)) True"
    "alternates_loop (2 * length pos + 2) pos name [] False P1 = Inr (pos1, rule, P2)"
    "parse_newline pos1 = Inr pos2" "t = parse_space pos2 True" "Q = add_rule i (rule @ [elem LLAMA_GRETYPE_END 0]) P2"
proof -
  obtain name name_end where n: "parse_name src = Inr (name, name_end)" using assms by (auto simp: parse_rule_def bind_err_Inr)
  obtain i P1 where g: "get_symbol_id name P = (i, P1)" by fastforce
  show ?thesis using assms that [OF n g refl] by (auto simp: parse_rule_def parse_alternates_def bind_err_Inr Let_def n g split: if_splits)
qed

lemma parse_rule_length: "parse_rule src P = Inr (t, Q) \<Longrightarrow> length t < length src"
proof (erule parse_rule_Inr)
  fix name name_end i P1 pos pos1 rule P2 pos2
  assume n: "parse_name src = Inr (name, name_end)" and pos: "pos = parse_space (drop 3 (parse_space name_end False)) True"
    and a: "alternates_loop (2 * length pos + 2) pos name [] False P1 = Inr (pos1, rule, P2)"
    and l: "parse_newline pos1 = Inr pos2" and t: "t = parse_space pos2 True"
  have "length t \<le> length pos1" unfolding t using parse_space_length [of pos2 True] parse_newline_length [OF l] by linarith
  moreover have "length pos1 \<le> length pos" using alternates_length [OF a] .
  moreover have "length pos \<le> length (parse_space name_end False)" unfolding pos using parse_space_length [of "drop 3 (parse_space name_end False)" True] by simp
  moreover have "length (parse_space name_end False) < length src" using parse_space_length [of name_end False] parse_name_length [OF n] by simp
  ultimately show "length t < length src" by linarith
qed

lemma parse_rule_fueled: "parse_rule src P \<noteq> Inl Out_of_fuel"
proof
  assume f: "parse_rule src P = Inl Out_of_fuel"
  then obtain name name_end where n: "parse_name src = Inr (name, name_end)" by (auto simp: parse_rule_def bind_err_Inl parse_name_fueled)
  obtain i P1 where g: "get_symbol_id name P = (i, P1)" by fastforce
  show False using f loops_fuel [THEN conjunct1, rule_format, OF order_refl]
    by (auto simp: parse_rule_def parse_alternates_def bind_err_Inl Let_def n g parse_newline_fueled split: if_splits)
qed

lemma parse_rules_fueled: "length pos < n \<Longrightarrow> parse_rules n pos P \<noteq> Inl Out_of_fuel"
proof (induction n arbitrary: pos P)
  case (Suc n)
  have "parse_rules n t Q \<noteq> Inl Out_of_fuel" if "parse_rule pos P = Inr (t, Q)" for t Q
    using Suc parse_rule_length [OF that] by simp
  then show ?case by (auto simp: parse_rules.simps bind_err_Inl parse_rule_fueled)
qed simp


section \<open>The symbol table\<close>

text \<open>The \<open>k\<close>-th name has the id \<open>k\<close>; names with an underscore are generated and end in their id.\<close>

definition ids_ok :: "(u8 list \<times> u32) list \<Rightarrow> bool" where
  "ids_ok ids \<longleftrightarrow>
     (\<forall>k<length ids. snd (ids ! k) = of_nat k \<and>
        (ch CHR ''_'' \<in> set (fst (ids ! k)) \<longrightarrow>
          (\<exists>base. ch CHR ''_'' \<notin> set base \<and> fst (ids ! k) = base @ ch CHR ''_'' # decimal k)))"

lemma digit_word: "d < 10 \<Longrightarrow> unat (ch CHR ''0'' + of_nat d) = 48 + d"
proof -
  assume d: "d < 10"
  have "ch CHR ''0'' = 48" by code_simp
  then show ?thesis using d by (simp add: unat_word_ariths unat_of_nat)
qed

lemma decimal_digits: "c \<in> set (decimal n) \<Longrightarrow> c \<noteq> ch CHR ''_''"
proof (induction n rule: decimal.induct)
  case (1 n)
  have digit: "ch CHR ''0'' + of_nat d \<noteq> ch CHR ''_''" if "d < 10" for d
  proof
    assume "ch CHR ''0'' + of_nat d = ch CHR ''_''"
    then have "unat (ch CHR ''_'') = 48 + d" using digit_word [OF that] by simp
    moreover have "unat (ch CHR ''_'') = 95" by code_simp
    ultimately show False using that by simp
  qed
  show ?case
  proof (cases "n < 10")
    case True
    then show ?thesis using "1.prems" digit [of n] by (simp add: decimal.simps [of n])
  next
    case False
    then show ?thesis using "1.prems" "1.IH" digit [of "n mod 10"] by (auto simp: decimal.simps [of n])
  qed
qed

lemma digits_value_decimal: "digits_value (decimal n) = int n"
proof (induction n rule: decimal.induct)
  case (1 n)
  have digit: "uint (ch CHR ''0'' + of_nat d - ch CHR ''0'') = int d" if "d < 10" for d
    using that by (simp add: uint_nat unat_of_nat)
  show ?case
  proof (cases "n < 10")
    case True
    then show ?thesis using digit [of n] by (simp add: decimal.simps [of n] digits_value_def)
  next
    case False
    have "10 * int (n div 10) + int (n mod 10) = int n" by (metis mult_div_mod_eq of_nat_add of_nat_mult of_nat_numeral)
    then show ?thesis using False "1.IH" digit [of "n mod 10"] by (simp add: decimal.simps [of n] digits_value_def)
  qed
qed

lemma generated_name_eq:
  assumes "base @ ch CHR ''_'' # decimal m = base' @ ch CHR ''_'' # decimal n" "ch CHR ''_'' \<notin> set base"
  shows "m = n"
proof -
  have "ch CHR ''_'' \<notin> set (decimal m)" using decimal_digits by blast
  then have "decimal m = decimal n" using assms append_Cons_eq_iff by metis
  then show ?thesis by (metis digits_value_decimal of_nat_eq_iff)
qed

lemma length_AList_update: "length (AList.update k v xs) = (if k \<in> fst ` set xs then length xs else Suc (length xs))"
  by (induction xs) auto

lemma AList_update_new: "k \<notin> fst ` set xs \<Longrightarrow> AList.update k v xs = xs @ [(k, v)]"
  by (induction xs) auto

abbreviation n_ids :: "llama_grammar_parser \<Rightarrow> nat" where
  "n_ids P \<equiv> length (ps_symbol_ids P)"

definition plain_name :: "u8 list \<Rightarrow> bool" where
  "plain_name name \<longleftrightarrow> ch CHR ''_'' \<notin> set name"

lemma parse_name_plain: "parse_name src = Inr (name, t) \<Longrightarrow> plain_name name"
proof -
  assume "parse_name src = Inr (name, t)"
  then have "name = takeWhile is_word_char src" by (auto simp: parse_name_def Let_def split: if_splits)
  moreover have "\<not> is_word_char (ch CHR ''_'')" by code_simp
  ultimately show "plain_name name" unfolding plain_name_def by (metis set_takeWhileD)
qed

lemma ids_ok_append:
  assumes "ids_ok ids" "ch CHR ''_'' \<in> set name \<Longrightarrow> \<exists>base. ch CHR ''_'' \<notin> set base \<and> name = base @ ch CHR ''_'' # decimal (length ids)"
  shows "ids_ok (ids @ [(name, of_nat (length ids))])"
  using assms by (auto simp: ids_ok_def nth_append less_Suc_eq)

lemma unat_u32: "n < 2 ^ 32 \<Longrightarrow> unat (of_nat n :: u32) = n"
  by (simp add: unat_of_nat)

lemma get_symbol_id_grows: "get_symbol_id name P = (i, Q) \<Longrightarrow> n_ids P \<le> n_ids Q"
  by (auto simp: get_symbol_id_def split: option.splits)

lemma get_symbol_id_rules: "get_symbol_id name P = (i, Q) \<Longrightarrow> ps_rules Q = ps_rules P"
  by (auto simp: get_symbol_id_def split: option.splits)

lemma get_symbol_id_ok:
  assumes "get_symbol_id name P = (i, Q)" "ids_ok (ps_symbol_ids P)" "plain_name name" "n_ids Q < 2 ^ 32"
  shows "ids_ok (ps_symbol_ids Q) \<and> unat i < n_ids Q"
proof (cases "map_of (ps_symbol_ids P) name")
  case None
  then have "i = of_nat (n_ids P)" "ps_symbol_ids Q = ps_symbol_ids P @ [(name, of_nat (n_ids P))]"
    using assms(1) by (auto simp: get_symbol_id_def next_symbol_id_def)
  then show ?thesis using ids_ok_append [OF assms(2), of name] assms(3,4) by (simp add: plain_name_def unat_u32)
next
  case (Some j)
  then have Q: "Q = P" "i = j" using assms(1) by (auto simp: get_symbol_id_def)
  obtain k where "k < n_ids P" "ps_symbol_ids P ! k = (name, j)" using Some map_of_SomeD in_set_conv_nth by metis
  then have "j = of_nat k" using assms(2) unfolding ids_ok_def by (metis snd_conv)
  moreover have "k < 2 ^ 32" using less_trans [OF \<open>k < n_ids P\<close>] assms(4) unfolding Q(1) by blast
  ultimately show ?thesis using Q assms(2) \<open>k < n_ids P\<close> by (simp only: unat_u32)
qed

lemma generate_symbol_id_grows: "generate_symbol_id name P = (i, Q) \<Longrightarrow> n_ids P \<le> n_ids Q"
  by (auto simp: generate_symbol_id_def Let_def length_AList_update)

lemma generate_symbol_id_rules: "generate_symbol_id name P = (i, Q) \<Longrightarrow> ps_rules Q = ps_rules P"
  by (auto simp: generate_symbol_id_def Let_def)

text \<open>A generated name is new, so its id is not given out twice.\<close>

lemma generate_symbol_id_new:
  assumes "generate_symbol_id name P = (i, Q)" "ids_ok (ps_symbol_ids P)" "plain_name name" "n_ids P < 2 ^ 32"
  shows "i = of_nat (n_ids P)"
    and "ps_symbol_ids Q = ps_symbol_ids P @ [(name @ ch CHR ''_'' # decimal (n_ids P), of_nat (n_ids P))]"
proof -
  have u: "unat (of_nat (n_ids P) :: u32) = n_ids P" using assms(4) by (rule unat_u32)
  let ?name = "name @ ch CHR ''_'' # decimal (n_ids P)"
  have Q: "i = of_nat (n_ids P)" "ps_symbol_ids Q = AList.update ?name (of_nat (n_ids P)) (ps_symbol_ids P)"
    using assms(1) u by (auto simp: generate_symbol_id_def next_symbol_id_def Let_def)
  have "?name \<notin> fst ` set (ps_symbol_ids P)"
  proof
    assume "?name \<in> fst ` set (ps_symbol_ids P)"
    then obtain x where "x \<in> set (ps_symbol_ids P)" "?name = fst x" by blast
    then obtain k where k: "k < n_ids P" "fst (ps_symbol_ids P ! k) = ?name" unfolding in_set_conv_nth by force
    moreover have "ch CHR ''_'' \<in> set ?name" by simp
    ultimately obtain base where "?name = base @ ch CHR ''_'' # decimal k"
      using assms(2) k(1) unfolding ids_ok_def k(2) [symmetric] by blast
    then have "n_ids P = k" using generated_name_eq assms(3) unfolding plain_name_def by blast
    then show False using k by simp
  qed
  then show "i = of_nat (n_ids P)" "ps_symbol_ids Q = ps_symbol_ids P @ [(?name, of_nat (n_ids P))]"
    using Q by (simp_all add: AList_update_new)
qed

lemma generate_symbol_id_ok:
  assumes "generate_symbol_id name P = (i, Q)" "ids_ok (ps_symbol_ids P)" "plain_name name" "n_ids Q < 2 ^ 32"
  shows "ids_ok (ps_symbol_ids Q) \<and> unat i < n_ids Q"
proof -
  have n: "n_ids P < 2 ^ 32" using generate_symbol_id_grows [OF assms(1)] assms(4) by simp
  note new = generate_symbol_id_new [OF assms(1-3) n]
  show ?thesis
    using ids_ok_append [OF assms(2), of "name @ ch CHR ''_'' # decimal (n_ids P)"] assms(3) unat_u32 [OF n]
    by (auto simp: new plain_name_def)
qed


section \<open>Pieces of rules\<close>

text \<open>A sequence of complete items whose references are below \<open>n\<close>.\<close>

definition piece_ok :: "nat \<Rightarrow> llama_grammar_rule \<Rightarrow> bool" where
  "piece_ok n b \<longleftrightarrow>
     (\<forall>e\<in>set b. ge_type e \<noteq> LLAMA_GRETYPE_END \<and> (ge_type e = LLAMA_GRETYPE_RULE_REF \<longrightarrow> unat (ge_value e) < n)) \<and>
     (b \<noteq> [] \<longrightarrow> \<not> is_modifier (ge_type (hd b))) \<and> successively may_follow b"

named_theorems pieces \<open>how pieces are put together\<close>

lemma follow_not_modifier: "\<not> is_modifier (ge_type b) \<Longrightarrow> may_follow a b"
  by (auto simp: may_follow_def is_modifier_def)

lemma piece_ok_Nil [pieces]: "piece_ok n []"
  by (simp add: piece_ok_def)

lemma piece_ok_append [pieces]: "piece_ok n a \<Longrightarrow> piece_ok n b \<Longrightarrow> piece_ok n (a @ b)"
  by (auto simp: piece_ok_def successively_append_iff follow_not_modifier hd_append)

lemma piece_ok_elem [pieces]:
  "t \<noteq> LLAMA_GRETYPE_END \<Longrightarrow> \<not> is_modifier t \<Longrightarrow> (t = LLAMA_GRETYPE_RULE_REF \<Longrightarrow> unat v < n) \<Longrightarrow> piece_ok n [elem t v]"
  by (auto simp: piece_ok_def elem_def)

lemma piece_ok_ref [pieces]: "unat v < n \<Longrightarrow> piece_ok n [elem LLAMA_GRETYPE_RULE_REF v]"
  by (rule piece_ok_elem) (auto simp: is_modifier_def)

lemma piece_ok_alt [pieces]: "piece_ok n [elem LLAMA_GRETYPE_ALT v]"
  by (rule piece_ok_elem) (auto simp: is_modifier_def)

lemma piece_ok_concat [pieces]: "piece_ok n b \<Longrightarrow> piece_ok n (concat (replicate k b))"
  by (induction k) (auto intro: pieces)

lemma piece_ok_mono: "piece_ok m b \<Longrightarrow> m \<le> n \<Longrightarrow> piece_ok n b"
  by (auto simp: piece_ok_def)

lemma piece_ok_take: "piece_ok n b \<Longrightarrow> piece_ok n (take k b)"
proof -
  assume b: "piece_ok n b"
  have "successively may_follow (take k b @ drop k b)" using b by (simp add: piece_ok_def)
  then have "successively may_follow (take k b)" unfolding successively_append_iff by blast
  moreover have "take k b \<noteq> [] \<Longrightarrow> hd (take k b) = hd b" by (cases b; cases k) auto
  ultimately show ?thesis using b by (auto simp: piece_ok_def dest: in_set_takeD)
qed

text \<open>\<open>last_sym_start\<close> is where the last item starts.\<close>

definition item_start :: "llama_grammar_rule \<Rightarrow> nat \<Rightarrow> bool" where
  "item_start rule lss \<longleftrightarrow> lss \<le> length rule \<and> (lss < length rule \<longrightarrow> \<not> is_modifier (ge_type (rule ! lss)))"

lemma piece_ok_drop: "piece_ok n rule \<Longrightarrow> item_start rule lss \<Longrightarrow> piece_ok n (drop lss rule)"
proof -
  assume r: "piece_ok n rule" and s: "item_start rule lss"
  have "successively may_follow (take lss rule @ drop lss rule)" using r by (simp add: piece_ok_def)
  then have "successively may_follow (drop lss rule)" unfolding successively_append_iff by blast
  then show ?thesis using r s by (auto simp: piece_ok_def item_start_def hd_drop_conv_nth dest: in_set_dropD)
qed

lemma item_start_append: "piece_ok n b \<Longrightarrow> item_start (rule @ b) (length rule)"
  by (cases b) (auto simp: item_start_def piece_ok_def)

lemma rule_ok_piece: "piece_ok n b \<Longrightarrow> rule_ok n (b @ [elem LLAMA_GRETYPE_END v])"
  by (auto simp: rule_ok_def piece_ok_def list_all_iff successively_append_iff hd_append elem_def may_follow_def is_modifier_def)


text \<open>Literals and classes.\<close>

lemma parse_literal_piece: "parse_literal pos rule = Inr (t, r) \<Longrightarrow> \<exists>b. r = rule @ b \<and> piece_ok n b"
proof (induction pos rule rule: parse_literal.induct)
  case (1 pos rule)
  show ?case
  proof (cases "deref pos = ch CHR 0x22")
    case True
    then show ?thesis using "1.prems" piece_ok_Nil by (auto simp: parse_literal_Inr [of pos])
  next
    case False
    then obtain v p where "deref pos \<noteq> 0" "parse_char pos = Inr (v, p)"
      and "parse_literal p (rule @ [elem LLAMA_GRETYPE_CHAR v]) = Inr (t, r)"
      using "1.prems" unfolding parse_literal_Inr [of pos] by blast
    then obtain b where "r = (rule @ [elem LLAMA_GRETYPE_CHAR v]) @ b" "piece_ok n b" using "1.IH" [OF False] by blast
    moreover have "piece_ok n [elem LLAMA_GRETYPE_CHAR v]" by (rule piece_ok_elem) (auto simp: is_modifier_def)
    ultimately show ?thesis using piece_ok_append by fastforce
  qed
qed

definition class_part :: "llama_gretype \<Rightarrow> llama_grammar_rule \<Rightarrow> bool" where
  "class_part st b \<longleftrightarrow> (b \<noteq> [] \<longrightarrow> ge_type (hd b) = st) \<and> successively may_follow b \<and>
     (\<forall>e\<in>set b. ge_type e \<in> {LLAMA_GRETYPE_CHAR, LLAMA_GRETYPE_CHAR_NOT, LLAMA_GRETYPE_CHAR_ALT, LLAMA_GRETYPE_CHAR_RNG_UPPER})"

lemma class_part_piece: "class_part st b \<Longrightarrow> \<not> is_modifier st \<Longrightarrow> piece_ok n b"
  by (auto simp: class_part_def piece_ok_def)

lemma class_part_first: "st = LLAMA_GRETYPE_CHAR \<or> st = LLAMA_GRETYPE_CHAR_NOT \<Longrightarrow> class_part st [elem st v]"
  by (auto simp: class_part_def elem_def)

lemma class_part_alt: "class_part st b \<Longrightarrow> b \<noteq> [] \<Longrightarrow> class_part st (b @ [elem LLAMA_GRETYPE_CHAR_ALT v])"
  by (auto simp: class_part_def elem_def successively_append_iff may_follow_def)

lemma class_part_upper:
  "class_part st (b @ [elem t v]) \<Longrightarrow> t \<noteq> LLAMA_GRETYPE_CHAR_RNG_UPPER \<Longrightarrow>
     class_part st (b @ [elem t v, elem LLAMA_GRETYPE_CHAR_RNG_UPPER w])"
  by (auto simp: class_part_def elem_def successively_append_iff may_follow_def hd_append)

lemma parse_ranges_class:
  "parse_ranges pos st (length pre) rule = Inr (t, r) \<Longrightarrow> rule = pre @ b \<Longrightarrow> class_part st b \<Longrightarrow>
     st = LLAMA_GRETYPE_CHAR \<or> st = LLAMA_GRETYPE_CHAR_NOT \<Longrightarrow> \<exists>b'. r = pre @ b' \<and> class_part st b'"
proof (induction pos st "length pre" rule arbitrary: b rule: parse_ranges.induct)
  case (1 pos st rule)
  note assms = "1.prems"(4)
  show ?case
  proof (cases "deref pos = ch CHR '']''")
    case True
    then show ?thesis using "1.prems" by (auto simp: parse_ranges_Inr [of pos])
  next
    case False
    let ?type = "if length pre < length rule then LLAMA_GRETYPE_CHAR_ALT else st"
    obtain v p1 p2 r2 where nz: "deref pos \<noteq> 0" and p1: "parse_char pos = Inr (v, p1)"
      and p2: "parse_range_end p1 (rule @ [elem ?type v]) = Inr (p2, r2)"
      and rest: "parse_ranges p2 st (length pre) r2 = Inr (t, r)"
      using "1.prems"(1) False unfolding parse_ranges_Inr [of pos] by blast
    have b1: "class_part st (b @ [elem ?type v])"
      using class_part_alt [OF "1.prems"(3)] class_part_first [OF assms] by (cases "b = []") (auto simp: "1.prems"(2))
    have type: "?type \<noteq> LLAMA_GRETYPE_CHAR_RNG_UPPER" using assms by auto
    have "\<exists>b2. r2 = pre @ b2 \<and> class_part st b2"
      using p2 b1 class_part_upper [OF b1 type] by (auto simp: parse_range_end_def bind_err_Inr "1.prems"(2) split: if_splits)
    then show ?thesis using "1.hyps" [OF False nz p1 refl refl p2 refl rest _ _ assms] by blast
  qed
qed


section \<open>The state of the parser\<close>

definition added_rule_ok :: "nat \<Rightarrow> llama_grammar_rule \<Rightarrow> bool" where
  "added_rule_ok n r \<longleftrightarrow> r = [] \<or> (\<exists>b. r = b @ [elem LLAMA_GRETYPE_END 0] \<and> piece_ok n b)"

definition parser_inv :: "llama_grammar_parser \<Rightarrow> bool" where
  "parser_inv P \<longleftrightarrow> ids_ok (ps_symbol_ids P) \<and> (\<forall>r\<in>set (ps_rules P). added_rule_ok (n_ids P) r)"

text \<open>A good state, with the rule that is being parsed: as long as the ids have not run out.\<close>

definition good :: "llama_grammar_rule \<Rightarrow> llama_grammar_parser \<Rightarrow> bool" where
  "good rule P \<longleftrightarrow> (n_ids P < 2 ^ 32 \<longrightarrow> parser_inv P \<and> piece_ok (n_ids P) rule)"

lemma added_rule_ok_mono: "added_rule_ok m r \<Longrightarrow> m \<le> n \<Longrightarrow> added_rule_ok n r"
  using piece_ok_mono unfolding added_rule_ok_def by blast

lemma parser_inv_same_rules:
  assumes "parser_inv P" "ids_ok (ps_symbol_ids Q)" "ps_rules Q = ps_rules P" "n_ids P \<le> n_ids Q"
  shows "parser_inv Q"
  using assms(1,2) added_rule_ok_mono [OF _ assms(4)] unfolding parser_inv_def assms(3) by blast

lemma get_symbol_id_inv:
  assumes "get_symbol_id name P = (i, Q)" "plain_name name" "n_ids Q < 2 ^ 32" "parser_inv P"
  shows "parser_inv Q" "unat i < n_ids Q"
proof -
  have "ids_ok (ps_symbol_ids P)" using assms(4) by (simp add: parser_inv_def)
  note ok = get_symbol_id_ok [OF assms(1) this assms(2,3)]
  show "parser_inv Q"
    using parser_inv_same_rules [OF assms(4) _ get_symbol_id_rules [OF assms(1)] get_symbol_id_grows [OF assms(1)]] ok by blast
  show "unat i < n_ids Q" using ok by blast
qed

lemma generate_symbol_id_inv:
  assumes "generate_symbol_id name P = (i, Q)" "plain_name name" "n_ids Q < 2 ^ 32" "parser_inv P"
  shows "parser_inv Q" "unat i < n_ids Q"
proof -
  have "ids_ok (ps_symbol_ids P)" using assms(4) by (simp add: parser_inv_def)
  note ok = generate_symbol_id_ok [OF assms(1) this assms(2,3)]
  show "parser_inv Q"
    using parser_inv_same_rules [OF assms(4) _ generate_symbol_id_rules [OF assms(1)] generate_symbol_id_grows [OF assms(1)]] ok by blast
  show "unat i < n_ids Q" using ok by blast
qed

lemma add_rule_ids [simp]: "ps_symbol_ids (add_rule i r P) = ps_symbol_ids P"
  by (simp add: add_rule_def Let_def)

lemma add_rule_inv: "parser_inv P \<Longrightarrow> piece_ok (n_ids P) b \<Longrightarrow> parser_inv (add_rule i (b @ [elem LLAMA_GRETYPE_END 0]) P)"
proof -
  assume P: "parser_inv P" and b: "piece_ok (n_ids P) b"
  have "set (ps_rules (add_rule i (b @ [elem LLAMA_GRETYPE_END 0]) P)) \<subseteq> insert (b @ [elem LLAMA_GRETYPE_END 0]) (insert [] (set (ps_rules P)))"
    by (auto simp: add_rule_def Let_def dest!: set_update_subset_insert [THEN subsetD])
  then show ?thesis using P b unfolding parser_inv_def added_rule_ok_def add_rule_ids by blast
qed


section \<open>Repetitions and items\<close>

lemma add_repetition_ok:
  assumes "add_repetition name prev mx k (l, P) = (l', Q)"
  shows "n_ids P \<le> n_ids Q"
    and "n_ids Q < 2 ^ 32 \<Longrightarrow> plain_name name \<Longrightarrow> parser_inv P \<Longrightarrow> piece_ok (n_ids P) prev \<Longrightarrow> (k > 0 \<Longrightarrow> unat l < n_ids P) \<Longrightarrow>
      parser_inv Q \<and> unat l' < n_ids Q"
proof -
  obtain i P1 where g: "generate_symbol_id name P = (i, P1)" by fastforce
  define more where "more = (if k > 0 \<or> mx < 0 then [elem LLAMA_GRETYPE_RULE_REF (if mx < 0 then i else l)] else [])"
  have Q: "l' = i" "Q = add_rule i ((prev @ more @ [elem LLAMA_GRETYPE_ALT 0]) @ [elem LLAMA_GRETYPE_END 0]) P1"
    using assms g by (auto simp: add_repetition_def more_def Let_def)
  note le = generate_symbol_id_grows [OF g]
  then show "n_ids P \<le> n_ids Q" by (simp add: Q)
  assume n: "n_ids Q < 2 ^ 32" and a: "plain_name name" "parser_inv P" "piece_ok (n_ids P) prev" "k > 0 \<Longrightarrow> unat l < n_ids P"
  have P1: "parser_inv P1" "unat i < n_ids P1" using generate_symbol_id_inv [OF g a(1) _ a(2)] n by (simp_all add: Q)
  have "piece_ok (n_ids P1) more"
    using P1(2) a(4) le unfolding more_def by (auto intro!: piece_ok_ref piece_ok_Nil)
  then have "piece_ok (n_ids P1) (prev @ more @ [elem LLAMA_GRETYPE_ALT 0])"
    using piece_ok_mono [OF a(3) le] by (intro pieces)
  then show "parser_inv Q \<and> unat l' < n_ids Q" using add_rule_inv [OF P1(1), of _ i] P1(2) unfolding Q add_rule_ids by blast
qed

lemma add_repetitions_ok:
  assumes "fold (add_repetition name prev mx) [0..<m] (l, P) = (l', Q)"
  shows "n_ids P \<le> n_ids Q \<and>
    (n_ids Q < 2 ^ 32 \<longrightarrow> plain_name name \<longrightarrow> parser_inv P \<longrightarrow> piece_ok (n_ids P) prev \<longrightarrow>
      parser_inv Q \<and> (m > 0 \<longrightarrow> unat l' < n_ids Q))"
  using assms
proof (induction m arbitrary: l' Q)
  case (Suc m)
  obtain l1 P1 where f: "fold (add_repetition name prev mx) [0..<m] (l, P) = (l1, P1)" by fastforce
  then have s: "add_repetition name prev mx m (l1, P1) = (l', Q)" using Suc.prems by simp
  note IH = Suc.IH [OF f] and step = add_repetition_ok [OF s]
  have "parser_inv Q \<and> unat l' < n_ids Q"
    if n: "n_ids Q < 2 ^ 32" and a: "plain_name name" "parser_inv P" "piece_ok (n_ids P) prev"
  proof -
    have "n_ids P1 < 2 ^ 32" using step(1) n by (rule le_less_trans)
    then have "parser_inv P1" "m > 0 \<longrightarrow> unat l1 < n_ids P1" using IH a by blast+
    moreover have "piece_ok (n_ids P1) prev" using piece_ok_mono a(3) IH by blast
    ultimately show ?thesis using step(2) [OF n a(1)] by blast
  qed
  then show ?case using IH step(1) by (meson order_trans)
qed simp

lemma handle_repetitions_ok:
  assumes "handle_repetitions name lss mn mx rule P = Inr (rule', Q)" "item_start rule lss"
  shows "n_ids P \<le> n_ids Q" "good rule P \<Longrightarrow> plain_name name \<Longrightarrow> good rule' Q \<and> item_start rule' lss"
proof -
  define n_opt where "n_opt = (if mx < 0 then 1 else mx - mn)"
  define base where "base = (if mn = 0 then take lss rule else rule @ concat (replicate (nat (mn - 1)) (drop lss rule)))"
  obtain l P1 where f: "fold (add_repetition name (drop lss rule) mx) [0..<nat n_opt] (0, P) = (l, P1)" by fastforce
  have lss: "lss \<le> length rule" using assms(2) by (simp add: item_start_def)
  have res: "rule' = (if n_opt > 0 then base @ [elem LLAMA_GRETYPE_RULE_REF l] else base)" "Q = P1" "lss < length rule"
    using assms(1) f lss unfolding handle_repetitions_def n_opt_def base_def by (auto simp: Let_def split: if_splits)
  note reps = add_repetitions_ok [OF f]
  show "n_ids P \<le> n_ids Q" using reps res(2) by blast
  assume g: "good rule P" and name: "plain_name name"
  have "\<not> is_modifier (ge_type (rule ! lss))" using assms(2) res(3) by (simp add: item_start_def)
  then have "item_start rule' lss"
    using lss res(3) by (auto simp: res(1) base_def item_start_def nth_append elem_def is_modifier_def)
  moreover have "parser_inv P1 \<and> piece_ok (n_ids P1) rule'" if n: "n_ids P1 < 2 ^ 32"
  proof -
    have "n_ids P < 2 ^ 32" using reps n le_less_trans by blast
    then have P: "parser_inv P" "piece_ok (n_ids P) rule" using g by (simp_all add: good_def)
    have P1: "parser_inv P1" "n_opt > 0 \<longrightarrow> unat l < n_ids P1"
      using reps n name P(1) piece_ok_drop [OF P(2) assms(2)] by auto
    have rule: "piece_ok (n_ids P1) rule" using piece_ok_mono P(2) reps by blast
    then have "piece_ok (n_ids P1) base"
      unfolding base_def using piece_ok_take piece_ok_drop [OF rule assms(2)] by (auto intro: pieces)
    then show ?thesis using P1 by (auto simp: res(1) intro: pieces)
  qed
  ultimately show "good rule' Q \<and> item_start rule' lss" by (simp add: good_def res(2))
qed

lemma parse_item_cases:
  assumes "parse_item pos name rule lss nested P = Inr (Some (pos', rule', lss', P'))"
  obtains (literal) p where "parse_literal (tl pos) rule = Inr (p, rule')" "lss' = length rule" "P' = P"
  | (ranges) st q p where "st = LLAMA_GRETYPE_CHAR \<or> st = LLAMA_GRETYPE_CHAR_NOT"
      "parse_ranges q st (length rule) rule = Inr (p, rule')" "lss' = length rule" "P' = P"
  | (ref) nm e i where "parse_name pos = Inr (nm, e)" "get_symbol_id nm P = (i, P')"
      "rule' = rule @ [elem LLAMA_GRETYPE_RULE_REF i]" "lss' = length rule"
  | (any) "rule' = rule @ [elem LLAMA_GRETYPE_CHAR_ANY 0]" "lss' = length rule" "P' = P"
  | (repeat) mn mx where "handle_repetitions name lss mn mx rule P = Inr (rule', P')" "lss' = lss"
proof -
  consider (lit) "deref pos = ch CHR 0x22" | (brack) "deref pos \<noteq> ch CHR 0x22" "deref pos = ch CHR ''[''"
    | (word) "deref pos \<noteq> ch CHR 0x22" "deref pos \<noteq> ch CHR ''[''" "is_word_char (deref pos)"
    | (other) "deref pos \<noteq> ch CHR 0x22" "deref pos \<noteq> ch CHR ''[''" "\<not> is_word_char (deref pos)"
    by blast
  then show ?thesis
  proof cases
    case lit
    then show ?thesis using assms that(1) unfolding parse_item_def Let_def if_P [OF lit] by (auto simp only: bind_err_Inr sum.inject prod.inject option.inject prod.case split: prod.split_asm)
  next
    case brack
    then show ?thesis using assms that(2) unfolding parse_item_def Let_def if_not_P [OF brack(1)] if_P [OF brack(2)]
      by (cases "deref (tl pos) = ch CHR ''^''") (auto simp: bind_err_Inr simp del: One_nat_def)
  next
    case word
    then obtain nm e where n: "parse_name pos = Inr (nm, e)"
      using assms unfolding parse_item_def Let_def by (auto simp: bind_err_Inr)
    obtain i P1 where g: "get_symbol_id nm P = (i, P1)" by fastforce
    then show ?thesis using assms word that(3) [OF n] unfolding parse_item_def Let_def by (auto simp: n)
  next
    case other
    then have "rule' = rule @ [elem LLAMA_GRETYPE_CHAR_ANY 0] \<and> lss' = length rule \<and> P' = P \<or>
        (\<exists>mn mx. handle_repetitions name lss mn mx rule P = Inr (rule', P') \<and> lss' = lss)"
      using assms unfolding parse_item_def Let_def if_not_P [OF other(1)] if_not_P [OF other(2)] if_not_P [OF other(3)]
      by (simp split: if_split_asm) (auto simp: bind_err_Inr)
    then show ?thesis using that(4,5) by blast
  qed
qed

lemma good_more: "good rule P \<Longrightarrow> piece_ok (n_ids P) b \<Longrightarrow> good (rule @ b) P"
  by (simp add: good_def piece_ok_append)

lemma parse_item_good:
  assumes "parse_item pos name rule lss nested P = Inr (Some (pos', rule', lss', P'))" "item_start rule lss"
  shows "n_ids P \<le> n_ids P' \<and> (good rule P \<longrightarrow> plain_name name \<longrightarrow> good rule' P' \<and> item_start rule' lss')"
  using assms(1)
proof (cases rule: parse_item_cases)
  case (literal p)
  obtain b where "rule' = rule @ b" "piece_ok (n_ids P) b" using parse_literal_piece [OF literal(1)] by blast
  then show ?thesis using good_more item_start_append literal(2,3) by auto
next
  case (ranges st q p)
  then obtain b where "rule' = rule @ b" "class_part st b"
    using parse_ranges_class [OF ranges(2), of "[]"] by (auto simp: class_part_def)
  moreover have "\<not> is_modifier st" using ranges(1) by (auto simp: is_modifier_def)
  ultimately show ?thesis using good_more item_start_append class_part_piece ranges(3,4) by auto
next
  case (ref nm e i)
  have "good rule' P'" if "good rule P"
    unfolding good_def
  proof
    assume n: "n_ids P' < 2 ^ 32"
    then have "n_ids P < 2 ^ 32" using get_symbol_id_grows [OF ref(2)] by linarith
    then have P: "parser_inv P" "piece_ok (n_ids P) rule" using that by (simp_all add: good_def)
    note inv = get_symbol_id_inv [OF ref(2) parse_name_plain [OF ref(1)] n P(1)]
    then show "parser_inv P' \<and> piece_ok (n_ids P') rule'"
      using piece_ok_mono [OF P(2) get_symbol_id_grows [OF ref(2)]] by (auto simp: ref(3) intro: pieces)
  qed
  moreover have "item_start rule' lss'" by (simp add: ref(3,4) item_start_def elem_def is_modifier_def)
  ultimately show ?thesis using get_symbol_id_grows [OF ref(2)] by blast
next
  case any
  have "piece_ok (n_ids P) [elem LLAMA_GRETYPE_CHAR_ANY 0]" by (rule piece_ok_elem) (auto simp: is_modifier_def)
  then show ?thesis using good_more item_start_append any by auto
next
  case (repeat mn mx)
  then show ?thesis using handle_repetitions_ok [OF repeat(1) assms(2)] by simp
qed


section \<open>The loops keep the state good\<close>

lemma item_start_length [simp]: "item_start rule (length rule)"
  by (simp add: item_start_def)

lemma generate_good: "generate_symbol_id name P = (i, P1) \<Longrightarrow> plain_name name \<Longrightarrow> good rule P \<Longrightarrow> good [] P1"
proof -
  assume g: "generate_symbol_id name P = (i, P1)" and name: "plain_name name" and P: "good rule P"
  show ?thesis unfolding good_def
  proof
    assume n: "n_ids P1 < 2 ^ 32"
    then have "n_ids P < 2 ^ 32" using generate_symbol_id_grows [OF g] by linarith
    then have "parser_inv P" using P by (simp add: good_def)
    then show "parser_inv P1 \<and> piece_ok (n_ids P1) []" using generate_symbol_id_inv [OF g name n] by (simp add: piece_ok_Nil)
  qed
qed

lemma group_good:
  assumes g: "generate_symbol_id name P = (i, P1)" and name: "plain_name name" and P: "good rule P"
    and sub: "n_ids P1 \<le> n_ids P2" "good sub P2"
  shows "good (rule @ [elem LLAMA_GRETYPE_RULE_REF i]) (add_rule i (sub @ [elem LLAMA_GRETYPE_END 0]) P2)"
  unfolding good_def add_rule_ids
proof
  assume n: "n_ids P2 < 2 ^ 32"
  then have n1: "n_ids P1 < 2 ^ 32" using sub(1) by linarith
  then have "n_ids P < 2 ^ 32" using generate_symbol_id_grows [OF g] by linarith
  then have P': "parser_inv P" "piece_ok (n_ids P) rule" using P by (simp_all add: good_def)
  have P2: "parser_inv P2" "piece_ok (n_ids P2) sub" using sub(2) n by (auto simp: good_def)
  have "piece_ok (n_ids P2) rule" using piece_ok_mono [OF P'(2)] generate_symbol_id_grows [OF g] sub(1) by simp
  moreover have "unat i < n_ids P2" using generate_symbol_id_inv(2) [OF g name n1 P'(1)] sub(1) by linarith
  ultimately show "parser_inv (add_rule i (sub @ [elem LLAMA_GRETYPE_END 0]) P2) \<and> piece_ok (n_ids P2) (rule @ [elem LLAMA_GRETYPE_RULE_REF i])"
    using add_rule_inv [OF P2] piece_ok_ref piece_ok_append by blast
qed

lemma loops_good:
  assumes name: "plain_name name"
  shows
  "(alternates_loop n pos name rule nested P = Inr (t, r, Q) \<longrightarrow> good rule P \<longrightarrow> n_ids P \<le> n_ids Q \<and> good r Q) \<and>
   (sequence_loop n pos name rule lss nested P = Inr (t, r, Q) \<longrightarrow> good rule P \<longrightarrow> item_start rule lss \<longrightarrow>
      n_ids P \<le> n_ids Q \<and> good r Q)"
proof (induction n arbitrary: pos rule lss nested P t r Q)
  case (Suc n)
  note IH_a = Suc.IH [THEN conjunct1, rule_format] and IH_s = Suc.IH [THEN conjunct2, rule_format]
  have "n_ids P \<le> n_ids Q \<and> good r Q"
    if "alternates_loop (Suc n) pos name rule nested P = Inr (t, r, Q)" and P: "good rule P"
    using that(1)
  proof (cases rule: alternates_cases)
    case last
    then show ?thesis using IH_s [OF last P] by simp
  next
    case (more pos1 r1 P1)
    have "n_ids P \<le> n_ids P1" "good r1 P1" using IH_s [OF more(1) P] by simp_all
    moreover from this have "good (r1 @ [elem LLAMA_GRETYPE_ALT 0]) P1" by (intro good_more) (auto intro: pieces)
    ultimately show ?thesis using IH_a [OF more(3)] by fastforce
  qed
  moreover have "n_ids P \<le> n_ids Q \<and> good r Q"
    if "sequence_loop (Suc n) pos name rule lss nested P = Inr (t, r, Q)" and P: "good rule P" and start: "item_start rule lss"
    using that(1)
  proof (cases rule: sequence_cases)
    case (group i P1 pos1 sub P2)
    have sub: "n_ids P1 \<le> n_ids P2" "good sub P2" using IH_a [OF group(3) generate_good [OF group(2) name P]] by simp_all
    have "item_start (rule @ [elem LLAMA_GRETYPE_RULE_REF i]) (length rule)" by (simp add: item_start_def elem_def is_modifier_def)
    then show ?thesis
      using IH_s [OF group(4) group_good [OF group(2) name P sub]] generate_symbol_id_grows [OF group(2)] sub(1) by simp
  next
    case (item pos1 r1 lss1 P1)
    then show ?thesis using parse_item_good [OF item(2) start] P name IH_s [OF item(3)] by fastforce
  qed (use P in simp)
  ultimately show ?case by blast
qed (simp add: alternates_loop.simps sequence_loop.simps)


section \<open>Rules and the validation\<close>

lemma get_symbol_id_good: "get_symbol_id name P = (i, P1) \<Longrightarrow> plain_name name \<Longrightarrow> good rule P \<Longrightarrow> good [] P1"
proof -
  assume g: "get_symbol_id name P = (i, P1)" and name: "plain_name name" and P: "good rule P"
  show ?thesis unfolding good_def
  proof
    assume n: "n_ids P1 < 2 ^ 32"
    then have "n_ids P < 2 ^ 32" using get_symbol_id_grows [OF g] by linarith
    then have "parser_inv P" using P by (simp add: good_def)
    then show "parser_inv P1 \<and> piece_ok (n_ids P1) []" using get_symbol_id_inv [OF g name n] by (simp add: piece_ok_Nil)
  qed
qed

lemma parse_rule_good: "parse_rule src P = Inr (t, Q) \<Longrightarrow> good [] P \<Longrightarrow> good [] Q"
proof (erule parse_rule_Inr)
  fix name name_end i P1 pos pos1 rule P2 pos2
  assume n: "parse_name src = Inr (name, name_end)" and g: "get_symbol_id name P = (i, P1)" and P: "good [] P"
    and a: "alternates_loop (2 * length pos + 2) pos name [] False P1 = Inr (pos1, rule, P2)"
    and Q: "Q = add_rule i (rule @ [elem LLAMA_GRETYPE_END 0]) P2"
  have "good [] P1" using get_symbol_id_good [OF g parse_name_plain [OF n] P] .
  then have "good rule P2" using loops_good [OF parse_name_plain [OF n], THEN conjunct1, rule_format, OF a] by blast
  then show "good [] Q" using add_rule_inv by (auto simp: good_def Q piece_ok_Nil)
qed

lemma parse_rules_good: "parse_rules n pos P = Inr Q \<Longrightarrow> good [] P \<Longrightarrow> good [] Q"
proof (induction n arbitrary: pos P)
  case (Suc n)
  then show ?case using parse_rule_good by (fastforce simp: parse_rules.simps bind_err_Inr split: if_splits)
qed (simp add: parse_rules.simps)

lemma ids_ok_present: "ids_ok ids \<Longrightarrow> unat i < length ids \<Longrightarrow> list_ex (\<lambda>(name, j). j = i) ids"
proof -
  assume "ids_ok ids" "unat i < length ids"
  then have "snd (ids ! unat i) = i" "ids ! unat i \<in> set ids" by (simp_all add: ids_ok_def)
  then show ?thesis unfolding list_ex_iff by (metis (mono_tags, lifting) case_prod_beta)
qed

lemma copy_rule_body: "\<forall>e\<in>set b. ge_type e \<noteq> LLAMA_GRETYPE_END \<Longrightarrow> copy_rule (b @ [elem LLAMA_GRETYPE_END 0]) = Some (b @ [elem LLAMA_GRETYPE_END 0])"
  by (induction b) (auto simp: elem_def)

lemma copy_rules_id: "\<forall>r\<in>set rs. copy_rule r = Some r \<Longrightarrow> copy_rules rs = Some rs"
  by (induction rs) auto

text \<open>
  C39: The parser of grammar texts always comes to an end: two units of fuel per byte are enough, and
  no text makes it run out.
\<close>

theorem grammar_parse_returns: "parse_grammar src \<noteq> Inl Out_of_fuel"
proof -
  have "validate_rule P r \<noteq> Some Out_of_fuel" for P r
    by (auto simp: validate_rule_def validate_ref_def dest!: first_err_Some split: if_splits)
  then show ?thesis
    using parse_rules_fueled [of "parse_space src True" "length (parse_space src True) + 1"]
    by (auto simp: parse_grammar_def Let_def bind_err_Inl split: option.splits dest!: first_err_Some)
qed

lemma parsed_rule_ok:
  assumes "parse_grammar src = Inr P" "length (ps_symbol_ids P) < 2 ^ 32" "r \<in> set (ps_rules P)"
  shows "rule_ok (length (ps_rules P)) r" "copy_rule r = Some r"
proof -
  have rules: "\<exists>n pos. parse_rules n pos \<lparr>ps_symbol_ids = [], ps_rules = []\<rparr> = Inr P"
    and valid: "\<forall>r\<in>set (ps_rules P). validate_rule P r = None"
    using assms(1) by (auto simp: parse_grammar_def Let_def bind_err_Inr first_err_None split: option.splits)
  have "good [] \<lparr>ps_symbol_ids = [], ps_rules = []\<rparr>" by (simp add: good_def parser_inv_def ids_ok_def piece_ok_Nil)
  then have inv: "parser_inv P" using rules parse_rules_good assms(2) unfolding good_def by blast
  have body: "\<exists>b. r = b @ [elem LLAMA_GRETYPE_END 0] \<and> piece_ok (length (ps_rules P)) b" if r: "r \<in> set (ps_rules P)" for r
  proof -
    have "r \<noteq> []" and refs: "\<forall>e\<in>set r. validate_ref P e = None"
      using valid r by (auto simp: validate_rule_def first_err_None split: if_splits)
    then obtain b where b: "r = b @ [elem LLAMA_GRETYPE_END 0]" "piece_ok (n_ids P) b"
      using inv r unfolding parser_inv_def added_rule_ok_def by blast
    have "unat (ge_value e) < length (ps_rules P)" if "e \<in> set b" "ge_type e = LLAMA_GRETYPE_RULE_REF" for e
    proof -
      have "unat (ge_value e) < n_ids P" using b(2) that unfolding piece_ok_def by blast
      then have "list_ex (\<lambda>(name, i). i = ge_value e) (ps_symbol_ids P)" using inv ids_ok_present unfolding parser_inv_def by blast
      moreover have "validate_ref P e = None" using refs that(1) b(1) by simp
      ultimately show ?thesis using that(2) by (auto simp: validate_ref_def not_le split: if_splits)
    qed
    then show ?thesis using b unfolding piece_ok_def by blast
  qed
  show "rule_ok (length (ps_rules P)) r" "copy_rule r = Some r"
    using body [OF assms(3)] rule_ok_piece copy_rule_body unfolding piece_ok_def by blast+
qed

text \<open>
  C38: A grammar text that is parsed without an error gives well-formed rules: every reference is to
  a defined rule, every range and alternative has its character, and every rule ends in its only
  \<open>END\<close>, so that the initialisation copies the rules as they are. The ids must not have run out.
\<close>

theorem grammar_parse_well_formed:
  assumes "parse_grammar src = Inr P" "length (ps_symbol_ids P) < 2 ^ 32"
  shows "grammar_ok (ps_rules P) \<and> copy_rules (ps_rules P) = Some (ps_rules P)"
  using parsed_rule_ok [OF assms] by (simp add: grammar_ok_def list_all_iff copy_rules_id)

end
