(* ===== verification/Grammar_Partial.thy ===== *)
theory Grammar_Partial
  imports Grammar_Total
begin

text \<open>
  Deciding whether an incomplete UTF-8 sequence can go on inside a character class: for a class
  the answer is whether some completion is in it, for an inverted class whether all are outside.
\<close>

section \<open>Matching an incomplete sequence\<close>

text \<open>The code points of the class at the head of \<open>es\<close>, as the contract of both loops.\<close>

function class_has :: "llama_grammar_rule \<Rightarrow> u32 \<Rightarrow> bool" where
  "class_has es c =
     (if length es < 2 then False
      else
        let e = es ! 0; e1 = es ! 1; range = (ge_type e1 = LLAMA_GRETYPE_CHAR_RNG_UPPER); k = (if range then 2 else 1)
        in (if range then ge_value e \<le> c \<and> c \<le> ge_value e1 else ge_type e = LLAMA_GRETYPE_CHAR_ANY \<or> ge_value e = c) \<or>
           k < length es \<and> ge_type (es ! k) = LLAMA_GRETYPE_CHAR_ALT \<and> class_has (drop k es) c)"
  by pat_completeness auto
termination
  by (relation "measure (\<lambda>(es, c). length es)") auto

declare class_has.simps [simp del]

lemma match_loop_class: "match_loop es c f n = Some (b, k) \<Longrightarrow> b \<longleftrightarrow> f \<or> class_has es c"
proof (induction es c f n rule: match_loop.induct)
  case (1 es c f n)
  from "1.prems" obtain e e1 where e: "vec_at es 0 = Some e" "vec_at es 1 = Some e1"
    by (subst (asm) match_loop.simps) (auto split: Option.bind_splits)
  then have es: "es ! 0 = e" "es ! 1 = e1" "\<not> length es < 2" by (auto simp: vec_at_def split: if_splits)
  show ?case
  proof (cases "ge_type e1 = LLAMA_GRETYPE_CHAR_RNG_UPPER")
    case True
    with "1.prems" e es show ?thesis
      using "1.IH" [OF e] match_loop.simps [of es c f n] class_has.simps [of es c]
      by (auto simp: vec_at_def split: Option.bind_splits if_splits)
  next
    case False
    with "1.prems" e es show ?thesis
      using "1.IH" [OF e] match_loop.simps [of es c f n] class_has.simps [of es c]
      by (auto simp: vec_at_def split: Option.bind_splits if_splits)
  qed
qed

definition range_ordered :: "llama_grammar_element \<Rightarrow> llama_grammar_element \<Rightarrow> bool" where
  "range_ordered a b \<longleftrightarrow> (ge_type b = LLAMA_GRETYPE_CHAR_RNG_UPPER \<longrightarrow> ge_value a \<le> ge_value b)"

lemma ranges_meet:
  assumes "(a :: u32) \<le> b" "low \<le> high"
  shows "a \<le> high \<and> low \<le> b \<longleftrightarrow> (\<exists>c. low \<le> c \<and> c \<le> high \<and> a \<le> c \<and> c \<le> b)"
proof
  assume "a \<le> high \<and> low \<le> b"
  then show "\<exists>c. low \<le> c \<and> c \<le> high \<and> a \<le> c \<and> c \<le> b" using assms by (intro exI [of _ "max a low"]) auto
qed (auto intro: order_trans)

lemma partial_loop_class:
  assumes "low \<le> high" "partial_loop es low high positive = Some b" "successively range_ordered es"
    and "ge_type (es ! 0) = LLAMA_GRETYPE_CHAR_ANY \<Longrightarrow> positive"
  shows "b \<longleftrightarrow> ((\<exists>c. low \<le> c \<and> c \<le> high \<and> class_has es c) \<longleftrightarrow> positive)"
  using assms
proof (induction es low high positive rule: partial_loop.induct)
  case (1 es low high positive)
  from "1.prems"(2) obtain e e1 where e: "vec_at es 0 = Some e" "vec_at es 1 = Some e1"
    by (subst (asm) partial_loop.simps) (auto split: Option.bind_splits)
  then have es: "es ! 0 = e" "es ! 1 = e1" "\<not> length es < 2" by (auto simp: vec_at_def split: if_splits)
  have ord: "successively range_ordered (drop k es)" for k
    using "1.prems"(3) successively_append_iff [of range_ordered "take k es" "drop k es"] by simp
  have pair: "range_ordered e e1" using "1.prems"(3) es successively_conv_nth [of range_ordered es] by force
  have go_on: "b \<longleftrightarrow> ((\<exists>c. low \<le> c \<and> c \<le> high \<and> class_has es c) \<longleftrightarrow> positive)"
    if rest: "vec_at es k = Some e'" "(if ge_type e' = LLAMA_GRETYPE_CHAR_ALT then partial_loop (drop k es) low high positive else Some (\<not> positive)) = Some b"
      and IH: "ge_type e' = LLAMA_GRETYPE_CHAR_ALT \<Longrightarrow> partial_loop (drop k es) low high positive = Some b \<Longrightarrow>
        b \<longleftrightarrow> ((\<exists>c. low \<le> c \<and> c \<le> high \<and> class_has (drop k es) c) \<longleftrightarrow> positive)"
      and inside: "\<And>c. low \<le> c \<Longrightarrow> c \<le> high \<Longrightarrow>
        class_has es c \<longleftrightarrow> k < length es \<and> ge_type (es ! k) = LLAMA_GRETYPE_CHAR_ALT \<and> class_has (drop k es) c" for k e'
  proof -
    have k: "k < length es" "es ! k = e'" using rest(1) by (auto simp: vec_at_def split: if_splits)
    show ?thesis
    proof (cases "ge_type e' = LLAMA_GRETYPE_CHAR_ALT")
      case True
      then show ?thesis using IH rest(2) inside k by auto
    next
      case False
      then show ?thesis using rest(2) inside k by auto
    qed
  qed
  have alt: "ge_type (drop k es ! 0) \<noteq> LLAMA_GRETYPE_CHAR_ANY" if "vec_at es k = Some e'" "ge_type e' = LLAMA_GRETYPE_CHAR_ALT" for k e'
    using that by (auto simp: vec_at_def split: if_splits)
  note unf = partial_loop.simps [of es low high positive] and cl = class_has.simps [of es]
  consider (range) "ge_type e1 = LLAMA_GRETYPE_CHAR_RNG_UPPER" | (any) "ge_type e1 \<noteq> LLAMA_GRETYPE_CHAR_RNG_UPPER" "ge_type e = LLAMA_GRETYPE_CHAR_ANY"
    | (char) "ge_type e1 \<noteq> LLAMA_GRETYPE_CHAR_RNG_UPPER" "ge_type e \<noteq> LLAMA_GRETYPE_CHAR_ANY" by blast
  then show ?case
  proof cases
    case range
    have le: "ge_value e \<le> ge_value e1" using pair range by (simp add: range_ordered_def)
    have meet: "ge_value e \<le> high \<and> low \<le> ge_value e1 \<longleftrightarrow> (\<exists>c. low \<le> c \<and> c \<le> high \<and> ge_value e \<le> c \<and> c \<le> ge_value e1)"
      by (rule ranges_meet [OF le "1.prems"(1)])
    show ?thesis
    proof (cases "ge_value e \<le> high \<and> low \<le> ge_value e1")
      case True
      then have "b = positive" using "1.prems"(2) e range unf by simp
      moreover have "\<exists>c. low \<le> c \<and> c \<le> high \<and> class_has es c" using True meet es range cl by (auto simp: Let_def)
      ultimately show ?thesis by simp
    next
      case False
      then obtain e' where e': "vec_at es 2 = Some e'"
        and rest: "(if ge_type e' = LLAMA_GRETYPE_CHAR_ALT then partial_loop (drop 2 es) low high positive else Some (\<not> positive)) = Some b"
        using "1.prems"(2) e range unf by (auto split: Option.bind_splits)
      show ?thesis
      proof (rule go_on [OF e' rest])
        assume a: "ge_type e' = LLAMA_GRETYPE_CHAR_ALT" "partial_loop (drop 2 es) low high positive = Some b"
        show "b \<longleftrightarrow> ((\<exists>c. low \<le> c \<and> c \<le> high \<and> class_has (drop 2 es) c) \<longleftrightarrow> positive)"
          by (rule "1.IH"(1) [OF e range False e' a(1) "1.prems"(1) a(2) ord]) (use alt [OF e' a(1)] in blast)
      next
        fix c assume "low \<le> c" "c \<le> high"
        then have "\<not> (ge_value e \<le> c \<and> c \<le> ge_value e1)" using False meet by blast
        then show "class_has es c \<longleftrightarrow> 2 < length es \<and> ge_type (es ! 2) = LLAMA_GRETYPE_CHAR_ALT \<and> class_has (drop 2 es) c"
          using es range cl [of c] by (simp add: Let_def) blast
      qed
    qed
  next
    case any
    then have "b" using "1.prems"(2) e unf by simp
    moreover have "class_has es low" using any es cl by (simp add: Let_def)
    ultimately show ?thesis using any es(1) "1.prems"(4) "1.prems"(1) by auto
  next
    case char
    show ?thesis
    proof (cases "low \<le> ge_value e \<and> ge_value e \<le> high")
      case True
      then have "b = positive" using "1.prems"(2) e char unf by simp
      moreover have "class_has es (ge_value e)" using char es cl by (simp add: Let_def)
      ultimately show ?thesis using True by auto
    next
      case False
      have "partial_loop es low high positive = (if low \<le> ge_value e \<and> ge_value e \<le> high then Some positive
          else if ge_type e1 = LLAMA_GRETYPE_CHAR_ALT then partial_loop (drop 1 es) low high positive else Some (\<not> positive))"
        using e char unf by simp
      then have rest: "(if ge_type e1 = LLAMA_GRETYPE_CHAR_ALT then partial_loop (drop 1 es) low high positive else Some (\<not> positive)) = Some b"
        using "1.prems"(2) False by (simp only: if_False)
      show ?thesis
      proof (rule go_on [OF e(2) rest])
        assume a: "ge_type e1 = LLAMA_GRETYPE_CHAR_ALT" "partial_loop (drop 1 es) low high positive = Some b"
        show "b \<longleftrightarrow> ((\<exists>c. low \<le> c \<and> c \<le> high \<and> class_has (drop 1 es) c) \<longleftrightarrow> positive)"
          by (rule "1.IH"(2) [OF e char False a(1) "1.prems"(1) a(2) ord]) (use alt [OF e(2) a(1)] in blast)
      next
        fix c assume "low \<le> c" "c \<le> high"
        then have "c \<noteq> ge_value e" using False by blast
        then show "class_has es c \<longleftrightarrow> 1 < length es \<and> ge_type (es ! 1) = LLAMA_GRETYPE_CHAR_ALT \<and> class_has (drop 1 es) c"
          using es char cl [of c] by (auto simp: Let_def)
      qed
    qed
  qed
qed

text \<open>The range of completions is not empty.\<close>

lemma partial_range_le:
  assumes "partial_range v n = (low, high)" "0 < n" "n \<le> 3"
  shows "low \<le> high"
proof -
  let ?low = "push_bit (n * 6) v"
  have high: "high = ?low OR (push_bit (n * 6) 1 - 1)" and
    low: "low = (if ?low = 0 then (if n = 2 then push_bit 11 1 else if n = 3 then push_bit 16 1 else ?low) else ?low)"
    using assms(1) by (auto simp: partial_range_def Let_def)
  show ?thesis
  proof (cases "?low = 0")
    case True
    consider "n = 1" | "n = 2" | "n = 3" using assms(2,3) by linarith
    then show ?thesis using True by cases (auto simp: low high push_bit_of_1)
  next
    case False
    then show ?thesis by (simp add: low high le_word_or2)
  qed
qed

text \<open>
  C36: On an incomplete sequence the matching of a class answers whether some completion of the
  sequence is in the class; for an inverted class it answers whether all completions match.
\<close>

theorem match_partial_exact:
  assumes "grammar_ok rules" "valid_ptr rules p" "element_at rules p = Some e" "is_char_start (ge_type e)"
    and "successively range_ordered (from_ptr rules p)"
    and "partial_range v (nat n) = (low, high)" "1 \<le> n" "n \<le> 3" "\<not> (n = 1 \<and> v < 2)"
  shows "match_partial_char rules p \<lparr>pu_value = v, pu_n_remain = n\<rparr> =
    Some (if ge_type e = LLAMA_GRETYPE_CHAR_NOT
          then \<forall>c. low \<le> c \<and> c \<le> high \<longrightarrow> (\<exists>q. match_char rules p c = Some (True, q))
          else \<exists>c. low \<le> c \<and> c \<le> high \<and> (\<exists>q. match_char rules p c = Some (True, q)))"
proof -
  have char: "char_ptr rules p" using assms(3,4) by (simp add: char_ptr_def)
  have es0: "from_ptr rules p ! 0 = e" using assms(3) by (auto simp: element_at_def vec_at_def split: if_splits)
  have hit: "(\<exists>q. match_char rules p c = Some (True, q)) \<longleftrightarrow> class_has (from_ptr rules p) c = is_positive_char (ge_type e)" for c
  proof -
    obtain b q where "match_char rules p c = Some (b, q)" using match_char_ok [OF assms(1,2) char] by blast
    then show ?thesis using assms(3,4) match_loop_class by (fastforce simp: match_char_def bind_check split: Option.bind_splits)
  qed
  obtain b where b: "partial_loop (from_ptr rules p) low high (is_positive_char (ge_type e)) = Some b"
    using match_partial_ok [OF assms(1,2) char, of "\<lparr>pu_value = v, pu_n_remain = n\<rparr>"] assms(3-9)
    by (auto simp: match_partial_char_def bind_check)
  have "low \<le> high" using partial_range_le [OF assms(6)] assms(7,8) by simp
  from partial_loop_class [OF this b assms(5)] es0
  have "b \<longleftrightarrow> ((\<exists>c. low \<le> c \<and> c \<le> high \<and> class_has (from_ptr rules p) c) \<longleftrightarrow> is_positive_char (ge_type e))"
    by (auto simp: is_positive_char_def)
  moreover have "match_partial_char rules p \<lparr>pu_value = v, pu_n_remain = n\<rparr> = Some b"
    using assms(3-9) b by (auto simp: match_partial_char_def bind_check)
  moreover have "is_positive_char (ge_type e) \<longleftrightarrow> ge_type e \<noteq> LLAMA_GRETYPE_CHAR_NOT"
    using assms(4) by (auto simp: is_positive_char_def is_char_start_def)
  ultimately show ?thesis unfolding hit by (cases "ge_type e = LLAMA_GRETYPE_CHAR_NOT") (simp_all only: simp_thms if_True if_False; blast)+
qed

end
