(* ===== verification/Grammar_Props.thy ===== *)
theory Grammar_Props
  imports Grammar_Sampler Grammar_Partial
begin

text \<open>
  The properties of grammar-constrained sampling: the language that is accepted, that every call
  returns, that masking and acceptance agree, what the search for left recursion finds and misses,
  and what matching an incomplete sequence decides.
\<close>

section \<open>Masking\<close>

definition candidate_of :: "vocab \<Rightarrow> llama_grammar \<Rightarrow> int \<Rightarrow> nat \<Rightarrow> llama_grammar_candidate" where
  "candidate_of vocab g token i = (case decode_utf8 (token_to_piece vocab token) (g_partial_utf8 g) of
     (cps, partial) \<Rightarrow> \<lparr>cd_index = i, cd_points = cps, cd_off = 0, cd_partial = partial\<rparr>)"

definition no_piece :: "vocab \<Rightarrow> int \<Rightarrow> bool" where
  "no_piece vocab token \<longleftrightarrow> token_to_piece vocab token = [] \<or> hd (token_to_piece vocab token) = 0"

text \<open>The tokens masked without asking the grammar.\<close>

definition masked_early :: "vocab \<Rightarrow> llama_grammar \<Rightarrow> int \<Rightarrow> bool" where
  "masked_early vocab g token \<longleftrightarrow> (if is_eog vocab token then [] \<notin> set (g_stacks g) else no_piece vocab token)"

lemma length_mask [simp]: "length (mask x i data) = length data"
  by (simp add: mask_def)

lemma nth_mask: "j < length data \<Longrightarrow> mask x i data ! j = (if i = j then (data ! j)\<lparr>td_logit := x\<rparr> else data ! j)"
  by (simp add: mask_def nth_list_update')

lemma td_id_mask: "j < length data \<Longrightarrow> td_id (mask x i data ! j) = td_id (data ! j)"
  by (simp add: nth_mask)

lemma prepare_all:
  assumes "fold (prepare_candidate neg_inf vocab g ([] \<in> set (g_stacks g))) [0..<n] (cur, []) = (data, cands)" "n \<le> length cur"
  shows "length data = length cur \<and>
    (\<forall>i<length cur. data ! i = (if i < n \<and> masked_early vocab g (td_id (cur ! i)) then (cur ! i)\<lparr>td_logit := neg_inf\<rparr> else cur ! i)) \<and>
    set cands = {candidate_of vocab g (td_id (cur ! i)) i | i. i < n \<and> \<not> is_eog vocab (td_id (cur ! i)) \<and> \<not> no_piece vocab (td_id (cur ! i))}"
  using assms
proof (induction n arbitrary: data cands)
  case (Suc n)
  obtain data1 cands1 where f: "fold (prepare_candidate neg_inf vocab g ([] \<in> set (g_stacks g))) [0..<n] (cur, []) = (data1, cands1)"
    by fastforce
  note IH = Suc.IH [OF f] 
  have n: "n < length cur" "data1 ! n = cur ! n" using Suc.prems(2) IH by auto
  define tid where "tid = td_id (cur ! n)"
  have step: "prepare_candidate neg_inf vocab g ([] \<in> set (g_stacks g)) n (data1, cands1) = (data, cands)"
    using Suc.prems(1) f by simp
  have new: "{candidate_of vocab g (td_id (cur ! i)) i | i. i < Suc n \<and> \<not> is_eog vocab (td_id (cur ! i)) \<and> \<not> no_piece vocab (td_id (cur ! i))} =
      set cands1 \<union> (if is_eog vocab tid \<or> no_piece vocab tid then {} else {candidate_of vocab g tid n})"
    using IH Suc.prems(2) by (auto simp: tid_def less_Suc_eq)
  have "set cands = set cands1 \<union> (if is_eog vocab tid \<or> no_piece vocab tid then {} else {candidate_of vocab g tid n})"
    and "data = (if masked_early vocab g tid then mask neg_inf n data1 else data1)"
    using step n(2) by (auto simp: prepare_candidate_def Let_def tid_def [symmetric] masked_early_def no_piece_def candidate_of_def
      split: if_splits prod.splits)
  then show ?case unfolding new using IH Suc.prems(2) n by (auto simp: nth_mask less_Suc_eq tid_def)
qed auto

lemma mask_all:
  "length (fold (\<lambda>tok. mask x (cd_index tok)) toks data) = length data"
  "i < length data \<Longrightarrow> fold (\<lambda>tok. mask x (cd_index tok)) toks data ! i =
    (if i \<in> cd_index ` set toks then (data ! i)\<lparr>td_logit := x\<rparr> else data ! i)"
  by (induction toks arbitrary: data) (auto simp: nth_mask)

text \<open>A state that is ready masks a token exactly when no stack can take its code points.\<close>

lemma apply_masks:
  assumes ready: "grammar_ready g" and "\<not> g_awaiting_trigger g"
  shows "\<exists>cur'. llama_grammar_apply_impl neg_inf vocab g cur = Some cur' \<and> length cur' = length cur \<and>
    (\<forall>i<length cur. cur' ! i = (if masked_early vocab g (td_id (cur ! i)) \<or>
       \<not> is_eog vocab (td_id (cur ! i)) \<and> \<not> (\<exists>st\<in>set (g_stacks g). tok_viable (g_rules g) (candidate_of vocab g (td_id (cur ! i)) i) st)
       then (cur ! i)\<lparr>td_logit := neg_inf\<rparr> else cur ! i))"
proof -
  obtain data cands where f: "fold (prepare_candidate neg_inf vocab g ([] \<in> set (g_stacks g))) [0..<length cur] (cur, []) = (data, cands)"
    by fastforce
  note prep = prepare_all [OF f order_refl]
  have terminated: "0 \<in> set (drop (cd_off t) (cd_points t))" if t: "t \<in> set cands" for t
  proof -
    obtain token i where "t = candidate_of vocab g token i" using t prep by blast
    then show ?thesis using decode_utf8_terminated [of "token_to_piece vocab token" "g_partial_utf8 g"]
      by (auto simp: candidate_of_def split: prod.splits)
  qed
  have "\<exists>r. reject_candidates (g_rules g) (g_stacks g) cands = Some r"
    using ready terminated by (intro reject_candidates_returns) (auto simp: grammar_ready_def)
  then obtain rejects where r: "reject_candidates (g_rules g) (g_stacks g) cands = Some rejects" by blast
  note spec = reject_candidates_spec [OF r]
  let ?cur' = "fold (\<lambda>tok. mask neg_inf (cd_index tok)) rejects data"
  have "llama_grammar_apply_impl neg_inf vocab g cur = Some ?cur'"
    using assms(2) f r by (simp add: llama_grammar_apply_impl_def)
  moreover have "i \<in> cd_index ` set rejects \<longleftrightarrow> \<not> is_eog vocab (td_id (cur ! i)) \<and> \<not> no_piece vocab (td_id (cur ! i)) \<and>
      \<not> (\<exists>st\<in>set (g_stacks g). tok_viable (g_rules g) (candidate_of vocab g (td_id (cur ! i)) i) st)" if "i < length cur" for i
  proof -
    have "cd_index (candidate_of vocab g token j) = j" for token j by (simp add: candidate_of_def split: prod.splits)
    then show ?thesis using spec prep that by (auto simp: image_iff)
  qed
  ultimately show ?thesis using prep by (intro exI [of _ ?cur']) (auto simp: mask_all masked_early_def)
qed





section \<open>The language\<close>

text \<open>
  C31: The grammar a sampler holds accepts exactly its language. When the bytes of the accepted
  pieces are the UTF-8 of a text, however they are cut, an exception means that no sentence of the
  root rule begins with the text; without one the end of generation is allowed exactly when the
  text is a sentence, what can still follow is what continues it to a sentence, and no byte sequence
  is left incomplete.
\<close>

theorem grammar_accepts_language:
  assumes "llama_grammar_init_impl rules rt = Some (Some g)"
    and "is_text cs" "concat pieces = utf8_encode cs" "accept_pieces g pieces = Some (threw, g')"
  shows "if threw then \<forall>w. \<not> rule_derives (g_rules g) rt (cs @ w)
    else ([] \<in> set (g_stacks g') \<longleftrightarrow> rule_derives (g_rules g) rt cs) \<and>
      (\<forall>w. stacks_derive (g_rules g) (g_stacks g') w \<longleftrightarrow> rule_derives (g_rules g) rt (cs @ w)) \<and>
      pu_n_remain (g_partial_utf8 g') = 0"
proof -
  have "init_stacks (g_rules g) rt = Some (g_stacks g)" "g_partial_utf8 g = no_partial"
    using assms(1) by (auto simp: llama_grammar_init_impl_def grammar_init_def split: Option.bind_splits if_splits)
  from run_language [OF this assms(2-4)] show ?thesis .
qed

text \<open>
  C33: On well-formed rules without left recursion no call fails to return: the initialisation gives
  a grammar, every piece is accepted or throws, and as long as none has thrown the masking of any
  candidates returns.
\<close>

theorem grammar_calls_return:
  assumes "copy_rules rules = Some vec" "grammar_ok vec" "no_left_recursion vec" "rt < length vec"
  shows "\<exists>g. llama_grammar_init_impl rules rt = Some (Some g) \<and> g_rules g = vec \<and>
    (\<forall>pieces. \<exists>threw g'. accept_pieces g pieces = Some (threw, g') \<and>
      (\<not> threw \<longrightarrow> grammar_ready g' \<and> (\<forall>neg_inf vocab cur. \<exists>cur'. llama_grammar_apply_impl neg_inf vocab g' cur = Some cur')))"
proof -
  obtain g where g: "llama_grammar_init_impl rules rt = Some (Some g)" "grammar_ready g" "g_rules g = vec"
    unfolding llama_grammar_init_impl_def using grammar_init_ready [OF assms] by blast
  have masking: "\<exists>cur'. llama_grammar_apply_impl neg_inf vocab g' cur = Some cur'" if "grammar_ready g'" for neg_inf vocab cur g'
    using apply_masks [OF that, of neg_inf vocab cur] by (cases "g_awaiting_trigger g'") (auto simp: llama_grammar_apply_impl_def)
  show ?thesis
  proof (rule exI [of _ g], intro conjI allI)
    fix pieces
    obtain threw g' where "accept_pieces g pieces = Some (threw, g')" "\<not> threw \<longrightarrow> grammar_ready g'" using pieces_return [OF g(2)] by blast
    then show "\<exists>threw g'. accept_pieces g pieces = Some (threw, g') \<and>
      (\<not> threw \<longrightarrow> grammar_ready g' \<and> (\<forall>neg_inf vocab cur. \<exists>cur'. llama_grammar_apply_impl neg_inf vocab g' cur = Some cur'))"
      using masking by (intro exI [of _ threw] exI [of _ g'] conjI impI allI) simp_all
  qed (rule g)+
qed


section \<open>Left recursion\<close>

text \<open>
  C34: The search for left recursion returns on all well-formed rules and never rejects a grammar
  whose left corners are well-founded; it is exact when every rule that derives the empty string
  has an alternate written empty.
\<close>

theorem left_recursion_search:
  assumes "grammar_ok rules"
  shows "\<exists>found. find_left_recursion rules = Some found \<and> (found \<longrightarrow> \<not> no_left_recursion rules) \<and>
    ((\<forall>r. rule_derives rules r [] \<longrightarrow> written_empty rules r) \<longrightarrow> \<not> found \<longrightarrow> no_left_recursion rules)"
  using find_left_recursion_exact [OF assms] search_against_corners [OF assms] by auto

text \<open>Rules of which one derives the empty string through another one only.\<close>

definition hidden_rules :: llama_grammar_rules where
  "hidden_rules =
     [[\<lparr>ge_type = LLAMA_GRETYPE_RULE_REF, ge_value = 1\<rparr>, \<lparr>ge_type = LLAMA_GRETYPE_RULE_REF, ge_value = 0\<rparr>, \<lparr>ge_type = LLAMA_GRETYPE_END, ge_value = 0\<rparr>],
      [\<lparr>ge_type = LLAMA_GRETYPE_RULE_REF, ge_value = 2\<rparr>, \<lparr>ge_type = LLAMA_GRETYPE_END, ge_value = 0\<rparr>],
      [\<lparr>ge_type = LLAMA_GRETYPE_ALT, ge_value = 0\<rparr>, \<lparr>ge_type = LLAMA_GRETYPE_CHAR, ge_value = 120\<rparr>, \<lparr>ge_type = LLAMA_GRETYPE_END, ge_value = 0\<rparr>]]"

lemma hidden_elements:
  "alternates hidden_rules 0 = Some [0]" "alternates hidden_rules (Suc 0) = Some [0]" "alternates hidden_rules 2 = Some [0, Suc 0]"
  "element_at hidden_rules (0, 0) = Some \<lparr>ge_type = LLAMA_GRETYPE_RULE_REF, ge_value = 1\<rparr>"
  "element_at hidden_rules (0, Suc 0) = Some \<lparr>ge_type = LLAMA_GRETYPE_RULE_REF, ge_value = 0\<rparr>"
  "element_at hidden_rules (0, Suc (Suc 0)) = Some \<lparr>ge_type = LLAMA_GRETYPE_END, ge_value = 0\<rparr>"
  "element_at hidden_rules (Suc 0, 0) = Some \<lparr>ge_type = LLAMA_GRETYPE_RULE_REF, ge_value = 2\<rparr>"
  "element_at hidden_rules (Suc 0, Suc 0) = Some \<lparr>ge_type = LLAMA_GRETYPE_END, ge_value = 0\<rparr>"
  "element_at hidden_rules (2, 0) = Some \<lparr>ge_type = LLAMA_GRETYPE_ALT, ge_value = 0\<rparr>"
  by code_simp+

lemma hidden_diverges:
  assumes "advance_stack rules st stacks = Some stacks'"
  shows "rules = hidden_rules \<Longrightarrow> \<exists>rest. st = (0, 0) # rest \<or> st = (1, 0) # (0, 1) # rest \<or> st = (0, 1) # rest \<Longrightarrow> False"
  using assms
proof (induction rule: advance_stack_induct)
  case (step f rules st stacks stacks')
  then show False
    by (auto simp: hidden_elements ptr_add_def push_rest_def is_end_of_sequence_def is_end_type_def split: Option.bind_splits) blast+
qed

text \<open>
  C35: The search misses the left recursion of well-formed rules in which a rule derives the empty
  string through another rule only; advancing their stacks, hence the initialisation, never returns.
\<close>

theorem left_recursion_missed:
  "grammar_ok hidden_rules \<and> find_left_recursion hidden_rules = Some False \<and> llama_grammar_init_impl hidden_rules 0 = None"
proof (intro conjI)
  show ok: "grammar_ok hidden_rules" by code_simp
  show search: "find_left_recursion hidden_rules = Some False" by code_simp
  have "copy_rules hidden_rules = Some hidden_rules" by code_simp
  moreover have "push_rest hidden_rules (0, 0) [] = Some [(0, 0)]" by code_simp
  moreover have "advance_stack hidden_rules [(0, 0)] [] = None"
    using hidden_diverges [of hidden_rules "[(0, 0)]" "[]"] by (cases "advance_stack hidden_rules [(0, 0)] []") auto
  ultimately show "llama_grammar_init_impl hidden_rules 0 = None"
    using search by (simp add: llama_grammar_init_impl_def grammar_init_def init_stacks_def hidden_elements)
qed


section \<open>Witnesses\<close>

text \<open>The grammar \<open>root ::= "a" list; list ::= [b-d] list | "\<close>e with acute\<open>"\<close> as rules.\<close>

definition sample_rules :: llama_grammar_rules where
  "sample_rules =
     [[\<lparr>ge_type = LLAMA_GRETYPE_CHAR, ge_value = 97\<rparr>, \<lparr>ge_type = LLAMA_GRETYPE_RULE_REF, ge_value = 1\<rparr>, \<lparr>ge_type = LLAMA_GRETYPE_END, ge_value = 0\<rparr>],
      [\<lparr>ge_type = LLAMA_GRETYPE_CHAR, ge_value = 98\<rparr>, \<lparr>ge_type = LLAMA_GRETYPE_CHAR_RNG_UPPER, ge_value = 100\<rparr>,
       \<lparr>ge_type = LLAMA_GRETYPE_RULE_REF, ge_value = 1\<rparr>, \<lparr>ge_type = LLAMA_GRETYPE_ALT, ge_value = 0\<rparr>,
       \<lparr>ge_type = LLAMA_GRETYPE_CHAR, ge_value = 0xE9\<rparr>, \<lparr>ge_type = LLAMA_GRETYPE_END, ge_value = 0\<rparr>]]"

definition sample_grammar :: llama_grammar where
  "sample_grammar = \<lparr>g_rules = sample_rules, g_stacks = [[(0, 0)]], g_partial_utf8 = no_partial, g_lazy = False,
     g_awaiting_trigger = False, g_trigger_buffer = [], g_trigger_tokens = [], g_trigger_patterns = []\<rparr>"

definition sample_after :: llama_grammar where
  "sample_after = sample_grammar\<lparr>g_stacks := [[]], g_partial_utf8 := \<lparr>pu_value = 0xE9, pu_n_remain = 0\<rparr>\<rparr>"

lemma sample_evaluations:
  "copy_rules sample_rules = Some sample_rules" "find_left_recursion sample_rules = Some False"
  "init_stacks sample_rules 0 = Some [[(0, 0)]]"
  "decode_utf8 [0x61, 0x62] no_partial = ([0x61, 0x62, 0], \<lparr>pu_value = 0x62, pu_n_remain = 0\<rparr>)"
  "decode_utf8 [0xC3] \<lparr>pu_value = 0x62, pu_n_remain = 0\<rparr> = ([0], \<lparr>pu_value = 3, pu_n_remain = 1\<rparr>)"
  "decode_utf8 [0xA9] \<lparr>pu_value = 3, pu_n_remain = 1\<rparr> = ([0xE9, 0], \<lparr>pu_value = 0xE9, pu_n_remain = 0\<rparr>)"
  "fold_opt (grammar_accept sample_rules) [0x61, 0x62] [[(0, 0)]] = Some [[(1, 0)], [(1, 4)]]"
  "fold_opt (grammar_accept sample_rules) [0xE9] [[(1, 0)], [(1, 4)]] = Some [[]]"
  by code_simp+

lemma sample_init: "llama_grammar_init_impl sample_rules 0 = Some (Some sample_grammar)"
  by (simp add: llama_grammar_init_impl_def grammar_init_def sample_evaluations sample_grammar_def)

lemma sample_run: "accept_pieces sample_grammar [[0x61, 0x62], [0xC3], [0xA9]] = Some (False, sample_after)"
  using sample_evaluations by (simp add: llama_grammar_accept_str_def sample_grammar_def sample_after_def)

theorem grammar_accepts_language_witness:
  "accept_pieces sample_grammar [[0x61, 0x62], [0xC3], [0xA9]] = Some (False, sample_after) \<and>
   rule_derives sample_rules 0 [0x61, 0x62, 0xE9] \<and> \<not> rule_derives sample_rules 0 [0x61, 0x62, 0xE9, 0x62]"
proof -
  have is_text: "is_text [0x61, 0x62, 0xE9]" by (simp add: is_text_def)
  have bytes: "concat [[0x61, 0x62], [0xC3], [0xA9]] = utf8_encode [0x61, 0x62, 0xE9]" by (simp add: utf8_encode_def utf8_bytes_def)
  have fields: "g_rules sample_grammar = sample_rules" "g_stacks sample_after = [[]]" by (simp_all add: sample_grammar_def sample_after_def)
  have "\<not> stacks_derive sample_rules [[]] [0x62]" by (simp add: stacks_derive_def)
  with grammar_accepts_language [OF sample_init is_text bytes sample_run] show ?thesis
    using sample_run by (simp add: fields)
qed

lemma sample_ok: "grammar_ok sample_rules"
  by code_simp

lemma sample_elements:
  "alternates sample_rules 0 = Some [0]" "alternates sample_rules (Suc 0) = Some [0, 4]" "length sample_rules = 2"
  "element_at sample_rules (0, 0) = Some \<lparr>ge_type = LLAMA_GRETYPE_CHAR, ge_value = 97\<rparr>"
  "element_at sample_rules (Suc 0, 0) = Some \<lparr>ge_type = LLAMA_GRETYPE_CHAR, ge_value = 98\<rparr>"
  "element_at sample_rules (Suc 0, 4) = Some \<lparr>ge_type = LLAMA_GRETYPE_CHAR, ge_value = 0xE9\<rparr>"
  by code_simp+

lemma sample_no_left_recursion: "no_left_recursion sample_rules"
proof -
  have corner: "p \<in> {(0, 0), (Suc 0, 0), (Suc 0, 4)}" if "corner_ptr sample_rules r p" for r p
    using that
  proof (induction rule: corner_ptr.induct)
    case (1 r starts i)
    then have "r < 2" using sample_elements(3) by (auto simp: alternates_def vec_at_def split: if_splits)
    then have "r = 0 \<or> r = Suc 0" by linarith
    then show ?case using 1 by (auto simp: sample_elements)
  next
    case (2 r p e)
    then show ?case by (auto simp: sample_elements)
  qed
  have "\<not> left_corner sample_rules r s" for r s
    using corner by (fastforce simp: left_corner_def sample_elements)
  then show ?thesis by (simp add: no_left_recursion_def)
qed

theorem grammar_calls_return_witness:
  "\<exists>g. llama_grammar_init_impl sample_rules 0 = Some (Some g) \<and> (\<exists>threw g'. accept_pieces g [[0x61, 0x7A]] = Some (threw, g'))"
proof -
  have "0 < length sample_rules" by (simp add: sample_elements)
  then show ?thesis using grammar_calls_return [OF sample_evaluations(1) sample_ok sample_no_left_recursion] by blast
qed





theorem left_recursion_search_witness:
  "\<exists>found. find_left_recursion sample_rules = Some found \<and> (found \<longrightarrow> \<not> no_left_recursion sample_rules)"
  using left_recursion_search [OF sample_ok] by blast

text \<open>
  The hypothesis on zero code points is needed: the overlong encoding \<open>C0 80\<close> decodes to a zero, at
  which the rejection takes the token for finished, while the acceptance goes on with it and throws.
\<close>

lemma overlong_zero_passes:
  "decode_utf8 [0xC0, 0x80] no_partial = ([0, 0], no_partial) \<and>
   reject_candidates sample_rules [[(0, 0)]] [\<lparr>cd_index = 0, cd_points = [0, 0], cd_off = 0, cd_partial = no_partial\<rparr>] = Some [] \<and>
   map_option fst (llama_grammar_accept_str sample_grammar [0xC0, 0x80]) = Some True"
proof (intro conjI)
  show d: "decode_utf8 [0xC0, 0x80] no_partial = ([0, 0], no_partial)" by code_simp
  show "reject_candidates sample_rules [[(0, 0)]] [\<lparr>cd_index = 0, cd_points = [0, 0], cd_off = 0, cd_partial = no_partial\<rparr>] = Some []"
    by code_simp
  have "fold_opt (grammar_accept sample_rules) [0] [[(0, 0)]] = Some []" by code_simp
  then show "map_option fst (llama_grammar_accept_str sample_grammar [0xC0, 0x80]) = Some True"
    using d by (simp add: llama_grammar_accept_str_def sample_grammar_def)
qed

text \<open>The byte \<open>C3\<close> may begin the letter e with acute, and another letter outside of an inverted class.\<close>

definition accent_rules :: llama_grammar_rules where
  "accent_rules =
     [[\<lparr>ge_type = LLAMA_GRETYPE_CHAR, ge_value = 0xE9\<rparr>, \<lparr>ge_type = LLAMA_GRETYPE_END, ge_value = 0\<rparr>],
      [\<lparr>ge_type = LLAMA_GRETYPE_CHAR_NOT, ge_value = 0xE9\<rparr>, \<lparr>ge_type = LLAMA_GRETYPE_END, ge_value = 0\<rparr>]]"

theorem match_partial_exact_witness:
  "match_partial_char accent_rules (0, 0) \<lparr>pu_value = 3, pu_n_remain = 1\<rparr> =
     Some (\<exists>c. 0xC0 \<le> c \<and> c \<le> 0xFF \<and> (\<exists>q. match_char accent_rules (0, 0) c = Some (True, q))) \<and>
   match_partial_char accent_rules (1, 0) \<lparr>pu_value = 3, pu_n_remain = 1\<rparr> = Some False \<and>
   match_char accent_rules (1, 0) 0xEA = Some (True, (1, 1))"
proof (intro conjI)
  have ok: "grammar_ok accent_rules" "valid_ptr accent_rules (0, 0)"
    and e: "element_at accent_rules (0, 0) = Some \<lparr>ge_type = LLAMA_GRETYPE_CHAR, ge_value = 0xE9\<rparr>"
    and o: "successively range_ordered (from_ptr accent_rules (0, 0))" and r: "partial_range 3 (nat 1) = (0xC0, 0xFF)" by code_simp+
  show "match_partial_char accent_rules (0, 0) \<lparr>pu_value = 3, pu_n_remain = 1\<rparr> =
     Some (\<exists>c. 0xC0 \<le> c \<and> c \<le> 0xFF \<and> (\<exists>q. match_char accent_rules (0, 0) c = Some (True, q)))"
    using match_partial_exact [OF ok e _ o r] by (simp add: is_char_start_def)
  show "match_partial_char accent_rules (1, 0) \<lparr>pu_value = 3, pu_n_remain = 1\<rparr> = Some False" by code_simp
  show "match_char accent_rules (1, 0) 0xEA = Some (True, (1, 1))" by code_simp
qed

end
