(* ===== verification/Grammar_Text.thy ===== *)
theory Grammar_Text
  imports Grammar_Parser_Ok Grammar_Props
begin

text \<open>
  From the text of a grammar to what it accepts: the parser, the initialisation and the acceptance
  together, the texts that the parser lets through but should not, and concrete texts.
\<close>

section \<open>From text to language\<close>

lemma init_str_ready:
  assumes parsed: "parse_grammar src = Inr P" and ids: "length (ps_symbol_ids P) < 2 ^ 32"
    and lr: "no_left_recursion (ps_rules P)"
    and names: "map_of (ps_symbol_ids P) (bytes ''root'') \<noteq> None" "map_of (ps_symbol_ids P) start = Some i"
    and i: "unat i < length (ps_rules P)"
  obtains g where "llama_grammar_init_str src start lazy patterns tokens = Some (Inr (Some g))" "grammar_ready g"
    "g_rules g = ps_rules P" "g_partial_utf8 g = no_partial" "g_awaiting_trigger g = lazy"
    "init_stacks (ps_rules P) (unat i) = Some (g_stacks g)"
proof -
  have ok: "grammar_ok (ps_rules P)" "copy_rules (ps_rules P) = Some (ps_rules P)"
    using parsed_rule_ok [OF parsed ids] by (simp_all add: grammar_ok_def list_all_iff copy_rules_id)
  obtain g where g: "grammar_init (ps_rules P) (unat i) lazy tokens patterns = Some (Some g)" "grammar_ready g" "g_rules g = ps_rules P"
    "g_partial_utf8 g = no_partial" "g_awaiting_trigger g = lazy"
    using grammar_init_ready [OF ok(2,1) lr i, of lazy tokens patterns] by blast
  have "init_stacks (ps_rules P) (unat i) = Some (g_stacks g)"
    using g(1) ok(2) by (auto simp: grammar_init_def split: Option.bind_splits if_splits)
  moreover have "llama_grammar_init_str src start lazy patterns tokens = Some (Inr (Some g))"
    using i by (auto simp: llama_grammar_init_str_def parsed names g(1))
  ultimately show ?thesis using g that by blast
qed

text \<open>
  C37: A grammar text without left recursion gives a grammar that accepts exactly the language of the
  parsed rules: the initialisation returns it, the acceptance of the pieces of any UTF-8 text
  returns, throws only where no sentence begins with the text, and allows the end of generation
  exactly at sentences.
\<close>

theorem grammar_text_accepts_language:
  assumes "parse_grammar src = Inr P" "length (ps_symbol_ids P) < 2 ^ 32" "no_left_recursion (ps_rules P)"
    and "map_of (ps_symbol_ids P) (bytes ''root'') \<noteq> None" "map_of (ps_symbol_ids P) start = Some i" "unat i < length (ps_rules P)"
  shows "\<exists>g. llama_grammar_init_str src start lazy patterns tokens = Some (Inr (Some g)) \<and> g_awaiting_trigger g = lazy \<and>
    (\<forall>cs pieces. is_text cs \<longrightarrow> concat pieces = utf8_encode cs \<longrightarrow>
      (\<exists>threw g'. accept_pieces g pieces = Some (threw, g') \<and>
        (if threw then \<forall>w. \<not> rule_derives (ps_rules P) (unat i) (cs @ w)
         else ([] \<in> set (g_stacks g') \<longleftrightarrow> rule_derives (ps_rules P) (unat i) cs) \<and>
           (\<forall>w. stacks_derive (ps_rules P) (g_stacks g') w \<longleftrightarrow> rule_derives (ps_rules P) (unat i) (cs @ w)))))"
proof -
  obtain g where init: "llama_grammar_init_str src start lazy patterns tokens = Some (Inr (Some g))" "g_awaiting_trigger g = lazy"
    and ready: "grammar_ready g" and g: "g_rules g = ps_rules P" "g_partial_utf8 g = no_partial"
    "init_stacks (g_rules g) (unat i) = Some (g_stacks g)"
    using init_str_ready [OF assms] by metis
  have "\<exists>threw g'. accept_pieces g pieces = Some (threw, g') \<and>
        (if threw then \<forall>w. \<not> rule_derives (ps_rules P) (unat i) (cs @ w)
         else ([] \<in> set (g_stacks g') \<longleftrightarrow> rule_derives (ps_rules P) (unat i) cs) \<and>
           (\<forall>w. stacks_derive (ps_rules P) (g_stacks g') w \<longleftrightarrow> rule_derives (ps_rules P) (unat i) (cs @ w)))"
    if "is_text cs" "concat pieces = utf8_encode cs" for cs pieces
  proof -
    obtain threw g' where run: "accept_pieces g pieces = Some (threw, g')" using pieces_return [OF ready] by blast
    from run_language [OF g(3,2) that run] show ?thesis using run by (auto simp: g(1) split: if_splits)
  qed
  then show ?thesis using init by blast
qed

section \<open>A text\<close>

definition sample_text :: "u8 list" where
  "sample_text = bytes ''root ::= [a] x # the start'' @ [10] @ bytes ''x ::= [b-d] x | ['' @ [0xC3, 0xA9] @ bytes '']''"

definition sample_parser :: llama_grammar_parser where
  "sample_parser = \<lparr>ps_symbol_ids = [(bytes ''root'', 0), (bytes ''x'', 1)], ps_rules = sample_rules\<rparr>"

lemma sample_text_parses: "parse_grammar sample_text = Inr sample_parser"
  by code_simp

lemma sample_symbols:
  "map_of (ps_symbol_ids sample_parser) (bytes ''root'') = Some 0" "length (ps_symbol_ids sample_parser) = 2" "ps_rules sample_parser = sample_rules"
  by (simp_all add: sample_parser_def)

theorem grammar_parse_well_formed_witness:
  "grammar_ok (ps_rules sample_parser) \<and> copy_rules (ps_rules sample_parser) = Some (ps_rules sample_parser)"
  by (rule grammar_parse_well_formed [OF sample_text_parses]) (simp add: sample_symbols)

theorem grammar_text_accepts_language_witness:
  "\<exists>g. llama_grammar_init_str sample_text (bytes ''root'') False [] [] = Some (Inr (Some g)) \<and>
    (\<exists>threw g'. accept_pieces g [[0x61, 0x62], [0xC3], [0xA9]] = Some (threw, g'))"
proof -
  have points: "is_text [0x61, 0x62, 0xE9]" by (simp add: is_text_def)
  have cut: "concat [[0x61, 0x62], [0xC3], [0xA9]] = utf8_encode [0x61, 0x62, 0xE9]" by (simp add: utf8_encode_def utf8_bytes_def)
  have small: "length (ps_symbol_ids sample_parser) < 2 ^ 32" and lr: "no_left_recursion (ps_rules sample_parser)"
    and root: "map_of (ps_symbol_ids sample_parser) (bytes ''root'') \<noteq> None"
    and start: "unat (0 :: u32) < length (ps_rules sample_parser)"
    by (simp_all add: sample_symbols sample_no_left_recursion sample_elements)
  from grammar_text_accepts_language [OF sample_text_parses small lr root sample_symbols(1) start] points cut show ?thesis by blast
qed


section \<open>Texts that should be rejected\<close>

text \<open>
  Two texts that the parser lets through: a repetition of zero times drops the only reference to
  an undefined rule, so that the start index is out of range; and a bound of \<open>4294967295\<close> wraps to
  \<open>-1\<close>, which means no bound.
\<close>

theorem grammar_parse_unchecked:
  "llama_grammar_init_str (bytes ''a ::= root{0}'') (bytes ''root'') False [] [] = None \<and>
   map_sum id ps_rules (parse_grammar (bytes ''root ::= [a]{4294967295}'')) = map_sum id ps_rules (parse_grammar (bytes ''root ::= [a]+''))"
proof
  have parsed: "parse_grammar (bytes ''a ::= root{0}'') =
      Inr \<lparr>ps_symbol_ids = [(bytes ''a'', 0), (bytes ''root'', 1)], ps_rules = [[elem LLAMA_GRETYPE_END 0]]\<rparr>" by code_simp
  have "copy_rules [[elem LLAMA_GRETYPE_END 0]] = Some [[elem LLAMA_GRETYPE_END 0]]"
    "find_left_recursion [[elem LLAMA_GRETYPE_END 0]] = Some False" "init_stacks [[elem LLAMA_GRETYPE_END 0]] 1 = None" by code_simp+
  moreover have "bytes ''a'' \<noteq> bytes ''root''" by code_simp
  ultimately show "llama_grammar_init_str (bytes ''a ::= root{0}'') (bytes ''root'') False [] [] = None"
    by (simp add: llama_grammar_init_str_def parsed grammar_init_def)
  show "map_sum id ps_rules (parse_grammar (bytes ''root ::= [a]{4294967295}'')) = map_sum id ps_rules (parse_grammar (bytes ''root ::= [a]+''))"
    by code_simp
qed

end
