(* ===== verification/Grammar_Repeat.thy ===== *)
theory Grammar_Repeat
  imports Grammar_Parser_Ok Grammar_Lang
begin

text \<open>
  What the repetition operators of a grammar text mean: the rules that \<open>handle_repetitions\<close> adds
  derive as many repetitions of the item as its bounds allow.
\<close>

section \<open>Derivations of element sequences\<close>

inductive seq_derives :: "llama_grammar_rules \<Rightarrow> llama_grammar_rule \<Rightarrow> u32 list \<Rightarrow> bool" for rules where
  seq_end: "is_end_type (ge_type e) \<Longrightarrow> seq_derives rules (e # es) []"
| seq_char: "is_char_start (ge_type e) \<Longrightarrow> match_loop (e # es) c False 0 = Some (is_positive_char (ge_type e), k) \<Longrightarrow>
    seq_derives rules (drop k (e # es)) w \<Longrightarrow> seq_derives rules (e # es) (c # w)"
| seq_ref: "ge_type e = LLAMA_GRETYPE_RULE_REF \<Longrightarrow> alternates rules (unat (ge_value e)) = Some starts \<Longrightarrow> i \<in> set starts \<Longrightarrow>
    seq_derives rules (drop i (rules ! unat (ge_value e))) u \<Longrightarrow> seq_derives rules es v \<Longrightarrow> seq_derives rules (e # es) (u @ v)"

inductive_cases seq_ConsE: "seq_derives rules (e # es) w"

lemma from_ptr_add: "from_ptr rules (ptr_add p k) = drop k (from_ptr rules p)"
  by (simp add: from_ptr_def ptr_add_def add.commute)

lemma element_at_Cons: "element_at rules p = Some e \<longleftrightarrow> (\<exists>es. from_ptr rules p = e # es)"
  by (cases "from_ptr rules p") (auto simp: element_at_def vec_at_def)

lemma alternates_ptr: "alternates rules r = Some starts \<Longrightarrow> from_ptr rules (r, i) = drop i (rules ! r)"
  by (auto simp: alternates_def vec_at_def from_ptr_def split: if_splits)

lemma derives_seq: "derives rules p w \<Longrightarrow> seq_derives rules (from_ptr rules p) w"
proof (induction rule: derives.induct)
  case (at_end p)
  then show ?case by (auto simp: is_end_Some element_at_Cons intro: seq_end)
next
  case (at_char p c q w)
  then obtain e es k where e: "from_ptr rules p = e # es" "is_char_start (ge_type e)"
    and m: "match_loop (e # es) c False 0 = Some (is_positive_char (ge_type e), k)" "q = ptr_add p k"
    by (auto simp: match_char_def element_at_Cons check_def split: Option.bind_splits if_splits)
  then show ?case using seq_char [OF e(2) m(1)] at_char.IH by (simp add: from_ptr_add)
next
  case (at_ref p e starts i u v)
  then show ?case using seq_ref alternates_ptr [OF at_ref(3)] by (auto simp: element_at_Cons from_ptr_add)
qed

lemma seq_derives_ptr: "seq_derives rules es w \<Longrightarrow> es = from_ptr rules p \<Longrightarrow> derives rules p w"
proof (induction arbitrary: p rule: seq_derives.induct)
  case (seq_end e es)
  then have "element_at rules p = Some e" unfolding element_at_Cons by metis
  then show ?case using seq_end(1) by (intro at_end) (simp add: is_end_Some)
next
  case (seq_char e es c k w)
  then have "element_at rules p = Some e" unfolding element_at_Cons by metis
  then have "match_char rules p c = Some (True, ptr_add p k)"
    using seq_char(1,2) seq_char.prems [symmetric] by (simp add: match_char_def check_def)
  moreover have "derives rules (ptr_add p k) w" by (rule seq_char.IH) (simp add: from_ptr_add seq_char.prems [symmetric])
  ultimately show ?case by (rule at_char)
next
  case (seq_ref e starts i u es v)
  then have "element_at rules p = Some e" unfolding element_at_Cons by metis
  moreover have "derives rules (unat (ge_value e), i) u" by (rule seq_ref.IH(1)) (simp add: alternates_ptr [OF seq_ref(2)])
  moreover have "derives rules (ptr_add p 1) v" by (rule seq_ref.IH(2)) (simp add: from_ptr_add seq_ref.prems [symmetric])
  ultimately show ?case using seq_ref(1-3) by (intro at_ref)
qed

lemma rule_derives_seq:
  "rule_derives rules r w \<longleftrightarrow> (\<exists>starts i. alternates rules r = Some starts \<and> i \<in> set starts \<and> seq_derives rules (drop i (rules ! r)) w)"
  unfolding rule_derives_def using derives_seq seq_derives_ptr by (metis alternates_ptr)


section \<open>Items\<close>

text \<open>Complete items one behind the other, without an end; and what may stand behind them.\<close>

definition items_ok :: "llama_grammar_rule \<Rightarrow> bool" where
  "items_ok a \<longleftrightarrow> (\<forall>e\<in>set a. \<not> is_end_type (ge_type e)) \<and> (a \<noteq> [] \<longrightarrow> \<not> is_modifier (ge_type (hd a))) \<and> successively may_follow a"

lemma items_ok_Nil [simp]: "items_ok []"
  by (simp add: items_ok_def)

lemma items_ok_append: "items_ok a \<Longrightarrow> items_ok b \<Longrightarrow> items_ok (a @ b)"
  by (auto simp: items_ok_def successively_append_iff follow_not_modifier hd_append)

lemma items_ok_ref [simp]: "items_ok [elem LLAMA_GRETYPE_RULE_REF v]"
  by (simp add: items_ok_def elem_def is_modifier_def is_end_type_def)

definition tail_ok :: "llama_grammar_rule \<Rightarrow> bool" where
  "tail_ok b \<longleftrightarrow> b \<noteq> [] \<and> \<not> is_modifier (ge_type (hd b))"

text \<open>What a sequence of items derives.\<close>

definition items_derive :: "llama_grammar_rules \<Rightarrow> llama_grammar_rule \<Rightarrow> u32 list \<Rightarrow> bool" where
  "items_derive rules a w \<longleftrightarrow> seq_derives rules (a @ [elem LLAMA_GRETYPE_END 0]) w"

lemma match_loop_tail:
  "a \<noteq> [] \<Longrightarrow> successively may_follow a \<Longrightarrow> ge_type (hd a) \<noteq> LLAMA_GRETYPE_CHAR_RNG_UPPER \<Longrightarrow>
   \<exists>m k. 0 < k \<and> k \<le> length a \<and> (drop k a \<noteq> [] \<longrightarrow> \<not> is_modifier (ge_type (hd (drop k a)))) \<and>
     (\<forall>b. tail_ok b \<longrightarrow> match_loop (a @ b) c f n = Some (m, n + k))"
proof (induction "length a" arbitrary: a f n rule: less_induct)
  case less
  obtain e t where a: "a = e # t" using less.prems(1) by (cases a) auto
  show ?case
  proof (cases t)
    case Nil
    have "match_loop (a @ b) c f n = Some (if ge_type e = LLAMA_GRETYPE_CHAR_ANY then True else f \<or> ge_value e = c, n + 1)" if "tail_ok b" for b
      using that by (subst match_loop.simps) (auto simp: a Nil vec_at_def tail_ok_def is_modifier_def hd_conv_nth)
    then show ?thesis by (intro exI [of _ "if ge_type e = LLAMA_GRETYPE_CHAR_ANY then True else f \<or> ge_value e = c"] exI [of _ 1]) (simp add: a Nil)
  next
    case (Cons e1 t1)
    define d :: nat where "d = (if ge_type e1 = LLAMA_GRETYPE_CHAR_RNG_UPPER then 2 else 1)"
    define f' where "f' = (if ge_type e1 = LLAMA_GRETYPE_CHAR_RNG_UPPER then f \<or> (ge_value e \<le> c \<and> c \<le> ge_value e1)
      else if ge_type e = LLAMA_GRETYPE_CHAR_ANY then True else f \<or> ge_value e = c)"
    define s where "s = drop d a"
    have d: "0 < d" "d \<le> length a" by (auto simp: d_def a Cons)
    have step: "match_loop (a @ b) c f n =
        (if ge_type (hd (s @ b)) = LLAMA_GRETYPE_CHAR_ALT then match_loop (s @ b) c f' (n + d) else Some (f', n + d))" if "b \<noteq> []" for b
      using that by (subst match_loop.simps) (cases t1, auto simp: a Cons d_def f'_def s_def vec_at_def hd_conv_nth)
    have no_upper: "s \<noteq> [] \<Longrightarrow> ge_type (hd s) \<noteq> LLAMA_GRETYPE_CHAR_RNG_UPPER"
      using less.prems(2) by (cases t1) (auto simp: a Cons d_def s_def may_follow_def)
    show ?thesis
    proof (cases "s \<noteq> [] \<and> ge_type (hd s) = LLAMA_GRETYPE_CHAR_ALT")
      case True
      have "successively may_follow (take d a @ s)" using less.prems(2) by (simp add: s_def)
      then have succ: "successively may_follow s" unfolding successively_append_iff by blast
      have len: "length s < length a" using d by (simp add: s_def)
      have upper: "ge_type (hd s) \<noteq> LLAMA_GRETYPE_CHAR_RNG_UPPER" using True by simp
      obtain m k where mk: "0 < k" "k \<le> length s" "drop k s \<noteq> [] \<longrightarrow> \<not> is_modifier (ge_type (hd (drop k s)))"
        "\<forall>b. tail_ok b \<longrightarrow> match_loop (s @ b) c f' (n + d) = Some (m, n + d + k)"
        using less.hyps [OF len conjunct1 [OF True] succ upper, of f' "n + d"] by blast
      have "match_loop (a @ b) c f n = Some (m, n + (d + k))" if "tail_ok b" for b
        using mk(4) that True step [of b] by (simp add: tail_ok_def add.assoc)
      moreover have "drop (d + k) a = drop k s" by (simp add: s_def add.commute)
      moreover have "d + k \<le> length a" using mk(2) d(2) by (simp add: s_def)
      ultimately show ?thesis using mk(1,3) d(1) by (intro exI [of _ m] exI [of _ "d + k"]) simp
    next
      case False
      have "match_loop (a @ b) c f n = Some (f', n + d)" if "tail_ok b" for b
        using that False step [of b] by (cases s) (auto simp: tail_ok_def is_modifier_def)
      moreover have "drop d a \<noteq> [] \<longrightarrow> \<not> is_modifier (ge_type (hd (drop d a)))"
        using False no_upper unfolding s_def is_modifier_def by blast
      ultimately show ?thesis using d by blast
    qed
  qed
qed

lemma items_ok_drop: "items_ok a \<Longrightarrow> (drop k a \<noteq> [] \<Longrightarrow> \<not> is_modifier (ge_type (hd (drop k a)))) \<Longrightarrow> items_ok (drop k a)"
proof -
  assume a: "items_ok a" and k: "drop k a \<noteq> [] \<Longrightarrow> \<not> is_modifier (ge_type (hd (drop k a)))"
  have "successively may_follow (take k a @ drop k a)" using a by (simp add: items_ok_def)
  then have "successively may_follow (drop k a)" unfolding successively_append_iff by blast
  then show ?thesis using a k by (auto simp: items_ok_def dest: in_set_dropD)
qed

lemma items_ok_Cons_ref: "items_ok (e # a) \<Longrightarrow> ge_type e = LLAMA_GRETYPE_RULE_REF \<Longrightarrow> items_ok a"
  by (cases a) (auto simp: items_ok_def may_follow_def is_modifier_def)

lemma tail_end [simp]: "tail_ok [elem LLAMA_GRETYPE_END 0]"
  by (simp add: tail_ok_def elem_def is_modifier_def)

lemma seq_of_end: "is_end_type (ge_type e) \<Longrightarrow> seq_derives rules (e # es) w \<longleftrightarrow> w = []"
  by (auto intro: seq_end elim!: seq_ConsE simp: is_char_start_def is_end_type_def)

lemma items_derive_Nil [simp]: "items_derive rules [] w \<longleftrightarrow> w = []"
  by (simp add: items_derive_def seq_of_end elem_def is_end_type_def)

text \<open>A character class in front of complete items is matched whatever stands behind them.\<close>

lemma class_step:
  assumes "items_ok (e # t)" "tail_ok b" "match_loop (e # t @ b) c False 0 = Some (m, k)"
  obtains "items_ok (drop k (e # t))" "drop k (e # t @ b) = drop k (e # t) @ b"
    "\<And>b'. tail_ok b' \<Longrightarrow> match_loop (e # t @ b') c False 0 = Some (m, k) \<and> drop k (e # t @ b') = drop k (e # t) @ b'"
proof -
  have "e # t \<noteq> []" "successively may_follow (e # t)" "ge_type (hd (e # t)) \<noteq> LLAMA_GRETYPE_CHAR_RNG_UPPER"
    using assms(1) by (auto simp: items_ok_def is_modifier_def)
  from match_loop_tail [OF this, of c False 0] obtain m' j where j: "j \<le> length (e # t)"
      "drop j (e # t) \<noteq> [] \<longrightarrow> \<not> is_modifier (ge_type (hd (drop j (e # t))))"
    and ml: "\<And>b. tail_ok b \<Longrightarrow> match_loop ((e # t) @ b) c False 0 = Some (m', 0 + j)" by blast
  have kj: "k = j" "m' = m" using ml [OF assms(2)] assms(3) by simp_all
  have "drop k (e # t @ b') = drop k (e # t) @ b'" for b' using j(1) by (cases j) (simp_all add: kj)
  moreover have "items_ok (drop k (e # t))" using items_ok_drop [OF assms(1)] j(2) by (simp add: kj)
  ultimately show ?thesis using that ml kj by simp
qed

text \<open>Sequences derive independently.\<close>

lemma seq_split:
  "seq_derives rules es w \<Longrightarrow> es = a @ b \<Longrightarrow> items_ok a \<Longrightarrow> tail_ok b \<Longrightarrow>
   \<exists>u v. w = u @ v \<and> items_derive rules a u \<and> seq_derives rules b v"
proof (induction arbitrary: a rule: seq_derives.induct)
  case (seq_end e es)
  then have "a = []" by (cases a) (auto simp: items_ok_def)
  then show ?case using seq_end seq_derives.seq_end by fastforce
next
  case (seq_char e es c k w)
  show ?case
  proof (cases a)
    case Nil
    then show ?thesis using seq_char.hyps seq_char.prems(1) seq_derives.seq_char by fastforce
  next
    case (Cons x t)
    then have x: "e = x" "es = t @ b" using seq_char.prems(1) by simp_all
    from class_step [OF seq_char.prems(2) [unfolded Cons] seq_char.prems(3) seq_char.hyps(2) [unfolded x]]
    have ok: "items_ok (drop k (x # t))" and d: "drop k (x # t @ b) = drop k (x # t) @ b"
      and other: "\<And>b'. tail_ok b' \<Longrightarrow> match_loop (x # t @ b') c False 0 = Some (is_positive_char (ge_type x), k) \<and>
        drop k (x # t @ b') = drop k (x # t) @ b'" by blast+
    obtain u v where uv: "w = u @ v" "items_derive rules (drop k (x # t)) u" "seq_derives rules b v"
      using seq_char.IH [OF _ ok seq_char.prems(3)] d by (auto simp: x)
    have "items_derive rules a (c # u)" unfolding items_derive_def Cons
      using seq_derives.seq_char [OF seq_char.hyps(1)] other [OF tail_end] uv(2) by (simp add: items_derive_def x)
    then show ?thesis using uv by (intro exI [of _ "c # u"] exI [of _ v]) simp
  qed
next
  case (seq_ref e starts i u es v)
  show ?case
  proof (cases a)
    case Nil
    then show ?thesis using seq_ref.hyps seq_ref.prems(1) seq_derives.seq_ref by fastforce
  next
    case (Cons x t)
    have x: "e = x" "es = t @ b" using seq_ref.prems(1) Cons by simp_all
    then obtain u' v' where "v = u' @ v'" "items_derive rules t u'" "seq_derives rules b v'"
      using seq_ref.IH(2) items_ok_Cons_ref [of x t] seq_ref.prems seq_ref.hyps(1) by (auto simp: Cons)
    then show ?thesis using seq_derives.seq_ref [OF seq_ref.hyps(1-4), of "t @ [elem LLAMA_GRETYPE_END 0]" u']
      by (intro exI [of _ "u @ u'"] exI [of _ v']) (simp add: Cons items_derive_def x)
  qed
qed

lemma seq_join:
  "seq_derives rules es u \<Longrightarrow> es = a @ [elem LLAMA_GRETYPE_END 0] \<Longrightarrow> items_ok a \<Longrightarrow> tail_ok b \<Longrightarrow> seq_derives rules b v \<Longrightarrow>
   seq_derives rules (a @ b) (u @ v)"
proof (induction arbitrary: a rule: seq_derives.induct)
  case (seq_end e es)
  then have "a = []" by (cases a) (auto simp: items_ok_def)
  then show ?case using seq_end by simp
next
  case (seq_char e es c k w)
  then obtain t where Cons: "a = e # t" "es = t @ [elem LLAMA_GRETYPE_END 0]" by (cases a) (auto simp: elem_def is_char_start_def)
  from class_step [OF seq_char.prems(2) [unfolded Cons] tail_end seq_char.hyps(2) [unfolded Cons]]
  have ok: "items_ok (drop k (e # t))" and d: "drop k (e # t @ [elem LLAMA_GRETYPE_END 0]) = drop k (e # t) @ [elem LLAMA_GRETYPE_END 0]"
    and all: "\<And>b'. tail_ok b' \<Longrightarrow> match_loop (e # t @ b') c False 0 = Some (is_positive_char (ge_type e), k) \<and>
      drop k (e # t @ b') = drop k (e # t) @ b'" by blast+
  have other: "match_loop (e # t @ b) c False 0 = Some (is_positive_char (ge_type e), k)" "drop k (e # t @ b) = drop k (e # t) @ b"
    using all [OF seq_char.prems(3)] by blast+
  have "seq_derives rules (drop k (e # t @ b)) (w @ v)" unfolding other(2) by (rule seq_char.IH [unfolded Cons, OF d ok seq_char.prems(3,4)])
  then show ?case using seq_derives.seq_char [OF seq_char.hyps(1) other(1)] by (simp add: Cons)
next
  case (seq_ref e starts i u es w)
  then obtain t where Cons: "a = e # t" by (cases a) (auto simp: elem_def)
  then have "seq_derives rules (t @ b) (w @ v)"
    using seq_ref.IH(2) items_ok_Cons_ref [of e t] seq_ref.prems seq_ref.hyps(1) by simp
  then show ?case using seq_derives.seq_ref [OF seq_ref.hyps(1-4)] by (simp add: Cons)
qed

lemma items_then:
  assumes "items_ok a" "tail_ok b"
  shows "seq_derives rules (a @ b) w \<longleftrightarrow> (\<exists>u v. w = u @ v \<and> items_derive rules a u \<and> seq_derives rules b v)"
  using seq_split [OF _ refl assms] seq_join [OF _ refl assms] unfolding items_derive_def by blast

lemma tail_items: "items_ok b \<Longrightarrow> tail_ok (b @ [elem LLAMA_GRETYPE_END 0])"
  by (cases b) (auto simp: tail_ok_def items_ok_def elem_def is_modifier_def)

lemma items_derive_append:
  assumes "items_ok a" "items_ok b"
  shows "items_derive rules (a @ b) w \<longleftrightarrow> (\<exists>u v. w = u @ v \<and> items_derive rules a u \<and> items_derive rules b v)"
  using items_then [OF assms(1) tail_items [OF assms(2)]] unfolding items_derive_def by simp


section \<open>Optional and repeated items\<close>

abbreviation alt_end :: llama_grammar_rule where
  "alt_end \<equiv> [elem LLAMA_GRETYPE_ALT 0, elem LLAMA_GRETYPE_END 0]"

lemma tail_alt [simp]: "tail_ok alt_end" "tail_ok (elem LLAMA_GRETYPE_RULE_REF v # b)"
  by (simp_all add: tail_ok_def elem_def is_modifier_def)

lemma alternates_items:
  "\<forall>e\<in>set p. \<not> is_end_type (ge_type e) \<Longrightarrow>
   alternates_from (p @ alt_end) i start = Some (if p = [] \<and> \<not> start then [i + 1] else if start then [i, i + length p + 1] else [i + length p + 1])"
  by (induction p arbitrary: i start) (auto simp: elem_def is_end_type_def)

lemma optional_rule:
  assumes "r < length rules" "rules ! r = p @ alt_end" "items_ok p"
  shows "alternates rules r = Some [0, length p + 1]"
    and "rule_derives rules r w \<longleftrightarrow> items_derive rules p w \<or> w = []"
proof -
  have "\<forall>e\<in>set p. \<not> is_end_type (ge_type e)" using assms(3) by (simp add: items_ok_def)
  from alternates_items [OF this, of 0 True] show alts: "alternates rules r = Some [0, length p + 1]"
    by (simp add: alternates_def vec_at_def assms(1,2))
  have "seq_derives rules (p @ alt_end) w \<longleftrightarrow> items_derive rules p w"
    using items_then [OF assms(3) tail_alt(1)] by (simp add: seq_of_end elem_def is_end_type_def)
  then show "rule_derives rules r w \<longleftrightarrow> items_derive rules p w \<or> w = []"
    by (auto simp: rule_derives_seq alts assms(2) seq_of_end elem_def is_end_type_def)
qed

lemma items_derive_ref: "items_derive rules [elem LLAMA_GRETYPE_RULE_REF v] w \<longleftrightarrow> rule_derives rules (unat v) w"
proof
  assume "items_derive rules [elem LLAMA_GRETYPE_RULE_REF v] w"
  then show "rule_derives rules (unat v) w"
    unfolding items_derive_def rule_derives_seq
    by (auto elim!: seq_ConsE simp: elem_def is_char_start_def is_end_type_def seq_of_end)
next
  assume "rule_derives rules (unat v) w"
  then obtain starts i where "alternates rules (unat v) = Some starts" "i \<in> set starts" "seq_derives rules (drop i (rules ! unat v)) w"
    unfolding rule_derives_seq by blast
  then show "items_derive rules [elem LLAMA_GRETYPE_RULE_REF v] w"
    using seq_ref [of "elem LLAMA_GRETYPE_RULE_REF v" rules starts i w "[elem LLAMA_GRETYPE_END 0]" "[]"]
    by (simp add: items_derive_def seq_of_end elem_def is_end_type_def)
qed

text \<open>The words of \<open>a\<close> to \<open>b\<close> repetitions of an item; \<open>None\<close> is no bound.\<close>

definition repetitions :: "llama_grammar_rules \<Rightarrow> llama_grammar_rule \<Rightarrow> nat \<Rightarrow> nat option \<Rightarrow> u32 list \<Rightarrow> bool" where
  "repetitions rules item lo hi w \<longleftrightarrow>
     (\<exists>ws. w = concat ws \<and> (\<forall>u\<in>set ws. items_derive rules item u) \<and> lo \<le> length ws \<and> (\<forall>n. hi = Some n \<longrightarrow> length ws \<le> n))"

lemma repetitions_Nil [simp]: "repetitions rules item 0 hi []"
  unfolding repetitions_def by (intro exI [of _ "[]"]) simp

lemma repetitions_zero: "repetitions rules item 0 (Some 0) w \<longleftrightarrow> w = []"
  by (auto simp: repetitions_def)

lemma repetitions_append:
  "(\<exists>u v. w = u @ v \<and> repetitions rules item n (Some n) u \<and> repetitions rules item 0 hi v) \<longleftrightarrow>
   repetitions rules item n (map_option ((+) n) hi) w"
proof
  assume "\<exists>u v. w = u @ v \<and> repetitions rules item n (Some n) u \<and> repetitions rules item 0 hi v"
  then obtain ws ws' where "w = concat ws @ concat ws'" "\<forall>u\<in>set ws. items_derive rules item u" "length ws = n"
    "\<forall>u\<in>set ws'. items_derive rules item u" "\<forall>n. hi = Some n \<longrightarrow> length ws' \<le> n" unfolding repetitions_def by auto
  then show "repetitions rules item n (map_option ((+) n) hi) w"
    unfolding repetitions_def by (intro exI [of _ "ws @ ws'"]) auto
next
  assume "repetitions rules item n (map_option ((+) n) hi) w"
  then obtain ws where ws: "w = concat ws" "\<forall>u\<in>set ws. items_derive rules item u" "n \<le> length ws" "\<forall>m. hi = Some m \<longrightarrow> length ws \<le> n + m"
    unfolding repetitions_def by auto
  have "w = concat (take n ws) @ concat (drop n ws)" by (simp add: ws(1) flip: concat_append)
  moreover have "repetitions rules item n (Some n) (concat (take n ws))"
    unfolding repetitions_def using ws by (intro exI [of _ "take n ws"]) (auto dest: in_set_takeD)
  moreover have "repetitions rules item 0 hi (concat (drop n ws))"
    unfolding repetitions_def using ws by (intro exI [of _ "drop n ws"]) (auto dest: in_set_dropD)
  ultimately show "\<exists>u v. w = u @ v \<and> repetitions rules item n (Some n) u \<and> repetitions rules item 0 hi v" by blast
qed

lemma repetitions_first:
  "repetitions rules item 0 hi w \<Longrightarrow> w = [] \<or> (\<exists>u v. w = u @ v \<and> items_derive rules item u \<and> repetitions rules item 0 hi v)"
proof -
  assume "repetitions rules item 0 hi w"
  then obtain ws where ws: "w = concat ws" "\<forall>u\<in>set ws. items_derive rules item u" "\<forall>n. hi = Some n \<longrightarrow> length ws \<le> n"
    unfolding repetitions_def by auto
  show ?thesis
  proof (cases ws)
    case (Cons u vs)
    then have "repetitions rules item 0 hi (concat vs)" unfolding repetitions_def using ws by (intro exI [of _ vs]) (auto simp: Suc_le_eq)
    then show ?thesis using ws Cons by auto
  qed (simp add: ws)
qed

lemma repetitions_more:
  "repetitions rules item 0 hi w \<or> (\<exists>u v. w = u @ v \<and> items_derive rules item u \<and> repetitions rules item 0 hi v) \<longleftrightarrow>
   repetitions rules item 0 (map_option Suc hi) w"
proof
  assume "repetitions rules item 0 hi w \<or> (\<exists>u v. w = u @ v \<and> items_derive rules item u \<and> repetitions rules item 0 hi v)"
  then show "repetitions rules item 0 (map_option Suc hi) w"
  proof (elim disjE exE conjE)
    fix u v assume "w = u @ v" "items_derive rules item u" "repetitions rules item 0 hi v"
    then obtain ws where "w = concat (u # ws)" "\<forall>x\<in>set (u # ws). items_derive rules item x" "\<forall>n. hi = Some n \<longrightarrow> length ws \<le> n"
      unfolding repetitions_def by auto
    then show ?thesis unfolding repetitions_def by (intro exI [of _ "u # ws"]) auto
  qed (auto simp: repetitions_def le_SucI)
next
  assume "repetitions rules item 0 (map_option Suc hi) w"
  then obtain ws where ws: "w = concat ws" "\<forall>u\<in>set ws. items_derive rules item u" "\<forall>n. hi = Some n \<longrightarrow> length ws \<le> Suc n"
    unfolding repetitions_def by auto
  show "repetitions rules item 0 hi w \<or> (\<exists>u v. w = u @ v \<and> items_derive rules item u \<and> repetitions rules item 0 hi v)"
  proof (cases ws)
    case Nil
    then have "repetitions rules item 0 hi w" unfolding repetitions_def using ws by (intro exI [of _ "[]"]) simp
    then show ?thesis by blast
  next
    case (Cons u vs)
    then have "repetitions rules item 0 hi (concat vs)" unfolding repetitions_def using ws by (intro exI [of _ vs]) auto
    then show ?thesis using ws Cons by auto
  qed
qed

lemma repeated_items:
  assumes "items_ok item"
  shows "items_ok (concat (replicate n item))" "items_derive rules (concat (replicate n item)) w \<longleftrightarrow> repetitions rules item n (Some n) w"
proof -
  show ok: "items_ok (concat (replicate n item))" for n by (induction n) (simp_all add: items_ok_append assms)
  show "items_derive rules (concat (replicate n item)) w \<longleftrightarrow> repetitions rules item n (Some n) w"
  proof (induction n arbitrary: w)
    case (Suc n)
    have "items_derive rules (concat (replicate (Suc n) item)) w \<longleftrightarrow>
        (\<exists>u v. w = u @ v \<and> items_derive rules item u \<and> repetitions rules item n (Some n) v)"
      using items_derive_append [OF assms ok] Suc.IH by simp
    also have "\<dots> \<longleftrightarrow> repetitions rules item (Suc n) (Some (Suc n)) w"
    proof
      assume "\<exists>u v. w = u @ v \<and> items_derive rules item u \<and> repetitions rules item n (Some n) v"
      then obtain u ws where "w = concat (u # ws)" "\<forall>x\<in>set (u # ws). items_derive rules item x" "length ws = n"
        unfolding repetitions_def by auto
      then show "repetitions rules item (Suc n) (Some (Suc n)) w" unfolding repetitions_def by (intro exI [of _ "u # ws"]) auto
    next
      assume "repetitions rules item (Suc n) (Some (Suc n)) w"
      then obtain vs where vs: "w = concat vs" "\<forall>x\<in>set vs. items_derive rules item x" "length vs = Suc n"
        unfolding repetitions_def by auto
      then obtain u ws where "vs = u # ws" by (cases vs) auto
      then have "w = u @ concat ws" "items_derive rules item u" "\<forall>x\<in>set ws. items_derive rules item x" "length ws = n"
        using vs by simp_all
      then show "\<exists>u v. w = u @ v \<and> items_derive rules item u \<and> repetitions rules item n (Some n) v"
        unfolding repetitions_def by (metis order_refl option.inject)
    qed
    finally show ?case .
  qed (simp add: repetitions_zero)
qed

text \<open>A rule that refers to itself behind the item derives any number of repetitions.\<close>

lemma star_split:
  "seq_derives rules es w \<Longrightarrow> es = b @ elem LLAMA_GRETYPE_RULE_REF k # alt_end \<Longrightarrow> items_ok b \<Longrightarrow> items_ok item \<Longrightarrow>
   unat k < length rules \<Longrightarrow> rules ! unat k = (item @ [elem LLAMA_GRETYPE_RULE_REF k]) @ alt_end \<Longrightarrow>
   \<exists>u v. w = u @ v \<and> items_derive rules b u \<and> repetitions rules item 0 None v"
proof (induction arbitrary: b rule: seq_derives.induct)
  case (seq_end e es)
  then show ?case by (cases b) (auto simp: items_ok_def elem_def is_end_type_def)
next
  case (seq_char e es c n w)
  then obtain t where Cons: "b = e # t" "es = t @ elem LLAMA_GRETYPE_RULE_REF k # alt_end"
    by (cases b) (auto simp: elem_def is_char_start_def)
  from class_step [OF seq_char.prems(2) [unfolded Cons] tail_alt(2) seq_char.hyps(2) [unfolded Cons]]
  have ok: "items_ok (drop n (e # t))"
    and d: "drop n (e # t @ elem LLAMA_GRETYPE_RULE_REF k # alt_end) = drop n (e # t) @ elem LLAMA_GRETYPE_RULE_REF k # alt_end"
    and all: "\<And>b'. tail_ok b' \<Longrightarrow> match_loop (e # t @ b') c False 0 = Some (is_positive_char (ge_type e), n) \<and>
      drop n (e # t @ b') = drop n (e # t) @ b'" by blast+
  obtain u v where uv: "w = u @ v" "items_derive rules (drop n (e # t)) u" "repetitions rules item 0 None v"
    using seq_char.IH [unfolded Cons, OF d ok seq_char.prems(3-5)] by blast
  have "items_derive rules b (c # u)" unfolding items_derive_def Cons
    using seq_derives.seq_char [OF seq_char.hyps(1)] all [OF tail_end] uv(2) by (simp add: items_derive_def)
  then show ?case using uv by (intro exI [of _ "c # u"] exI [of _ v]) simp
next
  case (seq_ref e starts i u es v)
  show ?case
  proof (cases b)
    case Nil
    have e: "e = elem LLAMA_GRETYPE_RULE_REF k" "es = alt_end" using seq_ref.prems(1) Nil by simp_all
    then have v: "v = []" using seq_ref.hyps(5) by (simp add: seq_of_end elem_def is_end_type_def)
    have k: "unat (ge_value e) = unat k" by (simp add: e elem_def)
    have ok: "items_ok (item @ [elem LLAMA_GRETYPE_RULE_REF k])" using seq_ref.prems(3) by (simp add: items_ok_append)
    have "i \<in> {0, length (item @ [elem LLAMA_GRETYPE_RULE_REF k]) + 1}"
      using seq_ref.hyps(2,3) optional_rule(1) [OF seq_ref.prems(4,5) ok] by (auto simp: k)
    then show ?thesis
    proof (elim insertE)
      assume "i = 0"
      then have "\<exists>x y. u = x @ y \<and> items_derive rules item x \<and> repetitions rules item 0 None y"
        using seq_ref.IH(1) [OF _ seq_ref.prems(3) seq_ref.prems(3-5)] seq_ref.prems(5) by (simp add: k)
      then have "repetitions rules item 0 None u" using repetitions_more [of rules item None u] by simp
      then show ?thesis using v Nil by simp
    next
      assume "i = length (item @ [elem LLAMA_GRETYPE_RULE_REF k]) + 1"
      then have "u = []" using seq_ref.hyps(4) seq_ref.prems(5) by (simp add: k seq_of_end elem_def is_end_type_def)
      then show ?thesis using v Nil by simp
    qed simp
  next
    case (Cons x t)
    have x: "e = x" "es = t @ elem LLAMA_GRETYPE_RULE_REF k # alt_end" using seq_ref.prems(1) Cons by simp_all
    then obtain u' v' where "v = u' @ v'" "items_derive rules t u'" "repetitions rules item 0 None v'"
      using seq_ref.IH(2) items_ok_Cons_ref [of x t] seq_ref.prems seq_ref.hyps(1) by (auto simp: Cons)
    then show ?thesis using seq_derives.seq_ref [OF seq_ref.hyps(1-4), of "t @ [elem LLAMA_GRETYPE_END 0]" u']
      by (intro exI [of _ "u @ u'"] exI [of _ v']) (simp add: Cons items_derive_def x)
  qed
qed

lemma star_rule:
  assumes "unat k < length rules" "rules ! unat k = (item @ [elem LLAMA_GRETYPE_RULE_REF k]) @ alt_end" "items_ok item"
  shows "rule_derives rules (unat k) w \<longleftrightarrow> repetitions rules item 0 None w"
proof
  have ok: "items_ok (item @ [elem LLAMA_GRETYPE_RULE_REF k])" using assms(3) by (simp add: items_ok_append)
  note opt = optional_rule(2) [OF assms(1,2) ok]
  {
    assume "rule_derives rules (unat k) w"
    then consider "w = []" | "seq_derives rules (item @ elem LLAMA_GRETYPE_RULE_REF k # alt_end) w"
      unfolding opt items_then [OF ok tail_alt(1), of rules w, simplified] using items_then [OF ok tail_alt(1), of rules w]
      by (fastforce simp: seq_of_end elem_def is_end_type_def)
    then show "repetitions rules item 0 None w"
    proof cases
      case 2
      from star_split [OF this refl assms(3,3,1,2)] show ?thesis using repetitions_more [of rules item None w] by simp
    qed simp
  next
    assume "repetitions rules item 0 None w"
    then obtain ws where "w = concat ws" "\<forall>u\<in>set ws. items_derive rules item u" unfolding repetitions_def by blast
    then show "rule_derives rules (unat k) w"
    proof (induction ws arbitrary: w)
      case Nil
      then show ?case by (simp add: opt)
    next
      case (Cons u ws)
      then have "items_derive rules [elem LLAMA_GRETYPE_RULE_REF k] (concat ws)" by (simp add: items_derive_ref)
      moreover have "items_derive rules item u" "w = u @ concat ws" using Cons.prems by simp_all
      ultimately show ?case unfolding opt items_derive_append [OF assms(3) items_ok_ref] by blast
    qed
  }
qed


text \<open>A chain of optional rules, each of which refers to the one before.\<close>

lemma chain_rule:
  assumes "items_ok item" "n + m \<le> length rules" "n + m \<le> 2 ^ 32"
    and "\<And>i. i < m \<Longrightarrow> rules ! (n + i) = (item @ (if i = 0 then [] else [elem LLAMA_GRETYPE_RULE_REF (of_nat (n + i - 1))])) @ alt_end"
  shows "i < m \<Longrightarrow> rule_derives rules (n + i) w \<longleftrightarrow> repetitions rules item 0 (Some (Suc i)) w"
proof (induction i arbitrary: w)
  case 0
  then have "rule_derives rules (n + 0) w \<longleftrightarrow> items_derive rules item w \<or> w = []"
    using optional_rule(2) [OF _ _ assms(1), of "n + 0"] assms(2) assms(4) [of 0] by simp
  also have "\<dots> \<longleftrightarrow> repetitions rules item 0 (Some (Suc 0)) w"
    using repetitions_more [of rules item "Some 0" w] by (auto simp: repetitions_zero)
  finally show ?case .
next
  case (Suc i)
  let ?ref = "elem LLAMA_GRETYPE_RULE_REF (of_nat (n + i))"
  have rule: "rules ! (n + Suc i) = (item @ [?ref]) @ alt_end" "n + Suc i < length rules"
    using assms(2) assms(4) [OF Suc.prems] Suc.prems by simp_all
  have u: "unat (of_nat (n + i) :: u32) = n + i" using assms(3) Suc.prems by (intro unat_u32) simp
  have IH: "rule_derives rules (n + i) v \<longleftrightarrow> repetitions rules item 0 (Some (Suc i)) v" for v using Suc by simp
  have "rule_derives rules (n + Suc i) w \<longleftrightarrow> items_derive rules (item @ [?ref]) w \<or> w = []"
    by (rule optional_rule(2) [OF rule(2,1)]) (simp add: items_ok_append assms(1))
  also have "\<dots> \<longleftrightarrow> repetitions rules item 0 (Some (Suc i)) w \<or>
      (\<exists>u v. w = u @ v \<and> items_derive rules item u \<and> repetitions rules item 0 (Some (Suc i)) v)"
    unfolding items_derive_append [OF assms(1) items_ok_ref] items_derive_ref u IH
    using repetitions_Nil [of rules item "Some (Suc i)"] repetitions_first [of rules item "Some (Suc i)" w] by blast
  also have "\<dots> \<longleftrightarrow> repetitions rules item 0 (Some (Suc (Suc i))) w"
    using repetitions_more [of rules item "Some (Suc i)" w] by simp
  finally show ?case .
qed


section \<open>What the repetitions add\<close>

lemma add_rule_nth:
  assumes "unat i < 2 ^ 32 - 1"
  shows "unat i < length (ps_rules (add_rule i r P))" "ps_rules (add_rule i r P) ! unat i = r"
    and "k \<noteq> unat i \<Longrightarrow> k < length (ps_rules P) \<Longrightarrow> k < length (ps_rules (add_rule i r P)) \<and> ps_rules (add_rule i r P) ! k = ps_rules P ! k"
proof -
  have "unat (i + 1) = unat i + 1" using assms by (simp add: unat_word_ariths(1))
  then show "unat i < length (ps_rules (add_rule i r P))" "ps_rules (add_rule i r P) ! unat i = r"
    "k \<noteq> unat i \<Longrightarrow> k < length (ps_rules P) \<Longrightarrow> k < length (ps_rules (add_rule i r P)) \<and> ps_rules (add_rule i r P) ! k = ps_rules P ! k"
    by (auto simp: add_rule_def Let_def nth_append)
qed

lemma add_repetitions_rules:
  assumes "fold (add_repetition name prev mx) [0..<m] (0, P) = (l, Q)" "n_ids Q < 2 ^ 32" "ids_ok (ps_symbol_ids P)" "plain_name name"
  shows "n_ids Q = n_ids P + m \<and> ids_ok (ps_symbol_ids Q) \<and> (m > 0 \<longrightarrow> l = of_nat (n_ids P + m - 1)) \<and>
    (\<forall>i<m. n_ids P + i < length (ps_rules Q) \<and> ps_rules Q ! (n_ids P + i) =
      (prev @ (if mx < 0 then [elem LLAMA_GRETYPE_RULE_REF (of_nat (n_ids P + i))]
               else if i = 0 then [] else [elem LLAMA_GRETYPE_RULE_REF (of_nat (n_ids P + i - 1))])) @ alt_end)"
  using assms(1,2)
proof (induction m arbitrary: l Q)
  case 0
  then show ?case using assms(3) by simp
next
  case (Suc m)
  obtain l1 P1 where f: "fold (add_repetition name prev mx) [0..<m] (0, P) = (l1, P1)" by fastforce
  obtain i P2 where g: "generate_symbol_id name P1 = (i, P2)" by fastforce
  define more where "more = (if m > 0 \<or> mx < 0 then [elem LLAMA_GRETYPE_RULE_REF (if mx < 0 then i else l1)] else [])"
  have step: "add_repetition name prev mx m (l1, P1) = (l, Q)" using Suc.prems(1) f by simp
  have Q: "l = i" "Q = add_rule i ((prev @ more) @ alt_end) P2"
    using step g by (auto simp: add_repetition_def more_def Let_def)
  have n1: "n_ids P1 < 2 ^ 32" using generate_symbol_id_grows [OF g] Suc.prems(2) by (simp add: Q)
  note IH = Suc.IH [OF f n1]
  note new = generate_symbol_id_new [OF g conjunct1 [OF conjunct2 [OF IH]] assms(4) n1]
  have i: "unat i = n_ids P + m" using unat_u32 [OF n1] IH by (simp add: new(1))
  have len: "n_ids Q = n_ids P + Suc m" using IH by (simp add: Q new(2))
  then have small: "unat i < 2 ^ 32 - 1" using Suc.prems(2) i by linarith
  have ids: "ids_ok (ps_symbol_ids Q)" using generate_symbol_id_ok [OF g conjunct1 [OF conjunct2 [OF IH]] assms(4)] Suc.prems(2) by (simp add: Q)
  note nth = add_rule_nth [OF small, where r = "(prev @ more) @ alt_end" and P = P2, folded Q(2)]
  have rules: "ps_rules P2 = ps_rules P1" by (rule generate_symbol_id_rules [OF g])
  let ?c = "\<lambda>j. (prev @ (if mx < 0 then [elem LLAMA_GRETYPE_RULE_REF (of_nat (n_ids P + j))]
     else if j = 0 then [] else [elem LLAMA_GRETYPE_RULE_REF (of_nat (n_ids P + j - 1))])) @ alt_end"
  have "more = (if mx < 0 then [elem LLAMA_GRETYPE_RULE_REF (of_nat (n_ids P + m))]
     else if m = 0 then [] else [elem LLAMA_GRETYPE_RULE_REF (of_nat (n_ids P + m - 1))])"
    using IH unfolding more_def new(1) by simp
  then have last: "n_ids P + m < length (ps_rules Q)" "ps_rules Q ! (n_ids P + m) = ?c m"
    using nth(1,2) [unfolded i] by (simp_all only:)
  have "n_ids P + j < length (ps_rules Q) \<and> ps_rules Q ! (n_ids P + j) = ?c j" if j: "j < m" for j
  proof -
    have "n_ids P + j \<noteq> unat i" using j i by simp
    moreover have "n_ids P + j < length (ps_rules P2)" "ps_rules P2 ! (n_ids P + j) = ?c j" using IH j unfolding rules by blast+
    ultimately show ?thesis using nth(3) [of "n_ids P + j"] by (simp only: not_False_eq_True simp_thms)
  qed
  then have "\<forall>j<Suc m. n_ids P + j < length (ps_rules Q) \<and> ps_rules Q ! (n_ids P + j) = ?c j"
    using last by (simp only: less_Suc_eq) blast
  moreover have "l = of_nat (n_ids P + Suc m - 1)" using IH by (simp add: Q(1) new(1))
  ultimately show ?case using len ids by blast
qed

lemma piece_items: "piece_ok n b \<Longrightarrow> \<forall>e\<in>set b. ge_type e \<noteq> LLAMA_GRETYPE_ALT \<Longrightarrow> items_ok b"
  by (auto simp: piece_ok_def items_ok_def is_end_type_def)

text \<open>
  C40: The repetition operators mean repetitions. When the rules that \<open>handle_repetitions\<close> adds for an
  item are those of the grammar, what it leaves in place of the item derives exactly the
  concatenations of \<open>min_times\<close> to \<open>max_times\<close> words of the item, of \<open>min_times\<close> or more when
  \<open>max_times\<close> is negative, and of \<open>min_times\<close> when the bounds are the wrong way round.
\<close>

theorem repetitions_derive:
  assumes "handle_repetitions name lss mn mx rule P = Inr (rule', Q)" "0 \<le> mn" "lss \<le> length rule"
    and "items_ok (drop lss rule)" "ids_ok (ps_symbol_ids P)" "plain_name name" "length (ps_symbol_ids Q) < 2 ^ 32"
    and "length (ps_rules Q) \<le> length rules"
    and "\<forall>k. length (ps_symbol_ids P) \<le> k \<longrightarrow> k < length (ps_symbol_ids Q) \<longrightarrow> rules ! k = ps_rules Q ! k"
  shows "items_derive rules (drop lss rule') w \<longleftrightarrow>
    repetitions rules (drop lss rule) (nat mn) (if mx < 0 then None else Some (nat (max mn mx))) w"
proof -
  let ?item = "drop lss rule"
  define n_opt where "n_opt = (if mx < 0 then 1 else mx - mn)"
  obtain l P1 where f: "fold (add_repetition name ?item mx) [0..<nat n_opt] (0, P) = (l, P1)" by fastforce
  define base where "base = concat (replicate (nat mn) ?item)"
  have res: "drop lss rule' = (if n_opt > 0 then base @ [elem LLAMA_GRETYPE_RULE_REF l] else base)" and Q: "Q = P1"
  proof -
    have "nat mn = Suc (nat (mn - 1))" if "mn \<noteq> 0" using that assms(2) by linarith
    then have "base = (if mn = 0 then [] else ?item @ concat (replicate (nat (mn - 1)) ?item))" by (simp add: base_def)
    then show "drop lss rule' = (if n_opt > 0 then base @ [elem LLAMA_GRETYPE_RULE_REF l] else base)" "Q = P1"
      using assms(1,3) f unfolding handle_repetitions_def n_opt_def by (auto simp: Let_def split: if_splits)
  qed
  note added = add_repetitions_rules [OF f, folded Q, OF assms(7,5,6)]
  have grammar: "length (ps_symbol_ids P) + i < length rules \<and> rules ! (n_ids P + i) = ps_rules Q ! (n_ids P + i)" if "i < nat n_opt" for i
  proof -
    have "n_ids P + i < n_ids Q" using added that by linarith
    then have "rules ! (n_ids P + i) = ps_rules Q ! (n_ids P + i)" using assms(9) by simp
    moreover have "n_ids P + i < length (ps_rules Q)" using added that by blast
    ultimately show ?thesis using assms(8) by simp
  qed
  have base: "items_ok base" "items_derive rules base u \<longleftrightarrow> repetitions rules ?item (nat mn) (Some (nat mn)) u" for u
    using repeated_items [OF assms(4)] unfolding base_def by blast+
  show ?thesis
  proof (cases "n_opt > 0")
    case False
    then have "max mn mx = mn" "\<not> mx < 0" by (auto simp: n_opt_def split: if_splits)
    then show ?thesis using False by (simp add: res base)
  next
    case True
    define last where "last = n_ids P + nat n_opt - 1"
    have l: "unat l = last" using added True unat_u32 [of last] assms(7) by (simp add: last_def)
    have opt: "rule_derives rules last v \<longleftrightarrow> repetitions rules ?item 0 (if mx < 0 then None else Some (nat n_opt)) v" for v
    proof (cases "mx < 0")
      case True
      then have one: "nat n_opt = 1" by (simp add: n_opt_def)
      then have "last < length rules" "rules ! last = (?item @ [elem LLAMA_GRETYPE_RULE_REF l]) @ alt_end"
        using added grammar [of 0] True by (auto simp: last_def)
      then show ?thesis using star_rule [of l rules ?item v] assms(4) True by (simp add: l)
    next
      case bounded: False
      have lens: "n_ids P + nat n_opt \<le> length rules" using grammar [of "nat n_opt - 1"] True by linarith
      have small: "n_ids P + nat n_opt \<le> 2 ^ 32" using added assms(7) by linarith
      have "rules ! (n_ids P + i) = (?item @ (if i = 0 then [] else [elem LLAMA_GRETYPE_RULE_REF (of_nat (n_ids P + i - 1))])) @ alt_end"
        if "i < nat n_opt" for i using grammar [OF that] added that bounded by auto
      from chain_rule [OF assms(4) lens small this, of "nat n_opt - 1" v] show ?thesis
        using True bounded by (simp add: last_def)
    qed
    have "items_derive rules (drop lss rule') w \<longleftrightarrow> (\<exists>u v. w = u @ v \<and> repetitions rules ?item (nat mn) (Some (nat mn)) u \<and>
        repetitions rules ?item 0 (if mx < 0 then None else Some (nat n_opt)) v)"
      using True by (simp add: res items_derive_append [OF base(1) items_ok_ref] items_derive_ref l opt base(2))
    also have "\<dots> \<longleftrightarrow> repetitions rules ?item (nat mn) (map_option ((+) (nat mn)) (if mx < 0 then None else Some (nat n_opt))) w"
      by (rule repetitions_append)
    also have "map_option ((+) (nat mn)) (if mx < 0 then None else Some (nat n_opt)) = (if mx < 0 then None else Some (nat (max mn mx)))"
      using True assms(2) by (auto simp: n_opt_def nat_add_distrib [symmetric])
    finally show ?thesis .
  qed
qed

definition two_or_three :: llama_grammar_parser where
  "two_or_three = \<lparr>ps_symbol_ids = [(bytes ''r'', 0), (bytes ''r_1'', 1)], ps_rules = [[], elem LLAMA_GRETYPE_CHAR 97 # alt_end]\<rparr>"

theorem repetitions_derive_witness:
  "items_derive (ps_rules two_or_three) [elem LLAMA_GRETYPE_CHAR 97, elem LLAMA_GRETYPE_CHAR 97, elem LLAMA_GRETYPE_RULE_REF 1] =
   repetitions (ps_rules two_or_three) [elem LLAMA_GRETYPE_CHAR 97] 2 (Some 3)"
proof
  fix w
  let ?P = "\<lparr>ps_symbol_ids = [(bytes ''r'', 0)], ps_rules = []\<rparr>" and ?a = "[elem LLAMA_GRETYPE_CHAR 97]"
  have h: "handle_repetitions (bytes ''r'') 0 2 3 ?a ?P = Inr (?a @ ?a @ [elem LLAMA_GRETYPE_RULE_REF 1], two_or_three)" by code_simp
  have ids: "ids_ok (ps_symbol_ids ?P)"
  proof -
    have "ch CHR ''_'' \<notin> set (bytes ''r'')" by code_simp
    then show ?thesis by (simp add: ids_ok_def)
  qed
  have name: "plain_name (bytes ''r'')" unfolding plain_name_def by code_simp
  have item: "items_ok (drop 0 ?a)" by code_simp
  from repetitions_derive [OF h _ _ item ids name, of "ps_rules two_or_three" w]
  show "items_derive (ps_rules two_or_three) [elem LLAMA_GRETYPE_CHAR 97, elem LLAMA_GRETYPE_CHAR 97, elem LLAMA_GRETYPE_RULE_REF 1] w =
      repetitions (ps_rules two_or_three) [elem LLAMA_GRETYPE_CHAR 97] 2 (Some 3) w"
    by (simp add: two_or_three_def)
qed

end
