(* ===== verification/KV_Cache.thy ===== *)
theory KV_Cache
  imports KV_Cells_Spec
begin

text \<open>
  The KV cache (\<open>src/llama-kv-cache.h\<close>, \<open>src/llama-kv-cache.cpp\<close>, class \<open>llama_kv_cache\<close>): its state
  and the operations on sequences. Cells, heads and prefix boundaries are those of the class; the
  tensors of a layer are, per stream, the bytes of \<open>K\<close> and \<open>V\<close> and the row of the \<open>K\<close> mean.

  A failed \<open>assert\<close> or \<open>GGML_ASSERT\<close>, an access out of range and an overflow are \<open>None\<close>. Counters of
  cells are numbers, as caches are far below the range of \<open>uint32_t\<close>; positions are \<open>int32_t\<close>. The
  tensors' creation, the graphs and logging are not modelled; computing the graph of a K-shift is a parameter.
\<close>

section \<open>State\<close>

datatype llama_swa_type =
    LLAMA_SWA_TYPE_NONE | LLAMA_SWA_TYPE_STANDARD | LLAMA_SWA_TYPE_CHUNKED | LLAMA_SWA_TYPE_SYMMETRIC

record stream_copy_info =
  ssrc :: "nat list"
  sdst :: "nat list"

record kv_layer =
  layer_k :: "u8 list list"
  layer_v :: "u8 list list"
  layer_k_mean :: "real list list option"

record llama_kv_cache =
  kv_n_stream :: nat
  kv_n_pad :: nat
  kv_n_swa :: nat
  kv_swa_type :: llama_swa_type
  kv_window :: nat
  kv_prefix_cap :: nat
  kv_n_ubatch :: nat
  kv_heads :: "nat list"
  kv_cells :: "llama_kv_cells list"
  kv_prefix_end :: "int list"
  kv_seq_to_stream :: "nat list"
  kv_sc_info :: stream_copy_info
  kv_layers :: "kv_layer list"

definition sc_empty :: "stream_copy_info \<Rightarrow> bool option" where
  "sc_empty sc = do { check (length (ssrc sc) = length (sdst sc)); Some (ssrc sc = []) }"

definition LLAMA_POS_MAX :: int where
  "LLAMA_POS_MAX = 2 ^ 31 - 1"

text \<open>\<open>(int32_t) n\<close>.\<close>

definition to_i32 :: "nat \<Rightarrow> int" where
  "to_i32 n = (int n + 2 ^ 31) mod 2 ^ 32 - 2 ^ 31"

definition stream_of :: "llama_kv_cache \<Rightarrow> int \<Rightarrow> nat option" where
  "stream_of kv s = do { check (0 \<le> s \<and> nat s < length (kv_seq_to_stream kv)); Some (kv_seq_to_stream kv ! nat s) }"

text \<open>The constructor, as far as the metadata goes.\<close>

definition kv_cache_new ::
    "bool \<Rightarrow> nat \<Rightarrow> nat \<Rightarrow> nat \<Rightarrow> nat \<Rightarrow> llama_swa_type \<Rightarrow> nat \<Rightarrow> nat \<Rightarrow> nat \<Rightarrow> kv_layer list \<Rightarrow> llama_kv_cache option" where
  "kv_cache_new unified kv_size n_seq_max n_pad n_swa swa_type window prefix_cap n_ubatch layers = do {
     check (n_pad \<noteq> 0 \<and> kv_size mod n_pad = 0);
     let n_stream = (if unified then 1 else n_seq_max);
     Some \<lparr>kv_n_stream = n_stream, kv_n_pad = n_pad, kv_n_swa = n_swa, kv_swa_type = swa_type, kv_window = window,
       kv_prefix_cap = prefix_cap, kv_n_ubatch = n_ubatch, kv_heads = replicate n_stream 0,
       kv_cells = replicate n_stream (kc_resize kv_size kv_empty), kv_prefix_end = replicate LLAMA_MAX_SEQ (-1),
       kv_seq_to_stream = (if n_stream > 1 then map (\<lambda>s. s) [0..<n_stream] else replicate LLAMA_MAX_SEQ 0),
       kv_sc_info = \<lparr>ssrc = [], sdst = []\<rparr>, kv_layers = layers\<rparr> }"

section \<open>Helpers\<close>

definition prefix_sliding_enabled :: "llama_kv_cache \<Rightarrow> bool" where
  "prefix_sliding_enabled kv \<longleftrightarrow> kv_window kv > 0 \<and> kv_prefix_cap kv > 0"

definition get_can_shift :: "llama_kv_cache \<Rightarrow> bool" where
  "get_can_shift kv \<longleftrightarrow> \<not> prefix_sliding_enabled kv"

definition get_size :: "llama_kv_cache \<Rightarrow> nat option" where
  "get_size kv = do { s \<leftarrow> vec_at (kv_seq_to_stream kv) 0; c \<leftarrow> vec_at (kv_cells kv) s; Some (kc_size c) }"

definition get_has_shift :: "llama_kv_cache \<Rightarrow> bool option" where
  "get_has_shift kv =
     fold_opt (\<lambda>s r. do { c \<leftarrow> vec_at (kv_cells kv) s; Some (r \<or> kc_has_shift c) }) [0..<kv_n_stream kv] False"

definition prefix_sliding_size :: "llama_kv_cache \<Rightarrow> nat \<Rightarrow> nat option" where
  "prefix_sliding_size kv s = do {
     check (prefix_sliding_enabled kv); pe \<leftarrow> vec_at (kv_prefix_end kv) s;
     let active = nat (max 0 pe) + kv_window kv - 1 + kv_n_ubatch kv;
     n \<leftarrow> get_size kv; Some (min n (GGML_PAD active (kv_n_pad kv))) }"

text \<open>\<open>llama_hparams::is_masked_swa\<close> with the window of this cache.\<close>

definition is_masked_swa :: "llama_kv_cache \<Rightarrow> int \<Rightarrow> int \<Rightarrow> bool option" where
  "is_masked_swa kv p0 p1 = do {
     check (p0 \<ge> 0 \<and> p1 \<ge> 0);
     (case kv_swa_type kv of
        LLAMA_SWA_TYPE_NONE \<Rightarrow> Some False
      | LLAMA_SWA_TYPE_STANDARD \<Rightarrow> Some (p1 - p0 \<ge> to_i32 (kv_n_swa kv))
      | LLAMA_SWA_TYPE_CHUNKED \<Rightarrow> do { check (kv_n_swa kv \<noteq> 0); Some (p0 < p1 div int (kv_n_swa kv) * int (kv_n_swa kv)) }
      | LLAMA_SWA_TYPE_SYMMETRIC \<Rightarrow>
          (let half = c_div (to_i32 (kv_n_swa kv)) 2; d = p1 - p0 in Some (d < - half \<or> d > half))) }"

text \<open>The counter of a mean is the last element of its row.\<close>

definition reset_k_mean :: "nat \<Rightarrow> llama_kv_cache \<Rightarrow> llama_kv_cache" where
  "reset_k_mean s kv = kv\<lparr>kv_layers := map (\<lambda>l. case layer_k_mean l of None \<Rightarrow> l
     | Some rows \<Rightarrow> l\<lparr>layer_k_mean := Some (rows[s := (rows ! s)[length (rows ! s) - 1 := 0]])\<rparr>) (kv_layers kv)\<rparr>"

definition clear_layer :: "kv_layer \<Rightarrow> kv_layer" where
  "clear_layer l = l\<lparr>layer_k := map (map (\<lambda>_. 0)) (layer_k l), layer_v := map (map (\<lambda>_. 0)) (layer_v l),
     layer_k_mean := map_option (map (map (\<lambda>_. 0))) (layer_k_mean l)\<rparr>"

text \<open>
  The loops over the cells of a stream that look for the first cell they free: \<open>f\<close> handles one cell
  and says whether it became free. \<open>new_head\<close> is \<open>size\<close> until there is one.
\<close>

definition cell_loop :: "(nat \<Rightarrow> llama_kv_cells \<Rightarrow> (bool \<times> llama_kv_cells) option) \<Rightarrow> llama_kv_cells \<Rightarrow> (nat \<times> llama_kv_cells) option" where
  "cell_loop f c = fold_opt (\<lambda>i (new_head, c). do {
       (freed, c) \<leftarrow> f i c;
       Some (if freed \<and> new_head = kc_size c then i else new_head, c) })
     [0..<kc_size c] (kc_size c, c)"

definition lower_head :: "nat \<Rightarrow> nat \<Rightarrow> nat \<Rightarrow> nat" where
  "lower_head new_head n head = (if new_head \<noteq> n \<and> new_head < head then new_head else head)"

definition loop_stream ::
    "(nat \<Rightarrow> llama_kv_cells \<Rightarrow> (bool \<times> llama_kv_cells) option) \<Rightarrow> nat \<Rightarrow> llama_kv_cache \<Rightarrow> llama_kv_cache option" where
  "loop_stream f s kv = do {
     c \<leftarrow> vec_at (kv_cells kv) s; head \<leftarrow> vec_at (kv_heads kv) s;
     (new_head, c) \<leftarrow> cell_loop f c;
     Some (kv\<lparr>kv_cells := (kv_cells kv)[s := c], kv_heads := (kv_heads kv)[s := lower_head new_head (kc_size c) head]\<rparr>) }"

section \<open>Operations on sequences\<close>

definition kv_clear :: "bool \<Rightarrow> llama_kv_cache \<Rightarrow> llama_kv_cache option" where
  "kv_clear data kv = do {
     kv \<leftarrow> fold_opt (\<lambda>s kv. do {
         c \<leftarrow> vec_at (kv_cells kv) s; check (s < length (kv_heads kv));
         let kv = kv\<lparr>kv_cells := (kv_cells kv)[s := kc_reset c], kv_heads := (kv_heads kv)[s := 0]\<rparr>;
         Some (if data then kv else reset_k_mean s kv) }) [0..<kv_n_stream kv] kv;
     let kv = kv\<lparr>kv_prefix_end := map (\<lambda>_. -1) (kv_prefix_end kv)\<rparr>;
     Some (if data then kv\<lparr>kv_layers := map clear_layer (kv_layers kv)\<rparr> else kv) }"

definition seq_rm_cell :: "int \<Rightarrow> int \<Rightarrow> int \<Rightarrow> nat \<Rightarrow> llama_kv_cells \<Rightarrow> (bool \<times> llama_kv_cells) option" where
  "seq_rm_cell s p0 p1 i c = do {
     inside \<leftarrow> kc_pos_in c i p0 p1;
     if \<not> inside then Some (False, c)
     else do { has \<leftarrow> kc_seq_has c i s; if has then kc_seq_rm i s c else Some (False, c) } }"

definition rm_cell :: "int \<Rightarrow> int \<Rightarrow> nat \<Rightarrow> llama_kv_cells \<Rightarrow> (bool \<times> llama_kv_cells) option" where
  "rm_cell p0 p1 i c = do {
     inside \<leftarrow> kc_pos_in c i p0 p1;
     if \<not> inside then Some (False, c) else do { c \<leftarrow> kc_rm i c; Some (True, c) } }"

definition trim_prefix :: "int \<Rightarrow> int \<Rightarrow> int \<Rightarrow> int" where
  "trim_prefix p0 p1 pe = (if p0 < p1 \<and> pe \<ge> 0 \<and> p0 < pe then p0 else pe)"

text \<open>The prefix boundaries after a removal; \<open>p0\<close> and \<open>p1\<close> are already normalised.\<close>

definition rm_prefix :: "int \<Rightarrow> bool \<Rightarrow> int \<Rightarrow> int \<Rightarrow> llama_kv_cache \<Rightarrow> llama_kv_cache" where
  "rm_prefix s remove_all p0 p1 kv =
     (if \<not> prefix_sliding_enabled kv then kv
      else if s \<ge> 0 then kv\<lparr>kv_prefix_end := (kv_prefix_end kv)[nat s :=
             if remove_all then -1 else trim_prefix p0 p1 (kv_prefix_end kv ! nat s)]\<rparr>
      else kv\<lparr>kv_prefix_end := map (\<lambda>pe. if remove_all then -1 else trim_prefix p0 p1 pe) (kv_prefix_end kv)\<rparr>)"

definition pos_first :: "int \<Rightarrow> int" where
  "pos_first p0 = (if p0 < 0 then 0 else p0)"

definition pos_last :: "int \<Rightarrow> int" where
  "pos_last p1 = (if p1 < 0 then LLAMA_POS_MAX else p1)"

definition kv_seq_rm :: "int \<Rightarrow> int \<Rightarrow> int \<Rightarrow> llama_kv_cache \<Rightarrow> llama_kv_cache option" where
  "kv_seq_rm s p0 p1 kv = do {
     check (s = -1 \<or> s \<ge> 0 \<and> nat s < length (kv_seq_to_stream kv));
     let remove_all = (p0 \<le> 0 \<and> p1 < 0);
     let p0 = pos_first p0;
     let p1 = pos_last p1;
     let kv = rm_prefix s remove_all p0 p1 kv;
     if s \<ge> 0 then do {
       st \<leftarrow> stream_of kv s;
       kv \<leftarrow> loop_stream (seq_rm_cell s p0 p1) st kv;
       c \<leftarrow> vec_at (kv_cells kv) st;
       Some (if remove_all \<and> kc_get_used c = 0 then reset_k_mean st kv else kv) }
     else fold_opt (\<lambda>st kv. do {
         kv \<leftarrow> loop_stream (rm_cell p0 p1) st kv;
         Some (if remove_all then reset_k_mean st kv else kv) }) [0..<kv_n_stream kv] kv }"

text \<open>\<open>seq_cp\<close> within one stream and across streams.\<close>

definition seq_cp_cell :: "int \<Rightarrow> int \<Rightarrow> int \<Rightarrow> int \<Rightarrow> nat \<Rightarrow> llama_kv_cells \<Rightarrow> (bool \<times> llama_kv_cells) option" where
  "seq_cp_cell src dst p0 p1 i c = do {
     inside \<leftarrow> kc_pos_in c i p0 p1;
     if \<not> inside then Some (False, c)
     else do { has \<leftarrow> kc_seq_has c i src;
       if has then do { c \<leftarrow> kc_seq_add i dst c; Some (False, c) } else Some (False, c) } }"

definition cross_copy_cell :: "llama_kv_cells \<Rightarrow> int \<Rightarrow> int \<Rightarrow> nat \<Rightarrow> llama_kv_cells \<Rightarrow> llama_kv_cells option" where
  "cross_copy_cell c0 src dst i c = do {
     has \<leftarrow> kc_seq_has c0 i src;
     if \<not> has then Some c
     else do {
       pos \<leftarrow> kc_pos_get c0 i; shift \<leftarrow> kc_get_shift c0 i;
       pos \<leftarrow> (if shift \<noteq> 0 then do { p \<leftarrow> s32 (pos - shift); check (p \<ge> 0); Some p } else Some pos);
       c \<leftarrow> kc_pos_set i pos c; c \<leftarrow> kc_seq_add i dst c;
       if shift \<noteq> 0 then do { (_, c) \<leftarrow> kc_pos_add i shift c; Some c } else Some c } }"

definition kv_seq_cp :: "int \<Rightarrow> int \<Rightarrow> int \<Rightarrow> int \<Rightarrow> llama_kv_cache \<Rightarrow> llama_kv_cache option" where
  "kv_seq_cp src dst p0 p1 kv = do {
     s0 \<leftarrow> stream_of kv src; s1 \<leftarrow> stream_of kv dst;
     if prefix_sliding_enabled kv \<and> \<not> (p0 \<le> 0 \<and> p1 < 0) then Some kv
     else do {
       kv \<leftarrow> (if prefix_sliding_enabled kv then do {
           pe \<leftarrow> vec_at (kv_prefix_end kv) (nat src); check (nat dst < length (kv_prefix_end kv));
           Some (kv\<lparr>kv_prefix_end := (kv_prefix_end kv)[nat dst := pe]\<rparr>) } else Some kv);
       if s0 = s1 then
         (if src = dst then Some kv
          else do {
            c \<leftarrow> vec_at (kv_cells kv) s0;
            (_, c) \<leftarrow> cell_loop (seq_cp_cell src dst (pos_first p0) (pos_last p1)) c;
            Some (kv\<lparr>kv_cells := (kv_cells kv)[s0 := c]\<rparr>) })
       else do {
         n \<leftarrow> get_size kv;
         check (\<not> (p0 > 0 \<and> p0 + 1 < int n) \<and> \<not> (p1 > 0 \<and> p1 + 1 < int n));
         c0 \<leftarrow> vec_at (kv_cells kv) s0; c1 \<leftarrow> vec_at (kv_cells kv) s1;
         c1 \<leftarrow> fold_opt (cross_copy_cell c0 src dst) [0..<kc_size c0] (kc_reset c1);
         h0 \<leftarrow> vec_at (kv_heads kv) s0; check (s1 < length (kv_heads kv));
         Some (kv\<lparr>kv_sc_info := \<lparr>ssrc = ssrc (kv_sc_info kv) @ [s0], sdst = sdst (kv_sc_info kv) @ [s1]\<rparr>,
           kv_cells := (kv_cells kv)[s1 := c1], kv_heads := (kv_heads kv)[s1 := h0]\<rparr>) } } }"

definition kv_seq_keep :: "int \<Rightarrow> llama_kv_cache \<Rightarrow> llama_kv_cache option" where
  "kv_seq_keep s kv = do {
     keep \<leftarrow> stream_of kv s;
     if prefix_sliding_enabled kv then do {
       kv \<leftarrow> fold_opt (\<lambda>st kv. do {
           kv \<leftarrow> loop_stream (\<lambda>i. kc_seq_keep i s) st kv;
           Some (if st \<noteq> keep then reset_k_mean st kv else kv) }) [0..<kv_n_stream kv] kv;
       Some (kv\<lparr>kv_prefix_end := map (\<lambda>cur. if int cur \<noteq> s then -1 else kv_prefix_end kv ! cur) [0..<length (kv_prefix_end kv)]\<rparr>) }
     else loop_stream (\<lambda>i. kc_seq_keep i s) keep kv }"

definition kv_seq_set_prefix :: "int \<Rightarrow> int \<Rightarrow> llama_kv_cache \<Rightarrow> bool \<times> llama_kv_cache" where
  "kv_seq_set_prefix s prefix_end kv =
     (if \<not> prefix_sliding_enabled kv \<or> s < 0 \<or> nat s \<ge> length (kv_seq_to_stream kv) \<or> prefix_end < 0 \<or>
         prefix_end > to_i32 (kv_prefix_cap kv)
      then (False, kv) else (True, kv\<lparr>kv_prefix_end := (kv_prefix_end kv)[nat s := prefix_end]\<rparr>))"

definition kv_seq_get_prefix :: "int \<Rightarrow> llama_kv_cache \<Rightarrow> int" where
  "kv_seq_get_prefix s kv =
     (if \<not> prefix_sliding_enabled kv \<or> s < 0 \<or> nat s \<ge> length (kv_seq_to_stream kv) then -1 else kv_prefix_end kv ! nat s)"

definition seq_add_cell :: "int \<Rightarrow> int \<Rightarrow> int \<Rightarrow> int \<Rightarrow> nat \<Rightarrow> llama_kv_cells \<Rightarrow> (bool \<times> llama_kv_cells) option" where
  "seq_add_cell s p0 p1 shift i c = do {
     inside \<leftarrow> kc_pos_in c i p0 p1;
     if \<not> inside then Some (False, c)
     else do { has \<leftarrow> kc_seq_has c i s; if has then kc_pos_add i shift c else Some (False, c) } }"

definition kv_seq_add :: "int \<Rightarrow> int \<Rightarrow> int \<Rightarrow> int \<Rightarrow> llama_kv_cache \<Rightarrow> llama_kv_cache option" where
  "kv_seq_add s p0 p1 shift kv = do {
     st \<leftarrow> stream_of kv s;
     if prefix_sliding_enabled kv \<or> shift = 0 \<or> pos_first p0 = pos_last p1 then Some kv
     else do {
       c \<leftarrow> vec_at (kv_cells kv) st; check (st < length (kv_heads kv));
       (new_head, c) \<leftarrow> cell_loop (seq_add_cell s (pos_first p0) (pos_last p1) shift) c;
       Some (kv\<lparr>kv_cells := (kv_cells kv)[st := c],
         kv_heads := (kv_heads kv)[st := if new_head \<noteq> kc_size c then new_head else 0]\<rparr>) } }"

definition seq_div_cell :: "int \<Rightarrow> int \<Rightarrow> int \<Rightarrow> int \<Rightarrow> nat \<Rightarrow> llama_kv_cells \<Rightarrow> (bool \<times> llama_kv_cells) option" where
  "seq_div_cell s p0 p1 d i c = do {
     inside \<leftarrow> kc_pos_in c i p0 p1;
     if \<not> inside then Some (False, c)
     else do { has \<leftarrow> kc_seq_has c i s;
       if has then do { c \<leftarrow> kc_pos_div i d c; Some (False, c) } else Some (False, c) } }"

definition kv_seq_div :: "int \<Rightarrow> int \<Rightarrow> int \<Rightarrow> int \<Rightarrow> llama_kv_cache \<Rightarrow> llama_kv_cache option" where
  "kv_seq_div s p0 p1 d kv = do {
     st \<leftarrow> stream_of kv s;
     if prefix_sliding_enabled kv \<or> d = 1 \<or> pos_first p0 = pos_last p1 then Some kv
     else do {
       c \<leftarrow> vec_at (kv_cells kv) st;
       (_, c) \<leftarrow> cell_loop (seq_div_cell s (pos_first p0) (pos_last p1) d) c;
       Some (kv\<lparr>kv_cells := (kv_cells kv)[st := c]\<rparr>) } }"

definition kv_seq_pos_min :: "int \<Rightarrow> llama_kv_cache \<Rightarrow> int option" where
  "kv_seq_pos_min s kv = do { st \<leftarrow> stream_of kv s; c \<leftarrow> vec_at (kv_cells kv) st; kc_seq_pos_min c s }"

definition kv_seq_pos_max :: "int \<Rightarrow> llama_kv_cache \<Rightarrow> int option" where
  "kv_seq_pos_max s kv = do { st \<leftarrow> stream_of kv s; c \<leftarrow> vec_at (kv_cells kv) st; kc_seq_pos_max c s }"

section \<open>Pending stream copies and the K-shift\<close>

text \<open>\<open>ggml_backend_tensor_copy\<close> of the tensors of a stream.\<close>

definition copy_stream :: "nat \<Rightarrow> nat \<Rightarrow> kv_layer \<Rightarrow> kv_layer" where
  "copy_stream src dst l = l\<lparr>layer_k := (layer_k l)[dst := layer_k l ! src], layer_v := (layer_v l)[dst := layer_v l ! src],
     layer_k_mean := map_option (\<lambda>rows. rows[dst := rows ! src]) (layer_k_mean l)\<rparr>"

definition apply_copies :: "stream_copy_info \<Rightarrow> llama_kv_cache \<Rightarrow> llama_kv_cache option" where
  "apply_copies sc kv = fold_opt (\<lambda>i kv. do {
       src \<leftarrow> vec_at (ssrc sc) i; dst \<leftarrow> vec_at (sdst sc) i;
       check (src < kv_n_stream kv); check (dst < kv_n_stream kv); check (src \<noteq> dst);
       Some (kv\<lparr>kv_layers := map (copy_stream src dst) (kv_layers kv)\<rparr>) }) [0..<length (ssrc sc)] kv"

text \<open>\<open>shift_graph\<close> computes the graph of a K-shift on the layers; \<open>None\<close> when it cannot be allocated or computed.\<close>

definition kv_update ::
    "(llama_kv_cache \<Rightarrow> kv_layer list option) \<Rightarrow> bool \<Rightarrow> bool \<Rightarrow> stream_copy_info \<Rightarrow> llama_kv_cache \<Rightarrow> (bool \<times> llama_kv_cache) option" where
  "kv_update shift_graph rope do_shift sc kv = do {
     none \<leftarrow> sc_empty sc;
     kv \<leftarrow> (if none then Some kv else do { check (kv_n_stream kv > 1); apply_copies sc kv });
     if \<not> do_shift then Some (False, kv)
     else do {
       check (get_can_shift kv);
       let cleared = (\<lambda>kv. fold_opt (\<lambda>s kv. do { c \<leftarrow> vec_at (kv_cells kv) s;
             Some (kv\<lparr>kv_cells := (kv_cells kv)[s := kc_reset_shift c]\<rparr>) }) [0..<kv_n_stream kv] kv);
       if rope then (case shift_graph kv of None \<Rightarrow> Some (False, kv)
          | Some ls \<Rightarrow> do { kv \<leftarrow> cleared (kv\<lparr>kv_layers := ls\<rparr>); Some (True, kv) })
       else do { kv \<leftarrow> cleared kv; Some (False, kv) } } }"

end
