(* ===== verification/KV_Slots.thy ===== *)
theory KV_Slots
  imports KV_Cache Batch
begin

text \<open>
  The KV cache and micro batches (\<open>src/llama-kv-cache.cpp\<close>): finding cells for a micro batch
  (\<open>find_slot\<close>), writing its tokens (\<open>apply_ubatch\<close>), preparing a list of micro batches (\<open>prepare\<close>), the context
  object that applies them one after the other, and the index and mask inputs of the graph.

  The search loop is a partial function, as the C++ loop is unbounded in its text; that it ends is proved
  in \<open>KV_Find\<close>.
\<close>

section \<open>Slots\<close>

record slot_info =
  slot_s0 :: nat
  slot_s1 :: nat
  slot_strm :: "nat list"
  slot_idxs :: "nat list list"

definition slot_none :: slot_info where
  "slot_none = \<lparr>slot_s0 = 0, slot_s1 = 0, slot_strm = [], slot_idxs = []\<rparr>"

definition slot_empty :: "slot_info \<Rightarrow> bool" where
  "slot_empty sl \<longleftrightarrow> slot_idxs sl = []"

definition slot_size :: "slot_info \<Rightarrow> nat option" where
  "slot_size sl = do { check (length (slot_idxs sl) = length (slot_strm sl)); check (slot_idxs sl \<noteq> []); Some (length (hd (slot_idxs sl))) }"

definition slot_n_stream :: "slot_info \<Rightarrow> nat" where
  "slot_n_stream sl = length (slot_strm sl)"

definition slot_head :: "slot_info \<Rightarrow> nat option" where
  "slot_head sl = do { check (length (slot_idxs sl) = 1); check (hd (slot_idxs sl) \<noteq> []); Some (hd (hd (slot_idxs sl))) }"

section \<open>Finding a slot\<close>

text \<open>Whether cell \<open>idx\<close> may take a token of sequence \<open>s\<close>; \<open>lo\<close> is the least incoming position.\<close>

definition cell_usable :: "llama_kv_cache \<Rightarrow> llama_kv_cells \<Rightarrow> nat \<Rightarrow> int \<Rightarrow> int \<Rightarrow> nat \<Rightarrow> bool option" where
  "cell_usable kv c s prefix_end lo idx = do {
     e \<leftarrow> kc_is_empty c idx;
     if e then Some True
     else do {
       n \<leftarrow> kc_seq_count c idx;
       if n \<noteq> 1 then Some False
       else do {
         p \<leftarrow> kc_pos_get c idx; owner \<leftarrow> kc_seq_get c idx;
         if prefix_sliding_enabled kv \<and> owner = int s \<and> p \<ge> prefix_end \<and> p < lo - to_i32 (kv_window kv) + 1 then Some True
         else do { m \<leftarrow> kc_seq_pos_max c owner; p1 \<leftarrow> s32 (m + 1); is_masked_swa kv p p1 } } } }"

text \<open>The inner loop over \<open>n_test\<close> cells from \<open>head\<close>; it also counts the cells tested.\<close>

primrec test_cells :: "(nat \<Rightarrow> bool option) \<Rightarrow> bool \<Rightarrow> nat \<Rightarrow> nat \<times> nat \<times> nat list \<Rightarrow> (nat \<times> nat \<times> nat list) option" where
  "test_cells can_use cont 0 st = Some st"
| "test_cells can_use cont (Suc n) st =
     (case st of (head, tested, acc) \<Rightarrow> do {
        use \<leftarrow> can_use head;
        if use then test_cells can_use cont n (head + 1, tested + 1, acc @ [head])
        else if cont then Some (head + 1, tested + 1, acc)
        else test_cells can_use cont n (head + 1, tested + 1, acc) })"

partial_function (option) slot_loop ::
    "(nat \<Rightarrow> bool option) \<Rightarrow> bool \<Rightarrow> nat \<Rightarrow> nat \<Rightarrow> nat \<Rightarrow> nat \<Rightarrow> nat list \<Rightarrow> nat list option option" where
  "slot_loop can_use cont n_tokens usable head tested acc =
     (let n_test = (if cont then n_tokens else 1) in
      if head + n_test > usable then slot_loop can_use cont n_tokens usable 0 (tested + (usable - head)) acc
      else Option.bind (test_cells can_use cont n_test (head, tested, acc)) (\<lambda>(head, tested, acc).
        if length acc = n_tokens then Some (Some acc)
        else let acc = (if cont then [] else acc) in
          if tested \<ge> usable then Some None else slot_loop can_use cont n_tokens usable head tested acc))"

text \<open>One sequence of the micro batch: its stream and the cells found.\<close>

definition find_seq :: "llama_kv_cache \<Rightarrow> 'f llama_ubatch \<Rightarrow> bool \<Rightarrow> nat \<Rightarrow> nat \<Rightarrow> (nat \<times> nat list option) option" where
  "find_seq kv ub cont n_tokens s = do {
     sid \<leftarrow> vec_at (ub_seq_id_unq ub) s;
     (if kv_n_stream kv > 1 then do {
        n \<leftarrow> vec_at (ub_n_seq_id ub) (s * n_tokens); check (n = 1);
        row \<leftarrow> vec_at (ub_seq_id ub) (s * n_tokens); r \<leftarrow> vec_at row 0; check (r = int sid) } else Some ());
     st \<leftarrow> vec_at (kv_seq_to_stream kv) sid;
     c \<leftarrow> vec_at (kv_cells kv) st;
     prefix_end \<leftarrow> (if prefix_sliding_enabled kv then vec_at (kv_prefix_end kv) sid else Some (-1));
     if prefix_sliding_enabled kv \<and> prefix_end < 0 then Some (st, None)
     else do {
       lo \<leftarrow> fold_opt (\<lambda>i m. do { p \<leftarrow> vec_at (ub_pos ub) (s * n_tokens + i); Some (min m p) }) [0..<n_tokens] LLAMA_POS_MAX;
       usable \<leftarrow> (if prefix_sliding_enabled kv then prefix_sliding_size kv sid else Some (kc_size c));
       head \<leftarrow> vec_at (kv_heads kv) st;
       let head = (if head \<ge> usable then 0 else head);
       let head = (if head > kc_get_used c + 2 * n_tokens then 0 else head);
       if n_tokens > usable then Some (st, None)
       else do {
         r \<leftarrow> slot_loop (cell_usable kv c sid prefix_end lo) cont n_tokens usable head 0 [];
         Some (st, r) } } }"

primrec find_seqs ::
    "llama_kv_cache \<Rightarrow> 'f llama_ubatch \<Rightarrow> bool \<Rightarrow> nat \<Rightarrow> nat list \<Rightarrow> slot_info \<Rightarrow> slot_info option" where
  "find_seqs kv ub cont n_tokens [] res = do { check (slot_s1 res \<ge> slot_s0 res); Some res }"
| "find_seqs kv ub cont n_tokens (s # ss) res = do {
     (st, r) \<leftarrow> find_seq kv ub cont n_tokens s;
     (case r of None \<Rightarrow> Some slot_none
      | Some idxs \<Rightarrow> find_seqs kv ub cont n_tokens ss
          \<lparr>slot_s0 = min (slot_s0 res) st, slot_s1 = max (slot_s1 res) st,
           slot_strm = (slot_strm res)[s := st], slot_idxs = (slot_idxs res)[s := idxs]\<rparr>) }"

definition find_slot :: "'f llama_ubatch \<Rightarrow> bool \<Rightarrow> llama_kv_cache \<Rightarrow> slot_info option" where
  "find_slot ub cont kv = do {
     (n_seqs, n_tokens) \<leftarrow> (if kv_n_stream kv > 1 then do {
         check (ub_n_seqs_unq ub \<noteq> 0 \<and> ub_n_tokens ub mod ub_n_seqs_unq ub = 0);
         Some (ub_n_seqs_unq ub, ub_n_tokens ub div ub_n_seqs_unq ub) } else Some (1, ub_n_tokens ub));
     find_seqs kv ub cont n_tokens [0..<n_seqs]
       \<lparr>slot_s0 = LLAMA_MAX_SEQ, slot_s1 = 0, slot_strm = replicate n_seqs 0, slot_idxs = replicate n_seqs []\<rparr> }"

section \<open>Writing a micro batch\<close>

text \<open>Token \<open>i\<close> of the micro batch goes to cell \<open>idx\<close> of stream \<open>st\<close>; \<open>mx\<close> is \<open>seq_pos_max_rm\<close>.\<close>

definition put_token :: "bool \<Rightarrow> 'f llama_ubatch \<Rightarrow> nat \<Rightarrow> nat \<Rightarrow> llama_kv_cells \<times> (nat \<Rightarrow> int) \<Rightarrow> (llama_kv_cells \<times> (nat \<Rightarrow> int)) option" where
  "put_token sliding ub i idx = (\<lambda>(c, mx). do {
     e \<leftarrow> kc_is_empty c idx;
     (c, mx) \<leftarrow> (if e then Some (c, mx)
       else do {
         n \<leftarrow> kc_seq_count c idx; check (n = 1);
         owner \<leftarrow> kc_seq_get c idx; p \<leftarrow> kc_pos_get c idx;
         c \<leftarrow> kc_rm idx c;
         Some (c, if sliding then mx else mx(nat owner := max (mx (nat owner)) p)) });
     p \<leftarrow> vec_at (ub_pos ub) i; c \<leftarrow> kc_pos_set idx p c;
     n \<leftarrow> vec_at (ub_n_seq_id ub) i; row \<leftarrow> vec_at (ub_seq_id ub) i;
     c \<leftarrow> fold_opt (\<lambda>k c. do { s \<leftarrow> vec_at row k; kc_seq_add idx s c }) [0..<nat n] c;
     Some (c, mx) })"

definition put_stream :: "slot_info \<Rightarrow> 'f llama_ubatch \<Rightarrow> nat \<Rightarrow> nat \<Rightarrow> llama_kv_cache \<times> (nat \<Rightarrow> int) \<Rightarrow> (llama_kv_cache \<times> (nat \<Rightarrow> int)) option" where
  "put_stream sl ub sz s = (\<lambda>(kv, mx). do {
     st \<leftarrow> vec_at (slot_strm sl) s; idxs \<leftarrow> vec_at (slot_idxs sl) s; c \<leftarrow> vec_at (kv_cells kv) st;
     (c, mx) \<leftarrow> fold_opt (\<lambda>ii a. do { idx \<leftarrow> vec_at idxs ii; put_token (prefix_sliding_enabled kv) ub (s * sz + ii) idx a })
       [0..<sz] (c, mx);
     Some (kv\<lparr>kv_cells := (kv_cells kv)[st := c]\<rparr>, mx) })"

text \<open>The positions of a sequence below an overwritten one are purged.\<close>

definition purge_seq :: "(nat \<Rightarrow> int) \<Rightarrow> nat \<Rightarrow> llama_kv_cache \<Rightarrow> llama_kv_cache option" where
  "purge_seq mx s kv =
     (if mx s = -1 then Some kv
      else do {
        st \<leftarrow> vec_at (kv_seq_to_stream kv) s; c \<leftarrow> vec_at (kv_cells kv) st;
        lo \<leftarrow> kc_seq_pos_min c (int s);
        if lo \<le> mx s then do { hi \<leftarrow> s32 (mx s + 1); kv_seq_rm (int s) lo hi kv } else Some kv })"

definition move_head :: "slot_info \<Rightarrow> nat \<Rightarrow> llama_kv_cache \<Rightarrow> llama_kv_cache option" where
  "move_head sl s kv = do {
     st \<leftarrow> vec_at (slot_strm sl) s; idxs \<leftarrow> vec_at (slot_idxs sl) s;
     check (st < length (kv_heads kv)); check (idxs \<noteq> []);
     Some (kv\<lparr>kv_heads := (kv_heads kv)[st := last idxs + 1]\<rparr>) }"

definition apply_ubatch :: "slot_info \<Rightarrow> 'f llama_ubatch \<Rightarrow> llama_kv_cache \<Rightarrow> llama_kv_cache option" where
  "apply_ubatch sl ub kv = do {
     sz \<leftarrow> slot_size sl;
     check (ub_n_tokens ub = slot_n_stream sl * sz);
     (kv, mx) \<leftarrow> fold_opt (put_stream sl ub sz) [0..<slot_n_stream sl] (kv, \<lambda>_. -1);
     kv \<leftarrow> (if prefix_sliding_enabled kv then Some kv else fold_opt (purge_seq mx) [0..<LLAMA_MAX_SEQ] kv);
     fold_opt (move_head sl) [0..<slot_n_stream sl] kv }"

section \<open>Preparing micro batches\<close>

record slot_state =
  ss_sinfo :: slot_info
  ss_heads :: "nat list"
  ss_cells :: "llama_kv_cells list"

definition save_state :: "slot_info \<Rightarrow> llama_kv_cache \<Rightarrow> slot_state option" where
  "save_state sl kv = do {
     cs \<leftarrow> fold_opt (\<lambda>s cs. do {
         st \<leftarrow> vec_at (slot_strm sl) s; idxs \<leftarrow> vec_at (slot_idxs sl) s; c \<leftarrow> vec_at (kv_cells kv) st;
         o' \<leftarrow> kc_cp_list c idxs; Some (cs @ [o']) }) [0..<slot_n_stream sl] [];
     Some \<lparr>ss_sinfo = sl, ss_heads = kv_heads kv, ss_cells = cs\<rparr> }"

definition restore_state :: "slot_state \<Rightarrow> llama_kv_cache \<Rightarrow> llama_kv_cache option" where
  "restore_state sv kv = fold_opt (\<lambda>s kv. do {
       st \<leftarrow> vec_at (slot_strm (ss_sinfo sv)) s; idxs \<leftarrow> vec_at (slot_idxs (ss_sinfo sv)) s;
       c \<leftarrow> vec_at (kv_cells kv) st; check (st < length (kv_heads kv));
       o' \<leftarrow> vec_at (ss_cells sv) s; c \<leftarrow> kc_set_list idxs o' c;
       h \<leftarrow> vec_at (ss_heads sv) st;
       Some (kv\<lparr>kv_cells := (kv_cells kv)[st := c], kv_heads := (kv_heads kv)[st := h]\<rparr>) })
     [0..<slot_n_stream (ss_sinfo sv)] kv"

text \<open>The loop over the micro batches; the flag is \<open>success\<close>.\<close>

primrec place_ubatches ::
    "'f llama_ubatch list \<Rightarrow> slot_info list \<Rightarrow> slot_state list \<Rightarrow> llama_kv_cache \<Rightarrow>
     (bool \<times> slot_info list \<times> slot_state list \<times> llama_kv_cache) option" where
  "place_ubatches [] res states kv = Some (True, res, states, kv)"
| "place_ubatches (ub # ubs) res states kv = do {
     sl \<leftarrow> find_slot ub False kv;
     if slot_empty sl then Some (False, res, states, kv)
     else do {
       sv \<leftarrow> save_state sl kv;
       kv \<leftarrow> apply_ubatch sl ub kv;
       place_ubatches ubs (res @ [sl]) (states @ [sv]) kv } }"

definition prepare :: "'f llama_ubatch list \<Rightarrow> llama_kv_cache \<Rightarrow> (slot_info list \<times> llama_kv_cache) option" where
  "prepare ubs kv = do {
     (success, res, states, kv) \<leftarrow> place_ubatches ubs [] [] kv;
     check (states \<noteq> [] \<or> \<not> success);
     kv \<leftarrow> fold_opt restore_state (rev states) kv;
     Some (if success then res else [], kv) }"

definition get_n_kv :: "slot_info \<Rightarrow> llama_kv_cache \<Rightarrow> nat option" where
  "get_n_kv sl kv = fold_opt (\<lambda>s r. do {
       st \<leftarrow> vec_at (slot_strm sl) s; c \<leftarrow> vec_at (kv_cells kv) st;
       Some (max (min (kc_size c) (max (kv_n_pad kv) (GGML_PAD (kc_used_max_p1 c) (kv_n_pad kv)))) r) })
     [0..<slot_n_stream sl] 0"

section \<open>The context of a batch\<close>

datatype llama_memory_status =
    LLAMA_MEMORY_STATUS_SUCCESS | LLAMA_MEMORY_STATUS_NO_UPDATE
  | LLAMA_MEMORY_STATUS_FAILED_PREPARE | LLAMA_MEMORY_STATUS_FAILED_COMPUTE

fun llama_memory_status_is_fail :: "llama_memory_status \<Rightarrow> bool" where
  "llama_memory_status_is_fail LLAMA_MEMORY_STATUS_SUCCESS = False"
| "llama_memory_status_is_fail LLAMA_MEMORY_STATUS_NO_UPDATE = False"
| "llama_memory_status_is_fail LLAMA_MEMORY_STATUS_FAILED_PREPARE = True"
| "llama_memory_status_is_fail LLAMA_MEMORY_STATUS_FAILED_COMPUTE = True"

record 'f llama_kv_cache_context =
  ctx_status :: llama_memory_status
  ctx_do_shift :: bool
  ctx_sc_info :: stream_copy_info
  ctx_i_cur :: nat
  ctx_sinfos :: "slot_info list"
  ctx_ubatches :: "'f llama_ubatch list"
  ctx_n_kv :: nat

definition context_of :: "llama_memory_status \<Rightarrow> 'f llama_kv_cache_context" where
  "context_of status = \<lparr>ctx_status = status, ctx_do_shift = False, ctx_sc_info = \<lparr>ssrc = [], sdst = []\<rparr>, ctx_i_cur = 0,
     ctx_sinfos = [], ctx_ubatches = [], ctx_n_kv = 0\<rparr>"

definition init_batch ::
    "nat \<Rightarrow> 'f llama_batch_allocr \<Rightarrow> llama_kv_cache \<Rightarrow>
     ('f llama_kv_cache_context \<times> 'f llama_batch_allocr \<times> llama_kv_cache) option" where
  "init_batch n_ubatch balloc kv = do {
     (ubs, balloc) \<leftarrow> split_all (if kv_n_stream kv = 1 then split_simple n_ubatch else split_equal n_ubatch True) (split_reset balloc);
     if al_n_used balloc < al_n_tokens balloc then Some (context_of LLAMA_MEMORY_STATUS_FAILED_PREPARE, balloc, kv)
     else do {
       (sinfos, kv) \<leftarrow> prepare ubs kv;
       Some (if sinfos = [] then context_of LLAMA_MEMORY_STATUS_FAILED_PREPARE
             else (context_of LLAMA_MEMORY_STATUS_SUCCESS)\<lparr>ctx_sinfos := sinfos, ctx_ubatches := ubs\<rparr>, balloc, kv) } }"

definition init_full :: "llama_kv_cache \<Rightarrow> 'f llama_kv_cache_context option" where
  "init_full kv = do {
     n \<leftarrow> get_size kv;
     Some ((context_of LLAMA_MEMORY_STATUS_SUCCESS)\<lparr>ctx_n_kv := n, ctx_sinfos := [\<lparr>slot_s0 = 0, slot_s1 = kv_n_stream kv - 1,
       slot_strm = [0..<kv_n_stream kv], slot_idxs = replicate (kv_n_stream kv) [0]\<rparr>]\<rparr>) }"

text \<open>\<open>sc_info\<close> is moved into the context.\<close>

definition init_update :: "llama_kv_cache \<Rightarrow> ('f llama_kv_cache_context \<times> llama_kv_cache) option" where
  "init_update kv = do {
     do_shift \<leftarrow> get_has_shift kv; none \<leftarrow> sc_empty (kv_sc_info kv);
     let status = (if \<not> do_shift \<and> none then LLAMA_MEMORY_STATUS_NO_UPDATE else LLAMA_MEMORY_STATUS_SUCCESS);
     Some ((context_of status)\<lparr>ctx_do_shift := do_shift, ctx_sc_info := kv_sc_info kv\<rparr>, kv\<lparr>kv_sc_info := \<lparr>ssrc = [], sdst = []\<rparr>\<rparr>) }"

definition ctx_next :: "'f llama_kv_cache_context \<Rightarrow> (bool \<times> 'f llama_kv_cache_context) option" where
  "ctx_next cx = do {
     check (ctx_status cx = LLAMA_MEMORY_STATUS_SUCCESS);
     let cx = cx\<lparr>ctx_i_cur := ctx_i_cur cx + 1\<rparr>;
     Some (\<not> ctx_i_cur cx \<ge> length (ctx_ubatches cx), cx) }"

definition ctx_apply ::
    "(llama_kv_cache \<Rightarrow> kv_layer list option) \<Rightarrow> bool \<Rightarrow> 'f llama_kv_cache_context \<Rightarrow> llama_kv_cache \<Rightarrow>
     ('f llama_kv_cache_context \<times> llama_kv_cache) option" where
  "ctx_apply shift_graph rope cx kv = do {
     check (\<not> llama_memory_status_is_fail (ctx_status cx));
     if ctx_ubatches cx = [] then do {
       (_, kv) \<leftarrow> kv_update shift_graph rope (ctx_do_shift cx) (ctx_sc_info cx) kv; Some (cx, kv) }
     else do {
       sl \<leftarrow> vec_at (ctx_sinfos cx) (ctx_i_cur cx); ub \<leftarrow> vec_at (ctx_ubatches cx) (ctx_i_cur cx);
       kv \<leftarrow> apply_ubatch sl ub kv; n \<leftarrow> get_n_kv sl kv;
       Some (cx\<lparr>ctx_n_kv := n\<rparr>, kv) } }"

section \<open>Inputs of the graph\<close>

text \<open>The rows of the global \<open>K\<close> tensor the tokens are stored in; \<open>data\<close> is the destination tensor.\<close>

definition set_input_k_idxs :: "slot_info \<Rightarrow> 'f llama_ubatch \<Rightarrow> llama_kv_cache \<Rightarrow> (nat \<Rightarrow> nat) \<Rightarrow> (nat \<Rightarrow> nat) option" where
  "set_input_k_idxs sl ub kv data = do {
     sz \<leftarrow> slot_size sl;
     check (ub_n_tokens ub = sz * slot_n_stream sl);
     fold_opt (\<lambda>s data. do {
         st \<leftarrow> vec_at (slot_strm sl) s; n \<leftarrow> get_size kv; idxs \<leftarrow> vec_at (slot_idxs sl) s;
         fold_opt (\<lambda>i data. do { idx \<leftarrow> vec_at idxs i; Some (data(s * sz + i := st * n + idx)) }) [0..<sz] data })
       [0..<slot_n_stream sl] data }"

text \<open>The transposed \<open>V\<close> cache has a column per cell.\<close>

definition set_input_v_idxs ::
    "bool \<Rightarrow> nat \<Rightarrow> slot_info \<Rightarrow> 'f llama_ubatch \<Rightarrow> llama_kv_cache \<Rightarrow> (nat \<Rightarrow> nat) \<Rightarrow> (nat \<Rightarrow> nat) option" where
  "set_input_v_idxs v_trans n_embd sl ub kv data = do {
     sz \<leftarrow> slot_size sl;
     check (ub_n_tokens ub = sz * slot_n_stream sl);
     n \<leftarrow> get_size kv;
     fold_opt (\<lambda>s data. do {
         st \<leftarrow> vec_at (slot_strm sl) s; idxs \<leftarrow> vec_at (slot_idxs sl) s;
         fold_opt (\<lambda>i data. do { idx \<leftarrow> vec_at idxs i;
             Some (if \<not> v_trans then data(s * sz + i := st * n + idx)
               else fold (\<lambda>j data. data(s * sz * n_embd + i * n_embd + j := st * n * n_embd + j * n + idx)) [0..<n_embd] data) })
           [0..<sz] data })
       [0..<slot_n_stream sl] data }"

definition set_input_k_shift :: "llama_kv_cache \<Rightarrow> (nat \<Rightarrow> int) \<Rightarrow> (nat \<Rightarrow> int) option" where
  "set_input_k_shift kv data = fold_opt (\<lambda>s data. do {
       c \<leftarrow> vec_at (kv_cells kv) s;
       fold_opt (\<lambda>i data. do { e \<leftarrow> kc_is_empty c i; sh \<leftarrow> (if e then Some 0 else kc_get_shift c i);
           Some (data(s * kc_size c + i := sh)) }) [0..<kc_size c] data })
     [0..<kv_n_stream kv] data"

text \<open>Whether a token of sequence \<open>s\<close> at position \<open>p1\<close> attends to cell \<open>j\<close>, and from which position.\<close>

definition attends :: "llama_kv_cache \<Rightarrow> bool \<Rightarrow> llama_kv_cells \<Rightarrow> int \<Rightarrow> int \<Rightarrow> nat \<Rightarrow> int option option" where
  "attends kv causal c s p1 j = do {
     e \<leftarrow> kc_is_empty c j;
     if e then Some None
     else do {
       has \<leftarrow> kc_seq_has c j s;
       if \<not> has then Some None
       else do {
         p0 \<leftarrow> kc_pos_get c j;
         if causal \<and> p0 > p1 then Some None
         else do {
           masked \<leftarrow> is_masked_swa kv p0 p1;
           if masked then Some None
           else if prefix_sliding_enabled kv then do {
             pe \<leftarrow> vec_at (kv_prefix_end kv) (nat s);
             let window_begin = max pe (p1 - to_i32 (kv_window kv) + 1);
             Some (if p0 \<ge> pe \<and> p0 < window_begin then None else Some p0) }
           else Some (Some p0) } } } }"

definition GGML_KQ_MASK_PAD :: nat where
  "GGML_KQ_MASK_PAD = 64"

text \<open>\<open>ne\<close> are the sizes of the mask tensor; \<open>neg_inf\<close> and \<open>to_f\<close> give the floats.\<close>

definition set_input_kq_mask ::
    "'f \<Rightarrow> (int \<Rightarrow> 'f) \<Rightarrow> bool \<Rightarrow> nat \<times> nat \<times> nat \<times> nat \<Rightarrow> 'e llama_ubatch \<Rightarrow> bool \<Rightarrow> llama_kv_cache \<Rightarrow> (nat \<Rightarrow> 'f) \<Rightarrow> (nat \<Rightarrow> 'f) option" where
  "set_input_kq_mask neg_inf to_f use_alibi = (\<lambda>(n_kv, ne1, ne2, n_stream) ub causal kv data. do {
     check (n_stream \<noteq> 0 \<and> ub_n_tokens ub mod n_stream = 0);
     let n_tps = ub_n_tokens ub div n_stream;
     let n_tps_pad = GGML_PAD n_tps GGML_KQ_MASK_PAD;
     let data = (\<lambda>k. if k < n_kv * ne1 * ne2 * n_stream then neg_inf else data k);
     fold_opt (\<lambda>s. fold_opt (\<lambda>ii data. do {
         let i = s * n_tps + ii;
         row \<leftarrow> vec_at (ub_seq_id ub) i; sid \<leftarrow> vec_at row 0; st \<leftarrow> stream_of kv sid; c \<leftarrow> vec_at (kv_cells kv) st;
         p1 \<leftarrow> vec_at (ub_pos ub) i;
         let idst = n_kv * (s * n_tps_pad + ii);
         fold_opt (\<lambda>j data. do { a \<leftarrow> attends kv causal c sid p1 j;
             Some (case a of None \<Rightarrow> data | Some p0 \<Rightarrow> data(idst + j := if use_alibi then to_f (- \<bar>p0 - p1\<bar>) else to_f 0)) })
           [0..<n_kv] data }) [0..<n_tps]) [0..<n_stream] data })"

end
