(* ===== verification/KV_Find.thy ===== *)
theory KV_Find
  imports KV_Slots
begin

text \<open>
  The search for cells (\<open>llama_kv_cache::find_slot\<close>): the loop ends, and what it finds. Cell by cell it returns the
  first usable cells in the order that starts at the head and wraps around; for a continuous slot it returns
  a run of usable cells whenever there is one.
\<close>

section \<open>Cell by cell\<close>

text \<open>\<open>u\<close> says which of the cells below \<open>usable\<close> can be used.\<close>

definition first_cells :: "nat \<Rightarrow> nat list \<Rightarrow> nat list option" where
  "first_cells n xs = (if n \<le> length xs then Some (take n xs) else None)"

lemma test_one: "can_use head = Some b \<Longrightarrow>
    test_cells can_use False 1 (head, tested, acc) = Some (head + 1, tested + 1, if b then acc @ [head] else acc)"
  by simp

lemma slot_loop_wrap: "\<not> head + (if cont then n else 1) \<le> usable \<Longrightarrow>
    slot_loop can_use cont n usable head tested acc = slot_loop can_use cont n usable 0 (tested + (usable - head)) acc"
  by (subst slot_loop.simps) (simp add: Let_def)

lemma slot_loop_one:
  assumes "head < usable" "can_use head = Some b" "length acc < n"
  shows "slot_loop can_use False n usable head tested acc =
    (let acc' = (if b then acc @ [head] else acc) in
     if length acc' = n then Some (Some acc') else if tested + 1 \<ge> usable then Some None
     else slot_loop can_use False n usable (head + 1) (tested + 1) acc')"
  by (subst slot_loop.simps) (use assms in \<open>simp add: Let_def test_one\<close>)

lemma filter_from: "i < k \<Longrightarrow> filter u [i..<k] = (if u i then [i] else []) @ filter u [i + 1..<k]"
  by (simp add: upt_conv_Cons)

text \<open>The second pass ends at the head of the first one.\<close>

lemma slot_loop_second:
  assumes u: "\<And>i. i < usable \<Longrightarrow> can_use i = Some (u i)" and h: "h \<le> usable"
  shows "head < h \<Longrightarrow> length acc < n \<Longrightarrow>
    slot_loop can_use False n usable head (usable - h + head) acc = Some (first_cells n (acc @ filter u [head..<h]))"
proof (induction "h - head" arbitrary: head acc)
  case (Suc d)
  let ?acc = "if u head then acc @ [head] else acc"
  have step: "slot_loop can_use False n usable head (usable - h + head) acc =
      (if length ?acc = n then Some (Some ?acc) else if usable - h + head + 1 \<ge> usable then Some None
       else slot_loop can_use False n usable (head + 1) (usable - h + (head + 1)) ?acc)"
    using slot_loop_one [of head usable can_use "u head" acc n] Suc.prems u [of head] h by (simp add: Let_def)
  have split: "acc @ filter u [head..<h] = ?acc @ filter u [head + 1..<h]"
    using filter_from [of head h u] Suc.prems by simp
  consider "length ?acc = n" | "length ?acc < n" "head + 1 = h" | "length ?acc < n" "head + 1 < h"
    using Suc.prems by (cases "u head") force+
  then show ?case
  proof cases
    case 1
    then show ?thesis unfolding step split by (simp add: first_cells_def)
  next
    case 2
    then have "usable - h + head + 1 \<ge> usable" using h by simp
    with 2 show ?thesis unfolding step split by (simp add: first_cells_def)
  next
    case 3
    then have "\<not> usable - h + head + 1 \<ge> usable" using h by simp
    moreover have "slot_loop can_use False n usable (head + 1) (usable - h + (head + 1)) ?acc =
        Some (first_cells n (?acc @ filter u [head + 1..<h]))"
      by (rule Suc.hyps(1)) (use Suc.hyps(2) 3 in simp_all)
    ultimately show ?thesis unfolding step split using 3 by simp
  qed
qed simp

lemma slot_loop_first:
  assumes u: "\<And>i. i < usable \<Longrightarrow> can_use i = Some (u i)" and h: "h \<le> head"
  shows "head < usable \<Longrightarrow> length acc < n \<Longrightarrow>
    slot_loop can_use False n usable head (head - h) acc = Some (first_cells n (acc @ filter u ([head..<usable] @ [0..<h])))"
  using h
proof (induction "usable - head" arbitrary: head acc)
  case (Suc d)
  let ?acc = "if u head then acc @ [head] else acc"
  have step: "slot_loop can_use False n usable head (head - h) acc =
      (if length ?acc = n then Some (Some ?acc) else if head - h + 1 \<ge> usable then Some None
       else slot_loop can_use False n usable (head + 1) (head + 1 - h) ?acc)"
    using slot_loop_one [of head usable can_use "u head" acc n] Suc.prems u [of head] h
    by (cases "u head") (auto simp add: Let_def Suc_diff_le)
  have split: "acc @ filter u ([head..<usable] @ [0..<h]) = ?acc @ filter u ([head + 1..<usable] @ [0..<h])"
    using filter_from [of head usable u] Suc.prems by simp
  consider "length ?acc = n" | "length ?acc < n" "head + 1 = usable" "h = 0"
    | "length ?acc < n" "head + 1 = usable" "0 < h" | "length ?acc < n" "head + 1 < usable"
    using Suc.prems by (cases "u head") force+
  then show ?case
  proof cases
    case 1
    then show ?thesis unfolding step split by (simp add: first_cells_def)
  next
    case 2
    then show ?thesis unfolding step split by (simp add: first_cells_def)
  next
    case 3
    have "slot_loop can_use False n usable (head + 1) (head + 1 - h) ?acc =
        slot_loop can_use False n usable 0 (usable - h + 0) ?acc"
      by (subst slot_loop_wrap) (use 3 in simp_all)
    also have "\<dots> = Some (first_cells n (?acc @ filter u [0..<h]))"
      by (rule slot_loop_second [OF u]) (use 3 Suc.prems in simp_all)
    finally have "slot_loop can_use False n usable (head + 1) (head + 1 - h) ?acc =
        Some (first_cells n (?acc @ filter u [0..<h]))" .
    moreover have "\<not> head - h + 1 \<ge> usable" using 3 Suc.prems by linarith
    ultimately show ?thesis unfolding step split using 3 by simp
  next
    case 4
    have "slot_loop can_use False n usable (head + 1) (head + 1 - h) ?acc =
        Some (first_cells n (?acc @ filter u ([head + 1..<usable] @ [0..<h])))"
      by (rule Suc.hyps(1)) (use Suc.hyps(2) 4 Suc.prems in simp_all)
    moreover have "\<not> head - h + 1 \<ge> usable" using 4 Suc.prems by linarith
    ultimately show ?thesis unfolding step split using 4 by simp
  qed
qed simp

lemma slot_loop_cells:
  assumes "\<And>i. i < usable \<Longrightarrow> can_use i = Some (u i)" "head < usable" "0 < n"
  shows "slot_loop can_use False n usable head 0 [] = Some (first_cells n (filter u ([head..<usable] @ [0..<head])))"
  using slot_loop_first [OF assms(1), where head = head and h = head and acc = "[]"] assms(2,3) by simp

lemma first_cells_facts:
  assumes "first_cells n (filter u ([head..<usable] @ [0..<head])) = Some idxs" "head \<le> usable"
  shows "length idxs = n" "distinct idxs" "\<And>i. i \<in> set idxs \<Longrightarrow> i < usable \<and> u i"
proof -
  have d: "distinct (filter u ([head..<usable] @ [0..<head]))" by (intro distinct_filter) auto
  from assms(1) have idxs: "n \<le> length (filter u ([head..<usable] @ [0..<head]))"
    "idxs = take n (filter u ([head..<usable] @ [0..<head]))"
    by (simp_all add: first_cells_def split: if_splits)
  show "length idxs = n" using idxs by simp
  show "distinct idxs" unfolding idxs(2) using d by (rule distinct_take)
  show "i < usable \<and> u i" if "i \<in> set idxs" for i
    using that set_take_subset [of n "filter u ([head..<usable] @ [0..<head])"] assms(2) unfolding idxs(2) by fastforce
qed

lemma first_cells_found:
  assumes "head \<le> usable"
  shows "first_cells n (filter u ([head..<usable] @ [0..<head])) = None \<longleftrightarrow> card {i. i < usable \<and> u i} < n"
proof -
  have "length (filter u ([head..<usable] @ [0..<head])) = card (set (filter u ([head..<usable] @ [0..<head])))"
    by (rule distinct_card [symmetric]) (intro distinct_filter, auto)
  also have "set (filter u ([head..<usable] @ [0..<head])) = {i. i < usable \<and> u i}" using assms by auto
  finally show ?thesis by (simp add: first_cells_def not_le)
qed


section \<open>Continuous slots\<close>

text \<open>The window from \<open>head\<close>: complete, or up to the first cell that cannot be used.\<close>

lemma test_window:
  assumes "\<And>i. i < usable \<Longrightarrow> can_use i = Some (u i)" "head + n \<le> usable"
  shows "test_cells can_use True n (head, tested, acc) =
    (if \<forall>i<n. u (head + i) then Some (head + n, tested + n, acc @ [head..<head + n])
     else let k = (LEAST k. \<not> u (head + k)) in Some (head + k + 1, tested + k + 1, acc @ [head..<head + k]))"
  using assms(2)
proof (induction n arbitrary: head tested acc)
  case (Suc n)
  show ?case
  proof (cases "u head")
    case True
    have all: "(\<forall>i<Suc n. u (head + i)) \<longleftrightarrow> (\<forall>i<n. u (head + 1 + i))"
      using True by (auto simp: less_Suc_eq_0_disj)
    have "(LEAST k. \<not> u (head + k)) = Suc (LEAST k. \<not> u (head + 1 + k))" if "\<not> (\<forall>i<n. u (head + 1 + i))"
    proof -
      from that obtain i where "\<not> u (head + Suc i)" by auto
      from Least_Suc [of "\<lambda>k. \<not> u (head + k)", OF this] True show ?thesis by simp
    qed
    moreover have "test_cells can_use True (Suc n) (head, tested, acc) = test_cells can_use True n (head + 1, tested + 1, acc @ [head])"
      using assms(1) [of head] Suc.prems True by simp
    moreover have "[head..<head + Suc k] = head # [head + 1..<head + 1 + k]" for k by (simp add: upt_conv_Cons)
    ultimately show ?thesis using Suc.IH [of "head + 1" "tested + 1" "acc @ [head]"] Suc.prems
      by (auto simp: all Let_def)
  next
    case False
    then have "(LEAST k. \<not> u (head + k)) = 0" by (intro Least_equality) auto
    then show ?thesis using False assms(1) [of head] Suc.prems by (auto simp: Let_def)
  qed
qed simp

definition window :: "(nat \<Rightarrow> bool) \<Rightarrow> nat \<Rightarrow> nat \<Rightarrow> nat \<Rightarrow> bool" where
  "window u n usable a \<longleftrightarrow> a + n \<le> usable \<and> (\<forall>i<n. u (a + i))"

text \<open>No window starts in a range that a failed attempt has passed.\<close>

lemma window_passed: "\<not> u (head + k) \<Longrightarrow> k < n \<Longrightarrow> head \<le> a \<Longrightarrow> a \<le> head + k \<Longrightarrow> \<not> window u n usable a"
  by (auto simp: window_def intro!: exI [of _ "head + k - a"])

lemma slot_loop_window:
  assumes u: "\<And>i. i < usable \<Longrightarrow> can_use i = Some (u i)" and n: "0 < n" and head: "head + n \<le> usable"
  shows "slot_loop can_use True n usable head tested [] =
    (if window u n usable head then Some (Some [head..<head + n])
     else let k = (LEAST k. \<not> u (head + k)) in
       if tested + k + 1 \<ge> usable then Some None else slot_loop can_use True n usable (head + k + 1) (tested + k + 1) [])"
proof (cases "window u n usable head")
  case True
  then have "test_cells can_use True n (head, tested, []) = Some (head + n, tested + n, [head..<head + n])"
    using test_window [where can_use = can_use and u = u and tested = tested and acc = "[]", OF u head] by (simp add: window_def)
  then show ?thesis using True by (subst slot_loop.simps) (use head in simp)
next
  case False
  then have some: "\<exists>k<n. \<not> u (head + k)" using head by (auto simp: window_def)
  let ?k = "LEAST k. \<not> u (head + k)"
  have k: "?k < n" using some by (meson LeastI Least_le le_less_trans)
  have "test_cells can_use True n (head, tested, []) = Some (head + ?k + 1, tested + ?k + 1, [head..<head + ?k])"
    using test_window [where can_use = can_use and u = u and tested = tested and acc = "[]", OF u head] some by (auto simp: Let_def)
  then show ?thesis using False k head by (subst slot_loop.simps) (simp add: Let_def)
qed

text \<open>The result of a search for a run of cells.\<close>

definition run_found :: "(nat \<Rightarrow> bool) \<Rightarrow> nat \<Rightarrow> nat \<Rightarrow> nat list option \<Rightarrow> bool" where
  "run_found u n usable r \<longleftrightarrow>
     (case r of None \<Rightarrow> \<forall>a. \<not> window u n usable a | Some idxs \<Rightarrow> \<exists>a. idxs = [a..<a + n] \<and> window u n usable a)"

lemma window_ge: "window u n usable a \<Longrightarrow> a + n \<le> usable"
  by (simp add: window_def)

lemma slot_loop_none:
  assumes "\<And>i. i < usable \<Longrightarrow> can_use i = Some (u i)" "0 < n" "n \<le> usable" "\<And>a. \<not> window u n usable a" "usable \<le> tested"
  shows "slot_loop can_use True n usable 0 tested [] = Some None"
  by (subst slot_loop_window [where u = u]) (use assms in \<open>simp_all add: Let_def\<close>)

lemma window_fails:
  assumes "\<not> window u n usable head" "head + n \<le> usable"
  obtains k where "k = (LEAST k. \<not> u (head + k))" "k < n" "\<And>a. head \<le> a \<Longrightarrow> a \<le> head + k \<Longrightarrow> \<not> window u n usable a"
proof -
  from assms obtain i where "i < n" "\<not> u (head + i)" by (auto simp: window_def)
  then have "\<not> u (head + (LEAST k. \<not> u (head + k)))" "(LEAST k. \<not> u (head + k)) < n"
    using LeastI [of "\<lambda>k. \<not> u (head + k)" i] Least_le [of "\<lambda>k. \<not> u (head + k)" i] by simp_all
  then show ?thesis using that window_passed by blast
qed

text \<open>In the second pass, no window starts before \<open>head\<close> or from the first head \<open>h\<close> on.\<close>

lemma slot_loop_run_second:
  assumes u: "\<And>i. i < usable \<Longrightarrow> can_use i = Some (u i)" and n: "0 < n" "n \<le> usable" and h: "h \<le> usable"
  shows "head < h \<Longrightarrow> (\<And>a. a < head \<or> h \<le> a \<Longrightarrow> \<not> window u n usable a) \<Longrightarrow>
    \<exists>r. slot_loop can_use True n usable head (usable - h + head) [] = Some r \<and> run_found u n usable r"
proof (induction "h - head" arbitrary: head rule: less_induct)
  case less
  show ?case
  proof (cases "head + n \<le> usable")
    case fits: True
    note step = slot_loop_window [where can_use = can_use and u = u and tested = "usable - h + head", OF u n(1) fits]
    show ?thesis
    proof (cases "window u n usable head")
      case True
      then have "run_found u n usable (Some [head..<head + n])" by (auto simp: run_found_def)
      then show ?thesis using step True by simp
    next
      case False
      from False fits obtain k where k: "k = (LEAST k. \<not> u (head + k))" "k < n"
        "\<And>a. head \<le> a \<Longrightarrow> a \<le> head + k \<Longrightarrow> \<not> window u n usable a" by (rule window_fails) blast
      have none: "\<not> window u n usable a" if "a < head + k + 1 \<or> h \<le> a" for a
        using k(3) [of a] less.prems(2) [of a] that by linarith
      show ?thesis
      proof (cases "h \<le> head + k + 1")
        case True
        then have "\<not> window u n usable a" for a using none [of a] by linarith
        moreover have "usable - h + head + k + 1 \<ge> usable" using True h by simp
        ultimately show ?thesis using step False by (simp add: Let_def run_found_def flip: k(1))
      next
        case less: False
        then have "\<not> usable - h + head + k + 1 \<ge> usable" using h by simp
        moreover have "\<exists>r. slot_loop can_use True n usable (head + k + 1) (usable - h + (head + k + 1)) [] = Some r \<and> run_found u n usable r"
          by (rule less.hyps) (use less none in simp_all)
        ultimately show ?thesis using step False by (simp add: Let_def add.assoc flip: k(1))
      qed
    qed
  next
    case False
    then have "\<not> window u n usable a" for a using less.prems(2) [of a] window_ge [of u n usable a] by linarith
    then have "slot_loop can_use True n usable 0 (usable - h + head + (usable - head)) [] = Some None"
      using False less.prems(1) h by (intro slot_loop_none [OF u n]) simp_all
    moreover have "slot_loop can_use True n usable head (usable - h + head) [] =
        slot_loop can_use True n usable 0 (usable - h + head + (usable - head)) []"
      by (rule slot_loop_wrap) (use False in simp)
    ultimately show ?thesis using \<open>\<And>a. \<not> window u n usable a\<close> by (simp add: run_found_def)
  qed
qed

lemma slot_loop_run_first:
  assumes u: "\<And>i. i < usable \<Longrightarrow> can_use i = Some (u i)" and n: "0 < n" "n \<le> usable"
  shows "h \<le> head \<Longrightarrow> head \<le> usable \<Longrightarrow> (\<And>a. h \<le> a \<Longrightarrow> a < head \<Longrightarrow> \<not> window u n usable a) \<Longrightarrow>
    \<exists>r. slot_loop can_use True n usable head (head - h) [] = Some r \<and> run_found u n usable r"
proof (induction "usable - head" arbitrary: head rule: less_induct)
  case less
  show ?case
  proof (cases "head + n \<le> usable")
    case fits: True
    note step = slot_loop_window [where can_use = can_use and u = u and tested = "head - h", OF u n(1) fits]
    show ?thesis
    proof (cases "window u n usable head")
      case True
      then have "run_found u n usable (Some [head..<head + n])" by (auto simp: run_found_def)
      then show ?thesis using step True by simp
    next
      case False
      from False fits obtain k where k: "k = (LEAST k. \<not> u (head + k))" "k < n"
        "\<And>a. head \<le> a \<Longrightarrow> a \<le> head + k \<Longrightarrow> \<not> window u n usable a" by (rule window_fails) blast
      have none: "\<not> window u n usable a" if "h \<le> a" "a < head + k + 1" for a
        using k(3) [of a] less.prems(3) [of a] that by linarith
      have le: "head + k + 1 \<le> usable" using k(2) fits by simp
      have tested: "head - h + k + 1 = head + k + 1 - h" using less.prems(1) by simp
      show ?thesis
      proof (cases "head + k + 1 - h \<ge> usable")
        case True
        then have "h = 0" "head + k + 1 = usable" using le by simp_all
        then have "\<not> window u n usable a" for a using none [of a] window_ge [of u n usable a] n by fastforce
        moreover have "usable \<le> head - h + k + 1" unfolding tested by (rule True)
        ultimately show ?thesis using step False by (simp add: Let_def run_found_def flip: k(1))
      next
        case more: False
        have "slot_loop can_use True n usable head (head - h) [] =
            slot_loop can_use True n usable (head + k + 1) (head - h + k + 1) []"
          using step False more [folded tested] by (simp add: Let_def flip: k(1))
        moreover have "\<exists>r. slot_loop can_use True n usable (head + k + 1) (head + k + 1 - h) [] = Some r \<and> run_found u n usable r"
          by (rule less.hyps) (use less.prems le none in simp_all)
        ultimately show ?thesis unfolding tested by simp
      qed
    qed
  next
    case False
    have wrap: "slot_loop can_use True n usable head (head - h) [] = slot_loop can_use True n usable 0 (usable - h) []"
      by (subst slot_loop_wrap) (use False less.prems in simp_all)
    have none: "\<not> window u n usable a" if "h \<le> a" for a
      using less.prems(3) [of a] window_ge [of u n usable a] that False by linarith
    show ?thesis
    proof (cases "h = 0")
      case True
      then have "\<not> window u n usable a" for a using none by simp
      moreover from this have "slot_loop can_use True n usable 0 (usable - 0) [] = Some None"
        by (intro slot_loop_none [where u = u] u n) simp_all
      ultimately have "slot_loop can_use True n usable head (head - h) [] = Some None" "run_found u n usable None"
        using wrap True by (simp_all add: run_found_def)
      then show ?thesis by blast
    next
      case False
      then show ?thesis unfolding wrap
        using slot_loop_run_second [where can_use = can_use and u = u and h = h and head = 0, OF u n] none less.prems(1,2) by simp
    qed
  qed
qed

lemma slot_loop_run:
  assumes "\<And>i. i < usable \<Longrightarrow> can_use i = Some (u i)" "head \<le> usable" "0 < n" "n \<le> usable"
  shows "\<exists>r. slot_loop can_use True n usable head 0 [] = Some r \<and> run_found u n usable r"
  using slot_loop_run_first [where can_use = can_use and u = u and h = head and head = head, OF assms(1,3,4)] assms(2) by simp

end
