(* ===== verification/KV_Ops.thy ===== *)
theory KV_Ops
  imports KV_Find
begin

text \<open>
  What the operations of the KV cache do to the list of cells of a stream. A loop over the cells acts cell by
  cell; the functions \<open>drop_seq\<close>, \<open>keep_seq\<close>, \<open>join_seq\<close>, \<open>move_pos\<close> and \<open>shrink_pos\<close> on one cell are the contract of the
  loops of \<open>seq_rm\<close>, \<open>seq_keep\<close>, \<open>seq_cp\<close>, \<open>seq_add\<close> and \<open>seq_div\<close>.
\<close>

text \<open>Cells are lists from here on, not the arrays behind them.\<close>

declare cells_of_simps(2) [simp del]

lemma some_flag [simp]: "\<exists>b :: bool. b" "\<exists>b :: bool. \<not> b"
  by auto

lemma sim_cell:
  assumes "kv_sim r (spec_cell i h f (kv_abs c))" "i < kc_size c" "f (cells_of c ! i) = Some (b, x)"
  obtains c' where "r = Some (b, c')" "kv_ok c'" "cells_of c' = (cells_of c)[i := x]" "kc_has_shift c' = (h \<or> kc_has_shift c)"
proof -
  have spec: "spec_cell i h f (kv_abs c) = Some (b, h \<or> kc_has_shift c, (cells_of c)[i := x])"
    using assms(2,3) by (simp add: spec_cell_def kv_abs_def del: spec_cell_at)
  obtain b' c' where r: "r = Some (b', c')" using assms(1) unfolding spec by (cases r) (auto simp: sim_def)
  then show ?thesis using that assms(1) unfolding spec r by (simp add: kv_abs_def)
qed

lemma sim_cell_unit:
  assumes "kv_sim (map_option (Pair ()) r) (spec_cell i h f (kv_abs c))" "i < kc_size c" "f (cells_of c ! i) = Some ((), x)"
  obtains c' where "r = Some c'" "kv_ok c'" "cells_of c' = (cells_of c)[i := x]" "kc_has_shift c' = (h \<or> kc_has_shift c)"
proof -
  obtain c' where c': "map_option (Pair ()) r = Some ((), c')" "kv_ok c'" "cells_of c' = (cells_of c)[i := x]"
    "kc_has_shift c' = (h \<or> kc_has_shift c)" by (rule sim_cell [OF assms])
  show ?thesis by (rule that [OF _ c'(2-4)]) (use c'(1) in auto)
qed

lemma size_of_cells: "kc_size c = length (cells_of c)"
  by simp

text \<open>What the queries on one cell answer.\<close>

lemma cell_facts:
  assumes "kv_ok c" "i < kc_size c"
  shows "kc_is_empty c i = Some (cells_of c ! i = None)"
    and "kc_pos_in c i p0 p1 = Some (case cells_of c ! i of None \<Rightarrow> p0 \<le> -1 \<and> -1 < p1 | Some (p, _) \<Rightarrow> p0 \<le> p \<and> p < p1)"
    and "seq_id_ok s \<Longrightarrow> kc_seq_has c i s = Some (nat s \<in> cell_seqs (cells_of c ! i))"
    and "cells_of c ! i = Some (p, S, sh) \<Longrightarrow> kc_pos_get c i = Some p \<and> kc_get_shift c i = Some sh \<and> kc_seq_count c i = Some (card S) \<and> 0 \<le> p"
    and "cells_of c ! i = Some (p, {s'}, sh) \<Longrightarrow> kc_seq_get c i = Some (int s') \<and> s' < LLAMA_MAX_SEQ"
    and "s' \<in> cell_seqs (cells_of c ! i) \<Longrightarrow> s' < LLAMA_MAX_SEQ"
proof -
  note at = kv_vec_at [OF assms(1)]
  have cell: "cells_of c ! i = cell_of (kc_pos c ! i) (kc_seq c ! i) (kc_shift c ! i)" using assms(2) by (rule cells_of_simps(2))
  have ok: "cell_ok (kc_pos c ! i) (kc_seq c ! i) (kc_shift c ! i)" by (rule kv_okD(4) [OF assms])
  show "kc_is_empty c i = Some (cells_of c ! i = None)"
    unfolding cell using ok assms(2) by (auto simp: kc_is_empty_def at bind_check cell_of_def cell_ok_def)
  show "kc_pos_in c i p0 p1 = Some (case cells_of c ! i of None \<Rightarrow> p0 \<le> -1 \<and> -1 < p1 | Some (p, _) \<Rightarrow> p0 \<le> p \<and> p < p1)"
    unfolding cell using assms(2) by (simp add: kc_pos_in_def at cell_of_def)
  show "seq_id_ok s \<Longrightarrow> kc_seq_has c i s = Some (nat s \<in> cell_seqs (cells_of c ! i))"
    unfolding cell using ok assms(2) by (auto simp: kc_seq_has_def at bind_check cell_of_def cell_ok_def seq_test_simps seq_id_ok_def)
  show "cells_of c ! i = Some (p, S, sh) \<Longrightarrow> kc_pos_get c i = Some p \<and> kc_get_shift c i = Some sh \<and> kc_seq_count c i = Some (card S) \<and> 0 \<le> p"
    unfolding cell using ok assms(2) by (auto simp: kc_pos_get_def kc_get_shift_def kc_seq_count_def at bind_check cell_of_def cell_ok_def seq_count_card split: if_splits)
  show "s' \<in> cell_seqs (cells_of c ! i) \<Longrightarrow> s' < LLAMA_MAX_SEQ"
    using bit_seq_set [of "kc_seq c ! i" s'] unfolding cell by (auto simp: cell_of_def split: if_splits)
  assume one: "cells_of c ! i = Some (p, {s'}, sh)"
  then have bits: "seqs_of (kc_seq c ! i) = {s'}" unfolding cell by (auto simp: cell_of_def split: if_splits)
  have "bit (kc_seq c ! i) s'" using bits by (auto simp: seqs_of_def)
  then have less: "s' < LLAMA_MAX_SEQ" by (rule bit_seq_set)
  have count: "seq_count (kc_seq c ! i) = 1" by (simp add: seq_count_card bits)
  then obtain a as where f: "filter (bit (kc_seq c ! i)) [0..<LLAMA_MAX_SEQ] = a # as"
    by (auto simp: seq_count_def length_Suc_conv)
  then have "a = s'" using filter_bits [OF f] bits by simp
  then show "kc_seq_get c i = Some (int s') \<and> s' < LLAMA_MAX_SEQ"
    using assms(2) less by (simp add: kc_seq_get_def at bind_check count f)
qed


section \<open>Loops over the cells\<close>

definition acts :: "(nat \<Rightarrow> llama_kv_cells \<Rightarrow> (bool \<times> llama_kv_cells) option) \<Rightarrow> (cell \<Rightarrow> bool) \<Rightarrow> (cell \<Rightarrow> cell) \<Rightarrow> bool" where
  "acts f P g \<longleftrightarrow> (\<forall>c i. kv_ok c \<longrightarrow> i < kc_size c \<longrightarrow> P (cells_of c ! i) \<longrightarrow>
     (\<exists>b c'. f i c = Some (b, c') \<and> kv_ok c' \<and> cells_of c' = (cells_of c)[i := g (cells_of c ! i)]))"

lemma actsI:
  assumes "\<And>c i. kv_ok c \<Longrightarrow> i < kc_size c \<Longrightarrow> P (cells_of c ! i) \<Longrightarrow>
    \<exists>b c'. f i c = Some (b, c') \<and> kv_ok c' \<and> cells_of c' = (cells_of c)[i := g (cells_of c ! i)]"
  shows "acts f P g"
  unfolding acts_def using assms by blast

lemma cell_loop_acts:
  assumes f: "acts f P g" and ok: "kv_ok c" and P: "\<forall>x\<in>set (cells_of c). P x"
  shows "\<exists>h c'. cell_loop f c = Some (h, c') \<and> kv_ok c' \<and> cells_of c' = map g (cells_of c) \<and> h \<le> kc_size c"
proof -
  let ?n = "kc_size c"
  let ?body = "\<lambda>i (new_head, c). do {
       (freed, c) \<leftarrow> f i c; Some (if freed \<and> new_head = kc_size c then i else new_head, c) }"
  let ?Q = "\<lambda>is (h, d). kv_ok d \<and> kc_size d = ?n \<and> h \<le> ?n \<and>
      (\<forall>i<?n. cells_of d ! i = (if i \<in> set is then g (cells_of c ! i) else cells_of c ! i))"
  have "\<exists>s'. fold_opt ?body [0..<?n] (?n, c) = Some s' \<and> ?Q [0..<?n] s'"
  proof (rule fold_opt_invariant [where P = ?Q])
    fix ys i zs s
    assume split: "[0..<?n] = ys @ i # zs" and Q: "?Q ys s"
    obtain h d where s: "s = (h, d)" by fastforce
    have "i \<in> set [0..<?n]" unfolding split by simp
    then have i: "i < ?n" by simp
    have new: "i \<notin> set ys" using distinct_upt [of 0 ?n] unfolding split by simp
    have d: "kv_ok d" "kc_size d = ?n" "h \<le> ?n" and at: "cells_of d ! i = cells_of c ! i"
      using Q i new by (simp_all add: s)
    have "P (cells_of d ! i)" using P i unfolding at by simp
    then obtain b d' where d': "f i d = Some (b, d')" "kv_ok d'" "cells_of d' = (cells_of d)[i := g (cells_of c ! i)]"
      using f [unfolded acts_def] d(1,2) i at by metis
    have "kc_size d' = ?n" using d'(3) d(2) by (metis length_list_update cells_of_simps(1))
    then show "\<exists>s'. ?body i s = Some s' \<and> ?Q (ys @ [i]) s'"
      using Q d' d i by (auto simp: s nth_list_update)
  qed (use ok in auto)
  then obtain h d where r: "fold_opt ?body [0..<?n] (?n, c) = Some (h, d)" "?Q [0..<?n] (h, d)" by auto
  have "cells_of d = map g (cells_of c)"
    by (rule nth_equalityI) (use r(2) in \<open>auto\<close>)
  with r show ?thesis unfolding cell_loop_def by auto
qed

text \<open>One cell.\<close>

definition in_range :: "int \<Rightarrow> int \<Rightarrow> cell \<Rightarrow> bool" where
  "in_range p0 p1 x \<longleftrightarrow> (case x of None \<Rightarrow> False | Some (p, _) \<Rightarrow> p0 \<le> p \<and> p < p1)"

definition on_range :: "int \<Rightarrow> int \<Rightarrow> int \<Rightarrow> (cell \<Rightarrow> cell) \<Rightarrow> cell \<Rightarrow> cell" where
  "on_range s p0 p1 g x = (if in_range p0 p1 x \<and> nat s \<in> cell_seqs x then g x else x)"

definition drop_seq :: "nat \<Rightarrow> cell \<Rightarrow> cell" where
  "drop_seq s x = (case x of None \<Rightarrow> None | Some (p, S, sh) \<Rightarrow> if S - {s} = {} then None else Some (p, S - {s}, sh))"

definition keep_seq :: "nat \<Rightarrow> cell \<Rightarrow> cell" where
  "keep_seq s x = (case x of None \<Rightarrow> None | Some (p, S, sh) \<Rightarrow> if s \<in> S then Some (p, {s}, sh) else None)"

definition join_seq :: "nat \<Rightarrow> cell \<Rightarrow> cell" where
  "join_seq s x = map_option (\<lambda>(p, S, sh). (p, insert s S, sh)) x"

definition move_pos :: "int \<Rightarrow> cell \<Rightarrow> cell" where
  "move_pos d x = (case x of None \<Rightarrow> None | Some (p, S, sh) \<Rightarrow> if p + d < 0 then None else Some (p + d, S, sh + d))"

definition shrink_pos :: "nat \<Rightarrow> cell \<Rightarrow> cell" where
  "shrink_pos d x = map_option (\<lambda>(p, S, sh). (p div int d, S, sh + (p - p div int d))) x"

lemma pos_bounds [simp]: "0 \<le> pos_first p" "-1 < pos_first p"
  by (simp_all add: pos_first_def)

lemma inside_cell:
  assumes "kv_ok c" "i < kc_size c" "0 \<le> p0"
  shows "kc_pos_in c i p0 p1 = Some (in_range p0 p1 (cells_of c ! i))"
  using cell_facts(2) [OF assms(1,2), of p0 p1] assms(3) by (simp add: in_range_def split: option.splits)

lemma acts_range:
  assumes "seq_id_ok s" "0 \<le> p0"
    and "acts f (\<lambda>x. P x \<and> in_range p0 p1 x \<and> nat s \<in> cell_seqs x) g"
    and "\<And>i c. h i c = do { inside \<leftarrow> kc_pos_in c i p0 p1; if \<not> inside then Some (False, c)
      else do { has \<leftarrow> kc_seq_has c i s; if has then f i c else Some (False, c) } }"
  shows "acts h P (on_range s p0 p1 g)"
proof (rule actsI)
  fix c i
  assume c: "kv_ok c" "i < kc_size c" and P: "P (cells_of c ! i)"
  have run: "h i c = (if in_range p0 p1 (cells_of c ! i) \<and> nat s \<in> cell_seqs (cells_of c ! i) then f i c else Some (False, c))"
    unfolding assms(4) inside_cell [OF c assms(2)] cell_facts(3) [OF c assms(1)] by simp
  show "\<exists>b c'. h i c = Some (b, c') \<and> kv_ok c' \<and> cells_of c' = (cells_of c)[i := on_range s p0 p1 g (cells_of c ! i)]"
    using assms(3) [unfolded acts_def, rule_format, OF c] c P unfolding run on_range_def by auto
qed

lemma acts_seq_rm: "seq_id_ok s \<Longrightarrow> 0 \<le> p0 \<Longrightarrow> acts (seq_rm_cell s p0 p1) (\<lambda>_. True) (on_range s p0 p1 (drop_seq (nat s)))"
proof (rule acts_range [where f = "\<lambda>i. kc_seq_rm i s"])
  show "acts (\<lambda>i. kc_seq_rm i s) (\<lambda>x. True \<and> in_range p0 p1 x \<and> nat s \<in> cell_seqs x) (drop_seq (nat s))" if "seq_id_ok s"
  proof (rule actsI)
    fix c i
    assume c: "kv_ok c" "i < kc_size c" and P: "True \<and> in_range p0 p1 (cells_of c ! i) \<and> nat s \<in> cell_seqs (cells_of c ! i)"
    have "cell_seq_rm s (cells_of c ! i) = Some (drop_seq (nat s) (cells_of c ! i) = None, drop_seq (nat s) (cells_of c ! i))"
      using P that by (cases "cells_of c ! i") (auto simp: in_range_def drop_seq_def seq_id_ok_def)
    from sim_cell [OF kc_seq_rm_sim [OF c(1)] c(2) this]
    show "\<exists>b c'. kc_seq_rm i s c = Some (b, c') \<and> kv_ok c' \<and> cells_of c' = (cells_of c)[i := drop_seq (nat s) (cells_of c ! i)]" by metis
  qed
qed (simp_all add: seq_rm_cell_def)

lemma acts_rm: "0 \<le> p0 \<Longrightarrow> acts (rm_cell p0 p1) (\<lambda>_. True) (\<lambda>x. if in_range p0 p1 x then None else x)"
proof (rule actsI)
  fix c i
  assume p0: "0 \<le> p0" and c: "kv_ok c" "i < kc_size c"
  show "\<exists>b c'. rm_cell p0 p1 i c = Some (b, c') \<and> kv_ok c' \<and>
      cells_of c' = (cells_of c)[i := if in_range p0 p1 (cells_of c ! i) then None else cells_of c ! i]"
  proof (cases "in_range p0 p1 (cells_of c ! i)")
    case True
    then have "cell_rm (cells_of c ! i) = Some ((), None)"
      by (cases "cells_of c ! i") (auto simp: in_range_def)
    from sim_cell_unit [OF kc_rm_sim [OF c(1)] c(2) this] obtain c' where "kc_rm i c = Some c'" "kv_ok c'" "cells_of c' = (cells_of c)[i := None]"
      by metis
    then show ?thesis using True by (auto simp add: rm_cell_def inside_cell [OF c p0])
  qed (use c in \<open>simp add: rm_cell_def inside_cell [OF c p0]\<close>)
qed

lemma acts_keep: "seq_id_ok s \<Longrightarrow> acts (\<lambda>i. kc_seq_keep i s) (\<lambda>x. x = None \<or> cell_seqs x \<noteq> {}) (keep_seq (nat s))"
proof (rule actsI)
  fix c i
  assume s: "seq_id_ok s" and c: "kv_ok c" "i < kc_size c" and x: "cells_of c ! i = None \<or> cell_seqs (cells_of c ! i) \<noteq> {}"
  have "\<exists>b. cell_seq_keep s (cells_of c ! i) = Some (b, keep_seq (nat s) (cells_of c ! i))"
    using s x by (cases "cells_of c ! i") (auto simp: keep_seq_def)
  then obtain b where "cell_seq_keep s (cells_of c ! i) = Some (b, keep_seq (nat s) (cells_of c ! i))" by blast
  from sim_cell [OF kc_seq_keep_sim [OF c(1)] c(2) this]
  show "\<exists>b c'. kc_seq_keep i s c = Some (b, c') \<and> kv_ok c' \<and> cells_of c' = (cells_of c)[i := keep_seq (nat s) (cells_of c ! i)]" by metis
qed

lemma acts_cp:
  "seq_id_ok src \<Longrightarrow> seq_id_ok dst \<Longrightarrow> 0 \<le> p0 \<Longrightarrow>
    acts (seq_cp_cell src dst p0 p1) (\<lambda>x. in_range p0 p1 x \<and> nat src \<in> cell_seqs x \<longrightarrow> nat dst \<notin> cell_seqs x) (on_range src p0 p1 (join_seq (nat dst)))"
proof (rule acts_range [where f = "\<lambda>i c. do { c \<leftarrow> kc_seq_add i dst c; Some (False, c) }"])
  show "acts (\<lambda>i c. do { c \<leftarrow> kc_seq_add i dst c; Some (False, c) })
      (\<lambda>x. (in_range p0 p1 x \<and> nat src \<in> cell_seqs x \<longrightarrow> nat dst \<notin> cell_seqs x) \<and> in_range p0 p1 x \<and> nat src \<in> cell_seqs x) (join_seq (nat dst))"
    if "seq_id_ok dst"
  proof (rule actsI)
    fix c i
    assume c: "kv_ok c" "i < kc_size c" and x: "(in_range p0 p1 (cells_of c ! i) \<and> nat src \<in> cell_seqs (cells_of c ! i) \<longrightarrow>
      nat dst \<notin> cell_seqs (cells_of c ! i)) \<and> in_range p0 p1 (cells_of c ! i) \<and> nat src \<in> cell_seqs (cells_of c ! i)"
    then have "cell_seq_add dst (cells_of c ! i) = Some ((), join_seq (nat dst) (cells_of c ! i))"
      using that by (cases "cells_of c ! i") (auto simp: join_seq_def in_range_def)
    from sim_cell_unit [OF kc_seq_add_sim [OF c(1)] c(2) this] obtain c' where "kc_seq_add i dst c = Some c'" "kv_ok c'"
      "cells_of c' = (cells_of c)[i := join_seq (nat dst) (cells_of c ! i)]" by metis
    then show "\<exists>b c'. do { c \<leftarrow> kc_seq_add i dst c; Some (False, c) } = Some (b, c') \<and> kv_ok c' \<and>
        cells_of c' = (cells_of c)[i := join_seq (nat dst) (cells_of c ! i)]" by simp
  qed
qed (simp_all add: seq_cp_cell_def)

text \<open>Positions that stay representable.\<close>

definition moves_ok :: "int \<Rightarrow> cell \<Rightarrow> bool" where
  "moves_ok d x \<longleftrightarrow> (case x of None \<Rightarrow> True | Some (p, S, sh) \<Rightarrow>
     s32 (p + d) \<noteq> None \<and> p + d < LLAMA_POS_MAX \<and> s32 (sh + d) \<noteq> None)"

definition shrinks_ok :: "nat \<Rightarrow> cell \<Rightarrow> bool" where
  "shrinks_ok d x \<longleftrightarrow> (case x of None \<Rightarrow> True | Some (p, S, sh) \<Rightarrow>
     s32 (p div int d) \<noteq> None \<and> p div int d < LLAMA_POS_MAX \<and> s32 (sh + (p - p div int d)) \<noteq> None)"

lemma acts_add:
  "seq_id_ok s \<Longrightarrow> 0 \<le> p0 \<Longrightarrow> acts (seq_add_cell s p0 p1 d)
    (\<lambda>x. in_range p0 p1 x \<and> nat s \<in> cell_seqs x \<longrightarrow> moves_ok d x) (on_range s p0 p1 (move_pos d))"
proof (rule acts_range [where f = "\<lambda>i. kc_pos_add i d"])
  show "acts (\<lambda>i. kc_pos_add i d) (\<lambda>x. (in_range p0 p1 x \<and> nat s \<in> cell_seqs x \<longrightarrow> moves_ok d x) \<and> in_range p0 p1 x \<and> nat s \<in> cell_seqs x) (move_pos d)"
  proof (rule actsI)
    fix c i
    assume c: "kv_ok c" "i < kc_size c" and x: "(in_range p0 p1 (cells_of c ! i) \<and> nat s \<in> cell_seqs (cells_of c ! i) \<longrightarrow>
      moves_ok d (cells_of c ! i)) \<and> in_range p0 p1 (cells_of c ! i) \<and> nat s \<in> cell_seqs (cells_of c ! i)"
    obtain p S sh where cell: "cells_of c ! i = Some (p, S, sh)"
      using x by (cases "cells_of c ! i") (auto simp: in_range_def)
    have "s32 (p + d) = Some (p + d)" "s32 (sh + d) = Some (sh + d)"
      using x unfolding cell moves_ok_def by (auto intro!: s32_defined)
    then have "\<exists>b. cell_pos_add d (cells_of c ! i) = Some (b, move_pos d (cells_of c ! i))"
      unfolding cell by (simp add: move_pos_def)
    then obtain b where "cell_pos_add d (cells_of c ! i) = Some (b, move_pos d (cells_of c ! i))" by blast
    from sim_cell [OF kc_pos_add_sim [OF c(1)] c(2) this]
    show "\<exists>b c'. kc_pos_add i d c = Some (b, c') \<and> kv_ok c' \<and> cells_of c' = (cells_of c)[i := move_pos d (cells_of c ! i)]" by metis
  qed
qed (simp_all add: seq_add_cell_def)

lemma acts_div:
  "seq_id_ok s \<Longrightarrow> 0 \<le> p0 \<Longrightarrow> 0 < d \<Longrightarrow> acts (seq_div_cell s p0 p1 (int d))
    (\<lambda>x. in_range p0 p1 x \<and> nat s \<in> cell_seqs x \<longrightarrow> shrinks_ok d x) (on_range s p0 p1 (shrink_pos d))"
proof (rule acts_range [where f = "\<lambda>i c. do { c \<leftarrow> kc_pos_div i (int d) c; Some (False, c) }"])
  show "acts (\<lambda>i c. do { c \<leftarrow> kc_pos_div i (int d) c; Some (False, c) })
      (\<lambda>x. (in_range p0 p1 x \<and> nat s \<in> cell_seqs x \<longrightarrow> shrinks_ok d x) \<and> in_range p0 p1 x \<and> nat s \<in> cell_seqs x) (shrink_pos d)" if "0 < d"
  proof (rule actsI)
    fix c i
    assume c: "kv_ok c" "i < kc_size c" and x: "(in_range p0 p1 (cells_of c ! i) \<and> nat s \<in> cell_seqs (cells_of c ! i) \<longrightarrow>
      shrinks_ok d (cells_of c ! i)) \<and> in_range p0 p1 (cells_of c ! i) \<and> nat s \<in> cell_seqs (cells_of c ! i)"
    obtain p S sh where cell: "cells_of c ! i = Some (p, S, sh)"
      using x by (cases "cells_of c ! i") (auto simp: in_range_def)
    have "s32 (p div int d) = Some (p div int d)" "s32 (sh + (p - p div int d)) = Some (sh + (p - p div int d))"
      using x unfolding cell shrinks_ok_def by (auto intro!: s32_defined)
    then have "cell_pos_div d (cells_of c ! i) = Some ((), shrink_pos d (cells_of c ! i))"
      using that unfolding cell by (simp add: shrink_pos_def bind_check)
    from sim_cell_unit [OF kc_pos_div_sim [OF c(1)] c(2) this] obtain c' where "kc_pos_div i (int d) c = Some c'" "kv_ok c'"
      "cells_of c' = (cells_of c)[i := shrink_pos d (cells_of c ! i)]" by metis
    then show "\<exists>b c'. do { c \<leftarrow> kc_pos_div i (int d) c; Some (False, c) } = Some (b, c') \<and> kv_ok c' \<and>
        cells_of c' = (cells_of c)[i := shrink_pos d (cells_of c ! i)]" by simp
  qed
qed (simp_all add: seq_div_cell_def)

end
