(* ===== verification/KV_Inv.thy ===== *)
theory KV_Inv
  imports KV_Ops
begin

text \<open>
  The invariant of the KV cache and what its operations on sequences do, stream by stream: cells and indices agree
  in every stream, an occupied cell has sequences and only those of its stream, heads and prefix boundaries
  are in range, and the pending copies name different streams.
\<close>

section \<open>Invariant\<close>

definition cell_own :: "nat list \<Rightarrow> nat \<Rightarrow> cell \<Rightarrow> bool" where
  "cell_own sts st x \<longleftrightarrow> (case x of None \<Rightarrow> True | Some (p, S, sh) \<Rightarrow>
     S \<noteq> {} \<and> (\<forall>s\<in>S. s < length sts \<and> sts ! s = st) \<and> p < LLAMA_POS_MAX \<and> - (2 ^ 31) \<le> sh \<and> sh < 2 ^ 31)"

abbreviation stream :: "llama_kv_cache \<Rightarrow> nat \<Rightarrow> cell list" where
  "stream kv st \<equiv> cells_of (kv_cells kv ! st)"

definition cache_size :: "llama_kv_cache \<Rightarrow> nat" where
  "cache_size kv = kc_size (hd (kv_cells kv))"

definition stream_ok :: "llama_kv_cache \<Rightarrow> nat \<Rightarrow> bool" where
  "stream_ok kv st \<longleftrightarrow> kv_ok (kv_cells kv ! st) \<and> kc_size (kv_cells kv ! st) = cache_size kv \<and> kv_heads kv ! st \<le> cache_size kv \<and>
     (\<forall>x\<in>set (stream kv st). cell_own (kv_seq_to_stream kv) st x)"

definition config_ok :: "llama_kv_cache \<Rightarrow> bool" where
  "config_ok kv \<longleftrightarrow> 0 < kv_n_stream kv \<and> length (kv_cells kv) = kv_n_stream kv \<and> length (kv_heads kv) = kv_n_stream kv \<and>
     kv_seq_to_stream kv \<noteq> [] \<and> length (kv_seq_to_stream kv) \<le> LLAMA_MAX_SEQ \<and> (\<forall>st\<in>set (kv_seq_to_stream kv). st < kv_n_stream kv) \<and>
     (kv_swa_type kv = LLAMA_SWA_TYPE_CHUNKED \<longrightarrow> 0 < kv_n_swa kv)"

definition prefix_ok :: "llama_kv_cache \<Rightarrow> bool" where
  "prefix_ok kv \<longleftrightarrow> length (kv_prefix_end kv) = LLAMA_MAX_SEQ \<and>
     (\<forall>pe\<in>set (kv_prefix_end kv). pe = -1 \<or> 0 \<le> pe \<and> pe \<le> to_i32 (kv_prefix_cap kv))"

definition copies_ok :: "nat \<Rightarrow> stream_copy_info \<Rightarrow> bool" where
  "copies_ok n sc \<longleftrightarrow> length (ssrc sc) = length (sdst sc) \<and>
     (\<forall>i<length (ssrc sc). ssrc sc ! i < n \<and> sdst sc ! i < n \<and> ssrc sc ! i \<noteq> sdst sc ! i)"

definition cache_ok :: "llama_kv_cache \<Rightarrow> bool" where
  "cache_ok kv \<longleftrightarrow> config_ok kv \<and> prefix_ok kv \<and> copies_ok (kv_n_stream kv) (kv_sc_info kv) \<and> (\<forall>st<kv_n_stream kv. stream_ok kv st)"

text \<open>The fields that no operation changes.\<close>

definition config :: "llama_kv_cache \<Rightarrow> nat \<times> nat \<times> nat \<times> llama_swa_type \<times> nat \<times> nat \<times> nat \<times> nat list" where
  "config kv = (kv_n_stream kv, kv_n_pad kv, kv_n_swa kv, kv_swa_type kv, kv_window kv, kv_prefix_cap kv, kv_n_ubatch kv, kv_seq_to_stream kv)"

lemma config_fields:
  assumes "config kv' = config kv"
  shows "kv_n_stream kv' = kv_n_stream kv" "kv_seq_to_stream kv' = kv_seq_to_stream kv" "kv_window kv' = kv_window kv"
    "kv_prefix_cap kv' = kv_prefix_cap kv" "kv_n_ubatch kv' = kv_n_ubatch kv" "kv_n_pad kv' = kv_n_pad kv"
    "prefix_sliding_enabled kv' = prefix_sliding_enabled kv" "is_masked_swa kv' p0 p1 = is_masked_swa kv p0 p1"
    "stream_of kv' s = stream_of kv s"
  using assms by (simp_all add: config_def prefix_sliding_enabled_def is_masked_swa_def stream_of_def cong: llama_swa_type.case_cong)

lemma config_update [simp]:
  "config (kv\<lparr>kv_cells := cs\<rparr>) = config kv" "config (kv\<lparr>kv_heads := hs\<rparr>) = config kv" "config (kv\<lparr>kv_prefix_end := pe\<rparr>) = config kv"
  "config (kv\<lparr>kv_sc_info := sc\<rparr>) = config kv" "config (kv\<lparr>kv_layers := ls\<rparr>) = config kv"
  by (simp_all add: config_def)

definition seq_ok :: "llama_kv_cache \<Rightarrow> int \<Rightarrow> bool" where
  "seq_ok kv s \<longleftrightarrow> 0 \<le> s \<and> nat s < length (kv_seq_to_stream kv)"

lemma cache_okD:
  assumes "cache_ok kv"
  shows "config_ok kv" "prefix_ok kv" "copies_ok (kv_n_stream kv) (kv_sc_info kv)" "st < kv_n_stream kv \<Longrightarrow> stream_ok kv st"
    "length (kv_cells kv) = kv_n_stream kv" "length (kv_heads kv) = kv_n_stream kv" "0 < kv_n_stream kv"
  using assms by (auto simp: cache_ok_def config_ok_def)

lemma stream_okD:
  assumes "cache_ok kv" "st < kv_n_stream kv"
  shows "kv_ok (kv_cells kv ! st)" "kc_size (kv_cells kv ! st) = cache_size kv" "length (stream kv st) = cache_size kv"
    "kv_heads kv ! st \<le> cache_size kv" "x \<in> set (stream kv st) \<Longrightarrow> cell_own (kv_seq_to_stream kv) st x"
  using cache_okD(4) [OF assms] by (auto simp: stream_ok_def)

lemma seq_stream:
  assumes "cache_ok kv" "seq_ok kv s"
  shows "stream_of kv s = Some (kv_seq_to_stream kv ! nat s)" "kv_seq_to_stream kv ! nat s < kv_n_stream kv" "seq_id_ok s"
    "nat s < length (kv_prefix_end kv)"
  using assms by (auto simp: stream_of_def seq_ok_def cache_ok_def config_ok_def prefix_ok_def seq_id_ok_def)

lemma size_cells: "cache_ok kv \<Longrightarrow> get_size kv = Some (cache_size kv)"
  using cache_okD(1) [of kv] stream_okD(2) [of kv "kv_seq_to_stream kv ! 0"]
  by (cases "kv_seq_to_stream kv") (auto simp: get_size_def config_ok_def)

text \<open>Replacing the cells and the head of one stream.\<close>

lemma cache_ok_stream:
  assumes ok: "cache_ok kv" and st: "st < kv_n_stream kv" and c: "kv_ok c" "length (cells_of c) = cache_size kv"
    "\<forall>x\<in>set (cells_of c). cell_own (kv_seq_to_stream kv) st x" and h: "h \<le> cache_size kv"
  shows "cache_ok (kv\<lparr>kv_cells := (kv_cells kv)[st := c], kv_heads := (kv_heads kv)[st := h]\<rparr>)"
    and "cache_size (kv\<lparr>kv_cells := (kv_cells kv)[st := c], kv_heads := (kv_heads kv)[st := h]\<rparr>) = cache_size kv"
proof -
  let ?kv = "kv\<lparr>kv_cells := (kv_cells kv)[st := c], kv_heads := (kv_heads kv)[st := h]\<rparr>"
  show size: "cache_size ?kv = cache_size kv"
    using cache_okD(5) [OF ok] st c(2) by (cases "kv_cells kv"; cases st) (simp_all add: cache_size_def)
  have "stream_ok ?kv s" if "s < kv_n_stream kv" for s
    using cache_okD(4) [OF ok that] cache_okD(5,6) [OF ok] st c h that unfolding stream_ok_def size
    by (cases "s = st") auto
  then show "cache_ok ?kv"
    using ok by (simp add: cache_ok_def config_ok_def prefix_ok_def)
qed

lemma cache_ok_cells:
  assumes "cache_ok kv" "st < kv_n_stream kv" "kv_ok c" "length (cells_of c) = cache_size kv"
    "\<forall>x\<in>set (cells_of c). cell_own (kv_seq_to_stream kv) st x"
  shows "cache_ok (kv\<lparr>kv_cells := (kv_cells kv)[st := c]\<rparr>)" "cache_size (kv\<lparr>kv_cells := (kv_cells kv)[st := c]\<rparr>) = cache_size kv"
proof -
  have "kv\<lparr>kv_cells := (kv_cells kv)[st := c], kv_heads := (kv_heads kv)[st := kv_heads kv ! st]\<rparr> = kv\<lparr>kv_cells := (kv_cells kv)[st := c]\<rparr>"
    by simp
  then show "cache_ok (kv\<lparr>kv_cells := (kv_cells kv)[st := c]\<rparr>)" "cache_size (kv\<lparr>kv_cells := (kv_cells kv)[st := c]\<rparr>) = cache_size kv"
    using cache_ok_stream [OF assms stream_okD(4) [OF assms(1,2)]] by simp_all
qed

lemma cache_ok_layers [simp]: "cache_ok (kv\<lparr>kv_layers := ls\<rparr>) = cache_ok kv" "cache_ok (reset_k_mean s kv) = cache_ok kv"
  by (simp_all add: cache_ok_def config_ok_def prefix_ok_def stream_ok_def cache_size_def reset_k_mean_def)

lemma reset_fields [simp]:
  "kv_cells (reset_k_mean s kv) = kv_cells kv" "kv_heads (reset_k_mean s kv) = kv_heads kv" "config (reset_k_mean s kv) = config kv"
  "kv_prefix_end (reset_k_mean s kv) = kv_prefix_end kv" "kv_sc_info (reset_k_mean s kv) = kv_sc_info kv"
  by (simp_all add: reset_k_mean_def)

lemma cache_ok_prefix:
  assumes "cache_ok kv" "length pe = LLAMA_MAX_SEQ" "\<forall>p\<in>set pe. p = -1 \<or> 0 \<le> p \<and> p \<le> to_i32 (kv_prefix_cap kv)"
  shows "cache_ok (kv\<lparr>kv_prefix_end := pe\<rparr>)"
  using assms by (simp add: cache_ok_def config_ok_def prefix_ok_def stream_ok_def cache_size_def)


section \<open>Loops over a stream\<close>

text \<open>\<open>kv'\<close> is \<open>kv\<close> with the cells of stream \<open>st\<close> mapped by \<open>g\<close>, and perhaps other heads.\<close>

definition mapped :: "llama_kv_cache \<Rightarrow> (nat \<Rightarrow> cell \<Rightarrow> cell) \<Rightarrow> llama_kv_cache \<Rightarrow> bool" where
  "mapped kv g kv' \<longleftrightarrow> cache_ok kv' \<and> config kv' = config kv \<and> cache_size kv' = cache_size kv \<and> kv_sc_info kv' = kv_sc_info kv \<and>
     (\<forall>st<kv_n_stream kv. stream kv' st = map (g st) (stream kv st))"

lemma mappedD:
  assumes "mapped kv g kv'"
  shows "cache_ok kv'" "config kv' = config kv" "cache_size kv' = cache_size kv" "kv_sc_info kv' = kv_sc_info kv"
    "st < kv_n_stream kv \<Longrightarrow> stream kv' st = map (g st) (stream kv st)"
  using assms by (simp_all add: mapped_def)

lemma mapped_refl: "cache_ok kv \<Longrightarrow> mapped kv (\<lambda>_ x. x) kv"
  by (simp add: mapped_def)

lemma mapped_trans: "mapped kv g kv1 \<Longrightarrow> mapped kv1 h kv2 \<Longrightarrow> (\<And>st x. f st x = h st (g st x)) \<Longrightarrow> mapped kv f kv2"
  using config_fields(1) [of kv1 kv] by (auto simp: mapped_def)

lemma cell_own_mono:
  assumes "cell_own sts st x" "\<And>p S sh. x = Some (p, S, sh) \<Longrightarrow> g x = None \<or> (\<exists>S'. g x = Some (p, S', sh) \<and> S' \<noteq> {} \<and> S' \<subseteq> S)" "g None = None"
  shows "cell_own sts st (g x)"
proof (cases x)
  case (Some a)
  obtain p S sh where x: "x = Some (p, S, sh)" by (cases a) (use Some in auto)
  from assms(2) [OF x] show ?thesis
  proof (elim disjE exE conjE)
    fix S'
    assume "g x = Some (p, S', sh)" "S' \<noteq> {}" "S' \<subseteq> S"
    then show ?thesis using assms(1) unfolding x by (auto simp: cell_own_def)
  qed (simp add: cell_own_def)
qed (use assms(3) in \<open>simp add: cell_own_def\<close>)

lemma loop_stream_acts:
  assumes ok: "cache_ok kv" and st: "st < kv_n_stream kv" and f: "acts f P g" and P: "\<forall>x\<in>set (stream kv st). P x"
    and own: "\<And>x. x \<in> set (stream kv st) \<Longrightarrow> cell_own (kv_seq_to_stream kv) st (g x)"
  shows "\<exists>kv'. loop_stream f st kv = Some kv' \<and> mapped kv (\<lambda>t. if t = st then g else id) kv' \<and> kv_prefix_end kv' = kv_prefix_end kv"
proof -
  let ?c = "kv_cells kv ! st"
  obtain h c where loop: "cell_loop f ?c = Some (h, c)" "kv_ok c" "cells_of c = map g (stream kv st)" "h \<le> kc_size ?c"
    using cell_loop_acts [OF f stream_okD(1) [OF ok st] P] by blast
  have size: "length (cells_of c) = cache_size kv" using stream_okD(3) [OF ok st] loop(3) by simp
  let ?h = "lower_head h (kc_size c) (kv_heads kv ! st)"
  let ?kv = "kv\<lparr>kv_cells := (kv_cells kv)[st := c], kv_heads := (kv_heads kv)[st := ?h]\<rparr>"
  have h: "?h \<le> cache_size kv" using stream_okD(4) [OF ok st] by (auto simp: lower_head_def)
  have own': "\<forall>x\<in>set (cells_of c). cell_own (kv_seq_to_stream kv) st x" using own loop(3) by auto
  have "cache_ok ?kv" "cache_size ?kv = cache_size kv" by (rule cache_ok_stream [OF ok st loop(2) size own' h])+
  moreover have "cells_of ((kv_cells kv)[st := c] ! t) = map (if t = st then g else id) (stream kv t)" for t
    using cache_okD(5) [OF ok] st loop(3) by (cases "t = st") auto
  ultimately have "mapped kv (\<lambda>t. if t = st then g else id) ?kv" by (simp add: mapped_def)
  moreover have "loop_stream f st kv = Some ?kv"
    using cache_okD(5,6) [OF ok] st loop(1) by (simp add: loop_stream_def)
  ultimately show ?thesis by auto
qed

text \<open>A loop over all streams.\<close>

lemma loop_streams:
  assumes ok: "cache_ok kv"
    and body: "\<And>st kv1. st < kv_n_stream kv \<Longrightarrow> cache_ok kv1 \<Longrightarrow> config kv1 = config kv \<Longrightarrow> stream kv1 st = stream kv st \<Longrightarrow>
      \<exists>kv2. body st kv1 = Some kv2 \<and> mapped kv1 (\<lambda>t. if t = st then g else id) kv2 \<and> kv_prefix_end kv2 = kv_prefix_end kv1"
  shows "\<exists>kv'. fold_opt body [0..<kv_n_stream kv] kv = Some kv' \<and> mapped kv (\<lambda>_. g) kv' \<and> kv_prefix_end kv' = kv_prefix_end kv"
proof -
  let ?P = "\<lambda>sts kv1. mapped kv (\<lambda>t. if t \<in> set sts then g else id) kv1 \<and> kv_prefix_end kv1 = kv_prefix_end kv"
  have "\<exists>kv'. fold_opt body [0..<kv_n_stream kv] kv = Some kv' \<and> ?P [0..<kv_n_stream kv] kv'"
  proof (rule fold_opt_invariant [where P = ?P])
    fix ys st zs kv1
    assume split: "[0..<kv_n_stream kv] = ys @ st # zs" and P: "?P ys kv1"
    have "st \<in> set [0..<kv_n_stream kv]" unfolding split by simp
    then have st: "st < kv_n_stream kv" by simp
    have new: "st \<notin> set ys" using distinct_upt [of 0 "kv_n_stream kv"] unfolding split by simp
    have kv1: "cache_ok kv1" "config kv1 = config kv" "stream kv1 st = stream kv st"
      using mappedD [OF conjunct1 [OF P]] st new by simp_all
    from body [OF st kv1] obtain kv2 where kv2: "body st kv1 = Some kv2" "mapped kv1 (\<lambda>t. if t = st then g else id) kv2"
      "kv_prefix_end kv2 = kv_prefix_end kv1" by blast
    have "mapped kv (\<lambda>t. if t \<in> set (ys @ [st]) then g else id) kv2"
      by (rule mapped_trans [OF conjunct1 [OF P] kv2(2)]) (use new in auto)
    then show "\<exists>kv2. body st kv1 = Some kv2 \<and> ?P (ys @ [st]) kv2" using kv2 P by auto
  qed (use mapped_refl [OF ok] in \<open>simp add: id_def\<close>)
  then obtain kv' where kv': "fold_opt body [0..<kv_n_stream kv] kv = Some kv'" "?P [0..<kv_n_stream kv] kv'" by blast
  have "mapped kv (\<lambda>_. g) kv'" using kv'(2) by (auto simp: mapped_def)
  then show ?thesis using kv' by auto
qed


section \<open>Removing, keeping and copying sequences\<close>

lemma rm_prefix_ok:
  assumes ok: "cache_ok kv" and s: "s = -1 \<or> seq_ok kv s" and p0: "0 \<le> p0"
  shows "cache_ok (rm_prefix s remove_all p0 p1 kv)" "config (rm_prefix s remove_all p0 p1 kv) = config kv"
    "kv_cells (rm_prefix s remove_all p0 p1 kv) = kv_cells kv" "kv_sc_info (rm_prefix s remove_all p0 p1 kv) = kv_sc_info kv"
proof -
  have len: "length (kv_prefix_end kv) = LLAMA_MAX_SEQ" and all: "\<forall>pe\<in>set (kv_prefix_end kv). pe = -1 \<or> 0 \<le> pe \<and> pe \<le> to_i32 (kv_prefix_cap kv)"
    using cache_okD(2) [OF ok] by (simp_all add: prefix_ok_def)
  have trim: "trim_prefix p0 p1 pe = -1 \<or> 0 \<le> trim_prefix p0 p1 pe \<and> trim_prefix p0 p1 pe \<le> to_i32 (kv_prefix_cap kv)"
    if "pe \<in> set (kv_prefix_end kv)" for pe using all that p0 by (auto simp: trim_prefix_def)
  show "cache_ok (rm_prefix s remove_all p0 p1 kv)"
  proof (cases "prefix_sliding_enabled kv")
    case True
    have "cache_ok (kv\<lparr>kv_prefix_end := map (\<lambda>pe. if remove_all then -1 else trim_prefix p0 p1 pe) (kv_prefix_end kv)\<rparr>)"
      by (rule cache_ok_prefix [OF ok]) (use len trim in auto)
    moreover have "cache_ok (kv\<lparr>kv_prefix_end := (kv_prefix_end kv)[nat s :=
        if remove_all then -1 else trim_prefix p0 p1 (kv_prefix_end kv ! nat s)]\<rparr>)" if "seq_ok kv s"
    proof (rule cache_ok_prefix [OF ok])
      have "kv_prefix_end kv ! nat s \<in> set (kv_prefix_end kv)" using seq_stream(4) [OF ok that] by simp
      from trim [OF this] show "\<forall>p\<in>set ((kv_prefix_end kv)[nat s := if remove_all then -1 else trim_prefix p0 p1 (kv_prefix_end kv ! nat s)]).
          p = -1 \<or> 0 \<le> p \<and> p \<le> to_i32 (kv_prefix_cap kv)"
        using all set_update_subset_insert [of "kv_prefix_end kv" "nat s"] by auto
    qed (simp add: len)
    ultimately show ?thesis using True s by (auto simp: rm_prefix_def seq_ok_def)
  qed (use ok in \<open>simp add: rm_prefix_def\<close>)
qed (simp_all add: rm_prefix_def)

lemma cell_own_on_range:
  assumes "cell_own sts st x" "cell_own sts st x \<Longrightarrow> in_range p0 p1 x \<Longrightarrow> nat s \<in> cell_seqs x \<Longrightarrow> cell_own sts st (g x)"
  shows "cell_own sts st (on_range s p0 p1 g x)"
  using assms by (simp add: on_range_def)

lemma cell_own_drop: "cell_own sts st x \<Longrightarrow> cell_own sts st (drop_seq s x)"
  by (rule cell_own_mono) (auto simp: drop_seq_def)

lemma cell_own_keep: "cell_own sts st x \<Longrightarrow> cell_own sts st (keep_seq s x)"
  by (rule cell_own_mono) (auto simp: keep_seq_def)

lemma cache_size_cells: "kv_cells kv' = kv_cells kv \<Longrightarrow> cache_size kv' = cache_size kv"
  by (simp add: cache_size_def)

lemma seq_rm_effect:
  assumes ok: "cache_ok kv" and s: "seq_ok kv s"
  shows "\<exists>kv'. kv_seq_rm s p0 p1 kv = Some kv' \<and>
    mapped kv (\<lambda>t. if t = kv_seq_to_stream kv ! nat s then on_range s (pos_first p0) (pos_last p1) (drop_seq (nat s)) else id) kv' \<and>
    (\<not> prefix_sliding_enabled kv \<longrightarrow> kv_prefix_end kv' = kv_prefix_end kv)"
proof -
  let ?st = "kv_seq_to_stream kv ! nat s" and ?g = "on_range s (pos_first p0) (pos_last p1) (drop_seq (nat s))"
  let ?all = "p0 \<le> 0 \<and> p1 < 0"
  let ?kv = "rm_prefix s ?all (pos_first p0) (pos_last p1) kv"
  note kv = rm_prefix_ok [OF ok disjI2 [OF s], of "pos_first p0" ?all "pos_last p1", OF pos_bounds(1)]
  note conf = config_fields [OF kv(2)]
  note st = seq_stream [OF ok s]
  have "\<exists>kv'. loop_stream (seq_rm_cell s (pos_first p0) (pos_last p1)) ?st ?kv = Some kv' \<and>
      mapped ?kv (\<lambda>t. if t = ?st then ?g else id) kv' \<and> kv_prefix_end kv' = kv_prefix_end ?kv"
  proof (rule loop_stream_acts [OF kv(1) _ acts_seq_rm [OF st(3) pos_bounds(1)]])
    show "?st < kv_n_stream ?kv" using st(2) conf(1) by simp
    fix x assume "x \<in> set (stream ?kv ?st)"
    then have "cell_own (kv_seq_to_stream kv) ?st x" using stream_okD(5) [OF ok st(2)] kv(3) by simp
    then show "cell_own (kv_seq_to_stream ?kv) ?st (?g x)"
      unfolding conf(2) by (auto intro!: cell_own_on_range cell_own_drop)
  qed simp
  then obtain kv' where kv': "loop_stream (seq_rm_cell s (pos_first p0) (pos_last p1)) ?st ?kv = Some kv'"
    "mapped ?kv (\<lambda>t. if t = ?st then ?g else id) kv'" "kv_prefix_end kv' = kv_prefix_end ?kv" by blast
  have m: "mapped kv (\<lambda>t. if t = ?st then ?g else id) kv'"
    using kv'(2) kv(2-4) conf(1) cache_size_cells [OF kv(3)] by (simp add: mapped_def)
  have "?st < length (kv_cells kv')" using cache_okD(5) [OF mappedD(1) [OF m]] config_fields(1) [OF mappedD(2) [OF m]] st(2) by simp
  moreover have "mapped kv g (reset_k_mean st kv') = mapped kv g kv'" for g st by (simp add: mapped_def cache_size_def)
  moreover have "\<not> prefix_sliding_enabled kv \<Longrightarrow> kv_prefix_end ?kv = kv_prefix_end kv" by (simp add: rm_prefix_def)
  ultimately show ?thesis using kv' m s st(1) conf(9) by (auto simp: kv_seq_rm_def bind_check Let_def seq_ok_def)
qed

lemma seq_rm_any_effect:
  assumes ok: "cache_ok kv"
  shows "\<exists>kv'. kv_seq_rm (-1) p0 p1 kv = Some kv' \<and> mapped kv (\<lambda>_ x. if in_range (pos_first p0) (pos_last p1) x then None else x) kv'"
proof -
  let ?g = "\<lambda>x. if in_range (pos_first p0) (pos_last p1) x then None else x"
  let ?all = "p0 \<le> 0 \<and> p1 < 0"
  let ?kv = "rm_prefix (-1) ?all (pos_first p0) (pos_last p1) kv"
  note kv = rm_prefix_ok [OF ok disjI1 [OF refl], of "pos_first p0" ?all "pos_last p1", OF pos_bounds(1)]
  note conf = config_fields [OF kv(2)]
  have "\<exists>kv'. fold_opt (\<lambda>st kv. do {
         kv \<leftarrow> loop_stream (rm_cell (pos_first p0) (pos_last p1)) st kv;
         Some (if ?all then reset_k_mean st kv else kv) }) [0..<kv_n_stream ?kv] ?kv = Some kv' \<and> mapped ?kv (\<lambda>_. ?g) kv' \<and>
      kv_prefix_end kv' = kv_prefix_end ?kv"
  proof (rule loop_streams [OF kv(1)])
    fix st kv1
    assume st: "st < kv_n_stream ?kv" and kv1: "cache_ok kv1" "config kv1 = config ?kv" "stream kv1 st = stream ?kv st"
    have st1: "st < kv_n_stream kv1" using st config_fields(1) [OF kv1(2)] by simp
    have own: "cell_own (kv_seq_to_stream kv1) st (?g x)" if "x \<in> set (stream kv1 st)" for x
      using stream_okD(5) [OF kv1(1) st1 that] by (simp add: cell_own_def)
    have "\<exists>kv2. loop_stream (rm_cell (pos_first p0) (pos_last p1)) st kv1 = Some kv2 \<and>
        mapped kv1 (\<lambda>t. if t = st then ?g else id) kv2 \<and> kv_prefix_end kv2 = kv_prefix_end kv1"
      by (rule loop_stream_acts [OF kv1(1) st1 acts_rm [OF pos_bounds(1)]]) (simp, rule own)
    then obtain kv2 where kv2: "loop_stream (rm_cell (pos_first p0) (pos_last p1)) st kv1 = Some kv2"
      "mapped kv1 (\<lambda>t. if t = st then ?g else id) kv2" "kv_prefix_end kv2 = kv_prefix_end kv1" by blast
    moreover have "mapped kv1 g (reset_k_mean st kv2) = mapped kv1 g kv2" for g by (simp add: mapped_def cache_size_def)
    ultimately show "\<exists>kv2. (do { kv \<leftarrow> loop_stream (rm_cell (pos_first p0) (pos_last p1)) st kv1;
         Some (if ?all then reset_k_mean st kv else kv) }) = Some kv2 \<and> mapped kv1 (\<lambda>t. if t = st then ?g else id) kv2 \<and>
        kv_prefix_end kv2 = kv_prefix_end kv1" by simp
  qed
  then obtain kv' where kv': "kv_seq_rm (-1) p0 p1 kv = Some kv'" "mapped ?kv (\<lambda>_. ?g) kv'"
    by (auto simp: kv_seq_rm_def bind_check Let_def)
  then have "mapped kv (\<lambda>_. ?g) kv'" using kv(2-4) conf(1) cache_size_cells [OF kv(3)] by (simp add: mapped_def)
  with kv' show ?thesis by blast
qed


lemma own_nonempty: "cell_own sts st x \<Longrightarrow> x = None \<or> cell_seqs x \<noteq> {}"
  by (cases x) (auto simp: cell_own_def)

lemma seq_keep_effect:
  assumes ok: "cache_ok kv" and s: "seq_ok kv s"
  shows "\<exists>kv'. kv_seq_keep s kv = Some kv' \<and>
    mapped kv (\<lambda>t. if t = kv_seq_to_stream kv ! nat s \<or> prefix_sliding_enabled kv then keep_seq (nat s) else id) kv'"
proof (cases "prefix_sliding_enabled kv")
  case True
  let ?st = "kv_seq_to_stream kv ! nat s"
  let ?body = "\<lambda>st kv. do { kv \<leftarrow> loop_stream (\<lambda>i. kc_seq_keep i s) st kv; Some (if st \<noteq> ?st then reset_k_mean st kv else kv) }"
  have "\<exists>kv'. fold_opt ?body [0..<kv_n_stream kv] kv = Some kv' \<and> mapped kv (\<lambda>_. keep_seq (nat s)) kv' \<and> kv_prefix_end kv' = kv_prefix_end kv"
  proof (rule loop_streams [OF ok])
    fix st kv1
    assume st: "st < kv_n_stream kv" and kv1: "cache_ok kv1" "config kv1 = config kv"
    have st1: "st < kv_n_stream kv1" using st config_fields(1) [OF kv1(2)] by simp
    note own = stream_okD(5) [OF kv1(1) st1]
    have "\<exists>kv2. loop_stream (\<lambda>i. kc_seq_keep i s) st kv1 = Some kv2 \<and>
        mapped kv1 (\<lambda>t. if t = st then keep_seq (nat s) else id) kv2 \<and> kv_prefix_end kv2 = kv_prefix_end kv1"
      by (rule loop_stream_acts [OF kv1(1) st1 acts_keep [OF seq_stream(3) [OF ok s]]])
        (use own own_nonempty cell_own_keep in blast)+
    then obtain kv2 where kv2: "loop_stream (\<lambda>i. kc_seq_keep i s) st kv1 = Some kv2"
      "mapped kv1 (\<lambda>t. if t = st then keep_seq (nat s) else id) kv2" "kv_prefix_end kv2 = kv_prefix_end kv1" by blast
    moreover have "mapped kv1 g (if st \<noteq> ?st then reset_k_mean st kv2 else kv2) = mapped kv1 g kv2" for g
      by (simp add: mapped_def cache_size_def)
    ultimately show "\<exists>kv2. ?body st kv1 = Some kv2 \<and> mapped kv1 (\<lambda>t. if t = st then keep_seq (nat s) else id) kv2 \<and>
        kv_prefix_end kv2 = kv_prefix_end kv1" by auto
  qed
  then obtain kv' where kv': "fold_opt ?body [0..<kv_n_stream kv] kv = Some kv'" "mapped kv (\<lambda>_. keep_seq (nat s)) kv'" by blast
  let ?pe = "map (\<lambda>cur. if int cur \<noteq> s then -1 else kv_prefix_end kv' ! cur) [0..<length (kv_prefix_end kv')]"
  have "cache_ok (kv'\<lparr>kv_prefix_end := ?pe\<rparr>)"
    by (rule cache_ok_prefix) (use mappedD(1) [OF kv'(2)] cache_okD(2) [of kv'] in \<open>auto simp: prefix_ok_def\<close>)
  then have "mapped kv (\<lambda>_. keep_seq (nat s)) (kv'\<lparr>kv_prefix_end := ?pe\<rparr>)" using kv'(2) by (simp add: mapped_def cache_size_def)
  moreover have "kv_seq_keep s kv = Some (kv'\<lparr>kv_prefix_end := ?pe\<rparr>)"
    using kv'(1) True seq_stream(1) [OF ok s] by (simp add: kv_seq_keep_def)
  ultimately show ?thesis using True by simp
next
  case False
  note st = seq_stream [OF ok s]
  have "\<exists>kv'. loop_stream (\<lambda>i. kc_seq_keep i s) (kv_seq_to_stream kv ! nat s) kv = Some kv' \<and>
      mapped kv (\<lambda>t. if t = kv_seq_to_stream kv ! nat s then keep_seq (nat s) else id) kv' \<and> kv_prefix_end kv' = kv_prefix_end kv"
    by (rule loop_stream_acts [OF ok st(2) acts_keep [OF st(3)]]) (use stream_okD(5) [OF ok st(2)] own_nonempty cell_own_keep in blast)+
  then show ?thesis using False st(1) by (auto simp: kv_seq_keep_def)
qed

text \<open>Loops that leave the head alone.\<close>

lemma loop_cells_acts:
  assumes ok: "cache_ok kv" and st: "st < kv_n_stream kv" and f: "acts f P g" and P: "\<forall>x\<in>set (stream kv st). P x"
    and own: "\<And>x. x \<in> set (stream kv st) \<Longrightarrow> cell_own (kv_seq_to_stream kv) st (g x)"
  shows "\<exists>h c. cell_loop f (kv_cells kv ! st) = Some (h, c) \<and> h \<le> cache_size kv \<and> kc_size c = cache_size kv \<and>
    mapped kv (\<lambda>t. if t = st then g else id) (kv\<lparr>kv_cells := (kv_cells kv)[st := c]\<rparr>) \<and>
    (\<forall>k\<le>cache_size kv. mapped kv (\<lambda>t. if t = st then g else id) (kv\<lparr>kv_cells := (kv_cells kv)[st := c], kv_heads := (kv_heads kv)[st := k]\<rparr>))"
proof -
  obtain h c where loop: "cell_loop f (kv_cells kv ! st) = Some (h, c)" "kv_ok c" "cells_of c = map g (stream kv st)" "h \<le> kc_size (kv_cells kv ! st)"
    using cell_loop_acts [OF f stream_okD(1) [OF ok st] P] by blast
  have size: "length (cells_of c) = cache_size kv" using stream_okD(3) [OF ok st] loop(3) by simp
  have own': "\<forall>x\<in>set (cells_of c). cell_own (kv_seq_to_stream kv) st x" using own loop(3) by auto
  have cells: "cells_of ((kv_cells kv)[st := c] ! t) = map (if t = st then g else id) (stream kv t)" for t
    using cache_okD(5) [OF ok] st loop(3) by (cases "t = st") auto
  have "mapped kv (\<lambda>t. if t = st then g else id) (kv\<lparr>kv_cells := (kv_cells kv)[st := c]\<rparr>)"
    using cache_ok_cells [OF ok st loop(2) size own'] cells by (simp add: mapped_def)
  moreover have "mapped kv (\<lambda>t. if t = st then g else id) (kv\<lparr>kv_cells := (kv_cells kv)[st := c], kv_heads := (kv_heads kv)[st := k]\<rparr>)"
    if "k \<le> cache_size kv" for k
    using cache_ok_stream [OF ok st loop(2) size own' that] cells by (simp add: mapped_def)
  ultimately show ?thesis using loop(1,4) stream_okD(2) [OF ok st] size by auto
qed

definition add_ok :: "llama_kv_cache \<Rightarrow> int \<Rightarrow> int \<Rightarrow> int \<Rightarrow> int \<Rightarrow> bool" where
  "add_ok kv s p0 p1 d \<longleftrightarrow> (\<forall>x\<in>set (stream kv (kv_seq_to_stream kv ! nat s)).
     in_range (pos_first p0) (pos_last p1) x \<and> nat s \<in> cell_seqs x \<longrightarrow> moves_ok d x)"

definition div_ok :: "llama_kv_cache \<Rightarrow> int \<Rightarrow> int \<Rightarrow> int \<Rightarrow> nat \<Rightarrow> bool" where
  "div_ok kv s p0 p1 d \<longleftrightarrow> (\<forall>x\<in>set (stream kv (kv_seq_to_stream kv ! nat s)).
     in_range (pos_first p0) (pos_last p1) x \<and> nat s \<in> cell_seqs x \<longrightarrow> shrinks_ok d x)"

lemma s32_range: "s32 v \<noteq> None \<longleftrightarrow> - (2 ^ 31) \<le> v \<and> v < 2 ^ 31"
  by (simp add: s32_def)

lemma cell_own_move: "cell_own sts st x \<Longrightarrow> moves_ok d x \<Longrightarrow> cell_own sts st (move_pos d x)"
  by (cases x) (auto simp: cell_own_def moves_ok_def move_pos_def s32_range LLAMA_POS_MAX_def simp del: not_None_eq split: if_splits option.splits)

lemma cell_own_shrink: "cell_own sts st x \<Longrightarrow> shrinks_ok d x \<Longrightarrow> cell_own sts st (shrink_pos d x)"
  by (cases x) (auto simp: cell_own_def shrinks_ok_def shrink_pos_def s32_range simp del: not_None_eq split: option.splits)

lemma cell_own_join: "cell_own sts st x \<Longrightarrow> s < length sts \<Longrightarrow> sts ! s = st \<Longrightarrow> cell_own sts st (join_seq s x)"
  by (cases x) (auto simp: cell_own_def join_seq_def)

lemma seq_add_effect:
  assumes ok: "cache_ok kv" and s: "seq_ok kv s" and d: "add_ok kv s p0 p1 d"
  shows "\<exists>kv'. kv_seq_add s p0 p1 d kv = Some kv' \<and>
    mapped kv (\<lambda>t. if t = kv_seq_to_stream kv ! nat s \<and> \<not> (prefix_sliding_enabled kv \<or> d = 0 \<or> pos_first p0 = pos_last p1)
      then on_range s (pos_first p0) (pos_last p1) (move_pos d) else id) kv'"
proof (cases "prefix_sliding_enabled kv \<or> d = 0 \<or> pos_first p0 = pos_last p1")
  case True
  then show ?thesis using seq_stream(1) [OF ok s] mapped_refl [OF ok] by (auto simp: kv_seq_add_def id_def)
next
  case False
  let ?st = "kv_seq_to_stream kv ! nat s" and ?g = "on_range s (pos_first p0) (pos_last p1) (move_pos d)"
  note st = seq_stream [OF ok s]
  have "cell_own (kv_seq_to_stream kv) ?st (?g x)" if "x \<in> set (stream kv ?st)" for x
    using stream_okD(5) [OF ok st(2) that] d that by (auto intro!: cell_own_on_range cell_own_move simp: add_ok_def)
  then have "\<exists>h c. cell_loop (seq_add_cell s (pos_first p0) (pos_last p1) d) (kv_cells kv ! ?st) = Some (h, c) \<and> h \<le> cache_size kv \<and>
      kc_size c = cache_size kv \<and> mapped kv (\<lambda>t. if t = ?st then ?g else id) (kv\<lparr>kv_cells := (kv_cells kv)[?st := c]\<rparr>) \<and>
      (\<forall>k\<le>cache_size kv. mapped kv (\<lambda>t. if t = ?st then ?g else id) (kv\<lparr>kv_cells := (kv_cells kv)[?st := c], kv_heads := (kv_heads kv)[?st := k]\<rparr>))"
    by (intro loop_cells_acts [OF ok st(2) acts_add [OF st(3) pos_bounds(1)]]) (use d in \<open>auto simp: add_ok_def\<close>)
  then obtain h c where loop: "cell_loop (seq_add_cell s (pos_first p0) (pos_last p1) d) (kv_cells kv ! ?st) = Some (h, c)" "h \<le> cache_size kv"
    "kc_size c = cache_size kv"
    "\<forall>k\<le>cache_size kv. mapped kv (\<lambda>t. if t = ?st then ?g else id) (kv\<lparr>kv_cells := (kv_cells kv)[?st := c], kv_heads := (kv_heads kv)[?st := k]\<rparr>)"
    by blast
  have "mapped kv (\<lambda>t. if t = ?st then ?g else id)
      (kv\<lparr>kv_cells := (kv_cells kv)[?st := c], kv_heads := (kv_heads kv)[?st := if h \<noteq> kc_size c then h else 0]\<rparr>)"
    using loop(2-4) by simp
  then show ?thesis using False st(1,2) loop(1) cache_okD(5,6) [OF ok] by (simp add: kv_seq_add_def)
qed

lemma seq_div_effect:
  assumes ok: "cache_ok kv" and s: "seq_ok kv s" and d: "0 < d" "div_ok kv s p0 p1 d"
  shows "\<exists>kv'. kv_seq_div s p0 p1 (int d) kv = Some kv' \<and>
    mapped kv (\<lambda>t. if t = kv_seq_to_stream kv ! nat s \<and> \<not> (prefix_sliding_enabled kv \<or> d = 1 \<or> pos_first p0 = pos_last p1)
      then on_range s (pos_first p0) (pos_last p1) (shrink_pos d) else id) kv'"
proof (cases "prefix_sliding_enabled kv \<or> d = 1 \<or> pos_first p0 = pos_last p1")
  case True
  then show ?thesis using seq_stream(1) [OF ok s] mapped_refl [OF ok] by (auto simp: kv_seq_div_def id_def)
next
  case False
  let ?st = "kv_seq_to_stream kv ! nat s" and ?g = "on_range s (pos_first p0) (pos_last p1) (shrink_pos d)"
  note st = seq_stream [OF ok s]
  have "cell_own (kv_seq_to_stream kv) ?st (?g x)" if "x \<in> set (stream kv ?st)" for x
    using stream_okD(5) [OF ok st(2) that] d(2) that by (auto intro!: cell_own_on_range cell_own_shrink simp: div_ok_def)
  then have "\<exists>h c. cell_loop (seq_div_cell s (pos_first p0) (pos_last p1) (int d)) (kv_cells kv ! ?st) = Some (h, c) \<and> h \<le> cache_size kv \<and>
      kc_size c = cache_size kv \<and> mapped kv (\<lambda>t. if t = ?st then ?g else id) (kv\<lparr>kv_cells := (kv_cells kv)[?st := c]\<rparr>) \<and>
      (\<forall>k\<le>cache_size kv. mapped kv (\<lambda>t. if t = ?st then ?g else id) (kv\<lparr>kv_cells := (kv_cells kv)[?st := c], kv_heads := (kv_heads kv)[?st := k]\<rparr>))"
    by (intro loop_cells_acts [OF ok st(2) acts_div [OF st(3) pos_bounds(1) d(1)]]) (use d in \<open>auto simp: div_ok_def\<close>)
  then show ?thesis using False st(1,2) cache_okD(5,6) [OF ok] d(1) by (auto simp: kv_seq_div_def)
qed

end
