(* ===== verification/KV_Apply.thy ===== *)
theory KV_Apply
  imports KV_Inv
begin

text \<open>
  Writing a micro batch (\<open>llama_kv_cache::apply_ubatch\<close>) on the list of cells: the cells of the slot become the
  tokens, and the sequences lose the positions up to the last one of theirs that was overwritten.
\<close>

section \<open>One token\<close>

abbreviation token_seqs :: "'f llama_ubatch \<Rightarrow> nat \<Rightarrow> int list" where
  "token_seqs ub i \<equiv> row_of (ub_n_seq_id ub) (ub_seq_id ub) i"

definition token_cell :: "'f llama_ubatch \<Rightarrow> nat \<Rightarrow> cell" where
  "token_cell ub i = Some (ub_pos ub ! i, nat ` set (token_seqs ub i), 0)"

definition token_ok :: "nat list \<Rightarrow> nat \<Rightarrow> 'f llama_ubatch \<Rightarrow> nat \<Rightarrow> bool" where
  "token_ok sts st ub i \<longleftrightarrow> i < length (ub_pos ub) \<and> i < length (ub_n_seq_id ub) \<and> i < length (ub_seq_id ub) \<and>
     0 < ub_n_seq_id ub ! i \<and> nat (ub_n_seq_id ub ! i) \<le> length (ub_seq_id ub ! i) \<and> distinct (token_seqs ub i) \<and>
     (\<forall>s\<in>set (token_seqs ub i). 0 \<le> s \<and> nat s < length sts \<and> sts ! nat s = st) \<and>
     0 \<le> ub_pos ub ! i \<and> ub_pos ub ! i < LLAMA_POS_MAX"

lemma token_cell_own: "token_ok sts st ub i \<Longrightarrow> cell_own sts st (token_cell ub i)"
  by (auto simp: token_ok_def token_cell_def cell_own_def row_of_def LLAMA_POS_MAX_def)

text \<open>A cell that a token may take: empty, or with one sequence.\<close>

definition single :: "cell \<Rightarrow> bool" where
  "single x \<longleftrightarrow> (case x of None \<Rightarrow> True | Some (p, S, sh) \<Rightarrow> \<exists>s. S = {s})"

text \<open>What the overwritten cells leave in \<open>seq_pos_max_rm\<close>.\<close>

definition overwrite :: "bool \<Rightarrow> cell \<Rightarrow> (nat \<Rightarrow> int) \<Rightarrow> nat \<Rightarrow> int" where
  "overwrite sliding x mx = (case x of None \<Rightarrow> mx
     | Some (p, S, sh) \<Rightarrow> if sliding then mx else mx(the_elem S := max (mx (the_elem S)) p))"

lemma add_seqs:
  assumes ok: "kv_ok c" and idx: "idx < kc_size c" and cell: "cells_of c ! idx = Some (p, {}, 0)"
    and row: "n \<le> length row" "distinct (take n row)" "\<forall>s\<in>set (take n row). seq_id_ok s"
  shows "\<exists>c'. fold_opt (\<lambda>k c. do { s \<leftarrow> vec_at row k; kc_seq_add idx s c }) [0..<n] c = Some c' \<and> kv_ok c' \<and>
    cells_of c' = (cells_of c)[idx := Some (p, nat ` set (take n row), 0)]"
proof -
  let ?P = "\<lambda>ks c'. kv_ok c' \<and> cells_of c' = (cells_of c)[idx := Some (p, (\<lambda>k. nat (row ! k)) ` set ks, 0)]"
  have "\<exists>c'. fold_opt (\<lambda>k c. do { s \<leftarrow> vec_at row k; kc_seq_add idx s c }) [0..<n] c = Some c' \<and> ?P [0..<n] c'"
  proof (rule fold_opt_invariant [where P = ?P])
    have "(cells_of c)[idx := Some (p, {}, 0)] = cells_of c" unfolding cell [symmetric] by (rule list_update_id)
    then show "?P [] c" using ok by simp
    fix ys k zs c1
    assume split: "[0..<n] = ys @ k # zs" and P: "?P ys c1"
    have "k \<in> set [0..<n]" and sub: "set ys \<subseteq> set [0..<n]" unfolding split by auto
    then have k: "k < n" by simp
    have new: "k \<notin> set ys" using distinct_upt [of 0 n] unfolding split by simp
    have id: "seq_id_ok (row ! j)" if "j < n" for j
      using row(1,3) that nth_mem [of j "take n row"] by simp
    have "nat (row ! j) \<noteq> nat (row ! k)" if "j \<in> set ys" for j
    proof -
      have j: "j < n" "j \<noteq> k" using that sub new by auto
      then have "take n row ! j \<noteq> take n row ! k" using row(1) k nth_eq_iff_index_eq [OF row(2), of j k] by simp
      then show ?thesis using id [OF j(1)] id [OF k] j(1) k by (simp add: seq_id_ok_def eq_nat_nat_iff)
    qed
    then have fresh: "nat (row ! k) \<notin> (\<lambda>k. nat (row ! k)) ` set ys" by (metis imageE)
    have size: "idx < kc_size c1" using arg_cong [OF conjunct2 [OF P], of length] idx by simp
    have "cells_of c1 ! idx = Some (p, (\<lambda>k. nat (row ! k)) ` set ys, 0)" using P idx by simp
    then have "cell_seq_add (row ! k) (cells_of c1 ! idx) = Some ((), Some (p, insert (nat (row ! k)) ((\<lambda>k. nat (row ! k)) ` set ys), 0))"
      using fresh id [OF k] by simp
    from sim_cell_unit [OF kc_seq_add_sim [OF conjunct1 [OF P]] size this]
    obtain c2 where "kc_seq_add idx (row ! k) c1 = Some c2" "kv_ok c2"
      "cells_of c2 = (cells_of c1)[idx := Some (p, insert (nat (row ! k)) ((\<lambda>k. nat (row ! k)) ` set ys), 0)]" by metis
    then show "\<exists>c2. (do { s \<leftarrow> vec_at row k; kc_seq_add idx s c1 }) = Some c2 \<and> ?P (ys @ [k]) c2"
      using P k row(1) by simp
  qed
  moreover have "(\<lambda>k. nat (row ! k)) ` set [0..<n] = nat ` set (take n row)"
    using nth_image [OF row(1)] by (simp add: image_image [symmetric] lessThan_atLeast0)
  ultimately show ?thesis by simp
qed

lemma put_token_effect:
  assumes ok: "kv_ok c" and idx: "idx < kc_size c" and single: "single (cells_of c ! idx)"
    and tok: "token_ok sts st ub i" "length sts \<le> LLAMA_MAX_SEQ"
  shows "\<exists>c'. put_token sliding ub i idx (c, mx) = Some (c', overwrite sliding (cells_of c ! idx) mx) \<and> kv_ok c' \<and>
    cells_of c' = (cells_of c)[idx := token_cell ub i]"
proof -
  let ?cleared = "do { e \<leftarrow> kc_is_empty c idx;
     if e then Some (c, mx)
       else do {
         n \<leftarrow> kc_seq_count c idx; check (n = 1);
         owner \<leftarrow> kc_seq_get c idx; p \<leftarrow> kc_pos_get c idx;
         c \<leftarrow> kc_rm idx c;
         Some (c, if sliding then mx else mx(nat owner := max (mx (nat owner)) p)) } }"
  have "\<exists>c1. ?cleared = Some (c1, overwrite sliding (cells_of c ! idx) mx) \<and> kv_ok c1 \<and> cells_of c1 = (cells_of c)[idx := None]"
  proof (cases "cells_of c ! idx")
    case None
    then have "(cells_of c)[idx := None] = cells_of c" by (metis list_update_id)
    then show ?thesis using ok by (simp add: cell_facts(1) [OF ok idx] None overwrite_def)
  next
    case (Some a)
    obtain p s sh where cell: "cells_of c ! idx = Some (p, {s}, sh)" using single Some by (cases a) (auto simp: single_def)
    have "cell_rm (cells_of c ! idx) = Some ((), None)" by (simp add: cell)
    from sim_cell_unit [OF kc_rm_sim [OF ok] idx this] obtain c1 where "kc_rm idx c = Some c1" "kv_ok c1" "cells_of c1 = (cells_of c)[idx := None]" by metis
    then show ?thesis
      using cell_facts(1) [OF ok idx] cell_facts(4) [OF ok idx cell] cell_facts(5) [OF ok idx cell]
      by (simp add: cell overwrite_def)
  qed
  then obtain c1 where c1: "?cleared = Some (c1, overwrite sliding (cells_of c ! idx) mx)" "kv_ok c1" "cells_of c1 = (cells_of c)[idx := None]"
    by blast
  have idx1: "idx < kc_size c1" using arg_cong [OF c1(3), of length] idx by simp
  let ?p = "ub_pos ub ! i" and ?n = "nat (ub_n_seq_id ub ! i)" and ?row = "ub_seq_id ub ! i"
  have p: "0 \<le> ?p" using tok(1) by (simp add: token_ok_def)
  have "cell_pos_set (nat ?p) (cells_of c1 ! idx) = Some ((), Some (?p, {}, 0))" using c1(3) idx p by simp
  from sim_cell_unit [OF kc_pos_set_sim [OF c1(2)] idx1 this] p
  obtain c2 where c2: "kc_pos_set idx ?p c1 = Some c2" "kv_ok c2" "cells_of c2 = (cells_of c1)[idx := Some (?p, {}, 0)]" by (metis int_nat_eq)
  have idx2: "idx < kc_size c2" using arg_cong [OF c2(3), of length] idx1 by simp
  have "cells_of c2 ! idx = Some (?p, {}, 0)" using c2(3) idx1 by simp
  then have "\<exists>c3. fold_opt (\<lambda>k c. do { s \<leftarrow> vec_at ?row k; kc_seq_add idx s c }) [0..<?n] c2 = Some c3 \<and> kv_ok c3 \<and>
      cells_of c3 = (cells_of c2)[idx := Some (?p, nat ` set (take ?n ?row), 0)]"
    using tok by (intro add_seqs [OF c2(2) idx2]) (auto simp: token_ok_def row_of_def seq_id_ok_def)
  then obtain c3 where c3: "fold_opt (\<lambda>k c. do { s \<leftarrow> vec_at ?row k; kc_seq_add idx s c }) [0..<?n] c2 = Some c3" "kv_ok c3"
      "cells_of c3 = (cells_of c2)[idx := Some (?p, nat ` set (take ?n ?row), 0)]" by blast
  have "cells_of c3 = (cells_of c)[idx := token_cell ub i]"
    unfolding c3(3) c2(3) c1(3) by (simp add: token_cell_def row_of_def)
  moreover have "put_token sliding ub i idx (c, mx) = Some (c3, overwrite sliding (cells_of c ! idx) mx)"
  proof -
    have "put_token sliding ub i idx (c, mx) = ?cleared \<bind> (\<lambda>(c, mx). do {
        p \<leftarrow> vec_at (ub_pos ub) i; c \<leftarrow> kc_pos_set idx p c; n \<leftarrow> vec_at (ub_n_seq_id ub) i; row \<leftarrow> vec_at (ub_seq_id ub) i;
        c \<leftarrow> fold_opt (\<lambda>k c. do { s \<leftarrow> vec_at row k; kc_seq_add idx s c }) [0..<nat n] c; Some (c, mx) })"
      by (simp add: put_token_def)
    then show ?thesis unfolding c1(1) using tok(1) c2(1) c3(1) by (simp add: token_ok_def)
  qed
  ultimately show ?thesis using c3(2) by blast
qed


section \<open>The tokens of a stream\<close>

text \<open>The cells after the tokens from \<open>k\<close> on have been written to \<open>idxs\<close>.\<close>

definition put_cells :: "'f llama_ubatch \<Rightarrow> nat \<Rightarrow> nat list \<Rightarrow> cell list \<Rightarrow> cell list" where
  "put_cells ub k idxs cs = map (\<lambda>j. case map_of (zip idxs [0..<length idxs]) j of None \<Rightarrow> cs ! j | Some ii \<Rightarrow> token_cell ub (k + ii)) [0..<length cs]"

lemma length_put_cells [simp]: "length (put_cells ub k idxs cs) = length cs"
  by (simp add: put_cells_def)

lemma slot_of_idx: "distinct idxs \<Longrightarrow> ii < length idxs \<Longrightarrow> map_of (zip idxs [0..<length idxs]) (idxs ! ii) = Some ii"
  by (rule map_of_is_SomeI) (auto simp: set_zip)

lemma slot_of_none: "map_of (zip idxs [0..<length idxs]) j = None \<longleftrightarrow> j \<notin> set idxs"
  by (simp add: map_of_zip_is_None)

lemma put_cells_at:
  assumes "distinct idxs"
  shows "j < length cs \<Longrightarrow> j \<notin> set idxs \<Longrightarrow> put_cells ub k idxs cs ! j = cs ! j"
    and "ii < length idxs \<Longrightarrow> idxs ! ii < length cs \<Longrightarrow> put_cells ub k idxs cs ! (idxs ! ii) = token_cell ub (k + ii)"
proof -
  show "put_cells ub k idxs cs ! j = cs ! j" if "j < length cs" "j \<notin> set idxs"
    using that iffD2 [OF slot_of_none, of j idxs] by (simp add: put_cells_def del: map_of_zip_is_None)
  show "put_cells ub k idxs cs ! (idxs ! ii) = token_cell ub (k + ii)" if "ii < length idxs" "idxs ! ii < length cs"
    using that slot_of_idx [OF assms that(1)] by (simp add: put_cells_def)
qed

lemma put_tokens_effect:
  assumes ok: "kv_ok c" and idxs: "distinct idxs" "\<forall>i\<in>set idxs. i < kc_size c \<and> single (cells_of c ! i)"
    and tok: "\<And>ii. ii < length idxs \<Longrightarrow> token_ok sts st ub (k + ii)" "length sts \<le> LLAMA_MAX_SEQ"
  shows "\<exists>c'. fold_opt (\<lambda>ii a. do { idx \<leftarrow> vec_at idxs ii; put_token sliding ub (k + ii) idx a }) [0..<length idxs] (c, mx) =
      Some (c', fold (overwrite sliding) (map (\<lambda>i. cells_of c ! i) idxs) mx) \<and> kv_ok c' \<and> cells_of c' = put_cells ub k idxs (cells_of c)"
proof -
  let ?n = "length idxs"
  let ?P = "\<lambda>iis a. kv_ok (fst a) \<and> snd a = fold (overwrite sliding) (map (\<lambda>ii. cells_of c ! (idxs ! ii)) iis) mx \<and>
     kc_size (fst a) = kc_size c \<and> (\<forall>j. j \<notin> (\<lambda>ii. idxs ! ii) ` set iis \<longrightarrow> cells_of (fst a) ! j = cells_of c ! j) \<and>
     (\<forall>ii\<in>set iis. cells_of (fst a) ! (idxs ! ii) = token_cell ub (k + ii))"
  have "\<exists>a. fold_opt (\<lambda>ii a. do { idx \<leftarrow> vec_at idxs ii; put_token sliding ub (k + ii) idx a }) [0..<?n] (c, mx) = Some a \<and> ?P [0..<?n] a"
  proof (rule fold_opt_invariant [where P = ?P])
    fix ys ii zs a
    assume split: "[0..<?n] = ys @ ii # zs" and P: "?P ys a"
    obtain c1 mx1 where a: "a = (c1, mx1)" by fastforce
    have "ii \<in> set [0..<?n]" and sub: "set ys \<subseteq> set [0..<?n]" unfolding split by auto
    then have ii: "ii < ?n" by simp
    have "ii \<notin> set ys" using distinct_upt [of 0 ?n] unfolding split by simp
    then have new: "idxs ! ii \<notin> (\<lambda>ii. idxs ! ii) ` set ys"
      using ii sub nth_eq_iff_index_eq [OF idxs(1)] by (auto simp: subset_eq)
    have at: "cells_of c1 ! (idxs ! ii) = cells_of c ! (idxs ! ii)" using P new by (simp add: a)
    have in_size: "idxs ! ii < kc_size c1" "single (cells_of c ! (idxs ! ii))" using P idxs(2) ii by (simp_all add: a)
    obtain c2 where c2: "put_token sliding ub (k + ii) (idxs ! ii) (c1, mx1) = Some (c2, overwrite sliding (cells_of c ! (idxs ! ii)) mx1)"
      "kv_ok c2" "cells_of c2 = (cells_of c1)[idxs ! ii := token_cell ub (k + ii)]"
      using put_token_effect [of c1 "idxs ! ii" sts st ub "k + ii" sliding mx1] P in_size tok(1) [OF ii] tok(2) by (auto simp: a at)
    have size: "kc_size c2 = kc_size c" using arg_cong [OF c2(3), of length] P by (simp add: a)
    have keep: "idxs ! ii \<noteq> idxs ! jj" if "jj \<in> set ys" for jj using new that by (metis imageI)
    show "\<exists>a'. (do { idx \<leftarrow> vec_at idxs ii; put_token sliding ub (k + ii) idx a }) = Some a' \<and> ?P (ys @ [ii]) a'"
      using P c2 size in_size(1) ii by (auto simp: a keep nth_list_update)
  qed (use ok in auto)
  then obtain a where a: "fold_opt (\<lambda>ii a. do { idx \<leftarrow> vec_at idxs ii; put_token sliding ub (k + ii) idx a }) [0..<?n] (c, mx) = Some a"
    "?P [0..<?n] a" by blast
  have "map (\<lambda>ii. cells_of c ! (idxs ! ii)) [0..<?n] = map (\<lambda>i. cells_of c ! i) idxs"
    by (rule nth_equalityI) simp_all
  moreover have "cells_of (fst a) = put_cells ub k idxs (cells_of c)"
  proof (rule nth_equalityI)
    show "length (cells_of (fst a)) = length (put_cells ub k idxs (cells_of c))" using a(2) by (simp add: put_cells_def)
    fix j assume "j < length (cells_of (fst a))"
    then have j: "j < kc_size c" using a(2) by simp
    have im: "(\<lambda>ii. idxs ! ii) ` set [0..<?n] = set idxs" by (auto simp: in_set_conv_nth)
    show "cells_of (fst a) ! j = put_cells ub k idxs (cells_of c) ! j"
    proof (cases "j \<in> set idxs")
      case True
      then obtain ii where ii: "ii < ?n" "j = idxs ! ii" by (auto simp: in_set_conv_nth)
      have "cells_of (fst a) ! j = token_cell ub (k + ii)" using a(2) ii by simp
      then show ?thesis using put_cells_at(2) [OF idxs(1) ii(1), of "cells_of c" ub k] j ii by simp
    next
      case False
      then have "cells_of (fst a) ! j = cells_of c ! j" using a(2) unfolding im by blast
      then show ?thesis using put_cells_at(1) [OF idxs(1), of j "cells_of c" ub k] j False by simp
    qed
  qed
  ultimately show ?thesis using a by (intro exI [of _ "fst a"]) (cases a, simp)
qed


section \<open>All streams\<close>

definition slot_len :: "slot_info \<Rightarrow> nat" where
  "slot_len sl = length (hd (slot_idxs sl))"

definition reusable :: "cell \<Rightarrow> bool" where
  "reusable x \<longleftrightarrow> single x \<and> (\<forall>p S sh. x = Some (p, S, sh) \<longrightarrow> p < LLAMA_POS_MAX)"

definition slot_ok :: "llama_kv_cache \<Rightarrow> slot_info \<Rightarrow> 'f llama_ubatch \<Rightarrow> bool" where
  "slot_ok kv sl ub \<longleftrightarrow> 0 < slot_n_stream sl \<and> 0 < slot_len sl \<and> length (slot_idxs sl) = slot_n_stream sl \<and>
     distinct (slot_strm sl) \<and> (\<forall>st\<in>set (slot_strm sl). st < kv_n_stream kv) \<and> ub_n_tokens ub = slot_n_stream sl * slot_len sl \<and>
     (\<forall>s < slot_n_stream sl. length (slot_idxs sl ! s) = slot_len sl \<and> distinct (slot_idxs sl ! s) \<and>
        (\<forall>i\<in>set (slot_idxs sl ! s). i < cache_size kv \<and> reusable (stream kv (slot_strm sl ! s) ! i)) \<and>
        (\<forall>ii < slot_len sl. token_ok (kv_seq_to_stream kv) (slot_strm sl ! s) ub (s * slot_len sl + ii)))"

text \<open>The cells of a stream with the tokens in place, and the cells they replace.\<close>

definition placed :: "llama_kv_cache \<Rightarrow> slot_info \<Rightarrow> 'f llama_ubatch \<Rightarrow> nat \<Rightarrow> cell list" where
  "placed kv sl ub st = (case map_of (zip (slot_strm sl) [0..<slot_n_stream sl]) st of None \<Rightarrow> stream kv st
     | Some s \<Rightarrow> put_cells ub (s * slot_len sl) (slot_idxs sl ! s) (stream kv st))"

definition replaced :: "llama_kv_cache \<Rightarrow> slot_info \<Rightarrow> nat list \<Rightarrow> cell list" where
  "replaced kv sl ss = concat (map (\<lambda>s. map (\<lambda>i. stream kv (slot_strm sl ! s) ! i) (slot_idxs sl ! s)) ss)"

definition purge_bounds :: "llama_kv_cache \<Rightarrow> slot_info \<Rightarrow> nat \<Rightarrow> int" where
  "purge_bounds kv sl = fold (overwrite (prefix_sliding_enabled kv)) (replaced kv sl [0..<slot_n_stream sl]) (\<lambda>_. -1)"

lemma placed_at:
  assumes "distinct (slot_strm sl)"
  shows "s < slot_n_stream sl \<Longrightarrow> placed kv sl ub (slot_strm sl ! s) = put_cells ub (s * slot_len sl) (slot_idxs sl ! s) (stream kv (slot_strm sl ! s))"
    and "st \<notin> set (slot_strm sl) \<Longrightarrow> placed kv sl ub st = stream kv st"
  using slot_of_idx [OF assms, of s] iffD2 [OF slot_of_none, of st "slot_strm sl"]
  by (simp_all add: placed_def slot_n_stream_def del: map_of_zip_is_None)

lemma put_cells_own:
  assumes "distinct idxs" "\<forall>x\<in>set cs. cell_own sts st x" "\<And>ii. ii < length idxs \<Longrightarrow> token_ok sts st ub (k + ii)"
  shows "\<forall>x\<in>set (put_cells ub k idxs cs). cell_own sts st x"
proof
  fix x assume "x \<in> set (put_cells ub k idxs cs)"
  then obtain j where j: "j < length cs" "x = put_cells ub k idxs cs ! j"
    unfolding in_set_conv_nth by auto
  show "cell_own sts st x"
  proof (cases "j \<in> set idxs")
    case True
    then obtain ii where "ii < length idxs" "j = idxs ! ii" by (auto simp: in_set_conv_nth)
    then show ?thesis using put_cells_at(2) [OF assms(1)] j assms(3) token_cell_own by metis
  next
    case False
    then show ?thesis using put_cells_at(1) [OF assms(1) j(1), of ub k] j assms(2) by simp
  qed
qed

lemma put_streams_effect:
  assumes ok: "cache_ok kv" and sl: "slot_ok kv sl ub"
  shows "\<exists>kv'. fold_opt (put_stream sl ub (slot_len sl)) [0..<slot_n_stream sl] (kv, \<lambda>_. -1) = Some (kv', purge_bounds kv sl) \<and>
    cache_ok kv' \<and> config kv' = config kv \<and> cache_size kv' = cache_size kv \<and> kv_sc_info kv' = kv_sc_info kv \<and> kv_heads kv' = kv_heads kv \<and>
    kv_prefix_end kv' = kv_prefix_end kv \<and> (\<forall>st<kv_n_stream kv. stream kv' st = placed kv sl ub st) \<and>
    (\<exists>cs. kv' = kv\<lparr>kv_cells := cs\<rparr>)"
proof -
  let ?ns = "slot_n_stream sl" and ?len = "slot_len sl" and ?strm = "slot_strm sl"
  let ?mx = "\<lambda>ss. fold (overwrite (prefix_sliding_enabled kv)) (replaced kv sl ss) (\<lambda>_. -1)"
  let ?P = "\<lambda>ss a. cache_ok (fst a) \<and> config (fst a) = config kv \<and> cache_size (fst a) = cache_size kv \<and> kv_sc_info (fst a) = kv_sc_info kv \<and>
     kv_heads (fst a) = kv_heads kv \<and> kv_prefix_end (fst a) = kv_prefix_end kv \<and> snd a = ?mx ss \<and>
     (\<forall>st<kv_n_stream kv. st \<notin> (\<lambda>s. ?strm ! s) ` set ss \<longrightarrow> stream (fst a) st = stream kv st) \<and>
     (\<forall>s\<in>set ss. stream (fst a) (?strm ! s) = placed kv sl ub (?strm ! s)) \<and> kv_layers (fst a) = kv_layers kv"
  have dis: "distinct ?strm" and len_strm: "length ?strm = ?ns" using sl by (simp_all add: slot_ok_def slot_n_stream_def)
  have "\<exists>a. fold_opt (put_stream sl ub ?len) [0..<?ns] (kv, \<lambda>_. -1) = Some a \<and> ?P [0..<?ns] a"
  proof (rule fold_opt_invariant [where P = ?P])
    fix ys s zs a
    assume split: "[0..<?ns] = ys @ s # zs" and P: "?P ys a"
    obtain kv1 mx1 where a: "a = (kv1, mx1)" by fastforce
    have "s \<in> set [0..<?ns]" and sub: "set ys \<subseteq> set [0..<?ns]" unfolding split by auto
    then have s: "s < ?ns" by simp
    have "s \<notin> set ys" using distinct_upt [of 0 ?ns] unfolding split by simp
    then have new: "?strm ! s \<notin> (\<lambda>s. ?strm ! s) ` set ys"
      using s sub nth_eq_iff_index_eq [OF dis] len_strm by (auto simp: subset_eq)
    let ?st = "?strm ! s" and ?idxs = "slot_idxs sl ! s"
    have st: "?st < kv_n_stream kv" using sl s len_strm by (simp add: slot_ok_def)
    have slot: "length ?idxs = ?len" "distinct ?idxs" "\<forall>i\<in>set ?idxs. i < cache_size kv \<and> single (stream kv ?st ! i)"
      "\<And>ii. ii < ?len \<Longrightarrow> token_ok (kv_seq_to_stream kv) ?st ub (s * ?len + ii)"
      using sl s by (auto simp: slot_ok_def reusable_def)
    have kv1: "cache_ok kv1" "config kv1 = config kv" "cache_size kv1 = cache_size kv" using P by (simp_all add: a)
    note conf = config_fields [OF kv1(2)]
    have at: "stream kv1 ?st = stream kv ?st" using P st new by (simp add: a)
    have st1: "?st < kv_n_stream kv1" using st conf(1) by simp
    have len_sts: "length (kv_seq_to_stream kv) \<le> LLAMA_MAX_SEQ" using cache_okD(1) [OF ok] by (simp add: config_ok_def)
    have "\<exists>c'. fold_opt (\<lambda>ii a. do { idx \<leftarrow> vec_at ?idxs ii; put_token (prefix_sliding_enabled kv1) ub (s * ?len + ii) idx a }) [0..<length ?idxs]
        (kv_cells kv1 ! ?st, mx1) =
        Some (c', fold (overwrite (prefix_sliding_enabled kv1)) (map (\<lambda>i. stream kv1 ?st ! i) ?idxs) mx1) \<and> kv_ok c' \<and>
        cells_of c' = put_cells ub (s * ?len) ?idxs (stream kv1 ?st)"
      by (rule put_tokens_effect [OF stream_okD(1) [OF kv1(1) st1] slot(2) _ _ len_sts])
        (use slot stream_okD(2) [OF kv1(1) st1] kv1(3) at in auto)
    then obtain c' where c': "fold_opt (\<lambda>ii a. do { idx \<leftarrow> vec_at ?idxs ii; put_token (prefix_sliding_enabled kv1) ub (s * ?len + ii) idx a }) [0..<?len]
        (kv_cells kv1 ! ?st, mx1) = Some (c', fold (overwrite (prefix_sliding_enabled kv)) (map (\<lambda>i. stream kv ?st ! i) ?idxs) mx1)"
      "kv_ok c'" "cells_of c' = put_cells ub (s * ?len) ?idxs (stream kv ?st)"
      unfolding slot(1) conf(7) at by blast
    let ?kv2 = "kv1\<lparr>kv_cells := (kv_cells kv1)[?st := c']\<rparr>"
    have own: "\<forall>x\<in>set (cells_of c'). cell_own (kv_seq_to_stream kv1) ?st x"
      unfolding c'(3) conf(2) by (rule put_cells_own [OF slot(2)]) (use stream_okD(5) [OF ok st] slot(1,4) in auto)
    have size: "length (cells_of c') = cache_size kv1"
      using c'(3) stream_okD(3) [OF ok st] kv1(3) by simp
    note ok2 = cache_ok_cells [OF kv1(1) st1 c'(2) size own]
    have run: "put_stream sl ub ?len s a = Some (?kv2, ?mx (ys @ [s]))"
      using s len_strm sl c'(1) st1 cache_okD(5) [OF kv1(1)] P
      by (simp add: put_stream_def a slot_ok_def replaced_def)
    have len1: "?st < length (kv_cells kv1)" using cache_okD(5) [OF kv1(1)] st1 by simp
    have "cells_of ((kv_cells kv1)[?st := c'] ! t) = (if t = ?st then placed kv sl ub t else stream kv1 t)" for t
      using len1 c'(3) placed_at(1) [OF dis s, of kv ub] by (cases "t = ?st") auto
    then have "?P (ys @ [s]) (?kv2, ?mx (ys @ [s]))" using P ok2 by (auto simp: a)
    then show "\<exists>a'. put_stream sl ub ?len s a = Some a' \<and> ?P (ys @ [s]) a'" using run by blast
  qed (use ok in \<open>auto simp: replaced_def\<close>)
  then obtain a where a: "fold_opt (put_stream sl ub ?len) [0..<?ns] (kv, \<lambda>_. -1) = Some a" "?P [0..<?ns] a" by blast
  have im: "(\<lambda>s. ?strm ! s) ` set [0..<?ns] = set ?strm" using len_strm by (auto simp: in_set_conv_nth)
  have "stream (fst a) st = placed kv sl ub st" if st: "st < kv_n_stream kv" for st
  proof (cases "st \<in> set ?strm")
    case True
    then obtain s where "s < ?ns" "st = ?strm ! s" using len_strm by (auto simp: in_set_conv_nth)
    then show ?thesis using a(2) by simp
  next
    case False
    then have "st \<notin> (\<lambda>s. ?strm ! s) ` set [0..<?ns]" unfolding im .
    then show ?thesis using a(2) placed_at(2) [OF dis False, of kv ub] st by metis
  qed
  moreover have "fst a = kv\<lparr>kv_cells := kv_cells (fst a)\<rparr>"
    using a(2) by (intro llama_kv_cache.equality) (auto simp: config_def)
  ultimately show ?thesis using a by (intro exI [of _ "fst a"]) (cases a, auto simp: purge_bounds_def)
qed


section \<open>Purging\<close>

text \<open>The sequences of \<open>Q\<close> leave the cells whose position is at most their bound.\<close>

definition kept :: "(nat \<Rightarrow> int) \<Rightarrow> nat set \<Rightarrow> int \<Rightarrow> nat set \<Rightarrow> nat set" where
  "kept mx Q p S = {s \<in> S. \<not> (s \<in> Q \<and> p \<le> mx s)}"

definition purge_cell :: "(nat \<Rightarrow> int) \<Rightarrow> nat set \<Rightarrow> cell \<Rightarrow> cell" where
  "purge_cell mx Q x = (case x of None \<Rightarrow> None
     | Some (p, S, sh) \<Rightarrow> if kept mx Q p S = {} then None else Some (p, kept mx Q p S, sh))"

lemma kept_twice: "kept mx A p (kept mx B p S) = kept mx (A \<union> B) p S"
  by (auto simp: kept_def)

lemma kept_empty [simp]: "kept mx A p {} = {}"
  by (simp add: kept_def)

lemma purge_cell_twice: "purge_cell mx A (purge_cell mx B x) = purge_cell mx (A \<union> B) x"
proof -
  have "kept mx (A \<union> B) p S = {}" if "kept mx B p S = {}" for p S
    using that kept_twice [of mx A p B S] by simp
  then show ?thesis by (auto simp: purge_cell_def kept_twice split: option.splits)
qed

lemma purge_cell_none:
  assumes "x = None \<or> cell_seqs x \<noteq> {}" "\<And>p S sh s. x = Some (p, S, sh) \<Longrightarrow> s \<in> S \<Longrightarrow> s \<in> Q \<Longrightarrow> mx s < p"
  shows "purge_cell mx Q x = x"
proof (cases x)
  case (Some a)
  obtain p S sh where x: "x = Some (p, S, sh)" by (cases a) (use Some in auto)
  have "kept mx Q p S = S" using assms(2) [OF x] by (force simp: kept_def)
  moreover have "S \<noteq> {}" using assms(1) x by simp
  ultimately show ?thesis by (simp add: purge_cell_def x)
qed (simp add: purge_cell_def)

lemma own_none: "cell_own sts st x \<Longrightarrow> x = None \<or> cell_seqs x \<noteq> {}"
  by (cases x) (auto simp: cell_own_def)

lemma stream_pos:
  assumes "kv_ok c" "Some (p, S, sh) \<in> set (cells_of c)"
  shows "0 \<le> p"
proof -
  obtain i where "i < kc_size c" "cells_of c ! i = Some (p, S, sh)" using assms(2) by (auto simp: in_set_conv_nth)
  then show ?thesis using cell_facts(4) [OF assms(1)] by blast
qed

lemma mapped_cong:
  assumes "mapped kv g kv'" "\<And>st x. st < kv_n_stream kv \<Longrightarrow> x \<in> set (stream kv st) \<Longrightarrow> g st x = f st x"
  shows "mapped kv f kv'"
  using assms(1) unfolding mapped_def by (auto intro!: assms(2))

lemma purge_drop:
  assumes x: "cell_own sts st x" and lo: "\<And>p S sh. x = Some (p, S, sh) \<Longrightarrow> s \<in> S \<Longrightarrow> lo \<le> p" "lo \<le> mx s + 1" and mx: "0 \<le> mx s + 1"
    and pos: "\<And>p S sh. x = Some (p, S, sh) \<Longrightarrow> 0 \<le> p"
  shows "on_range (int s) (pos_first lo) (pos_last (mx s + 1)) (drop_seq s) x = purge_cell mx {s} x"
proof (cases x)
  case (Some a)
  obtain p S sh where p: "x = Some (p, S, sh)" by (cases a) (use Some in auto)
  have ne: "S \<noteq> {}" using x p by (simp add: cell_own_def)
  show ?thesis
  proof (cases "s \<in> S \<and> p \<le> mx s")
    case True
    then have "kept mx {s} p S = S - {s}" by (auto simp: kept_def)
    moreover have "in_range (pos_first lo) (pos_last (mx s + 1)) x"
      using True lo(1) [OF p] pos [OF p] mx by (auto simp: p in_range_def pos_first_def pos_last_def)
    ultimately show ?thesis using True unfolding on_range_def purge_cell_def drop_seq_def p by simp
  next
    case False
    then have "purge_cell mx {s} x = x" using ne by (intro purge_cell_none) (auto simp: p)
    moreover have "\<not> (in_range (pos_first lo) (pos_last (mx s + 1)) x \<and> s \<in> S)"
      using False mx by (auto simp: p in_range_def pos_last_def)
    ultimately show ?thesis by (auto simp: on_range_def p)
  qed
qed (simp add: on_range_def in_range_def purge_cell_def)

lemma purge_seq_effect:
  assumes ok: "cache_ok kv" and slide: "\<not> prefix_sliding_enabled kv"
    and mx: "mx s \<noteq> -1 \<Longrightarrow> 0 \<le> mx s \<and> mx s < LLAMA_POS_MAX \<and> s < length (kv_seq_to_stream kv)"
  shows "\<exists>kv'. purge_seq mx s kv = Some kv' \<and> mapped kv (\<lambda>_. purge_cell mx {s}) kv' \<and> kv_prefix_end kv' = kv_prefix_end kv"
proof (cases "mx s = -1")
  case True
  have "x = purge_cell mx {s} x" if "st < kv_n_stream kv" "x \<in> set (stream kv st)" for st x
    using stream_pos [OF stream_okD(1) [OF ok that(1)]] that(2) True
    by (intro purge_cell_none [symmetric] own_none [OF stream_okD(5) [OF ok that]]) force
  then have "mapped kv (\<lambda>_. purge_cell mx {s}) kv" by (intro mapped_cong [OF mapped_refl [OF ok]]) simp
  then show ?thesis using True by (simp add: purge_seq_def)
next
  case False
  note mx = mx [OF False]
  have sok: "seq_ok kv (int s)" using mx by (simp add: seq_ok_def)
  note st = seq_stream [OF ok sok]
  let ?st = "kv_seq_to_stream kv ! s"
  have st_less: "?st < kv_n_stream kv" using st(2) by simp
  note cok = stream_okD(1) [OF ok st_less]
  let ?P = "seq_positions (stream kv ?st) s"
  have fin: "finite ?P"
  proof -
    have "?P \<subseteq> (\<lambda>x. case x of None \<Rightarrow> 0 | Some (p, _) \<Rightarrow> p) ` set (stream kv ?st)"
      by (force simp: seq_positions_def in_set_conv_nth image_iff)
    then show ?thesis by (rule finite_subset) simp
  qed
  let ?lo = "if ?P = {} then -1 else Min ?P"
  have min: "kc_seq_pos_min (kv_cells kv ! ?st) (int s) = Some ?lo"
    using st(3) by (simp add: seq_pos_queries(1) [OF cok] Let_def bind_check)
  have lo: "?lo \<le> p" if "Some (p, S, sh) \<in> set (stream kv ?st)" "s \<in> S" for p S sh
  proof -
    have "p \<in> ?P" using that by (auto simp: seq_positions_def in_set_conv_nth)
    then show ?thesis using fin by auto
  qed
  have other: "purge_cell mx {s} x = x" if "x \<in> set (stream kv t)" "t < kv_n_stream kv" "t \<noteq> ?st" for x t
    using stream_okD(5) [OF ok that(2,1)] that(3) own_none by (intro purge_cell_none) (auto simp: cell_own_def)
  have st_run: "vec_at (kv_seq_to_stream kv) s = Some ?st" "vec_at (kv_cells kv) ?st = Some (kv_cells kv ! ?st)"
    using mx st_less cache_okD(5) [OF ok] by simp_all
  show ?thesis
  proof (cases "?lo \<le> mx s")
    case True
    obtain kv' where kv': "kv_seq_rm (int s) ?lo (mx s + 1) kv = Some kv'"
      "mapped kv (\<lambda>t. if t = ?st then on_range (int s) (pos_first ?lo) (pos_last (mx s + 1)) (drop_seq s) else id) kv'"
      "kv_prefix_end kv' = kv_prefix_end kv"
      using seq_rm_effect [OF ok sok, of ?lo "mx s + 1"] slide unfolding nat_int by blast
    have "on_range (int s) (pos_first ?lo) (pos_last (mx s + 1)) (drop_seq s) x = purge_cell mx {s} x" if "x \<in> set (stream kv ?st)" for x
      by (rule purge_drop [OF stream_okD(5) [OF ok st_less that]]) (use that lo True mx stream_pos [OF cok] in auto)
    then have "mapped kv (\<lambda>_. purge_cell mx {s}) kv'"
    proof (intro mapped_cong [OF kv'(2)])
      fix t x
      assume "t < kv_n_stream kv" "x \<in> set (stream kv t)" "\<And>x. x \<in> set (stream kv ?st) \<Longrightarrow>
        on_range (int s) (pos_first ?lo) (pos_last (mx s + 1)) (drop_seq s) x = purge_cell mx {s} x"
      then show "(if t = ?st then on_range (int s) (pos_first ?lo) (pos_last (mx s + 1)) (drop_seq s) else id) x = purge_cell mx {s} x"
        using other [of x t] by (cases "t = ?st") (simp_all del: if_split_asm split del: if_split)
    qed
    moreover have "s32 (mx s + 1) = Some (mx s + 1)" using mx by (auto simp: s32_def LLAMA_POS_MAX_def)
    ultimately show ?thesis using kv' False True min st_run by (simp add: purge_seq_def)
  next
    case gt: False
    have "purge_cell mx {s} x = x" if "x \<in> set (stream kv ?st)" for x
    proof (rule purge_cell_none [OF own_none [OF stream_okD(5) [OF ok st_less that]]])
      fix p S sh t
      assume "x = Some (p, S, sh)" "t \<in> S" "t \<in> {s}"
      then have "?lo \<le> p" using lo [of p S sh] that by simp
      then show "mx t < p" using gt \<open>t \<in> {s}\<close> by simp
    qed
    then have "mapped kv (\<lambda>_. purge_cell mx {s}) kv"
      by (intro mapped_cong [OF mapped_refl [OF ok]]) (metis other)
    then show ?thesis using False gt min st_run by (simp add: purge_seq_def)
  qed
qed

lemma purge_all_effect:
  assumes ok: "cache_ok kv" and slide: "\<not> prefix_sliding_enabled kv"
    and mx: "\<And>s. mx s \<noteq> -1 \<Longrightarrow> 0 \<le> mx s \<and> mx s < LLAMA_POS_MAX \<and> s < length (kv_seq_to_stream kv)"
  shows "\<exists>kv'. fold_opt (purge_seq mx) [0..<LLAMA_MAX_SEQ] kv = Some kv' \<and> mapped kv (\<lambda>_. purge_cell mx {..<LLAMA_MAX_SEQ}) kv' \<and>
    kv_prefix_end kv' = kv_prefix_end kv"
proof -
  let ?P = "\<lambda>ss kv'. mapped kv (\<lambda>_. purge_cell mx (set ss)) kv' \<and> kv_prefix_end kv' = kv_prefix_end kv"
  have "\<exists>kv'. fold_opt (purge_seq mx) [0..<LLAMA_MAX_SEQ] kv = Some kv' \<and> ?P [0..<LLAMA_MAX_SEQ] kv'"
  proof (rule fold_opt_invariant [where P = ?P])
    have "x = purge_cell mx {} x" if "st < kv_n_stream kv" "x \<in> set (stream kv st)" for st x
      by (rule purge_cell_none [symmetric]) (use own_none [OF stream_okD(5) [OF ok that]] in auto)
    then show "?P [] kv" by (auto intro!: mapped_cong [OF mapped_refl [OF ok]])
    fix ys s zs kv1
    assume P: "?P ys kv1"
    note kv1 = mappedD [OF conjunct1 [OF P]]
    obtain kv2 where kv2: "purge_seq mx s kv1 = Some kv2" "mapped kv1 (\<lambda>_. purge_cell mx {s}) kv2" "kv_prefix_end kv2 = kv_prefix_end kv1"
      using purge_seq_effect [OF kv1(1), of mx s] slide mx [of s] config_fields(2,7) [OF kv1(2)] by auto
    have "mapped kv (\<lambda>_. purge_cell mx (set (ys @ [s]))) kv2"
      by (rule mapped_trans [OF conjunct1 [OF P] kv2(2)]) (simp add: purge_cell_twice)
    then show "\<exists>kv2. purge_seq mx s kv1 = Some kv2 \<and> ?P (ys @ [s]) kv2" using kv2 P by simp
  qed
  then show ?thesis by (simp add: lessThan_atLeast0)
qed


section \<open>The whole operation\<close>

lemma overwrite_le: "mx s \<le> fold (overwrite False) xs mx s"
proof (induction xs arbitrary: mx)
  case (Cons x xs)
  have "mx s \<le> overwrite False x mx s" by (auto simp: overwrite_def split: option.splits)
  also have "\<dots> \<le> fold (overwrite False) xs (overwrite False x mx) s" by (rule Cons.IH)
  finally show ?case by simp
qed simp

lemma overwrite_bounds:
  assumes "\<forall>x\<in>set xs. single x"
  shows "Some (p, {s}, sh) \<in> set xs \<Longrightarrow> p \<le> fold (overwrite False) xs mx s"
    and "fold (overwrite False) xs mx s = mx s \<or> (\<exists>sh. Some (fold (overwrite False) xs mx s, {s}, sh) \<in> set xs)"
proof -
  show "p \<le> fold (overwrite False) xs mx s" if "Some (p, {s}, sh) \<in> set xs"
    using that
  proof (induction xs arbitrary: mx)
    case (Cons x xs)
    show ?case
    proof (cases "x = Some (p, {s}, sh)")
      case True
      then have "p \<le> overwrite False x mx s" by (simp add: overwrite_def)
      also have "\<dots> \<le> fold (overwrite False) xs (overwrite False x mx) s" by (rule overwrite_le)
      finally show ?thesis by simp
    qed (use Cons in simp)
  qed simp
  show "fold (overwrite False) xs mx s = mx s \<or> (\<exists>sh. Some (fold (overwrite False) xs mx s, {s}, sh) \<in> set xs)"
    using assms
  proof (induction xs arbitrary: mx)
    case (Cons x xs)
    have "overwrite False x mx s = mx s \<or> (\<exists>sh. x = Some (overwrite False x mx s, {s}, sh))"
      using Cons.prems by (auto simp: overwrite_def single_def max_def split: option.splits)
    moreover have "fold (overwrite False) xs (overwrite False x mx) s = overwrite False x mx s \<or>
        (\<exists>sh. Some (fold (overwrite False) xs (overwrite False x mx) s, {s}, sh) \<in> set xs)"
      using Cons.IH [of "overwrite False x mx"] Cons.prems by simp
    moreover have "f = a \<or> (\<exists>sh. Some (f, {s}, sh) \<in> set xs) \<Longrightarrow> a = m \<or> (\<exists>sh. x = Some (a, {s}, sh)) \<Longrightarrow>
        f = m \<or> (\<exists>sh. Some (f, {s}, sh) \<in> set (x # xs))" for f a m :: int by auto
    ultimately show ?case by simp
  qed simp
qed


lemma replaced_cell:
  assumes ok: "cache_ok kv" and sl: "slot_ok kv sl ub" and x: "x \<in> set (replaced kv sl [0..<slot_n_stream sl])"
  obtains st where "st < kv_n_stream kv" "x \<in> set (stream kv st)" "reusable x"
proof -
  from x obtain s i where s: "s < slot_n_stream sl" "i \<in> set (slot_idxs sl ! s)" "x = stream kv (slot_strm sl ! s) ! i"
    by (auto simp: replaced_def)
  have st: "slot_strm sl ! s < kv_n_stream kv" using sl s(1) by (simp add: slot_ok_def slot_n_stream_def)
  have "i < cache_size kv" "reusable x" using sl s by (auto simp: slot_ok_def)
  then show ?thesis using that [OF st] s(3) stream_okD(3) [OF ok st] by simp
qed

lemma purge_bounds_facts:
  assumes ok: "cache_ok kv" and sl: "slot_ok kv sl ub" and slide: "\<not> prefix_sliding_enabled kv"
  shows "purge_bounds kv sl s \<noteq> -1 \<Longrightarrow> \<exists>st sh. st < kv_n_stream kv \<and> Some (purge_bounds kv sl s, {s}, sh) \<in> set (stream kv st)"
    and "purge_bounds kv sl s \<noteq> -1 \<Longrightarrow> 0 \<le> purge_bounds kv sl s \<and> purge_bounds kv sl s < LLAMA_POS_MAX \<and> s < length (kv_seq_to_stream kv)"
    and "Some (p, {s}, sh) \<in> set (replaced kv sl [0..<slot_n_stream sl]) \<Longrightarrow> p \<le> purge_bounds kv sl s"
proof -
  let ?xs = "replaced kv sl [0..<slot_n_stream sl]"
  have b: "purge_bounds kv sl = fold (overwrite False) ?xs (\<lambda>_. -1)" using slide by (simp add: purge_bounds_def)
  have single: "\<forall>x\<in>set ?xs. single x" using replaced_cell [OF ok sl] by (metis reusable_def)
  show "Some (p, {s}, sh) \<in> set ?xs \<Longrightarrow> p \<le> purge_bounds kv sl s"
    unfolding b by (rule overwrite_bounds(1) [OF single])
  have cell: "\<exists>st sh. st < kv_n_stream kv \<and> Some (purge_bounds kv sl s, {s}, sh) \<in> set (stream kv st) \<and> reusable (Some (purge_bounds kv sl s, {s}, sh))"
    if "purge_bounds kv sl s \<noteq> -1"
    using overwrite_bounds(2) [OF single, of "\<lambda>_. -1" s] that replaced_cell [OF ok sl] unfolding b by metis
  then show "purge_bounds kv sl s \<noteq> -1 \<Longrightarrow> \<exists>st sh. st < kv_n_stream kv \<and> Some (purge_bounds kv sl s, {s}, sh) \<in> set (stream kv st)" by blast
  assume "purge_bounds kv sl s \<noteq> -1"
  from cell [OF this] obtain st sh where c: "st < kv_n_stream kv" "Some (purge_bounds kv sl s, {s}, sh) \<in> set (stream kv st)"
    "reusable (Some (purge_bounds kv sl s, {s}, sh))" by blast
  then show "0 \<le> purge_bounds kv sl s \<and> purge_bounds kv sl s < LLAMA_POS_MAX \<and> s < length (kv_seq_to_stream kv)"
    using stream_pos [OF stream_okD(1) [OF ok c(1)] c(2)] stream_okD(5) [OF ok c(1,2)] by (simp add: reusable_def cell_own_def)
qed

lemma cache_ok_heads:
  assumes ok: "cache_ok kv" and h: "h \<le> cache_size kv"
  shows "cache_ok (kv\<lparr>kv_heads := (kv_heads kv)[st := h]\<rparr>)"
proof -
  have "(kv_heads kv)[st := h] ! s \<le> cache_size kv" if "s < kv_n_stream kv" for s
    using stream_okD(4) [OF ok that] h cache_okD(6) [OF ok] that by (cases "s = st") auto
  then show ?thesis using ok by (simp add: cache_ok_def config_ok_def prefix_ok_def stream_ok_def cache_size_def)
qed

lemma move_heads_effect:
  assumes ok: "cache_ok kv" and sl: "length (slot_idxs sl) = slot_n_stream sl" "\<forall>st\<in>set (slot_strm sl). st < kv_n_stream kv"
    "\<And>s. s < slot_n_stream sl \<Longrightarrow> slot_idxs sl ! s \<noteq> [] \<and> (\<forall>i\<in>set (slot_idxs sl ! s). i < cache_size kv)"
  shows "\<exists>hs. fold_opt (move_head sl) [0..<slot_n_stream sl] kv = Some (kv\<lparr>kv_heads := hs\<rparr>) \<and> cache_ok (kv\<lparr>kv_heads := hs\<rparr>) \<and>
    (\<forall>st. st \<notin> set (slot_strm sl) \<longrightarrow> hs ! st = kv_heads kv ! st)"
proof -
  let ?P = "\<lambda>ss kv'. cache_ok kv' \<and> (\<exists>hs. kv' = kv\<lparr>kv_heads := hs\<rparr> \<and> (\<forall>st. st \<notin> set (slot_strm sl) \<longrightarrow> hs ! st = kv_heads kv ! st))"
  have "\<exists>kv'. fold_opt (move_head sl) [0..<slot_n_stream sl] kv = Some kv' \<and> ?P [0..<slot_n_stream sl] kv'"
  proof (rule fold_opt_invariant [where P = ?P])
    show "?P [] kv" using ok by (auto intro: exI [of _ "kv_heads kv"])
    fix ys s zs kv1
    assume split: "[0..<slot_n_stream sl] = ys @ s # zs" and P: "?P ys kv1"
    obtain hs where kv1: "cache_ok kv1" "kv1 = kv\<lparr>kv_heads := hs\<rparr>" "\<forall>st. st \<notin> set (slot_strm sl) \<longrightarrow> hs ! st = kv_heads kv ! st"
      using P by blast
    have "s \<in> set [0..<slot_n_stream sl]" unfolding split by simp
    then have s: "s < slot_n_stream sl" by simp
    let ?st = "slot_strm sl ! s" and ?idxs = "slot_idxs sl ! s"
    have st: "?st < kv_n_stream kv" using sl(2) s by (simp add: slot_n_stream_def)
    have "last ?idxs < cache_size kv" using sl(3) [OF s] by simp
    then have ok2: "cache_ok (kv1\<lparr>kv_heads := (kv_heads kv1)[?st := last ?idxs + 1]\<rparr>)"
      using kv1 by (intro cache_ok_heads) (simp_all add: cache_size_def)
    have "?st < length (kv_heads kv1)" using cache_okD(6) [OF kv1(1)] st kv1(2) by simp
    then have "move_head sl s kv1 = Some (kv1\<lparr>kv_heads := (kv_heads kv1)[?st := last ?idxs + 1]\<rparr>)"
      using s sl(1) sl(3) [OF s] by (simp add: move_head_def slot_n_stream_def)
    moreover have "hs[?st := last ?idxs + 1] ! t = kv_heads kv ! t" if "t \<notin> set (slot_strm sl)" for t
      using that kv1(3) s nth_mem [of s "slot_strm sl"] by (subst nth_list_update_neq) (auto simp: slot_n_stream_def)
    ultimately show "\<exists>kv2. move_head sl s kv1 = Some kv2 \<and> ?P (ys @ [s]) kv2" using ok2 kv1(2) by auto
  qed
  then show ?thesis by auto
qed

lemma purge_nothing: "fold_opt (purge_seq (\<lambda>_. -1)) ss kv = Some kv"
  by (induction ss) (simp_all add: purge_seq_def)

lemma apply_ubatch_effect:
  assumes ok: "cache_ok kv" and sl: "slot_ok kv sl ub"
  shows "\<exists>kv'. apply_ubatch sl ub kv = Some kv' \<and> cache_ok kv' \<and> config kv' = config kv \<and> cache_size kv' = cache_size kv \<and>
    kv_sc_info kv' = kv_sc_info kv \<and> kv_prefix_end kv' = kv_prefix_end kv \<and>
    (\<forall>st<kv_n_stream kv. stream kv' st =
       map (if prefix_sliding_enabled kv then id else purge_cell (purge_bounds kv sl) {..<LLAMA_MAX_SEQ}) (placed kv sl ub st)) \<and>
    (prefix_sliding_enabled kv \<or> purge_bounds kv sl = (\<lambda>_. -1) \<longrightarrow>
       (\<exists>cs hs. kv' = kv\<lparr>kv_cells := cs, kv_heads := hs\<rparr> \<and> (\<forall>st. st \<notin> set (slot_strm sl) \<longrightarrow> hs ! st = kv_heads kv ! st)))"
proof -
  let ?ns = "slot_n_stream sl"
  have facts: "length (slot_idxs sl) = ?ns" "\<forall>st\<in>set (slot_strm sl). st < kv_n_stream kv" "0 < slot_len sl" "0 < ?ns"
    "ub_n_tokens ub = ?ns * slot_len sl"
    "\<And>s. s < ?ns \<Longrightarrow> slot_idxs sl ! s \<noteq> [] \<and> (\<forall>i\<in>set (slot_idxs sl ! s). i < cache_size kv)"
    using sl by (auto simp: slot_ok_def)
  have sz: "slot_size sl = Some (slot_len sl)"
    using facts(1,4) by (auto simp: slot_size_def slot_len_def slot_n_stream_def bind_check)
  obtain kv1 where kv1: "fold_opt (put_stream sl ub (slot_len sl)) [0..<?ns] (kv, \<lambda>_. -1) = Some (kv1, purge_bounds kv sl)"
    "cache_ok kv1" "config kv1 = config kv" "cache_size kv1 = cache_size kv" "kv_sc_info kv1 = kv_sc_info kv"
    "kv_prefix_end kv1 = kv_prefix_end kv" "\<forall>st<kv_n_stream kv. stream kv1 st = placed kv sl ub st" "\<exists>cs. kv1 = kv\<lparr>kv_cells := cs\<rparr>"
    using put_streams_effect [OF ok sl] by blast
  note conf1 = config_fields [OF kv1(3)]
  have "\<exists>kv2. (if prefix_sliding_enabled kv1 then Some kv1 else fold_opt (purge_seq (purge_bounds kv sl)) [0..<LLAMA_MAX_SEQ] kv1) = Some kv2 \<and>
      mapped kv1 (\<lambda>_. if prefix_sliding_enabled kv then id else purge_cell (purge_bounds kv sl) {..<LLAMA_MAX_SEQ}) kv2 \<and>
      kv_prefix_end kv2 = kv_prefix_end kv1 \<and> (prefix_sliding_enabled kv \<or> purge_bounds kv sl = (\<lambda>_. -1) \<longrightarrow> kv2 = kv1)"
  proof (cases "prefix_sliding_enabled kv")
    case True
    then show ?thesis using mapped_refl [OF kv1(2)] conf1(7) by (simp add: id_def)
  next
    case False
    then show ?thesis
      using purge_all_effect [OF kv1(2), of "purge_bounds kv sl"] purge_bounds_facts(2) [OF ok sl False] conf1(2,7) purge_nothing
      by auto
  qed
  then obtain kv2 where kv2: "(if prefix_sliding_enabled kv1 then Some kv1 else fold_opt (purge_seq (purge_bounds kv sl)) [0..<LLAMA_MAX_SEQ] kv1) = Some kv2"
    "mapped kv1 (\<lambda>_. if prefix_sliding_enabled kv then id else purge_cell (purge_bounds kv sl) {..<LLAMA_MAX_SEQ}) kv2"
    "kv_prefix_end kv2 = kv_prefix_end kv1" "prefix_sliding_enabled kv \<or> purge_bounds kv sl = (\<lambda>_. -1) \<longrightarrow> kv2 = kv1" by blast
  note m = mappedD [OF kv2(2)]
  obtain hs where hs: "fold_opt (move_head sl) [0..<?ns] kv2 = Some (kv2\<lparr>kv_heads := hs\<rparr>)" "cache_ok (kv2\<lparr>kv_heads := hs\<rparr>)"
    "\<forall>st. st \<notin> set (slot_strm sl) \<longrightarrow> hs ! st = kv_heads kv2 ! st"
    using move_heads_effect [OF m(1) facts(1), of] facts(2,6) m(3) kv1(4) conf1(1) config_fields(1) [OF m(2)] by auto
  have "apply_ubatch sl ub kv = Some (kv2\<lparr>kv_heads := hs\<rparr>)"
    using sz facts(5) kv1(1) kv2(1) hs(1) by (simp add: apply_ubatch_def)
  moreover have "stream (kv2\<lparr>kv_heads := hs\<rparr>) st =
      map (if prefix_sliding_enabled kv then id else purge_cell (purge_bounds kv sl) {..<LLAMA_MAX_SEQ}) (placed kv sl ub st)" if "st < kv_n_stream kv" for st
    using m(5) [of st] kv1(7) that conf1(1) by simp
  moreover have "\<exists>cs hs'. kv2\<lparr>kv_heads := hs\<rparr> = kv\<lparr>kv_cells := cs, kv_heads := hs'\<rparr> \<and> (\<forall>st. st \<notin> set (slot_strm sl) \<longrightarrow> hs' ! st = kv_heads kv ! st)"
    if quiet: "prefix_sliding_enabled kv \<or> purge_bounds kv sl = (\<lambda>_. -1)"
  proof -
    obtain cs where "kv2 = kv\<lparr>kv_cells := cs\<rparr>" using kv2(4) kv1(8) quiet by blast
    then have "kv2\<lparr>kv_heads := hs\<rparr> = kv\<lparr>kv_cells := cs, kv_heads := hs\<rparr>" "kv_heads kv2 = kv_heads kv" by simp_all
    then show ?thesis using hs(3) by metis
  qed
  ultimately show ?thesis using hs(2) m(2-4) kv1(3-6) kv2(3) by (simp add: cache_size_def)
qed

end
