(* ===== verification/KV_Mask.thy ===== *)
theory KV_Mask
  imports KV_Apply
begin

text \<open>
  What a token attends to: the sliding window test as a predicate, which cells of its sequence the mask of
  \<open>set_input_kq_mask\<close> leaves open, and the cells \<open>find_slot\<close> may give away.
\<close>

section \<open>The sliding window\<close>

definition swa_masked :: "llama_kv_cache \<Rightarrow> int \<Rightarrow> int \<Rightarrow> bool" where
  "swa_masked kv p0 p1 \<longleftrightarrow>
     (case kv_swa_type kv of
        LLAMA_SWA_TYPE_NONE \<Rightarrow> False
      | LLAMA_SWA_TYPE_STANDARD \<Rightarrow> to_i32 (kv_n_swa kv) \<le> p1 - p0
      | LLAMA_SWA_TYPE_CHUNKED \<Rightarrow> p0 < p1 div int (kv_n_swa kv) * int (kv_n_swa kv)
      | LLAMA_SWA_TYPE_SYMMETRIC \<Rightarrow>
          p1 - p0 < - c_div (to_i32 (kv_n_swa kv)) 2 \<or> c_div (to_i32 (kv_n_swa kv)) 2 < p1 - p0)"

lemma is_masked_swa_eq:
  assumes "config_ok kv" "0 \<le> p0" "0 \<le> p1"
  shows "is_masked_swa kv p0 p1 = Some (swa_masked kv p0 p1)"
  using assms by (cases "kv_swa_type kv") (simp_all add: is_masked_swa_def swa_masked_def config_ok_def Let_def)

lemma swa_masked_config: "config kv' = config kv \<Longrightarrow> swa_masked kv' p0 p1 = swa_masked kv p0 p1"
  by (simp add: config_def swa_masked_def cong: llama_swa_type.case_cong)

text \<open>Once masked for a later token, a position stays masked, and so do the positions before it.\<close>

lemma swa_masked_mono:
  assumes m: "swa_masked kv p p1" and p: "p' \<le> p" "p \<le> p1" "p1 \<le> p2"
  shows "swa_masked kv p' p2"
proof (cases "kv_swa_type kv")
  case LLAMA_SWA_TYPE_CHUNKED
  have "p1 div int (kv_n_swa kv) * int (kv_n_swa kv) \<le> p2 div int (kv_n_swa kv) * int (kv_n_swa kv)"
    using p(3) by (cases "kv_n_swa kv = 0") (auto intro!: mult_right_mono zdiv_mono1)
  then show ?thesis using m p(1) LLAMA_SWA_TYPE_CHUNKED by (simp add: swa_masked_def)
next
  case LLAMA_SWA_TYPE_SYMMETRIC
  define h where "h = c_div (to_i32 (kv_n_swa kv)) 2"
  have "p1 - p < - h \<or> h < p1 - p" using m LLAMA_SWA_TYPE_SYMMETRIC by (simp add: swa_masked_def h_def)
  then have "p2 - p' < - h \<or> h < p2 - p'" using p by linarith
  then show ?thesis using LLAMA_SWA_TYPE_SYMMETRIC by (simp add: swa_masked_def h_def)
qed (use m p in \<open>simp_all add: swa_masked_def\<close>)


section \<open>Attention\<close>

definition window_masked :: "llama_kv_cache \<Rightarrow> nat \<Rightarrow> int \<Rightarrow> int \<Rightarrow> bool" where
  "window_masked kv s p0 p1 \<longleftrightarrow> prefix_sliding_enabled kv \<and> kv_prefix_end kv ! s \<le> p0 \<and>
     p0 < max (kv_prefix_end kv ! s) (p1 - to_i32 (kv_window kv) + 1)"

definition allowed :: "llama_kv_cache \<Rightarrow> bool \<Rightarrow> nat \<Rightarrow> int \<Rightarrow> int \<Rightarrow> bool" where
  "allowed kv causal s p1 p0 \<longleftrightarrow> (causal \<longrightarrow> p0 \<le> p1) \<and> \<not> swa_masked kv p0 p1 \<and> \<not> window_masked kv s p0 p1"

definition attended :: "llama_kv_cache \<Rightarrow> bool \<Rightarrow> nat \<Rightarrow> int \<Rightarrow> cell \<Rightarrow> int option" where
  "attended kv causal s p1 x = (case x of None \<Rightarrow> None
     | Some (p0, S, sh) \<Rightarrow> if s \<in> S \<and> allowed kv causal s p1 p0 then Some p0 else None)"

lemma attends_eq:
  assumes ok: "cache_ok kv" and st: "st < kv_n_stream kv" and s: "s < LLAMA_MAX_SEQ" and p1: "0 \<le> p1" and j: "j < cache_size kv"
  shows "attends kv causal (kv_cells kv ! st) (int s) p1 j = Some (attended kv causal s p1 (stream kv st ! j))"
proof -
  let ?c = "kv_cells kv ! st"
  note c = stream_okD(1) [OF ok st]
  have j': "j < kc_size ?c" using stream_okD(2) [OF ok st] j by simp
  have sid: "seq_id_ok (int s)" using s by (simp add: seq_id_ok_def)
  have pe: "vec_at (kv_prefix_end kv) s = Some (kv_prefix_end kv ! s)"
    using cache_okD(2) [OF ok] s by (simp add: prefix_ok_def)
  show ?thesis
  proof (cases "stream kv st ! j")
    case None
    then show ?thesis by (simp add: attends_def cell_facts(1) [OF c j'] attended_def)
  next
    case (Some a)
    obtain p S sh where cell: "stream kv st ! j = Some (p, S, sh)" by (cases a) (use Some in auto)
    have p: "kc_pos_get ?c j = Some p" "0 \<le> p" using cell_facts(4) [OF c j' cell] by simp_all
    have masked: "is_masked_swa kv p p1 = Some (swa_masked kv p p1)"
      using is_masked_swa_eq cache_okD(1) [OF ok] p(2) p1 by blast
    show ?thesis
      using cell_facts(1,3) [OF c j'] sid pe masked p(1) cell
      by (simp add: attends_def attended_def allowed_def window_masked_def Let_def)
  qed
qed

text \<open>The positions of sequence \<open>s\<close> that a token at \<open>p1\<close> sees among the first \<open>n_kv\<close> cells.\<close>

definition visible :: "llama_kv_cache \<Rightarrow> bool \<Rightarrow> nat \<Rightarrow> nat \<Rightarrow> int \<Rightarrow> int set" where
  "visible kv causal n_kv s p1 =
     {p0. \<exists>j<n_kv. attends kv causal (kv_cells kv ! (kv_seq_to_stream kv ! s)) (int s) p1 j = Some (Some p0)}"

definition positions :: "llama_kv_cache \<Rightarrow> nat \<Rightarrow> int set" where
  "positions kv s = seq_positions (stream kv (kv_seq_to_stream kv ! s)) s"

lemma visible_eq:
  assumes ok: "cache_ok kv" and s: "s < length (kv_seq_to_stream kv)" and p1: "0 \<le> p1"
    and n: "n_kv \<le> cache_size kv" "\<forall>j. n_kv \<le> j \<longrightarrow> j < cache_size kv \<longrightarrow> stream kv (kv_seq_to_stream kv ! s) ! j = None"
  shows "visible kv causal n_kv s p1 = {p \<in> positions kv s. allowed kv causal s p1 p}"
proof -
  have sok: "seq_ok kv (int s)" using s by (simp add: seq_ok_def)
  let ?st = "kv_seq_to_stream kv ! s"
  have st: "?st < kv_n_stream kv" using seq_stream(2) [OF ok sok] by simp
  have sm: "s < LLAMA_MAX_SEQ" using seq_stream(3) [OF ok sok] by (simp add: seq_id_ok_def)
  have att: "attends kv causal (kv_cells kv ! ?st) (int s) p1 j = Some (attended kv causal s p1 (stream kv ?st ! j))" if "j < n_kv" for j
    by (rule attends_eq [OF ok st sm p1]) (use that n(1) in simp)
  have "p \<in> visible kv causal n_kv s p1 \<longleftrightarrow> p \<in> positions kv s \<and> allowed kv causal s p1 p" for p
  proof
    assume "p \<in> visible kv causal n_kv s p1"
    then obtain j where "j < n_kv" "attended kv causal s p1 (stream kv ?st ! j) = Some p"
      using att by (auto simp: visible_def)
    then show "p \<in> positions kv s \<and> allowed kv causal s p1 p" using n(1) stream_okD(3) [OF ok st]
      by (auto simp: attended_def positions_def seq_positions_def split: option.splits if_splits intro!: exI [of _ j])
  next
    assume p: "p \<in> positions kv s \<and> allowed kv causal s p1 p"
    then obtain j S sh where j: "j < length (stream kv ?st)" "stream kv ?st ! j = Some (p, S, sh)" "s \<in> S"
      by (auto simp: positions_def seq_positions_def)
    then have "j < n_kv" using n(2) stream_okD(3) [OF ok st] by (metis not_le option.distinct(1))
    moreover have "attended kv causal s p1 (stream kv ?st ! j) = Some p" using j p by (simp add: attended_def)
    ultimately show "p \<in> visible kv causal n_kv s p1" using att by (auto simp: visible_def)
  qed
  then show ?thesis by blast
qed

text \<open>\<open>get_n_kv\<close> covers the cells in use.\<close>

lemma get_n_kv_covers:
  assumes ok: "cache_ok kv" and sl: "\<forall>st\<in>set (slot_strm sl). st < kv_n_stream kv" and pad: "0 < kv_n_pad kv"
  shows "\<exists>n. get_n_kv sl kv = Some n \<and> n \<le> cache_size kv \<and>
    (\<forall>st\<in>set (slot_strm sl). \<forall>j. n \<le> j \<longrightarrow> j < cache_size kv \<longrightarrow> stream kv st ! j = None)"
proof -
  let ?body = "\<lambda>s r. do { st \<leftarrow> vec_at (slot_strm sl) s; c \<leftarrow> vec_at (kv_cells kv) st;
       Some (max (min (kc_size c) (max (kv_n_pad kv) (GGML_PAD (kc_used_max_p1 c) (kv_n_pad kv)))) r) }"
  let ?P = "\<lambda>ss n. n \<le> cache_size kv \<and> (\<forall>s\<in>set ss. \<forall>j. n \<le> j \<longrightarrow> j < cache_size kv \<longrightarrow> stream kv (slot_strm sl ! s) ! j = None)"
  have "\<exists>n. fold_opt ?body [0..<slot_n_stream sl] 0 = Some n \<and> ?P [0..<slot_n_stream sl] n"
  proof (rule fold_opt_invariant [where P = ?P])
    fix ys s zs n
    assume split: "[0..<slot_n_stream sl] = ys @ s # zs" and P: "?P ys n"
    have "s \<in> set [0..<slot_n_stream sl]" unfolding split by simp
    then have s: "s < length (slot_strm sl)" by (simp add: slot_n_stream_def)
    let ?st = "slot_strm sl ! s"
    have st: "?st < kv_n_stream kv" using sl s by simp
    let ?c = "kv_cells kv ! ?st"
    let ?m = "min (kc_size ?c) (max (kv_n_pad kv) (GGML_PAD (kc_used_max_p1 ?c) (kv_n_pad kv)))"
    have none: "stream kv ?st ! j = None" if "?m \<le> j" "j < cache_size kv" for j
    proof (rule ccontr)
      assume "stream kv ?st ! j \<noteq> None"
      then have used: "j \<in> used_cells (stream kv ?st)" using that(2) stream_okD(3) [OF ok st] by (simp add: used_cells_def)
      have "finite (used_cells (stream kv ?st))" by (simp add: used_cells_def)
      then have "j < kc_used_max_p1 ?c"
        using used used_queries(3) [OF stream_okD(1) [OF ok st]] Max_ge [of "used_cells (stream kv ?st)" j]
        by (cases "used_cells (stream kv ?st) = {}") (simp_all add: Let_def le_imp_less_Suc)
      moreover have "kc_used_max_p1 ?c \<le> GGML_PAD (kc_used_max_p1 ?c) (kv_n_pad kv)" by (rule GGML_PAD_ge [OF pad])
      ultimately show False using that stream_okD(2) [OF ok st] by simp
    qed
    have "?body s n = Some (max ?m n)" using s st cache_okD(5) [OF ok] by simp
    moreover have "?P (ys @ [s]) (max ?m n)" using P none stream_okD(2) [OF ok st] by auto
    ultimately show "\<exists>n'. ?body s n = Some n' \<and> ?P (ys @ [s]) n'" by blast
  qed simp
  then obtain n where n: "fold_opt ?body [0..<slot_n_stream sl] 0 = Some n" "?P [0..<slot_n_stream sl] n" by blast
  have "stream kv st ! j = None" if st: "st \<in> set (slot_strm sl)" and j: "n \<le> j" "j < cache_size kv" for st j
  proof -
    obtain s where "s < slot_n_stream sl" "st = slot_strm sl ! s" using st by (auto simp: in_set_conv_nth slot_n_stream_def)
    then show ?thesis using n(2) j by simp
  qed
  then show ?thesis using n unfolding get_n_kv_def by blast
qed

end
