(* ===== verification/KV_Place.thy ===== *)
theory KV_Place
  imports KV_Mask
begin

text \<open>
  Finding a slot in a cache that satisfies its invariant: which cells a micro batch may take, that \<open>find_slot\<close>
  returns exactly when every stream has enough of them, and that what it returns can be written.
\<close>

section \<open>Cells a micro batch may take\<close>

text \<open>The streams of a micro batch and its tokens per stream, as \<open>find_slot\<close> reads them.\<close>

definition ub_seqs :: "llama_kv_cache \<Rightarrow> 'f llama_ubatch \<Rightarrow> nat" where
  "ub_seqs kv ub = (if kv_n_stream kv > 1 then ub_n_seqs_unq ub else 1)"

definition ub_len :: "llama_kv_cache \<Rightarrow> 'f llama_ubatch \<Rightarrow> nat" where
  "ub_len kv ub = ub_n_tokens ub div ub_seqs kv ub"

abbreviation ub_sid :: "'f llama_ubatch \<Rightarrow> nat \<Rightarrow> nat" where
  "ub_sid ub s \<equiv> ub_seq_id_unq ub ! s"

abbreviation ub_stream :: "llama_kv_cache \<Rightarrow> 'f llama_ubatch \<Rightarrow> nat \<Rightarrow> nat" where
  "ub_stream kv ub s \<equiv> kv_seq_to_stream kv ! ub_sid ub s"

definition ubatch_ok :: "llama_kv_cache \<Rightarrow> 'f llama_ubatch \<Rightarrow> bool" where
  "ubatch_ok kv ub \<longleftrightarrow> 0 < ub_n_tokens ub \<and> 0 < ub_seqs kv ub \<and> ub_n_tokens ub mod ub_seqs kv ub = 0 \<and>
     ub_seqs kv ub \<le> length (ub_seq_id_unq ub) \<and> (\<forall>s<ub_seqs kv ub. ub_sid ub s < length (kv_seq_to_stream kv)) \<and>
     distinct (map (ub_stream kv ub) [0..<ub_seqs kv ub]) \<and>
     (\<forall>s<ub_seqs kv ub. (\<forall>ii<ub_len kv ub. token_ok (kv_seq_to_stream kv) (ub_stream kv ub s) ub (s * ub_len kv ub + ii)) \<and>
        (\<exists>ii<ub_len kv ub. int (ub_sid ub s) \<in> set (token_seqs ub (s * ub_len kv ub + ii))) \<and>
        (kv_n_stream kv > 1 \<longrightarrow> ub_n_seq_id ub ! (s * ub_len kv ub) = 1 \<and> ub_seq_id ub ! (s * ub_len kv ub) ! 0 = int (ub_sid ub s)))"

text \<open>The least position of the tokens for a stream.\<close>

definition ub_lo :: "llama_kv_cache \<Rightarrow> 'f llama_ubatch \<Rightarrow> nat \<Rightarrow> int" where
  "ub_lo kv ub s = Min ((\<lambda>ii. ub_pos ub ! (s * ub_len kv ub + ii)) ` {..<ub_len kv ub})"

definition usable_cell :: "llama_kv_cache \<Rightarrow> nat \<Rightarrow> nat \<Rightarrow> int \<Rightarrow> cell \<Rightarrow> bool" where
  "usable_cell kv st s lo x = (case x of None \<Rightarrow> True | Some (p, S, sh) \<Rightarrow>
     \<exists>t. S = {t} \<and> (prefix_sliding_enabled kv \<and> t = s \<and> kv_prefix_end kv ! s \<le> p \<and> p < lo - to_i32 (kv_window kv) + 1 \<or>
       swa_masked kv p (Max (seq_positions (stream kv st) t) + 1)))"

definition usable_size :: "llama_kv_cache \<Rightarrow> nat \<Rightarrow> nat" where
  "usable_size kv s = (if prefix_sliding_enabled kv
     then min (cache_size kv) (GGML_PAD (nat (max 0 (kv_prefix_end kv ! s)) + kv_window kv - 1 + kv_n_ubatch kv) (kv_n_pad kv))
     else cache_size kv)"

definition free_cells :: "llama_kv_cache \<Rightarrow> 'f llama_ubatch \<Rightarrow> nat \<Rightarrow> nat set" where
  "free_cells kv ub s = {i. i < usable_size kv (ub_sid ub s) \<and>
     usable_cell kv (ub_stream kv ub s) (ub_sid ub s) (ub_lo kv ub s) (stream kv (ub_stream kv ub s) ! i)}"

definition no_prefix :: "llama_kv_cache \<Rightarrow> nat \<Rightarrow> bool" where
  "no_prefix kv s \<longleftrightarrow> prefix_sliding_enabled kv \<and> kv_prefix_end kv ! s < 0"

definition found :: "llama_kv_cache \<Rightarrow> 'f llama_ubatch \<Rightarrow> bool \<Rightarrow> nat \<Rightarrow> nat list \<Rightarrow> bool" where
  "found kv ub cont s idxs \<longleftrightarrow> \<not> no_prefix kv (ub_sid ub s) \<and> length idxs = ub_len kv ub \<and> distinct idxs \<and> set idxs \<subseteq> free_cells kv ub s \<and>
     (cont \<longrightarrow> (\<exists>a. idxs = [a..<a + ub_len kv ub]))"

definition no_room :: "llama_kv_cache \<Rightarrow> 'f llama_ubatch \<Rightarrow> bool \<Rightarrow> nat \<Rightarrow> bool" where
  "no_room kv ub cont s \<longleftrightarrow> no_prefix kv (ub_sid ub s) \<or>
     (if cont then \<forall>a. \<not> {a..<a + ub_len kv ub} \<subseteq> free_cells kv ub s else card (free_cells kv ub s) < ub_len kv ub)"

lemma finite_positions: "finite (seq_positions cs s)"
proof -
  have "seq_positions cs s \<subseteq> (\<lambda>x. case x of None \<Rightarrow> 0 | Some (p, _) \<Rightarrow> p) ` set cs"
    by (force simp: seq_positions_def in_set_conv_nth image_iff)
  then show ?thesis by (rule finite_subset) simp
qed

lemma seq_positions_own:
  assumes "cache_ok kv" "st < kv_n_stream kv" "p \<in> seq_positions (stream kv st) s"
  shows "0 \<le> p" "p < LLAMA_POS_MAX" "s < length (kv_seq_to_stream kv)" "kv_seq_to_stream kv ! s = st"
proof -
  obtain S sh where x: "Some (p, S, sh) \<in> set (stream kv st)" "s \<in> S"
    using assms(3) by (auto simp: seq_positions_def in_set_conv_nth)
  show "0 \<le> p" by (rule stream_pos [OF stream_okD(1) [OF assms(1,2)] x(1)])
  show "p < LLAMA_POS_MAX" "s < length (kv_seq_to_stream kv)" "kv_seq_to_stream kv ! s = st"
    using stream_okD(5) [OF assms(1,2) x(1)] x(2) by (simp_all add: cell_own_def)
qed

lemma usable_cell_eq:
  assumes ok: "cache_ok kv" and st: "st < kv_n_stream kv" and i: "i < cache_size kv"
  shows "cell_usable kv (kv_cells kv ! st) s (if prefix_sliding_enabled kv then kv_prefix_end kv ! s else -1) lo i =
    Some (usable_cell kv st s lo (stream kv st ! i))"
proof -
  let ?c = "kv_cells kv ! st"
  note c = stream_okD(1) [OF ok st]
  have i': "i < kc_size ?c" using stream_okD(2) [OF ok st] i by simp
  show ?thesis
  proof (cases "stream kv st ! i")
    case None
    then show ?thesis by (simp add: cell_usable_def cell_facts(1) [OF c i'] usable_cell_def)
  next
    case (Some a)
    obtain p S sh where cell: "stream kv st ! i = Some (p, S, sh)" by (cases a) (use Some in auto)
    note at = cell_facts(1) [OF c i'] cell_facts(4) [OF c i' cell]
    show ?thesis
    proof (cases "card S = 1")
      case False
      then have "\<not> (\<exists>t. S = {t})" by auto
      then show ?thesis using at cell False by (simp add: cell_usable_def usable_cell_def)
    next
      case True
      then obtain t where S: "S = {t}" by (rule card_1_singletonE)
      note own = cell_facts(5) [OF c i' cell [unfolded S]]
      let ?P = "seq_positions (stream kv st) t"
      have p: "p \<in> ?P" using cell S i' by (auto simp: seq_positions_def intro!: exI [of _ i])
      then have "Max ?P \<in> ?P" using finite_positions Max_in by blast
      from seq_positions_own [OF ok st this] have m: "0 \<le> Max ?P" "Max ?P < LLAMA_POS_MAX" by simp_all
      have max: "kc_seq_pos_max ?c (int t) = Some (Max ?P)"
        using p own by (auto simp: seq_pos_queries(2) [OF c] Let_def bind_check seq_id_ok_def)
      have "s32 (Max ?P + 1) = Some (Max ?P + 1)" using m by (auto simp: s32_def LLAMA_POS_MAX_def)
      moreover have "is_masked_swa kv p (Max ?P + 1) = Some (swa_masked kv p (Max ?P + 1))"
        using is_masked_swa_eq [OF cache_okD(1) [OF ok]] at m by simp
      ultimately show ?thesis using at cell S own max by (auto simp add: cell_usable_def usable_cell_def)
    qed
  qed
qed

lemma usable_size_le: "usable_size kv s \<le> cache_size kv"
  by (simp add: usable_size_def)

lemma incoming_lo:
  assumes "0 < n" "\<And>i. i < n \<Longrightarrow> k + i < length ps \<and> ps ! (k + i) \<le> LLAMA_POS_MAX"
  shows "fold_opt (\<lambda>i m. do { p \<leftarrow> vec_at ps (k + i); Some (min m p) }) [0..<n] LLAMA_POS_MAX = Some (Min ((\<lambda>i. ps ! (k + i)) ` {..<n}))"
proof -
  let ?P = "\<lambda>is m. m = Min (insert LLAMA_POS_MAX ((\<lambda>i. ps ! (k + i)) ` set is))"
  have "\<exists>m. fold_opt (\<lambda>i m. do { p \<leftarrow> vec_at ps (k + i); Some (min m p) }) [0..<n] LLAMA_POS_MAX = Some m \<and> ?P [0..<n] m"
  proof (rule fold_opt_invariant [where P = ?P])
    fix ys i zs m
    assume split: "[0..<n] = ys @ i # zs" and P: "?P ys m"
    have "i \<in> set [0..<n]" unfolding split by simp
    then have "vec_at ps (k + i) = Some (ps ! (k + i))" using assms(2) [of i] by simp
    moreover have "min m (ps ! (k + i)) = Min (insert (ps ! (k + i)) (insert LLAMA_POS_MAX ((\<lambda>i. ps ! (k + i)) ` set ys)))"
      using P by (subst Min_insert) (auto simp: min.commute)
    ultimately show "\<exists>m'. (do { p \<leftarrow> vec_at ps (k + i); Some (min m p) }) = Some m' \<and> ?P (ys @ [i]) m'"
      by (simp add: insert_commute)
  qed simp
  moreover have "Min (insert LLAMA_POS_MAX ((\<lambda>i. ps ! (k + i)) ` {..<n})) = Min ((\<lambda>i. ps ! (k + i)) ` {..<n})"
  proof -
    have "Min ((\<lambda>i. ps ! (k + i)) ` {..<n}) \<le> ps ! (k + 0)" using assms(1) by (intro Min_le imageI) auto
    also have "\<dots> \<le> LLAMA_POS_MAX" using assms(2) [OF assms(1)] by simp
    finally show ?thesis using assms(1) by (subst Min_insert) (auto simp: min_def)
  qed
  ultimately show ?thesis by (simp add: lessThan_atLeast0)
qed



section \<open>The search\<close>

lemma ubatch_okD:
  assumes ub: "ubatch_ok kv ub" and s: "s < ub_seqs kv ub"
  shows "ub_sid ub s < length (kv_seq_to_stream kv)" "s < length (ub_seq_id_unq ub)" "0 < ub_len kv ub" "ub_n_tokens ub = ub_seqs kv ub * ub_len kv ub"
    "ii < ub_len kv ub \<Longrightarrow> token_ok (kv_seq_to_stream kv) (ub_stream kv ub s) ub (s * ub_len kv ub + ii)"
proof -
  show n: "ub_n_tokens ub = ub_seqs kv ub * ub_len kv ub"
    using ub by (auto simp: ubatch_ok_def ub_len_def)
  show "0 < ub_len kv ub" using n ub by (cases "ub_len kv ub") (simp_all add: ubatch_ok_def)
qed (use ub s in \<open>auto simp: ubatch_ok_def\<close>)

lemma prefix_size:
  assumes "cache_ok kv" "s < length (kv_seq_to_stream kv)" "prefix_sliding_enabled kv"
  shows "prefix_sliding_size kv s = Some (usable_size kv s)" "vec_at (kv_prefix_end kv) s = Some (kv_prefix_end kv ! s)"
proof -
  have "s < length (kv_prefix_end kv)" using seq_stream(4) [OF assms(1), of "int s"] assms(2) by (simp add: seq_ok_def)
  then show pe: "vec_at (kv_prefix_end kv) s = Some (kv_prefix_end kv ! s)" by simp
  show "prefix_sliding_size kv s = Some (usable_size kv s)"
    unfolding prefix_sliding_size_def usable_size_def using pe assms(3) by (simp add: size_cells [OF assms(1)] Let_def)
qed

lemma find_seq_result:
  assumes ok: "cache_ok kv" and ub: "ubatch_ok kv ub" and s: "s < ub_seqs kv ub"
  shows "\<exists>r. find_seq kv ub cont (ub_len kv ub) s = Some (ub_stream kv ub s, r) \<and>
    (case r of None \<Rightarrow> no_room kv ub cont s | Some idxs \<Rightarrow> found kv ub cont s idxs \<and> \<not> no_room kv ub cont s)"
proof -
  let ?n = "ub_len kv ub" and ?sid = "ub_sid ub s" and ?st = "ub_stream kv ub s" and ?lo = "ub_lo kv ub s"
  let ?pe = "if prefix_sliding_enabled kv then kv_prefix_end kv ! ?sid else -1"
  let ?usable = "usable_size kv ?sid" and ?free = "free_cells kv ub s"
  note D = ubatch_okD [OF ub s]
  have st: "?st < kv_n_stream kv" using seq_stream(2) [OF ok, of "int ?sid"] D(1) by (simp add: seq_ok_def)
  let ?c = "kv_cells kv ! ?st"
  let ?check = "if kv_n_stream kv > 1 then do {
        n \<leftarrow> vec_at (ub_n_seq_id ub) (s * ?n); check (n = 1);
        row \<leftarrow> vec_at (ub_seq_id ub) (s * ?n); r \<leftarrow> vec_at row 0; check (r = int ?sid) } else Some ()"
  have "?check = Some ()"
  proof -
    have t: "s * ?n < length (ub_n_seq_id ub)" "s * ?n < length (ub_seq_id ub)" "0 < length (ub_seq_id ub ! (s * ?n))"
      using D(5) [of 0] D(3) unfolding token_ok_def by (auto simp del: length_greater_0_conv)
    have "kv_n_stream kv > 1 \<Longrightarrow> ub_n_seq_id ub ! (s * ?n) = 1 \<and> ub_seq_id ub ! (s * ?n) ! 0 = int ?sid"
      using ub s unfolding ubatch_ok_def by blast
    then show ?thesis using t by (simp del: length_greater_0_conv)
  qed
  moreover have "(if prefix_sliding_enabled kv then vec_at (kv_prefix_end kv) ?sid else Some (-1)) = Some ?pe"
    using prefix_size(2) [OF ok D(1)] by simp
  moreover have "fold_opt (\<lambda>i m. do { p \<leftarrow> vec_at (ub_pos ub) (s * ?n + i); Some (min m p) }) [0..<?n] LLAMA_POS_MAX = Some ?lo"
    unfolding ub_lo_def by (rule incoming_lo [OF D(3)]) (use D(5) in \<open>force simp: token_ok_def\<close>)
  moreover have "(if prefix_sliding_enabled kv then prefix_sliding_size kv ?sid else Some (kc_size ?c)) = Some ?usable"
    using prefix_size(1) [OF ok D(1)] stream_okD(2) [OF ok st] by (simp add: usable_size_def)
  ultimately have run: "find_seq kv ub cont ?n s =
     (if prefix_sliding_enabled kv \<and> ?pe < 0 then Some (?st, None)
      else let h1 = (if kv_heads kv ! ?st \<ge> ?usable then 0 else kv_heads kv ! ?st);
               h = (if h1 > kc_get_used ?c + 2 * ?n then 0 else h1)
        in if ?n > ?usable then Some (?st, None)
           else slot_loop (cell_usable kv ?c ?sid ?pe ?lo) cont ?n ?usable h 0 [] \<bind> (\<lambda>r. Some (?st, r)))"
    using D(1,2) st cache_okD(5,6) [OF ok] by (simp add: find_seq_def Let_def)
  show ?thesis
  proof (cases "no_prefix kv ?sid")
    case True
    then show ?thesis by (simp add: run no_prefix_def no_room_def)
  next
    case pre: False
    show ?thesis
    proof (cases "?n > ?usable")
      case True
      have "?free \<subseteq> {..<?usable}" by (auto simp: free_cells_def)
      from card_mono [OF _ this] have "card ?free < ?n" using True by simp
      moreover have "\<not> {a..<a + ?n} \<subseteq> ?free" for a
      proof
        assume "{a..<a + ?n} \<subseteq> ?free"
        then have "a + ?n - 1 \<in> ?free" using D(3) by auto
        then show False using True by (auto simp: free_cells_def)
      qed
      ultimately show ?thesis using True pre by (simp add: run no_prefix_def no_room_def Let_def)
    next
      case False
      let ?h1 = "if kv_heads kv ! ?st \<ge> ?usable then 0 else kv_heads kv ! ?st"
      let ?h = "if ?h1 > kc_get_used ?c + 2 * ?n then 0 else ?h1"
      have h: "?h < ?usable" using False D(3) by auto
      let ?u = "\<lambda>i. i \<in> ?free"
      have u: "cell_usable kv ?c ?sid ?pe ?lo i = Some (?u i)" if "i < ?usable" for i
        using usable_cell_eq [OF ok st, of i ?sid ?lo] that usable_size_le [of kv ?sid] by (simp add: free_cells_def)
      have run': "find_seq kv ub cont ?n s = slot_loop (cell_usable kv ?c ?sid ?pe ?lo) cont ?n ?usable ?h 0 [] \<bind> (\<lambda>r. Some (?st, r))"
        using pre False by (simp add: run no_prefix_def Let_def)
      have fr: "{i. i < ?usable \<and> ?u i} = ?free" by (auto simp: free_cells_def)
      show ?thesis
      proof (cases cont)
        case True
        obtain r where r: "slot_loop (cell_usable kv ?c ?sid ?pe ?lo) True ?n ?usable ?h 0 [] = Some r" "run_found ?u ?n ?usable r"
          using slot_loop_run [where u = ?u and can_use = "cell_usable kv ?c ?sid ?pe ?lo", OF u less_imp_le [OF h] D(3)] False by auto
        have win: "window ?u ?n ?usable a \<longleftrightarrow> {a..<a + ?n} \<subseteq> ?free" for a
        proof
          assume w: "window ?u ?n ?usable a"
          show "{a..<a + ?n} \<subseteq> ?free"
          proof
            fix i assume "i \<in> {a..<a + ?n}"
            then show "i \<in> ?free" using w by (auto simp: window_def dest!: spec [of _ "i - a"])
          qed
        next
          assume sub: "{a..<a + ?n} \<subseteq> ?free"
          then have "a + ?n - 1 \<in> ?free" using D(3) by auto
          then have "a + ?n \<le> ?usable" using D(3) by (auto simp: free_cells_def)
          moreover have "?u (a + i)" if "i < ?n" for i using sub that by (auto dest!: subsetD [of _ _ "a + i"])
          ultimately show "window ?u ?n ?usable a" by (simp add: window_def)
        qed
        show ?thesis
        proof (cases r)
          case None
          then show ?thesis using run' r True win by (simp add: run_found_def no_room_def)
        next
          case (Some idxs)
          then obtain a where a: "idxs = [a..<a + ?n]" "{a..<a + ?n} \<subseteq> ?free" using r(2) win by (auto simp: run_found_def)
          then show ?thesis using run' r(1) True pre Some by (auto simp: found_def no_room_def)
        qed
      next
        case nc: False
        have loop: "slot_loop (cell_usable kv ?c ?sid ?pe ?lo) False ?n ?usable ?h 0 [] = Some (first_cells ?n (filter ?u ([?h..<?usable] @ [0..<?h])))"
          by (rule slot_loop_cells [OF u h D(3)])
        note none = first_cells_found [OF less_imp_le [OF h], of ?n ?u, unfolded fr]
        show ?thesis
        proof (cases "first_cells ?n (filter ?u ([?h..<?usable] @ [0..<?h]))")
          case None
          then show ?thesis using run' loop nc none by (simp add: no_room_def)
        next
          case (Some idxs)
          note f = first_cells_facts [OF Some less_imp_le [OF h]]
          have "\<not> card ?free < ?n" using none Some by simp
          moreover have "found kv ub False s idxs" using f pre by (auto simp: found_def)
          ultimately show ?thesis using run' loop nc pre Some by (simp add: no_room_def)
        qed
      qed
    qed
  qed
qed


text \<open>All sequences of the micro batch.\<close>

lemma find_seqs_result:
  assumes ok: "cache_ok kv" and ub: "ubatch_ok kv ub"
  shows "k + m = ub_seqs kv ub \<Longrightarrow> length (slot_strm res) = ub_seqs kv ub \<Longrightarrow> length (slot_idxs res) = ub_seqs kv ub \<Longrightarrow>
    (0 < k \<longrightarrow> slot_s0 res \<le> slot_s1 res) \<Longrightarrow>
    (\<And>s. s < k \<Longrightarrow> slot_strm res ! s = ub_stream kv ub s \<and> found kv ub cont s (slot_idxs res ! s) \<and> \<not> no_room kv ub cont s) \<Longrightarrow>
    \<exists>sl. find_seqs kv ub cont (ub_len kv ub) [k..<k + m] res = Some sl \<and>
      (sl = slot_none \<and> (\<exists>s<ub_seqs kv ub. no_room kv ub cont s) \<or>
       length (slot_strm sl) = ub_seqs kv ub \<and> length (slot_idxs sl) = ub_seqs kv ub \<and>
       (\<forall>s<ub_seqs kv ub. slot_strm sl ! s = ub_stream kv ub s \<and> found kv ub cont s (slot_idxs sl ! s) \<and> \<not> no_room kv ub cont s))"
proof (induction m arbitrary: k res)
  case 0
  have "0 < k" using 0(1) ub by (simp add: ubatch_ok_def)
  then show ?case using 0 by (auto simp: bind_check)
next
  case (Suc m)
  have k: "k < ub_seqs kv ub" using Suc.prems(1) by simp
  obtain r where r: "find_seq kv ub cont (ub_len kv ub) k = Some (ub_stream kv ub k, r)"
    "case r of None \<Rightarrow> no_room kv ub cont k | Some idxs \<Rightarrow> found kv ub cont k idxs \<and> \<not> no_room kv ub cont k"
    using find_seq_result [OF ok ub k] by blast
  have list: "[k..<k + Suc m] = k # [Suc k..<Suc k + m]" by (simp add: upt_conv_Cons)
  show ?case
  proof (cases r)
    case None
    then show ?thesis using r k unfolding list by auto
  next
    case (Some idxs)
    let ?st = "ub_stream kv ub k"
    let ?res = "\<lparr>slot_s0 = min (slot_s0 res) ?st, slot_s1 = max (slot_s1 res) ?st,
           slot_strm = (slot_strm res)[k := ?st], slot_idxs = (slot_idxs res)[k := idxs]\<rparr>"
    have eq: "find_seqs kv ub cont (ub_len kv ub) [k..<k + Suc m] res = find_seqs kv ub cont (ub_len kv ub) [Suc k..<Suc k + m] ?res"
      unfolding list using r(1) Some by simp
    show ?thesis unfolding eq
    proof (rule Suc.IH)
      show "0 < Suc k \<longrightarrow> slot_s0 ?res \<le> slot_s1 ?res" by (simp add: min_le_iff_disj)
      show "slot_strm ?res ! s = ub_stream kv ub s \<and> found kv ub cont s (slot_idxs ?res ! s) \<and> \<not> no_room kv ub cont s" if "s < Suc k" for s
        using Suc.prems(5) [of s] Suc.prems(2,3) that k r(2) Some by (cases "s = k") simp_all
    qed (use Suc.prems in simp_all)
  qed
qed

lemma slot_none_simps [simp]: "slot_empty slot_none" "slot_strm slot_none = []" "slot_idxs slot_none = []"
  by (simp_all add: slot_none_def slot_empty_def)

lemma find_slot_result:
  assumes ok: "cache_ok kv" and ub: "ubatch_ok kv ub"
  shows "\<exists>sl. find_slot ub cont kv = Some sl \<and> (slot_empty sl \<longleftrightarrow> (\<exists>s<ub_seqs kv ub. no_room kv ub cont s)) \<and>
    (\<not> slot_empty sl \<longrightarrow> length (slot_strm sl) = ub_seqs kv ub \<and> length (slot_idxs sl) = ub_seqs kv ub \<and>
      (\<forall>s<ub_seqs kv ub. slot_strm sl ! s = ub_stream kv ub s \<and> found kv ub cont s (slot_idxs sl ! s)))"
proof -
  let ?n = "ub_seqs kv ub"
  let ?res = "\<lparr>slot_s0 = LLAMA_MAX_SEQ, slot_s1 = 0, slot_strm = replicate ?n 0, slot_idxs = replicate ?n []\<rparr>"
  have n: "0 < ?n" using ub by (simp add: ubatch_ok_def)
  have "find_slot ub cont kv = find_seqs kv ub cont (ub_len kv ub) [0..<0 + ?n] ?res"
    using ub n by (auto simp: find_slot_def ub_seqs_def ub_len_def ubatch_ok_def bind_check)
  moreover obtain sl where "find_seqs kv ub cont (ub_len kv ub) [0..<0 + ?n] ?res = Some sl"
      "sl = slot_none \<and> (\<exists>s<?n. no_room kv ub cont s) \<or>
       length (slot_strm sl) = ?n \<and> length (slot_idxs sl) = ?n \<and>
       (\<forall>s<?n. slot_strm sl ! s = ub_stream kv ub s \<and> found kv ub cont s (slot_idxs sl ! s) \<and> \<not> no_room kv ub cont s)"
    using find_seqs_result [OF ok ub, of 0 ?n ?res cont] by auto
  ultimately show ?thesis using n by (auto simp: slot_empty_def)
qed

text \<open>What was found can be written.\<close>

lemma found_slot_ok:
  assumes ok: "cache_ok kv" and ub: "ubatch_ok kv ub" and len: "length (slot_strm sl) = ub_seqs kv ub" "length (slot_idxs sl) = ub_seqs kv ub"
    and f: "\<And>s. s < ub_seqs kv ub \<Longrightarrow> slot_strm sl ! s = ub_stream kv ub s \<and> found kv ub cont s (slot_idxs sl ! s)"
  shows "slot_ok kv sl ub" "slot_len sl = ub_len kv ub" "slot_n_stream sl = ub_seqs kv ub"
proof -
  let ?n = "ub_seqs kv ub"
  have n: "0 < ?n" using ub by (simp add: ubatch_ok_def)
  show ns: "slot_n_stream sl = ?n" using len by (simp add: slot_n_stream_def)
  have "slot_idxs sl \<noteq> []" using len n by auto
  then show sz: "slot_len sl = ub_len kv ub" using f [OF n] by (simp add: slot_len_def found_def hd_conv_nth)
  have "slot_strm sl = map (ub_stream kv ub) [0..<?n]"
    by (rule nth_equalityI) (use len f in auto)
  moreover have "ub_stream kv ub s < kv_n_stream kv" if "s < ?n" for s
    using seq_stream(2) [OF ok, of "int (ub_sid ub s)"] ubatch_okD(1) [OF ub that] by (simp add: seq_ok_def)
  moreover have "reusable (stream kv (ub_stream kv ub s) ! i) \<and> i < cache_size kv"
    if "s < ?n" "i \<in> set (slot_idxs sl ! s)" for s i
  proof -
    have st: "ub_stream kv ub s < kv_n_stream kv"
      using seq_stream(2) [OF ok, of "int (ub_sid ub s)"] ubatch_okD(1) [OF ub that(1)] by (simp add: seq_ok_def)
    have i: "i \<in> free_cells kv ub s" using f [OF that(1)] that(2) by (auto simp: found_def)
    then have size: "i < cache_size kv" using usable_size_le [of kv "ub_sid ub s"] by (simp add: free_cells_def)
    let ?x = "stream kv (ub_stream kv ub s) ! i"
    have "?x \<in> set (stream kv (ub_stream kv ub s))" using size stream_okD(3) [OF ok st] by simp
    from stream_okD(5) [OF ok st this] have "\<forall>p S sh. ?x = Some (p, S, sh) \<longrightarrow> p < LLAMA_POS_MAX" by (auto simp: cell_own_def)
    moreover have "single ?x" using i by (auto simp: free_cells_def usable_cell_def single_def split: option.splits)
    ultimately show ?thesis using size by (simp add: reusable_def)
  qed
  ultimately show "slot_ok kv sl ub"
    using n ns sz len f ubatch_okD(3-5) [OF ub] ub unfolding slot_ok_def by (auto simp: found_def ubatch_ok_def)
qed

end
