(* ===== verification/KV_Attention.thy ===== *)
theory KV_Attention
  imports KV_Place
begin

text \<open>
  The KV cache and attention: after a micro batch has been placed, every token that comes now or later sees
  exactly the positions of its sequence it would see had nothing ever been overwritten or purged.
\<close>

section \<open>Tokens\<close>

definition incoming :: "'f llama_ubatch \<Rightarrow> nat \<Rightarrow> int set" where
  "incoming ub s = {ub_pos ub ! i |i. i < ub_n_tokens ub \<and> int s \<in> set (token_seqs ub i)}"

definition fresh :: "llama_kv_cache \<Rightarrow> 'f llama_ubatch \<Rightarrow> bool" where
  "fresh kv ub \<longleftrightarrow> (\<forall>s<length (kv_seq_to_stream kv). \<forall>p\<in>positions kv s. \<forall>q\<in>incoming ub s. p < q)"

text \<open>\<open>p1\<close> is a position of sequence \<open>s\<close> in the micro batch, or after it.\<close>

definition from_now_on :: "llama_kv_cache \<Rightarrow> 'f llama_ubatch \<Rightarrow> nat \<Rightarrow> int \<Rightarrow> bool" where
  "from_now_on kv ub s p1 \<longleftrightarrow> 0 \<le> p1 \<and> (\<forall>p\<in>positions kv s. p < p1) \<and> (incoming ub s \<noteq> {} \<longrightarrow> (\<exists>q\<in>incoming ub s. q \<le> p1))"

definition open_positions :: "llama_kv_cache \<Rightarrow> bool \<Rightarrow> nat \<Rightarrow> int \<Rightarrow> int set" where
  "open_positions kv causal s p1 = {p \<in> positions kv s. allowed kv causal s p1 p}"

lemma incoming_chunk:
  assumes ub: "ubatch_ok kv ub" and q: "q \<in> incoming ub s"
  obtains c ii where "c < ub_seqs kv ub" "ii < ub_len kv ub" "q = ub_pos ub ! (c * ub_len kv ub + ii)"
    "int s \<in> set (token_seqs ub (c * ub_len kv ub + ii))" "s < length (kv_seq_to_stream kv)" "ub_stream kv ub c = kv_seq_to_stream kv ! s"
proof -
  obtain i where i: "i < ub_n_tokens ub" "int s \<in> set (token_seqs ub i)" "q = ub_pos ub ! i" using q by (auto simp: incoming_def)
  have n: "0 < ub_seqs kv ub" using ub by (simp add: ubatch_ok_def)
  note D = ubatch_okD(3,4) [OF ub n]
  let ?c = "i div ub_len kv ub" and ?ii = "i mod ub_len kv ub"
  have c: "?c < ub_seqs kv ub" using i(1) D by (simp add: less_mult_imp_div_less)
  have ii: "?ii < ub_len kv ub" using D(1) by simp
  have eq: "?c * ub_len kv ub + ?ii = i" by (rule div_mult_mod_eq)
  have "token_ok (kv_seq_to_stream kv) (ub_stream kv ub ?c) ub i" using ubatch_okD(5) [OF ub c ii] unfolding eq .
  then have "s < length (kv_seq_to_stream kv)" "ub_stream kv ub ?c = kv_seq_to_stream kv ! s"
    using i(2) by (auto simp: token_ok_def dest!: bspec [of _ _ "int s"])
  then show ?thesis using that [OF c ii] i eq by simp
qed

lemma chunk_incoming:
  assumes ub: "ubatch_ok kv ub" and c: "c < ub_seqs kv ub" "ii < ub_len kv ub" "int s \<in> set (token_seqs ub (c * ub_len kv ub + ii))"
  shows "ub_pos ub ! (c * ub_len kv ub + ii) \<in> incoming ub s"
proof -
  have "c * ub_len kv ub + ii < ub_seqs kv ub * ub_len kv ub"
    using c(1,2) mult_le_mono1 [of "Suc c" "ub_seqs kv ub" "ub_len kv ub"] by simp
  then show ?thesis using ubatch_okD(4) [OF ub c(1)] c(3) by (auto simp: incoming_def)
qed


section \<open>Placing a micro batch\<close>

text \<open>A slot that \<open>find_slot\<close> found for a micro batch.\<close>

definition placing :: "llama_kv_cache \<Rightarrow> 'f llama_ubatch \<Rightarrow> bool \<Rightarrow> slot_info \<Rightarrow> bool" where
  "placing kv ub cont sl \<longleftrightarrow> cache_ok kv \<and> ubatch_ok kv ub \<and> find_slot ub cont kv = Some sl \<and> \<not> slot_empty sl"

lemma placingD:
  assumes "placing kv ub cont sl"
  shows "cache_ok kv" "ubatch_ok kv ub" "find_slot ub cont kv = Some sl" "\<not> slot_empty sl"
  using assms by (simp_all add: placing_def)

lemma slot:
  assumes P: "placing kv ub cont sl"
  shows "slot_ok kv sl ub" "slot_len sl = ub_len kv ub" "slot_n_stream sl = ub_seqs kv ub"
    "c < ub_seqs kv ub \<Longrightarrow> slot_strm sl ! c = ub_stream kv ub c" "c < ub_seqs kv ub \<Longrightarrow> found kv ub cont c (slot_idxs sl ! c)"
    "length (slot_strm sl) = ub_seqs kv ub"
proof -
  note ok = placingD(1) [OF P] and ub = placingD(2) [OF P] and found_slot = placingD(3,4) [OF P]
  have f: "length (slot_strm sl) = ub_seqs kv ub" "length (slot_idxs sl) = ub_seqs kv ub"
    "\<And>s. s < ub_seqs kv ub \<Longrightarrow> slot_strm sl ! s = ub_stream kv ub s \<and> found kv ub cont s (slot_idxs sl ! s)"
    using find_slot_result [OF ok ub, of cont] found_slot by auto
  show "slot_ok kv sl ub" "slot_len sl = ub_len kv ub" "slot_n_stream sl = ub_seqs kv ub" using found_slot_ok [OF ok ub f] by simp_all
  show "c < ub_seqs kv ub \<Longrightarrow> slot_strm sl ! c = ub_stream kv ub c" "c < ub_seqs kv ub \<Longrightarrow> found kv ub cont c (slot_idxs sl ! c)"
    using f(3) by simp_all
  show "length (slot_strm sl) = ub_seqs kv ub" by (rule f(1))
qed

lemma chunk_facts:
  assumes P: "placing kv ub cont sl" and c: "c < ub_seqs kv ub"
  shows "ub_stream kv ub c < kv_n_stream kv" "distinct (slot_idxs sl ! c)" "length (slot_idxs sl ! c) = ub_len kv ub"
    "i \<in> set (slot_idxs sl ! c) \<Longrightarrow> i < cache_size kv \<and>
      usable_cell kv (ub_stream kv ub c) (ub_sid ub c) (ub_lo kv ub c) (stream kv (ub_stream kv ub c) ! i)"
    "placed kv sl ub (ub_stream kv ub c) = put_cells ub (c * ub_len kv ub) (slot_idxs sl ! c) (stream kv (ub_stream kv ub c))"
proof -
  note ok = placingD(1) [OF P] and ub = placingD(2) [OF P] and found_slot = placingD(3,4) [OF P]
  show "ub_stream kv ub c < kv_n_stream kv"
    using seq_stream(2) [OF ok, of "int (ub_sid ub c)"] ubatch_okD(1) [OF ub c] by (simp add: seq_ok_def)
  show "distinct (slot_idxs sl ! c)" "length (slot_idxs sl ! c) = ub_len kv ub" using slot(5) [OF P c] by (simp_all add: found_def)
  show "i < cache_size kv \<and> usable_cell kv (ub_stream kv ub c) (ub_sid ub c) (ub_lo kv ub c) (stream kv (ub_stream kv ub c) ! i)"
    if "i \<in> set (slot_idxs sl ! c)"
  proof -
    have "i \<in> free_cells kv ub c" using slot(5) [OF P c] that by (auto simp: found_def)
    then show ?thesis using usable_size_le [of kv "ub_sid ub c"] by (simp add: free_cells_def)
  qed
  have "distinct (slot_strm sl)" using slot(1) [OF P] by (simp add: slot_ok_def)
  from placed_at(1) [OF this, of c kv ub] show "placed kv sl ub (ub_stream kv ub c) =
      put_cells ub (c * ub_len kv ub) (slot_idxs sl ! c) (stream kv (ub_stream kv ub c))"
    using slot(2,3,4) [OF P] c by simp
qed

lemma chunk_unique:
  "placing kv ub cont sl \<Longrightarrow> c < ub_seqs kv ub \<Longrightarrow> c' < ub_seqs kv ub \<Longrightarrow> ub_stream kv ub c = ub_stream kv ub c' \<Longrightarrow> c = c'"
  using nth_eq_iff_index_eq [of "map (ub_stream kv ub) [0..<ub_seqs kv ub]" c c'] by (simp add: placing_def ubatch_ok_def)

text \<open>The cells of a stream that keep what they hold.\<close>

definition untouched :: "llama_kv_cache \<Rightarrow> 'f llama_ubatch \<Rightarrow> slot_info \<Rightarrow> nat \<Rightarrow> nat \<Rightarrow> bool" where
  "untouched kv ub sl st j \<longleftrightarrow> (\<forall>c<ub_seqs kv ub. ub_stream kv ub c = st \<longrightarrow> j \<notin> set (slot_idxs sl ! c))"

lemma placed_untouched: "placing kv ub cont sl \<Longrightarrow> st < kv_n_stream kv \<Longrightarrow> j < cache_size kv \<Longrightarrow> untouched kv ub sl st j \<Longrightarrow> placed kv sl ub st ! j = stream kv st ! j"
proof -
  assume P: "placing kv ub cont sl" and st: "st < kv_n_stream kv" and j: "j < cache_size kv" and un: "untouched kv ub sl st j"
  note ok = placingD(1) [OF P]
  have dis: "distinct (slot_strm sl)" using slot(1) [OF P] by (simp add: slot_ok_def)
  show ?thesis
  proof (cases "st \<in> set (slot_strm sl)")
    case True
    then obtain c where c: "c < ub_seqs kv ub" "st = ub_stream kv ub c"
      using slot(4,6) [OF P] by (auto simp: in_set_conv_nth)
    then show ?thesis
      using chunk_facts(5) [OF P c(1)] put_cells_at(1) [OF chunk_facts(2) [OF P c(1)], of j "stream kv st"] un j stream_okD(3) [OF ok st]
      by (simp add: untouched_def)
  next
    case False
    then show ?thesis using placed_at(2) [OF dis False, of kv ub] by simp
  qed
qed

lemma placed_token:
  assumes P: "placing kv ub cont sl" and c: "c < ub_seqs kv ub" "ii < ub_len kv ub"
  shows "placed kv sl ub (ub_stream kv ub c) ! (slot_idxs sl ! c ! ii) = token_cell ub (c * ub_len kv ub + ii)"
    "slot_idxs sl ! c ! ii < cache_size kv"
proof -
  note ok = placingD(1) [OF P]
  note f = chunk_facts [OF P c(1)]
  show size: "slot_idxs sl ! c ! ii < cache_size kv" using f(3,4) c(2) by simp
  show "placed kv sl ub (ub_stream kv ub c) ! (slot_idxs sl ! c ! ii) = token_cell ub (c * ub_len kv ub + ii)"
    unfolding f(5) using put_cells_at(2) [OF f(2), of ii "stream kv (ub_stream kv ub c)" ub "c * ub_len kv ub"] c(2) f(3) size
      stream_okD(3) [OF ok f(1)] by simp
qed

lemma length_placed: "placing kv ub cont sl \<Longrightarrow> st < kv_n_stream kv \<Longrightarrow> length (placed kv sl ub st) = cache_size kv"
  using stream_okD(3) [of kv st] by (auto simp: placed_def placing_def split: option.splits)

lemma placed_positions:
  assumes P: "placing kv ub cont sl" and s: "s < length (kv_seq_to_stream kv)"
  shows "p \<in> seq_positions (placed kv sl ub (kv_seq_to_stream kv ! s)) s \<longleftrightarrow> p \<in> incoming ub s \<or>
    (\<exists>j S sh. j < cache_size kv \<and> untouched kv ub sl (kv_seq_to_stream kv ! s) j \<and> stream kv (kv_seq_to_stream kv ! s) ! j = Some (p, S, sh) \<and> s \<in> S)"
    (is "?L \<longleftrightarrow> ?R")
proof -
  note ok = placingD(1) [OF P] and ub = placingD(2) [OF P] and found_slot = placingD(3,4) [OF P]
  let ?st = "kv_seq_to_stream kv ! s"
  have st: "?st < kv_n_stream kv" using seq_stream(2) [OF ok, of "int s"] s by (simp add: seq_ok_def)
  note len = length_placed [OF P st]
  show ?thesis
  proof
    assume ?L
    then obtain j S sh where j: "j < cache_size kv" "placed kv sl ub ?st ! j = Some (p, S, sh)" "s \<in> S"
      using len by (auto simp: seq_positions_def)
    show ?R
    proof (cases "untouched kv ub sl ?st j")
      case True
      then show ?thesis using placed_untouched [OF P st j(1)] j by metis
    next
      case False
      then obtain c where c: "c < ub_seqs kv ub" "ub_stream kv ub c = ?st" "j \<in> set (slot_idxs sl ! c)" by (auto simp: untouched_def)
      then obtain ii where ii: "ii < ub_len kv ub" "j = slot_idxs sl ! c ! ii" using chunk_facts(3) [OF P c(1)] by (auto simp: in_set_conv_nth)
      then have cell: "Some (p, S, sh) = token_cell ub (c * ub_len kv ub + ii)" using placed_token(1) [OF P c(1) ii(1)] j(2) c(2) by simp
      have "\<forall>x\<in>set (token_seqs ub (c * ub_len kv ub + ii)). 0 \<le> x" using ubatch_okD(5) [OF ub c(1) ii(1)] by (simp add: token_ok_def)
      then have "int s \<in> set (token_seqs ub (c * ub_len kv ub + ii))" using cell j(3) by (auto simp: token_cell_def)
      then show ?thesis using chunk_incoming [OF ub c(1) ii(1)] cell by (simp add: token_cell_def)
    qed
  next
    assume ?R
    then show ?L
    proof
      assume "p \<in> incoming ub s"
      then obtain c ii where c: "c < ub_seqs kv ub" "ii < ub_len kv ub" "p = ub_pos ub ! (c * ub_len kv ub + ii)"
        "int s \<in> set (token_seqs ub (c * ub_len kv ub + ii))" "ub_stream kv ub c = ?st" by (rule incoming_chunk [OF ub])
      have "s \<in> nat ` set (token_seqs ub (c * ub_len kv ub + ii))" using c(4) by (metis imageI nat_int)
      then show ?L using placed_token [OF P c(1,2)] c(3,5) len unfolding seq_positions_def token_cell_def by auto
    next
      assume "\<exists>j S sh. j < cache_size kv \<and> untouched kv ub sl ?st j \<and> stream kv ?st ! j = Some (p, S, sh) \<and> s \<in> S"
      then show ?L using placed_untouched [OF P st] len unfolding seq_positions_def by fastforce
    qed
  qed
qed

text \<open>A cell that was taken holds a position that no token sees from now on.\<close>

lemma taken_hidden:
  assumes P: "placing kv ub cont sl" and c: "c < ub_seqs kv ub" "j \<in> set (slot_idxs sl ! c)" and cell: "stream kv (ub_stream kv ub c) ! j = Some (p, S, sh)" "s \<in> S"
    and p1: "from_now_on kv ub s p1"
  shows "S = {s}" "\<not> allowed kv causal s p1 p" "\<not> prefix_sliding_enabled kv \<longrightarrow> swa_masked kv p p1"
proof -
  note ok = placingD(1) [OF P] and ub = placingD(2) [OF P] and found_slot = placingD(3,4) [OF P]
  let ?st = "ub_stream kv ub c"
  note f = chunk_facts [OF P c(1)]
  have size: "j < length (stream kv ?st)" using f(4) [OF c(2)] stream_okD(3) [OF ok f(1)] by simp
  have use: "usable_cell kv ?st (ub_sid ub c) (ub_lo kv ub c) (Some (p, S, sh))" using f(4) [OF c(2)] cell(1) by simp
  then show S: "S = {s}" using cell(2) by (auto simp: usable_cell_def)
  have pos: "p \<in> seq_positions (stream kv ?st) s" using size cell by (auto simp: seq_positions_def)
  have own: "s < length (kv_seq_to_stream kv)" "kv_seq_to_stream kv ! s = ?st" using seq_positions_own [OF ok f(1) pos] by simp_all
  let ?M = "Max (seq_positions (stream kv ?st) s)"
  have "?M \<in> seq_positions (stream kv ?st) s" using Max_in [OF finite_positions] pos by blast
  then have M: "p \<le> ?M" "?M < p1" using pos finite_positions p1 own by (simp_all add: from_now_on_def positions_def)
  have swa: "swa_masked kv p p1" if "swa_masked kv p (?M + 1)"
    by (rule swa_masked_mono [OF that]) (use M in simp_all)
  have win: "window_masked kv s p p1"
    if w: "prefix_sliding_enabled kv" "s = ub_sid ub c" "kv_prefix_end kv ! s \<le> p" "p < ub_lo kv ub c - to_i32 (kv_window kv) + 1"
  proof -
    obtain ii where ii: "ii < ub_len kv ub" "int s \<in> set (token_seqs ub (c * ub_len kv ub + ii))"
      using ub c(1) w(2) by (auto simp: ubatch_ok_def)
    from chunk_incoming [OF ub c(1) this] have "incoming ub s \<noteq> {}" by auto
    then obtain q where q: "q \<in> incoming ub s" "q \<le> p1" using p1 by (auto simp: from_now_on_def)
    obtain c' ii' where c': "c' < ub_seqs kv ub" "ii' < ub_len kv ub" "q = ub_pos ub ! (c' * ub_len kv ub + ii')"
      "ub_stream kv ub c' = kv_seq_to_stream kv ! s" by (rule incoming_chunk [OF ub q(1)])
    have "c' = c" using chunk_unique [OF P c'(1) c(1)] c'(4) own(2) by simp
    then have "ub_lo kv ub c \<le> q" unfolding ub_lo_def c'(3) using c'(2) by (intro Min_le) auto
    then show ?thesis using w q(2) by (simp add: window_masked_def)
  qed
  show "\<not> allowed kv causal s p1 p" using use swa win S by (auto simp: usable_cell_def allowed_def)
  show "\<not> prefix_sliding_enabled kv \<longrightarrow> swa_masked kv p p1" using use swa S by (auto simp: usable_cell_def)
qed

lemma purged_hidden:
  assumes P: "placing kv ub cont sl" and slide: "\<not> prefix_sliding_enabled kv" and p1: "from_now_on kv ub s p1" and p: "0 \<le> p" "p \<le> purge_bounds kv sl s"
  shows "swa_masked kv p p1" "purge_bounds kv sl s \<in> positions kv s"
proof -
  note ok = placingD(1) [OF P] and ub = placingD(2) [OF P] and found_slot = placingD(3,4) [OF P]
  let ?xs = "replaced kv sl [0..<slot_n_stream sl]" and ?m = "purge_bounds kv sl s"
  have b: "purge_bounds kv sl = fold (overwrite False) ?xs (\<lambda>_. -1)" using slide by (simp add: purge_bounds_def)
  have single: "\<forall>x\<in>set ?xs. single x" using replaced_cell [OF ok slot(1) [OF P]] by (metis reusable_def)
  have "?m \<noteq> -1" using p by simp
  then obtain sh where "Some (?m, {s}, sh) \<in> set ?xs" using overwrite_bounds(2) [OF single, of "\<lambda>_. -1" s] unfolding b by auto
  then obtain c j where c: "c < ub_seqs kv ub" "j \<in> set (slot_idxs sl ! c)" "stream kv (slot_strm sl ! c) ! j = Some (?m, {s}, sh)"
    using slot(3) [OF P] by (auto simp: replaced_def)
  then have cell: "stream kv (ub_stream kv ub c) ! j = Some (?m, {s}, sh)" using slot(4) [OF P] by simp
  note f = chunk_facts [OF P c(1)]
  have "j < length (stream kv (ub_stream kv ub c))" using f(4) [OF c(2)] stream_okD(3) [OF ok f(1)] by simp
  then have pos: "?m \<in> seq_positions (stream kv (ub_stream kv ub c)) s" using cell by (auto simp: seq_positions_def)
  then show pos': "?m \<in> positions kv s" using seq_positions_own(4) [OF ok f(1) pos] by (simp add: positions_def)
  have "swa_masked kv ?m p1" using taken_hidden(3) [OF P c(1,2) cell _ p1] slide by simp
  then show "swa_masked kv p p1"
    by (rule swa_masked_mono) (use p pos' p1 in \<open>auto simp: from_now_on_def\<close>)
qed

lemma purge_map_positions:
  "p \<in> seq_positions (map (purge_cell mx Q) cs) s \<longleftrightarrow> p \<in> seq_positions cs s \<and> \<not> (s \<in> Q \<and> p \<le> mx s)"
proof
  assume "p \<in> seq_positions (map (purge_cell mx Q) cs) s"
  then obtain i S sh where i: "i < length cs" "purge_cell mx Q (cs ! i) = Some (p, S, sh)" "s \<in> S" by (auto simp: seq_positions_def)
  then obtain S' where "cs ! i = Some (p, S', sh)" "S = kept mx Q p S'"
    by (auto simp: purge_cell_def split: option.splits if_splits)
  then show "p \<in> seq_positions cs s \<and> \<not> (s \<in> Q \<and> p \<le> mx s)" using i by (auto simp: seq_positions_def kept_def)
next
  assume "p \<in> seq_positions cs s \<and> \<not> (s \<in> Q \<and> p \<le> mx s)"
  then obtain i S sh where i: "i < length cs" "cs ! i = Some (p, S, sh)" "s \<in> kept mx Q p S" by (auto simp: seq_positions_def kept_def)
  then have "purge_cell mx Q (cs ! i) = Some (p, kept mx Q p S, sh)" by (auto simp: purge_cell_def)
  then show "p \<in> seq_positions (map (purge_cell mx Q) cs) s" using i by (auto simp: seq_positions_def)
qed

lemma attention:
  assumes P: "placing kv ub cont sl" and fresh: "fresh kv ub"
  shows "\<exists>kv'. apply_ubatch sl ub kv = Some kv' \<and> cache_ok kv' \<and> config kv' = config kv \<and> cache_size kv' = cache_size kv \<and>
    kv_sc_info kv' = kv_sc_info kv \<and> kv_prefix_end kv' = kv_prefix_end kv \<and>
    (\<forall>s p1. s < length (kv_seq_to_stream kv) \<longrightarrow> from_now_on kv ub s p1 \<longrightarrow>
       open_positions kv' causal s p1 = {p \<in> positions kv s \<union> incoming ub s. allowed kv causal s p1 p})"
proof -
  note ok = placingD(1) [OF P] and ub = placingD(2) [OF P] and found_slot = placingD(3,4) [OF P]
  let ?g = "if prefix_sliding_enabled kv then id else purge_cell (purge_bounds kv sl) {..<LLAMA_MAX_SEQ}"
  obtain kv' where kv': "apply_ubatch sl ub kv = Some kv'" "cache_ok kv'" "config kv' = config kv" "cache_size kv' = cache_size kv"
    "kv_sc_info kv' = kv_sc_info kv" "kv_prefix_end kv' = kv_prefix_end kv" "\<forall>st<kv_n_stream kv. stream kv' st = map ?g (placed kv sl ub st)"
    using apply_ubatch_effect [OF ok slot(1) [OF P]] by blast
  note conf = config_fields [OF kv'(3)]
  have allowed: "allowed kv' causal s p1 p = allowed kv causal s p1 p" for s p1 p
    using kv'(6) conf(3,7) swa_masked_config [OF kv'(3)] by (simp add: allowed_def window_masked_def)
  have "open_positions kv' causal s p1 = {p \<in> positions kv s \<union> incoming ub s. allowed kv causal s p1 p}"
    if s: "s < length (kv_seq_to_stream kv)" and p1: "from_now_on kv ub s p1" for s p1
  proof -
    let ?st = "kv_seq_to_stream kv ! s"
    have sok: "seq_ok kv (int s)" using s by (simp add: seq_ok_def)
    have st: "?st < kv_n_stream kv" using seq_stream(2) [OF ok sok] by simp
    have sm: "s < LLAMA_MAX_SEQ" using seq_stream(3) [OF ok sok] by (simp add: seq_id_ok_def)
    have after: "p \<in> positions kv' s \<longleftrightarrow> p \<in> seq_positions (placed kv sl ub ?st) s \<and> \<not> (\<not> prefix_sliding_enabled kv \<and> p \<le> purge_bounds kv sl s)" for p
      using kv'(7) st sm purge_map_positions [of p "purge_bounds kv sl" "{..<LLAMA_MAX_SEQ}"] conf(2) by (auto simp: positions_def)
    have hidden: "\<not> allowed kv causal s p1 p" if "\<not> prefix_sliding_enabled kv" "0 \<le> p" "p \<le> purge_bounds kv sl s" for p
      using purged_hidden(1) [OF P that(1) p1 that(2,3)] by (simp add: allowed_def)
    have late: "\<not> (\<not> prefix_sliding_enabled kv \<and> q \<le> purge_bounds kv sl s)" if "q \<in> incoming ub s" for q
    proof
      assume a: "\<not> prefix_sliding_enabled kv \<and> q \<le> purge_bounds kv sl s"
      have "0 \<le> q" using that by (auto simp: token_ok_def elim!: incoming_chunk [OF ub] dest!: ubatch_okD(5) [OF ub])
      from purged_hidden(2) [OF P conjunct1 [OF a] p1 this conjunct2 [OF a]] show False
        using fresh s that a by (force simp: fresh_def)
    qed
    have "p \<in> positions kv' s \<longleftrightarrow> p \<in> positions kv s \<union> incoming ub s" if al: "allowed kv causal s p1 p" for p
    proof
      assume "p \<in> positions kv' s"
      then show "p \<in> positions kv s \<union> incoming ub s"
        using stream_okD(3) [OF ok st] unfolding after placed_positions [OF P s] by (auto simp: positions_def seq_positions_def)
    next
      assume "p \<in> positions kv s \<union> incoming ub s"
      then show "p \<in> positions kv' s"
      proof
        assume "p \<in> positions kv s"
        then obtain j S sh where j: "j < cache_size kv" "stream kv ?st ! j = Some (p, S, sh)" "s \<in> S"
          using stream_okD(3) [OF ok st] by (auto simp: positions_def seq_positions_def)
        have "0 \<le> p" using stream_pos [OF stream_okD(1) [OF ok st], of p S sh] j stream_okD(3) [OF ok st] by (metis nth_mem)
        then have "\<not> (\<not> prefix_sliding_enabled kv \<and> p \<le> purge_bounds kv sl s)" using hidden al by blast
        moreover have "untouched kv ub sl ?st j"
          unfolding untouched_def using taken_hidden(2) [OF P _ _ _ j(3) p1] j(2) al by metis
        ultimately show ?thesis unfolding after placed_positions [OF P s] using j by blast
      next
        assume "p \<in> incoming ub s"
        then show ?thesis using late unfolding after placed_positions [OF P s] by blast
      qed
    qed
    then show ?thesis unfolding open_positions_def allowed by blast
  qed
  then show ?thesis using kv' by blast
qed

end
