(* ===== verification/KV_Calls.thy ===== *)
theory KV_Calls
  imports KV_Attention
begin

text \<open>
  The KV cache as a whole: a new cache satisfies the invariant, and every call with arguments its assertions
  allow returns and keeps it. The state machine of the calls has the operations on sequences, the updates
  and the placing of micro batches.
\<close>

section \<open>New cells\<close>

lemma new_cells: "kv_ok (kc_resize n kv_empty)" "cells_of (kc_resize n kv_empty) = replicate n None"
  using kv_step_sim [OF kv_start(1), of "K_resize n"] unfolding kv_start(2)
  by (simp_all add: ack_def kv_state_ok_def kv_state_abs_def kv_abs_def)

lemma reset_cells:
  assumes "kv_ok c"
  shows "kv_ok (kc_reset c)" "cells_of (kc_reset c) = map (\<lambda>_. None) (cells_of c)"
  using cleared_ok [OF kv_okD(1) [OF assms] kv_okD(2) [OF assms] far_empty [OF assms]]
  by (simp_all add: kv_abs_def map_replicate_const)

text \<open>What the constructor's caller provides.\<close>

definition params_ok :: "bool \<Rightarrow> nat \<Rightarrow> nat \<Rightarrow> llama_swa_type \<Rightarrow> bool" where
  "params_ok unified n_seq_max n_swa swa_type \<longleftrightarrow> (unified \<or> 0 < n_seq_max \<and> n_seq_max \<le> LLAMA_MAX_SEQ) \<and>
     (swa_type = LLAMA_SWA_TYPE_CHUNKED \<longrightarrow> 0 < n_swa)"

lemma new_ok:
  assumes new: "kv_cache_new unified kv_size n_seq_max n_pad n_swa swa_type win prefix_cap n_ubatch layers = Some kv"
    and params: "params_ok unified n_seq_max n_swa swa_type"
  shows "cache_ok kv" "0 < kv_n_pad kv" "cache_size kv = kv_size"
    "st < kv_n_stream kv \<Longrightarrow> stream kv st = replicate kv_size None"
proof -
  let ?n = "if unified then 1 else n_seq_max"
  let ?c = "kc_resize kv_size kv_empty"
  have kv: "kv = \<lparr>kv_n_stream = ?n, kv_n_pad = n_pad, kv_n_swa = n_swa, kv_swa_type = swa_type, kv_window = win,
       kv_prefix_cap = prefix_cap, kv_n_ubatch = n_ubatch, kv_heads = replicate ?n 0, kv_cells = replicate ?n ?c,
       kv_prefix_end = replicate LLAMA_MAX_SEQ (-1), kv_seq_to_stream = (if ?n > 1 then map (\<lambda>s. s) [0..<?n] else replicate LLAMA_MAX_SEQ 0),
       kv_sc_info = \<lparr>ssrc = [], sdst = []\<rparr>, kv_layers = layers\<rparr>" and pad: "n_pad \<noteq> 0"
    using new by (auto simp: kv_cache_new_def bind_check Let_def split: if_splits)
  show "0 < kv_n_pad kv" using pad by (simp add: kv)
  have n: "0 < ?n" "?n \<le> LLAMA_MAX_SEQ" using params by (auto simp: params_ok_def LLAMA_MAX_SEQ_def)
  then show size: "cache_size kv = kv_size" using new_cells(2) [of kv_size] by (simp add: kv cache_size_def size_of_cells)
  have at: "kv_cells kv ! st = ?c" "kv_heads kv ! st = 0" if "st < kv_n_stream kv" for st using that by (simp_all add: kv)
  show "stream kv st = replicate kv_size None" if "st < kv_n_stream kv" for st using at [OF that] new_cells(2) by simp
  have "stream_ok kv st" if "st < kv_n_stream kv" for st
    using at [OF that] new_cells [of kv_size] size by (simp add: stream_ok_def cell_own_def size_of_cells)
  moreover have "config_ok kv" using n params by (auto simp: kv config_ok_def params_ok_def)
  ultimately show "cache_ok kv" by (simp add: cache_ok_def prefix_ok_def copies_ok_def kv)
qed


section \<open>Clearing and prefixes\<close>

lemma clear_effect:
  assumes ok: "cache_ok kv"
  shows "\<exists>kv'. kv_clear data kv = Some kv' \<and> mapped kv (\<lambda>_ _. None) kv'"
proof -
  let ?body = "\<lambda>s kv. do {
         c \<leftarrow> vec_at (kv_cells kv) s; check (s < length (kv_heads kv));
         let kv = kv\<lparr>kv_cells := (kv_cells kv)[s := kc_reset c], kv_heads := (kv_heads kv)[s := 0]\<rparr>;
         Some (if data then kv else reset_k_mean s kv) }"
  have "\<exists>kv'. fold_opt ?body [0..<kv_n_stream kv] kv = Some kv' \<and> mapped kv (\<lambda>_ _. None) kv' \<and> kv_prefix_end kv' = kv_prefix_end kv"
  proof (rule loop_streams [OF ok])
    fix st kv1
    assume st: "st < kv_n_stream kv" and kv1: "cache_ok kv1" "config kv1 = config kv"
    have st1: "st < kv_n_stream kv1" using st config_fields(1) [OF kv1(2)] by simp
    let ?c = "kv_cells kv1 ! st"
    let ?kv = "kv1\<lparr>kv_cells := (kv_cells kv1)[st := kc_reset ?c], kv_heads := (kv_heads kv1)[st := 0]\<rparr>"
    note c = reset_cells [OF stream_okD(1) [OF kv1(1) st1]]
    have len: "length (cells_of (kc_reset ?c)) = cache_size kv1" unfolding c(2) using stream_okD(3) [OF kv1(1) st1] by simp
    have own: "\<forall>x\<in>set (cells_of (kc_reset ?c)). cell_own (kv_seq_to_stream kv1) st x" unfolding c(2) by (simp add: cell_own_def)
    have "cache_ok ?kv" "cache_size ?kv = cache_size kv1" by (rule cache_ok_stream [OF kv1(1) st1 c(1) len own], simp)+
    moreover have "cells_of ((kv_cells kv1)[st := kc_reset ?c] ! t) = map (if t = st then \<lambda>_. None else id) (stream kv1 t)" for t
      using cache_okD(5) [OF kv1(1)] st1 c(2) by (cases "t = st") auto
    ultimately have "mapped kv1 (\<lambda>t. if t = st then \<lambda>_. None else id) ?kv" by (simp add: mapped_def)
    moreover have "mapped kv1 g (reset_k_mean st ?kv) = mapped kv1 g ?kv" for g by (simp add: mapped_def cache_size_def)
    ultimately show "\<exists>kv2. ?body st kv1 = Some kv2 \<and> mapped kv1 (\<lambda>t. if t = st then \<lambda>_. None else id) kv2 \<and> kv_prefix_end kv2 = kv_prefix_end kv1"
      using cache_okD(5,6) [OF kv1(1)] st1 by (cases data) (simp_all add: Let_def)
  qed
  then obtain kv' where kv': "fold_opt ?body [0..<kv_n_stream kv] kv = Some kv'" "mapped kv (\<lambda>_ _. None) kv'" by blast
  let ?kv = "kv'\<lparr>kv_prefix_end := map (\<lambda>_. -1) (kv_prefix_end kv')\<rparr>"
  have "cache_ok ?kv" by (rule cache_ok_prefix) (use mappedD(1) [OF kv'(2)] cache_okD(2) [of kv'] in \<open>auto simp: prefix_ok_def\<close>)
  then have "mapped kv (\<lambda>_ _. None) ?kv" using kv'(2) by (simp add: mapped_def cache_size_def)
  moreover have "mapped kv g (kv1\<lparr>kv_layers := ls\<rparr>) = mapped kv g kv1" for g kv1 ls by (simp add: mapped_def cache_size_def)
  ultimately show ?thesis using kv'(1) by (simp add: kv_clear_def Let_def)
qed

lemma set_prefix_effect:
  assumes ok: "cache_ok kv"
  shows "mapped kv (\<lambda>_ x. x) (snd (kv_seq_set_prefix s pe kv))"
proof (cases "fst (kv_seq_set_prefix s pe kv)")
  case True
  then have pe: "0 \<le> pe" "pe \<le> to_i32 (kv_prefix_cap kv)" and kv': "snd (kv_seq_set_prefix s pe kv) = kv\<lparr>kv_prefix_end := (kv_prefix_end kv)[nat s := pe]\<rparr>"
    by (auto simp: kv_seq_set_prefix_def split: if_splits)
  have "\<forall>p\<in>set (kv_prefix_end kv). p = -1 \<or> 0 \<le> p \<and> p \<le> to_i32 (kv_prefix_cap kv)" "length (kv_prefix_end kv) = LLAMA_MAX_SEQ"
    using cache_okD(2) [OF ok] by (simp_all add: prefix_ok_def)
  then have "cache_ok (kv\<lparr>kv_prefix_end := (kv_prefix_end kv)[nat s := pe]\<rparr>)"
    using pe set_update_subset_insert [of "kv_prefix_end kv" "nat s" pe] by (intro cache_ok_prefix [OF ok]) auto
  then show ?thesis unfolding kv' by (simp add: mapped_def cache_size_def)
next
  case False
  then have "snd (kv_seq_set_prefix s pe kv) = kv" by (auto simp: kv_seq_set_prefix_def)
  then show ?thesis using mapped_refl [OF ok] by simp
qed


section \<open>Copying sequences\<close>

text \<open>In one stream the copy joins the cells of the source, none of which may have the copy already.\<close>

definition join_ok :: "llama_kv_cache \<Rightarrow> int \<Rightarrow> int \<Rightarrow> int \<Rightarrow> int \<Rightarrow> bool" where
  "join_ok kv src dst p0 p1 \<longleftrightarrow> (\<forall>x\<in>set (stream kv (kv_seq_to_stream kv ! nat src)).
     in_range (pos_first p0) (pos_last p1) x \<and> nat src \<in> cell_seqs x \<longrightarrow> nat dst \<notin> cell_seqs x)"

lemma join_effect:
  assumes ok: "cache_ok kv" and s: "seq_ok kv src" "seq_ok kv dst" "kv_seq_to_stream kv ! nat dst = kv_seq_to_stream kv ! nat src"
    and j: "join_ok kv src dst p0 p1"
  shows "\<exists>h c. cell_loop (seq_cp_cell src dst (pos_first p0) (pos_last p1)) (kv_cells kv ! (kv_seq_to_stream kv ! nat src)) = Some (h, c) \<and>
    mapped kv (\<lambda>t. if t = kv_seq_to_stream kv ! nat src then on_range src (pos_first p0) (pos_last p1) (join_seq (nat dst)) else id)
      (kv\<lparr>kv_cells := (kv_cells kv)[kv_seq_to_stream kv ! nat src := c]\<rparr>)"
proof -
  let ?st = "kv_seq_to_stream kv ! nat src" and ?g = "on_range src (pos_first p0) (pos_last p1) (join_seq (nat dst))"
  note st = seq_stream [OF ok s(1)]
  have "cell_own (kv_seq_to_stream kv) ?st (?g x)" if "x \<in> set (stream kv ?st)" for x
    using stream_okD(5) [OF ok st(2) that] s by (auto intro!: cell_own_on_range cell_own_join simp: seq_ok_def)
  from loop_cells_acts [OF ok st(2) acts_cp [OF st(3) seq_stream(3) [OF ok s(2)] pos_bounds(1)] _ this] j
  show ?thesis by (auto simp: join_ok_def)
qed

text \<open>Across streams the copy is rebuilt from the cells of the source.\<close>

definition copied :: "nat \<Rightarrow> nat \<Rightarrow> cell \<Rightarrow> cell" where
  "copied src dst x = (case x of None \<Rightarrow> None | Some (p, S, sh) \<Rightarrow> if src \<in> S then Some (p, {dst}, sh) else None)"

definition unshift_ok :: "cell \<Rightarrow> bool" where
  "unshift_ok x \<longleftrightarrow> (case x of None \<Rightarrow> True | Some (p, S, sh) \<Rightarrow> 0 \<le> p - sh \<and> p - sh < 2 ^ 31)"

lemma cross_copy_cell_effect:
  assumes c0: "kv_ok c0" and c: "kv_ok c" and i: "i < kc_size c0" "i < kc_size c" and none: "cells_of c ! i = None"
    and s: "seq_id_ok src" "seq_id_ok dst" and x: "nat src \<in> cell_seqs (cells_of c0 ! i) \<longrightarrow> unshift_ok (cells_of c0 ! i)"
    and own: "cell_own sts st (cells_of c0 ! i)"
  shows "\<exists>c'. cross_copy_cell c0 src dst i c = Some c' \<and> kv_ok c' \<and> cells_of c' = (cells_of c)[i := copied (nat src) (nat dst) (cells_of c0 ! i)]"
proof (cases "nat src \<in> cell_seqs (cells_of c0 ! i)")
  case False
  then have "copied (nat src) (nat dst) (cells_of c0 ! i) = None" by (cases "cells_of c0 ! i") (auto simp: copied_def)
  then have "(cells_of c)[i := copied (nat src) (nat dst) (cells_of c0 ! i)] = cells_of c" using none by (metis list_update_id)
  then show ?thesis using c False cell_facts(3) [OF c0 i(1) s(1)] by (simp add: cross_copy_cell_def)
next
  case True
  then obtain p S sh where cell: "cells_of c0 ! i = Some (p, S, sh)" "nat src \<in> S" by (cases "cells_of c0 ! i") auto
  note at = cell_facts(3) [OF c0 i(1) s(1)] cell_facts(4) [OF c0 i(1) cell(1)]
  have sh: "0 \<le> p - sh" "p - sh < 2 ^ 31" using True x cell by (simp_all add: unshift_ok_def)
  have low: "p < LLAMA_POS_MAX" "- (2 ^ 31) \<le> sh" "sh < 2 ^ 31" using own cell by (simp_all add: cell_own_def)
  have nat: "int (nat (p - sh)) = p - sh" using sh by simp
  have f: "cell_pos_set (nat (p - sh)) (cells_of c ! i) = Some ((), Some (p - sh, {}, 0))" using none nat by simp
  obtain c1 where c1: "kc_pos_set i (p - sh) c = Some c1" "kv_ok c1" "cells_of c1 = (cells_of c)[i := Some (p - sh, {}, 0)]"
    using sim_cell_unit [OF kc_pos_set_sim [OF c] i(2) f] unfolding nat by metis
  have i1: "i < kc_size c1" and at1: "cells_of c1 ! i = Some (p - sh, {}, 0)" using c1(3) i(2) unfolding size_of_cells by simp_all
  have f1: "cell_seq_add dst (cells_of c1 ! i) = Some ((), Some (p - sh, {nat dst}, 0))" using s(2) unfolding at1 by simp
  obtain c2 where c2: "kc_seq_add i dst c1 = Some c2" "kv_ok c2" "cells_of c2 = (cells_of c1)[i := Some (p - sh, {nat dst}, 0)]"
    by (rule sim_cell_unit [OF kc_seq_add_sim [OF c1(2)] i1 f1])
  have i2: "i < kc_size c2" and at2: "cells_of c2 ! i = Some (p - sh, {nat dst}, 0)" using c2(3) i1 unfolding size_of_cells by simp_all
  have cop: "copied (nat src) (nat dst) (cells_of c0 ! i) = Some (p, {nat dst}, sh)" using cell by (simp add: copied_def)
  show ?thesis
  proof (cases "sh = 0")
    case True
    then show ?thesis using at cell c1 c2 cop by (simp add: cross_copy_cell_def)
  next
    case False
    have "s32 (p - sh) = Some (p - sh)" "s32 p = Some p" "s32 sh = Some sh" using sh low at(2) by (auto simp: s32_def LLAMA_POS_MAX_def)
    note s32 = this
    have f2: "cell_pos_add sh (cells_of c2 ! i) = Some (False, Some (p, {nat dst}, sh))" unfolding at2 using s32 at(2) by simp
    obtain c3 where c3: "kc_pos_add i sh c2 = Some (False, c3)" "kv_ok c3" "cells_of c3 = (cells_of c2)[i := Some (p, {nat dst}, sh)]"
      by (rule sim_cell [OF kc_pos_add_sim [OF c2(2)] i2 f2])
    then show ?thesis using at cell c1 c2 cop s32 sh(1) False by (simp add: cross_copy_cell_def)
  qed
qed

lemma cross_copy_effect:
  assumes c0: "kv_ok c0" and c: "kv_ok c" and size: "kc_size c = kc_size c0" and none: "\<forall>x\<in>set (cells_of c). x = None"
    and s: "seq_id_ok src" "seq_id_ok dst"
    and x: "\<forall>x\<in>set (cells_of c0). cell_own sts st x \<and> (nat src \<in> cell_seqs x \<longrightarrow> unshift_ok x)"
  shows "\<exists>c'. fold_opt (cross_copy_cell c0 src dst) [0..<kc_size c0] c = Some c' \<and> kv_ok c' \<and> cells_of c' = map (copied (nat src) (nat dst)) (cells_of c0)"
proof -
  let ?n = "kc_size c0"
  let ?P = "\<lambda>is d. kv_ok d \<and> kc_size d = ?n \<and>
      (\<forall>i<?n. cells_of d ! i = (if i \<in> set is then copied (nat src) (nat dst) (cells_of c0 ! i) else None))"
  have "\<exists>c'. fold_opt (cross_copy_cell c0 src dst) [0..<?n] c = Some c' \<and> ?P [0..<?n] c'"
  proof (rule fold_opt_invariant [where P = ?P])
    fix ys i zs d
    assume split: "[0..<?n] = ys @ i # zs" and P: "?P ys d"
    have "i \<in> set [0..<?n]" unfolding split by simp
    then have i: "i < ?n" by simp
    have "i \<notin> set ys" using distinct_upt [of 0 ?n] unfolding split by simp
    then have d: "kv_ok d" "i < kc_size d" "cells_of d ! i = None" using P i by simp_all
    have "cells_of c0 ! i \<in> set (cells_of c0)" using i unfolding size_of_cells by simp
    then have "cell_own sts st (cells_of c0 ! i)" "nat src \<in> cell_seqs (cells_of c0 ! i) \<longrightarrow> unshift_ok (cells_of c0 ! i)" using x by blast+
    from cross_copy_cell_effect [OF c0 d(1) i d(2,3) s this(2,1)]
    obtain d' where d': "cross_copy_cell c0 src dst i d = Some d'" "kv_ok d'"
      "cells_of d' = (cells_of d)[i := copied (nat src) (nat dst) (cells_of c0 ! i)]" by blast
    have "kc_size d' = ?n" using d'(3) P unfolding size_of_cells by simp
    then show "\<exists>d'. cross_copy_cell c0 src dst i d = Some d' \<and> ?P (ys @ [i]) d'"
      using P d' d(2) i by (auto simp: nth_list_update)
  qed (use c size none in \<open>simp\<close>)
  then obtain c' where c': "fold_opt (cross_copy_cell c0 src dst) [0..<?n] c = Some c'" "?P [0..<?n] c'" by blast
  have "cells_of c' = map (copied (nat src) (nat dst)) (cells_of c0)"
    by (rule nth_equalityI) (use c'(2) in \<open>auto\<close>)
  with c' show ?thesis by blast
qed


text \<open>The copies the assertions of \<open>seq_cp\<close> allow.\<close>

definition cp_ok :: "llama_kv_cache \<Rightarrow> int \<Rightarrow> int \<Rightarrow> int \<Rightarrow> int \<Rightarrow> bool" where
  "cp_ok kv src dst p0 p1 \<longleftrightarrow> seq_ok kv src \<and> seq_ok kv dst \<and>
     (if kv_seq_to_stream kv ! nat src = kv_seq_to_stream kv ! nat dst then src = dst \<or> join_ok kv src dst p0 p1
      else \<not> (p0 > 0 \<and> p0 + 1 < int (cache_size kv)) \<and> \<not> (p1 > 0 \<and> p1 + 1 < int (cache_size kv)) \<and>
        (\<forall>x\<in>set (stream kv (kv_seq_to_stream kv ! nat src)). nat src \<in> cell_seqs x \<longrightarrow> unshift_ok x))"

definition cp_stream :: "llama_kv_cache \<Rightarrow> int \<Rightarrow> int \<Rightarrow> int \<Rightarrow> int \<Rightarrow> nat \<Rightarrow> cell list" where
  "cp_stream kv src dst p0 p1 st =
     (let s0 = kv_seq_to_stream kv ! nat src; s1 = kv_seq_to_stream kv ! nat dst in
      if st \<noteq> s1 \<or> src = dst \<or> prefix_sliding_enabled kv \<and> \<not> (p0 \<le> 0 \<and> p1 < 0) then stream kv st
      else if s0 = s1 then map (on_range src (pos_first p0) (pos_last p1) (join_seq (nat dst))) (stream kv st)
      else map (copied (nat src) (nat dst)) (stream kv s0))"

lemma prefix_copied:
  assumes ok: "cache_ok kv" and s: "seq_ok kv src" "seq_ok kv dst"
  defines "kv0 \<equiv> if prefix_sliding_enabled kv then kv\<lparr>kv_prefix_end := (kv_prefix_end kv)[nat dst := kv_prefix_end kv ! nat src]\<rparr> else kv"
  shows "cache_ok kv0" "config kv0 = config kv" "kv_cells kv0 = kv_cells kv" "kv_sc_info kv0 = kv_sc_info kv" "kv_heads kv0 = kv_heads kv"
    "(if prefix_sliding_enabled kv then do {
        pe \<leftarrow> vec_at (kv_prefix_end kv) (nat src); check (nat dst < length (kv_prefix_end kv));
        Some (kv\<lparr>kv_prefix_end := (kv_prefix_end kv)[nat dst := pe]\<rparr>) } else Some kv) = Some kv0"
proof -
  have all: "\<forall>p\<in>set (kv_prefix_end kv). p = -1 \<or> 0 \<le> p \<and> p \<le> to_i32 (kv_prefix_cap kv)" "length (kv_prefix_end kv) = LLAMA_MAX_SEQ"
    using cache_okD(2) [OF ok] by (simp_all add: prefix_ok_def)
  have "kv_prefix_end kv ! nat src \<in> set (kv_prefix_end kv)" using seq_stream(4) [OF ok s(1)] by simp
  then have "cache_ok (kv\<lparr>kv_prefix_end := (kv_prefix_end kv)[nat dst := kv_prefix_end kv ! nat src]\<rparr>)"
    using all set_update_subset_insert [of "kv_prefix_end kv" "nat dst"] by (intro cache_ok_prefix [OF ok]) auto
  then show "cache_ok kv0" using ok by (simp add: kv0_def)
qed (use seq_stream(4) [OF ok s(1)] seq_stream(4) [OF ok s(2)] in \<open>simp_all add: kv0_def\<close>)

lemma seq_cp_effect:
  assumes ok: "cache_ok kv" and cp: "cp_ok kv src dst p0 p1"
  shows "\<exists>kv'. kv_seq_cp src dst p0 p1 kv = Some kv' \<and> cache_ok kv' \<and> config kv' = config kv \<and>
    (\<forall>st<kv_n_stream kv. stream kv' st = cp_stream kv src dst p0 p1 st)"
proof (cases "prefix_sliding_enabled kv \<and> \<not> (p0 \<le> 0 \<and> p1 < 0)")
  case True
  then show ?thesis using ok cp seq_stream(1) [OF ok] by (auto simp: kv_seq_cp_def cp_stream_def cp_ok_def)
next
  case part: False
  have s: "seq_ok kv src" "seq_ok kv dst" using cp by (simp_all add: cp_ok_def)
  note s0 = seq_stream [OF ok s(1)] and s1 = seq_stream [OF ok s(2)]
  let ?s0 = "kv_seq_to_stream kv ! nat src" and ?s1 = "kv_seq_to_stream kv ! nat dst"
  define kv0 where "kv0 = (if prefix_sliding_enabled kv then kv\<lparr>kv_prefix_end := (kv_prefix_end kv)[nat dst := kv_prefix_end kv ! nat src]\<rparr> else kv)"
  note k = prefix_copied [OF ok s, folded kv0_def]
  note conf = config_fields [OF k(2)]
  have size: "cache_size kv0 = cache_size kv" using cache_size_cells [OF k(3)] .
  show ?thesis
  proof (cases "?s0 = ?s1")
    case same: True
    show ?thesis
    proof (cases "src = dst")
      case True
      then show ?thesis using k part s0(1) s1(1) same by (auto simp: kv_seq_cp_def cp_stream_def)
    next
      case False
      have "join_ok kv0 src dst p0 p1" using cp same False conf(2) k(3) by (simp add: join_ok_def cp_ok_def)
      then have "\<exists>h c. cell_loop (seq_cp_cell src dst (pos_first p0) (pos_last p1)) (kv_cells kv ! ?s0) = Some (h, c) \<and>
          mapped kv0 (\<lambda>t. if t = ?s0 then on_range src (pos_first p0) (pos_last p1) (join_seq (nat dst)) else id)
            (kv0\<lparr>kv_cells := (kv_cells kv)[?s0 := c]\<rparr>)"
        using join_effect [OF k(1), of src dst p0 p1] s same conf(2) k(3) by (simp add: seq_ok_def)
      then obtain h c where c: "cell_loop (seq_cp_cell src dst (pos_first p0) (pos_last p1)) (kv_cells kv ! ?s0) = Some (h, c)"
        "mapped kv0 (\<lambda>t. if t = ?s0 then on_range src (pos_first p0) (pos_last p1) (join_seq (nat dst)) else id)
            (kv0\<lparr>kv_cells := (kv_cells kv)[?s0 := c]\<rparr>)" by blast
      have "kv_seq_cp src dst p0 p1 kv = Some (kv0\<lparr>kv_cells := (kv_cells kv)[?s0 := c]\<rparr>)"
        using k(3,6) part s0(1,2) s1(1) same False c(1) cache_okD(5) [OF ok] by (auto simp add: kv_seq_cp_def)
      moreover have "stream (kv0\<lparr>kv_cells := (kv_cells kv)[?s0 := c]\<rparr>) st = cp_stream kv src dst p0 p1 st" if "st < kv_n_stream kv" for st
        using mappedD(5) [OF c(2), of st] that conf(1) k(3) same False part unfolding cp_stream_def Let_def by auto
      ultimately show ?thesis using mappedD(1,2) [OF c(2)] k(2) by auto
    qed
  next
    case cross: False
    let ?c0 = "kv_cells kv ! ?s0" and ?c1 = "kc_reset (kv_cells kv ! ?s1)"
    note c1 = reset_cells [OF stream_okD(1) [OF ok s1(2)]]
    have full: "\<not> (p0 > 0 \<and> p0 + 1 < int (cache_size kv)) \<and> \<not> (p1 > 0 \<and> p1 + 1 < int (cache_size kv))"
      and un: "\<forall>x\<in>set (stream kv ?s0). nat src \<in> cell_seqs x \<longrightarrow> unshift_ok x" using cp cross by (simp_all add: cp_ok_def)
    have sz: "kc_size ?c1 = kc_size ?c0"
      using c1(2) stream_okD(2,3) [OF ok s1(2)] stream_okD(2) [OF ok s0(2)] by (metis length_map cells_of_simps(1))
    have none: "\<forall>x\<in>set (cells_of ?c1). x = None" unfolding c1(2) by simp
    have src: "\<forall>x\<in>set (cells_of ?c0). cell_own (kv_seq_to_stream kv) ?s0 x \<and> (nat src \<in> cell_seqs x \<longrightarrow> unshift_ok x)"
      using stream_okD(5) [OF ok s0(2)] un by blast
    obtain c' where c': "fold_opt (cross_copy_cell ?c0 src dst) [0..<kc_size ?c0] ?c1 = Some c'" "kv_ok c'"
      "cells_of c' = map (copied (nat src) (nat dst)) (cells_of ?c0)"
      using cross_copy_effect [OF stream_okD(1) [OF ok s0(2)] c1(1) sz none s0(3) s1(3) src] by blast
    let ?sc = "\<lparr>ssrc = ssrc (kv_sc_info kv) @ [?s0], sdst = sdst (kv_sc_info kv) @ [?s1]\<rparr>"
    let ?kv = "kv0\<lparr>kv_sc_info := ?sc, kv_cells := (kv_cells kv)[?s1 := c'], kv_heads := (kv_heads kv)[?s1 := kv_heads kv ! ?s0]\<rparr>"
    let ?kv1 = "kv0\<lparr>kv_cells := (kv_cells kv0)[?s1 := c'], kv_heads := (kv_heads kv0)[?s1 := kv_heads kv ! ?s0]\<rparr>"
    have len: "length (cells_of c') = cache_size kv0" using c'(3) stream_okD(3) [OF ok s0(2)] size by simp
    have "cell_own (kv_seq_to_stream kv) ?s1 (copied (nat src) (nat dst) x)" if "cell_own (kv_seq_to_stream kv) ?s0 x" for x
      using that s(2) by (cases x; cases "nat src \<in> cell_seqs x") (auto simp: copied_def cell_own_def seq_ok_def)
    then have own: "\<forall>x\<in>set (cells_of c'). cell_own (kv_seq_to_stream kv0) ?s1 x"
      using src unfolding c'(3) conf(2) by auto
    have "cache_ok ?kv1"
      by (rule cache_ok_stream [OF k(1) _ c'(2) len own]) (use s1(2) conf(1) stream_okD(4) [OF ok s0(2)] size in simp_all)
    moreover have "copies_ok (kv_n_stream kv) ?sc"
      using cache_okD(3) [OF ok] s0(2) s1(2) cross unfolding copies_ok_def by (auto simp: nth_append less_Suc_eq)
    ultimately have "cache_ok ?kv" using k(3,5) conf(1) by (simp add: cache_ok_def config_ok_def prefix_ok_def stream_ok_def cache_size_def)
    moreover have "kv_seq_cp src dst p0 p1 kv = Some ?kv"
      using k(3-6) part s0(1,2) s1(1,2) cross c'(1) cache_okD(5,6) [OF ok] full size_cells [OF k(1)] size by (auto simp add: kv_seq_cp_def)
    moreover have "stream ?kv st = cp_stream kv src dst p0 p1 st" if "st < kv_n_stream kv" for st
      using that cross c'(3) cache_okD(5) [OF ok] part unfolding cp_stream_def Let_def by (cases "st = ?s1") auto
    ultimately show ?thesis using k(2) by auto
  qed
qed


section \<open>Updates\<close>

definition unshifted :: "cell \<Rightarrow> cell" where
  "unshifted = map_option (\<lambda>(p, S, _). (p, S, 0))"

lemma copies_effect:
  assumes "copies_ok (kv_n_stream kv) sc"
  shows "\<exists>ls. apply_copies sc kv = Some (kv\<lparr>kv_layers := ls\<rparr>)"
proof -
  let ?body = "\<lambda>i kv. do {
       src \<leftarrow> vec_at (ssrc sc) i; dst \<leftarrow> vec_at (sdst sc) i;
       check (src < kv_n_stream kv); check (dst < kv_n_stream kv); check (src \<noteq> dst);
       Some (kv\<lparr>kv_layers := map (copy_stream src dst) (kv_layers kv)\<rparr>) }"
  have "\<exists>kv'. fold_opt ?body [0..<length (ssrc sc)] kv = Some kv' \<and> (\<exists>ls. kv' = kv\<lparr>kv_layers := ls\<rparr>)"
  proof (rule fold_opt_invariant [where P = "\<lambda>_ kv'. \<exists>ls. kv' = kv\<lparr>kv_layers := ls\<rparr>"])
    fix ys i zs kv1
    assume split: "[0..<length (ssrc sc)] = ys @ i # zs" and P: "\<exists>ls. kv1 = kv\<lparr>kv_layers := ls\<rparr>"
    have "i \<in> set [0..<length (ssrc sc)]" unfolding split by simp
    then show "\<exists>kv2. ?body i kv1 = Some kv2 \<and> (\<exists>ls. kv2 = kv\<lparr>kv_layers := ls\<rparr>)"
      using P assms by (auto simp: copies_ok_def)
  qed (auto intro: exI [of _ "kv_layers kv"])
  then show ?thesis by (auto simp: apply_copies_def)
qed

lemma unshift_effect:
  assumes ok: "cache_ok kv"
  shows "\<exists>kv'. fold_opt (\<lambda>s kv. do { c \<leftarrow> vec_at (kv_cells kv) s;
      Some (kv\<lparr>kv_cells := (kv_cells kv)[s := kc_reset_shift c]\<rparr>) }) [0..<kv_n_stream kv] kv = Some kv' \<and> mapped kv (\<lambda>_. unshifted) kv'"
proof -
  let ?body = "\<lambda>s kv. do { c \<leftarrow> vec_at (kv_cells kv) s; Some (kv\<lparr>kv_cells := (kv_cells kv)[s := kc_reset_shift c]\<rparr>) }"
  have "\<exists>kv'. fold_opt ?body [0..<kv_n_stream kv] kv = Some kv' \<and> mapped kv (\<lambda>_. unshifted) kv' \<and> kv_prefix_end kv' = kv_prefix_end kv"
  proof (rule loop_streams [OF ok])
    fix st kv1
    assume st: "st < kv_n_stream kv" and kv1: "cache_ok kv1" "config kv1 = config kv"
    have st1: "st < kv_n_stream kv1" using st config_fields(1) [OF kv1(2)] by simp
    let ?c = "kc_reset_shift (kv_cells kv1 ! st)"
    have c: "kv_ok ?c" "cells_of ?c = map unshifted (stream kv1 st)"
      using kc_reset_shift_sim [OF stream_okD(1) [OF kv1(1) st1]] by (simp_all add: kv_abs_def unshifted_def)
    have len: "length (cells_of ?c) = cache_size kv1" unfolding c(2) using stream_okD(3) [OF kv1(1) st1] by simp
    have own: "\<forall>x\<in>set (cells_of ?c). cell_own (kv_seq_to_stream kv1) st x"
      using stream_okD(5) [OF kv1(1) st1] unfolding c(2) by (fastforce simp: unshifted_def cell_own_def split: option.splits)
    have "cells_of ((kv_cells kv1)[st := ?c] ! t) = map (if t = st then unshifted else id) (stream kv1 t)" for t
      using cache_okD(5) [OF kv1(1)] st1 c(2) by (cases "t = st") auto
    then have "mapped kv1 (\<lambda>t. if t = st then unshifted else id) (kv1\<lparr>kv_cells := (kv_cells kv1)[st := ?c]\<rparr>)"
      using cache_ok_cells [OF kv1(1) st1 c(1) len own] by (simp add: mapped_def)
    then show "\<exists>kv2. ?body st kv1 = Some kv2 \<and> mapped kv1 (\<lambda>t. if t = st then unshifted else id) kv2 \<and> kv_prefix_end kv2 = kv_prefix_end kv1"
      using cache_okD(5) [OF kv1(1)] st1 by simp
  qed
  then show ?thesis by blast
qed

lemma update_effect:
  assumes ok: "cache_ok kv" and sc: "copies_ok (kv_n_stream kv) sc" and can: "do_shift \<longrightarrow> get_can_shift kv"
  shows "\<exists>b kv'. kv_update shift_graph rope do_shift sc kv = Some (b, kv') \<and> (mapped kv (\<lambda>_ x. x) kv' \<or> do_shift \<and> mapped kv (\<lambda>_. unshifted) kv')"
proof -
  have none: "sc_empty sc = Some (ssrc sc = [])" using sc by (simp add: sc_empty_def copies_ok_def)
  have "ssrc sc \<noteq> [] \<Longrightarrow> kv_n_stream kv > 1"
    using sc unfolding copies_ok_def by (cases "ssrc sc") (force dest!: spec [of _ 0])+
  then have "\<exists>ls. (if ssrc sc = [] then Some kv else do { check (kv_n_stream kv > 1); apply_copies sc kv }) = Some (kv\<lparr>kv_layers := ls\<rparr>)"
    using copies_effect [OF sc] by (cases "ssrc sc = []") (auto intro: exI [of _ "kv_layers kv"])
  then obtain ls where copied: "(if ssrc sc = [] then Some kv else do { check (kv_n_stream kv > 1); apply_copies sc kv }) = Some (kv\<lparr>kv_layers := ls\<rparr>)" by blast
  let ?kv = "kv\<lparr>kv_layers := ls\<rparr>"
  have lay: "mapped kv g (kv1\<lparr>kv_layers := ls\<rparr>) = mapped kv g kv1" "mapped (kv\<lparr>kv_layers := ls\<rparr>) g kv1 = mapped kv g kv1" for g kv1 ls
    by (simp_all add: mapped_def cache_size_def)
  have ok': "cache_ok (kv\<lparr>kv_layers := ls\<rparr>)" for ls using ok by simp
  show ?thesis
  proof (cases do_shift)
    case False
    then show ?thesis using none copied mapped_refl [OF ok] lay by (simp add: kv_update_def)
  next
    case True
    let ?clear = "\<lambda>kv. fold_opt (\<lambda>s kv. do { c \<leftarrow> vec_at (kv_cells kv) s;
      Some (kv\<lparr>kv_cells := (kv_cells kv)[s := kc_reset_shift c]\<rparr>) }) [0..<kv_n_stream kv] kv"
    have clear: "\<exists>kv'. ?clear (kv\<lparr>kv_layers := ls\<rparr>) = Some kv' \<and> mapped kv (\<lambda>_. unshifted) kv'" for ls
      using unshift_effect [OF ok' [of ls]] unfolding lay by simp
    have can': "get_can_shift ?kv" using can True by (simp add: get_can_shift_def prefix_sliding_enabled_def)
    show ?thesis
    proof (cases "rope \<and> shift_graph ?kv = None")
      case True
      then show ?thesis using none copied \<open>do_shift\<close> can' mapped_refl [OF ok] lay by (simp add: kv_update_def bind_check)
    next
      case False
      let ?ls = "if rope then the (shift_graph ?kv) else ls"
      obtain kv' where kv': "?clear (kv\<lparr>kv_layers := ?ls\<rparr>) = Some kv'" "mapped kv (\<lambda>_. unshifted) kv'" using clear by blast
      have "kv_update shift_graph rope do_shift sc kv = Some (rope, kv')"
        using none copied \<open>do_shift\<close> can' False kv'(1)
        by (cases rope) (auto simp: kv_update_def bind_check Let_def)
      then show ?thesis using kv'(2) \<open>do_shift\<close> by simp
    qed
  qed
qed

end
