(* ===== verification/KV_Prepare.thy ===== *)
theory KV_Prepare
  imports KV_Calls
begin

text \<open>
  Preparing a batch (\<open>llama_kv_cache::prepare\<close>): the micro batches are placed one after the other on the cache
  itself, and the saved cells are written back in the opposite order. What is proved here is that every step
  returns, that the cache is restored where no position was purged, and that the slots found can be applied.
\<close>

section \<open>Caches with no pending shift\<close>

definition no_shifts :: "llama_kv_cache \<Rightarrow> bool" where
  "no_shifts kv \<longleftrightarrow> (\<forall>st<kv_n_stream kv. \<forall>x\<in>set (stream kv st). no_shift x)"

lemma no_shiftsD:
  assumes "cache_ok kv" "no_shifts kv" "st < kv_n_stream kv" "i < cache_size kv"
  shows "kc_shift (kv_cells kv ! st) ! i = 0"
proof -
  have "stream kv st ! i \<in> set (stream kv st)" using stream_okD(3) [OF assms(1,3)] assms(4) by simp
  then have "no_shift (stream kv st ! i)" using assms(2,3) by (simp add: no_shifts_def)
  then show ?thesis using no_shift_cell [OF stream_okD(1) [OF assms(1,3)], of i] stream_okD(2) [OF assms(1,3)] assms(4) by simp
qed

text \<open>The cells of a stream that a slot takes.\<close>

definition slot_set :: "slot_info \<Rightarrow> nat \<Rightarrow> nat set" where
  "slot_set sl st = {i. \<exists>s < slot_n_stream sl. slot_strm sl ! s = st \<and> i \<in> set (slot_idxs sl ! s)}"

lemma slot_set_at: "distinct (slot_strm sl) \<Longrightarrow> s < slot_n_stream sl \<Longrightarrow> slot_set sl (slot_strm sl ! s) = set (slot_idxs sl ! s)"
  by (auto simp: slot_set_def slot_n_stream_def nth_eq_iff_index_eq)

lemma slot_set_none: "st \<notin> set (slot_strm sl) \<Longrightarrow> slot_set sl st = {}"
  by (auto simp: slot_set_def slot_n_stream_def)

lemma slot_okD:
  assumes "slot_ok kv sl ub" "s < slot_n_stream sl"
  shows "slot_strm sl ! s < kv_n_stream kv" "distinct (slot_idxs sl ! s)" "set (slot_idxs sl ! s) \<subseteq> {..<cache_size kv}"
    "distinct (slot_strm sl)" "s < length (slot_strm sl)" "s < length (slot_idxs sl)"
  using assms by (auto simp: slot_ok_def slot_n_stream_def)


section \<open>Saving and restoring\<close>

lemma save_effect:
  assumes ok: "cache_ok kv" and sl: "slot_ok kv sl ub" and sh: "no_shifts kv"
  shows "\<exists>cs. save_state sl kv = Some \<lparr>ss_sinfo = sl, ss_heads = kv_heads kv, ss_cells = cs\<rparr> \<and> length cs = slot_n_stream sl \<and>
    (\<forall>s < slot_n_stream sl. kc_cp_list (kv_cells kv ! (slot_strm sl ! s)) (slot_idxs sl ! s) = Some (cs ! s))"
proof -
  let ?body = "\<lambda>s cs. do {
         st \<leftarrow> vec_at (slot_strm sl) s; idxs \<leftarrow> vec_at (slot_idxs sl) s; c \<leftarrow> vec_at (kv_cells kv) st;
         o' \<leftarrow> kc_cp_list c idxs; Some (cs @ [o']) }"
  let ?P = "\<lambda>ss cs. length cs = length ss \<and>
    (\<forall>s<length ss. kc_cp_list (kv_cells kv ! (slot_strm sl ! (ss ! s))) (slot_idxs sl ! (ss ! s)) = Some (cs ! s))"
  have "\<exists>cs. fold_opt ?body [0..<slot_n_stream sl] [] = Some cs \<and> ?P [0..<slot_n_stream sl] cs"
  proof (rule fold_opt_invariant [where P = ?P])
    fix ys s zs cs
    assume split: "[0..<slot_n_stream sl] = ys @ s # zs" and P: "?P ys cs"
    have "s \<in> set [0..<slot_n_stream sl]" unfolding split by simp
    then have s: "s < slot_n_stream sl" by simp
    note f = slot_okD [OF sl s]
    let ?c = "kv_cells kv ! (slot_strm sl ! s)"
    note c = stream_okD(1,2) [OF ok f(1)]
    have idxs: "set (slot_idxs sl ! s) \<subseteq> {..<kc_size ?c} \<inter> {..<kc_size ?c}" using f(3) c(2) by simp
    have "\<forall>i\<in>set (slot_idxs sl ! s). kc_shift ?c ! i = 0 \<and> kc_shift ?c ! i = 0" using no_shiftsD [OF ok sh f(1)] f(3) by auto
    from cells_restored [OF c(1) c(1) f(2) idxs this] obtain o' where "kc_cp_list ?c (slot_idxs sl ! s) = Some o'" by blast
    then show "\<exists>cs'. ?body s cs = Some cs' \<and> ?P (ys @ [s]) cs'"
      using f(1,5,6) cache_okD(5) [OF ok] P by (auto simp: nth_append less_Suc_eq)
  qed simp
  then show ?thesis unfolding save_state_def by auto
qed

text \<open>\<open>kv\<close> is the cache that was saved, \<open>kv'\<close> the one that is written to.\<close>

definition merged :: "llama_kv_cache \<Rightarrow> slot_info \<Rightarrow> llama_kv_cache \<Rightarrow> nat \<Rightarrow> cell list" where
  "merged kv sl kv' st = map (\<lambda>i. if i \<in> slot_set sl st then stream kv st ! i else stream kv' st ! i) [0..<cache_size kv]"

lemma merged_ok:
  assumes ok: "cache_ok kv" "cache_ok kv'" "config kv' = config kv" "cache_size kv' = cache_size kv" and st: "st < kv_n_stream kv"
  shows "length (merged kv sl kv' st) = cache_size kv" "\<forall>x\<in>set (merged kv sl kv' st). cell_own (kv_seq_to_stream kv) st x"
    "no_shifts kv \<Longrightarrow> no_shifts kv' \<Longrightarrow> \<forall>x\<in>set (merged kv sl kv' st). no_shift x"
proof -
  have st': "st < kv_n_stream kv'" using st config_fields(1) [OF ok(3)] by simp
  have mem: "i < cache_size kv \<Longrightarrow> stream kv st ! i \<in> set (stream kv st) \<and> stream kv' st ! i \<in> set (stream kv' st)" for i
    using stream_okD(3) [OF ok(1) st] stream_okD(3) [OF ok(2) st'] ok(4) by simp
  show "length (merged kv sl kv' st) = cache_size kv" by (simp add: merged_def)
  show "\<forall>x\<in>set (merged kv sl kv' st). cell_own (kv_seq_to_stream kv) st x"
    using stream_okD(5) [OF ok(1) st] stream_okD(5) [OF ok(2) st'] mem config_fields(2) [OF ok(3)] by (auto simp: merged_def)
  show "\<forall>x\<in>set (merged kv sl kv' st). no_shift x" if "no_shifts kv" "no_shifts kv'"
    using that st st' mem by (auto simp: merged_def no_shifts_def)
qed

lemma restore_effect:
  assumes ok: "cache_ok kv" "no_shifts kv" and sl: "slot_ok kv sl ub" and sv: "save_state sl kv = Some sv"
    and ok': "cache_ok kv'" "config kv' = config kv" "cache_size kv' = cache_size kv" "no_shifts kv'"
  shows "\<exists>cs hs. restore_state sv kv' = Some (kv'\<lparr>kv_cells := cs, kv_heads := hs\<rparr>) \<and> cache_ok (kv'\<lparr>kv_cells := cs, kv_heads := hs\<rparr>) \<and>
    cache_size (kv'\<lparr>kv_cells := cs, kv_heads := hs\<rparr>) = cache_size kv \<and> (\<forall>st<kv_n_stream kv. cells_of (cs ! st) = merged kv sl kv' st) \<and>
    (\<forall>st<kv_n_stream kv. hs ! st = (if st \<in> set (slot_strm sl) then kv_heads kv ! st else kv_heads kv' ! st))"
proof -
  obtain os where sv': "sv = \<lparr>ss_sinfo = sl, ss_heads = kv_heads kv, ss_cells = os\<rparr>" "length os = slot_n_stream sl"
    "\<forall>s < slot_n_stream sl. kc_cp_list (kv_cells kv ! (slot_strm sl ! s)) (slot_idxs sl ! s) = Some (os ! s)"
    using save_effect [OF ok(1) sl ok(2)] sv by auto
  note conf = config_fields [OF ok'(2)]
  let ?body = "\<lambda>s kv. do {
       st \<leftarrow> vec_at (slot_strm (ss_sinfo sv)) s; idxs \<leftarrow> vec_at (slot_idxs (ss_sinfo sv)) s;
       c \<leftarrow> vec_at (kv_cells kv) st; check (st < length (kv_heads kv));
       o' \<leftarrow> vec_at (ss_cells sv) s; c \<leftarrow> kc_set_list idxs o' c;
       h \<leftarrow> vec_at (ss_heads sv) st;
       Some (kv\<lparr>kv_cells := (kv_cells kv)[st := c], kv_heads := (kv_heads kv)[st := h]\<rparr>) }"
  let ?done = "\<lambda>ss st. \<exists>s\<in>set ss. slot_strm sl ! s = st"
  let ?P = "\<lambda>ss k. cache_ok k \<and> cache_size k = cache_size kv \<and> (\<exists>cs hs. k = kv'\<lparr>kv_cells := cs, kv_heads := hs\<rparr>) \<and>
    (\<forall>st<kv_n_stream kv. stream k st = (if ?done ss st then merged kv sl kv' st else stream kv' st) \<and>
       kv_heads k ! st = (if ?done ss st then kv_heads kv ! st else kv_heads kv' ! st))"
  have self: "\<exists>cs hs. kv' = kv'\<lparr>kv_cells := cs, kv_heads := hs\<rparr>"
    by (intro exI [of _ "kv_cells kv'"] exI [of _ "kv_heads kv'"]) simp
  have "\<exists>k. fold_opt ?body [0..<slot_n_stream sl] kv' = Some k \<and> ?P [0..<slot_n_stream sl] k"
  proof (rule fold_opt_invariant [where P = ?P])
    fix ys s zs k
    assume split: "[0..<slot_n_stream sl] = ys @ s # zs" and P: "?P ys k"
    have "s \<in> set [0..<slot_n_stream sl]" and sub: "set ys \<subseteq> set [0..<slot_n_stream sl]" unfolding split by auto
    then have s: "s < slot_n_stream sl" by simp
    note f = slot_okD [OF sl s]
    let ?st = "slot_strm sl ! s"
    have "s \<notin> set ys" using distinct_upt [of 0 "slot_n_stream sl"] unfolding split by simp
    then have new: "\<not> ?done ys ?st"
      using f(4,5) sub by (auto simp: nth_eq_iff_index_eq slot_n_stream_def subset_eq)
    obtain cs hs where k: "cache_ok k" "cache_size k = cache_size kv" "k = kv'\<lparr>kv_cells := cs, kv_heads := hs\<rparr>" using P by blast
    have n: "kv_n_stream k = kv_n_stream kv" "kv_seq_to_stream k = kv_seq_to_stream kv" using conf(1,2) k(3) by simp_all
    have st: "?st < kv_n_stream k" "?st < kv_n_stream kv'" using f(1) n conf(1) by simp_all
    have at: "stream k ?st = stream kv' ?st" "kv_heads k ! ?st = kv_heads kv' ! ?st" using P f(1) new by simp_all
    let ?c = "kv_cells kv ! ?st" and ?c' = "kv_cells k ! ?st"
    note c = stream_okD(1,2) [OF ok(1) f(1)] stream_okD(1,2) [OF k(1) st(1)]
    have idxs: "set (slot_idxs sl ! s) \<subseteq> {..<kc_size ?c} \<inter> {..<kc_size ?c'}" using f(3) c(2,4) k(2) by simp
    have "kc_shift ?c' ! i = 0" if "i \<in> set (slot_idxs sl ! s)" for i
    proof -
      have i: "i < cache_size kv" using f(3) that by auto
      then have "stream kv' ?st ! i \<in> set (stream kv' ?st)" using stream_okD(3) [OF ok'(1) st(2)] ok'(3) by simp
      then have "no_shift (stream k ?st ! i)" using ok'(4) st(2) at(1) by (simp add: no_shifts_def)
      then show ?thesis using no_shift_cell [OF c(3), of i] c(4) k(2) i by simp
    qed
    then have "\<forall>i\<in>set (slot_idxs sl ! s). kc_shift ?c ! i = 0 \<and> kc_shift ?c' ! i = 0"
      using no_shiftsD [OF ok f(1)] f(3) by auto
    from cells_restored [OF c(1,3) f(2) idxs this] sv'(3) s obtain c'' where c'': "kc_set_list (slot_idxs sl ! s) (os ! s) ?c' = Some c''" "kv_ok c''"
      "cells_of c'' = map (\<lambda>i. if i \<in> set (slot_idxs sl ! s) then stream kv ?st ! i else stream k ?st ! i) [0..<kc_size ?c']" by auto
    have cells: "cells_of c'' = merged kv sl kv' ?st"
      unfolding c''(3) merged_def slot_set_at [OF f(4) s] at(1) using c(4) k(2) by simp
    note mo = merged_ok [OF ok(1) ok'(1-3) f(1), of sl]
    let ?k = "k\<lparr>kv_cells := (kv_cells k)[?st := c''], kv_heads := (kv_heads k)[?st := kv_heads kv ! ?st]\<rparr>"
    have len: "length (cells_of c'') = cache_size k" unfolding cells using mo(1) k(2) by simp
    have own: "\<forall>x\<in>set (cells_of c''). cell_own (kv_seq_to_stream k) ?st x" unfolding cells n using mo(2) .
    have h: "kv_heads kv ! ?st \<le> cache_size k" using stream_okD(4) [OF ok(1) f(1)] k(2) by simp
    note ok2 = cache_ok_stream [OF k(1) st(1) c''(2) len own h]
    have run: "?body s k = Some ?k"
      using f(5,6) st(1) cache_okD(5,6) [OF k(1)] sv'(1,2) s c''(1) cache_okD(6) [OF ok(1)] n by simp
    have "stream ?k st = (if ?done (ys @ [s]) st then merged kv sl kv' st else stream kv' st) \<and>
       kv_heads ?k ! st = (if ?done (ys @ [s]) st then kv_heads kv ! st else kv_heads kv' ! st)" if "st < kv_n_stream kv" for st
      using P that cells cache_okD(5,6) [OF k(1)] st(1) by (cases "st = ?st") auto
    moreover have "\<exists>cs hs. ?k = kv'\<lparr>kv_cells := cs, kv_heads := hs\<rparr>"
      by (intro exI [of _ "cs[?st := c'']"] exI [of _ "hs[?st := kv_heads kv ! ?st]"]) (use k(3) in simp)
    ultimately have "?P (ys @ [s]) ?k" using ok2 k(2) by presburger
    then show "\<exists>k'. ?body s k = Some k' \<and> ?P (ys @ [s]) k'" using run by blast
  qed (use ok'(1,3) self in simp)
  then obtain k where k: "restore_state sv kv' = Some k" "?P [0..<slot_n_stream sl] k"
    using sv'(1) unfolding restore_state_def by auto
  have all: "?done [0..<slot_n_stream sl] st \<longleftrightarrow> st \<in> set (slot_strm sl)" for st by (auto simp: in_set_conv_nth slot_n_stream_def)
  have rest: "merged kv sl kv' st = stream kv' st" if "st < kv_n_stream kv" "st \<notin> set (slot_strm sl)" for st
    using slot_set_none [OF that(2)] stream_okD(3) [OF ok'(1)] that(1) conf(1) ok'(3) by (intro nth_equalityI) (simp_all add: merged_def)
  obtain cs hs where "k = kv'\<lparr>kv_cells := cs, kv_heads := hs\<rparr>" using k(2) by blast
  then show ?thesis using k all rest by (intro exI [of _ cs] exI [of _ hs]) auto
qed


section \<open>Placing and undoing\<close>

text \<open>
  Without a sliding window of the model, a token takes only empty cells, and with the prefix window it takes
  cells no token sees any more; in both cases no other cell changes.
\<close>

definition quiet :: "llama_kv_cache \<Rightarrow> bool" where
  "quiet kv \<longleftrightarrow> prefix_sliding_enabled kv \<or> kv_swa_type kv = LLAMA_SWA_TYPE_NONE"

lemma quiet_config: "config kv' = config kv \<Longrightarrow> quiet kv' = quiet kv"
  by (simp add: quiet_def config_def prefix_sliding_enabled_def)

lemma quiet_bounds:
  assumes P: "placing kv ub cont sl" and q: "quiet kv" "\<not> prefix_sliding_enabled kv"
  shows "purge_bounds kv sl = (\<lambda>_. -1)"
proof -
  have "x = None" if x: "x \<in> set (replaced kv sl [0..<slot_n_stream sl])" for x
  proof -
    obtain c i where c: "c < ub_seqs kv ub" "i \<in> set (slot_idxs sl ! c)" "x = stream kv (slot_strm sl ! c) ! i"
      using x slot(3) [OF P] by (auto simp: replaced_def)
    then have "usable_cell kv (ub_stream kv ub c) (ub_sid ub c) (ub_lo kv ub c) x" using chunk_facts(4) [OF P c(1,2)] slot(4) [OF P c(1)] by simp
    then show ?thesis using q by (auto simp: usable_cell_def quiet_def swa_masked_def split: option.splits)
  qed
  moreover have "(\<forall>x\<in>set xs. x = None) \<Longrightarrow> fold (overwrite b) xs mx = mx" for xs b mx
    by (induction xs arbitrary: mx) (simp_all add: overwrite_def)
  ultimately show ?thesis unfolding purge_bounds_def by simp
qed

lemma placing_untouched: "placing kv ub cont sl \<Longrightarrow> untouched kv ub sl st j \<longleftrightarrow> j \<notin> slot_set sl st"
  using slot(3,4) [of kv ub cont sl] by (auto simp: untouched_def slot_set_def)

lemma placed_no_shifts:
  assumes P: "placing kv ub cont sl" and sh: "no_shifts kv" and st: "st < kv_n_stream kv"
  shows "\<forall>x\<in>set (placed kv sl ub st). no_shift x"
proof
  fix x assume "x \<in> set (placed kv sl ub st)"
  then obtain j where j: "j < cache_size kv" "x = placed kv sl ub st ! j" using length_placed [OF P st] by (auto simp: in_set_conv_nth)
  show "no_shift x"
  proof (cases "untouched kv ub sl st j")
    case True
    then have "x = stream kv st ! j" using placed_untouched [OF P st j(1)] j(2) by simp
    then show ?thesis using sh st stream_okD(3) [OF placingD(1) [OF P] st] j(1) by (auto simp: no_shifts_def)
  next
    case False
    then obtain c ii where c: "c < ub_seqs kv ub" "ii < ub_len kv ub" "ub_stream kv ub c = st" "j = slot_idxs sl ! c ! ii"
      using chunk_facts(3) [OF P] by (auto simp: untouched_def in_set_conv_nth)
    then show ?thesis using placed_token(1) [OF P c(1,2)] j(2) by (simp add: token_cell_def no_shift_def)
  qed
qed

lemma apply_no_shifts:
  assumes P: "placing kv ub cont sl" and sh: "no_shifts kv"
  shows "\<exists>kv'. apply_ubatch sl ub kv = Some kv' \<and> cache_ok kv' \<and> config kv' = config kv \<and> cache_size kv' = cache_size kv \<and>
    no_shifts kv' \<and> (quiet kv \<longrightarrow> (\<forall>st<kv_n_stream kv. stream kv' st = placed kv sl ub st) \<and>
      (\<exists>cs hs. kv' = kv\<lparr>kv_cells := cs, kv_heads := hs\<rparr> \<and> (\<forall>st. st \<notin> set (slot_strm sl) \<longrightarrow> hs ! st = kv_heads kv ! st)))"
proof -
  note ok = placingD(1) [OF P]
  let ?g = "if prefix_sliding_enabled kv then id else purge_cell (purge_bounds kv sl) {..<LLAMA_MAX_SEQ}"
  obtain kv' where kv': "apply_ubatch sl ub kv = Some kv'" "cache_ok kv'" "config kv' = config kv" "cache_size kv' = cache_size kv"
    "\<forall>st<kv_n_stream kv. stream kv' st = map ?g (placed kv sl ub st)"
    "prefix_sliding_enabled kv \<or> purge_bounds kv sl = (\<lambda>_. -1) \<longrightarrow>
       (\<exists>cs hs. kv' = kv\<lparr>kv_cells := cs, kv_heads := hs\<rparr> \<and> (\<forall>st. st \<notin> set (slot_strm sl) \<longrightarrow> hs ! st = kv_heads kv ! st))"
    using apply_ubatch_effect [OF ok slot(1) [OF P]] by blast
  have "no_shift x \<Longrightarrow> no_shift (?g x)" for x
    by (auto simp: no_shift_def purge_cell_def split: option.splits)
  then have "no_shifts kv'" using kv'(5) placed_no_shifts [OF P sh] config_fields(1) [OF kv'(3)] by (auto simp: no_shifts_def)
  moreover have "?g x = x" if q: "quiet kv" and st: "st < kv_n_stream kv" and x: "x \<in> set (placed kv sl ub st)" for st x
  proof (cases "prefix_sliding_enabled kv")
    case False
    obtain j where j: "j < cache_size kv" "x = placed kv sl ub st ! j" using x length_placed [OF P st] by (auto simp: in_set_conv_nth)
    have pos: "0 \<le> p" "S \<noteq> {}" if "x = Some (p, S, sh)" for p S sh
    proof -
      have "cell_own (kv_seq_to_stream kv) st x \<and> 0 \<le> p"
      proof (cases "untouched kv ub sl st j")
        case True
        then have "x \<in> set (stream kv st)" using placed_untouched [OF P st j(1)] j stream_okD(3) [OF ok st] by simp
        then show ?thesis using stream_okD(5) [OF ok st] stream_pos [OF stream_okD(1) [OF ok st], of p S sh] that by simp
      next
        case False
        then obtain c ii where c: "c < ub_seqs kv ub" "ii < ub_len kv ub" "ub_stream kv ub c = st" "j = slot_idxs sl ! c ! ii"
          using chunk_facts(3) [OF P] by (auto simp: untouched_def in_set_conv_nth)
        then have "x = token_cell ub (c * ub_len kv ub + ii)" using placed_token(1) [OF P c(1,2)] j(2) by simp
        then show ?thesis using ubatch_okD(5) [OF placingD(2) [OF P] c(1,2)] token_cell_own [of "kv_seq_to_stream kv" st ub] c(3) that
          by (auto simp: token_cell_def token_ok_def)
      qed
      then show "0 \<le> p" "S \<noteq> {}" using that by (simp_all add: cell_own_def)
    qed
    then show ?thesis using quiet_bounds [OF P q False] False
      by (cases x) (auto simp: purge_cell_def kept_def)
  qed simp
  then have "quiet kv \<Longrightarrow> st < kv_n_stream kv \<Longrightarrow> stream kv' st = placed kv sl ub st" for st
    using kv'(5) by (simp add: map_idI)
  moreover have "quiet kv \<Longrightarrow> prefix_sliding_enabled kv \<or> purge_bounds kv sl = (\<lambda>_. -1)" using quiet_bounds [OF P] by blast
  ultimately show ?thesis using kv' by blast
qed


text \<open>\<open>kv'\<close> is \<open>kv\<close> again, up to the representation of the cells.\<close>

definition undone :: "llama_kv_cache \<Rightarrow> llama_kv_cache \<Rightarrow> bool" where
  "undone kv kv' \<longleftrightarrow> cache_ok kv' \<and> config kv' = config kv \<and> cache_size kv' = cache_size kv \<and> no_shifts kv' \<and>
     (quiet kv \<longrightarrow> (\<exists>cs. kv' = kv\<lparr>kv_cells := cs\<rparr>) \<and> (\<forall>st<kv_n_stream kv. stream kv' st = stream kv st))"

lemma undone_refl: "cache_ok kv \<Longrightarrow> no_shifts kv \<Longrightarrow> undone kv kv"
  by (auto simp: undone_def intro: exI [of _ "kv_cells kv"])

lemma undo:
  assumes P: "placing kv ub cont sl" and sh: "no_shifts kv" and sv: "save_state sl kv = Some sv"
    and app: "apply_ubatch sl ub kv = Some kv1" and b: "undone kv1 kv2"
  shows "\<exists>kv3. restore_state sv kv2 = Some kv3 \<and> undone kv kv3"
proof -
  note ok = placingD(1) [OF P]
  have a: "config kv1 = config kv" "cache_size kv1 = cache_size kv"
    "quiet kv \<longrightarrow> (\<forall>st<kv_n_stream kv. stream kv1 st = placed kv sl ub st) \<and>
      (\<exists>cs hs. kv1 = kv\<lparr>kv_cells := cs, kv_heads := hs\<rparr> \<and> (\<forall>st. st \<notin> set (slot_strm sl) \<longrightarrow> hs ! st = kv_heads kv ! st))"
    using apply_no_shifts [OF P sh] app by auto
  have b2: "cache_ok kv2" "config kv2 = config kv" "cache_size kv2 = cache_size kv" "no_shifts kv2" using b a(1,2) by (simp_all add: undone_def)
  obtain cs hs where r: "restore_state sv kv2 = Some (kv2\<lparr>kv_cells := cs, kv_heads := hs\<rparr>)" "cache_ok (kv2\<lparr>kv_cells := cs, kv_heads := hs\<rparr>)"
    "cache_size (kv2\<lparr>kv_cells := cs, kv_heads := hs\<rparr>) = cache_size kv" "\<forall>st<kv_n_stream kv. cells_of (cs ! st) = merged kv sl kv2 st"
    "\<forall>st<kv_n_stream kv. hs ! st = (if st \<in> set (slot_strm sl) then kv_heads kv ! st else kv_heads kv2 ! st)"
    using restore_effect [OF ok sh slot(1) [OF P] sv b2] by blast
  let ?kv = "kv2\<lparr>kv_cells := cs, kv_heads := hs\<rparr>"
  have "no_shifts ?kv"
    using r(4) merged_ok(3) [OF ok b2(1-3) _ sh b2(4)] config_fields(1) [OF b2(2)] by (simp add: no_shifts_def)
  moreover have "(\<exists>cs. ?kv = kv\<lparr>kv_cells := cs\<rparr>) \<and> (\<forall>st<kv_n_stream kv. stream ?kv st = stream kv st)" if q: "quiet kv"
  proof -
    obtain cs1 hs1 where k1: "kv1 = kv\<lparr>kv_cells := cs1, kv_heads := hs1\<rparr>" "\<forall>st. st \<notin> set (slot_strm sl) \<longrightarrow> hs1 ! st = kv_heads kv ! st"
      "\<forall>st<kv_n_stream kv. stream kv1 st = placed kv sl ub st" using a(3) q by blast
    obtain cs2 where k2: "kv2 = kv1\<lparr>kv_cells := cs2\<rparr>" "\<forall>st<kv_n_stream kv1. stream kv2 st = stream kv1 st"
      using b q quiet_config [OF a(1)] by (auto simp: undone_def)
    have n1: "kv_n_stream kv1 = kv_n_stream kv" using config_fields(1) [OF a(1)] .
    have "merged kv sl kv2 st = stream kv st" if st: "st < kv_n_stream kv" for st
    proof (rule nth_equalityI)
      show "length (merged kv sl kv2 st) = length (stream kv st)" using stream_okD(3) [OF ok st] by (simp add: merged_def)
      fix j assume "j < length (merged kv sl kv2 st)"
      then have j: "j < cache_size kv" by (simp add: merged_def)
      have "j \<notin> slot_set sl st \<Longrightarrow> stream kv2 st ! j = stream kv st ! j"
        using k2(2) n1 st k1(3) placed_untouched [OF P st j] placing_untouched [OF P] by simp
      then show "merged kv sl kv2 st ! j = stream kv st ! j" using j by (simp add: merged_def)
    qed
    moreover have "hs = kv_heads kv"
    proof (rule nth_equalityI)
      have n: "kv_n_stream ?kv = kv_n_stream kv" using config_fields(1) [OF b2(2)] by simp
      show len: "length hs = length (kv_heads kv)" using cache_okD(6) [OF r(2)] cache_okD(6) [OF ok] n by simp
      fix st assume "st < length hs"
      then have "st < kv_n_stream kv" using len cache_okD(6) [OF ok] by simp
      then show "hs ! st = kv_heads kv ! st" using r(5) k1(1,2) k2(1) by simp
    qed
    ultimately show ?thesis using r(4) k1(1) k2(1) by auto
  qed
  ultimately have "undone kv ?kv" using r(2,3) b2(2) by (simp add: undone_def)
  then show ?thesis using r(1) by blast
qed

text \<open>Micro batches in the slots that \<open>find_slot\<close> finds for them, one after the other.\<close>

fun fits :: "'f llama_ubatch list \<Rightarrow> slot_info list \<Rightarrow> llama_kv_cache \<Rightarrow> llama_kv_cache \<Rightarrow> bool" where
  "fits [] [] kv kv' = (kv' = kv)"
| "fits (ub # ubs) (sl # sls) kv kv' = (\<exists>k. placing kv ub False sl \<and> apply_ubatch sl ub kv = Some k \<and> fits ubs sls k kv')"
| "fits _ _ _ _ = False"

definition stuck :: "'f llama_ubatch list \<Rightarrow> llama_kv_cache \<Rightarrow> bool" where
  "stuck ubs kv \<longleftrightarrow> (\<exists>pre ub post sls k. ubs = pre @ ub # post \<and> fits pre sls kv k \<and> (\<exists>s<ub_seqs k ub. no_room k ub False s))"

lemma ubatch_ok_config: "config kv' = config kv \<Longrightarrow> ubatch_ok kv' ub = ubatch_ok kv ub"
  by (simp add: config_def ubatch_ok_def ub_seqs_def ub_len_def)

lemma stuck_step:
  assumes "placing kv ub False sl" "apply_ubatch sl ub kv = Some k" "stuck ubs k"
  shows "stuck (ub # ubs) kv"
proof -
  obtain pre b post sls k' where s: "ubs = pre @ b # post" "fits pre sls k k'" "\<exists>s<ub_seqs k' b. no_room k' b False s"
    using assms(3) unfolding stuck_def by blast
  have "ub # ubs = (ub # pre) @ b # post" "fits (ub # pre) (sl # sls) kv k'" using s(1,2) assms(1,2) by auto
  then show ?thesis using s(3) unfolding stuck_def by blast
qed

lemma place_all:
  assumes "cache_ok kv" "no_shifts kv" "\<forall>ub\<in>set ubs. ubatch_ok kv ub"
  shows "\<exists>success sls svs kv1. place_ubatches ubs res states kv = Some (success, res @ sls, states @ svs, kv1) \<and>
    cache_ok kv1 \<and> no_shifts kv1 \<and> (if success then length svs = length ubs \<and> fits ubs sls kv kv1 else stuck ubs kv) \<and>
    (\<forall>kv2. undone kv1 kv2 \<longrightarrow> (\<exists>kv3. fold_opt restore_state (rev svs) kv2 = Some kv3 \<and> undone kv kv3))"
  using assms
proof (induction ubs arbitrary: kv res states)
  case Nil
  then show ?case by (auto intro!: exI [of _ "[]"])
next
  case (Cons ub ubs)
  note ok = Cons.prems(1) and sh = Cons.prems(2)
  have ub: "ubatch_ok kv ub" using Cons.prems(3) by simp
  obtain sl where sl: "find_slot ub False kv = Some sl" "slot_empty sl \<longleftrightarrow> (\<exists>s<ub_seqs kv ub. no_room kv ub False s)"
    using find_slot_result [OF ok ub] by blast
  show ?case
  proof (cases "slot_empty sl")
    case True
    have "fits [] [] kv kv" by simp
    then have "stuck (ub # ubs) kv" using True sl(2) unfolding stuck_def by (metis append_Nil)
    then show ?thesis using True sl(1) ok sh by (auto intro!: exI [of _ "[]"])
  next
    case False
    have P: "placing kv ub False sl" using ok ub sl(1) False by (simp add: placing_def)
    obtain sv where sv: "save_state sl kv = Some sv" using save_effect [OF ok slot(1) [OF P] sh] by blast
    obtain k where k: "apply_ubatch sl ub kv = Some k" "cache_ok k" "config k = config kv" "no_shifts k"
      using apply_no_shifts [OF P sh] by blast
    have "\<forall>b\<in>set ubs. ubatch_ok k b" using Cons.prems(3) by (simp add: ubatch_ok_config [OF k(3)])
    from Cons.IH [OF k(2,4) this, of "res @ [sl]" "states @ [sv]"] obtain success sls svs kv1 where
      IH: "place_ubatches ubs (res @ [sl]) (states @ [sv]) k = Some (success, (res @ [sl]) @ sls, (states @ [sv]) @ svs, kv1)"
      "cache_ok kv1" "no_shifts kv1" "if success then length svs = length ubs \<and> fits ubs sls k kv1 else stuck ubs k"
      "\<forall>kv2. undone kv1 kv2 \<longrightarrow> (\<exists>kv3. fold_opt restore_state (rev svs) kv2 = Some kv3 \<and> undone k kv3)" by blast
    have run: "place_ubatches (ub # ubs) res states kv = Some (success, res @ (sl # sls), states @ (sv # svs), kv1)"
      using sl(1) False sv k(1) IH(1) by simp
    have "\<exists>kv3. fold_opt restore_state (rev (sv # svs)) kv2 = Some kv3 \<and> undone kv kv3" if "undone kv1 kv2" for kv2
    proof -
      obtain kv3 where kv3: "fold_opt restore_state (rev svs) kv2 = Some kv3" "undone k kv3" using IH(5) \<open>undone kv1 kv2\<close> by blast
      show ?thesis using undo [OF P sh sv k(1) kv3(2)] kv3(1) by (auto simp: fold_opt_append)
    qed
    moreover have "if success then length (sv # svs) = length (ub # ubs) \<and> fits (ub # ubs) (sl # sls) kv kv1 else stuck (ub # ubs) kv"
      using IH(4) P k(1) stuck_step [OF P k(1)] by auto
    ultimately show ?thesis using run IH(2,3) by blast
  qed
qed

lemma fits_length: "fits ubs sls kv kv' \<Longrightarrow> length sls = length ubs"
  by (induction ubs sls kv kv' rule: fits.induct) auto

lemma prepare_effect:
  assumes ok: "cache_ok kv" "no_shifts kv" and ubs: "ubs \<noteq> []" "\<forall>ub\<in>set ubs. ubatch_ok kv ub"
  shows "\<exists>sls kv'. prepare ubs kv = Some (sls, kv') \<and> undone kv kv' \<and> (if sls = [] then stuck ubs kv else \<exists>kv1. fits ubs sls kv kv1)"
proof -
  obtain success sls svs kv1 where p: "place_ubatches ubs [] [] kv = Some (success, sls, svs, kv1)" "cache_ok kv1" "no_shifts kv1"
    "if success then length svs = length ubs \<and> fits ubs sls kv kv1 else stuck ubs kv"
    "\<forall>kv2. undone kv1 kv2 \<longrightarrow> (\<exists>kv3. fold_opt restore_state (rev svs) kv2 = Some kv3 \<and> undone kv kv3)"
    using place_all [OF ok ubs(2), of "[]" "[]"] by auto
  obtain kv3 where kv3: "fold_opt restore_state (rev svs) kv1 = Some kv3" "undone kv kv3" using p(5) undone_refl [OF p(2,3)] by blast
  have "svs \<noteq> [] \<or> \<not> success" using p(4) ubs(1) by auto
  then have run: "prepare ubs kv = Some (if success then sls else [], kv3)" using p(1) kv3(1) by (simp add: prepare_def)
  show ?thesis
  proof (cases success)
    case True
    then have "fits ubs sls kv kv1" using p(4) by simp
    moreover from fits_length [OF this] have "sls \<noteq> []" using ubs(1) by auto
    ultimately show ?thesis using run True kv3(2) by auto
  qed (use run p(4) kv3(2) in simp)
qed


section \<open>Applying what was prepared\<close>

definition apply_all :: "slot_info list \<Rightarrow> 'f llama_ubatch list \<Rightarrow> llama_kv_cache \<Rightarrow> llama_kv_cache option" where
  "apply_all sls ubs kv = fold_opt (\<lambda>(sl, ub). apply_ubatch sl ub) (zip sls ubs) kv"

definition alike :: "llama_kv_cache \<Rightarrow> llama_kv_cache \<Rightarrow> bool" where
  "alike kv kv' \<longleftrightarrow> cache_ok kv' \<and> config kv' = config kv \<and> cache_size kv' = cache_size kv \<and> (\<forall>st<kv_n_stream kv. stream kv' st = stream kv st)"

lemma alike_slot:
  assumes a: "alike kv kv'" and sl: "slot_ok kv sl ub"
  shows "slot_ok kv' sl ub" "st < kv_n_stream kv \<Longrightarrow> placed kv' sl ub st = placed kv sl ub st" "purge_bounds kv' sl = purge_bounds kv sl"
proof -
  have c: "config kv' = config kv" "cache_size kv' = cache_size kv" "\<And>st. st < kv_n_stream kv \<Longrightarrow> stream kv' st = stream kv st"
    using a by (simp_all add: alike_def)
  note conf = config_fields [OF c(1)]
  have st: "\<forall>s < slot_n_stream sl. stream kv' (slot_strm sl ! s) = stream kv (slot_strm sl ! s)"
    using slot_okD(1) [OF sl] c(3) by simp
  then show "slot_ok kv' sl ub" using sl conf(1,2) c(2) by (simp add: slot_ok_def)
  show "placed kv' sl ub st = placed kv sl ub st" if "st < kv_n_stream kv" by (simp only: placed_def c(3) [OF that])
  have "replaced kv' sl [0..<slot_n_stream sl] = replaced kv sl [0..<slot_n_stream sl]"
    unfolding replaced_def by (rule arg_cong [of _ _ concat], rule map_cong) (use st in simp_all)
  then show "purge_bounds kv' sl = purge_bounds kv sl" using conf(7) by (simp add: purge_bounds_def)
qed

lemma alike_apply:
  assumes a: "alike kv kv'" and ok: "cache_ok kv" and sl: "slot_ok kv sl ub" and app: "apply_ubatch sl ub kv = Some k"
  shows "\<exists>k'. apply_ubatch sl ub kv' = Some k' \<and> alike k k'"
proof -
  have c: "cache_ok kv'" "config kv' = config kv" "cache_size kv' = cache_size kv" using a by (simp_all add: alike_def)
  note conf = config_fields [OF c(2)]
  note eq = alike_slot [OF a sl]
  obtain k' where k': "apply_ubatch sl ub kv' = Some k'" "cache_ok k'" "config k' = config kv'" "cache_size k' = cache_size kv'"
    "\<forall>st<kv_n_stream kv'. stream k' st =
       map (if prefix_sliding_enabled kv' then id else purge_cell (purge_bounds kv' sl) {..<LLAMA_MAX_SEQ}) (placed kv' sl ub st)"
    using apply_ubatch_effect [OF c(1) eq(1)] by blast
  have k: "config k = config kv" "cache_size k = cache_size kv" "\<forall>st<kv_n_stream kv. stream k st =
       map (if prefix_sliding_enabled kv then id else purge_cell (purge_bounds kv sl) {..<LLAMA_MAX_SEQ}) (placed kv sl ub st)"
    using apply_ubatch_effect [OF ok sl] app by auto
  have "alike k k'"
    using k' k c conf(1,7) eq(2,3) config_fields(1) [OF k(1)] by (simp add: alike_def)
  then show ?thesis using k'(1) by blast
qed

lemma fits_apply:
  assumes "fits ubs sls kv kv1" "alike kv kv'"
  shows "\<exists>kv2. apply_all sls ubs kv' = Some kv2 \<and> alike kv1 kv2"
  using assms
proof (induction ubs sls kv kv1 arbitrary: kv' rule: fits.induct)
  case (2 ub ubs sl sls kv kv1)
  then obtain k where k: "placing kv ub False sl" "apply_ubatch sl ub kv = Some k" "fits ubs sls k kv1" by auto
  obtain k' where k': "apply_ubatch sl ub kv' = Some k'" "alike k k'"
    using alike_apply [OF 2(3) placingD(1) [OF k(1)] slot(1) [OF k(1)] k(2)] by blast
  show ?case using "2.IH" [OF k(3) k'(2)] k'(1) by (simp add: apply_all_def)
qed (auto simp: apply_all_def alike_def)

text \<open>Without any window nothing is overwritten.\<close>

lemma positions_grow:
  assumes P: "placing kv ub cont sl" and sh: "no_shifts kv" and q: "quiet kv" "\<not> prefix_sliding_enabled kv"
    and app: "apply_ubatch sl ub kv = Some k" and s: "s < length (kv_seq_to_stream kv)"
  shows "positions k s = positions kv s \<union> incoming ub s"
proof -
  note ok = placingD(1) [OF P]
  let ?st = "kv_seq_to_stream kv ! s"
  have st: "?st < kv_n_stream kv" using seq_stream(2) [OF ok, of "int s"] s by (simp add: seq_ok_def)
  have k: "config k = config kv" "stream k ?st = placed kv sl ub ?st" using apply_no_shifts [OF P sh] app q st by auto
  have free: "untouched kv ub sl ?st j" if "stream kv ?st ! j = Some x" for j x
    unfolding untouched_def
  proof (intro allI impI notI)
    fix c assume c: "c < ub_seqs kv ub" "ub_stream kv ub c = ?st" "j \<in> set (slot_idxs sl ! c)"
    then show False using chunk_facts(4) [OF P c(1,3)] that q by (auto simp: usable_cell_def quiet_def swa_masked_def)
  qed
  have "p \<in> positions k s \<longleftrightarrow> p \<in> positions kv s \<union> incoming ub s" for p
    using placed_positions [OF P s, of p] free config_fields(2) [OF k(1)] stream_okD(3) [OF ok st] k(2)
    by (auto simp: positions_def seq_positions_def)
  then show ?thesis by blast
qed

lemma fits_positions:
  assumes "fits ubs sls kv kv1" "no_shifts kv" "quiet kv" "\<not> prefix_sliding_enabled kv" "s < length (kv_seq_to_stream kv)"
  shows "positions kv1 s = positions kv s \<union> (\<Union>ub\<in>set ubs. incoming ub s)"
  using assms
proof (induction ubs sls kv kv1 rule: fits.induct)
  case (2 ub ubs sl sls kv kv1)
  then obtain k where k: "placing kv ub False sl" "apply_ubatch sl ub kv = Some k" "fits ubs sls k kv1" by auto
  have c: "config k = config kv" "no_shifts k" using apply_no_shifts [OF k(1) "2.prems"(2)] k(2) by auto
  have "positions kv1 s = positions k s \<union> (\<Union>ub\<in>set ubs. incoming ub s)"
    by (rule "2.IH" [OF k(3) c(2)]) (use "2.prems" quiet_config [OF c(1)] config_fields(2,7) [OF c(1)] in simp_all)
  then show ?case using positions_grow [OF k(1) "2.prems"(2-4) k(2) "2.prems"(5)] by auto
qed simp_all

lemma alike_positions: "alike kv kv' \<Longrightarrow> s < length (kv_seq_to_stream kv) \<Longrightarrow> cache_ok kv \<Longrightarrow> positions kv' s = positions kv s"
  using seq_stream(2) [of kv "int s"] config_fields(2) [of kv' kv] by (simp add: alike_def positions_def seq_ok_def)

lemma undone_alike: "undone kv kv' \<Longrightarrow> quiet kv \<Longrightarrow> alike kv kv'"
  by (simp add: undone_def alike_def)

lemma fits_ok: "fits ubs sls kv kv1 \<Longrightarrow> cache_ok kv \<Longrightarrow> no_shifts kv \<Longrightarrow> cache_ok kv1 \<and> config kv1 = config kv"
proof (induction ubs sls kv kv1 rule: fits.induct)
  case (2 ub ubs sl sls kv kv1)
  then obtain k where k: "placing kv ub False sl" "apply_ubatch sl ub kv = Some k" "fits ubs sls k kv1" by auto
  then show ?case using "2.IH" [OF k(3)] apply_no_shifts [OF k(1) "2.prems"(3)] by auto
qed simp_all

end
