(* ===== verification/KV_Batch.thy ===== *)
theory KV_Batch
  imports KV_Prepare Batch_Init
begin

text \<open>
  The batch allocator and the KV cache together: the micro batches that the simple split makes of an accepted
  batch are what the cache expects, and a cache without windows has room for them exactly if it has an empty
  cell for every token.
\<close>

section \<open>Micro batches of an accepted batch\<close>

lemma index_seqs_unq: "fst (index_seqs n w) = filter (bit w) [0..<n]"
proof -
  have "fst (fold (\<lambda>s (unq, idx). if bit w s then (unq @ [s], idx(s := int (length unq))) else (unq, idx)) xs (us, f)) = us @ filter (bit w) xs"
    for xs us f by (induction xs arbitrary: us f) auto
  then show ?thesis by (simp add: index_seqs_def)
qed

lemma bit_fold_or: "bit (fold (OR) ws (w :: seq_set)) s \<longleftrightarrow> bit w s \<or> (\<exists>v\<in>set ws. bit v s)"
  by (induction ws arbitrary: w) (auto simp: bit_or_iff)

text \<open>The tokens of a batch, as the KV cache can store them.\<close>

definition tokens_ok :: "nat \<Rightarrow> nat \<Rightarrow> int list \<Rightarrow> int list list \<Rightarrow> int list \<Rightarrow> bool" where
  "tokens_ok n_seq_max n ns ids pos \<longleftrightarrow> (\<forall>i<n. 0 < ns ! i \<and> nat (ns ! i) \<le> length (ids ! i) \<and> distinct (row_of ns ids i) \<and>
     (\<forall>s\<in>set (row_of ns ids i). 0 \<le> s \<and> s < int n_seq_max) \<and> 0 \<le> pos ! i \<and> pos ! i < LLAMA_POS_MAX)"

lemma ubatch_data_fields:
  assumes "al_embd st \<noteq> None \<longrightarrow> 0 < al_n_pos_per_embd st"
  shows "ub_n_tokens (ubatch_data st idxs m eq) = length idxs" "ub_n_seq_id (ubatch_data st idxs m eq) = map (\<lambda>i. al_n_seq_id st ! i) idxs"
    "ub_seq_id (ubatch_data st idxs m eq) = map (\<lambda>i. al_seq_id st ! i) idxs"
    "ub_seq_id_unq (ubatch_data st idxs m eq) =
       filter (\<lambda>s. \<exists>i\<in>set idxs. bit (bits_of (row_of (al_n_seq_id st) (al_seq_id st) i)) s) [0..<al_n_seq_max st]"
    "\<exists>ps. ub_pos (ubatch_data st idxs m eq) = map (\<lambda>i. al_pos st ! i) idxs @ ps"
proof -
  let ?w = "fold (OR) (map (\<lambda>i. bits_of (row_of (al_n_seq_id st) (al_seq_id st) i)) idxs) 0"
  let ?n = "case al_embd st of None \<Rightarrow> 1 | Some _ \<Rightarrow> al_n_pos_per_embd st"
  obtain unq idx where ix: "index_seqs (al_n_seq_max st) ?w = (unq, idx)" by fastforce
  note d = ubatch_data_def Let_def ix prod.case
  show "ub_n_tokens (ubatch_data st idxs m eq) = length idxs" "ub_n_seq_id (ubatch_data st idxs m eq) = map (\<lambda>i. al_n_seq_id st ! i) idxs"
    "ub_seq_id (ubatch_data st idxs m eq) = map (\<lambda>i. al_seq_id st ! i) idxs" unfolding d by simp_all
  have "bit ?w = (\<lambda>s. \<exists>i\<in>set idxs. bit (bits_of (row_of (al_n_seq_id st) (al_seq_id st) i)) s)"
    by (simp add: fun_eq_iff bit_fold_or)
  moreover have "unq = filter (bit ?w) [0..<al_n_seq_max st]" using index_seqs_unq [of "al_n_seq_max st" ?w] ix by simp
  ultimately show "ub_seq_id_unq (ubatch_data st idxs m eq) =
       filter (\<lambda>s. \<exists>i\<in>set idxs. bit (bits_of (row_of (al_n_seq_id st) (al_seq_id st) i)) s) [0..<al_n_seq_max st]"
    unfolding d by simp
  have "0 < ?n" using assms by (cases "al_embd st") auto
  then have "[0..<?n] = 0 # [1..<?n]" by (simp add: upt_conv_Cons)
  then show "\<exists>ps. ub_pos (ubatch_data st idxs m eq) = map (\<lambda>i. al_pos st ! i) idxs @ ps"
    unfolding d by simp
qed

lemma ubatch_data_ok:
  fixes m :: nat and eq :: bool
  assumes ok: "cache_ok kv" and one: "kv_n_stream kv = 1" and len: "al_n_seq_max st \<le> length (kv_seq_to_stream kv)"
    and tok: "tokens_ok (al_n_seq_max st) n (al_n_seq_id st) (al_seq_id st) (al_pos st)" and emb: "al_embd st \<noteq> None \<longrightarrow> 0 < al_n_pos_per_embd st"
    and idxs: "idxs \<noteq> []" "set idxs \<subseteq> {..<n}"
  defines "ub \<equiv> ubatch_data st idxs m eq"
  shows "ubatch_ok kv ub" "ub_n_tokens ub = length idxs"
    "incoming ub s = {al_pos st ! i |i. i \<in> set idxs \<and> int s \<in> set (row_of (al_n_seq_id st) (al_seq_id st) i)}"
proof -
  let ?row = "row_of (al_n_seq_id st) (al_seq_id st)"
  note f = ubatch_data_fields [OF emb, of idxs m eq, folded ub_def]
  show n: "ub_n_tokens ub = length idxs" by (rule f(1))
  have seqs: "token_seqs ub j = ?row (idxs ! j)" if "j < length idxs" for j
    unfolding row_of_def f(2,3) using that by simp
  obtain ps where "ub_pos ub = map (\<lambda>i. al_pos st ! i) idxs @ ps" using f(5) by blast
  then have pos: "ub_pos ub ! j = al_pos st ! (idxs ! j)" "j < length (ub_pos ub)" if "j < length idxs" for j
    using that by (simp_all add: nth_append)
  have small: "al_n_seq_max st \<le> LLAMA_MAX_SEQ" using len cache_okD(1) [OF ok] by (simp add: config_ok_def)
  have tk: "0 < al_n_seq_id st ! i" "nat (al_n_seq_id st ! i) \<le> length (al_seq_id st ! i)" "distinct (?row i)"
    "\<forall>s\<in>set (?row i). 0 \<le> s \<and> s < int (al_n_seq_max st)" "0 \<le> al_pos st ! i" "al_pos st ! i < LLAMA_POS_MAX" if "i \<in> set idxs" for i
    using tok idxs(2) that by (auto simp: tokens_ok_def)
  have stream0: "kv_seq_to_stream kv ! s = 0" if "s < length (kv_seq_to_stream kv)" for s
    using seq_stream(2) [OF ok, of "int s"] that one by (simp add: seq_ok_def)
  have t: "token_ok (kv_seq_to_stream kv) 0 ub j" if j: "j < length idxs" for j
  proof -
    have i: "idxs ! j \<in> set idxs" using j by simp
    have "0 \<le> s \<and> nat s < length (kv_seq_to_stream kv) \<and> kv_seq_to_stream kv ! nat s = 0" if "s \<in> set (?row (idxs ! j))" for s
      using tk(4) [OF i] that len stream0 [of "nat s"] by fastforce
    then show ?thesis using tk(1-3,5,6) [OF i] pos [OF j] j unfolding token_ok_def seqs [OF j] by (simp add: f(2,3))
  qed
  have unq: "s \<in> set (ub_seq_id_unq ub) \<longleftrightarrow> (\<exists>i\<in>set idxs. int s \<in> set (?row i))" for s
  proof -
    have "bit (bits_of (?row i)) s \<and> s < al_n_seq_max st \<longleftrightarrow> int s \<in> set (?row i)" if "i \<in> set idxs" for i
      using tk(4) [OF that] small by (force simp: bits_of_bit)
    then show ?thesis unfolding f(4) by auto
  qed
  have "?row (hd idxs) \<noteq> []" using tk(1,2) [of "hd idxs"] idxs(1) by (auto simp: row_of_def)
  then have "hd (?row (hd idxs)) \<in> set (?row (hd idxs))" by simp
  then have "nat (hd (?row (hd idxs))) \<in> set (ub_seq_id_unq ub)"
    unfolding unq using tk(4) [of "hd idxs"] idxs(1) by (intro bexI [of _ "hd idxs"]) auto
  then have ne: "ub_seq_id_unq ub \<noteq> []" by auto
  then have sid: "ub_seq_id_unq ub ! 0 \<in> set (ub_seq_id_unq ub)" by simp
  then obtain i where i: "i \<in> set idxs" "int (ub_seq_id_unq ub ! 0) \<in> set (?row i)" unfolding unq by blast
  then obtain j where j: "j < length idxs" "idxs ! j = i" by (auto simp: in_set_conv_nth)
  have sl: "ub_seq_id_unq ub ! 0 < length (kv_seq_to_stream kv)" using tk(4) [OF i(1)] i(2) len by force
  have "ub_seqs kv ub = 1" "ub_len kv ub = length idxs" using one n by (simp_all add: ub_seqs_def ub_len_def)
  then show "ubatch_ok kv ub"
    using idxs(1) n ne sl stream0 [OF sl] t seqs j i one by (auto simp: ubatch_ok_def Suc_le_eq)
  show "incoming ub s = {al_pos st ! i |i. i \<in> set idxs \<and> int s \<in> set (?row i)}"
    unfolding incoming_def n by (auto simp: seqs pos in_set_conv_nth) (metis seqs pos(1))+
qed


section \<open>Room\<close>

text \<open>In a cache with one stream and no window.\<close>

definition plain :: "llama_kv_cache \<Rightarrow> bool" where
  "plain kv \<longleftrightarrow> kv_n_stream kv = 1 \<and> kv_swa_type kv = LLAMA_SWA_TYPE_NONE \<and> \<not> prefix_sliding_enabled kv"

definition empty_cells :: "llama_kv_cache \<Rightarrow> nat set" where
  "empty_cells kv = {j. j < cache_size kv \<and> stream kv 0 ! j = None}"

lemma plain_config: "config kv' = config kv \<Longrightarrow> plain kv' = plain kv"
  by (simp add: plain_def config_def prefix_sliding_enabled_def)

lemma plain_quiet: "plain kv \<Longrightarrow> quiet kv"
  by (simp add: plain_def quiet_def)

lemma plain_seqs: "plain kv \<Longrightarrow> ub_seqs kv ub = 1" "plain kv \<Longrightarrow> ub_len kv ub = ub_n_tokens ub"
  by (simp_all add: plain_def ub_seqs_def ub_len_def)

lemma plain_stream: "cache_ok kv \<Longrightarrow> plain kv \<Longrightarrow> s < length (kv_seq_to_stream kv) \<Longrightarrow> kv_seq_to_stream kv ! s = 0"
  using seq_stream(2) [of kv "int s"] by (simp add: seq_ok_def plain_def)

lemma plain_free:
  assumes "cache_ok kv" "plain kv" "ubatch_ok kv ub"
  shows "free_cells kv ub 0 = empty_cells kv"
proof -
  have "ub_stream kv ub 0 = 0" using plain_stream [OF assms(1,2)] assms(3) by (simp add: ubatch_ok_def plain_seqs [OF assms(2)])
  moreover have "usable_cell kv st s lo x \<longleftrightarrow> x = None" for st s lo x
    using assms(2) by (cases x) (auto simp: usable_cell_def plain_def swa_masked_def)
  ultimately show ?thesis using assms(2) by (simp add: free_cells_def empty_cells_def usable_size_def plain_def)
qed

lemma plain_room:
  assumes "cache_ok kv" "plain kv" "ubatch_ok kv ub"
  shows "(\<exists>s<ub_seqs kv ub. no_room kv ub False s) \<longleftrightarrow> card (empty_cells kv) < ub_n_tokens ub"
  using plain_free [OF assms] assms(2) by (simp add: no_room_def no_prefix_def plain_seqs [OF assms(2)]) (simp add: plain_def)

lemma finite_empty [simp]: "finite (empty_cells kv)"
  by (simp add: empty_cells_def)

text \<open>Every token takes one of the empty cells.\<close>

lemma plain_takes:
  assumes P: "placing kv ub cont sl" and plain: "plain kv" and sh: "no_shifts kv" and app: "apply_ubatch sl ub kv = Some k"
  shows "card (empty_cells kv) = card (empty_cells k) + ub_n_tokens ub"
proof -
  note ok = placingD(1) [OF P] and ub = placingD(2) [OF P]
  have z: "0 < ub_seqs kv ub" and len: "ub_len kv ub = ub_n_tokens ub" by (simp_all add: plain_seqs [OF plain])
  have st: "(0::nat) < kv_n_stream kv" using plain by (simp add: plain_def)
  have st0: "ub_stream kv ub 0 = 0" using plain_stream [OF ok plain] ub z by (simp add: ubatch_ok_def)
  let ?T = "set (slot_idxs sl ! 0)"
  have k: "cache_size k = cache_size kv" "stream k 0 = placed kv sl ub 0"
    using apply_no_shifts [OF P sh] app plain_quiet [OF plain] st by auto
  have sub: "?T \<subseteq> empty_cells kv"
    using slot(5) [OF P z] plain_free [OF ok plain ub] by (simp add: found_def)
  have "j \<in> empty_cells k \<longleftrightarrow> j \<in> empty_cells kv - ?T" for j
  proof (cases "j \<in> ?T")
    case True
    then obtain ii where "ii < ub_len kv ub" "j = slot_idxs sl ! 0 ! ii" using chunk_facts(3) [OF P z] by (auto simp: in_set_conv_nth)
    then have "stream k 0 ! j = token_cell ub ii" using placed_token(1) [OF P z] st0 k(2) by simp
    then show ?thesis using True by (simp add: empty_cells_def token_cell_def)
  next
    case False
    then have un: "untouched kv ub sl 0 j" by (simp add: untouched_def plain_seqs [OF plain])
    have "j < cache_size kv \<Longrightarrow> stream k 0 ! j = stream kv 0 ! j" using placed_untouched [OF P st _ un] k(2) by simp
    then show ?thesis using False k(1) by (auto simp: empty_cells_def)
  qed
  then have "empty_cells k = empty_cells kv - ?T" by blast
  then have "card (empty_cells k) = card (empty_cells kv) - card ?T" using card_Diff_subset [of ?T "empty_cells kv"] sub by simp
  moreover have "card ?T = ub_n_tokens ub" using chunk_facts(2,3) [OF P z] len by (simp add: distinct_card)
  ultimately show ?thesis using card_mono [OF finite_empty sub] by simp
qed

lemma plain_fits:
  assumes "fits ubs sls kv kv1" "plain kv" "no_shifts kv"
  shows "card (empty_cells kv) = card (empty_cells kv1) + sum_list (map ub_n_tokens ubs)"
  using assms
proof (induction ubs sls kv kv1 rule: fits.induct)
  case (2 ub ubs sl sls kv kv1)
  then obtain k where k: "placing kv ub False sl" "apply_ubatch sl ub kv = Some k" "fits ubs sls k kv1" by auto
  have c: "config k = config kv" "no_shifts k" using apply_no_shifts [OF k(1) "2.prems"(3)] k(2) by auto
  show ?case using "2.IH" [OF k(3) _ c(2)] plain_takes [OF k(1) "2.prems"(2,3) k(2)] plain_config [OF c(1)] "2.prems"(2) by simp
qed simp_all

lemma plain_stuck:
  assumes ok: "cache_ok kv" "no_shifts kv" and plain: "plain kv" and ubs: "\<forall>ub\<in>set ubs. ubatch_ok kv ub" and st: "stuck ubs kv"
  shows "card (empty_cells kv) < sum_list (map ub_n_tokens ubs)"
proof -
  obtain pre ub post sls k where s: "ubs = pre @ ub # post" "fits pre sls kv k" "\<exists>s<ub_seqs k ub. no_room k ub False s"
    using st unfolding stuck_def by blast
  have k: "cache_ok k" "config k = config kv" using fits_ok [OF s(2) ok] by simp_all
  have "ubatch_ok k ub" using ubs s(1) by (simp add: ubatch_ok_config [OF k(2)])
  then have "card (empty_cells k) < ub_n_tokens ub" using plain_room [OF k(1)] plain plain_config [OF k(2)] s(3) by blast
  then show ?thesis using plain_fits [OF s(2) plain ok(2)] s(1) by simp
qed

lemma plain_prepare:
  assumes ok: "cache_ok kv" "no_shifts kv" and plain: "plain kv" and ubs: "ubs \<noteq> []" "\<forall>ub\<in>set ubs. ubatch_ok kv ub"
  shows "\<exists>sls kv'. prepare ubs kv = Some (sls, kv') \<and> undone kv kv' \<and>
    (if sum_list (map ub_n_tokens ubs) \<le> card (empty_cells kv) then sls \<noteq> [] \<and> (\<exists>kv1. fits ubs sls kv kv1) else sls = [])"
proof -
  obtain sls kv' where p: "prepare ubs kv = Some (sls, kv')" "undone kv kv'" "if sls = [] then stuck ubs kv else \<exists>kv1. fits ubs sls kv kv1"
    using prepare_effect [OF ok ubs] by blast
  show ?thesis
  proof (cases "sls = []")
    case True
    then show ?thesis using p plain_stuck [OF ok plain ubs(2)] by auto
  next
    case False
    then obtain kv1 where f: "fits ubs sls kv kv1" using p(3) by auto
    then show ?thesis using p False plain_fits [OF f plain ok(2)] by auto
  qed
qed

end
