(* ===== verification/Decode.thy ===== *)
theory Decode
  imports KV_Batch
begin

text \<open>
  Decoding a batch (\<open>llama_context::decode\<close> and \<open>llama_context::memory_update\<close> in \<open>src/llama-context.cpp\<close>), as
  far as it reads and writes the KV cache: the checks of the batch, pending updates, the splitting and preparing of the
  batch with one retry, the output buffer's size, the loop over the micro batches and the removal of a micro batch that failed.

  Computing the graph of a micro batch is the parameter \<open>compute\<close>, the status \<open>process_ubatch\<close> leaves (it returns no result
  exactly when the status is not a success); \<open>reserve\<close> is the number of outputs \<open>output_reserve\<close> could make room for. The
  outputs themselves and the graphs are not modelled.
\<close>

section \<open>The program\<close>

definition memory_update :: "(llama_kv_cache \<Rightarrow> kv_layer list option) \<Rightarrow> bool \<Rightarrow> llama_kv_cache \<Rightarrow> (bool \<times> llama_kv_cache) option" where
  "memory_update shift_graph rope kv = do {
     (cx :: unit llama_kv_cache_context, kv) \<leftarrow> init_update kv;
     (case ctx_status cx of
        LLAMA_MEMORY_STATUS_SUCCESS \<Rightarrow> do { (_, kv) \<leftarrow> ctx_apply shift_graph rope cx kv; Some (True, kv) }
      | _ \<Rightarrow> Some (False, kv)) }"

text \<open>\<open>pos_min\<close>: the first position of the micro batch for the first sequence of each token.\<close>

definition first_positions :: "'f llama_ubatch \<Rightarrow> (nat \<Rightarrow> int) option" where
  "first_positions ub = fold_opt (\<lambda>i m. do {
       row \<leftarrow> vec_at (ub_seq_id ub) i; s \<leftarrow> vec_at row 0; p \<leftarrow> vec_at (ub_pos ub) i;
       check (0 \<le> s \<and> s < int LLAMA_MAX_SEQ);
       Some (m(nat s := min (m (nat s)) p)) }) [0..<ub_n_tokens ub] (\<lambda>_. LLAMA_POS_MAX)"

definition remove_ubatch :: "'f llama_ubatch \<Rightarrow> llama_kv_cache \<Rightarrow> llama_kv_cache option" where
  "remove_ubatch ub kv = do {
     pos_min \<leftarrow> first_positions ub;
     fold_opt (\<lambda>s kv. if pos_min s = LLAMA_POS_MAX then Some kv else kv_seq_rm (int s) (pos_min s) (-1) kv) [0..<LLAMA_MAX_SEQ] kv }"

definition ctx_get_ubatch :: "'f llama_kv_cache_context \<Rightarrow> 'f llama_ubatch option" where
  "ctx_get_ubatch cx = do { check (ctx_status cx = LLAMA_MEMORY_STATUS_SUCCESS); vec_at (ctx_ubatches cx) (ctx_i_cur cx) }"

lemma ctx_apply_fields: "ctx_apply shift_graph rope cx kv = Some (cx', kv') \<Longrightarrow> \<exists>n. cx' = cx\<lparr>ctx_n_kv := n\<rparr>"
  by (auto simp: ctx_apply_def bind_check split: if_splits Option.bind_splits prod.splits) (metis llama_kv_cache_context.surjective llama_kv_cache_context.update_convs(7))

lemma ctx_next_fields: "ctx_next cx = Some (again, cx') \<Longrightarrow> cx' = cx\<lparr>ctx_i_cur := ctx_i_cur cx + 1\<rparr> \<and> (again \<longleftrightarrow> ctx_i_cur cx + 1 < length (ctx_ubatches cx))"
  by (auto simp: ctx_next_def bind_check split: if_splits)

datatype ggml_status = GGML_STATUS_ALLOC_FAILED | GGML_STATUS_FAILED | GGML_STATUS_SUCCESS | GGML_STATUS_ABORTED

text \<open>What \<open>decode\<close> returns for the status of a micro batch without a result; a success there aborts the program.\<close>

fun status_code :: "ggml_status \<Rightarrow> int option" where
  "status_code GGML_STATUS_ABORTED = Some 2"
| "status_code GGML_STATUS_ALLOC_FAILED = Some (-2)"
| "status_code GGML_STATUS_FAILED = Some (-3)"
| "status_code GGML_STATUS_SUCCESS = None"

lemma status_code_total: "status \<noteq> GGML_STATUS_SUCCESS \<Longrightarrow> \<exists>code. status_code status = Some code \<and> code \<in> {2, -2, -3}"
  by (cases status) simp_all

function decode_loop ::
    "(llama_kv_cache \<Rightarrow> kv_layer list option) \<Rightarrow> bool \<Rightarrow> ('f llama_ubatch \<Rightarrow> llama_kv_cache \<Rightarrow> ggml_status) \<Rightarrow>
     'f llama_kv_cache_context \<Rightarrow> llama_kv_cache \<Rightarrow> (int \<times> llama_kv_cache) option" where
  "decode_loop shift_graph rope compute cx kv = do {
     ub \<leftarrow> ctx_get_ubatch cx;
     (cx, kv) \<leftarrow> ctx_apply shift_graph rope cx kv;
     let status = compute ub kv;
     if status \<noteq> GGML_STATUS_SUCCESS then do { kv \<leftarrow> remove_ubatch ub kv; code \<leftarrow> status_code status; Some (code, kv) }
     else do {
       (again, cx) \<leftarrow> ctx_next cx;
       if again then decode_loop shift_graph rope compute cx kv else Some (0, kv) } }"
  by pat_completeness auto

termination
  by (relation "measure (\<lambda>(shift_graph, rope, compute, cx, kv). length (ctx_ubatches cx) - ctx_i_cur cx)")
    (auto dest!: ctx_apply_fields ctx_next_fields)

declare decode_loop.simps [simp del]

text \<open>
  From the pending updates on, with an accepted batch. The status of a batch's context is a success or a failed preparation.
\<close>

definition decode_accepted ::
    "(llama_kv_cache \<Rightarrow> kv_layer list option) \<Rightarrow> bool \<Rightarrow> ('f llama_ubatch \<Rightarrow> llama_kv_cache \<Rightarrow> ggml_status) \<Rightarrow> (nat \<Rightarrow> nat) \<Rightarrow>
     nat \<Rightarrow> 'f llama_batch_allocr \<Rightarrow> llama_kv_cache \<Rightarrow> (int \<times> llama_kv_cache) option" where
  "decode_accepted shift_graph rope compute reserve n_ubatch balloc kv = do {
     let n_outputs_all = al_n_outputs balloc;
     (_, kv) \<leftarrow> memory_update shift_graph rope kv;
     (cx, balloc, kv) \<leftarrow> init_batch n_ubatch balloc kv;
     (cx, balloc, kv) \<leftarrow> (if ctx_status cx = LLAMA_MEMORY_STATUS_FAILED_PREPARE
        then do {
          (updated, kv) \<leftarrow> memory_update shift_graph rope kv;
          if updated then init_batch n_ubatch balloc kv else Some (cx, balloc, kv) }
        else Some (cx, balloc, kv));
     (case ctx_status cx of
        LLAMA_MEMORY_STATUS_SUCCESS \<Rightarrow>
          if reserve n_outputs_all < n_outputs_all then Some (-2, kv)
          else decode_loop shift_graph rope compute cx kv
      | LLAMA_MEMORY_STATUS_FAILED_PREPARE \<Rightarrow> Some (1, kv)
      | LLAMA_MEMORY_STATUS_NO_UPDATE \<Rightarrow> Some (-2, kv)
      | LLAMA_MEMORY_STATUS_FAILED_COMPUTE \<Rightarrow> Some (-2, kv)) }"

text \<open>The parameters of a context that \<open>decode\<close> reads.\<close>

record llama_cparams =
  cp_n_batch :: nat
  cp_n_ubatch :: nat
  cp_n_seq_max :: nat
  cp_causal_attn :: bool
  cp_kv_unified :: bool
  cp_embeddings :: bool

text \<open>
  The cache as the memory that the allocator asks. The assertions of the two queries hold for the sequences of a valid
  cache (lemma \<open>kv_memory_positions\<close>); \<open>-1\<close> stands for their failure.
\<close>

definition kv_memory :: "llama_kv_cache \<Rightarrow> memory_view" where
  "kv_memory kv =
     (let known = (\<lambda>q. case q of None \<Rightarrow> -1 | Some p \<Rightarrow> p)
      in \<lparr>mem_seq_pos_min = (\<lambda>s. known (kv_seq_pos_min (int s) kv)), mem_seq_pos_max = (\<lambda>s. known (kv_seq_pos_max (int s) kv))\<rparr>)"

definition decode_n_seq_max :: "llama_cparams \<Rightarrow> nat" where
  "decode_n_seq_max cp = (if cp_kv_unified cp then LLAMA_MAX_SEQ else cp_n_seq_max cp)"

text \<open>An assertion of \<open>init\<close>, or its undefined behaviour, ends the program; its error returns are the code \<open>-1\<close>.\<close>

definition decode ::
    "(llama_kv_cache \<Rightarrow> kv_layer list option) \<Rightarrow> bool \<Rightarrow> ('f llama_ubatch \<Rightarrow> llama_kv_cache \<Rightarrow> ggml_status) \<Rightarrow> (nat \<Rightarrow> nat) \<Rightarrow>
     llama_cparams \<Rightarrow> nat \<Rightarrow> nat \<Rightarrow> 'f llama_batch \<Rightarrow> 'f llama_batch_allocr \<Rightarrow> llama_kv_cache \<Rightarrow> (int \<times> llama_kv_cache) option" where
  "decode shift_graph rope compute reserve cp n_vocab n_embd b balloc kv = do {
     check (b_token b = None \<longleftrightarrow> b_embd b \<noteq> None);
     if b_n_tokens b = 0 then Some (-1, kv)
     else (case al_init b n_vocab (Some (kv_memory kv)) n_embd (decode_n_seq_max cp) (cp_embeddings cp) balloc of
        Inl e \<Rightarrow> (case e of Err_assert \<Rightarrow> None | Err_overflow _ \<Rightarrow> None | _ \<Rightarrow> Some (-1, kv))
      | Inr balloc \<Rightarrow>
          if cp_embeddings cp \<and> al_n_outputs balloc \<noteq> al_n_tokens balloc then Some (-1, kv)
          else do {
            check (al_n_tokens balloc \<le> cp_n_batch cp);
            check (cp_causal_attn cp \<or> al_n_tokens balloc \<le> cp_n_ubatch cp);
            decode_accepted shift_graph rope compute reserve (cp_n_ubatch cp) balloc kv }) }"


section \<open>Updates\<close>

lemma unshifted_id: "no_shift x \<Longrightarrow> unshifted x = x"
  by (cases x) (auto simp: no_shift_def unshifted_def)

lemma has_shift_total: "cache_ok kv \<Longrightarrow> \<exists>b. get_has_shift kv = Some b"
proof -
  assume ok: "cache_ok kv"
  have "\<exists>b. get_has_shift kv = Some b \<and> True"
    unfolding get_has_shift_def
  proof (rule fold_opt_invariant [where P = "\<lambda>_ _. True"])
    fix ys st zs r
    assume split: "[0..<kv_n_stream kv] = ys @ st # zs"
    have "st \<in> set [0..<kv_n_stream kv]" unfolding split by simp
    then show "\<exists>r'. (do { c \<leftarrow> vec_at (kv_cells kv) st; Some (r \<or> kc_has_shift c) }) = Some r' \<and> True"
      using cache_okD(5) [OF ok] by simp
  qed simp
  then show ?thesis by blast
qed

abbreviation copies_taken :: "llama_kv_cache \<Rightarrow> llama_kv_cache" where
  "copies_taken kv \<equiv> kv\<lparr>kv_sc_info := \<lparr>ssrc = [], sdst = []\<rparr>\<rparr>"

lemma copies_taken_ok:
  assumes "cache_ok kv"
  shows "cache_ok (copies_taken kv)" "config (copies_taken kv) = config kv" "cache_size (copies_taken kv) = cache_size kv"
  using assms by (simp_all add: cache_ok_def config_ok_def prefix_ok_def stream_ok_def cache_size_def copies_ok_def)

lemma update_total:
  assumes ok: "cache_ok kv" and can: "get_has_shift kv = Some True \<longrightarrow> get_can_shift kv"
  shows "\<exists>updated kv'. memory_update shift_graph rope kv = Some (updated, kv') \<and>
    (mapped (copies_taken kv) (\<lambda>_ x. x) kv' \<or> mapped (copies_taken kv) (\<lambda>_. unshifted) kv')"
proof -
  obtain b where b: "get_has_shift kv = Some b" using has_shift_total [OF ok] by blast
  let ?sc = "kv_sc_info kv"
  have sc: "copies_ok (kv_n_stream kv) ?sc" by (rule cache_okD(3) [OF ok])
  have none: "sc_empty ?sc = Some (ssrc ?sc = [])" using sc by (simp add: sc_empty_def copies_ok_def)
  show ?thesis
  proof (cases "\<not> b \<and> ssrc ?sc = []")
    case True
    then show ?thesis using b none mapped_refl [OF copies_taken_ok(1) [OF ok]] by (simp add: memory_update_def init_update_def context_of_def)
  next
    case False
    have "copies_ok (kv_n_stream (copies_taken kv)) ?sc" "b \<longrightarrow> get_can_shift (copies_taken kv)"
      using sc can b by (simp_all add: get_can_shift_def prefix_sliding_enabled_def)
    from update_effect [OF copies_taken_ok(1) [OF ok] this, of shift_graph rope] obtain u kv' where
      u: "kv_update shift_graph rope b ?sc (copies_taken kv) = Some (u, kv')"
      "mapped (copies_taken kv) (\<lambda>_ x. x) kv' \<or> mapped (copies_taken kv) (\<lambda>_. unshifted) kv'" by blast
    have "memory_update shift_graph rope kv = Some (True, kv')"
      using b none False u(1) by (auto simp: memory_update_def init_update_def context_of_def ctx_apply_def)
    then show ?thesis using u(2) by blast
  qed
qed

text \<open>An update of a cache with no pending shift leaves its cells alone, whatever its shift flags say.\<close>

lemma update_alike:
  assumes ok: "cache_ok kv" "no_shifts kv" and can: "get_can_shift kv"
  shows "\<exists>updated kv'. memory_update shift_graph rope kv = Some (updated, kv') \<and> alike kv kv' \<and> no_shifts kv'"
proof -
  note kv = copies_taken_ok [OF ok(1)]
  have a: "alike kv kv' \<and> no_shifts kv'" if m: "mapped (copies_taken kv) (\<lambda>_. f) kv'" and f: "\<And>x. no_shift x \<Longrightarrow> f x = x" for f kv'
  proof -
    have "stream kv' st = stream kv st" if st: "st < kv_n_stream kv" for st
      using mappedD(5) [OF m, of st] st ok(2) f by (simp add: no_shifts_def map_idI)
    then show ?thesis using mappedD(1-3) [OF m] kv(2,3) ok(2) config_fields(1) [OF mappedD(2) [OF m]]
      by (simp add: alike_def no_shifts_def)
  qed
  obtain u kv' where u: "memory_update shift_graph rope kv = Some (u, kv')"
    "mapped (copies_taken kv) (\<lambda>_ x. x) kv' \<or> mapped (copies_taken kv) (\<lambda>_. unshifted) kv'"
    using update_total [OF ok(1), of shift_graph rope] can by blast
  have "alike kv kv' \<and> no_shifts kv'" using u(2) a [of "\<lambda>x. x" kv'] a [of unshifted kv'] unshifted_id by blast
  then show ?thesis using u(1) by blast
qed


section \<open>Removing a micro batch\<close>

definition first_pos :: "'f llama_ubatch \<Rightarrow> nat \<Rightarrow> int" where
  "first_pos ub s = Min (insert LLAMA_POS_MAX {ub_pos ub ! i |i. i < ub_n_tokens ub \<and> nat (ub_seq_id ub ! i ! 0) = s})"

text \<open>The tokens of a micro batch that fits the cache, whatever their streams are.\<close>

definition tokens_in :: "llama_kv_cache \<Rightarrow> 'f llama_ubatch \<Rightarrow> bool" where
  "tokens_in kv ub \<longleftrightarrow> (\<forall>i<ub_n_tokens ub. \<exists>st. token_ok (kv_seq_to_stream kv) st ub i)"

lemma ubatch_tokens_in: "ubatch_ok kv ub \<Longrightarrow> tokens_in kv ub"
proof -
  assume ub: "ubatch_ok kv ub"
  show ?thesis unfolding tokens_in_def
  proof (intro allI impI)
    fix i assume i: "i < ub_n_tokens ub"
    have n: "0 < ub_seqs kv ub" using ub by (simp add: ubatch_ok_def)
    note D = ubatch_okD(3,4) [OF ub n]
    have c: "i div ub_len kv ub < ub_seqs kv ub" using i D by (simp add: less_mult_imp_div_less)
    have "i mod ub_len kv ub < ub_len kv ub" using D(1) by simp
    from ubatch_okD(5) [OF ub c this] show "\<exists>st. token_ok (kv_seq_to_stream kv) st ub i" by (auto simp: div_mult_mod_eq)
  qed
qed

lemma first_seq:
  assumes ok: "cache_ok kv" and t: "token_ok (kv_seq_to_stream kv) st ub i"
  shows "i < length (ub_seq_id ub)" "i < length (ub_pos ub)" "ub_seq_id ub ! i \<noteq> []" "seq_ok kv (ub_seq_id ub ! i ! 0)"
    "0 \<le> ub_pos ub ! i" "ub_pos ub ! i < LLAMA_POS_MAX"
proof -
  show "i < length (ub_seq_id ub)" "i < length (ub_pos ub)" "0 \<le> ub_pos ub ! i" "ub_pos ub ! i < LLAMA_POS_MAX" using t by (simp_all add: token_ok_def)
  have n: "0 < nat (ub_n_seq_id ub ! i)" "nat (ub_n_seq_id ub ! i) \<le> length (ub_seq_id ub ! i)" using t by (simp_all add: token_ok_def)
  then show ne: "ub_seq_id ub ! i \<noteq> []" by auto
  have "ub_seq_id ub ! i ! 0 \<in> set (token_seqs ub i)"
    using n by (auto simp: row_of_def in_set_conv_nth intro!: exI [of _ 0])
  then show "seq_ok kv (ub_seq_id ub ! i ! 0)" using t by (simp add: token_ok_def seq_ok_def)
qed

lemma first_positions_eq:
  assumes ok: "cache_ok kv" and t: "tokens_in kv ub"
  shows "first_positions ub = Some (first_pos ub)"
proof -
  let ?set = "\<lambda>is s. {ub_pos ub ! i |i. i \<in> set is \<and> nat (ub_seq_id ub ! i ! 0) = s}"
  let ?body = "\<lambda>i m. do {
       row \<leftarrow> vec_at (ub_seq_id ub) i; s \<leftarrow> vec_at row 0; p \<leftarrow> vec_at (ub_pos ub) i;
       check (0 \<le> s \<and> s < int LLAMA_MAX_SEQ); Some (m(nat s := min (m (nat s)) p)) }"
  let ?P = "\<lambda>is m. \<forall>s. m s = Min (insert LLAMA_POS_MAX (?set is s))"
  have "\<exists>m. fold_opt ?body [0..<ub_n_tokens ub] (\<lambda>_. LLAMA_POS_MAX) = Some m \<and> ?P [0..<ub_n_tokens ub] m"
  proof (rule fold_opt_invariant [where P = ?P])
    fix ys i zs m
    assume split: "[0..<ub_n_tokens ub] = ys @ i # zs" and P: "?P ys m"
    have "i \<in> set [0..<ub_n_tokens ub]" unfolding split by simp
    then obtain st where "token_ok (kv_seq_to_stream kv) st ub i" using t by (auto simp: tokens_in_def)
    note f = first_seq [OF ok this]
    let ?s = "ub_seq_id ub ! i ! 0"
    have run: "?body i m = Some (m(nat ?s := min (m (nat ?s)) (ub_pos ub ! i)))"
      using f(1-3) seq_stream(3) [OF ok f(4)] by (simp add: seq_id_ok_def del: length_greater_0_conv) (simp add: length_greater_0_conv)
    have "(m(nat ?s := min (m (nat ?s)) (ub_pos ub ! i))) s = Min (insert LLAMA_POS_MAX (?set (ys @ [i]) s))" for s
    proof (cases "s = nat ?s")
      case True
      then have "insert LLAMA_POS_MAX (?set (ys @ [i]) s) = insert (ub_pos ub ! i) (insert LLAMA_POS_MAX (?set ys s))" by auto
      moreover have "finite (?set ys s)" by simp
      ultimately show ?thesis using P True by (simp add: min.commute)
    next
      case False
      then have "?set (ys @ [i]) s = ?set ys s" by auto
      then show ?thesis using P False by simp
    qed
    then show "\<exists>m'. ?body i m = Some m' \<and> ?P (ys @ [i]) m'" using run by blast
  qed simp
  then obtain m where m: "first_positions ub = Some m" "?P [0..<ub_n_tokens ub] m" unfolding first_positions_def by blast
  have "m = first_pos ub" using m(2) by (simp add: fun_eq_iff first_pos_def)
  then show ?thesis using m(1) by simp
qed

lemma first_pos_facts:
  assumes ok: "cache_ok kv" and t: "tokens_in kv ub"
  shows "0 \<le> first_pos ub s \<and> (first_pos ub s \<noteq> LLAMA_POS_MAX \<longrightarrow> seq_ok kv (int s))"
proof -
  let ?A = "{ub_pos ub ! i |i. i < ub_n_tokens ub \<and> nat (ub_seq_id ub ! i ! 0) = s}"
  have "first_pos ub s \<in> insert LLAMA_POS_MAX ?A" unfolding first_pos_def by (rule Min_in) simp_all
  then consider "first_pos ub s = LLAMA_POS_MAX" | i where "i < ub_n_tokens ub" "nat (ub_seq_id ub ! i ! 0) = s" "first_pos ub s = ub_pos ub ! i" by blast
  then show ?thesis
  proof cases
    case 2
    then obtain st where "token_ok (kv_seq_to_stream kv) st ub i" using t by (auto simp: tokens_in_def)
    note f = first_seq [OF ok this]
    show ?thesis using 2 f(4,5) by (auto simp: seq_ok_def)
  qed (simp_all add: LLAMA_POS_MAX_def)
qed

lemma drop_positions:
  "seq_positions (map (on_range (int s) p0 p1 (drop_seq s)) cs) t = {p \<in> seq_positions cs t. \<not> (t = s \<and> p0 \<le> p \<and> p < p1)}"
proof -
  have cell: "on_range (int s) p0 p1 (drop_seq s) x = Some (p, S', sh) \<and> t \<in> S' \<longleftrightarrow>
      (\<exists>S. x = Some (p, S, sh) \<and> t \<in> S \<and> \<not> (t = s \<and> p0 \<le> p \<and> p < p1) \<and> S' = (if s \<in> S \<and> p0 \<le> p \<and> p < p1 then S - {s} else S))" for x p S' sh
  proof (cases x)
    case (Some a)
    then obtain q S h where "x = Some (q, S, h)" by (cases a) auto
    then show ?thesis by (cases "s \<in> S \<and> p0 \<le> q \<and> q < p1") (auto simp: on_range_def in_range_def drop_seq_def)
  qed (simp add: on_range_def in_range_def)
  have "p \<in> seq_positions (map (on_range (int s) p0 p1 (drop_seq s)) cs) t \<longleftrightarrow> p \<in> seq_positions cs t \<and> \<not> (t = s \<and> p0 \<le> p \<and> p < p1)" for p
  proof
    assume "p \<in> seq_positions (map (on_range (int s) p0 p1 (drop_seq s)) cs) t"
    then obtain i S' sh where i: "i < length cs" "on_range (int s) p0 p1 (drop_seq s) (cs ! i) = Some (p, S', sh) \<and> t \<in> S'"
      by (auto simp: seq_positions_def)
    show "p \<in> seq_positions cs t \<and> \<not> (t = s \<and> p0 \<le> p \<and> p < p1)"
      using i(1) i(2) [unfolded cell] unfolding seq_positions_def by blast
  next
    assume p: "p \<in> seq_positions cs t \<and> \<not> (t = s \<and> p0 \<le> p \<and> p < p1)"
    then obtain i S sh where i: "i < length cs" "cs ! i = Some (p, S, sh)" "t \<in> S" by (auto simp: seq_positions_def)
    then have "on_range (int s) p0 p1 (drop_seq s) (cs ! i) = Some (p, if s \<in> S \<and> p0 \<le> p \<and> p < p1 then S - {s} else S, sh) \<and>
        t \<in> (if s \<in> S \<and> p0 \<le> p \<and> p < p1 then S - {s} else S)" unfolding cell using p by blast
    then show "p \<in> seq_positions (map (on_range (int s) p0 p1 (drop_seq s)) cs) t" using i(1) by (auto simp: seq_positions_def)
  qed
  then show ?thesis by blast
qed

lemma rm_positions:
  assumes ok: "cache_ok kv" and s: "seq_ok kv (int s)" and p0: "0 \<le> p0"
  shows "\<exists>kv'. kv_seq_rm (int s) p0 (-1) kv = Some kv' \<and> cache_ok kv' \<and> config kv' = config kv \<and>
    (\<forall>t<length (kv_seq_to_stream kv). positions kv' t = {p \<in> positions kv t. t = s \<longrightarrow> p < p0})"
proof -
  have bounds: "pos_first p0 = p0" "pos_last (-1) = LLAMA_POS_MAX" using p0 by (simp_all add: pos_first_def pos_last_def)
  obtain kv' where kv': "kv_seq_rm (int s) p0 (-1) kv = Some kv'"
    "mapped kv (\<lambda>t. if t = kv_seq_to_stream kv ! s then on_range (int s) p0 LLAMA_POS_MAX (drop_seq s) else id) kv'"
    using seq_rm_effect [OF ok s, of p0 "-1"] unfolding bounds nat_int by blast
  have "positions kv' t = {p \<in> positions kv t. t = s \<longrightarrow> p < p0}" if t: "t < length (kv_seq_to_stream kv)" for t
  proof -
    let ?st = "kv_seq_to_stream kv ! t"
    have st: "?st < kv_n_stream kv" using seq_stream(2) [OF ok, of "int t"] t by (simp add: seq_ok_def)
    have less: "p < LLAMA_POS_MAX" if "p \<in> positions kv t" for p using seq_positions_own(2) [OF ok st] that by (simp add: positions_def)
    have eq: "stream kv' ?st = map (if ?st = kv_seq_to_stream kv ! s then on_range (int s) p0 LLAMA_POS_MAX (drop_seq s) else id) (stream kv ?st)"
      "kv_seq_to_stream kv' = kv_seq_to_stream kv" using mappedD(5) [OF kv'(2) st] config_fields(2) [OF mappedD(2) [OF kv'(2)]] by simp_all
    show ?thesis
    proof (cases "?st = kv_seq_to_stream kv ! s")
      case True
      then show ?thesis using eq less by (auto simp: positions_def drop_positions not_le)
    next
      case False
      then show ?thesis using eq by (auto simp: positions_def)
    qed
  qed
  then show ?thesis using kv' mappedD(1,2) [OF kv'(2)] by blast
qed

lemma remove_effect:
  assumes ok: "cache_ok kv" and t: "tokens_in kv ub"
  shows "\<exists>kv'. remove_ubatch ub kv = Some kv' \<and> cache_ok kv' \<and> config kv' = config kv \<and>
    (\<forall>s<length (kv_seq_to_stream kv). positions kv' s = {p \<in> positions kv s. p < first_pos ub s})"
proof -
  let ?m = "first_pos ub"
  let ?body = "\<lambda>s kv. if ?m s = LLAMA_POS_MAX then Some kv else kv_seq_rm (int s) (?m s) (-1) kv"
  let ?P = "\<lambda>ss k. cache_ok k \<and> config k = config kv \<and>
    (\<forall>t<length (kv_seq_to_stream kv). positions k t = {p \<in> positions kv t. t \<in> set ss \<longrightarrow> p < ?m t})"
  have less: "p < LLAMA_POS_MAX" if "p \<in> positions k t" "t < length (kv_seq_to_stream kv)" "cache_ok k" "config k = config kv" for p t k
    using that seq_positions_own(2) [of k "kv_seq_to_stream k ! t" p t] seq_stream(2) [of k "int t"] config_fields(2) [OF that(4)]
    by (simp add: positions_def seq_ok_def)
  have "\<exists>k. fold_opt ?body [0..<LLAMA_MAX_SEQ] kv = Some k \<and> ?P [0..<LLAMA_MAX_SEQ] k"
  proof (rule fold_opt_invariant [where P = ?P])
    fix ys s zs k
    assume P: "?P ys k"
    note conf = config_fields(2) [of k kv]
    show "\<exists>k'. ?body s k = Some k' \<and> ?P (ys @ [s]) k'"
    proof (cases "?m s = LLAMA_POS_MAX")
      case True
      have "positions k u = {p \<in> positions kv u. u \<in> set (ys @ [s]) \<longrightarrow> p < ?m u}" if u: "u < length (kv_seq_to_stream kv)" for u
        using P u less [OF _ u, of _ k] True by (cases "u = s") auto
      then show ?thesis using True P by simp
    next
      case False
      have s: "seq_ok k (int s)" using first_pos_facts [OF ok t, of s] False conf P by (simp add: seq_ok_def)
      obtain k' where k': "kv_seq_rm (int s) (?m s) (-1) k = Some k'" "cache_ok k'" "config k' = config k"
        "\<forall>u<length (kv_seq_to_stream k). positions k' u = {p \<in> positions k u. u = s \<longrightarrow> p < ?m s}"
        using rm_positions [OF conjunct1 [OF P] s conjunct1 [OF first_pos_facts [OF ok t, of s]]] by blast
      have "?P (ys @ [s]) k'" using k' P conf by auto
      then show ?thesis using False k'(1) by auto
    qed
  qed (use ok in simp)
  then obtain k where k: "fold_opt ?body [0..<LLAMA_MAX_SEQ] kv = Some k" "?P [0..<LLAMA_MAX_SEQ] k" by blast
  have "length (kv_seq_to_stream kv) \<le> LLAMA_MAX_SEQ" using cache_okD(1) [OF ok] by (simp add: config_ok_def)
  then have "\<forall>t<length (kv_seq_to_stream kv). positions k t = {p \<in> positions kv t. p < ?m t}" using k(2) by auto
  then show ?thesis using k first_positions_eq [OF ok t] by (simp add: remove_ubatch_def)
qed


section \<open>The loop over the micro batches\<close>

text \<open>What the sequences hold when the loop ends with \<open>code\<close>.\<close>

definition loop_result :: "int \<Rightarrow> 'f llama_ubatch list \<Rightarrow> llama_kv_cache \<Rightarrow> llama_kv_cache \<Rightarrow> bool" where
  "loop_result code ubs kv kv2 \<longleftrightarrow> cache_ok kv2 \<and> config kv2 = config kv \<and>
     (if code = 0 then \<forall>s<length (kv_seq_to_stream kv). positions kv2 s = positions kv s \<union> (\<Union>ub\<in>set ubs. incoming ub s)
      else \<exists>before ub post. ubs = before @ ub # post \<and> (\<forall>s<length (kv_seq_to_stream kv).
        positions kv2 s = {p \<in> positions kv s \<union> (\<Union>ub\<in>set (before @ [ub]). incoming ub s). p < first_pos ub s}))"

lemma loop_failed:
  assumes "code \<noteq> 0" "cache_ok kv2" "config kv2 = config kv" "ubs = before @ ub # post"
    "\<And>s. s < length (kv_seq_to_stream kv) \<Longrightarrow> positions kv2 s = {p \<in> positions kv s \<union> (\<Union>ub\<in>set (before @ [ub]). incoming ub s). p < first_pos ub s}"
  shows "loop_result code ubs kv kv2"
proof -
  have "\<exists>before ub post. ubs = before @ ub # post \<and> (\<forall>s<length (kv_seq_to_stream kv).
        positions kv2 s = {p \<in> positions kv s \<union> (\<Union>ub\<in>set (before @ [ub]). incoming ub s). p < first_pos ub s})"
    by (intro exI [of _ before] exI [of _ ub] exI [of _ post]) (use assms(4,5) in simp)
  then show ?thesis unfolding loop_result_def using assms(1-3) by presburger
qed

lemma loop_result_step:
  assumes "config k = config kv" "\<And>s. s < length (kv_seq_to_stream kv) \<Longrightarrow> positions k s = positions kv s \<union> incoming ub s" "loop_result code ubs k kv2"
  shows "loop_result code (ub # ubs) kv kv2"
proof (cases "code = 0")
  case True
  then show ?thesis using assms config_fields(2) [OF assms(1)] by (auto simp: loop_result_def)
next
  case False
  then obtain before u post where r: "ubs = before @ u # post" "\<forall>s<length (kv_seq_to_stream kv).
      positions kv2 s = {p \<in> positions k s \<union> (\<Union>ub\<in>set (before @ [u]). incoming ub s). p < first_pos u s}"
    using assms(3) config_fields(2) [OF assms(1)] unfolding loop_result_def by auto
  show ?thesis
  proof (rule loop_failed [OF False])
    show "ub # ubs = (ub # before) @ u # post" using r(1) by simp
    show "positions kv2 s = {p \<in> positions kv s \<union> (\<Union>ub\<in>set ((ub # before) @ [u]). incoming ub s). p < first_pos u s}"
      if "s < length (kv_seq_to_stream kv)" for s using r(2) assms(2) that by auto
  qed (use assms(1,3) in \<open>simp_all add: loop_result_def\<close>)
qed

lemma decode_loop_run:
  assumes "ctx_status cx = LLAMA_MEMORY_STATUS_SUCCESS" "ctx_ubatches cx = pre @ ubs" "ctx_sinfos cx = pre' @ sls"
    "ctx_i_cur cx = length pre" "length pre' = length pre" "ubs \<noteq> []" "fits ubs sls kv kv1" "alike kv kv'" "cache_ok kv" "no_shifts kv"
    "plain kv" "0 < kv_n_pad kv"
  shows "\<exists>code kv2. decode_loop shift_graph rope compute cx kv' = Some (code, kv2) \<and> loop_result code ubs kv kv2 \<and>
    ((\<forall>ub k. compute ub k = GGML_STATUS_SUCCESS) \<longrightarrow> code = 0) \<and> code \<in> {0, 2, -2, -3}"
  using assms
proof (induction ubs arbitrary: cx pre pre' sls kv kv')
  case (Cons ub ubs)
  note prems = Cons.prems
  obtain sl sls' k where k: "sls = sl # sls'" "placing kv ub False sl" "apply_ubatch sl ub kv = Some k" "fits ubs sls' k kv1"
    using prems(7) by (cases sls) auto
  obtain k' where k': "apply_ubatch sl ub kv' = Some k'" "alike k k'"
    using alike_apply [OF prems(8,9) slot(1) [OF k(2)] k(3)] by blast
  have K: "cache_ok k" "config k = config kv" "no_shifts k" using apply_no_shifts [OF k(2) prems(10)] k(3) by auto
  note conf = config_fields [OF K(2)]
  have K': "cache_ok k'" "config k' = config k" using k'(2) by (simp_all add: alike_def)
  note conf' = config_fields [OF K'(2)]
  have pos: "positions k s = positions kv s \<union> incoming ub s" if "s < length (kv_seq_to_stream kv)" for s
    using positions_grow [OF k(2) prems(10) plain_quiet [OF prems(11)] _ k(3) that] prems(11) by (simp add: plain_def)
  obtain n where n: "get_n_kv sl k' = Some n"
    using get_n_kv_covers [OF K'(1), of sl] slot(1) [OF k(2)] conf(1,6) conf'(1,6) prems(12) by (auto simp: slot_ok_def)
  have get: "ctx_get_ubatch cx = Some ub" using prems(1,2,4) by (simp add: ctx_get_ubatch_def)
  have app: "ctx_apply shift_graph rope cx kv' = Some (cx\<lparr>ctx_n_kv := n\<rparr>, k')"
    using prems(1-5) k(1) k'(1) n by (simp add: ctx_apply_def nth_append)
  show ?case
  proof (cases "compute ub k' = GGML_STATUS_SUCCESS")
    case False
    have t: "tokens_in k' ub" using ubatch_tokens_in placingD(2) [OF k(2)] conf'(2) conf(2) by (fastforce simp: tokens_in_def)
    obtain kv2 where kv2: "remove_ubatch ub k' = Some kv2" "cache_ok kv2" "config kv2 = config k'"
      "\<forall>s<length (kv_seq_to_stream k'). positions kv2 s = {p \<in> positions k' s. p < first_pos ub s}"
      using remove_effect [OF K'(1) t] by blast
    have pos': "positions k' s = positions kv s \<union> incoming ub s" if "s < length (kv_seq_to_stream kv)" for s
      using pos [OF that] alike_positions [OF k'(2) _ K(1)] that conf(2) by simp
    obtain code where code: "status_code (compute ub k') = Some code" "code \<in> {2, -2, -3}" using status_code_total [OF False] by blast
    have "loop_result code (ub # ubs) kv kv2"
      by (intro loop_failed [where before = "[]" and ub = ub and post = ubs])
        (use code(2) kv2(2-4) K'(2) K(2) conf'(2) conf(2) pos' in auto)
    moreover have "decode_loop shift_graph rope compute cx kv' = Some (code, kv2)"
      using get app False kv2(1) code(1) by (simp add: decode_loop.simps [of _ _ _ cx] Let_def)
    ultimately show ?thesis using False code(2) by blast
  next
    case True
    let ?cx = "cx\<lparr>ctx_n_kv := n, ctx_i_cur := ctx_i_cur cx + 1\<rparr>"
    have nxt: "ctx_next (cx\<lparr>ctx_n_kv := n\<rparr>) = Some (ubs \<noteq> [], ?cx)"
      using prems(1,2,4) by (cases ubs) (simp_all add: ctx_next_def)
    have run: "decode_loop shift_graph rope compute cx kv' =
        (if ubs \<noteq> [] then decode_loop shift_graph rope compute ?cx k' else Some (0, k'))"
      using get app True nxt by (simp add: decode_loop.simps [of _ _ _ cx])
    show ?thesis
    proof (cases "ubs = []")
      case True
      have "positions k' s = positions kv s \<union> incoming ub s" if "s < length (kv_seq_to_stream kv)" for s
        using pos [OF that] alike_positions [OF k'(2) _ K(1)] that conf(2) by simp
      then show ?thesis using run True K K' by (simp add: loop_result_def)
    next
      case False
      have "\<exists>code kv2. decode_loop shift_graph rope compute ?cx k' = Some (code, kv2) \<and> loop_result code ubs k kv2 \<and>
          ((\<forall>ub k. compute ub k = GGML_STATUS_SUCCESS) \<longrightarrow> code = 0) \<and> code \<in> {0, 2, -2, -3}"
        by (rule Cons.IH [where pre = "pre @ [ub]" and pre' = "pre' @ [sl]", OF _ _ _ _ _ False k(4) k'(2) K(1,3)])
          (use prems k(1) plain_config [OF K(2)] conf(6) in simp_all)
      then obtain code kv2 where r: "decode_loop shift_graph rope compute ?cx k' = Some (code, kv2)" "loop_result code ubs k kv2"
        "(\<forall>ub k. compute ub k = GGML_STATUS_SUCCESS) \<longrightarrow> code = 0" "code \<in> {0, 2, -2, -3}" by blast
      show ?thesis using run False r(1,3,4) loop_result_step [OF K(2) pos r(2)] by auto
    qed
  qed
qed simp


section \<open>Splitting and preparing\<close>

text \<open>An accepted batch, as \<open>init\<close> leaves it in the allocator.\<close>

lemma accepted_fields:
  assumes acc: "al_init b n_vocab memory n_embd n_seq_max output_all old = Inr st"
    and fill: "fill_batch memory output_all b = (ns, ids, pos, logits)"
  shows "al_pos st = pos" "al_n_seq_id st = ns" "al_seq_id st = ids" "al_n_seq_max st = n_seq_max" "al_n_pos_per_embd st = al_n_pos_per_embd old"
    "split_reset st = st" "0 < b_n_tokens b"
proof -
  let ?st = "init_state b memory n_embd n_seq_max output_all old"
  note facts = init_state_facts [OF fill, where n_embd = n_embd and n_seq_max = n_seq_max and old = old]
  have st: "st = split_reset ?st" and n: "0 < b_n_tokens b"
    using acc by (auto simp: al_init_eq Let_def split: option.splits if_splits sum.splits)
  show "al_pos st = pos" "al_n_seq_id st = ns" "al_seq_id st = ids" "al_n_seq_max st = n_seq_max" "split_reset st = st"
    by (simp_all add: st split_reset_def facts)
  show "al_n_pos_per_embd st = al_n_pos_per_embd old"
    by (simp add: st split_reset_def init_state_def compute_stats_def al_clear_def fill Let_def split: prod.splits)
qed (use acc in \<open>auto simp: al_init_eq Let_def split: option.splits if_splits\<close>)

lemma reset_base: "al_base st' = al_base st \<Longrightarrow> split_reset st' = split_reset st"
proof -
  assume b: "al_base st' = al_base st"
  have "split_reset x = (al_base x)\<lparr>al_used := replicate (al_n_tokens (al_base x)) False\<rparr>" for x :: "'a llama_batch_allocr"
    by (simp add: split_reset_def al_base_def)
  then show ?thesis using b by simp
qed

text \<open>What the micro batches of an accepted batch hold.\<close>

definition micro_batches :: "nat \<Rightarrow> 'f llama_batch_allocr \<Rightarrow> 'f llama_ubatch list \<Rightarrow> bool" where
  "micro_batches n_ubatch st us \<longleftrightarrow> (\<exists>st'. split_all (split_simple n_ubatch) st = Some (us, st') \<and> al_n_used st' = al_n_tokens st \<and>
     split_reset st' = st)"

lemma micro_batches_data: "list_all2 (simple_holds n_ubatch b) idxss us \<Longrightarrow> us = map (\<lambda>idxs. ubatch_data b idxs (length idxs) False) idxss"
  by (induction rule: list_all2_induct) (simp_all add: simple_holds_def)

lemma micro_batches_tokens: "sum_list (map ub_n_tokens (map (\<lambda>idxs. ubatch_data b idxs (length idxs) False) idxss)) = length (concat idxss)"
  by (induction idxss) (simp_all add: ubatch_data_def Let_def split: prod.splits)

lemma micro_batches_ok:
  assumes acc: "al_init b n_vocab memory n_embd n_seq_max output_all old = Inr st"
    and fill: "fill_batch memory output_all b = (ns, ids, pos, logits)" and tok: "tokens_ok n_seq_max (b_n_tokens b) ns ids pos"
    and emb: "0 < al_n_pos_per_embd old" and ok: "cache_ok kv" and plain: "plain kv" and len: "n_seq_max \<le> length (kv_seq_to_stream kv)"
  shows "\<exists>us. micro_batches n_ubatch st us \<and> us \<noteq> [] \<and> (\<forall>u\<in>set us. ubatch_ok kv u) \<and> sum_list (map ub_n_tokens us) = b_n_tokens b \<and>
    (\<forall>s. (\<Union>u\<in>set us. incoming u s) = batch_positions ns ids pos (b_n_tokens b) s)"
proof -
  note st = accepted_state [OF acc fill] and f = accepted_fields [OF acc fill]
  from simple.split_all_complete [OF st(4), of n_ubatch] obtain us st' idxss where r:
    "split_all (split_simple n_ubatch) st = Some (us, st')" "simple_ok st'" "al_left st' = {}" "al_base st' = al_base st"
    "list_all2 (simple_holds n_ubatch (al_base st)) idxss us" "distinct (concat idxss)" "set (concat idxss) = al_left st" "[] \<notin> set idxss" by blast
  have "micro_batches n_ubatch st us"
    unfolding micro_batches_def using r(1-4) all_used [of st' st] reset_base [OF r(4)] f(6) by (auto simp: simple_ok_def)
  note main = this
  note d = micro_batches_data [OF r(5)]
  have cover: "(\<Union>idxs\<in>set idxss. set idxs) = {..<b_n_tokens b}" using r(7) st(2) by simp
  have total: "length (concat idxss) = b_n_tokens b" using distinct_card [OF r(6)] r(7) st(2) by simp
  let ?u = "\<lambda>idxs. ubatch_data (al_base st) idxs (length idxs) False"
  have u: "ubatch_ok kv (?u idxs)" "incoming (?u idxs) s = {pos ! i |i. i \<in> set idxs \<and> int s \<in> set (row_of ns ids i)}"
    if "idxs \<in> set idxss" for s idxs
  proof -
    have i: "idxs \<noteq> []" "set idxs \<subseteq> {..<b_n_tokens b}" using that r(8) cover by auto
    have "al_n_seq_max st \<le> length (kv_seq_to_stream kv)" "tokens_ok (al_n_seq_max st) (b_n_tokens b) (al_n_seq_id st) (al_seq_id st) (al_pos st)"
      "al_embd st \<noteq> None \<longrightarrow> 0 < al_n_pos_per_embd st" "kv_n_stream kv = 1" using len tok emb f plain by (simp_all add: plain_def)
    from ubatch_data_ok [OF ok this(4,1-3) i, of "length idxs" False]
    show "ubatch_ok kv (?u idxs)" "incoming (?u idxs) s = {pos ! i |i. i \<in> set idxs \<and> int s \<in> set (row_of ns ids i)}"
      using f(1-3) by (simp_all add: ubatch_data_base)
  qed
  have "us \<noteq> []" using f(7) r(5) total by auto
  moreover have "\<forall>v\<in>set us. ubatch_ok kv v" unfolding d using u(1) by auto
  moreover have "sum_list (map ub_n_tokens us) = b_n_tokens b" unfolding d micro_batches_tokens by (rule total)
  moreover
  have "(\<Union>u\<in>set us. incoming u s) = batch_positions ns ids pos (b_n_tokens b) s" for s
  proof -
    have "(\<Union>u\<in>set us. incoming u s) = (\<Union>idxs\<in>set idxss. {pos ! i |i. i \<in> set idxs \<and> int s \<in> set (row_of ns ids i)})"
      unfolding d using u(2) by simp
    also have "\<dots> = {pos ! i |i. i < b_n_tokens b \<and> int s \<in> set (row_of ns ids i)}"
    proof -
      have "i < b_n_tokens b \<longleftrightarrow> (\<exists>idxs\<in>set idxss. i \<in> set idxs)" for i using cover by (metis UN_iff lessThan_iff)
      then show ?thesis by blast
    qed
    also have "\<dots> = batch_positions ns ids pos (b_n_tokens b) s"
    proof -
      have "int s \<in> set (row_of ns ids i) \<longleftrightarrow> (\<exists>k<nat (ns ! i). nat (ids ! i ! k) = s)" if i: "i < b_n_tokens b" for i
      proof -
        have t: "nat (ns ! i) \<le> length (ids ! i)" "\<forall>s\<in>set (row_of ns ids i). 0 \<le> s" using tok i by (auto simp: tokens_ok_def)
        have row: "set (row_of ns ids i) = (\<lambda>k. ids ! i ! k) ` {..<nat (ns ! i)}"
          using nth_image [OF t(1)] by (simp add: row_of_def atLeast0LessThan)
        have "nat (ids ! i ! k) = s \<longleftrightarrow> ids ! i ! k = int s" if "k < nat (ns ! i)" for k
          using t(2) that unfolding row by auto
        then show ?thesis unfolding row by (auto simp: image_iff eq_commute)
      qed
      then show ?thesis unfolding batch_positions_def by blast
    qed
    finally show ?thesis .
  qed
  ultimately show ?thesis using main by blast
qed

lemma init_batch_plain:
  assumes ok: "cache_ok kv" "no_shifts kv" and plain: "plain kv" and reset: "split_reset balloc = st"
    and us: "micro_batches n_ubatch st us" "us \<noteq> []" "\<forall>u\<in>set us. ubatch_ok kv u"
  shows "\<exists>cx st' kv'. init_batch n_ubatch balloc kv = Some (cx, st', kv') \<and> split_reset st' = st \<and> undone kv kv' \<and>
    (if sum_list (map ub_n_tokens us) \<le> card (empty_cells kv)
     then ctx_status cx = LLAMA_MEMORY_STATUS_SUCCESS \<and> ctx_ubatches cx = us \<and> ctx_i_cur cx = 0 \<and> (\<exists>kv1. fits us (ctx_sinfos cx) kv kv1)
     else ctx_status cx = LLAMA_MEMORY_STATUS_FAILED_PREPARE)"
proof -
  obtain st' where st': "split_all (split_simple n_ubatch) st = Some (us, st')" "al_n_used st' = al_n_tokens st" "split_reset st' = st"
    using us(1) by (auto simp: micro_batches_def)
  have n: "al_n_tokens st' = al_n_tokens st" using st'(3) by (auto simp: split_reset_def)
  obtain sls kv' where p: "prepare us kv = Some (sls, kv')" "undone kv kv'"
    "if sum_list (map ub_n_tokens us) \<le> card (empty_cells kv) then sls \<noteq> [] \<and> (\<exists>kv1. fits us sls kv kv1) else sls = []"
    using plain_prepare [OF ok plain us(2,3)] by blast
  let ?cx = "if sls = [] then context_of LLAMA_MEMORY_STATUS_FAILED_PREPARE
     else (context_of LLAMA_MEMORY_STATUS_SUCCESS)\<lparr>ctx_sinfos := sls, ctx_ubatches := us\<rparr>"
  have "init_batch n_ubatch balloc kv = Some (?cx, st', kv')"
    using plain st'(1,2) n p(1) unfolding init_batch_def reset by (simp add: plain_def)
  then show ?thesis using st'(3) p(2,3) by (auto simp: context_of_def)
qed


section \<open>The cache as the memory of the allocator\<close>

lemma kv_memory_positions:
  assumes ok: "cache_ok kv" and s: "s < length (kv_seq_to_stream kv)"
  shows "kv_seq_pos_min (int s) kv = Some (if positions kv s = {} then -1 else Min (positions kv s))"
    and "kv_seq_pos_max (int s) kv = Some (if positions kv s = {} then -1 else Max (positions kv s))"
    and "mem_seq_pos_min (kv_memory kv) s = (if positions kv s = {} then -1 else Min (positions kv s))"
    and "mem_seq_pos_max (kv_memory kv) s = (if positions kv s = {} then -1 else Max (positions kv s))"
proof -
  have "seq_ok kv (int s)" using s by (simp add: seq_ok_def)
  note st = seq_stream [OF ok this]
  have c: "kv_ok (kv_cells kv ! (kv_seq_to_stream kv ! s))" "kv_seq_to_stream kv ! s < length (kv_cells kv)"
    using stream_okD(1) [OF ok st(2)] st(2) cache_okD(5) [OF ok] by simp_all
  note q = seq_pos_queries [OF c(1), of "int s"]
  show q': "kv_seq_pos_min (int s) kv = Some (if positions kv s = {} then -1 else Min (positions kv s))"
    "kv_seq_pos_max (int s) kv = Some (if positions kv s = {} then -1 else Max (positions kv s))"
    using st(1,3) c(2) unfolding kv_seq_pos_min_def kv_seq_pos_max_def positions_def
    by (simp_all add: q bind_check Let_def)
  show "mem_seq_pos_min (kv_memory kv) s = (if positions kv s = {} then -1 else Min (positions kv s))"
    "mem_seq_pos_max (kv_memory kv) s = (if positions kv s = {} then -1 else Max (positions kv s))"
    by (simp_all add: kv_memory_def Let_def q')
qed


section \<open>Decoding\<close>

lemma alike_trans: "alike kv k \<Longrightarrow> alike k k' \<Longrightarrow> alike kv k'"
  using config_fields(1) [of k kv] by (simp add: alike_def)

lemma alike_empty: "alike kv k \<Longrightarrow> plain kv \<Longrightarrow> empty_cells k = empty_cells kv"
  by (simp add: alike_def empty_cells_def plain_def)

lemma alike_ubatches: "alike kv k \<Longrightarrow> \<forall>u\<in>set us. ubatch_ok kv u \<Longrightarrow> \<forall>u\<in>set us. ubatch_ok k u"
  by (simp add: alike_def ubatch_ok_config [of k kv])

lemma loop_result_alike:
  assumes a: "alike kv k" and ok: "cache_ok kv" and r: "loop_result code us k kv2"
  shows "loop_result code us kv kv2"
proof -
  have c: "config k = config kv" using a by (simp add: alike_def)
  have pos: "positions k s = positions kv s" if "s < length (kv_seq_to_stream kv)" for s using alike_positions [OF a that ok] .
  show ?thesis
  proof (cases "code = 0")
    case True
    then show ?thesis using r c pos config_fields(2) [OF c] by (simp add: loop_result_def)
  next
    case False
    then obtain before ub post where b: "us = before @ ub # post" "\<forall>s<length (kv_seq_to_stream k).
        positions kv2 s = {p \<in> positions k s \<union> (\<Union>ub\<in>set (before @ [ub]). incoming ub s). p < first_pos ub s}"
      using r unfolding loop_result_def by auto
    show ?thesis
      by (rule loop_failed [OF False _ _ b(1)]) (use r c b(2) pos config_fields(2) [OF c] in \<open>simp_all add: loop_result_def\<close>)
  qed
qed

lemma decode_full:
  assumes ok: "cache_ok kv" "no_shifts kv" "plain kv" and reset: "split_reset st = st"
    and us: "micro_batches n_ubatch st us" "us \<noteq> []" "\<forall>u\<in>set us. ubatch_ok kv u" and full: "card (empty_cells kv) < sum_list (map ub_n_tokens us)"
  shows "\<exists>kv2. decode_accepted shift_graph rope compute reserve n_ubatch st kv = Some (1, kv2) \<and> alike kv kv2"
proof -
  have can: "get_can_shift k" if "alike kv k" for k
    using that ok(3) config_fields(7) [of k kv] by (simp add: alike_def get_can_shift_def plain_def)
  have plain: "plain k" if "alike kv k" for k using that ok(3) plain_config [of k kv] by (simp add: alike_def)
  have self: "alike kv kv" using ok(1) by (simp add: alike_def)
  have update: "\<exists>updated k'. memory_update shift_graph rope k = Some (updated, k') \<and> alike kv k' \<and> no_shifts k'" if k: "alike kv k" "no_shifts k" for k
  proof -
    have "cache_ok k" using k(1) by (simp add: alike_def)
    from update_alike [OF this k(2) can [OF k(1)], of shift_graph rope] alike_trans [OF k(1)] show ?thesis by blast
  qed
  have failed: "\<exists>cx st' k'. init_batch n_ubatch balloc k = Some (cx, st', k') \<and> split_reset st' = st \<and> alike kv k' \<and> no_shifts k' \<and>
      ctx_status cx = LLAMA_MEMORY_STATUS_FAILED_PREPARE" if k: "alike kv k" "no_shifts k" and b: "split_reset balloc = st" for k balloc
  proof -
    have c: "cache_ok k" using k(1) by (simp add: alike_def)
    have "\<not> sum_list (map ub_n_tokens us) \<le> card (empty_cells k)" using full alike_empty [OF k(1) ok(3)] by simp
    with init_batch_plain [OF c k(2) plain [OF k(1)] b us(1,2) alike_ubatches [OF k(1) us(3)]]
    obtain cx st' k' where i: "init_batch n_ubatch balloc k = Some (cx, st', k')" "split_reset st' = st" "undone k k'"
      "ctx_status cx = LLAMA_MEMORY_STATUS_FAILED_PREPARE" by auto
    have "alike kv k'" by (rule alike_trans [OF k(1) undone_alike [OF i(3) plain_quiet [OF plain [OF k(1)]]]])
    moreover have "no_shifts k'" using i(3) by (simp add: undone_def)
    ultimately show ?thesis using i by blast
  qed
  obtain u1 k1 where k1: "memory_update shift_graph rope kv = Some (u1, k1)" "alike kv k1" "no_shifts k1" using update [OF self ok(2)] by blast
  obtain cx st1 k2 where k2: "init_batch n_ubatch st k1 = Some (cx, st1, k2)" "split_reset st1 = st" "alike kv k2" "no_shifts k2"
    "ctx_status cx = LLAMA_MEMORY_STATUS_FAILED_PREPARE" using failed [OF k1(2,3) reset] by blast
  obtain u2 k3 where k3: "memory_update shift_graph rope k2 = Some (u2, k3)" "alike kv k3" "no_shifts k3" using update [OF k2(3,4)] by blast
  obtain cx' st2 k4 where k4: "init_batch n_ubatch st1 k3 = Some (cx', st2, k4)" "alike kv k4" "ctx_status cx' = LLAMA_MEMORY_STATUS_FAILED_PREPARE"
    using failed [OF k3(2,3) k2(2)] by blast
  have "decode_accepted shift_graph rope compute reserve n_ubatch st kv = Some (1, if u2 then k4 else k3)"
    using k1(1) k2(1,5) k3(1) k4(1,3) by (simp add: decode_accepted_def Let_def)
  then show ?thesis using k3(2) k4(2) by (cases u2) auto
qed

lemma decode_room:
  assumes ok: "cache_ok kv" "no_shifts kv" "plain kv" "0 < kv_n_pad kv" and reset: "split_reset st = st"
    and us: "micro_batches n_ubatch st us" "us \<noteq> []" "\<forall>u\<in>set us. ubatch_ok kv u" and room: "sum_list (map ub_n_tokens us) \<le> card (empty_cells kv)"
  shows "\<exists>code kv2. decode_accepted shift_graph rope compute reserve n_ubatch st kv = Some (code, kv2) \<and>
    (if reserve (al_n_outputs st) < al_n_outputs st then code = -2 \<and> alike kv kv2
     else loop_result code us kv kv2 \<and> ((\<forall>ub k. compute ub k = GGML_STATUS_SUCCESS) \<longrightarrow> code = 0) \<and> code \<in> {0, 2, -2, -3})"
proof -
  have "get_can_shift kv" using ok(3) by (simp add: get_can_shift_def plain_def)
  from update_alike [OF ok(1,2) this] obtain u k where k: "memory_update shift_graph rope kv = Some (u, k)" "alike kv k" "no_shifts k" by blast
  have K: "cache_ok k" "config k = config kv" using k(2) by (simp_all add: alike_def)
  have plain: "plain k" using ok(3) plain_config [OF K(2)] by simp
  obtain cx st' kv' kv1 where i: "init_batch n_ubatch st k = Some (cx, st', kv')" "undone k kv'" "ctx_status cx = LLAMA_MEMORY_STATUS_SUCCESS"
    "ctx_ubatches cx = us" "ctx_i_cur cx = 0" "fits us (ctx_sinfos cx) k kv1"
    using init_batch_plain [OF K(1) k(3) plain reset us(1,2) alike_ubatches [OF k(2) us(3)]] room alike_empty [OF k(2) ok(3)] by auto
  have pad: "0 < kv_n_pad k" using ok(4) config_fields(6) [OF K(2)] by simp
  obtain code kv2 where r: "decode_loop shift_graph rope compute cx kv' = Some (code, kv2)" "loop_result code us k kv2"
    "(\<forall>ub k. compute ub k = GGML_STATUS_SUCCESS) \<longrightarrow> code = 0" "code \<in> {0, 2, -2, -3}"
    using decode_loop_run [where pre = "[]" and pre' = "[]", OF i(3) _ _ _ _ us(2) i(6) undone_alike [OF i(2) plain_quiet [OF plain]] K(1) k(3) plain, of shift_graph rope compute] i(4,5) pad
    by auto
  have "loop_result code us kv kv2" by (rule loop_result_alike [OF k(2) ok(1) r(2)])
  moreover have "alike kv kv'" by (rule alike_trans [OF k(2) undone_alike [OF i(2) plain_quiet [OF plain]]])
  moreover have "decode_accepted shift_graph rope compute reserve n_ubatch st kv =
      (if reserve (al_n_outputs st) < al_n_outputs st then Some (-2, kv') else Some (code, kv2))"
    using k(1) i(1,3) r(1) by (simp add: decode_accepted_def Let_def)
  ultimately show ?thesis using r(3,4) by auto
qed

end
