(* ===== verification/KV_Kq_Mask.thy ===== *)
theory KV_Kq_Mask
  imports KV_Attention
begin

text \<open>
  The attention mask \<open>set_input_kq_mask\<close> writes: a row per token, padded per stream, with an entry per cell of the
  token's stream. Every entry is what the cell and the token's position say, and the rest of the tensor is masked.
\<close>

definition mask_entry :: "'v \<Rightarrow> (int \<Rightarrow> 'v) \<Rightarrow> bool \<Rightarrow> int \<Rightarrow> int option \<Rightarrow> 'v" where
  "mask_entry neg_inf to_f use_alibi p1 a = (case a of None \<Rightarrow> neg_inf | Some p0 \<Rightarrow> if use_alibi then to_f (- \<bar>p0 - p1\<bar>) else to_f 0)"

lemma mask_row:
  assumes "\<And>j. j < n \<Longrightarrow> f j = Some (a j)"
  shows "fold_opt (\<lambda>j data. do { x \<leftarrow> f j; Some (case x of None \<Rightarrow> data | Some p0 \<Rightarrow> data(base + j := val p0)) }) [0..<n] data =
    Some (\<lambda>k. if base \<le> k \<and> k < base + n then (case a (k - base) of None \<Rightarrow> data k | Some p0 \<Rightarrow> val p0) else data k)"
  using assms
proof (induction n)
  case (Suc n)
  have IH: "fold_opt (\<lambda>j data. do { x \<leftarrow> f j; Some (case x of None \<Rightarrow> data | Some p0 \<Rightarrow> data(base + j := val p0)) }) [0..<n] data =
    Some (\<lambda>k. if base \<le> k \<and> k < base + n then (case a (k - base) of None \<Rightarrow> data k | Some p0 \<Rightarrow> val p0) else data k)"
    by (rule Suc.IH) (use Suc.prems in simp)
  show ?case
    using Suc.prems [of n] by (cases "a n") (auto simp: fold_opt_append IH fun_eq_iff less_Suc_eq split: option.splits)
qed (auto simp: fun_eq_iff)

text \<open>The rows that are written: \<open>ii < P\<close> numbers the rows of stream \<open>s\<close>.\<close>

definition filled :: "nat \<Rightarrow> nat \<Rightarrow> (nat \<Rightarrow> nat \<Rightarrow> nat \<Rightarrow> 'v) \<Rightarrow> (nat \<times> nat) set \<Rightarrow> (nat \<Rightarrow> 'v) \<Rightarrow> nat \<Rightarrow> 'v" where
  "filled n P row D data k = (if 0 < n \<and> (k div n div P, k div n mod P) \<in> D then row (k div n div P) (k div n mod P) (k mod n) else data k)"

lemma row_index:
  fixes n P s ii k :: nat
  assumes "ii < P" "0 < n"
  shows "n * (s * P + ii) \<le> k \<and> k < n * (s * P + ii) + n \<longleftrightarrow> k div n div P = s \<and> k div n mod P = ii"
proof -
  have "n * (s * P + ii) \<le> k \<and> k < n * (s * P + ii) + n \<longleftrightarrow> k div n = s * P + ii"
  proof
    assume "n * (s * P + ii) \<le> k \<and> k < n * (s * P + ii) + n"
    then show "k div n = s * P + ii" using div_nat_eqI [of n "s * P + ii" k] by simp
  next
    assume d: "k div n = s * P + ii"
    have "n * (k div n) + k mod n = k" by (rule mult_div_mod_eq)
    then show "n * (s * P + ii) \<le> k \<and> k < n * (s * P + ii) + n" unfolding d using mod_less_divisor [OF assms(2), of k] by linarith
  qed
  also have "\<dots> \<longleftrightarrow> k div n div P = s \<and> k div n mod P = ii"
    using assms(1) by (metis add.right_neutral div_less div_mult_mod_eq div_mult_self3 mod_less mod_mult_self3 nat_neq_iff not_less_zero)
  finally show ?thesis .
qed

lemma filled_insert:
  assumes "ii < P" "(s, ii) \<notin> D"
  shows "filled n P row (insert (s, ii) D) data =
    (\<lambda>k. if n * (s * P + ii) \<le> k \<and> k < n * (s * P + ii) + n then row s ii (k - n * (s * P + ii)) else filled n P row D data k)"
proof
  fix k
  show "filled n P row (insert (s, ii) D) data k =
    (if n * (s * P + ii) \<le> k \<and> k < n * (s * P + ii) + n then row s ii (k - n * (s * P + ii)) else filled n P row D data k)"
  proof (cases "0 < n")
    case True
    note r = row_index [OF assms(1) True, of s k]
    show ?thesis
    proof (cases "k div n div P = s \<and> k div n mod P = ii")
      case at: True
      then have "k div n = s * P + ii" by (metis div_mult_mod_eq)
      then have "k - n * (s * P + ii) = k mod n" by (metis minus_mult_div_eq_mod)
      then show ?thesis using at r True by (simp add: filled_def)
    qed (use r True in \<open>auto simp: filled_def\<close>)
  qed (simp add: filled_def)
qed

lemma fill_loop:
  assumes body: "\<And>s ii data. s < S \<Longrightarrow> ii < T \<Longrightarrow> body s ii data =
      Some (\<lambda>k. if n * (s * P + ii) \<le> k \<and> k < n * (s * P + ii) + n then upd s ii (k - n * (s * P + ii)) (data k) else data k)"
    and fresh: "\<And>s ii j k. s < S \<Longrightarrow> ii < T \<Longrightarrow> j < n \<Longrightarrow> upd s ii j (data0 (n * (s * P + ii) + j)) = row s ii j" and T: "T \<le> P"
  shows "fold_opt (\<lambda>s. fold_opt (body s) [0..<T]) [0..<S] data0 = Some (filled n P row ({..<S} \<times> {..<T}) data0)"
proof -
  have step: "body s ii (filled n P row D data0) = Some (filled n P row (insert (s, ii) D) data0)"
    if st: "s < S" "ii < T" "(s, ii) \<notin> D" for s ii D
  proof -
    have P: "ii < P" using st(2) T by simp
    have "upd s ii (k - n * (s * P + ii)) (filled n P row D data0 k) = row s ii (k - n * (s * P + ii))"
      if k: "n * (s * P + ii) \<le> k \<and> k < n * (s * P + ii) + n" for k
    proof -
      have n: "0 < n" using k by simp
      have "filled n P row D data0 k = data0 k" using k st(3) unfolding row_index [OF P n] by (auto simp: filled_def)
      moreover have "k - n * (s * P + ii) < n" using k by linarith
      ultimately show ?thesis using fresh [OF st(1,2), of "k - n * (s * P + ii)"] k by simp
    qed
    then show ?thesis unfolding body [OF st(1,2)] filled_insert [OF P st(3)] by (simp add: fun_eq_iff)
  qed
  have rowwise: "fold_opt (body s) [0..<t] (filled n P row ({..<s} \<times> {..<T}) data0) =
      Some (filled n P row ({..<s} \<times> {..<T} \<union> {s} \<times> {..<t}) data0)" if s: "s < S" and t: "t \<le> T" for s t
    using t
  proof (induction t)
    case (Suc t)
    have "insert (s, t) ({..<s} \<times> {..<T} \<union> {s} \<times> {..<t}) = {..<s} \<times> {..<T} \<union> {s} \<times> {..<Suc t}" by auto
    then show ?case using Suc step [OF s, of t "{..<s} \<times> {..<T} \<union> {s} \<times> {..<t}"] by (simp add: fold_opt_append)
  qed simp
  have "fold_opt (\<lambda>s. fold_opt (body s) [0..<T]) [0..<m] data0 = Some (filled n P row ({..<m} \<times> {..<T}) data0)" if "m \<le> S" for m
    using that
  proof (induction m)
    case 0
    then show ?case by (simp add: filled_def fun_eq_iff)
  next
    case (Suc m)
    have "{..<m} \<times> {..<T} \<union> {m} \<times> {..<T} = {..<Suc m} \<times> {..<T}" by auto
    then show ?case using Suc rowwise [of m T] by (simp add: fold_opt_append)
  qed
  then show ?thesis by simp
qed

text \<open>The token of row \<open>ii\<close> of stream \<open>s\<close>, and its entry for cell \<open>j\<close>.\<close>

definition token_entry :: "'v \<Rightarrow> (int \<Rightarrow> 'v) \<Rightarrow> bool \<Rightarrow> llama_kv_cache \<Rightarrow> bool \<Rightarrow> 'f llama_ubatch \<Rightarrow> nat \<Rightarrow> nat \<Rightarrow> 'v" where
  "token_entry neg_inf to_f use_alibi kv causal ub i j =
     (let sid = nat (ub_seq_id ub ! i ! 0) in
      mask_entry neg_inf to_f use_alibi (ub_pos ub ! i) (attended kv causal sid (ub_pos ub ! i) (stream kv (kv_seq_to_stream kv ! sid) ! j)))"

definition rows_ok :: "llama_kv_cache \<Rightarrow> 'f llama_ubatch \<Rightarrow> bool" where
  "rows_ok kv ub \<longleftrightarrow> (\<forall>i<ub_n_tokens ub. i < length (ub_seq_id ub) \<and> i < length (ub_pos ub) \<and> ub_seq_id ub ! i \<noteq> [] \<and>
     seq_ok kv (ub_seq_id ub ! i ! 0) \<and> 0 \<le> ub_pos ub ! i)"

lemma kq_mask_written:
  assumes ok: "cache_ok kv" and ub: "rows_ok kv ub" and ns: "0 < n_stream" "n_stream dvd ub_n_tokens ub" and n: "n_kv \<le> cache_size kv"
    and fits: "n_stream * GGML_PAD (ub_n_tokens ub div n_stream) GGML_KQ_MASK_PAD \<le> ne1 * ne2 * n_stream"
  shows "set_input_kq_mask neg_inf to_f use_alibi (n_kv, ne1, ne2, n_stream) ub causal kv data =
    Some (filled n_kv (GGML_PAD (ub_n_tokens ub div n_stream) GGML_KQ_MASK_PAD)
      (\<lambda>s ii. token_entry neg_inf to_f use_alibi kv causal ub (s * (ub_n_tokens ub div n_stream) + ii))
      ({..<n_stream} \<times> {..<ub_n_tokens ub div n_stream}) (\<lambda>k. if k < n_kv * ne1 * ne2 * n_stream then neg_inf else data k))"
proof -
  let ?T = "ub_n_tokens ub div n_stream"
  let ?P = "GGML_PAD ?T GGML_KQ_MASK_PAD"
  let ?d0 = "\<lambda>k. if k < n_kv * ne1 * ne2 * n_stream then neg_inf else data k"
  let ?val = "\<lambda>i p0. if use_alibi then to_f (- \<bar>p0 - ub_pos ub ! i\<bar>) else to_f 0"
  let ?sid = "\<lambda>i. nat (ub_seq_id ub ! i ! 0)"
  let ?att = "\<lambda>i j. attended kv causal (?sid i) (ub_pos ub ! i) (stream kv (kv_seq_to_stream kv ! ?sid i) ! j)"
  have T: "?T \<le> ?P" by (rule GGML_PAD_ge) (simp add: GGML_KQ_MASK_PAD_def)
  have tot: "n_stream * ?T = ub_n_tokens ub" using ns(2) by simp
  have i: "s * ?T + ii < ub_n_tokens ub" if "s < n_stream" "ii < ?T" for s ii
    using that mult_le_mono1 [of "Suc s" n_stream ?T] tot by simp
  have row: "do {
         row \<leftarrow> vec_at (ub_seq_id ub) (s * ?T + ii); sid \<leftarrow> vec_at row 0; st \<leftarrow> stream_of kv sid; c \<leftarrow> vec_at (kv_cells kv) st;
         p1 \<leftarrow> vec_at (ub_pos ub) (s * ?T + ii);
         let idst = n_kv * (s * ?P + ii);
         fold_opt (\<lambda>j data. do { a \<leftarrow> attends kv causal c sid p1 j;
             Some (case a of None \<Rightarrow> data | Some p0 \<Rightarrow> data(idst + j := if use_alibi then to_f (- \<bar>p0 - p1\<bar>) else to_f 0)) }) [0..<n_kv] data } =
      Some (\<lambda>k. if n_kv * (s * ?P + ii) \<le> k \<and> k < n_kv * (s * ?P + ii) + n_kv
        then (case ?att (s * ?T + ii) (k - n_kv * (s * ?P + ii)) of None \<Rightarrow> data k | Some p0 \<Rightarrow> ?val (s * ?T + ii) p0) else data k)"
    if s: "s < n_stream" and ii: "ii < ?T" for s ii data
  proof -
    let ?i = "s * ?T + ii"
    have u: "?i < length (ub_seq_id ub)" "?i < length (ub_pos ub)" "ub_seq_id ub ! ?i \<noteq> []" "seq_ok kv (ub_seq_id ub ! ?i ! 0)" "0 \<le> ub_pos ub ! ?i"
      using ub i [OF s ii] by (simp_all add: rows_ok_def)
    note st = seq_stream [OF ok u(4)]
    have sid: "int (?sid ?i) = ub_seq_id ub ! ?i ! 0" "?sid ?i < LLAMA_MAX_SEQ" using st(3) by (auto simp: seq_id_ok_def nat_less_iff)
    have att: "attends kv causal (kv_cells kv ! (kv_seq_to_stream kv ! ?sid ?i)) (ub_seq_id ub ! ?i ! 0) (ub_pos ub ! ?i) j = Some (?att ?i j)"
      if "j < n_kv" for j
      using attends_eq [OF ok st(2) sid(2) u(5), of j causal] that n unfolding sid(1) by simp
    have "kv_seq_to_stream kv ! ?sid ?i < length (kv_cells kv)" using st(2) cache_okD(5) [OF ok] by simp
    then show ?thesis
      using u(1-3) st(1) mask_row [where base = "n_kv * (s * ?P + ii)" and a = "?att ?i" and val = "?val ?i", OF att] by (simp add: Let_def)
  qed
  have fresh: "(case ?att (s * ?T + ii) j of None \<Rightarrow> ?d0 (n_kv * (s * ?P + ii) + j) | Some p0 \<Rightarrow> ?val (s * ?T + ii) p0) =
      token_entry neg_inf to_f use_alibi kv causal ub (s * ?T + ii) j" if s: "s < n_stream" "ii < ?T" "j < n_kv" for s ii j
  proof -
    have "s * ?P + ii < n_stream * ?P" using s(1,2) T mult_le_mono1 [of "Suc s" n_stream ?P] by simp
    then have "s * ?P + ii < ne1 * ne2 * n_stream" using fits by (rule less_le_trans)
    then have "n_kv * Suc (s * ?P + ii) \<le> n_kv * (ne1 * ne2 * n_stream)" by (intro mult_le_mono2) simp
    then have "n_kv * (s * ?P + ii) + j < n_kv * ne1 * ne2 * n_stream" using s(3) by (simp add: mult.assoc)
    then show ?thesis by (simp add: token_entry_def mask_entry_def Let_def split: option.split)
  qed
  show ?thesis
    unfolding set_input_kq_mask_def prod.case Let_def
    using ns by (simp only: mod_eq_0_iff_dvd [symmetric]) (simp add: fill_loop [OF row [unfolded Let_def] fresh T])
qed

end
