(* ===== verification/KV_Props.thy ===== *)
theory KV_Props
  imports Decode KV_Kq_Mask
begin

text \<open>
  The properties of the KV cache: the state machine of its calls, finding slots, attention, the mask, preparing
  and decoding, each with a concrete instance.
\<close>

section \<open>The state machine of the calls\<close>

datatype 'f kv_call =
    Call_clear bool | Call_seq_rm int int int | Call_seq_cp int int int int | Call_seq_keep int | Call_set_prefix int int
  | Call_seq_add int int int int | Call_seq_div int int int int | Call_update
  | Call_place bool "'f llama_ubatch" | Call_prepare "'f llama_ubatch list"

text \<open>A call; placing a micro batch is \<open>find_slot\<close> and, when there is a slot, \<open>apply_ubatch\<close>.\<close>

fun run_call :: "(llama_kv_cache \<Rightarrow> kv_layer list option) \<Rightarrow> bool \<Rightarrow> 'f kv_call \<Rightarrow> llama_kv_cache \<Rightarrow> llama_kv_cache option" where
  "run_call shift_graph rope (Call_clear data) kv = kv_clear data kv"
| "run_call shift_graph rope (Call_seq_rm s p0 p1) kv = kv_seq_rm s p0 p1 kv"
| "run_call shift_graph rope (Call_seq_cp src dst p0 p1) kv = kv_seq_cp src dst p0 p1 kv"
| "run_call shift_graph rope (Call_seq_keep s) kv = kv_seq_keep s kv"
| "run_call shift_graph rope (Call_set_prefix s pe) kv = Some (snd (kv_seq_set_prefix s pe kv))"
| "run_call shift_graph rope (Call_seq_add s p0 p1 d) kv = kv_seq_add s p0 p1 d kv"
| "run_call shift_graph rope (Call_seq_div s p0 p1 d) kv = kv_seq_div s p0 p1 d kv"
| "run_call shift_graph rope Call_update kv = map_option snd (memory_update shift_graph rope kv)"
| "run_call shift_graph rope (Call_place cont ub) kv =
     do { sl \<leftarrow> find_slot ub cont kv; if slot_empty sl then Some kv else apply_ubatch sl ub kv }"
| "run_call shift_graph rope (Call_prepare ubs) kv = map_option snd (prepare ubs kv)"

text \<open>The arguments that the assertions of the calls allow.\<close>

fun call_ok :: "'f kv_call \<Rightarrow> llama_kv_cache \<Rightarrow> bool" where
  "call_ok (Call_clear data) kv = True"
| "call_ok (Call_seq_rm s p0 p1) kv = (s = -1 \<or> seq_ok kv s)"
| "call_ok (Call_seq_cp src dst p0 p1) kv = cp_ok kv src dst p0 p1"
| "call_ok (Call_seq_keep s) kv = seq_ok kv s"
| "call_ok (Call_set_prefix s pe) kv = True"
| "call_ok (Call_seq_add s p0 p1 d) kv = (seq_ok kv s \<and> add_ok kv s p0 p1 d)"
| "call_ok (Call_seq_div s p0 p1 d) kv = (seq_ok kv s \<and> 0 < d \<and> div_ok kv s p0 p1 (nat d))"
| "call_ok Call_update kv = (get_has_shift kv = Some True \<longrightarrow> get_can_shift kv)"
| "call_ok (Call_place cont ub) kv = ubatch_ok kv ub"
| "call_ok (Call_prepare ubs) kv = (no_shifts kv \<and> ubs \<noteq> [] \<and> (\<forall>ub\<in>set ubs. ubatch_ok kv ub))"

inductive kv_reachable :: "(llama_kv_cache \<Rightarrow> kv_layer list option) \<Rightarrow> bool \<Rightarrow> llama_kv_cache \<Rightarrow> bool"
  for shift_graph :: "llama_kv_cache \<Rightarrow> kv_layer list option" and rope :: bool where
  new: "kv_cache_new unified kv_size n_seq_max n_pad n_swa swa_type win prefix_cap n_ubatch layers = Some kv \<Longrightarrow>
      params_ok unified n_seq_max n_swa swa_type \<Longrightarrow> kv_reachable shift_graph rope kv"
| step: "kv_reachable shift_graph rope kv \<Longrightarrow> call_ok (c :: real kv_call) kv \<Longrightarrow> run_call shift_graph rope c kv = Some kv' \<Longrightarrow>
      kv_reachable shift_graph rope kv'"

lemma call_total:
  assumes ok: "cache_ok kv" and c: "call_ok c kv"
  shows "\<exists>kv'. run_call shift_graph rope c kv = Some kv' \<and> cache_ok kv' \<and> config kv' = config kv"
proof (cases c)
  case (Call_clear data)
  then show ?thesis using clear_effect [OF ok, of data] by (auto simp: mapped_def)
next
  case (Call_seq_rm s p0 p1)
  then show ?thesis using c seq_rm_effect [OF ok, of s p0 p1] seq_rm_any_effect [OF ok, of p0 p1] by (auto simp: mapped_def)
next
  case (Call_seq_cp src dst p0 p1)
  then show ?thesis using c seq_cp_effect [OF ok, of src dst p0 p1] by auto
next
  case (Call_seq_keep s)
  then show ?thesis using c seq_keep_effect [OF ok, of s] by (auto simp: mapped_def)
next
  case (Call_set_prefix s pe)
  then show ?thesis using set_prefix_effect [OF ok, of s pe] by (auto simp: mapped_def)
next
  case (Call_seq_add s p0 p1 d)
  then show ?thesis using c seq_add_effect [OF ok, of s p0 p1 d] by (auto simp: mapped_def)
next
  case (Call_seq_div s p0 p1 d)
  then show ?thesis using c seq_div_effect [OF ok, of s "nat d" p0 p1] by (auto simp: mapped_def)
next
  case Call_update
  then obtain u kv' where u: "memory_update shift_graph rope kv = Some (u, kv')"
    "mapped (copies_taken kv) (\<lambda>_ x. x) kv' \<or> mapped (copies_taken kv) (\<lambda>_. unshifted) kv'"
    using c update_total [OF ok, of shift_graph rope] by auto
  then show ?thesis using Call_update copies_taken_ok(2) [OF ok] by (auto simp: mapped_def)
next
  case (Call_place cont ub)
  then have ub: "ubatch_ok kv ub" using c by simp
  obtain sl where sl: "find_slot ub cont kv = Some sl" using find_slot_result [OF ok ub] by blast
  show ?thesis
  proof (cases "slot_empty sl")
    case False
    then have "placing kv ub cont sl" using ok ub sl by (simp add: placing_def)
    from apply_ubatch_effect [OF ok slot(1) [OF this]] show ?thesis using Call_place sl False by auto
  qed (use Call_place sl ok in simp)
next
  case (Call_prepare ubs)
  then show ?thesis using c prepare_effect [OF ok, of ubs] by (auto simp: undone_def)
qed

lemma reachable_ok: "kv_reachable shift_graph rope kv \<Longrightarrow> cache_ok kv \<and> 0 < kv_n_pad kv"
proof (induction rule: kv_reachable.induct)
  case (new unified kv_size n_seq_max n_pad n_swa swa_type win prefix_cap n_ubatch layers kv)
  then show ?case using new_ok(1,2) [OF new] by simp
next
  case (step kv c kv')
  then show ?case using call_total [of kv c shift_graph rope] config_fields(6) [of kv' kv] by auto
qed

text \<open>
  C22: in every reachable state of the KV cache the cells of every stream agree with their index structures,
  every occupied cell has sequences, all of its own stream, and a position below the largest one, all streams
  have the same size, heads and prefix boundaries are in range and the pending copies name two streams each;
  and every call whose arguments its assertions allow returns, in a reachable state.
\<close>

theorem kv_calls_safe:
  assumes "kv_reachable shift_graph rope kv"
  shows "cache_ok kv \<and> (\<forall>c :: real kv_call. call_ok c kv \<longrightarrow> (\<exists>kv'. run_call shift_graph rope c kv = Some kv' \<and> kv_reachable shift_graph rope kv'))"
proof -
  have ok: "cache_ok kv" using reachable_ok [OF assms] by simp
  then show ?thesis using call_total [OF ok] kv_reachable.step [OF assms] by blast
qed


section \<open>Slots, attention and the mask\<close>

text \<open>
  C20: \<open>find_slot\<close> returns for every cache that satisfies the invariant; it finds a slot exactly if every stream of
  the micro batch has enough cells that are empty or whose only sequence no longer sees them (next to each other,
  when asked for a contiguous slot, and after the prefix boundary is known), and the slot names such cells only.
\<close>

theorem kv_find_slot_exact:
  assumes "cache_ok kv" "ubatch_ok kv ub"
  shows "\<exists>sl. find_slot ub cont kv = Some sl \<and> (slot_empty sl \<longleftrightarrow> (\<exists>c<ub_seqs kv ub. no_room kv ub cont c)) \<and>
    (\<not> slot_empty sl \<longrightarrow> slot_strm sl = map (ub_stream kv ub) [0..<ub_seqs kv ub] \<and> length (slot_idxs sl) = ub_seqs kv ub \<and>
      (\<forall>c<ub_seqs kv ub. found kv ub cont c (slot_idxs sl ! c)))"
proof -
  obtain sl where sl: "find_slot ub cont kv = Some sl" "slot_empty sl \<longleftrightarrow> (\<exists>s<ub_seqs kv ub. no_room kv ub cont s)"
    "\<not> slot_empty sl \<longrightarrow> length (slot_strm sl) = ub_seqs kv ub \<and> length (slot_idxs sl) = ub_seqs kv ub \<and>
      (\<forall>s<ub_seqs kv ub. slot_strm sl ! s = ub_stream kv ub s \<and> found kv ub cont s (slot_idxs sl ! s))"
    using find_slot_result [OF assms] by blast
  have "slot_strm sl = map (ub_stream kv ub) [0..<ub_seqs kv ub]" if "\<not> slot_empty sl"
    by (rule nth_equalityI) (use sl(3) that in simp_all)
  then show ?thesis using sl by auto
qed

text \<open>
  C19: once a micro batch of fresh positions, each above all that the cache holds for the sequences of its token, is in the
  slot found for it, a token that comes with it or later sees, among the cells \<open>get_n_kv\<close> hands to the attention, exactly
  those positions of its sequence that causality and the windows allow, of all that were stored before and all that came:
  whatever was overwritten or purged was hidden anyway. (Batches that repeat a stored position, as those of images may, are
  not covered.)
\<close>

theorem kv_attention_exact:
  assumes ok: "cache_ok kv" "0 < kv_n_pad kv" and ub: "ubatch_ok kv ub" "fresh kv ub"
    and sl: "find_slot ub cont kv = Some sl" "\<not> slot_empty sl"
  shows "\<exists>kv' n. apply_ubatch sl ub kv = Some kv' \<and> get_n_kv sl kv' = Some n \<and> cache_ok kv' \<and>
    (\<forall>s p1. s < length (kv_seq_to_stream kv) \<longrightarrow> kv_seq_to_stream kv ! s \<in> set (slot_strm sl) \<longrightarrow> from_now_on kv ub s p1 \<longrightarrow>
       visible kv' causal n s p1 = {p \<in> positions kv s \<union> incoming ub s. allowed kv causal s p1 p})"
proof -
  have P: "placing kv ub cont sl" using ok(1) ub(1) sl by (simp add: placing_def)
  obtain kv' where kv': "apply_ubatch sl ub kv = Some kv'" "cache_ok kv'" "config kv' = config kv"
    "\<forall>s p1. s < length (kv_seq_to_stream kv) \<longrightarrow> from_now_on kv ub s p1 \<longrightarrow>
       open_positions kv' causal s p1 = {p \<in> positions kv s \<union> incoming ub s. allowed kv causal s p1 p}"
    using attention [OF P ub(2)] by blast
  note conf = config_fields [OF kv'(3)]
  have "\<forall>st\<in>set (slot_strm sl). st < kv_n_stream kv'" "0 < kv_n_pad kv'"
    using slot(1) [OF P] ok(2) conf(1,6) by (auto simp: slot_ok_def)
  from get_n_kv_covers [OF kv'(2) this] obtain n where n: "get_n_kv sl kv' = Some n" "n \<le> cache_size kv'"
    "\<forall>st\<in>set (slot_strm sl). \<forall>j. n \<le> j \<longrightarrow> j < cache_size kv' \<longrightarrow> stream kv' st ! j = None" by blast
  have "visible kv' causal n s p1 = {p \<in> positions kv s \<union> incoming ub s. allowed kv causal s p1 p}"
    if s: "s < length (kv_seq_to_stream kv)" "kv_seq_to_stream kv ! s \<in> set (slot_strm sl)" and p1: "from_now_on kv ub s p1" for s p1
  proof -
    have "visible kv' causal n s p1 = open_positions kv' causal s p1"
      unfolding open_positions_def by (rule visible_eq [OF kv'(2)]) (use s p1 n(2,3) conf(2) in \<open>auto simp: from_now_on_def\<close>)
    then show ?thesis using kv'(4) s(1) p1 by simp
  qed
  then show ?thesis using kv'(1,2) n(1) by blast
qed

text \<open>
  C21: \<open>set_input_kq_mask\<close> writes for every token of the micro batch and every cell of its stream that the tensor has
  a column for, \<open>0\<close> (or the ALiBi distance) if the token sees the cell and \<open>-inf\<close> if not, and \<open>-inf\<close> everywhere else
  in the tensor, and it writes nothing outside.
\<close>

theorem kv_mask_exact:
  assumes ok: "cache_ok kv" and ub: "rows_ok kv ub" and ns: "0 < n_stream" "n_stream dvd ub_n_tokens ub" and n: "n_kv \<le> cache_size kv"
    and fits: "n_stream * GGML_PAD (ub_n_tokens ub div n_stream) GGML_KQ_MASK_PAD \<le> ne1 * ne2 * n_stream"
  defines "T \<equiv> ub_n_tokens ub div n_stream" and "P \<equiv> GGML_PAD (ub_n_tokens ub div n_stream) GGML_KQ_MASK_PAD"
  shows "\<exists>mask. set_input_kq_mask neg_inf to_f use_alibi (n_kv, ne1, ne2, n_stream) ub causal kv data = Some mask \<and>
    (\<forall>k<n_kv * ne1 * ne2 * n_stream. mask k =
       (if k div n_kv div P < n_stream \<and> k div n_kv mod P < T
        then token_entry neg_inf to_f use_alibi kv causal ub (k div n_kv div P * T + k div n_kv mod P) (k mod n_kv) else neg_inf)) \<and>
    (\<forall>k\<ge>n_kv * ne1 * ne2 * n_stream. mask k = data k)"
proof -
  have outside: "\<not> (k div n_kv div P < n_stream \<and> k div n_kv mod P < T)" if n_kv: "0 < n_kv" and k: "n_kv * ne1 * ne2 * n_stream \<le> k" for k
  proof
    assume a: "k div n_kv div P < n_stream \<and> k div n_kv mod P < T"
    have "T \<le> P" unfolding T_def P_def by (rule GGML_PAD_ge) (simp add: GGML_KQ_MASK_PAD_def)
    moreover have "k div n_kv div P * P + P \<le> n_stream * P" using a mult_le_mono1 [of "Suc (k div n_kv div P)" n_stream P] by simp
    moreover have "k div n_kv = k div n_kv div P * P + k div n_kv mod P" by simp
    ultimately have "k div n_kv < n_stream * P" using a by linarith
    then have "k div n_kv < ne1 * ne2 * n_stream" using fits unfolding P_def by (rule less_le_trans)
    then have "k < n_kv * ne1 * ne2 * n_stream" using n_kv by (simp add: div_less_iff_less_mult mult.commute mult.left_commute)
    then show False using k by simp
  qed
  have "set_input_kq_mask neg_inf to_f use_alibi (n_kv, ne1, ne2, n_stream) ub causal kv data =
      Some (filled n_kv P (\<lambda>s ii. token_entry neg_inf to_f use_alibi kv causal ub (s * T + ii)) ({..<n_stream} \<times> {..<T})
        (\<lambda>k. if k < n_kv * ne1 * ne2 * n_stream then neg_inf else data k))"
    unfolding T_def P_def by (rule kq_mask_written [OF ok ub ns n fits])
  then show ?thesis by - (intro exI conjI, assumption, auto simp: filled_def not_less dest: outside)
qed


section \<open>Preparing and decoding\<close>

text \<open>
  C23: on a cache with no pending shift and (unless its prefix window is on) without a sliding window of the model,
  \<open>prepare\<close> leaves every cell and head as it found them; it fails exactly if, after the micro batches before it, one
  of them finds no room, and otherwise the slots it returns can be applied one after the other, and then the sequences
  have exactly the new positions more (unless the prefix window is on, which overwrites).
\<close>

theorem kv_prepare_restores:
  assumes ok: "cache_ok kv" "no_shifts kv" "quiet kv" and ubs: "ubs \<noteq> []" "\<forall>ub\<in>set ubs. ubatch_ok kv ub"
  shows "\<exists>sls kv'. prepare ubs kv = Some (sls, kv') \<and> (\<exists>cs. kv' = kv\<lparr>kv_cells := cs\<rparr>) \<and> (\<forall>st<kv_n_stream kv. stream kv' st = stream kv st) \<and>
    (if sls = [] then stuck ubs kv
     else \<exists>kv2. apply_all sls ubs kv' = Some kv2 \<and> cache_ok kv2 \<and> (\<not> prefix_sliding_enabled kv \<longrightarrow>
       (\<forall>s<length (kv_seq_to_stream kv). positions kv2 s = positions kv s \<union> (\<Union>ub\<in>set ubs. incoming ub s))))"
proof -
  obtain sls kv' where p: "prepare ubs kv = Some (sls, kv')" "undone kv kv'" "if sls = [] then stuck ubs kv else \<exists>kv1. fits ubs sls kv kv1"
    using prepare_effect [OF ok(1,2) ubs] by blast
  have same: "(\<exists>cs. kv' = kv\<lparr>kv_cells := cs\<rparr>) \<and> (\<forall>st<kv_n_stream kv. stream kv' st = stream kv st)"
    using p(2) ok(3) by (simp add: undone_def)
  show ?thesis
  proof (cases "sls = []")
    case False
    then obtain kv1 where f: "fits ubs sls kv kv1" using p(3) by auto
    obtain kv2 where kv2: "apply_all sls ubs kv' = Some kv2" "alike kv1 kv2" using fits_apply [OF f undone_alike [OF p(2) ok(3)]] by blast
    have k1: "cache_ok kv1" "config kv1 = config kv" using fits_ok [OF f ok(1,2)] by simp_all
    have "positions kv2 s = positions kv s \<union> (\<Union>ub\<in>set ubs. incoming ub s)"
      if "\<not> prefix_sliding_enabled kv" "s < length (kv_seq_to_stream kv)" for s
      using fits_positions [OF f ok(2,3) that] alike_positions [OF kv2(2) _ k1(1), of s] that(2) config_fields(2) [OF k1(2)] by simp
    then show ?thesis using p(1) same False kv2 by (auto simp: alike_def)
  qed (use p same in auto)
qed




section \<open>Concrete instances\<close>

text \<open>A new cache with one stream of \<open>n\<close> cells and a window of one position when it has a window, and a micro batch of one token.\<close>

definition example_kv :: "nat \<Rightarrow> llama_swa_type \<Rightarrow> llama_kv_cache" where
  "example_kv n swa_type = the (kv_cache_new True n 1 1 1 swa_type 0 0 1 [])"

definition example_ub :: "real llama_ubatch" where
  "example_ub = \<lparr>ub_equal_seqs = False, ub_n_tokens = 1, ub_n_seq_tokens = 1, ub_n_seqs = 1, ub_n_seqs_unq = 1, ub_token = Some [5],
     ub_embd = None, ub_pos = [0], ub_n_seq_id = [1], ub_seq_id = [[0]], ub_seq_id_unq = [0], ub_seq_idx = (\<lambda>_. 0), ub_output = [1]\<rparr>"

lemma example_new: "kv_cache_new True n 1 1 1 swa_type 0 0 1 [] = Some (example_kv n swa_type)" "params_ok True 1 1 swa_type"
  by (simp_all add: example_kv_def kv_cache_new_def params_ok_def)

lemma example_fields [simp]:
  "kv_n_stream (example_kv n swa_type) = 1" "kv_seq_to_stream (example_kv n swa_type) = replicate LLAMA_MAX_SEQ 0"
  "kv_swa_type (example_kv n swa_type) = swa_type" "kv_window (example_kv n swa_type) = 0" "kv_n_swa (example_kv n swa_type) = 1"
  "kv_n_pad (example_kv n swa_type) = 1" "prefix_sliding_enabled (example_kv n swa_type) = False"
  by (simp_all add: example_kv_def kv_cache_new_def prefix_sliding_enabled_def)

lemma example_ok:
  "cache_ok (example_kv n swa_type)" "cache_size (example_kv n swa_type) = n" "stream (example_kv n swa_type) 0 = replicate n None"
  "no_shifts (example_kv n swa_type)"
proof -
  note new = new_ok [OF example_new(1) [of n swa_type] example_new(2)]
  show "cache_ok (example_kv n swa_type)" "cache_size (example_kv n swa_type) = n" by (rule new)+
  show "stream (example_kv n swa_type) 0 = replicate n None" using new(4) [of 0] by simp
  then show "no_shifts (example_kv n swa_type)" by (simp add: no_shifts_def no_shift_def)
qed

lemma example_positions: "s < LLAMA_MAX_SEQ \<Longrightarrow> positions (example_kv n swa_type) s = {}"
  by (simp add: positions_def seq_positions_def example_ok)

lemma example_seqs: "ub_seqs (example_kv n swa_type) example_ub = 1" "ub_len (example_kv n swa_type) example_ub = 1"
  by (simp_all add: ub_seqs_def ub_len_def example_ub_def)

lemma example_ubatch: "ubatch_ok (example_kv n swa_type) example_ub"
  unfolding ubatch_ok_def example_seqs
  by (simp add: example_ub_def token_ok_def row_of_def LLAMA_MAX_SEQ_def LLAMA_POS_MAX_def)

lemma example_incoming: "incoming example_ub s = (if s = 0 then {0} else {})"
  by (auto simp: incoming_def example_ub_def row_of_def)

lemma example_fresh: "fresh (example_kv n swa_type) example_ub"
  by (simp add: fresh_def example_positions)

lemma example_room: "0 < n \<Longrightarrow> \<not> no_room (example_kv n swa_type) example_ub False 0"
proof -
  assume n: "0 < n"
  have "free_cells (example_kv n swa_type) example_ub 0 = {..<n}"
    by (auto simp: free_cells_def example_ok usable_size_def usable_cell_def example_ub_def LLAMA_MAX_SEQ_def)
  then show ?thesis using n by (simp add: no_room_def no_prefix_def example_seqs)
qed

lemma kv_find_slot_exact_witness:
  "\<exists>sl. find_slot example_ub False (example_kv 2 LLAMA_SWA_TYPE_STANDARD) = Some sl \<and> \<not> slot_empty sl \<and> slot_strm sl = [0]"
proof -
  let ?kv = "example_kv 2 LLAMA_SWA_TYPE_STANDARD"
  have room: "\<not> (\<exists>c<ub_seqs ?kv example_ub. no_room ?kv example_ub False c)" using example_room [of 2] by (simp add: example_seqs)
  have "map (ub_stream ?kv example_ub) [0..<ub_seqs ?kv example_ub] = [0]"
    unfolding example_seqs by (simp add: example_ub_def LLAMA_MAX_SEQ_def)
  then show ?thesis using kv_find_slot_exact [OF example_ok(1) example_ubatch, of False 2 LLAMA_SWA_TYPE_STANDARD] room by auto
qed

lemma example_slot: "\<exists>sl. find_slot example_ub False (example_kv 2 swa_type) = Some sl \<and> \<not> slot_empty sl \<and> slot_strm sl = [0]"
proof -
  let ?kv = "example_kv 2 swa_type"
  obtain sl where sl: "find_slot example_ub False ?kv = Some sl" "slot_empty sl \<longleftrightarrow> (\<exists>s<ub_seqs ?kv example_ub. no_room ?kv example_ub False s)"
    "\<not> slot_empty sl \<longrightarrow> length (slot_strm sl) = ub_seqs ?kv example_ub \<and> (\<forall>s<ub_seqs ?kv example_ub. slot_strm sl ! s = ub_stream ?kv example_ub s)"
    using find_slot_result [OF example_ok(1) example_ubatch, of False 2 swa_type] by auto
  have "\<not> slot_empty sl" using sl(2) example_room [of 2 swa_type] by (simp add: example_seqs)
  moreover have "length (slot_strm sl) = 1" "slot_strm sl ! 0 = 0"
    using sl(3) calculation unfolding example_seqs by (simp_all add: example_ub_def LLAMA_MAX_SEQ_def)
  then have "slot_strm sl = [0]" by (simp add: list_eq_iff_nth_eq)
  ultimately show ?thesis using sl(1) by blast
qed

lemma kv_attention_exact_witness:
  "\<exists>sl kv' n. find_slot example_ub False (example_kv 2 LLAMA_SWA_TYPE_STANDARD) = Some sl \<and>
    apply_ubatch sl example_ub (example_kv 2 LLAMA_SWA_TYPE_STANDARD) = Some kv' \<and> visible kv' True n 0 0 = {0}"
proof -
  let ?kv = "example_kv 2 LLAMA_SWA_TYPE_STANDARD"
  obtain sl where sl: "find_slot example_ub False ?kv = Some sl" "\<not> slot_empty sl" "slot_strm sl = [0]" using example_slot by blast
  obtain kv' n where kv': "apply_ubatch sl example_ub ?kv = Some kv'"
    "\<forall>s p1. s < length (kv_seq_to_stream ?kv) \<longrightarrow> kv_seq_to_stream ?kv ! s \<in> set (slot_strm sl) \<longrightarrow> from_now_on ?kv example_ub s p1 \<longrightarrow>
       visible kv' True n s p1 = {p \<in> positions ?kv s \<union> incoming example_ub s. allowed ?kv True s p1 p}"
    using kv_attention_exact [OF example_ok(1) _ example_ubatch example_fresh sl(1,2), of True] by auto
  have pos: "positions ?kv 0 = {}" by (rule example_positions) (simp add: LLAMA_MAX_SEQ_def)
  have "from_now_on ?kv example_ub 0 0" by (simp add: from_now_on_def pos example_incoming)
  moreover have "allowed ?kv True 0 0 0" by (simp add: allowed_def swa_masked_def window_masked_def to_i32_def)
  ultimately have "visible kv' True n 0 0 = {0}"
    using kv'(2) [rule_format, of 0 0] sl(3) pos by (auto simp: example_incoming LLAMA_MAX_SEQ_def)
  then show ?thesis using sl(1) kv'(1) by blast
qed

lemma kv_mask_exact_witness:
  "\<exists>mask. set_input_kq_mask 7 id False (1, 64, 1, 1) example_ub True (example_kv 2 LLAMA_SWA_TYPE_NONE) (\<lambda>_. 9 :: int) = Some mask \<and>
    mask 0 = 7 \<and> mask 63 = 7 \<and> mask 64 = 9"
proof -
  let ?kv = "example_kv 2 LLAMA_SWA_TYPE_NONE"
  have "rows_ok ?kv example_ub" by (simp add: rows_ok_def example_ub_def seq_ok_def LLAMA_MAX_SEQ_def)
  moreover have "GGML_PAD (ub_n_tokens example_ub div 1) GGML_KQ_MASK_PAD = 64" by (simp add: GGML_PAD_def GGML_KQ_MASK_PAD_def example_ub_def)
  ultimately obtain mask where m: "set_input_kq_mask 7 id False (1, 64, 1, 1) example_ub True ?kv (\<lambda>_. 9 :: int) = Some mask"
    "\<forall>k<1 * 64 * 1 * 1. mask k = (if k div 1 div 64 < 1 \<and> k div 1 mod 64 < ub_n_tokens example_ub div 1
       then token_entry 7 id False ?kv True example_ub (k div 1 div 64 * (ub_n_tokens example_ub div 1) + k div 1 mod 64) (k mod 1) else 7)"
    "\<forall>k\<ge>1 * 64 * 1 * 1. mask k = 9"
    using kv_mask_exact [OF example_ok(1), of 2 LLAMA_SWA_TYPE_NONE example_ub 1 1 64 1 7 id False True "\<lambda>_. 9"] by (auto simp: example_ok(2))
  have "token_entry 7 id False ?kv True example_ub 0 0 = 7"
    by (simp add: token_entry_def mask_entry_def attended_def example_ub_def LLAMA_MAX_SEQ_def example_ok(3))
  then have "mask 0 = 7" "mask 63 = 7" "mask 64 = 9"
    using m(2) [rule_format, of 0] m(2) [rule_format, of 63] m(3) [rule_format, of 64] by (auto simp: example_ub_def)
  then show ?thesis using m(1) by blast
qed

lemma kv_prepare_restores_witness:
  "\<exists>sls kv'. prepare [example_ub] (example_kv 2 LLAMA_SWA_TYPE_NONE) = Some (sls, kv') \<and> stream kv' 0 = [None, None]"
proof -
  have "quiet (example_kv 2 LLAMA_SWA_TYPE_NONE)" by (simp add: quiet_def)
  from kv_prepare_restores [OF example_ok(1,4) this, of "[example_ub]"] example_ubatch obtain sls kv' where
    "prepare [example_ub] (example_kv 2 LLAMA_SWA_TYPE_NONE) = Some (sls, kv')"
    "\<forall>st<kv_n_stream (example_kv 2 LLAMA_SWA_TYPE_NONE). stream kv' st = stream (example_kv 2 LLAMA_SWA_TYPE_NONE) st" by auto
  then show ?thesis using example_ok(3) [of 2 LLAMA_SWA_TYPE_NONE] by (auto simp: numeral_2_eq_2)
qed

lemma kv_calls_safe_witness:
  "\<exists>kv'. run_call (\<lambda>_. None) True (Call_place False example_ub) (example_kv 2 LLAMA_SWA_TYPE_STANDARD) = Some kv' \<and> kv_reachable (\<lambda>_. None) True kv'"
proof -
  have "kv_reachable (\<lambda>_. None) True (example_kv 2 LLAMA_SWA_TYPE_STANDARD)" by (rule kv_reachable.new [OF example_new])
  note calls = kv_calls_safe [OF this]
  have "call_ok (Call_place False example_ub) (example_kv 2 LLAMA_SWA_TYPE_STANDARD)" using example_ubatch by simp
  then show ?thesis using calls by blast
qed





end
