(* ===== verification/Spec2Isabelle.thy ===== *)
theory Spec2Isabelle
  imports IFairy_Cpu Row4_Cpu Batch_Init Grammar_Text Grammar_Repeat KV_Props
begin

text \<open>
  A verification development for ifairy.cpp, a fork of llama.cpp with CPU kernels for complex-valued 2-bit models.
  It models five parts of the program: the iFairy kernels and their table backend, the row-4 linear operators, the
  batch allocator, the KV cache with the decoding loop that drives it, and grammar-constrained sampling. The properties
  are the theorems that follow a text beginning with their number, \<open>C1\<close> to \<open>C40\<close>.

  How the parts interact. \<open>llama_context::decode\<close> hands a batch to the allocator, which checks and completes it and
  splits it into micro batches; the KV cache finds cells for each of them and writes their metadata, and the mask it makes
  from the metadata decides what a token attends to. The graph of a micro batch runs on the CPU backend, whose operators
  on iFairy and row-4 weights are modelled; the sampler then masks the tokens the grammar does not allow.

  Conventions. A failed assertion, an access out of range, a signed overflow and a recursion without end are
  \<open>None\<close>; error codes and exceptions are values (\<open>batch_error\<close>, \<open>parse_error\<close>, a flag for an exception). Bytes, accumulators,
  \<open>size_t\<close> of the row-4 workspace and code points are machine words; positions are integers with the range of
  \<open>int32_t\<close> checked where the code computes with them; counters of cells and tokens are natural numbers, as they stay
  below \<open>2 ^ 31\<close>. Arrays and tensor payloads are lists, or functions of an index or offset. The environment variables are an
  argument. What the code calls and this repository does not define or what depends on the hardware is a parameter: the
  single-precision operations (\<open>float_ops\<close>, \<open>quant_ops\<close>, \<open>row4_float\<close>), the NEON intrinsics (\<open>neon_ops\<close>, whose documented
  effect is \<open>neon_ok\<close>), the outcome of allocations, the computation of a graph (a status) and the regular
  expressions of grammar triggers (matchers).

  Floating point. Kernel theorems hold for any operations, hence for those of the hardware: they say that the integer
  block sums are exact and that the floating accumulation is that of a reference with the same operations in the same
  order (\<open>ifairy_reference\<close>, \<open>vec_dot_reference\<close>, \<open>wide_linear_value\<close>, \<open>row4_reference\<close>). That such a reference is the
  complex product is stated of the reals (\<open>exact_ops\<close>), as a fact on the reference and not on the code.

  \<^bold>\<open>Shared.\<close> \<open>Prelude\<close>: machine types, counted and strided loops, C arithmetic. \<open>Refinement\<close>: assertions, checked
  accesses and folds that may fail, and the locale \<open>functional_refinement\<close>. \<open>Job_Pool\<close>: the static stride and the atomic
  counter of the worker pool, and the locale \<open>job_pool\<close>. \<open>Ggml_Tensor\<close>: the descriptor of \<open>ggml.h\<close> and \<open>ggml.c\<close> (types,
  extents, strides, contiguity, sizes).

  \<^bold>\<open>iFairy kernels\<close> (\<open>ggml/src/ggml-quants.c\<close>, \<open>ggml/src/ggml-cpu/quants.c\<close>, \<open>ggml/src/ggml-cpu/legacy-ifairy\<close>).
  \<open>IFairy_Codes\<close>: blocks of phase codes and their two-weight index encoding; both block sizes interpret the locale
  \<open>two_weight_format\<close>. \<open>IFairy_Lut\<close>: the tables, their sharded preprocessing, the tiles and the portable table product.
  \<open>IFairy_Equiv\<close> proves the sharding (C1) and the scalar product (C2). \<open>IFairy_Direct\<close>: the quantisers, the row dot product
  and the wide linear operator, with C3 to C5. \<open>IFairy_Transform\<close>: the packing of weights and the process-wide cache of
  packed buffers, whose critical sections are functions and whose interleavings are the step relation \<open>lut_step\<close> (C6,
  C7). \<open>IFairy_Cpu\<close>: admission, work sizes, the matrix product over all workers, the graph preparation and the
  dispatcher, which runs the kernels (C8 to C11); the preparation is a client of the locale \<open>weight_packer\<close>, interpreted on
  the packer of \<open>IFairy_Transform\<close>.

  \<^bold>\<open>Row-4 operators\<close> (\<open>ggml/src/ggml-cpu/row4/row4-cpu.cpp\<close>). \<open>Row4_Kernels\<close>: layouts, the activation quantiser and
  the scalar, dot product, direct and panel kernels. \<open>Row4_Equiv\<close>: each computes the same sum. \<open>Row4_Jobs\<close>: their
  jobs interpret \<open>job_pool\<close>, so every distribution of the work gives the same output. \<open>Row4_Cpu\<close>: validation, path,
  workspace and the whole operator (C12 to C15).

  \<^bold>\<open>KV cache\<close> (\<open>src/llama-kv-cells.h\<close>, \<open>src/llama-kv-cache.cpp\<close>). \<open>KV_Cells\<close> has every operation of the class
  \<open>llama_kv_cells\<close>; \<open>KV_Cells_Inv\<close> its invariant; \<open>KV_Cells_Spec\<close> the plain list of cells as its contract, by an
  interpretation of \<open>functional_refinement\<close> (C16 to C18). \<open>KV_Cache\<close> has the operations on sequences and \<open>KV_Slots\<close>
  those on micro batches: \<open>find_slot\<close>, \<open>apply_ubatch\<close>, \<open>prepare\<close>, the context object, the index and mask inputs.
  \<open>KV_Find\<close>, \<open>KV_Place\<close>: the search ends and what it finds. \<open>KV_Ops\<close>, \<open>KV_Inv\<close>, \<open>KV_Apply\<close>: operations as maps on cells, the
  invariant \<open>cache_ok\<close>. \<open>KV_Mask\<close>, \<open>KV_Attention\<close>, \<open>KV_Kq_Mask\<close>: windows, what is visible, the mask tensor.
  \<open>KV_Calls\<close>, \<open>KV_Prepare\<close>: the state machine of the calls; preparing and restoring. \<open>KV_Props\<close> states C19 to C24.

  \<^bold>\<open>Batches and decoding\<close> (\<open>src/llama-batch.cpp\<close>, \<open>src/llama-context.cpp\<close>). \<open>Batch\<close> has \<open>init\<close> and the three splits;
  \<open>Batch_Split\<close> the locale \<open>batch_splitter\<close>, interpreted by the simple split and the split by sequence set there and by
  the split into equal groups in \<open>Batch_Equal\<close>; \<open>Batch_Init\<close> states C25 to C29. \<open>KV_Batch\<close> joins the allocator and the cache, and
  \<open>Decode\<close> has \<open>decode\<close> and \<open>memory_update\<close> (C24).

  \<^bold>\<open>Grammars\<close> (\<open>src/llama-grammar.cpp\<close>). \<open>Grammar_Utf8\<close>: decoding in pieces (C30). \<open>Grammar\<close>: matching, stacks,
  rejection, the search for left recursion; \<open>Grammar_Lang\<close> the language of the rules; \<open>Grammar_Reject\<close>, \<open>Grammar_Left\<close>,
  \<open>Grammar_Cycle\<close>, \<open>Grammar_Total\<close> and \<open>Grammar_Partial\<close> (C36) relate the one to the other and show what returns. \<open>Grammar_Sampler\<close>:
  the grammar of a sampler, initialisation, acceptance and masking; \<open>Grammar_Props\<close> states C31 to C35.
  \<open>Grammar_Parser\<close>: the parser of grammar texts; \<open>Grammar_Parser_Ok\<close>, \<open>Grammar_Text\<close> and \<open>Grammar_Repeat\<close> state C37 to C40.

  Bounds and fuel. The parser's recursion has \<open>2 * length + 2\<close> units of fuel for a text, and its loop over the rules one per
  byte and one more; C39 shows that a text never uses them up. Symbol numbers stay below \<open>2 ^ 32\<close>, which is a premise where it
  matters. Advancing a stack and the search loop of \<open>find_slot\<close> are partial functions, as their loops are unbounded in the
  code: C20 and C33 show when they return and C35 when they do not. The other loops are total functions with
  their measures. The accumulators of the row-4 kernels wrap at 32 bits; C14 gives the inner dimensions below which none does.

  Not modelled: vector versions of the iFairy kernels (NEON, AVX2, AVX-512), so the four-matrix table kernel returns \<open>false\<close>
  as in a build without them; \<open>ggml_legacy_ifairy_cpu_try_quantize_mul_mat_src1\<close>, a hook that quantises activations
  early; saving and loading the state of the cache (file I/O), creation of its tensors and graphs; the contents of outputs,
  the encoder and the other entry points of \<open>llama_context\<close>; printing and logging; the rest of ggml, the vocabulary, model
  loading, the floating-point samplers, chat templates, tools and vendored code.
\<close>

end
